(* ===== verification/Prelude.thy ===== *)
theory Prelude
  imports Main "HOL-Library.Word"
begin

unbundle bit_operations_syntax

text \<open>
  What every component shares: Go's fixed-width integers, errors and panics as the values of
  one error type, the result type with its sequencing operation, and the facts about lists and
  words the components use.  A Go function that can return an error or panic is modelled with
  result type \<open>'a res\<close>: the left summand is the error value (or the panic), the right one
  is the result.
\<close>

section \<open>Machine integers and byte slices\<close>

type_synonym byte = "8 word"
type_synonym u16 = "16 word"
type_synonym u32 = "32 word"
type_synonym u64 = "64 word"

section \<open>Errors, panics and results\<close>

text \<open>
  \<open>Panic\<close> carries the message of a run-time panic, \<open>ErrorNew\<close> the message of an
  \<open>errors.New\<close> value; the other constructors are the sentinel error values that the
  code compares by identity or by type.
\<close>

datatype go_error =
    Panic string
  | ErrorNew string
  | IoEOF
  | IoErrUnexpectedEOF
  | OsErrNotExist
  | NoPacketsFoundError
  | NotEnoughParityShardsError

type_synonym 'a res = "go_error + 'a"

fun is_panic :: "'a res \<Rightarrow> bool" where
  "is_panic (Inl (Panic _)) = True"
| "is_panic _ = False"

definition index_panic :: go_error where
  "index_panic = Panic ''index out of range''"

definition slice_panic :: go_error where
  "slice_panic = Panic ''slice bounds out of range''"

named_theorems res_simps "unfolding of the result operations"

definition bindR :: "'a res \<Rightarrow> ('a \<Rightarrow> 'b res) \<Rightarrow> 'b res" where
  "bindR m f = (case m of Inl e \<Rightarrow> Inl e | Inr x \<Rightarrow> f x)"

lemma bindR_simps [simp, res_simps]:
  "bindR (Inl e) f = Inl e"
  "bindR (Inr x) f = f x"
  by (simp_all add: bindR_def)

lemma bindR_cong [fundef_cong]:
  "m = m' \<Longrightarrow> (\<And>x. m' = Inr x \<Longrightarrow> f x = f' x) \<Longrightarrow> bindR m f = bindR m' f'"
  by (cases m') auto

lemma bindR_Inr_iff: "bindR m f = Inr y \<longleftrightarrow> (\<exists>x. m = Inr x \<and> f x = Inr y)"
  by (cases m) auto

lemma bindR_Inl_iff: "bindR m f = Inl e \<longleftrightarrow> m = Inl e \<or> (\<exists>x. m = Inr x \<and> f x = Inl e)"
  by (cases m) auto

lemma bindR_InrE:
  assumes "bindR m f = Inr y"
  obtains x where "m = Inr x" "f x = Inr y"
  using assms by (auto simp: bindR_Inr_iff)

lemma bindR_assoc: "bindR (bindR m f) g = bindR m (\<lambda>x. bindR (f x) g)"
  by (cases m) auto

text \<open>\<open>if !b { return e }\<close> before the rest of a function.\<close>

definition check :: "bool \<Rightarrow> go_error \<Rightarrow> unit res" where
  "check b e = (if b then Inr () else Inl e)"

lemma check_simps [simp, res_simps]:
  "b \<Longrightarrow> check b e = Inr ()"
  "\<not> b \<Longrightarrow> check b e = Inl e"
  "check b e = Inr u \<longleftrightarrow> b"
  "check b e = Inl e' \<longleftrightarrow> \<not> b \<and> e' = e"
  by (auto simp: check_def)

text \<open>Sequencing over a list; the first error ends the loop, as a \<open>return err\<close> does.\<close>

fun mapR :: "('a \<Rightarrow> 'b res) \<Rightarrow> 'a list \<Rightarrow> 'b list res" where
  "mapR f [] = Inr []"
| "mapR f (x # xs) = bindR (f x) (\<lambda>y. bindR (mapR f xs) (\<lambda>ys. Inr (y # ys)))"

lemma mapR_Inr_iff:
  "mapR f xs = Inr ys \<longleftrightarrow> list_all2 (\<lambda>x y. f x = Inr y) xs ys"
proof (induction xs arbitrary: ys)
  case Nil
  then show ?case by auto
next
  case (Cons x xs)
  then show ?case by (cases ys) (auto simp: bindR_Inr_iff list_all2_Cons1)
qed

lemma mapR_Inr_map: "(\<And>x. x \<in> set xs \<Longrightarrow> f x = Inr (g x)) \<Longrightarrow> mapR f xs = Inr (map g xs)"
  by (induction xs) auto

fun foldR :: "('a \<Rightarrow> 's \<Rightarrow> 's res) \<Rightarrow> 'a list \<Rightarrow> 's \<Rightarrow> 's res" where
  "foldR f [] s = Inr s"
| "foldR f (x # xs) s = bindR (f x s) (foldR f xs)"

lemma foldR_append: "foldR f (xs @ ys) s = bindR (foldR f xs s) (foldR f ys)"
proof (induction xs arbitrary: s)
  case (Cons x xs)
  then show ?case by (cases "f x s") auto
qed simp

lemma foldR_cong [fundef_cong]:
  "xs = ys \<Longrightarrow> (\<And>x t. x \<in> set ys \<Longrightarrow> f x t = g x t) \<Longrightarrow> foldR f xs s = foldR g ys s"
proof (induction xs arbitrary: ys s)
  case (Cons x xs)
  have "foldR f xs = foldR g xs" by (rule ext) (use Cons in auto)
  with Cons.prems show ?case by (auto simp del: Cons.prems(1))
qed simp

lemma foldR_map: "foldR f (map g xs) s = foldR (\<lambda>x. f (g x)) xs s"
proof (induction xs arbitrary: s)
  case (Cons x xs)
  have "foldR f (map g xs) = foldR (\<lambda>x. f (g x)) xs" by (rule ext) (rule Cons.IH)
  then show ?case by simp
qed simp

lemma foldR_invariant:
  assumes "foldR f xs s = Inr s'" and "P s"
    and "\<And>x t t'. x \<in> set xs \<Longrightarrow> P t \<Longrightarrow> f x t = Inr t' \<Longrightarrow> P t'"
  shows "P s'"
  using assms
proof (induction xs arbitrary: s)
  case Nil
  then show ?case by simp
next
  case (Cons x xs)
  from Cons.prems(1) obtain t where t: "f x s = Inr t" "foldR f xs t = Inr s'"
    by (auto simp: bindR_Inr_iff)
  then have "P t" using Cons.prems by (meson list.set_intros(1))
  then show ?case using Cons.IH [OF t(2)] Cons.prems(3) by (meson list.set_intros(2))
qed

section \<open>Slices\<close>

text \<open>Reading \<open>xs[i]\<close> and slicing \<open>xs[a:b]\<close>, with the panic Go raises out of range.\<close>

definition index_at :: "'a list \<Rightarrow> nat \<Rightarrow> 'a res" where
  "index_at xs i = (if i < length xs then Inr (xs ! i) else Inl index_panic)"

definition slice :: "'a list \<Rightarrow> nat \<Rightarrow> nat \<Rightarrow> 'a list" where
  "slice xs a b = take (b - a) (drop a xs)"

definition slice_at :: "'a list \<Rightarrow> nat \<Rightarrow> nat \<Rightarrow> 'a list res" where
  "slice_at xs a b = (if a \<le> b \<and> b \<le> length xs then Inr (slice xs a b) else Inl slice_panic)"

text \<open>Writing a sub-slice back into the slice it is a window of.\<close>

definition splice :: "'a list \<Rightarrow> nat \<Rightarrow> 'a list \<Rightarrow> 'a list" where
  "splice xs a ys = take a xs @ ys @ drop (a + length ys) xs"

lemma length_slice [simp]: "length (slice xs a b) = min (b - a) (length xs - a)"
  by (simp add: slice_def)

lemma nth_slice: "i < b - a \<Longrightarrow> a + i < length xs \<Longrightarrow> slice xs a b ! i = xs ! (a + i)"
  by (simp add: slice_def)

lemma slice_full [simp]: "slice xs 0 (length xs) = xs"
  by (simp add: slice_def)

lemma slice_append_skip [simp]: "slice (xs @ ys) (length xs) (length xs + n) = take n ys"
  by (simp add: slice_def)

lemma length_splice [simp]: "a + length ys \<le> length xs \<Longrightarrow> length (splice xs a ys) = length xs"
  by (simp add: splice_def)

lemma nth_splice:
  assumes "a + length ys \<le> length xs" and "i < length xs"
  shows "splice xs a ys ! i = (if a \<le> i \<and> i < a + length ys then ys ! (i - a) else xs ! i)"
  using assms by (auto simp: splice_def nth_append min_def)

lemma slice_splice [simp]:
  "a + length ys \<le> length xs \<Longrightarrow> slice (splice xs a ys) a (a + length ys) = ys"
  by (simp add: splice_def slice_def)

lemma splice_slice [simp]: "a \<le> b \<Longrightarrow> b \<le> length xs \<Longrightarrow> splice xs a (slice xs a b) = xs"
  by (rule nth_equalityI) (auto simp: nth_splice nth_slice)

lemma index_at_simps [simp]: "i < length xs \<Longrightarrow> index_at xs i = Inr (xs ! i)"
  by (simp add: index_at_def)

lemma slice_at_simps [simp]: "a \<le> b \<Longrightarrow> b \<le> length xs \<Longrightarrow> slice_at xs a b = Inr (slice xs a b)"
  by (simp add: slice_at_def)

section \<open>Little-endian integers\<close>

text \<open>\<open>binary.LittleEndian.PutUintN\<close> and \<open>UintN\<close>, for any width that is a multiple of 8.\<close>

fun le_bytes :: "nat \<Rightarrow> 'a::len word \<Rightarrow> byte list" where
  "le_bytes 0 w = []"
| "le_bytes (Suc n) w = ucast w # le_bytes n (drop_bit 8 w)"

fun le_word :: "byte list \<Rightarrow> 'a::len word" where
  "le_word [] = 0"
| "le_word (b # bs) = ucast b OR push_bit 8 (le_word bs)"

lemma length_le_bytes [simp]: "length (le_bytes n w) = n"
  by (induction n arbitrary: w) auto

lemma le_word_le_bytes: "le_word (le_bytes n w) = take_bit (8 * n) w"
proof (induction n arbitrary: w)
  case 0
  then show ?case by simp
next
  case (Suc n)
  show ?case
    by (rule bit_word_eqI) (auto simp: Suc bit_simps)
qed

lemma le_word_le_bytes_id [simp]:
  assumes "LENGTH('a) \<le> 8 * n"
  shows "le_word (le_bytes n (w :: 'a::len word)) = w"
  by (rule bit_word_eqI) (use assms in \<open>auto simp: le_word_le_bytes bit_simps\<close>)

lemma le_bytes_le_word:
  "8 * length bs \<le> LENGTH('a) \<Longrightarrow> le_bytes (length bs) (le_word bs :: 'a::len word) = bs"
proof (induction bs)
  case Nil
  then show ?case by simp
next
  case (Cons b bs)
  have lo: "ucast (ucast b OR push_bit 8 (le_word bs :: 'a word)) = b"
    using Cons.prems by (intro bit_word_eqI) (auto simp: bit_simps)
  have hi: "drop_bit 8 (ucast b OR push_bit 8 (le_word bs :: 'a word))
      = take_bit (LENGTH('a) - 8) (le_word bs)"
    by (rule bit_word_eqI) (auto simp: bit_simps dest: bit_imp_le_length)
  have "take_bit (LENGTH('a) - 8) (le_word bs :: 'a word) = le_word bs"
  proof -
    have small: "bit (le_word cs :: 'a word) k \<Longrightarrow> k < 8 * length cs" for k and cs :: "byte list"
    proof (induction cs arbitrary: k)
      case Nil
      then show ?case by simp
    next
      case (Cons c cs)
      from Cons.prems consider "k < 8" | "8 \<le> k" "bit (le_word cs :: 'a word) (k - 8)"
        by (auto simp: bit_simps dest: bit_imp_le_length)
      then show ?case
      proof cases
        case 2
        from Cons.IH [OF 2(2)] 2(1) show ?thesis by simp
      qed simp
    qed
    show ?thesis
      using small [of bs] Cons.prems by (intro bit_word_eqI) (force simp: bit_simps)
  qed
  with lo hi Cons show ?case by simp
qed

lemma le_word_inj:
  assumes "length bs = n" "length cs = n" "8 * n \<le> LENGTH('a)"
    and "(le_word bs :: 'a::len word) = le_word cs"
  shows "bs = cs"
  by (metis assms le_bytes_le_word)

end
