(* ===== verification/Poly64.thy ===== *)
theory Poly64
  imports Prelude
begin

text \<open>
  Package \<open>gf2\<close> (src/gf2/poly64.go): polynomials over GF(2) modulo \<open>x^64\<close>, one bit of a
  \<open>uint64\<close> per coefficient.  The loops are the source's loops; the theorems relate the product to
  the convolution of the coefficients and the division loop to Euclidean division.
\<close>

section \<open>Operations\<close>

type_synonym Poly64 = "64 word"

definition Poly64_Plus :: "Poly64 \<Rightarrow> Poly64 \<Rightarrow> Poly64" where
  "Poly64_Plus p q = p XOR q"

definition Poly64_Minus :: "Poly64 \<Rightarrow> Poly64 \<Rightarrow> Poly64" where
  "Poly64_Minus p q = p XOR q"

text \<open>The loop of \<open>Times\<close>; its state is the pair of factors and the partial product.\<close>

lemma unat_drop_bit_less: "q \<noteq> 0 \<Longrightarrow> unat (drop_bit (Suc 0) q) < unat (q :: 'a::len word)"
proof -
  assume "q \<noteq> 0"
  then have "unat q div 2 < unat q" by (simp add: unat_gt_0)
  also have "unat q div 2 = unat (drop_bit (Suc 0) q)"
    unfolding unat_drop_bit_eq by (simp add: drop_bit_eq_div)
  finally show ?thesis .
qed

function Poly64_Times_loop :: "Poly64 \<Rightarrow> Poly64 \<Rightarrow> Poly64 \<Rightarrow> Poly64" where
  "Poly64_Times_loop p q prd =
     (if p \<noteq> 0 \<and> q \<noteq> 0
      then Poly64_Times_loop (push_bit 1 p) (drop_bit 1 q) (if q AND 1 \<noteq> 0 then prd XOR p else prd)
      else prd)"
  by pat_completeness auto
termination
  by (relation "measure (\<lambda>(p, q, prd). unat q)") (auto simp only: in_measure split_conv One_nat_def wf_measure intro!: unat_drop_bit_less)

declare Poly64_Times_loop.simps [simp del]

definition Poly64_Times :: "Poly64 \<Rightarrow> Poly64 \<Rightarrow> Poly64" where
  "Poly64_Times p q = Poly64_Times_loop p q 0"

text \<open>\<open>ilog2(n)\<close>: the loop shifts first and counts only while the shifted value is non-zero.\<close>

function ilog2_loop :: "u64 \<Rightarrow> nat \<Rightarrow> nat" where
  "ilog2_loop n r = (let n' = drop_bit 1 n in if n' = 0 then r else ilog2_loop n' (Suc r))"
  by pat_completeness auto
termination
proof (relation "measure (\<lambda>(n, r). unat n)")
  fix n n' :: u64 and r :: nat
  assume n': "n' = drop_bit 1 n" "n' \<noteq> 0"
  then have "n \<noteq> 0" by auto
  with n' show "((n', Suc r), (n, r)) \<in> measure (\<lambda>(n, r). unat n)"
    by (simp add: unat_drop_bit_less)
qed simp

declare ilog2_loop.simps [simp del]

definition ilog2 :: "u64 \<Rightarrow> nat" where
  "ilog2 n = ilog2_loop n 0"

section \<open>The value of \<open>ilog2\<close>\<close>

text \<open>\<open>top_bit n k\<close>: bit \<open>k\<close> is the highest bit of \<open>n\<close>.\<close>

definition top_bit :: "'a::len word \<Rightarrow> nat \<Rightarrow> bool" where
  "top_bit n k \<longleftrightarrow> bit n k \<and> (\<forall>j>k. \<not> bit n j)"

lemma top_bit_unique: "top_bit n k \<Longrightarrow> top_bit n j \<Longrightarrow> k = j"
  by (metis linorder_neqE_nat top_bit_def)

lemma top_bit_drop: "top_bit (drop_bit 1 n) k \<Longrightarrow> top_bit n (Suc k)"
  unfolding top_bit_def
proof (intro conjI allI impI)
  assume d: "bit (drop_bit 1 n) k \<and> (\<forall>j>k. \<not> bit (drop_bit 1 n) j)"
  then show "bit n (Suc k)" by (simp add: bit_drop_bit_eq)
  fix j assume "Suc k < j"
  then obtain i where i: "j = Suc i" "k < i" by (cases j) auto
  with d have "\<not> bit (drop_bit 1 n) i" by blast
  with i show "\<not> bit n j" by (simp add: bit_drop_bit_eq)
qed

lemma top_bit_one: "n \<noteq> 0 \<Longrightarrow> drop_bit 1 n = 0 \<Longrightarrow> top_bit (n :: 'a::len word) 0"
proof -
  assume n: "n \<noteq> 0" and d: "drop_bit 1 n = 0"
  have hi: "\<not> bit n (Suc j)" for j
    using arg_cong [OF d, of "\<lambda>w. bit w j"] by (simp add: bit_drop_bit_eq)
  have "bit n 0"
  proof (rule ccontr)
    assume "\<not> bit n 0"
    have "\<not> bit n j" for j using hi \<open>\<not> bit n 0\<close> by (cases j) auto
    then have "n = 0" by (intro bit_word_eqI) simp
    with n show False by simp
  qed
  moreover have "\<not> bit n j" if "0 < j" for j using hi that by (cases j) auto
  ultimately show ?thesis by (simp add: top_bit_def)
qed

lemma ilog2_loop_top_bit:
  "n \<noteq> 0 \<Longrightarrow> \<exists>k. top_bit n k \<and> ilog2_loop n r = r + k"
proof (induction n r rule: ilog2_loop.induct)
  case (1 n r)
  show ?case
  proof (cases "drop_bit 1 n = 0")
    case True
    with 1 show ?thesis by (auto simp: ilog2_loop.simps [of n r] intro: top_bit_one)
  next
    case False
    with 1 obtain k where "top_bit (drop_bit 1 n) k" "ilog2_loop (drop_bit 1 n) (Suc r) = Suc r + k"
      by auto
    with False show ?thesis
      by (intro exI [of _ "Suc k"]) (auto simp: ilog2_loop.simps [of n r] Let_def intro: top_bit_drop)
  qed
qed

lemma ilog2_top_bit: "n \<noteq> 0 \<Longrightarrow> top_bit n (ilog2 n)"
  using ilog2_loop_top_bit [of n 0] by (auto simp: ilog2_def)

lemma ilog2_less_64: "n \<noteq> 0 \<Longrightarrow> ilog2 n < 64"
  using ilog2_top_bit [of n] by (auto simp: top_bit_def dest: bit_imp_le_length)

lemma top_bit_ilog2: "top_bit n k \<Longrightarrow> ilog2 n = k"
  by (metis bit_0_eq bot_apply bot_bool_def ilog2_top_bit top_bit_def top_bit_unique)

lemma top_bit_less: "top_bit n k \<Longrightarrow> unat n < 2 ^ Suc k"
proof -
  assume t: "top_bit n k"
  then have "take_bit (Suc k) n = n"
    by (intro bit_word_eqI) (auto simp: bit_take_bit_iff top_bit_def not_less_eq)
  then have "unat n = take_bit (Suc k) (unat n)" by (metis unsigned_take_bit_eq)
  then show ?thesis by (metis take_bit_nat_less_exp)
qed

lemma top_bit_ge: "top_bit n k \<Longrightarrow> 2 ^ k \<le> unat n"
proof -
  assume "top_bit n k"
  then have "bit (unat n) k" by (simp add: top_bit_def bit_unsigned_iff)
  then show ?thesis
    by (metis bit_iff_odd div_less even_zero linorder_not_less)
qed

lemma ilog2_bounds: "n \<noteq> 0 \<Longrightarrow> 2 ^ ilog2 n \<le> unat n \<and> unat n < 2 ^ Suc (ilog2 n)"
  using ilog2_top_bit [of n] top_bit_ge top_bit_less by blast

section \<open>The product is the convolution of the coefficients\<close>

definition conv :: "Poly64 \<Rightarrow> Poly64 \<Rightarrow> nat \<Rightarrow> nat" where
  "conv p q n = (\<Sum>i\<le>n. of_bool (bit q i \<and> bit p (n - i)))"

lemma conv_step:
  assumes "n < 64"
  shows "conv p q n = of_bool (bit q 0 \<and> bit p n) + conv (push_bit 1 p) (drop_bit 1 q) n"
proof -
  have "conv (push_bit 1 p) (drop_bit 1 q) n
      = (\<Sum>i\<le>n. of_bool (bit q (Suc i) \<and> i < n \<and> bit p (n - Suc i)))"
    unfolding conv_def bit_push_bit_iff bit_drop_bit_eq
    using assms by (intro sum.cong) (auto dest: bit_imp_le_length)
  also have "\<dots> = (\<Sum>i<n. of_bool (bit q (Suc i) \<and> bit p (n - Suc i)))"
    by (subst lessThan_Suc_atMost [symmetric], subst sum.lessThan_Suc) (auto intro!: sum.cong simp del: sum_of_bool_eq)
  finally show ?thesis
    unfolding conv_def by (subst sum.atMost_shift) (simp del: sum_of_bool_eq)
qed

lemma Poly64_Times_loop_bit:
  "n < 64 \<Longrightarrow> bit (Poly64_Times_loop p q prd) n \<longleftrightarrow> (bit prd n \<noteq> odd (conv p q n))"
proof (induction p q prd rule: Poly64_Times_loop.induct)
  case (1 p q prd)
  show ?case
  proof (cases "p \<noteq> 0 \<and> q \<noteq> 0")
    case True
    then have "bit (Poly64_Times_loop p q prd) n \<longleftrightarrow>
        (bit (if q AND 1 \<noteq> 0 then prd XOR p else prd) n
          \<noteq> odd (conv (push_bit 1 p) (drop_bit 1 q) n))"
      using 1 by (subst Poly64_Times_loop.simps) simp
    moreover have "q AND 1 \<noteq> 0 \<longleftrightarrow> bit q 0"
      by (simp add: and_one_eq bit_0 mod_2_eq_odd)
    ultimately show ?thesis
      using conv_step [OF "1.prems", of p q] by (auto simp: bit_simps)
  next
    case False
    then show ?thesis
      by (auto simp: Poly64_Times_loop.simps [of p q] conv_def)
  qed
qed

lemma bit_Poly64_Times: "bit (Poly64_Times p q) n \<longleftrightarrow> n < 64 \<and> odd (conv p q n)"
  using Poly64_Times_loop_bit [of n p q 0] bit_imp_le_length [of "Poly64_Times p q" n]
  by (auto simp: Poly64_Times_def)

lemma conv_commute: "conv p q n = conv q p n"
  unfolding conv_def
  by (rule sum.reindex_bij_witness [of _ "\<lambda>i. n - i" "\<lambda>i. n - i"]) auto

lemma odd_sum_xor:
  "odd (\<Sum>i\<in>A. of_bool (f i \<noteq> g i) :: nat) \<longleftrightarrow> odd (\<Sum>i\<in>A. of_bool (f i) :: nat) \<noteq> odd (\<Sum>i\<in>A. of_bool (g i) :: nat)"
  by (induction A rule: infinite_finite_induct) (auto simp del: sum_of_bool_eq)

lemma Poly64_Times_commute: "Poly64_Times p q = Poly64_Times q p"
  by (rule bit_word_eqI) (simp add: bit_Poly64_Times conv_commute [of p q])

lemma Poly64_Times_xor: "Poly64_Times p (q XOR r) = Poly64_Times p q XOR Poly64_Times p r"
proof (rule bit_word_eqI)
  fix n
  have "conv p (q XOR r) n
      = (\<Sum>i\<le>n. of_bool ((bit q i \<and> bit p (n - i)) \<noteq> (bit r i \<and> bit p (n - i))))"
    unfolding conv_def by (rule sum.cong) (auto simp: bit_simps)
  then have "odd (conv p (q XOR r) n) \<longleftrightarrow> odd (conv p q n) \<noteq> odd (conv p r n)"
    by (simp only: odd_sum_xor) (simp only: conv_def)
  then show "bit (Poly64_Times p (q XOR r)) n \<longleftrightarrow> bit (Poly64_Times p q XOR Poly64_Times p r) n"
    by (auto simp: bit_Poly64_Times bit_simps)
qed

lemma Poly64_Times_xor_left: "Poly64_Times (q XOR r) p = Poly64_Times q p XOR Poly64_Times r p"
  by (metis Poly64_Times_commute Poly64_Times_xor)

lemma Poly64_Times_zero [simp]: "Poly64_Times p 0 = 0" "Poly64_Times 0 p = 0"
  by (simp_all add: Poly64_Times_def Poly64_Times_loop.simps)

lemma Poly64_Times_monomial: "Poly64_Times (push_bit d 1) p = push_bit d p"
proof (rule bit_word_eqI)
  fix n assume "n < LENGTH(64)"
  then have n: "n < 64" by simp
  have "conv (push_bit d 1) p n = (\<Sum>i\<le>n. of_bool (i = n - d \<and> d \<le> n \<and> bit p (n - d)))"
    unfolding conv_def using n by (intro sum.cong) (auto simp: bit_simps bit_1_iff)
  also have "\<dots> = of_bool (d \<le> n \<and> bit p (n - d))"
    by (cases "d \<le> n \<and> bit p (n - d)") (auto simp: of_bool_def)
  finally show "bit (Poly64_Times (push_bit d 1) p) n \<longleftrightarrow> bit (push_bit d p) n"
    using n by (auto simp: bit_Poly64_Times bit_simps)
qed

section \<open>Euclidean division\<close>

text \<open>
  The loop of \<open>Div\<close>.  The source reaches it only with a non-zero divisor; the disjunct
  \<open>p2 = 0\<close> of the exit condition stands for the panic before the loop.
\<close>

lemma top_bit_xor_less:
  assumes "top_bit r k" "top_bit s k"
  shows "unat (r XOR s) < unat (r :: 'a::len word)"
proof -
  have "take_bit k (r XOR s) = r XOR s"
    using assms by (intro bit_word_eqI) (auto simp: top_bit_def bit_simps not_less nat_less_le)
  then have "unat (r XOR s) = take_bit k (unat (r XOR s))" by (metis unsigned_take_bit_eq)
  then have "unat (r XOR s) < 2 ^ k" by (metis take_bit_nat_less_exp)
  with top_bit_ge [OF assms(1)] show ?thesis by simp
qed

lemma top_bit_push:
  assumes "top_bit (p :: 'a::len word) j" "j + d < LENGTH('a)"
  shows "top_bit (push_bit d p) (j + d)"
  using assms unfolding top_bit_def by (auto simp: bit_simps)

lemma Div_step_less:
  assumes "p2 \<noteq> 0" "r \<noteq> 0" "\<not> ilog2 r < ilog2 p2"
  shows "unat (r XOR push_bit (ilog2 r - ilog2 p2) p2) < unat r"
proof (rule top_bit_xor_less)
  show "top_bit r (ilog2 r)" using assms(2) by (rule ilog2_top_bit)
  have "top_bit (push_bit (ilog2 r - ilog2 p2) p2) (ilog2 p2 + (ilog2 r - ilog2 p2))"
    using assms ilog2_less_64 [of r] by (intro top_bit_push ilog2_top_bit) auto
  then show "top_bit (push_bit (ilog2 r - ilog2 p2) p2) (ilog2 r)" using assms(3) by simp
qed

function Poly64_Div_loop :: "Poly64 \<Rightarrow> Poly64 \<Rightarrow> Poly64 \<Rightarrow> Poly64 \<times> Poly64" where
  "Poly64_Div_loop p2 q r =
     (if p2 = 0 \<or> r = 0 then (q, r)
      else if ilog2 r < ilog2 p2 then (q, r)
      else let dlog2 = ilog2 r - ilog2 p2
           in Poly64_Div_loop p2 (q XOR push_bit dlog2 1) (r XOR push_bit dlog2 p2))"
  by pat_completeness auto
termination
  by (relation "measure (\<lambda>(p2, q, r). unat r)") (auto intro: Div_step_less)

declare Poly64_Div_loop.simps [simp del]

definition Poly64_Div :: "Poly64 \<Rightarrow> Poly64 \<Rightarrow> (Poly64 \<times> Poly64) res" where
  "Poly64_Div p p2 =
     (if p2 = 0 then Inl (Panic ''division by zero'')
      else Inr (Poly64_Div_loop p2 0 p))"

lemma Poly64_Div_loop_invariant:
  assumes "p2 \<noteq> 0" and "Poly64_Div_loop p2 q r = (q', r')"
  shows "Poly64_Times q' p2 XOR r' = Poly64_Times q p2 XOR r \<and> (r' = 0 \<or> ilog2 r' < ilog2 p2)"
  using assms
proof (induction p2 q r rule: Poly64_Div_loop.induct)
  case (1 p2 q r)
  let ?d = "ilog2 r - ilog2 p2"
  show ?case
  proof (cases "r = 0 \<or> ilog2 r < ilog2 p2")
    case True
    with "1.prems" have "(q', r') = (q, r)"
      by (subst (asm) Poly64_Div_loop.simps) (auto split: if_splits)
    with True show ?thesis by auto
  next
    case False
    with "1.prems" have go: "Poly64_Div_loop p2 (q XOR push_bit ?d 1) (r XOR push_bit ?d p2) = (q', r')"
      by (subst (asm) Poly64_Div_loop.simps) (auto simp: Let_def split: if_splits)
    have "Poly64_Times (q XOR push_bit ?d 1) p2 XOR (r XOR push_bit ?d p2) = Poly64_Times q p2 XOR r"
      unfolding Poly64_Times_xor_left Poly64_Times_monomial
      by (rule bit_word_eqI) (auto simp: bit_xor_iff)
    with "1.IH" [OF _ _ refl _ go] False \<open>p2 \<noteq> 0\<close> show ?thesis by auto
  qed
qed

section \<open>Properties\<close>

text \<open>
  \<open>Times\<close> computes the product of polynomials over GF(2) modulo \<open>x^64\<close>: the coefficient of
  \<open>x^n\<close> is the parity of the number of pairs of set coefficients whose degrees add up to \<open>n\<close>.
\<close>

lemma Poly64_Times_convolution:
  "bit (Poly64_Times p q) n = (n < 64 \<and> odd (card {i. i \<le> n \<and> bit q i \<and> bit p (n - i)}))"
proof -
  have "conv p q n = card ({..n} \<inter> {i. bit q i \<and> bit p (n - i)})"
    unfolding conv_def by (subst sum_of_bool_eq) simp_all
  also have "{..n} \<inter> {i. bit q i \<and> bit p (n - i)} = {i. i \<le> n \<and> bit q i \<and> bit p (n - i)}" by auto
  finally show ?thesis by (simp add: bit_Poly64_Times)
qed

text \<open>
  \<open>Div\<close> panics exactly for the divisor 0; otherwise it returns quotient and remainder of
  Euclidean division, the remainder being 0 or of a degree below that of the divisor.
\<close>

lemma Poly64_Div_euclidean:
  "(case Poly64_Div p p2 of
      Inl e \<Rightarrow> p2 = 0 \<and> e = Panic ''division by zero''
    | Inr (q, r) \<Rightarrow> p2 \<noteq> 0 \<and> Poly64_Plus (Poly64_Times q p2) r = p \<and> (r = 0 \<or> ilog2 r < ilog2 p2))"
proof (cases "p2 = 0")
  case False
  obtain q r where qr: "Poly64_Div_loop p2 0 p = (q, r)" by fastforce
  from Poly64_Div_loop_invariant [OF False qr] False qr show ?thesis
    by (simp add: Poly64_Div_def Poly64_Plus_def)
qed (simp add: Poly64_Div_def)

end
