(* ===== verification/GF2p16.thy ===== *)
theory GF2p16
  imports Poly64
begin

text \<open>
  The field GF(2^16) of package \<open>gf2p16\<close> (src/gf2p16/t.go).  This theory builds the reference
  arithmetic: addition is XOR, multiplication is \<open>x \<mapsto> x * 2\<close> (shift, then reduce by
  \<open>0x1100b\<close>) applied bit by bit.  It makes the Go type \<open>T\<close> an instance of the library's
  class \<open>field\<close>, with the product equal to the remainder that \<open>gf2.Poly64\<close> computes, so that
  the table-driven operations of the code can be compared with it and every later component can
  use the library's sums and ring automation.
\<close>

section \<open>The type \<open>T\<close> and its additive group\<close>

datatype T = T (raw: u16)

lemma T_eq_iff: "t = u \<longleftrightarrow> raw t = raw u"
  by (cases t; cases u) simp

instantiation T :: ab_group_add
begin

definition "zero_T = T 0"
definition "plus_T t u = T (raw t XOR raw u)"
definition "minus_T t u = T (raw t XOR raw u)"
definition "uminus_T (t :: T) = t"

instance
  by standard (simp_all add: zero_T_def plus_T_def minus_T_def uminus_T_def T_eq_iff ac_simps)

end

lemma raw_zero [simp]: "raw 0 = 0"
  and raw_plus [simp]: "raw (t + u) = raw t XOR raw u"
  and raw_minus [simp]: "raw (t - u) = raw t XOR raw u"
  and raw_uminus [simp]: "raw (- t) = raw t"
  by (simp_all add: zero_T_def plus_T_def minus_T_def uminus_T_def)

lemma T_char2 [simp]: "t + t = (0 :: T)"
  by (simp add: T_eq_iff)

lemma T_minus_eq_plus: "t - u = t + (u :: T)"
  by (simp add: T_eq_iff)

lemma T_uminus_eq: "- t = (t :: T)"
  by (simp add: T_eq_iff)

lemma T_add_self_left [simp]: "t + (t + u) = (u :: T)"
  by (simp add: add.assoc [symmetric])

lemma T_add_eq_0_iff: "t + u = 0 \<longleftrightarrow> t = (u :: T)"
  by (metis T_char2 T_add_self_left add_0_right)

section \<open>Multiplication by \<open>x\<close>\<close>

definition xtime :: "T \<Rightarrow> T" where
  "xtime t = T (push_bit 1 (raw t) XOR (if bit (raw t) 15 then 0x100b else 0))"

lemma xtime_0 [simp]: "xtime 0 = 0"
  by (simp add: xtime_def T_eq_iff)

lemma xtime_add: "xtime (t + u) = xtime t + xtime u"
  unfolding xtime_def T_eq_iff raw_plus T.sel push_bit_xor
  by (rule bit_word_eqI) (auto simp: bit_xor_iff)

abbreviation xpow :: "nat \<Rightarrow> T \<Rightarrow> T" where
  "xpow k \<equiv> xtime ^^ k"

lemma xpow_0 [simp]: "xpow k 0 = 0"
  by (induction k) auto

lemma xpow_add: "xpow k (t + u) = xpow k t + xpow k u"
  by (induction k) (auto simp: xtime_add)

lemma xpow_sum: "xpow k (sum f A) = (\<Sum>i\<in>A. xpow k (f i))"
  by (induction A rule: infinite_finite_induct) (auto simp: xpow_add)

lemmas xtime_sum = xpow_sum [of 1, simplified]

lemma xpow_xpow: "xpow j (xpow k t) = xpow (j + k) t"
  by (simp add: funpow_add)

text \<open>Selecting a summand by a bit.\<close>

definition sel :: "bool \<Rightarrow> T \<Rightarrow> T" where
  "sel b t = (if b then t else 0)"

lemma sel_simps [simp]: "sel True t = t" "sel False t = 0" "sel b 0 = 0"
  by (simp_all add: sel_def)

lemma sel_xor: "sel (b \<noteq> c) t = sel b t + sel c t"
  by (cases b; cases c) auto

lemma sel_add: "sel b (t + u) = sel b t + sel b u"
  by (simp add: sel_def)

lemma xpow_sel: "xpow k (sel b t) = sel b (xpow k t)"
  by (simp add: sel_def)

lemmas xtime_sel = xpow_sel [of 1, simplified]

lemma sel_sum: "sel b (sum f A) = (\<Sum>i\<in>A. sel b (f i))"
  by (simp add: sel_def)

lemma sel_commute: "sel b (sel c t) = sel c (sel b t)"
  by (simp add: sel_def)

section \<open>The product\<close>

instantiation T :: "{times, one}"
begin

definition "one_T = T 1"
definition times_T :: "T \<Rightarrow> T \<Rightarrow> T" where
  "times_T t u = (\<Sum>i<16. sel (bit (raw u) i) (xpow i t))"

instance ..

end

lemma raw_one [simp]: "raw 1 = 1"
  by (simp add: one_T_def)

lemma xpow_one: "k < 16 \<Longrightarrow> xpow k 1 = T (push_bit k 1)"
proof (induction k)
  case 0
  then show ?case by (simp add: one_T_def)
next
  case (Suc k)
  then have "xpow (Suc k) 1 = xtime (T (push_bit k 1))" by simp
  also have "\<dots> = T (push_bit (Suc k) 1)"
    using Suc.prems unfolding xtime_def T.sel
    by (simp add: bit_simps bit_1_iff push_bit_push_bit del: push_bit_of_1)
  finally show ?case .
qed

lemma raw_basis: "n \<le> 16 \<Longrightarrow> raw (\<Sum>i<n. sel (bit (raw t) i) (xpow i 1)) = take_bit n (raw t)"
proof (induction n)
  case 0
  then show ?case by simp
next
  case (Suc n)
  then have "raw (\<Sum>i<Suc n. sel (bit (raw t) i) (xpow i 1))
      = take_bit n (raw t) XOR (if bit (raw t) n then push_bit n 1 else 0)"
    by (simp add: xpow_one sel_def)
  also have "\<dots> = take_bit (Suc n) (raw t)"
    using Suc.prems by (intro bit_word_eqI) (auto simp: bit_simps bit_1_iff less_Suc_eq)
  finally show ?case .
qed

lemma T_basis: "t = (\<Sum>i<16. sel (bit (raw t) i) (xpow i 1))"
  by (simp add: T_eq_iff raw_basis take_bit_word_eq_self)

lemma T_times_expand:
  "t * u = (\<Sum>i<16. \<Sum>j<16. sel (bit (raw u) i \<and> bit (raw t) j) (xpow (i + j) 1))"
proof -
  have "xpow i t = (\<Sum>j<16. sel (bit (raw t) j) (xpow (i + j) 1))" for i
    by (subst T_basis [of t]) (simp add: xpow_sum xpow_sel xpow_xpow)
  then show ?thesis
    by (simp add: times_T_def sel_sum) (auto simp: sel_def intro!: sum.cong)
qed

lemma T_mult_commute: "t * u = u * (t :: T)"
proof -
  have "t * u = (\<Sum>i<16. \<Sum>j<16. sel (bit (raw u) i \<and> bit (raw t) j) (xpow (i + j) 1))"
    by (rule T_times_expand)
  also have "\<dots> = (\<Sum>j<16. \<Sum>i<16. sel (bit (raw u) i \<and> bit (raw t) j) (xpow (i + j) 1))"
    by (rule sum.swap)
  also have "\<dots> = u * t"
    unfolding T_times_expand by (intro sum.cong refl) (simp add: conj_commute add.commute)
  finally show ?thesis .
qed

lemma T_mult_add: "(t + u) * v = t * v + u * (v :: T)"
  by (simp add: times_T_def xpow_add sel_add sum.distrib)

lemma T_mult_xtime: "t * xtime u = xtime (t * u)"
proof -
  have "xtime u * t = xtime (u * t)"
    by (simp add: times_T_def xtime_sum xtime_sel funpow_swap1)
  then show ?thesis by (simp add: T_mult_commute)
qed

lemma T_mult_xpow: "t * xpow k u = xpow k (t * u)"
  by (induction k) (auto simp: T_mult_xtime)

lemma T_mult_0 [simp]: "t * 0 = (0 :: T)" "0 * t = (0 :: T)"
  by (simp_all add: times_T_def)

lemma T_mult_sum: "t * sum f A = (\<Sum>i\<in>A. t * (f i :: T))"
  by (induction A rule: infinite_finite_induct) (auto simp: T_mult_commute [of t] T_mult_add)

lemma T_mult_sel: "t * sel b u = sel b (t * u)"
  by (simp add: sel_def)

lemma T_mult_assoc: "(t * u) * v = t * (u * (v :: T))"
proof -
  have "t * (u * v) = (\<Sum>k<16. sel (bit (raw v) k) (xpow k (t * u)))"
    unfolding times_T_def [of u v] by (simp only: T_mult_sum T_mult_sel T_mult_xpow)
  then show ?thesis by (simp add: times_T_def [of "t * u" v])
qed

lemma T_mult_1 [simp]: "1 * t = (t :: T)"
  by (subst (2) T_basis [of t]) (simp add: times_T_def)

instance T :: comm_ring_1
proof
  fix t u v :: T
  show "t * u * v = t * (u * v)" by (rule T_mult_assoc)
  show "t * u = u * t" by (rule T_mult_commute)
  show "1 * t = t" by (rule T_mult_1)
  show "(t + u) * v = t * v + u * v" by (rule T_mult_add)
  show "(0 :: T) \<noteq> 1" by (simp add: T_eq_iff)
qed

lemma T_mult_xtime_eq: "xtime t = xtime 1 * t"
  by (metis T_mult_xtime mult.commute mult.right_neutral)

section \<open>The product is the one of package \<open>gf2\<close>, reduced\<close>

text \<open>The value of a polynomial at \<open>x\<close>.\<close>

definition poly_val :: "Poly64 \<Rightarrow> T" where
  "poly_val p = (\<Sum>i<64. sel (bit p i) (xpow i 1))"

lemma poly_val_0 [simp]: "poly_val 0 = 0"
  by (simp add: poly_val_def)

lemma poly_val_xor: "poly_val (p XOR q) = poly_val p + poly_val q"
  unfolding poly_val_def bit_xor_iff sel_xor sum.distrib ..

lemma poly_val_ucast: "poly_val (ucast w) = T w"
proof -
  have "poly_val (ucast w) = (\<Sum>i<16. sel (bit w i) (xpow i 1))"
    unfolding poly_val_def
    by (rule sum.mono_neutral_cong_right) (auto simp: bit_simps sel_def dest: bit_imp_le_length)
  then show ?thesis using T_basis [of "T w"] by simp
qed

lemma poly_val_split: "poly_val q = sel (bit q 0) 1 + xtime (poly_val (drop_bit 1 q))"
proof -
  have "poly_val (drop_bit 1 q) = (\<Sum>i<63. sel (bit q (Suc i)) (xpow i 1))"
    unfolding poly_val_def bit_drop_bit_eq
    by (rule sum.mono_neutral_cong_right) (auto simp: sel_def dest: bit_imp_le_length)
  then have "xtime (poly_val (drop_bit 1 q)) = (\<Sum>i<63. sel (bit q (Suc i)) (xpow (Suc i) 1))"
    by (simp add: xtime_sum xtime_sel)
  moreover have "poly_val q = sel (bit q 0) 1 + (\<Sum>i<63. sel (bit q (Suc i)) (xpow (Suc i) 1))"
    unfolding poly_val_def
    using sum.lessThan_Suc_shift [of "\<lambda>i. sel (bit q i) (xpow i 1)" 63] by simp
  ultimately show ?thesis by simp
qed

lemma poly_val_push:
  "(\<And>i. bit p i \<Longrightarrow> i + d < 64) \<Longrightarrow> poly_val (push_bit d p) = xpow d (poly_val p)"
proof (induction d)
  case 0
  then show ?case by simp
next
  case (Suc d)
  let ?q = "push_bit (Suc d) p"
  have top: "\<not> bit p (63 - d)" if "d \<le> 63"
    using Suc.prems [of "63 - d"] that by auto
  have "drop_bit 1 ?q = push_bit d p"
  proof (rule bit_word_eqI)
    fix n assume "n < LENGTH(64)"
    with top show "bit (drop_bit 1 ?q) n \<longleftrightarrow> bit (push_bit d p) n"
      unfolding bit_drop_bit_eq comp_apply bit_push_bit_iff
      by (cases "n = 63") auto
  qed
  moreover have "\<not> bit ?q 0" unfolding bit_push_bit_iff by simp
  ultimately have "poly_val ?q = xtime (poly_val (push_bit d p))"
    by (subst poly_val_split) simp
  also have "poly_val (push_bit d p) = xpow d (poly_val p)"
    by (rule Suc.IH) (use Suc.prems in fastforce)
  finally show ?case by simp
qed

lemma poly_val_Times_loop:
  "(\<And>i j. bit p i \<Longrightarrow> bit q j \<Longrightarrow> i + j < 64) \<Longrightarrow>
   poly_val (Poly64_Times_loop p q prd) = poly_val prd + poly_val p * poly_val q"
proof (induction p q prd rule: Poly64_Times_loop.induct)
  case (1 p q prd)
  let ?p = "push_bit 1 p" and ?q = "drop_bit 1 q"
    and ?r = "if q AND 1 \<noteq> 0 then prd XOR p else prd"
  have odd: "q AND 1 \<noteq> 0 \<longleftrightarrow> bit q 0"
    by (simp add: and_one_eq bit_0 mod_2_eq_odd)
  have val_r: "poly_val ?r = poly_val prd + sel (bit q 0) (poly_val p)"
    using odd by (simp add: poly_val_xor sel_def)
  show ?case
  proof (cases "p \<noteq> 0 \<and> q \<noteq> 0")
    case False
    then show ?thesis by (auto simp: Poly64_Times_loop.simps [of p q])
  next
    case True
    have "poly_val (Poly64_Times_loop ?p ?q ?r) = poly_val ?r + poly_val ?p * poly_val ?q"
    proof (rule "1.IH" [OF True])
      fix i j assume "bit ?p i" "bit ?q j"
      then have "bit p (i - 1)" "1 \<le> i" "bit q (Suc j)"
        by (simp_all only: bit_push_bit_iff bit_drop_bit_eq) auto
      with "1.prems" [of "i - 1" "Suc j"] show "i + j < 64" by simp
    qed
    also have "poly_val ?p * poly_val ?q = xtime (poly_val p * poly_val ?q)"
    proof (cases "?q = 0")
      case False
      then obtain j where "bit ?q j" by (metis bit_word_eqI bit_0_eq bot_apply bot_bool_def)
      then have "bit q (Suc j)" by (simp only: bit_drop_bit_eq) simp
      then have "i + 1 < 64" if "bit p i" for i using "1.prems" [OF that] by fastforce
      then have "poly_val ?p = xtime (poly_val p)" using poly_val_push [of p 1] by simp
      then show ?thesis by (metis T_mult_xtime mult.commute)
    next
      case True
      then show ?thesis by (simp only:) simp
    qed
    also have "poly_val ?r + xtime (poly_val p * poly_val ?q) = poly_val prd + poly_val p * poly_val q"
      by (subst (3) poly_val_split) (simp add: val_r T_mult_xtime [symmetric] T_mult_sel distrib_left add.assoc)
    finally show ?thesis using True by (simp add: Poly64_Times_loop.simps [of p q])
  qed
qed

text \<open>The modulus \<open>m\<close> of \<open>init\<close>: irreducible, chosen to match the PAR2 specification.\<close>

definition gf_modulus :: Poly64 where
  "gf_modulus = 0x1100b"

lemma xpow_16: "xpow 16 1 = T 0x100b"
proof -
  have "xpow (Suc 15) 1 = xtime (xpow 15 1)" by (simp only: funpow.simps comp_apply)
  also have "\<dots> = T 0x100b" by (simp add: xpow_one xtime_def)
  finally show ?thesis by simp
qed

lemma poly_val_modulus: "poly_val gf_modulus = 0"
  unfolding gf_modulus_def poly_val_def
  using xpow_one [of 12] xpow_one [of 3] xpow_one [of 1]
  by (simp add: lessThan_nat_numeral sel_def xpow_16 T_eq_iff)

lemma poly_val_Div_loop:
  assumes "poly_val p2 = 0" "p2 \<noteq> 0" "Poly64_Div_loop p2 q r = (q', r')"
  shows "poly_val r' = poly_val r"
  using assms
proof (induction p2 q r rule: Poly64_Div_loop.induct)
  case (1 p2 q r)
  let ?d = "ilog2 r - ilog2 p2"
  show ?case
  proof (cases "r = 0 \<or> ilog2 r < ilog2 p2")
    case True
    with "1.prems" show ?thesis
      by (subst (asm) Poly64_Div_loop.simps) (auto split: if_splits)
  next
    case False
    with "1.prems" have go: "Poly64_Div_loop p2 (q XOR push_bit ?d 1) (r XOR push_bit ?d p2) = (q', r')"
      by (subst (asm) Poly64_Div_loop.simps) (auto simp: Let_def split: if_splits)
    have "i + ?d < 64" if "bit p2 i" for i
    proof -
      have "i \<le> ilog2 p2"
        using that ilog2_top_bit [OF \<open>p2 \<noteq> 0\<close>] by (auto simp: top_bit_def not_less [symmetric])
      with False ilog2_less_64 [of r] show ?thesis by auto
    qed
    then have "poly_val (push_bit ?d p2) = 0" using "1.prems"(1) by (simp add: poly_val_push)
    with "1.IH" [OF _ _ refl "1.prems"(1,2) go] False \<open>p2 \<noteq> 0\<close> show ?thesis
      by (simp add: poly_val_xor)
  qed
qed

lemma ilog2_less_eq_zero:
  assumes "r = 0 \<or> ilog2 r < k" "k \<le> 64"
  shows "bit r i \<Longrightarrow> i < k"
  using assms ilog2_top_bit [of r] by (cases "r = 0") (auto simp: top_bit_def intro: le_less_trans not_less [THEN iffD1])

lemma ilog2_modulus: "ilog2 gf_modulus = 16"
  unfolding gf_modulus_def
  by (simp add: ilog2_def ilog2_loop.simps)

text \<open>
  \<open>T(r)\<close> for the remainder \<open>r\<close> of the product of two field elements: the reference
  multiplication that the tables of \<open>init\<close> are built from.
\<close>

definition mul_mod :: "T \<Rightarrow> T \<Rightarrow> T res" where
  "mul_mod t u =
     bindR (Poly64_Div (Poly64_Times (ucast (raw t)) (ucast (raw u))) gf_modulus)
       (\<lambda>(_, r). Inr (T (ucast r)))"

lemma mul_mod_eq: "mul_mod t u = Inr (t * u)"
proof -
  let ?p = "Poly64_Times (ucast (raw t)) (ucast (raw u))"
  have m: "gf_modulus \<noteq> 0" by (simp add: gf_modulus_def)
  obtain q r where qr: "Poly64_Div_loop gf_modulus 0 ?p = (q, r)" by fastforce
  have "r = 0 \<or> ilog2 r < 16"
    using Poly64_Div_loop_invariant [OF m qr] by (simp add: ilog2_modulus)
  then have "bit r i \<Longrightarrow> i < 16" for i by (rule ilog2_less_eq_zero) simp
  then have r: "r = ucast (ucast r :: u16)"
    by (intro bit_word_eqI) (auto simp: bit_simps)
  have "poly_val r = poly_val ?p"
    by (rule poly_val_Div_loop [OF poly_val_modulus m qr])
  also have "\<dots> = T (raw t) * T (raw u)"
    unfolding Poly64_Times_def
    by (subst poly_val_Times_loop) (auto simp: poly_val_ucast bit_simps dest!: bit_imp_le_length)
  finally have "T (ucast r) = t * u"
    by (subst (asm) r) (simp add: poly_val_ucast)
  then show ?thesis by (simp add: mul_mod_def Poly64_Div_def m qr)
qed

end
