(* ===== verification/GFField.thy ===== *)
theory GFField
  imports GF2p16
begin

text \<open>
  GF(2^16) is a field and \<open>g = 3\<close> generates its multiplicative group: the powers
  \<open>3^0 .. 3^65534\<close> are distinct and are all the non-zero elements.  This is what the panics of
  \<open>init\<close> in src/gf2p16/t.go check at start-up, and what makes logarithms and inverses exist.
\<close>

section \<open>Evaluating products\<close>

fun mul_acc :: "nat \<Rightarrow> T \<Rightarrow> u16 \<Rightarrow> T" where
  "mul_acc 0 t u = 0"
| "mul_acc (Suc n) t u = (if odd u then t else 0) + (if u = 0 then 0 else mul_acc n (xtime t) (u div 2))"

lemma sum_drop_bit: "mul_acc n t u = (\<Sum>i<n. sel (bit u i) (xpow i t))"
proof (induction n arbitrary: t u)
  case 0
  then show ?case by simp
next
  case (Suc n)
  show ?case
  proof (cases "u = 0")
    case False
    have "drop_bit (Suc 0) u = u div 2" by (simp add: drop_bit_eq_div)
    then have b: "bit (u div 2) i = bit u (Suc i)" for i
      by (metis bit_Suc)
    show ?thesis
      unfolding sum.lessThan_Suc_shift
      using False by (simp add: Suc b bit_0 sel_def funpow_swap1)
  qed simp
qed

lemma T_mult_eval: "t * u = mul_acc 16 t (raw u)"
  by (simp add: times_T_def sum_drop_bit)

lemma T_plus_eval: "T a + T b = T (a XOR b)"
  by (simp add: T_eq_iff)

lemma xtime_eval: "xtime (T a) = T (a * 2 XOR (if bit a 15 then 0x100b else 0))"
  by (simp add: xtime_def T_eq_iff)

lemma mul_acc_numeral:
  "mul_acc (numeral k) t u =
     (if odd u then t else 0) + (if u = 0 then 0 else mul_acc (pred_numeral k) (xtime t) (u div 2))"
  by (simp add: numeral_eq_Suc)

lemmas T_eval = T_mult_eval mul_acc_numeral T_plus_eval xtime_eval

text \<open>Powers by repeated squaring.\<close>

fun pow_acc :: "T \<Rightarrow> T \<Rightarrow> nat \<Rightarrow> T" where
  "pow_acc acc t n = (if n = 0 then acc else pow_acc (if odd n then acc * t else acc) (t * t) (n div 2))"

declare pow_acc.simps [simp del]

lemma power_half: "t ^ n = (if odd n then t else 1) * (t * t) ^ (n div 2)" for t :: T
proof -
  have sq: "(t * t) ^ k = t ^ (2 * k)" for k by (simp add: power_mult power2_eq_square)
  show ?thesis
  proof (cases "odd n")
    case True
    then obtain k where "n = 2 * k + 1" by (rule oddE)
    then show ?thesis by (simp add: sq)
  next
    case False
    then obtain k where "n = 2 * k" by (auto elim: evenE)
    then show ?thesis by (simp add: sq)
  qed
qed

lemma pow_acc_eq: "pow_acc acc t n = acc * t ^ n"
proof (induction acc t n rule: pow_acc.induct)
  case (1 acc t n)
  show ?case
  proof (cases "n = 0")
    case True
    then show ?thesis by (subst pow_acc.simps) simp
  next
    case False
    then have "pow_acc acc t n = pow_acc (if odd n then acc * t else acc) (t * t) (n div 2)"
      by (subst pow_acc.simps) simp
    also have "\<dots> = (if odd n then acc * t else acc) * (t * t) ^ (n div 2)"
      by (rule 1 [OF False])
    also have "\<dots> = acc * t ^ n"
      by (subst (2) power_half) simp
    finally show ?thesis .
  qed
qed

lemma T_power_eval: "t ^ n = pow_acc (T 1) t n"
  unfolding pow_acc_eq by (simp flip: one_T_def)

lemmas T_pow_eval = T_power_eval pow_acc.simps T_eval

section \<open>The order of an element\<close>

text \<open>
  65535 = 3 * 5 * 17 * 257.  An element whose 65535th power is 1 and whose powers by the four
  maximal proper divisors are not, has order 65535.
\<close>

definition primitive :: "T \<Rightarrow> bool" where
  "primitive g \<longleftrightarrow> g ^ 65535 = 1 \<and> g ^ 21845 \<noteq> 1 \<and> g ^ 13107 \<noteq> 1 \<and> g ^ 3855 \<noteq> 1 \<and> g ^ 255 \<noteq> 1"

lemma primitive_3: "primitive (T 3)"
  unfolding primitive_def by (simp add: T_pow_eval one_T_def)

lemma primitive_2: "primitive (T 2)"
  unfolding primitive_def by (simp add: T_pow_eval one_T_def)

lemma power_gcd_one:
  fixes g :: T
  assumes "g ^ a = 1" "g ^ b = 1"
  shows "g ^ gcd a b = 1"
proof (cases "a = 0")
  case True
  with assms show ?thesis by simp
next
  case False
  then obtain x y where "a * x = b * y + gcd a b" using bezout_nat by blast
  then have "g ^ (a * x) = g ^ (b * y) * g ^ gcd a b" by (simp add: power_add)
  with assms show ?thesis by (simp add: power_mult)
qed

lemma dvd_factor:
  fixes d p m :: nat
  assumes "d dvd p * m" and prime: "\<And>k. k dvd p \<Longrightarrow> k = 1 \<or> k = p" and "\<not> d dvd m"
  shows "p dvd d"
proof -
  have "coprime d p \<or> p dvd d"
    using prime [of "gcd d p"] by (metis coprime_iff_gcd_eq_1 gcd_dvd1 gcd_dvd2)
  with assms show ?thesis using coprime_dvd_mult_right_iff by blast
qed

lemma small_prime:
  fixes p :: nat
  assumes "list_all (\<lambda>k. \<not> k dvd p) [2..<p]" "2 \<le> p" "k dvd p"
  shows "k = 1 \<or> k = p"
proof (rule ccontr)
  assume "\<not> (k = 1 \<or> k = p)"
  moreover have "k \<noteq> 0" using assms(2,3) by (cases "k = 0") auto
  moreover have "k \<le> p" using assms(2,3) by (intro dvd_imp_le) auto
  ultimately have "k \<in> set [2..<p]" by auto
  with assms(1,3) show False by (auto simp: list_all_iff)
qed

lemma prime_checks:
  "list_all (\<lambda>k. \<not> k dvd (3::nat)) [2..<3]" "list_all (\<lambda>k. \<not> k dvd (5::nat)) [2..<5]"
  "list_all (\<lambda>k. \<not> k dvd (17::nat)) [2..<17]" "list_all (\<lambda>k. \<not> k dvd (257::nat)) [2..<257]"
  by code_simp+

lemma primitive_order:
  assumes "primitive g" "g ^ i = 1"
  shows "65535 dvd i"
proof -
  let ?d = "gcd i 65535"
  have one: "g ^ ?d = 1" using assms by (intro power_gcd_one) (auto simp: primitive_def)
  have no: "\<not> ?d dvd m" if "g ^ m \<noteq> 1" for m
    using one that by (metis dvd_def power_mult power_one)
  have d: "?d dvd 65535" by simp
  note p = small_prime [OF prime_checks(1)] small_prime [OF prime_checks(2)]
    small_prime [OF prime_checks(3)] small_prime [OF prime_checks(4)]
  have "3 dvd ?d" by (rule dvd_factor [of _ 3 21845]) (use d no assms(1) p(1) in \<open>auto simp: primitive_def\<close>)
  moreover have "5 dvd ?d" by (rule dvd_factor [of _ 5 13107]) (use d no assms(1) p(2) in \<open>auto simp: primitive_def\<close>)
  moreover have "17 dvd ?d" by (rule dvd_factor [of _ 17 3855]) (use d no assms(1) p(3) in \<open>auto simp: primitive_def\<close>)
  moreover have "257 dvd ?d" by (rule dvd_factor [of _ 257 255]) (use d no assms(1) p(4) in \<open>auto simp: primitive_def\<close>)
  moreover have "coprime (3::nat) 5" "coprime (15::nat) 17" "coprime (255::nat) 257" by code_simp+
  ultimately have "3 * 5 * 17 * 257 dvd ?d" by (intro divides_mult) simp_all
  then have "65535 dvd ?d" by simp
  then show ?thesis using gcd_dvd1 dvd_trans by blast
qed

lemma primitive_unit: "primitive g \<Longrightarrow> g ^ i * g ^ (65535 * i - i) = 1"
proof -
  assume "primitive g"
  then have "g ^ (65535 * i) = 1" by (simp add: primitive_def power_mult)
  moreover have "i + (65535 * i - i) = 65535 * i" by simp
  ultimately show ?thesis by (metis power_add)
qed

lemma primitive_nonzero: "primitive g \<Longrightarrow> g ^ i \<noteq> 0"
  using primitive_unit [of g i] by auto

lemma primitive_cancel:
  assumes "primitive g" "g ^ i = g ^ j" "i \<le> j"
  shows "65535 dvd j - i"
proof -
  define u where "u = g ^ (65535 * i - i)"
  have u: "g ^ i * u = 1" unfolding u_def by (rule primitive_unit [OF assms(1)])
  have "g ^ i * u = g ^ (j - i) * (g ^ i * u)"
    using assms by (metis le_add_diff_inverse2 mult.assoc power_add)
  with u have "g ^ (j - i) = 1" by simp
  then show ?thesis by (rule primitive_order [OF assms(1)])
qed

lemma primitive_power_eq_iff:
  assumes "primitive g"
  shows "g ^ i = g ^ j \<longleftrightarrow> i mod 65535 = j mod 65535"
proof
  assume eq: "g ^ i = g ^ j"
  show "i mod 65535 = j mod 65535"
  proof (cases "i \<le> j")
    case True
    from primitive_cancel [OF assms eq True] True show ?thesis
      by (metis mod_eq_dvd_iff_nat)
  next
    case False
    from primitive_cancel [OF assms eq [symmetric]] False show ?thesis
      by (metis mod_eq_dvd_iff_nat nat_le_linear)
  qed
next
  have red: "g ^ k = g ^ (k mod 65535)" for k
  proof -
    have "g ^ k = g ^ (65535 * (k div 65535)) * g ^ (k mod 65535)"
      by (metis mult_div_mod_eq power_add)
    then show ?thesis using assms by (simp add: power_mult primitive_def)
  qed
  assume "i mod 65535 = j mod 65535"
  then show "g ^ i = g ^ j" by (metis red)
qed

lemma primitive_inj: "primitive g \<Longrightarrow> inj_on (\<lambda>i. g ^ i) {..<65535}"
  by (rule inj_onI) (simp add: primitive_power_eq_iff)

lemma UNIV_T: "(UNIV :: T set) = T ` UNIV"
  by (metis T.exhaust UNIV_eq_I rangeI)

lemma card_T: "card (UNIV :: T set) = 65536" and finite_T: "finite (UNIV :: T set)"
proof -
  show "card (UNIV :: T set) = 65536"
    unfolding UNIV_T by (subst card_image) (auto simp: inj_on_def card_word)
  then show "finite (UNIV :: T set)" by (simp add: card_ge_0_finite)
qed

lemma primitive_image: "primitive g \<Longrightarrow> (\<lambda>i. g ^ i) ` {..<65535} = UNIV - {0}"
proof (rule card_subset_eq)
  assume g: "primitive g"
  show "finite (UNIV - {0 :: T})" using finite_T by simp
  show "(\<lambda>i. g ^ i) ` {..<65535} \<subseteq> UNIV - {0}" using primitive_nonzero [OF g] by auto
  show "card ((\<lambda>i. g ^ i) ` {..<65535}) = card (UNIV - {0 :: T})"
    using card_T finite_T by (simp add: card_image primitive_inj [OF g])
qed

lemma primitive_log:
  assumes "primitive g" "t \<noteq> 0"
  obtains i where "i < 65535" "t = g ^ i"
proof -
  have "t \<in> (\<lambda>i. g ^ i) ` {..<65535}" using primitive_image [OF assms(1)] assms(2) by auto
  then show thesis using that by auto
qed

section \<open>The field\<close>

lemma T_fermat: "t \<noteq> 0 \<Longrightarrow> t ^ 65535 = (1 :: T)"
proof -
  assume "t \<noteq> 0"
  with primitive_3 obtain i where "t = T 3 ^ i" by (rule primitive_log)
  then have "t ^ 65535 = (T 3 ^ 65535) ^ i" by (simp flip: power_mult add: mult.commute)
  also have "\<dots> = 1" using primitive_3 by (simp add: primitive_def)
  finally show ?thesis .
qed

instantiation T :: field
begin

definition "inverse_T t = (t :: T) ^ 65534"
definition "divide_T t u = t * inverse (u :: T)"

instance
proof
  fix t u :: T
  show "t div u = t * inverse u" by (rule divide_T_def)
  show "inverse (0 :: T) = 0" by (simp add: inverse_T_def)
  assume "t \<noteq> 0"
  have "inverse t * t = t ^ Suc 65534" unfolding inverse_T_def by (simp only: power_Suc2)
  also have "\<dots> = 1" using T_fermat [OF \<open>t \<noteq> 0\<close>] by simp
  finally show "inverse t * t = 1" .
qed

end

end
