(* ===== verification/GFTables.thy ===== *)
theory GFTables
  imports GFField
begin

text \<open>
  The table-driven arithmetic of src/gf2p16/t.go: the loop of \<open>init\<close> that fills the logarithm
  and exponent tables, with its panics, and the operations \<open>Plus\<close>, \<open>Minus\<close>, \<open>Times\<close>,
  \<open>Inverse\<close>, \<open>Div\<close> and \<open>Pow\<close> that read them.  The theorems say that \<open>init\<close> never
  panics and that every operation is the one of the field of theory \<open>GFField\<close>.
\<close>

section \<open>The tables\<close>

definition order :: nat where
  "order = 65536"

definition generator :: T where
  "generator = T 3"

text \<open>The array index \<open>x - 1\<close>, computed in \<open>uint16\<close>: for \<open>x = 0\<close> it wraps to 65535.\<close>

definition idx :: "T \<Rightarrow> nat" where
  "idx x = unat (raw x - 1)"

text \<open>
  One iteration of the loop of \<open>init\<close>: the two repetition checks, the two stores, and the next
  power of the generator.
\<close>

definition init_step :: "nat \<Rightarrow> T \<Rightarrow> u16 list \<Rightarrow> T list \<Rightarrow> (T \<times> u16 list \<times> T list) res" where
  "init_step p x lg ex =
     bindR (if x = 1 \<and> p \<noteq> 0 then Inl (Panic ''repeated power (1)'')
            else if x \<noteq> 1
            then bindR (index_at lg (idx x)) (\<lambda>l. check (l = 0) (Panic ''repeated power''))
            else Inr ()) (\<lambda>_.
     bindR (index_at ex p) (\<lambda>e.
     bindR (check (e = 0) (Panic ''repeated exponent'')) (\<lambda>_.
     bindR (index_at lg (idx x)) (\<lambda>_.
     bindR (mul_mod x generator) (\<lambda>x'.
     Inr (x', lg[idx x := of_nat p], ex[p := x]))))))"

function init_loop :: "nat \<Rightarrow> T \<Rightarrow> u16 list \<Rightarrow> T list \<Rightarrow> (u16 list \<times> T list) res" where
  "init_loop p x lg ex =
     (if p < order - 1
      then bindR (init_step p x lg ex) (\<lambda>(x', lg', ex'). init_loop (Suc p) x' lg' ex')
      else Inr (lg, ex))"
  by pat_completeness auto
termination
  by (relation "measure (\<lambda>(p, x, lg, ex). order - 1 - p)") auto

declare init_loop.simps [simp del]

definition init_tables :: "(u16 list \<times> T list) res" where
  "init_tables = init_loop 0 1 (replicate (order - 1) 0) (replicate (order - 1) 0)"

text \<open>The package variables after \<open>init\<close>; a panic in \<open>init\<close> would end the program.\<close>

definition tables :: "u16 list \<times> T list" where
  "tables = (case init_tables of Inr t \<Rightarrow> t | Inl _ \<Rightarrow> ([], []))"

definition logTable :: "u16 list" where
  "logTable = fst tables"

definition expTable :: "T list" where
  "expTable = snd tables"

section \<open>\<open>init\<close> does not panic\<close>

lemma idx_less: "x \<noteq> 0 \<Longrightarrow> idx x < 65535"
proof -
  assume "x \<noteq> 0"
  then have "raw x \<noteq> 0" by (simp add: T_eq_iff)
  then have "raw x - 1 \<noteq> - 1" by simp
  then have "unat (raw x - 1) \<noteq> unat (- 1 :: u16)" by (metis word_unat_eq_iff)
  moreover have "unat (raw x - 1) \<le> unat (- 1 :: u16)" by (simp add: word_le_nat_alt [symmetric])
  ultimately show ?thesis by (simp add: idx_def unsigned_minus_1_eq_mask mask_eq_exp_minus_1)
qed

lemma idx_inj: "idx x = idx y \<longleftrightarrow> x = y"
  unfolding idx_def T_eq_iff word_unat_eq_iff [symmetric] by simp

text \<open>What the tables hold after the first \<open>p\<close> iterations.\<close>

definition tables_inv :: "nat \<Rightarrow> u16 list \<Rightarrow> T list \<Rightarrow> bool" where
  "tables_inv p lg ex \<longleftrightarrow> length lg = 65535 \<and> length ex = 65535
     \<and> (\<forall>i<p. ex ! i = generator ^ i \<and> lg ! idx (generator ^ i) = of_nat i)
     \<and> (\<forall>i. p \<le> i \<and> i < 65535 \<longrightarrow> ex ! i = 0 \<and> lg ! idx (generator ^ i) = 0)"

lemma primitive_generator: "primitive generator"
  by (simp add: generator_def primitive_3)

lemma generator_power_inj:
  "i < 65535 \<Longrightarrow> j < 65535 \<Longrightarrow> generator ^ i = generator ^ j \<longleftrightarrow> i = j"
  by (simp add: primitive_power_eq_iff [OF primitive_generator])

lemma generator_power_nonzero [simp]: "generator ^ i \<noteq> 0"
  by (rule primitive_nonzero [OF primitive_generator])

lemma init_step_ok:
  assumes inv: "tables_inv p lg ex" and p: "p < 65535"
  shows "\<exists>lg' ex'. init_step p (generator ^ p) lg ex = Inr (generator ^ Suc p, lg', ex')
    \<and> tables_inv (Suc p) lg' ex'"
proof -
  let ?x = "generator ^ p"
  have ix: "idx (generator ^ i) < length lg" for i
    using inv idx_less [OF generator_power_nonzero, of i] by (simp add: tables_inv_def)
  have "?x = 1 \<longleftrightarrow> p = 0"
    using generator_power_inj [OF p, of 0] by simp
  moreover have "lg ! idx ?x = 0" "ex ! p = 0" "p < length ex"
    using inv p by (auto simp: tables_inv_def)
  ultimately have "init_step p ?x lg ex
      = Inr (generator ^ Suc p, lg[idx ?x := of_nat p], ex[p := ?x])"
    using ix [of p] by (cases "p = 0") (simp_all add: init_step_def mul_mod_eq mult.commute)
  moreover have "tables_inv (Suc p) (lg[idx ?x := of_nat p]) (ex[p := ?x])"
    using inv p ix unfolding tables_inv_def
    by (auto simp: nth_list_update idx_inj generator_power_inj less_Suc_eq)
  ultimately show ?thesis by blast
qed

lemma init_loop_ok:
  assumes "tables_inv p lg ex" "p \<le> 65535"
  shows "\<exists>lg' ex'. init_loop p (generator ^ p) lg ex = Inr (lg', ex') \<and> tables_inv 65535 lg' ex'"
  using assms
proof (induction "65535 - p" arbitrary: p lg ex)
  case 0
  then have "init_loop p (generator ^ p) lg ex = Inr (lg, ex)" "p = 65535"
    by (auto simp: init_loop.simps order_def)
  with 0 show ?case by simp
next
  case (Suc n)
  then have p: "p < 65535" by simp
  obtain lg1 ex1 where s: "init_step p (generator ^ p) lg ex = Inr (generator ^ Suc p, lg1, ex1)"
      "tables_inv (Suc p) lg1 ex1"
    using init_step_ok [OF Suc.prems(1) p] by blast
  have "init_loop p (generator ^ p) lg ex = init_loop (Suc p) (generator ^ Suc p) lg1 ex1"
    using p s(1) by (subst init_loop.simps) (simp add: order_def)
  moreover have "\<exists>lg' ex'. init_loop (Suc p) (generator ^ Suc p) lg1 ex1 = Inr (lg', ex')
      \<and> tables_inv 65535 lg' ex'"
    by (rule Suc.hyps(1)) (use Suc.hyps(2) s(2) p in auto)
  ultimately show ?case by simp
qed

lemma init_tables_ok: "\<exists>lg ex. init_tables = Inr (lg, ex) \<and> tables_inv 65535 lg ex"
proof -
  have "tables_inv 0 (replicate 65535 0) (replicate 65535 0)"
    using idx_less [OF generator_power_nonzero] by (simp add: tables_inv_def)
  from init_loop_ok [OF this] show ?thesis by (simp add: init_tables_def order_def)
qed

lemma tables_inv_tables: "tables_inv 65535 logTable expTable"
proof -
  obtain lg ex where t: "init_tables = Inr (lg, ex)" and inv: "tables_inv 65535 lg ex"
    using init_tables_ok by blast
  have "tables = (lg, ex)" unfolding tables_def t by simp
  with inv show ?thesis unfolding logTable_def expTable_def by (metis fst_conv snd_conv)
qed

lemma length_tables [simp]: "length logTable = 65535" "length expTable = 65535"
  using tables_inv_tables by (simp_all add: tables_inv_def)

lemma expTable_nth: "i < 65535 \<Longrightarrow> expTable ! i = generator ^ i"
  using tables_inv_tables by (simp add: tables_inv_def)

lemma logTable_nth: "i < 65535 \<Longrightarrow> logTable ! idx (generator ^ i) = of_nat i"
  using tables_inv_tables by (simp add: tables_inv_def)

section \<open>Operations\<close>

definition T_Plus :: "T \<Rightarrow> T \<Rightarrow> T" where
  "T_Plus t u = T (raw t XOR raw u)"

definition T_Minus :: "T \<Rightarrow> T \<Rightarrow> T" where
  "T_Minus t u = T (raw t XOR raw u)"

definition T_Times :: "T \<Rightarrow> T \<Rightarrow> T res" where
  "T_Times t u =
     (if t = 0 \<or> u = 0 then Inr 0
      else bindR (index_at logTable (idx t)) (\<lambda>logT.
           bindR (index_at logTable (idx u)) (\<lambda>logU.
           index_at expTable ((unat logT + unat logU) mod (order - 1)))))"

definition T_Inverse :: "T \<Rightarrow> T res" where
  "T_Inverse t =
     (if t = 0 then Inl (Panic ''zero has no inverse'')
      else bindR (index_at logTable (idx t)) (\<lambda>logT.
           index_at expTable (nat ((- uint logT + int (order - 1)) mod int (order - 1)))))"

definition T_Div :: "T \<Rightarrow> T \<Rightarrow> T res" where
  "T_Div t u =
     (if u = 0 then Inl (Panic ''division by zero'')
      else if t = 0 then Inr 0
      else bindR (index_at logTable (idx t)) (\<lambda>logT.
           bindR (index_at logTable (idx u)) (\<lambda>logU.
           index_at expTable
             (nat ((uint logT - uint logU + int (order - 1)) mod int (order - 1))))))"

text \<open>\<open>Pow\<close> multiplies the logarithm and the exponent in \<open>uint64\<close>.\<close>

definition T_Pow :: "T \<Rightarrow> u32 \<Rightarrow> T res" where
  "T_Pow t p =
     (if t = 0 then (if p = 0 then Inr 1 else Inr 0)
      else bindR (index_at logTable (idx t)) (\<lambda>logT.
           index_at expTable (unat ((ucast logT * ucast p :: u64) mod of_nat (order - 1)))))"

section \<open>The operations are the field's\<close>

lemma T_Plus_eq [simp]: "T_Plus t u = t + u" and T_Minus_eq [simp]: "T_Minus t u = t - u"
  by (simp_all add: T_Plus_def T_Minus_def plus_T_def minus_T_def)

lemma T_log_obtain:
  assumes "t \<noteq> 0"
  obtains i where "i < 65535" "t = generator ^ i" "logTable ! idx t = of_nat i"
    "unat (of_nat i :: u16) = i" "uint (of_nat i :: u16) = int i" "idx t < 65535"
proof -
  from primitive_log [OF primitive_generator assms] obtain i where i: "i < 65535" "t = generator ^ i"
    by blast
  moreover have "unat (of_nat i :: u16) = i" using i(1) by (simp add: unat_of_nat)
  moreover have "logTable ! idx t = of_nat i" using i logTable_nth by blast
  ultimately show thesis using that [of i] idx_less [OF assms] by (simp add: uint_nat)
qed

lemma generator_power_mod: "generator ^ (n mod 65535) = generator ^ n"
  by (simp add: primitive_power_eq_iff [OF primitive_generator])

lemma T_Times_eq [simp]: "T_Times t u = Inr (t * u)"
proof (cases "t = 0 \<or> u = 0")
  case False
  then obtain i j where "t = generator ^ i" "logTable ! idx t = of_nat i" "idx t < 65535"
      "unat (of_nat i :: u16) = i" "u = generator ^ j" "logTable ! idx u = of_nat j" "idx u < 65535"
      "unat (of_nat j :: u16) = j"
    by (metis T_log_obtain)
  with False show ?thesis
    by (simp add: T_Times_def order_def expTable_nth generator_power_mod power_add)
qed (auto simp: T_Times_def)

lemma generator_power_int_mod:
  assumes "0 \<le> k" "k = int n"
  shows "generator ^ nat (k mod 65535) = generator ^ n"
  using assms by (simp add: nat_mod_distrib generator_power_mod)

lemma T_Div_eq: "u \<noteq> 0 \<Longrightarrow> T_Div t u = Inr (t / u)"
proof (cases "t = 0")
  case False
  assume "u \<noteq> 0"
  then obtain i j where ij: "t = generator ^ i" "logTable ! idx t = of_nat i" "idx t < 65535"
      "uint (of_nat i :: u16) = int i" "u = generator ^ j" "logTable ! idx u = of_nat j" "idx u < 65535"
      "uint (of_nat j :: u16) = int j" "j < 65535"
    using False by (metis T_log_obtain)
  let ?k = "i + 65535 - j"
  have k: "int i - int j + 65535 = int ?k" using ij(9) by simp
  have "generator ^ ?k * u = generator ^ (i + 65535)"
    unfolding ij(5) using ij(9) by (simp flip: power_add)
  also have "\<dots> = t"
    using generator_power_mod [of "i + 65535"] generator_power_mod [of i] ij(1) by simp
  finally have "generator ^ ?k = t / u" using \<open>u \<noteq> 0\<close> by (simp add: field_simps)
  moreover have "generator ^ nat ((int i - int j + 65535) mod 65535) = generator ^ ?k"
    by (rule generator_power_int_mod) (use k ij(9) in auto)
  moreover have "nat ((int i - int j + 65535) mod 65535) < 65535" by (simp add: nat_less_iff)
  ultimately show ?thesis
    using False \<open>u \<noteq> 0\<close> ij by (simp add: T_Div_def order_def expTable_nth)
qed (simp add: T_Div_def)

lemma T_Div_0: "T_Div t 0 = Inl (Panic ''division by zero'')"
  by (simp add: T_Div_def)

lemma T_Inverse_eq: "t \<noteq> 0 \<Longrightarrow> T_Inverse t = Inr (inverse t)"
proof -
  assume t: "t \<noteq> 0"
  have "T_Div 1 t = T_Inverse t"
  proof -
    have "logTable ! idx 1 = 0" "idx 1 < 65535"
      using logTable_nth [of 0] idx_less [of 1] by simp_all
    then show ?thesis using t by (simp add: T_Div_def T_Inverse_def)
  qed
  with T_Div_eq [OF t, of 1] show ?thesis by (simp add: divide_inverse)
qed

lemma T_Inverse_0: "T_Inverse 0 = Inl (Panic ''zero has no inverse'')"
  by (simp add: T_Inverse_def)

lemma T_Pow_eq [simp]: "T_Pow t p = Inr (t ^ unat p)"
proof (cases "t = 0")
  case True
  then show ?thesis by (auto simp: T_Pow_def unat_eq_0 power_0_left)
next
  case False
  then obtain i where i: "t = generator ^ i" "logTable ! idx t = of_nat i" "idx t < 65535"
      "unat (of_nat i :: u16) = i" "i < 65535"
    by (metis T_log_obtain)
  let ?n = "unat ((ucast (of_nat i :: u16) * ucast p :: u64) mod of_nat 65535)"
  have "i * unat p < 65536 * 2 ^ 32"
    using i(5) unsigned_less [of p] by (intro mult_strict_mono) auto
  moreover have "unat (ucast (of_nat i :: u16) :: u64) = i"
    using i(4,5) by (simp add: unsigned_ucast_eq take_bit_nat_eq_self)
  moreover have "unat (ucast p :: u64) = unat p"
    using unsigned_less [of p, where ?'a = nat]
    by (simp add: unsigned_ucast_eq take_bit_nat_eq_self)
  ultimately have "unat (ucast (of_nat i :: u16) * ucast p :: u64) = i * unat p"
    by (simp add: unat_word_ariths)
  then have n: "?n = (i * unat p) mod 65535"
    by (simp add: unat_mod)
  have "generator ^ ((i * unat p) mod 65535) = t ^ unat p"
    by (simp add: generator_power_mod i(1) power_mult)
  with i False n show ?thesis by (simp add: T_Pow_def order_def expTable_nth)
qed

section \<open>Properties\<close>

text \<open>
  C32: \<open>init\<close> runs through without any of its panics, and the two tables it leaves are inverse to
  each other: the logarithms of the entries of the exponent table are \<open>0 .. 65534\<close> in order, and
  the exponent table lists every non-zero element once.
\<close>

theorem init_tables_inverse:
  "init_tables = Inr (logTable, expTable)
    \<and> map (\<lambda>x. unat (logTable ! idx x)) expTable = [0..<65535]
    \<and> distinct expTable \<and> set expTable = UNIV - {0}"
proof -
  obtain lg ex where t: "init_tables = Inr (lg, ex)" using init_tables_ok by blast
  then have "tables = (lg, ex)" unfolding tables_def t by simp
  with t have i: "init_tables = Inr (logTable, expTable)" by (simp add: logTable_def expTable_def)
  have e: "expTable = map (\<lambda>i. generator ^ i) [0..<65535]"
    by (intro nth_equalityI) (simp_all add: expTable_nth)
  have "map (\<lambda>x. unat (logTable ! idx x)) expTable = [0..<65535]"
    unfolding e by (intro nth_equalityI) (simp_all add: logTable_nth unat_of_nat)
  moreover have "distinct expTable"
    unfolding e distinct_map using primitive_inj [OF primitive_generator] by (simp add: atLeast0LessThan)
  moreover have "set expTable = UNIV - {0}"
    unfolding e using primitive_image [OF primitive_generator] by (simp add: atLeast0LessThan)
  ultimately show ?thesis using i by blast
qed

text \<open>
  C31: the table-driven \<open>Times\<close> is total and equals the reference multiplication: the product of the
  two polynomials, reduced by the modulus \<open>0x1100b\<close> with \<open>Poly64.Div\<close>.
\<close>

theorem T_Times_reference:
  "T_Times t u = bindR (Poly64_Div (Poly64_Times (ucast (raw t)) (ucast (raw u))) gf_modulus)
     (\<lambda>(_, r). Inr (T (ucast r)))"
  using mul_mod_eq [of t u] by (simp add: mul_mod_def)

text \<open>
  C33: \<open>Inverse\<close> and \<open>Div\<close> panic exactly for the divisor 0, and otherwise undo multiplication:
  \<open>Times\<close> of the result with the divisor gives back 1, or the dividend.
\<close>

theorem T_Div_Inverse_correct:
  "(if u = 0
    then T_Div t u = Inl (Panic ''division by zero'') \<and> T_Inverse u = Inl (Panic ''zero has no inverse'')
    else bindR (T_Div t u) (\<lambda>v. T_Times v u) = Inr t \<and> bindR (T_Inverse u) (\<lambda>v. T_Times v u) = Inr 1)"
  by (simp add: T_Div_0 T_Inverse_0 T_Div_eq T_Inverse_eq)

text \<open>
  \<open>Pow\<close> is total and is repeated multiplication, for every 32-bit exponent; the 64-bit product
  of logarithm and exponent does not wrap around.
\<close>

lemma T_Pow_repeated_Times:
  "T_Pow t p = foldR (\<lambda>_ acc. T_Times acc t) [0..<unat p] 1"
proof -
  have "foldR (\<lambda>_ acc. T_Times acc t) [0..<n] 1 = Inr (t ^ n)" for n
    by (induction n) (simp_all add: foldR_append mult.commute)
  then show ?thesis by simp
qed

end
