(* ===== verification/Slices.thy ===== *)
theory Slices
  imports GFTables
begin

text \<open>
  Region arithmetic on byte slices (src/gf2p16/slice.go, slice_unsafe.go, slice_nonamd64.go and
  the table of t.go): the per-coefficient multiplication tables and the loops that multiply, or
  multiply and add, a whole slice.  The theorems say that the generic byte loop and the
  reinterpreting little-endian path compute the same linear map on the 16-bit words of the slice.
  The SSSE3 assembly of amd64 is not Go code; its 4-bit tables (t_amd64.go) are.
\<close>

section \<open>Tables of one coefficient\<close>

record mulTableEntry =
  s0 :: "T list"
  s8 :: "T list"

definition multiplicationTable :: "T \<Rightarrow> mulTableEntry res" where
  "multiplicationTable c =
     bindR (mapR (\<lambda>j. T_Times c (T (of_nat j))) [0..<256]) (\<lambda>t0.
     bindR (mapR (\<lambda>j. T_Times c (T (push_bit 8 (of_nat j)))) [0..<256]) (\<lambda>t8.
     Inr \<lparr>s0 = t0, s8 = t8\<rparr>))"

text \<open>\<open>cEntry.s0[lo] ^ cEntry.s8[hi]\<close>\<close>

definition entry_lookup :: "mulTableEntry \<Rightarrow> nat \<Rightarrow> nat \<Rightarrow> T res" where
  "entry_lookup e lo hi =
     bindR (index_at (s0 e) lo) (\<lambda>a. bindR (index_at (s8 e) hi) (\<lambda>b. Inr (T_Plus a b)))"

definition the_table :: "T \<Rightarrow> mulTableEntry" where
  "the_table c = \<lparr>s0 = map (\<lambda>j. c * T (of_nat j)) [0..<256],
                  s8 = map (\<lambda>j. c * T (push_bit 8 (of_nat j))) [0..<256]\<rparr>"

lemma multiplicationTable_eq [simp]: "multiplicationTable c = Inr (the_table c)"
  unfolding multiplicationTable_def the_table_def T_Times_eq
  by (subst mapR_Inr_map [where g = "\<lambda>j. c * T (of_nat j)"],
      simp, subst mapR_Inr_map [where g = "\<lambda>j. c * T (push_bit 8 (of_nat j))"]) simp_all

section \<open>Words of a byte slice\<close>

text \<open>
  \<open>words\<close> is the slice of \<open>T\<close>s that a byte slice holds in little-endian order; it is also what
  \<open>castByteToTSlice\<close> returns on a little-endian platform (an odd last byte is cut off).
  \<open>unwords\<close> goes back.
\<close>

fun words :: "byte list \<Rightarrow> T list" where
  "words (a # b # bs) = T (ucast a OR push_bit 8 (ucast b)) # words bs"
| "words _ = []"

fun unwords :: "T list \<Rightarrow> byte list" where
  "unwords [] = []"
| "unwords (t # ts) = ucast (raw t) # ucast (drop_bit 8 (raw t)) # unwords ts"

lemma length_words [simp]: "length (words bs) = length bs div 2"
  by (induction bs rule: words.induct) auto

lemma length_unwords [simp]: "length (unwords ts) = 2 * length ts"
  by (induction ts) auto

lemma bytes_of_word:
  "ucast (ucast a OR push_bit 8 (ucast b) :: u16) = (a :: byte)"
  "ucast (drop_bit 8 (ucast a OR push_bit 8 (ucast b) :: u16)) = (b :: byte)"
  by (intro bit_word_eqI; auto simp: bit_simps dest: bit_imp_le_length)+

lemmas bytes_of_word_simps = bytes_of_word bytes_of_word(2) [simplified]

lemma word_of_bytes: "ucast (ucast w :: byte) OR push_bit 8 (ucast (ucast (drop_bit 8 w) :: byte)) = (w :: u16)"
  by (intro bit_word_eqI) (auto simp: bit_simps)

lemma unwords_words: "even (length bs) \<Longrightarrow> unwords (words bs) = bs"
  by (induction bs rule: words.induct) (auto simp: bytes_of_word_simps)

lemma words_unwords [simp]: "words (unwords ts) = ts"
  by (induction ts) (auto simp: word_of_bytes)

lemma words_append: "even (length bs) \<Longrightarrow> words (bs @ cs) = words bs @ words cs"
  by (induction bs rule: words.induct) auto

lemma words_inj: "even (length a) \<Longrightarrow> even (length b) \<Longrightarrow> words a = words b \<longleftrightarrow> a = b"
  by (metis unwords_words)

section \<open>A product from two table look-ups\<close>

lemma split_word: "T (w AND 0xff) + T (push_bit 8 (drop_bit 8 w)) = T w"
proof -
  have m: "(0xff :: u16) = mask 8" by (simp add: mask_eq_exp_minus_1)
  have "(w AND 0xff) XOR push_bit 8 (drop_bit 8 w) = w"
    unfolding m by (rule bit_word_eqI) (auto simp: bit_simps)
  then show ?thesis by (simp add: T_eq_iff)
qed

lemma entry_lookup_eq:
  "lo < 256 \<Longrightarrow> hi < 256 \<Longrightarrow>
   entry_lookup (the_table c) lo hi = Inr (c * (T (of_nat lo) + T (push_bit 8 (of_nat hi))))"
  by (simp add: entry_lookup_def the_table_def distrib_left)

text \<open>The two index pairs the code uses: the bytes of a word, and the halves of a \<open>T\<close>.\<close>

lemma entry_lookup_bytes:
  "entry_lookup (the_table c) (unat (a :: byte)) (unat (b :: byte))
    = Inr (c * T (ucast a OR push_bit 8 (ucast b)))"
proof -
  have "(ucast a :: u16) XOR push_bit 8 (ucast b) = ucast a OR push_bit 8 (ucast b)"
    by (intro bit_word_eqI) (auto simp: bit_simps dest: bit_imp_le_length)
  moreover have "unat a < 256" "unat b < 256"
    using unsigned_less [of a, where ?'a = nat] unsigned_less [of b, where ?'a = nat] by simp_all
  ultimately show ?thesis by (simp add: entry_lookup_eq T_eq_iff plus_T_def)
qed

lemma entry_lookup_word:
  "entry_lookup (the_table c) (unat (raw t AND 0xff)) (unat (drop_bit 8 (raw t))) = Inr (c * t)"
proof -
  have "unat (raw t AND 0xff) \<le> unat (0xff :: u16)"
    by (rule word_and_le1 [THEN word_le_nat_alt [THEN iffD1]])
  moreover have "unat (drop_bit 8 (raw t)) = unat (raw t) div 256"
    unfolding unat_drop_bit_eq by (simp add: drop_bit_eq_div)
  then have "unat (drop_bit 8 (raw t)) < 256"
    using unsigned_less [of "raw t", where ?'a = nat] by (simp add: less_mult_imp_div_less)
  ultimately show ?thesis by (simp add: entry_lookup_eq split_word)
qed

section \<open>The loops\<close>

text \<open>\<open>out[i] = v\<close>\<close>

definition put :: "'a list \<Rightarrow> nat \<Rightarrow> 'a \<Rightarrow> 'a list res" where
  "put out i v = (if i < length out then Inr (out[i := v]) else Inl index_panic)"

function mulSliceGeneric_loop :: "mulTableEntry \<Rightarrow> T list \<Rightarrow> nat \<Rightarrow> T list \<Rightarrow> T list res" where
  "mulSliceGeneric_loop e inp i out =
     (if i < length inp
      then bindR (entry_lookup e (unat (raw (inp ! i) AND 0xff)) (unat (drop_bit 8 (raw (inp ! i))))) (\<lambda>v.
           bindR (put out i v) (\<lambda>out'. mulSliceGeneric_loop e inp (Suc i) out'))
      else Inr out)"
  by pat_completeness auto
termination
  by (relation "measure (\<lambda>(e, inp, i, out). length inp - i)") auto

function mulAndAddSliceGeneric_loop :: "mulTableEntry \<Rightarrow> T list \<Rightarrow> nat \<Rightarrow> T list \<Rightarrow> T list res" where
  "mulAndAddSliceGeneric_loop e inp i out =
     (if i < length inp
      then bindR (entry_lookup e (unat (raw (inp ! i) AND 0xff)) (unat (drop_bit 8 (raw (inp ! i))))) (\<lambda>v.
           bindR (index_at out i) (\<lambda>o'.
           bindR (put out i (T_Plus o' v)) (\<lambda>out'. mulAndAddSliceGeneric_loop e inp (Suc i) out')))
      else Inr out)"
  by pat_completeness auto
termination
  by (relation "measure (\<lambda>(e, inp, i, out). length inp - i)") auto

function mulByteSliceLEGeneric_loop :: "mulTableEntry \<Rightarrow> byte list \<Rightarrow> nat \<Rightarrow> byte list \<Rightarrow> byte list res" where
  "mulByteSliceLEGeneric_loop e inp i out =
     (if i < length inp
      then bindR (index_at inp (i + 1)) (\<lambda>hi.
           bindR (entry_lookup e (unat (inp ! i)) (unat hi)) (\<lambda>cx.
           bindR (put out i (ucast (raw cx))) (\<lambda>out1.
           bindR (put out1 (i + 1) (ucast (drop_bit 8 (raw cx)))) (\<lambda>out2.
           mulByteSliceLEGeneric_loop e inp (i + 2) out2))))
      else Inr out)"
  by pat_completeness auto
termination
  by (relation "measure (\<lambda>(e, inp, i, out). length inp - i)") auto

function mulAndAddByteSliceLEGeneric_loop ::
  "mulTableEntry \<Rightarrow> byte list \<Rightarrow> nat \<Rightarrow> byte list \<Rightarrow> byte list res" where
  "mulAndAddByteSliceLEGeneric_loop e inp i out =
     (if i < length inp
      then bindR (index_at inp (i + 1)) (\<lambda>hi.
           bindR (entry_lookup e (unat (inp ! i)) (unat hi)) (\<lambda>cx.
           bindR (index_at out i) (\<lambda>o0.
           bindR (put out i (o0 XOR ucast (raw cx))) (\<lambda>out1.
           bindR (index_at out1 (i + 1)) (\<lambda>o1.
           bindR (put out1 (i + 1) (o1 XOR ucast (drop_bit 8 (raw cx)))) (\<lambda>out2.
           mulAndAddByteSliceLEGeneric_loop e inp (i + 2) out2))))))
      else Inr out)"
  by pat_completeness auto
termination
  by (relation "measure (\<lambda>(e, inp, i, out). length inp - i)") auto

declare mulSliceGeneric_loop.simps [simp del] mulAndAddSliceGeneric_loop.simps [simp del]
  mulByteSliceLEGeneric_loop.simps [simp del] mulAndAddByteSliceLEGeneric_loop.simps [simp del]

definition mulSliceGeneric :: "T \<Rightarrow> T list \<Rightarrow> T list \<Rightarrow> T list res" where
  "mulSliceGeneric c inp out = bindR (multiplicationTable c) (\<lambda>e. mulSliceGeneric_loop e inp 0 out)"

definition mulAndAddSliceGeneric :: "T \<Rightarrow> T list \<Rightarrow> T list \<Rightarrow> T list res" where
  "mulAndAddSliceGeneric c inp out =
     bindR (multiplicationTable c) (\<lambda>e. mulAndAddSliceGeneric_loop e inp 0 out)"

definition mulByteSliceLEGeneric :: "T \<Rightarrow> byte list \<Rightarrow> byte list \<Rightarrow> byte list res" where
  "mulByteSliceLEGeneric c inp out =
     bindR (multiplicationTable c) (\<lambda>e. mulByteSliceLEGeneric_loop e inp 0 out)"

definition mulAndAddByteSliceLEGeneric :: "T \<Rightarrow> byte list \<Rightarrow> byte list \<Rightarrow> byte list res" where
  "mulAndAddByteSliceLEGeneric c inp out =
     bindR (multiplicationTable c) (\<lambda>e. mulAndAddByteSliceLEGeneric_loop e inp 0 out)"

text \<open>
  slice_nonamd64.go: \<open>mulSlice\<close> and \<open>mulAndAddSlice\<close> are the generic loops, and the two exported
  functions choose by the build constant \<open>platformLittleEndian\<close> (parameter \<open>ple\<close>).
  slice_unsafe.go: the cast slices alias the byte slices, so the words written through them replace
  the bytes they came from; bytes past the last whole word stay.
\<close>

definition mulSlice :: "T \<Rightarrow> T list \<Rightarrow> T list \<Rightarrow> T list res" where
  "mulSlice c inp out = mulSliceGeneric c inp out"

definition mulAndAddSlice :: "T \<Rightarrow> T list \<Rightarrow> T list \<Rightarrow> T list res" where
  "mulAndAddSlice c inp out = mulAndAddSliceGeneric c inp out"

definition castByteToTSlice :: "byte list \<Rightarrow> T list" where
  "castByteToTSlice bs = words bs"

definition write_through :: "T list \<Rightarrow> byte list \<Rightarrow> byte list" where
  "write_through ts out = splice out 0 (unwords ts)"

definition mulByteSliceLEPlatformLE :: "T \<Rightarrow> byte list \<Rightarrow> byte list \<Rightarrow> byte list res" where
  "mulByteSliceLEPlatformLE c inp out =
     bindR (mulSlice c (castByteToTSlice inp) (castByteToTSlice out)) (\<lambda>ts. Inr (write_through ts out))"

definition mulAndAddByteSliceLEPlatformLE :: "T \<Rightarrow> byte list \<Rightarrow> byte list \<Rightarrow> byte list res" where
  "mulAndAddByteSliceLEPlatformLE c inp out =
     bindR (mulAndAddSlice c (castByteToTSlice inp) (castByteToTSlice out)) (\<lambda>ts. Inr (write_through ts out))"

definition MulByteSliceLE :: "bool \<Rightarrow> T \<Rightarrow> byte list \<Rightarrow> byte list \<Rightarrow> byte list res" where
  "MulByteSliceLE ple c inp out =
     (if ple then mulByteSliceLEPlatformLE c inp out else mulByteSliceLEGeneric c inp out)"

definition MulAndAddByteSliceLE :: "bool \<Rightarrow> T \<Rightarrow> byte list \<Rightarrow> byte list \<Rightarrow> byte list res" where
  "MulAndAddByteSliceLE ple c inp out =
     (if ple then mulAndAddByteSliceLEPlatformLE c inp out else mulAndAddByteSliceLEGeneric c inp out)"

section \<open>What the loops compute\<close>

lemma put_ok [simp]: "i < length out \<Longrightarrow> put out i v = Inr (out[i := v])"
  by (simp add: put_def)

lemma put_panic [simp]: "length out \<le> i \<Longrightarrow> put out i v = Inl index_panic"
  by (simp add: put_def)

lemma index_at_panic [simp]: "length xs \<le> i \<Longrightarrow> index_at xs i = Inl index_panic"
  by (simp add: index_at_def)

lemma take_Suc_update: "i < length out \<Longrightarrow> take (Suc i) (out[i := v]) = take i out @ [v]"
  by (simp add: take_Suc_conv_app_nth)

lemma mulSliceGeneric_loop_eq:
  "i \<le> length inp \<Longrightarrow> length inp \<le> length out \<Longrightarrow>
   mulSliceGeneric_loop (the_table c) inp i out
     = Inr (take i out @ map ((*) c) (drop i inp) @ drop (length inp) out)"
proof (induction "length inp - i" arbitrary: i out)
  case 0
  then show ?case by (simp add: mulSliceGeneric_loop.simps)
next
  case (Suc n)
  then have i: "i < length inp" "i < length out" by auto
  have "mulSliceGeneric_loop (the_table c) inp i out
      = mulSliceGeneric_loop (the_table c) inp (Suc i) (out[i := c * inp ! i])"
    using i by (subst mulSliceGeneric_loop.simps) (simp add: entry_lookup_word)
  also have "\<dots> = Inr (take i out @ [c * inp ! i] @ map ((*) c) (drop (Suc i) inp) @ drop (length inp) out)"
    using Suc.hyps(1) [of "Suc i" "out[i := c * inp ! i]"] Suc.hyps(2) Suc.prems i
    by (simp add: take_Suc_update)
  finally show ?case using i by (simp add: Cons_nth_drop_Suc [symmetric])
qed

lemma mulSliceGeneric_eq:
  "length inp \<le> length out \<Longrightarrow> mulSliceGeneric c inp out = Inr (map ((*) c) inp @ drop (length inp) out)"
  by (simp add: mulSliceGeneric_def mulSliceGeneric_loop_eq)

definition add_scaled :: "T \<Rightarrow> T list \<Rightarrow> T list \<Rightarrow> T list" where
  "add_scaled c xs ys = map2 (\<lambda>y x. y + c * x) ys xs"

lemma length_add_scaled [simp]: "length (add_scaled c xs ys) = min (length ys) (length xs)"
  by (simp add: add_scaled_def)

lemma add_scaled_nth:
  "i < length xs \<Longrightarrow> i < length ys \<Longrightarrow> add_scaled c xs ys ! i = ys ! i + c * xs ! i"
  by (simp add: add_scaled_def)

lemma mulAndAddSliceGeneric_loop_eq:
  "i \<le> length inp \<Longrightarrow> length inp \<le> length out \<Longrightarrow>
   mulAndAddSliceGeneric_loop (the_table c) inp i out
     = Inr (take i out @ add_scaled c (drop i inp) (drop i out) @ drop (length inp) out)"
proof (induction "length inp - i" arbitrary: i out)
  case 0
  then show ?case by (simp add: mulAndAddSliceGeneric_loop.simps add_scaled_def)
next
  case (Suc n)
  then have i: "i < length inp" "i < length out" by auto
  let ?v = "out ! i + c * inp ! i"
  have "mulAndAddSliceGeneric_loop (the_table c) inp i out
      = mulAndAddSliceGeneric_loop (the_table c) inp (Suc i) (out[i := ?v])"
    using i by (subst mulAndAddSliceGeneric_loop.simps) (simp add: entry_lookup_word)
  also have "\<dots> = Inr (take i out @ [?v] @ add_scaled c (drop (Suc i) inp) (drop (Suc i) out) @ drop (length inp) out)"
    using Suc.hyps(1) [of "Suc i" "out[i := ?v]"] Suc.hyps(2) Suc.prems i
    by (simp add: take_Suc_update)
  finally show ?case using i by (simp add: Cons_nth_drop_Suc [symmetric] add_scaled_def)
qed

lemma mulAndAddSliceGeneric_eq:
  "length inp \<le> length out \<Longrightarrow>
   mulAndAddSliceGeneric c inp out = Inr (add_scaled c inp out @ drop (length inp) out)"
  by (simp add: mulAndAddSliceGeneric_def mulAndAddSliceGeneric_loop_eq)

text \<open>\<open>drop\<close> and \<open>take\<close> for the loops that step by two, in the simplifier's normal form.\<close>

lemma drop_two: "Suc i < length xs \<Longrightarrow> drop i xs = xs ! i # xs ! Suc i # drop (Suc (Suc i)) xs"
  by (simp add: Cons_nth_drop_Suc Suc_lessD)

lemma take_two_update:
  "Suc i < length out \<Longrightarrow> take (Suc (Suc i)) (out[i := a, Suc i := b]) = take i out @ [a, b]"
  by (simp add: take_Suc_conv_app_nth)

lemma mulByteSliceLEGeneric_loop_eq:
  "i \<le> length inp \<Longrightarrow> even (length inp - i) \<Longrightarrow> length inp \<le> length out \<Longrightarrow>
   mulByteSliceLEGeneric_loop (the_table c) inp i out
     = Inr (take i out @ unwords (map ((*) c) (words (drop i inp))) @ drop (length inp) out)"
proof (induction "length inp - i" arbitrary: i out rule: less_induct)
  case less
  show ?case
  proof (cases "i < length inp")
    case False
    with less.prems show ?thesis by (simp add: mulByteSliceLEGeneric_loop.simps)
  next
    case True
    have "even (length inp - i)" by fact
    with True have i: "Suc i < length inp" by (cases "length inp - i = 1") auto
    let ?cx = "c * T (ucast (inp ! i) OR push_bit 8 (ucast (inp ! Suc i)))"
    let ?out = "out[i := ucast (raw ?cx), Suc i := ucast (drop_bit 8 (raw ?cx))]"
    have "mulByteSliceLEGeneric_loop (the_table c) inp i out
        = mulByteSliceLEGeneric_loop (the_table c) inp (i + 2) ?out"
      using i less.prems by (subst mulByteSliceLEGeneric_loop.simps) (simp add: entry_lookup_bytes)
    also have "\<dots> = Inr (take (i + 2) ?out
        @ unwords (map ((*) c) (words (drop (i + 2) inp))) @ drop (length inp) ?out)"
      using i less.prems by (intro less.hyps) auto
    finally show ?thesis
      using i less.prems by (simp add: drop_two [of i inp] take_two_update)
  qed
qed

lemma bytes_xor_word:
  "a XOR ucast (raw x) = ucast (raw (T (ucast a OR push_bit 8 (ucast b)) + x))"
  "(b :: byte) XOR ucast (drop_bit 8 (raw x)) = ucast (drop_bit 8 (raw (T (ucast (a :: byte) OR push_bit 8 (ucast b)) + x)))"
  unfolding plus_T_def T.sel
  by (intro bit_word_eqI; auto simp: bit_simps dest: bit_imp_le_length)+

lemma mulAndAddByteSliceLEGeneric_loop_eq:
  "i \<le> length inp \<Longrightarrow> even (length inp - i) \<Longrightarrow> length inp = length out \<Longrightarrow>
   mulAndAddByteSliceLEGeneric_loop (the_table c) inp i out
     = Inr (take i out @ unwords (add_scaled c (words (drop i inp)) (words (drop i out))))"
proof (induction "length inp - i" arbitrary: i out rule: less_induct)
  case less
  show ?case
  proof (cases "i < length inp")
    case False
    with less.prems show ?thesis
      by (simp add: mulAndAddByteSliceLEGeneric_loop.simps add_scaled_def)
  next
    case True
    have "even (length inp - i)" by fact
    with True have i: "Suc i < length inp" by (cases "length inp - i = 1") auto
    let ?cx = "c * T (ucast (inp ! i) OR push_bit 8 (ucast (inp ! Suc i)))"
    let ?out = "out[i := out ! i XOR ucast (raw ?cx), Suc i := out ! Suc i XOR ucast (drop_bit 8 (raw ?cx))]"
    have "mulAndAddByteSliceLEGeneric_loop (the_table c) inp i out
        = mulAndAddByteSliceLEGeneric_loop (the_table c) inp (i + 2) ?out"
      using i less.prems by (subst mulAndAddByteSliceLEGeneric_loop.simps) (simp add: entry_lookup_bytes)
    also have "\<dots> = Inr (take (i + 2) ?out
        @ unwords (add_scaled c (words (drop (i + 2) inp)) (words (drop (i + 2) ?out))))"
      using i less.prems by (intro less.hyps) auto
    finally show ?thesis
      using i less.prems
      by (simp add: drop_two [of i inp] drop_two [of i out] take_two_update add_scaled_def
          bytes_xor_word(1) [where b = "out ! Suc i"] bytes_xor_word(2) [where a = "out ! i"])
  qed
qed

section \<open>The exported functions\<close>

lemma drop_Suc_nth: "0 < length xs \<Longrightarrow> drop (length xs - Suc 0) xs = [xs ! (length xs - Suc 0)]"
  by (subst Cons_nth_drop_Suc [symmetric]) simp_all

lemma write_through_words:
  "2 * length ts = length out \<Longrightarrow> write_through ts out = unwords ts"
  by (simp add: write_through_def splice_def)

lemma MulByteSliceLE_eq:
  assumes "even (length inp)" and "length out = length inp"
  shows "MulByteSliceLE ple c inp out = Inr (unwords (map ((*) c) (words inp)))"
proof (cases ple)
  case True
  have "2 * length (map ((*) c) (words inp)) = length out" using assms by simp
  with True assms show ?thesis
    by (simp add: MulByteSliceLE_def mulByteSliceLEPlatformLE_def mulSlice_def castByteToTSlice_def
        mulSliceGeneric_eq write_through_words)
next
  case False
  with assms show ?thesis
    by (simp add: MulByteSliceLE_def mulByteSliceLEGeneric_def mulByteSliceLEGeneric_loop_eq)
qed

lemma MulAndAddByteSliceLE_eq:
  assumes "even (length inp)" and "length out = length inp"
  shows "MulAndAddByteSliceLE ple c inp out = Inr (unwords (add_scaled c (words inp) (words out)))"
proof (cases ple)
  case True
  have "2 * length (add_scaled c (words inp) (words out)) = length out" using assms by simp
  with True assms show ?thesis
    by (simp add: MulAndAddByteSliceLE_def mulAndAddByteSliceLEPlatformLE_def mulAndAddSlice_def
        castByteToTSlice_def mulAndAddSliceGeneric_eq write_through_words)
next
  case False
  with assms show ?thesis
    by (simp add: MulAndAddByteSliceLE_def mulAndAddByteSliceLEGeneric_def
        mulAndAddByteSliceLEGeneric_loop_eq)
qed

text \<open>
  An odd length separates the two paths: the byte loop indexes past the end, the cast ignores the
  last byte.
\<close>

lemma mulByteSliceLEGeneric_loop_odd:
  "i \<le> length inp \<Longrightarrow> odd (length inp - i) \<Longrightarrow> length inp = length out \<Longrightarrow>
   mulByteSliceLEGeneric_loop (the_table c) inp i out = Inl index_panic"
proof (induction "length inp - i" arbitrary: i out rule: less_induct)
  case less
  then have "i < length inp" by (cases "i = length inp") auto
  show ?case
  proof (cases "Suc i < length inp")
    case False
    with \<open>i < length inp\<close> show ?thesis by (simp add: mulByteSliceLEGeneric_loop.simps)
  next
    case True
    have "odd (length inp - (i + 2))" using less.prems True by simp
    with less True show ?thesis
      by (subst mulByteSliceLEGeneric_loop.simps) (simp add: entry_lookup_bytes)
  qed
qed

lemma MulByteSliceLE_odd:
  assumes "odd (length inp)" and "length out = length inp"
  shows "MulByteSliceLE False c inp out = Inl index_panic"
    and "MulByteSliceLE True c inp out
      = Inr (unwords (map ((*) c) (words inp)) @ [out ! (length out - 1)])"
proof -
  show "MulByteSliceLE False c inp out = Inl index_panic"
    using assms by (simp add: MulByteSliceLE_def mulByteSliceLEGeneric_def mulByteSliceLEGeneric_loop_odd)
  have l: "2 * (length inp div 2) = length out - 1" using assms by presburger
  have "drop (length out - 1) out = [out ! (length out - 1)]"
    using assms drop_Suc_nth [of out] odd_pos [OF assms(1)] by simp
  with l assms(2) show "MulByteSliceLE True c inp out
      = Inr (unwords (map ((*) c) (words inp)) @ [out ! (length out - 1)])"
    by (simp add: MulByteSliceLE_def mulByteSliceLEPlatformLE_def mulSlice_def castByteToTSlice_def
        mulSliceGeneric_eq write_through_def splice_def)
qed

text \<open>
  \<open>scaleRow\<close> calls \<open>mulSlice\<close> with the same slice as input and output: every element is
  read before it is overwritten, so the in-place loop computes the same products.
\<close>

function mulSliceGeneric_inplace :: "mulTableEntry \<Rightarrow> nat \<Rightarrow> nat \<Rightarrow> T list \<Rightarrow> T list res" where
  "mulSliceGeneric_inplace e n i io =
     (if i < n
      then bindR (index_at io i) (\<lambda>x.
           bindR (entry_lookup e (unat (raw x AND 0xff)) (unat (drop_bit 8 (raw x)))) (\<lambda>v.
           bindR (put io i v) (\<lambda>io'. mulSliceGeneric_inplace e n (Suc i) io')))
      else Inr io)"
  by pat_completeness auto
termination
  by (relation "measure (\<lambda>(e, n, i, io). n - i)") auto

declare mulSliceGeneric_inplace.simps [simp del]

lemma mulSliceGeneric_inplace_loop_eq:
  "i \<le> length io \<Longrightarrow> n = length io \<Longrightarrow>
   mulSliceGeneric_inplace (the_table c) n i io = Inr (take i io @ map ((*) c) (drop i io))"
proof (induction "length io - i" arbitrary: i io)
  case 0
  then show ?case by (simp add: mulSliceGeneric_inplace.simps)
next
  case (Suc k)
  then have i: "i < length io" by simp
  have "mulSliceGeneric_inplace (the_table c) n i io
      = mulSliceGeneric_inplace (the_table c) n (Suc i) (io[i := c * io ! i])"
    using i Suc.prems by (subst mulSliceGeneric_inplace.simps) (simp add: entry_lookup_word)
  also have "\<dots> = Inr (take i io @ [c * io ! i] @ map ((*) c) (drop (Suc i) io))"
    using Suc.hyps(1) [of "io[i := c * io ! i]" "Suc i"] Suc.hyps(2) Suc.prems i
    by (simp add: take_Suc_update)
  finally show ?case using i by (simp add: Cons_nth_drop_Suc [symmetric])
qed

definition mulSlice_inplace :: "T \<Rightarrow> T list \<Rightarrow> T list res" where
  "mulSlice_inplace c io =
     bindR (multiplicationTable c) (\<lambda>e. mulSliceGeneric_inplace e (length io) 0 io)"

lemma mulSlice_inplace_eq [simp]: "mulSlice_inplace c io = Inr (map ((*) c) io)"
  by (simp add: mulSlice_inplace_def mulSliceGeneric_inplace_loop_eq)

section \<open>The 4-bit tables of the SSSE3 kernels\<close>

text \<open>t_amd64.go: \<open>mulTable64\<close>, one entry of \<open>platformInit\<close>.\<close>

record mulTable64Entry =
  s0Low :: "byte list"
  s4Low :: "byte list"
  s8Low :: "byte list"
  s12Low :: "byte list"
  s0High :: "byte list"
  s4High :: "byte list"
  s8High :: "byte list"
  s12High :: "byte list"

definition platformInit_nibbles :: "T \<Rightarrow> nat \<Rightarrow> (byte \<times> byte) list res" where
  "platformInit_nibbles c s =
     mapR (\<lambda>j. bindR (T_Times c (T (push_bit s (of_nat j)))) (\<lambda>t.
             Inr (ucast (raw t), ucast (drop_bit 8 (raw t))))) [0..<16]"

definition platformInit_entry :: "T \<Rightarrow> mulTable64Entry res" where
  "platformInit_entry c =
     bindR (platformInit_nibbles c 0) (\<lambda>t0. bindR (platformInit_nibbles c 4) (\<lambda>t1.
     bindR (platformInit_nibbles c 8) (\<lambda>t2. bindR (platformInit_nibbles c 12) (\<lambda>t3.
     Inr \<lparr>s0Low = map fst t0, s4Low = map fst t1, s8Low = map fst t2, s12Low = map fst t3,
          s0High = map snd t0, s4High = map snd t1, s8High = map snd t2, s12High = map snd t3\<rparr>))))"


definition nibble :: "nat \<Rightarrow> u16 \<Rightarrow> nat" where
  "nibble k w = unat (take_bit 4 (drop_bit (4 * k) w))"

lemma nibble_less: "nibble k w < 16"
  unfolding nibble_def unsigned_take_bit_eq by (rule less_le_trans [OF take_bit_nat_less_exp]) simp

lemma of_nat_nibble: "of_nat (nibble k w) = take_bit 4 (drop_bit (4 * k) (w :: u16))"
  by (simp add: nibble_def)

lemma nibbles_sum:
  "T (push_bit 0 (of_nat (nibble 0 w))) + T (push_bit 4 (of_nat (nibble 1 w)))
    + T (push_bit 8 (of_nat (nibble 2 w))) + T (push_bit 12 (of_nat (nibble 3 w))) = T w"
  unfolding of_nat_nibble plus_T_def T.sel T.inject
  by (rule bit_word_eqI) (auto simp: bit_simps)

lemma platformInit_nibbles_eq [simp]:
  "platformInit_nibbles c s = Inr (map (\<lambda>j. (ucast (raw (c * T (push_bit s (of_nat j)))),
      ucast (drop_bit 8 (raw (c * T (push_bit s (of_nat j))))))) [0..<16])"
  unfolding platformInit_nibbles_def by (rule mapR_Inr_map) simp

lemma ucast_raw_add: "ucast (raw (x + y)) = (ucast (raw x) XOR ucast (raw y) :: byte)"
  unfolding plus_T_def T.sel by (intro bit_word_eqI) (auto simp: bit_simps)

lemma ucast_raw_add_high:
  "ucast (drop_bit 8 (raw (x + y))) = (ucast (drop_bit 8 (raw x)) XOR ucast (drop_bit 8 (raw y)) :: byte)"
  unfolding plus_T_def T.sel by (intro bit_word_eqI) (auto simp: bit_simps)

text \<open>What the shuffles of the kernels rely on: four look-ups per byte give the product.\<close>

lemma platformInit_entry_product:
  "\<exists>e. platformInit_entry c = Inr e
     \<and> ucast (raw (c * T w)) = s0Low e ! nibble 0 w XOR s4Low e ! nibble 1 w
                             XOR s8Low e ! nibble 2 w XOR s12Low e ! nibble 3 w
     \<and> ucast (drop_bit 8 (raw (c * T w))) = s0High e ! nibble 0 w XOR s4High e ! nibble 1 w
                             XOR s8High e ! nibble 2 w XOR s12High e ! nibble 3 w"
proof -
  have p: "c * T w = c * T (push_bit 0 (of_nat (nibble 0 w))) + c * T (push_bit 4 (of_nat (nibble 1 w)))
      + c * T (push_bit 8 (of_nat (nibble 2 w))) + c * T (push_bit 12 (of_nat (nibble 3 w)))"
    by (subst nibbles_sum [of w, symmetric]) (simp only: distrib_left)
  show ?thesis
    unfolding platformInit_entry_def p ucast_raw_add ucast_raw_add_high
    using nibble_less [of 0 w] nibble_less [of 1 w] nibble_less [of 2 w] nibble_less [of 3 w]
    by (simp add: xor.assoc del: push_bit_0_id)
qed

section \<open>The interface of region arithmetic\<close>

text \<open>
  What the matrix and coder code relies on: multiplying, and multiplying and adding, a region of
  even length act word by word.
\<close>

locale region_arith =
  fixes mul muladd :: "T \<Rightarrow> byte list \<Rightarrow> byte list \<Rightarrow> byte list res"
  assumes mul_law: "even (length inp) \<Longrightarrow> length out = length inp \<Longrightarrow>
      mul c inp out = Inr (unwords (map ((*) c) (words inp)))"
    and muladd_law: "even (length inp) \<Longrightarrow> length out = length inp \<Longrightarrow>
      muladd c inp out = Inr (unwords (add_scaled c (words inp) (words out)))"
begin

lemma muladds:
  assumes "even (length out)" and "\<And>c inp. (c, inp) \<in> set ps \<Longrightarrow> length inp = length out"
  shows "foldR (\<lambda>(c, inp) acc. muladd c inp acc) ps out
    = Inr (unwords (map (\<lambda>k. words out ! k + (\<Sum>(c, inp)\<leftarrow>ps. c * words inp ! k)) [0..<length out div 2]))"
  using assms
proof (induction ps arbitrary: out)
  case Nil
  have "map (\<lambda>k. words out ! k) [0..<length out div 2] = words out"
    using map_nth [of "words out"] by simp
  with Nil show ?case by (simp add: unwords_words)
next
  case (Cons p ps)
  obtain c inp where p: "p = (c, inp)" by (cases p)
  have l: "length inp = length out" by (rule Cons.prems(2) [of c]) (simp add: p)
  let ?o = "unwords (add_scaled c (words inp) (words out))"
  have lo: "length ?o = length out" using l Cons.prems(1) by simp
  have step: "muladd c inp out = Inr ?o" using l Cons.prems(1) by (intro muladd_law) auto
  have IH: "foldR (\<lambda>(c, inp) acc. muladd c inp acc) ps ?o
      = Inr (unwords (map (\<lambda>k. words ?o ! k + (\<Sum>(c, inp)\<leftarrow>ps. c * words inp ! k)) [0..<length ?o div 2]))"
    using Cons.prems lo by (intro Cons.IH) auto
  have "map (\<lambda>k. words ?o ! k + (\<Sum>(c, inp)\<leftarrow>ps. c * words inp ! k)) [0..<length ?o div 2]
      = map (\<lambda>k. words out ! k + (\<Sum>(c, inp)\<leftarrow>p # ps. c * words inp ! k)) [0..<length out div 2]"
    using l unfolding lo p by (intro map_cong) (auto simp: add_scaled_nth add.assoc)
  with step IH show ?case by (simp add: p)
qed

text \<open>The body of \<open>applyMatrixSlice\<close>: the first region is multiplied, the others are added.\<close>

lemma mul_then_muladds:
  assumes "even (length out)" and "length inp0 = length out"
    and "\<And>c inp. (c, inp) \<in> set ps \<Longrightarrow> length inp = length out"
  shows "bindR (mul c0 inp0 out) (foldR (\<lambda>(c, inp) acc. muladd c inp acc) ps)
    = Inr (unwords (map (\<lambda>k. \<Sum>(c, inp)\<leftarrow>(c0, inp0) # ps. c * words inp ! k) [0..<length out div 2]))"
proof -
  let ?o = "unwords (map ((*) c0) (words inp0))"
  have "mul c0 inp0 out = Inr ?o" using assms by (intro mul_law) auto
  moreover have lo: "length ?o = length out" using assms by simp
  moreover have "foldR (\<lambda>(c, inp) acc. muladd c inp acc) ps ?o
      = Inr (unwords (map (\<lambda>k. words ?o ! k + (\<Sum>(c, inp)\<leftarrow>ps. c * words inp ! k)) [0..<length ?o div 2]))"
    using assms lo by (intro muladds) auto
  moreover have "map (\<lambda>k. words ?o ! k + (\<Sum>(c, inp)\<leftarrow>ps. c * words inp ! k)) [0..<length ?o div 2]
      = map (\<lambda>k. \<Sum>(c, inp)\<leftarrow>(c0, inp0) # ps. c * words inp ! k) [0..<length out div 2]"
    unfolding lo using assms by (intro map_cong) auto
  ultimately show ?thesis by (simp only: bindR_simps)
qed

end

interpretation region: region_arith "MulByteSliceLE ple" "MulAndAddByteSliceLE ple" for ple
  by unfold_locales (simp_all add: MulByteSliceLE_eq MulAndAddByteSliceLE_eq)

section \<open>Properties\<close>

text \<open>
  C34: for slices of one even length \<open>MulByteSliceLE\<close> takes the same effect on a little-endian
  platform (reinterpreting the bytes) as on any other (the byte loop): every 16-bit word of the
  output becomes the product of the coefficient and the word of the input.
\<close>

theorem MulByteSliceLE_words:
  assumes "even (length inp)" and "length out = length inp"
  shows "MulByteSliceLE ple c inp out = Inr (unwords (map (\<lambda>t. c * t) (words inp)))"
  by (rule MulByteSliceLE_eq [OF assms])

theorem MulByteSliceLE_words_witness:
  "MulByteSliceLE False (T 2) [1, 0x80] [7, 7] = Inr (unwords (map (\<lambda>t. T 2 * t) (words [1, 0x80])))"
  by (rule MulByteSliceLE_words) simp_all

text \<open>
  \<open>MulAndAddByteSliceLE\<close> adds the product to the word that the output held, on both paths.
\<close>

lemma MulAndAddByteSliceLE_words:
  assumes "even (length inp)" and "length out = length inp"
  shows "MulAndAddByteSliceLE ple c inp out
    = Inr (unwords (map2 (\<lambda>y x. y + c * x) (words out) (words inp)))"
  using MulAndAddByteSliceLE_eq [OF assms] by (simp add: add_scaled_def)

text \<open>
  For an odd length the two paths differ: the byte loop panics at the missing high byte, the
  little-endian path silently leaves the last byte of the output as it was.
\<close>

lemma MulByteSliceLE_odd_length:
  assumes "odd (length inp)" and "length out = length inp"
  shows "is_panic (MulByteSliceLE False c inp out)
    \<and> MulByteSliceLE True c inp out = Inr (unwords (map (\<lambda>t. c * t) (words inp)) @ [last out])"
proof -
  have "out \<noteq> []" using assms by auto
  then have "out ! (length out - 1) = last out" by (simp add: last_conv_nth)
  with MulByteSliceLE_odd [OF assms, of c] show ?thesis by (simp add: index_panic_def)
qed

lemma MulByteSliceLE_odd_length_witness:
  "is_panic (MulByteSliceLE False (T 2) [1] [9])
    \<and> MulByteSliceLE True (T 2) [1] [9] = Inr (unwords (map (\<lambda>t. T 2 * t) (words [1])) @ [last [9]])"
  by (rule MulByteSliceLE_odd_length) simp_all

text \<open>
  the 4-bit tables that \<open>platformInit\<close> builds for the SSSE3 kernels are right: XORing the four
  entries selected by the nibbles of a word gives the low and the high byte of its product.
\<close>

lemma platformInit_tables_correct:
  "\<exists>e. platformInit_entry c = Inr e
     \<and> ucast (raw (c * T w)) = s0Low e ! nibble 0 w XOR s4Low e ! nibble 1 w
                             XOR s8Low e ! nibble 2 w XOR s12Low e ! nibble 3 w
     \<and> ucast (drop_bit 8 (raw (c * T w))) = s0High e ! nibble 0 w XOR s4High e ! nibble 1 w
                             XOR s8High e ! nibble 2 w XOR s12High e ! nibble 3 w"
  by (rule platformInit_entry_product)

end
