(* ===== verification/Matrix16.thy ===== *)
theory Matrix16
  imports Slices
begin

text \<open>
  Matrices over GF(2^16) (src/gf2p16/matrix.go): constructors, product, the row operations and
  Gauss-Jordan elimination.  Row and column counts and indices are naturals, so the code's checks
  against negative numbers are the checks against 0 here.  The main result is that
  \<open>RowReduceForInverse\<close> solves the linear system it is given, and that it reports
  \<open>singular matrix\<close> exactly when the system has no unique solution.
\<close>

section \<open>Matrices and their constructors\<close>

record matrix =
  m_rows :: nat
  m_columns :: nat
  m_elements :: "T list"

definition checkRowColumnCount :: "nat \<Rightarrow> nat \<Rightarrow> unit res" where
  "checkRowColumnCount r c =
     bindR (check (r \<noteq> 0) (Panic ''invalid row count'')) (\<lambda>_.
     check (c \<noteq> 0) (Panic ''invalid column count''))"

definition NewZeroMatrix :: "nat \<Rightarrow> nat \<Rightarrow> matrix res" where
  "NewZeroMatrix r c =
     bindR (checkRowColumnCount r c) (\<lambda>_.
     Inr \<lparr>m_rows = r, m_columns = c, m_elements = replicate (r * c) 0\<rparr>)"

definition NewMatrixFromSlice :: "nat \<Rightarrow> nat \<Rightarrow> T list \<Rightarrow> matrix res" where
  "NewMatrixFromSlice r c els =
     bindR (checkRowColumnCount r c) (\<lambda>_.
     bindR (check (length els = r * c) (Panic ''element count is not rows*columns'')) (\<lambda>_.
     Inr \<lparr>m_rows = r, m_columns = c, m_elements = els\<rparr>))"

text \<open>The two nested loops visit the pairs in the order of \<open>List.product\<close>.\<close>

definition NewMatrixFromFunction :: "nat \<Rightarrow> nat \<Rightarrow> (nat \<Rightarrow> nat \<Rightarrow> T res) \<Rightarrow> matrix res" where
  "NewMatrixFromFunction r c fn =
     bindR (checkRowColumnCount r c) (\<lambda>_.
     bindR (mapR (\<lambda>(i, j). fn i j) (List.product [0..<r] [0..<c])) (\<lambda>els.
     NewMatrixFromSlice r c els))"

definition NewIdentityMatrix :: "nat \<Rightarrow> matrix res" where
  "NewIdentityMatrix n = NewMatrixFromFunction n n (\<lambda>i j. Inr (if i = j then 1 else 0))"

section \<open>Access and product\<close>

definition checkRowIndex :: "matrix \<Rightarrow> nat \<Rightarrow> unit res" where
  "checkRowIndex m i = check (i < m_rows m) (Panic ''row index out of bounds'')"

definition checkColumnIndex :: "matrix \<Rightarrow> nat \<Rightarrow> unit res" where
  "checkColumnIndex m i = check (i < m_columns m) (Panic ''column index out of bounds'')"

definition At :: "matrix \<Rightarrow> nat \<Rightarrow> nat \<Rightarrow> T res" where
  "At m i j =
     bindR (checkRowIndex m i) (\<lambda>_.
     bindR (checkColumnIndex m j) (\<lambda>_.
     index_at (m_elements m) (i * m_columns m + j)))"

definition Matrix_Times :: "matrix \<Rightarrow> matrix \<Rightarrow> matrix res" where
  "Matrix_Times m n =
     bindR (check (m_columns m = m_rows n) (Panic ''mismatched dimensions'')) (\<lambda>_.
     NewMatrixFromFunction (m_rows m) (m_columns n) (\<lambda>i j.
       foldR (\<lambda>k t. bindR (At m i k) (\<lambda>mIK. bindR (At n k j) (\<lambda>nKJ.
                    bindR (T_Times mIK nKJ) (\<lambda>p. Inr (T_Plus t p)))))
         [0..<m_columns m] 0))"

definition row :: "matrix \<Rightarrow> nat \<Rightarrow> T list res" where
  "row m i =
     bindR (checkRowIndex m i) (\<lambda>_.
     slice_at (m_elements m) (i * m_columns m) ((i + 1) * m_columns m))"

definition clone :: "matrix \<Rightarrow> matrix res" where
  "clone m = NewMatrixFromSlice (m_rows m) (m_columns m) (m_elements m)"

section \<open>Row operations\<close>

text \<open>
  \<open>row\<close> returns a window of the elements, so writing to it writes the matrix: \<open>set_row\<close> is that
  write.  The rows of two different indices do not overlap.
\<close>

definition set_row :: "matrix \<Rightarrow> nat \<Rightarrow> T list \<Rightarrow> matrix" where
  "set_row m i r = m\<lparr>m_elements := splice (m_elements m) (i * m_columns m) r\<rparr>"

definition swapRows :: "matrix \<Rightarrow> nat \<Rightarrow> nat \<Rightarrow> matrix res" where
  "swapRows m i j =
     bindR (checkRowIndex m i) (\<lambda>_. bindR (checkRowIndex m j) (\<lambda>_.
     if i = j then Inr m
     else bindR (row m i) (\<lambda>rowI. bindR (row m j) (\<lambda>rowJ.
          Inr (set_row (set_row m i rowJ) j rowI)))))"

definition scaleRow :: "matrix \<Rightarrow> nat \<Rightarrow> T \<Rightarrow> matrix res" where
  "scaleRow m i c = bindR (row m i) (\<lambda>r. bindR (mulSlice_inplace c r) (\<lambda>r'. Inr (set_row m i r')))"

definition addScaledRow :: "matrix \<Rightarrow> nat \<Rightarrow> nat \<Rightarrow> T \<Rightarrow> matrix res" where
  "addScaledRow m dest src c =
     bindR (row m src) (\<lambda>rowSrc. bindR (row m dest) (\<lambda>rowDest.
     bindR (mulAndAddSlice c rowSrc rowDest) (\<lambda>r'. Inr (set_row m dest r'))))"

section \<open>Elimination\<close>

text \<open>The first inner loop: \<open>js\<close> are the row indices still to try.\<close>

fun pivot_search :: "nat \<Rightarrow> nat list \<Rightarrow> matrix \<Rightarrow> matrix \<Rightarrow> (matrix \<times> matrix \<times> T) res" where
  "pivot_search i [] m n = Inr (m, n, 0)"
| "pivot_search i (j # js) m n =
     bindR (At m j i) (\<lambda>t.
     if t \<noteq> 0
     then bindR (swapRows m i j) (\<lambda>m'. bindR (swapRows n i j) (\<lambda>n'.
          bindR (At m' i i) (\<lambda>pivot. Inr (m', n', pivot))))
     else pivot_search i js m n)"

definition eliminate :: "nat \<Rightarrow> nat \<Rightarrow> matrix \<times> matrix \<Rightarrow> (matrix \<times> matrix) res" where
  "eliminate i j s = (case s of (m, n) \<Rightarrow>
     bindR (At m j i) (\<lambda>t.
     if t \<noteq> 0
     then bindR (addScaledRow m j i t) (\<lambda>m'. bindR (addScaledRow n j i t) (\<lambda>n'. Inr (m', n')))
     else Inr (m, n)))"

definition forward_step :: "nat \<Rightarrow> matrix \<times> matrix \<Rightarrow> (matrix \<times> matrix) res" where
  "forward_step i s = (case s of (m, n) \<Rightarrow>
     bindR (pivot_search i [i..<m_rows m] m n) (\<lambda>(m1, n1, pivot).
     bindR (check (pivot \<noteq> 0) (ErrorNew ''singular matrix'')) (\<lambda>_.
     bindR (T_Inverse pivot) (\<lambda>pivotInv.
     bindR (scaleRow m1 i pivotInv) (\<lambda>m2.
     bindR (scaleRow n1 i pivotInv) (\<lambda>n2.
     foldR (eliminate i) [i + 1..<m_rows m] (m2, n2)))))))"

definition rowReduceForInverse :: "matrix \<Rightarrow> matrix \<Rightarrow> (matrix \<times> matrix) res" where
  "rowReduceForInverse m n =
     bindR (foldR forward_step [0..<m_rows m] (m, n)) (\<lambda>s.
     foldR (\<lambda>i. foldR (eliminate i) [0..<i]) [0..<m_rows m] s)"

definition Inverse :: "matrix \<Rightarrow> matrix res" where
  "Inverse m =
     bindR (check (m_rows m = m_columns m) (Panic ''cannot invert non-square matrix'')) (\<lambda>_.
     bindR (NewIdentityMatrix (m_columns m)) (\<lambda>mInv.
     bindR (clone m) (\<lambda>m'.
     bindR (rowReduceForInverse m' mInv) (\<lambda>(_, mInv'). Inr mInv'))))"

definition RowReduceForInverse :: "matrix \<Rightarrow> matrix \<Rightarrow> matrix res" where
  "RowReduceForInverse m n =
     bindR (check (m_rows m = m_columns m) (Panic ''cannot row-reduce non-square matrix'')) (\<lambda>_.
     bindR (check (m_rows n = m_rows m) (Panic ''n must have the same number of rows as m'')) (\<lambda>_.
     bindR (clone n) (\<lambda>nReduced.
     bindR (clone m) (\<lambda>m'.
     bindR (rowReduceForInverse m' nReduced) (\<lambda>(_, n'). Inr n')))))"

section \<open>Well-formed matrices and their entries\<close>

definition wf_matrix :: "matrix \<Rightarrow> bool" where
  "wf_matrix m \<longleftrightarrow> 0 < m_rows m \<and> 0 < m_columns m \<and> length (m_elements m) = m_rows m * m_columns m"

definition el :: "matrix \<Rightarrow> nat \<Rightarrow> nat \<Rightarrow> T" where
  "el m i j = m_elements m ! (i * m_columns m + j)"

lemma index_bound: "i < r \<Longrightarrow> j < c \<Longrightarrow> i * c + j < r * (c :: nat)"
proof -
  assume "i < r" "j < c"
  then have "i * c + j < Suc i * c" by simp
  also have "\<dots> \<le> r * c" using \<open>i < r\<close> by (intro mult_le_mono1) simp
  finally show ?thesis .
qed

lemma row_bound: "i < r \<Longrightarrow> i * c + c \<le> r * (c :: nat)"
  using mult_le_mono1 [of "Suc i" r c] by simp

lemma At_eq [simp]: "wf_matrix m \<Longrightarrow> i < m_rows m \<Longrightarrow> j < m_columns m \<Longrightarrow> At m i j = Inr (el m i j)"
  by (simp add: At_def checkRowIndex_def checkColumnIndex_def wf_matrix_def el_def index_bound)

lemma matrix_eqI:
  assumes "wf_matrix m" "wf_matrix n" "m_rows m = m_rows n" "m_columns m = m_columns n"
    and "\<And>i j. i < m_rows m \<Longrightarrow> j < m_columns m \<Longrightarrow> el m i j = el n i j"
  shows "m = n"
proof -
  have "m_elements m ! k = m_elements n ! k" if "k < m_rows m * m_columns m" for k
  proof -
    have "k div m_columns m < m_rows m" using that by (simp add: less_mult_imp_div_less)
    moreover have "k mod m_columns m < m_columns m" using assms(1) by (simp add: wf_matrix_def)
    ultimately show ?thesis using assms(4) assms(5) [of "k div m_columns m" "k mod m_columns m"] by (simp add: el_def)
  qed
  then have "m_elements m = m_elements n" using assms by (intro nth_equalityI) (auto simp: wf_matrix_def)
  with assms show ?thesis by (cases m; cases n) simp
qed

lemma checkRowColumnCount_ok [simp]: "0 < r \<Longrightarrow> 0 < c \<Longrightarrow> checkRowColumnCount r c = Inr ()"
  by (simp add: checkRowColumnCount_def)

definition mk_matrix :: "nat \<Rightarrow> nat \<Rightarrow> (nat \<Rightarrow> nat \<Rightarrow> T) \<Rightarrow> matrix" where
  "mk_matrix r c f = \<lparr>m_rows = r, m_columns = c,
     m_elements = map (\<lambda>(i, j). f i j) (List.product [0..<r] [0..<c])\<rparr>"

lemma mk_matrix_sel [simp]: "m_rows (mk_matrix r c f) = r" "m_columns (mk_matrix r c f) = c"
  by (simp_all add: mk_matrix_def)

lemma wf_mk_matrix [simp]: "wf_matrix (mk_matrix r c f) \<longleftrightarrow> 0 < r \<and> 0 < c"
  by (auto simp: wf_matrix_def mk_matrix_def)

lemma product_upt_nth:
  "i < r \<Longrightarrow> j < c \<Longrightarrow> List.product [0..<r] [0..<c] ! (i * c + j) = (i, j)"
  using product_nth [where n = "i * c + j" and xs = "[0..<r]" and ys = "[0..<c]"] by (simp add: index_bound)

lemma el_mk_matrix [simp]: "i < r \<Longrightarrow> j < c \<Longrightarrow> el (mk_matrix r c f) i j = f i j"
  by (simp add: el_def mk_matrix_def product_upt_nth index_bound)

lemma NewMatrixFromFunction_eq:
  assumes "0 < r" "0 < c" and "\<And>i j. i < r \<Longrightarrow> j < c \<Longrightarrow> fn i j = Inr (f i j)"
  shows "NewMatrixFromFunction r c fn = Inr (mk_matrix r c f)"
proof -
  have "mapR (\<lambda>(i, j). fn i j) (List.product [0..<r] [0..<c])
      = Inr (map (\<lambda>(i, j). f i j) (List.product [0..<r] [0..<c]))"
    by (rule mapR_Inr_map) (use assms(3) in auto)
  with assms(1,2) show ?thesis
    by (simp add: NewMatrixFromFunction_def NewMatrixFromSlice_def mk_matrix_def)
qed

lemma NewIdentityMatrix_eq: "0 < n \<Longrightarrow> NewIdentityMatrix n = Inr (mk_matrix n n (\<lambda>i j. if i = j then 1 else 0))"
  unfolding NewIdentityMatrix_def by (rule NewMatrixFromFunction_eq) auto

lemma clone_eq [simp]: "wf_matrix m \<Longrightarrow> clone m = Inr m"
  by (simp add: clone_def NewMatrixFromSlice_def wf_matrix_def)

lemma foldR_sum:
  "(\<And>k. k \<in> set ks \<Longrightarrow> f k = Inr (g k)) \<Longrightarrow>
   foldR (\<lambda>k t. bindR (f k) (\<lambda>p. Inr (t + p))) ks t = Inr (t + sum_list (map g ks))"
  by (induction ks arbitrary: t) (auto simp: add.assoc)

lemma Matrix_Times_eq:
  assumes "wf_matrix m" "wf_matrix n" "m_columns m = m_rows n"
  shows "Matrix_Times m n
    = Inr (mk_matrix (m_rows m) (m_columns n) (\<lambda>i j. \<Sum>k<m_columns m. el m i k * el n k j))"
proof -
  have "foldR (\<lambda>k t. bindR (At m i k) (\<lambda>mIK. bindR (At n k j) (\<lambda>nKJ.
                    bindR (T_Times mIK nKJ) (\<lambda>p. Inr (T_Plus t p))))) [0..<m_columns m] 0
      = Inr (\<Sum>k<m_columns m. el m i k * el n k j)" if "i < m_rows m" "j < m_columns n" for i j
  proof -
    have "foldR (\<lambda>k t. bindR (bindR (At m i k) (\<lambda>mIK. bindR (At n k j) (T_Times mIK))) (\<lambda>p. Inr (t + p)))
        [0..<m_columns m] 0 = Inr (0 + sum_list (map (\<lambda>k. el m i k * el n k j) [0..<m_columns m]))"
      by (rule foldR_sum) (use assms that in simp)
    then show ?thesis by (simp add: bindR_assoc sum_list_distinct_conv_sum_set atLeast0LessThan)
  qed
  with assms show ?thesis
    unfolding Matrix_Times_def by (subst NewMatrixFromFunction_eq) (auto simp: wf_matrix_def)
qed


section \<open>What the row operations do to the entries\<close>

definition same_shape :: "matrix \<Rightarrow> matrix \<Rightarrow> bool" where
  "same_shape m m' \<longleftrightarrow> wf_matrix m' \<and> m_rows m' = m_rows m \<and> m_columns m' = m_columns m"

lemma same_shape_refl [simp]: "same_shape m m \<longleftrightarrow> wf_matrix m"
  by (simp add: same_shape_def)

lemma same_shape_trans: "same_shape a b \<Longrightarrow> same_shape b c \<Longrightarrow> same_shape a c"
  by (simp add: same_shape_def)

definition row_list :: "matrix \<Rightarrow> nat \<Rightarrow> T list" where
  "row_list m i = map (el m i) [0..<m_columns m]"

lemma length_row_list [simp]: "length (row_list m i) = m_columns m"
  by (simp add: row_list_def)

lemma row_eq [simp]: "wf_matrix m \<Longrightarrow> i < m_rows m \<Longrightarrow> row m i = Inr (row_list m i)"
proof -
  assume m: "wf_matrix m" and i: "i < m_rows m"
  then have b: "i * m_columns m + m_columns m \<le> length (m_elements m)"
    using row_bound [OF i] by (simp add: wf_matrix_def)
  then have "slice (m_elements m) (i * m_columns m) ((i + 1) * m_columns m) = row_list m i"
    by (intro nth_equalityI) (auto simp: row_list_def el_def nth_slice)
  with b i show ?thesis by (simp add: row_def checkRowIndex_def)
qed

lemma same_shape_set_row:
  "wf_matrix m \<Longrightarrow> i < m_rows m \<Longrightarrow> length r = m_columns m \<Longrightarrow> same_shape m (set_row m i r)"
  using row_bound [of i "m_rows m" "m_columns m"]
  by (simp add: same_shape_def wf_matrix_def set_row_def)

lemma el_set_row:
  assumes "wf_matrix m" "i < m_rows m" "length r = m_columns m" "k < m_rows m" "l < m_columns m"
  shows "el (set_row m i r) k l = (if k = i then r ! l else el m k l)"
proof -
  let ?c = "m_columns m"
  have b: "i * ?c + length r \<le> length (m_elements m)" "k * ?c + l < length (m_elements m)"
    using assms row_bound [of i "m_rows m" ?c] by (auto simp: wf_matrix_def index_bound)
  have "i * ?c \<le> k * ?c + l \<and> k * ?c + l < i * ?c + ?c \<longleftrightarrow> k = i"
  proof
    assume h: "i * ?c \<le> k * ?c + l \<and> k * ?c + l < i * ?c + ?c"
    have step: "a < b \<Longrightarrow> a * ?c + ?c \<le> b * ?c" for a b by (rule row_bound)
    show "k = i" using h assms(5) step [of i k] step [of k i] by linarith
  qed (use assms in auto)
  with b show ?thesis by (auto simp: el_def set_row_def nth_splice assms(3))
qed

text \<open>
  Each operation yields a matrix of the same shape; \<open>row_op\<close> says which entries it has.
\<close>

definition row_op :: "matrix \<Rightarrow> matrix \<Rightarrow> (nat \<Rightarrow> nat \<Rightarrow> T) \<Rightarrow> bool" where
  "row_op m m' f \<longleftrightarrow> same_shape m m' \<and> (\<forall>k<m_rows m. \<forall>l<m_columns m. el m' k l = f k l)"

lemma row_opD:
  "row_op m m' f \<Longrightarrow> wf_matrix m'" "row_op m m' f \<Longrightarrow> m_rows m' = m_rows m"
  "row_op m m' f \<Longrightarrow> m_columns m' = m_columns m"
  "row_op m m' f \<Longrightarrow> k < m_rows m \<Longrightarrow> l < m_columns m \<Longrightarrow> el m' k l = f k l"
  by (auto simp: row_op_def same_shape_def)

lemma swapRows_op:
  assumes "wf_matrix m" "i < m_rows m" "j < m_rows m"
  shows "\<exists>m'. swapRows m i j = Inr m'
    \<and> row_op m m' (\<lambda>k. el m (if k = i then j else if k = j then i else k))"
proof (cases "i = j")
  case True
  with assms show ?thesis by (auto simp: swapRows_def checkRowIndex_def row_op_def)
next
  case False
  let ?m1 = "set_row m i (row_list m j)"
  have s1: "same_shape m ?m1" using assms by (simp add: same_shape_set_row)
  then have w1: "wf_matrix ?m1" "m_rows ?m1 = m_rows m" "m_columns ?m1 = m_columns m"
    by (auto simp: same_shape_def)
  then have "same_shape ?m1 (set_row ?m1 j (row_list m i))"
    using assms by (intro same_shape_set_row) auto
  with s1 have "row_op m (set_row ?m1 j (row_list m i)) (\<lambda>k. el m (if k = i then j else if k = j then i else k))"
    using assms w1 False
    by (auto simp: row_op_def el_set_row row_list_def intro: same_shape_trans)
  with False assms show ?thesis by (simp add: swapRows_def checkRowIndex_def)
qed

lemma scaleRow_op:
  assumes "wf_matrix m" "i < m_rows m"
  shows "\<exists>m'. scaleRow m i c = Inr m' \<and> row_op m m' (\<lambda>k l. if k = i then c * el m i l else el m k l)"
  using assms
  by (auto simp: scaleRow_def row_op_def same_shape_set_row el_set_row row_list_def)

lemma addScaledRow_op:
  assumes "wf_matrix m" "dest < m_rows m" "src < m_rows m"
  shows "\<exists>m'. addScaledRow m dest src c = Inr m'
    \<and> row_op m m' (\<lambda>k l. if k = dest then el m dest l + c * el m src l else el m k l)"
  using assms
  by (auto simp: addScaledRow_def mulAndAddSlice_def mulAndAddSliceGeneric_eq row_op_def
      same_shape_set_row el_set_row row_list_def add_scaled_nth)

section \<open>The linear relation of a pair of matrices\<close>

text \<open>
  \<open>rel m n x y\<close>: the vectors \<open>x\<close> and \<open>y\<close> satisfy \<open>m x = n y\<close>.  A row operation on both
  matrices does not change the relation.
\<close>

definition dot :: "matrix \<Rightarrow> nat \<Rightarrow> (nat \<Rightarrow> T) \<Rightarrow> T" where
  "dot m i x = (\<Sum>k<m_columns m. el m i k * x k)"

definition rel :: "matrix \<Rightarrow> matrix \<Rightarrow> (nat \<Rightarrow> T) \<Rightarrow> (nat \<Rightarrow> T) \<Rightarrow> bool" where
  "rel m n x y \<longleftrightarrow> (\<forall>i<m_rows m. dot m i x = dot n i y)"

lemma dot_row_op:
  assumes "row_op m m' f" "k < m_rows m"
  shows "dot m' k x = (\<Sum>l<m_columns m. f k l * x l)"
  using assms by (auto simp: dot_def row_opD intro!: sum.cong)

lemma dot_swap:
  "row_op m m' (\<lambda>k. el m (p k)) \<Longrightarrow> k < m_rows m \<Longrightarrow> dot m' k x = dot m (p k) x"
  by (subst dot_row_op) (auto simp: dot_def)

lemma dot_scale:
  "row_op m m' (\<lambda>k l. if k = i then c * el m i l else el m k l) \<Longrightarrow> k < m_rows m \<Longrightarrow>
   dot m' k x = (if k = i then c * dot m i x else dot m k x)"
  by (subst dot_row_op) (auto simp: dot_def sum_distrib_left mult.assoc)

lemma dot_add_scaled:
  "row_op m m' (\<lambda>k l. if k = d then el m d l + c * el m s l else el m k l) \<Longrightarrow> k < m_rows m \<Longrightarrow>
   dot m' k x = (if k = d then dot m d x + c * dot m s x else dot m k x)"
  by (subst dot_row_op) (auto simp: dot_def sum_distrib_left mult.assoc sum.distrib distrib_right)

lemma rel_swap:
  assumes m: "row_op m m' (\<lambda>k. el m (if k = i then j else if k = j then i else k))"
    and n: "row_op n n' (\<lambda>k. el n (if k = i then j else if k = j then i else k))"
    and r: "m_rows m = m_rows n" "i < m_rows m" "j < m_rows m"
  shows "rel m' n' x y \<longleftrightarrow> rel m n x y"
proof -
  let ?p = "\<lambda>k. if k = i then j else if k = j then i else k"
  have "rel m' n' x y \<longleftrightarrow> (\<forall>k<m_rows m. dot m (?p k) x = dot n (?p k) y)"
    using dot_swap [OF m] dot_swap [OF n] r by (simp add: rel_def row_opD(2) [OF m])
  also have "\<dots> \<longleftrightarrow> rel m n x y"
  proof
    assume h: "\<forall>k<m_rows m. dot m (?p k) x = dot n (?p k) y"
    have "dot m k x = dot n k y" if "k < m_rows m" for k
      using h [rule_format, of k] h [rule_format, of i] h [rule_format, of j] r that
      by (cases "k = i"; cases "k = j") (simp_all split: if_splits)
    then show "rel m n x y" by (simp add: rel_def)
  qed (use r in \<open>auto simp: rel_def\<close>)
  finally show ?thesis .
qed

lemma rel_scale:
  assumes m: "row_op m m' (\<lambda>k l. if k = i then c * el m i l else el m k l)"
    and n: "row_op n n' (\<lambda>k l. if k = i then c * el n i l else el n k l)"
    and "m_rows m = m_rows n" "c \<noteq> 0"
  shows "rel m' n' x y \<longleftrightarrow> rel m n x y"
  using dot_scale [OF m] dot_scale [OF n] assms(3,4)
  by (auto simp: rel_def row_opD(2) [OF m])

lemma rel_add_scaled:
  assumes m: "row_op m m' (\<lambda>k l. if k = d then el m d l + c * el m s l else el m k l)"
    and n: "row_op n n' (\<lambda>k l. if k = d then el n d l + c * el n s l else el n k l)"
    and r: "m_rows m = m_rows n" "s < m_rows m" "s \<noteq> d"
  shows "rel m' n' x y \<longleftrightarrow> rel m n x y"
proof -
  have "rel m' n' x y \<longleftrightarrow>
      (\<forall>k<m_rows m. (if k = d then dot m d x + c * dot m s x else dot m k x)
                  = (if k = d then dot n d y + c * dot n s y else dot n k y))"
    using dot_add_scaled [OF m] dot_add_scaled [OF n] r by (simp add: rel_def row_opD(2) [OF m])
  also have "\<dots> \<longleftrightarrow> rel m n x y"
  proof
    assume h: "\<forall>k<m_rows m. (if k = d then dot m d x + c * dot m s x else dot m k x)
                  = (if k = d then dot n d y + c * dot n s y else dot n k y)"
    have s: "dot m s x = dot n s y" using h [rule_format, of s] r by simp
    have "dot m k x = dot n k y" if "k < m_rows m" for k
      using h [rule_format, of k] s that by (cases "k = d") auto
    then show "rel m n x y" by (simp add: rel_def)
  next
    assume "rel m n x y"
    then show "\<forall>k<m_rows m. (if k = d then dot m d x + c * dot m s x else dot m k x)
                  = (if k = d then dot n d y + c * dot n s y else dot n k y)"
      using r by (simp add: rel_def)
  qed
  finally show ?thesis .
qed

section \<open>Elimination keeps the relation\<close>

definition equiv_pair :: "matrix \<times> matrix \<Rightarrow> matrix \<times> matrix \<Rightarrow> bool" where
  "equiv_pair s s' \<longleftrightarrow> same_shape (fst s) (fst s') \<and> same_shape (snd s) (snd s')
     \<and> (\<forall>x y. rel (fst s') (snd s') x y \<longleftrightarrow> rel (fst s) (snd s) x y)"

lemma equiv_pair_refl: "wf_matrix m \<Longrightarrow> wf_matrix n \<Longrightarrow> equiv_pair (m, n) (m, n)"
  by (simp add: equiv_pair_def)

lemma equiv_pair_trans: "equiv_pair a b \<Longrightarrow> equiv_pair b c \<Longrightarrow> equiv_pair a c"
  by (auto simp: equiv_pair_def intro: same_shape_trans)

text \<open>A pair on which elimination can run: a square matrix and one with as many rows.\<close>

definition pair_ok :: "nat \<Rightarrow> matrix \<times> matrix \<Rightarrow> bool" where
  "pair_ok r s \<longleftrightarrow> wf_matrix (fst s) \<and> wf_matrix (snd s)
     \<and> m_rows (fst s) = r \<and> m_columns (fst s) = r \<and> m_rows (snd s) = r"

lemma equiv_pair_ok: "pair_ok r s \<Longrightarrow> equiv_pair s s' \<Longrightarrow> pair_ok r s'"
  by (simp add: pair_ok_def equiv_pair_def same_shape_def)

lemma swap_pair:
  assumes "pair_ok r (m, n)" "i < r" "j < r"
  shows "\<exists>m' n'. swapRows m i j = Inr m' \<and> swapRows n i j = Inr n' \<and> equiv_pair (m, n) (m', n')
    \<and> (\<forall>k<r. \<forall>l<r. el m' k l = el m (if k = i then j else if k = j then i else k) l)"
proof -
  obtain m' where m': "swapRows m i j = Inr m'"
      "row_op m m' (\<lambda>k. el m (if k = i then j else if k = j then i else k))"
    using swapRows_op [of m i j] assms by (auto simp: pair_ok_def)
  obtain n' where n': "swapRows n i j = Inr n'"
      "row_op n n' (\<lambda>k. el n (if k = i then j else if k = j then i else k))"
    using swapRows_op [of n i j] assms by (auto simp: pair_ok_def)
  have "equiv_pair (m, n) (m', n')"
    using m'(2) n'(2) rel_swap [OF m'(2) n'(2)] assms by (auto simp: equiv_pair_def pair_ok_def row_op_def)
  with m' n' assms show ?thesis by (auto simp: row_op_def pair_ok_def)
qed

lemma scale_pair:
  assumes "pair_ok r (m, n)" "i < r" "c \<noteq> 0"
  shows "\<exists>m' n'. scaleRow m i c = Inr m' \<and> scaleRow n i c = Inr n' \<and> equiv_pair (m, n) (m', n')
    \<and> (\<forall>k<r. \<forall>l<r. el m' k l = (if k = i then c * el m i l else el m k l))"
proof -
  obtain m' where m': "scaleRow m i c = Inr m'"
      "row_op m m' (\<lambda>k l. if k = i then c * el m i l else el m k l)"
    using scaleRow_op [of m i c] assms by (auto simp: pair_ok_def)
  obtain n' where n': "scaleRow n i c = Inr n'"
      "row_op n n' (\<lambda>k l. if k = i then c * el n i l else el n k l)"
    using scaleRow_op [of n i c] assms by (auto simp: pair_ok_def)
  have "equiv_pair (m, n) (m', n')"
    using m'(2) n'(2) rel_scale [OF m'(2) n'(2)] assms by (auto simp: equiv_pair_def pair_ok_def row_op_def)
  with m' n' assms show ?thesis by (auto simp: row_op_def pair_ok_def)
qed

lemma eliminate_pair:
  assumes "pair_ok r (m, n)" "i < r" "j < r" "i \<noteq> j"
  shows "\<exists>m' n'. eliminate i j (m, n) = Inr (m', n') \<and> equiv_pair (m, n) (m', n')
    \<and> (\<forall>k<r. \<forall>l<r. el m' k l = (if k = j then el m j l + el m j i * el m i l else el m k l))"
proof (cases "el m j i = 0")
  case True
  with assms show ?thesis by (auto simp: eliminate_def pair_ok_def equiv_pair_refl)
next
  case False
  let ?c = "el m j i"
  obtain m' where m': "addScaledRow m j i ?c = Inr m'"
      "row_op m m' (\<lambda>k l. if k = j then el m j l + ?c * el m i l else el m k l)"
    using addScaledRow_op [of m j i ?c] assms by (auto simp: pair_ok_def)
  obtain n' where n': "addScaledRow n j i ?c = Inr n'"
      "row_op n n' (\<lambda>k l. if k = j then el n j l + ?c * el n i l else el n k l)"
    using addScaledRow_op [of n j i ?c] assms by (auto simp: pair_ok_def)
  have "equiv_pair (m, n) (m', n')"
    using m'(2) n'(2) rel_add_scaled [OF m'(2) n'(2)] assms
    by (auto simp: equiv_pair_def pair_ok_def row_op_def)
  with m' n' assms False show ?thesis by (auto simp: row_op_def pair_ok_def eliminate_def)
qed

lemma eliminate_list:
  assumes "pair_ok r (m, n)" "i < r" "distinct js" "i \<notin> set js" "set js \<subseteq> {..<r}"
  shows "\<exists>m' n'. foldR (eliminate i) js (m, n) = Inr (m', n') \<and> equiv_pair (m, n) (m', n')
    \<and> (\<forall>k<r. \<forall>l<r. el m' k l = (if k \<in> set js then el m k l + el m k i * el m i l else el m k l))"
  using assms
proof (induction js arbitrary: m n)
  case Nil
  then show ?case by (auto simp: pair_ok_def equiv_pair_refl)
next
  case (Cons j js)
  obtain m1 n1 where 1: "eliminate i j (m, n) = Inr (m1, n1)" "equiv_pair (m, n) (m1, n1)"
      "\<forall>k<r. \<forall>l<r. el m1 k l = (if k = j then el m j l + el m j i * el m i l else el m k l)"
    using eliminate_pair [of r m n i j] Cons.prems by auto
  have "pair_ok r (m1, n1)" using Cons.prems(1) 1(2) by (rule equiv_pair_ok)
  then obtain m2 n2 where 2: "foldR (eliminate i) js (m1, n1) = Inr (m2, n2)"
      "equiv_pair (m1, n1) (m2, n2)"
      "\<forall>k<r. \<forall>l<r. el m2 k l = (if k \<in> set js then el m1 k l + el m1 k i * el m1 i l else el m1 k l)"
    using Cons.IH [of m1 n1] Cons.prems by auto
  have "\<forall>k<r. \<forall>l<r. el m2 k l = (if k \<in> set (j # js) then el m k l + el m k i * el m i l else el m k l)"
    using 2(3) 1(3) Cons.prems by auto
  with 1 2 show ?case by (auto intro: equiv_pair_trans)
qed

section \<open>The two phases\<close>

text \<open>After \<open>i\<close> forward steps the first \<open>i\<close> columns are those of a unit upper triangular matrix.\<close>

definition upper :: "nat \<Rightarrow> nat \<Rightarrow> matrix \<Rightarrow> bool" where
  "upper r i m \<longleftrightarrow> (\<forall>k<i. el m k k = 1 \<and> (\<forall>j<r. k < j \<longrightarrow> el m j k = 0))"

lemma pivot_search_pair:
  assumes "pair_ok r (m, n)" "i < r" "set js \<subseteq> {i..<r}" "upper r i m"
  shows "(pivot_search i js m n = Inr (m, n, 0) \<and> (\<forall>j\<in>set js. el m j i = 0))
    \<or> (\<exists>m' n'. pivot_search i js m n = Inr (m', n', el m' i i) \<and> el m' i i \<noteq> 0
         \<and> equiv_pair (m, n) (m', n') \<and> upper r i m')"
  using assms
proof (induction js)
  case Nil
  then show ?case by simp
next
  case (Cons j js)
  have At: "At m j i = Inr (el m j i)" using Cons.prems by (simp add: pair_ok_def)
  show ?case
  proof (cases "el m j i = 0")
    case True
    with Cons At show ?thesis by auto
  next
    case False
    have j: "j < r" "i \<le> j" using Cons.prems by auto
    obtain m' n' where s: "swapRows m i j = Inr m'" "swapRows n i j = Inr n'"
        "equiv_pair (m, n) (m', n')"
        "\<forall>k<r. \<forall>l<r. el m' k l = el m (if k = i then j else if k = j then i else k) l"
      using swap_pair [OF Cons.prems(1) Cons.prems(2) j(1)] by auto
    have "upper r i m'"
      using Cons.prems(2,4) s(4) j unfolding upper_def by auto
    moreover have "pair_ok r (m', n')" using Cons.prems(1) s(3) by (rule equiv_pair_ok)
    then have "At m' i i = Inr (el m' i i)" using Cons.prems(2) by (simp add: pair_ok_def)
    moreover have "el m' i i \<noteq> 0" using s(4) Cons.prems(2) False by simp
    ultimately show ?thesis using False At s by auto
  qed
qed

lemma forward_step_pair:
  assumes "pair_ok r (m, n)" "i < r" "upper r i m"
  shows "(forward_step i (m, n) = Inl (ErrorNew ''singular matrix'') \<and> (\<forall>j\<in>{i..<r}. el m j i = 0))
    \<or> (\<exists>m' n'. forward_step i (m, n) = Inr (m', n') \<and> equiv_pair (m, n) (m', n') \<and> upper r (Suc i) m')"
proof -
  have rows: "m_rows m = r" using assms by (simp add: pair_ok_def)
  consider "pivot_search i [i..<r] m n = Inr (m, n, 0)" "\<forall>j\<in>{i..<r}. el m j i = 0"
    | m1 n1 where "pivot_search i [i..<r] m n = Inr (m1, n1, el m1 i i)" "el m1 i i \<noteq> 0"
        "equiv_pair (m, n) (m1, n1)" "upper r i m1"
    using pivot_search_pair [OF assms(1,2) _ assms(3), of "[i..<r]"] by auto
  then show ?thesis
  proof cases
    case 1
    then show ?thesis by (simp add: forward_step_def rows)
  next
    case 2
    let ?c = "inverse (el m1 i i)"
    have ok1: "pair_ok r (m1, n1)" using assms(1) 2(3) by (rule equiv_pair_ok)
    obtain m2 n2 where s: "scaleRow m1 i ?c = Inr m2" "scaleRow n1 i ?c = Inr n2"
        "equiv_pair (m1, n1) (m2, n2)"
        "\<forall>k<r. \<forall>l<r. el m2 k l = (if k = i then ?c * el m1 i l else el m1 k l)"
      using scale_pair [OF ok1 assms(2), of ?c] 2(2) by auto
    have ok2: "pair_ok r (m2, n2)" using ok1 s(3) by (rule equiv_pair_ok)
    have up2: "upper r i m2" "el m2 i i = 1"
      using 2(2,4) s(4) assms(2) unfolding upper_def by auto
    obtain m3 n3 where e: "foldR (eliminate i) [i + 1..<r] (m2, n2) = Inr (m3, n3)"
        "equiv_pair (m2, n2) (m3, n3)"
        "\<forall>k<r. \<forall>l<r. el m3 k l
          = (if k \<in> set [i + 1..<r] then el m2 k l + el m2 k i * el m2 i l else el m2 k l)"
      using eliminate_list [OF ok2 assms(2), of "[i + 1..<r]"] by (auto simp: subset_eq)
    have "upper r (Suc i) m3"
      using up2 e(3) assms(2) unfolding upper_def by (auto simp: less_Suc_eq T_char2)
    moreover have "equiv_pair (m, n) (m3, n3)"
      using 2(3) s(3) e(2) by (blast intro: equiv_pair_trans)
    moreover have "forward_step i (m, n) = Inr (m3, n3)"
      using 2(1,2) s(1,2) e(1) T_Inverse_eq [OF 2(2)] by (simp add: forward_step_def rows)
    ultimately show ?thesis by blast
  qed
qed

text \<open>A matrix with a column that the forward phase cannot clear has a non-zero kernel vector.\<close>

lemma upper_kernel:
  assumes "upper r i m" "i < r" "m_columns m = r" "\<forall>j\<in>{i..<r}. el m j i = 0"
  shows "\<exists>x. x i = 1 \<and> (\<forall>j<r. dot m j x = 0)"
proof -
  have "\<exists>x. x i = 1 \<and> (\<forall>k>i. x k = 0) \<and> (\<forall>k<i - d. x k = 0)
      \<and> (\<forall>j. i - d \<le> j \<and> j < r \<longrightarrow> dot m j x = 0)" if "d \<le> i" for d
    using that
  proof (induction d)
    case 0
    let ?x = "\<lambda>k. if k = i then 1 else 0 :: T"
    have "dot m j ?x = el m j i" for j
      using assms(2,3) by (simp add: dot_def sum.If_cases if_distrib cong: if_cong)
    with assms(4) show ?case by (intro exI [of _ ?x]) auto
  next
    case (Suc d)
    then obtain x where x: "x i = 1" "\<forall>k>i. x k = 0" "\<forall>k<i - d. x k = 0"
        "\<forall>j. i - d \<le> j \<and> j < r \<longrightarrow> dot m j x = 0" by auto
    let ?k = "i - Suc d"
    let ?x = "x(?k := dot m ?k x)"
    have k: "?k < i" "?k < r" "i - d = Suc ?k" using Suc.prems assms(2) by auto
    have xk: "x ?k = 0" using x(3) k by simp
    have dot: "dot m j ?x = dot m j x + el m j ?k * dot m ?k x" for j
    proof -
      have "dot m j ?x = el m j ?k * dot m ?k x + (\<Sum>l\<in>{..<r} - {?k}. el m j l * x l)"
        using k assms(3) by (simp add: dot_def sum.remove [of _ ?k])
      moreover have "dot m j x = (\<Sum>l\<in>{..<r} - {?k}. el m j l * x l)"
        using k assms(3) xk by (simp add: dot_def sum.remove [of _ ?k])
      ultimately show ?thesis by (simp add: add.commute)
    qed
    have "dot m j ?x = 0" if "?k \<le> j" "j < r" for j
    proof (cases "j = ?k")
      case True
      with assms(1) k show ?thesis by (simp add: dot upper_def del: fun_upd_apply)
    next
      case False
      with that have j: "?k < j" "i - d \<le> j" using k by auto
      then have "el m j ?k = 0" using assms(1) that k unfolding upper_def by blast
      with x(4) j that show ?thesis by (simp add: dot del: fun_upd_apply)
    qed
    then have "\<forall>j. ?k \<le> j \<and> j < r \<longrightarrow> dot m j ?x = 0" by blast
    moreover have "?x i = 1" "\<forall>l>i. ?x l = 0" "\<forall>l<?k. ?x l = 0" using x k by auto
    ultimately show ?case by blast
  qed
  from this [of i] show ?thesis by auto
qed

definition nonsingular :: "matrix \<Rightarrow> bool" where
  "nonsingular m \<longleftrightarrow> (\<forall>x. (\<forall>i<m_rows m. dot m i x = 0) \<longrightarrow> (\<forall>i<m_columns m. x i = 0))"

lemma nonsingular_equiv_pair:
  assumes "equiv_pair (m, n) (m', n')"
  shows "nonsingular m' \<longleftrightarrow> nonsingular m"
proof -
  have "rel m' n' x (\<lambda>_. 0) \<longleftrightarrow> rel m n x (\<lambda>_. 0)" for x
    using assms by (simp add: equiv_pair_def)
  then show ?thesis
    using assms by (simp add: rel_def dot_def nonsingular_def equiv_pair_def same_shape_def)
qed

lemma forward_phase:
  assumes "pair_ok r (m, n)" "upper r i m" "i \<le> r"
  shows "(foldR forward_step [i..<r] (m, n) = Inl (ErrorNew ''singular matrix'') \<and> \<not> nonsingular m)
    \<or> (\<exists>m' n'. foldR forward_step [i..<r] (m, n) = Inr (m', n') \<and> equiv_pair (m, n) (m', n')
         \<and> upper r r m')"
  using assms
proof (induction "r - i" arbitrary: i m n)
  case 0
  then show ?case by (auto simp: pair_ok_def equiv_pair_refl)
next
  case (Suc d)
  then have i: "i < r" by simp
  have l: "[i..<r] = i # [Suc i..<r]" using i by (rule upt_conv_Cons)
  from forward_step_pair [OF Suc.prems(1) i Suc.prems(2)] show ?case
  proof (elim disjE exE conjE)
    assume f: "forward_step i (m, n) = Inl (ErrorNew ''singular matrix'')" "\<forall>j\<in>{i..<r}. el m j i = 0"
    have m: "m_rows m = r" "m_columns m = r" using Suc.prems(1) by (auto simp: pair_ok_def)
    then have "\<not> nonsingular m"
      using upper_kernel [OF Suc.prems(2) i m(2) f(2)] i by (force simp: nonsingular_def)
    with f show ?thesis by (simp add: l)
  next
    fix m1 n1
    assume s: "forward_step i (m, n) = Inr (m1, n1)" "equiv_pair (m, n) (m1, n1)" "upper r (Suc i) m1"
    have ok: "pair_ok r (m1, n1)" using Suc.prems(1) s(2) by (rule equiv_pair_ok)
    have "d = r - Suc i" using Suc.hyps(2) by simp
    from Suc.hyps(1) [OF this ok s(3)] i s(1,2) show ?thesis
      by (auto simp: l nonsingular_equiv_pair intro: equiv_pair_trans)
  qed
qed

definition reduced :: "nat \<Rightarrow> nat \<Rightarrow> matrix \<Rightarrow> bool" where
  "reduced r i m \<longleftrightarrow> upper r r m \<and> (\<forall>k<i. \<forall>j<r. j \<noteq> k \<longrightarrow> el m j k = 0)"

lemma backward_phase:
  assumes "pair_ok r (m, n)" "reduced r i m" "i \<le> r"
  shows "\<exists>m' n'. foldR (\<lambda>i. foldR (eliminate i) [0..<i]) [i..<r] (m, n) = Inr (m', n')
    \<and> equiv_pair (m, n) (m', n') \<and> reduced r r m'"
  using assms
proof (induction "r - i" arbitrary: i m n)
  case 0
  then show ?case by (auto simp: pair_ok_def equiv_pair_refl)
next
  case (Suc d)
  then have i: "i < r" by simp
  have l: "[i..<r] = i # [Suc i..<r]" using i by (rule upt_conv_Cons)
  obtain m1 n1 where e: "foldR (eliminate i) [0..<i] (m, n) = Inr (m1, n1)"
      "equiv_pair (m, n) (m1, n1)"
      "\<forall>k<r. \<forall>l<r. el m1 k l = (if k \<in> set [0..<i] then el m k l + el m k i * el m i l else el m k l)"
    using eliminate_list [OF Suc.prems(1) i, of "[0..<i]"] i by (auto simp: subset_eq)
  have up: "el m k k = 1" "k < j \<Longrightarrow> j < r \<Longrightarrow> el m j k = 0" if "k < r" for k j
    using Suc.prems(2) that by (auto simp: reduced_def upper_def)
  have "upper r r m1"
    using e(3) up i by (auto simp: upper_def)
  moreover have "el m1 j k = 0" if "k < Suc i" "j < r" "j \<noteq> k" for j k
  proof (cases "k = i")
    case True
    then show ?thesis using e(3) up that i by (cases "j < i") auto
  next
    case False
    then show ?thesis using e(3) up that i Suc.prems(2) by (auto simp: reduced_def)
  qed
  ultimately have red: "reduced r (Suc i) m1" by (simp add: reduced_def)
  have ok: "pair_ok r (m1, n1)" using Suc.prems(1) e(2) by (rule equiv_pair_ok)
  have "d = r - Suc i" using Suc.hyps(2) by simp
  from Suc.hyps(1) [OF this ok red] i e(1,2) show ?case
    by (auto simp: l intro: equiv_pair_trans)
qed

lemma reduced_dot:
  assumes "reduced r r m" "m_columns m = r" "i < r"
  shows "dot m i x = x i"
proof -
  have "dot m i x = (\<Sum>k<r. if k = i then x k else 0)"
    unfolding dot_def assms(2) using assms by (intro sum.cong) (auto simp: reduced_def upper_def)
  with assms(3) show ?thesis by simp
qed

text \<open>
  Success: the returned matrix solves the system for every right-hand side, and the left matrix is
  non-singular.  Failure: the left matrix is singular.
\<close>

lemma rowReduceForInverse_cases:
  assumes "pair_ok r (m, n)"
  shows "(rowReduceForInverse m n = Inl (ErrorNew ''singular matrix'') \<and> \<not> nonsingular m)
    \<or> (\<exists>m' n'. rowReduceForInverse m n = Inr (m', n') \<and> same_shape n n' \<and> nonsingular m
         \<and> (\<forall>x y. rel m n x y \<longleftrightarrow> (\<forall>i<r. x i = dot n' i y)))"
proof -
  have rows: "m_rows m = r" using assms by (simp add: pair_ok_def)
  have "upper r 0 m" by (simp add: upper_def)
  from forward_phase [OF assms this le0] show ?thesis
  proof (elim disjE exE conjE)
    assume "foldR forward_step [0..<r] (m, n) = Inl (ErrorNew ''singular matrix'')" "\<not> nonsingular m"
    then show ?thesis by (simp add: rowReduceForInverse_def rows)
  next
    fix m1 n1
    assume f: "foldR forward_step [0..<r] (m, n) = Inr (m1, n1)" "equiv_pair (m, n) (m1, n1)"
      "upper r r m1"
    have ok: "pair_ok r (m1, n1)" using assms f(2) by (rule equiv_pair_ok)
    have "reduced r 0 m1" using f(3) by (simp add: reduced_def)
    from backward_phase [OF ok this le0] obtain m2 n2 where
      b: "foldR (\<lambda>i. foldR (eliminate i) [0..<i]) [0..<r] (m1, n1) = Inr (m2, n2)"
        "equiv_pair (m1, n1) (m2, n2)" "reduced r r m2" by auto
    have eq: "equiv_pair (m, n) (m2, n2)" using f(2) b(2) by (rule equiv_pair_trans)
    have ok2: "pair_ok r (m2, n2)" using assms eq by (rule equiv_pair_ok)
    then have d: "dot m2 i x = x i" if "i < r" for i x
      using reduced_dot [OF b(3)] that by (simp add: pair_ok_def)
    have "rel m n x y \<longleftrightarrow> (\<forall>i<r. x i = dot n2 i y)" for x y
      using eq d ok2 by (auto simp: equiv_pair_def rel_def pair_ok_def)
    moreover have "nonsingular m2" using d ok2 by (simp add: nonsingular_def pair_ok_def)
    then have "nonsingular m" using nonsingular_equiv_pair [OF eq] by simp
    ultimately show ?thesis
      using eq f(1) b(1) by (simp add: rowReduceForInverse_def rows equiv_pair_def)
  qed
qed

lemma RowReduceForInverse_cases:
  assumes "wf_matrix m" "wf_matrix n" "m_rows m = m_columns m" "m_rows n = m_rows m"
  shows "(RowReduceForInverse m n = Inl (ErrorNew ''singular matrix'') \<and> \<not> nonsingular m)
    \<or> (\<exists>n'. RowReduceForInverse m n = Inr n' \<and> same_shape n n' \<and> nonsingular m
         \<and> (\<forall>x y. rel m n x y \<longleftrightarrow> (\<forall>i<m_rows m. x i = dot n' i y)))"
proof -
  have "pair_ok (m_rows m) (m, n)" using assms by (simp add: pair_ok_def)
  from rowReduceForInverse_cases [OF this] assms show ?thesis
    by (auto simp: RowReduceForInverse_def)
qed

lemma Inverse_eq_RowReduce:
  assumes "wf_matrix m" "m_rows m = m_columns m"
  shows "Inverse m = RowReduceForInverse m (mk_matrix (m_rows m) (m_rows m) (\<lambda>i j. if i = j then 1 else 0))"
proof -
  have "0 < m_rows m" using assms by (simp add: wf_matrix_def)
  with assms show ?thesis by (simp add: Inverse_def RowReduceForInverse_def NewIdentityMatrix_eq)
qed

section \<open>Products\<close>

text \<open>The relation of \<open>m\<close> and \<open>n\<close> holds between a solution's columns and unit vectors.\<close>

definition unit_vec :: "nat \<Rightarrow> nat \<Rightarrow> T" where
  "unit_vec j k = (if k = j then 1 else 0)"

lemma dot_unit_vec: "j < m_columns m \<Longrightarrow> dot m i (unit_vec j) = el m i j"
  by (simp add: dot_def unit_vec_def if_distrib cong: if_cong)

lemma Times_of_solution:
  assumes m: "wf_matrix m" and n: "wf_matrix n" and sq: "m_rows m = m_columns m" "m_rows n = m_rows m"
    and n': "same_shape n n'" and sol: "\<forall>x y. rel m n x y \<longleftrightarrow> (\<forall>i<m_rows m. x i = dot n' i y)"
  shows "Matrix_Times m n' = Inr n"
proof -
  have d: "m_rows n' = m_rows m" "m_columns n' = m_columns n" "wf_matrix n'"
    using n' sq by (auto simp: same_shape_def)
  have "(\<Sum>k<m_columns m. el m i k * el n' k j) = el n i j" if "i < m_rows m" "j < m_columns n" for i j
  proof -
    have "rel m n (\<lambda>i. el n' i j) (unit_vec j)"
      using sol that(2) d by (simp add: dot_unit_vec)
    then show ?thesis using that d by (simp add: rel_def dot_def [of m] dot_unit_vec)
  qed
  then have "mk_matrix (m_rows m) (m_columns n') (\<lambda>i j. \<Sum>k<m_columns m. el m i k * el n' k j) = n"
    using m n sq d by (intro matrix_eqI) (auto simp: wf_matrix_def [of m] wf_matrix_def [of n])
  with Matrix_Times_eq [OF m d(3)] d sq show ?thesis by simp
qed

section \<open>Properties\<close>

text \<open>
  C16: for a square matrix \<open>m\<close> and a matrix \<open>n\<close> with as many rows, \<open>RowReduceForInverse\<close> either
  returns the one matrix \<open>n'\<close> with \<open>m n' = n\<close>, and \<open>m\<close> has a trivial kernel, or it reports
  \<open>singular matrix\<close>, and \<open>m\<close> maps some non-zero vector to 0.
\<close>

theorem RowReduceForInverse_correct:
  assumes "wf_matrix m" "wf_matrix n" "m_rows m = m_columns m" "m_rows n = m_rows m"
  shows "(case RowReduceForInverse m n of
      Inl e \<Rightarrow> e = ErrorNew ''singular matrix'' \<and> \<not> nonsingular m
    | Inr n' \<Rightarrow> nonsingular m \<and> Matrix_Times m n' = Inr n
        \<and> (\<forall>n''. same_shape n n'' \<and> Matrix_Times m n'' = Inr n \<longrightarrow> n'' = n'))"
  using RowReduceForInverse_cases [OF assms]
proof (elim disjE exE conjE)
  fix n' assume n': "RowReduceForInverse m n = Inr n'" "same_shape n n'" "nonsingular m"
    "\<forall>x y. rel m n x y \<longleftrightarrow> (\<forall>i<m_rows m. x i = dot n' i y)"
  have "n'' = n'" if n'': "same_shape n n''" "Matrix_Times m n'' = Inr n" for n''
  proof (rule matrix_eqI)
    fix i j assume ij: "i < m_rows n''" "j < m_columns n''"
    have w: "wf_matrix n''" "m_columns m = m_rows n''" "m_columns n'' = m_columns n"
      using n''(1) assms by (auto simp: same_shape_def)
    have n: "n = mk_matrix (m_rows m) (m_columns n'') (\<lambda>i j. \<Sum>k<m_columns m. el m i k * el n'' k j)"
      using n''(2) Matrix_Times_eq [OF assms(1) w(1,2)] by simp
    have "rel m n (\<lambda>k. el n'' k j) (unit_vec j)"
      unfolding rel_def
    proof (intro allI impI)
      fix i assume i: "i < m_rows m"
      have "dot n i (unit_vec j) = el n i j" using ij w by (simp add: dot_unit_vec)
      also have "\<dots> = dot m i (\<lambda>k. el n'' k j)" using i ij by (subst n) (simp add: dot_def)
      finally show "dot m i (\<lambda>k. el n'' k j) = dot n i (unit_vec j)" by simp
    qed
    then have "el n'' i j = dot n' i (unit_vec j)"
      using n'(4) ij n''(1) assms by (simp add: same_shape_def)
    then show "el n'' i j = el n' i j" using ij n'(2) n''(1) by (simp add: dot_unit_vec same_shape_def)
  qed (use n'(2) n''(1) in \<open>auto simp: same_shape_def\<close>)
  moreover have "Matrix_Times m n' = Inr n"
    by (rule Times_of_solution [OF assms n'(2,4)])
  ultimately show ?thesis using n'(1,3) by auto
qed auto

definition sample_matrix :: matrix where
  "sample_matrix = \<lparr>m_rows = 2, m_columns = 2, m_elements = [T 1, T 1, T 1, T 2]\<rparr>"

theorem RowReduceForInverse_correct_witness:
  "(case RowReduceForInverse sample_matrix sample_matrix of
      Inl e \<Rightarrow> e = ErrorNew ''singular matrix'' \<and> \<not> nonsingular sample_matrix
    | Inr n' \<Rightarrow> nonsingular sample_matrix \<and> Matrix_Times sample_matrix n' = Inr sample_matrix
        \<and> (\<forall>n''. same_shape sample_matrix n'' \<and> Matrix_Times sample_matrix n'' = Inr sample_matrix \<longrightarrow> n'' = n'))"
  by (rule RowReduceForInverse_correct) (simp_all add: wf_matrix_def sample_matrix_def)

text \<open>
  C37: \<open>Inverse\<close> of a square matrix returns the two-sided inverse if the matrix is non-singular, and
  the error \<open>singular matrix\<close> otherwise.
\<close>

theorem Inverse_correct:
  assumes "wf_matrix m" "m_rows m = m_columns m"
  shows "(if nonsingular m
      then \<exists>n. Inverse m = Inr n \<and> Matrix_Times m n = NewIdentityMatrix (m_rows m)
             \<and> Matrix_Times n m = NewIdentityMatrix (m_rows m)
      else Inverse m = Inl (ErrorNew ''singular matrix''))"
proof -
  let ?r = "m_rows m"
  let ?I = "mk_matrix ?r ?r (\<lambda>i j. if i = j then 1 else 0 :: T)"
  have r: "0 < ?r" using assms by (simp add: wf_matrix_def)
  have I: "NewIdentityMatrix ?r = Inr ?I" using r by (rule NewIdentityMatrix_eq)
  have c: "wf_matrix ?I" "m_rows ?I = ?r" using r by simp_all
  show ?thesis
    using RowReduceForInverse_cases [OF assms(1) c(1) assms(2) c(2)]
  proof (elim disjE exE conjE)
    fix n assume n: "RowReduceForInverse m ?I = Inr n" "same_shape ?I n" "nonsingular m"
      "\<forall>x y. rel m ?I x y \<longleftrightarrow> (\<forall>i<m_rows m. x i = dot n i y)"
    have w: "wf_matrix n" "m_rows n = ?r" "m_columns n = ?r" using n(2) by (auto simp: same_shape_def)
    have dI: "dot ?I i y = y i" if "i < ?r" for i y
    proof -
      have "dot ?I i y = (\<Sum>l<?r. if i = l then y l else 0)"
        using that unfolding dot_def by (intro sum.cong) auto
      with that show ?thesis by simp
    qed
    have "mk_matrix ?r ?r (\<lambda>i j. \<Sum>k<?r. el n i k * el m k j) = ?I"
    proof (rule matrix_eqI)
      fix i j
      assume "i < m_rows (mk_matrix ?r ?r (\<lambda>i j. \<Sum>k<?r. el n i k * el m k j))"
        "j < m_columns (mk_matrix ?r ?r (\<lambda>i j. \<Sum>k<?r. el n i k * el m k j))"
      then have ij: "i < ?r" "j < ?r" by auto
      have "rel m ?I (unit_vec j) (\<lambda>k. el m k j)"
        using ij assms(2) dI by (simp add: rel_def dot_unit_vec)
      then have "unit_vec j i = dot n i (\<lambda>k. el m k j)" using n(4) ij by blast
      then show "el (mk_matrix ?r ?r (\<lambda>i j. \<Sum>k<?r. el n i k * el m k j)) i j = el ?I i j"
        using ij w by (simp add: dot_def unit_vec_def)
    qed (use r in auto)
    with Matrix_Times_eq [OF w(1) assms(1)] w assms(2) have "Matrix_Times n m = Inr ?I" by simp
    moreover have "Matrix_Times m n = Inr ?I"
      by (rule Times_of_solution [OF assms(1) c(1) assms(2) c(2) n(2,4)])
    ultimately show ?thesis using n(1,3) I Inverse_eq_RowReduce [OF assms] by simp
  qed (simp add: Inverse_eq_RowReduce [OF assms])
qed

theorem Inverse_correct_witness:
  "(if nonsingular sample_matrix
      then \<exists>n. Inverse sample_matrix = Inr n
             \<and> Matrix_Times sample_matrix n = NewIdentityMatrix (m_rows sample_matrix)
             \<and> Matrix_Times n sample_matrix = NewIdentityMatrix (m_rows sample_matrix)
      else Inverse sample_matrix = Inl (ErrorNew ''singular matrix''))"
  by (rule Inverse_correct) (simp_all add: wf_matrix_def sample_matrix_def)

end
