(* ===== verification/Additive.thy ===== *)
theory Additive
  imports Matrix16
begin

unbundle bit_operations_syntax

text \<open>
  The additive transforms of src/rsec16/additive.go: the Cantor basis of the field, conversion between
  ordinary and novel coefficients, the transform to the values at all points and back, the derivative,
  and products of polynomials with them.  Products of field elements are \<open>Times\<close>, which is the product of
  the field (\<open>T_Times_eq\<close>); divisions and inverses keep their panics.  Indices are in range because
  \<open>additiveLog\<close> refuses other lengths.
\<close>

section \<open>Package bits\<close>

text \<open>\<open>bits.TrailingZeros\<close> (of a non-zero number) and \<open>bits.Len\<close>\<close>

fun trailing_zeros :: "nat \<Rightarrow> nat" where
  "trailing_zeros n = (if n = 0 \<or> odd n then 0 else Suc (trailing_zeros (n div 2)))"

fun bits_Len :: "nat \<Rightarrow> nat" where
  "bits_Len n = (if n = 0 then 0 else Suc (bits_Len (n div 2)))"

declare trailing_zeros.simps [simp del] bits_Len.simps [simp del]

text \<open>\<open>for base := 0; base < n; base += step\<close>\<close>

definition strided :: "nat \<Rightarrow> nat \<Rightarrow> nat list" where
  "strided n step = map (\<lambda>k. k * step) [0..<(n + step - 1) div step]"

section \<open>The basis\<close>

record additiveBasis =
  ab_points :: "T list"
  ab_indices :: "u16 list"
  ab_linear :: "T list list"
  ab_denominator :: "T list"
  ab_inverse :: "T list"
  ab_derivative :: "T list"

definition evalLinear :: "T list \<Rightarrow> T \<Rightarrow> T" where
  "evalLinear p x = fst (fold (\<lambda>c (y, x). (y + c * x, x * x)) p (0, x))"

text \<open>The search for an element of trace one among the powers of two.\<close>

definition cantor_trace :: "T \<Rightarrow> T" where
  "cantor_trace root = fst (fold (\<lambda>_ (trace, x). (trace + x, x * x)) [0..<16] (0, root))"

definition cantor_top :: T where
  "cantor_top = (case find (\<lambda>b. cantor_trace (T (push_bit b 1)) = 1) [0..<16] of
     None \<Rightarrow> 0 | Some b \<Rightarrow> T (push_bit b 1))"

definition cantor_coordinates :: "T list" where
  "cantor_coordinates = fold (\<lambda>i cs. let x = cs ! (i + 1) in cs[i := x * x + x]) (rev [0..<15])
     ((replicate 16 0)[15 := cantor_top])"

definition basis_points :: "T list \<Rightarrow> T list \<times> u16 list" where
  "basis_points coordinates = fold (\<lambda>i (points, indices).
       let b = trailing_zeros i; x = points ! (i XOR 2 ^ b) + coordinates ! b
       in (points[i := x], indices[unat (raw x) := of_nat i]))
     [1..<65536] (replicate 65536 0, replicate 65536 0)"

text \<open>The coefficients of the next linearised polynomial.\<close>

definition next_linear :: "T list \<Rightarrow> T \<Rightarrow> T list" where
  "next_linear p d = fold (\<lambda>(j, c) q. let q1 = q[j + 1 := q ! (j + 1) + c * c] in q1[j := q1 ! j + d * c])
     (enumerate 0 p) (replicate (length p + 1) 0)"

definition basis_linear :: "T list \<Rightarrow> additiveBasis \<Rightarrow> additiveBasis res" where
  "basis_linear coordinates b0 = bindR (foldR (\<lambda>i (p, b).
       let d = evalLinear p (coordinates ! i) in
       bindR (T_Inverse d) (\<lambda>dinv. bindR (index_at p 0) (\<lambda>p0. bindR (T_Div p0 d) (\<lambda>der.
         Inr (next_linear p d, b\<lparr> ab_linear := (ab_linear b)[i := p], ab_denominator := (ab_denominator b)[i := d],
           ab_inverse := (ab_inverse b)[i := dinv], ab_derivative := (ab_derivative b)[i := der] \<rparr>)))))
     [0..<16] ([1], b0)) (\<lambda>(p, b). Inr b)"

definition newAdditiveBasis :: "additiveBasis res" where
  "newAdditiveBasis =
     bindR (check (cantor_coordinates ! 0 = 1) (Panic ''invalid PAR2 Cantor basis'')) (\<lambda>_.
     let (points, indices) = basis_points cantor_coordinates in
     basis_linear cantor_coordinates \<lparr> ab_points = points, ab_indices = indices, ab_linear = replicate 16 [],
       ab_denominator = replicate 16 0, ab_inverse = replicate 16 0, ab_derivative = replicate 16 0 \<rparr>)"

section \<open>Transforms\<close>

definition additiveLog :: "nat \<Rightarrow> nat res" where
  "additiveLog n = (if n < 1 \<or> n > 65536 \<or> n AND (n - 1) \<noteq> 0
     then Inl (Panic ''invalid additive transform length'') else Inr (bits_Len n - 1))"

definition toNovel_row :: "additiveBasis \<Rightarrow> nat \<Rightarrow> nat \<Rightarrow> nat \<Rightarrow> T list \<Rightarrow> T list" where
  "toNovel_row b i base r v =
     (let d = base + 2 ^ i + r; factor = v ! d;
          v1 = fold (\<lambda>j v. v[base + r + 2 ^ j := v ! (base + r + 2 ^ j) + factor * ab_linear b ! i ! j]) [0..<i] v
      in v1[d := factor * ab_denominator b ! i])"

definition toNovel_level :: "additiveBasis \<Rightarrow> nat \<Rightarrow> T list \<Rightarrow> T list" where
  "toNovel_level b i v = fold (\<lambda>base. fold (toNovel_row b i base) (rev [0..<2 ^ i])) (strided (length v) (2 * 2 ^ i)) v"

definition toNovel :: "additiveBasis \<Rightarrow> T list \<Rightarrow> T list res" where
  "toNovel b v = bindR (additiveLog (length v)) (\<lambda>levels. Inr (fold (toNovel_level b) (rev [0..<levels]) v))"

definition fromNovel_row :: "additiveBasis \<Rightarrow> nat \<Rightarrow> nat \<Rightarrow> nat \<Rightarrow> T list \<Rightarrow> T list" where
  "fromNovel_row b i base r v =
     (let d = base + 2 ^ i + r; factor = v ! d * ab_inverse b ! i
      in fold (\<lambda>j v. v[base + r + 2 ^ j := v ! (base + r + 2 ^ j) + factor * ab_linear b ! i ! j]) [0..<i] (v[d := factor]))"

definition fromNovel_level :: "additiveBasis \<Rightarrow> nat \<Rightarrow> T list \<Rightarrow> T list" where
  "fromNovel_level b i v = fold (\<lambda>base. fold (fromNovel_row b i base) [0..<2 ^ i]) (strided (length v) (2 * 2 ^ i)) v"

definition fromNovel :: "additiveBasis \<Rightarrow> T list \<Rightarrow> T list res" where
  "fromNovel b v = bindR (additiveLog (length v)) (\<lambda>levels. Inr (fold (fromNovel_level b) [0..<levels] v))"

text \<open>One butterfly on the rows \<open>l\<close> and \<open>h\<close>.\<close>

definition butterfly :: "bool \<Rightarrow> T \<Rightarrow> nat \<Rightarrow> nat \<Rightarrow> T list \<Rightarrow> T list" where
  "butterfly backward c l h v =
     (if backward then let v1 = v[h := v ! h + v ! l] in v1[l := v1 ! l + c * v1 ! h]
      else let v1 = v[l := v ! l + c * v ! h] in v1[h := v1 ! h + v1 ! l])"

definition twiddle :: "additiveBasis \<Rightarrow> nat \<Rightarrow> nat \<Rightarrow> T" where
  "twiddle b i base = evalLinear (ab_linear b ! i) (ab_points b ! base) * ab_inverse b ! i"

definition fft_level :: "additiveBasis \<Rightarrow> bool \<Rightarrow> nat \<Rightarrow> T list \<Rightarrow> T list" where
  "fft_level b backward i v = fold (\<lambda>base. let c = twiddle b i base in
       fold (\<lambda>r. butterfly backward c (base + r) (base + 2 ^ i + r)) [0..<2 ^ i]) (strided (length v) (2 * 2 ^ i)) v"

definition fft :: "additiveBasis \<Rightarrow> T list \<Rightarrow> bool \<Rightarrow> T list res" where
  "fft b v backward = bindR (additiveLog (length v)) (\<lambda>levels.
     Inr (fold (\<lambda>step. fft_level b backward (if backward then step else levels - 1 - step)) [0..<levels] v))"

lemma nat_and_le: "a AND b \<le> b" for a b :: nat
proof -
  have "int a AND int b \<le> int b" by (rule AND_upper2) simp
  then have "nat (int a AND int b) \<le> nat (int b)" by (rule nat_mono)
  then show ?thesis by (simp add: and_nat_def)
qed

text \<open>The bits of a mask from the lowest: \<open>mask &= mask-1\<close> clears the lowest one.\<close>

function mask_bits :: "nat \<Rightarrow> nat list" where
  "mask_bits m = (if m = 0 then [] else trailing_zeros m # mask_bits (m AND (m - 1)))"
  by pat_completeness auto
termination
proof (relation "measure id")
  fix m :: nat assume "m \<noteq> 0"
  have "m AND (m - 1) \<le> m - 1" by (rule nat_and_le)
  with \<open>m \<noteq> 0\<close> show "(m AND (m - 1), m) \<in> measure id" by simp
qed simp

declare mask_bits.simps [simp del]

text \<open>The range loop reads \<open>v[j]\<close> when it comes to \<open>j\<close>.\<close>

definition differentiate_row :: "additiveBasis \<Rightarrow> nat \<Rightarrow> T list \<Rightarrow> T list" where
  "differentiate_row b j v =
     (let c = v ! j;
          v1 = fold (\<lambda>i v. v[j XOR 2 ^ i := v ! (j XOR 2 ^ i) + c * ab_derivative b ! i]) (mask_bits j) v
      in v1[j := 0])"

definition differentiate :: "additiveBasis \<Rightarrow> T list \<Rightarrow> T list res" where
  "differentiate b v = bindR (additiveLog (length v)) (\<lambda>_. Inr (fold (differentiate_row b) [0..<length v] v))"

section \<open>Products\<close>

definition direct_product :: "T list \<Rightarrow> T list \<Rightarrow> T list" where
  "direct_product a c = fold (\<lambda>i. fold (\<lambda>j out. out[i + j := out ! (i + j) + a ! i * c ! j]) [0..<length c]) [0..<length a]
     (replicate (length a + length c - 1) 0)"

definition pad_to :: "nat \<Rightarrow> T list \<Rightarrow> T list" where
  "pad_to n a = take n a @ replicate (n - length a) 0"

definition product :: "additiveBasis \<Rightarrow> T list \<Rightarrow> T list \<Rightarrow> T list res" where
  "product b a c =
     (if length a = 0 \<or> length c = 0 then Inr []
      else let cnt = length a + length c - 1 in
        if cnt \<le> 64 then Inr (direct_product a c)
        else let n = 2 ^ bits_Len (cnt - 1) in
          bindR (additiveLog n) (\<lambda>_.
          bindR (toNovel b (pad_to n a)) (\<lambda>x0. bindR (toNovel b (pad_to n c)) (\<lambda>y0.
          bindR (fft b x0 False) (\<lambda>x1. bindR (fft b y0 False) (\<lambda>y1.
          bindR (fft b (map2 (*) x1 y1) True) (\<lambda>x2. bindR (fromNovel b x2) (\<lambda>x3. Inr (take cnt x3)))))))))"

function locator :: "additiveBasis \<Rightarrow> T list \<Rightarrow> T list res" where
  "locator b points =
     (if length points = 0 then Inr [1]
      else if length points = 1 then Inr [points ! 0, 1]
      else let mid = length points div 2 in
        bindR (locator b (take mid points)) (\<lambda>a. bindR (locator b (drop mid points)) (\<lambda>c. product b a c)))"

  by pat_completeness auto
termination
proof (relation "measure (\<lambda>(b, points). length points)")
  fix points :: "T list" and mid :: nat assume p: "length points \<noteq> 0" "length points \<noteq> 1" "mid = length points div 2"
  then have "2 \<le> length points" by (cases points rule: remdups_adj.cases) simp_all
  then have mid: "0 < mid" "mid < length points" using p(3) by simp_all
  show "((b, take mid points), b, points) \<in> measure (\<lambda>(b, points). length points)" for b using mid by simp
  show "((b, drop mid points), b, points) \<in> measure (\<lambda>(b, points). length points)" for b using mid by simp
qed simp

declare locator.simps [simp del]

end
