(* ===== verification/AdditiveBasis.thy ===== *)
theory AdditiveBasis
  imports Additive
begin

unbundle bit_operations_syntax

text \<open>
  The basis: its points enumerate the field, its linearised polynomials vanish on the spans of the first
  coordinates, and no inverse in its construction fails.
\<close>

section \<open>Bits of naturals\<close>

lemma trailing_zeros_bit:
  assumes "n \<noteq> 0"
  shows "bit n (trailing_zeros n)" and "\<forall>j < trailing_zeros n. \<not> bit n j"
  using assms
proof (induction n rule: trailing_zeros.induct)
  case (1 n)
  { case 1
    then show ?case
      using "1.IH"(1) by (subst trailing_zeros.simps) (auto simp: bit_0 bit_Suc intro: dvd_div_eq_0_iff [THEN iffD1])
  next
    case 2
    then show ?case
      using "1.IH"(2) by (subst trailing_zeros.simps) (auto simp: bit_0 bit_Suc less_Suc_eq_0_disj)
  }
qed

lemma nat_bit_bound: "n < 2 ^ k \<Longrightarrow> bit (n :: nat) j \<Longrightarrow> j < k"
  by (metis bit_take_bit_iff take_bit_nat_eq_self)

lemma xor_clears: "bit (n :: nat) b \<Longrightarrow> n XOR 2 ^ b = n - 2 ^ b"
proof -
  assume b: "bit n b"
  let ?m = "n XOR 2 ^ b"
  have "\<not> bit ?m j \<or> \<not> bit (2 ^ b :: nat) j" for j using b by (auto simp: bit_xor_iff bit_exp_iff)
  then have "?m + 2 ^ b = ?m OR 2 ^ b" by (rule disjunctive_add)
  also have "\<dots> = n" using b by (intro bit_eqI) (auto simp: bit_xor_iff bit_or_iff bit_exp_iff)
  finally show ?thesis by simp
qed

lemma bit_minus_pow: "bit (n :: nat) b \<Longrightarrow> bit (n - 2 ^ b) j \<longleftrightarrow> bit n j \<and> j \<noteq> b"
  by (metis bit_xor_iff bit_exp_iff xor_clears possible_bit_nat)

lemma bit_ge_pow: "bit (n :: nat) b \<Longrightarrow> 2 ^ b \<le> n"
  by (meson not_less nat_bit_bound less_irrefl)

section \<open>Linearised polynomials\<close>

lemma T_square_add: "(x + y) ^ 2 ^ j = x ^ 2 ^ j + (y :: T) ^ 2 ^ j"
proof (induction j)
  case (Suc j)
  have sq: "(a + b) * (a + b) = a * a + b * (b :: T)" for a b
  proof -
    have "(a + b) * (a + b) = a * a + (a * b + a * b) + b * b" by (simp only: distrib_left distrib_right mult.commute add.assoc)
    then show ?thesis by simp
  qed
  have "z ^ 2 ^ Suc j = z ^ 2 ^ j * z ^ 2 ^ j" for z :: T by (simp add: power_add [symmetric] mult_2)
  with Suc sq show ?case by simp
qed simp

lemma evalLinear_sum: "evalLinear p x = (\<Sum>j<length p. p ! j * x ^ 2 ^ j)"
proof -
  have "fold (\<lambda>c (y, x). (y + c * x, x * x)) p (y, x) = (y + (\<Sum>j<length p. p ! j * x ^ 2 ^ j), x ^ 2 ^ length p)" for y
  proof (induction p arbitrary: y x)
    case (Cons c p)
    have "(x * x) ^ 2 ^ j = x ^ 2 ^ Suc j" for j by (simp add: power_mult power2_eq_square)
    then show ?case by (simp only: fold_Cons comp_apply prod.case Cons.IH length_Cons sum.lessThan_Suc_shift nth_Cons_0 nth_Cons_Suc
        power_0 power_one_right add.assoc)
  qed simp
  then show ?thesis by (simp add: evalLinear_def)
qed

lemma evalLinear_add: "evalLinear p (x + y) = evalLinear p x + evalLinear p y"
  by (simp add: evalLinear_sum T_square_add distrib_left sum.distrib)

lemma evalLinear_0 [simp]: "evalLinear p 0 = 0"
  by (simp add: evalLinear_sum power_0_left)

lemma evalLinear_sum_set: "finite A \<Longrightarrow> evalLinear p (sum f A) = (\<Sum>i\<in>A. evalLinear p (f i))"
  by (induction rule: finite_induct) (simp_all add: evalLinear_add)

lemma next_linear_nth:
  shows "length (next_linear p d) = length p + 1"
    and "t \<le> length p \<Longrightarrow> next_linear p d ! t = (if t < length p then d * p ! t else 0) + (if 0 < t then p ! (t - 1) * p ! (t - 1) else 0)"
proof -
  let ?f = "\<lambda>j q. let q1 = q[j + 1 := q ! (j + 1) + p ! j * p ! j] in q1[j := q1 ! j + d * p ! j]"
  have "enumerate 0 p = map (\<lambda>j. (j, p ! j)) [0..<length p]" by (rule nth_equalityI) (auto simp: nth_enumerate_eq)
  then have fold: "next_linear p d = fold ?f [0..<length p] (replicate (length p + 1) 0)"
    by (simp add: next_linear_def fold_map comp_def)
  have "length (fold ?f [0..<m] (replicate (length p + 1) 0)) = length p + 1 \<and>
    (\<forall>t \<le> length p. fold ?f [0..<m] (replicate (length p + 1) 0) ! t
      = (if t < m then d * p ! t else 0) + (if 0 < t \<and> t \<le> m then p ! (t - 1) * p ! (t - 1) else 0))" if "m \<le> length p" for m
    using that
  proof (induction m)
    case (Suc m)
    let ?q = "fold ?f [0..<m] (replicate (length p + 1) 0)"
    have q: "length ?q = length p + 1" "\<And>t. t \<le> length p \<Longrightarrow> ?q ! t = (if t < m then d * p ! t else 0)
      + (if 0 < t \<and> t \<le> m then p ! (t - 1) * p ! (t - 1) else 0)" using Suc by simp_all
    have step: "fold ?f [0..<Suc m] (replicate (length p + 1) 0) = ?f m ?q" by simp
    have "?f m ?q ! t = (if t < Suc m then d * p ! t else 0) + (if 0 < t \<and> t \<le> Suc m then p ! (t - 1) * p ! (t - 1) else 0)"
      if "t \<le> length p" for t
    proof -
      consider "t = Suc m" | "t = m" | "t \<noteq> m" "t \<noteq> Suc m" by blast
      then show ?thesis using Suc.prems q(1) q(2) [of t] that by cases (auto simp: Let_def nth_list_update add.commute)
    qed
    then show ?case unfolding step using q(1) by (simp add: Let_def)
  qed simp
  from this [of "length p"] show "length (next_linear p d) = length p + 1"
    and "t \<le> length p \<Longrightarrow> next_linear p d ! t = (if t < length p then d * p ! t else 0) + (if 0 < t then p ! (t - 1) * p ! (t - 1) else 0)"
    unfolding fold by simp_all
qed

lemma evalLinear_next: "evalLinear (next_linear p d) x = evalLinear p x * (evalLinear p x + d)"
proof -
  let ?n = "length p"
  have "evalLinear (next_linear p d) x = (\<Sum>t<Suc ?n. ((if t < ?n then d * p ! t else 0) + (if 0 < t then p ! (t - 1) * p ! (t - 1) else 0)) * x ^ 2 ^ t)"
    unfolding evalLinear_sum next_linear_nth(1) by (intro sum.cong) (simp_all add: next_linear_nth(2))
  also have "\<dots> = (\<Sum>t<Suc ?n. (if t < ?n then d * p ! t else 0) * x ^ 2 ^ t) + (\<Sum>t<Suc ?n. (if 0 < t then p ! (t - 1) * p ! (t - 1) else 0) * x ^ 2 ^ t)"
    by (simp only: distrib_right sum.distrib)
  also have "(\<Sum>t<Suc ?n. (if t < ?n then d * p ! t else 0) * x ^ 2 ^ t) = d * evalLinear p x"
    by (simp add: evalLinear_sum sum_distrib_left mult.assoc)
  also have "(\<Sum>t<Suc ?n. (if 0 < t then p ! (t - 1) * p ! (t - 1) else 0) * x ^ 2 ^ t) = (\<Sum>t<?n. (p ! t * x ^ 2 ^ t) ^ 2)"
    by (subst sum.lessThan_Suc_shift) (simp add: power2_eq_square mult_2 power_add ac_simps)
  also have "\<dots> = (evalLinear p x) ^ 2"
  proof -
    have "(\<Sum>t\<in>A. f t) ^ 2 = (\<Sum>t\<in>A. f t ^ 2)" if "finite A" for A :: "nat set" and f :: "nat \<Rightarrow> T"
      using that T_square_add [where j = 1] by (induction rule: finite_induct) simp_all
    then show ?thesis by (simp add: evalLinear_sum)
  qed
  finally show ?thesis by (simp add: power2_eq_square distrib_left add.commute mult.commute)
qed

section \<open>Points\<close>

definition span_point :: "T list \<Rightarrow> nat \<Rightarrow> T" where
  "span_point cs k = (\<Sum>i<16. if bit k i then cs ! i else 0)"

lemma span_point_0 [simp]: "span_point cs 0 = 0"
  by (simp add: span_point_def)

lemma span_point_step:
  assumes "k < 65536" "bit k b"
  shows "span_point cs k = span_point cs (k XOR 2 ^ b) + cs ! b"
proof -
  have b: "b < 16" using nat_bit_bound [of k 16 b] assms by simp
  have "span_point cs (k XOR 2 ^ b) + cs ! b
      = (\<Sum>i<16. if bit (k XOR 2 ^ b) i then cs ! i else 0) + (\<Sum>i<16. if i = b then cs ! i else 0)"
    using b by (simp add: span_point_def)
  also have "\<dots> = (\<Sum>i<16. if bit k i then cs ! i else 0)"
    unfolding sum.distrib [symmetric] using assms(2) by (intro sum.cong) (auto simp: bit_xor_iff bit_exp_iff)
  finally show ?thesis by (simp add: span_point_def)
qed

lemma span_point_xor:
  assumes "\<And>j. \<not> (bit k j \<and> bit l j)"
  shows "span_point cs (k + l) = span_point cs k + span_point cs l"
proof -
  have "bit (k + l) j \<longleftrightarrow> bit k j \<or> bit l j" for j using assms by (simp add: disjunctive_add_eq_or bit_or_iff bit_and_iff bit_eq_iff)
  then show ?thesis
    unfolding span_point_def sum.distrib [symmetric] using assms by (intro sum.cong) auto
qed

lemma basis_points_ok:
  assumes inj: "inj_on (span_point cs) {..<65536}"
  shows "fst (basis_points cs) = map (span_point cs) [0..<65536]"
    and "length (snd (basis_points cs)) = 65536"
    and "k < 65536 \<Longrightarrow> snd (basis_points cs) ! unat (raw (span_point cs k)) = of_nat k"
proof -
  define f where "f i = (\<lambda>(points :: T list, indices :: u16 list). let b = trailing_zeros i; x = points ! (i XOR 2 ^ b) + cs ! b
       in (points[i := x], indices[unat (raw x) := of_nat i]))" for i
  define N :: nat where "N = 65536"
  have un: "unat (raw x) < N" for x using unsigned_less [of "raw x"] by (simp add: N_def)
  define inv where "inv m = (\<lambda>(points, indices :: u16 list). length points = N \<and> length indices = N \<and>
      (\<forall>k < N. points ! k = (if k < m then span_point cs k else 0)) \<and>
      (\<forall>k < m. indices ! unat (raw (span_point cs k)) = of_nat k))" for m
  have "inv m (fold f [1..<m] (replicate N 0, replicate N 0))" if "1 \<le> m" "m \<le> N" for m
    using that
  proof (induction m rule: dec_induct)
    case base
    have "0 < N" by (simp add: N_def)
    then show ?case using un by (simp add: inv_def)
  next
    case (step m)
    obtain points indices where pi: "fold f [1..<m] (replicate N 0, replicate N 0) = (points, indices)" by fastforce
    with step have I: "length points = N" "length indices = N"
      "\<And>k. k < N \<Longrightarrow> points ! k = (if k < m then span_point cs k else 0)"
      "\<And>k. k < m \<Longrightarrow> indices ! unat (raw (span_point cs k)) = of_nat k" by (simp_all add: inv_def)
    let ?b = "trailing_zeros m"
    have m: "m < N" "0 < m" using step by simp_all
    have b: "bit m ?b" using trailing_zeros_bit(1) [of m] m by simp
    have lt: "m XOR 2 ^ ?b < m" using xor_clears [OF b] m by simp
    have x: "points ! (m XOR 2 ^ ?b) + cs ! ?b = span_point cs m"
      using span_point_step [OF _ b, of cs] I(3) [of "m XOR 2 ^ ?b"] lt m by (simp add: N_def)
    have inj': "unat (raw (span_point cs k)) = unat (raw (span_point cs m)) \<longleftrightarrow> k = m" if "k \<le> m" for k
      using inj_on_eq_iff [OF inj, of k m] that m by (simp add: T_eq_iff N_def word_unat_eq_iff)
    have "fold f [1..<Suc m] (replicate N 0, replicate N 0) = (points[m := span_point cs m], indices[unat (raw (span_point cs m)) := of_nat m])"
    proof -
      have "[1..<Suc m] = [1..<m] @ [m]" using m(2) by simp
      then show ?thesis by (simp only: fold_append comp_apply fold_simps pi f_def prod.case Let_def x)
    qed
    moreover have "indices[unat (raw (span_point cs m)) := of_nat m] ! unat (raw (span_point cs k)) = of_nat k" if "k < Suc m" for k
    proof (cases "k = m")
      case True
      then show ?thesis using un I(2) by simp
    next
      case False
      then have "unat (raw (span_point cs m)) \<noteq> unat (raw (span_point cs k))" using inj' [of k] that by auto
      then show ?thesis using False I(4) [of k] that by simp
    qed
    ultimately show ?case using I(1,2,3) m by (simp add: inv_def nth_list_update)
  qed
  from this [of N] have I: "inv N (basis_points cs)" by (simp add: basis_points_def f_def [abs_def] N_def)
  obtain points indices where pi: "basis_points cs = (points, indices)" by fastforce
  from I pi have "length points = N" "\<forall>k < N. points ! k = span_point cs k" by (simp_all add: inv_def)
  then have "points = map (span_point cs) [0..<N]" by (intro nth_equalityI) simp_all
  then show "fst (basis_points cs) = map (span_point cs) [0..<65536]" by (simp add: pi N_def)
  show "length (snd (basis_points cs)) = 65536" using I pi by (simp add: inv_def N_def)
  show "k < 65536 \<Longrightarrow> snd (basis_points cs) ! unat (raw (span_point cs k)) = of_nat k" using I pi by (simp add: inv_def N_def)
qed

section \<open>Cantor's coordinates\<close>

lemma cantor_coordinates_rec:
  shows "length cantor_coordinates = 16" and "cantor_coordinates ! 15 = cantor_top"
    and "i < 15 \<Longrightarrow> cantor_coordinates ! i = cantor_coordinates ! Suc i * cantor_coordinates ! Suc i + cantor_coordinates ! Suc i"
proof -
  define f where "f i cs = (let x = cs ! (i + 1) in cs[i := x * x + x])" for i and cs :: "T list"
  let ?c = "\<lambda>m. fold f (rev [m..<15]) ((replicate 16 0)[15 := cantor_top])"
  have "length (?c m) = 16 \<and> ?c m ! 15 = cantor_top \<and>
    (\<forall>i. m \<le> i \<and> i < 15 \<longrightarrow> ?c m ! i = ?c m ! Suc i * ?c m ! Suc i + ?c m ! Suc i)" if "m \<le> 15" for m
    using that
  proof (induction "15 - m" arbitrary: m)
    case (Suc d)
    then have m: "m < 15" by simp
    have "[m..<15] = m # [Suc m..<15]" using m by (simp add: upt_conv_Cons)
    then have "?c m = f m (?c (Suc m))" by simp
    moreover note Suc.hyps(1) [of "Suc m"]
    ultimately show ?case using m Suc.hyps(2) by (auto simp: f_def Let_def nth_list_update)
  next
    case 0
    then have "m = 15" by simp
    then show ?case by auto
  qed
  from this [of 0] show "length cantor_coordinates = 16" and "cantor_coordinates ! 15 = cantor_top"
    and "i < 15 \<Longrightarrow> cantor_coordinates ! i = cantor_coordinates ! Suc i * cantor_coordinates ! Suc i + cantor_coordinates ! Suc i"
    unfolding cantor_coordinates_def f_def [abs_def, symmetric] by simp_all
qed

definition artin_schreier :: "T \<Rightarrow> T" where
  "artin_schreier x = x * x + x"

abbreviation AS :: "nat \<Rightarrow> T \<Rightarrow> T" where
  "AS i \<equiv> artin_schreier ^^ i"

lemma artin_schreier_add: "artin_schreier (x + y) = artin_schreier x + artin_schreier y"
  using T_square_add [where j = 1] by (simp add: artin_schreier_def power2_eq_square ac_simps)

lemma AS_add: "AS i (x + y) = AS i x + AS i y"
  by (induction i) (simp_all add: artin_schreier_add)

lemma AS_0 [simp]: "AS i 0 = 0"
  by (induction i) (simp_all add: artin_schreier_def)

lemma AS_sum: "finite A \<Longrightarrow> AS i (sum f A) = (\<Sum>j\<in>A. AS i (f j))"
  by (induction rule: finite_induct) (simp_all add: AS_add)

lemma AS_two_power: "AS (2 ^ k) x = x ^ 2 ^ 2 ^ k + x"
proof (induction k arbitrary: x)
  case (Suc k)
  have "AS (2 ^ Suc k) x = AS (2 ^ k) (AS (2 ^ k) x)" by (simp add: mult_2 funpow_add)
  also have "\<dots> = (x ^ 2 ^ 2 ^ k) ^ 2 ^ 2 ^ k + x" by (simp add: Suc T_square_add add.assoc)
  also have "(x ^ 2 ^ 2 ^ k) ^ 2 ^ 2 ^ k = x ^ 2 ^ 2 ^ Suc k" by (simp add: power_mult [symmetric] power_add [symmetric] mult_2)
  finally show ?case .
qed (simp add: artin_schreier_def power2_eq_square)

lemma sum_lessThan_add: "(\<Sum>j<m + n. f j :: 'a::comm_monoid_add) = (\<Sum>j<m. f j) + (\<Sum>j<n. f (m + j))" for m n :: nat
  by (induction n) (simp_all add: add.assoc)

lemma AS_trace: "AS (2 ^ k - 1) x = (\<Sum>j<2 ^ k. x ^ 2 ^ j)"
proof (induction k)
  case (Suc k)
  have "2 ^ Suc k - 1 = (2 ^ k :: nat) + (2 ^ k - 1)" using one_le_power [of "2 :: nat" k] by simp
  then have "AS (2 ^ Suc k - 1) x = AS (2 ^ k) (AS (2 ^ k - 1) x)" by (simp only: funpow_add comp_apply)
  also have "\<dots> = (\<Sum>j<2 ^ k. AS (2 ^ k) (x ^ 2 ^ j))" unfolding Suc by (rule AS_sum) simp
  also have "\<dots> = (\<Sum>j<2 ^ k. x ^ 2 ^ j) + (\<Sum>j<2 ^ k. x ^ 2 ^ (2 ^ k + j))"
    by (simp add: AS_two_power sum.distrib power_mult [symmetric] power_add [symmetric] add.commute)
  also have "\<dots> = (\<Sum>j<2 ^ k + 2 ^ k. x ^ 2 ^ j)" by (rule sum_lessThan_add [symmetric])
  finally show ?case by (simp add: mult_2)
qed simp

lemma cantor_trace_sum: "cantor_trace x = (\<Sum>j<16. x ^ 2 ^ j)"
proof -
  have "fold (\<lambda>_ (trace, x). (trace + x, x * x)) [0..<m] (0, x) = (\<Sum>j<m. x ^ 2 ^ j, x ^ 2 ^ m)" for m
    by (induction m) (simp_all add: mult_2 power_add)
  then show ?thesis by (simp only: cantor_trace_def fst_conv)
qed

lemma cantor_trace_13: "cantor_trace (T 8192) = 1"
proof -
  have "cantor_trace (T 8192) = fst (fold (\<lambda>_ (trace, x). (trace + x, x * x)) [0..<16] (T 0, T 8192))"
    unfolding cantor_trace_def zero_T_def ..
  then show ?thesis by (simp add: upt_rec T_eval one_T_def)
qed

lemma cantor_top_trace: "cantor_trace cantor_top = 1"
proof -
  have "cantor_trace (T (push_bit 13 1)) = 1" using cantor_trace_13 by simp
  then have "find (\<lambda>b. cantor_trace (T (push_bit b 1)) = 1) [0..<16] \<noteq> None" unfolding find_None_iff by (auto intro!: exI [of _ 13])
  then obtain b where b: "find (\<lambda>b. cantor_trace (T (push_bit b 1)) = 1) [0..<16] = Some b" by blast
  then have "cantor_trace (T (push_bit b 1)) = 1" unfolding find_Some_iff by auto
  with b show ?thesis by (simp add: cantor_top_def)
qed

lemma cantor_coordinates_funpow: "k \<le> 15 \<Longrightarrow> cantor_coordinates ! (15 - k) = AS k cantor_top"
proof (induction k)
  case (Suc k)
  then have "cantor_coordinates ! (15 - Suc k) = artin_schreier (cantor_coordinates ! (15 - k))"
  proof -
    have "Suc (15 - Suc k) = 15 - k" using Suc.prems by simp
    then show ?thesis using cantor_coordinates_rec(3) [of "15 - Suc k"] Suc.prems by (simp add: artin_schreier_def)
  qed
  with Suc show ?case by simp
qed (simp add: cantor_coordinates_rec)

lemma cantor_coordinates_0: "cantor_coordinates ! 0 = 1"
  using cantor_coordinates_funpow [of 15] AS_trace [of 4 cantor_top] cantor_top_trace by (simp add: cantor_trace_sum)

section \<open>The vanishing polynomials\<close>

lemma AS_coordinate: "i < 16 \<Longrightarrow> AS i (cantor_coordinates ! i) = 1"
proof -
  assume i: "i < 16"
  have "AS i (cantor_coordinates ! i) = AS i (AS (15 - i) cantor_top)"
    using cantor_coordinates_funpow [of "15 - i"] i by simp
  also have "\<dots> = AS 15 cantor_top" using i by (simp add: funpow_add [THEN fun_cong, symmetric, simplified])
  also have "\<dots> = 1" using cantor_coordinates_funpow [of 15] cantor_coordinates_0 by simp
  finally show ?thesis .
qed

lemma AS_lower: "j < i \<Longrightarrow> i < 17 \<Longrightarrow> AS i (cantor_coordinates ! j) = 0"
proof -
  assume ij: "j < i" "i < 17"
  then have "AS i x = AS (i - Suc j) (artin_schreier (AS j x))" for x
    by (metis (no_types, lifting) Suc_leI comp_apply funpow.simps(2) funpow_add le_add_diff_inverse2)
  moreover have "artin_schreier 1 = 0" by (simp add: artin_schreier_def)
  ultimately show ?thesis using AS_coordinate [of j] ij by simp
qed

definition cpoint :: "nat \<Rightarrow> T" where
  "cpoint = span_point cantor_coordinates"

lemma AS_cpoint:
  assumes "i < 16"
  shows "AS i (cpoint k) = (\<Sum>j<16. if bit k j \<and> i \<le> j then AS i (cantor_coordinates ! j) else 0)"
  unfolding cpoint_def span_point_def AS_sum [OF finite_lessThan]
proof (rule sum.cong)
  fix j :: nat assume "j \<in> {..<16}"
  then show "AS i (if bit k j then cantor_coordinates ! j else 0) = (if bit k j \<and> i \<le> j then AS i (cantor_coordinates ! j) else 0)"
    using AS_lower [of j i] assms by auto
qed simp

lemma AS_cpoint_low: "i < 16 \<Longrightarrow> k < 2 ^ i \<Longrightarrow> AS i (cpoint k) = 0"
  using nat_bit_bound [of k i] by (force simp: AS_cpoint intro!: sum.neutral)

lemma cpoint_inj: "inj_on cpoint {..<65536}"
proof (rule inj_onI, rule ccontr)
  fix k l :: nat
  assume kl: "k \<in> {..<65536}" "l \<in> {..<65536}" "cpoint k = cpoint l" "k \<noteq> l"
  let ?m = "k XOR l"
  have m: "bit ?m j \<longleftrightarrow> bit k j \<noteq> bit l j" for j by (simp add: bit_xor_iff)
  have bound: "j < 16" if "bit ?m j" for j
    using that kl(1,2) nat_bit_bound [of k 16 j] nat_bit_bound [of l 16 j] by (auto simp: m)
  have "cpoint ?m = cpoint k + cpoint l"
    unfolding cpoint_def span_point_def sum.distrib [symmetric] by (intro sum.cong) (auto simp: m)
  then have zero: "cpoint ?m = 0" using kl(3) by simp
  obtain j where "bit ?m j" using kl(4) m by (metis bit_eq_iff)
  then have "{j. bit ?m j} \<noteq> {}" "finite {j. bit ?m j}" using bound finite_subset [of "{j. bit ?m j}" "{..<16}"] by auto
  then obtain t where t: "bit ?m t" "\<And>j. bit ?m j \<Longrightarrow> j \<le> t" using Max_in Max_ge by (metis mem_Collect_eq)
  have t16: "t < 16" using bound t(1) by blast
  have "AS t (cpoint ?m) = (\<Sum>j<16. if j = t then 1 else 0)"
    unfolding AS_cpoint [OF t16] using t AS_coordinate [OF t16] by (intro sum.cong) (auto dest: le_antisym)
  then show False using zero t16 by simp
qed

section \<open>The coefficients\<close>

definition lin_list :: "nat \<Rightarrow> T list" where
  "lin_list i = ((\<lambda>p. next_linear p 1) ^^ i) [1]"

lemma lin_list_Suc: "lin_list (Suc i) = next_linear (lin_list i) 1"
  by (simp add: lin_list_def)

lemma lin_list_shape: "length (lin_list i) = Suc i" "lin_list i ! i = 1" "lin_list i ! 0 = 1"
proof -
  have "length (lin_list i) = Suc i \<and> lin_list i ! i = 1 \<and> lin_list i ! 0 = 1"
  proof (induction i)
    case (Suc i)
    then show ?case by (simp add: lin_list_Suc next_linear_nth)
  qed (simp add: lin_list_def)
  then show "length (lin_list i) = Suc i" "lin_list i ! i = 1" "lin_list i ! 0 = 1" by simp_all
qed

lemma evalLinear_lin_list: "evalLinear (lin_list i) x = AS i x"
proof (induction i)
  case (Suc i)
  then show ?case by (simp add: lin_list_Suc evalLinear_next artin_schreier_def distrib_left)
qed (simp add: lin_list_def evalLinear_def)

definition basis_ok :: "additiveBasis \<Rightarrow> bool" where
  "basis_ok b \<longleftrightarrow> ab_points b = map cpoint [0..<65536] \<and> length (ab_indices b) = 65536 \<and>
     (\<forall>k < 65536. ab_indices b ! unat (raw (cpoint k)) = of_nat k) \<and>
     ab_linear b = map lin_list [0..<16] \<and> ab_denominator b = replicate 16 1 \<and> ab_inverse b = replicate 16 1 \<and>
     ab_derivative b = replicate 16 1"

lemma newAdditiveBasis_ok: "\<exists>b. newAdditiveBasis = Inr b \<and> basis_ok b"
proof -
  obtain points indices where pi: "basis_points cantor_coordinates = (points, indices)" by fastforce
  have inj: "inj_on (span_point cantor_coordinates) {..<65536}" using cpoint_inj by (simp add: cpoint_def)
  note points = basis_points_ok [OF inj, unfolded pi fst_conv snd_conv, folded cpoint_def]
  define b0 where "b0 = \<lparr> ab_points = points, ab_indices = indices, ab_linear = replicate 16 [],
       ab_denominator = replicate 16 0, ab_inverse = replicate 16 0, ab_derivative = replicate 16 (0 :: T) \<rparr>"
  define f where "f i = (\<lambda>(p, b :: additiveBasis). let d = evalLinear p (cantor_coordinates ! i) in
       bindR (T_Inverse d) (\<lambda>dinv. bindR (index_at p 0) (\<lambda>p0. bindR (T_Div p0 d) (\<lambda>der.
         Inr (next_linear p d, b\<lparr> ab_linear := (ab_linear b)[i := p], ab_denominator := (ab_denominator b)[i := d],
           ab_inverse := (ab_inverse b)[i := dinv], ab_derivative := (ab_derivative b)[i := der] \<rparr>)))))" for i
  have "foldR f [0..<m] ([1], b0) = Inr (lin_list m, b0\<lparr> ab_linear := map lin_list [0..<m] @ replicate (16 - m) [],
      ab_denominator := replicate m 1 @ replicate (16 - m) 0, ab_inverse := replicate m 1 @ replicate (16 - m) 0,
      ab_derivative := replicate m 1 @ replicate (16 - m) 0 \<rparr>)" if "m \<le> 16" for m
    using that
  proof (induction m)
    case 0
    show ?case by (simp add: lin_list_def b0_def)
  next
    case (Suc m)
    then have m: "m < 16" by simp
    have d: "evalLinear (lin_list m) (cantor_coordinates ! m) = 1" by (simp add: evalLinear_lin_list AS_coordinate [OF m])
    have upd: "(xs @ replicate (16 - m) z)[m := y] = xs @ y # replicate (16 - Suc m) z" if "length xs = m" for xs :: "'a list" and y z
    proof -
      have "16 - m = Suc (16 - Suc m)" using m by simp
      then have "replicate (16 - m) z = z # replicate (16 - Suc m) z" by (simp only: replicate_Suc)
      then show ?thesis using that by (simp add: list_update_append)
    qed
    have rep: "replicate m (1::T) @ 1 # ys = replicate (Suc m) 1 @ ys" for ys by (simp add: replicate_app_Cons_same)
    have "lin_list m ! 0 = 1" "lin_list m \<noteq> []" using lin_list_shape [of m] by auto
    then have step: "f m (lin_list m, b) = Inr (lin_list (Suc m), b\<lparr> ab_linear := (ab_linear b)[m := lin_list m],
        ab_denominator := (ab_denominator b)[m := 1], ab_inverse := (ab_inverse b)[m := 1], ab_derivative := (ab_derivative b)[m := 1] \<rparr>)" for b
      by (simp add: f_def d T_Inverse_eq T_Div_eq lin_list_Suc index_at_def Let_def)
    have "m \<le> 16" "[0..<Suc m] = [0..<m] @ [m]" "map lin_list [0..<Suc m] = map lin_list [0..<m] @ [lin_list m]" using m by simp_all
    then show ?case
      by (simp only: foldR_append Suc.IH bindR_simps foldR.simps step) (simp add: upd rep)
  qed
  from this [of 16] have "basis_linear cantor_coordinates b0 = Inr (b0\<lparr> ab_linear := map lin_list [0..<16],
      ab_denominator := replicate 16 1, ab_inverse := replicate 16 1, ab_derivative := replicate 16 1 \<rparr>)"
    unfolding basis_linear_def f_def [abs_def, symmetric] by simp
  then show ?thesis
    unfolding newAdditiveBasis_def pi prod.case Let_def b0_def [symmetric]
    using cantor_coordinates_0 points by (simp add: basis_ok_def b0_def)
qed

end
