(* ===== verification/NovelBasis.thy ===== *)
theory NovelBasis
  imports AdditiveBasis
begin

unbundle bit_operations_syntax

text \<open>
  What the conversions compute, over any commutative algebra of the field: \<open>toNovel\<close> and \<open>fromNovel\<close> keep
  the polynomial that the vector stands for, in ordinary coefficients on one side and in products of
  the vanishing polynomials on the other.  The algebras used are the field itself, for values, and the
  dual numbers, for derivatives.
\<close>

section \<open>Algebras of the field\<close>

locale T_algebra =
  fixes hom :: "T \<Rightarrow> 'a::comm_ring_1"
  assumes hom_add: "hom (s + t) = hom s + hom t"
    and hom_mult: "hom (s * t) = hom s * hom t"
    and hom_1: "hom 1 = 1"

definition as_val :: "nat \<Rightarrow> 'a::comm_ring_1 \<Rightarrow> 'a" where
  "as_val i = (\<lambda>y. y * y + y) ^^ i"

lemma as_val_simps [simp]: "as_val 0 x = x" "as_val (Suc i) x = as_val i x * as_val i x + as_val i x"
  by (simp_all add: as_val_def)

lemma as_val_AS: "as_val i x = AS i (x :: T)"
  by (induction i) (simp_all add: artin_schreier_def)

text \<open>The novel basis polynomials, at \<open>x\<close>.\<close>

definition novel :: "'a::comm_ring_1 \<Rightarrow> nat \<Rightarrow> 'a" where
  "novel x k = (\<Prod>i<16. if bit k i then as_val i x else 1)"

text \<open>The polynomial with ordinary coefficients, and the one with novel coefficients.\<close>

definition weighted :: "(T \<Rightarrow> 'a::comm_ring_1) \<Rightarrow> (nat \<Rightarrow> 'a) \<Rightarrow> T list \<Rightarrow> 'a" where
  "weighted hom w v = (\<Sum>k<length v. hom (v ! k) * w k)"

abbreviation ordinary_val :: "(T \<Rightarrow> 'a::comm_ring_1) \<Rightarrow> 'a \<Rightarrow> T list \<Rightarrow> 'a" where
  "ordinary_val hom x \<equiv> weighted hom (\<lambda>k. x ^ k)"

abbreviation novel_val :: "(T \<Rightarrow> 'a::comm_ring_1) \<Rightarrow> 'a \<Rightarrow> T list \<Rightarrow> 'a" where
  "novel_val hom x \<equiv> weighted hom (novel x)"

lemma novel_0 [simp]: "novel x 0 = 1"
  by (simp add: novel_def)

lemma novel_step:
  assumes "bit k i" "i < 16"
  shows "novel x k = as_val i x * novel x (k - 2 ^ i)"
proof -
  have "novel x k = (if bit k i then as_val i x else 1) * (\<Prod>j\<in>{..<16} - {i}. if bit k j then as_val j x else 1)"
    unfolding novel_def using assms(2) by (subst prod.remove [of _ i]) simp_all
  also have "(\<Prod>j\<in>{..<16} - {i}. if bit k j then as_val j x else 1) = (\<Prod>j\<in>{..<16} - {i}. if bit (k - 2 ^ i) j then as_val j x else 1)"
    using bit_minus_pow [OF assms(1)] by (intro prod.cong) auto
  also have "\<dots> = (if bit (k - 2 ^ i) i then as_val i x else 1) * \<dots>" using bit_minus_pow [OF assms(1)] by simp
  also have "\<dots> = novel x (k - 2 ^ i)"
    unfolding novel_def using assms(2) by (subst prod.remove [of _ i]) simp_all
  finally show ?thesis using assms(1) by simp
qed

context T_algebra
begin

lemma hom_0: "hom 0 = 0"
  using hom_add [of 0 0] by simp

lemma char2 [simp]: "a + a = 0" for a :: 'a
proof -
  have "a + a = (hom 1 + hom 1) * a" by (simp add: hom_1 distrib_right)
  also have "hom 1 + hom 1 = hom (1 + 1)" by (rule hom_add [symmetric])
  finally show ?thesis by (simp add: hom_0)
qed

lemma minus_plus: "a - b = a + b" for a b :: 'a
proof -
  have "a - b = a - b + (b + b)" by simp
  then show ?thesis by (simp only: diff_add_cancel add.assoc [symmetric])
qed

lemma square_sum: "(a + b) * (a + b) = a * a + b * b" for a b :: 'a
proof -
  have "(a + b) * (a + b) = a * a + (a * b + a * b) + b * b" by (simp only: distrib_left distrib_right mult.commute add.assoc)
  then show ?thesis by simp
qed

lemma square_sum_list: "(\<Sum>j<n. f j) * (\<Sum>j<n. f j) = (\<Sum>j<n. f j * f j)" for n :: nat and f :: "nat \<Rightarrow> 'a"
  by (induction n) (simp_all add: square_sum)

lemma as_val_sum: "as_val i x = (\<Sum>j<Suc i. hom (lin_list i ! j) * x ^ 2 ^ j)"
proof (induction i)
  case 0
  then show ?case by (simp add: lin_list_def hom_1)
next
  case (Suc i)
  let ?p = "lin_list i"
  have nth: "lin_list (Suc i) ! t = (if t < Suc i then ?p ! t else 0) + (if 0 < t then ?p ! (t - 1) * ?p ! (t - 1) else 0)"
    if "t \<le> Suc i" for t using that by (simp add: lin_list_Suc next_linear_nth lin_list_shape)
  have "(\<Sum>j<Suc (Suc i). hom (lin_list (Suc i) ! j) * x ^ 2 ^ j)
      = (\<Sum>j<Suc (Suc i). (if j < Suc i then hom (?p ! j) else 0) * x ^ 2 ^ j + (if 0 < j then hom (?p ! (j - 1)) * hom (?p ! (j - 1)) else 0) * x ^ 2 ^ j)"
    by (intro sum.cong) (auto simp: nth hom_add hom_mult hom_0 distrib_right)
  also have "\<dots> = (\<Sum>j<Suc i. hom (?p ! j) * x ^ 2 ^ j) + (\<Sum>j<Suc i. hom (?p ! j) * hom (?p ! j) * x ^ 2 ^ Suc j)"
    unfolding sum.distrib by (intro arg_cong2 [where f = plus], simp, subst sum.lessThan_Suc_shift, simp)
  also have "(\<Sum>j<Suc i. hom (?p ! j) * hom (?p ! j) * x ^ 2 ^ Suc j) = (\<Sum>j<Suc i. (hom (?p ! j) * x ^ 2 ^ j) * (hom (?p ! j) * x ^ 2 ^ j))"
  proof (intro sum.cong refl)
    fix j
    have "x ^ 2 ^ Suc j = x ^ 2 ^ j * x ^ 2 ^ j" by (simp add: power_add [symmetric] mult_2)
    then show "hom (?p ! j) * hom (?p ! j) * x ^ 2 ^ Suc j = hom (?p ! j) * x ^ 2 ^ j * (hom (?p ! j) * x ^ 2 ^ j)"
      by (simp only: ac_simps)
  qed
  also have "\<dots> = as_val i x * as_val i x" unfolding square_sum_list [symmetric] Suc ..
  finally show ?case unfolding Suc [symmetric] by (simp add: add.commute)
qed

lemma weighted_update:
  assumes "k < length v"
  shows "weighted hom w (v[k := v ! k + c]) = weighted hom w v + hom c * w k"
proof -
  have "weighted hom w (v[k := v ! k + c]) = (\<Sum>j<length v. hom (v ! j) * w j + (if j = k then hom c * w k else 0))"
    unfolding weighted_def by (simp only: length_list_update, rule sum.cong) (auto simp: hom_add distrib_right)
  also have "\<dots> = weighted hom w v + hom c * w k" using assms by (simp add: sum.distrib weighted_def)
  finally show ?thesis .
qed

lemma weighted_insert:
  assumes "k < length v"
  shows "weighted hom (w(k := a)) v = weighted hom w v + hom (v ! k) * (w k + a)"
proof -
  have "weighted hom (w(k := a)) v = (\<Sum>j<length v. hom (v ! j) * w j + (if j = k then hom (v ! k) * (w k + a) else 0))"
    unfolding weighted_def
  proof (rule sum.cong)
    fix j
    have "hom (v ! k) * a = hom (v ! k) * w k + (hom (v ! k) * w k + hom (v ! k) * a)" by (simp only: add.assoc [symmetric] char2 add_0)
    then show "hom (v ! j) * (w(k := a)) j = hom (v ! j) * w j + (if j = k then hom (v ! k) * (w k + a) else 0)"
      by (simp add: distrib_left)
  qed simp
  also have "\<dots> = weighted hom w v + hom (v ! k) * (w k + a)" using assms by (simp add: sum.distrib weighted_def)
  finally show ?thesis .
qed

end

end
