(* ===== verification/NovelConvert.thy ===== *)
theory NovelConvert
  imports NovelBasis
begin

unbundle bit_operations_syntax

text \<open>
  \<open>toNovel\<close> and \<open>fromNovel\<close> keep the polynomial.  Between two levels the vector stands for a sum with mixed
  weights: below bit \<open>i\<close> of the index powers of \<open>x\<close>, from bit \<open>i\<close> on vanishing polynomials; inside a level
  the rows done so far already have the weights of the next one.
\<close>

section \<open>Strided loops\<close>

lemma strided_pow: "i < L \<Longrightarrow> strided (2 ^ L) (2 * 2 ^ i) = map (\<lambda>k. k * 2 ^ Suc i) [0..<2 ^ (L - Suc i)]"
proof -
  assume i: "i < L"
  let ?s = "2 ^ Suc i :: nat"
  have split: "(2 :: nat) ^ L = 2 ^ (L - Suc i) * ?s" using i by (simp only: power_add [symmetric]) simp
  have "(2 ^ L + 2 * 2 ^ i - 1 :: nat) div (2 * 2 ^ i) = (2 ^ (L - Suc i) * ?s + (?s - 1)) div ?s"
    using one_le_power [of "2 :: nat" "Suc i"] unfolding split by (intro arg_cong2 [where f = "(div)"]) simp_all
  also have "\<dots> = 2 ^ (L - Suc i)" using div_mult_self3 [of ?s "2 ^ (L - Suc i)" "?s - 1"] by simp
  finally show ?thesis unfolding strided_def by (simp only: power_Suc)
qed

lemma fold_product: "fold (\<lambda>a. fold (f a) ys) xs = fold (\<lambda>(a, b). f a b) (List.product xs ys)"
  by (induction xs) (simp_all add: fold_map comp_def)

lemma block_split:
  assumes "k < 2 ^ L" "i < L"
  obtains base r where "base \<in> set (strided (2 ^ L) (2 * 2 ^ i))" "r < 2 ^ i" "k = base + (if bit k i then 2 ^ i else 0) + r"
proof -
  let ?s = "2 ^ Suc i :: nat"
  define base where "base = k div ?s * ?s"
  define r where "r = k mod 2 ^ i"
  have "k div ?s < 2 ^ (L - Suc i)"
    using assms by (intro less_mult_imp_div_less) (simp only: power_add [symmetric], simp)
  then have 1: "base \<in> set (strided (2 ^ L) (2 * 2 ^ i))" unfolding strided_pow [OF assms(2)] base_def by auto
  have "k mod ?s = (if bit k i then 2 ^ i else 0) + k mod 2 ^ i"
    using take_bit_Suc_from_most [of i k] by (simp add: take_bit_eq_mod add.commute)
  then have 2: "k = base + (if bit k i then 2 ^ i else 0) + r"
    using div_mult_mod_eq [of k ?s] unfolding base_def r_def by linarith
  show thesis by (rule that [OF 1 _ 2]) (simp add: r_def)
qed

lemma strided_block: "i < L \<Longrightarrow> base \<in> set (strided (2 ^ L) (2 * 2 ^ i)) \<Longrightarrow> 2 ^ Suc i dvd base \<and> base + 2 ^ Suc i \<le> 2 ^ L"
proof -
  assume i: "i < L" and base: "base \<in> set (strided (2 ^ L) (2 * 2 ^ i))"
  then obtain k where k: "k < 2 ^ (L - Suc i)" "base = k * 2 ^ Suc i" by (auto simp: strided_pow)
  then have "Suc k * 2 ^ Suc i \<le> 2 ^ (L - Suc i) * 2 ^ Suc i" by (intro mult_le_mono1) simp
  also have "\<dots> = 2 ^ L" using i by (simp only: power_add [symmetric]) simp
  finally show ?thesis using k(2) by simp
qed

lemma distinct_strided: "i < L \<Longrightarrow> distinct (strided (2 ^ L) (2 * 2 ^ i))"
  by (simp add: strided_pow distinct_map inj_on_def)

lemma sorted_wrt_product:
  assumes "distinct xs" "sorted_wrt R ys"
  shows "sorted_wrt (\<lambda>(a, b) (a', b'). a \<noteq> a' \<or> R b b') (List.product xs ys)"
  using assms by (induction xs) (auto simp: sorted_wrt_append sorted_wrt_map)

section \<open>Mixed weights\<close>

definition mixed :: "'a::comm_ring_1 \<Rightarrow> nat \<Rightarrow> nat \<Rightarrow> 'a" where
  "mixed x i k = x ^ (k mod 2 ^ i) * novel x (k - k mod 2 ^ i)"

lemma mixed_0: "mixed x 0 = novel x"
  by (simp add: mixed_def fun_eq_iff)

lemma mixed_low: "k < 2 ^ i \<Longrightarrow> mixed x i k = x ^ k"
  by (simp add: mixed_def)

text \<open>The rows done are those of the set \<open>D\<close>.\<close>

definition mixed_rows :: "'a::comm_ring_1 \<Rightarrow> nat \<Rightarrow> nat set \<Rightarrow> nat \<Rightarrow> 'a" where
  "mixed_rows x i D k = (if k \<in> D then mixed x i k else mixed x (Suc i) k)"

text \<open>A block of level \<open>i\<close> starts at a multiple of \<open>2 ^ Suc i\<close>.\<close>

lemma mixed_block:
  assumes "2 ^ Suc i dvd base" "q < 2 ^ Suc i"
  shows "mixed x (Suc i) (base + q) = x ^ q * novel x base"
  using assms by (auto simp: mixed_def elim!: dvdE)

lemma novel_block:
  assumes "2 ^ Suc i dvd base" "i < 16"
  shows "novel x (base + 2 ^ i) = as_val i x * novel x base"
proof -
  have "\<not> bit base i" using assms(1) by (auto simp: bit_iff_odd elim!: dvdE)
  then have "\<not> (bit base j \<and> bit (2 ^ i :: nat) j)" for j by (auto simp: bit_exp_iff)
  then have "base + 2 ^ i = base OR 2 ^ i" by (intro disjunctive_add) auto
  then have "bit (base + 2 ^ i) i" by (simp add: bit_or_iff bit_exp_iff)
  from novel_step [OF this assms(2)] show ?thesis by simp
qed

lemma mixed_half:
  assumes "2 ^ Suc i dvd base" "r < 2 ^ i" "i < 16"
  shows "mixed x i (base + 2 ^ i + r) = x ^ r * (as_val i x * novel x base)"
proof -
  have "2 ^ i dvd base + 2 ^ i" using assms(1) by (auto elim: dvd_trans [rotated])
  then have "(base + 2 ^ i) mod 2 ^ i = 0" by (rule dvd_imp_mod_0)
  then have "(base + 2 ^ i + r) mod 2 ^ i = r" using assms(2) by (metis add_0 mod_add_left_eq mod_less)
  then show ?thesis using novel_block [OF assms(1,3), of x] by (simp add: mixed_def)
qed

lemma mixed_unset:
  assumes "\<not> bit k i"
  shows "mixed x (Suc i) k = mixed x i k"
  using assms take_bit_Suc_from_most [of i k] by (simp add: mixed_def take_bit_eq_mod)

section \<open>One row\<close>

text \<open>The rows touched by row \<open>r\<close> of the block at \<open>base\<close>.\<close>

lemma row_apart:
  fixes base base' :: nat
  assumes "2 ^ Suc i dvd base" "2 ^ Suc i dvd base'" "r < 2 ^ i" "r' < 2 ^ i" "base \<noteq> base' \<or> r < r'"
  shows "base' + 2 ^ i + r' \<noteq> base + 2 ^ i + r \<and> (\<forall>j < i. base' + 2 ^ i + r' \<noteq> base + r + 2 ^ j)"
proof -
  have 1: "base' + q' = base + q \<longleftrightarrow> base = base' \<and> q = q'" if "q < 2 ^ Suc i" "q' < 2 ^ Suc i" for q q'
  proof
    assume eq: "base' + q' = base + q"
    from assms(1,2) obtain m m' where m: "base = 2 ^ Suc i * m" "base' = 2 ^ Suc i * m'" by (auto elim!: dvdE)
    have "(base' + q') div 2 ^ Suc i = m'" "(base + q) div 2 ^ Suc i = m" using that unfolding m by simp_all
    with eq m show "base = base' \<and> q = q'" by simp
  qed simp
  have bound: "2 ^ i + r' < 2 ^ Suc i" "2 ^ i + r < 2 ^ Suc i" using assms(3,4) unfolding power_Suc by linarith+
  have "base = base' \<Longrightarrow> 2 ^ i + r \<noteq> 2 ^ i + r'" using assms(5) by linarith
  then have 2: "base' + (2 ^ i + r') \<noteq> base + (2 ^ i + r)" using 1 [OF bound(2,1)] by blast
  have 3: "base' + (2 ^ i + r') \<noteq> base + (r + 2 ^ j)" if "j < i" for j
  proof -
    have j: "(2 :: nat) ^ j < 2 ^ i" using that by (rule power_strict_increasing) simp
    then have "r + 2 ^ j < 2 ^ Suc i" using assms(3) unfolding power_Suc by linarith
    moreover have "base = base' \<Longrightarrow> r + 2 ^ j \<noteq> 2 ^ i + r'" using assms(5) j by linarith
    ultimately show ?thesis using 1 [OF _ bound(1)] by blast
  qed
  from 2 3 show ?thesis unfolding add.assoc by blast
qed

context T_algebra
begin

lemma weighted_adds_list:
  assumes "\<forall>j \<in> set js. t j < length v \<and> t j \<noteq> d"
  shows "length (fold (\<lambda>j v. v[t j := v ! t j + c * l j]) js v) = length v \<and>
    fold (\<lambda>j v. v[t j := v ! t j + c * l j]) js v ! d = v ! d \<and>
    weighted hom w (fold (\<lambda>j v. v[t j := v ! t j + c * l j]) js v) = weighted hom w v + hom c * (\<Sum>j\<leftarrow>js. hom (l j) * w (t j))"
  using assms
proof (induction js rule: rev_induct)
  case (snoc m js)
  let ?u = "fold (\<lambda>j v. v[t j := v ! t j + c * l j]) js v"
  have "t m < length ?u" "t m \<noteq> d" using snoc by simp_all
  then show ?case using snoc weighted_update [of "t m" ?u w "c * l m"] by (simp add: hom_mult distrib_left mult.assoc add.assoc)
qed simp

lemma weighted_adds:
  assumes "\<forall>j < m. t j < length v \<and> t j \<noteq> d"
  shows "length (fold (\<lambda>j v. v[t j := v ! t j + c * l j]) [0..<m] v) = length v"
    and "fold (\<lambda>j v. v[t j := v ! t j + c * l j]) [0..<m] v ! d = v ! d"
    and "weighted hom w (fold (\<lambda>j v. v[t j := v ! t j + c * l j]) [0..<m] v) = weighted hom w v + hom c * (\<Sum>j<m. hom (l j) * w (t j))"
  using weighted_adds_list [where js = "[0..<m]" and t = t and v = v and d = d and c = c and l = l and w = w] assms
  by (simp_all add: interv_sum_list_conv_sum_set_nat atLeast0LessThan)

lemma as_val_top: "as_val i x = x ^ 2 ^ i + (\<Sum>j<i. hom (lin_list i ! j) * x ^ 2 ^ j)"
  using as_val_sum [of i x] by (simp add: lin_list_shape hom_1 add.commute)

lemma row_weights:
  assumes base: "2 ^ Suc i dvd base" and r: "r < 2 ^ i" and i: "i < 16"
    and D: "base + 2 ^ i + r \<notin> D" "\<And>j. j < i \<Longrightarrow> base + r + 2 ^ j \<notin> D"
  shows "mixed_rows x i D (base + 2 ^ i + r) + mixed x i (base + 2 ^ i + r)
    = (\<Sum>j<i. hom (lin_list i ! j) * mixed_rows x i D (base + r + 2 ^ j))"
proof -
  have t: "mixed_rows x i D (base + r + 2 ^ j) = x ^ r * x ^ 2 ^ j * novel x base" if "j < i" for j
  proof -
    have "(2 :: nat) ^ j < 2 ^ i" using that by (rule power_strict_increasing) simp
    then have "r + 2 ^ j < 2 ^ Suc i" using r unfolding power_Suc by linarith
    then show ?thesis using D(2) [OF that] mixed_block [OF base, of "r + 2 ^ j" x] by (simp add: mixed_rows_def power_add add.assoc)
  qed
  have "(\<Sum>j<i. hom (lin_list i ! j) * mixed_rows x i D (base + r + 2 ^ j)) = (\<Sum>j<i. hom (lin_list i ! j) * x ^ 2 ^ j) * (x ^ r * novel x base)"
    unfolding sum_distrib_right by (rule sum.cong) (simp_all add: t mult.assoc mult.left_commute)
  moreover have "mixed x (Suc i) (base + 2 ^ i + r) = x ^ 2 ^ i * (x ^ r * novel x base)"
    using mixed_block [OF base, of "2 ^ i + r" x] r by (simp add: power_add add.assoc mult.assoc)
  ultimately have "mixed x i (base + 2 ^ i + r) = mixed x (Suc i) (base + 2 ^ i + r)
      + (\<Sum>j<i. hom (lin_list i ! j) * mixed_rows x i D (base + r + 2 ^ j))"
    unfolding mixed_half [OF base r i] as_val_top by (simp add: distrib_left distrib_right ac_simps)
  moreover have "mixed_rows x i D (base + 2 ^ i + r) = mixed x (Suc i) (base + 2 ^ i + r)" using D(1) by (simp add: mixed_rows_def)
  ultimately show ?thesis by (simp only: add.assoc [symmetric] char2 add_0)
qed

lemma mixed_insert: "mixed_rows x i (insert d D) = (mixed_rows x i D)(d := mixed x i d)"
  by (auto simp: mixed_rows_def fun_eq_iff)

lemma toNovel_row_weighted:
  assumes b: "basis_ok b" and base: "2 ^ Suc i dvd base" and r: "r < 2 ^ i" and i: "i < 16"
    and len: "base + 2 ^ Suc i \<le> length v"
    and D: "base + 2 ^ i + r \<notin> D" "\<And>j. j < i \<Longrightarrow> base + r + 2 ^ j \<notin> D"
  shows "length (toNovel_row b i base r v) = length v"
    and "weighted hom (mixed_rows x i (insert (base + 2 ^ i + r) D)) (toNovel_row b i base r v) = weighted hom (mixed_rows x i D) v"
proof -
  let ?d = "base + 2 ^ i + r" and ?t = "\<lambda>j. base + r + 2 ^ j"
  define v1 where "v1 = fold (\<lambda>j w. w[?t j := w ! ?t j + v ! ?d * lin_list i ! j]) [0..<i] v"
  have row: "toNovel_row b i base r v = v1[?d := v ! ?d]"
    using b i by (simp add: toNovel_row_def basis_ok_def Let_def v1_def)
  have t: "\<forall>j < i. ?t j < length v \<and> ?t j \<noteq> ?d"
  proof (intro allI impI)
    fix j assume "j < i"
    then have "(2 :: nat) ^ j < 2 ^ i" by (rule power_strict_increasing) simp
    then show "?t j < length v \<and> ?t j \<noteq> ?d" using r len unfolding power_Suc by linarith
  qed
  note v1 = weighted_adds [where m = i and t = ?t and d = ?d and v = v and c = "v ! ?d" and l = "\<lambda>j. lin_list i ! j", OF t, folded v1_def]
  have same: "v1[?d := v ! ?d] = v1" by (simp add: v1(2) [symmetric])
  show "length (toNovel_row b i base r v) = length v" unfolding row same by (rule v1(1))
  have d: "?d < length v1" using r len v1(1) by simp
  let ?S = "\<Sum>j<i. hom (lin_list i ! j) * mixed_rows x i D (?t j)"
  have "weighted hom (mixed_rows x i (insert ?d D)) v1 = weighted hom (mixed_rows x i D) v1 + hom (v ! ?d) * (mixed_rows x i D ?d + mixed x i ?d)"
    unfolding mixed_insert weighted_insert [OF d] by (simp only: v1(2))
  also have "mixed_rows x i D ?d + mixed x i ?d = ?S"
    by (rule row_weights [OF base r i D])
  also have "weighted hom (mixed_rows x i D) v1 + hom (v ! ?d) * ?S = weighted hom (mixed_rows x i D) v"
    unfolding v1(3) by (simp add: add.assoc)
  finally show "weighted hom (mixed_rows x i (insert ?d D)) (toNovel_row b i base r v) = weighted hom (mixed_rows x i D) v"
    unfolding row same .
qed

lemma fromNovel_row_weighted:
  assumes b: "basis_ok b" and base: "2 ^ Suc i dvd base" and r: "r < 2 ^ i" and i: "i < 16"
    and len: "base + 2 ^ Suc i \<le> length v"
    and D: "base + 2 ^ i + r \<notin> D" "\<And>j. j < i \<Longrightarrow> base + r + 2 ^ j \<notin> D"
  shows "length (fromNovel_row b i base r v) = length v"
    and "weighted hom (mixed_rows x i D) (fromNovel_row b i base r v) = weighted hom (mixed_rows x i (insert (base + 2 ^ i + r) D)) v"
proof -
  let ?d = "base + 2 ^ i + r" and ?t = "\<lambda>j. base + r + 2 ^ j"
  have row: "fromNovel_row b i base r v = fold (\<lambda>j w. w[?t j := w ! ?t j + v ! ?d * lin_list i ! j]) [0..<i] v"
    using b i by (simp add: fromNovel_row_def basis_ok_def Let_def)
  have t: "\<forall>j < i. ?t j < length v \<and> ?t j \<noteq> ?d"
  proof (intro allI impI)
    fix j assume "j < i"
    then have "(2 :: nat) ^ j < 2 ^ i" by (rule power_strict_increasing) simp
    then show "?t j < length v \<and> ?t j \<noteq> ?d" using r len unfolding power_Suc by linarith
  qed
  note v1 = weighted_adds [where m = i and t = ?t and d = ?d and v = v and c = "v ! ?d" and l = "\<lambda>j. lin_list i ! j", OF t, folded row]
  show "length (fromNovel_row b i base r v) = length v" by (rule v1(1))
  have d: "?d < length v" using r len by simp
  let ?S = "\<Sum>j<i. hom (lin_list i ! j) * mixed_rows x i D (?t j)"
  have "mixed_rows x i D ?d + mixed x i ?d = ?S"
    by (rule row_weights [OF base r i D])
  then show "weighted hom (mixed_rows x i D) (fromNovel_row b i base r v) = weighted hom (mixed_rows x i (insert ?d D)) v"
    unfolding v1(3) mixed_insert weighted_insert [OF d] by simp
qed

text \<open>A level's rows in the order of the loops.\<close>

lemma toNovel_rows_weighted:
  assumes b: "basis_ok b" and i: "i < 16"
    and rows: "\<forall>(base, r) \<in> set ps. 2 ^ Suc i dvd base \<and> r < 2 ^ i \<and> base + 2 ^ Suc i \<le> length v"
    and order: "sorted_wrt (\<lambda>(base, r) (base', r'). base \<noteq> base' \<or> r > r') ps"
  shows "length (fold (\<lambda>(base, r). toNovel_row b i base r) ps v) = length v"
    and "weighted hom (mixed_rows x i ((\<lambda>(base, r). base + 2 ^ i + r) ` set ps)) (fold (\<lambda>(base, r). toNovel_row b i base r) ps v)
      = weighted hom (mixed x (Suc i)) v"
proof -
  let ?f = "\<lambda>(base, r). toNovel_row b i base r" and ?d = "\<lambda>(base, r). base + 2 ^ i + r"
  have "length (fold ?f ps v) = length v \<and> weighted hom (mixed_rows x i (?d ` set ps)) (fold ?f ps v) = weighted hom (mixed x (Suc i)) v"
    using rows order
  proof (induction ps rule: rev_induct)
    case Nil
    have "mixed_rows x i {} = mixed x (Suc i)" by (simp add: mixed_rows_def fun_eq_iff)
    then show ?case by simp
  next
    case (snoc p ps)
    obtain base r where p: "p = (base, r)" by fastforce
    have IH: "length (fold ?f ps v) = length v" "weighted hom (mixed_rows x i (?d ` set ps)) (fold ?f ps v) = weighted hom (mixed x (Suc i)) v"
      using snoc by (simp_all add: sorted_wrt_append)
    have pr: "2 ^ Suc i dvd base" "r < 2 ^ i" "base + 2 ^ Suc i \<le> length (fold ?f ps v)" using snoc.prems(1) IH(1) by (auto simp: p)
    have earlier: "?d q \<noteq> base + 2 ^ i + r \<and> (\<forall>j < i. ?d q \<noteq> base + r + 2 ^ j)" if "q \<in> set ps" for q
    proof -
      obtain base' r' where q: "q = (base', r')" by fastforce
      have q1: "2 ^ Suc i dvd base'" "r' < 2 ^ i" using snoc.prems(1) that by (auto simp: q)
      have q2: "base \<noteq> base' \<or> r < r'" using snoc.prems(2) that by (auto simp: q p sorted_wrt_append)
      show ?thesis unfolding q prod.case by (rule row_apart [OF pr(1) q1(1) pr(2) q1(2) q2])
    qed
    have D: "base + 2 ^ i + r \<notin> ?d ` set ps" "j < i \<Longrightarrow> base + r + 2 ^ j \<notin> ?d ` set ps" for j
      by (rule notI, erule imageE, drule earlier, elim conjE, erule notE, erule sym)
        (rule notI, erule imageE, drule earlier, elim conjE allE impE, assumption, erule notE, erule sym)
    show ?case using toNovel_row_weighted [OF b pr(1,2) i pr(3) D] IH by (simp add: p)
  qed
  then show "length (fold ?f ps v) = length v" "weighted hom (mixed_rows x i (?d ` set ps)) (fold ?f ps v) = weighted hom (mixed x (Suc i)) v"
    by simp_all
qed

lemma fromNovel_rows_weighted:
  assumes b: "basis_ok b" and i: "i < 16"
    and rows: "\<forall>(base, r) \<in> set ps. 2 ^ Suc i dvd base \<and> r < 2 ^ i \<and> base + 2 ^ Suc i \<le> length v"
    and order: "sorted_wrt (\<lambda>(base, r) (base', r'). base \<noteq> base' \<or> r < r') ps"
  shows "length (fold (\<lambda>(base, r). fromNovel_row b i base r) ps v) = length v"
    and "weighted hom (mixed x (Suc i)) (fold (\<lambda>(base, r). fromNovel_row b i base r) ps v)
      = weighted hom (mixed_rows x i ((\<lambda>(base, r). base + 2 ^ i + r) ` set ps)) v"
proof -
  let ?f = "\<lambda>(base, r). fromNovel_row b i base r" and ?d = "\<lambda>(base, r). base + 2 ^ i + r"
  have "length (fold ?f ps v) = length v \<and> weighted hom (mixed x (Suc i)) (fold ?f ps v) = weighted hom (mixed_rows x i (?d ` set ps)) v"
    using rows order
  proof (induction ps arbitrary: v)
    case Nil
    have "mixed_rows x i {} = mixed x (Suc i)" by (simp add: mixed_rows_def fun_eq_iff)
    then show ?case by simp
  next
    case (Cons p ps)
    obtain base r where p: "p = (base, r)" by fastforce
    have pr: "2 ^ Suc i dvd base" "r < 2 ^ i" "base + 2 ^ Suc i \<le> length v" using Cons.prems(1) by (auto simp: p)
    have later: "?d q \<noteq> base + 2 ^ i + r \<and> (\<forall>j < i. ?d q \<noteq> base + r + 2 ^ j)" if "q \<in> set ps" for q
    proof -
      obtain base' r' where q: "q = (base', r')" by fastforce
      have q1: "2 ^ Suc i dvd base'" "r' < 2 ^ i" using Cons.prems(1) that by (auto simp: q)
      have q2: "base \<noteq> base' \<or> r < r'" using Cons.prems(2) that by (auto simp: q p)
      show ?thesis unfolding q prod.case by (rule row_apart [OF pr(1) q1(1) pr(2) q1(2) q2])
    qed
    have D: "base + 2 ^ i + r \<notin> ?d ` set ps" "j < i \<Longrightarrow> base + r + 2 ^ j \<notin> ?d ` set ps" for j
      by (rule notI, erule imageE, drule later, elim conjE, erule notE, erule sym)
        (rule notI, erule imageE, drule later, elim conjE allE impE, assumption, erule notE, erule sym)
    note row = fromNovel_row_weighted [OF b pr(1,2) i pr(3) D]
    have "\<forall>(base, r) \<in> set ps. 2 ^ Suc i dvd base \<and> r < 2 ^ i \<and> base + 2 ^ Suc i \<le> length (?f p v)"
      using Cons.prems(1) row(1) by (simp add: p)
    moreover have "sorted_wrt (\<lambda>(base, r) (base', r'). base \<noteq> base' \<or> r < r') ps" using Cons.prems(2) by simp
    ultimately show ?case using Cons.IH [of "?f p v"] row by (simp add: p)
  qed
  then show "length (fold ?f ps v) = length v" "weighted hom (mixed x (Suc i)) (fold ?f ps v) = weighted hom (mixed_rows x i (?d ` set ps)) v"
    by simp_all
qed

lemma level_done:
  assumes "length v = 2 ^ L" "i < L" "set ps = set (strided (2 ^ L) (2 * 2 ^ i)) \<times> {..<2 ^ i}"
  shows "weighted hom (mixed_rows x i ((\<lambda>(base, r). base + 2 ^ i + r) ` set ps)) v = weighted hom (mixed x i) v"
  unfolding weighted_def assms(1)
proof (rule sum.cong)
  fix k :: nat assume "k \<in> {..<2 ^ L}"
  then have k: "k < 2 ^ L" by simp
  obtain base r where br: "base \<in> set (strided (2 ^ L) (2 * 2 ^ i))" "r < 2 ^ i" "k = base + (if bit k i then 2 ^ i else 0) + r"
    by (rule block_split [OF k assms(2)])
  have "mixed_rows x i ((\<lambda>(base, r). base + 2 ^ i + r) ` set ps) k = mixed x i k"
  proof (cases "bit k i")
    case True
    then have "k = base + 2 ^ i + r" using br(3) by simp
    then have "k \<in> (\<lambda>(base, r). base + 2 ^ i + r) ` set ps"
      unfolding assms(3) using br(1,2) by (intro image_eqI [of _ _ "(base, r)"]) simp_all
    then show ?thesis by (simp add: mixed_rows_def)
  qed (simp add: mixed_rows_def mixed_unset)
  then show "hom (v ! k) * mixed_rows x i ((\<lambda>(base, r). base + 2 ^ i + r) ` set ps) k = hom (v ! k) * mixed x i k" by simp
qed simp

lemma toNovel_level_weighted:
  assumes b: "basis_ok b" and len: "length v = 2 ^ L" and i: "i < L" "L \<le> 16"
  shows "length (toNovel_level b i v) = 2 ^ L"
    and "weighted hom (mixed x i) (toNovel_level b i v) = weighted hom (mixed x (Suc i)) v"
proof -
  let ?ps = "List.product (strided (2 ^ L) (2 * 2 ^ i)) (rev [0..<2 ^ i])"
  have lvl: "toNovel_level b i v = fold (\<lambda>(base, r). toNovel_row b i base r) ?ps v"
    unfolding toNovel_level_def len fold_product ..
  have i16: "i < 16" using i by simp
  have order: "sorted_wrt (\<lambda>(base, r) (base', r'). base \<noteq> base' \<or> r > r') ?ps"
    by (rule sorted_wrt_product) (simp_all add: distinct_strided i sorted_wrt_rev)
  have rows: "\<forall>(base, r) \<in> set ?ps. 2 ^ Suc i dvd base \<and> r < 2 ^ i \<and> base + 2 ^ Suc i \<le> length v"
    using strided_block [OF i(1)] by (auto simp: len)
  note rw = toNovel_rows_weighted [OF b i16 rows order, folded lvl]
  show 1: "length (toNovel_level b i v) = 2 ^ L" using rw(1) len by simp
  have "set ?ps = set (strided (2 ^ L) (2 * 2 ^ i)) \<times> {..<2 ^ i}" by auto
  from rw(2) level_done [OF 1 i(1) this] show "weighted hom (mixed x i) (toNovel_level b i v) = weighted hom (mixed x (Suc i)) v" by simp
qed

lemma fromNovel_level_weighted:
  assumes b: "basis_ok b" and len: "length v = 2 ^ L" and i: "i < L" "L \<le> 16"
  shows "length (fromNovel_level b i v) = 2 ^ L"
    and "weighted hom (mixed x (Suc i)) (fromNovel_level b i v) = weighted hom (mixed x i) v"
proof -
  let ?ps = "List.product (strided (2 ^ L) (2 * 2 ^ i)) [0..<2 ^ i]"
  have lvl: "fromNovel_level b i v = fold (\<lambda>(base, r). fromNovel_row b i base r) ?ps v"
    unfolding fromNovel_level_def len fold_product ..
  have i16: "i < 16" using i by simp
  have order: "sorted_wrt (\<lambda>(base, r) (base', r'). base \<noteq> base' \<or> r < r') ?ps"
    by (rule sorted_wrt_product) (simp_all add: distinct_strided i)
  have rows: "\<forall>(base, r) \<in> set ?ps. 2 ^ Suc i dvd base \<and> r < 2 ^ i \<and> base + 2 ^ Suc i \<le> length v"
    using strided_block [OF i(1)] by (auto simp: len)
  note rw = fromNovel_rows_weighted [OF b i16 rows order, folded lvl]
  show "length (fromNovel_level b i v) = 2 ^ L" using rw(1) len by simp
  have "set ?ps = set (strided (2 ^ L) (2 * 2 ^ i)) \<times> {..<2 ^ i}" by auto
  from rw(2) level_done [OF len i(1) this] show "weighted hom (mixed x (Suc i)) (fromNovel_level b i v) = weighted hom (mixed x i) v" by simp
qed

text \<open>All levels.\<close>

lemma mixed_top: "length v = 2 ^ L \<Longrightarrow> weighted hom (mixed x L) v = ordinary_val hom x v"
  unfolding weighted_def by (rule sum.cong) (simp_all add: mixed_low)

lemma toNovel_levels:
  assumes b: "basis_ok b" and "length v = 2 ^ L" "L \<le> 16" "m \<le> L"
  shows "length (fold (toNovel_level b) (rev [m..<L]) v) = 2 ^ L \<and>
    weighted hom (mixed x m) (fold (toNovel_level b) (rev [m..<L]) v) = ordinary_val hom x v"
  using assms(4)
proof (induction "L - m" arbitrary: m)
  case 0
  then show ?case using assms(2) by (simp add: mixed_top)
next
  case (Suc d)
  then have m: "m < L" by simp
  then have "[m..<L] = m # [Suc m..<L]" by (simp add: upt_conv_Cons)
  moreover have "length (fold (toNovel_level b) (rev [Suc m..<L]) v) = 2 ^ L \<and>
    weighted hom (mixed x (Suc m)) (fold (toNovel_level b) (rev [Suc m..<L]) v) = ordinary_val hom x v"
    using Suc.hyps m by simp
  ultimately show ?case using toNovel_level_weighted [OF b _ m assms(3)] by simp
qed

lemma fromNovel_levels:
  assumes b: "basis_ok b" and "length v = 2 ^ L" "L \<le> 16" "m \<le> L"
  shows "length (fold (fromNovel_level b) [0..<m] v) = 2 ^ L \<and>
    weighted hom (mixed x m) (fold (fromNovel_level b) [0..<m] v) = novel_val hom x v"
  using assms(4)
proof (induction m)
  case (Suc m)
  then show ?case using fromNovel_level_weighted [OF b _ _ assms(3), of "fold (fromNovel_level b) [0..<m] v" m] by simp
qed (simp add: assms(2) mixed_0)

end

section \<open>The conversions\<close>

lemma additiveLog_pow: "L \<le> 16 \<Longrightarrow> additiveLog (2 ^ L) = Inr L"
proof -
  assume L: "L \<le> 16"
  have "bits_Len (2 ^ L) = Suc L"
  proof (induction L)
    case (Suc L)
    then show ?case by (subst bits_Len.simps) simp
  qed (simp add: bits_Len.simps)
  moreover have "2 ^ L AND (2 ^ L - 1) = (0 :: nat)"
  proof (rule bit_eqI)
    fix j
    have "bit (2 ^ L - 1 :: nat) j \<Longrightarrow> j < L" by (rule nat_bit_bound [of "2 ^ L - 1" L j]) simp_all
    then show "bit (2 ^ L AND (2 ^ L - 1) :: nat) j \<longleftrightarrow> bit 0 j" by (auto simp: bit_and_iff bit_exp_iff)
  qed
  moreover have "(2 :: nat) ^ L \<le> 2 ^ 16" using L by (intro power_increasing) simp_all
  ultimately show ?thesis by (simp add: additiveLog_def)
qed

context T_algebra
begin

lemma toNovel_ok:
  assumes "basis_ok b" "length v = 2 ^ L" "L \<le> 16"
  shows "toNovel b v = Inr (fold (toNovel_level b) (rev [0..<L]) v)"
    and "length (fold (toNovel_level b) (rev [0..<L]) v) = 2 ^ L"
    and "novel_val hom x (fold (toNovel_level b) (rev [0..<L]) v) = ordinary_val hom x v"
  using toNovel_levels [OF assms, of 0] by (simp_all add: toNovel_def assms additiveLog_pow mixed_0)

lemma fromNovel_ok:
  assumes "basis_ok b" "length v = 2 ^ L" "L \<le> 16"
  shows "fromNovel b v = Inr (fold (fromNovel_level b) [0..<L] v)"
    and "length (fold (fromNovel_level b) [0..<L] v) = 2 ^ L"
    and "ordinary_val hom x (fold (fromNovel_level b) [0..<L] v) = novel_val hom x v"
  using fromNovel_levels [OF assms, of L] mixed_top [of "fold (fromNovel_level b) [0..<L] v" L x]
  by (simp_all add: fromNovel_def assms additiveLog_pow)

end

end
