(* ===== verification/AdditiveFFT.thy ===== *)
theory AdditiveFFT
  imports NovelConvert
begin

unbundle bit_operations_syntax

text \<open>
  The transform: from coefficients in the novel basis to the values at the points \<open>cpoint k\<close>, and back.
  A level replaces, in every block, the two halves of the coefficients by the coefficients of the two
  remainders, one for each half of the points of the block.
\<close>

section \<open>Independent butterflies\<close>

definition bfly :: "bool \<Rightarrow> T \<Rightarrow> T \<Rightarrow> T \<Rightarrow> T \<times> T" where
  "bfly backward c x y = (if backward then (x + c * (y + x), y + x) else (x + c * y, y + (x + c * y)))"

lemma bfly_back: "bfly True c (fst (bfly False c x y)) (snd (bfly False c x y)) = (x, y)"
proof -
  have "y + (x + c * y) + (x + c * y) = y" "x + c * y + c * y = x" by (simp_all only: add.assoc T_char2 add_0_right)
  then show ?thesis by (simp only: bfly_def if_True if_False fst_conv snd_conv)
qed

lemma butterfly_nth:
  assumes "l < length v" "h < length v" "l \<noteq> h"
  shows "length (butterfly bw c l h v) = length v" "butterfly bw c l h v ! l = fst (bfly bw c (v ! l) (v ! h))"
    "butterfly bw c l h v ! h = snd (bfly bw c (v ! l) (v ! h))" "k \<noteq> l \<Longrightarrow> k \<noteq> h \<Longrightarrow> butterfly bw c l h v ! k = v ! k"
  using assms by (cases bw; simp add: butterfly_def bfly_def Let_def)+

text \<open>Butterflies on pairwise disjoint pairs of rows.\<close>

lemma butterflies:
  fixes l h :: "'p \<Rightarrow> nat"
  assumes "\<forall>p \<in> set ps. l p < length v \<and> h p < length v \<and> l p \<noteq> h p"
    and "sorted_wrt (\<lambda>p q. {l p, h p} \<inter> {l q, h q} = {}) ps"
  shows "length (fold (\<lambda>p. butterfly bw (c p) (l p) (h p)) ps v) = length v \<and>
    (\<forall>p \<in> set ps. fold (\<lambda>p. butterfly bw (c p) (l p) (h p)) ps v ! l p = fst (bfly bw (c p) (v ! l p) (v ! h p)) \<and>
       fold (\<lambda>p. butterfly bw (c p) (l p) (h p)) ps v ! h p = snd (bfly bw (c p) (v ! l p) (v ! h p))) \<and>
    (\<forall>k. (\<forall>p \<in> set ps. k \<noteq> l p \<and> k \<noteq> h p) \<longrightarrow> fold (\<lambda>p. butterfly bw (c p) (l p) (h p)) ps v ! k = v ! k)"
  using assms
proof (induction ps rule: rev_induct)
  case (snoc p ps)
  let ?w = "fold (\<lambda>p. butterfly bw (c p) (l p) (h p)) ps v"
  have IH: "length ?w = length v" "\<And>q. q \<in> set ps \<Longrightarrow> ?w ! l q = fst (bfly bw (c q) (v ! l q) (v ! h q)) \<and> ?w ! h q = snd (bfly bw (c q) (v ! l q) (v ! h q))"
    "\<And>k. (\<forall>q \<in> set ps. k \<noteq> l q \<and> k \<noteq> h q) \<Longrightarrow> ?w ! k = v ! k"
    using snoc by (simp_all add: sorted_wrt_append)
  have p: "l p < length v" "h p < length v" "l p \<noteq> h p" using snoc.prems(1) by simp_all
  have apart: "l q \<noteq> l p" "l q \<noteq> h p" "h q \<noteq> l p" "h q \<noteq> h p" if "q \<in> set ps" for q
    using snoc.prems(2) that by (auto simp: sorted_wrt_append)
  have old: "?w ! l p = v ! l p" "?w ! h p = v ! h p" using IH(3) apart by metis+
  note new = butterfly_nth [where l = "l p" and v = ?w and h = "h p" and bw = bw and c = "c p", unfolded IH(1) old, OF p]
  show ?case using new IH apart by (auto simp: old)
qed simp

text \<open>The rows of a level.\<close>

lemma level_apart:
  fixes base base' :: nat
  assumes "2 ^ Suc i dvd base" "2 ^ Suc i dvd base'" "r < 2 ^ i" "r' < 2 ^ i" "base \<noteq> base' \<or> r < r'"
  shows "{base + r, base + 2 ^ i + r} \<inter> {base' + r', base' + 2 ^ i + r'} = {}"
proof -
  have 1: "base' + q' = base + q \<longleftrightarrow> base = base' \<and> q = q'" if "q < 2 ^ Suc i" "q' < 2 ^ Suc i" for q q'
  proof
    assume eq: "base' + q' = base + q"
    from assms(1,2) obtain m m' where m: "base = 2 ^ Suc i * m" "base' = 2 ^ Suc i * m'" by (auto elim!: dvdE)
    have "(base' + q') div 2 ^ Suc i = m'" "(base + q) div 2 ^ Suc i = m" using that unfolding m by simp_all
    with eq m show "base = base' \<and> q = q'" by simp
  qed simp
  have "r < 2 ^ Suc i" "2 ^ i + r < 2 ^ Suc i" "r' < 2 ^ Suc i" "2 ^ i + r' < 2 ^ Suc i" using assms(3,4) unfolding power_Suc by linarith+
  note eqs = 1 [OF this(1,3)] 1 [OF this(1,4)] 1 [OF this(2,3)] 1 [OF this(2,4)]
  have "r \<noteq> 2 ^ i + r'" "2 ^ i + r \<noteq> r'" using assms(3,4) by linarith+
  then show ?thesis using eqs assms(5) by (auto simp: add.assoc)
qed

lemma fft_level_ok:
  assumes len: "length v = 2 ^ L" and i: "i < L"
  shows "length (fft_level b bw i v) = 2 ^ L"
    and "base \<in> set (strided (2 ^ L) (2 * 2 ^ i)) \<Longrightarrow> r < 2 ^ i \<Longrightarrow>
      fft_level b bw i v ! (base + r) = fst (bfly bw (twiddle b i base) (v ! (base + r)) (v ! (base + 2 ^ i + r))) \<and>
      fft_level b bw i v ! (base + 2 ^ i + r) = snd (bfly bw (twiddle b i base) (v ! (base + r)) (v ! (base + 2 ^ i + r)))"
proof -
  let ?ps = "List.product (strided (2 ^ L) (2 * 2 ^ i)) [0..<2 ^ i]"
  let ?l = "\<lambda>(base :: nat, r). base + r" and ?h = "\<lambda>(base, r). base + 2 ^ i + r" and ?c = "\<lambda>(base, r :: nat). twiddle b i base"
  have lvl: "fft_level b bw i v = fold (\<lambda>p. butterfly bw (?c p) (?l p) (?h p)) ?ps v"
    unfolding fft_level_def len Let_def fold_product by (rule fold_cong) auto
  have rows: "2 ^ Suc i dvd base \<and> base + 2 ^ Suc i \<le> 2 ^ L \<and> r < 2 ^ i" if "(base, r) \<in> set ?ps" for base r
    using strided_block [OF i] that by auto
  have 1: "\<forall>p \<in> set ?ps. ?l p < length v \<and> ?h p < length v \<and> ?l p \<noteq> ?h p"
  proof (intro ballI)
    fix p assume p: "p \<in> set ?ps"
    obtain base r where br: "p = (base, r)" by fastforce
    have "base + 2 ^ Suc i \<le> 2 ^ L" "r < 2 ^ i" using rows p unfolding br by blast+
    then show "?l p < length v \<and> ?h p < length v \<and> ?l p \<noteq> ?h p" unfolding br len by simp
  qed
  have "sorted_wrt (\<lambda>(base, r) (base', r'). base \<noteq> base' \<or> r < r') ?ps"
    by (rule sorted_wrt_product) (simp_all add: distinct_strided i)
  then have 2: "sorted_wrt (\<lambda>p q. {?l p, ?h p} \<inter> {?l q, ?h q} = {}) ?ps"
  proof (rule sorted_wrt_mono_rel [rotated])
    fix p q assume pq: "p \<in> set ?ps" "q \<in> set ?ps" "(\<lambda>(base, r) (base', r'). base \<noteq> base' \<or> r < r') p q"
    obtain base r base' r' where br: "p = (base, r)" "q = (base', r')" by fastforce
    have "2 ^ Suc i dvd base" "2 ^ Suc i dvd base'" "r < 2 ^ i" "r' < 2 ^ i" using rows pq(1,2) unfolding br by blast+
    moreover have "base \<noteq> base' \<or> r < r'" using pq(3) unfolding br by simp
    ultimately show "{?l p, ?h p} \<inter> {?l q, ?h q} = {}" unfolding br prod.case by (rule level_apart)
  qed
  note bf = butterflies [OF 1 2, of bw ?c, folded lvl]
  show "length (fft_level b bw i v) = 2 ^ L" using bf [THEN conjunct1] len by simp
  assume "base \<in> set (strided (2 ^ L) (2 * 2 ^ i))" "r < 2 ^ i"
  then have "(base, r) \<in> set ?ps" by simp
  with bf [THEN conjunct2, THEN conjunct1] show "fft_level b bw i v ! (base + r) = fst (bfly bw (twiddle b i base) (v ! (base + r)) (v ! (base + 2 ^ i + r))) \<and>
      fft_level b bw i v ! (base + 2 ^ i + r) = snd (bfly bw (twiddle b i base) (v ! (base + r)) (v ! (base + 2 ^ i + r)))" by fastforce
qed

lemma fft_level_back:
  assumes len: "length v = 2 ^ L" and i: "i < L"
  shows "fft_level b True i (fft_level b False i v) = v"
proof (rule nth_equalityI)
  note f = fft_level_ok [OF len i, where b = b and bw = False]
  note g = fft_level_ok [OF f(1) i, where b = b and bw = True]
  show "length (fft_level b True i (fft_level b False i v)) = length v" by (simp add: g(1) len)
  fix k assume "k < length (fft_level b True i (fft_level b False i v))"
  then have k: "k < 2 ^ L" by (simp add: g(1))
  obtain base r where br: "base \<in> set (strided (2 ^ L) (2 * 2 ^ i))" "r < 2 ^ i" "k = base + (if bit k i then 2 ^ i else 0) + r"
    by (rule block_split [OF k i])
  show "fft_level b True i (fft_level b False i v) ! k = v ! k"
  proof (cases "bit k i")
    case True
    then have "k = base + 2 ^ i + r" using br(3) by simp
    then show ?thesis using f(2) [OF br(1,2)] g(2) [OF br(1,2)] bfly_back by simp
  next
    case False
    then have "k = base + r" using br(3) by simp
    then show ?thesis using f(2) [OF br(1,2)] g(2) [OF br(1,2)] bfly_back by simp
  qed
qed

section \<open>Values\<close>

interpretation pts: T_algebra "\<lambda>t. t"
  by unfold_locales simp_all

lemma AS_cpoint_add: "\<not> (\<exists>j. bit k j \<and> bit q j) \<Longrightarrow> AS i (cpoint (k + q)) = AS i (cpoint k) + AS i (cpoint q)"
  using span_point_xor [of k q cantor_coordinates] by (auto simp: cpoint_def AS_add)

lemma AS_cpoint_block:
  assumes i: "i < 16" and base: "2 ^ Suc i dvd base" and r: "r < 2 ^ i"
  shows "AS i (cpoint (base + r)) = AS i (cpoint base)" and "AS i (cpoint (base + 2 ^ i + r)) = AS i (cpoint base) + 1"
proof -
  have "take_bit (Suc i) base = 0" using base by (simp add: take_bit_eq_mod)
  then have low: "\<not> bit base j" if "j < Suc i" for j using that bit_take_bit_iff [of "Suc i" base j] by simp
  have apart: "\<not> (\<exists>j. bit base j \<and> bit q j)" if "q < 2 ^ Suc i" for q :: nat using low nat_bit_bound [OF that] by blast
  have "2 ^ i + r < 2 ^ Suc i" "r < 2 ^ Suc i" using r unfolding power_Suc by linarith+
  note split = this [THEN apart, THEN AS_cpoint_add, of i]
  have r0: "AS i (cpoint r) = 0" by (rule AS_cpoint_low [OF i r])
  from split(2) show "AS i (cpoint (base + r)) = AS i (cpoint base)" unfolding r0 by simp
  have "\<not> (\<exists>j. bit (2 ^ i :: nat) j \<and> bit r j)" using nat_bit_bound [OF r] by (auto simp: bit_exp_iff)
  note AS_cpoint_add [OF this, of i]
  moreover have "AS i (cpoint (2 ^ i)) = 1"
  proof -
    have "cpoint (2 ^ i) = (\<Sum>j<16. if j = i then cantor_coordinates ! i else 0)"
      unfolding cpoint_def span_point_def by (intro sum.cong) (auto simp: bit_exp_iff)
    then show ?thesis using i AS_coordinate [OF i] by simp
  qed
  ultimately show "AS i (cpoint (base + 2 ^ i + r)) = AS i (cpoint base) + 1"
    using split(1) r0 by (simp add: add.assoc)
qed

lemma twiddle_AS: "basis_ok b \<Longrightarrow> i < 16 \<Longrightarrow> base < 65536 \<Longrightarrow> twiddle b i base = AS i (cpoint base)"
  by (simp add: twiddle_def basis_ok_def evalLinear_lin_list)

lemma novel_add_pow:
  assumes "i < 16" "j < 2 ^ i"
  shows "novel x (2 ^ i + j) = as_val i x * novel x j"
proof -
  have "\<not> (bit (2 ^ i :: nat) t \<and> bit j t)" for t using nat_bit_bound [OF assms(2)] by (auto simp: bit_exp_iff)
  then have "2 ^ i + j = 2 ^ i OR j" by (intro disjunctive_add) auto
  then have "bit (2 ^ i + j) i" by (simp add: bit_or_iff bit_exp_iff)
  from novel_step [OF this assms(1)] show ?thesis by simp
qed

text \<open>The value at point \<open>k\<close> from the coefficients of its block of \<open>2 ^ i\<close>.\<close>

definition block_val :: "nat \<Rightarrow> T list \<Rightarrow> nat \<Rightarrow> T" where
  "block_val i v k = (\<Sum>j<2 ^ i. v ! (k div 2 ^ i * 2 ^ i + j) * novel (cpoint k) j)"

lemma block_val_level:
  assumes b: "basis_ok b" and len: "length v = 2 ^ L" and i: "i < L" "L \<le> 16" and k: "k < 2 ^ L"
  shows "block_val i (fft_level b False i v) k = block_val (Suc i) v k"
proof -
  obtain base r where br: "base \<in> set (strided (2 ^ L) (2 * 2 ^ i))" "r < 2 ^ i" "k = base + (if bit k i then 2 ^ i else 0) + r"
    by (rule block_split [OF k i(1)])
  have i16: "i < 16" using i by simp
  have base: "2 ^ Suc i dvd base" "base + 2 ^ Suc i \<le> 2 ^ L" using strided_block [OF i(1) br(1)] by simp_all
  have "(2 :: nat) ^ L \<le> 2 ^ 16" using i(2) by (intro power_increasing) simp_all
  then have "(2 :: nat) ^ L \<le> 65536" by simp
  moreover have "(0 :: nat) < 2 ^ Suc i" by simp
  ultimately have "base < 65536" using base(2) by linarith
  note c = twiddle_AS [OF b i16 this]
  let ?c = "AS i (cpoint base)" and ?x = "cpoint k" and ?o = "if bit k i then 2 ^ i else (0 :: nat)"
  have val: "as_val i ?x = ?c + (if bit k i then 1 else 0)"
  proof (cases "bit k i")
    case True
    then have "k = base + 2 ^ i + r" using br(3) by simp
    then have "AS i ?x = AS i (cpoint (base + 2 ^ i + r))" by (rule arg_cong)
    then show ?thesis using True by (simp only: as_val_AS AS_cpoint_block [OF i16 base(1) br(2)] if_True)
  next
    case False
    then have "k = base + r" using br(3) by simp
    then have "AS i ?x = AS i (cpoint (base + r))" by (rule arg_cong)
    then show ?thesis using False by (simp only: as_val_AS AS_cpoint_block [OF i16 base(1) br(2)] if_False add_0_right)
  qed
  from base(1) obtain m where m: "base = 2 ^ Suc i * m" by (rule dvdE)
  have "k div 2 ^ i = 2 * m + (if bit k i then 1 else 0)"
  proof -
    have "k = (2 * m + (if bit k i then 1 else 0)) * 2 ^ i + r" using br(3) m by (auto simp: distrib_right)
    then have "k div 2 ^ i = ((2 * m + (if bit k i then 1 else 0)) * 2 ^ i + r) div 2 ^ i" by (rule arg_cong)
    then show ?thesis using br(2) by simp
  qed
  then have start: "k div 2 ^ i * 2 ^ i = base + ?o" using m by (simp add: distrib_right)
  have "k div 2 ^ Suc i = m" using \<open>k div 2 ^ i = _\<close> by (simp only: power_Suc2 div_mult2_eq) simp
  then have start': "k div 2 ^ Suc i * 2 ^ Suc i = base" using m by simp
  have "block_val (Suc i) v k = (\<Sum>j<2 ^ i. v ! (base + j) * novel ?x j) + (\<Sum>j<2 ^ i. v ! (base + (2 ^ i + j)) * novel ?x (2 ^ i + j))"
    unfolding block_val_def start' by (simp only: power_Suc mult_2 sum_lessThan_add)
  also have "\<dots> = (\<Sum>j<2 ^ i. (v ! (base + j) + v ! (base + 2 ^ i + j) * as_val i ?x) * novel ?x j)"
    unfolding sum.distrib [symmetric] by (rule sum.cong) (simp_all add: novel_add_pow [OF i16] distrib_right add.assoc mult.assoc)
  also have "\<dots> = block_val i (fft_level b False i v) k"
    unfolding block_val_def start
  proof (rule sum.cong)
    fix j :: nat assume "j \<in> {..<2 ^ i}"
    then have j: "j < 2 ^ i" by simp
    have "fft_level b False i v ! (base + ?o + j) = v ! (base + j) + v ! (base + 2 ^ i + j) * as_val i ?x"
      using fft_level_ok(2) [OF len i(1) br(1) j, of b False] unfolding val c bfly_def by (simp add: distrib_left ac_simps)
    then show "(v ! (base + j) + v ! (base + 2 ^ i + j) * as_val i ?x) * novel ?x j = fft_level b False i v ! (base + ?o + j) * novel ?x j" by simp
  qed simp
  finally show ?thesis by simp
qed

lemma fft_levels:
  assumes b: "basis_ok b" and len: "length v = 2 ^ L" and L: "L \<le> 16" and m: "m \<le> L"
  shows "length (fold (fft_level b False) (rev [m..<L]) v) = 2 ^ L \<and>
    (\<forall>k < 2 ^ L. block_val m (fold (fft_level b False) (rev [m..<L]) v) k = novel_val (\<lambda>t. t) (cpoint k) v)"
  using m
proof (induction "L - m" arbitrary: m)
  case 0
  then show ?case using len by (simp add: block_val_def weighted_def)
next
  case (Suc d)
  then have m: "m < L" by simp
  then have "[m..<L] = m # [Suc m..<L]" by (simp add: upt_conv_Cons)
  then show ?case using Suc.hyps m fft_level_ok(1) [OF _ m] block_val_level [OF b _ m L] by simp
qed

text \<open>The transform and its inverse\<close>

definition fft_values :: "additiveBasis \<Rightarrow> nat \<Rightarrow> T list \<Rightarrow> T list" where
  "fft_values b L v = fold (fft_level b False) (rev [0..<L]) v"

lemma map_sub_upt: "map (\<lambda>step. L - 1 - step) [0..<L] = rev [0..<L]"
  by (rule nth_equalityI) (simp_all add: rev_nth)

lemma fft_ok:
  assumes b: "basis_ok b" and len: "length v = 2 ^ L" and L: "L \<le> 16"
  shows "fft b v False = Inr (fft_values b L v)"
    and "length (fft_values b L v) = 2 ^ L"
    and "k < 2 ^ L \<Longrightarrow> fft_values b L v ! k = novel_val (\<lambda>t. t) (cpoint k) v"
    and "fft b (fft_values b L v) True = Inr v"
proof -
  have "fold (\<lambda>step. fft_level b False (L - 1 - step)) [0..<L] v = fold (fft_level b False) (rev [0..<L]) v"
    unfolding map_sub_upt [symmetric] fold_map comp_def ..
  then show "fft b v False = Inr (fft_values b L v)" by (simp add: fft_def len additiveLog_pow [OF L] fft_values_def)
  note f = fft_levels [OF b len L, of 0, folded fft_values_def]
  show f1: "length (fft_values b L v) = 2 ^ L" using f by simp
  show "k < 2 ^ L \<Longrightarrow> fft_values b L v ! k = novel_val (\<lambda>t. t) (cpoint k) v" using f by (simp add: block_val_def)
  have "fold (fft_level b True) [0..<m] (fold (fft_level b False) (rev [0..<m]) w) = w" if "length w = 2 ^ L" "m \<le> L" for m w
    using that
  proof (induction m arbitrary: w)
    case (Suc m)
    then have "length (fft_level b False m w) = 2 ^ L" using fft_level_ok(1) [of w L m] by simp
    with Suc show ?case using fft_level_back [of w L m b] by simp
  qed simp
  from this [OF len order.refl] show "fft b (fft_values b L v) True = Inr v"
    by (simp add: fft_def f1 additiveLog_pow [OF L]) (simp add: fft_values_def)
qed

end
