(* ===== verification/Gf16.thy ===== *)
theory Gf16
  imports Slices
begin

text \<open>
  The region backend in pure Go (src/gf16/gf16.go, gf16_purego.go, operations.go,
  operations_purego.go): contexts with their prepared buffers, and sets of buffers on which a batch
  of region operations runs.  The SIMD backend behind cgo is not Go code; what callers rely on is
  the locale \<open>gf16_backend\<close>, which the pure-Go backend interprets.
\<close>

section \<open>Contexts\<close>

definition errBadSliceSize :: go_error where
  "errBadSliceSize = ErrorNew ''gf16: slice size must be positive and even''"

definition checkSliceSize :: "int \<Rightarrow> unit res" where
  "checkSliceSize n = (if n \<le> 0 \<or> n mod 2 \<noteq> 0 then Inl errBadSliceSize else Inr ())"

record Context =
  batchScratch :: "byte list option"
  sliceSize :: nat
  bufSize :: nat

definition NewContext :: "int \<Rightarrow> Context res" where
  "NewContext n =
     bindR (checkSliceSize n) (\<lambda>_.
     Inr \<lparr>batchScratch = None, sliceSize = nat n, bufSize = nat n\<rparr>)"

definition Stride :: nat where
  "Stride = 2"

definition MethodName :: string where
  "MethodName = ''gf2p16 (pure Go)''"

definition NewBuffer :: "Context \<Rightarrow> byte list" where
  "NewBuffer c = replicate (bufSize c) 0"

text \<open>
  \<open>bufferBank\<close>: the rows are cut from one zeroed bank; the alignment padding between them is not
  part of any row, and the size check stands for the address space of a 64-bit platform.
\<close>

definition bufferBank :: "nat \<Rightarrow> nat \<Rightarrow> nat \<Rightarrow> byte list list res" where
  "bufferBank sz align cnt =
     bindR (check (cnt \<noteq> 0) (Panic ''gf16: invalid buffer count'')) (\<lambda>_.
     let stride = (sz + align - 1) div align * align in
     bindR (check (stride \<le> (2 ^ 63 - 1) div cnt) (Panic ''gf16: buffer bank too large'')) (\<lambda>_.
     let bank = replicate (stride * cnt) 0 in
     mapR (\<lambda>i. slice_at bank (i * stride) (i * stride + sz)) [0..<cnt]))"

definition NewBuffers :: "Context \<Rightarrow> nat \<Rightarrow> byte list list res" where
  "NewBuffers c cnt = bufferBank (bufSize c) 16 cnt"

text \<open>\<open>copy(dst, src)\<close>\<close>

definition go_copy :: "'a list \<Rightarrow> 'a list \<Rightarrow> 'a list" where
  "go_copy dst src = take (length dst) src @ drop (length src) dst"

definition Prepare :: "Context \<Rightarrow> byte list \<Rightarrow> byte list \<Rightarrow> byte list res" where
  "Prepare c dst src =
     (if length dst \<noteq> bufSize c \<or> sliceSize c < length src \<or> length src = 0
      then Inl (Panic ''gf16: Prepare buffer size mismatch'')
      else let n = min (length dst) (length src); d = go_copy dst src
           in Inr (take n d @ replicate (length d - n) 0))"

definition Finish :: "Context \<Rightarrow> byte list \<Rightarrow> byte list \<Rightarrow> byte list res" where
  "Finish c buf out =
     (if length buf \<noteq> bufSize c \<or> sliceSize c < length out
      then Inl (Panic ''gf16: Finish buffer size mismatch'')
      else Inr (go_copy out buf))"

definition Mul :: "bool \<Rightarrow> Context \<Rightarrow> byte list \<Rightarrow> byte list \<Rightarrow> u16 \<Rightarrow> byte list res" where
  "Mul ple c dst src coeff = MulByteSliceLE ple (T coeff) src dst"

definition MulAdd :: "bool \<Rightarrow> Context \<Rightarrow> byte list \<Rightarrow> byte list \<Rightarrow> u16 \<Rightarrow> byte list res" where
  "MulAdd ple c dst src coeff = MulAndAddByteSliceLE ple (T coeff) src dst"

definition MulAddMulti ::
  "bool \<Rightarrow> Context \<Rightarrow> byte list \<Rightarrow> byte list list \<Rightarrow> nat \<Rightarrow> nat \<Rightarrow> u16 list \<Rightarrow> byte list res" where
  "MulAddMulti ple c dst srcs offset len coeffs =
     bindR (check (length srcs = length coeffs) (Panic ''gf16: srcs/coeffs length mismatch'')) (\<lambda>_.
     foldR (\<lambda>(s, coeff) d.
       bindR (slice_at s offset (offset + len)) (\<lambda>sw.
       bindR (slice_at d offset (offset + len)) (\<lambda>dw.
       bindR (MulAndAddByteSliceLE ple (T coeff) sw dw) (\<lambda>r. Inr (splice d offset r)))))
     (zip srcs coeffs) dst)"

section \<open>Region operations\<close>

definition OpAdd :: u16 where "OpAdd = 0"
definition OpScale :: u16 where "OpScale = 1"
definition OpClear :: u16 where "OpClear = 2"
definition OpButterfly :: u16 where "OpButterfly = 3"
definition OpInverseButterfly :: u16 where "OpInverseButterfly = 4"

lemmas op_kinds = OpAdd_def OpScale_def OpClear_def OpButterfly_def OpInverseButterfly_def

record Operation =
  Dst :: u32
  Src :: u32
  Coeff :: u16
  Kind :: u16

record BufferSet =
  bs_count :: nat
  bs_size :: nat
  bs_rows :: "byte list list"
  bs_method :: string
  bs_open :: bool

text \<open>The field \<open>close\<close> of the code is non-nil until \<open>Close\<close>: \<open>bs_open\<close>.\<close>

definition newBufferSet :: "Context \<Rightarrow> byte list list \<Rightarrow> BufferSet res" where
  "newBufferSet c rows = Inr \<lparr>bs_count = length rows, bs_size = bufSize c, bs_rows = rows,
     bs_method = MethodName, bs_open = True\<rparr>"

definition NewBufferSet :: "Context option \<Rightarrow> byte list list \<Rightarrow> BufferSet res" where
  "NewBufferSet ctx rows =
     (case ctx of
        None \<Rightarrow> Inl (ErrorNew ''gf16: nil context'')
      | Some c \<Rightarrow>
          if rows = [] then Inl (ErrorNew ''gf16: empty buffer set'')
          else if \<exists>r\<in>set rows. length r \<noteq> bufSize c then Inl (ErrorNew ''gf16: buffer size mismatch'')
          else newBufferSet c rows)"

definition NewBufferWorkspace :: "Context option \<Rightarrow> int \<Rightarrow> BufferSet res" where
  "NewBufferWorkspace ctx cnt =
     (case ctx of
        None \<Rightarrow> Inl (ErrorNew ''gf16: invalid buffer workspace'')
      | Some c \<Rightarrow>
          if cnt \<le> 0 then Inl (ErrorNew ''gf16: invalid buffer workspace'')
          else if nat cnt > (2 ^ 63 - 1 - 4096) div max (bufSize c + 4096) 24
               then Inl (ErrorNew ''gf16: workspace too large'')
          else bindR (NewBuffers c (nat cnt)) (newBufferSet c))"

definition Buffers :: "BufferSet \<Rightarrow> byte list list" where
  "Buffers s = (if bs_open s then bs_rows s else [])"

definition Close :: "BufferSet \<Rightarrow> BufferSet" where
  "Close s = (if bs_open s then s\<lparr>bs_open := False, bs_rows := []\<rparr> else s)"

text \<open>\<open>crypto/subtle.XORBytes\<close> of the standard library.\<close>

definition XORBytes :: "byte list \<Rightarrow> byte list \<Rightarrow> byte list \<Rightarrow> byte list res" where
  "XORBytes dst x y =
     (let n = min (length x) (length y) in
      if length dst < n then Inl (Panic ''subtle.XORBytes: dst too short'')
      else Inr (map2 (XOR) x y @ drop n dst))"

text \<open>Replacing one row, and the switch of \<open>newBufferSet\<close> for one operation.\<close>

definition op_dst :: "Operation \<Rightarrow> nat" where "op_dst op = unat (Dst op)"
definition op_src :: "Operation \<Rightarrow> nat" where "op_src op = unat (Src op)"

definition run_op ::
  "bool \<Rightarrow> Context \<Rightarrow> Operation \<Rightarrow> byte list \<times> byte list list \<Rightarrow> (byte list \<times> byte list list) res" where
  "run_op ple c op st = (case st of (scratch, rows) \<Rightarrow>
     if Kind op = OpAdd then
       (if Coeff op = 1 then
          bindR (index_at rows (op_dst op)) (\<lambda>d. bindR (index_at rows (op_src op)) (\<lambda>s.
          bindR (XORBytes d d s) (\<lambda>d'. Inr (scratch, rows[op_dst op := d']))))
        else if Coeff op \<noteq> 0 then
          bindR (index_at rows (op_dst op)) (\<lambda>d. bindR (index_at rows (op_src op)) (\<lambda>s.
          bindR (MulAdd ple c d s (Coeff op)) (\<lambda>d'. Inr (scratch, rows[op_dst op := d']))))
        else Inr (scratch, rows))
     else if Kind op = OpScale then
       bindR (index_at rows (op_src op)) (\<lambda>s.
       bindR (Mul ple c scratch s (Coeff op)) (\<lambda>scratch'.
       bindR (index_at rows (op_dst op)) (\<lambda>d.
       Inr (scratch', rows[op_dst op := go_copy d scratch']))))
     else if Kind op = OpButterfly then
       bindR (index_at rows (op_dst op)) (\<lambda>d. bindR (index_at rows (op_src op)) (\<lambda>s.
       bindR (MulAdd ple c d s (Coeff op)) (\<lambda>d'.
       bindR (XORBytes s s d') (\<lambda>s'.
       Inr (scratch, rows[op_dst op := d', op_src op := s'])))))
     else if Kind op = OpInverseButterfly then
       bindR (index_at rows (op_dst op)) (\<lambda>d. bindR (index_at rows (op_src op)) (\<lambda>s.
       bindR (XORBytes s s d) (\<lambda>s'.
       bindR (MulAdd ple c d s' (Coeff op)) (\<lambda>d'.
       Inr (scratch, rows[op_src op := s', op_dst op := d'])))))
     else if Kind op = OpClear then
       bindR (index_at rows (op_dst op)) (\<lambda>d.
       Inr (scratch, rows[op_dst op := replicate (length d) 0]))
     else Inr (scratch, rows))"

definition operationScratch :: "Context \<Rightarrow> byte list" where
  "operationScratch c = (case batchScratch c of None \<Rightarrow> NewBuffer c | Some b \<Rightarrow> b)"

text \<open>
  The guards of \<open>Apply\<close>, in the order of the code; \<open>Some e\<close> is the error returned.  Nothing is
  applied unless every operation of the batch passes.
\<close>

definition op_error :: "BufferSet \<Rightarrow> Operation \<Rightarrow> go_error option" where
  "op_error s op =
     (if OpInverseButterfly < Kind op \<or> bs_count s \<le> op_dst op
         \<or> (Kind op \<noteq> OpClear \<and> bs_count s \<le> op_src op)
      then Some (ErrorNew ''gf16: invalid region operation'')
      else if OpButterfly \<le> Kind op \<and> Dst op = Src op
      then Some (ErrorNew ''gf16: aliased butterfly'')
      else None)"

fun ops_error :: "BufferSet \<Rightarrow> Operation list \<Rightarrow> go_error option" where
  "ops_error s [] = None"
| "ops_error s (op # ops) = (case op_error s op of None \<Rightarrow> ops_error s ops | Some e \<Rightarrow> Some e)"

definition Apply ::
  "bool \<Rightarrow> BufferSet \<Rightarrow> Context option \<Rightarrow> Operation list \<Rightarrow> (BufferSet \<times> Context option) res" where
  "Apply ple s ctx ops =
     (if \<not> bs_open s then Inl (ErrorNew ''gf16: closed buffer set'')
      else case ctx of
        None \<Rightarrow> Inl (ErrorNew ''gf16: nil context'')
      | Some c \<Rightarrow>
          if bufSize c \<noteq> bs_size s \<or> MethodName \<noteq> bs_method s
          then Inl (ErrorNew ''gf16: buffer layout mismatch'')
          else case ops_error s ops of
            Some e \<Rightarrow> Inl e
          | None \<Rightarrow>
              if ops = [] then Inr (s, ctx)
              else bindR (foldR (run_op ple c) ops (operationScratch c, bs_rows s)) (\<lambda>(scratch, rows).
                   Inr (s\<lparr>bs_rows := rows\<rparr>, Some (c\<lparr>batchScratch := Some scratch\<rparr>))))"

section \<open>Operations on rows of field elements\<close>

text \<open>
  What the comments of operations.go promise, on rows of elements of the field: the specification
  that the byte-level code refines.
\<close>

definition row_add :: "T \<Rightarrow> T list \<Rightarrow> T list \<Rightarrow> T list" where
  "row_add c s d = add_scaled c s d"

definition op_words :: "Operation \<Rightarrow> T list list \<Rightarrow> T list list" where
  "op_words op rows =
     (let d = rows ! op_dst op; s = rows ! op_src op; c = T (Coeff op) in
      if Kind op = OpAdd then rows[op_dst op := row_add c s d]
      else if Kind op = OpScale then rows[op_dst op := map ((*) c) s]
      else if Kind op = OpClear then rows[op_dst op := map (\<lambda>_. 0) d]
      else if Kind op = OpButterfly
      then rows[op_dst op := row_add c s d, op_src op := row_add (c + 1) s d]
      else if Kind op = OpInverseButterfly
      then rows[op_src op := row_add 1 d s, op_dst op := row_add c (row_add 1 d s) d]
      else rows)"

lemma unwords_xor_words:
  "length x = length y \<Longrightarrow> even (length x) \<Longrightarrow>
   words (map2 (XOR) x y) = row_add 1 (words y) (words x)"
proof (induction x arbitrary: y rule: words.induct)
  case (1 a b bs)
  from "1.prems" obtain a' b' bs' where y: "y = a' # b' # bs'" "length bs' = length bs"
    by (auto simp: Suc_length_conv length_Suc_conv)
  have "ucast (a XOR a') OR push_bit 8 (ucast (b XOR b'))
      = (ucast a OR push_bit 8 (ucast b)) XOR (ucast a' OR push_bit 8 (ucast b') :: u16)"
    by (intro bit_word_eqI) (auto simp: bit_simps dest: bit_imp_le_length)
  with 1 y show ?case by (simp add: row_add_def add_scaled_def T_eq_iff)
qed (auto simp: row_add_def add_scaled_def)

lemma length_row_add [simp]: "length (row_add c s d) = min (length d) (length s)"
  by (simp add: row_add_def)

lemma row_add_nth [simp]:
  "k < length s \<Longrightarrow> k < length d \<Longrightarrow> row_add c s d ! k = d ! k + c * s ! k"
  by (simp add: row_add_def add_scaled_nth)

text \<open>The rows of an open set all have the buffer size.\<close>

definition rows_ok :: "nat \<Rightarrow> byte list list \<Rightarrow> bool" where
  "rows_ok n rows \<longleftrightarrow> even n \<and> (\<forall>r\<in>set rows. length r = n)"

lemma rows_ok_update: "rows_ok n rows \<Longrightarrow> length r = n \<Longrightarrow> rows_ok n (rows[i := r])"
  using set_update_subset_insert [of rows i r] by (auto simp: rows_ok_def)

lemma rows_ok_nth: "rows_ok n rows \<Longrightarrow> i < length rows \<Longrightarrow> length (rows ! i) = n"
  by (simp add: rows_ok_def)

lemma words_zero: "words (replicate n 0) = replicate (n div 2) 0"
proof (induction n rule: less_induct)
  case (less n)
  show ?case
  proof (cases "n < 2")
    case True
    then have "n = 0 \<or> n = 1" by auto
    then show ?thesis by auto
  next
    case False
    then obtain k where n: "n = Suc (Suc k)" by (metis add_2_eq_Suc le_Suc_ex not_less)
    with less [of k] show ?thesis by (simp add: T_eq_iff)
  qed
qed

section \<open>The batch executor refines the specification\<close>

lemma row_add_0 [simp]: "length s = length d \<Longrightarrow> row_add 0 s d = d"
  by (rule nth_equalityI) auto

lemma XORBytes_eq:
  "length x = length y \<Longrightarrow> length d = length x \<Longrightarrow> XORBytes d x y = Inr (map2 (XOR) x y)"
  by (simp add: XORBytes_def)

lemma MulAdd_eq:
  "even (length s) \<Longrightarrow> length d = length s \<Longrightarrow>
   MulAdd ple c d s coeff = Inr (unwords (row_add (T coeff) (words s) (words d)))"
  by (simp add: MulAdd_def MulAndAddByteSliceLE_eq row_add_def)

lemma Mul_eq:
  "even (length s) \<Longrightarrow> length d = length s \<Longrightarrow>
   Mul ple c d s coeff = Inr (unwords (map ((*) (T coeff)) (words s)))"
  by (simp add: Mul_def MulByteSliceLE_eq)

text \<open>One operation: \<open>step_ok n sc rows op r\<close> says that \<open>r\<close> is a result that the specification allows.\<close>

definition step_ok ::
  "nat \<Rightarrow> byte list list \<Rightarrow> Operation \<Rightarrow> (byte list \<times> byte list list) res \<Rightarrow> bool" where
  "step_ok n rows op r \<longleftrightarrow> (\<exists>sc' rows'. r = Inr (sc', rows') \<and> length sc' = n \<and> rows_ok n rows'
     \<and> length rows' = length rows \<and> map words rows' = op_words op (map words rows))"

lemma step_okI:
  "length sc' = n \<Longrightarrow> rows_ok n rows' \<Longrightarrow> length rows' = length rows \<Longrightarrow>
   map words rows' = op_words op (map words rows) \<Longrightarrow> step_ok n rows op (Inr (sc', rows'))"
  by (auto simp: step_ok_def)

text \<open>What every case assumes: rows of one even length, a scratch row, and a destination in range.\<close>

definition op_ready :: "nat \<Rightarrow> byte list list \<Rightarrow> Operation \<Rightarrow> byte list \<Rightarrow> bool" where
  "op_ready n rows op sc \<longleftrightarrow> rows_ok n rows \<and> op_dst op < length rows \<and> length sc = n"

lemma op_readyD:
  assumes "op_ready n rows op sc"
  shows "rows_ok n rows" "op_dst op < length rows" "length sc = n" "even n"
    and "i < length rows \<Longrightarrow> length (rows ! i) = n"
  using assms by (auto simp: op_ready_def rows_ok_def)

lemma step_add:
  assumes "op_ready n rows op sc" "Kind op = OpAdd" "op_src op < length rows"
  shows "step_ok n rows op (run_op ple c op (sc, rows))"
proof -
  note ready = op_readyD [OF assms(1)]
  have spec: "op_words op (map words rows)
      = (map words rows)[op_dst op := row_add (T (Coeff op)) (words (rows ! op_src op)) (words (rows ! op_dst op))]"
    using assms(2-) ready by (simp add: op_words_def)
  consider "Coeff op = 1" | "Coeff op = 0" | "Coeff op \<noteq> 0" "Coeff op \<noteq> 1" by blast
  then show ?thesis
  proof cases
    case 1
    then show ?thesis
      using assms(2-) ready
      by (auto simp: run_op_def XORBytes_eq spec map_update unwords_xor_words one_T_def
          intro!: step_okI rows_ok_update)
  next
    case 2
    have "row_add 0 (words (rows ! op_src op)) (words (rows ! op_dst op)) = map words rows ! op_dst op"
      using assms(2-) ready by simp
    then have "op_words op (map words rows) = map words rows"
      unfolding spec 2 by (simp add: zero_T_def [symmetric])
    then show ?thesis
      using assms(2-) 2 ready by (auto simp: run_op_def op_kinds intro!: step_okI)
  next
    case 3
    then show ?thesis
      using assms(2-) ready
      by (auto simp: run_op_def MulAdd_eq spec map_update intro!: step_okI rows_ok_update)
  qed
qed

lemma step_scale:
  assumes "op_ready n rows op sc" "Kind op = OpScale" "op_src op < length rows"
  shows "step_ok n rows op (run_op ple c op (sc, rows))"
proof -
  note ready = op_readyD [OF assms(1)]
  have "op_words op (map words rows)
      = (map words rows)[op_dst op := map ((*) (T (Coeff op))) (words (rows ! op_src op))]"
    using assms(2-) ready by (simp add: op_words_def op_kinds Let_def)
  then show ?thesis
    using assms(2-) ready
    by (auto simp: run_op_def Mul_eq map_update go_copy_def op_kinds intro!: step_okI rows_ok_update)
qed

lemma step_clear:
  assumes "op_ready n rows op sc" "Kind op = OpClear"
  shows "step_ok n rows op (run_op ple c op (sc, rows))"
proof -
  note ready = op_readyD [OF assms(1)]
  have "op_words op (map words rows)
      = (map words rows)[op_dst op := map (\<lambda>_. 0) (words (rows ! op_dst op))]"
    using assms(2-) ready by (simp add: op_words_def op_kinds Let_def)
  then show ?thesis
    using assms(2-) ready
    by (auto simp: run_op_def map_update op_kinds words_zero map_replicate_const
        intro!: step_okI rows_ok_update)
qed

lemma row_add_butterfly:
  "length s = length d \<Longrightarrow> row_add 1 (row_add c s d) s = row_add (c + 1) s d"
  by (rule nth_equalityI) (auto simp: distrib_right ac_simps)

lemma step_butterfly:
  assumes "op_ready n rows op sc" "Kind op = OpButterfly" "op_src op < length rows" "op_dst op \<noteq> op_src op"
  shows "step_ok n rows op (run_op ple c op (sc, rows))"
proof -
  note ready = op_readyD [OF assms(1)]
  let ?d = "words (rows ! op_dst op)" and ?s = "words (rows ! op_src op)" and ?c = "T (Coeff op)"
  have spec: "op_words op (map words rows)
      = (map words rows)[op_dst op := row_add ?c ?s ?d, op_src op := row_add (?c + 1) ?s ?d]"
    using assms(2-) ready by (simp add: op_words_def op_kinds Let_def)
  show ?thesis
    using assms(2-) ready
    by (auto simp: run_op_def MulAdd_eq XORBytes_eq spec map_update op_kinds unwords_xor_words
        row_add_butterfly intro!: step_okI rows_ok_update)
qed

lemma step_inverse_butterfly:
  assumes "op_ready n rows op sc" "Kind op = OpInverseButterfly" "op_src op < length rows" "op_dst op \<noteq> op_src op"
  shows "step_ok n rows op (run_op ple c op (sc, rows))"
proof -
  note ready = op_readyD [OF assms(1)]
  let ?d = "words (rows ! op_dst op)" and ?s = "words (rows ! op_src op)" and ?c = "T (Coeff op)"
  have spec: "op_words op (map words rows)
      = (map words rows)[op_src op := row_add 1 ?d ?s, op_dst op := row_add ?c (row_add 1 ?d ?s) ?d]"
    using assms(2-) ready by (simp add: op_words_def op_kinds Let_def)
  show ?thesis
    using assms(2-) ready
    by (auto simp: run_op_def MulAdd_eq XORBytes_eq spec map_update op_kinds unwords_xor_words
        intro!: step_okI rows_ok_update)
qed

section \<open>Batches\<close>

definition context_ok :: "Context \<Rightarrow> bool" where
  "context_ok c \<longleftrightarrow> 0 < sliceSize c \<and> even (sliceSize c) \<and> bufSize c = sliceSize c
     \<and> (case batchScratch c of None \<Rightarrow> True | Some b \<Rightarrow> length b = bufSize c)"

lemma NewContext_ok: "NewContext n = Inr c \<Longrightarrow> context_ok c \<and> sliceSize c = nat n"
proof -
  assume "NewContext n = Inr c"
  then have n: "0 < n" "n mod 2 = 0"
      and c: "c = \<lparr>batchScratch = None, sliceSize = nat n, bufSize = nat n\<rparr>"
    by (auto simp: NewContext_def checkSliceSize_def split: if_splits)
  from n(2) have "even n" by presburger
  with n(1) have "even (nat n)" by (simp add: even_nat_iff)
  with n c show ?thesis by (simp add: context_ok_def)
qed

definition bufset_ok :: "Context \<Rightarrow> BufferSet \<Rightarrow> bool" where
  "bufset_ok c s \<longleftrightarrow> context_ok c \<and> bs_open s \<and> bs_size s = bufSize c \<and> bs_method s = MethodName
     \<and> bs_count s = length (bs_rows s) \<and> rows_ok (bufSize c) (bs_rows s)"

lemma length_operationScratch: "context_ok c \<Longrightarrow> length (operationScratch c) = bufSize c"
  by (auto simp: context_ok_def operationScratch_def NewBuffer_def split: option.splits)

lemma op_error_None:
  assumes "op_error s op = None"
  shows "Kind op \<le> OpInverseButterfly" "op_dst op < bs_count s"
    "Kind op \<noteq> OpClear \<Longrightarrow> op_src op < bs_count s"
    "OpButterfly \<le> Kind op \<Longrightarrow> op_dst op \<noteq> op_src op"
proof -
  have "Dst op = Src op \<longleftrightarrow> op_dst op = op_src op"
    by (simp add: op_dst_def op_src_def word_unat_eq_iff)
  with assms show "Kind op \<le> OpInverseButterfly" "op_dst op < bs_count s"
    "Kind op \<noteq> OpClear \<Longrightarrow> op_src op < bs_count s"
    "OpButterfly \<le> Kind op \<Longrightarrow> op_dst op \<noteq> op_src op"
    by (auto simp: op_error_def split: if_splits)
qed

lemma run_op_refines:
  assumes "rows_ok n rows" "length sc = n" "bs_count s = length rows" "op_error s op = None"
  shows "step_ok n rows op (run_op ple c op (sc, rows))"
proof -
  have g: "Kind op \<le> OpInverseButterfly" "op_dst op < length rows"
      "Kind op = OpClear \<or> op_src op < length rows"
      "OpButterfly \<le> Kind op \<Longrightarrow> op_dst op \<noteq> op_src op"
    using op_error_None [OF assms(4)] assms(3) by auto
  then have r: "op_ready n rows op sc" using assms by (simp add: op_ready_def)
  have "unat (Kind op) \<le> 4" using g(1) by (simp add: op_kinds word_le_nat_alt)
  then have "unat (Kind op) \<in> {0, 1, 2, 3, 4}" by auto
  then have "Kind op \<in> {OpAdd, OpScale, OpClear, OpButterfly, OpInverseButterfly}"
    by (auto simp: op_kinds word_unat_eq_iff)
  then consider "Kind op = OpAdd" | "Kind op = OpScale" | "Kind op = OpClear"
    | "Kind op = OpButterfly" | "Kind op = OpInverseButterfly" by blast
  then show ?thesis
  proof cases
    case 1
    with g r show ?thesis by (intro step_add) (auto simp: op_kinds)
  next
    case 2
    with g r show ?thesis by (intro step_scale) (auto simp: op_kinds)
  next
    case 3
    with r show ?thesis by (intro step_clear)
  next
    case 4
    with g r show ?thesis by (intro step_butterfly) (auto simp: op_kinds)
  next
    case 5
    with g r show ?thesis by (intro step_inverse_butterfly) (auto simp: op_kinds)
  qed
qed

lemma run_ops_refine:
  assumes "rows_ok n rows" "length sc = n" "bs_count s = length rows" "ops_error s ops = None"
  shows "\<exists>sc' rows'. foldR (run_op ple c) ops (sc, rows) = Inr (sc', rows') \<and> length sc' = n
    \<and> rows_ok n rows' \<and> length rows' = length rows
    \<and> map words rows' = fold op_words ops (map words rows)"
  using assms
proof (induction ops arbitrary: sc rows)
  case Nil
  then show ?case by simp
next
  case (Cons op ops)
  have e: "op_error s op = None" "ops_error s ops = None"
    using Cons.prems(4) by (auto split: option.splits)
  obtain sc1 rows1 where 1: "run_op ple c op (sc, rows) = Inr (sc1, rows1)" "length sc1 = n"
      "rows_ok n rows1" "length rows1 = length rows" "map words rows1 = op_words op (map words rows)"
    using run_op_refines [OF Cons.prems(1-3) e(1), of ple c] unfolding step_ok_def by blast
  from Cons.IH [OF 1(3,2) _ e(2)] Cons.prems(3) 1 show ?case by auto
qed

lemma Apply_refines_spec:
  assumes "bufset_ok c s" "ops_error s ops = None"
  shows "\<exists>s' c'. Apply ple s (Some c) ops = Inr (s', Some c') \<and> bufset_ok c' s'
    \<and> bufSize c' = bufSize c \<and> bs_count s' = bs_count s
    \<and> map words (bs_rows s') = fold op_words ops (map words (bs_rows s))"
proof (cases "ops = []")
  case True
  with assms show ?thesis by (auto simp: Apply_def bufset_ok_def)
next
  case False
  have ok: "rows_ok (bufSize c) (bs_rows s)" "length (operationScratch c) = bufSize c"
      "bs_count s = length (bs_rows s)"
    using assms(1) by (auto simp: bufset_ok_def length_operationScratch)
  from run_ops_refine [OF ok assms(2)] obtain sc rows where
    "foldR (run_op ple c) ops (operationScratch c, bs_rows s) = Inr (sc, rows)"
    "length sc = bufSize c" "rows_ok (bufSize c) rows" "length rows = length (bs_rows s)"
    "map words rows = fold op_words ops (map words (bs_rows s))" by blast
  with False assms show ?thesis by (auto simp: Apply_def bufset_ok_def context_ok_def)
qed

section \<open>Butterflies\<close>

definition inverse_op :: "Operation \<Rightarrow> Operation" where
  "inverse_op op = op\<lparr>Kind := OpInverseButterfly\<rparr>"

lemma inverse_op_sel [simp]:
  "op_dst (inverse_op op) = op_dst op" "op_src (inverse_op op) = op_src op"
  "Coeff (inverse_op op) = Coeff op" "Kind (inverse_op op) = OpInverseButterfly"
  by (simp_all add: inverse_op_def op_dst_def op_src_def)

lemma ops_error_append: "ops_error s (xs @ ys) = (case ops_error s xs of None \<Rightarrow> ops_error s ys | Some e \<Rightarrow> Some e)"
  by (induction xs) (auto split: option.splits)

lemma ops_error_rev: "ops_error s (rev ops) = None \<longleftrightarrow> (\<forall>op\<in>set ops. op_error s op = None)"
  by (induction ops) (auto simp: ops_error_append split: option.splits)

lemma ops_error_None_iff: "ops_error s ops = None \<longleftrightarrow> (\<forall>op\<in>set ops. op_error s op = None)"
  using ops_error_rev [of s "rev ops"] by simp

lemma inverse_op_valid:
  "Kind op = OpButterfly \<Longrightarrow> op_error s op = None \<Longrightarrow> op_error s (inverse_op op) = None"
  by (auto simp: op_error_def op_kinds inverse_op_def op_dst_def op_src_def split: if_splits)

definition word_rows :: "nat \<Rightarrow> T list list \<Rightarrow> bool" where
  "word_rows n rows \<longleftrightarrow> (\<forall>r\<in>set rows. length r = n)"

lemma word_rows_nth: "word_rows n rows \<Longrightarrow> i < length rows \<Longrightarrow> length (rows ! i) = n"
  by (simp add: word_rows_def)

lemma word_rows_update: "word_rows n rows \<Longrightarrow> length r = n \<Longrightarrow> word_rows n (rows[i := r])"
  using set_update_subset_insert [of rows i r] by (auto simp: word_rows_def)

lemma butterfly_undo:
  assumes "Kind op = OpButterfly" "op_dst op < length rows" "op_src op < length rows"
    and "op_dst op \<noteq> op_src op" and "word_rows n rows"
  shows "op_words (inverse_op op) (op_words op rows) = rows"
    and "word_rows n (op_words op rows)" and "length (op_words op rows) = length rows"
proof -
  let ?i = "op_dst op" and ?j = "op_src op" and ?c = "T (Coeff op)"
  let ?d = "rows ! ?i" and ?s = "rows ! ?j"
  have l: "length ?d = n" "length ?s = n" using assms by (auto intro: word_rows_nth)
  have b: "op_words op rows = rows[?i := row_add ?c ?s ?d, ?j := row_add (?c + 1) ?s ?d]"
    using assms(1) by (simp add: op_words_def op_kinds Let_def)
  have s: "row_add 1 (row_add ?c ?s ?d) (row_add (?c + 1) ?s ?d) = ?s"
    using l by (intro nth_equalityI) (auto simp: distrib_right ac_simps)
  have d: "row_add ?c ?s (row_add ?c ?s ?d) = ?d"
    using l by (intro nth_equalityI) (auto simp: add.assoc)
  have "op_words (inverse_op op) (op_words op rows)
      = rows[?i := row_add ?c ?s ?d, ?j := row_add (?c + 1) ?s ?d, ?j := ?s, ?i := ?d]"
    using assms(2-4) unfolding b by (simp add: op_words_def op_kinds Let_def s d)
  also have "\<dots> = rows" using assms(4) by (simp add: list_update_swap [of ?j ?i])
  finally show "op_words (inverse_op op) (op_words op rows) = rows" .
  show "word_rows n (op_words op rows)" "length (op_words op rows) = length rows"
    unfolding b using assms(5) l by (simp_all add: word_rows_update)
qed

lemma butterflies_undo:
  assumes "\<forall>op\<in>set ops. Kind op = OpButterfly \<and> op_error s op = None" "bs_count s = length rows"
    and "word_rows n rows"
  shows "fold op_words (rev (map inverse_op ops)) (fold op_words ops rows) = rows"
  using assms(1) assms(2-)
proof (induction ops arbitrary: rows)
  case Nil
  then show ?case by simp
next
  case (Cons op ops)
  have g: "Kind op = OpButterfly" "op_dst op < length rows" "op_src op < length rows" "op_dst op \<noteq> op_src op"
    using Cons.prems(1,2) op_error_None [of s op] by (auto simp: op_kinds)
  from butterfly_undo [OF g Cons.prems(3)] Cons.IH [of "op_words op rows"] Cons.prems show ?case
    by simp
qed

section \<open>The interface of a backend\<close>

text \<open>
  The methods of a context that the coder uses, as a record of functions; \<open>pure_backend\<close> is the
  pure-Go context.
\<close>

record backend =
  be_bufSize :: nat
  be_stride :: nat
  be_newBuffer :: "byte list"
  be_prepare :: "byte list \<Rightarrow> byte list \<Rightarrow> byte list res"
  be_finish :: "byte list \<Rightarrow> byte list \<Rightarrow> byte list res"
  be_mulAddMulti :: "byte list \<Rightarrow> byte list list \<Rightarrow> nat \<Rightarrow> nat \<Rightarrow> u16 list \<Rightarrow> byte list res"

definition pure_methods :: "bool \<Rightarrow> Context \<Rightarrow> backend" where
  "pure_methods ple c = \<lparr>be_bufSize = bufSize c, be_stride = Stride, be_newBuffer = NewBuffer c,
     be_prepare = Prepare c, be_finish = Finish c, be_mulAddMulti = MulAddMulti ple c\<rparr>"

definition pure_backend :: "bool \<Rightarrow> nat \<Rightarrow> backend res" where
  "pure_backend ple n = bindR (NewContext (int n)) (\<lambda>c. Inr (pure_methods ple c))"

text \<open>
  What the coder relies on.  A prepared buffer holds the words of a slice in a layout of its own:
  \<open>val b k\<close> is word \<open>k\<close> of the buffer \<open>b\<close>, which lies in stride block \<open>blk k\<close>.  Multiplying and
  adding over a stride-aligned byte range changes the words of its blocks only.
\<close>

locale gf16_backend =
  fixes be :: backend and n :: nat and good :: "byte list \<Rightarrow> bool"
    and val :: "byte list \<Rightarrow> nat \<Rightarrow> T" and blk :: "nat \<Rightarrow> nat"
  assumes size_even: "0 < n" "even n"
    and stride_pos: "0 < be_stride be" and stride_dvd: "be_stride be dvd be_bufSize be"
    and bufSize_pos: "0 < be_bufSize be"
    and blk_less: "k < n div 2 \<Longrightarrow> be_stride be * blk k < be_bufSize be"
    and prepare_law: "0 < length src \<Longrightarrow> length src \<le> n \<Longrightarrow> even (length src) \<Longrightarrow>
      \<exists>b. be_prepare be (be_newBuffer be) src = Inr b \<and> good b
        \<and> (\<forall>k<n div 2. val b k = (if k < length src div 2 then words src ! k else 0))"
    and finish_law: "good b \<Longrightarrow> length out = n \<Longrightarrow>
      be_finish be b out = Inr (unwords (map (val b) [0..<n div 2]))"
    and mulAddMulti_law: "good d \<Longrightarrow> (\<And>b. b \<in> set srcs \<Longrightarrow> good b) \<Longrightarrow> length coeffs = length srcs \<Longrightarrow>
      be_stride be dvd off \<Longrightarrow> be_stride be dvd len \<Longrightarrow> off + len \<le> be_bufSize be \<Longrightarrow>
      \<exists>d'. be_mulAddMulti be d srcs off len coeffs = Inr d' \<and> good d'
        \<and> (\<forall>k<n div 2. val d' k = val d k
            + (if off \<le> be_stride be * blk k \<and> be_stride be * blk k < off + len
               then \<Sum>j<length srcs. T (coeffs ! j) * val (srcs ! j) k else 0))"
begin

text \<open>
  Folding one batch into an accumulator by ranges: the loop over \<open>(offset, length)\<close> units, in any
  order.  The word of block \<open>b\<close> gets the product of the batch once for every range that holds \<open>b\<close>.
\<close>

lemma mulAddMulti_ranges:
  assumes "good d" "\<And>b. b \<in> set srcs \<Longrightarrow> good b" "length coeffs = length srcs"
    and "\<And>off len. (off, len) \<in> set rs \<Longrightarrow>
      be_stride be dvd off \<and> be_stride be dvd len \<and> off + len \<le> be_bufSize be"
  shows "\<exists>d'. foldR (\<lambda>(off, len) d. be_mulAddMulti be d srcs off len coeffs) rs d = Inr d' \<and> good d'
    \<and> (\<forall>k<n div 2. val d' k = val d k
        + (\<Sum>(off, len)\<leftarrow>rs. if off \<le> be_stride be * blk k \<and> be_stride be * blk k < off + len
               then \<Sum>j<length srcs. T (coeffs ! j) * val (srcs ! j) k else 0))"
  using assms(1,4)
proof (induction rs arbitrary: d)
  case Nil
  then show ?case by simp
next
  case (Cons r rs)
  obtain off len where r: "r = (off, len)" by (cases r)
  have b: "be_stride be dvd off" "be_stride be dvd len" "off + len \<le> be_bufSize be"
    using Cons.prems(2) [of off len] r by auto
  obtain d1 where d1: "be_mulAddMulti be d srcs off len coeffs = Inr d1" "good d1"
      "\<forall>k<n div 2. val d1 k = val d k
        + (if off \<le> be_stride be * blk k \<and> be_stride be * blk k < off + len
           then \<Sum>j<length srcs. T (coeffs ! j) * val (srcs ! j) k else 0)"
    using mulAddMulti_law [OF Cons.prems(1) assms(2,3) b] by blast
  from Cons.IH [OF d1(2)] Cons.prems(2) obtain d2 where
    "foldR (\<lambda>(off, len) d. be_mulAddMulti be d srcs off len coeffs) rs d1 = Inr d2" "good d2"
    "\<forall>k<n div 2. val d2 k = val d1 k
        + (\<Sum>(off, len)\<leftarrow>rs. if off \<le> be_stride be * blk k \<and> be_stride be * blk k < off + len
               then \<Sum>j<length srcs. T (coeffs ! j) * val (srcs ! j) k else 0)" by auto
  with d1 show ?case by (simp add: r add.assoc)
qed

end

section \<open>The pure-Go backend\<close>

definition pure_context :: "nat \<Rightarrow> Context" where
  "pure_context n = \<lparr>batchScratch = None, sliceSize = n, bufSize = n\<rparr>"

lemma pure_backend_eq:
  "0 < n \<Longrightarrow> even n \<Longrightarrow> pure_backend ple n = Inr (pure_methods ple (pure_context n))"
  by (auto simp: pure_backend_def NewContext_def checkSliceSize_def pure_context_def)

lemma words_slice:
  "even a \<Longrightarrow> words (slice xs a b) = slice (words xs) (a div 2) (a div 2 + (b - a) div 2)"
proof (induction xs arbitrary: a b rule: words.induct)
  case (1 x y xs)
  show ?case
  proof (cases "a = 0")
    case True
    show ?thesis
    proof (cases "b < 2")
      case True
      then have "b = 0 \<or> b = 1" by auto
      with \<open>a = 0\<close> show ?thesis by (auto simp: slice_def)
    next
      case False
      then obtain d where "b = Suc (Suc d)" by (metis add_2_eq_Suc le_Suc_ex not_less)
      with "1.IH" [of 0 d] \<open>a = 0\<close> show ?thesis by (simp add: slice_def)
    qed
  next
    case False
    with "1.prems" obtain a' where a: "a = Suc (Suc a')" "even a'"
      by (metis even_Suc not0_implies_Suc even_zero)
    have "slice (x # y # xs) a b = slice xs a' (b - 2)" by (simp add: slice_def a)
    with "1.IH" [of a' "b - 2"] a show ?thesis by (simp add: slice_def)
  qed
qed (auto simp: slice_def take_Cons' drop_Cons')

lemma words_nth_slice:
  "even a \<Longrightarrow> 2 * k < b - a \<Longrightarrow> b \<le> length xs \<Longrightarrow> even b \<Longrightarrow>
   words (slice xs a b) ! k = words xs ! (a div 2 + k)"
proof -
  assume h: "even a" "2 * k < b - a" "b \<le> length xs" "even b"
  then obtain a' b' where ab: "a = 2 * a'" "b = 2 * b'" by (auto elim!: evenE)
  have "(2 * b' - 2 * a') div 2 = b' - a'" by simp
  with h show ?thesis unfolding ab by (subst words_slice) (auto simp: slice_def)
qed

text \<open>Writing a window of whole words.\<close>

lemma words_splice:
  assumes "even a" "even (length ys)" "a + length ys \<le> length xs" "k < length xs div 2"
  shows "words (splice xs a ys) ! k
    = (if a div 2 \<le> k \<and> k < a div 2 + length ys div 2 then words ys ! (k - a div 2) else words xs ! k)"
proof -
  have xs: "xs = take a xs @ slice xs a (a + length ys) @ drop (a + length ys) xs"
    unfolding slice_def by (metis append_take_drop_id drop_drop add.commute add_diff_cancel_left')
  have w: "words xs = words (take a xs) @ words (slice xs a (a + length ys)) @ words (drop (a + length ys) xs)"
    using assms by (subst xs) (simp add: words_append)
  have "words (splice xs a ys) = words (take a xs) @ words ys @ words (drop (a + length ys) xs)"
    using assms by (simp add: splice_def words_append)
  with assms show ?thesis unfolding w by (auto simp: nth_append)
qed

definition pure_val :: "byte list \<Rightarrow> nat \<Rightarrow> T" where
  "pure_val b k = words b ! k"

lemma MulAddMulti_words:
  assumes "length d = n" "even n" "\<And>s. s \<in> set srcs \<Longrightarrow> length s = n" "length coeffs = length srcs"
    and "even off" "even len" "off + len \<le> n"
  shows "\<exists>d'. MulAddMulti ple c d srcs off len coeffs = Inr d' \<and> length d' = n
    \<and> (\<forall>k<n div 2. words d' ! k = words d ! k
        + (if off \<le> 2 * k \<and> 2 * k < off + len then \<Sum>j<length srcs. T (coeffs ! j) * words (srcs ! j) ! k else 0))"
  using assms
proof (induction srcs arbitrary: d coeffs)
  case Nil
  then show ?case by (simp add: MulAddMulti_def)
next
  case (Cons s srcs)
  obtain q cs where cs: "coeffs = q # cs" "length cs = length srcs"
    using Cons.prems(4) by (cases coeffs) auto
  have s: "length s = n" using Cons.prems(3) by simp
  let ?sw = "slice s off (off + len)" and ?dw = "slice d off (off + len)"
  let ?r = "unwords (add_scaled (T q) (words ?sw) (words ?dw))"
  let ?d1 = "splice d off ?r"
  have len: "length ?sw = len" "length ?dw = len" using Cons.prems s by auto
  have lr: "length ?r = len" using len Cons.prems(6) by simp
  have d1: "length ?d1 = n" using lr Cons.prems by simp
  obtain d' where d': "MulAddMulti ple c ?d1 srcs off len cs = Inr d'" "length d' = n"
      "\<forall>k<n div 2. words d' ! k = words ?d1 ! k
        + (if off \<le> 2 * k \<and> 2 * k < off + len then \<Sum>j<length srcs. T (cs ! j) * words (srcs ! j) ! k else 0)"
    using Cons.IH [OF d1 Cons.prems(2) _ cs(2) Cons.prems(5-7)] Cons.prems(3) by auto
  have "MulAddMulti ple c d (s # srcs) off len coeffs = MulAddMulti ple c ?d1 srcs off len cs"
    using Cons.prems s cs len by (simp add: MulAddMulti_def MulAndAddByteSliceLE_eq)
  moreover have "words ?d1 ! k = words d ! k + (if off \<le> 2 * k \<and> 2 * k < off + len then T q * words s ! k else 0)"
    if k: "k < n div 2" for k
  proof -
    have split: "off div 2 \<le> k \<and> k < off div 2 + len div 2 \<longleftrightarrow> off \<le> 2 * k \<and> 2 * k < off + len"
      using Cons.prems(5,6) by (auto elim!: evenE)
    have "words ?d1 ! k = (if off div 2 \<le> k \<and> k < off div 2 + len div 2
        then add_scaled (T q) (words ?sw) (words ?dw) ! (k - off div 2) else words d ! k)"
      using words_splice [of off ?r d k] Cons.prems lr k by simp
    also have "\<dots> = words d ! k + (if off \<le> 2 * k \<and> 2 * k < off + len then T q * words s ! k else 0)"
      unfolding split [symmetric]
      using Cons.prems s len k by (auto simp: add_scaled_nth words_nth_slice)
    finally show ?thesis .
  qed
  ultimately show ?case
    using d' by (auto simp: cs(1) sum.lessThan_Suc_shift add.assoc simp del: sum.lessThan_Suc)
qed

lemma Prepare_words:
  assumes "0 < length src" "length src \<le> n" "even (length src)" "even n"
  shows "\<exists>b. Prepare (pure_context n) (NewBuffer (pure_context n)) src = Inr b \<and> length b = n
    \<and> (\<forall>k<n div 2. pure_val b k = (if k < length src div 2 then words src ! k else 0))"
proof -
  let ?b = "src @ replicate (n - length src) 0"
  have "Prepare (pure_context n) (NewBuffer (pure_context n)) src = Inr ?b"
    using assms by (simp add: Prepare_def pure_context_def NewBuffer_def go_copy_def Let_def)
  moreover have "words ?b = words src @ replicate ((n - length src) div 2) 0"
    using assms by (simp add: words_append words_zero)
  ultimately show ?thesis using assms by (auto simp: pure_val_def nth_append elim!: evenE)
qed

lemma pure_backend_laws:
  assumes "0 < n" "even n"
  shows "gf16_backend (pure_methods ple (pure_context n)) n (\<lambda>b. length b = n) pure_val id"
proof
  fix out b :: "byte list" assume b: "length b = n" "length out = n"
  then have "map (pure_val b) [0..<n div 2] = words b"
    by (intro nth_equalityI) (auto simp: pure_val_def)
  with b assms show "be_finish (pure_methods ple (pure_context n)) b out
      = Inr (unwords (map (pure_val b) [0..<n div 2]))"
    by (simp add: pure_methods_def Finish_def pure_context_def go_copy_def unwords_words)
next
  fix d :: "byte list" and srcs :: "byte list list" and coeffs :: "u16 list" and off len :: nat
  assume h: "length d = n" "\<And>b. b \<in> set srcs \<Longrightarrow> length b = n" "length coeffs = length srcs"
    "be_stride (pure_methods ple (pure_context n)) dvd off"
    "be_stride (pure_methods ple (pure_context n)) dvd len"
    "off + len \<le> be_bufSize (pure_methods ple (pure_context n))"
  then have "even off" "even len" "off + len \<le> n"
    by (simp_all add: pure_methods_def pure_context_def Stride_def)
  then have "\<exists>d'. MulAddMulti ple (pure_context n) d srcs off len coeffs = Inr d' \<and> length d' = n
    \<and> (\<forall>k<n div 2. words d' ! k = words d ! k
        + (if off \<le> 2 * k \<and> 2 * k < off + len then \<Sum>j<length srcs. T (coeffs ! j) * words (srcs ! j) ! k else 0))"
    using h(1-3) assms(2) by (intro MulAddMulti_words) auto
  then show "\<exists>d'. be_mulAddMulti (pure_methods ple (pure_context n)) d srcs off len coeffs = Inr d' \<and> length d' = n
    \<and> (\<forall>k<n div 2. pure_val d' k = pure_val d k
      + (if off \<le> be_stride (pure_methods ple (pure_context n)) * id k
            \<and> be_stride (pure_methods ple (pure_context n)) * id k < off + len
         then \<Sum>j<length srcs. T (coeffs ! j) * pure_val (srcs ! j) k else 0))"
    unfolding pure_methods_def Stride_def pure_val_def by (simp split del: if_split)
qed (use assms Prepare_words in \<open>auto simp: pure_methods_def pure_context_def Stride_def\<close>)

interpretation pure: gf16_backend "pure_methods ple (pure_context (2 * Suc h))" "2 * Suc h"
  "\<lambda>b. length b = 2 * Suc h" pure_val id for ple h
  by (rule pure_backend_laws) simp_all

section \<open>Properties\<close>

text \<open>
  C21: a batch that passes the checks of \<open>Apply\<close> runs to its end, keeps the layout of the set, and
  has on the rows, read as vectors of field elements, the effect that operations.go documents for
  its operations, one after the other.
\<close>

theorem Apply_refines_operations:
  assumes "bufset_ok c s" and "ops_error s ops = None"
  shows "\<exists>s' c'. Apply ple s (Some c) ops = Inr (s', Some c') \<and> bufset_ok c' s'
    \<and> map words (bs_rows s') = fold op_words ops (map words (bs_rows s))"
  using Apply_refines_spec [OF assms, of ple] by blast

definition sample_context :: Context where
  "sample_context = pure_context 2"

definition sample_set :: BufferSet where
  "sample_set = \<lparr>bs_count = 2, bs_size = 2, bs_rows = [[1, 2], [3, 4]], bs_method = MethodName, bs_open = True\<rparr>"

definition sample_op :: Operation where
  "sample_op = \<lparr>Dst = 0, Src = 1, Coeff = 5, Kind = OpButterfly\<rparr>"

lemma sample_ok: "bufset_ok sample_context sample_set" "ops_error sample_set [sample_op] = None"
  by (simp_all add: bufset_ok_def sample_context_def sample_set_def pure_context_def context_ok_def
      rows_ok_def op_error_def sample_op_def op_kinds op_dst_def op_src_def)

theorem Apply_refines_operations_witness:
  "\<exists>s' c'. Apply True sample_set (Some sample_context) [sample_op] = Inr (s', Some c') \<and> bufset_ok c' s'
    \<and> map words (bs_rows s') = fold op_words [sample_op] (map words (bs_rows sample_set))"
  by (rule Apply_refines_operations [OF sample_ok])

text \<open>
  The operations that operations.go documents, on a set of \<open>m\<close> buffers: one of the five kinds, the buffers it
  names exist (clearing has no source), and those of a butterfly are distinct.
\<close>

definition op_buffers :: "nat \<Rightarrow> Operation \<Rightarrow> bool" where
  "op_buffers m op \<longleftrightarrow> Kind op \<in> {OpAdd, OpScale, OpClear, OpButterfly, OpInverseButterfly} \<and>
     (\<forall>b \<in> (if Kind op = OpClear then {Dst op} else {Dst op, Src op}). unat b < m)"

definition op_documented :: "nat \<Rightarrow> Operation \<Rightarrow> bool" where
  "op_documented m op \<longleftrightarrow> op_buffers m op \<and> (Kind op \<in> {OpButterfly, OpInverseButterfly} \<longrightarrow> Dst op \<noteq> Src op)"

lemma kinds_upto: "\<not> OpInverseButterfly < k \<longleftrightarrow> k \<in> {OpAdd, OpScale, OpClear, OpButterfly, OpInverseButterfly}" for k :: u16
proof -
  have "k \<in> {OpAdd, OpScale, OpClear, OpButterfly, OpInverseButterfly} \<longleftrightarrow> unat k \<in> {0, 1, 2, 3, 4}"
    by (simp add: op_kinds word_unat_eq_iff)
  also have "\<dots> \<longleftrightarrow> unat k \<le> 4" by auto
  finally show ?thesis by (simp add: op_kinds word_less_nat_alt not_less)
qed

lemma op_error_documented:
  "op_error s op = (if op_documented (bs_count s) op then None
    else if op_buffers (bs_count s) op then Some (ErrorNew ''gf16: aliased butterfly'')
    else Some (ErrorNew ''gf16: invalid region operation''))"
proof -
  have b: "op_buffers (bs_count s) op \<longleftrightarrow> \<not> (OpInverseButterfly < Kind op \<or> bs_count s \<le> op_dst op \<or> (Kind op \<noteq> OpClear \<and> bs_count s \<le> op_src op))"
    unfolding op_buffers_def kinds_upto [symmetric] by (auto simp: op_dst_def op_src_def not_le)
  have "OpButterfly \<le> Kind op \<longleftrightarrow> Kind op \<in> {OpButterfly, OpInverseButterfly}" if "op_buffers (bs_count s) op"
    using that by (auto simp: op_buffers_def op_kinds word_le_nat_alt)
  then show ?thesis by (auto simp: op_error_def b op_documented_def)
qed

lemma ops_error_first:
  assumes "j < length ops" and "\<forall>i < j. op_error s (ops ! i) = None" and "op_error s (ops ! j) = Some e"
  shows "ops_error s ops = Some e"
  using assms
proof (induction ops arbitrary: j)
  case (Cons op ops)
  show ?case
  proof (cases j)
    case (Suc k)
    with Cons.prems have "op_error s op = None" "k < length ops" "\<forall>i < k. op_error s (ops ! i) = None" "op_error s (ops ! k) = Some e"
      by force+
    with Cons.IH show ?thesis by simp
  qed (use Cons.prems in simp)
qed simp

text \<open>
  C35: on an open set, with a context of its layout, \<open>Apply\<close> accepts exactly the batches of documented
  operations on the buffers the set really has, butterflies on two distinct ones.  Of any other batch the
  first operation that is not documented decides the error: an aliased butterfly if only the two
  buffers coincide, else an invalid operation.  So every batch has one of these outcomes, and none panics.
\<close>

theorem Apply_outcome:
  assumes "bufset_ok c s"
  shows "((\<exists>s' c'. Apply ple s (Some c) ops = Inr (s', Some c')) \<longleftrightarrow> (\<forall>op \<in> set ops. op_documented (length (bs_rows s)) op)) \<and>
    (\<forall>j < length ops. (\<forall>i < j. op_documented (length (bs_rows s)) (ops ! i)) \<and> \<not> op_documented (length (bs_rows s)) (ops ! j) \<longrightarrow>
       Apply ple s (Some c) ops = Inl (ErrorNew (if op_buffers (length (bs_rows s)) (ops ! j)
         then ''gf16: aliased butterfly'' else ''gf16: invalid region operation'')))"
proof (intro conjI allI impI)
  have m: "bs_count s = length (bs_rows s)" using assms by (simp add: bufset_ok_def)
  have err: "Apply ple s (Some c) ops = Inl e" if "ops_error s ops = Some e" for e
    using assms that by (auto simp: Apply_def bufset_ok_def context_ok_def)
  have "ops_error s ops = None \<longleftrightarrow> (\<forall>op \<in> set ops. op_documented (length (bs_rows s)) op)"
    unfolding ops_error_None_iff op_error_documented m by auto
  then show "(\<exists>s' c'. Apply ple s (Some c) ops = Inr (s', Some c')) \<longleftrightarrow> (\<forall>op \<in> set ops. op_documented (length (bs_rows s)) op)"
    using Apply_refines_spec [OF assms, of ops ple] err by (cases "ops_error s ops") auto
  fix j assume "j < length ops" and "(\<forall>i < j. op_documented (length (bs_rows s)) (ops ! i)) \<and> \<not> op_documented (length (bs_rows s)) (ops ! j)"
  then have "ops_error s ops = Some (ErrorNew (if op_buffers (length (bs_rows s)) (ops ! j)
      then ''gf16: aliased butterfly'' else ''gf16: invalid region operation''))"
    by (intro ops_error_first) (auto simp: op_error_documented m)
  then show "Apply ple s (Some c) ops = Inl (ErrorNew (if op_buffers (length (bs_rows s)) (ops ! j)
      then ''gf16: aliased butterfly'' else ''gf16: invalid region operation''))" by (rule err)
qed

text \<open>Two buffers: the second operation is a butterfly of buffer 1 with itself.\<close>

theorem Apply_outcome_witness:
  "Apply True sample_set (Some sample_context) [sample_op, sample_op\<lparr>Dst := 1\<rparr>] = Inl (ErrorNew ''gf16: aliased butterfly'') \<and>
   (\<exists>s' c'. Apply True sample_set (Some sample_context) [sample_op] = Inr (s', Some c'))"
proof -
  have doc: "op_documented 2 sample_op" "op_buffers 2 (sample_op\<lparr>Dst := 1\<rparr>)" "\<not> op_documented 2 (sample_op\<lparr>Dst := 1\<rparr>)"
    by (simp_all add: op_documented_def op_buffers_def sample_op_def op_kinds)
  have m: "length (bs_rows sample_set) = 2" by (simp add: sample_set_def)
  from Apply_outcome [OF sample_ok(1), of True "[sample_op, sample_op\<lparr>Dst := 1\<rparr>]"]
  have "Apply True sample_set (Some sample_context) [sample_op, sample_op\<lparr>Dst := 1\<rparr>] = Inl (ErrorNew ''gf16: aliased butterfly'')"
    by (elim conjE allE [of _ 1]) (simp add: m doc)
  moreover from Apply_outcome [OF sample_ok(1), of True "[sample_op]"]
  have "\<exists>s' c'. Apply True sample_set (Some sample_context) [sample_op] = Inr (s', Some c')" by (simp add: m doc)
  ultimately show ?thesis ..
qed

text \<open>
  C36: the inverse butterflies, applied in the reverse order, undo a batch of butterflies: the rows
  are byte for byte those before.
\<close>

theorem butterflies_undone:
  assumes "bufset_ok c s" and "\<forall>op\<in>set ops. Kind op = OpButterfly" and "ops_error s ops = None"
  shows "\<exists>s' c' s'' c''. Apply ple s (Some c) ops = Inr (s', Some c')
    \<and> Apply ple s' (Some c') (rev (map inverse_op ops)) = Inr (s'', Some c'')
    \<and> bs_rows s'' = bs_rows s"
proof -
  obtain s' c' where 1: "Apply ple s (Some c) ops = Inr (s', Some c')" "bufset_ok c' s'"
      "bufSize c' = bufSize c" "bs_count s' = bs_count s"
      "map words (bs_rows s') = fold op_words ops (map words (bs_rows s))"
    using Apply_refines_spec [OF assms(1,3), of ple] by blast
  have "op_error s' op = op_error s op" for op using 1(4) by (simp add: op_error_def)
  then have "ops_error s' (rev (map inverse_op ops)) = None"
    using assms(2,3) by (auto simp: ops_error_None_iff inverse_op_valid)
  from Apply_refines_spec [OF 1(2) this, of ple] obtain s'' c'' where
    2: "Apply ple s' (Some c') (rev (map inverse_op ops)) = Inr (s'', Some c'')" "bufset_ok c'' s''"
      "bufSize c'' = bufSize c'"
      "map words (bs_rows s'') = fold op_words (rev (map inverse_op ops)) (map words (bs_rows s'))"
    by blast
  have "fold op_words (rev (map inverse_op ops)) (map words (bs_rows s')) = map words (bs_rows s)"
    unfolding 1(5)
    by (rule butterflies_undo [where s = s and n = "bufSize c div 2"])
       (use assms in \<open>auto simp: ops_error_None_iff bufset_ok_def rows_ok_def word_rows_def\<close>)
  then have "map words (bs_rows s'') = map words (bs_rows s)" using 2(4) by simp
  then have "map (unwords \<circ> words) (bs_rows s'') = map (unwords \<circ> words) (bs_rows s)"
    by (metis map_map)
  moreover have "map (unwords \<circ> words) (bs_rows x) = bs_rows x" if "bufset_ok d x" for d x
    using that by (intro map_idI) (auto simp: bufset_ok_def rows_ok_def unwords_words)
  ultimately have "bs_rows s'' = bs_rows s" using 2(2) assms(1) by metis
  with 1(1) 2(1) show ?thesis by blast
qed

theorem butterflies_undone_witness:
  "\<exists>s' c' s'' c''. Apply False sample_set (Some sample_context) [sample_op] = Inr (s', Some c')
    \<and> Apply False s' (Some c') (rev (map inverse_op [sample_op])) = Inr (s'', Some c'')
    \<and> bs_rows s'' = bs_rows sample_set"
  by (rule butterflies_undone [OF sample_ok(1) _ sample_ok(2)]) (simp add: sample_op_def)

end
