(* ===== verification/ApplyMatrix.thy ===== *)
theory ApplyMatrix
  imports Matrix16 Gf16 "HOL-Library.Multiset"
begin

text \<open>
  Applying a matrix to rows of byte slices (src/rsec16/matrix.go, apply_gf16.go): the serial loop,
  the split of the work between goroutines, and the version that runs on a gf16 backend.
  A goroutine is a step on the output rows; the order in which the goroutines (or the work units)
  run is an argument, and the theorems hold for every order.
\<close>

section \<open>The serial loop\<close>

definition applyMatrixRow ::
  "bool \<Rightarrow> matrix \<Rightarrow> byte list list \<Rightarrow> nat \<Rightarrow> nat \<Rightarrow> nat \<Rightarrow> byte list \<Rightarrow> byte list res" where
  "applyMatrixRow ple m inp dataStart dataEnd i outSlice =
     bindR (At m i 0) (\<lambda>c.
     bindR (index_at inp 0) (\<lambda>in0.
     bindR (slice_at in0 dataStart dataEnd) (\<lambda>inSlice.
     bindR (MulByteSliceLE ple c inSlice outSlice) (\<lambda>acc.
     foldR (\<lambda>j acc.
       bindR (At m i j) (\<lambda>c.
       bindR (index_at inp j) (\<lambda>inJ.
       bindR (slice_at inJ dataStart dataEnd) (\<lambda>inSlice.
       MulAndAddByteSliceLE ple c inSlice acc))))
     [1..<length inp] acc))))"

definition applyMatrixSlice ::
  "bool \<Rightarrow> matrix \<Rightarrow> byte list list \<Rightarrow> nat \<Rightarrow> nat \<Rightarrow> nat \<Rightarrow> nat \<Rightarrow> byte list list \<Rightarrow> byte list list res" where
  "applyMatrixSlice ple m inp outStart outEnd dataStart dataEnd out =
     foldR (\<lambda>i out.
       bindR (index_at out i) (\<lambda>outI.
       bindR (slice_at outI dataStart dataEnd) (\<lambda>outSlice.
       bindR (applyMatrixRow ple m inp dataStart dataEnd i outSlice) (\<lambda>r.
       Inr (out[i := splice outI dataStart r])))))
     [outStart..<outEnd] out"

text \<open>The check shared by the entry points: \<open>len(in[0]) != len(out[0])\<close>.\<close>

definition check_lengths :: "byte list list \<Rightarrow> byte list list \<Rightarrow> nat res" where
  "check_lengths inp out =
     bindR (index_at inp 0) (\<lambda>i0. bindR (index_at out 0) (\<lambda>o0.
     bindR (check (length i0 = length o0) (Panic ''mismatched lengths'')) (\<lambda>_. Inr (length i0))))"

definition applyMatrixSingle :: "bool \<Rightarrow> matrix \<Rightarrow> byte list list \<Rightarrow> byte list list \<Rightarrow> byte list list res" where
  "applyMatrixSingle ple m inp out =
     bindR (check_lengths inp out) (\<lambda>n. applyMatrixSlice ple m inp 0 (length out) 0 n out)"

section \<open>Splitting the work\<close>

text \<open>\<open>x / y\<close> and \<open>x % y\<close> panic for \<open>y = 0\<close>; the operands are non-negative.\<close>

definition go_div :: "nat \<Rightarrow> nat \<Rightarrow> nat res" where
  "go_div x y = (if y = 0 then Inl (Panic ''integer divide by zero'') else Inr (x div y))"

definition go_mod :: "nat \<Rightarrow> nat \<Rightarrow> nat res" where
  "go_mod x y = (if y = 0 then Inl (Panic ''integer divide by zero'') else Inr (x mod y))"

definition calculateParallelParams :: "nat \<Rightarrow> nat \<Rightarrow> nat \<Rightarrow> nat \<Rightarrow> (nat \<times> nat) res" where
  "calculateParallelParams totalLength numGoroutines minPer divisor =
     bindR (go_div (totalLength + numGoroutines - 1) numGoroutines) (\<lambda>per0.
     let per1 = (if per0 < minPer then minPer else per0) in
     bindR (go_mod per1 divisor) (\<lambda>rem.
     let per = (if rem \<noteq> 0 then per1 + (divisor - rem) else per1) in
     bindR (go_div (totalLength + per - 1) per) (\<lambda>num. Inr (per, num))))"

text \<open>The range of goroutine \<open>i\<close>.\<close>

definition go_start :: "nat \<Rightarrow> nat \<Rightarrow> nat" where
  "go_start per i = i * per"

definition go_end :: "nat \<Rightarrow> nat \<Rightarrow> nat \<Rightarrow> nat" where
  "go_end tot per i = (let e = go_start per i + per in if e > tot then tot else e)"

definition applyMatrixParallelOut ::
  "bool \<Rightarrow> nat list \<Rightarrow> matrix \<Rightarrow> byte list list \<Rightarrow> nat \<Rightarrow> byte list list \<Rightarrow> byte list list res" where
  "applyMatrixParallelOut ple ord m inp numGoroutines out =
     bindR (check_lengths inp out) (\<lambda>n.
     bindR (check (1 \<le> numGoroutines) (Panic ''invalid numGoroutines value'')) (\<lambda>_.
     bindR (calculateParallelParams (length out) numGoroutines 1 1) (\<lambda>(per, num).
     if num < 2 then applyMatrixSingle ple m inp out
     else foldR (\<lambda>i. applyMatrixSlice ple m inp (go_start per i) (go_end (length out) per i) 0 n) ord out)))"

definition applyMatrixParallelData ::
  "bool \<Rightarrow> nat list \<Rightarrow> matrix \<Rightarrow> byte list list \<Rightarrow> nat \<Rightarrow> byte list list \<Rightarrow> byte list list res" where
  "applyMatrixParallelData ple ord m inp numGoroutines out =
     bindR (check_lengths inp out) (\<lambda>n.
     bindR (check (1 \<le> numGoroutines) (Panic ''invalid numGoroutines value'')) (\<lambda>_.
     bindR (calculateParallelParams n numGoroutines 16 16) (\<lambda>(per, num).
     if num < 2 then applyMatrixSingle ple m inp out
     else foldR (\<lambda>i. applyMatrixSlice ple m inp 0 (length out) (go_start per i) (go_end n per i)) ord out)))"

text \<open>How many goroutines run: \<open>ord\<close> is a schedule of them.\<close>

definition num_goroutines :: "nat \<Rightarrow> nat \<Rightarrow> nat \<Rightarrow> nat \<Rightarrow> nat" where
  "num_goroutines tot g minPer divisor =
     (case calculateParallelParams tot g minPer divisor of Inr (per, num) \<Rightarrow> num | Inl _ \<Rightarrow> 0)"

section \<open>The ranges cover the work\<close>

lemma div_round_up_bound: "0 < (p :: nat) \<Longrightarrow> t \<le> p * ((t + p - 1) div p)"
proof -
  assume p: "0 < p"
  have "(t + p - 1) div p * p + (t + p - 1) mod p = t + p - 1" by (rule div_mult_mod_eq)
  moreover have "(t + p - 1) mod p \<le> p - 1" using p by (simp add: Suc_leI less_Suc_eq_le [symmetric])
  ultimately have "t + p - 1 \<le> (t + p - 1) div p * p + (p - 1)" by linarith
  with p show ?thesis by (simp add: mult.commute)
qed

lemma div_round_up_less: "0 < (p :: nat) \<Longrightarrow> i < (t + p - 1) div p \<Longrightarrow> i * p < t"
proof -
  assume p: "0 < p" and "i < (t + p - 1) div p"
  then have "Suc i \<le> (t + p - 1) div p" by simp
  then have "Suc i * p \<le> t + p - 1" using p by (simp only: less_eq_div_iff_mult_less_eq)
  with p show ?thesis by simp
qed

definition round_up :: "nat \<Rightarrow> nat \<Rightarrow> nat" where
  "round_up x d = (if x mod d \<noteq> 0 then x + (d - x mod d) else x)"

lemma round_up_dvd: "0 < d \<Longrightarrow> d dvd round_up x d"
proof -
  assume d: "0 < d"
  have "x + (d - x mod d) = d * (x div d) + d"
    using d mult_div_mod_eq [of d x] mod_less_divisor [OF d, of x] by linarith
  then have "d dvd x + (d - x mod d)" by simp
  then show ?thesis by (auto simp: round_up_def dvd_eq_mod_eq_0)
qed

lemma round_up_ge: "x \<le> round_up x d"
  by (simp add: round_up_def)

lemma calculateParallelParams_eq:
  assumes "0 < g" "0 < divisor" "0 < minPer"
  shows "\<exists>per num. calculateParallelParams tot g minPer divisor = Inr (per, num)
    \<and> 0 < per \<and> divisor dvd per \<and> minPer \<le> per \<and> num = (tot + per - 1) div per \<and> num \<le> g"
proof -
  define p0 where "p0 = (tot + g - 1) div g"
  define p1 where "p1 = (if p0 < minPer then minPer else p0)"
  define per where "per = round_up p1 divisor"
  have "minPer \<le> p1" "p0 \<le> p1" by (simp_all add: p1_def)
  then have p: "minPer \<le> per" "p0 \<le> per"
    using round_up_ge [of p1 divisor] unfolding per_def by linarith+
  with assms(3) have pos: "0 < per" by linarith
  have "tot \<le> g * p0" unfolding p0_def by (rule div_round_up_bound) (fact assms(1))
  also have "\<dots> \<le> g * per" using p(2) by (rule mult_le_mono2)
  finally have t: "tot \<le> g * per" .
  have "(tot + per - 1) div per \<le> g"
  proof (rule ccontr)
    assume "\<not> ?thesis"
    then have "g * per < tot" using div_round_up_less [OF pos] by simp
    with t show False by simp
  qed
  moreover have "calculateParallelParams tot g minPer divisor = Inr (per, (tot + per - 1) div per)"
  proof -
    have a: "go_div (tot + g - 1) g = Inr p0" using assms(1) by (simp add: go_div_def p0_def)
    have b: "go_mod p1 divisor = Inr (p1 mod divisor)" using assms(2) by (simp add: go_mod_def)
    have c: "(if p1 mod divisor \<noteq> 0 then p1 + (divisor - p1 mod divisor) else p1) = per"
      unfolding per_def round_up_def ..
    have d: "go_div (tot + per - 1) per = Inr ((tot + per - 1) div per)"
      using pos by (simp add: go_div_def)
    show ?thesis
      unfolding calculateParallelParams_def a bindR_simps p1_def [symmetric] Let_def b c d ..
  qed
  moreover have "divisor dvd per" unfolding per_def by (rule round_up_dvd) (fact assms(2))
  ultimately show ?thesis using p pos by blast
qed

text \<open>Position \<open>p\<close> of the work lies in the range of goroutine \<open>p div per\<close>, and in no other.\<close>

lemma range_cover:
  assumes "0 < per" "p < tot"
  shows "p div per < (tot + per - 1) div per"
    and "go_start per i \<le> p \<and> p < go_end tot per i \<longleftrightarrow> i = p div per"
proof -
  have "\<not> (tot + per - 1) div per \<le> p div per"
  proof
    assume "(tot + per - 1) div per \<le> p div per"
    then have "per * ((tot + per - 1) div per) \<le> per * (p div per)" by (rule mult_le_mono2)
    also have "\<dots> \<le> p" by simp
    finally show False using div_round_up_bound [OF assms(1), of tot] assms(2) by simp
  qed
  then show "p div per < (tot + per - 1) div per" by simp
  have "go_start per i \<le> p \<and> p < go_end tot per i \<longleftrightarrow> i * per \<le> p \<and> p < i * per + per"
    using assms by (auto simp: go_start_def go_end_def Let_def)
  also have "\<dots> \<longleftrightarrow> i = p div per"
    using assms(1) by (metis add.commute div_nat_eqI dividend_less_times_div div_times_less_eq_dividend mult.commute mult_Suc_right)
  finally show "go_start per i \<le> p \<and> p < go_end tot per i \<longleftrightarrow> i = p div per" .
qed

section \<open>What one row gets\<close>

text \<open>Word \<open>k\<close> of row \<open>i\<close> of the product of the matrix with the input rows.\<close>

definition mrow :: "matrix \<Rightarrow> byte list list \<Rightarrow> nat \<Rightarrow> nat \<Rightarrow> T" where
  "mrow m inp i k = (\<Sum>j<length inp. el m i j * words (inp ! j) ! k)"

text \<open>The part of the product that the \<open>c\<close> inputs from \<open>base\<close> on contribute.\<close>

definition mrow_part :: "matrix \<Rightarrow> byte list list \<Rightarrow> nat \<Rightarrow> nat \<Rightarrow> nat \<Rightarrow> nat \<Rightarrow> T" where
  "mrow_part m inp base c i k = (\<Sum>j<c. el m i (base + j) * words (inp ! (base + j)) ! k)"

lemma mrow_part_all: "mrow_part m inp 0 (length inp) i k = mrow m inp i k"
  by (simp add: mrow_part_def mrow_def)

lemma mrow_part_add:
  "mrow_part m inp base a i k + mrow_part m inp (base + a) c i k = mrow_part m inp base (a + c) i k"
  unfolding mrow_part_def by (induction c) (auto simp: ac_simps)

definition apply_spec :: "matrix \<Rightarrow> byte list list \<Rightarrow> nat \<Rightarrow> nat \<Rightarrow> byte list list" where
  "apply_spec m inp r n = map (\<lambda>i. unwords (map (mrow m inp i) [0..<n div 2])) [0..<r]"

definition apply_ok :: "matrix \<Rightarrow> byte list list \<Rightarrow> nat \<Rightarrow> byte list list \<Rightarrow> bool" where
  "apply_ok m inp n out \<longleftrightarrow> wf_matrix m \<and> inp \<noteq> [] \<and> out \<noteq> [] \<and> length inp \<le> m_columns m
     \<and> length out \<le> m_rows m \<and> even n \<and> (\<forall>r\<in>set inp. length r = n) \<and> (\<forall>r\<in>set out. length r = n)"

lemma applyMatrixRow_eq:
  assumes ok: "wf_matrix m" "i < m_rows m" "inp \<noteq> []" "length inp \<le> m_columns m"
      "\<forall>r\<in>set inp. length r = n"
    and rng: "ds \<le> de" "de \<le> n" "even ds" "even de" "length outSlice = de - ds"
  shows "applyMatrixRow ple m inp ds de i outSlice
    = Inr (unwords (map (\<lambda>k. mrow m inp i (ds div 2 + k)) [0..<(de - ds) div 2]))"
proof -
  let ?s = "\<lambda>j. slice (inp ! j) ds de"
  let ?ps = "map (\<lambda>j. (el m i j, ?s j)) [1..<length inp]"
  have n: "length (inp ! j) = n" if "j < length inp" for j using ok(5) that by simp
  have len: "length (?s j) = length outSlice" if "j < length inp" for j using n [OF that] rng by simp
  have "applyMatrixRow ple m inp ds de i outSlice
      = bindR (MulByteSliceLE ple (el m i 0) (?s 0) outSlice) (\<lambda>acc.
        foldR (\<lambda>j acc. MulAndAddByteSliceLE ple (el m i j) (?s j) acc) [1..<length inp] acc)"
  proof -
    have c: "At m i 0 = Inr (el m i 0)" "0 < length inp"
      using ok by (auto simp: wf_matrix_def intro!: At_eq)
    have f: "foldR (\<lambda>j acc. bindR (At m i j) (\<lambda>c. bindR (index_at inp j) (\<lambda>inJ.
          bindR (slice_at inJ ds de) (\<lambda>inSlice. MulAndAddByteSliceLE ple c inSlice acc)))) [1..<length inp]
      = foldR (\<lambda>j acc. MulAndAddByteSliceLE ple (el m i j) (?s j) acc) [1..<length inp]"
      using ok rng n by (intro ext foldR_cong) auto
    show ?thesis unfolding applyMatrixRow_def f using rng n by (simp add: c ok(3))
  qed
  also have "\<dots> = bindR (MulByteSliceLE ple (el m i 0) (?s 0) outSlice)
        (foldR (\<lambda>(c, x) acc. MulAndAddByteSliceLE ple c x acc) ?ps)"
    by (simp add: foldR_map [THEN ext])
  also have "\<dots> = Inr (unwords (map (\<lambda>k. \<Sum>(c, x)\<leftarrow>(el m i 0, ?s 0) # ?ps. c * words x ! k)
        [0..<length outSlice div 2]))"
    using ok rng len by (intro region.mul_then_muladds) (auto simp: image_iff)
  also have "map (\<lambda>k. \<Sum>(c, x)\<leftarrow>(el m i 0, ?s 0) # ?ps. c * words x ! k) [0..<length outSlice div 2]
      = map (\<lambda>k. mrow m inp i (ds div 2 + k)) [0..<(de - ds) div 2]"
  proof (rule map_cong)
    show "[0..<length outSlice div 2] = [0..<(de - ds) div 2]" using rng by simp
    fix k assume "k \<in> set [0..<(de - ds) div 2]"
    then have k: "2 * k < de - ds" using rng by (auto elim!: evenE)
    have l: "(el m i 0, ?s 0) # ?ps = map (\<lambda>j. (el m i j, ?s j)) [0..<length inp]"
      using ok(3) by (simp add: upt_conv_Cons)
    have "(\<Sum>(c, x)\<leftarrow>(el m i 0, ?s 0) # ?ps. c * words x ! k) = (\<Sum>j<length inp. el m i j * words (?s j) ! k)"
      unfolding l by (simp add: interv_sum_list_conv_sum_set_nat atLeast0LessThan o_def)
    also have "\<dots> = mrow m inp i (ds div 2 + k)"
      unfolding mrow_def using n rng k by (intro sum.cong) (auto simp: words_nth_slice)
    finally show "(\<Sum>(c, x)\<leftarrow>(el m i 0, ?s 0) # ?ps. c * words x ! k) = mrow m inp i (ds div 2 + k)" .
  qed
  finally show ?thesis .
qed

section \<open>Filling the output\<close>

text \<open>
  \<open>filled m inp n D out0 out\<close>: the words at the positions of \<open>D\<close> (row, word) are those of the
  product, the others are still those of \<open>out0\<close>.
\<close>

definition filled ::
  "matrix \<Rightarrow> byte list list \<Rightarrow> nat \<Rightarrow> (nat \<Rightarrow> nat \<Rightarrow> bool) \<Rightarrow> byte list list \<Rightarrow> byte list list \<Rightarrow> bool" where
  "filled m inp n D out0 out \<longleftrightarrow> length out = length out0 \<and> (\<forall>i<length out. length (out ! i) = n)
     \<and> (\<forall>i<length out. \<forall>k<n div 2. words (out ! i) ! k = (if D i k then mrow m inp i k else words (out0 ! i) ! k))"

lemma filled_start: "apply_ok m inp n out \<Longrightarrow> filled m inp n (\<lambda>_ _. False) out out"
  by (simp add: filled_def apply_ok_def)

lemma filled_complete:
  assumes "filled m inp n D out0 out" "even n" "\<And>i k. i < length out0 \<Longrightarrow> k < n div 2 \<Longrightarrow> D i k"
  shows "out = apply_spec m inp (length out0) n"
proof (rule nth_equalityI)
  show "length out = length (apply_spec m inp (length out0) n)"
    using assms by (simp add: filled_def apply_spec_def)
  fix i assume "i < length out"
  then have i: "i < length out0" "length (out ! i) = n" using assms(1) by (auto simp: filled_def)
  have "words (out ! i) = map (mrow m inp i) [0..<n div 2]"
    using assms i by (intro nth_equalityI) (auto simp: filled_def)
  then have "out ! i = unwords (map (mrow m inp i) [0..<n div 2])"
    by (metis i(2) assms(2) unwords_words)
  with i show "out ! i = apply_spec m inp (length out0) n ! i" by (simp add: apply_spec_def)
qed

lemma applyMatrixSlice_filled:
  assumes ok: "apply_ok m inp n out0" and f: "filled m inp n D out0 out"
    and rng: "outEnd \<le> length out0" "ds \<le> de" "de \<le> n" "even ds" "even de"
  shows "\<exists>out'. applyMatrixSlice ple m inp outStart outEnd ds de out = Inr out'
    \<and> filled m inp n (\<lambda>i k. D i k \<or> outStart \<le> i \<and> i < outEnd \<and> ds \<le> 2 * k \<and> 2 * k < de) out0 out'"
proof -
  have "\<exists>out'. foldR (\<lambda>i out. bindR (index_at out i) (\<lambda>outI.
       bindR (slice_at outI ds de) (\<lambda>outSlice.
       bindR (applyMatrixRow ple m inp ds de i outSlice) (\<lambda>r.
       Inr (out[i := splice outI ds r]))))) is out = Inr out'
    \<and> filled m inp n (\<lambda>i k. D i k \<or> i \<in> set is \<and> ds \<le> 2 * k \<and> 2 * k < de) out0 out'"
    if "\<forall>i\<in>set is. i < length out0" for "is"
    using f that
  proof (induction "is" arbitrary: D out)
    case Nil
    then show ?case by (simp add: filled_def)
  next
    case (Cons i js)
    have i: "i < length out0" "i < length out" "length (out ! i) = n" "i < m_rows m"
      using Cons.prems ok by (auto simp: filled_def apply_ok_def)
    let ?r = "unwords (map (\<lambda>k. mrow m inp i (ds div 2 + k)) [0..<(de - ds) div 2])"
    have lr: "length ?r = de - ds" using rng by simp
    have row: "applyMatrixRow ple m inp ds de i (slice (out ! i) ds de) = Inr ?r"
      using ok rng i by (intro applyMatrixRow_eq) (auto simp: apply_ok_def)
    let ?out = "out[i := splice (out ! i) ds ?r]"
    have w: "words (splice (out ! i) ds ?r) ! k
        = (if ds \<le> 2 * k \<and> 2 * k < de then mrow m inp i k else words (out ! i) ! k)" if "k < n div 2" for k
    proof -
      have "ds div 2 \<le> k \<and> k < ds div 2 + length ?r div 2 \<longleftrightarrow> ds \<le> 2 * k \<and> 2 * k < de"
        unfolding lr using rng by (auto elim!: evenE)
      moreover have "k - ds div 2 < (de - ds) div 2" if "ds \<le> 2 * k" "2 * k < de"
        using that rng by (auto elim!: evenE)
      ultimately show ?thesis
        using words_splice [of ds ?r "out ! i" k] rng lr i(3) that by auto
    qed
    have "filled m inp n (\<lambda>i' k. D i' k \<or> i' = i \<and> ds \<le> 2 * k \<and> 2 * k < de) out0 ?out"
      using Cons.prems(1) i lr rng w by (auto simp: filled_def nth_list_update)
    from Cons.IH [OF this] Cons.prems(2) obtain out' where o: "foldR (\<lambda>i out. bindR (index_at out i) (\<lambda>outI.
       bindR (slice_at outI ds de) (\<lambda>outSlice.
       bindR (applyMatrixRow ple m inp ds de i outSlice) (\<lambda>r.
       Inr (out[i := splice outI ds r]))))) js ?out = Inr out'"
      "filled m inp n (\<lambda>i' k. (D i' k \<or> i' = i \<and> ds \<le> 2 * k \<and> 2 * k < de)
         \<or> i' \<in> set js \<and> ds \<le> 2 * k \<and> 2 * k < de) out0 out'" by auto
    have "filled m inp n (\<lambda>i' k. D i' k \<or> i' \<in> set (i # js) \<and> ds \<le> 2 * k \<and> 2 * k < de) out0 out'"
      using o(2) by (auto simp: filled_def)
    with o(1) row i rng show ?case by simp
  qed
  from this [of "[outStart..<outEnd]"] rng(1) show ?thesis
    by (simp add: applyMatrixSlice_def)
qed

lemma applyMatrixSlices_filled:
  assumes ok: "apply_ok m inp n out0" and f: "filled m inp n D out0 out"
    and rng: "\<And>g. g \<in> set ord \<Longrightarrow> oe g \<le> length out0 \<and> ds g \<le> de g \<and> de g \<le> n \<and> even (ds g) \<and> even (de g)"
  shows "\<exists>out'. foldR (\<lambda>g. applyMatrixSlice ple m inp (os g) (oe g) (ds g) (de g)) ord out = Inr out'
    \<and> filled m inp n (\<lambda>i k. D i k \<or> (\<exists>g\<in>set ord. os g \<le> i \<and> i < oe g \<and> ds g \<le> 2 * k \<and> 2 * k < de g)) out0 out'"
  using f rng
proof (induction ord arbitrary: D out)
  case Nil
  then show ?case by simp
next
  case (Cons g gs)
  have r: "oe g \<le> length out0" "ds g \<le> de g" "de g \<le> n" "even (ds g)" "even (de g)"
    using Cons.prems(2) by auto
  obtain out1 where 1: "applyMatrixSlice ple m inp (os g) (oe g) (ds g) (de g) out = Inr out1"
      "filled m inp n (\<lambda>i k. D i k \<or> os g \<le> i \<and> i < oe g \<and> ds g \<le> 2 * k \<and> 2 * k < de g) out0 out1"
    using applyMatrixSlice_filled [OF ok Cons.prems(1) r] by blast
  from Cons.IH [OF 1(2)] Cons.prems(2) obtain out2 where
    2: "foldR (\<lambda>g. applyMatrixSlice ple m inp (os g) (oe g) (ds g) (de g)) gs out1 = Inr out2"
    "filled m inp n (\<lambda>i k. (D i k \<or> os g \<le> i \<and> i < oe g \<and> ds g \<le> 2 * k \<and> 2 * k < de g)
      \<or> (\<exists>g\<in>set gs. os g \<le> i \<and> i < oe g \<and> ds g \<le> 2 * k \<and> 2 * k < de g)) out0 out2" by auto
  with 1 show ?case by (auto simp: filled_def)
qed

section \<open>The entry points compute the product\<close>

lemma check_lengths_ok: "apply_ok m inp n out \<Longrightarrow> check_lengths inp out = Inr n"
  by (cases inp; cases out) (auto simp: check_lengths_def apply_ok_def)

lemma applyMatrixSingle_eq:
  assumes "apply_ok m inp n out"
  shows "applyMatrixSingle ple m inp out = Inr (apply_spec m inp (length out) n)"
proof -
  have e: "even n" using assms by (simp add: apply_ok_def)
  from applyMatrixSlice_filled [OF assms filled_start [OF assms] order_refl le0 order_refl _ e, of ple 0]
  obtain out' where "applyMatrixSlice ple m inp 0 (length out) 0 n out = Inr out'"
    "filled m inp n (\<lambda>i k. i < length out \<and> 2 * k < n) out out'" by auto
  moreover from filled_complete [OF this(2) e] e have "out' = apply_spec m inp (length out) n"
    by (auto elim!: evenE)
  ultimately show ?thesis using assms by (simp add: applyMatrixSingle_def check_lengths_ok)
qed

lemma schedule_set: "mset ord = mset [0..<num] \<Longrightarrow> set ord = {..<num}"
  by (metis atLeast_upt set_mset_mset)

lemma go_end_le: "go_end tot per i \<le> tot"
  by (simp add: go_end_def Let_def)

lemma applyMatrixParallelOut_eq:
  assumes ok: "apply_ok m inp n out" and g: "0 < g"
    and ord: "mset ord = mset [0..<num_goroutines (length out) g 1 1]"
  shows "applyMatrixParallelOut ple ord m inp g out = Inr (apply_spec m inp (length out) n)"
proof -
  obtain per num where p: "calculateParallelParams (length out) g 1 1 = Inr (per, num)" "0 < per"
      "num = (length out + per - 1) div per"
    using calculateParallelParams_eq [OF g zero_less_one zero_less_one] by blast
  have so: "set ord = {..<num}" using schedule_set [OF ord] p(1) by (simp add: num_goroutines_def)
  have e: "even n" using ok by (simp add: apply_ok_def)
  show ?thesis
  proof (cases "num < 2")
    case True
    with ok g p(1) show ?thesis
      by (simp add: applyMatrixParallelOut_def check_lengths_ok applyMatrixSingle_eq)
  next
    case False
    obtain out' where o: "foldR (\<lambda>i. applyMatrixSlice ple m inp (go_start per i) (go_end (length out) per i) 0 n) ord out = Inr out'"
      "filled m inp n (\<lambda>i k. False \<or> (\<exists>x\<in>set ord. go_start per x \<le> i \<and> i < go_end (length out) per x \<and> 0 \<le> 2 * k \<and> 2 * k < n)) out out'"
      using applyMatrixSlices_filled [OF ok filled_start [OF ok], of ord "go_end (length out) per" "\<lambda>_. 0" "\<lambda>_. n"]
        e go_end_le by blast
    have "out' = apply_spec m inp (length out) n"
    proof (rule filled_complete [OF o(2) e])
      fix i k assume ik: "i < length out" "k < n div 2"
      from range_cover [OF p(2) ik(1)] ik have "i div per \<in> set ord"
        "go_start per (i div per) \<le> i \<and> i < go_end (length out) per (i div per) \<and> 0 \<le> 2 * k \<and> 2 * k < n"
        unfolding so p(3) by auto
      then show "False \<or> (\<exists>x\<in>set ord. go_start per x \<le> i \<and> i < go_end (length out) per x \<and> 0 \<le> 2 * k \<and> 2 * k < n)"
        by blast
    qed
    with ok g p(1) o(1) False show ?thesis
      by (simp add: applyMatrixParallelOut_def check_lengths_ok)
  qed
qed

lemma applyMatrixParallelData_eq:
  assumes ok: "apply_ok m inp n out" and g: "0 < g"
    and ord: "mset ord = mset [0..<num_goroutines n g 16 16]"
  shows "applyMatrixParallelData ple ord m inp g out = Inr (apply_spec m inp (length out) n)"
proof -
  obtain per num where p: "calculateParallelParams n g 16 16 = Inr (per, num)" "0 < per" "16 dvd per"
      "num = (n + per - 1) div per"
    using calculateParallelParams_eq [OF g, of 16 16 n] by auto
  have so: "set ord = {..<num}" using schedule_set [OF ord] p(1) by (simp add: num_goroutines_def)
  have e: "even n" using ok by (simp add: apply_ok_def)
  have ep: "even per" using p(3) by (metis dvd_trans even_numeral)
  show ?thesis
  proof (cases "num < 2")
    case True
    with ok g p(1) show ?thesis
      by (simp add: applyMatrixParallelData_def check_lengths_ok applyMatrixSingle_eq)
  next
    case False
    have rng: "go_start per i \<le> go_end n per i \<and> even (go_start per i) \<and> even (go_end n per i)" if "i \<in> set ord" for i
    proof -
      have "i < (n + per - 1) div per" using that by (simp add: so p(4))
      from div_round_up_less [OF p(2) this] e ep show ?thesis
        by (auto simp: go_start_def go_end_def Let_def)
    qed
    obtain out' where o: "foldR (\<lambda>i. applyMatrixSlice ple m inp 0 (length out) (go_start per i) (go_end n per i)) ord out = Inr out'"
      "filled m inp n (\<lambda>i k. False \<or> (\<exists>x\<in>set ord. 0 \<le> i \<and> i < length out \<and> go_start per x \<le> 2 * k \<and> 2 * k < go_end n per x)) out out'"
      using applyMatrixSlices_filled [OF ok filled_start [OF ok], of ord "\<lambda>_. length out" "go_start per" "go_end n per" ple "\<lambda>_. 0"]
        rng go_end_le by blast
    have "out' = apply_spec m inp (length out) n"
    proof (rule filled_complete [OF o(2) e])
      fix i k assume ik: "i < length out" "k < n div 2"
      then have k: "2 * k < n" by auto
      from range_cover [OF p(2) k] ik have "2 * k div per \<in> set ord"
        "0 \<le> i \<and> i < length out \<and> go_start per (2 * k div per) \<le> 2 * k \<and> 2 * k < go_end n per (2 * k div per)"
        unfolding so p(4) by auto
      then show "False \<or> (\<exists>x\<in>set ord. 0 \<le> i \<and> i < length out \<and> go_start per x \<le> 2 * k \<and> 2 * k < go_end n per x)"
        by blast
    qed
    with ok g p(1) o(1) False show ?thesis
      by (simp add: applyMatrixParallelData_def check_lengths_ok)
  qed
qed

section \<open>The gf16 backend\<close>

text \<open>
  The work units of \<open>applyMatrixGF16\<close>: an output row and a stride-aligned byte range of its
  accumulator.  A length that is not positive is skipped.
\<close>

definition gf16_unit :: "nat \<Rightarrow> nat \<Rightarrow> nat \<Rightarrow> nat \<Rightarrow> nat \<times> nat \<times> nat" where
  "gf16_unit bufsz per i r =
     (let offset = r * per; len = (if offset + per > bufsz then bufsz - offset else per)
      in (i, offset, len))"

definition gf16_units :: "nat \<Rightarrow> nat \<Rightarrow> nat \<Rightarrow> nat \<Rightarrow> (nat \<times> nat \<times> nat) list" where
  "gf16_units bufsz per numRanges rows =
     filter (\<lambda>(i, offset, len). 0 < len)
       (map (\<lambda>(i, r). gf16_unit bufsz per i r) (List.product [0..<rows] [0..<numRanges]))"

text \<open>
  One unit: the coefficients of \<open>nin\<close> inputs from column \<open>base\<close> on, folded into the range of one
  accumulator (\<open>base\<close> is 0 here; the streaming fold of theory \<open>Fold\<close> works batch by batch).
\<close>

definition gf16_run_unit ::
  "backend \<Rightarrow> matrix \<Rightarrow> byte list list \<Rightarrow> nat \<Rightarrow> nat \<Rightarrow> nat \<times> nat \<times> nat \<Rightarrow> byte list list \<Rightarrow> byte list list res" where
  "gf16_run_unit be m prepared base nin u accs = (case u of (i, offset, len) \<Rightarrow>
     bindR (mapR (\<lambda>j. At m i (base + j)) [0..<nin]) (\<lambda>coeffs.
     bindR (index_at accs i) (\<lambda>acc.
     bindR (be_mulAddMulti be acc prepared offset len (map raw coeffs)) (\<lambda>acc'.
     Inr (accs[i := acc'])))))"

text \<open>The per-range size and the number of ranges.\<close>

definition gf16_params :: "backend \<Rightarrow> nat \<Rightarrow> nat \<Rightarrow> (nat \<times> nat) res" where
  "gf16_params be numGoroutines rows =
     bindR (go_div (numGoroutines + rows - 1) rows) (\<lambda>q.
     calculateParallelParams (be_bufSize be) q (be_stride be) (be_stride be))"

text \<open>
  \<open>mkctx\<close> is \<open>gf16.NewContext\<close>, \<open>sched\<close> the order in which the workers take the units.
\<close>

definition applyMatrixGF16 ::
  "(nat \<Rightarrow> backend res) \<Rightarrow> (nat \<times> nat \<times> nat) list \<Rightarrow> matrix \<Rightarrow> byte list list \<Rightarrow> nat
     \<Rightarrow> byte list list \<Rightarrow> byte list list res" where
  "applyMatrixGF16 mkctx sched m inp numGoroutines out =
     bindR (index_at inp 0) (\<lambda>in0.
     case mkctx (length in0) of Inl _ \<Rightarrow> Inl (Panic ''gf16.NewContext'') | Inr be \<Rightarrow>
     bindR (mapR (\<lambda>x. be_prepare be (be_newBuffer be) x) inp) (\<lambda>prepared.
     bindR (mapR (\<lambda>_. be_prepare be (be_newBuffer be) (replicate (length in0) 0)) out) (\<lambda>accs.
     bindR (gf16_params be (if numGoroutines < 1 then 1 else numGoroutines) (length out)) (\<lambda>_.
     bindR (foldR (gf16_run_unit be m prepared 0 (length inp)) sched accs) (\<lambda>accs'.
     mapR (\<lambda>(acc, o'). be_finish be acc o') (zip accs' out))))))"

text \<open>The units that the loop of the code hands to the workers.\<close>

definition gf16_schedule :: "backend \<Rightarrow> nat \<Rightarrow> nat \<Rightarrow> (nat \<times> nat \<times> nat) list" where
  "gf16_schedule be numGoroutines rows =
     (case gf16_params be (if numGoroutines < 1 then 1 else numGoroutines) rows of
        Inl _ \<Rightarrow> [] | Inr (per, numRanges) \<Rightarrow> gf16_units (be_bufSize be) per numRanges rows)"

lemma gf16_unit_range:
  "gf16_unit bufsz per i r = (i, go_start per r, go_end bufsz per r - go_start per r)"
  by (simp add: gf16_unit_def go_start_def go_end_def Let_def)

lemma gf16_units_eq:
  assumes "0 < per" "num = (bufsz + per - 1) div per"
  shows "gf16_units bufsz per num rows = map (\<lambda>(i, r). gf16_unit bufsz per i r) (List.product [0..<rows] [0..<num])"
proof -
  have "go_start per r < go_end bufsz per r" if "r < num" for r
    using div_round_up_less [OF assms(1)] that assms by (auto simp: go_start_def go_end_def Let_def)
  then show ?thesis
    unfolding gf16_units_def by (intro filter_True) (auto simp: gf16_unit_range)
qed

lemma gf16_params_eq:
  assumes "0 < g" "0 < rows" "0 < be_stride be" "be_stride be dvd be_bufSize be"
  shows "\<exists>per num. gf16_params be g rows = Inr (per, num) \<and> 0 < per \<and> be_stride be dvd per
    \<and> num = (be_bufSize be + per - 1) div per"
proof -
  have "0 < (g + rows - 1) div rows" using assms(1,2) by (simp add: div_greater_zero_iff)
  from calculateParallelParams_eq [OF this assms(3) assms(3), of "be_bufSize be"] assms(2)
  show ?thesis by (auto simp: gf16_params_def go_div_def)
qed

context gf16_backend
begin

lemma prepare_all:
  assumes "\<forall>x\<in>set xs. length x = n"
  shows "\<exists>bs. mapR (\<lambda>x. be_prepare be (be_newBuffer be) x) xs = Inr bs \<and> length bs = length xs
    \<and> (\<forall>b\<in>set bs. good b) \<and> (\<forall>j<length xs. \<forall>k<n div 2. val (bs ! j) k = words (xs ! j) ! k)"
  using assms
proof (induction xs)
  case Nil
  then show ?case by simp
next
  case (Cons x xs)
  then obtain bs where bs: "mapR (\<lambda>x. be_prepare be (be_newBuffer be) x) xs = Inr bs"
      "length bs = length xs" "\<forall>b\<in>set bs. good b"
      "\<forall>j<length xs. \<forall>k<n div 2. val (bs ! j) k = words (xs ! j) ! k" by auto
  obtain b where b: "be_prepare be (be_newBuffer be) x = Inr b" "good b"
      "\<forall>k<n div 2. val b k = words x ! k"
    using prepare_law [of x] Cons.prems size_even by auto
  have "\<forall>j<length (x # xs). \<forall>k<n div 2. val ((b # bs) ! j) k = words ((x # xs) ! j) ! k"
    using bs b by (auto simp: nth_Cons split: nat.splits)
  with bs b show ?case by simp
qed

text \<open>The accumulators after the units of a list, in any order.\<close>

definition covers :: "nat \<Rightarrow> nat \<Rightarrow> nat \<Rightarrow> bool" where
  "covers off len k \<longleftrightarrow> off \<le> be_stride be * blk k \<and> be_stride be * blk k < off + len"

lemma run_units:
  assumes m: "wf_matrix m" "base + c \<le> m_columns m" "rows \<le> m_rows m"
    and prep: "length prepared = c" "\<forall>b\<in>set prepared. good b"
      "\<forall>j<c. \<forall>k<n div 2. val (prepared ! j) k = words (inp ! (base + j)) ! k"
    and us: "\<forall>(i, off, len)\<in>set us. i < rows \<and> be_stride be dvd off \<and> be_stride be dvd len
      \<and> off + len \<le> be_bufSize be"
    and accs: "length accs = rows" "\<forall>b\<in>set accs. good b"
  shows "\<exists>accs'. foldR (gf16_run_unit be m prepared base c) us accs = Inr accs'
    \<and> length accs' = rows \<and> (\<forall>b\<in>set accs'. good b)
    \<and> (\<forall>i<rows. \<forall>k<n div 2. val (accs' ! i) k = val (accs ! i) k
        + (\<Sum>(i', off, len)\<leftarrow>us. if i' = i \<and> covers off len k then mrow_part m inp base c i k else 0))"
  using us accs
proof (induction us arbitrary: accs)
  case Nil
  then show ?case by simp
next
  case (Cons u us)
  obtain i off len where u: "u = (i, off, len)" by (cases u)
  have r: "i < rows" "be_stride be dvd off" "be_stride be dvd len" "off + len \<le> be_bufSize be"
    using Cons.prems(1) u by auto
  let ?co = "map (\<lambda>j. el m i (base + j)) [0..<c]"
  have co: "mapR (\<lambda>j. At m i (base + j)) [0..<c] = Inr ?co"
    by (rule mapR_Inr_map) (use m r in auto)
  have ga: "good (accs ! i)" using Cons.prems(2,3) r(1) by auto
  obtain a where a: "be_mulAddMulti be (accs ! i) prepared off len (map raw ?co) = Inr a"
      "good a" "\<forall>k<n div 2. val a k = val (accs ! i) k
        + (if off \<le> be_stride be * blk k \<and> be_stride be * blk k < off + len
           then \<Sum>j<length prepared. T (map raw ?co ! j) * val (prepared ! j) k else 0)"
    using mulAddMulti_law [OF ga _ _ r(2-4), of prepared "map raw ?co"] prep(1,2)
    by auto
  have sum: "(\<Sum>j<length prepared. T (map raw ?co ! j) * val (prepared ! j) k) = mrow_part m inp base c i k"
    if "k < n div 2" for k
    unfolding mrow_part_def prep(1) using prep that by (intro sum.cong) auto
  have step: "gf16_run_unit be m prepared base c u accs = Inr (accs[i := a])"
    using a(1) co r Cons.prems(2) by (simp add: gf16_run_unit_def u)
  have "\<forall>b\<in>set (accs[i := a]). good b"
    using Cons.prems(3) a(2) set_update_subset_insert [of accs i a] by auto
  from Cons.IH [OF _ _ this] Cons.prems(1,2) obtain accs' where
    IH: "foldR (gf16_run_unit be m prepared base c) us (accs[i := a]) = Inr accs'"
      "length accs' = rows" "\<forall>b\<in>set accs'. good b"
      "\<forall>i'<rows. \<forall>k<n div 2. val (accs' ! i') k = val (accs[i := a] ! i') k
        + (\<Sum>(i'', off, len)\<leftarrow>us. if i'' = i' \<and> covers off len k then mrow_part m inp base c i' k else 0)"
    by auto
  have "val (accs' ! i') k = val (accs ! i') k
      + (\<Sum>(i'', off, len)\<leftarrow>u # us. if i'' = i' \<and> covers off len k then mrow_part m inp base c i' k else 0)"
    if "i' < rows" "k < n div 2" for i' k
  proof (cases "i' = i")
    case True
    with IH(4) that a(3) sum Cons.prems(2) show ?thesis
      by (auto simp: u covers_def add.assoc)
  next
    case False
    with IH(4) that Cons.prems(2) show ?thesis by (simp add: u)
  qed
  with IH(1-3) step show ?case by auto
qed

lemma units_cover_once:
  assumes "0 < per" "num = (be_bufSize be + per - 1) div per" "i < rows" "k < n div 2"
  shows "(\<Sum>(i', off, len)\<leftarrow>gf16_units (be_bufSize be) per num rows. if i' = i \<and> covers off len k then x else 0)
    = (x :: T)"
proof -
  let ?p = "be_stride be * blk k"
  have p: "?p < be_bufSize be" using assms(4) by (rule blk_less)
  have cov: "covers (go_start per r) (go_end (be_bufSize be) per r - go_start per r) k \<longleftrightarrow> r = ?p div per"
    if "r < num" for r
  proof -
    have "r * per < be_bufSize be" using that assms(2) by (intro div_round_up_less [OF assms(1)]) simp
    then have "go_start per r \<le> go_end (be_bufSize be) per r"
      by (simp add: go_start_def go_end_def Let_def)
    then have "covers (go_start per r) (go_end (be_bufSize be) per r - go_start per r) k
        \<longleftrightarrow> go_start per r \<le> ?p \<and> ?p < go_end (be_bufSize be) per r"
      by (auto simp: covers_def)
    with range_cover(2) [OF assms(1) p] show ?thesis by simp
  qed
  have "(\<Sum>(i', off, len)\<leftarrow>gf16_units (be_bufSize be) per num rows. if i' = i \<and> covers off len k then x else 0)
      = (\<Sum>(i', r)\<leftarrow>List.product [0..<rows] [0..<num]. if i' = i \<and> r = ?p div per then x else 0)"
    unfolding gf16_units_eq [OF assms(1,2)] map_map o_def
    by (rule arg_cong [where f = sum_list], rule map_cong) (auto simp: gf16_unit_range cov)
  also have "\<dots> = (\<Sum>q\<in>{0..<rows} \<times> {0..<num}. if q = (i, ?p div per) then x else 0)"
  proof -
    have "(\<Sum>q\<in>{0..<rows} \<times> {0..<num}. case q of (i', r) \<Rightarrow> if i' = i \<and> r = ?p div per then x else 0)
        = (\<Sum>q\<in>{0..<rows} \<times> {0..<num}. if q = (i, ?p div per) then x else 0)"
      by (rule sum.cong) (simp_all split: prod.splits)
    then show ?thesis by (simp only: sum_list_distinct_conv_sum_set distinct_product distinct_upt
        List.set_product set_upt)
  qed
  also have "\<dots> = x"
    using range_cover(1) [OF assms(1) p] assms(2,3) by simp
  finally show ?thesis .
qed

text \<open>A whole batch: every unit of a schedule of the units runs, in the schedule's order.\<close>

lemma run_schedule:
  assumes m: "wf_matrix m" "base + c \<le> m_columns m" "rows \<le> m_rows m"
    and prep: "length prepared = c" "\<forall>b\<in>set prepared. good b"
      "\<forall>j<c. \<forall>k<n div 2. val (prepared ! j) k = words (inp ! (base + j)) ! k"
    and per: "0 < per" "be_stride be dvd per" "num = (be_bufSize be + per - 1) div per"
    and sched: "mset sched = mset (gf16_units (be_bufSize be) per num rows)"
    and accs: "length accs = rows" "\<forall>b\<in>set accs. good b"
  shows "\<exists>accs'. foldR (gf16_run_unit be m prepared base c) sched accs = Inr accs'
    \<and> length accs' = rows \<and> (\<forall>b\<in>set accs'. good b)
    \<and> (\<forall>i<rows. \<forall>k<n div 2. val (accs' ! i) k = val (accs ! i) k + mrow_part m inp base c i k)"
proof -
  have set: "set sched = set (gf16_units (be_bufSize be) per num rows)"
    using sched by (metis set_mset_mset)
  have us: "\<forall>(i, off, len)\<in>set sched. i < rows \<and> be_stride be dvd off \<and> be_stride be dvd len
      \<and> off + len \<le> be_bufSize be"
  proof -
    have "be_stride be dvd go_start per r \<and> be_stride be dvd go_end (be_bufSize be) per r - go_start per r
        \<and> go_start per r + (go_end (be_bufSize be) per r - go_start per r) \<le> be_bufSize be" if "r < num" for r
      using div_round_up_less [OF per(1), of r "be_bufSize be"] that per(2,3) stride_dvd
      by (auto simp: go_start_def go_end_def Let_def intro: dvd_diff_nat)
    then show ?thesis unfolding set gf16_units_eq [OF per(1,3)] by (auto simp: gf16_unit_range)
  qed
  from run_units [OF m prep us accs] obtain accs' where
    run: "foldR (gf16_run_unit be m prepared base c) sched accs = Inr accs'"
      "length accs' = rows" "\<forall>b\<in>set accs'. good b"
      "\<forall>i<rows. \<forall>k<n div 2. val (accs' ! i) k = val (accs ! i) k
        + (\<Sum>(i', off, len)\<leftarrow>sched. if i' = i \<and> covers off len k then mrow_part m inp base c i k else 0)"
    by blast
  have "val (accs' ! i) k = val (accs ! i) k + mrow_part m inp base c i k" if "i < rows" "k < n div 2" for i k
  proof -
    have "(\<Sum>(i', off, len)\<leftarrow>sched. if i' = i \<and> covers off len k then mrow_part m inp base c i k else 0)
        = (\<Sum>(i', off, len)\<leftarrow>gf16_units (be_bufSize be) per num rows.
             if i' = i \<and> covers off len k then mrow_part m inp base c i k else 0)"
      using sched by (metis (no_types, lifting) mset_map sum_mset_sum_list)
    with run(4) that units_cover_once [OF per(1,3) that] show ?thesis by simp
  qed
  with run show ?thesis by blast
qed

lemma finish_all:
  assumes "\<forall>b\<in>set bs. good b" "\<forall>r\<in>set out. length r = n" "length bs = length out"
  shows "mapR (\<lambda>(acc, o'). be_finish be acc o') (zip bs out)
    = Inr (map (\<lambda>b. unwords (map (val b) [0..<n div 2])) bs)"
proof -
  have "mapR (\<lambda>(acc, o'). be_finish be acc o') (zip bs out)
      = Inr (map (\<lambda>(b, o'). unwords (map (val b) [0..<n div 2])) (zip bs out))"
  proof (rule mapR_Inr_map)
    fix q assume "q \<in> set (zip bs out)"
    then obtain b o' where q: "q = (b, o')" "b \<in> set bs" "o' \<in> set out"
      by (metis prod.exhaust_sel in_set_zipE)
    with assms finish_law [of b o'] show "(case q of (acc, o') \<Rightarrow> be_finish be acc o')
        = Inr (case q of (b, o') \<Rightarrow> unwords (map (val b) [0..<n div 2]))" by simp
  qed
  also have "map (\<lambda>(b, o'). unwords (map (val b) [0..<n div 2])) (zip bs out)
      = map (\<lambda>b. unwords (map (val b) [0..<n div 2])) bs"
    using assms(3) by (intro nth_equalityI) auto
  finally show ?thesis .
qed

lemma accs_apply_spec:
  assumes "length accs = rows" "\<forall>i<rows. \<forall>k<n div 2. val (accs ! i) k = mrow m inp i k"
  shows "map (\<lambda>b. unwords (map (val b) [0..<n div 2])) accs = apply_spec m inp rows n"
proof (rule nth_equalityI)
  fix i assume "i < length (map (\<lambda>b. unwords (map (val b) [0..<n div 2])) accs)"
  then have i: "i < rows" using assms(1) by simp
  then have eq: "map (val (accs ! i)) [0..<n div 2] = map (mrow m inp i) [0..<n div 2]"
    using assms(2) by (intro map_cong) auto
  from i assms(1) show "map (\<lambda>b. unwords (map (val b) [0..<n div 2])) accs ! i = apply_spec m inp rows n ! i"
    unfolding apply_spec_def by (simp add: eq del: map_eq_conv)
qed (use assms(1) in \<open>simp add: apply_spec_def\<close>)

lemma applyMatrixGF16_eq:
  assumes ok: "apply_ok m inp n out" and ctx: "mkctx n = Inr be"
    and sched: "mset sched = mset (gf16_schedule be g (length out))"
  shows "applyMatrixGF16 mkctx sched m inp g out = Inr (apply_spec m inp (length out) n)"
proof -
  let ?g = "if g < 1 then 1 else g" and ?rows = "length out"
  have o: "wf_matrix m" "length inp \<le> m_columns m" "?rows \<le> m_rows m" "0 < ?rows" "0 < length inp"
      "length (inp ! 0) = n" "\<forall>x\<in>set inp. length x = n" "\<forall>x\<in>set out. length x = n"
    using ok by (auto simp: apply_ok_def)
  obtain prepared where prep: "mapR (\<lambda>x. be_prepare be (be_newBuffer be) x) inp = Inr prepared"
      "length prepared = length inp" "\<forall>b\<in>set prepared. good b"
      "\<forall>j<length inp. \<forall>k<n div 2. val (prepared ! j) k = words (inp ! j) ! k"
    using prepare_all [OF o(7)] by blast
  let ?zeros = "map (\<lambda>_. replicate n 0) out :: byte list list"
  have "mapR (\<lambda>_. be_prepare be (be_newBuffer be) (replicate n 0)) out
      = mapR (\<lambda>x. be_prepare be (be_newBuffer be) x) ?zeros"
    by (induction out) auto
  moreover obtain accs where accs: "mapR (\<lambda>x. be_prepare be (be_newBuffer be) x) ?zeros = Inr accs"
      "length accs = ?rows" "\<forall>b\<in>set accs. good b"
      "\<forall>i<?rows. \<forall>k<n div 2. val (accs ! i) k = words (?zeros ! i) ! k"
    using prepare_all [of ?zeros] by auto
  ultimately have zero: "mapR (\<lambda>_. be_prepare be (be_newBuffer be) (replicate n 0)) out = Inr accs" by simp
  have v0: "val (accs ! i) k = 0" if "i < ?rows" "k < n div 2" for i k
    using accs(4) that by (simp add: words_zero)
  have "0 < ?g" by simp
  from gf16_params_eq [OF this o(4) stride_pos stride_dvd] obtain per num where
    par: "gf16_params be ?g ?rows = Inr (per, num)" "0 < per" "be_stride be dvd per"
      "num = (be_bufSize be + per - 1) div per" by blast
  have sch: "mset sched = mset (gf16_units (be_bufSize be) per num ?rows)"
    using sched par(1) by (simp add: gf16_schedule_def)
  have prep': "\<forall>j<length inp. \<forall>k<n div 2. val (prepared ! j) k = words (inp ! (0 + j)) ! k"
    using prep(4) by simp
  have c: "0 + length inp \<le> m_columns m" using o(2) by simp
  from run_schedule [OF o(1) c o(3) prep(2,3) prep' par(2-4) sch accs(2,3)] obtain accs' where
    run: "foldR (gf16_run_unit be m prepared 0 (length inp)) sched accs = Inr accs'"
      "length accs' = ?rows" "\<forall>b\<in>set accs'. good b"
      "\<forall>i<?rows. \<forall>k<n div 2. val (accs' ! i) k = val (accs ! i) k + mrow_part m inp 0 (length inp) i k"
    by blast
  have val: "val (accs' ! i) k = mrow m inp i k" if "i < ?rows" "k < n div 2" for i k
    using run(4) that v0 by (simp add: mrow_part_all)
  have "\<forall>i<?rows. \<forall>k<n div 2. val (accs' ! i) k = mrow m inp i k" using val by blast
  then have "map (\<lambda>b. unwords (map (val b) [0..<n div 2])) accs' = apply_spec m inp ?rows n"
    by (rule accs_apply_spec [OF run(2)])
  with finish_all [OF run(3) o(8) run(2)] o(5,6) ctx prep(1) zero par(1) run(1) show ?thesis
    by (simp add: applyMatrixGF16_def)
qed

end

text \<open>The pure-Go backend, for every even slice size.\<close>

lemma applyMatrixGF16_pure:
  assumes "apply_ok m inp n out" "0 < n"
    and "mset sched = mset (gf16_schedule (pure_methods ple (pure_context n)) g (length out))"
  shows "applyMatrixGF16 (pure_backend ple) sched m inp g out = Inr (apply_spec m inp (length out) n)"
proof -
  have "even n" using assms(1) by (simp add: apply_ok_def)
  then obtain h where h: "n = 2 * Suc h" using assms(2) by (metis evenE gr0_implies_Suc mult_is_0 not_gr0)
  show ?thesis
    using pure.applyMatrixGF16_eq [of m inp h out "pure_backend ple" ple sched g] assms
    unfolding h by (simp add: pure_backend_eq)
qed

section \<open>Properties\<close>

text \<open>
  \<open>calculateParallelParams\<close> cuts the work into at most \<open>numGoroutines\<close> ranges whose size is a
  positive multiple of the divisor and at least the minimum, and every position of the work lies in
  the range of exactly one goroutine.
\<close>

lemma calculateParallelParams_partition:
  assumes "0 < g" "0 < divisor" "0 < minPer"
  shows "\<exists>per num. calculateParallelParams tot g minPer divisor = Inr (per, num)
    \<and> minPer \<le> per \<and> divisor dvd per \<and> num \<le> g
    \<and> (\<forall>p<tot. \<exists>!i. i < num \<and> go_start per i \<le> p \<and> p < go_end tot per i)"
proof -
  obtain per num where c: "calculateParallelParams tot g minPer divisor = Inr (per, num)" "0 < per"
      "divisor dvd per" "minPer \<le> per" "num = (tot + per - 1) div per" "num \<le> g"
    using calculateParallelParams_eq [OF assms] by blast
  have "\<exists>!i. i < num \<and> go_start per i \<le> p \<and> p < go_end tot per i" if p: "p < tot" for p
  proof (rule ex1I [of _ "p div per"])
    show "p div per < num \<and> go_start per (p div per) \<le> p \<and> p < go_end tot per (p div per)"
      using range_cover [OF c(2) p] c(5) by blast
    show "i = p div per" if "i < num \<and> go_start per i \<le> p \<and> p < go_end tot per i" for i
      using range_cover(2) [OF c(2) p] that by blast
  qed
  with c show ?thesis by blast
qed

text \<open>A product to instantiate the next properties with.\<close>

definition sample_in :: "byte list list" where
  "sample_in = [[1, 2, 3, 4], [5, 6, 7, 8]]"

definition sample_out :: "byte list list" where
  "sample_out = [[0, 0, 0, 0], [9, 9, 9, 9]]"

lemma sample_apply_ok: "apply_ok sample_matrix sample_in 4 sample_out"
  by (simp add: apply_ok_def wf_matrix_def sample_matrix_def sample_in_def sample_out_def)

text \<open>
  C22: the matrix product is computed whatever the number of goroutines and whatever the order in
  which they run, when the work is split by output rows and when it is split by data ranges: word
  \<open>k\<close> of output row \<open>i\<close> is the sum of \<open>m(i, j)\<close> times word \<open>k\<close> of input \<open>j\<close>.
\<close>

theorem applyMatrixParallel_product:
  assumes "apply_ok m inp n out" "0 < g"
    and "mset ord_out = mset [0..<num_goroutines (length out) g 1 1]"
    and "mset ord_data = mset [0..<num_goroutines n g 16 16]"
  shows "applyMatrixParallelOut ple ord_out m inp g out = Inr (apply_spec m inp (length out) n)
    \<and> applyMatrixParallelData ple ord_data m inp g out = Inr (apply_spec m inp (length out) n)"
  using applyMatrixParallelOut_eq [OF assms(1-3)] applyMatrixParallelData_eq [OF assms(1,2,4)] by blast

theorem applyMatrixParallel_product_witness:
  "applyMatrixParallelOut True [1, 0] sample_matrix sample_in 2 sample_out
      = Inr (apply_spec sample_matrix sample_in (length sample_out) 4)
    \<and> applyMatrixParallelData True [0] sample_matrix sample_in 2 sample_out
      = Inr (apply_spec sample_matrix sample_in (length sample_out) 4)"
proof (rule applyMatrixParallel_product [OF sample_apply_ok])
  have "num_goroutines (length sample_out) 2 1 1 = 2" "num_goroutines 4 2 16 16 = 1" by code_simp+
  then show "mset [1, 0] = mset [0..<num_goroutines (length sample_out) 2 1 1]"
    "mset [0] = mset [0..<num_goroutines 4 2 16 16]"
    by (simp_all add: upt_rec)
qed simp

text \<open>
  C38: on a gf16 backend that keeps the contract of the interface the same product comes out of
  \<open>applyMatrixGF16\<close>, for every order of the work units.
\<close>

theorem applyMatrixGF16_product:
  assumes "gf16_backend be n good val blk" "mkctx n = Inr be" "apply_ok m inp n out"
    and "mset sched = mset (gf16_schedule be g (length out))"
  shows "applyMatrixGF16 mkctx sched m inp g out = Inr (apply_spec m inp (length out) n)"
  by (rule gf16_backend.applyMatrixGF16_eq [where mkctx = mkctx, OF assms(1,3,2,4)])

theorem applyMatrixGF16_product_witness:
  "applyMatrixGF16 (pure_backend True) (rev (gf16_schedule (pure_methods True (pure_context 4)) 3 (length sample_out)))
      sample_matrix sample_in 3 sample_out
    = Inr (apply_spec sample_matrix sample_in (length sample_out) 4)"
  by (rule applyMatrixGF16_product [where ?be = "pure_methods True (pure_context 4)" and ?n = 4
        and ?good = "\<lambda>b. length b = 4" and ?val = pure_val and ?blk = id, OF _ _ sample_apply_ok])
     (simp_all add: pure_backend_laws pure_backend_eq)

end
