(* ===== verification/Fold.thy ===== *)
theory Fold
  imports ApplyMatrix
begin

text \<open>
  The streaming product of src/rsec16/fold.go: the pure-Go fold over all inputs and the batched fold
  on a gf16 backend.  The callback \<open>next\<close> is a function from the input index and the zeroed buffer
  to the filled buffer or an error; the prefetching goroutine only runs it ahead of the folding.
  Orders of goroutines and of work units are arguments.
\<close>

section \<open>The pure-Go fold\<close>

text \<open>\<open>for i := w; i < len(out); i += numGoroutines\<close>\<close>

function rows_from :: "nat \<Rightarrow> nat \<Rightarrow> nat \<Rightarrow> nat list" where
  "rows_from w step n = (if w < n \<and> 0 < step then w # rows_from (w + step) step n else [])"
  by pat_completeness auto
termination
  by (relation "measure (\<lambda>(w, step, n). n - w)") auto

declare rows_from.simps [simp del]

definition fold_row ::
  "bool \<Rightarrow> matrix \<Rightarrow> nat \<Rightarrow> byte list \<Rightarrow> nat \<Rightarrow> byte list list \<Rightarrow> byte list list res" where
  "fold_row ple m j buf i out =
     bindR (At m i j) (\<lambda>c.
     bindR (index_at out i) (\<lambda>outI.
     bindR (MulAndAddByteSliceLE ple c buf outI) (\<lambda>r. Inr (out[i := r]))))"

definition foldInputsPureGo ::
  "bool \<Rightarrow> (nat \<Rightarrow> nat list) \<Rightarrow> matrix \<Rightarrow> nat \<Rightarrow> nat \<Rightarrow> (nat \<Rightarrow> byte list \<Rightarrow> byte list res)
     \<Rightarrow> byte list list \<Rightarrow> nat \<Rightarrow> byte list list res" where
  "foldInputsPureGo ple ord m numInputs sliceSz next_fn out numGoroutines =
     (let g = (if numGoroutines > length out then length out else numGoroutines) in
      foldR (\<lambda>j acc.
          bindR (next_fn j (replicate sliceSz 0)) (\<lambda>buf.
          foldR (\<lambda>w. foldR (fold_row ple m j buf) (rows_from w g (length out))) (ord j) acc))
        [0..<numInputs] (map (\<lambda>r. replicate (length r) 0) out))"

section \<open>The batched fold\<close>

definition foldBatchSize :: nat where
  "foldBatchSize = 16"

text \<open>\<open>min(foldBatchSize, numInputs, max(1, inputStagingTarget/sliceSize/3, len(out)))\<close>\<close>

definition fold_batch :: "nat \<Rightarrow> nat \<Rightarrow> nat \<Rightarrow> nat res" where
  "fold_batch numInputs sliceSz rows =
     bindR (go_div (push_bit 20 8) sliceSz) (\<lambda>q.
     Inr (min (min foldBatchSize numInputs) (max (max 1 (q div 3)) rows)))"

definition fold_ranges :: "backend \<Rightarrow> nat \<times> nat" where
  "fold_ranges be =
     (let target = push_bit 10 128;
          per0 = target - target mod be_stride be;
          per1 = (if per0 < be_stride be then be_stride be else per0);
          per = (if per1 > be_bufSize be then be_bufSize be else per1)
      in (per, (be_bufSize be + per - 1) div per))"

definition fold_units :: "backend \<Rightarrow> nat \<Rightarrow> (nat \<times> nat \<times> nat) list" where
  "fold_units be rows = (case fold_ranges be of (per, num) \<Rightarrow> gf16_units (be_bufSize be) per num rows)"

text \<open>\<open>readBank\<close>: load and prepare \<open>n\<close> inputs from \<open>base\<close> on; the first error by index is returned.\<close>

definition readBank ::
  "backend \<Rightarrow> (nat \<Rightarrow> byte list \<Rightarrow> byte list res) \<Rightarrow> nat \<Rightarrow> nat \<Rightarrow> nat \<Rightarrow> byte list list res" where
  "readBank be next_fn sliceSz base n =
     mapR (\<lambda>b. bindR (next_fn (base + b) (replicate sliceSz 0)) (be_prepare be (be_newBuffer be))) [0..<n]"

function fold_batches ::
  "backend \<Rightarrow> (nat \<Rightarrow> (nat \<times> nat \<times> nat) list) \<Rightarrow> matrix \<Rightarrow> nat \<Rightarrow> nat \<Rightarrow> nat
     \<Rightarrow> (nat \<Rightarrow> byte list \<Rightarrow> byte list res) \<Rightarrow> nat \<Rightarrow> byte list list \<Rightarrow> byte list list res" where
  "fold_batches be sched m B numInputs sliceSz next_fn nextJ accs =
     (let n = min B (numInputs - nextJ) in
      if n = 0 then Inr accs
      else bindR (readBank be next_fn sliceSz nextJ n) (\<lambda>prepared.
           bindR (foldR (gf16_run_unit be m prepared nextJ n) (sched nextJ) accs) (\<lambda>accs'.
           fold_batches be sched m B numInputs sliceSz next_fn (nextJ + n) accs')))"
  by pat_completeness auto
termination
  by (relation "measure (\<lambda>(be, sched, m, B, numInputs, sliceSz, next_fn, nextJ, accs). numInputs - nextJ)")
     (auto simp: Let_def)

declare fold_batches.simps [simp del]

definition foldInputsGF16 ::
  "(nat \<Rightarrow> backend res) \<Rightarrow> (nat \<Rightarrow> (nat \<times> nat \<times> nat) list) \<Rightarrow> matrix \<Rightarrow> nat \<Rightarrow> nat
     \<Rightarrow> (nat \<Rightarrow> byte list \<Rightarrow> byte list res) \<Rightarrow> byte list list \<Rightarrow> byte list list res" where
  "foldInputsGF16 mkctx sched m numInputs sliceSz next_fn out =
     bindR (mkctx sliceSz) (\<lambda>be.
     bindR (mapR (\<lambda>_. be_prepare be (be_newBuffer be) (replicate sliceSz 0)) out) (\<lambda>accs.
     bindR (fold_batch numInputs sliceSz (length out)) (\<lambda>B.
     bindR (fold_batches be sched m B numInputs sliceSz next_fn 0 accs) (\<lambda>accs'.
     mapR (\<lambda>(acc, o'). be_finish be acc o') (zip accs' out)))))"

section \<open>The entry point\<close>

text \<open>
  \<open>accel\<close> is \<open>Some mkctx\<close> when \<open>gf16.Accelerated()\<close>; \<open>FoldInputs\<close> and \<open>FoldInputsParallel\<close> differ
  only in which goroutines call \<open>next\<close>.
\<close>

definition foldInputs ::
  "bool \<Rightarrow> (nat \<Rightarrow> backend res) option \<Rightarrow> (nat \<Rightarrow> nat list) \<Rightarrow> (nat \<Rightarrow> (nat \<times> nat \<times> nat) list) \<Rightarrow> matrix
     \<Rightarrow> nat \<Rightarrow> nat \<Rightarrow> (nat \<Rightarrow> byte list \<Rightarrow> byte list res) \<Rightarrow> byte list list \<Rightarrow> int \<Rightarrow> byte list list res" where
  "foldInputs ple accel ord sched m numInputs sliceSz next_fn out numGoroutines =
     (if length out = 0 \<or> numInputs = 0 then Inr out
      else let g = (if numGoroutines < 1 then 1 else nat numGoroutines) in
      case accel of
        Some mkctx \<Rightarrow> foldInputsGF16 mkctx sched m numInputs sliceSz next_fn out
      | None \<Rightarrow> foldInputsPureGo ple ord m numInputs sliceSz next_fn out g)"

section \<open>The rows of a worker\<close>

lemma rows_from_Cons:
  "w < n \<Longrightarrow> 0 < step \<Longrightarrow> rows_from w step n = w # rows_from (w + step) step n"
  by (subst rows_from.simps) simp

lemma rows_from_Nil: "n \<le> w \<Longrightarrow> rows_from w step n = []"
  by (subst rows_from.simps) simp

lemma set_rows_from:
  "0 < step \<Longrightarrow> set (rows_from w step n) = {i. w \<le> i \<and> i < n \<and> i mod step = w mod step}"
proof (induction "n - w" arbitrary: w rule: less_induct)
  case less
  show ?case
  proof (cases "w < n")
    case False
    then show ?thesis by (auto simp: rows_from_Nil)
  next
    case True
    then have "set (rows_from w step n) = insert w {i. w + step \<le> i \<and> i < n \<and> i mod step = w mod step}"
      using less by (simp add: rows_from_Cons)
    also have "\<dots> = {i. w \<le> i \<and> i < n \<and> i mod step = w mod step}"
    proof -
      have "w + step \<le> i" if "w < i" "i mod step = w mod step" for i
      proof (rule ccontr)
        assume "\<not> w + step \<le> i"
        then have "i - w < step" "0 < i - w" using that by auto
        moreover have "step dvd i - w"
          using that by (metis less_imp_le_nat mod_eq_dvd_iff_nat)
        ultimately show False by (simp add: dvd_imp_le leD)
      qed
      with True show ?thesis by (auto simp: le_less)
    qed
    finally show ?thesis .
  qed
qed

lemma distinct_rows_from: "0 < step \<Longrightarrow> distinct (rows_from w step n)"
proof (induction "n - w" arbitrary: w rule: less_induct)
  case less
  show ?case
  proof (cases "w < n")
    case True
    with less show ?thesis by (auto simp: rows_from_Cons set_rows_from)
  qed (simp add: rows_from_Nil)
qed

text \<open>The workers' rows, in any order of the workers, are the rows.\<close>

lemma worker_rows:
  assumes "mset ord = mset [0..<g]" "0 < g"
  shows "distinct (concat (map (\<lambda>w. rows_from w g n) ord))"
    and "set (concat (map (\<lambda>w. rows_from w g n) ord)) = {..<n}"
proof -
  have so: "set ord = {..<g}" using assms(1) by (rule schedule_set)
  have do: "distinct ord" using assms(1) by (metis distinct_upt mset_eq_imp_distinct_iff)
  have m: "i mod g = w" if "w < g" "i \<in> set (rows_from w g n)" for w i
    using that assms(2) by (simp add: set_rows_from)
  show "set (concat (map (\<lambda>w. rows_from w g n) ord)) = {..<n}"
  proof (intro equalityI subsetI)
    fix i assume "i \<in> {..<n}"
    then have "i \<in> set (rows_from (i mod g) g n)" using assms(2) by (simp add: set_rows_from)
    moreover have "i mod g \<in> set ord" using assms(2) so by simp
    ultimately show "i \<in> set (concat (map (\<lambda>w. rows_from w g n) ord))" by auto
  qed (use assms(2) in \<open>auto simp: set_rows_from\<close>)
  have "distinct (concat (map (\<lambda>w. rows_from w g n) ws))" if "distinct ws" "set ws \<subseteq> {..<g}" for ws
    using that
  proof (induction ws)
    case (Cons w ws)
    have disj: False if i: "i \<in> set (rows_from w g n)" "i \<in> set (concat (map (\<lambda>w. rows_from w g n) ws))" for i
    proof -
      from i(2) obtain w' where w': "w' \<in> set ws" "i \<in> set (rows_from w' g n)" by auto
      have "w < g" "w' < g" using Cons.prems(2) w'(1) by auto
      then have "w = w'" using m i(1) w'(2) by metis
      with Cons.prems(1) w'(1) show False by simp
    qed
    have "distinct (concat (map (\<lambda>w. rows_from w g n) ws))" using Cons by simp
    with disj distinct_rows_from [OF assms(2)] show ?case
      unfolding list.map concat.simps distinct_append by blast
  qed simp
  from this [OF do] so show "distinct (concat (map (\<lambda>w. rows_from w g n) ord))" by simp
qed

lemma foldR_concat: "foldR (\<lambda>w. foldR f (h w)) ws s = foldR f (concat (map h ws)) s"
proof (induction ws arbitrary: s)
  case (Cons w ws)
  have "foldR (\<lambda>w. foldR f (h w)) ws = foldR f (concat (map h ws))" by (rule ext) (rule Cons.IH)
  then show ?case by (simp add: foldR_append)
qed simp

section \<open>Correctness of the pure-Go fold\<close>

text \<open>
  \<open>fold_ok\<close>: the matrix is large enough, the output rows have the even slice size, and the callback
  delivers the inputs \<open>inp\<close>.
\<close>

definition delivers :: "(nat \<Rightarrow> byte list \<Rightarrow> byte list res) \<Rightarrow> nat \<Rightarrow> byte list list \<Rightarrow> bool" where
  "delivers next_fn n inp \<longleftrightarrow> (\<forall>j<length inp. next_fn j (replicate n 0) = Inr (inp ! j) \<and> length (inp ! j) = n)"

definition fold_ok :: "matrix \<Rightarrow> nat \<Rightarrow> nat \<Rightarrow> byte list list \<Rightarrow> bool" where
  "fold_ok m cols n out \<longleftrightarrow> wf_matrix m \<and> cols \<le> m_columns m \<and> length out \<le> m_rows m
     \<and> even n \<and> (\<forall>r\<in>set out. length r = n)"

definition summed :: "matrix \<Rightarrow> byte list list \<Rightarrow> nat \<Rightarrow> nat \<Rightarrow> byte list list \<Rightarrow> bool" where
  "summed m inp n J out \<longleftrightarrow> (\<forall>i<length out. length (out ! i) = n
     \<and> (\<forall>k<n div 2. words (out ! i) ! k = mrow_part m inp 0 J i k))"

lemma fold_rows:
  assumes ok: "wf_matrix m" "j < m_columns m" "even n" "length buf = n"
    and "distinct is" "\<forall>i\<in>set is. i < length out \<and> i < m_rows m" "\<forall>i<length out. length (out ! i) = n"
  shows "\<exists>out'. foldR (fold_row ple m j buf) is out = Inr out' \<and> length out' = length out
    \<and> (\<forall>i<length out. length (out' ! i) = n \<and> (\<forall>k<n div 2. words (out' ! i) ! k
        = words (out ! i) ! k + (if i \<in> set is then el m i j * words buf ! k else 0)))"
  using assms(5-)
proof (induction "is" arbitrary: out)
  case Nil
  then show ?case by simp
next
  case (Cons i js)
  have i: "i < length out" "i < m_rows m" "length (out ! i) = n" using Cons.prems by auto
  define r where "r = unwords (add_scaled (el m i j) (words buf) (words (out ! i)))"
  have lr: "length r = n" using ok i by (simp add: r_def)
  have step: "fold_row ple m j buf i out = Inr (out[i := r])"
    using ok i by (simp add: fold_row_def MulAndAddByteSliceLE_eq r_def)
  have w: "words r ! k = words (out ! i) ! k + el m i j * words buf ! k" if "k < n div 2" for k
    using that i ok by (simp add: add_scaled_nth r_def)
  obtain out' where o: "foldR (fold_row ple m j buf) js (out[i := r]) = Inr out'"
      "length out' = length out"
      "\<forall>i'<length out. length (out' ! i') = n \<and> (\<forall>k<n div 2. words (out' ! i') ! k
        = words (out[i := r] ! i') ! k + (if i' \<in> set js then el m i' j * words buf ! k else 0))"
  proof -
    have "\<forall>i'<length (out[i := r]). length (out[i := r] ! i') = n"
      using Cons.prems(3) lr i(1) by (simp add: nth_list_update)
    moreover have "distinct js" "\<forall>i'\<in>set js. i' < length (out[i := r]) \<and> i' < m_rows m"
      using Cons.prems by auto
    ultimately show ?thesis using Cons.IH [of "out[i := r]"] that by auto
  qed
  have "\<forall>i'<length out. length (out' ! i') = n \<and> (\<forall>k<n div 2. words (out' ! i') ! k
      = words (out ! i') ! k + (if i' \<in> set (i # js) then el m i' j * words buf ! k else 0))"
    using o(3) Cons.prems(1) w i by (auto simp: nth_list_update)
  with o step show ?case by simp
qed

lemma fold_input:
  assumes ok: "fold_ok m (length inp) n out" and J: "J < length inp"
    and del: "next_fn J (replicate n 0) = Inr (inp ! J)" "length (inp ! J) = n"
    and s: "summed m inp n J out" and ord: "mset ord = mset [0..<g]" "0 < g"
  shows "\<exists>out'. bindR (next_fn J (replicate n 0)) (\<lambda>buf.
        foldR (\<lambda>w. foldR (fold_row ple m J buf) (rows_from w g (length out))) ord out) = Inr out'
    \<and> length out' = length out \<and> summed m inp n (Suc J) out'"
proof -
  let ?is = "concat (map (\<lambda>w. rows_from w g (length out)) ord)"
  have is': "distinct ?is" "set ?is = {..<length out}"
    using worker_rows [OF ord] by auto
  have l: "\<forall>i<length out. length (out ! i) = n" using s by (simp add: summed_def)
  have m: "wf_matrix m" "J < m_columns m" "even n" "length out \<le> m_rows m"
    using ok J by (auto simp: fold_ok_def)
  have b: "\<forall>i\<in>set ?is. i < length out \<and> i < m_rows m" unfolding is'(2) using m(4) by auto
  from fold_rows [OF m(1-3) del(2) is'(1) b l] obtain out' where
    o: "foldR (fold_row ple m J (inp ! J)) ?is out = Inr out'" "length out' = length out"
      "\<forall>i<length out. length (out' ! i) = n \<and> (\<forall>k<n div 2. words (out' ! i) ! k
        = words (out ! i) ! k + (if i \<in> set ?is then el m i J * words (inp ! J) ! k else 0))"
    by blast
  have "summed m inp n (Suc J) out'"
    using o(2,3) s is'(2) by (auto simp: summed_def mrow_part_def)
  with o(1,2) del(1) show ?thesis by (simp add: foldR_concat)
qed

lemma fold_inputs_upto:
  assumes ok: "fold_ok m (length inp) n out" and del: "delivers next_fn n inp" and J: "J \<le> length inp"
    and s: "summed m inp n 0 out" and ord: "\<forall>j. mset (ord j) = mset [0..<g]" "0 < g"
  shows "\<exists>out'. foldR (\<lambda>j out'. bindR (next_fn j (replicate n 0)) (\<lambda>buf.
        foldR (\<lambda>w. foldR (fold_row ple m j buf) (rows_from w g (length out))) (ord j) out')) [0..<J] out = Inr out'
    \<and> length out' = length out \<and> summed m inp n J out'"
  using J
proof (induction J)
  case 0
  with s show ?case by simp
next
  case (Suc J)
  then obtain out1 where 1: "foldR (\<lambda>j out'. bindR (next_fn j (replicate n 0)) (\<lambda>buf.
        foldR (\<lambda>w. foldR (fold_row ple m j buf) (rows_from w g (length out))) (ord j) out')) [0..<J] out = Inr out1"
      "length out1 = length out" "summed m inp n J out1" by auto
  have ok1: "fold_ok m (length inp) n out1"
    using ok 1(2,3) by (auto simp: fold_ok_def summed_def all_set_conv_all_nth)
  have J: "J < length inp" "next_fn J (replicate n 0) = Inr (inp ! J)" "length (inp ! J) = n"
    using Suc.prems del by (auto simp: delivers_def)
  from fold_input [where next_fn = next_fn and ple = ple, OF ok1 J(1) J(2,3) 1(3) ord(1) [rule_format, of J] ord(2)] 1
  show ?case by (auto simp: foldR_append)
qed

lemma summed_complete:
  assumes "summed m inp n (length inp) out" "even n"
  shows "out = apply_spec m inp (length out) n"
proof (rule nth_equalityI)
  show "length out = length (apply_spec m inp (length out) n)" by (simp add: apply_spec_def)
  fix i assume i: "i < length out"
  then have "words (out ! i) = map (mrow m inp i) [0..<n div 2]"
    using assms by (intro nth_equalityI) (auto simp: summed_def mrow_part_all)
  moreover have "length (out ! i) = n" using assms(1) i by (simp add: summed_def)
  ultimately have "out ! i = unwords (map (mrow m inp i) [0..<n div 2])"
    using assms(2) by (metis unwords_words)
  with i show "out ! i = apply_spec m inp (length out) n ! i" by (simp add: apply_spec_def)
qed

lemma summed_zero:
  "\<forall>r\<in>set out. length r = n \<Longrightarrow> summed m inp n 0 (map (\<lambda>r. replicate (length r) 0) out)"
  by (simp add: summed_def mrow_part_def words_zero)

lemma foldInputsPureGo_eq:
  assumes ok: "fold_ok m (length inp) n out" "out \<noteq> []" "0 < g" and del: "delivers next_fn n inp"
    and ord: "\<forall>j. mset (ord j) = mset [0..<min g (length out)]"
  shows "foldInputsPureGo ple ord m (length inp) n next_fn out g = Inr (apply_spec m inp (length out) n)"
proof -
  let ?out0 = "map (\<lambda>r. replicate (length r) 0) out :: byte list list"
  let ?g = "if g > length out then length out else g"
  have l: "\<forall>r\<in>set out. length r = n" and e: "even n" using ok(1) by (auto simp: fold_ok_def)
  have ok0: "fold_ok m (length inp) n ?out0" using ok(1) by (auto simp: fold_ok_def)
  have g: "\<forall>j. mset (ord j) = mset [0..<?g]" "0 < ?g" using ord ok(2,3) by (auto simp: min_def)
  from fold_inputs_upto [OF ok0 del order_refl summed_zero [OF l] g, of ple]
  obtain out' where "foldInputsPureGo ple ord m (length inp) n next_fn out g = Inr out'"
    "length out' = length out" "summed m inp n (length inp) out'"
    by (auto simp: foldInputsPureGo_def Let_def)
  with summed_complete [OF this(3) e] show ?thesis by simp
qed

text \<open>An error of the callback ends the fold and is what it returns.\<close>

lemma foldInputsPureGo_error:
  assumes ok: "fold_ok m (length inp) n out" "out \<noteq> []" "0 < g" and del: "delivers next_fn n inp"
    and ord: "\<forall>j. mset (ord j) = mset [0..<min g (length out)]"
    and e: "next_fn (length inp) (replicate n 0) = Inl e" "length inp < numInputs"
  shows "foldInputsPureGo ple ord m numInputs n next_fn out g = Inl e"
proof -
  let ?out0 = "map (\<lambda>r. replicate (length r) 0) out :: byte list list"
  let ?g = "if g > length out then length out else g"
  have l: "\<forall>r\<in>set out. length r = n" using ok(1) by (auto simp: fold_ok_def)
  have ok0: "fold_ok m (length inp) n ?out0" using ok(1) by (auto simp: fold_ok_def)
  have g: "\<forall>j. mset (ord j) = mset [0..<?g]" "0 < ?g" using ord ok(2,3) by (auto simp: min_def)
  have u: "[0..<numInputs] = [0..<length inp] @ length inp # [Suc (length inp)..<numInputs]"
    using e(2) by (metis le_add_same_cancel1 less_imp_add_positive less_imp_le_nat upt_add_eq_append upt_conv_Cons le0 add_0)
  from fold_inputs_upto [OF ok0 del order_refl summed_zero [OF l] g, of ple]
  show ?thesis by (auto simp: foldInputsPureGo_def Let_def u foldR_append e(1))
qed

section \<open>Correctness of the batched fold\<close>

lemma fold_ranges_ok:
  assumes "0 < be_stride be" "be_stride be dvd be_bufSize be" "0 < be_bufSize be"
  shows "\<exists>per num. fold_ranges be = (per, num) \<and> 0 < per \<and> be_stride be dvd per
    \<and> num = (be_bufSize be + per - 1) div per"
proof -
  let ?t = "push_bit 10 128 :: nat"
  define per0 where "per0 = ?t - ?t mod be_stride be"
  define per1 where "per1 = (if per0 < be_stride be then be_stride be else per0)"
  define per where "per = (if per1 > be_bufSize be then be_bufSize be else per1)"
  have "be_stride be dvd per0" unfolding per0_def by (rule dvd_minus_mod)
  then have "be_stride be dvd per1" "0 < per1" using assms(1) by (auto simp: per1_def)
  then have "be_stride be dvd per" "0 < per" using assms by (auto simp: per_def)
  moreover have "fold_ranges be = (per, (be_bufSize be + per - 1) div per)"
    unfolding fold_ranges_def Let_def per_def per1_def per0_def ..
  ultimately show ?thesis by blast
qed

lemma fold_batch_pos:
  "0 < numInputs \<Longrightarrow> 0 < n \<Longrightarrow> \<exists>B. fold_batch numInputs n rows = Inr B \<and> 0 < B \<and> B \<le> foldBatchSize"
  by (auto simp: fold_batch_def go_div_def foldBatchSize_def)

context gf16_backend
begin

lemma readBank_ok:
  assumes del: "delivers next_fn n inp" and c: "base + c \<le> length inp"
  shows "\<exists>bs. readBank be next_fn n base c = Inr bs \<and> length bs = c \<and> (\<forall>b\<in>set bs. good b)
    \<and> (\<forall>j<c. \<forall>k<n div 2. val (bs ! j) k = words (inp ! (base + j)) ! k)"
proof -
  let ?xs = "map (\<lambda>b. inp ! (base + b)) [0..<c]"
  have "readBank be next_fn n base c = mapR (\<lambda>x. be_prepare be (be_newBuffer be) x) ?xs"
  proof -
    have "mapR (\<lambda>b. bindR (next_fn (base + b) (replicate n 0)) (be_prepare be (be_newBuffer be))) bs
        = mapR (\<lambda>x. be_prepare be (be_newBuffer be) x) (map (\<lambda>b. inp ! (base + b)) bs)"
      if "\<forall>b\<in>set bs. b < c" for bs
      using that del c by (induction bs) (auto simp: delivers_def)
    then show ?thesis by (simp add: readBank_def)
  qed
  moreover have "\<forall>x\<in>set ?xs. length x = n" using del c by (auto simp: delivers_def)
  ultimately show ?thesis using prepare_all [of ?xs] by auto
qed

lemma fold_batches_ok:
  assumes m: "wf_matrix m" "length inp \<le> m_columns m" "rows \<le> m_rows m"
    and del: "delivers next_fn n inp" and B: "0 < B"
    and per: "0 < per" "be_stride be dvd per" "num = (be_bufSize be + per - 1) div per"
    and sched: "\<forall>j. mset (sched j) = mset (gf16_units (be_bufSize be) per num rows)"
    and J: "J \<le> length inp"
    and accs: "length accs = rows" "\<forall>b\<in>set accs. good b"
      "\<forall>i<rows. \<forall>k<n div 2. val (accs ! i) k = mrow_part m inp 0 J i k"
  shows "\<exists>accs'. fold_batches be sched m B (length inp) n next_fn J accs = Inr accs'
    \<and> length accs' = rows \<and> (\<forall>b\<in>set accs'. good b)
    \<and> (\<forall>i<rows. \<forall>k<n div 2. val (accs' ! i) k = mrow m inp i k)"
  using J accs
proof (induction "length inp - J" arbitrary: J accs rule: less_induct)
  case less
  let ?c = "min B (length inp - J)"
  show ?case
  proof (cases "?c = 0")
    case True
    then have "J = length inp" using B less.prems(1) by auto
    with less.prems show ?thesis
      by (subst fold_batches.simps) (simp add: mrow_part_all)
  next
    case False
    have c: "J + ?c \<le> length inp" "J + ?c \<le> m_columns m" using less.prems(1) m(2) by auto
    obtain bs where bs: "readBank be next_fn n J ?c = Inr bs" "length bs = ?c" "\<forall>b\<in>set bs. good b"
        "\<forall>j<?c. \<forall>k<n div 2. val (bs ! j) k = words (inp ! (J + j)) ! k"
      using readBank_ok [OF del c(1)] by blast
    from run_schedule [OF m(1) c(2) m(3) bs(2-4) per sched [rule_format, of J] less.prems(2,3)]
    obtain accs1 where 1: "foldR (gf16_run_unit be m bs J ?c) (sched J) accs = Inr accs1"
        "length accs1 = rows" "\<forall>b\<in>set accs1. good b"
        "\<forall>i<rows. \<forall>k<n div 2. val (accs1 ! i) k = val (accs ! i) k + mrow_part m inp J ?c i k" by blast
    have v: "\<forall>i<rows. \<forall>k<n div 2. val (accs1 ! i) k = mrow_part m inp 0 (J + ?c) i k"
      using 1(4) less.prems(4) mrow_part_add [of m inp 0 J _ _ ?c] by simp
    have "length inp - (J + ?c) < length inp - J" using False by auto
    from less.hyps [OF this c(1) 1(2,3) v] show ?thesis
      by (subst fold_batches.simps) (simp only: Let_def False if_False bs(1) 1(1) bindR_simps)
  qed
qed

lemma foldInputsGF16_eq:
  assumes ok: "fold_ok m (length inp) n out" and del: "delivers next_fn n inp" "inp \<noteq> []"
    and ctx: "mkctx n = Inr be" and sched: "\<forall>j. mset (sched j) = mset (fold_units be (length out))"
  shows "foldInputsGF16 mkctx sched m (length inp) n next_fn out = Inr (apply_spec m inp (length out) n)"
proof -
  let ?rows = "length out"
  have o: "wf_matrix m" "length inp \<le> m_columns m" "?rows \<le> m_rows m" "\<forall>x\<in>set out. length x = n"
    using ok by (auto simp: fold_ok_def)
  let ?zeros = "map (\<lambda>_. replicate n 0) out :: byte list list"
  have "mapR (\<lambda>_. be_prepare be (be_newBuffer be) (replicate n 0)) out
      = mapR (\<lambda>x. be_prepare be (be_newBuffer be) x) ?zeros"
    by (induction out) auto
  moreover obtain accs where accs: "mapR (\<lambda>x. be_prepare be (be_newBuffer be) x) ?zeros = Inr accs"
      "length accs = ?rows" "\<forall>b\<in>set accs. good b"
      "\<forall>i<?rows. \<forall>k<n div 2. val (accs ! i) k = words (?zeros ! i) ! k"
    using prepare_all [of ?zeros] by auto
  ultimately have zero: "mapR (\<lambda>_. be_prepare be (be_newBuffer be) (replicate n 0)) out = Inr accs" by simp
  have v0: "\<forall>i<?rows. \<forall>k<n div 2. val (accs ! i) k = mrow_part m inp 0 0 i k"
    using accs(4) by (simp add: words_zero mrow_part_def)
  obtain B where B: "fold_batch (length inp) n ?rows = Inr B" "0 < B"
    using fold_batch_pos [of "length inp" n ?rows] del(2) size_even(1) by auto
  from fold_ranges_ok [OF stride_pos stride_dvd bufSize_pos] obtain per num where
    par: "fold_ranges be = (per, num)" "0 < per" "be_stride be dvd per"
      "num = (be_bufSize be + per - 1) div per" by blast
  have sch: "\<forall>j. mset (sched j) = mset (gf16_units (be_bufSize be) per num ?rows)"
    using sched par(1) by (simp add: fold_units_def)
  from fold_batches_ok [OF o(1-3) del(1) B(2) par(2-4) sch le0 accs(2,3) v0] obtain accs' where
    run: "fold_batches be sched m B (length inp) n next_fn 0 accs = Inr accs'"
      "length accs' = ?rows" "\<forall>b\<in>set accs'. good b"
      "\<forall>i<?rows. \<forall>k<n div 2. val (accs' ! i) k = mrow m inp i k" by blast
  have "map (\<lambda>b. unwords (map (val b) [0..<n div 2])) accs' = apply_spec m inp ?rows n"
    by (rule accs_apply_spec [OF run(2,4)])
  with finish_all [OF run(3) o(4) run(2)] ctx zero B(1) run(1) show ?thesis
    by (simp add: foldInputsGF16_def)
qed

end

lemma foldInputsGF16_pure:
  assumes "fold_ok m (length inp) n out" "delivers next_fn n inp" "inp \<noteq> []" "0 < n"
    and "\<forall>j. mset (sched j) = mset (fold_units (pure_methods ple (pure_context n)) (length out))"
  shows "foldInputsGF16 (pure_backend ple) sched m (length inp) n next_fn out
    = Inr (apply_spec m inp (length out) n)"
proof -
  have "even n" using assms(1) by (simp add: fold_ok_def)
  then obtain h where h: "n = 2 * Suc h" using assms(4) by (metis evenE gr0_implies_Suc mult_is_0 not_gr0)
  show ?thesis
    using pure.foldInputsGF16_eq [of m inp h out next_fn "pure_backend ple" ple sched] assms
    unfolding h by (simp add: pure_backend_eq)
qed

end
