(* ===== verification/Coder.thy ===== *)
theory Coder
  imports Fold Complex_Main
begin

text \<open>
  The Reed-Solomon coder of src/rsec16 (coder.go, cauchy.go, vandermonde.go): the generator table,
  the two kinds of parity matrix, parity generation, the reconstruction matrix in its direct and its
  streamed form, and the reconstruction of missing data shards.
\<close>

section \<open>The environment of a call\<close>

text \<open>
  What a call depends on besides its arguments: the byte order of the platform, the SIMD backend if
  there is one, and the scheduler, as permutations of the goroutines and of the work units of each
  round.
\<close>

record env =
  e_ple :: bool
  e_accel :: "(nat \<Rightarrow> backend res) option"
  e_perm :: "nat \<Rightarrow> nat list \<Rightarrow> nat list"
  e_uperm :: "nat \<Rightarrow> (nat \<times> nat \<times> nat) list \<Rightarrow> (nat \<times> nat \<times> nat) list"

definition backend_ok :: "(nat \<Rightarrow> backend res) \<Rightarrow> bool" where
  "backend_ok mkctx \<longleftrightarrow> (\<forall>n. 0 < n \<and> even n \<longrightarrow>
     (\<exists>be good val blk. mkctx n = Inr be \<and> gf16_backend be n good val blk))"

definition env_ok :: "env \<Rightarrow> bool" where
  "env_ok e \<longleftrightarrow> (\<forall>j xs. mset (e_perm e j xs) = mset xs) \<and> (\<forall>j us. mset (e_uperm e j us) = mset us)
     \<and> (case e_accel e of None \<Rightarrow> True | Some mkctx \<Rightarrow> backend_ok mkctx)"

text \<open>The environments of the pure-Go build, and one with the pure-Go backend behind the interface.\<close>

definition pure_env :: "bool \<Rightarrow> env" where
  "pure_env ple = \<lparr>e_ple = ple, e_accel = None, e_perm = (\<lambda>_ xs. xs), e_uperm = (\<lambda>_ us. us)\<rparr>"

definition backend_env :: "bool \<Rightarrow> env" where
  "backend_env ple = \<lparr>e_ple = ple, e_accel = Some (pure_backend ple), e_perm = (\<lambda>_ xs. xs), e_uperm = (\<lambda>_ us. us)\<rparr>"

lemma pure_backend_ok: "backend_ok (pure_backend ple)"
  unfolding backend_ok_def using pure_backend_eq pure_backend_laws by blast

lemma env_ok_pure [simp]: "env_ok (pure_env ple)" "env_ok (backend_env ple)"
  by (simp_all add: env_ok_def pure_env_def backend_env_def pure_backend_ok)

section \<open>Coders\<close>

record Coder =
  dataShards :: nat
  parityShards :: nat
  c_numGoroutines :: nat
  parityMatrix :: matrix

definition newCauchyMatrix :: "nat \<Rightarrow> nat \<Rightarrow> (nat \<Rightarrow> T) \<Rightarrow> (nat \<Rightarrow> T) \<Rightarrow> matrix res" where
  "newCauchyMatrix r c xFunc yFunc =
     NewMatrixFromFunction r c (\<lambda>i j. T_Inverse (T_Plus (xFunc i) (yFunc j)))"

definition newCauchyParityMatrix :: "nat \<Rightarrow> nat \<Rightarrow> matrix res" where
  "newCauchyParityMatrix d p =
     newCauchyMatrix p d (\<lambda>i. T (of_nat (d + i))) (\<lambda>i. T (of_nat i))"

definition NewCoderCauchy :: "int \<Rightarrow> int \<Rightarrow> int \<Rightarrow> Coder res" where
  "NewCoderCauchy d p g =
     (if d \<le> 0 then Inl (Panic ''invalid data shard count'')
      else if p \<le> 0 then Inl (Panic ''invalid parity shard count'')
      else if g \<le> 0 then Inl (Panic ''invalid goroutine count'')
      else if d + p > 65535 then Inl (ErrorNew ''too many shards'')
      else bindR (newCauchyParityMatrix (nat d) (nat p)) (\<lambda>m.
           Inr \<lparr>dataShards = nat d, parityShards = nat p, c_numGoroutines = nat g, parityMatrix = m\<rparr>))"

text \<open>The table built by \<open>init\<close>: \<open>gen_loop\<close> runs over the remaining values of \<open>i\<close>.\<close>

fun gen_loop :: "nat list \<Rightarrow> T list \<Rightarrow> T list res" where
  "gen_loop [] gens = Inr gens"
| "gen_loop (i # is) gens =
     (if i mod 3 = 0 \<or> i mod 5 = 0 \<or> i mod 17 = 0 \<or> i mod 257 = 0 then gen_loop is gens
      else bindR (T_Pow (T 2) (of_nat i)) (\<lambda>g. gen_loop is (gens @ [g])))"

definition generators :: "T list" where
  "generators = (case gen_loop [0..<65536] [] of Inr gs \<Rightarrow> gs | Inl _ \<Rightarrow> [])"

definition newVandermondeMatrix :: "nat \<Rightarrow> nat \<Rightarrow> (nat \<Rightarrow> T res) \<Rightarrow> matrix res" where
  "newVandermondeMatrix r c alphaColumnFunc =
     NewMatrixFromFunction r c (\<lambda>i j. bindR (alphaColumnFunc j) (\<lambda>a. T_Pow a (of_nat i)))"

definition newVandermondeParityMatrix :: "nat \<Rightarrow> nat \<Rightarrow> matrix res" where
  "newVandermondeParityMatrix d p = newVandermondeMatrix p d (index_at generators)"

definition NewCoderPAR2Vandermonde :: "int \<Rightarrow> int \<Rightarrow> int \<Rightarrow> Coder res" where
  "NewCoderPAR2Vandermonde d p g =
     (if d \<le> 0 then Inl (Panic ''invalid data shard count'')
      else if p \<le> 0 then Inl (Panic ''invalid parity shard count'')
      else if g \<le> 0 then Inl (Panic ''invalid goroutine count'')
      else if d > int (length generators) then Inl (ErrorNew ''too many data shards'')
      else if p > 65535 then Inl (ErrorNew ''too many parity shards'')
      else bindR (newVandermondeParityMatrix (nat d) (nat p)) (\<lambda>m.
           Inr \<lparr>dataShards = nat d, parityShards = nat p, c_numGoroutines = nat g, parityMatrix = m\<rparr>))"

definition NewCoderPAR2VandermondeRows :: "int \<Rightarrow> int list \<Rightarrow> int \<Rightarrow> Coder res" where
  "NewCoderPAR2VandermondeRows d parityRows g =
     (if d \<le> 0 \<or> parityRows = [] \<or> g \<le> 0 then Inl (Panic ''invalid coder dimensions or goroutine count'')
      else if d > int (length generators) then Inl (ErrorNew ''too many data shards'')
      else if \<exists>r\<in>set parityRows. r < 0 \<or> r > 65535 then Inl (ErrorNew ''parity exponent out of range'')
      else bindR (NewMatrixFromFunction (length parityRows) (nat d) (\<lambda>i j.
             bindR (index_at generators j) (\<lambda>a. bindR (index_at parityRows i) (\<lambda>r. T_Pow a (of_int r))))) (\<lambda>m.
           Inr \<lparr>dataShards = nat d, parityShards = length parityRows, c_numGoroutines = nat g, parityMatrix = m\<rparr>))"

section \<open>Parity\<close>

definition applyMatrix :: "env \<Rightarrow> Coder \<Rightarrow> matrix \<Rightarrow> byte list list \<Rightarrow> byte list list \<Rightarrow> byte list list res" where
  "applyMatrix e c m inp out =
     (case e_accel e of
        Some mkctx \<Rightarrow>
          applyMatrixGF16 mkctx
            (case index_at inp 0 of Inl _ \<Rightarrow> [] | Inr in0 \<Rightarrow>
             case mkctx (length in0) of Inl _ \<Rightarrow> [] | Inr be \<Rightarrow>
             e_uperm e 0 (gf16_schedule be (c_numGoroutines c) (length out)))
            m inp (c_numGoroutines c) out
      | None \<Rightarrow>
          applyMatrixParallelData (e_ple e)
            (case index_at out 0 of Inl _ \<Rightarrow> [] | Inr out0 \<Rightarrow>
             e_perm e 0 [0..<num_goroutines (length out0) (c_numGoroutines c) 16 16])
            m inp (c_numGoroutines c) out)"

definition GenerateParity :: "env \<Rightarrow> Coder \<Rightarrow> byte list list \<Rightarrow> byte list list res" where
  "GenerateParity e c data =
     bindR (index_at data 0) (\<lambda>d0.
     applyMatrix e c (parityMatrix c) data (replicate (parityShards c) (replicate (length d0) 0)))"

definition FoldInputs ::
  "env \<Rightarrow> matrix \<Rightarrow> nat \<Rightarrow> nat \<Rightarrow> (nat \<Rightarrow> byte list \<Rightarrow> byte list res) \<Rightarrow> byte list list \<Rightarrow> int \<Rightarrow> byte list list res" where
  "FoldInputs e m numInputs sliceSz next_fn out g =
     foldInputs (e_ple e) (e_accel e)
       (\<lambda>j. e_perm e j [0..<min (if g < 1 then 1 else nat g) (length out)])
       (\<lambda>j. case e_accel e of None \<Rightarrow> [] | Some mkctx \<Rightarrow>
          (case mkctx sliceSz of Inl _ \<Rightarrow> [] | Inr be \<Rightarrow> e_uperm e j (fold_units be (length out))))
       m numInputs sliceSz next_fn out g"

section \<open>The reconstruction matrix\<close>

definition makeReconstructionMatrix :: "nat \<Rightarrow> nat list \<Rightarrow> nat list \<Rightarrow> nat list \<Rightarrow> matrix \<Rightarrow> matrix res" where
  "makeReconstructionMatrix d availableRows missingRows usedParityRows P =
     bindR (NewMatrixFromFunction (length usedParityRows) (length usedParityRows) (\<lambda>i j.
       bindR (index_at usedParityRows i) (\<lambda>k. bindR (index_at missingRows j) (\<lambda>l. At P k l)))) (\<lambda>m.
     bindR (NewMatrixFromFunction (length usedParityRows) d (\<lambda>i j.
       if j < length availableRows
       then bindR (index_at usedParityRows i) (\<lambda>k. bindR (index_at availableRows j) (\<lambda>l. At P k l))
       else if i = j - length availableRows then Inr 1 else Inr 0)) (\<lambda>n.
     RowReduceForInverse m n))"

text \<open>\<open>binary.LittleEndian.PutUint16(buf[o:], v)\<close> and \<open>Uint16(buf[o:])\<close>\<close>

definition PutUint16_at :: "byte list \<Rightarrow> nat \<Rightarrow> u16 \<Rightarrow> byte list res" where
  "PutUint16_at buf off v =
     (if off + 2 \<le> length buf then Inr (splice buf off (le_bytes 2 v)) else Inl index_panic)"

definition Uint16_at :: "byte list \<Rightarrow> nat \<Rightarrow> u16 res" where
  "Uint16_at buf off = (if off + 2 \<le> length buf then Inr (le_word (slice buf off (off + 2))) else Inl index_panic)"

text \<open>The callback that writes row \<open>i\<close> of the right-hand side into the buffer.\<close>

definition reconstruction_next ::
  "nat list \<Rightarrow> nat list \<Rightarrow> matrix \<Rightarrow> nat \<Rightarrow> byte list \<Rightarrow> byte list res" where
  "reconstruction_next availableRows usedParityRows P i buf =
     bindR (foldR (\<lambda>j buf.
         bindR (index_at usedParityRows i) (\<lambda>k. bindR (index_at availableRows j) (\<lambda>l. bindR (At P k l) (\<lambda>t.
         PutUint16_at buf (2 * j) (raw t))))) [0..<length availableRows] buf) (\<lambda>buf.
     PutUint16_at buf (2 * (length availableRows + i)) 1)"

definition ReconstructionMatrix :: "env \<Rightarrow> Coder \<Rightarrow> nat list \<Rightarrow> nat list \<Rightarrow> nat list \<Rightarrow> matrix res" where
  "ReconstructionMatrix e c availableRows missingRows usedParityRows =
     (if length missingRows < 32 \<or> dataShards c < 4 * length missingRows
      then makeReconstructionMatrix (dataShards c) availableRows missingRows usedParityRows (parityMatrix c)
      else bindR (NewMatrixFromFunction (length usedParityRows) (length missingRows) (\<lambda>i j.
             bindR (index_at usedParityRows i) (\<lambda>k. bindR (index_at missingRows j) (\<lambda>l. At (parityMatrix c) k l)))) (\<lambda>square.
           bindR (Inverse square) (\<lambda>minv.
           bindR (FoldInputs e minv (length usedParityRows) (2 * dataShards c)
                   (reconstruction_next availableRows usedParityRows (parityMatrix c))
                   (replicate (length missingRows) (replicate (2 * dataShards c) 0))
                   (int (c_numGoroutines c))) (\<lambda>out.
           NewMatrixFromFunction (length missingRows) (dataShards c) (\<lambda>i j.
             bindR (index_at out i) (\<lambda>r. bindR (Uint16_at r (2 * j)) (\<lambda>w. Inr (T w))))))))"

section \<open>Reconstruction\<close>

text \<open>
  A shard is \<open>None\<close> where the code has a nil slice.  \<open>split_data\<close> is the first loop, \<open>pick_parity\<close>
  the second: it stops as soon as there are enough inputs.
\<close>

fun split_data :: "nat \<Rightarrow> byte list option list \<Rightarrow> nat list \<times> nat list \<times> byte list list" where
  "split_data i [] = ([], [], [])"
| "split_data i (Some s # ds) = (case split_data (Suc i) ds of (av, mi, inp) \<Rightarrow> (i # av, mi, s # inp))"
| "split_data i (None # ds) = (case split_data (Suc i) ds of (av, mi, inp) \<Rightarrow> (av, i # mi, inp))"

fun pick_parity :: "nat \<Rightarrow> nat \<Rightarrow> byte list option list \<Rightarrow> nat list \<Rightarrow> byte list list \<Rightarrow> nat list \<times> byte list list" where
  "pick_parity d i [] used inp = (used, inp)"
| "pick_parity d i (p # ps) used inp =
     (if length inp < d
      then (case p of Some s \<Rightarrow> pick_parity d (Suc i) ps (used @ [i]) (inp @ [s])
                    | None \<Rightarrow> pick_parity d (Suc i) ps used inp)
      else (used, inp))"

definition ReconstructData ::
  "env \<Rightarrow> Coder \<Rightarrow> byte list option list \<Rightarrow> byte list option list \<Rightarrow> byte list option list res" where
  "ReconstructData e c data parity =
     (case split_data 0 data of (availableRows, missingRows, input0) \<Rightarrow>
      if length missingRows = 0 then Inr data
      else case pick_parity (dataShards c) 0 parity [] input0 of (usedParityRows, input) \<Rightarrow>
      if length input < dataShards c then Inl NotEnoughParityShardsError
      else bindR (ReconstructionMatrix e c availableRows missingRows usedParityRows) (\<lambda>m.
           bindR (index_at input 0) (\<lambda>in0.
           bindR (applyMatrix e c m input (replicate (length missingRows) (replicate (length in0) 0))) (\<lambda>rec.
           foldR (\<lambda>i data.
             bindR (index_at missingRows i) (\<lambda>r. bindR (index_at rec i) (\<lambda>s. put data r (Some s))))
             [0..<length missingRows] data))))"

section \<open>The products are computed in every environment\<close>

lemma backend_okE:
  assumes "env_ok e" "e_accel e = Some mkctx" "0 < n" "even n"
  obtains be good val blk where "mkctx n = Inr be" "gf16_backend be n good val blk"
  using assms by (auto simp: env_ok_def backend_ok_def)

lemma env_perm: "env_ok e \<Longrightarrow> mset (e_perm e j xs) = mset xs" "env_ok e \<Longrightarrow> mset (e_uperm e j us) = mset us"
  by (simp_all add: env_ok_def)

lemma applyMatrix_eq:
  assumes e: "env_ok e" and ok: "apply_ok m inp n out" and pos: "0 < n" "0 < c_numGoroutines c"
  shows "applyMatrix e c m inp out = Inr (apply_spec m inp (length out) n)"
proof (cases "e_accel e")
  case None
  have "length (out ! 0) = n" "0 < length out" using ok by (auto simp: apply_ok_def)
  with None applyMatrixParallelData_eq [OF ok pos(2)] env_perm(1) [OF e] show ?thesis
    by (simp add: applyMatrix_def)
next
  case (Some mkctx)
  have n: "length (inp ! 0) = n" "0 < length inp" "even n" using ok by (auto simp: apply_ok_def)
  obtain be good val blk where b: "mkctx n = Inr be" "gf16_backend be n good val blk"
    using backend_okE [OF e Some pos(1) n(3)] .
  with Some n gf16_backend.applyMatrixGF16_eq [where mkctx = mkctx, OF b(2) ok b(1)] env_perm(2) [OF e] show ?thesis
    by (simp add: applyMatrix_def)
qed

lemma FoldInputs_eq:
  assumes e: "env_ok e" and ok: "fold_ok m (length inp) n out" "out \<noteq> []" "inp \<noteq> []"
    and del: "delivers next_fn n inp" and pos: "0 < n"
  shows "FoldInputs e m (length inp) n next_fn out g = Inr (apply_spec m inp (length out) n)"
proof (cases "e_accel e")
  case None
  let ?g = "if g < 1 then 1 else nat g"
  have "foldInputsPureGo (e_ple e) (\<lambda>j. e_perm e j [0..<min ?g (length out)]) m (length inp) n next_fn out ?g
      = Inr (apply_spec m inp (length out) n)"
    using env_perm(1) [OF e] by (intro foldInputsPureGo_eq ok del) auto
  with None ok show ?thesis by (simp add: FoldInputs_def foldInputs_def)
next
  case (Some mkctx)
  have "even n" using ok(1) by (simp add: fold_ok_def)
  then obtain be good val blk where b: "mkctx n = Inr be" "gf16_backend be n good val blk"
    using backend_okE [OF e Some pos] by blast
  have "foldInputsGF16 mkctx (\<lambda>j. e_uperm e j (fold_units be (length out))) m (length inp) n next_fn out
      = Inr (apply_spec m inp (length out) n)"
    using env_perm(2) [OF e] by (intro gf16_backend.foldInputsGF16_eq [where mkctx = mkctx, OF b(2) ok(1) del ok(3) b(1)]) auto
  with Some b(1) ok show ?thesis by (simp add: FoldInputs_def foldInputs_def)
qed

definition coder_ok :: "Coder \<Rightarrow> bool" where
  "coder_ok c \<longleftrightarrow> 0 < dataShards c \<and> 0 < parityShards c \<and> 0 < c_numGoroutines c
     \<and> wf_matrix (parityMatrix c) \<and> m_rows (parityMatrix c) = parityShards c
     \<and> m_columns (parityMatrix c) = dataShards c"

definition shards_ok :: "nat \<Rightarrow> nat \<Rightarrow> byte list list \<Rightarrow> bool" where
  "shards_ok d n D \<longleftrightarrow> length D = d \<and> 0 < n \<and> even n \<and> (\<forall>s\<in>set D. length s = n)"

lemma shards_ok_nth: "shards_ok d n D \<Longrightarrow> i < d \<Longrightarrow> length (D ! i) = n"
  by (simp add: shards_ok_def)

lemma GenerateParity_eq:
  assumes "env_ok e" "coder_ok c" "shards_ok (dataShards c) n D"
  shows "GenerateParity e c D = Inr (apply_spec (parityMatrix c) D (parityShards c) n)"
proof -
  have d: "0 < length D" "length (D ! 0) = n" using assms(2,3) by (auto simp: coder_ok_def shards_ok_def)
  let ?out = "replicate (parityShards c) (replicate n 0) :: byte list list"
  have "apply_ok (parityMatrix c) D n ?out"
    using assms(2,3) d by (auto simp: apply_ok_def coder_ok_def shards_ok_def)
  from applyMatrix_eq [OF assms(1) this, of c] assms(2,3) d show ?thesis
    by (simp add: GenerateParity_def coder_ok_def shards_ok_def)
qed

section \<open>The matrices that the constructors build\<close>

lemma NewCoder_dims:
  "NewCoderCauchy d p g = Inr c \<Longrightarrow> 0 < d \<and> 0 < p \<and> 0 < g \<and> d + p \<le> 65535"
  "NewCoderPAR2Vandermonde d p g = Inr c \<Longrightarrow> 0 < d \<and> 0 < p \<and> 0 < g \<and> d \<le> int (length generators) \<and> p \<le> 65535"
  by (auto simp: NewCoderCauchy_def NewCoderPAR2Vandermonde_def split: if_splits)


lemma NewMatrixFromFunction_coder:
  assumes "0 < d" "0 < p" "0 < g" "\<And>i j. i < p \<Longrightarrow> j < d \<Longrightarrow> fn i j = Inr (f i j)"
  shows "bindR (NewMatrixFromFunction p d fn) (\<lambda>m.
      Inr \<lparr>dataShards = d, parityShards = p, c_numGoroutines = g, parityMatrix = m\<rparr>)
    = Inr \<lparr>dataShards = d, parityShards = p, c_numGoroutines = g, parityMatrix = mk_matrix p d f\<rparr>"
  using assms by (simp add: NewMatrixFromFunction_eq)

definition mk_coder :: "nat \<Rightarrow> nat \<Rightarrow> nat \<Rightarrow> (nat \<Rightarrow> nat \<Rightarrow> T) \<Rightarrow> Coder" where
  "mk_coder d p g f = \<lparr>dataShards = d, parityShards = p, c_numGoroutines = g, parityMatrix = mk_matrix p d f\<rparr>"

lemma coder_ok_mk: "0 < d \<Longrightarrow> 0 < p \<Longrightarrow> 0 < g \<Longrightarrow> coder_ok (mk_coder d p g f)"
  by (simp add: coder_ok_def mk_coder_def)

definition elt :: "nat \<Rightarrow> T" where
  "elt i = T (of_nat i)"

lemma elt_inj: "i < 65536 \<Longrightarrow> j < 65536 \<Longrightarrow> elt i = elt j \<longleftrightarrow> i = j"
  by (auto simp: elt_def word_unat_eq_iff unat_of_nat)

lemma NewCoderCauchy_eq:
  assumes "0 < d" "0 < p" "0 < g" "d + p \<le> 65535"
  shows "NewCoderCauchy (int d) (int p) (int g) = Inr (mk_coder d p g (\<lambda>i j. inverse (elt (d + i) + elt j)))"
proof -
  have nz: "elt (d + i) + elt j \<noteq> 0" if "i < p" "j < d" for i j
    using elt_inj [of "d + i" j] assms(4) that by (simp add: T_add_eq_0_iff)
  have "T_Inverse (T_Plus (T (of_nat (d + i))) (T (of_nat j))) = Inr (inverse (elt (d + i) + elt j))"
    if "i < p" "j < d" for i j
    unfolding T_Plus_eq elt_def [symmetric] using nz [OF that] by (rule T_Inverse_eq)
  with assms show ?thesis
    by (simp add: NewCoderCauchy_def newCauchyParityMatrix_def newCauchyMatrix_def
        NewMatrixFromFunction_eq mk_coder_def)
qed

subsection \<open>The generators\<close>

definition gen_index :: "nat \<Rightarrow> bool" where
  "gen_index i \<longleftrightarrow> \<not> (i mod 3 = 0 \<or> i mod 5 = 0 \<or> i mod 17 = 0 \<or> i mod 257 = 0)"

lemma gen_loop_eq:
  "\<forall>i\<in>set is. i < 2 ^ 32 \<Longrightarrow> gen_loop is gens = Inr (gens @ map (\<lambda>i. T 2 ^ i) (filter gen_index is))"
proof (induction "is" arbitrary: gens)
  case Nil
  then show ?case by simp
next
  case (Cons i js)
  have "unat (of_nat i :: u32) = i" using Cons.prems by (simp add: unat_of_nat)
  with Cons show ?case by (simp add: gen_index_def)
qed

lemma generators_eq: "generators = map (\<lambda>i. T 2 ^ i) (filter gen_index [0..<65536])"
proof -
  have "gen_loop [0..<65536] [] = Inr ([] @ map (\<lambda>i. T 2 ^ i) (filter gen_index [0..<65536]))"
    by (rule gen_loop_eq) auto
  then show ?thesis unfolding generators_def by simp
qed

lemma gen_index_less: "i < 65536 \<Longrightarrow> gen_index i \<Longrightarrow> i < 65535"
  by (cases "i = 65535") (auto simp: gen_index_def)

lemma primitive_gen:
  assumes "gen_index i"
  shows "primitive (T 2 ^ i)"
proof -
  have one: "65535 dvd i * k" if "(T 2 ^ i) ^ k = 1" for k
    using primitive_order [OF primitive_2, of "i * k"] that by (simp add: power_mult)
  have no: "(T 2 ^ i) ^ k \<noteq> 1" if k: "65535 = k * q" "\<not> q dvd i" for k q
  proof
    assume "(T 2 ^ i) ^ k = 1"
    then have "k * q dvd k * i" using one [of k] unfolding k(1) [symmetric] by (simp only: mult.commute)
    moreover have "k \<noteq> 0" using k(1) by (intro notI) simp
    ultimately have "q dvd i" by simp
    with k(2) show False by simp
  qed
  have "(T 2 ^ i) ^ 65535 = (T 2 ^ 65535) ^ i" by (simp only: power_mult [symmetric] mult.commute)
  also have "\<dots> = 1" using primitive_2 by (simp add: primitive_def)
  finally show ?thesis
    using assms no [of 21845 3] no [of 13107 5] no [of 3855 17] no [of 255 257]
    unfolding primitive_def gen_index_def dvd_eq_mod_eq_0 by simp
qed

lemma set_generators: "g \<in> set generators \<Longrightarrow> primitive g"
  by (auto simp: generators_eq primitive_gen)

lemma distinct_generators: "distinct generators"
  unfolding generators_eq distinct_map
  using primitive_inj [OF primitive_2] gen_index_less by (auto intro: inj_on_subset)

text \<open>Counting the indices: by the Chinese remainder theorem for 3, 5, 17 and 257.\<close>

definition residues :: "nat \<Rightarrow> nat \<times> nat \<times> nat \<times> nat" where
  "residues i = (i mod 3, i mod 5, i mod 17, i mod 257)"

lemma residues_inj: "inj_on residues {..<65535}"
proof (rule linorder_inj_onI')
  fix i j :: nat
  assume ij: "i \<in> {..<65535}" "j \<in> {..<65535}" "i < j"
  show "residues i \<noteq> residues j"
  proof
    assume "residues i = residues j"
    then have d: "3 dvd j - i" "5 dvd j - i" "17 dvd j - i" "257 dvd j - i"
      using ij(3) by (auto simp: residues_def mod_eq_dvd_iff_nat [symmetric] less_imp_le)
    have "3 * 5 * 17 * 257 dvd j - i"
      by (intro divides_mult d) (simp_all add: coprime_iff_gcd_eq_1 gcd_non_0_nat)
    then have "65535 \<le> j - i" using ij(3) by (intro dvd_imp_le) auto
    with ij show False by simp
  qed
qed

lemma residues_image: "residues ` {..<65535} = {..<3} \<times> {..<5} \<times> {..<17} \<times> {..<257}"
proof (rule card_subset_eq)
  show "card (residues ` {..<65535}) = card ({..<3::nat} \<times> {..<5::nat} \<times> {..<17::nat} \<times> {..<257::nat})"
    by (simp add: card_image [OF residues_inj])
qed (auto simp: residues_def)

lemma length_generators: "length generators = 32768"
proof -
  let ?S = "set (filter gen_index [0..<65536])"
  have S: "?S = {i. i < 65535 \<and> gen_index i}" using gen_index_less by auto
  have "residues ` ?S = {1..<3} \<times> {1..<5} \<times> {1..<17} \<times> {1..<257}"
  proof (intro equalityI subsetI)
    fix x assume "x \<in> residues ` ?S"
    then show "x \<in> {1..<3} \<times> {1..<5} \<times> {1..<17} \<times> {1..<257}"
      unfolding S by (auto simp: residues_def gen_index_def Suc_le_eq)
  next
    fix x :: "nat \<times> nat \<times> nat \<times> nat"
    assume x: "x \<in> {1..<3} \<times> {1..<5} \<times> {1..<17} \<times> {1..<257}"
    then have "x \<in> residues ` {..<65535}" unfolding residues_image by auto
    then obtain i where i: "i < 65535" "x = residues i" by auto
    with x have "gen_index i" by (auto simp: residues_def gen_index_def)
    with i show "x \<in> residues ` ?S" unfolding S by auto
  qed
  moreover have "inj_on residues ?S" unfolding S by (rule inj_on_subset [OF residues_inj]) auto
  ultimately have "card ?S = card ({1..<3::nat} \<times> {1..<5::nat} \<times> {1..<17::nat} \<times> {1..<257::nat})"
    by (metis card_image)
  also have "\<dots> = 32768" by simp
  also have "card ?S = length (filter gen_index [0..<65536])" by (intro distinct_card distinct_filter) simp
  finally show ?thesis unfolding generators_eq by simp
qed

lemma NewCoderPAR2VandermondeRows_eq:
  assumes "0 < d" "rows \<noteq> []" "0 < g" "d \<le> int (length generators)" "\<forall>r\<in>set rows. 0 \<le> r \<and> r \<le> 65535"
  shows "NewCoderPAR2VandermondeRows d rows g
    = Inr (mk_coder (nat d) (length rows) (nat g) (\<lambda>i j. generators ! j ^ nat (rows ! i)))"
proof -
  have "bindR (index_at generators j) (\<lambda>a. bindR (index_at rows i) (\<lambda>r. T_Pow a (of_int r)))
      = Inr (generators ! j ^ nat (rows ! i))" if "i < length rows" "j < nat d" for i j
  proof -
    have "0 \<le> rows ! i" "rows ! i \<le> 65535" using assms(5) that(1) by auto
    then have "unat (of_int (rows ! i) :: u32) = nat (rows ! i)"
      by (simp add: unsigned_of_int take_bit_int_eq_self)
    with that assms(4) show ?thesis by simp
  qed
  then have "NewMatrixFromFunction (length rows) (nat d) (\<lambda>i j.
      bindR (index_at generators j) (\<lambda>a. bindR (index_at rows i) (\<lambda>r. T_Pow a (of_int r))))
    = Inr (mk_matrix (length rows) (nat d) (\<lambda>i j. generators ! j ^ nat (rows ! i)))"
    using assms by (intro NewMatrixFromFunction_eq) auto
  with assms show ?thesis by (fastforce simp: NewCoderPAR2VandermondeRows_def mk_coder_def)
qed

section \<open>Properties\<close>

text \<open>
  C23: \<open>FoldInputs\<close> computes the same product as the in-memory functions, from inputs that the
  callback delivers one at a time, with every row of the output overwritten: in the pure-Go build and
  on any backend that keeps the contract, for every schedule.
\<close>

theorem FoldInputs_product:
  assumes "env_ok e" "fold_ok m (length inp) n out" "out \<noteq> []" "inp \<noteq> []" "0 < n"
    and "delivers next_fn n inp"
  shows "FoldInputs e m (length inp) n next_fn out g = Inr (apply_spec m inp (length out) n)"
  by (rule FoldInputs_eq [OF assms(1-4,6,5)])

theorem FoldInputs_product_witness:
  "FoldInputs (backend_env True) sample_matrix (length sample_in) 4
      (\<lambda>j buf. Inr (sample_in ! j)) sample_out 2
    = Inr (apply_spec sample_matrix sample_in (length sample_out) 4)"
  by (rule FoldInputs_product)
     (auto simp: fold_ok_def delivers_def wf_matrix_def sample_matrix_def sample_in_def sample_out_def
        less_Suc_eq)

text \<open>
  when the callback fails on input \<open>j\<close> after delivering the inputs before it, the pure-Go fold
  returns that error.
\<close>

lemma foldInputsPureGo_first_error:
  assumes "fold_ok m (length inp) n out" "out \<noteq> []" "0 < g" "delivers next_fn n inp"
    and "\<forall>j. mset (ord j) = mset [0..<min g (length out)]"
    and "next_fn (length inp) (replicate n 0) = Inl e" "length inp < numInputs"
  shows "foldInputsPureGo ple ord m numInputs n next_fn out g = Inl e"
  by (rule foldInputsPureGo_error [OF assms])

lemma foldInputsPureGo_first_error_witness:
  "foldInputsPureGo True (\<lambda>_. [0..<1]) sample_matrix 2 4
     (\<lambda>j buf. if j < 1 then Inr (sample_in ! j) else Inl IoEOF) sample_out 1 = Inl IoEOF"
  by (rule foldInputsPureGo_first_error [where inp = "[sample_in ! 0]"])
     (auto simp: fold_ok_def delivers_def wf_matrix_def sample_matrix_def sample_in_def sample_out_def)

text \<open>
  C39: the table of \<open>init\<close> holds the 32768 elements of order 65535 that the PAR2 specification
  numbers: all are primitive and no two are equal, so there are at most 32768 data shards, as the
  comment of \<open>NewCoderPAR2Vandermonde\<close> says.
\<close>

theorem generators_table:
  "length generators = 32768 \<and> distinct generators \<and> list_all primitive generators
    \<and> generators = map (\<lambda>i. T 2 ^ i) (filter gen_index [0..<65536])"
  using length_generators distinct_generators set_generators generators_eq
  by (auto simp: list_all_iff)

end
