(* ===== verification/Mds.thy ===== *)
theory Mds
  imports Coder
begin

text \<open>
  Which square submatrices of the parity matrices are non-singular: all of them for the Cauchy
  matrix of \<open>NewCoderCauchy\<close>, those with consecutive exponents for the PAR2 Vandermonde matrix.
  Both rest on one fact about polynomial functions: a sum of fewer than \<open>n + 1\<close> powers with
  \<open>n\<close> roots vanishes everywhere.
\<close>

section \<open>Polynomial functions\<close>

definition ispoly :: "nat \<Rightarrow> ('a::idom \<Rightarrow> 'a) \<Rightarrow> bool" where
  "ispoly n f \<longleftrightarrow> (\<exists>c. \<forall>z. f z = (\<Sum>i<n. c i * z ^ i))"

lemma ispolyI: "(\<And>z. f z = (\<Sum>i<n. c i * z ^ i)) \<Longrightarrow> ispoly n f"
  by (auto simp: ispoly_def)

lemma ispoly_const: "0 < n \<Longrightarrow> ispoly n (\<lambda>_. a)"
proof (rule ispolyI)
  fix z assume "0 < n"
  then have "(\<Sum>i<n. (if i = 0 then a else 0) * z ^ i) = (\<Sum>i<n. if i = 0 then a else 0)"
    by (intro sum.cong) auto
  with \<open>0 < n\<close> show "a = (\<Sum>i<n. (if i = 0 then a else 0) * z ^ i)" by simp
qed

lemma ispoly_scale: "ispoly n f \<Longrightarrow> ispoly n (\<lambda>z. a * f z)"
proof -
  assume "ispoly n f"
  then obtain c where c: "\<And>z. f z = (\<Sum>i<n. c i * z ^ i)" by (auto simp: ispoly_def)
  have "a * f z = (\<Sum>i<n. (a * c i) * z ^ i)" for z
    unfolding c sum_distrib_left by (simp add: mult.assoc)
  then show ?thesis by (rule ispolyI)
qed

lemma ispoly_add:
  assumes "ispoly n f" "ispoly n g"
  shows "ispoly n (\<lambda>z. f z + g z)"
proof -
  obtain c where c: "\<And>z. f z = (\<Sum>i<n. c i * z ^ i)" using assms(1) by (auto simp: ispoly_def)
  obtain d where d: "\<And>z. g z = (\<Sum>i<n. d i * z ^ i)" using assms(2) by (auto simp: ispoly_def)
  have "f z + g z = (\<Sum>i<n. (c i + d i) * z ^ i)" for z
    unfolding c d by (simp add: distrib_right sum.distrib)
  then show ?thesis by (rule ispolyI)
qed

lemma ispoly_sum:
  "finite A \<Longrightarrow> (\<And>j. j \<in> A \<Longrightarrow> ispoly n (f j)) \<Longrightarrow> 0 < n \<Longrightarrow> ispoly n (\<lambda>z. \<Sum>j\<in>A. f j z)"
  by (induction A rule: finite_induct) (auto intro: ispoly_const ispoly_add)

lemma ispoly_shift: "ispoly n f \<Longrightarrow> ispoly (Suc n) (\<lambda>z. z * f z)"
proof -
  assume "ispoly n f"
  then obtain c where c: "\<And>z. f z = (\<Sum>i<n. c i * z ^ i)" by (auto simp: ispoly_def)
  have "z * f z = (\<Sum>i<Suc n. (case i of 0 \<Rightarrow> 0 | Suc j \<Rightarrow> c j) * z ^ i)" for z
    unfolding c sum.lessThan_Suc_shift by (simp add: sum_distrib_left ac_simps)
  then show ?thesis by (rule ispolyI)
qed

lemma ispoly_mono: "ispoly n f \<Longrightarrow> ispoly (Suc n) f"
proof -
  assume "ispoly n f"
  then obtain c where c: "\<And>z. f z = (\<Sum>i<n. c i * z ^ i)" by (auto simp: ispoly_def)
  have "f z = (\<Sum>i<Suc n. (if i < n then c i else 0) * z ^ i)" for z
    unfolding c by simp
  then show ?thesis by (rule ispolyI)
qed

lemma ispoly_prod: "finite L \<Longrightarrow> ispoly (Suc (card L)) (\<lambda>z. \<Prod>l\<in>L. z + b l)"
proof (induction L rule: finite_induct)
  case empty
  then show ?case by (simp add: ispoly_const)
next
  case (insert l L)
  have "ispoly (Suc (Suc (card L))) (\<lambda>z. z * (\<Prod>l\<in>L. z + b l) + b l * (\<Prod>l\<in>L. z + b l))"
    by (intro ispoly_add ispoly_shift ispoly_mono ispoly_scale insert.IH)
  with insert show ?case by (simp add: distrib_right)
qed

lemma ispoly_roots:
  assumes "ispoly n f" "finite S" "n \<le> card S" "\<And>a. a \<in> S \<Longrightarrow> f a = 0"
  shows "f z = 0"
proof -
  obtain c where c: "\<And>z. f z = (\<Sum>i<n. c i * z ^ i)" using assms(1) by (auto simp: ispoly_def)
  have "(\<Sum>i<n. c i * z ^ i) = 0" if "finite S" "n \<le> card S" "\<And>a. a \<in> S \<Longrightarrow> (\<Sum>i<n. c i * a ^ i) = 0"
    for c :: "nat \<Rightarrow> 'a" and S n z
    using that
  proof (induction n arbitrary: c S z)
    case 0
    then show ?case by simp
  next
    case (Suc n)
    then have "S \<noteq> {}" by auto
    then obtain a where a: "a \<in> S" by blast
    then have "(\<Sum>i\<le>n. c i * a ^ i) = 0" using Suc.prems(3) by (simp add: lessThan_Suc_atMost)
    then obtain b where b: "\<And>z. (\<Sum>i\<le>n. c i * z ^ i) = (z - a) * (\<Sum>i<n. b i * z ^ i)"
      using polyfun_linear_factor_root by metis
    have "(\<Sum>i<n. b i * z ^ i) = 0"
    proof (rule Suc.IH)
      show "finite (S - {a})" "n \<le> card (S - {a})" using Suc.prems(1,2) a by auto
      fix s assume "s \<in> S - {a}"
      then show "(\<Sum>i<n. b i * s ^ i) = 0"
        using Suc.prems(3) [of s] b [of s] by (simp add: lessThan_Suc_atMost)
    qed
    then show ?case unfolding lessThan_Suc_atMost b by simp
  qed
  with assms(2-4) c show ?thesis by metis
qed

section \<open>Two families of non-singular matrices\<close>

definition ker_zero :: "nat \<Rightarrow> (nat \<Rightarrow> nat \<Rightarrow> T) \<Rightarrow> bool" where
  "ker_zero k f \<longleftrightarrow> (\<forall>x. (\<forall>i<k. (\<Sum>j<k. f i j * x j) = 0) \<longrightarrow> (\<forall>j<k. x j = 0))"

lemma nonsingular_mk_matrix: "nonsingular (mk_matrix k k f) \<longleftrightarrow> ker_zero k f"
  by (auto simp: nonsingular_def ker_zero_def dot_def)

text \<open>The product over all nodes but one.\<close>

definition others :: "nat \<Rightarrow> (nat \<Rightarrow> T) \<Rightarrow> nat \<Rightarrow> T \<Rightarrow> T" where
  "others k b j z = (\<Prod>l\<in>{..<k} - {j}. z + b l)"

lemma ispoly_others: "j < k \<Longrightarrow> ispoly k (others k b j)"
  unfolding others_def using ispoly_prod [of "{..<k} - {j}" b] by (cases k) auto

lemma others_zero:
  assumes "inj_on b {..<k}" "j < k" "l < k"
  shows "others k b j (b l) = 0 \<longleftrightarrow> l \<noteq> j"
proof -
  have "others k b j (b l) = 0 \<longleftrightarrow> (\<exists>i\<in>{..<k} - {j}. b l = b i)"
    by (simp add: others_def T_add_eq_0_iff)
  also have "\<dots> \<longleftrightarrow> (\<exists>i\<in>{..<k} - {j}. l = i)"
    using assms by (auto simp: inj_on_eq_iff)
  finally show ?thesis using assms by auto
qed

lemma cauchy_ker_zero:
  assumes a: "inj_on a {..<k}" and b: "inj_on b {..<k}" and ab: "\<And>i j. i < k \<Longrightarrow> j < k \<Longrightarrow> a i \<noteq> b j"
  shows "ker_zero k (\<lambda>i j. inverse (a i + b j))"
  unfolding ker_zero_def
proof (intro allI impI)
  fix x :: "nat \<Rightarrow> T" and j
  assume s: "\<forall>i<k. (\<Sum>j<k. inverse (a i + b j) * x j) = 0" and j: "j < k"
  let ?Q = "\<lambda>z. \<Sum>j<k. x j * others k b j z"
  have poly: "ispoly k ?Q" using j by (intro ispoly_sum ispoly_scale ispoly_others) auto
  have "?Q (a i) = 0" if i: "i < k" for i
  proof -
    have nz: "a i + b j \<noteq> 0" if "j < k" for j using ab [OF i that] by (simp add: T_add_eq_0_iff)
    have "?Q (a i) = (\<Sum>j<k. (\<Prod>l<k. a i + b l) * (inverse (a i + b j) * x j))"
    proof (rule sum.cong)
      fix j assume "j \<in> {..<k}"
      then have j: "j < k" by simp
      have p: "(\<Prod>l<k. a i + b l) = (a i + b j) * others k b j (a i)"
        unfolding others_def using j by (simp add: prod.remove)
      have "(a i + b j) * others k b j (a i) * (inverse (a i + b j) * x j)
          = ((a i + b j) * inverse (a i + b j)) * (x j * others k b j (a i))"
        by (simp only: ac_simps)
      also have "\<dots> = x j * others k b j (a i)" using nz [OF j] by simp
      finally show "x j * others k b j (a i) = (\<Prod>l<k. a i + b l) * (inverse (a i + b j) * x j)"
        unfolding p by (rule sym)
    qed simp
    also have "\<dots> = (\<Prod>l<k. a i + b l) * (\<Sum>j<k. inverse (a i + b j) * x j)"
      by (simp add: sum_distrib_left)
    finally show ?thesis using s i by simp
  qed
  then have roots: "?Q z = 0" if "z \<in> a ` {..<k}" for z using that by blast
  have "k \<le> card (a ` {..<k})" by (simp add: card_image [OF a])
  from ispoly_roots [OF poly _ this roots] have "?Q (b j) = 0" by blast
  moreover have "?Q (b j) = (\<Sum>l<k. if l = j then x j * others k b j (b j) else 0)"
    using others_zero [OF b _ j] by (intro sum.cong) auto
  ultimately have "x j * others k b j (b j) = 0" using j by simp
  then show "x j = 0" using others_zero [OF b j j] by simp
qed

lemma vandermonde_ker_zero:
  assumes b: "inj_on b {..<k}" and nz: "\<And>j. j < k \<Longrightarrow> b j \<noteq> 0"
  shows "ker_zero k (\<lambda>i j. b j ^ (s + i))"
  unfolding ker_zero_def
proof (intro allI impI)
  fix x :: "nat \<Rightarrow> T" and j
  assume h: "\<forall>i<k. (\<Sum>j<k. b j ^ (s + i) * x j) = 0" and j: "j < k"
  obtain c where c: "\<And>z. others k b j z = (\<Sum>i<k. c i * z ^ i)"
    using ispoly_others [OF j, of b] unfolding ispoly_def by blast
  have "(\<Sum>l<k. others k b j (b l) * (b l ^ s * x l)) = (\<Sum>l<k. \<Sum>i<k. c i * (b l ^ (s + i) * x l))"
    unfolding c sum_distrib_right power_add by (intro sum.cong) (simp_all only: ac_simps)
  also have "\<dots> = (\<Sum>i<k. c i * (\<Sum>l<k. b l ^ (s + i) * x l))"
    by (subst sum.swap) (simp add: sum_distrib_left)
  also have "\<dots> = 0" using h by simp
  finally have "(\<Sum>l<k. others k b j (b l) * (b l ^ s * x l)) = 0" .
  moreover have "(\<Sum>l<k. others k b j (b l) * (b l ^ s * x l))
      = (\<Sum>l<k. if l = j then others k b j (b j) * (b j ^ s * x j) else 0)"
    using others_zero [OF b j] by (intro sum.cong) auto
  ultimately have "others k b j (b j) * (b j ^ s * x j) = 0" using j by simp
  then show "x j = 0" using others_zero [OF b j j] nz [OF j] by simp
qed

end
