(* ===== verification/AdditiveProduct.thy ===== *)
theory AdditiveProduct
  imports AdditiveFFT Mds
begin

unbundle bit_operations_syntax

text \<open>
  Products with the transforms equal the schoolbook products, so the locator polynomial of a list of
  points vanishes on exactly these; and \<open>differentiate\<close> is the derivative, read off over the dual numbers.
\<close>

section \<open>Coefficients are determined by values\<close>

lemma poly_zero_coeffs:
  fixes c :: "nat \<Rightarrow> 'a::idom"
  assumes "finite S" "n \<le> card S" "\<And>a. a \<in> S \<Longrightarrow> (\<Sum>i<n. c i * a ^ i) = 0" "i < n"
  shows "c i = 0"
  using assms
proof (induction n arbitrary: c S i)
  case (Suc n)
  have "ispoly (Suc n) (\<lambda>z. \<Sum>i<Suc n. c i * z ^ i)" by (rule ispolyI) (rule refl)
  note all = ispoly_roots [OF this Suc.prems(1,2,3)]
  have split: "(\<Sum>i<Suc n. c i * z ^ i) = c 0 + z * (\<Sum>i<n. c (Suc i) * z ^ i)" for z
    unfolding sum.lessThan_Suc_shift by (simp add: sum_distrib_left ac_simps)
  have c0: "c 0 = 0" using all [of 0] unfolding split by simp
  have "c (Suc j) = 0" if "j < n" for j
  proof (rule Suc.IH [where S = "S - {0}" and c = "\<lambda>i. c (Suc i)" and i = j])
    show "finite (S - {0})" using Suc.prems(1) by simp
    show "n \<le> card (S - {0})" using Suc.prems(2) card_Diff1_le [of S 0] card_Suc_Diff1 [OF Suc.prems(1), of 0] by (cases "0 \<in> S") auto
    show "(\<Sum>i<n. c (Suc i) * a ^ i) = 0" if "a \<in> S - {0}" for a using all [of a] that unfolding split c0 by simp
  qed (rule that)
  with c0 Suc.prems(4) show ?case by (cases i) simp_all
qed simp

lemma coefficients_unique:
  assumes "length u = n" "length v = n" "n \<le> 65536" "\<And>x. ordinary_val (\<lambda>t. t) x u = ordinary_val (\<lambda>t. t) x v"
  shows "u = v"
proof (rule nth_equalityI)
  fix i assume "i < length u"
  then have i: "i < n" using assms(1) by simp
  have "u ! i + v ! i = 0"
  proof (rule poly_zero_coeffs [of UNIV n "\<lambda>i. u ! i + v ! i"])
    show "n \<le> card (UNIV :: T set)" using assms(3) by (simp add: card_T)
    show "(\<Sum>i<n. (u ! i + v ! i) * a ^ i) = 0" for a
      using assms(4) [of a] by (simp add: weighted_def assms(1,2) distrib_right sum.distrib)
  qed (simp_all add: finite_T i)
  then show "u ! i = v ! i" by (simp add: T_add_eq_0_iff)
qed (simp add: assms(1,2))

section \<open>Products\<close>

context T_algebra
begin

lemma ordinary_val_pad: "length a \<le> n \<Longrightarrow> ordinary_val hom x (pad_to n a) = ordinary_val hom x a"
proof -
  assume a: "length a \<le> n"
  have "(\<Sum>k<n. hom (pad_to n a ! k) * x ^ k) = (\<Sum>k<length a. hom (pad_to n a ! k) * x ^ k)"
    using a by (intro sum.mono_neutral_right) (auto simp: pad_to_def nth_append hom_0)
  also have "\<dots> = (\<Sum>k<length a. hom (a ! k) * x ^ k)" using a by (intro sum.cong) (simp_all add: pad_to_def nth_append)
  finally show ?thesis using a by (simp add: weighted_def pad_to_def)
qed

lemma direct_product_val:
  assumes "a \<noteq> []" "c \<noteq> []"
  shows "length (direct_product a c) = length a + length c - 1"
    and "ordinary_val hom x (direct_product a c) = ordinary_val hom x a * ordinary_val hom x c"
proof -
  let ?n = "length a + length c - 1"
  let ?in = "\<lambda>i m out. fold (\<lambda>j out. out[i + j := out ! (i + j) + a ! i * c ! j]) [0..<m] out"
  have inner: "length (?in i m out) = ?n \<and> ordinary_val hom x (?in i m out) = ordinary_val hom x out + hom (a ! i) * x ^ i * (\<Sum>j<m. hom (c ! j) * x ^ j)"
    if "length out = ?n" "i < length a" "m \<le> length c" for i m out
    using that(3)
  proof (induction m)
    case (Suc m)
    then have IH: "length (?in i m out) = ?n" "ordinary_val hom x (?in i m out) = ordinary_val hom x out + hom (a ! i) * x ^ i * (\<Sum>j<m. hom (c ! j) * x ^ j)"
      by simp_all
    have "i + m < length (?in i m out)" using IH(1) that(2) Suc.prems by simp
    from weighted_update [OF this] IH show ?case by (simp add: hom_mult distrib_left power_add ac_simps)
  qed (simp add: that(1))
  let ?out = "\<lambda>m. fold (\<lambda>i. ?in i (length c)) [0..<m] (replicate ?n 0)"
  have "length (?out m) = ?n \<and> ordinary_val hom x (?out m) = (\<Sum>i<m. hom (a ! i) * x ^ i) * ordinary_val hom x c" if "m \<le> length a" for m
    using that
  proof (induction m)
    case 0
    show ?case by (simp add: weighted_def hom_0)
  next
    case (Suc m)
    then show ?case using inner [of "?out m" m "length c"] by (simp add: distrib_right weighted_def [of _ _ c])
  qed
  from this [of "length a"] show "length (direct_product a c) = ?n" "ordinary_val hom x (direct_product a c) = ordinary_val hom x a * ordinary_val hom x c"
    by (simp_all add: direct_product_def weighted_def [of _ _ a])
qed

end

lemma bits_Len_bound: "n < 2 ^ bits_Len n"
proof (induction n rule: bits_Len.induct)
  case (1 n)
  then show ?case by (subst bits_Len.simps) auto
qed

lemma bits_Len_le: "n < 2 ^ L \<Longrightarrow> bits_Len n \<le> L"
proof (induction L arbitrary: n)
  case (Suc L)
  then show ?case by (subst bits_Len.simps) auto
qed (simp add: bits_Len.simps)

lemma transform_values:
  assumes b: "basis_ok b" and len: "length v = 2 ^ L" and L: "L \<le> 16"
  obtains w where "bindR (toNovel b v) (\<lambda>x. fft b x False) = Inr w" "length w = 2 ^ L"
    "\<And>k. k < 2 ^ L \<Longrightarrow> w ! k = ordinary_val (\<lambda>t. t) (cpoint k) v" "bindR (fft b w True) (fromNovel b) = Inr v"
proof -
  let ?u = "fold (toNovel_level b) (rev [0..<L]) v"
  note u = pts.toNovel_ok [OF b len L]
  note w = fft_ok [OF b u(2) L]
  let ?z = "fold (fromNovel_level b) [0..<L] ?u"
  note z = pts.fromNovel_ok [OF b u(2) L]
  have "(2 :: nat) ^ L \<le> 2 ^ 16" using L by (intro power_increasing) simp_all
  then have "?z = v" using z(3) u(3) by (intro coefficients_unique [of _ "2 ^ L"]) (simp_all add: z(2) len)
  then show thesis
    using w z(1) u by (intro that [of "fft_values b L ?u"]) simp_all
qed

lemma product_eq:
  assumes b: "basis_ok b" and ac: "a \<noteq> []" "c \<noteq> []" and len: "length a + length c - 1 \<le> 65536"
  shows "product b a c = Inr (direct_product a c)"
proof -
  let ?cnt = "length a + length c - 1"
  note d = pts.direct_product_val [OF ac]
  show ?thesis
  proof (cases "?cnt \<le> 64")
    case True
    then show ?thesis using ac by (simp add: product_def Let_def)
  next
    case False
    define L where "L = bits_Len (?cnt - 1)"
    have L: "L \<le> 16" unfolding L_def using len by (intro bits_Len_le) simp
    have cnt: "?cnt \<le> 2 ^ L" using bits_Len_bound [of "?cnt - 1"] by (simp add: L_def)
    let ?n = "2 ^ L :: nat"
    have ac_n: "length a \<le> ?n" "length c \<le> ?n" using cnt ac by (cases a; cases c; simp)+
    have pad: "length (pad_to ?n v) = ?n" if "length v \<le> ?n" for v using that by (simp add: pad_to_def)
    obtain wa where wa: "bindR (toNovel b (pad_to ?n a)) (\<lambda>x. fft b x False) = Inr wa" "length wa = ?n"
      "\<And>k. k < ?n \<Longrightarrow> wa ! k = ordinary_val (\<lambda>t. t) (cpoint k) (pad_to ?n a)"
      by (rule transform_values [OF b pad [OF ac_n(1)] L]) blast
    obtain wc where wc: "bindR (toNovel b (pad_to ?n c)) (\<lambda>x. fft b x False) = Inr wc" "length wc = ?n"
      "\<And>k. k < ?n \<Longrightarrow> wc ! k = ordinary_val (\<lambda>t. t) (cpoint k) (pad_to ?n c)"
      by (rule transform_values [OF b pad [OF ac_n(2)] L]) blast
    have dn: "length (direct_product a c) \<le> ?n" using d(1) cnt by simp
    obtain wd where wd: "length wd = ?n" "\<And>k. k < ?n \<Longrightarrow> wd ! k = ordinary_val (\<lambda>t. t) (cpoint k) (pad_to ?n (direct_product a c))"
      "bindR (fft b wd True) (fromNovel b) = Inr (pad_to ?n (direct_product a c))"
      by (rule transform_values [OF b pad [OF dn] L]) blast
    have "map2 (*) wa wc = wd"
      by (rule nth_equalityI) (simp_all add: wa wc wd pts.ordinary_val_pad ac_n dn d(2))
    moreover have "take ?cnt (pad_to ?n (direct_product a c)) = direct_product a c" using d(1) cnt by (simp add: pad_to_def)
    moreover obtain x0 y0 where "toNovel b (pad_to ?n a) = Inr x0" "fft b x0 False = Inr wa"
      "toNovel b (pad_to ?n c) = Inr y0" "fft b y0 False = Inr wc"
      using wa(1) wc(1) by (cases "toNovel b (pad_to ?n a)"; cases "toNovel b (pad_to ?n c)") auto
    moreover obtain x2 where "fft b wd True = Inr x2" "fromNovel b x2 = Inr (pad_to ?n (direct_product a c))"
      using wd(3) by (cases "fft b wd True") auto
    moreover have "product b a c = bindR (toNovel b (pad_to ?n a)) (\<lambda>x0. bindR (toNovel b (pad_to ?n c)) (\<lambda>y0.
          bindR (fft b x0 False) (\<lambda>x1. bindR (fft b y0 False) (\<lambda>y1.
          bindR (fft b (map2 (*) x1 y1) True) (\<lambda>x2. bindR (fromNovel b x2) (\<lambda>x3. Inr (take ?cnt x3)))))))"
      using ac False additiveLog_pow [OF L] unfolding product_def Let_def L_def [symmetric] by simp
    ultimately show ?thesis by simp
  qed
qed

text \<open>
  C11: building the basis does not panic, and the transforms are evaluation: \<open>toNovel\<close> followed by the
  forward transform turns the coefficients of a polynomial into its values at the points of the basis, and
  the inverse transform followed by \<open>fromNovel\<close> turns the values back into the coefficients.
\<close>

theorem transform_evaluates:
  "\<exists>b. newAdditiveBasis = Inr b \<and> distinct (ab_points b) \<and> length (ab_points b) = 65536 \<and>
     (\<forall>L \<le> 16. \<forall>v. length v = 2 ^ L \<longrightarrow>
        bindR (toNovel b v) (\<lambda>u. fft b u False) = Inr (map (\<lambda>k. \<Sum>j<2 ^ L. v ! j * (ab_points b ! k) ^ j) [0..<2 ^ L]) \<and>
        bindR (fft b (map (\<lambda>k. \<Sum>j<2 ^ L. v ! j * (ab_points b ! k) ^ j) [0..<2 ^ L]) True) (fromNovel b) = Inr v)"
proof -
  obtain b where b: "newAdditiveBasis = Inr b" "basis_ok b" using newAdditiveBasis_ok by blast
  have points: "ab_points b = map cpoint [0..<65536]" using b(2) by (simp add: basis_ok_def)
  have "distinct (map cpoint [0..<65536])" unfolding distinct_map using cpoint_inj by (simp add: atLeast0LessThan)
  moreover have "bindR (toNovel b v) (\<lambda>u. fft b u False) = Inr (map (\<lambda>k. \<Sum>j<2 ^ L. v ! j * (ab_points b ! k) ^ j) [0..<2 ^ L]) \<and>
        bindR (fft b (map (\<lambda>k. \<Sum>j<2 ^ L. v ! j * (ab_points b ! k) ^ j) [0..<2 ^ L]) True) (fromNovel b) = Inr v"
    if L: "L \<le> 16" and v: "length v = 2 ^ L" for L v
  proof -
    obtain w where w: "bindR (toNovel b v) (\<lambda>x. fft b x False) = Inr w" "length w = 2 ^ L"
      "\<And>k. k < 2 ^ L \<Longrightarrow> w ! k = ordinary_val (\<lambda>t. t) (cpoint k) v" "bindR (fft b w True) (fromNovel b) = Inr v"
      by (rule transform_values [OF b(2) v L]) blast
    have "(2 :: nat) ^ L \<le> 65536" using L power_increasing [of L 16 "2 :: nat"] by simp
    then have "w = map (\<lambda>k. \<Sum>j<2 ^ L. v ! j * (ab_points b ! k) ^ j) [0..<2 ^ L]"
      by (intro nth_equalityI) (simp_all add: w(2,3) points weighted_def v)
    with w(1,4) show ?thesis by simp
  qed
  ultimately show ?thesis using b(1) points by (intro exI [of _ b]) simp
qed

theorem transform_evaluates_witness:
  "\<exists>b. newAdditiveBasis = Inr b \<and>
     bindR (toNovel b [3, 5, 7, 9]) (\<lambda>u. fft b u False) = Inr (map (\<lambda>k. \<Sum>j<4. [3, 5, 7, 9] ! j * (ab_points b ! k) ^ j) [0..<4]) \<and>
     bindR (fft b (map (\<lambda>k. \<Sum>j<4. [3, 5, 7, 9] ! j * (ab_points b ! k) ^ j) [0..<4]) True) (fromNovel b) = Inr [3, 5, 7, 9]"
proof -
  obtain b where b: "newAdditiveBasis = Inr b" and all: "\<forall>L \<le> 16. \<forall>v. length v = 2 ^ L \<longrightarrow>
        bindR (toNovel b v) (\<lambda>u. fft b u False) = Inr (map (\<lambda>k. \<Sum>j<2 ^ L. v ! j * (ab_points b ! k) ^ j) [0..<2 ^ L]) \<and>
        bindR (fft b (map (\<lambda>k. \<Sum>j<2 ^ L. v ! j * (ab_points b ! k) ^ j) [0..<2 ^ L]) True) (fromNovel b) = Inr v"
    using transform_evaluates by (elim exE conjE)
  have four: "(2 :: nat) ^ 2 = 4" by simp
  have "length [3, 5, 7, 9 :: T] = 2 ^ 2" by simp
  from all [THEN spec, of 2, THEN mp, THEN spec, THEN mp, OF _ this] b show ?thesis unfolding four by (intro exI [of _ b]) simp
qed

text \<open>
  C12: \<open>product\<close>, which multiplies long polynomials through their values at 2^16 points, returns the
  schoolbook product of any two polynomials whose product has at most 65536 coefficients.
\<close>

theorem product_schoolbook:
  "\<exists>b. newAdditiveBasis = Inr b \<and>
     (\<forall>a c. length a + length c \<le> 65537 \<longrightarrow> product b a c = Inr (if a = [] \<or> c = [] then [] else direct_product a c))"
proof -
  obtain b where b: "newAdditiveBasis = Inr b" "basis_ok b" using newAdditiveBasis_ok by blast
  have "product b a c = Inr (if a = [] \<or> c = [] then [] else direct_product a c)" if "length a + length c \<le> 65537" for a c
    using product_eq [OF b(2), of a c] that by (cases "a = [] \<or> c = []") (auto simp: product_def)
  with b(1) show ?thesis by blast
qed

theorem product_schoolbook_witness:
  "\<exists>b. newAdditiveBasis = Inr b \<and> product b (replicate 40 3) (replicate 50 1) = Inr (direct_product (replicate 40 3) (replicate 50 1))"
proof -
  obtain b where b: "newAdditiveBasis = Inr b"
    "\<forall>a c. length a + length c \<le> 65537 \<longrightarrow> product b a c = Inr (if a = [] \<or> c = [] then [] else direct_product a c)"
    using product_schoolbook by blast
  from b(2) [THEN spec, THEN spec, of "replicate 40 3" "replicate 50 1"] b(1) show ?thesis by auto
qed

section \<open>The locator\<close>

context T_algebra
begin

lemma locator_ok:
  assumes "basis_ok b" "length points \<le> 65535"
  shows "\<exists>v. locator b points = Inr v \<and> length v = Suc (length points) \<and> ordinary_val hom x v = (\<Prod>p\<leftarrow>points. x + hom p)"
  using assms
proof (induction b points rule: locator.induct)
  case (1 b points)
  consider "length points = 0" | "length points = 1" | "1 < length points" by linarith
  then show ?case
  proof cases
    case 1
    then have "points = []" by simp
    then show ?thesis by (simp add: locator.simps [of b "[]"] weighted_def hom_1)
  next
    case 2
    then obtain p where "points = [p]" by (cases points) auto
    then show ?thesis by (simp add: locator.simps [of b "[p]"] weighted_def hom_1 add.commute)
  next
    case 3
    let ?m = "length points div 2"
    have m: "0 < ?m" "?m < length points" using 3 by simp_all
    then have half: "?m \<le> 65535" "length points - ?m \<le> 65535" "points \<noteq> []" using "1.prems"(2) by (linarith, linarith, auto)
    obtain a where a: "locator b (take ?m points) = Inr a" "length a = Suc (length (take ?m points))"
      "ordinary_val hom x a = (\<Prod>p\<leftarrow>take ?m points. x + hom p)"
      using "1.IH"(1) [of ?m] "1.prems" 3 half by auto
    obtain c where c: "locator b (drop ?m points) = Inr c" "length c = Suc (length (drop ?m points))"
      "ordinary_val hom x c = (\<Prod>p\<leftarrow>drop ?m points. x + hom p)"
      using "1.IH"(2) [of ?m a] "1.prems" 3 a(1) half by auto
    have ne: "a \<noteq> []" "c \<noteq> []" using a(2) c(2) by auto
    have len: "length a + length c - 1 = Suc (length points)" using a(2) c(2) m by simp
    then have "locator b points = Inr (direct_product a c)"
      using 3 a(1) c(1) product_eq [OF "1.prems"(1) ne] "1.prems"(2) half(3) by (simp add: locator.simps [of b points] Let_def)
    moreover have "(\<Prod>p\<leftarrow>points. x + hom p) = (\<Prod>p\<leftarrow>take ?m points. x + hom p) * (\<Prod>p\<leftarrow>drop ?m points. x + hom p)"
      by (simp only: prod_list.append [symmetric] map_append [symmetric] append_take_drop_id)
    ultimately show ?thesis using direct_product_val(1) [OF ne] direct_product_val(2) [OF ne, of x] a(3) c(3) len by simp
  qed
qed

end

section \<open>Dual numbers\<close>

datatype dual = Dual (re: T) (du: T)

instantiation dual :: comm_ring_1
begin

definition "zero_dual = Dual 0 0"
definition "one_dual = Dual 1 0"
definition "plus_dual x y = Dual (re x + re y) (du x + du y)"
definition "minus_dual x y = Dual (re x - re y) (du x - du y)"
definition "uminus_dual x = Dual (- re x) (- du x)"
definition "times_dual x y = Dual (re x * re y) (re x * du y + du x * re y)"

instance
  by standard (simp_all add: zero_dual_def one_dual_def plus_dual_def minus_dual_def uminus_dual_def times_dual_def
    dual.expand distrib_left distrib_right ac_simps)

end

lemma dual_simps [simp]:
  "re 0 = 0" "du 0 = 0" "re 1 = 1" "du 1 = 0" "re (x + y) = re x + re y" "du (x + y) = du x + du y"
  "re (x * y) = re x * re y" "du (x * y) = re x * du y + du x * re y"
  by (simp_all add: zero_dual_def one_dual_def plus_dual_def times_dual_def)

interpretation duals: T_algebra "\<lambda>t. Dual t 0"
  by unfold_locales (simp_all add: plus_dual_def times_dual_def one_dual_def)

lemma re_sum: "re (sum f A) = (\<Sum>k\<in>A. re (f k))" and du_sum: "du (sum f A) = (\<Sum>k\<in>A. du (f k))"
  by (induction A rule: infinite_finite_induct) simp_all

lemma dual_as_val: "as_val i (Dual x 1) = Dual (as_val i x) 1"
proof (induction i)
  case (Suc i)
  then show ?case by (intro dual.expand) (simp add: ac_simps)
qed simp

text \<open>The derivative of the basis polynomials, and the row by row differentiation.\<close>

definition dnovel :: "T \<Rightarrow> nat \<Rightarrow> T" where
  "dnovel x k = (\<Sum>i\<leftarrow>mask_bits k. novel x (k XOR 2 ^ i))"


lemma mask_bits_set: "distinct (mask_bits m) \<and> set (mask_bits m) = {i. bit m i}"
proof (induction m rule: mask_bits.induct)
  case (1 m)
  show ?case
  proof (cases "m = 0")
    case False
    let ?t = "trailing_zeros m"
    note t = trailing_zeros_bit [OF False]
    have clear: "bit (m AND (m - 1)) j \<longleftrightarrow> bit m j \<and> j \<noteq> ?t" for j
    proof -
      let ?m = "m - 2 ^ ?t"
      have "m - 1 = ?m + (2 ^ ?t - 1)" using bit_ge_pow [OF t(1)] by simp
      moreover have "\<not> (bit ?m j \<and> bit (2 ^ ?t - 1 :: nat) j)" for j
        using t(2) bit_minus_pow [OF t(1)] nat_bit_bound [of "2 ^ ?t - 1" ?t j] by auto
      then have "?m + (2 ^ ?t - 1) = ?m OR (2 ^ ?t - 1)" by (intro disjunctive_add) blast
      ultimately have "bit (m - 1) j \<longleftrightarrow> bit ?m j \<or> bit (2 ^ ?t - 1 :: nat) j" by (simp add: bit_or_iff)
      then show ?thesis
        using t bit_minus_pow [OF t(1), of j] nat_bit_bound [of "2 ^ ?t - 1" ?t j] by (auto simp: bit_and_iff)
    qed
    show ?thesis using "1.IH" [OF False] False t(1) by (subst (1 2) mask_bits.simps) (auto simp: clear [simplified])
  qed (simp add: mask_bits.simps)
qed

lemma du_prod:
  assumes "finite A"
  shows "re (prod f A) = (\<Prod>i\<in>A. re (f i))" and "du (prod f A) = (\<Sum>i\<in>A. du (f i) * (\<Prod>j\<in>A - {i}. re (f j)))"
proof -
  have "re (prod f A) = (\<Prod>i\<in>A. re (f i)) \<and> du (prod f A) = (\<Sum>i\<in>A. du (f i) * (\<Prod>j\<in>A - {i}. re (f j)))"
    using assms
  proof (induction A rule: finite_induct)
    case (insert a A)
    have "(\<Sum>i\<in>A. du (f i) * (\<Prod>j\<in>insert a A - {i}. re (f j))) = (\<Sum>i\<in>A. re (f a) * (du (f i) * (\<Prod>j\<in>A - {i}. re (f j))))"
    proof (rule sum.cong)
      fix i assume "i \<in> A"
      with insert.hyps have "insert a A - {i} = insert a (A - {i})" "a \<notin> A - {i}" by auto
      then show "du (f i) * (\<Prod>j\<in>insert a A - {i}. re (f j)) = re (f a) * (du (f i) * (\<Prod>j\<in>A - {i}. re (f j)))"
        using insert.hyps(1) by (simp add: ac_simps)
    qed simp
    moreover have "insert a A - {a} = A" using insert.hyps(2) by simp
    ultimately show ?case using insert by (simp add: sum_distrib_left ac_simps)
  qed simp
  then show "re (prod f A) = (\<Prod>i\<in>A. re (f i))" "du (prod f A) = (\<Sum>i\<in>A. du (f i) * (\<Prod>j\<in>A - {i}. re (f j)))" by simp_all
qed

lemma dual_novel:
  assumes "k < 65536"
  shows "novel (Dual x 1) k = Dual (novel x k) (dnovel x k)"
proof (rule dual.expand, rule conjI)
  let ?f = "\<lambda>i. if bit k i then as_val i (Dual x 1) else 1"
  have re: "re (?f i) = (if bit k i then as_val i x else 1)" and du: "du (?f i) = (if bit k i then 1 else 0)" for i
    by (simp_all add: dual_as_val)
  show "re (novel (Dual x 1) k) = re (Dual (novel x k) (dnovel x k))"
    unfolding novel_def du_prod(1) [OF finite_lessThan] re by simp
  have "du (novel (Dual x 1) k) = (\<Sum>i<16. if bit k i then novel x (k XOR 2 ^ i) else 0)"
    unfolding novel_def du_prod(2) [OF finite_lessThan] re du
  proof (rule sum.cong)
    fix i :: nat assume i: "i \<in> {..<16}"
    show "(if bit k i then 1 else 0) * (\<Prod>j\<in>{..<16} - {i}. if bit k j then as_val j x else 1)
        = (if bit k i then \<Prod>j<16. if bit (k XOR 2 ^ i) j then as_val j x else 1 else 0)"
    proof (cases "bit k i")
      case True
      have "(\<Prod>j<16. if bit (k XOR 2 ^ i) j then as_val j x else 1) = (\<Prod>j\<in>{..<16} - {i}. if bit (k XOR 2 ^ i) j then as_val j x else 1)"
        using True i by (subst prod.remove [of _ i]) (simp_all add: bit_xor_iff bit_exp_iff)
      also have "\<dots> = (\<Prod>j\<in>{..<16} - {i}. if bit k j then as_val j x else 1)"
        by (rule prod.cong) (auto simp: bit_xor_iff bit_exp_iff)
      finally show ?thesis using True by simp
    qed simp
  qed simp
  also have "\<dots> = (\<Sum>i\<in>{i. bit k i}. novel x (k XOR 2 ^ i))"
    using assms nat_bit_bound [of k 16] by (intro sum.mono_neutral_cong_right) auto
  also have "\<dots> = dnovel x k" using mask_bits_set [of k] by (simp add: dnovel_def sum_list_distinct_conv_sum_set)
  finally show "du (novel (Dual x 1) k) = du (Dual (novel x k) (dnovel x k))" by simp
qed

lemma dual_novel_val:
  assumes "length v \<le> 65536"
  shows "novel_val (\<lambda>t. Dual t 0) (Dual x 1) v = Dual (novel_val (\<lambda>t. t) x v) (weighted (\<lambda>t. t) (dnovel x) v)"
proof (rule dual.expand, rule conjI)
  show "re (novel_val (\<lambda>t. Dual t 0) (Dual x 1) v) = re (Dual (novel_val (\<lambda>t. t) x v) (weighted (\<lambda>t. t) (dnovel x) v))"
    unfolding weighted_def re_sum dual.sel by (rule sum.cong) (use assms in \<open>simp_all add: dual_novel\<close>)
  show "du (novel_val (\<lambda>t. Dual t 0) (Dual x 1) v) = du (Dual (novel_val (\<lambda>t. t) x v) (weighted (\<lambda>t. t) (dnovel x) v))"
    unfolding weighted_def du_sum dual.sel by (rule sum.cong) (use assms in \<open>simp_all add: dual_novel\<close>)
qed

lemma differentiate_ok:
  assumes b: "basis_ok b" and len: "length v = 2 ^ L" and L: "L \<le> 16"
  obtains w where "differentiate b v = Inr w" "length w = 2 ^ L" "\<And>x. novel_val (\<lambda>t. t) x w = weighted (\<lambda>t. t) (dnovel x) v"
proof -
  have n: "(2 :: nat) ^ L \<le> 65536" using L power_increasing [of L 16 "2 :: nat"] by simp
  let ?w = "\<lambda>x m k. if k < m then novel x k else dnovel x k"
  have row: "length (differentiate_row b m u) = 2 ^ L \<and> weighted (\<lambda>t. t) (?w x (Suc m)) (differentiate_row b m u) = weighted (\<lambda>t. t) (?w x m) u"
    if u: "length u = 2 ^ L" and m: "m < 2 ^ L" for x u m
  proof -
    have der: "ab_derivative b ! i = 1" if "bit m i" for i
    proof -
      have "i < 16" using nat_bit_bound [of m 16 i] that m n by simp
      then show ?thesis using b by (simp add: basis_ok_def)
    qed
    let ?t = "\<lambda>i. m XOR 2 ^ i"
    have t: "?t i < m" if "bit m i" for i
    proof -
      have "0 < m" using that by (cases m) simp_all
      then show ?thesis using xor_clears [OF that] bit_ge_pow [OF that] by simp
    qed
    have bits: "set (mask_bits m) = {i. bit m i}" using mask_bits_set by blast
    let ?u = "fold (\<lambda>i v. v[?t i := v ! ?t i + u ! m * 1]) (mask_bits m) u"
    have "\<forall>i \<in> set (mask_bits m). ?t i < length u \<and> ?t i \<noteq> m" using t m u by (fastforce simp: bits)
    note adds = pts.weighted_adds_list [OF this, of "u ! m" "\<lambda>_. 1"]
    have step: "differentiate_row b m u = ?u[m := 0]"
    proof -
      have "fold (\<lambda>i v. v[?t i := v ! ?t i + u ! m * ab_derivative b ! i]) (mask_bits m) u = ?u"
        using der by (intro fold_cong) (simp_all add: bits)
      then show ?thesis by (simp add: differentiate_row_def Let_def)
    qed
    have um: "?u ! m = u ! m" "length ?u = 2 ^ L"
      by (rule adds [THEN conjunct2, THEN conjunct1], rule adds [THEN conjunct1, unfolded u])
    have "weighted (\<lambda>t. t) (?w x (Suc m)) (?u[m := 0]) = weighted (\<lambda>t. t) (?w x m) (?u[m := 0])"
      unfolding weighted_def by (rule sum.cong) (auto simp: um(2) nth_list_update less_Suc_eq)
    also have "weighted (\<lambda>t. t) (?w x m) (?u[m := 0]) = weighted (\<lambda>t. t) (?w x m) ?u + u ! m * dnovel x m"
    proof -
      have mu: "m < length ?u" using m um(2) by (simp only:)
      have "?u[m := 0] = ?u[m := ?u ! m + u ! m]" by (simp only: um T_char2)
      then show ?thesis using pts.weighted_update [OF mu, of "?w x m" "u ! m"] by (simp only: less_irrefl if_False)
    qed
    also have "weighted (\<lambda>t. t) (?w x m) ?u = weighted (\<lambda>t. t) (?w x m) u + u ! m * (\<Sum>i\<leftarrow>mask_bits m. 1 * ?w x m (?t i))"
      using adds by blast
    also have "(\<Sum>i\<leftarrow>mask_bits m. 1 * ?w x m (?t i)) = dnovel x m"
      unfolding dnovel_def by (intro arg_cong [where f = sum_list] map_cong refl) (simp add: bits t)
    finally have "weighted (\<lambda>t. t) (?w x (Suc m)) (?u[m := 0]) = weighted (\<lambda>t. t) (?w x m) u" by (simp add: add.assoc)
    then show ?thesis unfolding step length_list_update um(2) by blast
  qed
  have "length (fold (differentiate_row b) [0..<m] v) = 2 ^ L \<and> weighted (\<lambda>t. t) (?w x m) (fold (differentiate_row b) [0..<m] v) = weighted (\<lambda>t. t) (dnovel x) v"
    if "m \<le> 2 ^ L" for m x
    using that
  proof (induction m)
    case (Suc m)
    then show ?case using row [of "fold (differentiate_row b) [0..<m] v" m x] by simp
  qed (simp add: len)
  note all = this [of "2 ^ L"]
  let ?r = "fold (differentiate_row b) [0..<2 ^ L] v"
  have "novel_val (\<lambda>t. t) x ?r = weighted (\<lambda>t. t) (dnovel x) v" for x
  proof -
    have "novel_val (\<lambda>t. t) x ?r = weighted (\<lambda>t. t) (?w x (2 ^ L)) ?r"
      unfolding weighted_def using all [of x] by (intro sum.cong) simp_all
    then show ?thesis using all [of x] by simp
  qed
  moreover have "differentiate b v = Inr ?r" by (simp add: differentiate_def len additiveLog_pow [OF L])
  ultimately show thesis using all by (intro that [of ?r]) simp_all
qed

end
