(* ===== verification/Reconstruct.thy ===== *)
theory Reconstruct
  imports Mds
begin

text \<open>
  Correctness of the reconstruction of src/rsec16/coder.go: the reconstruction matrix solves the
  parity equations, the streamed construction of \<open>ReconstructionMatrix\<close> gives the same matrix as the
  direct one, and \<open>ReconstructData\<close> recovers the data that the parity was generated from.
\<close>

section \<open>The direct construction\<close>

definition left_entry :: "matrix \<Rightarrow> nat list \<Rightarrow> nat list \<Rightarrow> nat \<Rightarrow> nat \<Rightarrow> T" where
  "left_entry P us mi i j = el P (us ! i) (mi ! j)"

definition right_entry :: "matrix \<Rightarrow> nat list \<Rightarrow> nat list \<Rightarrow> nat \<Rightarrow> nat \<Rightarrow> T" where
  "right_entry P us av i j =
     (if j < length av then el P (us ! i) (av ! j) else if i = j - length av then 1 else 0)"

text \<open>The rows and columns that a reconstruction uses.\<close>

definition rows_used :: "matrix \<Rightarrow> nat list \<Rightarrow> nat list \<Rightarrow> nat list \<Rightarrow> bool" where
  "rows_used P av mi us \<longleftrightarrow> wf_matrix P \<and> mi \<noteq> [] \<and> length us = length mi
     \<and> length av + length mi = m_columns P \<and> (\<forall>u\<in>set us. u < m_rows P)
     \<and> (\<forall>l\<in>set av. l < m_columns P) \<and> (\<forall>l\<in>set mi. l < m_columns P)"

lemma rows_usedD:
  assumes "rows_used P av mi us"
  shows "wf_matrix P" "0 < length mi" "length us = length mi" "length av + length mi = m_columns P"
    "i < length mi \<Longrightarrow> us ! i < m_rows P" "j < length av \<Longrightarrow> av ! j < m_columns P"
    "j < length mi \<Longrightarrow> mi ! j < m_columns P" "0 < m_columns P"
  using assms by (auto simp: rows_used_def wf_matrix_def)

lemma makeReconstructionMatrix_eq:
  assumes "rows_used P av mi us"
  shows "makeReconstructionMatrix (m_columns P) av mi us P
    = RowReduceForInverse (mk_matrix (length mi) (length mi) (left_entry P us mi))
        (mk_matrix (length mi) (m_columns P) (right_entry P us av))"
proof -
  note r = rows_usedD [OF assms]
  have "NewMatrixFromFunction (length us) (length us) (\<lambda>i j.
       bindR (index_at us i) (\<lambda>k. bindR (index_at mi j) (\<lambda>l. At P k l)))
      = Inr (mk_matrix (length mi) (length mi) (left_entry P us mi))"
    unfolding r(3) using r by (intro NewMatrixFromFunction_eq) (auto simp: left_entry_def)
  moreover have "NewMatrixFromFunction (length us) (m_columns P) (\<lambda>i j.
       if j < length av then bindR (index_at us i) (\<lambda>k. bindR (index_at av j) (\<lambda>l. At P k l))
       else if i = j - length av then Inr 1 else Inr 0)
      = Inr (mk_matrix (length mi) (m_columns P) (right_entry P us av))"
    unfolding r(3) using r by (intro NewMatrixFromFunction_eq) (auto simp: right_entry_def)
  ultimately show ?thesis by (simp add: makeReconstructionMatrix_def)
qed

section \<open>Words in the streamed construction\<close>

lemma words_Uint16:
  assumes "2 * j + 2 \<le> length r"
  shows "T (le_word (slice r (2 * j) (2 * j + 2))) = words r ! j"
proof -
  have "slice r (2 * j) (2 * j + 2) = [r ! (2 * j), r ! (2 * j + 1)]"
    using assms by (intro nth_equalityI) (auto simp: nth_slice nth_Cons' less_2_cases_iff)
  moreover have "words (slice r (2 * j) (2 * j + 2)) = [words r ! j]"
    using assms by (subst words_slice) (auto simp: slice_def take_Suc_conv_app_nth hd_drop_conv_nth)
  ultimately show ?thesis by simp
qed

lemma Uint16_at_eq: "j < d \<Longrightarrow> length r = 2 * d \<Longrightarrow> bindR (Uint16_at r (2 * j)) (\<lambda>w. Inr (T w)) = Inr (words r ! j)"
  using words_Uint16 [of j r] by (simp add: Uint16_at_def)

lemma words_le_bytes2: "words (le_bytes 2 v) = [T v]"
  by (simp add: numeral_2_eq_2 word_of_bytes)

lemma PutUint16_at_eq:
  assumes "j < d" "length buf = 2 * d"
  shows "\<exists>buf'. PutUint16_at buf (2 * j) v = Inr buf' \<and> length buf' = 2 * d
    \<and> (\<forall>k<d. words buf' ! k = (if k = j then T v else words buf ! k))"
proof -
  let ?b = "splice buf (2 * j) (le_bytes 2 v)"
  have "words ?b ! k = (if k = j then T v else words buf ! k)" if "k < d" for k
    using words_splice [of "2 * j" "le_bytes 2 v" buf k] that assms by (auto simp: words_le_bytes2)
  with assms show ?thesis by (simp add: PutUint16_at_def)
qed

lemma words_list_eqI:
  assumes "length b = 2 * d" "\<And>k. k < d \<Longrightarrow> words b ! k = f k"
  shows "b = unwords (map f [0..<d])"
proof -
  have "words b = map f [0..<d]" using assms by (intro nth_equalityI) auto
  then show ?thesis using unwords_words [of b] assms(1) by simp
qed

lemma reconstruction_next_eq:
  assumes r: "rows_used P av mi us" and i: "i < length mi"
  shows "reconstruction_next av us P i (replicate (2 * m_columns P) 0)
    = Inr (unwords (map (right_entry P us av i) [0..<m_columns P]))"
proof -
  note r = rows_usedD [OF r]
  let ?d = "m_columns P"
  let ?step = "\<lambda>j buf. bindR (index_at us i) (\<lambda>k. bindR (index_at av j) (\<lambda>l. bindR (At P k l) (\<lambda>t.
         PutUint16_at buf (2 * j) (raw t))))"
  have "\<exists>buf. foldR ?step [0..<J] (replicate (2 * ?d) 0) = Inr buf \<and> length buf = 2 * ?d
      \<and> (\<forall>k<?d. words buf ! k = (if k < J then el P (us ! i) (av ! k) else 0))" if "J \<le> length av" for J
    using that
  proof (induction J)
    case 0
    then show ?case by (simp add: words_zero)
  next
    case (Suc J)
    then obtain buf where b: "foldR ?step [0..<J] (replicate (2 * ?d) 0) = Inr buf" "length buf = 2 * ?d"
        "\<forall>k<?d. words buf ! k = (if k < J then el P (us ! i) (av ! k) else 0)" by auto
    have J: "J < ?d" "J < length av" using Suc.prems r by auto
    have At: "At P (us ! i) (av ! J) = Inr (el P (us ! i) (av ! J))" using r i J by simp
    obtain buf' where "PutUint16_at buf (2 * J) (raw (el P (us ! i) (av ! J))) = Inr buf'"
        "length buf' = 2 * ?d"
        "\<forall>k<?d. words buf' ! k = (if k = J then T (raw (el P (us ! i) (av ! J))) else words buf ! k)"
      using PutUint16_at_eq [OF J(1) b(2)] by blast
    with b At J i r(3) show ?case by (auto simp: foldR_append less_Suc_eq)
  qed
  from this [of "length av"] obtain buf where b:
    "foldR ?step [0..<length av] (replicate (2 * ?d) 0) = Inr buf" "length buf = 2 * ?d"
    "\<forall>k<?d. words buf ! k = (if k < length av then el P (us ! i) (av ! k) else 0)" by auto
  have l: "length av + i < ?d" using r i by simp
  obtain buf' where b': "PutUint16_at buf (2 * (length av + i)) 1 = Inr buf'" "length buf' = 2 * ?d"
      "\<forall>k<?d. words buf' ! k = (if k = length av + i then T 1 else words buf ! k)"
    using PutUint16_at_eq [OF l b(2)] by blast
  have "buf' = unwords (map (right_entry P us av i) [0..<?d])"
    using b(3) b'(3) by (intro words_list_eqI b'(2)) (auto simp: right_entry_def one_T_def)
  with b(1) b'(1) show ?thesis by (simp add: reconstruction_next_def)
qed

section \<open>The streamed construction gives the same matrix\<close>

lemma dot_mk_matrix: "i < r \<Longrightarrow> dot (mk_matrix r c f) i x = (\<Sum>k<c. f i k * x k)"
  by (simp add: dot_def)

lemma el_via_dot: "j < m_columns m \<Longrightarrow> el m i j = dot m i (unit_vec j)"
  by (simp add: dot_unit_vec)

text \<open>Applying the inverse to the right-hand side is solving the system.\<close>

lemma inverse_times_eq_reduce:
  assumes m: "wf_matrix m" "m_rows m = k" "m_columns m = k"
    and minv: "RowReduceForInverse m (mk_matrix k k (\<lambda>i j. if i = j then 1 else 0)) = Inr minv"
    and d: "0 < d"
  shows "RowReduceForInverse m (mk_matrix k d f) = Inr (mk_matrix k d (\<lambda>i j. \<Sum>l<k. el minv i l * f l j))"
proof -
  have k: "0 < k" using m by (simp add: wf_matrix_def)
  let ?I = "mk_matrix k k (\<lambda>i j. if i = j then 1 else 0 :: T)" and ?N = "mk_matrix k d f"
  have I: "nonsingular m" "same_shape ?I minv"
      "\<And>x y. rel m ?I x y \<longleftrightarrow> (\<forall>i<k. x i = dot minv i y)"
    using RowReduceForInverse_cases [of m ?I] m k minv by auto
  obtain n' where n': "RowReduceForInverse m ?N = Inr n'" "same_shape ?N n'"
      "\<And>x y. rel m ?N x y \<longleftrightarrow> (\<forall>i<k. x i = dot n' i y)"
    using RowReduceForInverse_cases [of m ?N] m k d I(1) by auto
  have dI: "dot ?I i y = y i" if "i < k" for i y
  proof -
    have "dot ?I i y = (\<Sum>l<k. if i = l then y l else 0)"
      unfolding dot_mk_matrix [OF that] by (rule sum.cong) auto
    with that show ?thesis by simp
  qed
  have "rel m ?N x y \<longleftrightarrow> rel m ?I x (\<lambda>i. dot ?N i y)" for x y
    using m(2) dI by (simp add: rel_def)
  then have eq: "dot n' i y = dot minv i (\<lambda>i. dot ?N i y)" if "i < k" for i y
    using n'(3) [of "\<lambda>i. dot n' i y" y] I(3) that by simp
  have sh: "m_rows minv = k" "m_columns minv = k" "m_rows n' = k" "m_columns n' = d" "wf_matrix n'"
    using I(2) n'(2) by (auto simp: same_shape_def)
  have "n' = mk_matrix k d (\<lambda>i j. \<Sum>l<k. el minv i l * f l j)"
  proof (rule matrix_eqI)
    fix i j assume "i < m_rows n'" "j < m_columns n'"
    then have ij: "i < k" "j < d" using sh by auto
    have "el n' i j = dot minv i (\<lambda>i. dot ?N i (unit_vec j))"
      using eq [OF ij(1)] ij sh by (simp add: el_via_dot)
    also have "\<dots> = (\<Sum>l<k. el minv i l * dot ?N l (unit_vec j))" using sh by (simp add: dot_def [of minv])
    also have "\<dots> = (\<Sum>l<k. el minv i l * f l j)"
      using ij by (intro sum.cong) (simp_all add: dot_unit_vec)
    finally show "el n' i j = el (mk_matrix k d (\<lambda>i j. \<Sum>l<k. el minv i l * f l j)) i j" using ij by simp
  qed (use sh k d in auto)
  with n'(1) show ?thesis by simp
qed

lemma ReconstructionMatrix_eq:
  assumes e: "env_ok e" and c: "coder_ok c" and r: "rows_used (parityMatrix c) av mi us"
  shows "ReconstructionMatrix e c av mi us = makeReconstructionMatrix (dataShards c) av mi us (parityMatrix c)"
proof (cases "length mi < 32 \<or> dataShards c < 4 * length mi")
  case True
  then show ?thesis by (simp add: ReconstructionMatrix_def)
next
  case False
  let ?P = "parityMatrix c" and ?d = "dataShards c" and ?k = "length mi"
  have d: "m_columns ?P = ?d" "0 < ?d" using c by (auto simp: coder_ok_def)
  note ru = rows_usedD [OF r, unfolded d]
  let ?M = "mk_matrix ?k ?k (left_entry ?P us mi)" and ?N = "mk_matrix ?k ?d (right_entry ?P us av)"
  let ?I = "mk_matrix ?k ?k (\<lambda>i j. if i = j then 1 else 0 :: T)"
  have M: "wf_matrix ?M" "m_rows ?M = ?k" "m_columns ?M = ?k" using ru(2) by auto
  have make: "makeReconstructionMatrix ?d av mi us ?P = RowReduceForInverse ?M ?N"
    using makeReconstructionMatrix_eq [OF r] d by simp
  have sq: "NewMatrixFromFunction (length us) ?k (\<lambda>i j.
       bindR (index_at us i) (\<lambda>k. bindR (index_at mi j) (\<lambda>l. At ?P k l))) = Inr ?M"
    unfolding ru(3) using ru d by (intro NewMatrixFromFunction_eq) (auto simp: left_entry_def)
  have I: "Inverse ?M = RowReduceForInverse ?M ?I"
    using Inverse_eq_RowReduce [of ?M] M by simp
  show ?thesis
  proof (cases "RowReduceForInverse ?M ?I")
    case (Inl er)
    then have "RowReduceForInverse ?M ?N = Inl er"
      using RowReduceForInverse_cases [of ?M ?I] RowReduceForInverse_cases [of ?M ?N] ru(2) d by auto
    with Inl False sq I make show ?thesis by (simp add: ReconstructionMatrix_def)
  next
    case (Inr minv)
    let ?inp = "map (\<lambda>i. unwords (map (right_entry ?P us av i) [0..<?d])) [0..<?k]"
    let ?out = "replicate ?k (replicate (2 * ?d) 0) :: byte list list"
    have sh: "wf_matrix minv" "m_rows minv = ?k" "m_columns minv = ?k"
      using RowReduceForInverse_cases [of ?M ?I] Inr ru(2) by (auto simp: same_shape_def)
    have del: "delivers (reconstruction_next av us ?P) (2 * ?d) ?inp"
      using reconstruction_next_eq [OF r] d by (simp add: delivers_def)
    have "fold_ok minv (length ?inp) (2 * ?d) ?out" using sh by (simp add: fold_ok_def)
    then have "FoldInputs e minv (length ?inp) (2 * ?d) (reconstruction_next av us ?P) ?out (int (c_numGoroutines c))
        = Inr (apply_spec minv ?inp (length ?out) (2 * ?d))"
      by (rule FoldInputs_eq [OF e _ _ _ del]) (use ru(2) d in auto)
    then have fold: "FoldInputs e minv (length us) (2 * ?d) (reconstruction_next av us ?P) ?out (int (c_numGoroutines c))
        = Inr (apply_spec minv ?inp ?k (2 * ?d))"
      by (simp add: ru(3))
    have nm: "NewMatrixFromFunction ?k ?d (\<lambda>i j. bindR (index_at (apply_spec minv ?inp ?k (2 * ?d)) i) (\<lambda>r.
          bindR (Uint16_at r (2 * j)) (\<lambda>w. Inr (T w))))
        = Inr (mk_matrix ?k ?d (\<lambda>i j. \<Sum>l<?k. el minv i l * right_entry ?P us av l j))"
    proof (rule NewMatrixFromFunction_eq)
      fix i j assume ij: "i < ?k" "j < ?d"
      let ?row = "unwords (map (mrow minv ?inp i) [0..<?d])"
      have "bindR (Uint16_at ?row (2 * j)) (\<lambda>w. Inr (T w)) = Inr (words ?row ! j)"
        using ij by (intro Uint16_at_eq) auto
      then show "bindR (index_at (apply_spec minv ?inp ?k (2 * ?d)) i) (\<lambda>r. bindR (Uint16_at r (2 * j)) (\<lambda>w. Inr (T w)))
          = Inr (\<Sum>l<?k. el minv i l * right_entry ?P us av l j)"
        using ij by (simp add: apply_spec_def mrow_def)
    qed (use ru d in auto)
    have "RowReduceForInverse ?M ?N
        = Inr (mk_matrix ?k ?d (\<lambda>i j. \<Sum>l<?k. el minv i l * right_entry ?P us av l j))"
      using d(2) by (intro inverse_times_eq_reduce [OF M Inr])
    with False sq I make Inr fold nm show ?thesis by (simp add: ReconstructionMatrix_def)
  qed
qed

section \<open>The scan of the shards\<close>

lemma split_data_enumerate:
  "split_data i ds = (map fst (filter (\<lambda>(_, s). s \<noteq> None) (enumerate i ds)),
     map fst (filter (\<lambda>(_, s). s = None) (enumerate i ds)),
     map (the \<circ> snd) (filter (\<lambda>(_, s). s \<noteq> None) (enumerate i ds)))"
  by (induction i ds rule: split_data.induct) auto

lemma enumerate_upt: "enumerate 0 xs = map (\<lambda>j. (j, xs ! j)) [0..<length xs]"
  by (rule nth_equalityI) (auto simp: nth_enumerate_eq)

definition avail :: "'a option list \<Rightarrow> nat list" where
  "avail xs = filter (\<lambda>j. xs ! j \<noteq> None) [0..<length xs]"

definition missing :: "'a option list \<Rightarrow> nat list" where
  "missing xs = filter (\<lambda>j. xs ! j = None) [0..<length xs]"

lemma split_data_eq: "split_data 0 ds = (avail ds, missing ds, map (\<lambda>j. the (ds ! j)) (avail ds))"
  unfolding split_data_enumerate enumerate_upt avail_def missing_def
  by (simp add: filter_map o_def case_prod_beta)

lemma pick_parity_enumerate:
  "length inp \<le> d \<Longrightarrow> pick_parity d i ps used inp
    = (let xs = take (d - length inp) (filter (\<lambda>(_, s). s \<noteq> None) (enumerate i ps))
       in (used @ map fst xs, inp @ map (the \<circ> snd) xs))"
proof (induction d i ps used inp rule: pick_parity.induct)
  case (1 d i used inp)
  then show ?case by simp
next
  case (2 d i p ps used inp)
  show ?case
  proof (cases "length inp < d")
    case True
    then have t: "d - length inp = Suc (d - Suc (length inp))" by simp
    with True 2 show ?thesis by (cases p) (auto simp: Let_def)
  qed (use 2 in simp)
qed

lemma pick_parity_eq:
  assumes "length inp \<le> d"
  shows "pick_parity d 0 ps [] inp
    = (take (d - length inp) (avail ps), inp @ map (\<lambda>j. the (ps ! j)) (take (d - length inp) (avail ps)))"
  unfolding pick_parity_enumerate [OF assms] enumerate_upt avail_def Let_def
  by (simp add: filter_map take_map o_def case_prod_beta)

lemma avail_missing:
  "set (avail xs) = {j. j < length xs \<and> xs ! j \<noteq> None}" "set (missing xs) = {j. j < length xs \<and> xs ! j = None}"
  "distinct (avail xs)" "distinct (missing xs)" "length (avail xs) + length (missing xs) = length xs"
proof -
  show "length (avail xs) + length (missing xs) = length xs"
    using sum_length_filter_compl [of "\<lambda>j. xs ! j \<noteq> None" "[0..<length xs]"]
    by (simp add: avail_def missing_def)
qed (auto simp: avail_def missing_def)

text \<open>A sum over all shards splits into the available and the missing ones.\<close>

lemma sum_avail_missing:
  "(\<Sum>l<length xs. f l) = (\<Sum>j<length (avail xs). f (avail xs ! j)) + (\<Sum>j<length (missing xs). f (missing xs ! j))"
  for f :: "nat \<Rightarrow> T"
proof -
  have l: "(\<Sum>j<length ys. f (ys ! j)) = sum f (set ys)" if "distinct ys" for ys
    by (rule sum.reindex_bij_betw) (rule bij_betw_nth [OF that refl refl])
  have "{..<length xs} = set (avail xs) \<union> set (missing xs)" "set (avail xs) \<inter> set (missing xs) = {}"
    by (auto simp: avail_missing(1,2))
  then have "(\<Sum>l<length xs. f l) = sum f (set (avail xs)) + sum f (set (missing xs))"
    by (simp add: sum.union_disjoint)
  then show ?thesis by (simp add: l avail_missing(3,4))
qed

section \<open>The data come back\<close>

text \<open>
  \<open>shards_of xs X\<close>: every shard that is present is the one of \<open>X\<close>.
\<close>

definition shards_of :: "'a option list \<Rightarrow> 'a list \<Rightarrow> bool" where
  "shards_of xs X \<longleftrightarrow> length xs = length X \<and> (\<forall>j<length xs. xs ! j = None \<or> xs ! j = Some (X ! j))"

lemma shards_of_avail: "shards_of xs X \<Longrightarrow> j \<in> set (avail xs) \<Longrightarrow> the (xs ! j) = X ! j \<and> j < length X"
  by (auto simp: shards_of_def avail_missing(1))

lemma fill_missing:
  assumes "shards_of xs X"
  shows "foldR (\<lambda>i data. bindR (index_at (missing xs) i) (\<lambda>r. bindR (index_at (map (\<lambda>l. X ! l) (missing xs)) i)
      (\<lambda>s. put data r (Some s)))) [0..<length (missing xs)] xs = Inr (map Some X)"
proof -
  let ?m = "missing xs"
  have "\<exists>ys. foldR (\<lambda>i data. bindR (index_at ?m i) (\<lambda>r. bindR (index_at (map (\<lambda>l. X ! l) ?m) i)
      (\<lambda>s. put data r (Some s)))) [0..<J] xs = Inr ys \<and> length ys = length xs
      \<and> (\<forall>j<length xs. ys ! j = (if j \<in> set (take J ?m) then Some (X ! j) else xs ! j))"
    if "J \<le> length ?m" for J
    using that
  proof (induction J)
    case 0
    then show ?case by simp
  next
    case (Suc J)
    then obtain ys where y: "foldR (\<lambda>i data. bindR (index_at ?m i) (\<lambda>r. bindR (index_at (map (\<lambda>l. X ! l) ?m) i)
      (\<lambda>s. put data r (Some s)))) [0..<J] xs = Inr ys" "length ys = length xs"
      "\<forall>j<length xs. ys ! j = (if j \<in> set (take J ?m) then Some (X ! j) else xs ! j)" by auto
    have "?m ! J < length xs" using Suc.prems nth_mem [of J ?m] avail_missing(2) [of xs] by auto
    with y Suc.prems show ?case
      by (auto simp: foldR_append nth_list_update take_Suc_conv_app_nth)
  qed
  from this [of "length ?m"] obtain ys where
    y: "foldR (\<lambda>i data. bindR (index_at ?m i) (\<lambda>r. bindR (index_at (map (\<lambda>l. X ! l) ?m) i)
      (\<lambda>s. put data r (Some s)))) [0..<length ?m] xs = Inr ys" "length ys = length xs"
      "\<forall>j<length xs. ys ! j = (if j \<in> set ?m then Some (X ! j) else xs ! j)" by auto
  have "ys = map Some X"
    using y(2,3) assms by (intro nth_equalityI) (auto simp: shards_of_def avail_missing(2))
  with y(1) show ?thesis by simp
qed

text \<open>The words of the original shards solve the system that the reconstruction sets up.\<close>

lemma parity_equations:
  assumes P: "rows_used P av mi us" and av: "av = avail data" and mi: "mi = missing data"
    and D: "length data = length D" "length D = m_columns P"
    and Q: "\<And>j. j < length mi \<Longrightarrow> yq j = mrow P D (us ! j) w"
  shows "rel (mk_matrix (length mi) (length mi) (left_entry P us mi))
      (mk_matrix (length mi) (m_columns P) (right_entry P us av))
      (\<lambda>j. words (D ! (mi ! j)) ! w)
      (\<lambda>j. if j < length av then words (D ! (av ! j)) ! w else yq (j - length av))"
proof -
  note r = rows_usedD [OF P]
  let ?k = "length mi" and ?d = "m_columns P"
  let ?y = "\<lambda>j. if j < length av then words (D ! (av ! j)) ! w else yq (j - length av)"
  have "dot (mk_matrix ?k ?k (left_entry P us mi)) i (\<lambda>j. words (D ! (mi ! j)) ! w)
      = dot (mk_matrix ?k ?d (right_entry P us av)) i ?y" if i: "i < ?k" for i
  proof -
    let ?f = "\<lambda>l. el P (us ! i) l * words (D ! l) ! w"
    have L: "dot (mk_matrix ?k ?k (left_entry P us mi)) i (\<lambda>j. words (D ! (mi ! j)) ! w) = (\<Sum>j<?k. ?f (mi ! j))"
      using i by (simp add: dot_mk_matrix left_entry_def)
    have split: "{..<?d} = {..<length av} \<union> (\<lambda>j. length av + j) ` {..<?k}"
    proof (intro equalityI subsetI)
      fix j assume "j \<in> {..<?d}"
      then show "j \<in> {..<length av} \<union> (\<lambda>j. length av + j) ` {..<?k}"
        using r(4) by (cases "j < length av") (auto intro!: image_eqI [of _ _ "j - length av"])
    qed (use r(4) in auto)
    have "dot (mk_matrix ?k ?d (right_entry P us av)) i ?y
        = (\<Sum>j<length av. right_entry P us av i j * ?y j) + (\<Sum>j<?k. right_entry P us av i (length av + j) * ?y (length av + j))"
      unfolding dot_mk_matrix [OF i] split
      by (subst sum.union_disjoint) (auto simp: sum.reindex inj_on_def)
    also have "(\<Sum>j<length av. right_entry P us av i j * ?y j) = (\<Sum>j<length av. ?f (av ! j))"
      by (intro sum.cong) (auto simp: right_entry_def)
    also have "(\<Sum>j<?k. right_entry P us av i (length av + j) * ?y (length av + j)) = (\<Sum>j<?k. if j = i then yq j else 0)"
      by (intro sum.cong) (auto simp: right_entry_def)
    also have "\<dots> = (\<Sum>l<length data. ?f l)" using i Q [OF i] D by (simp add: mrow_def)
    also have "\<dots> = (\<Sum>j<length av. ?f (av ! j)) + (\<Sum>j<?k. ?f (mi ! j))"
      unfolding av mi by (rule sum_avail_missing)
    finally show ?thesis unfolding L by simp
  qed
  then show ?thesis by (simp add: rel_def)
qed

lemma reconstruct_words:
  assumes R: "same_shape (mk_matrix k d f) R" and inp: "length inp = d"
    and eq: "\<And>w i. w < n div 2 \<Longrightarrow> i < k \<Longrightarrow> words (X ! i) ! w = dot R i (\<lambda>j. words (inp ! j) ! w)"
    and X: "length X = k" "\<And>i. i < k \<Longrightarrow> length (X ! i) = n" and n: "even n"
  shows "apply_spec R inp k n = X"
proof (rule nth_equalityI)
  fix i assume "i < length (apply_spec R inp k n)"
  then have i: "i < k" by (simp add: apply_spec_def)
  have "dot R i (\<lambda>j. words (inp ! j) ! w) = mrow R inp i w" for w
    using R inp by (simp add: dot_def mrow_def same_shape_def)
  then have "X ! i = unwords (map (mrow R inp i) [0..<n div 2])"
    using eq i X(2) [OF i] n by (intro words_list_eqI) auto
  with i show "apply_spec R inp k n ! i = X ! i" by (simp add: apply_spec_def)
qed (use X in \<open>simp add: apply_spec_def\<close>)

section \<open>\<open>ReconstructData\<close>\<close>

definition recon_ok ::
  "Coder \<Rightarrow> nat \<Rightarrow> byte list list \<Rightarrow> byte list option list \<Rightarrow> byte list option list \<Rightarrow> bool" where
  "recon_ok c n D data parity \<longleftrightarrow> coder_ok c \<and> shards_ok (dataShards c) n D \<and> shards_of data D
     \<and> shards_of parity (apply_spec (parityMatrix c) D (parityShards c) n)"

text \<open>The parity rows that a reconstruction takes, and its system.\<close>

definition used_rows :: "byte list option list \<Rightarrow> byte list option list \<Rightarrow> nat list" where
  "used_rows data parity = take (length (missing data)) (avail parity)"

definition recon_system :: "Coder \<Rightarrow> byte list option list \<Rightarrow> byte list option list \<Rightarrow> matrix" where
  "recon_system c data parity = mk_matrix (length (missing data)) (length (missing data))
     (left_entry (parityMatrix c) (used_rows data parity) (missing data))"

lemma recon_okD:
  assumes "recon_ok c n D data parity"
  shows "length data = dataShards c" "length D = dataShards c" "length parity = parityShards c"
    "m_columns (parityMatrix c) = dataShards c" "m_rows (parityMatrix c) = parityShards c"
    "length (avail data) + length (missing data) = dataShards c" "even n" "0 < n"
    "j < dataShards c \<Longrightarrow> length (D ! j) = n"
  using assms avail_missing(5) [of data]
  by (auto simp: recon_ok_def coder_ok_def shards_ok_def shards_of_def apply_spec_def)

lemma recon_rows_used:
  assumes "recon_ok c n D data parity" "missing data \<noteq> []" "length (missing data) \<le> length (avail parity)"
  shows "rows_used (parityMatrix c) (avail data) (missing data) (used_rows data parity)"
proof -
  note r = recon_okD [OF assms(1)]
  have "set (used_rows data parity) \<subseteq> set (avail parity)" by (simp add: used_rows_def set_take_subset)
  then show ?thesis
    using assms r by (auto simp: rows_used_def used_rows_def recon_ok_def coder_ok_def avail_missing(1,2))
qed

text \<open>The inputs of the reconstruction: available data, then the parity rows used.\<close>

definition recon_input ::
  "byte list list \<Rightarrow> matrix \<Rightarrow> nat \<Rightarrow> nat list \<Rightarrow> nat list \<Rightarrow> byte list list" where
  "recon_input D P n av us = map (\<lambda>j. D ! j) av @ map (\<lambda>u. unwords (map (mrow P D u) [0..<n div 2])) us"

lemma pick_parity_input:
  assumes r: "recon_ok c n D data parity"
  shows "pick_parity (dataShards c) 0 parity [] (map (\<lambda>j. the (data ! j)) (avail data))
    = (used_rows data parity, recon_input D (parityMatrix c) n (avail data) (used_rows data parity))"
proof -
  note rd = recon_okD [OF r]
  have k: "dataShards c - length (avail data) = length (missing data)" using rd(6) by simp
  have d: "map (\<lambda>j. the (data ! j)) (avail data) = map (\<lambda>j. D ! j) (avail data)"
    using r shards_of_avail [of data D] by (auto simp: recon_ok_def)
  have "the (parity ! u) = unwords (map (mrow (parityMatrix c) D u) [0..<n div 2])"
    if u: "u \<in> set (used_rows data parity)" for u
  proof -
    have "u \<in> set (avail parity)" using u by (auto simp: used_rows_def dest: in_set_takeD)
    with r shards_of_avail [of parity "apply_spec (parityMatrix c) D (parityShards c) n" u]
    show ?thesis by (auto simp: recon_ok_def apply_spec_def)
  qed
  then show ?thesis
    using rd(6) by (subst pick_parity_eq) (auto simp: k d recon_input_def used_rows_def)
qed

lemma recon_solution:
  assumes r: "recon_ok c n D data parity" and mi: "missing data \<noteq> []"
      "length (missing data) \<le> length (avail parity)"
    and R: "same_shape (mk_matrix (length (missing data)) (dataShards c)
        (right_entry (parityMatrix c) (used_rows data parity) (avail data))) R"
    and sol: "\<And>x y. rel (recon_system c data parity)
        (mk_matrix (length (missing data)) (dataShards c)
          (right_entry (parityMatrix c) (used_rows data parity) (avail data))) x y
      \<longleftrightarrow> (\<forall>i<length (missing data). x i = dot R i y)"
  shows "apply_spec R (recon_input D (parityMatrix c) n (avail data) (used_rows data parity))
      (length (missing data)) n = map (\<lambda>l. D ! l) (missing data)"
proof (rule reconstruct_words [OF R])
  note rd = recon_okD [OF r] and ru = recon_rows_used [OF r mi]
  let ?P = "parityMatrix c" and ?us = "used_rows data parity" and ?av = "avail data" and ?mi = "missing data"
  have lu: "length ?us = length ?mi" using mi(2) by (simp add: used_rows_def)
  show "length (recon_input D ?P n ?av ?us) = dataShards c"
    using rd(6) lu by (simp add: recon_input_def)
  show "even n" by (rule rd(7))
  fix w i assume w: "w < n div 2" and i: "i < length ?mi"
  let ?yq = "\<lambda>j. mrow ?P D (?us ! j) w"
  let ?y = "\<lambda>j. if j < length ?av then words (D ! (?av ! j)) ! w else ?yq (j - length ?av)"
  have "rel (recon_system c data parity) (mk_matrix (length ?mi) (dataShards c) (right_entry ?P ?us ?av))
      (\<lambda>j. words (D ! (?mi ! j)) ! w) ?y"
    unfolding recon_system_def rd(4) [symmetric]
    by (rule parity_equations [OF ru refl refl]) (use rd in auto)
  then have "\<forall>i<length ?mi. words (D ! (?mi ! i)) ! w = dot R i ?y" unfolding sol .
  then have "words (D ! (?mi ! i)) ! w = dot R i ?y" using i by blast
  also have "\<dots> = dot R i (\<lambda>j. words (recon_input D ?P n ?av ?us ! j) ! w)"
    unfolding dot_def
  proof (intro sum.cong refl arg_cong2 [where f = "(*)"])
    fix j assume "j \<in> {..<m_columns R}"
    then have "j < dataShards c" using R by (simp add: same_shape_def)
    then show "?y j = words (recon_input D ?P n ?av ?us ! j) ! w"
      using w rd(6) lu by (auto simp: recon_input_def nth_append)
  qed
  finally show "words (map (\<lambda>l. D ! l) ?mi ! i) ! w = dot R i (\<lambda>j. words (recon_input D ?P n ?av ?us ! j) ! w)"
    using i by simp
next
  fix i assume "i < length (missing data)"
  then have "missing data ! i < dataShards c"
    using nth_mem [of i "missing data"] recon_okD(1) [OF r] by (simp add: avail_missing(2))
  then show "length (map (\<lambda>l. D ! l) (missing data) ! i) = n"
    using recon_okD(9) [OF r] \<open>i < length (missing data)\<close> by simp
qed simp

lemma ReconstructData_cases:
  assumes e: "env_ok e" and r: "recon_ok c n D data parity"
  shows "ReconstructData e c data parity =
    (if missing data = [] then Inr data
     else if length (avail parity) < length (missing data) then Inl NotEnoughParityShardsError
     else if nonsingular (recon_system c data parity) then Inr (map Some D)
     else Inl (ErrorNew ''singular matrix''))"
proof (cases "missing data = [] \<or> length (avail parity) < length (missing data)")
  case True
  then show ?thesis
    using recon_okD(6) [OF r] pick_parity_input [OF r]
    by (auto simp: ReconstructData_def split_data_eq recon_input_def used_rows_def)
next
  case False
  then have mi: "missing data \<noteq> []" "length (missing data) \<le> length (avail parity)" by auto
  note rd = recon_okD [OF r] and ru = recon_rows_used [OF r mi]
  let ?P = "parityMatrix c" and ?us = "used_rows data parity" and ?av = "avail data" and ?mi = "missing data"
  let ?M = "recon_system c data parity" and ?N = "mk_matrix (length ?mi) (dataShards c) (right_entry ?P ?us ?av)"
  let ?inp = "recon_input D ?P n ?av ?us"
  have c: "coder_ok c" using r by (simp add: recon_ok_def)
  have lu: "length ?us = length ?mi" using mi(2) by (simp add: used_rows_def)
  have li: "length ?inp = dataShards c" using rd(6) lu by (simp add: recon_input_def)
  have RM: "ReconstructionMatrix e c ?av ?mi ?us = RowReduceForInverse ?M ?N"
    using ReconstructionMatrix_eq [OF e c ru] makeReconstructionMatrix_eq [OF ru] rd(4)
    by (simp add: recon_system_def)
  have wf: "wf_matrix ?M" "wf_matrix ?N" "m_rows ?M = m_columns ?M" "m_rows ?N = m_rows ?M" "m_rows ?M = length ?mi"
    using mi(1) c by (auto simp: recon_system_def coder_ok_def)
  have start: "ReconstructData e c data parity
      = bindR (RowReduceForInverse ?M ?N) (\<lambda>m. bindR (index_at ?inp 0) (\<lambda>in0.
           bindR (applyMatrix e c m ?inp (replicate (length ?mi) (replicate (length in0) 0))) (\<lambda>rec.
           foldR (\<lambda>i data. bindR (index_at ?mi i) (\<lambda>r. bindR (index_at rec i) (\<lambda>s. put data r (Some s))))
             [0..<length ?mi] data)))"
    using mi li pick_parity_input [OF r] by (simp add: ReconstructData_def split_data_eq RM)
  from RowReduceForInverse_cases [OF wf(1-4)] show ?thesis
  proof (elim disjE exE conjE)
    assume "RowReduceForInverse ?M ?N = Inl (ErrorNew ''singular matrix'')" "\<not> nonsingular ?M"
    with False show ?thesis by (simp add: start)
  next
    fix R assume R: "RowReduceForInverse ?M ?N = Inr R" "same_shape ?N R" "nonsingular ?M"
      "\<forall>x y. rel ?M ?N x y \<longleftrightarrow> (\<forall>i<m_rows ?M. x i = dot R i y)"
    have out: "apply_spec R ?inp (length ?mi) n = map (\<lambda>l. D ! l) ?mi"
      using recon_solution [OF r mi R(2)] R(4) wf(5) by simp
    have leni: "length (?inp ! j) = n" if "j < dataShards c" for j
    proof -
      have "length x = n" if x: "x \<in> set ?inp" for x
        using x rd(1,7,9) by (auto simp: recon_input_def avail_missing(1))
      with that li show ?thesis by (metis nth_mem)
    qed
    have d: "0 < dataShards c" "0 < c_numGoroutines c" using c by (auto simp: coder_ok_def)
    have "apply_ok R ?inp n (replicate (length ?mi) (replicate n 0))"
      using R(2) li leni d mi(1) rd(7) by (auto simp: apply_ok_def same_shape_def all_set_conv_all_nth)
    from applyMatrix_eq [OF e this rd(8) d(2)] out
    have "applyMatrix e c R ?inp (replicate (length ?mi) (replicate n 0)) = Inr (map (\<lambda>l. D ! l) ?mi)"
      by simp
    moreover have "shards_of data D" using r by (simp add: recon_ok_def)
    ultimately show ?thesis
      using R(1,3) False li leni [OF d(1)] d(1) fill_missing [of data D] by (simp add: start)
  qed
qed

section \<open>The two coders\<close>

lemma recon_system_mk:
  assumes P: "parityMatrix c = mk_matrix (parityShards c) (dataShards c) f"
    and r: "recon_ok c n D data parity" "length (missing data) \<le> length (avail parity)"
    and k: "ker_zero (length (missing data)) (\<lambda>i j. f (used_rows data parity ! i) (missing data ! j))"
  shows "nonsingular (recon_system c data parity)"
proof -
  note rd = recon_okD [OF r(1)]
  have u: "used_rows data parity ! i < parityShards c" "missing data ! j < dataShards c"
    if "i < length (missing data)" "j < length (missing data)" for i j
  proof -
    have "used_rows data parity ! i \<in> set (avail parity)"
      using that r(2) by (simp add: used_rows_def)
    then show "used_rows data parity ! i < parityShards c" using rd(3) by (simp add: avail_missing(1))
    have "missing data ! j \<in> set (missing data)" using that by simp
    then show "missing data ! j < dataShards c" using rd(1) by (simp add: avail_missing(2))
  qed
  have "left_entry (parityMatrix c) (used_rows data parity) (missing data) i j
      = f (used_rows data parity ! i) (missing data ! j)"
    if "i < length (missing data)" "j < length (missing data)" for i j
    using u [OF that] by (simp add: left_entry_def P)
  with k show ?thesis
    unfolding recon_system_def nonsingular_mk_matrix ker_zero_def by simp
qed

lemma used_rows_inj:
  "length (missing data) \<le> length (avail parity) \<Longrightarrow>
   inj_on (\<lambda>i. used_rows data parity ! i) {..<length (missing data)}"
  using avail_missing(3) [of parity]
  by (auto simp: inj_on_def used_rows_def nth_eq_iff_index_eq)

lemma missing_inj: "inj_on (\<lambda>i. missing data ! i) {..<length (missing data)}"
  using avail_missing(4) [of data] by (auto simp: inj_on_def nth_eq_iff_index_eq)

lemma cauchy_nonsingular:
  assumes c: "0 < d" "0 < p" "0 < g" "d + p \<le> 65535"
    and r: "recon_ok (mk_coder d p g (\<lambda>i j. inverse (elt (d + i) + elt j))) n D data parity"
      "length (missing data) \<le> length (avail parity)"
  shows "nonsingular (recon_system (mk_coder d p g (\<lambda>i j. inverse (elt (d + i) + elt j))) data parity)"
proof (rule recon_system_mk [OF _ r])
  let ?us = "used_rows data parity" and ?mi = "missing data"
  have len: "length parity = p" "length data = d"
    using recon_okD(1,3) [OF r(1)] by (simp_all add: mk_coder_def)
  have u: "?us ! i < p" if "i < length ?mi" for i
  proof -
    have "?us ! i \<in> set (avail parity)" using that r(2) by (simp add: used_rows_def)
    then show ?thesis using len by (simp add: avail_missing(1))
  qed
  have m: "?mi ! j < d" if "j < length ?mi" for j
    using nth_mem [OF that] len by (simp add: avail_missing(2))
  show "ker_zero (length ?mi) (\<lambda>i j. inverse (elt (d + ?us ! i) + elt (?mi ! j)))"
  proof (rule cauchy_ker_zero)
    have e: "elt a = elt b \<longleftrightarrow> a = b" if "a < d + p" "b < d + p" for a b
      using that c(4) by (intro elt_inj) simp_all
    show "inj_on (\<lambda>i. elt (d + ?us ! i)) {..<length ?mi}"
    proof (rule inj_onI)
      fix i j assume ij: "i \<in> {..<length ?mi}" "j \<in> {..<length ?mi}" "elt (d + ?us ! i) = elt (d + ?us ! j)"
      then have "?us ! i = ?us ! j" using u by (simp add: e)
      then show "i = j" using inj_onD [OF used_rows_inj [OF r(2)]] ij(1,2) by blast
    qed
    show "inj_on (\<lambda>j. elt (?mi ! j)) {..<length ?mi}"
    proof (rule inj_onI)
      fix i j assume ij: "i \<in> {..<length ?mi}" "j \<in> {..<length ?mi}" "elt (?mi ! i) = elt (?mi ! j)"
      then have "?mi ! i = ?mi ! j" using m by (simp add: e trans_less_add1)
      then show "i = j" using inj_onD [OF missing_inj [of data]] ij(1,2) by blast
    qed
    show "elt (d + ?us ! i) \<noteq> elt (?mi ! j)" if "i < length ?mi" "j < length ?mi" for i j
      using u [OF that(1)] m [OF that(2)] c(4) by (simp add: elt_inj)
  qed
qed (simp add: mk_coder_def)

lemma vandermonde_nonsingular:
  assumes c: "0 < d" "d \<le> length generators"
    and r: "recon_ok (mk_coder d (length rows) g (\<lambda>i j. generators ! j ^ nat (rows ! i))) n D data parity"
      "length (missing data) \<le> length (avail parity)"
    and s: "\<forall>i<length (missing data). nat (rows ! (used_rows data parity ! i)) = s + i"
  shows "nonsingular (recon_system (mk_coder d (length rows) g (\<lambda>i j. generators ! j ^ nat (rows ! i))) data parity)"
proof (rule recon_system_mk [OF _ r])
  let ?us = "used_rows data parity" and ?mi = "missing data"
  have len: "length data = d" using recon_okD(1) [OF r(1)] by (simp add: mk_coder_def)
  have m: "?mi ! j < length generators" if "j < length ?mi" for j
    using nth_mem [OF that] len c(2) by (simp add: avail_missing(2))
  have "ker_zero (length ?mi) (\<lambda>i j. generators ! (?mi ! j) ^ (s + i))"
  proof (rule vandermonde_ker_zero)
    show "inj_on (\<lambda>j. generators ! (?mi ! j)) {..<length ?mi}"
      using missing_inj [of data] m distinct_generators by (auto simp: inj_on_def nth_eq_iff_index_eq)
    show "generators ! (?mi ! j) \<noteq> 0" if "j < length ?mi" for j
    proof -
      have "primitive (generators ! (?mi ! j))" using m [OF that] by (intro set_generators) simp
      from primitive_nonzero [OF this, of 1] show ?thesis by simp
    qed
  qed
  then show "ker_zero (length ?mi) (\<lambda>i j. generators ! (?mi ! j) ^ nat (rows ! (?us ! i)))"
    using s by (simp add: ker_zero_def)
qed (simp add: mk_coder_def)

text \<open>The setting of the properties: parity generated from the data, then shards go missing.\<close>

lemma recon_okI:
  assumes "env_ok e" "coder_ok c" "shards_ok (dataShards c) n D" "GenerateParity e c D = Inr Q"
    "shards_of data D" "shards_of parity Q"
  shows "recon_ok c n D data parity"
  using assms GenerateParity_eq [OF assms(1-3)] by (simp add: recon_ok_def)

lemma ReconstructData_ok:
  assumes "env_ok e" "recon_ok c n D data parity" "length (missing data) \<le> length (avail parity)"
    "nonsingular (recon_system c data parity)"
  shows "ReconstructData e c data parity = Inr (map Some D)"
proof (cases "missing data = []")
  case True
  have s: "shards_of data D" using assms(2) by (simp add: recon_ok_def)
  have "data = map Some D"
    using fill_missing [OF s] True by simp
  with True assms show ?thesis by (simp add: ReconstructData_cases)
next
  case False
  with assms show ?thesis by (simp add: ReconstructData_cases)
qed

section \<open>Properties\<close>

text \<open>A small setting: two data shards, two parity shards, the first data shard lost.\<close>

definition sample_data :: "byte list list" where
  "sample_data = [[1, 2], [3, 4]]"

definition sample_coder :: Coder where
  "sample_coder = mk_coder 2 2 1 (\<lambda>i j. inverse (elt (2 + i) + elt j))"

definition sample_parity :: "byte list list" where
  "sample_parity = apply_spec (parityMatrix sample_coder) sample_data 2 2"

lemma sample_coder_ok: "coder_ok sample_coder" "dataShards sample_coder = 2"
  by (simp add: sample_coder_def coder_ok_mk) (simp add: sample_coder_def mk_coder_def)

lemma sample_generate: "GenerateParity (pure_env True) sample_coder sample_data = Inr sample_parity"
proof -
  have "shards_ok (dataShards sample_coder) 2 sample_data"
    by (simp add: sample_coder_ok shards_ok_def sample_data_def)
  from GenerateParity_eq [OF env_ok_pure(1) sample_coder_ok(1) this]
  show ?thesis by (simp add: sample_parity_def sample_coder_def mk_coder_def)
qed

lemma first_missing [simp]: "missing [None, Some x] = [0]" "avail [None, Some x] = [Suc 0]"
  by (simp_all add: missing_def avail_def upt_rec)

lemma sample_shards:
  "shards_ok (dataShards sample_coder) 2 sample_data"
  "shards_of [None, Some [3, 4]] sample_data"
  "shards_of [None, Some (sample_parity ! 1)] sample_parity"
proof -
  have "length sample_parity = 2" by (simp add: sample_parity_def apply_spec_def)
  then show "shards_of [None, Some (sample_parity ! 1)] sample_parity"
    by (auto simp: shards_of_def less_Suc_eq)
qed (auto simp: sample_coder_ok shards_ok_def sample_data_def shards_of_def less_Suc_eq)

text \<open>
  \<open>ReconstructionMatrix\<close> may invert the small system and stream the wide product through
  \<open>FoldInputs\<close> instead of reducing the wide matrix; the result, matrix or error, is the one of the
  direct method.
\<close>

lemma ReconstructionMatrix_streamed_eq_direct:
  assumes "env_ok e" "coder_ok c" "rows_used (parityMatrix c) availableRows missingRows usedParityRows"
  shows "ReconstructionMatrix e c availableRows missingRows usedParityRows
    = makeReconstructionMatrix (dataShards c) availableRows missingRows usedParityRows (parityMatrix c)"
  by (rule ReconstructionMatrix_eq [OF assms])

text \<open>
  C3: what \<open>ReconstructData\<close> does with shards whose present members come from one encoding: nothing
  if none is missing; \<open>NotEnoughParityShardsError\<close> if fewer parity shards than missing data shards are
  there; otherwise it restores the original data exactly if the submatrix it uses is non-singular, and
  reports \<open>singular matrix\<close> if not.  In no case does it return wrong data.
\<close>

theorem ReconstructData_outcome:
  assumes "env_ok e" "coder_ok c" "shards_ok (dataShards c) n D" "GenerateParity e c D = Inr Q"
    and "shards_of data D" "shards_of parity Q"
  shows "ReconstructData e c data parity =
    (if missing data = [] then Inr data
     else if length (avail parity) < length (missing data) then Inl NotEnoughParityShardsError
     else if nonsingular (recon_system c data parity) then Inr (map Some D)
     else Inl (ErrorNew ''singular matrix''))"
  by (rule ReconstructData_cases [OF assms(1) recon_okI [OF assms]])

theorem ReconstructData_outcome_witness:
  "ReconstructData (pure_env True) sample_coder [None, Some [3, 4]] [None, Some (sample_parity ! 1)] =
    (if nonsingular (recon_system sample_coder [None, Some [3, 4]] [None, Some (sample_parity ! 1)])
     then Inr (map Some sample_data) else Inl (ErrorNew ''singular matrix''))"
  using ReconstructData_outcome [OF env_ok_pure(1) sample_coder_ok(1) sample_shards(1) sample_generate
      sample_shards(2,3)]
  by simp

text \<open>
  C13: a Cauchy coder always recovers the data: whatever data shards are missing, as long as as many
  parity shards are left.
\<close>

theorem ReconstructData_Cauchy:
  assumes "env_ok e" "NewCoderCauchy d p g = Inr c" "shards_ok (dataShards c) n D"
    and "GenerateParity e c D = Inr Q" "shards_of data D" "shards_of parity Q"
    and "length (missing data) \<le> length (avail parity)"
  shows "ReconstructData e c data parity = Inr (map Some D)"
proof -
  have b: "0 < d" "0 < p" "0 < g" "d + p \<le> 65535" using NewCoder_dims(1) [OF assms(2)] by auto
  let ?c = "mk_coder (nat d) (nat p) (nat g) (\<lambda>i j. inverse (elt (nat d + i) + elt j))"
  have n: "0 < nat d" "0 < nat p" "0 < nat g" "nat d + nat p \<le> 65535" using b by auto
  have c: "c = ?c" using NewCoderCauchy_eq [OF n] b assms(2) by simp
  have ok: "coder_ok c" unfolding c using n by (intro coder_ok_mk)
  have r: "recon_ok c n D data parity" using recon_okI [OF assms(1) ok assms(3-6)] .
  show ?thesis
    using ReconstructData_ok [OF assms(1) r assms(7)] cauchy_nonsingular [OF n] r assms(7)
    unfolding c by blast
qed

theorem ReconstructData_Cauchy_witness:
  "ReconstructData (pure_env True) sample_coder [None, Some [3, 4]] [None, Some (sample_parity ! 1)]
    = Inr (map Some sample_data)"
proof (rule ReconstructData_Cauchy [OF env_ok_pure(1) _ sample_shards(1) sample_generate sample_shards(2,3)])
  show "NewCoderCauchy 2 2 1 = Inr sample_coder"
    using NewCoderCauchy_eq [of 2 2 1] by (simp add: sample_coder_def)
  show "length (missing [None, Some [3, 4 :: byte]]) \<le> length (avail [None, Some (sample_parity ! 1)])"
    by simp
qed

text \<open>
  C14: a PAR2 coder recovers the data when the exponents of the parity rows it uses are consecutive,
  as they are when the first recovery blocks of a set are all present; for other choices the matrix
  may be singular, the flaw that the comments mention, and then \<open>ReconstructData\<close> says so.
\<close>

theorem ReconstructData_PAR2_consecutive:
  assumes "env_ok e" "NewCoderPAR2VandermondeRows d rows g = Inr c" "shards_ok (dataShards c) n D"
    and "GenerateParity e c D = Inr Q" "shards_of data D" "shards_of parity Q"
    and "length (missing data) \<le> length (avail parity)"
    and "\<forall>i<length (missing data). nat (rows ! (used_rows data parity ! i)) = s + i"
  shows "ReconstructData e c data parity = Inr (map Some D)"
proof -
  have b: "0 < d" "rows \<noteq> []" "0 < g" "d \<le> int (length generators)" "\<forall>r\<in>set rows. 0 \<le> r \<and> r \<le> 65535"
    using assms(2) by (auto simp: NewCoderPAR2VandermondeRows_def not_less not_le split: if_splits)
  let ?c = "mk_coder (nat d) (length rows) (nat g) (\<lambda>i j. generators ! j ^ nat (rows ! i))"
  have n: "0 < nat d" "0 < length rows" "0 < nat g" "nat d \<le> length generators" using b by auto
  have c: "c = ?c" using NewCoderPAR2VandermondeRows_eq [OF b] assms(2) by simp
  have ok: "coder_ok c" unfolding c using n by (intro coder_ok_mk)
  have r: "recon_ok c n D data parity" using recon_okI [OF assms(1) ok assms(3-6)] .
  show ?thesis
    using ReconstructData_ok [OF assms(1) r assms(7)]
      vandermonde_nonsingular [OF n(1,4) _ assms(7,8)] r
    unfolding c by blast
qed

definition sample_par2_coder :: Coder where
  "sample_par2_coder = mk_coder 2 2 1 (\<lambda>i j. generators ! j ^ nat ([7, 9] ! i))"

definition sample_par2_parity :: "byte list list" where
  "sample_par2_parity = apply_spec (parityMatrix sample_par2_coder) sample_data 2 2"

theorem ReconstructData_PAR2_consecutive_witness:
  "ReconstructData (backend_env True) sample_par2_coder [None, Some [3, 4]] [None, Some (sample_par2_parity ! 1)]
    = Inr (map Some sample_data)"
proof (rule ReconstructData_PAR2_consecutive [OF env_ok_pure(2)])
  have ok: "coder_ok sample_par2_coder" "dataShards sample_par2_coder = 2"
    by (simp add: sample_par2_coder_def coder_ok_mk) (simp add: sample_par2_coder_def mk_coder_def)
  show "NewCoderPAR2VandermondeRows 2 [7, 9] 1 = Inr sample_par2_coder"
    using NewCoderPAR2VandermondeRows_eq [of 2 "[7, 9]" 1] length_generators
    by (simp add: sample_par2_coder_def numeral_2_eq_2)
  show sh: "shards_ok (dataShards sample_par2_coder) 2 sample_data"
    by (simp add: ok shards_ok_def sample_data_def)
  show "GenerateParity (backend_env True) sample_par2_coder sample_data = Inr sample_par2_parity"
    using GenerateParity_eq [OF env_ok_pure(2) ok(1) sh]
    by (simp add: sample_par2_parity_def sample_par2_coder_def mk_coder_def)
  show "shards_of [None, Some [3, 4]] sample_data" by (rule sample_shards(2))
  have l: "length sample_par2_parity = 2" by (simp add: sample_par2_parity_def apply_spec_def)
  then show "shards_of [None, Some (sample_par2_parity ! 1)] sample_par2_parity"
    by (auto simp: shards_of_def less_Suc_eq)
  show "length (missing [None, Some [3, 4 :: byte]]) \<le> length (avail [None, Some (sample_par2_parity ! 1)])"
    by simp
  show "\<forall>i<length (missing [None, Some [3, 4 :: byte]]).
      nat ([7, 9] ! (used_rows [None, Some [3, 4]] [None, Some (sample_par2_parity ! 1)] ! i)) = 9 + i"
    by (simp add: used_rows_def)
qed

end
