(* ===== verification/Lagrange.thy ===== *)
theory Lagrange
  imports AdditiveProduct Reconstruct
begin

unbundle bit_operations_syntax

text \<open>
  The reconstruction matrix in closed form (src/rsec16/par2_lagrange.go): for consecutive recovery
  exponents the transposed Vandermonde system is solved with the locator polynomial of the missing rows,
  its values and those of its derivative, and its quotients by the linear factors.
\<close>

section \<open>The code\<close>

definition consecutiveStart :: "int list \<Rightarrow> int \<times> bool" where
  "consecutiveStart exponents =
     (if length exponents = 0 then (0, False)
      else let first = exponents ! 0 in
        if first < 0 \<or> first + int (length exponents) - 1 > 65535 then (0, False)
        else if \<exists>i \<in> set [0..<length exponents]. exponents ! i \<noteq> first + int i then (0, False)
        else (first, True))"

text \<open>\<open>dst[i] = v\<close>\<close>

definition store_at :: "'a list \<Rightarrow> nat \<Rightarrow> 'a \<Rightarrow> 'a list res" where
  "store_at dst i v = (if i < length dst then Inr (dst[i := v]) else Inl index_panic)"

definition locatorValues :: "nat list \<Rightarrow> (T list \<times> T list \<times> T list) res" where
  "locatorValues lost =
     bindR newAdditiveBasis (\<lambda>b.
     bindR (mapR (index_at generators) lost) (\<lambda>points.
     bindR (locator b points) (\<lambda>polynomial.
     bindR (toNovel b (pad_to 65536 polynomial)) (\<lambda>values0.
     bindR (differentiate b values0) (\<lambda>derivative0.
     bindR (fft b values0 False) (\<lambda>values1.
     bindR (fft b derivative0 False) (\<lambda>derivative1.
     let (fieldValues, fieldDerivative) = fold (\<lambda>(i, x) (fv, fd).
           (fv[unat (raw x) := values1 ! i], fd[unat (raw x) := derivative1 ! i]))
         (enumerate 0 (ab_points b)) (replicate 65536 0, replicate 65536 0)
     in Inr (polynomial, fieldValues, fieldDerivative))))))))"

definition quotient_row :: "T list \<Rightarrow> T \<Rightarrow> nat \<Rightarrow> T list \<Rightarrow> T list" where
  "quotient_row p x k quot =
     fold (\<lambda>j q. q[j := p ! (j + 1) + x * q ! (j + 1)]) (rev [0..<k - 1]) (quot[k - 1 := p ! k])"

text \<open>One row of the result; the buffer of quotients is shared by the rows.\<close>

definition lagrange_row ::
  "nat \<Rightarrow> nat list \<Rightarrow> nat \<Rightarrow> u32 \<Rightarrow> T list \<Rightarrow> T list \<Rightarrow> T list \<Rightarrow> nat \<Rightarrow> T list \<times> T list \<Rightarrow> (T list \<times> T list) res" where
  "lagrange_row n available k start p weights derivative ri = (\<lambda>(result, quot0).
     bindR (index_at generators ri) (\<lambda>x.
     bindR (T_Pow x start) (\<lambda>xs.
     bindR (T_Inverse (derivative ! unat (raw x) * xs)) (\<lambda>scale.
     bindR (foldR (\<lambda>j dst. bindR (index_at available j) (\<lambda>other. bindR (index_at generators other) (\<lambda>g.
         bindR (T_Div (weights ! j) (g + x)) (\<lambda>q. store_at dst j (q * scale))))) [0..<length available] (replicate n 0)) (\<lambda>dst.
     let quot = quotient_row p x k quot0 in
     bindR (foldR (\<lambda>(j, c) dst. store_at dst (length available + j) (c * scale)) (enumerate 0 quot) dst) (\<lambda>dst.
     Inr (result @ dst, quot)))))))"

definition par2LagrangeMatrix :: "nat \<Rightarrow> nat list \<Rightarrow> nat list \<Rightarrow> int list \<Rightarrow> matrix option res" where
  "par2LagrangeMatrix n available lost exponents =
     (let (start, ok) = consecutiveStart exponents in
      if \<not> ok \<or> length lost \<noteq> length exponents then Inr None
      else let k = length lost in
        bindR (locatorValues lost) (\<lambda>(p, vals, derivative).
        bindR (mapR (\<lambda>ri. bindR (index_at generators ri) (\<lambda>y. bindR (T_Pow y (of_int start)) (\<lambda>ys.
          Inr (vals ! unat (raw y) * ys)))) available) (\<lambda>weights.
        bindR (foldR (lagrange_row n available k (of_int start) p weights derivative) lost ([], replicate k 0)) (\<lambda>(result, _).
        bindR (NewMatrixFromSlice k n result) (\<lambda>m. Inr (Some m))))))"

section \<open>Exponents\<close>

lemma consecutiveStart_iff:
  "consecutiveStart es = (s, True) \<longleftrightarrow> es \<noteq> [] \<and> 0 \<le> s \<and> s + int (length es) - 1 \<le> 65535 \<and> (\<forall>i < length es. es ! i = s + int i)"
proof (cases "es = []")
  case False
  let ?ok = "\<forall>i < length es. es ! i = es ! 0 + int i"
  have "(\<exists>i \<in> set [0..<length es]. es ! i \<noteq> es ! 0 + int i) \<longleftrightarrow> \<not> ?ok" by auto
  then have eq: "consecutiveStart es = (if es ! 0 < 0 \<or> es ! 0 + int (length es) - 1 > 65535 then (0, False)
      else if \<not> ?ok then (0, False) else (es ! 0, True))"
    using False unfolding consecutiveStart_def Let_def by (simp only: length_0_conv if_False)
  have gen: "c = (if A then (0, False) else if \<not> B then (0, False) else (e, True)) \<Longrightarrow> c = (s, True) \<longleftrightarrow> \<not> A \<and> B \<and> e = s"
    for c :: "int \<times> bool" and A B e by auto
  have 1: "consecutiveStart es = (s, True) \<longleftrightarrow> \<not> (es ! 0 < 0 \<or> es ! 0 + int (length es) - 1 > 65535) \<and> ?ok \<and> es ! 0 = s"
    by (rule gen [OF eq])
  have imp: "es ! 0 = s" if "\<forall>i < length es. es ! i = s + int i" using that [rule_format, of 0] False by simp
  show ?thesis
  proof (cases "es ! 0 = s")
    case True
    show ?thesis using 1 False unfolding True [symmetric] de_Morgan_disj not_less by blast
  next
    case no: False
    then show ?thesis unfolding 1 using imp by blast
  qed
qed (simp add: consecutiveStart_def)

section \<open>Values of the locator\<close>

lemma cpoint_surj: "\<exists>k < 65536. cpoint k = x"
proof -
  have "card (cpoint ` {..<65536}) = 65536" by (simp add: card_image [OF cpoint_inj])
  then have "cpoint ` {..<65536} = UNIV" by (intro card_subset_eq [OF finite_T]) (simp_all only: subset_UNIV card_T)
  then have "x \<in> cpoint ` {..<65536}" by simp
  then show ?thesis by blast
qed

lemma scatter_points:
  fixes u w :: "T list"
  defines "R m \<equiv> fold (\<lambda>(i, x) (fv, fd). (fv[unat (raw x) := u ! i], fd[unat (raw x) := w ! i]))
         (enumerate 0 (map cpoint [0..<m])) (replicate 65536 0, replicate 65536 0)"
  assumes "m \<le> 65536"
  shows "length (fst (R m)) = 65536 \<and> length (snd (R m)) = 65536 \<and>
    (\<forall>k < m. fst (R m) ! unat (raw (cpoint k)) = u ! k \<and> snd (R m) ! unat (raw (cpoint k)) = w ! k)"
  using assms(2)
proof (induction m)
  case (Suc m)
  have un: "unat (raw x) < 65536" for x using unsigned_less [of "raw x"] by simp
  have inj: "unat (raw (cpoint m)) = unat (raw (cpoint k)) \<longleftrightarrow> k = m" if "k \<le> m" for k
    using inj_on_eq_iff [OF cpoint_inj, of m k] that Suc.prems by (auto simp: T_eq_iff word_unat_eq_iff)
  obtain fv fd where R: "R m = (fv, fd)" by fastforce
  have "R (Suc m) = (fv[unat (raw (cpoint m)) := u ! m], fd[unat (raw (cpoint m)) := w ! m])"
    using R by (simp add: R_def enumerate_append_eq)
  moreover have "length fv = 65536" "length fd = 65536" "\<And>k. k < m \<Longrightarrow> fv ! unat (raw (cpoint k)) = u ! k \<and> fd ! unat (raw (cpoint k)) = w ! k"
    using Suc R by simp_all
  ultimately show ?case using un inj by (auto simp: nth_list_update less_Suc_eq)
qed (simp add: R_def)

lemma locatorValues_ok:
  assumes m: "\<forall>ri \<in> set lost. ri < length generators" and len: "length lost \<le> 65535"
  obtains p vals derivative where "locatorValues lost = Inr (p, vals, derivative)" "length p = Suc (length lost)"
    "\<And>x. ordinary_val (\<lambda>t. t) x p = (\<Prod>ri\<leftarrow>lost. x + generators ! ri)"
    "\<And>x. vals ! unat (raw x) = ordinary_val (\<lambda>t. t) x p"
    "\<And>x. ordinary_val (\<lambda>t. Dual t 0) (Dual x 1) p = (\<Prod>ri\<leftarrow>lost. Dual x 1 + Dual (generators ! ri) 0)"
    "\<And>x. derivative ! unat (raw x) = du (ordinary_val (\<lambda>t. Dual t 0) (Dual x 1) p)"
proof -
  obtain b where b: "newAdditiveBasis = Inr b" "basis_ok b" using newAdditiveBasis_ok by blast
  let ?ps = "map (\<lambda>ri. generators ! ri) lost"
  have pts: "mapR (index_at generators) lost = Inr ?ps" using m by (intro mapR_Inr_map) (simp add: index_at_def)
  have lps: "length ?ps \<le> 65535" using len by simp
  obtain p where p: "locator b ?ps = Inr p" "length p = Suc (length lost)" using pts.locator_ok [OF b(2) lps] by fastforce
  have val: "ordinary_val (\<lambda>t. t) x p = (\<Prod>ri\<leftarrow>lost. x + generators ! ri)" for x
    using pts.locator_ok [OF b(2) lps, of x] p(1) by (simp add: comp_def)
  have dval: "ordinary_val (\<lambda>t. Dual t 0) (Dual x 1) p = (\<Prod>ri\<leftarrow>lost. Dual x 1 + Dual (generators ! ri) 0)" for x
    using duals.locator_ok [OF b(2) lps, of "Dual x 1"] p(1) by (simp add: comp_def)
  define N :: nat where "N = 2 ^ 16"
  have N: "N = 65536" by (simp add: N_def)
  let ?pad = "pad_to 65536 p"
  have plen: "length p \<le> 65536" using p(2) len by simp
  have pad: "length ?pad = 2 ^ 16" using plen by (simp add: pad_to_def)
  define v0 where "v0 = fold (toNovel_level b) (rev [0..<16]) ?pad"
  note v0 = pts.toNovel_ok [OF b(2) pad order.refl, folded v0_def] and v0d = duals.toNovel_ok(3) [OF b(2) pad order.refl, folded v0_def]
  obtain d0 where d0: "differentiate b v0 = Inr d0" "length d0 = 2 ^ 16" "\<And>x. novel_val (\<lambda>t. t) x d0 = weighted (\<lambda>t. t) (dnovel x) v0"
    by (rule differentiate_ok [OF b(2) v0(2) order.refl]) blast
  define v1 where "v1 = fft_values b 16 v0"
  define d1 where "d1 = fft_values b 16 d0"
  note v1 = fft_ok [OF b(2) v0(2) order.refl, folded v1_def] and d1 = fft_ok [OF b(2) d0(2) order.refl, folded d1_def]
  have points: "ab_points b = map cpoint [0..<65536]" using b(2) by (simp add: basis_ok_def)
  define R where "R = fold (\<lambda>(i, x) (fv, fd). (fv[unat (raw x) := v1 ! i], fd[unat (raw x) := d1 ! i]))
         (enumerate 0 (map cpoint [0..<65536])) (replicate 65536 0, replicate 65536 0)"
  have R: "fst R ! unat (raw (cpoint k)) = v1 ! k \<and> snd R ! unat (raw (cpoint k)) = d1 ! k" if "k < 65536" for k
    using scatter_points [OF order.refl, of v1 d1, folded R_def] that by blast
  have "locatorValues lost = Inr (p, fst R, snd R)"
    by (simp only: locatorValues_def b(1) pts p(1) v0(1) d0(1) v1(1) d1(1) bindR_simps points Let_def split_beta prod.collapse R_def)
  moreover have "fst R ! unat (raw x) = ordinary_val (\<lambda>t. t) x p" for x
  proof -
    obtain k where k: "k < 65536" "cpoint k = x" using cpoint_surj by blast
    then have "fst R ! unat (raw x) = v1 ! k" using R by blast
    also have "\<dots> = novel_val (\<lambda>t. t) x v0" using v1(3) [of k] k by simp
    finally show ?thesis using v0(3) pts.ordinary_val_pad [OF plen] by simp
  qed
  moreover have "snd R ! unat (raw x) = du (ordinary_val (\<lambda>t. Dual t 0) (Dual x 1) p)" for x
  proof -
    obtain k where k: "k < 65536" "cpoint k = x" using cpoint_surj by blast
    then have "snd R ! unat (raw x) = d1 ! k" using R by blast
    also have "\<dots> = weighted (\<lambda>t. t) (dnovel x) v0" using d1(3) [of k] k d0(3) by simp
    also have "\<dots> = du (novel_val (\<lambda>t. Dual t 0) (Dual x 1) v0)" using v0(2) by (simp add: dual_novel_val)
    finally show ?thesis using v0d duals.ordinary_val_pad [OF plen] by simp
  qed
  ultimately show thesis using p(2) val dval by (intro that [of p "fst R" "snd R"]) simp_all
qed

end
