(* ===== verification/LagrangeCorrect.thy ===== *)
theory LagrangeCorrect
  imports Lagrange
begin

unbundle bit_operations_syntax

text \<open>
  The closed form is the matrix that Gaussian elimination finds: a row of the closed form is the
  combination of the equations with the coefficients of a quotient of the locator as weights, and in
  it all unknowns but one cancel.
\<close>

section \<open>Synthetic division\<close>

lemma quotient_row_ok:
  assumes "0 < k" "length quot = k"
  shows "length (quotient_row p x k quot) = k" and "quotient_row p x k quot ! (k - 1) = p ! k"
    and "Suc j < k \<Longrightarrow> quotient_row p x k quot ! j = p ! Suc j + x * quotient_row p x k quot ! Suc j"
proof -
  let ?f = "\<lambda>j q. q[j := p ! (j + 1) + x * q ! (j + 1)]"
  let ?q = "\<lambda>m. fold ?f (rev [m..<k - 1]) (quot[k - 1 := p ! k])"
  have "length (?q m) = k \<and> ?q m ! (k - 1) = p ! k \<and> (\<forall>j. m \<le> j \<and> j < k - 1 \<longrightarrow> ?q m ! j = p ! Suc j + x * ?q m ! Suc j)"
    if "m \<le> k - 1" for m
    using that
  proof (induction "k - 1 - m" arbitrary: m)
    case 0
    then have "m = k - 1" by simp
    then show ?case using assms by auto
  next
    case (Suc d)
    then have m: "m < k - 1" by simp
    then have "[m..<k - 1] = m # [Suc m..<k - 1]" by (simp add: upt_conv_Cons)
    then have step: "?q m = ?f m (?q (Suc m))" by simp
    have IH: "length (?q (Suc m)) = k" "?q (Suc m) ! (k - 1) = p ! k"
      "\<And>j. Suc m \<le> j \<Longrightarrow> j < k - 1 \<Longrightarrow> ?q (Suc m) ! j = p ! Suc j + x * ?q (Suc m) ! Suc j"
      using Suc.hyps(1) [of "Suc m"] Suc.hyps(2) m by simp_all
    have new: "?q m ! t = (if t = m then p ! Suc m + x * ?q (Suc m) ! Suc m else ?q (Suc m) ! t)" if "t < k" for t
      using that IH(1) unfolding step by simp
    have "?q m ! j = p ! Suc j + x * ?q m ! Suc j" if "m \<le> j" "j < k - 1" for j
      using that new [of j] new [of "Suc j"] IH(3) [of j] by (cases "j = m") simp_all
    moreover have "length (?q m) = k" unfolding step using IH(1) by simp
    moreover have "?q m ! (k - 1) = p ! k" using IH(2) m new [of "k - 1"] by simp
    ultimately show ?case by blast
  qed
  from this [of 0] show "length (quotient_row p x k quot) = k" "quotient_row p x k quot ! (k - 1) = p ! k"
    "Suc j < k \<Longrightarrow> quotient_row p x k quot ! j = p ! Suc j + x * quotient_row p x k quot ! Suc j"
    by (simp_all add: quotient_row_def less_diff_conv)
qed

context T_algebra
begin

lemma quotient_val:
  assumes k: "0 < k" "length quot = k" and p: "length p = Suc k"
  shows "ordinary_val hom z p = (z + hom x) * ordinary_val hom z (quotient_row p x k quot) + hom (p ! 0 + x * quotient_row p x k quot ! 0)"
proof -
  let ?q = "quotient_row p x k quot"
  note q = quotient_row_ok [OF k, where p = p and x = x]
  define c where "c j = (if j < k then ?q ! j else 0)" for j
  have pc: "p ! Suc j = c j + x * c (Suc j)" if "j < k" for j
  proof (cases "Suc j < k")
    case True
    then have "?q ! j + x * ?q ! Suc j = p ! Suc j" unfolding q(3) [OF True] by (simp add: add.assoc)
    then show ?thesis using True by (simp add: c_def)
  next
    case False
    then have "j = k - 1" using that by simp
    then show ?thesis using q(2) that by (simp add: c_def)
  qed
  have "ordinary_val hom z p = hom (p ! 0) + (\<Sum>j<k. hom (p ! Suc j) * z ^ Suc j)"
    unfolding weighted_def p sum.lessThan_Suc_shift by simp
  also have "(\<Sum>j<k. hom (p ! Suc j) * z ^ Suc j) = (\<Sum>j<k. z * (hom (c j) * z ^ j)) + (\<Sum>j<k. hom x * (hom (c (Suc j)) * z ^ Suc j))"
    unfolding sum.distrib [symmetric] by (rule sum.cong) (simp_all add: pc hom_add hom_mult distrib_left distrib_right ac_simps)
  also have "(\<Sum>j<k. z * (hom (c j) * z ^ j)) = z * ordinary_val hom z ?q"
    unfolding sum_distrib_left [symmetric] weighted_def q(1) by (simp add: c_def)
  also have "(\<Sum>j<k. hom x * (hom (c (Suc j)) * z ^ Suc j)) = hom x * (ordinary_val hom z ?q + hom (c 0))"
  proof -
    have "(\<Sum>j<Suc k. hom (c j) * z ^ j) = hom (c 0) + (\<Sum>j<k. hom (c (Suc j)) * z ^ Suc j)"
      unfolding sum.lessThan_Suc_shift by simp
    moreover have "(\<Sum>j<Suc k. hom (c j) * z ^ j) = ordinary_val hom z ?q"
      unfolding weighted_def q(1) by (simp add: c_def hom_0)
    ultimately have q0: "ordinary_val hom z ?q = hom (c 0) + (\<Sum>j<k. hom (c (Suc j)) * z ^ Suc j)" by (simp only:)
    have "ordinary_val hom z ?q + hom (c 0) = (\<Sum>j<k. hom (c (Suc j)) * z ^ Suc j)"
      unfolding q0 add.commute [of _ "hom (c 0)"] add.assoc [symmetric] char2 by (rule add_0)
    then show ?thesis by (simp only: sum_distrib_left)
  qed
  finally show ?thesis using k(1) by (simp add: c_def hom_add hom_mult distrib_left distrib_right ac_simps)
qed

end

text \<open>At a root the remainder is zero.\<close>

lemma quotient_root:
  assumes k: "0 < k" "length quot = k" and p: "length p = Suc k" and root: "ordinary_val (\<lambda>t. t) x p = 0"
  shows "ordinary_val (\<lambda>t. t) z p = (z + x) * ordinary_val (\<lambda>t. t) z (quotient_row p x k quot)"
    and "du (ordinary_val (\<lambda>t. Dual t 0) (Dual x 1) p) = ordinary_val (\<lambda>t. t) x (quotient_row p x k quot)"
proof -
  let ?q = "quotient_row p x k quot"
  have rem: "p ! 0 + x * ?q ! 0 = 0" using pts.quotient_val [OF k p, of x x] root by simp
  show "ordinary_val (\<lambda>t. t) z p = (z + x) * ordinary_val (\<lambda>t. t) z ?q"
    using pts.quotient_val [OF k p, of z x] rem by simp
  have "re ((y :: dual) ^ j) = re y ^ j" for y j by (induction j) simp_all
  then have "re (ordinary_val (\<lambda>t. Dual t 0) (Dual x 1) ?q) = ordinary_val (\<lambda>t. t) x ?q"
    unfolding weighted_def re_sum by simp
  then show "du (ordinary_val (\<lambda>t. Dual t 0) (Dual x 1) p) = ordinary_val (\<lambda>t. t) x ?q"
    using duals.quotient_val [OF k p, of "Dual x 1" x] rem by (simp add: zero_dual_def [symmetric])
qed


text \<open>What the shared buffer held before does not matter.\<close>

lemma quotient_row_indep:
  assumes "0 < k" "length quot = k" "length quot' = k"
  shows "quotient_row p x k quot = quotient_row p x k quot'"
proof (rule nth_equalityI)
  note q = quotient_row_ok [OF assms(1,2), where p = p and x = x] and q' = quotient_row_ok [OF assms(1,3), where p = p and x = x]
  show "length (quotient_row p x k quot) = length (quotient_row p x k quot')" using q(1) q'(1) by simp
  fix j assume "j < length (quotient_row p x k quot)"
  then have "j < k" using q(1) by simp
  then show "quotient_row p x k quot ! j = quotient_row p x k quot' ! j"
  proof (induction "k - j" arbitrary: j)
    case (Suc d)
    show ?case
    proof (cases "Suc j < k")
      case True
      then show ?thesis using q(3) [OF True] q'(3) [OF True] Suc.hyps(1) [of "Suc j"] Suc.hyps(2) by simp
    next
      case False
      then have "j = k - 1" using Suc.prems by simp
      then show ?thesis using q(2) q'(2) by simp
    qed
  qed simp
qed

section \<open>The rows\<close>

lemma store_loop:
  assumes "\<And>j dst. j < m \<Longrightarrow> f j dst = store_at dst (off + j) (g j)" "off + m \<le> length dst"
  shows "\<exists>dst'. foldR f [0..<m] dst = Inr dst' \<and> length dst' = length dst \<and>
    (\<forall>t < length dst. dst' ! t = (if off \<le> t \<and> t < off + m then g (t - off) else dst ! t))"
  using assms
proof (induction m)
  case (Suc m)
  then obtain dst' where d: "foldR f [0..<m] dst = Inr dst'" "length dst' = length dst"
    "\<forall>t < length dst. dst' ! t = (if off \<le> t \<and> t < off + m then g (t - off) else dst ! t)" by auto
  have "f m dst' = Inr (dst'[off + m := g m])" using Suc.prems d(2) by (simp add: store_at_def)
  then have "foldR f [0..<Suc m] dst = Inr (dst'[off + m := g m])" using d(1) by (simp add: foldR_append)
  moreover have "dst'[off + m := g m] ! t = (if off \<le> t \<and> t < off + Suc m then g (t - off) else dst ! t)" if "t < length dst" for t
    using that d(2,3) by (cases "t = off + m") auto
  ultimately show ?case using d(2) by auto
qed auto

definition lagrange_entry :: "nat list \<Rightarrow> nat \<Rightarrow> T list \<Rightarrow> T list \<Rightarrow> T list \<Rightarrow> u32 \<Rightarrow> nat \<Rightarrow> nat \<Rightarrow> T" where
  "lagrange_entry av k p weights derivative start i j =
     (let x = generators ! i; scale = inverse (derivative ! unat (raw x) * x ^ unat start) in
      if j < length av then weights ! j / (generators ! (av ! j) + x) * scale
      else quotient_row p x k (replicate k 0) ! (j - length av) * scale)"

lemma lagrange_row_ok:
  assumes i: "i < length generators" and av: "\<forall>r \<in> set av. r < length generators \<and> generators ! r \<noteq> generators ! i"
    and nz: "derivative ! unat (raw (generators ! i)) * (generators ! i) ^ unat start \<noteq> 0"
    and n: "length av + k = n" and k: "0 < k" "length quot0 = k"
  shows "lagrange_row n av k start p weights derivative i (result, quot0)
    = Inr (result @ map (lagrange_entry av k p weights derivative start i) [0..<n], quotient_row p (generators ! i) k (replicate k 0))"
proof -
  let ?x = "generators ! i"
  let ?s = "inverse (derivative ! unat (raw ?x) * ?x ^ unat start)" and ?q = "quotient_row p (generators ! i) k (replicate k 0)"
  let ?w = "\<lambda>j. weights ! j / (generators ! (av ! j) + ?x) * ?s"
  have q: "quotient_row p ?x k quot0 = ?q" using quotient_row_indep [OF k, of "replicate k 0"] by simp
  have lq: "length ?q = k" using quotient_row_ok(1) [OF k(1)] by simp
  let ?f1 = "\<lambda>j dst. bindR (index_at av j) (\<lambda>other. bindR (index_at generators other) (\<lambda>g.
         bindR (T_Div (weights ! j) (g + ?x)) (\<lambda>q. store_at dst j (q * ?s))))"
  have f1: "?f1 j dst = store_at dst (0 + j) (?w j)" if "j < length av" for j dst
  proof -
    have "av ! j \<in> set av" using that by simp
    then have "av ! j < length generators" "generators ! (av ! j) + ?x \<noteq> 0" using av by (auto simp: T_add_eq_0_iff)
    then show ?thesis using that by (simp add: index_at_def T_Div_eq)
  qed
  obtain d1 where d1: "foldR ?f1 [0..<length av] (replicate n 0) = Inr d1" "length d1 = n"
    "\<forall>t < n. d1 ! t = (if t < length av then ?w t else 0)"
    using store_loop [of "length av" ?f1 0 ?w "replicate n 0", OF f1] n by auto
  let ?f2 = "\<lambda>j dst. store_at dst (length av + j) (?q ! j * ?s)"
  obtain d2 where d2: "foldR ?f2 [0..<k] d1 = Inr d2" "length d2 = n"
    "\<forall>t < n. d2 ! t = (if length av \<le> t \<and> t < length av + k then ?q ! (t - length av) * ?s else d1 ! t)"
    using store_loop [of k ?f2 "length av" "\<lambda>j. ?q ! j * ?s" d1] n d1(2) by auto
  have "enumerate 0 ?q = map (\<lambda>j. (j, ?q ! j)) [0..<k]" using lq by (intro nth_equalityI) (simp_all add: nth_enumerate_eq)
  then have f2: "foldR (\<lambda>(j, c) dst. store_at dst (length av + j) (c * ?s)) (enumerate 0 ?q) d1 = Inr d2"
    using d2(1) by (simp add: foldR_map)
  have "d2 = map (lagrange_entry av k p weights derivative start i) [0..<n]"
    using d1(3) d2(2,3) n by (intro nth_equalityI) (auto simp: lagrange_entry_def Let_def)
  then show ?thesis
    using i nz d1(1) f2 by (simp add: lagrange_row_def index_at_def T_Inverse_eq q Let_def)
qed

section \<open>The solution\<close>

lemma lagrange_solves:
  fixes X :: "nat \<Rightarrow> T" and Y :: "nat \<Rightarrow> T"
  assumes k: "0 < k" and p: "length p = Suc k" and val: "\<And>z. ordinary_val (\<lambda>t. t) z p = (\<Prod>j<k. z + X j)"
    and inj: "inj_on X {..<k}" and XY: "\<And>i j. i < k \<Longrightarrow> j < a \<Longrightarrow> Y j \<noteq> X i" and X0: "\<And>i. i < k \<Longrightarrow> X i \<noteq> 0"
    and eqs: "\<And>t. t < k \<Longrightarrow> (\<Sum>j<k. X j ^ (s + t) * x j) = (\<Sum>j<a + k. (if j < a then Y j ^ (s + t) else if t = j - a then 1 else 0) * y j)"
    and i: "i < k"
  defines "Q \<equiv> quotient_row p (X i) k (replicate k 0)"
  assumes nz: "ordinary_val (\<lambda>t. t) (X i) Q \<noteq> 0"
  shows "x i = (\<Sum>j<a + k. (if j < a then ordinary_val (\<lambda>t. t) (Y j) p * Y j ^ s / (Y j + X i) * inverse (ordinary_val (\<lambda>t. t) (X i) Q * X i ^ s)
      else Q ! (j - a) * inverse (ordinary_val (\<lambda>t. t) (X i) Q * X i ^ s)) * y j)"
proof -
  let ?Q = "\<lambda>z. ordinary_val (\<lambda>t. t) z Q" and ?P = "\<lambda>z. ordinary_val (\<lambda>t. t) z p"
  let ?sc = "inverse (?Q (X i) * X i ^ s)"
  have lQ: "length Q = k" using quotient_row_ok(1) [OF k] by (simp add: Q_def)
  have QS: "(\<Sum>t<k. Q ! t * z ^ (s + t)) = z ^ s * ?Q z" for z
    unfolding weighted_def lQ sum_distrib_left power_add by (rule sum.cong) (simp_all only: ac_simps)
  have root: "?P (X i) = 0" unfolding val using i by (intro prod_zero bexI [of _ i]) simp_all
  note fac = quotient_root(1) [OF k _ p root, of "replicate k 0", simplified, folded Q_def]
  have Qj: "?Q (X j) = 0" if "j < k" "j \<noteq> i" for j
  proof -
    have "?P (X j) = 0" unfolding val using that(1) by (intro prod_zero bexI [of _ j]) simp_all
    moreover have "X j + X i \<noteq> 0" using inj_onD [OF inj, of j i] that i by (auto simp: T_add_eq_0_iff)
    ultimately show ?thesis using fac [of "X j"] by simp
  qed
  have "X i ^ s * ?Q (X i) * x i = (\<Sum>j<k. X j ^ s * ?Q (X j) * x j)"
  proof -
    have "(\<Sum>j<k. X j ^ s * ?Q (X j) * x j) = (\<Sum>j<k. if j = i then X i ^ s * ?Q (X i) * x i else 0)"
      using Qj by (intro sum.cong) auto
    then show ?thesis using i by simp
  qed
  also have "\<dots> = (\<Sum>j<k. \<Sum>t<k. Q ! t * (X j ^ (s + t) * x j))"
    unfolding QS [symmetric] sum_distrib_right by (simp only: mult.assoc)
  also have "\<dots> = (\<Sum>t<k. Q ! t * (\<Sum>j<k. X j ^ (s + t) * x j))" by (subst sum.swap) (simp only: sum_distrib_left)
  also have "\<dots> = (\<Sum>t<k. Q ! t * (\<Sum>j<a + k. (if j < a then Y j ^ (s + t) else if t = j - a then 1 else 0) * y j))"
    by (rule sum.cong) (simp_all add: eqs)
  also have "\<dots> = (\<Sum>j<a + k. (\<Sum>t<k. Q ! t * (if j < a then Y j ^ (s + t) else if t = j - a then 1 else 0)) * y j)"
    unfolding sum_distrib_left sum_distrib_right by (subst sum.swap) (simp only: mult.assoc)
  also have "\<dots> = (\<Sum>j<a + k. (if j < a then Y j ^ s * ?Q (Y j) else Q ! (j - a)) * y j)"
  proof (rule sum.cong)
    fix j assume "j \<in> {..<a + k}"
    then have j: "j < a + k" by simp
    show "(\<Sum>t<k. Q ! t * (if j < a then Y j ^ (s + t) else if t = j - a then 1 else 0)) * y j
        = (if j < a then Y j ^ s * ?Q (Y j) else Q ! (j - a)) * y j"
    proof (cases "j < a")
      case True
      then show ?thesis by (simp add: QS)
    next
      case False
      then have ja: "j - a < k" using j by simp
      have "(\<Sum>t<k. Q ! t * (if t = j - a then 1 else 0)) = (\<Sum>t<k. if t = j - a then Q ! (j - a) else 0)" by (intro sum.cong) auto
      then show ?thesis using False ja by simp
    qed
  qed simp
  finally have main: "X i ^ s * ?Q (X i) * x i = (\<Sum>j<a + k. (if j < a then Y j ^ s * ?Q (Y j) else Q ! (j - a)) * y j)" .
  have d: "?Q (X i) * X i ^ s \<noteq> 0" using nz X0 [OF i] by simp
  have "?sc * (X i ^ s * ?Q (X i)) = 1" unfolding mult.commute [of "X i ^ s"] using d by (rule left_inverse)
  then have "x i = ?sc * (X i ^ s * ?Q (X i) * x i)" by (simp only: mult.assoc [symmetric] mult_1)
  also have "\<dots> = (\<Sum>j<a + k. ?sc * ((if j < a then Y j ^ s * ?Q (Y j) else Q ! (j - a)) * y j))" unfolding main sum_distrib_left ..
  also have "\<dots> = (\<Sum>j<a + k. (if j < a then ?P (Y j) * Y j ^ s / (Y j + X i) * ?sc else Q ! (j - a) * ?sc) * y j)"
  proof (rule sum.cong)
    fix j
    show "?sc * ((if j < a then Y j ^ s * ?Q (Y j) else Q ! (j - a)) * y j) = (if j < a then ?P (Y j) * Y j ^ s / (Y j + X i) * ?sc else Q ! (j - a) * ?sc) * y j"
    proof (cases "j < a")
      case True
      then have "Y j + X i \<noteq> 0" using XY [OF i] by (simp add: T_add_eq_0_iff)
      then have "?P (Y j) * Y j ^ s / (Y j + X i) = Y j ^ s * ?Q (Y j)" using fac [of "Y j"] by simp
      then show ?thesis using True by (simp only: if_True) (simp only: ac_simps)
    qed (simp add: ac_simps)
  qed simp
  finally show ?thesis .
qed


section \<open>The matrix\<close>

lemma prod_list_upt: "(\<Prod>r\<leftarrow>rs. f r) = (\<Prod>j<length rs. f (rs ! j))"
  by (induction rs) (simp_all add: prod.lessThan_Suc_shift del: prod.lessThan_Suc)

lemma locator_derivative_nonzero:
  fixes X :: "nat \<Rightarrow> T"
  assumes inj: "inj_on X {..<k}" and i: "i < k"
  shows "du (\<Prod>j<k. Dual (X i) 1 + Dual (X j) 0) \<noteq> 0"
proof -
  have "du (\<Prod>j<k. Dual (X i) 1 + Dual (X j) 0) = (\<Sum>l<k. others k X l (X i))"
    unfolding du_prod(2) [OF finite_lessThan] others_def by (simp add: plus_dual_def)
  also have "\<dots> = (\<Sum>l<k. if l = i then others k X i (X i) else 0)"
    using others_zero [OF inj _ i] by (intro sum.cong) auto
  finally show ?thesis using i others_zero [OF inj i i] by simp
qed

lemma lagrange_rows:
  assumes "\<And>i result quot0. i \<in> set is \<Longrightarrow> length quot0 = k \<Longrightarrow> f i (result, quot0) = Inr (result @ g i, h i)" "\<And>i. length (h i) = k"
    and "length quot0 = k"
  shows "\<exists>quot1. foldR f is (result, quot0) = Inr (result @ concat (map g is), quot1)"
  using assms
proof (induction "is" arbitrary: result quot0)
  case (Cons i "is")
  then have "\<exists>quot1. foldR f is (result @ g i, h i) = Inr ((result @ g i) @ concat (map g is), quot1)" by (intro Cons.IH) simp_all
  then show ?case using Cons.prems(1) [of i quot0 result] Cons.prems(3) by simp
qed simp

lemma mk_matrix_concat: "m_elements (mk_matrix r c f) = concat (map (\<lambda>i. map (f i) [0..<c]) [0..<r])"
  by (simp add: mk_matrix_def product_concat_map map_concat comp_def)

text \<open>The columns of the system: a partition of the rows of data.\<close>

definition partition_rows :: "nat \<Rightarrow> nat list \<Rightarrow> nat list \<Rightarrow> bool" where
  "partition_rows n av lost \<longleftrightarrow> distinct (av @ lost) \<and> set (av @ lost) \<subseteq> {..<n} \<and> length (av @ lost) = n"

lemma NewMatrixFromSlice_mk: "0 < r \<Longrightarrow> 0 < c \<Longrightarrow> NewMatrixFromSlice r c (m_elements (mk_matrix r c f)) = Inr (mk_matrix r c f)"
  by (simp add: NewMatrixFromSlice_def checkRowColumnCount_def check_def mk_matrix_def)

lemma par2LagrangeMatrix_entries:
  assumes es: "consecutiveStart es = (s, True)" "length lost = length es"
    and part: "partition_rows n av lost" "n \<le> length generators"
  obtains p vals derivative where "locatorValues lost = Inr (p, vals, derivative)"
    "par2LagrangeMatrix n av lost es = Inr (Some (mk_matrix (length lost) n (\<lambda>i j.
       lagrange_entry av (length lost) p (map (\<lambda>r. vals ! unat (raw (generators ! r)) * (generators ! r) ^ nat s) av) derivative (of_int s) (lost ! i) j)))"
    "length p = Suc (length lost)" "\<And>z. ordinary_val (\<lambda>t. t) z p = (\<Prod>j<length lost. z + generators ! (lost ! j))"
    "\<And>z. vals ! unat (raw z) = ordinary_val (\<lambda>t. t) z p"
    "\<And>i. i < length lost \<Longrightarrow> derivative ! unat (raw (generators ! (lost ! i)))
      = ordinary_val (\<lambda>t. t) (generators ! (lost ! i)) (quotient_row p (generators ! (lost ! i)) (length lost) (replicate (length lost) 0))
      \<and> derivative ! unat (raw (generators ! (lost ! i))) \<noteq> 0"
proof -
  let ?k = "length lost" and ?X = "\<lambda>j. generators ! (lost ! j)"
  have s: "es \<noteq> []" "0 \<le> s" "s \<le> 65535" using es(1) unfolding consecutiveStart_iff by (cases es; simp)+
  have k: "0 < ?k" using es(2) s(1) by simp
  have su: "unat (of_int s :: u32) = nat s" using s by (simp add: unsigned_of_int take_bit_int_eq_self)
  have lg: "r < length generators" if "r \<in> set (av @ lost)" for r using part that by (auto simp: partition_rows_def)
  have lostn: "?k \<le> n" using part(1) by (simp add: partition_rows_def)
  obtain p vals derivative where lv: "locatorValues lost = Inr (p, vals, derivative)" "length p = Suc ?k"
    "\<And>x. ordinary_val (\<lambda>t. t) x p = (\<Prod>r\<leftarrow>lost. x + generators ! r)" "\<And>x. vals ! unat (raw x) = ordinary_val (\<lambda>t. t) x p"
    "\<And>x. ordinary_val (\<lambda>t. Dual t 0) (Dual x 1) p = (\<Prod>r\<leftarrow>lost. Dual x 1 + Dual (generators ! r) 0)"
    "\<And>x. derivative ! unat (raw x) = du (ordinary_val (\<lambda>t. Dual t 0) (Dual x 1) p)"
    by (rule locatorValues_ok [of lost]) (use lg lostn part(2) length_generators in auto)
  have inj: "inj_on ?X {..<?k}"
  proof (rule inj_onI)
    fix i j assume ij: "i \<in> {..<?k}" "j \<in> {..<?k}" "?X i = ?X j"
    then have "lost ! i < length generators" "lost ! j < length generators" using lg by simp_all
    then have "lost ! i = lost ! j" using ij(3) distinct_generators by (simp add: nth_eq_iff_index_eq)
    then show "i = j" using ij(1,2) part(1) by (simp add: partition_rows_def nth_eq_iff_index_eq)
  qed
  have X0: "generators ! r \<noteq> 0" if "r \<in> set (av @ lost)" for r
    using primitive_nonzero [OF set_generators, of "generators ! r" 1] lg [OF that] by simp
  have der: "derivative ! unat (raw (?X i)) = ordinary_val (\<lambda>t. t) (?X i) (quotient_row p (?X i) ?k (replicate ?k 0))
      \<and> derivative ! unat (raw (?X i)) \<noteq> 0" if i: "i < ?k" for i
  proof -
    have "ordinary_val (\<lambda>t. t) (?X i) p = 0"
      unfolding lv(3) prod_list_upt using i by (intro prod_zero bexI [of _ i]) simp_all
    note quotient_root(2) [OF k _ lv(2) this, of "replicate ?k 0"]
    moreover have "derivative ! unat (raw (?X i)) \<noteq> 0"
      unfolding lv(6) lv(5) prod_list_upt using locator_derivative_nonzero [OF inj i] by simp
    ultimately show ?thesis unfolding lv(6) by simp
  qed
  let ?w = "map (\<lambda>r. vals ! unat (raw (generators ! r)) * (generators ! r) ^ nat s) av"
  have weights: "mapR (\<lambda>r. bindR (index_at generators r) (\<lambda>y. bindR (T_Pow y (of_int s)) (\<lambda>ys. Inr (vals ! unat (raw y) * ys)))) av = Inr ?w"
    using lg by (intro mapR_Inr_map) (simp add: index_at_def su)
  let ?e = "lagrange_entry av ?k p ?w derivative (of_int s)"
  have rows: "lagrange_row n av ?k (of_int s) p ?w derivative r (result, quot0)
      = Inr (result @ map (?e r) [0..<n], quotient_row p (generators ! r) ?k (replicate ?k 0))"
    if "r \<in> set lost" "length quot0 = ?k" for r result quot0
  proof (rule lagrange_row_ok)
    note rin = that(1)
    obtain i where i: "i < ?k" "r = lost ! i" using rin by (auto simp: in_set_conv_nth)
    show "derivative ! unat (raw (generators ! r)) * (generators ! r) ^ unat (of_int s :: u32) \<noteq> 0"
      using der [OF i(1), THEN conjunct2] X0 [of r] rin by (simp only: i(2) mult_eq_0_iff power_eq_0_iff) simp
    show "\<forall>t \<in> set av. t < length generators \<and> generators ! t \<noteq> generators ! r"
    proof (intro ballI conjI)
      fix t assume t: "t \<in> set av"
      then show l: "t < length generators" using lg by simp
      have "t \<noteq> r" using part(1) t that(1) by (auto simp: partition_rows_def)
      then show "generators ! t \<noteq> generators ! r" using l lg [of r] that(1) distinct_generators by (simp add: nth_eq_iff_index_eq)
    qed
  qed (use lg that part(1) k in \<open>simp_all add: partition_rows_def\<close>)
  have lq: "length (quotient_row p (generators ! r) ?k (replicate ?k 0)) = ?k" for r using quotient_row_ok(1) [OF k] by simp
  have "\<exists>quot1. foldR (lagrange_row n av ?k (of_int s) p ?w derivative) lost ([], replicate ?k 0)
      = Inr ([] @ concat (map (\<lambda>r. map (?e r) [0..<n]) lost), quot1)"
    by (rule lagrange_rows [OF rows lq]) simp_all
  then obtain quot1 where f: "foldR (lagrange_row n av ?k (of_int s) p ?w derivative) lost ([], replicate ?k 0)
      = Inr ([] @ concat (map (\<lambda>r. map (?e r) [0..<n]) lost), quot1)" by blast
  have "concat (map (\<lambda>r. map (?e r) [0..<n]) lost) = m_elements (mk_matrix ?k n (\<lambda>i. ?e (lost ! i)))"
  proof -
    have "map (\<lambda>r. map (?e r) [0..<n]) lost = map (\<lambda>i. map (?e (lost ! i)) [0..<n]) [0..<?k]" by (rule nth_equalityI) simp_all
    then show ?thesis by (simp only: mk_matrix_concat)
  qed
  note f' = f [unfolded append_Nil this]
  have "0 < n" using k lostn by linarith
  note mk = NewMatrixFromSlice_mk [OF k this]
  have "\<not> (\<not> True \<or> ?k \<noteq> length es)" using es(2) by simp
  then have "par2LagrangeMatrix n av lost es = Inr (Some (mk_matrix ?k n (\<lambda>i. ?e (lost ! i))))"
    by (simp only: par2LagrangeMatrix_def es(1) Let_def prod.case if_False lv(1) bindR_simps weights f' mk)
  then show thesis by (rule that [OF lv(1) _ lv(2) lv(3) [unfolded prod_list_upt] lv(4) der])
qed


text \<open>The system of the reconstruction, with consecutive exponents, is not singular.\<close>

lemma lagrange_system:
  assumes part: "partition_rows n av lost" "n \<le> length generators" and k: "0 < length lost" "length es = length lost"
    and es: "\<And>i. i < length lost \<Longrightarrow> nat (es ! i) = s + i"
  defines "P \<equiv> mk_matrix (length es) n (\<lambda>i j. generators ! j ^ nat (es ! i))"
  shows "rows_used P av lost [0..<length lost]"
    and "nonsingular (mk_matrix (length lost) (length lost) (left_entry P [0..<length lost] lost))"
    and "t < length lost \<Longrightarrow> j < length lost \<Longrightarrow> left_entry P [0..<length lost] lost t j = generators ! (lost ! j) ^ (s + t)"
    and "t < length lost \<Longrightarrow> j < n \<Longrightarrow> right_entry P [0..<length lost] av t j
      = (if j < length av then generators ! (av ! j) ^ (s + t) else if t = j - length av then 1 else 0)"
proof -
  let ?us = "[0..<length lost]"
  have "length av + length lost = n" using part(1) by (simp add: partition_rows_def)
  then have n: "0 < n" using k(1) by linarith
  have bound: "r < n" if "r \<in> set (av @ lost)" for r using part(1) that by (auto simp: partition_rows_def)
  show "rows_used P av lost ?us"
    using part(1) k n bound by (auto simp: rows_used_def P_def partition_rows_def)
  show left: "left_entry P ?us lost t j = generators ! (lost ! j) ^ (s + t)" if "t < length lost" "j < length lost" for t j
    using that k es bound [of "lost ! j"] by (simp add: left_entry_def P_def)
  show "right_entry P ?us av t j = (if j < length av then generators ! (av ! j) ^ (s + t) else if t = j - length av then 1 else 0)"
    if "t < length lost" "j < n" for t j
    using that k es bound [of "av ! j"] by (simp add: right_entry_def P_def)
  have "ker_zero (length lost) (\<lambda>i j. generators ! (lost ! j) ^ (s + i))"
  proof (rule vandermonde_ker_zero)
    have lg: "lost ! j < length generators" if "j < length lost" for j using that bound [of "lost ! j"] part(2) by simp
    have "distinct lost" using part(1) by (simp add: partition_rows_def)
    then show "inj_on (\<lambda>j. generators ! (lost ! j)) {..<length lost}"
      using lg distinct_generators by (auto simp: inj_on_def nth_eq_iff_index_eq)
    show "generators ! (lost ! j) \<noteq> 0" if "j < length lost" for j
      using primitive_nonzero [OF set_generators, of "generators ! (lost ! j)" 1] lg [OF that] by simp
  qed
  then show "nonsingular (mk_matrix (length lost) (length lost) (left_entry P ?us lost))"
    unfolding nonsingular_mk_matrix ker_zero_def using left by simp
qed

lemma lagrange_eliminates:
  assumes es: "consecutiveStart es = (s, True)" "length lost = length es"
    and part: "partition_rows n av lost" "n \<le> length generators"
  defines "P \<equiv> mk_matrix (length es) n (\<lambda>i j. generators ! j ^ nat (es ! i))"
  obtains m where "makeReconstructionMatrix n av lost [0..<length lost] P = Inr m" "par2LagrangeMatrix n av lost es = Inr (Some m)"
proof -
  let ?k = "length lost" and ?a = "length av" and ?us = "[0..<length lost]" and ?X = "\<lambda>j. generators ! (lost ! j)" and ?Y = "\<lambda>j. generators ! (av ! j)"
  have s: "es \<noteq> []" "0 \<le> s" "s \<le> 65535" "\<And>i. i < length es \<Longrightarrow> nat (es ! i) = nat s + i"
    using es(1) unfolding consecutiveStart_iff by (cases es; auto simp: nat_add_distrib)+
  have k: "0 < ?k" "length es = ?k" using es(2) s(1) by simp_all
  have su: "unat (of_int s :: u32) = nat s" using s by (simp add: unsigned_of_int take_bit_int_eq_self)
  note sys = lagrange_system [OF part k, of "nat s", folded P_def]
  have exps: "\<And>i. i < ?k \<Longrightarrow> nat (es ! i) = nat s + i" using s(4) es(2) by simp
  note sys = sys [OF exps]
  obtain p vals derivative where L: "par2LagrangeMatrix n av lost es = Inr (Some (mk_matrix ?k n (\<lambda>i j.
       lagrange_entry av ?k p (map (\<lambda>r. vals ! unat (raw (generators ! r)) * (generators ! r) ^ nat s) av) derivative (of_int s) (lost ! i) j)))"
    "length p = Suc ?k" "\<And>z. ordinary_val (\<lambda>t. t) z p = (\<Prod>j<?k. z + ?X j)" "\<And>z. vals ! unat (raw z) = ordinary_val (\<lambda>t. t) z p"
    "\<And>i. i < ?k \<Longrightarrow> derivative ! unat (raw (?X i)) = ordinary_val (\<lambda>t. t) (?X i) (quotient_row p (?X i) ?k (replicate ?k 0))
      \<and> derivative ! unat (raw (?X i)) \<noteq> 0"
    by (rule par2LagrangeMatrix_entries [OF es part]) blast
  let ?e = "\<lambda>i. lagrange_entry av ?k p (map (\<lambda>r. vals ! unat (raw (generators ! r)) * (generators ! r) ^ nat s) av) derivative (of_int s) (lost ! i)"
  let ?M = "mk_matrix ?k ?k (left_entry P ?us lost)" and ?N = "mk_matrix ?k n (right_entry P ?us av)"
  have n1: "?a + ?k = n" using part(1) by (simp add: partition_rows_def)
  then have n: "?a + ?k = n" "0 < n" using k(1) by linarith+
  have make: "makeReconstructionMatrix n av lost ?us P = RowReduceForInverse ?M ?N"
    using makeReconstructionMatrix_eq [OF sys(1)] by (simp add: P_def)
  have bound: "r < length generators" if "r \<in> set (av @ lost)" for r using part that by (auto simp: partition_rows_def)
  have inj: "inj_on ?X {..<?k}" using bound part(1) distinct_generators by (auto simp: inj_on_def nth_eq_iff_index_eq partition_rows_def)
  have XY: "?Y j \<noteq> ?X i" if "i < ?k" "j < ?a" for i j
  proof -
    have "av ! j \<in> set av" "lost ! i \<in> set lost" using that by simp_all
    then have "av ! j \<noteq> lost ! i" "av ! j < length generators" "lost ! i < length generators" using part(1) bound by (auto simp: partition_rows_def)
    then show ?thesis using distinct_generators by (simp add: nth_eq_iff_index_eq)
  qed
  have X0: "?X i \<noteq> 0" if "i < ?k" for i
    using primitive_nonzero [OF set_generators, of "?X i" 1] bound [of "lost ! i"] that by simp
  have solves: "x i = (\<Sum>j<n. ?e i j * y j)" if rel: "rel ?M ?N x y" and i: "i < ?k" for x y i
  proof -
    have eqs: "(\<Sum>j<?k. ?X j ^ (nat s + t) * x j) = (\<Sum>j<?a + ?k. (if j < ?a then ?Y j ^ (nat s + t) else if t = j - ?a then 1 else 0) * y j)"
      if t: "t < ?k" for t
    proof -
      have "dot ?M t x = dot ?N t y" using rel t by (simp add: rel_def)
      then show ?thesis unfolding dot_mk_matrix [OF t] n(1) using sys(3) [OF _ t] sys(4) [OF _ t] by simp
    qed
    have nz: "ordinary_val (\<lambda>t. t) (?X i) (quotient_row p (?X i) ?k (replicate ?k 0)) \<noteq> 0"
      using L(5) [OF i, THEN conjunct2] unfolding L(5) [OF i, THEN conjunct1] .
    have "x i = (\<Sum>j<?a + ?k. (if j < ?a then ordinary_val (\<lambda>t. t) (?Y j) p * ?Y j ^ nat s / (?Y j + ?X i) * inverse (ordinary_val (\<lambda>t. t) (?X i) (quotient_row p (?X i) ?k (replicate ?k 0)) * ?X i ^ nat s)
         else quotient_row p (?X i) ?k (replicate ?k 0) ! (j - ?a) * inverse (ordinary_val (\<lambda>t. t) (?X i) (quotient_row p (?X i) ?k (replicate ?k 0)) * ?X i ^ nat s)) * y j)"
      by (rule lagrange_solves [OF k(1) L(2,3) inj XY X0 eqs i nz])
    also have "\<dots> = (\<Sum>j<?a + ?k. ?e i j * y j)"
    proof (rule sum.cong)
      fix j assume "j \<in> {..<?a + ?k}"
      show "(if j < ?a then ordinary_val (\<lambda>t. t) (?Y j) p * ?Y j ^ nat s / (?Y j + ?X i) * inverse (ordinary_val (\<lambda>t. t) (?X i) (quotient_row p (?X i) ?k (replicate ?k 0)) * ?X i ^ nat s)
         else quotient_row p (?X i) ?k (replicate ?k 0) ! (j - ?a) * inverse (ordinary_val (\<lambda>t. t) (?X i) (quotient_row p (?X i) ?k (replicate ?k 0)) * ?X i ^ nat s)) * y j = ?e i j * y j"
        using L(5) [OF i] by (simp add: lagrange_entry_def Let_def su L(4))
    qed simp
    finally show ?thesis unfolding n(1) .
  qed
  have M: "wf_matrix ?M" "wf_matrix ?N" "m_rows ?M = m_columns ?M" "m_rows ?N = m_rows ?M" using k n by simp_all
  obtain m where m: "RowReduceForInverse ?M ?N = Inr m" "same_shape ?N m" "\<And>x y. rel ?M ?N x y \<longleftrightarrow> (\<forall>i<?k. x i = dot m i y)"
    using RowReduceForInverse_cases [OF M] sys(2) by auto
  have sh: "m_rows m = ?k" "m_columns m = n" "wf_matrix m" using m(2) M(2) by (auto simp: same_shape_def)
  have "m = mk_matrix ?k n ?e"
  proof (rule matrix_eqI)
    fix i j assume "i < m_rows m" "j < m_columns m"
    then have ij: "i < ?k" "j < n" using sh by simp_all
    have "rel ?M ?N (\<lambda>i. dot m i (unit_vec j)) (unit_vec j)" unfolding m(3) by simp
    from solves [OF this ij(1)] have "dot m i (unit_vec j) = dot (mk_matrix ?k n ?e) i (unit_vec j)"
      unfolding dot_mk_matrix [OF ij(1)] .
    then show "el m i j = el (mk_matrix ?k n ?e) i j" using ij sh by (simp add: el_via_dot)
  qed (use sh k n in auto)
  then show thesis using m(1) make L(1) by (intro that [of m]) simp_all
qed


text \<open>
  C10: for consecutive recovery exponents \<open>par2LagrangeMatrix\<close>, which works in closed form with the
  locator polynomial, returns the matrix that \<open>ReconstructionMatrix\<close> finds by Gaussian elimination, for
  every way to divide the data rows into available and missing ones; neither panics nor fails.
\<close>

theorem par2LagrangeMatrix_eliminates:
  assumes "env_ok e" "NewCoderPAR2VandermondeRows (int n) es g = Inr c" "consecutiveStart es = (s, True)"
    and "length lost = length es" "partition_rows n av lost"
  shows "\<exists>m. par2LagrangeMatrix n av lost es = Inr (Some m) \<and> ReconstructionMatrix e c av lost [0..<length lost] = Inr m"
proof -
  have b: "0 < int n" "es \<noteq> []" "0 < g" "int n \<le> int (length generators)" "\<forall>r\<in>set es. 0 \<le> r \<and> r \<le> 65535"
    using assms(2) by (auto simp: NewCoderPAR2VandermondeRows_def not_less not_le split: if_splits)
  have c: "c = mk_coder n (length es) (nat g) (\<lambda>i j. generators ! j ^ nat (es ! i))"
    using NewCoderPAR2VandermondeRows_eq [OF b] assms(2) by simp
  have ok: "coder_ok c" "dataShards c = n" "parityMatrix c = mk_matrix (length es) n (\<lambda>i j. generators ! j ^ nat (es ! i))"
    unfolding c using coder_ok_mk [of n "length es" "nat g"] b by (simp_all add: mk_coder_def)
  have n: "n \<le> length generators" using b(4) by simp
  obtain m where m: "makeReconstructionMatrix n av lost [0..<length lost] (parityMatrix c) = Inr m" "par2LagrangeMatrix n av lost es = Inr (Some m)"
    unfolding ok(3) by (rule lagrange_eliminates [OF assms(3,4,5) n])
  have k: "0 < length lost" "length es = length lost" using b(2) assms(4) by simp_all
  have exps: "nat (es ! i) = nat s + i" if "i < length lost" for i
    using assms(3) that k(2) unfolding consecutiveStart_iff by (auto simp: nat_add_distrib)
  have "rows_used (parityMatrix c) av lost [0..<length lost]"
    unfolding ok(3) by (rule lagrange_system(1) [OF assms(5) n k exps])
  from ReconstructionMatrix_eq [OF assms(1) ok(1) this] m show ?thesis by (simp add: ok(2))
qed

theorem par2LagrangeMatrix_eliminates_witness:
  "\<exists>c m. NewCoderPAR2VandermondeRows 3 [7, 8] 1 = Inr c \<and> par2LagrangeMatrix 3 [1] [0, 2] [7, 8] = Inr (Some m)
     \<and> ReconstructionMatrix (pure_env True) c [1] [0, 2] [0..<2] = Inr m"
proof -
  obtain c where c: "NewCoderPAR2VandermondeRows 3 [7, 8] 1 = Inr c"
    using NewCoderPAR2VandermondeRows_eq [of 3 "[7, 8]" 1] length_generators by auto
  have "consecutiveStart [7, 8] = (7, True)" by (simp add: consecutiveStart_def)
  moreover have "partition_rows 3 [1] [0, 2]" by (auto simp: partition_rows_def)
  ultimately show ?thesis
    using par2LagrangeMatrix_eliminates [OF env_ok_pure(1), of 3 "[7, 8]" 1 c 7 "[0, 2]" "[1]"] c by (simp add: numeral_2_eq_2)
qed

end
