(* ===== verification/Pool.thy ===== *)
theory Pool
  imports Prelude
begin

text \<open>
  Worker pools: a fixed number of goroutines that take tasks from an unbuffered channel until it is
  closed, and share a state.  A worker runs a process per task, one atomic step at a time; which
  worker makes the next step is the scheduler's choice.  The locale \<open>pool_work\<close> gives what holds for
  every choice: the pool finishes, and the work recorded in the shared state is the work of all tasks.
\<close>

section \<open>The pool\<close>

text \<open>
  \<open>start\<close> turns a task into the process of the goroutine that received it; \<open>step\<close> makes one atomic
  step of a process on the shared state, the result None ends the process.  An error on the left is
  a panic.
\<close>

type_synonym ('p, 's) process_step = "'p \<Rightarrow> 's \<Rightarrow> ('p option \<times> 's) res"

record ('t, 'p, 's) pool =
  pl_queue :: "'t list"
  pl_workers :: "'p option list"
  pl_shared :: 's

definition pool_init :: "nat \<Rightarrow> 't list \<Rightarrow> 's \<Rightarrow> ('t, 'p, 's) pool" where
  "pool_init workers tasks s = \<lparr> pl_queue = tasks, pl_workers = replicate workers None, pl_shared = s \<rparr>"

definition pool_done :: "('t, 'p, 's) pool \<Rightarrow> bool" where
  "pool_done c \<longleftrightarrow> pl_queue c = [] \<and> list_all (\<lambda>p. case p of None \<Rightarrow> True | Some _ \<Rightarrow> False) (pl_workers c)"

text \<open>
  What worker \<open>w\<close> does when it is scheduled: an idle one receives the next task, a busy one makes a
  step.  None when it has nothing to do.
\<close>

definition pool_act ::
    "('t \<Rightarrow> 'p) \<Rightarrow> ('p, 's) process_step \<Rightarrow> nat \<Rightarrow> ('t, 'p, 's) pool \<Rightarrow> ('t, 'p, 's) pool res option" where
  "pool_act start step w c =
     (if w < length (pl_workers c) then
        (case pl_workers c ! w of
           None \<Rightarrow> (case pl_queue c of
               [] \<Rightarrow> None
             | t # q \<Rightarrow> Some (Inr (c\<lparr> pl_queue := q, pl_workers := (pl_workers c)[w := Some (start t)] \<rparr>)))
         | Some p \<Rightarrow> Some (bindR (step p (pl_shared c)) (\<lambda>(p', s').
             Inr (c\<lparr> pl_workers := (pl_workers c)[w := p'], pl_shared := s' \<rparr>))))
      else None)"

text \<open>
  The scheduler's next choice: the head of \<open>sched\<close> when that worker can move, else the first worker
  that can.
\<close>

definition pool_enabled :: "('t, 'p, 's) pool \<Rightarrow> nat \<Rightarrow> bool" where
  "pool_enabled c w \<longleftrightarrow> w < length (pl_workers c) \<and> (pl_workers c ! w \<noteq> None \<or> pl_queue c \<noteq> [])"

definition pool_next :: "nat list \<Rightarrow> ('t, 'p, 's) pool \<Rightarrow> nat option" where
  "pool_next sched c = (case filter (pool_enabled c) (take 1 sched @ [0..<length (pl_workers c)]) of
      [] \<Rightarrow> None | w # _ \<Rightarrow> Some w)"

text \<open>
  Running the pool under a schedule, until the queue is empty and every worker is idle.  None means
  that it does not get there: no worker can move, or a process runs for ever.
\<close>

partial_function (option) pool_run ::
    "('t \<Rightarrow> 'p) \<Rightarrow> ('p, 's) process_step \<Rightarrow> nat list \<Rightarrow> ('t, 'p, 's) pool \<Rightarrow> ('t, 'p, 's) pool res option" where
  "pool_run start step sched c =
     (if pool_done c then Some (Inr c)
      else case pool_next sched c of
          None \<Rightarrow> None
        | Some w \<Rightarrow> (case pool_act start step w c of
            None \<Rightarrow> None
          | Some (Inl e) \<Rightarrow> Some (Inl e)
          | Some (Inr c') \<Rightarrow> pool_run start step (tl sched) c'))"

section \<open>Reachable pools\<close>

inductive pool_reach ::
    "('t \<Rightarrow> 'p) \<Rightarrow> ('p, 's) process_step \<Rightarrow> ('t, 'p, 's) pool \<Rightarrow> ('t, 'p, 's) pool \<Rightarrow> bool"
  for start :: "'t \<Rightarrow> 'p" and step :: "('p, 's) process_step" and c0 :: "('t, 'p, 's) pool" where
  start: "pool_reach start step c0 c0"
| act: "pool_reach start step c0 c \<Longrightarrow> pool_act start step w c = Some (Inr c') \<Longrightarrow> pool_reach start step c0 c'"

lemma pool_act_cases:
  assumes "pool_act start step w c = Some r"
  obtains (take) t q where "w < length (pl_workers c)" "pl_workers c ! w = None" "pl_queue c = t # q"
      "r = Inr (c\<lparr> pl_queue := q, pl_workers := (pl_workers c)[w := Some (start t)] \<rparr>)"
    | (work) p where "w < length (pl_workers c)" "pl_workers c ! w = Some p"
      "r = bindR (step p (pl_shared c)) (\<lambda>(p', s').
             Inr (c\<lparr> pl_workers := (pl_workers c)[w := p'], pl_shared := s' \<rparr>))"
  using assms by (auto simp: pool_act_def split: if_splits option.splits list.splits)

lemma pool_act_enabled: "pool_enabled c w \<longleftrightarrow> pool_act start step w c \<noteq> None"
  by (auto simp: pool_enabled_def pool_act_def split: option.splits list.splits)

lemma pool_next_enabled:
  assumes "pool_next sched c = Some w"
  shows "pool_enabled c w"
proof -
  have "w \<in> set (filter (pool_enabled c) (take 1 sched @ [0..<length (pl_workers c)]))"
    using assms unfolding pool_next_def by (cases "filter (pool_enabled c) (take 1 sched @ [0..<length (pl_workers c)])") auto
  then show ?thesis by auto
qed

lemma pool_next_some:
  assumes "\<not> pool_done c" and "pl_workers c \<noteq> []"
  shows "\<exists>w. pool_next sched c = Some w"
proof -
  have "\<exists>w < length (pl_workers c). pool_enabled c w"
  proof (cases "pl_queue c = []")
    case True
    then have "\<exists>w < length (pl_workers c). pl_workers c ! w \<noteq> None"
      using assms(1) by (auto simp: pool_done_def list_all_length split: option.splits)
    then show ?thesis by (auto simp: pool_enabled_def)
  next
    case False
    with assms(2) show ?thesis by (auto simp: pool_enabled_def)
  qed
  then have "filter (pool_enabled c) (take 1 sched @ [0..<length (pl_workers c)]) \<noteq> []"
    by (auto simp: filter_empty_conv)
  then show ?thesis by (auto simp: pool_next_def split: list.splits)
qed

lemma sum_list_update_nat:
  "w < length xs \<Longrightarrow> (\<Sum>x\<leftarrow>xs[w := y]. f x :: nat) + f (xs ! w) = (\<Sum>x\<leftarrow>xs. f x) + f y"
proof (induction xs arbitrary: w)
  case (Cons x xs)
  show ?case
  proof (cases w)
    case (Suc v)
    with Cons.prems have "(\<Sum>x\<leftarrow>xs[v := y]. f x) + f (xs ! v) = (\<Sum>x\<leftarrow>xs. f x) + f y"
      by (intro Cons.IH) simp
    with Suc show ?thesis by simp
  qed simp
qed simp

lemma UN_list_update:
  "w < length xs \<Longrightarrow> (\<Union>x \<in> set (xs[w := y]). F x) \<union> F (xs ! w) = (\<Union>x \<in> set xs. F x) \<union> F y"
proof (induction xs arbitrary: w)
  case (Cons x xs)
  then show ?case
  proof (cases w)
    case (Suc v)
    with Cons have "(\<Union>x \<in> set (xs[v := y]). F x) \<union> F (xs ! v) = (\<Union>x \<in> set xs. F x) \<union> F y" by simp
    with Suc show ?thesis by (auto simp: Un_ac)
  qed auto
qed simp

lemma work_moved:
  "A' \<union> l = A \<union> l' \<Longrightarrow> l' \<subseteq> A' \<Longrightarrow> l \<subseteq> A \<Longrightarrow> G \<union> l \<subseteq> G' \<union> l' \<Longrightarrow> G \<union> A \<union> Q \<subseteq> G' \<union> A' \<union> Q"
  by blast

section \<open>Work that every schedule does\<close>

text \<open>
  \<open>todo p\<close> is the work a process has left, \<open>got s\<close> the work recorded in the shared state, \<open>psize\<close> a bound
  on the steps a process has left.  A step loses no work: what was left or recorded is so afterwards.  \<open>P p s\<close> is what a
  process knows of itself and the shared state; the steps of the others leave it true.
\<close>

locale pool_work =
  fixes start :: "'t \<Rightarrow> 'p" and step :: "('p, 's) process_step"
    and T :: "'t \<Rightarrow> bool" and P :: "'p \<Rightarrow> 's \<Rightarrow> bool" and J :: "'s \<Rightarrow> bool"
    and todo :: "'p \<Rightarrow> 'x set" and got :: "'s \<Rightarrow> 'x set" and psize :: "'p \<Rightarrow> nat"
  assumes start_ok: "T t \<Longrightarrow> J s \<Longrightarrow> P (start t) s"
    and step_ok: "P p s \<Longrightarrow> J s \<Longrightarrow> \<exists>p' s'. step p s = Inr (p', s') \<and> J s' \<and>
      (case p' of None \<Rightarrow> got s \<union> todo p \<subseteq> got s'
       | Some q \<Rightarrow> P q s' \<and> psize q < psize p \<and> got s \<union> todo p \<subseteq> got s' \<union> todo q)"
    and stable: "P p s \<Longrightarrow> J s \<Longrightarrow> step p s = Inr (p', s') \<Longrightarrow> P r s \<Longrightarrow> P r s'"
begin

definition left :: "'p option \<Rightarrow> 'x set" where
  "left p = (case p of None \<Rightarrow> {} | Some q \<Rightarrow> todo q)"

definition work :: "('t, 'p, 's) pool \<Rightarrow> 'x set" where
  "work c = got (pl_shared c) \<union> (\<Union>p \<in> set (pl_workers c). left p) \<union> (\<Union>t \<in> set (pl_queue c). todo (start t))"

definition pool_ok :: "('t, 'p, 's) pool \<Rightarrow> bool" where
  "pool_ok c \<longleftrightarrow> J (pl_shared c) \<and> (\<forall>p. Some p \<in> set (pl_workers c) \<longrightarrow> P p (pl_shared c)) \<and> (\<forall>t \<in> set (pl_queue c). T t)"

definition pool_size :: "('t, 'p, 's) pool \<Rightarrow> nat" where
  "pool_size c = (\<Sum>p\<leftarrow>pl_workers c. case p of None \<Rightarrow> 0 | Some q \<Rightarrow> Suc (psize q)) +
     (\<Sum>t\<leftarrow>pl_queue c. Suc (Suc (psize (start t))))"

lemma UN_left_update:
  assumes "w < length ps" and "ps ! w = p"
  shows "(\<Union>x \<in> set (ps[w := p']). left x) \<union> left p = (\<Union>x \<in> set ps. left x) \<union> left p'"
    and "left p \<subseteq> (\<Union>x \<in> set ps. left x)" and "left p' \<subseteq> (\<Union>x \<in> set (ps[w := p']). left x)"
proof -
  show "(\<Union>x \<in> set (ps[w := p']). left x) \<union> left p = (\<Union>x \<in> set ps. left x) \<union> left p'"
    using UN_list_update [OF assms(1), of left p'] assms(2) by simp
  show "left p \<subseteq> (\<Union>x \<in> set ps. left x)" using assms by (metis UN_upper nth_mem)
  show "left p' \<subseteq> (\<Union>x \<in> set (ps[w := p']). left x)"
    using set_update_memI [OF assms(1)] by (rule UN_upper)
qed

lemma act_ok:
  assumes ok: "pool_ok c" and act: "pool_act start step w c = Some r"
  shows "\<exists>c'. r = Inr c' \<and> pool_ok c' \<and> work c \<subseteq> work c' \<and> pool_size c' < pool_size c \<and>
    length (pl_workers c') = length (pl_workers c)"
  using act
proof (cases rule: pool_act_cases)
  case (take t q)
  let ?c = "c\<lparr> pl_queue := q, pl_workers := (pl_workers c)[w := Some (start t)] \<rparr>"
  have "T t" "J (pl_shared c)" using ok take(3) by (auto simp: pool_ok_def)
  then have "P (start t) (pl_shared c)" by (rule start_ok)
  then have "pool_ok ?c"
    using ok take by (auto simp: pool_ok_def in_set_conv_nth nth_list_update split: if_splits)
  moreover have "work c \<subseteq> work ?c"
    using UN_left_update(1,3) [OF take(1,2), of "Some (start t)"] UN_left_update(2) [OF take(1,2)] take(3) by (auto simp: work_def left_def)
  moreover have "pool_size ?c < pool_size c"
    using sum_list_update_nat [OF take(1), of "\<lambda>p. case p of None \<Rightarrow> 0 | Some q \<Rightarrow> Suc (psize q)" "Some (start t)"]
      take by (simp add: pool_size_def)
  ultimately show ?thesis using take(4) by simp
next
  case (work p)
  have Pp: "P p (pl_shared c)" "J (pl_shared c)"
    using ok work(1,2) nth_mem [OF work(1)] by (auto simp: pool_ok_def)
  from step_ok [OF this] obtain p' s' where
    s: "step p (pl_shared c) = Inr (p', s')" "J s'"
    and p': "case p' of None \<Rightarrow> got (pl_shared c) \<union> todo p \<subseteq> got s'
       | Some q \<Rightarrow> P q s' \<and> psize q < psize p \<and> got (pl_shared c) \<union> todo p \<subseteq> got s' \<union> todo q" by blast
  let ?c = "c\<lparr> pl_workers := (pl_workers c)[w := p'], pl_shared := s' \<rparr>"
  have others: "P r s'" if "Some r \<in> set (pl_workers c)" for r
    using stable [OF Pp s(1), of r] that ok by (simp add: pool_ok_def)
  have "pool_ok ?c"
    unfolding pool_ok_def
  proof (intro conjI allI impI)
    fix r assume "Some r \<in> set (pl_workers ?c)"
    then have "Some r = p' \<or> Some r \<in> set (pl_workers c)" using set_update_subset_insert by force
    then show "P r (pl_shared ?c)" using p' others by (cases p') auto
  qed (use ok s(2) in \<open>auto simp: pool_ok_def\<close>)
  moreover have "got (pl_shared c) \<union> left (Some p) \<subseteq> got s' \<union> left p'"
    using p' by (auto simp: left_def split: option.splits)
  from work_moved [OF UN_left_update(1) [OF work(1,2), of p'] UN_left_update(3) [OF work(1,2)]
      UN_left_update(2) [OF work(1,2)] this]
  have "work c \<subseteq> work ?c" by (simp add: work_def)
  moreover have "pool_size ?c < pool_size c"
    using sum_list_update_nat [OF work(1), of "\<lambda>p. case p of None \<Rightarrow> 0 | Some q \<Rightarrow> Suc (psize q)" p']
      work(2) p' by (auto simp: pool_size_def split: option.splits)
  ultimately show ?thesis using work(3) s(1) by simp
qed

lemma reach_ok:
  assumes "pool_reach start step c0 c" and "pool_ok c0"
  shows "pool_ok c \<and> work c0 \<subseteq> work c \<and> length (pl_workers c) = length (pl_workers c0)"
  using assms
proof (induction rule: pool_reach.induct)
  case (act c w c')
  then show ?case using act_ok by fastforce
qed simp

lemma run_reach:
  assumes "pool_ok c" and "pl_workers c \<noteq> [] \<or> pl_queue c = []"
  shows "\<exists>c'. pool_run start step sched c = Some (Inr c') \<and> pool_done c' \<and> pool_reach start step c c'"
  using assms
proof (induction "pool_size c" arbitrary: c sched rule: less_induct)
  case less
  show ?case
  proof (cases "pool_done c")
    case True
    then show ?thesis by (auto simp: pool_run.simps intro: pool_reach.start)
  next
    case False
    then have ne: "pl_workers c \<noteq> []" using less.prems(2) by (auto simp: pool_done_def)
    from pool_next_some [OF False this] obtain w where w: "pool_next sched c = Some w" by blast
    then obtain r where r: "pool_act start step w c = Some r"
      using pool_next_enabled pool_act_enabled by blast
    from act_ok [OF less.prems(1) this] obtain c1 where
      c1: "r = Inr c1" "pool_ok c1" "pool_size c1 < pool_size c" "length (pl_workers c1) = length (pl_workers c)" by blast
    have "pl_workers c1 \<noteq> []" using ne c1(4) by (metis length_0_conv)
    from less.hyps [OF c1(3,2)] this obtain c' where
      c': "pool_run start step (tl sched) c1 = Some (Inr c')" "pool_done c'" "pool_reach start step c1 c'" by blast
    have "pool_run start step sched c = Some (Inr c')"
      using False w r c1(1) c'(1) by (subst pool_run.simps) simp
    moreover have "pool_reach start step c c'"
      using c'(3)
    proof (induction rule: pool_reach.induct)
      case start
      show ?case using pool_reach.act [OF pool_reach.start] r c1(1) by blast
    next
      case (act c2 w2 c3)
      then show ?case by (blast intro: pool_reach.act)
    qed
    ultimately show ?thesis using c'(2) by blast
  qed
qed

lemma work_done: "pool_done c \<Longrightarrow> work c = got (pl_shared c)"
  by (auto simp: work_def pool_done_def left_def list_all_iff split: option.splits)

lemma work_init: "work (pool_init n tasks s) = got s \<union> (\<Union>t \<in> set tasks. todo (start t))"
  by (auto simp: work_def pool_init_def left_def)

lemma pool_ok_init: "\<forall>t \<in> set tasks. T t \<Longrightarrow> J s \<Longrightarrow> pool_ok (pool_init n tasks s)"
  by (auto simp: pool_ok_def pool_init_def)

lemma run_done:
  assumes "0 < n \<or> tasks = []" and "\<forall>t \<in> set tasks. T t" and "J s"
  shows "\<exists>c. pool_run start step sched (pool_init n tasks s) = Some (Inr c) \<and> pool_done c \<and>
    pool_reach start step (pool_init n tasks s) c"
proof -
  have "pl_workers (pool_init n tasks s :: ('t, 'p, 's) pool) \<noteq> [] \<or> pl_queue (pool_init n tasks s :: ('t, 'p, 's) pool) = []"
    using assms(1) by (auto simp: pool_init_def)
  from run_reach [OF pool_ok_init [OF assms(2,3)] this] show ?thesis by blast
qed

text \<open>Every schedule ends, and no work is left out.\<close>

lemma run_ok:
  assumes "0 < n \<or> tasks = []" and "\<forall>t \<in> set tasks. T t" and "J s"
  shows "\<exists>c. pool_run start step sched (pool_init n tasks s) = Some (Inr c) \<and> J (pl_shared c) \<and>
    got s \<union> (\<Union>t \<in> set tasks. todo (start t)) \<subseteq> got (pl_shared c)"
  using run_done [OF assms, of sched] reach_ok [OF _ pool_ok_init [OF assms(2,3)]] work_done work_init [of n tasks s]
  by (metis pool_ok_def)

end

text \<open>Pools whose steps record nothing but their work: the result is the same for every schedule.\<close>

locale pool_exact = pool_work start step T P J todo got psize
  for start :: "'t \<Rightarrow> 'p" and step :: "('p, 's) process_step"
    and T :: "'t \<Rightarrow> bool" and P :: "'p \<Rightarrow> 's \<Rightarrow> bool" and J :: "'s \<Rightarrow> bool"
    and todo :: "'p \<Rightarrow> 'x set" and got :: "'s \<Rightarrow> 'x set" and psize :: "'p \<Rightarrow> nat" +
  assumes step_exact: "P p s \<Longrightarrow> J s \<Longrightarrow> step p s = Inr (p', s') \<Longrightarrow>
      got s' \<union> (case p' of None \<Rightarrow> {} | Some q \<Rightarrow> todo q) \<subseteq> got s \<union> todo p"
begin

lemma act_exact:
  assumes ok: "pool_ok c" and act: "pool_act start step w c = Some (Inr c')"
  shows "work c' \<subseteq> work c"
  using act
proof (cases rule: pool_act_cases)
  case (take t q)
  then show ?thesis
    using UN_left_update(1,3) [OF take(1,2), of "Some (start t)"] UN_left_update(2) [OF take(1,2)] by (auto simp: work_def left_def)
next
  case (work p)
  have Pp: "P p (pl_shared c)" "J (pl_shared c)"
    using ok work(1,2) nth_mem [OF work(1)] by (auto simp: pool_ok_def)
  from work(3) obtain p' s' where s: "step p (pl_shared c) = Inr (p', s')"
    and c': "c' = c\<lparr> pl_workers := (pl_workers c)[w := p'], pl_shared := s' \<rparr>"
    by (auto simp: bindR_def split: sum.splits)
  have "got s' \<union> left p' \<subseteq> got (pl_shared c) \<union> left (Some p)"
    using step_exact [OF Pp s] by (simp add: left_def)
  from work_moved [OF UN_left_update(1) [OF work(1,2), of p', symmetric] UN_left_update(2) [OF work(1,2)]
      UN_left_update(3) [OF work(1,2)] this]
  show ?thesis by (simp add: work_def c')
qed

lemma reach_exact:
  assumes "pool_reach start step c0 c" and "pool_ok c0"
  shows "work c = work c0"
  using assms
proof (induction rule: pool_reach.induct)
  case (act c w c')
  then have "pool_ok c" using reach_ok by blast
  then show ?case using act act_exact act_ok by fastforce
qed simp

lemma run_exact:
  assumes "0 < n \<or> tasks = []" and "\<forall>t \<in> set tasks. T t" and "J s"
  shows "\<exists>c. pool_run start step sched (pool_init n tasks s) = Some (Inr c) \<and> J (pl_shared c) \<and>
    got (pl_shared c) = got s \<union> (\<Union>t \<in> set tasks. todo (start t))"
  using run_done [OF assms, of sched] reach_ok [OF _ pool_ok_init [OF assms(2,3)]]
    reach_exact [OF _ pool_ok_init [OF assms(2,3)]] work_done work_init [of n tasks s]
  by (metis pool_ok_def)

end

end
