(* ===== verification/Crc32.thy ===== *)
theory Crc32
  imports Prelude
begin

text \<open>
  The CRC-32 of slices and the constant-time rolling CRC of the slice scan (\<open>par2/crc32.go\<close>), with
  \<open>hash/crc32\<close> of Go's standard library: the IEEE table and the byte-wise update.  The raw register
  update is linear over exclusive-or; the theorem that \<open>update\<close> computes the CRC of the shifted
  window, for every window size of at least four, is a consequence.
\<close>

section \<open>hash/crc32\<close>

definition IEEE :: u32 where
  "IEEE = 0xedb88320"

definition crc_shift :: "u32 \<Rightarrow> u32" where
  "crc_shift c = (if bit c 0 then drop_bit 1 c XOR IEEE else drop_bit 1 c)"

definition crc_entry :: "byte \<Rightarrow> u32" where
  "crc_entry b = (crc_shift ^^ 8) (ucast b)"

definition IEEETable :: "u32 list" where
  "IEEETable = map (\<lambda>i. crc_entry (of_nat i)) [0..<256]"

text \<open>One byte: \<open>tab[byte(crc)^v] ^ (crc >> 8)\<close>.\<close>

definition crc_step :: "byte \<Rightarrow> u32 \<Rightarrow> u32" where
  "crc_step v t = IEEETable ! unat (ucast t XOR v) XOR drop_bit 8 t"

definition crc_raw :: "byte list \<Rightarrow> u32 \<Rightarrow> u32" where
  "crc_raw bs t = fold crc_step bs t"

definition ChecksumIEEE :: "byte list \<Rightarrow> u32" where
  "ChecksumIEEE bs = NOT (crc_raw bs (NOT 0))"

section \<open>The rolling window\<close>

record crc32Window =
  cw_windowSize :: nat
  cw_crcOldLeaderMaskedTable :: "u32 list"

text \<open>
  The inner loop of \<open>newCRC32Window\<close>: the exclusive-or of the base entries of the bits of \<open>i\<close>, and
  how many there are.
\<close>

definition base_sum :: "u32 list \<Rightarrow> nat \<Rightarrow> u32 \<times> nat" where
  "base_sum baseTable i =
     fold (\<lambda>j (crc, crcCount). if bit i j then (crc XOR baseTable ! j, crcCount + 1) else (crc, crcCount))
       [0..<8] (0, 0)"

definition newCRC32Window :: "nat \<Rightarrow> crc32Window res" where
  "newCRC32Window windowSize =
     (if windowSize < 4 then Inl (Panic ''window size too small'')
      else let a0 = replicate (windowSize + 1) 0;
               crc0 = ChecksumIEEE a0;
               a1 = (a0[0 := 0xff])[4 := 0xff];
               crcWindowMask = ChecksumIEEE a1;
               a2 = a1[4 := 0];
               baseTable = map (\<lambda>i. ChecksumIEEE (a2[0 := push_bit i 1])) [0..<8];
               entry = (\<lambda>i. let (crc, crcCount) = base_sum baseTable i
                  in (if crcCount mod 2 = 0 then crc XOR crc0 else crc) XOR crcWindowMask)
           in Inr \<lparr> cw_windowSize = windowSize,
                    cw_crcOldLeaderMaskedTable = (crc0 XOR crcWindowMask) # map entry [1..<256] \<rparr>)"

definition crc32Window_update :: "crc32Window \<Rightarrow> u32 \<Rightarrow> byte \<Rightarrow> byte \<Rightarrow> u32" where
  "crc32Window_update w crc oldLeader newTrailer =
     (let t = NOT crc;
          t' = IEEETable ! unat (ucast t XOR newTrailer) XOR drop_bit 8 t;
          crcExtended = NOT t';
          crcOldLeaderMasked = cw_crcOldLeaderMaskedTable w ! unat oldLeader
      in crcExtended XOR crcOldLeaderMasked)"

text \<open>The process-wide cache \<open>crc32Windows\<close>: the window, and the cache afterwards.\<close>

definition crc32WindowFor ::
    "nat \<Rightarrow> (nat \<rightharpoonup> crc32Window) \<Rightarrow> (crc32Window \<times> (nat \<rightharpoonup> crc32Window)) res" where
  "crc32WindowFor windowSize windows =
     (case windows windowSize of
        Some w \<Rightarrow> Inr (w, windows)
      | None \<Rightarrow> bindR (newCRC32Window windowSize) (\<lambda>w. Inr (w, windows(windowSize \<mapsto> w))))"

section \<open>Linearity\<close>

lemma crc_shift_xor: "crc_shift (a XOR b) = crc_shift a XOR crc_shift b"
  by (rule bit_word_eqI) (auto simp: crc_shift_def bit_simps)

lemma crc_shift_pow_xor: "(crc_shift ^^ n) (a XOR b) = (crc_shift ^^ n) a XOR (crc_shift ^^ n) b"
  by (induction n) (simp_all add: crc_shift_xor)

lemma crc_entry_xor: "crc_entry (a XOR b) = crc_entry a XOR crc_entry b"
proof -
  have "(ucast (a XOR b) :: u32) = ucast a XOR ucast b"
    by (rule bit_word_eqI) (auto simp: bit_simps)
  then show ?thesis by (simp only: crc_entry_def crc_shift_pow_xor)
qed

lemma crc_entry_0: "crc_entry 0 = 0"
  using crc_entry_xor [of 0 0] by simp

lemma IEEETable_nth [simp]: "IEEETable ! unat b = crc_entry b"
proof -
  have "unat b < 2 ^ LENGTH(8)" by (rule unsigned_less)
  then show ?thesis by (simp add: IEEETable_def)
qed

lemma crc_step_entry [code]: "crc_step v t = crc_entry (ucast t XOR v) XOR drop_bit 8 t"
  by (simp only: crc_step_def IEEETable_nth)

text \<open>The checksum of the string \<open>a\<close>.\<close>

lemma ChecksumIEEE_a: "ChecksumIEEE [0x61] = 0xe8b7be43"
  by code_simp

lemma crc_step_xor: "crc_step (v XOR w) (t XOR u) = crc_step v t XOR crc_step w u"
proof -
  have e: "(ucast (t XOR u) XOR (v XOR w) :: byte) = (ucast t XOR v) XOR (ucast u XOR w)"
    by (rule bit_word_eqI) (auto simp: bit_simps)
  have d: "drop_bit 8 (t XOR u) = drop_bit 8 t XOR drop_bit 8 u"
    by (rule bit_word_eqI) (auto simp: bit_simps)
  show ?thesis unfolding crc_step_entry e d crc_entry_xor by (simp only: ac_simps)
qed

lemma crc_raw_simps [simp]:
  "crc_raw [] t = t" "crc_raw (b # bs) t = crc_raw bs (crc_step b t)"
  "crc_raw (bs @ cs) t = crc_raw cs (crc_raw bs t)"
  by (simp_all add: crc_raw_def)

lemma crc_raw_xor:
  "length bs = length cs \<Longrightarrow>
   crc_raw (map2 (XOR) bs cs) (t XOR u) = crc_raw bs t XOR crc_raw cs u"
  by (induction bs cs arbitrary: t u rule: list_induct2) (simp_all add: crc_step_xor)

lemma crc_step_0: "crc_step 0 0 = 0"
  by (simp add: crc_step_entry crc_entry_0)

lemma crc_raw_zeros: "crc_raw (replicate n 0) 0 = 0"
  by (induction n) (simp_all add: crc_step_0)

text \<open>Two equal register states in a row of zeros differ by nothing; four bytes flush the register.\<close>

lemma crc_flush: "crc_raw (0 # 0 # 0 # 0xff # replicate n 0) 0xff000000 = 0"
proof -
  have z: "(0xff000000 :: byte) = 0" "(0xff0000 :: byte) = 0" "(0xff00 :: byte) = 0"
    by code_simp+
  have "crc_raw [0, 0, 0, 0xff] 0xff000000 = 0" by (simp add: crc_step_entry crc_entry_0 z)
  then show ?thesis by (simp add: crc_raw_zeros)
qed

section \<open>The table of the window\<close>

text \<open>\<open>crc(b..)\<close>: the checksum of \<open>b\<close> padded with zeros to \<open>n + 1\<close> bytes.\<close>

definition crc_pad :: "nat \<Rightarrow> byte \<Rightarrow> u32" where
  "crc_pad n b = ChecksumIEEE (b # replicate n 0)"

definition crc_lin :: "nat \<Rightarrow> byte \<Rightarrow> u32" where
  "crc_lin n b = crc_raw (b # replicate n 0) 0"

lemma map2_xor_zeros: "map2 (XOR) bs (replicate (length bs) (0 :: byte)) = bs"
  by (induction bs) auto

lemma crc_lin_xor: "crc_lin n (a XOR b) = crc_lin n a XOR crc_lin n b"
  using crc_raw_xor [of "a # replicate n 0" "b # replicate n 0" 0 0] map2_xor_zeros [of "replicate n 0"]
  by (simp add: crc_lin_def)

lemma crc_lin_0: "crc_lin n 0 = 0"
  using crc_raw_zeros [of "Suc n"] by (simp add: crc_lin_def)

lemma crc_pad_lin: "crc_pad n b = crc_pad n 0 XOR crc_lin n b"
proof -
  have "crc_raw (b # replicate n 0) (NOT 0) = crc_raw (0 # replicate n 0) (NOT 0) XOR crc_lin n b"
    using crc_raw_xor [of "0 # replicate n 0" "b # replicate n 0" "NOT 0" 0] map2_xor_zeros [of "replicate n 0"]
    by (simp add: crc_lin_def)
  then show ?thesis by (simp add: crc_pad_def ChecksumIEEE_def)
qed

lemma base_sum_prefix:
  assumes "k \<le> 8" and "length base = 8"
    and "\<And>j. j < 8 \<Longrightarrow> base ! j = crc_pad n 0 XOR crc_lin n (push_bit j 1)"
  shows "fold (\<lambda>j (crc, cnt). if bit i j then (crc XOR base ! j, cnt + 1) else (crc, cnt)) [0..<k] (0, 0)
    = ((if odd (card {j. j < k \<and> bit i j}) then crc_pad n 0 else 0) XOR crc_lin n (of_nat (take_bit k i)),
       card {j. j < k \<and> bit i j})"
  using assms(1)
proof (induction k)
  case 0
  then show ?case by (simp add: crc_lin_0)
next
  case (Suc k)
  have f: "finite {j. j < k \<and> bit i j}" by simp
  show ?case
  proof (cases "bit i k")
    case True
    have c: "{j. j < Suc k \<and> bit i j} = insert k {j. j < k \<and> bit i j}"
      using True by (auto simp: less_Suc_eq)
    have "(of_nat (take_bit (Suc k) i) :: byte) = of_nat (take_bit k i) XOR push_bit k 1"
      by (rule bit_word_eqI) (use True Suc.prems in \<open>auto simp: bit_simps less_Suc_eq\<close>)
    then have "crc_lin n (of_nat (take_bit (Suc k) i))
        = crc_lin n (of_nat (take_bit k i)) XOR crc_lin n (push_bit k 1)"
      by (simp only: crc_lin_xor)
    then show ?thesis
      using Suc True f assms(3) [of k] by (simp add: c) (simp add: ac_simps)
  next
    case False
    have c: "{j. j < Suc k \<and> bit i j} = {j. j < k \<and> bit i j}"
      using False by (auto simp: less_Suc_eq)
    have "take_bit (Suc k) i = take_bit k i"
      by (rule bit_eqI) (use False in \<open>auto simp: bit_simps less_Suc_eq\<close>)
    then show ?thesis using Suc False by (simp add: c)
  qed
qed

text \<open>The masked table holds \<open>crc(i..) ^ crcWindowMask\<close> at index \<open>i\<close>.\<close>

definition window_mask :: "nat \<Rightarrow> u32" where
  "window_mask n = ChecksumIEEE ((replicate (n + 1) 0)[0 := 0xff, 4 := 0xff])"

lemma newCRC32Window_table:
  assumes "newCRC32Window n = Inr w"
  shows "4 \<le> n" and "cw_windowSize w = n"
    and "cw_crcOldLeaderMaskedTable w ! unat b = crc_pad n b XOR window_mask n"
proof -
  show n: "4 \<le> n" and "cw_windowSize w = n"
    using assms by (auto simp: newCRC32Window_def Let_def split: if_splits)
  define base where "base = map (\<lambda>i. ChecksumIEEE ((((replicate (n + 1) 0)[0 := 0xff, 4 := 0xff])[4 := 0])[0 := push_bit i 1])) [0..<8]"
  have a: "(((replicate (n + 1) 0)[0 := 0xff, 4 := 0xff])[4 := 0])[0 := x] = x # replicate n (0 :: byte)" for x
    using n by (intro nth_equalityI) (auto simp: nth_list_update nth_Cons split: nat.splits)
  have base: "base ! j = crc_pad n 0 XOR crc_lin n (push_bit j 1)" if "j < 8" for j
  proof -
    from that have "base ! j = ChecksumIEEE (push_bit j 1 # replicate n 0)"
      unfolding base_def by (subst nth_map) (simp_all only: a length_upt nth_upt, simp_all)
    then show ?thesis by (simp only: crc_pad_lin [of n "push_bit j 1"] flip: crc_pad_def)
  qed
  have lb: "length base = 8" by (simp add: base_def)
  have ub: "unat b < 256"
  proof -
    have "unat b < 2 ^ LENGTH(8)" by (rule unsigned_less)
    then show ?thesis by simp
  qed
  have crc0: "ChecksumIEEE (replicate (Suc n) 0) = crc_pad n 0"
    by (simp add: crc_pad_def)
  define entry where "entry = (\<lambda>i. let (crc, crcCount) = base_sum base i
    in (if crcCount mod 2 = 0 then crc XOR ChecksumIEEE (replicate (n + 1) 0) else crc) XOR window_mask n)"
  have "newCRC32Window n = Inr \<lparr> cw_windowSize = n, cw_crcOldLeaderMaskedTable =
      (ChecksumIEEE (replicate (n + 1) 0) XOR window_mask n) # map entry [1..<256] \<rparr>"
    unfolding newCRC32Window_def Let_def entry_def base_def window_mask_def
    by (rule if_not_P) (use n in simp)
  then have w: "cw_crcOldLeaderMaskedTable w = (crc_pad n 0 XOR window_mask n) # map entry [1..<256]"
    using assms crc0 by (simp del: replicate_Suc)
  have "base_sum base (unat b) = ((if odd (card {j. j < 8 \<and> bit (unat b) j}) then crc_pad n 0 else 0)
      XOR crc_lin n (of_nat (take_bit 8 (unat b))), card {j. j < 8 \<and> bit (unat b) j})"
    unfolding base_sum_def by (rule base_sum_prefix [OF order_refl lb base])
  moreover have "of_nat (take_bit 8 (unat b)) = b"
    using ub by (simp add: take_bit_nat_eq_self)
  ultimately have "entry (unat b) = crc_pad n 0 XOR crc_lin n b XOR window_mask n"
    by (simp add: entry_def Let_def even_iff_mod_2_eq_zero crc0 ac_simps del: replicate_Suc)
  then have e: "entry (unat b) = crc_pad n b XOR window_mask n"
    by (simp only: crc_pad_lin [of n b] ac_simps)
  show "cw_crcOldLeaderMaskedTable w ! unat b = crc_pad n b XOR window_mask n"
  proof (cases "unat b = 0")
    case True
    then have "b = 0" by (simp add: unsigned_eq_0_iff)
    then show ?thesis by (simp add: w)
  next
    case False
    then show ?thesis using ub e by (simp add: w nth_Cons')
  qed
qed

section \<open>The rolling update\<close>

lemma crc32Window_update_shift:
  assumes "newCRC32Window n = Inr w" and "length a = n + 1"
  shows "crc32Window_update w (ChecksumIEEE (take n a)) (a ! 0) (a ! n) = ChecksumIEEE (drop 1 a)"
proof -
  note n = newCRC32Window_table(1) [OF assms(1)] and tab = newCRC32Window_table(3) [OF assms(1)]
  let ?F = "NOT 0 :: u32"
  obtain x as where a: "a = x # as" and las: "length as = n" using assms(2) by (cases a) auto
  obtain k where k: "n = 4 + k" using n le_Suc_ex by blast
  define m where "m = 0xff # 0 # 0 # 0 # 0xff # replicate k (0 :: byte)"
  have mask: "window_mask n = ChecksumIEEE m"
    by (simp add: window_mask_def m_def k numeral_eq_Suc)
  have "a = take n a @ [a ! n]"
    using assms(2) by (metis append_self_conv lessI take_Suc_conv_app_nth take_all_iff order_refl Suc_eq_plus1)
  then have ext: "crc_step (a ! n) (crc_raw (take n a) ?F) = crc_raw a ?F"
    by (metis crc_raw_simps(1,2,3))
  have "crc32Window_update w (NOT t) l v = NOT (crc_step v t) XOR (crc_pad n l XOR window_mask n)" for t l v
    by (simp add: crc32Window_update_def crc_step_def Let_def tab)
  then have "crc32Window_update w (ChecksumIEEE (take n a)) x (a ! n)
      = NOT (crc_raw a ?F) XOR (crc_pad n x XOR window_mask n)"
    by (simp only: ChecksumIEEE_def ext)
  also have "NOT (crc_raw a ?F) XOR (crc_pad n x XOR window_mask n)
      = NOT ((crc_raw a ?F XOR crc_raw (x # replicate n 0) ?F) XOR crc_raw m ?F)"
    unfolding crc_pad_def mask ChecksumIEEE_def by (rule bit_word_eqI) (auto simp: bit_simps)
  also have "crc_raw a ?F XOR crc_raw (x # replicate n 0) ?F
      = crc_raw (map2 (XOR) a (x # replicate n 0)) 0"
    using crc_raw_xor [of a "x # replicate n 0" ?F ?F] assms(2) by simp
  also have "map2 (XOR) a (x # replicate n 0) = 0 # as"
    using map2_xor_zeros [of as] by (simp add: a las)
  also have "crc_raw (0 # as) 0 XOR crc_raw m ?F = crc_raw (map2 (XOR) (0 # as) m) ?F"
    using crc_raw_xor [of "0 # as" m 0 ?F] las by (simp add: m_def k)
  also have "\<dots> = crc_raw as ?F"
  proof -
    obtain p q r s bs where as: "as = p # q # r # s # bs" and lbs: "length bs = k"
      using las k by (auto simp: length_Suc_conv numeral_eq_Suc)
    have "map2 (XOR) (0 # as) m = 0xff # p # q # r # (s XOR 0xff) # bs"
      using map2_xor_zeros [of bs] by (simp add: as m_def lbs)
    moreover have "crc_step 0xff ?F = 0xffffff"
    proof -
      have "ucast ?F XOR 0xff = (0 :: byte)" "drop_bit 8 ?F = 0xffffff" by code_simp+
      then show ?thesis by (simp only: crc_step_entry crc_entry_0) simp
    qed
    ultimately have "crc_raw (map2 (XOR) (0 # as) m) ?F = crc_raw (p # q # r # (s XOR 0xff) # bs) 0xffffff"
      by simp
    also have "(0xffffff :: u32) = ?F XOR 0xff000000" by code_simp
    also have "crc_raw (p # q # r # (s XOR 0xff) # bs) (?F XOR 0xff000000)
        = crc_raw (map2 (XOR) as (0 # 0 # 0 # 0xff # replicate k 0)) (?F XOR 0xff000000)"
      using map2_xor_zeros [of bs] by (simp add: as lbs)
    also have "\<dots> = crc_raw as ?F"
    proof -
      have "length as = length (0 # 0 # 0 # 0xff # replicate k (0 :: byte))" using las by (simp add: k)
      from crc_raw_xor [OF this, of ?F "0xff000000"] crc_flush show ?thesis by simp
    qed
    finally show ?thesis .
  qed
  finally show ?thesis by (simp add: ChecksumIEEE_def a)
qed

text \<open>
  C17: The rolling CRC is the CRC of the shifted window.  For every window size \<open>n\<close> that
  \<open>newCRC32Window\<close> accepts and every sequence \<open>a\<close> of \<open>n + 1\<close> bytes, \<open>update\<close> applied to the checksum of
  \<open>a[0:n]\<close> with \<open>a[0]\<close> and \<open>a[n]\<close> is the checksum of \<open>a[1:n+1]\<close>.
\<close>

theorem crc32Window_update_correct:
  assumes "newCRC32Window n = Inr w" and "length a = n + 1"
  shows "crc32Window_update w (ChecksumIEEE (take n a)) (a ! 0) (a ! n) = ChecksumIEEE (drop 1 a)"
  using assms by (rule crc32Window_update_shift)

theorem crc32Window_update_correct_witness:
  "\<exists>w. newCRC32Window 4 = Inr w \<and>
    crc32Window_update w (ChecksumIEEE [1, 2, 3, 4]) 1 5 = ChecksumIEEE [2, 3, 4, 5]"
proof -
  obtain w where w: "newCRC32Window 4 = Inr w"
    by (simp add: newCRC32Window_def Let_def)
  then show ?thesis
    using crc32Window_update_correct [OF w, of "[1, 2, 3, 4, 5]"] by simp
qed

text \<open>The cache returns the window of the size asked for, and keeps holding only such windows.\<close>

definition windows_ok :: "(nat \<rightharpoonup> crc32Window) \<Rightarrow> bool" where
  "windows_ok windows \<longleftrightarrow> (\<forall>n w. windows n = Some w \<longrightarrow> newCRC32Window n = Inr w)"

lemma crc32WindowFor_ok:
  assumes "windows_ok windows" and "crc32WindowFor n windows = Inr (w, windows')"
  shows "newCRC32Window n = Inr w" and "windows_ok windows'"
  using assms by (auto simp: crc32WindowFor_def windows_ok_def bindR_Inr_iff split: option.splits if_splits)

end
