(* ===== verification/ByteArray.thy ===== *)
theory ByteArray
  imports Prelude "HOL-Library.Numeral_Type"
begin

text \<open>
  Go's fixed-size byte arrays.  \<open>'n arr\<close> is the type of arrays of \<open>LENGTH('n)\<close> bytes, so
  \<open>16 arr\<close> is Go's \<open>[16]byte\<close>: the length is part of the type, arrays are values, and
  two arrays are equal when their bytes are.  \<open>bytes_of a\<close> is \<open>a[:]\<close> and
  \<open>arr_of bs\<close> is the array that \<open>copy(a[:], bs)\<close> leaves in a zeroed array.
\<close>

typedef (overloaded) 'n arr = "{bs :: byte list. length bs = LENGTH('n::len)}"
  morphisms bytes_of Abs_arr
  by (rule exI [of _ "replicate LENGTH('n) 0"]) simp

setup_lifting type_definition_arr

lemma length_bytes_of [simp]: "length (bytes_of (a :: 'n::len arr)) = LENGTH('n)"
  using bytes_of [of a] by simp

definition arr_of :: "byte list \<Rightarrow> 'n::len arr" where
  "arr_of bs = Abs_arr (take LENGTH('n) bs @ replicate (LENGTH('n) - length bs) 0)"

lemma bytes_of_arr_of [code abstract]:
  "bytes_of (arr_of bs :: 'n::len arr) = take LENGTH('n) bs @ replicate (LENGTH('n) - length bs) 0"
  by (simp add: arr_of_def Abs_arr_inverse)

lemma bytes_of_arr_of_id [simp]:
  "length bs = LENGTH('n) \<Longrightarrow> bytes_of (arr_of bs :: 'n::len arr) = bs"
  by (simp add: bytes_of_arr_of)

lemma arr_of_bytes_of [simp]: "arr_of (bytes_of a) = a"
  by (rule bytes_of_inject [THEN iffD1]) simp

lemma arr_eq_iff: "a = b \<longleftrightarrow> bytes_of a = bytes_of b"
  by (simp add: bytes_of_inject)

definition zero_arr :: "'n::len arr" where
  "zero_arr = arr_of []"

lemma bytes_of_zero_arr [code abstract]: "bytes_of (zero_arr :: 'n::len arr) = replicate LENGTH('n) 0"
  by (simp add: zero_arr_def bytes_of_arr_of)

instantiation arr :: (len) equal
begin

definition equal_arr :: "'a arr \<Rightarrow> 'a arr \<Rightarrow> bool" where
  "equal_arr a b \<longleftrightarrow> bytes_of a = bytes_of b"

instance by standard (simp add: equal_arr_def arr_eq_iff)

end

text \<open>
  The order of arrays read as little-endian integers: the last byte is the most significant.
\<close>

fun bytes_less :: "byte list \<Rightarrow> byte list \<Rightarrow> bool" where
  "bytes_less (x # xs) (y # ys) \<longleftrightarrow> x < y \<or> x = y \<and> bytes_less xs ys"
| "bytes_less _ _ \<longleftrightarrow> False"

lemma bytes_less_irrefl [simp]: "\<not> bytes_less xs xs"
  by (induction xs) auto

lemma bytes_less_trans: "bytes_less xs ys \<Longrightarrow> bytes_less ys zs \<Longrightarrow> bytes_less xs zs"
proof (induction xs ys arbitrary: zs rule: bytes_less.induct)
  case (1 x xs y ys)
  then show ?case by (cases zs) (auto dest: less_trans)
qed auto

lemma bytes_less_linear:
  "length xs = length ys \<Longrightarrow> bytes_less xs ys \<or> xs = ys \<or> bytes_less ys xs"
  by (induction xs ys rule: list_induct2) (auto simp: not_less)

instantiation arr :: (len) linorder
begin

definition less_arr :: "'a arr \<Rightarrow> 'a arr \<Rightarrow> bool" where
  "less_arr a b \<longleftrightarrow> bytes_less (rev (bytes_of a)) (rev (bytes_of b))"

definition less_eq_arr :: "'a arr \<Rightarrow> 'a arr \<Rightarrow> bool" where
  "less_eq_arr a b \<longleftrightarrow> a = b \<or> a < b"

instance
proof
  fix x y z :: "'a arr"
  show "x < y \<longleftrightarrow> x \<le> y \<and> \<not> y \<le> x"
    unfolding less_eq_arr_def less_arr_def by (metis bytes_less_irrefl bytes_less_trans)
  show "x \<le> x"
    by (simp add: less_eq_arr_def)
  show "x \<le> y \<Longrightarrow> y \<le> z \<Longrightarrow> x \<le> z"
    unfolding less_eq_arr_def less_arr_def by (metis bytes_less_trans)
  show "x \<le> y \<Longrightarrow> y \<le> x \<Longrightarrow> x = y"
    unfolding less_eq_arr_def less_arr_def by (metis bytes_less_irrefl bytes_less_trans)
  show "x \<le> y \<or> y \<le> x"
    unfolding less_eq_arr_def less_arr_def arr_eq_iff
    using bytes_less_linear [of "rev (bytes_of x)" "rev (bytes_of y)"] by auto
qed

end

section \<open>Strings\<close>

text \<open>A Go string is a sequence of bytes; \<open>str\<close> gives the bytes of an ASCII literal.\<close>

type_synonym gostring = "byte list"

definition str :: "string \<Rightarrow> gostring" where
  "str s = map (\<lambda>c. of_nat (of_char c)) s"

lemma length_str [simp]: "length (str s) = length s"
  by (simp add: str_def)

end
