(* ===== verification/Md5.thy ===== *)
theory Md5
  imports ByteArray
begin

text \<open>
  \<open>crypto/md5\<close> of Go's standard library: the MD5 digest of RFC 1321.  Every packet hash, file
  identifier and slice checksum of a PAR2 set is such a digest.  The properties of the packet
  layer use only that \<open>md5\<close> is a function into \<open>16 arr\<close>; it is defined in full so that the
  model computes the digests of concrete inputs (the two test vectors of the RFC below).
\<close>

definition md5_k :: "u32 list" where
  "md5_k = [
   0xd76aa478, 0xe8c7b756, 0x242070db, 0xc1bdceee,
   0xf57c0faf, 0x4787c62a, 0xa8304613, 0xfd469501,
   0x698098d8, 0x8b44f7af, 0xffff5bb1, 0x895cd7be,
   0x6b901122, 0xfd987193, 0xa679438e, 0x49b40821,
   0xf61e2562, 0xc040b340, 0x265e5a51, 0xe9b6c7aa,
   0xd62f105d, 0x02441453, 0xd8a1e681, 0xe7d3fbc8,
   0x21e1cde6, 0xc33707d6, 0xf4d50d87, 0x455a14ed,
   0xa9e3e905, 0xfcefa3f8, 0x676f02d9, 0x8d2a4c8a,
   0xfffa3942, 0x8771f681, 0x6d9d6122, 0xfde5380c,
   0xa4beea44, 0x4bdecfa9, 0xf6bb4b60, 0xbebfbc70,
   0x289b7ec6, 0xeaa127fa, 0xd4ef3085, 0x04881d05,
   0xd9d4d039, 0xe6db99e5, 0x1fa27cf8, 0xc4ac5665,
   0xf4292244, 0x432aff97, 0xab9423a7, 0xfc93a039,
   0x655b59c3, 0x8f0ccc92, 0xffeff47d, 0x85845dd1,
   0x6fa87e4f, 0xfe2ce6e0, 0xa3014314, 0x4e0811a1,
   0xf7537e82, 0xbd3af235, 0x2ad7d2bb, 0xeb86d391]"

definition md5_s :: "nat list" where
  "md5_s = concat (replicate 4 [7, 12, 17, 22]) @ concat (replicate 4 [5, 9, 14, 20]) @
     concat (replicate 4 [4, 11, 16, 23]) @ concat (replicate 4 [6, 10, 15, 21])"

definition rotl32 :: "nat \<Rightarrow> u32 \<Rightarrow> u32" where
  "rotl32 n w = push_bit n w OR drop_bit (32 - n) w"

type_synonym md5_state = "u32 \<times> u32 \<times> u32 \<times> u32"

definition md5_round :: "u32 list \<Rightarrow> nat \<Rightarrow> md5_state \<Rightarrow> md5_state" where
  "md5_round m i st = (let (a, b, c, d) = st;
     (f, g) = (if i < 16 then ((b AND c) OR (NOT b AND d), i)
       else if i < 32 then ((d AND b) OR (NOT d AND c), (5 * i + 1) mod 16)
       else if i < 48 then (b XOR c XOR d, (3 * i + 5) mod 16)
       else (c XOR (b OR NOT d), (7 * i) mod 16))
     in (d, b + rotl32 (md5_s ! i) (a + f + md5_k ! i + m ! g), b, c))"

fun md5_words :: "byte list \<Rightarrow> u32 list" where
  "md5_words (w # x # y # z # bs) = le_word [w, x, y, z] # md5_words bs"
| "md5_words _ = []"

definition md5_block :: "byte list \<Rightarrow> md5_state \<Rightarrow> md5_state" where
  "md5_block bs st = (let (a, b, c, d) = st;
     (a', b', c', d') = fold (md5_round (md5_words bs)) [0..<64] st
     in (a + a', b + b', c + c', d + d'))"

fun md5_blocks :: "nat \<Rightarrow> byte list \<Rightarrow> md5_state \<Rightarrow> md5_state" where
  "md5_blocks 0 bs st = st"
| "md5_blocks (Suc n) bs st = md5_blocks n (drop 64 bs) (md5_block (take 64 bs) st)"

definition md5_pad :: "byte list \<Rightarrow> byte list" where
  "md5_pad bs = bs @ [0x80] @ replicate ((119 - length bs mod 64) mod 64) 0 @
     le_bytes 8 (of_nat (8 * length bs) :: u64)"

definition md5 :: "byte list \<Rightarrow> 16 arr" where
  "md5 bs = (let p = md5_pad bs;
     (a, b, c, d) = md5_blocks (length p div 64) p (0x67452301, 0xefcdab89, 0x98badcfe, 0x10325476)
     in arr_of (le_bytes 4 a @ le_bytes 4 b @ le_bytes 4 c @ le_bytes 4 d))"

text \<open>The padded message is a whole number of blocks.\<close>

lemma md5_pad_blocks: "64 dvd length (md5_pad bs)"
proof -
  define q r where "q = length bs div 64" and "r = length bs mod 64"
  have len: "length bs = 64 * q + r" and r: "r < 64"
    by (simp_all add: q_def r_def)
  have "(119 - r) mod 64 = (if r \<le> 55 then 55 - r else 119 - r)"
  proof (cases "r \<le> 55")
    case True
    then have "(119 - r) mod 64 = (64 + (55 - r)) mod 64" by simp
    also have "\<dots> = 55 - r" by (subst mod_add_self1) simp
    finally show ?thesis using True by simp
  qed (use r in simp)
  then have "length (md5_pad bs) = (if r \<le> 55 then 64 * (q + 1) else 64 * (q + 2))"
    using r by (simp add: md5_pad_def len)
  then show ?thesis by simp
qed

lemma md5_empty:
  "bytes_of (md5 []) = [0xd4, 0x1d, 0x8c, 0xd9, 0x8f, 0x00, 0xb2, 0x04,
     0xe9, 0x80, 0x09, 0x98, 0xec, 0xf8, 0x42, 0x7e]"
  by code_simp

lemma md5_abc:
  "bytes_of (md5 (str ''abc'')) = [0x90, 0x01, 0x50, 0x98, 0x3c, 0xd2, 0x4f, 0xb0,
     0xd6, 0x96, 0x3f, 0x7d, 0x28, 0xe1, 0x7f, 0x72]"
  by code_simp

end
