(* ===== verification/Packets.thy ===== *)
theory Packets
  imports Md5
begin

text \<open>
  Packet framing (\<open>par2/packet.go\<close>): the 64-byte packet header, its validation, and the functions
  that write one packet to a buffer and read one packet back, checking the MD5 of set identifier,
  type and body.  A \<open>bytes.Buffer\<close> is the list of its unread bytes: reading returns the bytes left
  over, writing appends.  When a reader returns an error the buffer is not used again, so the
  model returns only the error then.
\<close>

section \<open>bytes.Buffer\<close>

text \<open>
  \<open>buf.Next(n)\<close> returns at most \<open>n\<close> bytes; the slice expression it evaluates panics for a
  negative \<open>n\<close>.
\<close>

definition buf_Next :: "byte list \<Rightarrow> int \<Rightarrow> (byte list \<times> byte list) res" where
  "buf_Next buf n = (if n < 0 then Inl slice_panic else Inr (take (nat n) buf, drop (nat n) buf))"

lemma buf_Next_simps [simp]:
  "n < 0 \<Longrightarrow> buf_Next buf n = Inl slice_panic"
  "buf_Next buf (int k) = Inr (take k buf, drop k buf)"
  "buf_Next buf (numeral m) = Inr (take (numeral m) buf, drop (numeral m) buf)"
  by (simp_all add: buf_Next_def)

text \<open>
  \<open>binary.Read\<close> of a value of \<open>n\<close> bytes (\<open>io.ReadFull\<close> underneath): end of input before the first
  byte and in the middle are different errors; a value of no bytes is read from any buffer.
\<close>

definition read_full :: "nat \<Rightarrow> byte list \<Rightarrow> (byte list \<times> byte list) res" where
  "read_full n buf = (if n \<le> length buf then Inr (take n buf, drop n buf)
     else if buf = [] then Inl IoEOF else Inl IoErrUnexpectedEOF)"

lemma read_full_append [simp]: "length p = n \<Longrightarrow> read_full n (p @ rest) = Inr (p, rest)"
  by (simp add: read_full_def)

lemma read_full_Inr_iff:
  "read_full n buf = Inr (p, rest) \<longleftrightarrow> buf = p @ rest \<and> length p = n"
  by (auto simp: read_full_def)

section \<open>The packet header\<close>

record packetHeader =
  Magic :: "8 arr"
  Length :: u64
  Hash :: "16 arr"
  RecoverySetID :: "16 arr"
  Type :: "16 arr"

type_synonym recoverySetID = "16 arr"
type_synonym packetType = "16 arr"

definition expectedMagic :: "8 arr" where
  "expectedMagic = arr_of (str ''PAR2'' @ [0] @ str ''PKT'')"

definition sizeOfPacketHeader :: u64 where
  "sizeOfPacketHeader = 64"

definition checkPacketHeader :: "packetHeader \<Rightarrow> unit res" where
  "checkPacketHeader h =
     (if Magic h \<noteq> expectedMagic then Inl (ErrorNew ''unexpected magic string'')
      else if Length h < sizeOfPacketHeader \<or> Length h mod 4 \<noteq> 0 then Inl (ErrorNew ''invalid length'')
      else Inr ())"

abbreviation header_ok :: "packetHeader \<Rightarrow> bool" where
  "header_ok h \<equiv> checkPacketHeader h = Inr ()"

lemma header_ok_iff:
  "header_ok h \<longleftrightarrow> Magic h = expectedMagic \<and> 64 \<le> Length h \<and> Length h mod 4 = 0"
  by (auto simp: checkPacketHeader_def sizeOfPacketHeader_def not_less)

lemma checkPacketHeader_not_panic [simp]: "\<not> is_panic (checkPacketHeader h)"
  by (simp add: checkPacketHeader_def)

text \<open>The header's fields out of its 64 bytes, and the bytes \<open>binary.Write\<close> writes for it.\<close>

definition header_of_bytes :: "byte list \<Rightarrow> packetHeader" where
  "header_of_bytes d = \<lparr> Magic = arr_of (slice d 0 8), Length = le_word (slice d 8 16),
     Hash = arr_of (slice d 16 32), RecoverySetID = arr_of (slice d 32 48),
     Type = arr_of (slice d 48 64) \<rparr>"

definition header_bytes :: "packetHeader \<Rightarrow> byte list" where
  "header_bytes h = bytes_of (Magic h) @ le_bytes 8 (Length h) @ bytes_of (Hash h) @
     bytes_of (RecoverySetID h) @ bytes_of (Type h)"

lemma length_header_bytes [simp]: "length (header_bytes h) = 64"
  by (simp add: header_bytes_def)

lemma header_of_header_bytes [simp]: "header_of_bytes (header_bytes h) = h"
  by (simp add: header_of_bytes_def header_bytes_def slice_def)

lemma slice_chain:
  "take 8 d @ take 8 (drop 8 d) @ take 16 (drop 16 d) @ take 16 (drop 32 d) @ drop 48 d = d"
proof -
  have "take n (drop m d) @ drop (m + n) d = drop m d" for n m
    by (metis append_take_drop_id drop_drop add.commute)
  from this [of 16 32] this [of 16 16] this [of 8 8]
  have "take 16 (drop 32 d) @ drop 48 d = drop 32 d" "take 16 (drop 16 d) @ drop 32 d = drop 16 d"
    "take 8 (drop 8 d) @ drop 16 d = drop 8 d" by simp_all
  then show ?thesis by simp
qed

lemma header_bytes_of_bytes:
  assumes "length d = 64"
  shows "header_bytes (header_of_bytes d) = d"
proof -
  have "le_bytes 8 (le_word (slice d 8 16) :: u64) = slice d 8 16"
    using le_bytes_le_word [of "slice d 8 16", where 'a = 64] assms by simp
  then have "header_bytes (header_of_bytes d)
      = slice d 0 8 @ slice d 8 16 @ slice d 16 32 @ slice d 32 48 @ slice d 48 64"
    using assms by (simp add: header_bytes_def header_of_bytes_def)
  also have "\<dots> = d"
    by (simp add: slice_def slice_chain assms)
  finally show ?thesis .
qed

definition readPacketHeader :: "byte list \<Rightarrow> (packetHeader \<times> byte list) res" where
  "readPacketHeader buf = bindR (buf_Next buf 64) (\<lambda>(data, rest).
     if length data = 0 then Inl IoEOF
     else if length data \<noteq> 64 then Inl IoErrUnexpectedEOF
     else let h = header_of_bytes data
       in bindR (checkPacketHeader h) (\<lambda>_. Inr (h, rest)))"

definition writePacketHeader :: "byte list \<Rightarrow> packetHeader \<Rightarrow> byte list res" where
  "writePacketHeader buf h = bindR (checkPacketHeader h) (\<lambda>_. Inr (buf @ header_bytes h))"

lemma readPacketHeader_short:
  assumes "length buf < 64"
  shows "readPacketHeader buf = Inl (if buf = [] then IoEOF else IoErrUnexpectedEOF)"
  using assms by (simp add: readPacketHeader_def)

lemma readPacketHeader_long:
  assumes "64 \<le> length buf"
  shows "readPacketHeader buf = bindR (checkPacketHeader (header_of_bytes (take 64 buf)))
    (\<lambda>_. Inr (header_of_bytes (take 64 buf), drop 64 buf))"
  using assms by (auto simp: readPacketHeader_def Let_def min_def)

lemma readPacketHeader_append [simp]:
  "readPacketHeader (header_bytes h @ rest) = bindR (checkPacketHeader h) (\<lambda>_. Inr (h, rest))"
  by (simp add: readPacketHeader_long)

lemma readPacketHeader_Inr_iff:
  "readPacketHeader buf = Inr (h, rest) \<longleftrightarrow>
     buf = header_bytes h @ rest \<and> header_ok h"
  (is "?l \<longleftrightarrow> ?r")
proof
  assume l: ?l
  then have long: "64 \<le> length buf"
    by (rule contrapos_pp) (simp add: readPacketHeader_short)
  with l have "h = header_of_bytes (take 64 buf)" "rest = drop 64 buf"
    and "header_ok h"
    by (auto simp: readPacketHeader_long bindR_Inr_iff)
  moreover from long have "header_bytes (header_of_bytes (take 64 buf)) = take 64 buf"
    by (intro header_bytes_of_bytes) simp
  ultimately show ?r by simp
next
  assume ?r
  then show ?l by (auto simp: bindR_Inr_iff)
qed

section \<open>One packet\<close>

definition computePacketHash :: "recoverySetID \<Rightarrow> packetType \<Rightarrow> byte list \<Rightarrow> 16 arr" where
  "computePacketHash setID packetType body = md5 (bytes_of setID @ bytes_of packetType @ body)"

text \<open>The conversion \<open>int(x)\<close> of a \<open>uint64\<close> is \<open>sint x\<close>: it is negative from \<open>2^63\<close> on.\<close>

definition readNextPacketBorrowed ::
    "byte list \<Rightarrow> ((recoverySetID \<times> packetType \<times> byte list) \<times> byte list) res" where
  "readNextPacketBorrowed buf = bindR (readPacketHeader buf) (\<lambda>(h, buf1).
     let bodyLength = sint (Length h - sizeOfPacketHeader)
     in bindR (buf_Next buf1 bodyLength) (\<lambda>(body, buf2).
       if int (length body) \<noteq> bodyLength then Inl (ErrorNew ''could not read body'')
       else if computePacketHash (RecoverySetID h) (Type h) body \<noteq> Hash h
         then Inl (ErrorNew ''hash mismatch'')
       else Inr ((RecoverySetID h, Type h, body), buf2)))"

definition readNextPacket ::
    "byte list \<Rightarrow> ((recoverySetID \<times> packetType \<times> byte list) \<times> byte list) res" where
  "readNextPacket buf = bindR (readNextPacketBorrowed buf) (\<lambda>((setID, typ, body), buf2).
     Inr ((setID, typ, [] @ body), buf2))"

definition writeNextPacket ::
    "byte list \<Rightarrow> recoverySetID \<Rightarrow> packetType \<Rightarrow> byte list \<Rightarrow> byte list res" where
  "writeNextPacket buf setID packetType body =
     (let h = \<lparr> Magic = expectedMagic, Length = sizeOfPacketHeader + of_nat (length body),
        Hash = computePacketHash setID packetType body, RecoverySetID = setID, Type = packetType \<rparr>
      in bindR (writePacketHeader buf h) (\<lambda>buf1. Inr (buf1 @ body)))"

text \<open>The bytes of one packet.\<close>

definition packet_header :: "recoverySetID \<Rightarrow> packetType \<Rightarrow> byte list \<Rightarrow> packetHeader" where
  "packet_header setID typ body = \<lparr> Magic = expectedMagic, Length = 64 + of_nat (length body),
     Hash = computePacketHash setID typ body, RecoverySetID = setID, Type = typ \<rparr>"

definition packet_bytes :: "recoverySetID \<Rightarrow> packetType \<Rightarrow> byte list \<Rightarrow> byte list" where
  "packet_bytes setID typ body = header_bytes (packet_header setID typ body) @ body"

lemma length_packet_bytes [simp]: "length (packet_bytes setID typ body) = 64 + length body"
  by (simp add: packet_bytes_def)

text \<open>Go's lengths are below \<open>2^63\<close>; a packet's body is whole words of four bytes.\<close>

abbreviation body_ok :: "byte list \<Rightarrow> bool" where
  "body_ok body \<equiv> length body mod 4 = 0 \<and> length body < 2 ^ 63 - 64"

lemma packet_length_word:
  assumes "body_ok body"
  shows "(64::u64) \<le> 64 + of_nat (length body)" and "(64 + of_nat (length body) :: u64) mod 4 = 0"
    and "sint (of_nat (length body) :: u64) = int (length body)"
proof -
  let ?n = "length body"
  have n: "?n < 2 ^ 63 - 64" "?n mod 4 = 0" using assms by auto
  have u: "unat (of_nat ?n :: u64) = ?n" using n by (simp add: unat_of_nat take_bit_nat_eq_self)
  have s: "unat (64 + of_nat ?n :: u64) = 64 + ?n"
    using n u by (subst unat_add_lem [THEN iffD1]) simp_all
  show "(64::u64) \<le> 64 + of_nat ?n" by (simp add: word_le_nat_alt s)
  show "(64 + of_nat ?n :: u64) mod 4 = 0"
    by (rule word_unat_eq_iff [THEN iffD2]) (use n s in \<open>simp add: unat_mod; presburger\<close>)
  show "sint (of_nat ?n :: u64) = int ?n"
    using n by (simp add: signed_of_nat signed_take_bit_int_eq_self)
qed

lemma packet_header_ok: "body_ok body \<Longrightarrow> header_ok (packet_header setID typ body)"
  unfolding header_ok_iff by (simp add: packet_header_def packet_length_word(1,2) del: word_less_eq_iff_unsigned)

lemma writeNextPacket_eq:
  "writeNextPacket buf setID typ body = bindR (checkPacketHeader (packet_header setID typ body))
     (\<lambda>_. Inr (buf @ packet_bytes setID typ body))"
  by (simp add: writeNextPacket_def packet_bytes_def packet_header_def sizeOfPacketHeader_def
      writePacketHeader_def Let_def bindR_assoc)

lemma writeNextPacket_ok:
  "body_ok body \<Longrightarrow> writeNextPacket buf setID typ body = Inr (buf @ packet_bytes setID typ body)"
  by (simp add: writeNextPacket_eq packet_header_ok)

lemma packet_header_simps [simp]:
  "Magic (packet_header setID typ body) = expectedMagic"
  "Length (packet_header setID typ body) = 64 + of_nat (length body)"
  "Hash (packet_header setID typ body) = computePacketHash setID typ body"
  "RecoverySetID (packet_header setID typ body) = setID"
  "Type (packet_header setID typ body) = typ"
  by (simp_all add: packet_header_def)

lemma readNextPacket_ok:
  "body_ok body \<Longrightarrow> readNextPacket (packet_bytes setID typ body @ rest) = Inr ((setID, typ, body), rest)"
  by (simp add: readNextPacket_def readNextPacketBorrowed_def packet_bytes_def Let_def
      sizeOfPacketHeader_def packet_header_ok packet_length_word(3))

section \<open>Properties of the framing\<close>

text \<open>
  Writing a packet whose body is a whole number of 4-byte words appends 64 bytes of header and
  the body to the buffer, and reading those bytes back, whatever follows them, returns exactly the
  set identifier, type and body written and leaves what follows.
\<close>

lemma packet_roundtrip:
  assumes "length body mod 4 = 0" and "length body < 2 ^ 63 - 64"
  shows "\<exists>p. writeNextPacket buf setID typ body = Inr (buf @ p) \<and> length p = 64 + length body \<and>
    (\<forall>rest. readNextPacket (p @ rest) = Inr ((setID, typ, body), rest))"
  by (intro exI [of _ "packet_bytes setID typ body"])
    (simp add: writeNextPacket_ok [OF conjI [OF assms]] readNextPacket_ok [OF conjI [OF assms]])

lemma sint64_neg_iff: "sint (w :: u64) < 0 \<longleftrightarrow> 2 ^ 63 \<le> unat w"
proof -
  have "sint w < 0 \<longleftrightarrow> bit (uint w) 63"
    by (simp add: sint_uint signed_take_bit_negative_iff)
  also have "\<dots> \<longleftrightarrow> 2 ^ 63 \<le> uint w"
  proof -
    have lt: "uint w < 2 * 2 ^ 63" using uint_bounded [of w] by simp
    have "uint w div 2 ^ 63 = (if uint w < 2 ^ 63 then 0 else 1)"
    proof (cases "uint w < 2 ^ 63")
      case False
      then have "uint w div 2 ^ 63 = (2 ^ 63 + (uint w - 2 ^ 63)) div 2 ^ 63" by simp
      also have "\<dots> = 1" using False lt by (subst div_add_self1) simp_all
      finally show ?thesis using False by simp
    qed simp
    then show ?thesis by (simp add: bit_iff_odd)
  qed
  also have "\<dots> \<longleftrightarrow> 2 ^ 63 \<le> unat w"
    using zle_int [of "2 ^ 63" "unat w"] by (simp only: uint_nat of_nat_power of_nat_numeral)
  finally show ?thesis .
qed

lemma readNextPacket_InrD:
  assumes "readNextPacket buf = Inr ((setID, typ, body), rest)"
  shows "buf = packet_bytes setID typ body @ rest" and "header_ok (packet_header setID typ body)"
proof -
  from assms obtain h buf1 where h: "readPacketHeader buf = Inr (h, buf1)"
    and n: "0 \<le> sint (Length h - 64)"
    and body: "body = take (nat (sint (Length h - 64))) buf1" "rest = drop (nat (sint (Length h - 64))) buf1"
    and len: "int (length body) = sint (Length h - 64)"
    and hash: "computePacketHash (RecoverySetID h) (Type h) body = Hash h"
    and id: "setID = RecoverySetID h" "typ = Type h"
    by (auto simp: readNextPacket_def readNextPacketBorrowed_def bindR_Inr_iff Let_def buf_Next_def
        sizeOfPacketHeader_def split: if_splits)
  have ok: "header_ok h" and buf: "buf = header_bytes h @ buf1"
    using h by (simp_all add: readPacketHeader_Inr_iff)
  have "Length h - 64 = word_of_int (sint (Length h - 64))" by simp
  also have "\<dots> = of_nat (length body)" by (metis len of_int_of_nat_eq)
  finally have "Length h = 64 + of_nat (length body)" by (simp add: algebra_simps)
  then have "h = packet_header setID typ body"
    using ok hash by (simp add: packet_header_def header_ok_iff id)
  moreover have "buf1 = body @ rest"
    unfolding body by (rule append_take_drop_id [symmetric])
  ultimately show "buf = packet_bytes setID typ body @ rest" "header_ok (packet_header setID typ body)"
    using ok buf by (simp_all only: packet_bytes_def append.assoc)
qed

text \<open>
  C18: The reader accepts nothing the writer does not write.  If reading a packet succeeds, the bytes
  consumed are exactly the bytes \<open>writeNextPacket\<close> produces for the set identifier, type and body
  returned; in particular magic, length field and packet hash are the ones of that body.
\<close>

theorem packet_accepted_is_written:
  assumes "readNextPacket buf = Inr ((setID, typ, body), rest)"
  shows "\<exists>p. writeNextPacket [] setID typ body = Inr p \<and> buf = p @ rest"
  using readNextPacket_InrD [OF assms] by (simp add: writeNextPacket_eq)

theorem packet_accepted_is_written_witness:
  "\<exists>p. writeNextPacket [] zero_arr zero_arr [1, 2, 3, 4] = Inr p \<and>
     packet_bytes zero_arr zero_arr [1, 2, 3, 4] @ [9] = p @ [9]"
  by (rule packet_accepted_is_written) (simp add: readNextPacket_ok)

text \<open>
  C40: When reading a packet panics.  \<open>readNextPacket\<close> panics exactly on buffers that hold a full
  header with the right magic whose length field is a multiple of four and at least
  \<open>2^63 + 64\<close>: the conversion of the body length to \<open>int\<close> is then negative.  On every other
  input it returns a packet or an error.
\<close>

theorem readNextPacket_panics:
  "is_panic (readNextPacket buf) \<longleftrightarrow> 64 \<le> length buf \<and>
     (let h = header_of_bytes (take 64 buf)
      in Magic h = expectedMagic \<and> Length h mod 4 = 0 \<and> 2 ^ 63 + 64 \<le> unat (Length h))"
proof (cases "64 \<le> length buf")
  case False
  then show ?thesis
    by (simp add: readNextPacket_def readNextPacketBorrowed_def readPacketHeader_short)
next
  case True
  define h where "h = header_of_bytes (take 64 buf)"
  show ?thesis
  proof (cases "header_ok h")
    case False
    then obtain m where m: "checkPacketHeader h = Inl (ErrorNew m)"
      by (auto simp: checkPacketHeader_def split: if_splits)
    have "2 ^ 63 + 64 \<le> unat (Length h) \<Longrightarrow> 64 \<le> Length h"
      by (simp add: word_le_nat_alt)
    then have "\<not> (Magic h = expectedMagic \<and> Length h mod 4 = 0 \<and> 2 ^ 63 + 64 \<le> unat (Length h))"
      using False unfolding header_ok_iff by (metis add_leD2)
    then show ?thesis
      using True m
      by (simp add: readNextPacket_def readNextPacketBorrowed_def readPacketHeader_long flip: h_def)
  next
    case ok: True
    then have le: "64 \<le> Length h" by (simp add: header_ok_iff)
    define n where "n = sint (Length h - 64)"
    have "n < 0 \<longleftrightarrow> 2 ^ 63 + 64 \<le> unat (Length h)"
      using le unfolding n_def sint64_neg_iff by (subst unat_sub) (auto simp: word_le_nat_alt)
    moreover have "is_panic (readNextPacket buf) \<longleftrightarrow> n < 0"
      using True ok
      by (auto simp: readNextPacket_def readNextPacketBorrowed_def readPacketHeader_long Let_def
          sizeOfPacketHeader_def buf_Next_def slice_panic_def simp flip: h_def n_def)
    ultimately show ?thesis
      using True ok by (simp add: header_ok_iff Let_def flip: h_def)
  qed
qed

end
