(* ===== verification/Filenames.thy ===== *)
theory Filenames
  imports ByteArray
begin

text \<open>
  Strings in packets (\<open>par2/string.go\<close>) and the check every file name of a PAR2 set passes before
  the repairer may write to it (\<open>checkFilename\<close> in \<open>par2/file_description_packet.go\<close>), with
  \<open>path.IsAbs\<close> and \<open>path.Clean\<close> of Go's standard library.  The theorem shows that an accepted name
  cannot leave the directory it is resolved in.
\<close>

section \<open>Null-terminated ASCII strings\<close>

fun nullTerminate :: "byte list \<Rightarrow> byte list" where
  "nullTerminate [] = []"
| "nullTerminate (b # bs) = (if b = 0 then [] else b # nullTerminate bs)"

definition MaxASCII :: byte where
  "MaxASCII = 0x7f"

text \<open>\<open>replaceBuf[:n]\<close>: the UTF-8 encoding of \<open>unicode.ReplacementChar\<close>.\<close>

definition replacement :: "byte list" where
  "replacement = [0xef, 0xbf, 0xbd]"

definition decodeNullPaddedASCIIString :: "byte list \<Rightarrow> gostring" where
  "decodeNullPaddedASCIIString bs =
     fold (\<lambda>b outBytes. if b \<le> MaxASCII then outBytes @ [b] else outBytes @ replacement)
       (nullTerminate bs) []"

text \<open>
  The loop of \<open>encodeASCIIString\<close> ranges over the runes of the string.  Up to the first byte above
  \<open>0x7f\<close> a rune is one byte; at that byte the rune is above \<open>MaxASCII\<close>, well-formed or not, and the
  function returns.
\<close>

fun encodeASCIIString :: "gostring \<Rightarrow> byte list res" where
  "encodeASCIIString [] = Inr []"
| "encodeASCIIString (c # s) = (if c > MaxASCII then Inl (ErrorNew ''invalid ASCII character'')
     else bindR (encodeASCIIString s) (\<lambda>bs. Inr (c # bs)))"

lemma encodeASCIIString_Inr_iff [simp]:
  "encodeASCIIString s = Inr bs \<longleftrightarrow> bs = s \<and> (\<forall>c \<in> set s. c \<le> MaxASCII)"
  by (induction s arbitrary: bs) (auto simp: bindR_Inr_iff not_less)

lemma nullTerminate_append:
  "0 \<notin> set s \<Longrightarrow> nullTerminate (s @ bs) = s @ nullTerminate bs"
  by (induction s) auto

lemma nullTerminate_replicate [simp]: "nullTerminate (replicate k 0) = []"
  by (cases k) auto

lemma nullTerminate_padded [simp]:
  "0 \<notin> set s \<Longrightarrow> nullTerminate (s @ replicate k 0) = s"
  by (simp add: nullTerminate_append)

lemma zero_notin_nullTerminate [simp]: "0 \<notin> set (nullTerminate bs)"
  by (induction bs) auto

lemma decode_ascii:
  assumes "\<forall>c \<in> set (nullTerminate bs). c \<le> MaxASCII"
  shows "decodeNullPaddedASCIIString bs = nullTerminate bs"
proof -
  have "fold (\<lambda>b out. if b \<le> MaxASCII then out @ [b] else out @ replacement) xs acc = acc @ xs"
    if "\<forall>c \<in> set xs. c \<le> MaxASCII" for xs acc
    using that by (induction xs arbitrary: acc) auto
  from this [OF assms] show ?thesis by (simp add: decodeNullPaddedASCIIString_def)
qed

lemma decode_padded:
  "0 \<notin> set s \<Longrightarrow> \<forall>c \<in> set s. c \<le> MaxASCII \<Longrightarrow> decodeNullPaddedASCIIString (s @ replicate k 0) = s"
  using decode_ascii [of "s @ replicate k 0"] by simp

section \<open>path.IsAbs and path.Clean\<close>

definition slash :: byte where "slash = 0x2f"
definition dot :: byte where "dot = 0x2e"

text \<open>The elements of a path between slashes.\<close>

fun split_path :: "gostring \<Rightarrow> gostring list" where
  "split_path [] = [[]]"
| "split_path (c # s) = (if c = slash then [] # split_path s
     else (case split_path s of [] \<Rightarrow> [[c]] | e # es \<Rightarrow> (c # e) # es))"

fun join_path :: "gostring list \<Rightarrow> gostring" where
  "join_path [] = []"
| "join_path [e] = e"
| "join_path (e # es) = e @ slash # join_path es"

definition path_IsAbs :: "gostring \<Rightarrow> bool" where
  "path_IsAbs p = (p \<noteq> [] \<and> hd p = slash)"

text \<open>
  One element of the path against the output so far, kept in reverse: empty elements and \<open>.\<close> are
  dropped, \<open>..\<close> removes the element before it, is dropped at the root of a rooted path, and is kept
  in front of a relative one, where no later \<open>..\<close> removes it.
\<close>

definition clean_step :: "bool \<Rightarrow> gostring \<Rightarrow> gostring list \<Rightarrow> gostring list" where
  "clean_step rooted e out =
     (if e = [] \<or> e = [dot] then out
      else if e = [dot, dot] then
        (case out of [] \<Rightarrow> if rooted then [] else [[dot, dot]]
         | d # ds \<Rightarrow> if d = [dot, dot] then [dot, dot] # out else ds)
      else e # out)"

definition path_Clean :: "gostring \<Rightarrow> gostring" where
  "path_Clean p =
     (if p = [] then [dot]
      else let rooted = path_IsAbs p;
               out = fold (clean_step rooted) (split_path p) []
        in if rooted then slash # join_path (rev out)
           else if out = [] then [dot] else join_path (rev out))"

definition checkFilename :: "gostring \<Rightarrow> unit res" where
  "checkFilename filename =
     (if path_IsAbs filename then Inl (ErrorNew ''absolute paths not allowed'')
      else bindR (index_at (path_Clean filename) 0) (\<lambda>c.
        if c = dot
          then Inl (ErrorNew ''traversing outside of the current directory is not allowed'')
        else Inr ()))"

text \<open>
  Resolving a relative path from a directory, as the file system does it without symbolic links:
  the directory is the list of its elements, innermost first.
\<close>

definition walk :: "gostring \<Rightarrow> gostring list \<Rightarrow> gostring list" where
  "walk e dir = (if e = [] \<or> e = [dot] then dir else if e = [dot, dot] then tl dir else e # dir)"

definition resolve :: "gostring list \<Rightarrow> gostring \<Rightarrow> gostring list" where
  "resolve dir p = fold walk (split_path p) dir"

lemma split_path_elements: "e \<in> set (split_path p) \<Longrightarrow> slash \<notin> set e"
proof (induction p arbitrary: e)
  case (Cons c p)
  then show ?case by (cases "split_path p") (auto split: if_splits)
qed simp

lemma split_path_nonempty [simp]: "split_path p \<noteq> []"
  by (cases p) (auto split: list.splits)

text \<open>Proper elements: no \<open>.\<close>, no \<open>..\<close>, not empty, no slash.\<close>

definition proper :: "gostring \<Rightarrow> bool" where
  "proper e \<longleftrightarrow> e \<noteq> [] \<and> e \<noteq> [dot] \<and> e \<noteq> [dot, dot] \<and> slash \<notin> set e"

text \<open>
  Either the output never kept a \<open>..\<close>, and then the walk has stayed inside the directory with the
  output as the elements below it, or its outermost element is \<open>..\<close> for good.
\<close>

lemma clean_walk:
  assumes "\<forall>e \<in> set es. slash \<notin> set e" and "\<forall>e \<in> set out. proper e"
  shows "(\<forall>e \<in> set (fold (clean_step False) es out). proper e) \<and>
      (\<forall>dir. fold walk es (out @ dir) = fold (clean_step False) es out @ dir)
    \<or> (fold (clean_step False) es out \<noteq> [] \<and> last (fold (clean_step False) es out) = [dot, dot])"
  using assms
proof (induction es arbitrary: out)
  case (Cons e es)
  have stay: "last (fold (clean_step False) xs out') = [dot, dot] \<and> fold (clean_step False) xs out' \<noteq> []"
    if "last out' = [dot, dot]" "out' \<noteq> []" for xs out'
    using that
  proof (induction xs arbitrary: out')
    case (Cons x xs)
    have "last (clean_step False x out') = [dot, dot] \<and> clean_step False x out' \<noteq> []"
      using Cons.prems by (cases out') (auto simp: clean_step_def)
    then show ?case using Cons.IH by simp
  qed simp
  show ?case
  proof (cases "e = [dot, dot] \<and> out = []")
    case True
    then have "clean_step False e out = [[dot, dot]]" by (simp add: clean_step_def)
    then show ?thesis using stay [of "[[dot, dot]]" es] by simp
  next
    case False
    have p: "\<forall>x \<in> set (clean_step False e out). proper x"
      using Cons.prems False by (cases out) (auto simp: clean_step_def proper_def)
    have w: "walk e (out @ dir) = clean_step False e out @ dir" for dir
      using Cons.prems False by (cases out) (auto simp: clean_step_def walk_def proper_def)
    from Cons.IH [OF _ p] Cons.prems(1) show ?thesis by (simp add: w)
  qed
qed simp

lemma join_path_hd:
  "es \<noteq> [] \<Longrightarrow> hd es \<noteq> [] \<Longrightarrow> join_path es \<noteq> [] \<and> hd (join_path es) = hd (hd es)"
  by (induction es rule: join_path.induct) auto

lemma checkFilename_cases:
  assumes "checkFilename p = Inr ()"
  obtains out where "\<not> path_IsAbs p" "p \<noteq> []" "out = fold (clean_step False) (split_path p) []"
    "out \<noteq> []" "path_Clean p = join_path (rev out)" "hd (path_Clean p) \<noteq> dot"
proof
  have i: "index_at (path_Clean p) 0 = Inr c \<Longrightarrow> c = hd (path_Clean p)" for c
    by (cases "path_Clean p") (auto simp: index_at_def)
  show rel: "\<not> path_IsAbs p" and h: "hd (path_Clean p) \<noteq> dot"
    using assms by (auto simp: checkFilename_def bindR_Inr_iff split: if_splits dest: i)
  show "p \<noteq> []" "fold (clean_step False) (split_path p) [] \<noteq> []"
    using h rel by (auto simp: path_Clean_def Let_def split: if_splits)
  then show "path_Clean p = join_path (rev (fold (clean_step False) (split_path p) []))"
    using rel by (simp add: path_Clean_def Let_def)
qed simp

text \<open>
  C19: An accepted file name cannot leave the directory.  If \<open>checkFilename\<close> accepts a name, then the
  name is relative, and walking it element by element from any directory ends strictly below that
  directory, at the elements of the cleaned name, none of which is empty, \<open>.\<close>, \<open>..\<close> or contains a
  slash.
\<close>

theorem checkFilename_inside:
  assumes "checkFilename p = Inr ()"
  shows "\<not> path_IsAbs p \<and> (\<exists>below. below \<noteq> [] \<and> (\<forall>e \<in> set below. proper e) \<and>
    path_Clean p = join_path (rev below) \<and> (\<forall>dir. resolve dir p = below @ dir))"
proof -
  from assms obtain out where rel: "\<not> path_IsAbs p" "p \<noteq> []"
    and out: "out = fold (clean_step False) (split_path p) []" "out \<noteq> []"
    and clean: "path_Clean p = join_path (rev out)" "hd (path_Clean p) \<noteq> dot"
    by (rule checkFilename_cases)
  have "\<not> last out = [dot, dot]"
  proof
    assume l: "last out = [dot, dot]"
    then have "hd (rev out) = [dot, dot]" using out(2) by (simp add: hd_rev)
    then have "hd (join_path (rev out)) = dot" using join_path_hd [of "rev out"] out(2) by simp
    with clean show False by simp
  qed
  with clean_walk [of "split_path p" "[]"] split_path_elements out
  have "\<forall>e \<in> set out. proper e" "\<forall>dir. fold walk (split_path p) dir = out @ dir" by auto
  with rel out(2) clean(1) show ?thesis by (auto simp: resolve_def)
qed

theorem checkFilename_inside_witness:
  "\<not> path_IsAbs (str ''a/../b/c'') \<and> (\<exists>below. below \<noteq> [] \<and> (\<forall>e \<in> set below. proper e) \<and>
    path_Clean (str ''a/../b/c'') = join_path (rev below) \<and>
    (\<forall>dir. resolve dir (str ''a/../b/c'') = below @ dir))"
  by (rule checkFilename_inside) code_simp

text \<open>A name whose cleaned form starts with a dot is refused, also when it names a hidden file.\<close>

lemma checkFilename_hidden:
  "checkFilename (str ''.bashrc'') = Inl (ErrorNew ''traversing outside of the current directory is not allowed'')"
  by code_simp

end
