(* ===== verification/PacketBodies.thy ===== *)
theory PacketBodies
  imports Packets Filenames
begin

text \<open>
  The bodies of the five packet types (\<open>par2/main_packet.go\<close>, \<open>file_description_packet.go\<close>,
  \<open>ifsc_packet.go\<close>, \<open>recovery_packet.go\<close>, \<open>creator_packet.go\<close>): one writer and one reader each.
  The locale \<open>packet_codec\<close> is the contract the file layer relies on: reading the padded bytes a
  writer produced gives the packet back.
\<close>

section \<open>File identifiers\<close>

type_synonym fileID = "16 arr"

text \<open>The loop of \<open>fileIDLess\<close> from the last byte down; \<open>Suc i\<close> is the turn for index \<open>i\<close>.\<close>

fun fileIDLess_loop :: "nat \<Rightarrow> byte list \<Rightarrow> byte list \<Rightarrow> bool" where
  "fileIDLess_loop 0 id1 id2 = False"
| "fileIDLess_loop (Suc i) id1 id2 =
     (if id1 ! i < id2 ! i then True
      else if id1 ! i > id2 ! i then False
      else fileIDLess_loop i id1 id2)"

definition fileIDLess :: "fileID \<Rightarrow> fileID \<Rightarrow> bool" where
  "fileIDLess id1 id2 = fileIDLess_loop 16 (bytes_of id1) (bytes_of id2)"

lemma fileIDLess_loop_take:
  "n \<le> length xs \<Longrightarrow> n \<le> length ys \<Longrightarrow>
   fileIDLess_loop n xs ys = bytes_less (rev (take n xs)) (rev (take n ys))"
  by (induction n) (auto simp: take_Suc_conv_app_nth)

lemma fileIDLess_less [simp]: "fileIDLess a b \<longleftrightarrow> a < b"
  by (simp add: fileIDLess_def less_arr_def fileIDLess_loop_take)

text \<open>\<open>sort.SliceIsSorted\<close>: no element is less than the one before it.\<close>

fun sliceIsSorted_loop :: "('a \<Rightarrow> 'a \<Rightarrow> bool) \<Rightarrow> 'a list \<Rightarrow> nat \<Rightarrow> bool" where
  "sliceIsSorted_loop lt xs 0 = True"
| "sliceIsSorted_loop lt xs (Suc i) =
     (if lt (xs ! Suc i) (xs ! i) then False else sliceIsSorted_loop lt xs i)"

definition sliceIsSorted :: "('a \<Rightarrow> 'a \<Rightarrow> bool) \<Rightarrow> 'a list \<Rightarrow> bool" where
  "sliceIsSorted lt xs = sliceIsSorted_loop lt xs (length xs - 1)"

lemma sliceIsSorted_sorted [simp]:
  fixes xs :: "'a::linorder list"
  shows "sliceIsSorted (<) xs \<longleftrightarrow> sorted xs"
proof -
  have "sliceIsSorted_loop (<) xs n \<longleftrightarrow> (\<forall>i < n. xs ! i \<le> xs ! Suc i)" for n
    by (induction n) (auto simp: less_Suc_eq)
  then show ?thesis
    by (auto simp: sliceIsSorted_def sorted_iff_nth_Suc less_diff_conv)
qed

section \<open>Main packets\<close>

definition mainPacketType :: packetType where
  "mainPacketType = arr_of (str ''PAR 2.0'' @ [0] @ str ''Main'')"

record mainPacket =
  mp_sliceByteCount :: int
  mp_recoverySet :: "fileID list"
  mp_nonRecoverySet :: "fileID list"

definition checkFileIDSetsSorted :: "fileID list \<Rightarrow> fileID list \<Rightarrow> unit res" where
  "checkFileIDSetsSorted recoverySet nonRecoverySet =
     (if \<not> sliceIsSorted fileIDLess recoverySet then Inl (ErrorNew ''recovery set IDs not sorted'')
      else if \<not> sliceIsSorted fileIDLess nonRecoverySet
        then Inl (ErrorNew ''non-recovery set IDs not sorted'')
      else Inr ())"

lemma checkFileIDSetsSorted_Inr [simp]:
  "checkFileIDSetsSorted rs ns = Inr u \<longleftrightarrow> sorted rs \<and> sorted ns"
proof -
  have "fileIDLess = (<)" by (intro ext) simp
  then show ?thesis by (simp add: checkFileIDSetsSorted_def)
qed

text \<open>\<open>binary.Read\<close> into a slice of \<open>n\<close> identifiers, and the bytes of such a slice.\<close>

fun ids_of_bytes :: "nat \<Rightarrow> byte list \<Rightarrow> fileID list" where
  "ids_of_bytes 0 bs = []"
| "ids_of_bytes (Suc n) bs = arr_of (take 16 bs) # ids_of_bytes n (drop 16 bs)"

definition bytes_of_ids :: "fileID list \<Rightarrow> byte list" where
  "bytes_of_ids ids = concat (map bytes_of ids)"

lemma bytes_of_ids_simps [simp]:
  "bytes_of_ids [] = []"
  "bytes_of_ids (i # ids) = bytes_of i @ bytes_of_ids ids"
  "bytes_of_ids (ids @ ids') = bytes_of_ids ids @ bytes_of_ids ids'"
  by (simp_all add: bytes_of_ids_def)

lemma length_bytes_of_ids [simp]: "length (bytes_of_ids ids) = 16 * length ids"
  by (induction ids) auto

lemma ids_of_bytes_of_ids [simp]: "ids_of_bytes (length ids) (bytes_of_ids ids) = ids"
  by (induction ids) auto

lemma length_ids_of_bytes [simp]: "length (ids_of_bytes n bs) = n"
  by (induction n arbitrary: bs) auto

lemma bytes_of_ids_of_bytes: "length bs = 16 * n \<Longrightarrow> bytes_of_ids (ids_of_bytes n bs) = bs"
  by (induction n arbitrary: bs) auto

definition maxInt :: u64 where
  "maxInt = drop_bit 1 (NOT 0)"

definition readMainPacket :: "byte list \<Rightarrow> mainPacket res" where
  "readMainPacket body = bindR (read_full 12 body) (\<lambda>(h, buf).
     let sliceSize = (le_word (take 8 h) :: u64);
         recoverySetCount = (le_word (drop 8 h) :: u32)
     in if sliceSize = 0 \<or> sliceSize mod 4 \<noteq> 0 \<or> sliceSize > maxInt
          then Inl (ErrorNew ''invalid slice size'')
        else if recoverySetCount = 0 then Inl (ErrorNew ''empty recovery set'')
        else if length buf mod 16 \<noteq> 0 then Inl (ErrorNew ''invalid size'')
        else bindR (read_full (length buf div 16 * 16) buf) (\<lambda>(data, _).
          let fileIDs = ids_of_bytes (length buf div 16) data
          in if length fileIDs < unat recoverySetCount then Inl (ErrorNew ''not enough file IDs'')
             else let recoverySet = take (unat recoverySetCount) fileIDs;
                      nonRecoverySet = drop (unat recoverySetCount) fileIDs
               in bindR (checkFileIDSetsSorted recoverySet nonRecoverySet) (\<lambda>_.
                 Inr \<lparr> mp_sliceByteCount = sint sliceSize, mp_recoverySet = recoverySet,
                       mp_nonRecoverySet = nonRecoverySet \<rparr>)))"

definition writeMainPacket :: "mainPacket \<Rightarrow> byte list res" where
  "writeMainPacket packet =
     (if mp_sliceByteCount packet = 0 \<or> mp_sliceByteCount packet mod 4 \<noteq> 0
        then Inl (ErrorNew ''invalid slice byte count'')
      else if length (mp_recoverySet packet) = 0 then Inl (ErrorNew ''empty recovery set'')
      else if length (mp_recoverySet packet) > 2 ^ 32 - 1
        then Inl (ErrorNew ''recovery set too big'')
      else bindR (checkFileIDSetsSorted (mp_recoverySet packet) (mp_nonRecoverySet packet)) (\<lambda>_.
        Inr (le_bytes 8 (word_of_int (mp_sliceByteCount packet) :: u64) @
             le_bytes 4 (of_nat (length (mp_recoverySet packet)) :: u32) @
             bytes_of_ids (mp_recoverySet packet) @ bytes_of_ids (mp_nonRecoverySet packet))))"

text \<open>
  A slice byte count the reader accepts; the writer also takes negative ones
  (\<open>writeMainPacket_negative\<close> below).
\<close>

definition main_ok :: "mainPacket \<Rightarrow> bool" where
  "main_ok p \<longleftrightarrow> 0 < mp_sliceByteCount p \<and> mp_sliceByteCount p < 2 ^ 63"

lemma u64_of_pos:
  assumes "0 < n" and "n < 2 ^ 63"
  shows "(word_of_int n :: u64) \<noteq> 0" and "\<not> (word_of_int n :: u64) > maxInt"
    and "sint (word_of_int n :: u64) = n"
proof -
  have u: "uint (word_of_int n :: u64) = n"
    using assms by (simp add: uint_word_of_int take_bit_int_eq_self)
  have m: "uint maxInt = 2 ^ 63 - 1" by (simp add: maxInt_def) code_simp
  show "(word_of_int n :: u64) \<noteq> 0" using u assms(1) by (metis less_irrefl unsigned_0)
  show "\<not> (word_of_int n :: u64) > maxInt" using u m assms(2) by (simp add: word_less_def)
  show "sint (word_of_int n :: u64) = n"
    using assms by (simp add: signed_of_int signed_take_bit_int_eq_self)
qed

lemma u64_of_pos_mod:
  assumes "0 < n" and "n < 2 ^ 63" and "n mod 4 = 0"
  shows "(word_of_int n :: u64) mod 4 = 0"
proof -
  have "uint (word_of_int n :: u64) = n"
    using assms by (simp add: uint_word_of_int take_bit_int_eq_self)
  then show ?thesis
    using assms(3) by (intro word_uint_eqI) (simp add: uint_mod)
qed

lemma readMainPacket_write:
  assumes "main_ok p" and "writeMainPacket p = Inr bs"
  shows "readMainPacket bs = Inr p" and "length bs mod 4 = 0"
proof -
  let ?n = "mp_sliceByteCount p" and ?r = "mp_recoverySet p" and ?s = "mp_nonRecoverySet p"
  have n: "0 < ?n" "?n < 2 ^ 63" using assms(1) by (auto simp: main_ok_def)
  from assms(2) have m4: "?n mod 4 = 0" and r: "?r \<noteq> []" "length ?r \<le> 2 ^ 32 - 1"
    and srt: "checkFileIDSetsSorted ?r ?s = Inr ()"
    and bs: "bs = le_bytes 8 (word_of_int ?n :: u64) @ le_bytes 4 (of_nat (length ?r) :: u32) @
      bytes_of_ids (?r @ ?s)"
    by (auto simp: writeMainPacket_def bindR_Inr_iff split: if_splits)
  have cnt: "unat (of_nat (length ?r) :: u32) = length ?r"
    using r(2) by (simp add: unat_of_nat take_bit_nat_eq_self)
  then have cnt0: "(of_nat (length ?r) :: u32) \<noteq> 0"
    using r(1) by (metis length_0_conv unsigned_0)
  have len: "length (bytes_of_ids (?r @ ?s)) = 16 * length (?r @ ?s)" by simp
  have full: "read_full 12 bs = Inr (le_bytes 8 (word_of_int ?n :: u64) @
      le_bytes 4 (of_nat (length ?r) :: u32), bytes_of_ids (?r @ ?s))"
    unfolding bs by (subst append_assoc [symmetric]) (rule read_full_append, simp)
  have ids: "ids_of_bytes (length (?r @ ?s)) (bytes_of_ids (?r @ ?s)) = ?r @ ?s"
    by (rule ids_of_bytes_of_ids)
  show "readMainPacket bs = Inr p"
    unfolding readMainPacket_def full using ids srt
    by (simp add: u64_of_pos [OF n] u64_of_pos_mod [OF n m4] cnt cnt0 len Let_def read_full_def
        del: bytes_of_ids_simps ids_of_bytes_of_ids checkFileIDSetsSorted_Inr)
  show "length bs mod 4 = 0"
    unfolding bs by simp
qed

section \<open>File description packets\<close>

definition fileDescriptionPacketType :: packetType where
  "fileDescriptionPacketType = arr_of (str ''PAR 2.0'' @ [0] @ str ''FileDesc'')"

record fileDescriptionPacket =
  fd_hash :: "16 arr"
  fd_sixteenKHash :: "16 arr"
  fd_byteCount :: int
  fd_filename :: gostring

definition computeFileID :: "16 arr \<Rightarrow> u64 \<Rightarrow> byte list \<Rightarrow> fileID" where
  "computeFileID sixteenKHash byteCount filenameBytes =
     md5 (bytes_of sixteenKHash @ le_bytes 8 byteCount @ filenameBytes)"

definition readFileDescriptionPacket :: "byte list \<Rightarrow> (fileID \<times> fileDescriptionPacket) res" where
  "readFileDescriptionPacket body = bindR (read_full 56 body) (\<lambda>(h, filenameBytes).
     let hFileID = arr_of (slice h 0 16); hHash = arr_of (slice h 16 32);
         hSixteenKHash = arr_of (slice h 32 48); hLength = (le_word (slice h 48 56) :: u64);
         computedFileID = computeFileID hSixteenKHash hLength (nullTerminate filenameBytes)
     in if computedFileID \<noteq> hFileID then Inl (ErrorNew ''file ID mismatch'')
        else if hLength = 0 then Inl (ErrorNew ''empty files not allowed'')
        else let filename = decodeNullPaddedASCIIString filenameBytes
          in bindR (checkFilename filename) (\<lambda>_.
            if hLength > maxInt then Inl (ErrorNew ''file length too big'')
            else Inr (hFileID, \<lparr> fd_hash = hHash, fd_sixteenKHash = hSixteenKHash,
              fd_byteCount = sint hLength, fd_filename = filename \<rparr>)))"

definition writeFileDescriptionPacket :: "fileID \<Rightarrow> fileDescriptionPacket \<Rightarrow> byte list res" where
  "writeFileDescriptionPacket fileID packet =
     (if fd_byteCount packet \<le> 0 then Inl (ErrorNew ''invalid byte count'')
      else bindR (checkFilename (fd_filename packet)) (\<lambda>_.
        bindR (encodeASCIIString (fd_filename packet)) (\<lambda>filenameBytes.
          let byteCount = (word_of_int (fd_byteCount packet) :: u64);
              computedFileID = computeFileID (fd_sixteenKHash packet) byteCount filenameBytes
          in if computedFileID \<noteq> fileID then Inl (ErrorNew ''file ID mismatch'')
             else Inr (bytes_of fileID @ bytes_of (fd_hash packet) @
               bytes_of (fd_sixteenKHash packet) @ le_bytes 8 byteCount @ filenameBytes))))"

text \<open>What Go's types guarantee (the byte count is an \<open>int\<close>), and no NUL in the name.\<close>

definition fd_ok :: "fileDescriptionPacket \<Rightarrow> bool" where
  "fd_ok p \<longleftrightarrow> fd_byteCount p < 2 ^ 63 \<and> 0 \<notin> set (fd_filename p)"

lemma slice_skip [simp]:
  "length xs \<le> a \<Longrightarrow> slice (xs @ ys) a b = slice ys (a - length xs) (b - length xs)"
  by (simp add: slice_def)

lemma slice_hit [simp]: "length xs = b \<Longrightarrow> slice (xs @ ys) 0 b = xs"
  by (simp add: slice_def)

lemma slice_all [simp]: "length xs = b \<Longrightarrow> slice xs 0 b = xs"
  by (simp add: slice_def)

lemma readFileDescriptionPacket_write:
  assumes "fd_ok p" and "writeFileDescriptionPacket i p = Inr bs"
  shows "readFileDescriptionPacket (bs @ replicate k 0) = Inr (i, p)"
proof -
  let ?n = "fd_byteCount p" and ?f = "fd_filename p"
  have ok: "?n < 2 ^ 63" "0 \<notin> set ?f" using assms(1) by (auto simp: fd_ok_def)
  from assms(2) have n: "0 < ?n" and chk: "checkFilename ?f = Inr ()"
    and ascii: "\<forall>c \<in> set ?f. c \<le> MaxASCII"
    and i: "computeFileID (fd_sixteenKHash p) (word_of_int ?n) ?f = i"
    and bs: "bs = bytes_of i @ bytes_of (fd_hash p) @ bytes_of (fd_sixteenKHash p) @
      le_bytes 8 (word_of_int ?n :: u64) @ ?f"
    by (auto simp: writeFileDescriptionPacket_def bindR_Inr_iff Let_def not_le split: if_splits)
  let ?h = "bytes_of i @ bytes_of (fd_hash p) @ bytes_of (fd_sixteenKHash p) @
      le_bytes 8 (word_of_int ?n :: u64)"
  have "bs @ replicate k 0 = ?h @ ?f @ replicate k 0" by (simp add: bs)
  then have full: "read_full 56 (bs @ replicate k 0) = Inr (?h, ?f @ replicate k 0)"
    by (simp only:) (rule read_full_append, simp)
  show ?thesis
    unfolding readFileDescriptionPacket_def full
    by (simp add: Let_def ok decode_padded [OF ok(2) ascii] i chk u64_of_pos [OF n ok(1)])
qed

section \<open>Slice checksum packets\<close>

definition ifscPacketType :: packetType where
  "ifscPacketType = arr_of (str ''PAR 2.0'' @ [0] @ str ''IFSC'')"

record checksumPair =
  cp_MD5 :: "16 arr"
  cp_CRC32 :: "4 arr"

record ifscPacket =
  ip_checksumPairs :: "checksumPair list"

text \<open>The loop that decodes the pairs; its counter is the number of pairs left.\<close>

fun pairs_of_bytes :: "nat \<Rightarrow> byte list \<Rightarrow> checksumPair list" where
  "pairs_of_bytes 0 data = []"
| "pairs_of_bytes (Suc n) data = (let pair = take 20 data
     in \<lparr> cp_MD5 = arr_of (take 16 pair), cp_CRC32 = arr_of (drop 16 pair) \<rparr> #
        pairs_of_bytes n (drop 20 data))"

definition pair_bytes :: "checksumPair \<Rightarrow> byte list" where
  "pair_bytes c = bytes_of (cp_MD5 c) @ bytes_of (cp_CRC32 c)"

definition readIFSCPacket :: "byte list \<Rightarrow> (fileID \<times> ifscPacket) res" where
  "readIFSCPacket body = bindR (read_full 16 body) (\<lambda>(idb, data).
     if length data = 0 \<or> length data mod 20 \<noteq> 0 then Inl (ErrorNew ''invalid size'')
     else Inr (arr_of idb, \<lparr> ip_checksumPairs = pairs_of_bytes (length data div 20) data \<rparr>))"

definition writeIFSCPacket :: "fileID \<Rightarrow> ifscPacket \<Rightarrow> byte list res" where
  "writeIFSCPacket i packet =
     (if length (ip_checksumPairs packet) = 0 then Inl (ErrorNew ''no checksum pairs to write'')
      else Inr (bytes_of i @ concat (map pair_bytes (ip_checksumPairs packet))))"

lemma length_pair_bytes [simp]: "length (pair_bytes c) = 20"
  by (simp add: pair_bytes_def)

lemma pair_bytes_nonempty [simp]: "pair_bytes c \<noteq> []"
  by (metis length_pair_bytes list.size(3) zero_neq_numeral)

lemma length_pairs [simp]: "length (concat (map pair_bytes cs)) = 20 * length cs"
  by (induction cs) auto

lemma pairs_of_pair_bytes [simp]: "pairs_of_bytes (length cs) (concat (map pair_bytes cs)) = cs"
  by (induction cs) (auto simp: pair_bytes_def)

lemma readIFSCPacket_write:
  assumes "writeIFSCPacket i p = Inr bs"
  shows "readIFSCPacket bs = Inr (i, p)" and "length bs mod 4 = 0"
proof -
  from assms have n: "ip_checksumPairs p \<noteq> []"
    and bs: "bs = bytes_of i @ concat (map pair_bytes (ip_checksumPairs p))"
    by (auto simp: writeIFSCPacket_def split: if_splits)
  show "readIFSCPacket bs = Inr (i, p)" using n by (simp add: bs readIFSCPacket_def)
  show "length bs mod 4 = 0" by (simp add: bs mod_mult_left_eq [symmetric])
qed

section \<open>Recovery and creator packets\<close>

definition recoveryPacketType :: packetType where
  "recoveryPacketType = arr_of (str ''PAR 2.0'' @ [0] @ str ''RecvSlic'')"

definition creatorPacketType :: packetType where
  "creatorPacketType = arr_of (str ''PAR 2.0'' @ [0] @ str ''Creator'')"

type_synonym exponent = u16

record recoveryPacket =
  rp_data :: "byte list"

definition readRecoveryPacket :: "byte list \<Rightarrow> (exponent \<times> recoveryPacket) res" where
  "readRecoveryPacket body =
     (if length body = 0 \<or> length body mod 4 \<noteq> 0
        then Inl (ErrorNew ''invalid recovery data byte count'')
      else let ex = (le_word (take 4 body) :: u32)
        in if ex > 0xffff then Inl (ErrorNew ''exponent out of range'')
           else Inr (ucast ex, \<lparr> rp_data = drop 4 body \<rparr>))"

definition writeRecoveryPacket :: "exponent \<Rightarrow> recoveryPacket \<Rightarrow> byte list res" where
  "writeRecoveryPacket ex packet =
     (if length (rp_data packet) = 0 \<or> length (rp_data packet) mod 4 \<noteq> 0
        then Inl (ErrorNew ''invalid recovery data byte count'')
      else Inr (le_bytes 4 (ucast ex :: u32) @ rp_data packet))"

lemma u32_of_u16:
  fixes e :: u16
  shows "(ucast e :: u32) \<le> 0xffff" and "ucast (ucast e :: u32) = e"
proof -
  have e: "unat e < 2 ^ 16" using unsigned_less [of e] by simp
  then have "unat (ucast e :: u32) = unat e"
    by (simp add: unsigned_ucast_eq take_bit_nat_eq_self)
  with e show "(ucast e :: u32) \<le> 0xffff" by (simp add: word_le_nat_alt)
  show "ucast (ucast e :: u32) = e" by (rule bit_word_eqI) (simp add: bit_simps)
qed

lemma readRecoveryPacket_write:
  assumes "writeRecoveryPacket e p = Inr bs"
  shows "readRecoveryPacket bs = Inr (e, p)" and "length bs mod 4 = 0"
proof -
  from assms have n: "length (rp_data p) mod 4 = 0"
    and bs: "bs = le_bytes 4 (ucast e :: u32) @ rp_data p"
    by (auto simp: writeRecoveryPacket_def split: if_splits)
  show "length bs mod 4 = 0" using n by (simp add: bs)
  then show "readRecoveryPacket bs = Inr (e, p)"
    using u32_of_u16 [of e] by (simp add: bs readRecoveryPacket_def Let_def not_less)
qed

definition readCreatorPacket :: "byte list \<Rightarrow> gostring" where
  "readCreatorPacket body = decodeNullPaddedASCIIString body"

definition writeCreatorPacket :: "gostring \<Rightarrow> byte list res" where
  "writeCreatorPacket clientID = encodeASCIIString clientID"

section \<open>The contract of a packet codec\<close>

definition padPacketBytes :: "byte list \<Rightarrow> byte list" where
  "padPacketBytes packetBytes =
     (if length packetBytes mod 4 = 0 then packetBytes
      else packetBytes @ replicate (4 - length packetBytes mod 4) 0)"

lemma padPacketBytes_id [simp]: "length bs mod 4 = 0 \<Longrightarrow> padPacketBytes bs = bs"
  unfolding padPacketBytes_def by simp

lemma padPacketBytes_replicate:
  "padPacketBytes bs = bs @ replicate ((4 - length bs mod 4) mod 4) 0"
  by (simp add: padPacketBytes_def)

lemma length_padPacketBytes:
  "length (padPacketBytes bs) mod 4 = 0" "length (padPacketBytes bs) \<le> length bs + 3"
proof -
  have "length bs mod 4 < 4" by simp
  moreover have "(n + (4 - n mod 4)) mod 4 = 0" for n :: nat by presburger
  ultimately show "length (padPacketBytes bs) mod 4 = 0" "length (padPacketBytes bs) \<le> length bs + 3"
    unfolding padPacketBytes_def by (auto simp del: One_nat_def)
qed

locale packet_codec =
  fixes wr :: "'p \<Rightarrow> byte list res" and rd :: "byte list \<Rightarrow> 'p res" and ok :: "'p \<Rightarrow> bool"
  assumes rd_wr: "ok p \<Longrightarrow> wr p = Inr bs \<Longrightarrow> rd (padPacketBytes bs) = Inr p"
begin

lemma wr_inj: "ok p \<Longrightarrow> ok q \<Longrightarrow> wr p = Inr bs \<Longrightarrow> wr q = Inr bs \<Longrightarrow> p = q"
  by (metis rd_wr sum.inject(2))

text \<open>Padding, framing, reading the frame and decoding its body gives the packet back.\<close>

lemma framed:
  assumes "ok p" and "wr p = Inr bs" and "length bs < 2 ^ 63 - 67"
  shows "writeNextPacket buf setID typ (padPacketBytes bs)
      = Inr (buf @ packet_bytes setID typ (padPacketBytes bs))"
    and "readNextPacket (packet_bytes setID typ (padPacketBytes bs) @ rest)
      = Inr ((setID, typ, padPacketBytes bs), rest)"
    and "rd (padPacketBytes bs) = Inr p"
proof -
  have "body_ok (padPacketBytes bs)"
    using length_padPacketBytes [of bs] assms(3) by simp
  then show "writeNextPacket buf setID typ (padPacketBytes bs)
      = Inr (buf @ packet_bytes setID typ (padPacketBytes bs))"
    and "readNextPacket (packet_bytes setID typ (padPacketBytes bs) @ rest)
      = Inr ((setID, typ, padPacketBytes bs), rest)"
    by (rule writeNextPacket_ok, rule readNextPacket_ok)
  show "rd (padPacketBytes bs) = Inr p" by (rule rd_wr [OF assms(1,2)])
qed

end

interpretation main_codec: packet_codec writeMainPacket readMainPacket main_ok
  by unfold_locales (simp add: readMainPacket_write)

interpretation fd_codec: packet_codec "\<lambda>(i, p). writeFileDescriptionPacket i p"
    readFileDescriptionPacket "\<lambda>(i, p). fd_ok p"
  by unfold_locales (auto simp: padPacketBytes_replicate readFileDescriptionPacket_write)

interpretation ifsc_codec: packet_codec "\<lambda>(i, p). writeIFSCPacket i p" readIFSCPacket "\<lambda>_. True"
  by unfold_locales (auto simp: readIFSCPacket_write)

interpretation recovery_codec: packet_codec "\<lambda>(e, p). writeRecoveryPacket e p" readRecoveryPacket
    "\<lambda>_. True"
  by unfold_locales (auto simp: readRecoveryPacket_write)

interpretation creator_codec: packet_codec writeCreatorPacket "\<lambda>body. Inr (readCreatorPacket body)"
    "\<lambda>s. 0 \<notin> set s"
  by unfold_locales
    (auto simp: padPacketBytes_replicate writeCreatorPacket_def readCreatorPacket_def decode_padded)

section \<open>Properties of the packet bodies\<close>

lemma le_bytes_eq_word:
  "8 * length bs = LENGTH('a) \<Longrightarrow> n = length bs \<Longrightarrow> le_bytes n (le_word bs :: 'a::len word) = bs"
  using le_bytes_le_word [of bs, where 'a = 'a] by simp

lemma readMainPacket_sound:
  assumes "readMainPacket body = Inr p"
  shows "main_ok p" and "writeMainPacket p = Inr body"
proof -
  from assms obtain h buf where "read_full 12 body = Inr (h, buf)"
    by (cases "read_full 12 body") (auto simp: readMainPacket_def)
  then have body: "body = h @ buf" and h: "length h = 12"
    by (simp_all add: read_full_Inr_iff)
  define s :: u64 where "s = le_word (take 8 h)"
  define c :: u32 where "c = le_word (drop 8 h)"
  define ids where "ids = ids_of_bytes (length buf div 16) buf"
  have lids: "length ids = length buf div 16" by (simp add: ids_def)
  from assms have s: "s \<noteq> 0" "s mod 4 = 0" "\<not> s > maxInt" and c: "c \<noteq> 0" "unat c \<le> length ids"
    and b16: "length buf mod 16 = 0"
    and srt: "checkFileIDSetsSorted (take (unat c) ids) (drop (unat c) ids) = Inr ()"
    and p: "p = \<lparr> mp_sliceByteCount = sint s, mp_recoverySet = take (unat c) ids,
      mp_nonRecoverySet = drop (unat c) ids \<rparr>"
    unfolding body readMainPacket_def read_full_append [OF h]
    by (auto simp: bindR_Inr_iff Let_def read_full_def lids simp flip: s_def c_def ids_def
        split: if_splits)
  have su: "uint s < 2 ^ 63"
  proof -
    have "uint maxInt = 2 ^ 63 - 1" by (simp add: maxInt_def) code_simp
    with s(3) show ?thesis by (simp add: word_less_def)
  qed
  moreover have "- (2 ^ 63) \<le> uint s" by (rule order_trans [OF _ uint_nonnegative]) simp
  ultimately have sint: "sint s = uint s"
    by (simp add: sint_uint signed_take_bit_int_eq_self)
  have pos: "0 < uint s" using s(1) by (metis uint_nonnegative unsigned_eq_0_iff order_le_less)
  have m4: "uint s mod 4 = 0"
    using arg_cong [OF s(2), of uint] by (simp add: uint_mod)
  show "main_ok p" using su pos by (simp add: main_ok_def p sint)
  have cn: "unat c \<noteq> 0" using c(1) by (simp add: unsigned_eq_0_iff)
  have cl: "unat c \<le> 2 ^ 32 - 1"
  proof -
    have "unat c < 2 ^ LENGTH(32)" by (rule unsigned_less)
    then show ?thesis by simp
  qed
  have e: "le_bytes 8 s = take 8 h" "le_bytes 4 c = drop 8 h"
    unfolding s_def c_def using h by (auto intro!: le_bytes_eq_word)
  have i: "bytes_of_ids ids = buf"
    unfolding ids_def using b16 by (intro bytes_of_ids_of_bytes) presburger
  have ids2: "bytes_of_ids (take (unat c) ids) @ bytes_of_ids (drop (unat c) ids) = buf"
    by (simp only: bytes_of_ids_simps(3) [symmetric] append_take_drop_id i)
  let ?r = "mp_recoverySet p" and ?n = "mp_nonRecoverySet p"
  have len: "length ?r = unat c" and r0: "?r \<noteq> []" using c(2) cn by (auto simp: p)
  have w: "word_of_int (mp_sliceByteCount p) = s" "of_nat (unat c) = c" by (simp_all add: p)
  have z: "\<not> (mp_sliceByteCount p = 0 \<or> mp_sliceByteCount p mod 4 \<noteq> 0)"
    unfolding p using pos m4 by (simp add: sint)
  have "writeMainPacket p = Inr (le_bytes 8 s @ le_bytes 4 c @ bytes_of_ids ?r @ bytes_of_ids ?n)"
    unfolding writeMainPacket_def if_not_P [OF z] len w using cl cn srt
    by (simp add: p del: checkFileIDSetsSorted_Inr)
  also have "\<dots> = Inr ((take 8 h @ drop 8 h) @ buf)"
    unfolding e by (simp add: p ids2)
  finally show "writeMainPacket p = Inr body" by (simp add: body)
qed

text \<open>
  C27: Main packets have exactly one encoding.  A body decodes to a main packet exactly when that
  packet has a positive slice byte count below \<open>2^63\<close> and the writer produces this body for it: the
  reader inverts the writer, and accepts nothing else (so an accepted packet has a slice size that
  is a multiple of four, a non-empty recovery set and both identifier lists in order).
\<close>

theorem main_packet_canonical:
  "readMainPacket body = Inr p \<longleftrightarrow> main_ok p \<and> writeMainPacket p = Inr body"
  using readMainPacket_sound readMainPacket_write by blast

lemma writeMainPacket_negative:
  fixes i :: fileID
  defines "bs \<equiv> [0xfc, 0xff, 0xff, 0xff, 0xff, 0xff, 0xff, 0xff] @ [1, 0, 0, 0] @ bytes_of i"
  shows "writeMainPacket \<lparr> mp_sliceByteCount = - 4, mp_recoverySet = [i], mp_nonRecoverySet = [] \<rparr> = Inr bs"
    and "readMainPacket bs = Inl (ErrorNew ''invalid slice size'')"
proof -
  have "(0xFFFFFFFFFFFFFFFC :: u64) > maxInt" by code_simp
  moreover have w: "le_word [0xfc, 0xff, 0xff, 0xff, 0xff, 0xff, 0xff, 0xff] = (0xFFFFFFFFFFFFFFFC :: u64)"
    by code_simp
  moreover have f: "read_full 12 bs = Inr ([0xfc, 0xff, 0xff, 0xff, 0xff, 0xff, 0xff, 0xff] @ [1, 0, 0, 0],
      bytes_of i)"
    by (simp add: bs_def read_full_def)
  ultimately show "readMainPacket bs = Inl (ErrorNew ''invalid slice size'')"
    by (simp add: readMainPacket_def f Let_def)
  have "le_bytes 8 (word_of_int (- 4) :: u64) = [0xfc, 0xff, 0xff, 0xff, 0xff, 0xff, 0xff, 0xff]"
    "le_bytes 4 (of_nat (length [i]) :: u32) = [1, 0, 0, 0]"
    by code_simp+
  moreover have c: "checkFileIDSetsSorted [i] [] = Inr ()"
    by (subst checkFileIDSetsSorted_Inr) simp
  ultimately show "writeMainPacket \<lparr> mp_sliceByteCount = - 4, mp_recoverySet = [i], mp_nonRecoverySet = [] \<rparr> = Inr bs"
    by (simp add: writeMainPacket_def bs_def c del: checkFileIDSetsSorted_Inr)
qed

text \<open>
  C28: File description packets survive writing, padding and reading.  If the writer accepts a
  description whose byte count is an \<open>int\<close> and whose name has no NUL byte, then reading the padded
  body gives the same identifier and the same description: the NUL padding is stripped from the
  name and the recomputed identifier matches.
\<close>

theorem file_description_roundtrip:
  assumes "writeFileDescriptionPacket i p = Inr bs" and "fd_byteCount p < 2 ^ 63"
    and "0 \<notin> set (fd_filename p)"
  shows "readFileDescriptionPacket (padPacketBytes bs) = Inr (i, p)"
  using fd_codec.rd_wr [of "(i, p)" bs] assms by (simp add: fd_ok_def)

theorem file_description_roundtrip_witness:
  "readFileDescriptionPacket (padPacketBytes (bytes_of (computeFileID zero_arr 3 (str ''ab''))
       @ replicate 32 0 @ [3, 0, 0, 0, 0, 0, 0, 0] @ str ''ab''))
   = Inr (computeFileID zero_arr 3 (str ''ab''), \<lparr> fd_hash = zero_arr, fd_sixteenKHash = zero_arr,
       fd_byteCount = 3, fd_filename = str ''ab'' \<rparr>)"
proof -
  have "checkFilename (str ''ab'') = Inr ()" "encodeASCIIString (str ''ab'') = Inr (str ''ab'')"
    "le_bytes 8 (3 :: u64) = [3, 0, 0, 0, 0, 0, 0, 0]" "0 \<notin> set (str ''ab'')"
    "replicate 16 0 @ replicate 16 0 = replicate 32 (0 :: byte)"
    by code_simp+
  then show ?thesis
    by (intro file_description_roundtrip)
      (simp_all add: writeFileDescriptionPacket_def bytes_of_zero_arr Let_def
        del: encodeASCIIString_Inr_iff)
qed

end
