(* ===== verification/Scan.thy ===== *)
theory Scan
  imports Crc32 PacketBodies
begin

text \<open>
  The slice scan of the decoder (\<open>par2/decoder.go\<close>): the map from checksums to the slices that have
  them, the integrity records of the shards, and \<open>scanBuffer\<close>, which looks for known slices in a
  buffer, at slice boundaries or, when asked to, byte by byte with the rolling CRC.  \<open>scanBuffer\<close> is a
  partial function; that it returns is proved in the theory that follows.
\<close>

section \<open>Input files and their checksums\<close>

record decoderInputFileInfo =
  di_fileID :: fileID
  di_filename :: gostring
  di_byteCount :: int
  di_sixteenKHash :: "16 arr"
  di_hash :: "16 arr"
  di_checksumPairs :: "checksumPair list"

definition decoderInputFileInfoIDs :: "decoderInputFileInfo list \<Rightarrow> fileID list" where
  "decoderInputFileInfoIDs infos = map di_fileID infos"

definition makeDecoderInputFileInfos ::
    "fileID list \<Rightarrow> (fileID \<rightharpoonup> fileDescriptionPacket) \<Rightarrow> (fileID \<rightharpoonup> ifscPacket) \<Rightarrow>
     decoderInputFileInfo list res" where
  "makeDecoderInputFileInfos fileIDs fileDescriptionPackets ifscPackets =
     mapR (\<lambda>i. case fileDescriptionPackets i of
         None \<Rightarrow> Inl (ErrorNew ''file description packet not found'')
       | Some fd \<Rightarrow> (case ifscPackets i of
           None \<Rightarrow> Inl (ErrorNew ''input file slice checksum packet not found'')
         | Some ifsc \<Rightarrow> Inr \<lparr> di_fileID = i, di_filename = fd_filename fd,
             di_byteCount = fd_byteCount fd, di_sixteenKHash = fd_sixteenKHash fd,
             di_hash = fd_hash fd, di_checksumPairs = ip_checksumPairs ifsc \<rparr>)) fileIDs"

record shardLocation =
  sl_fileID :: fileID
  sl_start :: nat

text \<open>
  A set of locations is a list without duplicates; Go's iteration order over such a map is
  unspecified, the list is one such order.
\<close>

type_synonym shardLocationSet = "shardLocation list"
type_synonym checksumShardLocationMap = "u32 \<rightharpoonup> (16 arr \<rightharpoonup> shardLocationSet)"

definition map_put ::
    "u32 \<Rightarrow> 16 arr \<Rightarrow> shardLocation \<Rightarrow> checksumShardLocationMap \<Rightarrow> checksumShardLocationMap" where
  "map_put crc md5Hash location m =
     (let byCRC = (case m crc of None \<Rightarrow> Map.empty | Some b \<Rightarrow> b);
          byMD5 = (case byCRC md5Hash of None \<Rightarrow> [] | Some s \<Rightarrow> s)
      in m(crc \<mapsto> byCRC(md5Hash \<mapsto> List.insert location byMD5)))"

definition map_get :: "checksumShardLocationMap \<Rightarrow> u32 \<Rightarrow> byte list \<Rightarrow> shardLocationSet" where
  "map_get m crc data =
     (case m crc of None \<Rightarrow> []
      | Some byCRC \<Rightarrow> (case byCRC (md5 data) of None \<Rightarrow> [] | Some s \<Rightarrow> s))"

definition put_info :: "nat \<Rightarrow> decoderInputFileInfo \<Rightarrow> checksumShardLocationMap \<Rightarrow> checksumShardLocationMap" where
  "put_info sliceByteCount info m =
     fold (\<lambda>i. map_put (le_word (bytes_of (cp_CRC32 (di_checksumPairs info ! i))))
          (cp_MD5 (di_checksumPairs info ! i))
          \<lparr> sl_fileID = di_fileID info, sl_start = i * sliceByteCount \<rparr>)
       [0..<length (di_checksumPairs info)] m"

definition makeChecksumShardLocationMap :: "nat \<Rightarrow> decoderInputFileInfo list \<Rightarrow> checksumShardLocationMap" where
  "makeChecksumShardLocationMap sliceByteCount infos = fold (put_info sliceByteCount) infos Map.empty"

section \<open>Integrity records\<close>

record shardIntegrityInfo =
  si_present :: bool
  si_foundAt :: shardLocation
  si_locations :: shardLocationSet

definition shard_zero :: shardIntegrityInfo where
  "shard_zero = \<lparr> si_present = False, si_foundAt = \<lparr> sl_fileID = zero_arr, sl_start = 0 \<rparr>, si_locations = [] \<rparr>"

definition shard_ok :: "shardIntegrityInfo \<Rightarrow> shardLocation \<Rightarrow> bool" where
  "shard_ok info location \<longleftrightarrow> si_present info \<and> location \<in> set (si_locations info)"

record fileIntegrityInfo =
  fi_fileID :: fileID
  fi_missing :: bool
  fi_hashMismatch :: bool
  fi_hasWrongByteCount :: bool
  fi_shardInfos :: "shardIntegrityInfo list"

definition allShardsOK :: "nat \<Rightarrow> fileIntegrityInfo \<Rightarrow> bool" where
  "allShardsOK sliceByteCount info =
     list_all (\<lambda>i. shard_ok (fi_shardInfos info ! i)
         \<lparr> sl_fileID = fi_fileID info, sl_start = i * sliceByteCount \<rparr>)
       [0..<length (fi_shardInfos info)]"

definition file_integrity_ok :: "nat \<Rightarrow> fileIntegrityInfo \<Rightarrow> bool" where
  "file_integrity_ok sliceByteCount info \<longleftrightarrow>
     \<not> fi_missing info \<and> \<not> fi_hashMismatch info \<and> \<not> fi_hasWrongByteCount info \<and>
     allShardsOK sliceByteCount info"

text \<open>The records and the index map that \<open>LoadFileData\<close> starts from.\<close>

definition new_integrity_infos :: "decoderInputFileInfo list \<Rightarrow> fileIntegrityInfo list" where
  "new_integrity_infos recoverySet = map (\<lambda>info. \<lparr> fi_fileID = di_fileID info, fi_missing = False,
     fi_hashMismatch = False, fi_hasWrongByteCount = False,
     fi_shardInfos = replicate (length (di_checksumPairs info)) shard_zero \<rparr>) recoverySet"

definition file_id_indices :: "decoderInputFileInfo list \<Rightarrow> (fileID \<rightharpoonup> nat)" where
  "file_id_indices recoverySet =
     fold (\<lambda>i m. m(di_fileID (recoverySet ! i) \<mapsto> i)) [0..<length recoverySet] Map.empty"

section \<open>Hashes and slices of a buffer\<close>

definition sixteenKHash :: "byte list \<Rightarrow> 16 arr" where
  "sixteenKHash data = (if length data < 16 * 1024 then md5 data else md5 (take (16 * 1024) data))"

definition sliceAndPadByteArray :: "byte list \<Rightarrow> nat \<Rightarrow> nat \<Rightarrow> byte list res" where
  "sliceAndPadByteArray bs start fin =
     (let padLength = (if fin > length bs then fin - length bs else 0);
          fin' = (if fin > length bs then length bs else fin)
      in bindR (slice_at bs start fin') (\<lambda>s. Inr (if padLength > 0 then s @ replicate padLength 0 else s)))"

definition scanWindowSize :: "nat \<Rightarrow> nat res" where
  "scanWindowSize sliceByteCount =
     (if sliceByteCount = 0 then Inl (Panic ''integer divide by zero'')
      else let n = 2 ^ 20 div sliceByteCount + 1; slices = (if n > 2 then n else 2)
        in Inr (slices * sliceByteCount))"

section \<open>scanBuffer\<close>

record scanPolicy =
  findMisaligned :: bool
  searchLimit :: int

definition defaultScanPolicy :: scanPolicy where
  "defaultScanPolicy = \<lparr> findMisaligned = False, searchLimit = 0 \<rparr>"

text \<open>The arguments of \<open>scanBuffer\<close> that do not change.\<close>

record scan_env =
  e_sliceByteCount :: nat
  e_data :: "byte list"
  e_limit :: nat
  e_baseOffset :: nat
  e_checksumToLocation :: checksumShardLocationMap
  e_fileID :: fileID
  e_fileIDIndices :: "fileID \<rightharpoonup> nat"
  e_policy :: scanPolicy

text \<open>
  Its local variables, with the records it updates and the process-wide cache of CRC windows.
\<close>

record scan_state =
  s_j :: nat
  s_hits :: nat
  s_misses :: nat
  s_justMissed :: bool
  s_window :: "crc32Window option"
  s_crcSlice :: u32
  s_slideStart :: nat
  s_infos :: "fileIntegrityInfo list"
  s_windows :: "nat \<rightharpoonup> crc32Window"

text \<open>Recording one found location: a missing map entry reads as index 0.\<close>

definition record_match ::
    "scan_env \<Rightarrow> shardLocation \<Rightarrow> shardLocation \<Rightarrow> fileIntegrityInfo list \<Rightarrow> fileIntegrityInfo list res" where
  "record_match env location foundLocation infos =
     (let k = (case e_fileIDIndices env (sl_fileID foundLocation) of None \<Rightarrow> 0 | Some k \<Rightarrow> k) in
      bindR (index_at infos k) (\<lambda>integrityInfo.
      let i = sl_start foundLocation div e_sliceByteCount env in
      bindR (index_at (fi_shardInfos integrityInfo) i) (\<lambda>shardInfo.
        let sh1 = (if si_present shardInfo then shardInfo
              else \<lparr> si_present = True, si_foundAt = location, si_locations = [] \<rparr>);
            sh2 = sh1\<lparr> si_locations := List.insert location (si_locations sh1) \<rparr>
        in Inr (infos[k := integrityInfo\<lparr> fi_shardInfos := (fi_shardInfos integrityInfo)[i := sh2] \<rparr>]))))"

text \<open>The CRC of the slice at \<open>j\<close>: rolled on from the previous byte's after a miss, else computed.\<close>

definition scan_crc :: "scan_env \<Rightarrow> byte list \<Rightarrow> scan_state \<Rightarrow> scan_state res" where
  "scan_crc env sl st =
     (if s_justMissed st then
        bindR (case s_window st of
            None \<Rightarrow> crc32WindowFor (e_sliceByteCount env) (s_windows st)
          | Some w \<Rightarrow> Inr (w, s_windows st)) (\<lambda>(w, windows).
        bindR (if s_j st = 0 then Inl index_panic else index_at (e_data env) (s_j st - 1)) (\<lambda>oldLeader.
        bindR (if sl = [] then Inl index_panic else index_at sl (length sl - 1)) (\<lambda>newTrailer.
          Inr (st\<lparr> s_crcSlice := crc32Window_update w (s_crcSlice st) oldLeader newTrailer,
                   s_window := Some w, s_windows := windows \<rparr>))))
      else Inr (st\<lparr> s_crcSlice := ChecksumIEEE sl \<rparr>))"

text \<open>What a miss at \<open>j\<close> does to the cursor.\<close>

definition scan_miss :: "scan_env \<Rightarrow> scan_state \<Rightarrow> scan_state" where
  "scan_miss env st =
     (let st1 = st\<lparr> s_misses := s_misses st + 1 \<rparr> in
      if \<not> findMisaligned (e_policy env)
        then st1\<lparr> s_j := s_j st + e_sliceByteCount env, s_justMissed := False \<rparr>
      else let slideStart = (if s_justMissed st then s_slideStart st else s_j st);
               j = s_j st + 1
        in if searchLimit (e_policy env) > 0 \<and> int j - int slideStart \<ge> searchLimit (e_policy env)
             then st1\<lparr> s_slideStart := slideStart, s_j := slideStart + e_sliceByteCount env,
                       s_justMissed := False \<rparr>
           else st1\<lparr> s_slideStart := slideStart, s_j := j, s_justMissed := True \<rparr>)"

definition scan_hit :: "scan_env \<Rightarrow> shardLocationSet \<Rightarrow> scan_state \<Rightarrow> scan_state res" where
  "scan_hit env foundLocations st =
     (let location = \<lparr> sl_fileID = e_fileID env, sl_start = e_baseOffset env + s_j st \<rparr> in
      bindR (foldR (record_match env location) foundLocations (s_infos st)) (\<lambda>infos.
        Inr (st\<lparr> s_infos := infos, s_justMissed := False, s_j := s_j st + e_sliceByteCount env,
                 s_hits := s_hits st + 1 \<rparr>)))"

text \<open>One turn of the loop.\<close>

definition scan_step :: "scan_env \<Rightarrow> scan_state \<Rightarrow> scan_state res" where
  "scan_step env st =
     bindR (sliceAndPadByteArray (e_data env) (s_j st) (s_j st + e_sliceByteCount env)) (\<lambda>sl.
     bindR (scan_crc env sl st) (\<lambda>st1.
       let foundLocations = map_get (e_checksumToLocation env) (s_crcSlice st1) sl
       in if foundLocations = [] then Inr (scan_miss env st1)
          else scan_hit env foundLocations st1))"

partial_function (option) scan_loop :: "scan_env \<Rightarrow> scan_state \<Rightarrow> scan_state res option" where
  "scan_loop env st =
     (if s_j st < e_limit env
      then case scan_step env st of
          Inl e \<Rightarrow> Some (Inl e)
        | Inr st' \<Rightarrow> scan_loop env st'
      else Some (Inr st))"

definition scan_init :: "fileIntegrityInfo list \<Rightarrow> (nat \<rightharpoonup> crc32Window) \<Rightarrow> scan_state" where
  "scan_init infos windows = \<lparr> s_j = 0, s_hits = 0, s_misses = 0, s_justMissed = False, s_window = None,
     s_crcSlice = 0, s_slideStart = 0, s_infos = infos, s_windows = windows \<rparr>"

text \<open>
  The final state holds the results \<open>(j, hits, misses)\<close>, the updated records and the cache.
\<close>

definition scanBuffer ::
    "scan_env \<Rightarrow> fileIntegrityInfo list \<Rightarrow> (nat \<rightharpoonup> crc32Window) \<Rightarrow> scan_state res option" where
  "scanBuffer env infos windows = scan_loop env (scan_init infos windows)"

text \<open>\<open>fillShardInfos\<close>: a whole buffer at once.\<close>

definition fillShardInfos ::
    "nat \<Rightarrow> byte list \<Rightarrow> checksumShardLocationMap \<Rightarrow> fileID \<Rightarrow> fileIntegrityInfo list \<Rightarrow>
     (fileID \<rightharpoonup> nat) \<Rightarrow> scanPolicy \<Rightarrow> (nat \<rightharpoonup> crc32Window) \<Rightarrow> scan_state res option" where
  "fillShardInfos sliceByteCount data checksumToLocation fid infos indices policy windows =
     scanBuffer \<lparr> e_sliceByteCount = sliceByteCount, e_data = data, e_limit = length data,
       e_baseOffset = 0, e_checksumToLocation = checksumToLocation, e_fileID = fid,
       e_fileIDIndices = indices, e_policy = policy \<rparr> infos windows"

section \<open>The file information of the encoder\<close>

text \<open>
  \<open>computeDataFileInfo\<close> of \<open>par2/data_file.go\<close>.  The loop over the slice offsets appends to the
  shards and the checksum pairs; it does not end for a slice size of 0.
\<close>

partial_function (option) data_slices ::
    "nat \<Rightarrow> byte list \<Rightarrow> nat \<Rightarrow> byte list list \<Rightarrow> checksumPair list \<Rightarrow>
     (byte list list \<times> checksumPair list) res option" where
  "data_slices sliceByteCount data i dataShards checksumPairs =
     (if i < length data then
        (case sliceAndPadByteArray data i (i + sliceByteCount) of
           Inl e \<Rightarrow> Some (Inl e)
         | Inr s \<Rightarrow> data_slices sliceByteCount data (i + sliceByteCount) (dataShards @ [s])
             (checksumPairs @ [\<lparr> cp_MD5 = md5 s, cp_CRC32 = arr_of (le_bytes 4 (ChecksumIEEE s)) \<rparr>]))
      else Some (Inr (dataShards, checksumPairs)))"

definition computeDataFileInfo ::
    "nat \<Rightarrow> gostring \<Rightarrow> byte list \<Rightarrow>
     (fileID \<times> fileDescriptionPacket \<times> ifscPacket \<times> byte list list) res option" where
  "computeDataFileInfo sliceByteCount filename data =
     map_option (\<lambda>r. bindR r (\<lambda>(dataShards, checksumPairs).
       Inr (computeFileID (sixteenKHash data) (of_nat (length data)) filename,
            \<lparr> fd_hash = md5 data, fd_sixteenKHash = sixteenKHash data,
              fd_byteCount = int (length data), fd_filename = filename \<rparr>,
            \<lparr> ip_checksumPairs = checksumPairs \<rparr>, dataShards)))
       (data_slices sliceByteCount data 0 [] [])"

end
