(* ===== verification/ScanCorrect.thy ===== *)
theory ScanCorrect
  imports Scan
begin

text \<open>
  What the slice scan finds.  The rolled CRC is always the CRC of the slice at the cursor, so every
  recorded location holds a slice with the checksums of the packet; the scan returns for every
  policy; and at slice boundaries it misses nothing, which gives the verdict on a whole file.
\<close>

section \<open>Slices with padding\<close>

definition pad_slice :: "nat \<Rightarrow> byte list \<Rightarrow> nat \<Rightarrow> byte list" where
  "pad_slice n data j = map (\<lambda>i. if j + i < length data then data ! (j + i) else 0) [0..<n]"

lemma length_pad_slice [simp]: "length (pad_slice n data j) = n"
  by (simp add: pad_slice_def)

lemma nth_pad_slice:
  "i < n \<Longrightarrow> pad_slice n data j ! i = (if j + i < length data then data ! (j + i) else 0)"
  by (simp add: pad_slice_def)

lemma sliceAndPad_eq:
  assumes "j \<le> length data"
  shows "sliceAndPadByteArray data j (j + n) = Inr (pad_slice n data j)"
proof -
  have "slice data j (min (j + n) (length data)) @ replicate (j + n - length data) 0 = pad_slice n data j"
    using assms by (intro nth_equalityI) (auto simp: nth_pad_slice nth_append nth_slice min_def)
  moreover have "(if length data < j + n then length data else j + n) = min (j + n) (length data)"
    by (auto simp: min_def)
  ultimately show ?thesis
    using assms by (auto simp: sliceAndPadByteArray_def Let_def min_def)
qed

lemma take_pad_slice: "take n (pad_slice (Suc n) data j) = pad_slice n data j"
  by (rule nth_equalityI) (auto simp: nth_pad_slice)

lemma drop_pad_slice: "drop 1 (pad_slice (Suc n) data j) = pad_slice n data (Suc j)"
  by (rule nth_equalityI) (auto simp: nth_pad_slice)

text \<open>One step of the rolling CRC, over the padded end of the data too.\<close>

lemma roll_step:
  assumes "newCRC32Window n = Inr w" and "0 < j" and "j < length data"
  shows "crc32Window_update w (ChecksumIEEE (pad_slice n data (j - 1))) (data ! (j - 1))
      (pad_slice n data j ! (n - 1)) = ChecksumIEEE (pad_slice n data j)"
proof -
  let ?a = "pad_slice (Suc n) data (j - 1)"
  have n: "4 \<le> n" by (rule newCRC32Window_table(1) [OF assms(1)])
  have "crc32Window_update w (ChecksumIEEE (take n ?a)) (?a ! 0) (?a ! n) = ChecksumIEEE (drop 1 ?a)"
    by (rule crc32Window_update_shift [OF assms(1)]) simp
  moreover have "?a ! 0 = data ! (j - 1)" by (subst nth_pad_slice) (use assms in auto)
  moreover have "?a ! n = pad_slice n data j ! (n - 1)" using n assms by (simp add: nth_pad_slice)
  moreover have "drop 1 ?a = pad_slice n data j" using assms drop_pad_slice [of n data "j - 1"] by simp
  ultimately show ?thesis by (simp add: take_pad_slice)
qed

section \<open>The checksum map\<close>

lemma map_get_put:
  "set (map_get (map_put crc h loc m) c data) =
     (if c = crc \<and> md5 data = h then insert loc (set (map_get m c data)) else set (map_get m c data))"
  by (auto simp: map_get_def map_put_def Let_def split: option.splits)

text \<open>A slice has the checksums of a pair.\<close>

definition pair_matches :: "checksumPair \<Rightarrow> byte list \<Rightarrow> bool" where
  "pair_matches c data \<longleftrightarrow> le_word (bytes_of (cp_CRC32 c)) = ChecksumIEEE data \<and> cp_MD5 c = md5 data"

lemma map_get_put_info:
  "set (map_get (put_info n info m) (ChecksumIEEE data) data) = set (map_get m (ChecksumIEEE data) data) \<union>
     {\<lparr> sl_fileID = di_fileID info, sl_start = i * n \<rparr> | i. i < length (di_checksumPairs info) \<and>
        pair_matches (di_checksumPairs info ! i) data}"
proof -
  have "set (map_get (fold (\<lambda>i. map_put (le_word (bytes_of (cp_CRC32 (di_checksumPairs info ! i))))
          (cp_MD5 (di_checksumPairs info ! i)) \<lparr> sl_fileID = di_fileID info, sl_start = i * n \<rparr>) [0..<k] m)
        (ChecksumIEEE data) data) = set (map_get m (ChecksumIEEE data) data) \<union>
     {\<lparr> sl_fileID = di_fileID info, sl_start = i * n \<rparr> | i. i < k \<and>
        pair_matches (di_checksumPairs info ! i) data}" for k
    by (induction k) (auto simp: map_get_put pair_matches_def less_Suc_eq)
  then show ?thesis by (simp add: put_info_def)
qed

lemma map_get_make:
  "set (map_get (makeChecksumShardLocationMap n ds) (ChecksumIEEE data) data) =
     {\<lparr> sl_fileID = di_fileID info, sl_start = i * n \<rparr> | info i. info \<in> set ds \<and>
        i < length (di_checksumPairs info) \<and> pair_matches (di_checksumPairs info ! i) data}"
proof -
  have "set (map_get (fold (put_info n) ds m) (ChecksumIEEE data) data) =
     set (map_get m (ChecksumIEEE data) data) \<union>
     {\<lparr> sl_fileID = di_fileID info, sl_start = i * n \<rparr> | info i. info \<in> set ds \<and>
        i < length (di_checksumPairs info) \<and> pair_matches (di_checksumPairs info ! i) data}" for m
    by (induction ds arbitrary: m) (auto simp: map_get_put_info)
  then show ?thesis by (simp add: makeChecksumShardLocationMap_def map_get_def)
qed

lemma file_id_indices_nth:
  assumes "distinct (map di_fileID ds)" and "k < length ds"
  shows "file_id_indices ds (di_fileID (ds ! k)) = Some k"
proof -
  have "fold (\<lambda>i m. m(di_fileID (ds ! i) \<mapsto> i)) [0..<q] Map.empty (di_fileID (ds ! k)) = Some k"
    if "k < q" "q \<le> length ds" for q
    using that
  proof (induction q)
    case (Suc q)
    have "q \<noteq> k \<Longrightarrow> di_fileID (ds ! q) \<noteq> di_fileID (ds ! k)"
      using assms Suc.prems(2) nth_eq_iff_index_eq [of "map di_fileID ds" q k] by simp
    with Suc show ?case by (cases "q = k") auto
  qed simp
  from this [of "length ds"] assms(2) show ?thesis by (simp add: file_id_indices_def)
qed

section \<open>Recording matches\<close>

text \<open>The locations recorded for slice \<open>i\<close> of file \<open>k\<close>.\<close>

definition recorded :: "fileIntegrityInfo list \<Rightarrow> nat \<Rightarrow> nat \<Rightarrow> shardLocation set" where
  "recorded infos k i = set (si_locations (fi_shardInfos (infos ! k) ! i))"

text \<open>
  The records have the shape of the recovery set, and a shard is present exactly when it has
  locations, one of which is where it was first found.
\<close>

definition infos_ok :: "decoderInputFileInfo list \<Rightarrow> fileIntegrityInfo list \<Rightarrow> bool" where
  "infos_ok ds infos \<longleftrightarrow> length infos = length ds \<and>
     (\<forall>k < length ds. fi_fileID (infos ! k) = di_fileID (ds ! k) \<and>
       length (fi_shardInfos (infos ! k)) = length (di_checksumPairs (ds ! k)) \<and>
       (\<forall>i < length (di_checksumPairs (ds ! k)). let sh = fi_shardInfos (infos ! k) ! i in
          (si_present sh \<longleftrightarrow> si_locations sh \<noteq> []) \<and>
          (si_present sh \<longrightarrow> si_foundAt sh \<in> set (si_locations sh))))"

lemma infos_okD:
  assumes "infos_ok ds infos"
  shows "length infos = length ds"
    and "k < length ds \<Longrightarrow> fi_fileID (infos ! k) = di_fileID (ds ! k)"
    and "k < length ds \<Longrightarrow> length (fi_shardInfos (infos ! k)) = length (di_checksumPairs (ds ! k))"
    and "k < length ds \<Longrightarrow> i < length (di_checksumPairs (ds ! k)) \<Longrightarrow>
      si_present (fi_shardInfos (infos ! k) ! i) \<longleftrightarrow> si_locations (fi_shardInfos (infos ! k) ! i) \<noteq> []"
    and "k < length ds \<Longrightarrow> i < length (di_checksumPairs (ds ! k)) \<Longrightarrow> si_present (fi_shardInfos (infos ! k) ! i) \<Longrightarrow>
      si_foundAt (fi_shardInfos (infos ! k) ! i) \<in> set (si_locations (fi_shardInfos (infos ! k) ! i))"
  using assms by (auto simp: infos_ok_def Let_def)

lemma infos_ok_new: "infos_ok ds (new_integrity_infos ds)"
  by (simp add: infos_ok_def new_integrity_infos_def shard_zero_def Let_def)

lemma recorded_new:
  "k < length ds \<Longrightarrow> i < length (di_checksumPairs (ds ! k)) \<Longrightarrow> recorded (new_integrity_infos ds) k i = {}"
  by (simp add: recorded_def new_integrity_infos_def shard_zero_def)

definition env_ok_scan :: "decoderInputFileInfo list \<Rightarrow> scan_env \<Rightarrow> bool" where
  "env_ok_scan ds env \<longleftrightarrow> distinct (map di_fileID ds) \<and> 4 \<le> e_sliceByteCount env \<and>
     e_limit env \<le> length (e_data env) \<and>
     e_checksumToLocation env = makeChecksumShardLocationMap (e_sliceByteCount env) ds \<and>
     e_fileIDIndices env = file_id_indices ds"

lemma record_match_ok:
  assumes env: "env_ok_scan ds env" and ok: "infos_ok ds infos"
    and k: "k < length ds" and i: "i < length (di_checksumPairs (ds ! k))"
    and found: "found = \<lparr> sl_fileID = di_fileID (ds ! k), sl_start = i * e_sliceByteCount env \<rparr>"
  shows "\<exists>infos'. record_match env loc found infos = Inr infos' \<and> infos_ok ds infos' \<and>
    (\<forall>k' i'. k' < length ds \<longrightarrow> i' < length (di_checksumPairs (ds ! k')) \<longrightarrow>
      recorded infos' k' i' = (if k' = k \<and> i' = i then insert loc (recorded infos k i) else recorded infos k' i'))"
proof -
  note okD = infos_okD [OF ok]
  have idx: "e_fileIDIndices env (di_fileID (ds ! k)) = Some k"
    using env k by (simp add: env_ok_scan_def file_id_indices_nth)
  have n: "e_sliceByteCount env \<noteq> 0" using env by (simp add: env_ok_scan_def)
  let ?fi = "infos ! k" and ?sh = "fi_shardInfos (infos ! k) ! i"
  define sh1 where "sh1 = (if si_present ?sh then ?sh
    else \<lparr> si_present = True, si_foundAt = loc, si_locations = [] \<rparr>)"
  define sh2 where "sh2 = sh1\<lparr> si_locations := List.insert loc (si_locations sh1) \<rparr>"
  let ?infos' = "infos[k := ?fi\<lparr> fi_shardInfos := (fi_shardInfos ?fi)[i := sh2] \<rparr>]"
  have r: "record_match env loc found infos = Inr ?infos'"
    using k i n okD(1,3) by (simp add: record_match_def found idx Let_def sh1_def sh2_def)
  have locs: "set (si_locations sh2) = insert loc (set (si_locations ?sh))"
    and pres: "si_present sh2" "si_foundAt sh2 \<in> set (si_locations sh2)"
    using okD(4,5) [OF k i] by (auto simp: sh1_def sh2_def)
  have ne: "si_locations sh2 \<noteq> []" using locs by auto
  have "infos_ok ds ?infos'"
    using ok k i pres ne unfolding infos_ok_def Let_def
    by (auto simp: nth_list_update)
  moreover have "recorded ?infos' k' i' = (if k' = k \<and> i' = i then insert loc (recorded infos k i)
      else recorded infos k' i')" if "k' < length ds" "i' < length (di_checksumPairs (ds ! k'))" for k' i'
    using that k i okD(1,3) locs by (auto simp: recorded_def nth_list_update)
  ultimately show ?thesis using r by blast
qed

lemma record_matches_ok:
  assumes env: "env_ok_scan ds env" and ok: "infos_ok ds infos"
    and found: "set found \<subseteq> {\<lparr> sl_fileID = di_fileID (ds ! k), sl_start = i * e_sliceByteCount env \<rparr> | k i.
      k < length ds \<and> i < length (di_checksumPairs (ds ! k))}"
  shows "\<exists>infos'. foldR (record_match env loc) found infos = Inr infos' \<and> infos_ok ds infos' \<and>
    (\<forall>k i. k < length ds \<longrightarrow> i < length (di_checksumPairs (ds ! k)) \<longrightarrow>
      recorded infos' k i = recorded infos k i \<union>
        (if \<lparr> sl_fileID = di_fileID (ds ! k), sl_start = i * e_sliceByteCount env \<rparr> \<in> set found
         then {loc} else {}))"
  using ok found
proof (induction found arbitrary: infos)
  case (Cons f found)
  from Cons.prems(2) obtain k i where ki: "k < length ds" "i < length (di_checksumPairs (ds ! k))"
    and f: "f = \<lparr> sl_fileID = di_fileID (ds ! k), sl_start = i * e_sliceByteCount env \<rparr>" by auto
  from record_match_ok [OF env Cons.prems(1) ki f, of loc] obtain infos1 where
    1: "record_match env loc f infos = Inr infos1" "infos_ok ds infos1"
    and rec1: "\<And>k' i'. k' < length ds \<Longrightarrow> i' < length (di_checksumPairs (ds ! k')) \<Longrightarrow>
      recorded infos1 k' i' = (if k' = k \<and> i' = i then insert loc (recorded infos k i) else recorded infos k' i')"
    by blast
  from Cons.IH [OF 1(2)] Cons.prems(2) obtain infos2 where
    2: "foldR (record_match env loc) found infos1 = Inr infos2" "infos_ok ds infos2"
    and rec2: "\<And>k i. k < length ds \<Longrightarrow> i < length (di_checksumPairs (ds ! k)) \<Longrightarrow>
      recorded infos2 k i = recorded infos1 k i \<union>
        (if \<lparr> sl_fileID = di_fileID (ds ! k), sl_start = i * e_sliceByteCount env \<rparr> \<in> set found
         then {loc} else {})"
    by auto
  have same: "\<lparr> sl_fileID = di_fileID (ds ! k'), sl_start = i' * e_sliceByteCount env \<rparr> = f \<longleftrightarrow> k' = k \<and> i' = i"
    if "k' < length ds" for k' i'
    using env that ki nth_eq_iff_index_eq [of "map di_fileID ds" k' k]
    by (auto simp: f env_ok_scan_def)
  have "recorded infos2 k' i' = recorded infos k' i' \<union>
      (if \<lparr> sl_fileID = di_fileID (ds ! k'), sl_start = i' * e_sliceByteCount env \<rparr> \<in> set (f # found)
       then {loc} else {})" if "k' < length ds" "i' < length (di_checksumPairs (ds ! k'))" for k' i'
    using rec2 [OF that] rec1 [OF that] same [OF that(1), of i'] by auto
  with 1 2 show ?case by auto
qed auto

section \<open>The invariant of the scan\<close>

text \<open>Slice \<open>i\<close> of file \<open>k\<close> has the checksums of the buffer's slice at \<open>off\<close>; its location there.\<close>

definition matches_at :: "decoderInputFileInfo list \<Rightarrow> scan_env \<Rightarrow> nat \<Rightarrow> nat \<Rightarrow> nat \<Rightarrow> bool" where
  "matches_at ds env k i off \<longleftrightarrow>
     pair_matches (di_checksumPairs (ds ! k) ! i) (pad_slice (e_sliceByteCount env) (e_data env) off)"

definition loc_at :: "scan_env \<Rightarrow> nat \<Rightarrow> shardLocation" where
  "loc_at env off = \<lparr> sl_fileID = e_fileID env, sl_start = e_baseOffset env + off \<rparr>"

text \<open>
  The rolling state: after a miss that slides, the CRC is the one of the slice one byte before the
  cursor, and the search started at or before it.
\<close>

definition roll_ok :: "scan_env \<Rightarrow> scan_state \<Rightarrow> bool" where
  "roll_ok env st \<longleftrightarrow> windows_ok (s_windows st) \<and>
     (\<forall>w. s_window st = Some w \<longrightarrow> newCRC32Window (e_sliceByteCount env) = Inr w) \<and>
     (s_justMissed st \<longrightarrow> 0 < s_j st \<and> s_slideStart st \<le> s_j st \<and>
        s_crcSlice st = ChecksumIEEE (pad_slice (e_sliceByteCount env) (e_data env) (s_j st - 1)))"

definition search_base :: "scan_state \<Rightarrow> nat" where
  "search_base st = (if s_justMissed st then s_slideStart st else s_j st)"

lemma newCRC32Window_some: "4 \<le> n \<Longrightarrow> \<exists>w. newCRC32Window n = Inr w"
  by (simp add: newCRC32Window_def Let_def)

text \<open>The CRC the loop uses is the CRC of the slice at the cursor.\<close>

lemma scan_crc_ok:
  assumes env: "env_ok_scan ds env" and roll: "roll_ok env st" and j: "s_j st < e_limit env"
  defines "sl \<equiv> pad_slice (e_sliceByteCount env) (e_data env) (s_j st)"
  shows "\<exists>x y. scan_crc env sl st = Inr (st\<lparr> s_crcSlice := ChecksumIEEE sl, s_window := x, s_windows := y \<rparr>) \<and>
    windows_ok y \<and> (\<forall>w. x = Some w \<longrightarrow> newCRC32Window (e_sliceByteCount env) = Inr w)"
proof (cases "s_justMissed st")
  case False
  have "scan_crc env sl st
      = Inr (st\<lparr> s_crcSlice := ChecksumIEEE sl, s_window := s_window st, s_windows := s_windows st \<rparr>)"
    using False by (simp add: scan_crc_def)
  then show ?thesis using roll unfolding roll_ok_def by blast
next
  case True
  let ?n = "e_sliceByteCount env"
  have jd: "s_j st < length (e_data env)" and n: "4 \<le> ?n" using env j by (auto simp: env_ok_scan_def)
  have j0: "0 < s_j st" and crc: "s_crcSlice st = ChecksumIEEE (pad_slice ?n (e_data env) (s_j st - 1))"
    using roll True by (auto simp: roll_ok_def)
  obtain w y where w: "(case s_window st of
            None \<Rightarrow> crc32WindowFor ?n (s_windows st)
          | Some w \<Rightarrow> Inr (w, s_windows st)) = Inr (w, y)" and wn: "newCRC32Window ?n = Inr w" "windows_ok y"
  proof (cases "s_window st")
    case None
    obtain w y where "crc32WindowFor ?n (s_windows st) = Inr (w, y)"
      using newCRC32Window_some [OF n]
      by (cases "s_windows st ?n") (auto simp: crc32WindowFor_def)
    moreover from crc32WindowFor_ok [OF _ this] roll have "newCRC32Window ?n = Inr w" "windows_ok y"
      by (auto simp: roll_ok_def)
    ultimately show ?thesis using that None by simp
  next
    case (Some w)
    then show ?thesis using that roll by (auto simp: roll_ok_def)
  qed
  have ne: "sl \<noteq> []" using n by (auto simp: sl_def dest: arg_cong [of _ _ length])
  have len: "length sl = ?n" by (simp add: sl_def)
  have "scan_crc env sl st = Inr (st\<lparr> s_crcSlice := ChecksumIEEE sl, s_window := Some w, s_windows := y \<rparr>)"
    using True j0 jd n ne w roll_step [OF wn(1) j0 jd] by (simp add: scan_crc_def crc len flip: sl_def)
  then show ?thesis using wn by blast
qed

text \<open>One turn of the loop records exactly the matches at the cursor and moves on.\<close>

lemma scan_step_ok:
  assumes env: "env_ok_scan ds env" and roll: "roll_ok env st" and j: "s_j st < e_limit env"
    and ok: "infos_ok ds (s_infos st)"
  shows "\<exists>st'. scan_step env st = Inr st' \<and> roll_ok env st' \<and> infos_ok ds (s_infos st') \<and>
    (\<forall>k i. k < length ds \<longrightarrow> i < length (di_checksumPairs (ds ! k)) \<longrightarrow>
      recorded (s_infos st') k i = recorded (s_infos st) k i \<union>
        (if matches_at ds env k i (s_j st) then {loc_at env (s_j st)} else {})) \<and>
    (search_base st < search_base st' \<or> search_base st' = search_base st \<and> s_j st < s_j st') \<and>
    (\<not> findMisaligned (e_policy env) \<longrightarrow> s_j st' = s_j st + e_sliceByteCount env)"
proof -
  let ?n = "e_sliceByteCount env"
  define sl where "sl = pad_slice ?n (e_data env) (s_j st)"
  have n: "4 \<le> ?n" and jd: "s_j st \<le> length (e_data env)" using env j by (auto simp: env_ok_scan_def)
  from scan_crc_ok [OF env roll j] obtain x y where
    crc: "scan_crc env sl st = Inr (st\<lparr> s_crcSlice := ChecksumIEEE sl, s_window := x, s_windows := y \<rparr>)"
    and win: "windows_ok y" "\<forall>w. x = Some w \<longrightarrow> newCRC32Window ?n = Inr w"
    by (auto simp: sl_def)
  define st1 where "st1 = st\<lparr> s_crcSlice := ChecksumIEEE sl, s_window := x, s_windows := y \<rparr>"
  have same: "s_j st1 = s_j st" "s_infos st1 = s_infos st" "s_justMissed st1 = s_justMissed st"
    "s_slideStart st1 = s_slideStart st" "s_crcSlice st1 = ChecksumIEEE sl" "s_window st1 = x" "s_windows st1 = y"
    by (simp_all add: st1_def)
  define found where "found = map_get (e_checksumToLocation env) (ChecksumIEEE sl) sl"
  have fset: "set found = {\<lparr> sl_fileID = di_fileID info, sl_start = i * ?n \<rparr> | info i. info \<in> set ds \<and>
        i < length (di_checksumPairs info) \<and> pair_matches (di_checksumPairs info ! i) sl}"
    using env by (simp add: found_def env_ok_scan_def map_get_make)
  have step: "scan_step env st = (if found = [] then Inr (scan_miss env st1) else scan_hit env found st1)"
    using crc by (simp add: scan_step_def sliceAndPad_eq [OF jd] found_def same(5) flip: sl_def st1_def)
  have matches: "matches_at ds env k i (s_j st) \<longleftrightarrow>
      \<lparr> sl_fileID = di_fileID (ds ! k), sl_start = i * ?n \<rparr> \<in> set found"
    if "k < length ds" "i < length (di_checksumPairs (ds ! k))" for k i
  proof -
    have "distinct (map di_fileID ds)" "?n \<noteq> 0" using env by (auto simp: env_ok_scan_def)
    then have "info = ds ! k" if "info \<in> set ds" "di_fileID info = di_fileID (ds ! k)" for info
      using that \<open>k < length ds\<close> by (metis distinct_map inj_onD nth_mem)
    then show ?thesis using that \<open>?n \<noteq> 0\<close> by (auto simp: fset matches_at_def sl_def)
  qed
  have roll_j: "s_justMissed st \<Longrightarrow> s_slideStart st \<le> s_j st"
    using roll by (simp add: roll_ok_def)
  show ?thesis
  proof (cases "found = []")
    case True
    define st' where "st' = scan_miss env st1"
    have "s_infos st' = s_infos st" by (simp add: st'_def scan_miss_def Let_def same)
    moreover have "roll_ok env st'"
      using win roll_j
      by (auto simp: st'_def scan_miss_def Let_def same roll_ok_def sl_def)
    moreover have "search_base st < search_base st' \<or> search_base st' = search_base st \<and> s_j st < s_j st'"
      using n roll_j by (auto simp: st'_def scan_miss_def Let_def same search_base_def)
    moreover have "\<not> findMisaligned (e_policy env) \<longrightarrow> s_j st' = s_j st + ?n"
      by (simp add: st'_def scan_miss_def Let_def same)
    moreover have "scan_step env st = Inr st'" by (simp add: step True st'_def)
    ultimately show ?thesis using ok matches True by auto
  next
    case False
    have "set found \<subseteq> {\<lparr> sl_fileID = di_fileID (ds ! k), sl_start = i * ?n \<rparr> | k i.
      k < length ds \<and> i < length (di_checksumPairs (ds ! k))}"
      unfolding fset by (auto simp: in_set_conv_nth)
    from record_matches_ok [OF env ok this, of "loc_at env (s_j st)"] obtain infos' where
      rec: "foldR (record_match env (loc_at env (s_j st))) found (s_infos st) = Inr infos'" "infos_ok ds infos'"
      "\<And>k i. k < length ds \<Longrightarrow> i < length (di_checksumPairs (ds ! k)) \<Longrightarrow>
        recorded infos' k i = recorded (s_infos st) k i \<union>
        (if \<lparr> sl_fileID = di_fileID (ds ! k), sl_start = i * ?n \<rparr> \<in> set found then {loc_at env (s_j st)} else {})"
      by blast
    define st' where "st' = st1\<lparr> s_infos := infos', s_justMissed := False, s_j := s_j st + ?n,
      s_hits := s_hits st1 + 1 \<rparr>"
    have hit: "scan_step env st = Inr st'"
      using rec(1) False by (simp add: step scan_hit_def same loc_at_def st'_def)
    moreover have "roll_ok env st'" using win by (simp add: st'_def roll_ok_def same)
    moreover have "search_base st < search_base st'"
      using n roll_j by (auto simp: st'_def search_base_def)
    ultimately show ?thesis using rec matches by (auto simp: st'_def)
  qed
qed

section \<open>The whole scan\<close>

lemma ex_nat_cases: "(\<exists>q. Q q) \<longleftrightarrow> Q 0 \<or> (\<exists>q. Q (Suc q))"
  by (metis not0_implies_Suc)

text \<open>What a scan adds: only matches, and at slice boundaries all of them.\<close>

definition adds_matches :: "decoderInputFileInfo list \<Rightarrow> scan_env \<Rightarrow> fileIntegrityInfo list \<Rightarrow>
    fileIntegrityInfo list \<Rightarrow> bool" where
  "adds_matches ds env infos infos' \<longleftrightarrow> (\<forall>k < length ds. \<forall>i < length (di_checksumPairs (ds ! k)).
     recorded infos k i \<subseteq> recorded infos' k i \<and>
     recorded infos' k i \<subseteq> recorded infos k i \<union>
       {loc_at env off | off. off < e_limit env \<and> matches_at ds env k i off})"

definition adds_aligned :: "decoderInputFileInfo list \<Rightarrow> scan_env \<Rightarrow> nat \<Rightarrow> fileIntegrityInfo list \<Rightarrow>
    fileIntegrityInfo list \<Rightarrow> bool" where
  "adds_aligned ds env j infos infos' \<longleftrightarrow> (\<forall>k < length ds. \<forall>i < length (di_checksumPairs (ds ! k)).
     recorded infos' k i = recorded infos k i \<union>
       {loc_at env (j + q * e_sliceByteCount env) | q. j + q * e_sliceByteCount env < e_limit env \<and>
          matches_at ds env k i (j + q * e_sliceByteCount env)})"

definition adds_at :: "decoderInputFileInfo list \<Rightarrow> scan_env \<Rightarrow> nat \<Rightarrow> fileIntegrityInfo list \<Rightarrow>
    fileIntegrityInfo list \<Rightarrow> bool" where
  "adds_at ds env j infos infos' \<longleftrightarrow> (\<forall>k < length ds. \<forall>i < length (di_checksumPairs (ds ! k)).
     recorded infos' k i = recorded infos k i \<union>
       (if matches_at ds env k i j then {loc_at env j} else {}))"

lemma adds_matches_step:
  assumes "adds_at ds env j infos infos1" and "adds_matches ds env infos1 infos2" and "j < e_limit env"
  shows "adds_matches ds env infos infos2"
  unfolding adds_matches_def
proof (intro allI impI)
  fix k i assume ki: "k < length ds" "i < length (di_checksumPairs (ds ! k))"
  let ?M = "{loc_at env off | off. off < e_limit env \<and> matches_at ds env k i off}"
  have "recorded infos1 k i = recorded infos k i \<union> (if matches_at ds env k i j then {loc_at env j} else {})"
    using assms(1) ki by (simp add: adds_at_def)
  moreover have "(if matches_at ds env k i j then {loc_at env j} else {}) \<subseteq> ?M"
    using assms(3) by auto
  moreover have "recorded infos1 k i \<subseteq> recorded infos2 k i" "recorded infos2 k i \<subseteq> recorded infos1 k i \<union> ?M"
    using assms(2) ki by (simp_all add: adds_matches_def)
  ultimately show "recorded infos k i \<subseteq> recorded infos2 k i \<and> recorded infos2 k i \<subseteq> recorded infos k i \<union> ?M"
    by blast
qed

lemma adds_aligned_step:
  assumes "adds_at ds env j infos infos1" and "adds_aligned ds env (j + e_sliceByteCount env) infos1 infos2"
    and "j < e_limit env"
  shows "adds_aligned ds env j infos infos2"
  unfolding adds_aligned_def
proof (intro allI impI)
  fix k i assume ki: "k < length ds" "i < length (di_checksumPairs (ds ! k))"
  let ?n = "e_sliceByteCount env"
  define P where "P off \<longleftrightarrow> off < e_limit env \<and> matches_at ds env k i off" for off
  have 1: "recorded infos1 k i = recorded infos k i \<union> (if P j then {loc_at env j} else {})"
    using assms(1,3) ki by (simp add: adds_at_def P_def)
  have 2: "recorded infos2 k i = recorded infos1 k i \<union> {loc_at env (j + ?n + q * ?n) | q. P (j + ?n + q * ?n)}"
    using assms(2) ki by (simp add: adds_aligned_def P_def)
  have "{loc_at env (j + q * ?n) | q. P (j + q * ?n)}
      = (if P j then {loc_at env j} else {}) \<union> {loc_at env (j + ?n + q * ?n) | q. P (j + ?n + q * ?n)}" (is "?L = ?R")
  proof (rule set_eqI)
    fix x
    have "x \<in> ?L \<longleftrightarrow> (\<exists>q. P (j + q * ?n) \<and> x = loc_at env (j + q * ?n))" by auto
    also have "\<dots> \<longleftrightarrow> (P j \<and> x = loc_at env j) \<or> (\<exists>q. P (j + Suc q * ?n) \<and> x = loc_at env (j + Suc q * ?n))"
      by (subst ex_nat_cases) simp
    also have "\<dots> \<longleftrightarrow> x \<in> ?R" by (auto simp: add.assoc)
    finally show "x \<in> ?L \<longleftrightarrow> x \<in> ?R" .
  qed
  with 1 2 have "recorded infos2 k i = recorded infos k i \<union> {loc_at env (j + q * ?n) | q. P (j + q * ?n)}"
    by (simp only: Un_assoc)
  then show "recorded infos2 k i = recorded infos k i \<union> {loc_at env (j + q * ?n) | q.
      j + q * ?n < e_limit env \<and> matches_at ds env k i (j + q * ?n)}"
    by (simp only: P_def)
qed

lemma scan_loop_ok:
  assumes env: "env_ok_scan ds env" and "roll_ok env st" and "infos_ok ds (s_infos st)"
  shows "\<exists>st'. scan_loop env st = Some (Inr st') \<and> infos_ok ds (s_infos st') \<and> windows_ok (s_windows st') \<and>
    adds_matches ds env (s_infos st) (s_infos st') \<and>
    (\<not> findMisaligned (e_policy env) \<longrightarrow> adds_aligned ds env (s_j st) (s_infos st) (s_infos st'))"
  using assms(2,3)
proof (induction st rule: wf_induct_rule [OF wf_measures
      [of "[\<lambda>st. e_limit env - search_base st, \<lambda>st. e_limit env - s_j st]"]])
  case (1 st)
  show ?case
  proof (cases "s_j st < e_limit env")
    case False
    then have "scan_loop env st = Some (Inr st)" by (simp add: scan_loop.simps)
    then show ?thesis
      using "1.prems" False by (auto simp: roll_ok_def adds_matches_def adds_aligned_def)
  next
    case True
    from scan_step_ok [OF env "1.prems"(1) True "1.prems"(2)] obtain st1 where
      step: "scan_step env st = Inr st1" "roll_ok env st1" "infos_ok ds (s_infos st1)"
      and rec1: "adds_at ds env (s_j st) (s_infos st) (s_infos st1)"
      and dec: "search_base st < search_base st1 \<or> search_base st1 = search_base st \<and> s_j st < s_j st1"
      and next_j: "\<not> findMisaligned (e_policy env) \<longrightarrow> s_j st1 = s_j st + e_sliceByteCount env"
      unfolding adds_at_def by blast
    have "search_base st < e_limit env"
      using True "1.prems"(1) by (auto simp: search_base_def roll_ok_def)
    then have "(st1, st) \<in> measures [\<lambda>st. e_limit env - search_base st, \<lambda>st. e_limit env - s_j st]"
      using dec True by auto
    from "1.IH" [OF this step(2,3)] obtain st2 where
      loop: "scan_loop env st1 = Some (Inr st2)" "infos_ok ds (s_infos st2)" "windows_ok (s_windows st2)"
      and rec2: "adds_matches ds env (s_infos st1) (s_infos st2)"
      and al2: "\<not> findMisaligned (e_policy env) \<longrightarrow> adds_aligned ds env (s_j st1) (s_infos st1) (s_infos st2)"
      by blast
    have "scan_loop env st = Some (Inr st2)"
      by (simp add: scan_loop.simps [of env st] True step(1) loop(1))
    moreover have "adds_matches ds env (s_infos st) (s_infos st2)"
      by (rule adds_matches_step [OF rec1 rec2 True])
    moreover have "adds_aligned ds env (s_j st) (s_infos st) (s_infos st2)" if "\<not> findMisaligned (e_policy env)"
      using adds_aligned_step [OF rec1 _ True] al2 next_j that by simp
    ultimately show ?thesis using loop(2,3) by blast
  qed
qed

lemma scanBuffer_ok:
  assumes "env_ok_scan ds env" and "infos_ok ds infos" and "windows_ok windows"
  shows "\<exists>st'. scanBuffer env infos windows = Some (Inr st') \<and> infos_ok ds (s_infos st') \<and>
    windows_ok (s_windows st') \<and> adds_matches ds env infos (s_infos st') \<and>
    (\<not> findMisaligned (e_policy env) \<longrightarrow> adds_aligned ds env 0 infos (s_infos st'))"
proof -
  have "roll_ok env (scan_init infos windows)" using assms(3) by (simp add: roll_ok_def scan_init_def)
  from scan_loop_ok [OF assms(1) this] assms(2) show ?thesis
    by (simp add: scanBuffer_def scan_init_def)
qed

text \<open>
  C15: The scan always returns and records only real matches.  For every policy, aligned or sliding
  with any search limit, on a buffer with \<open>limit\<close> inside it and a slice size of at least four,
  \<open>scanBuffer\<close> terminates without panic; it keeps every location recorded before, and every location
  it adds for a slice is a position in the buffer where the (zero-padded) bytes have both checksums
  of that slice, although it computes most CRCs by rolling.
\<close>

theorem scanBuffer_sound:
  assumes "env_ok_scan ds env" and "infos_ok ds infos" and "windows_ok windows"
  shows "\<exists>st'. scanBuffer env infos windows = Some (Inr st') \<and> infos_ok ds (s_infos st') \<and>
    (\<forall>k < length ds. \<forall>i < length (di_checksumPairs (ds ! k)).
      recorded infos k i \<subseteq> recorded (s_infos st') k i \<and>
      recorded (s_infos st') k i \<subseteq> recorded infos k i \<union>
        {loc_at env off | off. off < e_limit env \<and> matches_at ds env k i off})"
  using scanBuffer_ok [OF assms] unfolding adds_matches_def by blast

text \<open>A one-file recovery set with one slice, and a buffer that holds the slice one byte late.\<close>

definition example_info :: decoderInputFileInfo where
  "example_info = \<lparr> di_fileID = arr_of [1], di_filename = str ''a'', di_byteCount = 4,
     di_sixteenKHash = zero_arr, di_hash = zero_arr,
     di_checksumPairs = [\<lparr> cp_MD5 = md5 [1, 2, 3, 4], cp_CRC32 = arr_of (le_bytes 4 (ChecksumIEEE [1, 2, 3, 4])) \<rparr>] \<rparr>"

definition example_env :: scan_env where
  "example_env = \<lparr> e_sliceByteCount = 4, e_data = [9, 1, 2, 3, 4], e_limit = 5, e_baseOffset = 0,
     e_checksumToLocation = makeChecksumShardLocationMap 4 [example_info], e_fileID = arr_of [1],
     e_fileIDIndices = file_id_indices [example_info],
     e_policy = \<lparr> findMisaligned = True, searchLimit = 0 \<rparr> \<rparr>"

theorem scanBuffer_sound_witness:
  "\<exists>st'. scanBuffer example_env (new_integrity_infos [example_info]) Map.empty = Some (Inr st') \<and>
    infos_ok [example_info] (s_infos st') \<and>
    recorded (s_infos st') 0 0 \<subseteq> {loc_at example_env off | off. off < 5 \<and> matches_at [example_info] example_env 0 0 off}"
proof -
  have "env_ok_scan [example_info] example_env" by (simp add: env_ok_scan_def example_env_def)
  moreover have "windows_ok Map.empty" by (simp add: windows_ok_def)
  ultimately show ?thesis
    using scanBuffer_sound [of "[example_info]" example_env "new_integrity_infos [example_info]" Map.empty]
      infos_ok_new [of "[example_info]"] recorded_new [of 0 "[example_info]" 0]
    by (auto simp: example_info_def example_env_def)
qed

section \<open>From creation to verification\<close>

lemma data_slices_ok:
  assumes "0 < n" and "i \<le> length data + n"
  shows "data_slices n data i sh cp = Some (Inr
    (sh @ map (\<lambda>q. pad_slice n data (i + q * n)) [0..<(length data - i + n - 1) div n],
     cp @ map (\<lambda>q. let s = pad_slice n data (i + q * n)
        in \<lparr> cp_MD5 = md5 s, cp_CRC32 = arr_of (le_bytes 4 (ChecksumIEEE s)) \<rparr>)
       [0..<(length data - i + n - 1) div n]))"
  using assms(2)
proof (induction "length data - i" arbitrary: i sh cp rule: less_induct)
  case less
  show ?case
  proof (cases "i < length data")
    case False
    then have "(length data - i + n - 1) div n = 0" using assms(1) by simp
    then show ?thesis using False by (subst data_slices.simps) simp
  next
    case True
    let ?c = "pad_slice n data i"
    have "(length data - i + n - 1) div n = Suc ((length data - (i + n) + n - 1) div n)"
    proof (cases "i + n \<le> length data")
      case True
      have e: "length data - i + n - 1 = (length data - (i + n) + n - 1) + n" using True assms(1) by simp
      show ?thesis unfolding e using assms(1) by (subst div_add_self2) simp_all
    next
      case False
      then have e: "length data - i + n - 1 = (length data - i - 1) + n" using \<open>i < length data\<close> assms(1) by simp
      have "(length data - i - 1) div n = 0" using False \<open>i < length data\<close> by simp
      moreover have "(length data - (i + n) + n - 1) div n = 0" using False assms(1) by simp
      ultimately show ?thesis unfolding e using assms(1) by (subst div_add_self2) simp_all
    qed
    then have "[0..<(length data - i + n - 1) div n]
        = 0 # map Suc [0..<(length data - (i + n) + n - 1) div n]"
      by (simp only: map_Suc_upt upt_conv_Cons zero_less_Suc)
    moreover have "data_slices n data i sh cp = data_slices n data (i + n) (sh @ [?c])
        (cp @ [\<lparr> cp_MD5 = md5 ?c, cp_CRC32 = arr_of (le_bytes 4 (ChecksumIEEE ?c)) \<rparr>])"
      using True by (subst data_slices.simps) (simp add: sliceAndPad_eq)
    ultimately show ?thesis
      using less.hyps [of "i + n"] True assms(1) by (simp add: o_def add.assoc Let_def)
  qed
qed

lemma slice_index: "0 < n \<Longrightarrow> q < (l + n - 1) div n \<longleftrightarrow> q * n < (l :: nat)"
proof -
  assume n: "0 < n"
  have "q < (l + n - 1) div n \<longleftrightarrow> Suc q * n \<le> l + n - 1"
    using n by (metis Suc_le_eq less_eq_div_iff_mult_less_eq)
  also have "\<dots> \<longleftrightarrow> q * n < l" using n by auto
  finally show ?thesis .
qed

lemma pair_matches_own:
  "pair_matches \<lparr> cp_MD5 = md5 s, cp_CRC32 = arr_of (le_bytes 4 (ChecksumIEEE s)) \<rparr> d \<longleftrightarrow>
     ChecksumIEEE s = ChecksumIEEE d \<and> md5 s = md5 d"
  by (simp add: pair_matches_def)

text \<open>The verdict on one file, scanned on its own at slice boundaries.\<close>

lemma fillShardInfos_verdict:
  assumes "distinct (map di_fileID ds)" and "4 \<le> n" and k: "k < length ds" and "windows_ok windows"
  shows "\<exists>st'. fillShardInfos n data (makeChecksumShardLocationMap n ds) (di_fileID (ds ! k))
      (new_integrity_infos ds) (file_id_indices ds) defaultScanPolicy windows = Some (Inr st') \<and>
    (allShardsOK n (s_infos st' ! k) \<longleftrightarrow> (\<forall>i < length (di_checksumPairs (ds ! k)).
       i * n < length data \<and> pair_matches (di_checksumPairs (ds ! k) ! i) (pad_slice n data (i * n))))"
proof -
  define env where "env = \<lparr> e_sliceByteCount = n, e_data = data, e_limit = length data,
    e_baseOffset = 0, e_checksumToLocation = makeChecksumShardLocationMap n ds, e_fileID = di_fileID (ds ! k),
    e_fileIDIndices = file_id_indices ds, e_policy = defaultScanPolicy \<rparr>"
  have env: "env_ok_scan ds env" using assms by (simp add: env_ok_scan_def env_def)
  from scanBuffer_ok [OF env infos_ok_new assms(4)] obtain st' where
    st': "scanBuffer env (new_integrity_infos ds) windows = Some (Inr st')" "infos_ok ds (s_infos st')"
    and al: "adds_aligned ds env 0 (new_integrity_infos ds) (s_infos st')"
    by (auto simp: env_def defaultScanPolicy_def)
  have "shard_ok (fi_shardInfos (s_infos st' ! k) ! i) \<lparr> sl_fileID = di_fileID (ds ! k), sl_start = i * n \<rparr>
      \<longleftrightarrow> i * n < length data \<and> pair_matches (di_checksumPairs (ds ! k) ! i) (pad_slice n data (i * n))"
    if i: "i < length (di_checksumPairs (ds ! k))" for i
  proof -
    have "recorded (s_infos st') k i = {loc_at env (q * n) | q. q * n < length data \<and> matches_at ds env k i (q * n)}"
      using al k i recorded_new [OF k i] by (simp add: adds_aligned_def env_def)
    then have "\<lparr> sl_fileID = di_fileID (ds ! k), sl_start = i * n \<rparr> \<in> recorded (s_infos st') k i \<longleftrightarrow>
        i * n < length data \<and> pair_matches (di_checksumPairs (ds ! k) ! i) (pad_slice n data (i * n))"
      using assms(2) by (auto simp: loc_at_def env_def matches_at_def)
    moreover have "shard_ok (fi_shardInfos (s_infos st' ! k) ! i) loc \<longleftrightarrow> loc \<in> recorded (s_infos st') k i" for loc
      using infos_okD(4) [OF st'(2) k i] by (auto simp: shard_ok_def recorded_def)
    ultimately show ?thesis by simp
  qed
  then have "allShardsOK n (s_infos st' ! k) \<longleftrightarrow> (\<forall>i < length (di_checksumPairs (ds ! k)).
       i * n < length data \<and> pair_matches (di_checksumPairs (ds ! k) ! i) (pad_slice n data (i * n)))"
    using infos_okD(2,3) [OF st'(2) k] by (auto simp: allShardsOK_def list_all_iff)
  moreover have "fillShardInfos n data (makeChecksumShardLocationMap n ds) (di_fileID (ds ! k))
      (new_integrity_infos ds) (file_id_indices ds) defaultScanPolicy windows = Some (Inr st')"
    using st'(1) by (simp add: fillShardInfos_def env_def)
  ultimately show ?thesis by blast
qed

text \<open>
  C6: Verification against created checksums.  Let the checksum pairs of a file be the ones
  \<open>computeDataFileInfo\<close> computes from its original contents.  Scanning some contents of the same length
  at slice boundaries returns, and finds all shards of the file in place exactly when every slice of
  these contents has the CRC-32 and the MD5 of the same slice of the original; in particular the
  original itself always passes.
\<close>

theorem created_file_verdict:
  assumes "computeDataFileInfo n name orig = Some (Inr (i, fd, ifsc, shards))"
    and "distinct (map di_fileID ds)" and "4 \<le> n" and "k < length ds" and "windows_ok windows"
    and "di_checksumPairs (ds ! k) = ip_checksumPairs ifsc" and "length data = length orig"
  shows "\<exists>st'. fillShardInfos n data (makeChecksumShardLocationMap n ds) (di_fileID (ds ! k))
      (new_integrity_infos ds) (file_id_indices ds) defaultScanPolicy windows = Some (Inr st') \<and>
    (allShardsOK n (s_infos st' ! k) \<longleftrightarrow> (\<forall>q. q * n < length orig \<longrightarrow>
       ChecksumIEEE (pad_slice n orig (q * n)) = ChecksumIEEE (pad_slice n data (q * n)) \<and>
       md5 (pad_slice n orig (q * n)) = md5 (pad_slice n data (q * n))))"
proof -
  have n: "0 < n" using assms(3) by simp
  define N where "N = (length orig + n - 1) div n"
  have "ip_checksumPairs ifsc = map (\<lambda>q. let s = pad_slice n orig (q * n)
        in \<lparr> cp_MD5 = md5 s, cp_CRC32 = arr_of (le_bytes 4 (ChecksumIEEE s)) \<rparr>) [0..<N]"
    using assms(1) data_slices_ok [OF n, of 0 orig "[]" "[]"] by (auto simp: computeDataFileInfo_def N_def)
  then have pairs: "length (di_checksumPairs (ds ! k)) = N"
    "\<And>q d. q < N \<Longrightarrow> pair_matches (di_checksumPairs (ds ! k) ! q) d \<longleftrightarrow>
      ChecksumIEEE (pad_slice n orig (q * n)) = ChecksumIEEE d \<and> md5 (pad_slice n orig (q * n)) = md5 d"
    by (simp_all add: assms(6) Let_def pair_matches_own)
  have "q < N \<longleftrightarrow> q * n < length orig" for q
    unfolding N_def by (rule slice_index [OF n])
  with fillShardInfos_verdict [OF assms(2,3,4,5), of data] pairs show ?thesis
    by (simp add: assms(7))
qed

theorem created_file_verdict_witness:
  "\<exists>i fd ifsc shards ds st'. computeDataFileInfo 4 (str ''a'') [1, 2, 3, 4, 5] = Some (Inr (i, fd, ifsc, shards)) \<and>
    ds = [\<lparr> di_fileID = i, di_filename = str ''a'', di_byteCount = 5, di_sixteenKHash = zero_arr,
      di_hash = zero_arr, di_checksumPairs = ip_checksumPairs ifsc \<rparr>] \<and>
    fillShardInfos 4 [1, 2, 3, 4, 5] (makeChecksumShardLocationMap 4 ds) i (new_integrity_infos ds)
      (file_id_indices ds) defaultScanPolicy Map.empty = Some (Inr st') \<and> allShardsOK 4 (s_infos st' ! 0)"
proof -
  obtain i fd ifsc shards where c: "computeDataFileInfo 4 (str ''a'') [1, 2, 3, 4, 5] = Some (Inr (i, fd, ifsc, shards))"
    using data_slices_ok [of 4 0 "[1, 2, 3, 4, 5]" "[]" "[]"] by (simp add: computeDataFileInfo_def)
  define ds where "ds = [\<lparr> di_fileID = i, di_filename = str ''a'', di_byteCount = 5, di_sixteenKHash = zero_arr,
      di_hash = zero_arr, di_checksumPairs = ip_checksumPairs ifsc \<rparr>]"
  have "\<exists>st'. fillShardInfos 4 [1, 2, 3, 4, 5] (makeChecksumShardLocationMap 4 ds) (di_fileID (ds ! 0))
      (new_integrity_infos ds) (file_id_indices ds) defaultScanPolicy Map.empty = Some (Inr st') \<and>
    (allShardsOK 4 (s_infos st' ! 0) \<longleftrightarrow> (\<forall>q. q * 4 < length [1, 2, 3, 4, 5 :: byte] \<longrightarrow>
       ChecksumIEEE (pad_slice 4 [1, 2, 3, 4, 5] (q * 4)) = ChecksumIEEE (pad_slice 4 [1, 2, 3, 4, 5] (q * 4)) \<and>
       md5 (pad_slice 4 [1, 2, 3, 4, 5] (q * 4)) = md5 (pad_slice 4 [1, 2, 3, 4, 5] (q * 4))))"
    by (rule created_file_verdict [OF c]) (simp_all add: ds_def windows_ok_def)
  then obtain st' where "fillShardInfos 4 [1, 2, 3, 4, 5] (makeChecksumShardLocationMap 4 ds) i
      (new_integrity_infos ds) (file_id_indices ds) defaultScanPolicy Map.empty = Some (Inr st')"
    "allShardsOK 4 (s_infos st' ! 0)"
    by (auto simp: ds_def)
  with c show ?thesis using ds_def by blast
qed

end
