(* ===== verification/PacketFile.thy ===== *)
theory PacketFile
  imports PacketBodies
begin

text \<open>
  A whole PAR2 file (\<open>par2/file.go\<close>): \<open>readFile\<close> reads packets to the end of the input and sorts
  them into the fields of a \<open>file\<close> (here \<open>par2file\<close>); \<open>writeFile\<close> writes creator, main, per-file and recovery packets
  and computes the set identifier from the main packet.  The calls of the \<open>DecoderDelegate\<close> are kept
  as a list of events, in the order they are made.
\<close>

record par2file =
  f_clientID :: gostring
  f_mainPacket :: "mainPacket option"
  f_fileDescriptionPackets :: "fileID \<rightharpoonup> fileDescriptionPacket"
  f_ifscPackets :: "fileID \<rightharpoonup> ifscPacket"
  f_recoveryPackets :: "exponent \<rightharpoonup> recoveryPacket"
  f_unknownPackets :: "packetType \<rightharpoonup> byte list list"

datatype delegate_event =
    OnOtherPacketSkip recoverySetID packetType nat
  | OnCreatorPacketLoad gostring
  | OnMainPacketLoad int nat nat
  | OnFileDescriptionPacketLoad fileID gostring int
  | OnIFSCPacketLoad fileID
  | OnRecoveryPacketLoad exponent nat
  | OnUnknownPacketLoad packetType nat

section \<open>readFile\<close>

text \<open>
  The local variables of \<open>readFile\<close>.  \<open>setID\<close> with \<open>hasSetID\<close>, \<open>clientID\<close> with \<open>foundClientID\<close> and
  the pointer \<open>mainPacket\<close> are options; \<open>r_events\<close> holds the delegate calls so far.
\<close>

record rstate =
  r_setID :: "recoverySetID option"
  r_foundPacket :: bool
  r_clientID :: "gostring option"
  r_mainPacket :: "mainPacket option"
  r_fileDescriptionPackets :: "fileID \<rightharpoonup> fileDescriptionPacket"
  r_ifscPackets :: "fileID \<rightharpoonup> ifscPacket"
  r_recoveryPackets :: "exponent \<rightharpoonup> recoveryPacket"
  r_unknownPackets :: "packetType \<rightharpoonup> byte list list"
  r_events :: "delegate_event list"

definition emit :: "delegate_event \<Rightarrow> rstate \<Rightarrow> rstate" where
  "emit e st = st\<lparr> r_events := r_events st @ [e] \<rparr>"

text \<open>The \<open>switch\<close> on the packet type: the state after the packet, and the error that ends the loop.\<close>

definition load_packet :: "packetType \<Rightarrow> byte list \<Rightarrow> rstate \<Rightarrow> rstate \<times> go_error option" where
  "load_packet typ body st =
    (if typ = creatorPacketType then
       let clientID = readCreatorPacket body
       in ((emit (OnCreatorPacketLoad clientID) st)\<lparr> r_clientID := Some clientID \<rparr>, None)
     else if typ = mainPacketType then
       (case readMainPacket body of
          Inl e \<Rightarrow> (st, Some e)
        | Inr m \<Rightarrow> (emit (OnMainPacketLoad (mp_sliceByteCount m) (length (mp_recoverySet m))
                     (length (mp_nonRecoverySet m))) (st\<lparr> r_mainPacket := Some m \<rparr>), None))
     else if typ = fileDescriptionPacketType then
       (case readFileDescriptionPacket body of
          Inl e \<Rightarrow> (st, Some e)
        | Inr (i, p) \<Rightarrow>
            ((emit (OnFileDescriptionPacketLoad i (fd_filename p) (fd_byteCount p)) st)
               \<lparr> r_fileDescriptionPackets := (r_fileDescriptionPackets st)(i \<mapsto> p) \<rparr>, None))
     else if typ = ifscPacketType then
       (case readIFSCPacket body of
          Inl e \<Rightarrow> (st, Some e)
        | Inr (i, p) \<Rightarrow>
            ((emit (OnIFSCPacketLoad i) st)\<lparr> r_ifscPackets := (r_ifscPackets st)(i \<mapsto> p) \<rparr>, None))
     else if typ = recoveryPacketType then
       (case readRecoveryPacket body of
          Inl e \<Rightarrow> (st, Some e)
        | Inr (ex, p) \<Rightarrow>
            let st1 = emit (OnRecoveryPacketLoad ex (length (rp_data p))) st
            in if (case r_recoveryPackets st1 ex of Some q \<Rightarrow> q \<noteq> p | None \<Rightarrow> False)
               then (st1, Some (ErrorNew ''recovery packet with duplicate exponent but differing contents''))
               else (st1\<lparr> r_recoveryPackets := (r_recoveryPackets st1)(ex \<mapsto> p) \<rparr>, None))
     else
       ((emit (OnUnknownPacketLoad typ (length body)) st)
          \<lparr> r_unknownPackets := (r_unknownPackets st)(typ \<mapsto>
              (case r_unknownPackets st typ of None \<Rightarrow> [] | Some bs \<Rightarrow> bs) @ [body]) \<rparr>, None))"

text \<open>One turn of the loop after a packet has been read: skip it, or take it into the set.\<close>

definition readFile_packet ::
    "recoverySetID \<times> packetType \<times> byte list \<Rightarrow> rstate \<Rightarrow> rstate \<times> go_error option" where
  "readFile_packet = (\<lambda>(packetSetID, typ, body) st.
     case r_setID st of
       Some setID \<Rightarrow>
         if packetSetID \<noteq> setID
         then (emit (OnOtherPacketSkip packetSetID typ (length body)) st, None)
         else load_packet typ body (st\<lparr> r_foundPacket := True \<rparr>)
     | None \<Rightarrow> load_packet typ body (st\<lparr> r_setID := Some packetSetID, r_foundPacket := True \<rparr>))"

function readFile_loop :: "byte list \<Rightarrow> rstate \<Rightarrow> rstate \<times> go_error option" where
  "readFile_loop buf st =
     (case readNextPacket buf of
        Inl e \<Rightarrow> (st, if e = IoEOF then None else Some e)
      | Inr (packet, rest) \<Rightarrow>
          (case readFile_packet packet st of
             (st', Some e) \<Rightarrow> (st', Some e)
           | (st', None) \<Rightarrow> readFile_loop rest st'))"
  by pat_completeness auto
termination
proof (relation "measure (\<lambda>(buf, st). length buf)")
  fix buf st packet x y st' z
  fix rest :: "byte list"
  assume "readNextPacket buf = Inr x" "(packet, rest) = x"
  then obtain i t body where "readNextPacket buf = Inr ((i, t, body), rest)"
    by (cases packet) auto
  from readNextPacket_InrD(1) [OF this]
  show "((rest, st'), (buf, st)) \<in> measure (\<lambda>(buf, st). length buf)" by simp
qed simp

declare readFile_loop.simps [simp del]

definition rstate_init :: "recoverySetID option \<Rightarrow> rstate" where
  "rstate_init expectedSetID = \<lparr> r_setID = expectedSetID, r_foundPacket = False, r_clientID = None,
     r_mainPacket = None, r_fileDescriptionPackets = Map.empty, r_ifscPackets = Map.empty,
     r_recoveryPackets = Map.empty, r_unknownPackets = Map.empty, r_events = [] \<rparr>"

definition readFile_result :: "rstate \<Rightarrow> (recoverySetID \<times> par2file) res" where
  "readFile_result st =
     (if \<not> r_foundPacket st then Inl NoPacketsFoundError
      else case r_clientID st of
        None \<Rightarrow> Inl (ErrorNew ''no creator packet found'')
      | Some clientID \<Rightarrow> Inr (the (r_setID st),
          \<lparr> f_clientID = clientID, f_mainPacket = r_mainPacket st,
            f_fileDescriptionPackets = r_fileDescriptionPackets st, f_ifscPackets = r_ifscPackets st,
            f_recoveryPackets = r_recoveryPackets st, f_unknownPackets = r_unknownPackets st \<rparr>))"

text \<open>\<open>readFile\<close>: the delegate calls it makes, and its result.\<close>

definition readFile ::
    "recoverySetID option \<Rightarrow> byte list \<Rightarrow> delegate_event list \<times> (recoverySetID \<times> par2file) res" where
  "readFile expectedSetID fileBytes =
     (case readFile_loop fileBytes (rstate_init expectedSetID) of
        (st, Some e) \<Rightarrow> (r_events st, Inl e)
      | (st, None) \<Rightarrow> (r_events st, readFile_result st))"

section \<open>writeFile\<close>

text \<open>The sorted keys of \<open>recoveryPackets\<close>.\<close>

definition exponents_of :: "(exponent \<rightharpoonup> recoveryPacket) \<Rightarrow> exponent list" where
  "exponents_of m = filter (\<lambda>e. m e \<noteq> None) (map of_nat [0..<65536])"

definition write_file_packets :: "par2file \<Rightarrow> recoverySetID \<Rightarrow> fileID \<Rightarrow> byte list \<Rightarrow> byte list res" where
  "write_file_packets f setID i buf =
     (case f_fileDescriptionPackets f i of
        None \<Rightarrow> Inl (ErrorNew ''could not find file description packet'')
      | Some fd \<Rightarrow> bindR (writeFileDescriptionPacket i fd) (\<lambda>fdBytes.
          bindR (writeNextPacket buf setID fileDescriptionPacketType (padPacketBytes fdBytes)) (\<lambda>buf1.
          case f_ifscPackets f i of
            None \<Rightarrow> Inl (ErrorNew ''could not find input file slice checksum packet'')
          | Some ifsc \<Rightarrow> bindR (writeIFSCPacket i ifsc) (\<lambda>ifscBytes.
              writeNextPacket buf1 setID ifscPacketType (padPacketBytes ifscBytes)))))"

definition write_recovery_packet ::
    "par2file \<Rightarrow> recoverySetID \<Rightarrow> exponent \<Rightarrow> byte list \<Rightarrow> byte list res" where
  "write_recovery_packet f setID e buf =
     bindR (writeRecoveryPacket e (the (f_recoveryPackets f e))) (\<lambda>bytes.
       writeNextPacket buf setID recoveryPacketType (padPacketBytes bytes))"

text \<open>
  Go iterates over the map of unknown packets in an unspecified order: \<open>order\<close> lists its keys in the
  order of this run.
\<close>

definition write_unknown_packets ::
    "par2file \<Rightarrow> recoverySetID \<Rightarrow> packetType \<Rightarrow> byte list \<Rightarrow> byte list res" where
  "write_unknown_packets f setID typ buf =
     foldR (\<lambda>packetBytes buf1. writeNextPacket buf1 setID typ packetBytes)
       (the (f_unknownPackets f typ)) buf"

definition writeFile :: "packetType list \<Rightarrow> par2file \<Rightarrow> (recoverySetID \<times> byte list) res" where
  "writeFile order f =
     (if length (f_clientID f) = 0 then Inl (ErrorNew ''empty client ID'')
      else case f_mainPacket f of
        None \<Rightarrow> Inl (ErrorNew ''no main packet'')
      | Some main \<Rightarrow> bindR (writeMainPacket main) (\<lambda>mainPacketBytes.
          let paddedMainPacketBytes = padPacketBytes mainPacketBytes;
              setID = md5 paddedMainPacketBytes
          in bindR (writeCreatorPacket (f_clientID f)) (\<lambda>creatorPacketBytes.
             bindR (writeNextPacket [] setID creatorPacketType (padPacketBytes creatorPacketBytes)) (\<lambda>buf1.
             bindR (writeNextPacket buf1 setID mainPacketType paddedMainPacketBytes) (\<lambda>buf2.
             bindR (foldR (write_file_packets f setID)
                 (mp_recoverySet main @ mp_nonRecoverySet main) buf2) (\<lambda>buf3.
             bindR (foldR (write_recovery_packet f setID) (exponents_of (f_recoveryPackets f)) buf3) (\<lambda>buf4.
             bindR (foldR (write_unknown_packets f setID) order buf4) (\<lambda>buf5.
               Inr (setID, buf5)))))))))"

section \<open>Streams of packets\<close>

type_synonym packet = "recoverySetID \<times> packetType \<times> byte list"

definition stream :: "packet list \<Rightarrow> byte list" where
  "stream ps = concat (map (\<lambda>(setID, typ, body). packet_bytes setID typ body) ps)"

abbreviation packet_ok :: "packet \<Rightarrow> bool" where
  "packet_ok p \<equiv> body_ok (snd (snd p))"

lemma stream_simps [simp]:
  "stream [] = []"
  "stream ((setID, typ, body) # ps) = packet_bytes setID typ body @ stream ps"
  "stream (ps @ qs) = stream ps @ stream qs"
  by (simp_all add: stream_def)

fun run_packets :: "packet list \<Rightarrow> rstate \<Rightarrow> rstate \<times> go_error option" where
  "run_packets [] st = (st, None)"
| "run_packets (p # ps) st =
     (case readFile_packet p st of
        (st', Some e) \<Rightarrow> (st', Some e)
      | (st', None) \<Rightarrow> run_packets ps st')"

lemma run_packets_append:
  "run_packets ps st = (st', None) \<Longrightarrow> run_packets (ps @ qs) st = run_packets qs st'"
  by (induction ps arbitrary: st) (auto split: prod.splits option.splits)

lemma readNextPacket_Nil: "readNextPacket [] = Inl IoEOF"
  by (simp add: readNextPacket_def readNextPacketBorrowed_def readPacketHeader_short)

text \<open>Reading a stream of well-formed packets is running the packets one after the other.\<close>

lemma readFile_loop_stream:
  "\<forall>p \<in> set ps. packet_ok p \<Longrightarrow> readFile_loop (stream ps) st = run_packets ps st"
proof (induction ps arbitrary: st)
  case Nil
  show ?case by (simp add: readFile_loop.simps [of "[]"] readNextPacket_Nil)
next
  case (Cons p ps)
  obtain i t b where p: "p = (i, t, b)" by (cases p)
  have "readNextPacket (stream (p # ps)) = Inr (p, stream ps)"
    using Cons.prems by (simp add: p readNextPacket_ok)
  then show ?case
    using Cons by (auto simp: readFile_loop.simps [of "stream (p # ps)"] split: prod.splits option.splits)
qed

subsection \<open>Packets of other sets\<close>

definition erase :: "rstate \<Rightarrow> rstate" where
  "erase st = st\<lparr> r_events := [] \<rparr>"

lemma load_packet_erase:
  "erase (fst (load_packet t b (erase st))) = erase (fst (load_packet t b st))"
  "snd (load_packet t b (erase st)) = snd (load_packet t b st)"
  by (auto simp: load_packet_def erase_def emit_def Let_def split: sum.splits prod.splits option.splits)

lemma load_packet_setID: "r_setID (fst (load_packet t b st)) = r_setID st"
  by (auto simp: load_packet_def emit_def Let_def split: sum.splits prod.splits option.splits)

lemma readFile_packet_own:
  assumes "r_setID st = Some s" and "erase st = erase st2" and "readFile_packet (s, t, b) st = (st', e)"
  shows "\<exists>st2'. readFile_packet (s, t, b) st2 = (st2', e) \<and> erase st' = erase st2' \<and> r_setID st' = Some s"
proof -
  have s2: "r_setID st2 = Some s"
    using assms(1,2) by (metis erase_def rstate.select_convs(1) rstate.surjective rstate.update_convs(9))
  let ?a = "st\<lparr> r_foundPacket := True \<rparr>" and ?b = "st2\<lparr> r_foundPacket := True \<rparr>"
  have "erase ?a = (erase st)\<lparr> r_foundPacket := True \<rparr>" "erase ?b = (erase st2)\<lparr> r_foundPacket := True \<rparr>"
    by (simp_all add: erase_def)
  with assms(2) have ab: "erase ?a = erase ?b" by simp
  have "load_packet t b ?a = (st', e)"
    using assms(1,3) by (simp add: readFile_packet_def)
  moreover have "readFile_packet (s, t, b) st2 = load_packet t b ?b"
    using s2 by (simp add: readFile_packet_def)
  moreover have "erase (fst (load_packet t b ?a)) = erase (fst (load_packet t b ?b))"
    "snd (load_packet t b ?a) = snd (load_packet t b ?b)"
    using ab load_packet_erase by metis+
  moreover have "r_setID (fst (load_packet t b ?a)) = Some s"
    using assms(1) by (simp add: load_packet_setID)
  ultimately show ?thesis
    by (metis fst_conv prod.collapse snd_conv)
qed

lemma run_packets_other:
  assumes "r_setID st = Some s" and "erase st = erase st2"
  shows "snd (run_packets ps st) = snd (run_packets (filter (\<lambda>p. fst p = s) ps) st2)
    \<and> erase (fst (run_packets ps st)) = erase (fst (run_packets (filter (\<lambda>p. fst p = s) ps) st2))"
  using assms
proof (induction ps arbitrary: st st2)
  case (Cons p ps)
  obtain i t b where p: "p = (i, t, b)" by (cases p)
  show ?case
  proof (cases "i = s")
    case True
    obtain st' e where r: "readFile_packet (s, t, b) st = (st', e)" by fastforce
    from readFile_packet_own [OF Cons.prems this] obtain st2' where
      "readFile_packet (s, t, b) st2 = (st2', e)" "erase st' = erase st2'" "r_setID st' = Some s"
      by blast
    with r Cons.IH [of st' st2'] show ?thesis
      by (cases e) (simp_all add: p True)
  next
    case False
    have "readFile_packet p st = (emit (OnOtherPacketSkip i t (length b)) st, None)"
      using False Cons.prems(1) by (simp add: p readFile_packet_def)
    moreover have "erase (emit x st) = erase st" "r_setID (emit x st) = r_setID st" for x
      by (simp_all add: erase_def emit_def)
    ultimately show ?thesis
      using Cons.IH [of "emit (OnOtherPacketSkip i t (length b)) st" st2] Cons.prems False
      by (simp add: p)
  qed
qed simp

lemma readFile_result_erase: "readFile_result (erase st) = readFile_result st"
  by (cases "r_clientID st") (simp_all add: readFile_result_def erase_def)

text \<open>
  Packets of other sets do not disturb the set being read.  When the set identifier is known,
  reading a stream of packets gives the same result as reading only the packets of that set, however
  the packets of other sets are interleaved with them; the others only cause skip events.
\<close>

lemma readFile_other_sets:
  assumes "\<forall>p \<in> set ps. length (snd (snd p)) mod 4 = 0 \<and> length (snd (snd p)) < 2 ^ 63 - 64"
  shows "snd (readFile (Some s) (stream ps)) = snd (readFile (Some s) (stream (filter (\<lambda>p. fst p = s) ps)))"
proof -
  let ?qs = "filter (\<lambda>p. fst p = s) ps" and ?st = "rstate_init (Some s)"
  have "readFile_loop (stream ps) ?st = run_packets ps ?st"
    "readFile_loop (stream ?qs) ?st = run_packets ?qs ?st"
    using assms by (intro readFile_loop_stream; auto)+
  moreover have "snd (run_packets ps ?st) = snd (run_packets ?qs ?st)"
    "readFile_result (fst (run_packets ps ?st)) = readFile_result (fst (run_packets ?qs ?st))"
    using run_packets_other [of ?st s ?st ps] readFile_result_erase
    by (simp_all add: rstate_init_def) metis
  ultimately show ?thesis
    by (auto simp: readFile_def split: prod.splits option.splits)
qed

end
