(* ===== verification/Volume.thy ===== *)
theory Volume
  imports PacketFile
begin

text \<open>
  Walking the packets of a volume without loading it (\<open>par2/volume.go\<close>).  \<open>walkPackets\<close> is a total
  function: its length check makes every turn advance.  \<open>indexPackets\<close> is a partial function, because
  its check lets a negative length through and the loop may then go round for ever.
\<close>

section \<open>io.ReaderAt\<close>

text \<open>
  \<open>r off n\<close> is \<open>ReadAt\<close> into a buffer of \<open>n\<close> bytes at offset \<open>off\<close>: the buffer's contents, or the
  error.  The locale is what the walkers need of a reader: inside the data it reads the data.
\<close>

type_synonym reader = "int \<Rightarrow> nat \<Rightarrow> byte list res"

text \<open>\<open>bytes.Reader.ReadAt\<close>.\<close>

definition bytes_reader :: "byte list \<Rightarrow> reader" where
  "bytes_reader s off n =
     (if off < 0 then Inl (ErrorNew ''bytes.Reader.ReadAt: negative offset'')
      else if off \<ge> int (length s) then Inl IoEOF
      else if length (take n (drop (nat off) s)) < n then Inl IoEOF
      else Inr (take n (drop (nat off) s)))"

section \<open>walkPackets\<close>

definition maxPacketLength :: int where
  "maxPacketLength = 2 ^ 30"

definition headerSize :: int where
  "headerSize = uint sizeOfPacketHeader"

lemma headerSize [simp]: "headerSize = 64"
  by (simp add: headerSize_def sizeOfPacketHeader_def)

text \<open>\<open>int64(binary.LittleEndian.Uint64(header[8:16]))\<close>\<close>

definition peek_length :: "byte list \<Rightarrow> int" where
  "peek_length header = sint (le_word (slice header 8 16) :: u64)"

type_synonym 's visitor = "recoverySetID \<Rightarrow> packetType \<Rightarrow> byte list \<Rightarrow> int \<Rightarrow> 's \<Rightarrow> 's res"

function walkPackets_loop :: "reader \<Rightarrow> int \<Rightarrow> 's visitor \<Rightarrow> int \<Rightarrow> 's \<Rightarrow> 's res" where
  "walkPackets_loop r sz fn offset st =
     (if offset < sz then
        if sz - offset < headerSize
          then Inl (ErrorNew ''trailing bytes too short for a packet header'')
        else bindR (r offset 64) (\<lambda>header.
          let len = peek_length header
          in if len < headerSize \<or> len > maxPacketLength \<or> offset + len > sz
               then Inl (ErrorNew ''invalid packet length'')
             else bindR (r offset (nat len)) (\<lambda>packetBuf.
               bindR (readNextPacketBorrowed packetBuf) (\<lambda>((setID, typ, body), _).
               bindR (fn setID typ body offset st) (\<lambda>st'.
                 walkPackets_loop r sz fn (offset + len) st'))))
      else Inr st)"
  by pat_completeness auto
termination
  by (relation "measure (\<lambda>(r, sz, fn, offset, st). nat (sz - offset))") auto

declare walkPackets_loop.simps [simp del]

definition walkPackets :: "reader \<Rightarrow> int \<Rightarrow> 's visitor \<Rightarrow> 's \<Rightarrow> 's res" where
  "walkPackets r sz fn st = walkPackets_loop r sz fn 0 st"

section \<open>indexPackets and the reads at a reference\<close>

record packetRef =
  pr_offset :: int
  pr_length :: int
  pr_header :: packetHeader

partial_function (option) indexPackets_loop ::
    "reader \<Rightarrow> int \<Rightarrow> int \<Rightarrow> packetRef list \<Rightarrow> packetRef list res option" where
  "indexPackets_loop r sz offset refs =
     (if offset < sz then
        if sz - offset < headerSize
          then Some (Inl (ErrorNew ''trailing bytes too short for a packet header''))
        else case bindR (r offset 64) readPacketHeader of
          Inl e \<Rightarrow> Some (Inl e)
        | Inr hb \<Rightarrow>
            let h = fst hb; len = sint (Length h)
            in if len > maxPacketLength \<or> offset + len > sz
                 then Some (Inl (ErrorNew ''invalid packet length''))
               else indexPackets_loop r sz (offset + len)
                 (refs @ [\<lparr> pr_offset = offset, pr_length = len, pr_header = h \<rparr>])
      else Some (Inr refs))"

definition indexPackets :: "reader \<Rightarrow> int \<Rightarrow> packetRef list res option" where
  "indexPackets r sz = indexPackets_loop r sz 0 []"

definition readPacketAt ::
    "reader \<Rightarrow> packetRef \<Rightarrow> (recoverySetID \<times> packetType \<times> byte list) res" where
  "readPacketAt r ref =
     (if pr_length ref < 0 then Inl slice_panic
      else bindR (r (pr_offset ref) (nat (pr_length ref))) (\<lambda>buf.
        bindR (readNextPacketBorrowed buf) (\<lambda>(packet, _). Inr packet)))"

definition readRecoveryExponent :: "reader \<Rightarrow> packetRef \<Rightarrow> (byte list \<times> int) res" where
  "readRecoveryExponent r ref = (let bodyLen = pr_length ref - headerSize in
     if bodyLen < 4 \<or> bodyLen mod 4 \<noteq> 0
       then Inl (ErrorNew ''invalid recovery data byte count'')
     else bindR (r (pr_offset ref + headerSize) 4) (\<lambda>ex. Inr (ex, bodyLen - 4)))"

section \<open>A reader over known data\<close>

locale reader_over =
  fixes r :: reader and d :: "byte list"
  assumes reads: "0 \<le> off \<Longrightarrow> 0 < n \<Longrightarrow> nat off + n \<le> length d \<Longrightarrow>
    r off n = Inr (take n (drop (nat off) d))"
begin

lemma reads_at:
  assumes "d = pre @ p @ rest" and "n \<le> length p" and "0 < n"
  shows "r (int (length pre)) n = Inr (take n p)"
  using reads [of "int (length pre)" n] assms by simp

end

interpretation bytes_reader: reader_over "bytes_reader d" d for d
  by unfold_locales (auto simp: bytes_reader_def)

text \<open>One packet of a stream, as the walkers see it.\<close>

text \<open>The packets both walkers accept: well-formed, and not above the cap on the length.\<close>

abbreviation volume_packet :: "packet \<Rightarrow> bool" where
  "volume_packet p \<equiv> length (snd (snd p)) mod 4 = 0 \<and> 64 + int (length (snd (snd p))) \<le> maxPacketLength"

lemma volume_packet_ok: "volume_packet p \<Longrightarrow> packet_ok p"
  by (simp add: maxPacketLength_def)

lemma packet_sint_length:
  assumes "body_ok body"
  shows "sint (64 + of_nat (length body) :: u64) = 64 + int (length body)"
proof -
  define n where "n = 64 + length body"
  have "n < 2 ^ 63" using assms by (simp add: n_def)
  then have "sint (of_nat n :: u64) = int n"
    by (simp add: signed_of_nat signed_take_bit_int_eq_self)
  then show ?thesis by (simp add: n_def)
qed

lemma take_packet_header: "take 64 (packet_bytes i t b) = header_bytes (packet_header i t b)"
  by (simp add: packet_bytes_def)

lemma peek_length_packet:
  assumes "body_ok b"
  shows "peek_length (header_bytes (packet_header i t b)) = 64 + int (length b)"
proof -
  have "slice (header_bytes h) 8 16 = le_bytes 8 (Length h)" for h
    by (simp add: header_bytes_def slice_def)
  then show ?thesis using packet_sint_length [OF assms] by (simp add: peek_length_def)
qed

lemma readNextPacketBorrowed_ok:
  "body_ok body \<Longrightarrow> readNextPacketBorrowed (packet_bytes setID t body @ rest) = Inr ((setID, t, body), rest)"
  by (simp add: readNextPacketBorrowed_def packet_bytes_def Let_def
      sizeOfPacketHeader_def packet_header_ok packet_length_word(3))

text \<open>The packets of a stream with the offsets where they start.\<close>

fun with_offsets :: "int \<Rightarrow> packet list \<Rightarrow> (int \<times> packet) list" where
  "with_offsets off [] = []"
| "with_offsets off (p # ps) = (off, p) # with_offsets (off + 64 + int (length (snd (snd p)))) ps"

definition refs_of :: "int \<Rightarrow> packet list \<Rightarrow> packetRef list" where
  "refs_of off ps = map (\<lambda>(off, (i, t, b)). \<lparr> pr_offset = off, pr_length = 64 + int (length b),
     pr_header = packet_header i t b \<rparr>) (with_offsets off ps)"

context reader_over
begin

lemma walk_stream:
  assumes "d = pre @ stream ps" and "\<forall>p \<in> set ps. volume_packet p"
  shows "walkPackets_loop r (int (length d)) fn (int (length pre)) st
    = foldR (\<lambda>(off, (i, t, b)). fn i t b off) (with_offsets (int (length pre)) ps) st"
  using assms
proof (induction ps arbitrary: pre st)
  case Nil
  then show ?case by (simp add: walkPackets_loop.simps)
next
  case (Cons p ps)
  obtain i t b where p: "p = (i, t, b)" by (cases p)
  have ok: "body_ok b" using Cons.prems(2) volume_packet_ok [of p] by (simp add: p)
  have d: "d = pre @ packet_bytes i t b @ stream ps" using Cons.prems(1) by (simp add: p)
  have h: "r (int (length pre)) 64 = Inr (header_bytes (packet_header i t b))"
    using reads_at [OF d, of 64] by (simp add: take_packet_header)
  have b: "r (int (length pre)) (nat (64 + int (length b))) = Inr (packet_bytes i t b)"
    using reads_at [OF d, of "64 + length b"] by (simp add: nat_add_distrib)
  have "packet_bytes i t b @ [] = packet_bytes i t b" by simp
  then have n: "readNextPacketBorrowed (packet_bytes i t b) = Inr ((i, t, b), [])"
    using readNextPacketBorrowed_ok [OF ok, of i t "[]"] by simp
  have next_pre: "int (length pre) + (64 + int (length b)) = int (length (pre @ packet_bytes i t b))"
    by simp
  have IH: "walkPackets_loop r (int (length d)) fn (int (length pre) + (64 + int (length b)))
    = foldR (\<lambda>(off, (i, t, b)). fn i t b off)
        (with_offsets (int (length pre) + (64 + int (length b))) ps)"
    unfolding next_pre by (rule ext, rule Cons.IH) (use d Cons.prems(2) in auto)
  have bounds: "int (length pre) < int (length d)" "\<not> int (length d) - int (length pre) < 64"
    "\<not> int (length d) < int (length pre) + (64 + int (length b))"
    by (simp_all add: d)
  have cap: "\<not> maxPacketLength < 64 + int (length b)" using Cons.prems(2) by (simp add: p)
  show ?case
    by (subst walkPackets_loop.simps)
      (simp add: p h b n peek_length_packet [OF ok] IH bounds cap Let_def add.assoc del: of_nat_less_iff)
qed

lemma index_stream:
  assumes "d = pre @ stream ps" and "\<forall>p \<in> set ps. volume_packet p"
  shows "indexPackets_loop r (int (length d)) (int (length pre)) refs
    = Some (Inr (refs @ refs_of (int (length pre)) ps))"
  using assms
proof (induction ps arbitrary: pre refs)
  case Nil
  then show ?case by (simp add: indexPackets_loop.simps refs_of_def)
next
  case (Cons p ps)
  obtain i t b where p: "p = (i, t, b)" by (cases p)
  have ok: "body_ok b" using Cons.prems(2) volume_packet_ok [of p] by (simp add: p)
  have d: "d = pre @ packet_bytes i t b @ stream ps" using Cons.prems(1) by (simp add: p)
  have h: "r (int (length pre)) 64 = Inr (header_bytes (packet_header i t b))"
    using reads_at [OF d, of 64] by (simp add: take_packet_header)
  have rh: "readPacketHeader (header_bytes (packet_header i t b)) = Inr (packet_header i t b, [])"
    using readPacketHeader_append [of "packet_header i t b" "[]"] packet_header_ok [OF ok] by simp
  have next_pre: "int (length pre) + (64 + int (length b)) = int (length (pre @ packet_bytes i t b))"
    by simp
  have IH: "indexPackets_loop r (int (length d)) (int (length pre) + (64 + int (length b))) refs'
    = Some (Inr (refs' @ refs_of (int (length pre) + (64 + int (length b))) ps))" for refs'
    unfolding next_pre by (rule Cons.IH) (use d Cons.prems(2) in auto)
  have bounds: "int (length pre) < int (length d)" "\<not> int (length d) - int (length pre) < 64"
    "\<not> int (length d) < int (length pre) + (64 + int (length b))"
    by (simp_all add: d)
  have cap: "\<not> maxPacketLength < 64 + int (length b)" using Cons.prems(2) by (simp add: p)
  show ?case
    by (subst indexPackets_loop.simps)
      (simp add: p h rh packet_sint_length [OF ok] IH bounds cap Let_def add.assoc refs_of_def
        del: of_nat_less_iff)
qed

lemma read_refs:
  assumes "d = pre @ stream ps" and "\<forall>p \<in> set ps. volume_packet p"
  shows "mapR (readPacketAt r) (refs_of (int (length pre)) ps) = Inr ps"
  using assms
proof (induction ps arbitrary: pre)
  case Nil
  then show ?case by (simp add: refs_of_def)
next
  case (Cons p ps)
  obtain i t b where p: "p = (i, t, b)" by (cases p)
  have ok: "body_ok b" using Cons.prems(2) volume_packet_ok [of p] by (simp add: p)
  have d: "d = pre @ packet_bytes i t b @ stream ps" using Cons.prems(1) by (simp add: p)
  have b: "r (int (length pre)) (nat (64 + int (length b))) = Inr (packet_bytes i t b)"
    using reads_at [OF d, of "64 + length b"] by (simp add: nat_add_distrib)
  have n: "readNextPacketBorrowed (packet_bytes i t b) = Inr ((i, t, b), [])"
    using readNextPacketBorrowed_ok [OF ok, of i t "[]"] by simp
  have next_pre: "int (length pre) + 64 + int (length b) = int (length (pre @ packet_bytes i t b))"
    by simp
  have "mapR (readPacketAt r) (refs_of (int (length pre) + 64 + int (length b)) ps) = Inr ps"
    unfolding next_pre by (rule Cons.IH) (use d Cons.prems(2) in auto)
  moreover have "readPacketAt r \<lparr> pr_offset = int (length pre), pr_length = 64 + int (length b),
      pr_header = packet_header i t b \<rparr> = Inr (i, t, b)"
    by (simp add: readPacketAt_def b n)
  ultimately show ?case
    by (simp add: refs_of_def p)
qed

end

section \<open>Properties of the walkers\<close>

text \<open>
  C25: Walking visits every packet once, in order.  On a volume that is a stream of packets, each with
  a whole number of words and not above the length cap, \<open>walkPackets\<close> calls its callback with exactly
  these packets, in file order, each with the offset where it starts, stops at the first error of the
  callback, and returns the callback's last state.
\<close>

theorem walkPackets_stream:
  assumes "\<forall>p \<in> set ps. length (snd (snd p)) mod 4 = 0 \<and> 64 + int (length (snd (snd p))) \<le> maxPacketLength"
  shows "walkPackets (bytes_reader (stream ps)) (int (length (stream ps))) fn st
    = foldR (\<lambda>(off, (i, t, b)). fn i t b off) (with_offsets 0 ps) st"
  using bytes_reader.walk_stream [of "stream ps" "[]" ps fn st] assms by (simp add: walkPackets_def)

theorem walkPackets_stream_witness:
  "walkPackets (bytes_reader (stream [(zero_arr, zero_arr, [1, 2, 3, 4]), (zero_arr, zero_arr, [])])) 132
     (\<lambda>i t b off offs. Inr (offs @ [off])) [] = Inr [0, 68]"
  using walkPackets_stream [of "[(zero_arr, zero_arr, [1, 2, 3, 4]), (zero_arr, zero_arr, [])]"
      "\<lambda>i t b off offs. Inr (offs @ [off])" "[]"]
  by (simp add: maxPacketLength_def)

text \<open>
  C26: The index is complete and its references are usable.  On the same volumes \<open>indexPackets\<close>
  terminates with one reference per packet, at the packet's offset, and \<open>readPacketAt\<close> at each
  reference returns exactly that packet, so indexing and reading in any order is the sequential walk.
\<close>

theorem indexPackets_stream:
  assumes "\<forall>p \<in> set ps. length (snd (snd p)) mod 4 = 0 \<and> 64 + int (length (snd (snd p))) \<le> maxPacketLength"
  shows "\<exists>refs. indexPackets (bytes_reader (stream ps)) (int (length (stream ps))) = Some (Inr refs) \<and>
    map pr_offset refs = map fst (with_offsets 0 ps) \<and>
    mapR (readPacketAt (bytes_reader (stream ps))) refs = Inr ps"
proof (intro exI conjI)
  show "indexPackets (bytes_reader (stream ps)) (int (length (stream ps))) = Some (Inr (refs_of 0 ps))"
    using bytes_reader.index_stream [of "stream ps" "[]" ps "[]"] assms by (simp add: indexPackets_def)
  show "map pr_offset (refs_of 0 ps) = map fst (with_offsets 0 ps)"
    by (simp add: refs_of_def split_def)
  show "mapR (readPacketAt (bytes_reader (stream ps))) (refs_of 0 ps) = Inr ps"
    using bytes_reader.read_refs [of "stream ps" "[]" ps] assms by simp
qed

theorem indexPackets_stream_witness:
  "\<exists>refs. indexPackets (bytes_reader (stream [(zero_arr, zero_arr, [1, 2, 3, 4])])) 68 = Some (Inr refs) \<and>
    map pr_offset refs = [0] \<and>
    mapR (readPacketAt (bytes_reader (stream [(zero_arr, zero_arr, [1, 2, 3, 4])]))) refs
      = Inr [(zero_arr, zero_arr, [1, 2, 3, 4])]"
  using indexPackets_stream [of "[(zero_arr, zero_arr, [1, 2, 3, 4])]"]
  by (simp add: maxPacketLength_def)

text \<open>A valid packet without a body, then a header whose length field is \<open>2^64 - 64\<close>.\<close>

definition cyclic_volume :: "recoverySetID \<Rightarrow> packetType \<Rightarrow> byte list" where
  "cyclic_volume i t = packet_bytes i t [] @ header_bytes (packet_header i t [] \<lparr> Length := - 64 \<rparr>)"

lemma cyclic_volume_headers:
  "bindR (bytes_reader (cyclic_volume i t) 0 64) readPacketHeader = Inr (packet_header i t [], [])"
  "bindR (bytes_reader (cyclic_volume i t) 64 64) readPacketHeader
    = Inr (packet_header i t [] \<lparr> Length := - 64 \<rparr>, [])"
proof -
  have "header_ok (packet_header i t [] \<lparr> Length := - 64 \<rparr>)"
    unfolding header_ok_iff by simp
  then show "bindR (bytes_reader (cyclic_volume i t) 64 64) readPacketHeader
    = Inr (packet_header i t [] \<lparr> Length := - 64 \<rparr>, [])"
    using readPacketHeader_append [of "packet_header i t [] \<lparr> Length := - 64 \<rparr>" "[]"]
    by (simp add: bytes_reader_def cyclic_volume_def)
  show "bindR (bytes_reader (cyclic_volume i t) 0 64) readPacketHeader = Inr (packet_header i t [], [])"
    using readPacketHeader_append [of "packet_header i t []" "[]"] packet_header_ok [of "[]" i t]
    by (simp add: bytes_reader_def cyclic_volume_def packet_bytes_def)
qed

lemma indexPackets_cyclic:
  assumes "indexPackets_loop r sz offset refs = Some y"
  shows "\<not> (r = bytes_reader (cyclic_volume i t) \<and> sz = 128 \<and> (offset = 0 \<or> offset = 64))"
proof (rule indexPackets_loop.raw_induct [OF _ assms, where P = "\<lambda>r sz offset refs y.
    \<not> (r = bytes_reader (cyclic_volume i t) \<and> sz = 128 \<and> (offset = 0 \<or> offset = 64))"])
  fix loop :: "reader \<Rightarrow> int \<Rightarrow> int \<Rightarrow> packetRef list \<Rightarrow> packetRef list res option" and r sz offset refs y
  assume IH: "\<And>r sz offset refs y. loop r sz offset refs = Some y \<Longrightarrow>
      \<not> (r = bytes_reader (cyclic_volume i t) \<and> sz = 128 \<and> (offset = 0 \<or> offset = 64))"
    and body: "(if offset < sz then
        if sz - offset < headerSize
          then Some (Inl (ErrorNew ''trailing bytes too short for a packet header''))
        else case bindR (r offset 64) readPacketHeader of
          Inl e \<Rightarrow> Some (Inl e)
        | Inr hb \<Rightarrow>
            let h = fst hb; len = sint (Length h)
            in if len > maxPacketLength \<or> offset + len > sz
                 then Some (Inl (ErrorNew ''invalid packet length''))
               else loop r sz (offset + len)
                 (refs @ [\<lparr> pr_offset = offset, pr_length = len, pr_header = h \<rparr>])
      else Some (Inr refs)) = Some y"
  show "\<not> (r = bytes_reader (cyclic_volume i t) \<and> sz = 128 \<and> (offset = 0 \<or> offset = 64))"
  proof
    assume a: "r = bytes_reader (cyclic_volume i t) \<and> sz = 128 \<and> (offset = 0 \<or> offset = 64)"
    then have "\<exists>refs'. loop r sz (64 - offset) refs' = Some y"
      using body by (auto simp: cyclic_volume_headers Let_def maxPacketLength_def)
    then show False using IH a by (metis diff_zero cancel_comm_monoid_add_class.diff_cancel)
  qed
qed

text \<open>
  C24: Indexing can run for ever.  On a 128-byte volume whose second packet header carries the length
  \<open>2^64 - 64\<close>, \<open>indexPackets\<close> never returns: the length converts to \<open>-64\<close>, passes the check, and takes
  the offset back to the first packet.  \<open>walkPackets\<close> on the same volume returns an error.
\<close>

theorem indexPackets_may_diverge:
  "indexPackets (bytes_reader (cyclic_volume i t)) 128 = None \<and>
   walkPackets (bytes_reader (cyclic_volume i t)) 128 (\<lambda>_ _ _ _ st. Inr st) st
     = Inl (ErrorNew ''invalid packet length'')"
proof
  show "indexPackets (bytes_reader (cyclic_volume i t)) 128 = None"
    using indexPackets_cyclic [of "bytes_reader (cyclic_volume i t)" 128 0 "[]" _ i t]
    unfolding indexPackets_def by (metis not_Some_eq)
  let ?r = "bytes_reader (cyclic_volume i t)"
  have r0: "?r 0 64 = Inr (packet_bytes i t [])" "?r 64 64 = Inr (header_bytes (packet_header i t [] \<lparr> Length := - 64 \<rparr>))"
    by (simp_all add: bytes_reader_def cyclic_volume_def packet_bytes_def)
  have p0: "peek_length (packet_bytes i t []) = 64"
    using peek_length_packet [of "[]" i t] by (simp add: packet_bytes_def)
  have p1: "peek_length (header_bytes (packet_header i t [] \<lparr> Length := - 64 \<rparr>)) = - 64"
    by (simp add: peek_length_def header_bytes_def slice_def)
  have n: "readNextPacketBorrowed (packet_bytes i t []) = Inr ((i, t, []), [])"
    using readNextPacketBorrowed_ok [of "[]" i t "[]"] by simp
  show "walkPackets ?r 128 (\<lambda>_ _ _ _ st. Inr st) st = Inl (ErrorNew ''invalid packet length'')"
    unfolding walkPackets_def
    by (subst walkPackets_loop.simps, simp add: r0 p0 n maxPacketLength_def Let_def,
        subst walkPackets_loop.simps, simp add: r0 p1 Let_def)
qed

end
