(* ===== verification/WindowScan.thy ===== *)
theory WindowScan
  imports Pool ScanCorrect Volume
begin

text \<open>
  The windowed scan (\<open>par2/windowscan.go\<close>): every source is read in windows by a pool of workers, and
  each window's slices are matched against the checksums.  The atomic steps of a worker are the read
  of a window and the match of one slice, which is what the scan's mutex makes atomic; the scheduler
  interleaves them in any order.
\<close>

section \<open>forEachWindow\<close>

record windowSource =
  ws_r :: reader
  ws_size :: int

record window_task =
  wt_i :: nat
  wt_off :: nat
  wt_n :: nat

text \<open>The tasks for one source; the loop does not end for a window size of 0.\<close>

partial_function (option) source_tasks ::
    "nat \<Rightarrow> nat \<Rightarrow> int \<Rightarrow> nat \<Rightarrow> window_task list \<Rightarrow> window_task list option" where
  "source_tasks windowSize i sz off tasks =
     (if int off < sz
      then let n = (if int off + int windowSize > sz then nat (sz - int off) else windowSize)
        in source_tasks windowSize i sz (off + windowSize) (tasks @ [\<lparr> wt_i = i, wt_off = off, wt_n = n \<rparr>])
      else Some tasks)"

text \<open>A nil reader is None.\<close>

fun window_tasks :: "nat \<Rightarrow> nat \<Rightarrow> windowSource option list \<Rightarrow> window_task list option" where
  "window_tasks windowSize i [] = Some []"
| "window_tasks windowSize i (None # srcs) = window_tasks windowSize (Suc i) srcs"
| "window_tasks windowSize i (Some src # srcs) =
     (case source_tasks windowSize i (ws_size src) 0 [] of None \<Rightarrow> None
      | Some ts \<Rightarrow> map_option (\<lambda>us. ts @ us) (window_tasks windowSize (Suc i) srcs))"

text \<open>
  The callback \<open>fn\<close>: \<open>wf_begin i off buf\<close> is the call, \<open>wf_step\<close> makes one atomic step of its body, which
  goes on or returns with an error or nil.
\<close>

record ('q, 's) window_fn =
  wf_begin :: "nat \<Rightarrow> nat \<Rightarrow> byte list \<Rightarrow> 'q"
  wf_step :: "'q \<Rightarrow> 's \<Rightarrow> (('q + go_error option) \<times> 's) res"

datatype 'q window_proc = Fetch window_task | Body nat 'q

definition set_err :: "nat \<Rightarrow> go_error \<Rightarrow> go_error option list \<Rightarrow> go_error option list" where
  "set_err i e errs = (if errs ! i = None then errs[i := Some e] else errs)"

definition window_step ::
    "windowSource option list \<Rightarrow> ('q, 's) window_fn \<Rightarrow> ('q window_proc, go_error option list \<times> 's) process_step" where
  "window_step sources fn p = (\<lambda>(errs, s).
     case p of
       Fetch t \<Rightarrow>
         if errs ! wt_i t \<noteq> None then Inr (None, (errs, s))
         else (case sources ! wt_i t of
             None \<Rightarrow> Inl (Panic ''nil pointer dereference'')
           | Some src \<Rightarrow> (case ws_r src (int (wt_off t)) (wt_n t) of
               Inl e \<Rightarrow> Inr (None, (set_err (wt_i t) e errs, s))
             | Inr buf \<Rightarrow> Inr (Some (Body (wt_i t) (wf_begin fn (wt_i t) (wt_off t) buf)), (errs, s))))
     | Body i q \<Rightarrow> bindR (wf_step fn q s) (\<lambda>(r, s').
         case r of
           Inl q' \<Rightarrow> Inr (Some (Body i q'), (errs, s'))
         | Inr None \<Rightarrow> Inr (None, (errs, s'))
         | Inr (Some e) \<Rightarrow> Inr (None, (set_err i e errs, s'))))"

definition forEachWindow ::
    "nat list \<Rightarrow> windowSource option list \<Rightarrow> nat \<Rightarrow> int \<Rightarrow> ('q, 's) window_fn \<Rightarrow> 's \<Rightarrow>
     (go_error option list \<times> 's) res option" where
  "forEachWindow sched sources windowSize workers fn s =
     (case window_tasks windowSize 0 sources of None \<Rightarrow> None
      | Some tasks \<Rightarrow> map_option (\<lambda>r. bindR r (\<lambda>c. Inr (pl_shared c)))
          (pool_run Fetch (window_step sources fn) sched
            (pool_init (nat (max workers 1)) tasks (replicate (length sources) None, s))))"

section \<open>scanFilesWindowed\<close>

record scanCounts =
  sc_hits :: nat
  sc_misses :: nat
  sc_sixteenK :: "16 arr"

text \<open>What the windows share: the records, the counts, and the cache of CRC windows.\<close>

record scan_shared =
  ss_infos :: "fileIntegrityInfo list"
  ss_counts :: "scanCounts list"
  ss_windows :: "nat \<rightharpoonup> crc32Window"

text \<open>The fields of the decoder that the scan reads.\<close>

record scan_config =
  cf_sliceByteCount :: nat
  cf_recoverySet :: "decoderInputFileInfo list"
  cf_policy :: scanPolicy
  cf_checksumToLocation :: checksumShardLocationMap
  cf_fileIDIndices :: "fileID \<rightharpoonup> nat"

datatype window_scan = ScanBegin nat nat "byte list" | ScanLoop nat scan_env scan_state

definition window_env :: "scan_config \<Rightarrow> nat \<Rightarrow> nat \<Rightarrow> byte list \<Rightarrow> scan_env" where
  "window_env d i off buf = \<lparr> e_sliceByteCount = cf_sliceByteCount d, e_data = buf, e_limit = length buf,
     e_baseOffset = off, e_checksumToLocation = cf_checksumToLocation d,
     e_fileID = di_fileID (cf_recoverySet d ! i), e_fileIDIndices = cf_fileIDIndices d,
     e_policy = cf_policy d \<rparr>"

definition window_scan_step ::
    "scan_config \<Rightarrow> window_scan \<Rightarrow> scan_shared \<Rightarrow> ((window_scan + go_error option) \<times> scan_shared) res" where
  "window_scan_step d q sh =
     (case q of
        ScanBegin i off buf \<Rightarrow>
          let c = ss_counts sh ! i;
              sh' = (if off = 0 then sh\<lparr> ss_counts := (ss_counts sh)[i := c\<lparr> sc_sixteenK := sixteenKHash buf \<rparr>] \<rparr> else sh)
          in Inr (Inl (ScanLoop i (window_env d i off buf) (scan_init [] Map.empty)), sh')
      | ScanLoop i env st \<Rightarrow>
          let st' = st\<lparr> s_infos := ss_infos sh, s_windows := ss_windows sh \<rparr>; c = ss_counts sh ! i
          in if s_j st < e_limit env
             then bindR (scan_step env st') (\<lambda>st''.
               Inr (Inl (ScanLoop i env st''), sh\<lparr> ss_infos := s_infos st'', ss_windows := s_windows st'' \<rparr>))
             else Inr (Inr None, sh\<lparr> ss_counts := (ss_counts sh)
               [i := c\<lparr> sc_hits := sc_hits c + s_hits st, sc_misses := sc_misses c + s_misses st \<rparr>] \<rparr>))"

definition scan_fn :: "scan_config \<Rightarrow> (window_scan, scan_shared) window_fn" where
  "scan_fn d = \<lparr> wf_begin = ScanBegin, wf_step = window_scan_step d \<rparr>"

definition zero_counts :: scanCounts where
  "zero_counts = \<lparr> sc_hits = 0, sc_misses = 0, sc_sixteenK = zero_arr \<rparr>"

text \<open>The hash of an empty file, which has no windows, is set after the scan.\<close>

definition empty_file_hash :: "windowSource option list \<Rightarrow> scanCounts list \<Rightarrow> scanCounts list" where
  "empty_file_hash sources counts = map (\<lambda>(src, c). case src of
       Some s \<Rightarrow> if ws_size s = 0 then c\<lparr> sc_sixteenK := md5 [] \<rparr> else c
     | None \<Rightarrow> c) (zip sources counts)"

definition scanFilesWindowed ::
    "nat list \<Rightarrow> scan_config \<Rightarrow> int \<Rightarrow> windowSource option list \<Rightarrow> fileIntegrityInfo list \<Rightarrow> (nat \<rightharpoonup> crc32Window) \<Rightarrow>
     (go_error option list \<times> scan_shared) res option" where
  "scanFilesWindowed sched d numGoroutines sources infos windows =
     (case scanWindowSize (cf_sliceByteCount d) of
        Inl e \<Rightarrow> Some (Inl e)
      | Inr windowSize \<Rightarrow> map_option (\<lambda>r. bindR r (\<lambda>(errs, sh).
            Inr (errs, sh\<lparr> ss_counts := empty_file_hash sources (ss_counts sh) \<rparr>)))
          (forEachWindow sched sources windowSize numGoroutines (scan_fn d)
            \<lparr> ss_infos = infos, ss_counts = replicate (length sources) zero_counts, ss_windows = windows \<rparr>))"

section \<open>The tasks\<close>

lemma source_tasks_set:
  assumes "0 < w"
  shows "\<exists>ts. source_tasks w i sz off acc = Some ts \<and>
    set ts = set acc \<union> {\<lparr> wt_i = i, wt_off = off + q * w, wt_n = min w (nat sz - (off + q * w)) \<rparr> | q.
      int (off + q * w) < sz}"
proof (induction "nat (sz - int off)" arbitrary: off acc rule: less_induct)
  case less
  show ?case
  proof (cases "int off < sz")
    case False
    have "sz \<le> int (off + q * w)" for q
      by (rule order_trans [of sz "int off"]) (use False in simp_all)
    then have "{\<lparr> wt_i = i, wt_off = off + q * w, wt_n = min w (nat sz - (off + q * w)) \<rparr> | q.
      int (off + q * w) < sz} = {}" by (auto simp: not_less)
    then show ?thesis using False by (subst source_tasks.simps) simp
  next
    case True
    define X where "X q = \<lparr> wt_i = i, wt_off = off + q * w, wt_n = min w (nat sz - (off + q * w)) \<rparr>" for q
    have "nat (sz - int (off + w)) < nat (sz - int off)" using True assms by simp
    from less.hyps [OF this, of "acc @ [X 0]"] obtain ts where
      ts: "source_tasks w i sz (off + w) (acc @ [X 0]) = Some ts"
      "set ts = insert (X 0) (set acc) \<union> {\<lparr> wt_i = i, wt_off = off + w + q * w, wt_n = min w (nat sz - (off + w + q * w)) \<rparr> | q.
      int (off + w + q * w) < sz}" by auto
    have n: "(if int off + int w > sz then nat (sz - int off) else w) = min w (nat sz - off)"
      using True by auto
    have "source_tasks w i sz off acc = Some ts"
      using True ts(1) unfolding source_tasks.simps [of w i sz off] n by (simp add: Let_def X_def)
    moreover have "{X q | q. int (off + q * w) < sz} = insert (X 0) {X (Suc q) | q. int (off + Suc q * w) < sz}"
    proof (rule set_eqI)
      fix x
      have "x \<in> {X q | q. int (off + q * w) < sz} \<longleftrightarrow> (\<exists>q. int (off + q * w) < sz \<and> x = X q)" by auto
      also have "\<dots> \<longleftrightarrow> x = X 0 \<or> (\<exists>q. int (off + Suc q * w) < sz \<and> x = X (Suc q))"
        using True by (subst ex_nat_cases) simp
      finally show "x \<in> {X q | q. int (off + q * w) < sz} \<longleftrightarrow>
        x \<in> insert (X 0) {X (Suc q) | q. int (off + Suc q * w) < sz}" by auto
    qed
    ultimately show ?thesis using ts(2) by (auto simp: X_def add.assoc)
  qed
qed

text \<open>The windows of a source of \<open>l\<close> bytes.\<close>

definition windows_of :: "nat \<Rightarrow> nat \<Rightarrow> int \<Rightarrow> window_task set" where
  "windows_of w i sz = {\<lparr> wt_i = i, wt_off = q * w, wt_n = min w (nat sz - q * w) \<rparr> | q. int (q * w) < sz}"

definition source_windows :: "nat \<Rightarrow> nat \<Rightarrow> windowSource option \<Rightarrow> window_task set" where
  "source_windows w i src = (case src of None \<Rightarrow> {} | Some s \<Rightarrow> windows_of w i (ws_size s))"

lemma window_tasks_set:
  assumes "0 < w"
  shows "\<exists>ts. window_tasks w i srcs = Some ts \<and>
    set ts = (\<Union>k < length srcs. source_windows w (i + k) (srcs ! k))"
proof (induction srcs arbitrary: i)
  case (Cons s srcs)
  have split: "(\<Union>k < length (s # srcs). source_windows w (i + k) ((s # srcs) ! k))
    = source_windows w i s \<union> (\<Union>k < length srcs. source_windows w (Suc i + k) (srcs ! k))"
    by (simp add: lessThan_Suc_eq_insert_0 image_image)
  from Cons.IH [of "Suc i"] obtain us where us: "window_tasks w (Suc i) srcs = Some us"
    "set us = (\<Union>k < length srcs. source_windows w (Suc i + k) (srcs ! k))"
    by blast
  show ?case
  proof (cases s)
    case None
    then show ?thesis using us unfolding split by (simp add: source_windows_def [of w i])
  next
    case (Some src)
    from source_tasks_set [OF assms, of i "ws_size src" 0 "[]"] obtain ts where
      "source_tasks w i (ws_size src) 0 [] = Some ts" "set ts = windows_of w i (ws_size src)"
      by (auto simp: windows_of_def)
    then show ?thesis using us Some unfolding split by (simp add: source_windows_def [of w i])
  qed
qed simp

end
