(* ===== verification/MemFS.thy ===== *)
theory MemFS
  imports Volume "HOL-Library.AList"
begin

text \<open>
  The in-memory file system (\<open>memfs/memfs.go\<close>), and the contract of a file system that the encoder
  and the decoder rely on, as the locale \<open>file_io\<close>.  Paths are those of a Unix-like system.  The file
  map is an association list without duplicate keys: its order is the order in which Go's map
  happens to be enumerated.  The mutex of the source makes each operation atomic; each operation is
  one function here.  \<open>RootDir\<close>, which asks the operating system for the working directory, is not
  modelled.
\<close>

section \<open>Paths\<close>

text \<open>\<open>filepath.Join\<close> of two elements: the empty ones are left out, the rest is cleaned.\<close>

definition filepath_Join :: "gostring \<Rightarrow> gostring \<Rightarrow> gostring" where
  "filepath_Join a b = (if a \<noteq> [] then path_Clean (a @ slash # b) else if b \<noteq> [] then path_Clean b else [])"

definition toAbsPath :: "gostring \<Rightarrow> gostring \<Rightarrow> gostring res" where
  "toAbsPath workingDir p =
     (if \<not> path_IsAbs workingDir then Inl (Panic ''workingDir must be an absolute path'')
      else if path_IsAbs p then Inr p
      else Inr (filepath_Join workingDir p))"

section \<open>The file system\<close>

record MemFS =
  fs_workingDir :: gostring
  fs_fileData :: "(gostring \<times> byte list) list"

definition fileDataToAbsPaths ::
    "gostring \<Rightarrow> (gostring \<times> byte list) list \<Rightarrow> (gostring \<times> byte list) list res" where
  "fileDataToAbsPaths workingDir fileData =
     foldR (\<lambda>(p, data) newFileData. bindR (toAbsPath workingDir p) (\<lambda>q.
       Inr (AList.update q data newFileData))) fileData []"

definition MakeMemFS :: "gostring \<Rightarrow> (gostring \<times> byte list) list \<Rightarrow> MemFS res" where
  "MakeMemFS workingDir fileData = bindR (fileDataToAbsPaths workingDir fileData) (\<lambda>d.
     Inr \<lparr> fs_workingDir = workingDir, fs_fileData = d \<rparr>)"

definition ReadFile :: "MemFS \<Rightarrow> gostring \<Rightarrow> byte list res" where
  "ReadFile fs p = bindR (toAbsPath (fs_workingDir fs) p) (\<lambda>absPath.
     case map_of (fs_fileData fs) absPath of
       Some data \<Rightarrow> Inr data
     | None \<Rightarrow> Inl OsErrNotExist)"

definition Paths :: "MemFS \<Rightarrow> gostring list" where
  "Paths fs = map fst (fs_fileData fs)"

definition FileCount :: "MemFS \<Rightarrow> nat" where
  "FileCount fs = length (fs_fileData fs)"

definition HasPrefix :: "gostring \<Rightarrow> gostring \<Rightarrow> bool" where
  "HasPrefix s p \<longleftrightarrow> length p \<le> length s \<and> take (length p) s = p"

definition HasSuffix :: "gostring \<Rightarrow> gostring \<Rightarrow> bool" where
  "HasSuffix s p \<longleftrightarrow> length p \<le> length s \<and> drop (length s - length p) s = p"

definition FindWithPrefixAndSuffix :: "MemFS \<Rightarrow> gostring \<Rightarrow> gostring \<Rightarrow> gostring list res" where
  "FindWithPrefixAndSuffix fs prefix suffix =
     bindR (toAbsPath (fs_workingDir fs) prefix) (\<lambda>absPrefix.
       Inr (filter (\<lambda>filename. length filename \<ge> length absPrefix + length suffix \<and>
         HasPrefix filename absPrefix \<and> HasSuffix filename suffix) (Paths fs)))"

definition WriteFile :: "MemFS \<Rightarrow> gostring \<Rightarrow> byte list \<Rightarrow> MemFS res" where
  "WriteFile fs p data = bindR (toAbsPath (fs_workingDir fs) p) (\<lambda>absPath.
     Inr (fs\<lparr> fs_fileData := AList.update absPath data (fs_fileData fs) \<rparr>))"

definition RemoveFile :: "MemFS \<Rightarrow> gostring \<Rightarrow> (byte list \<times> MemFS) res" where
  "RemoveFile fs p = bindR (toAbsPath (fs_workingDir fs) p) (\<lambda>absPath.
     bindR (ReadFile fs absPath) (\<lambda>data.
       Inr (data, fs\<lparr> fs_fileData := AList.delete absPath (fs_fileData fs) \<rparr>)))"

definition MoveFile :: "MemFS \<Rightarrow> gostring \<Rightarrow> gostring \<Rightarrow> MemFS res" where
  "MoveFile fs oldPath newPath = bindR (RemoveFile fs oldPath) (\<lambda>(data, fs1).
     WriteFile fs1 newPath data)"

definition OpenRead :: "MemFS \<Rightarrow> gostring \<Rightarrow> (reader \<times> int) res" where
  "OpenRead fs p = bindR (ReadFile fs p) (\<lambda>data. Inr (bytes_reader data, int (length data)))"

section \<open>Writers\<close>

text \<open>
  A writer holds its private buffer; \<open>close\<close> gets the file system at the time of the call.  The
  bounds check of \<open>WriteAt\<close> adds in \<open>int64\<close>, where the sum may wrap around.
\<close>

record memWriter =
  mw_path :: gostring
  mw_data :: "byte list"

definition int64 :: "int \<Rightarrow> int" where
  "int64 x = sint (word_of_int x :: u64)"

definition memWriter_WriteAt :: "memWriter \<Rightarrow> byte list \<Rightarrow> int \<Rightarrow> (nat \<times> memWriter) res" where
  "memWriter_WriteAt w p off =
     (if off < 0 \<or> int64 (off + int (length p)) > int (length (mw_data w))
        then Inl (ErrorNew ''memfs: write out of range'')
      else bindR (slice_at (mw_data w) (nat off) (length (mw_data w))) (\<lambda>tl.
        Inr (length p, w\<lparr> mw_data := splice (mw_data w) (nat off) (take (length tl) p) \<rparr>)))"

definition memWriter_close :: "bool \<Rightarrow> memWriter \<Rightarrow> MemFS \<Rightarrow> MemFS res" where
  "memWriter_close commit w fs = (if \<not> commit then Inr fs else WriteFile fs (mw_path w) (mw_data w))"

definition make_bytes :: "int \<Rightarrow> byte list res" where
  "make_bytes n = (if n < 0 then Inl (Panic ''makeslice: len out of range'') else Inr (replicate (nat n) 0))"

definition OpenPatch :: "MemFS \<Rightarrow> gostring \<Rightarrow> int \<Rightarrow> memWriter res" where
  "OpenPatch fs p sz = bindR (ReadFile fs p) (\<lambda>old. bindR (make_bytes sz) (\<lambda>data.
     Inr \<lparr> mw_path = p, mw_data = splice data 0 (take (length data) old) \<rparr>))"

definition OpenWrite :: "MemFS \<Rightarrow> gostring \<Rightarrow> int \<Rightarrow> memWriter res" where
  "OpenWrite fs p sz = bindR (make_bytes sz) (\<lambda>data. Inr \<lparr> mw_path = p, mw_data = data \<rparr>)"

section \<open>The contract of a file system\<close>

text \<open>
  \<open>key\<close> identifies the file a path names.  Writing succeeds, makes the path read as the data and
  leaves every other file alone.
\<close>

locale file_io =
  fixes ok :: "'fs \<Rightarrow> bool" and key :: "'fs \<Rightarrow> gostring \<Rightarrow> 'k"
    and rd :: "'fs \<Rightarrow> gostring \<Rightarrow> byte list res" and wr :: "'fs \<Rightarrow> gostring \<Rightarrow> byte list \<Rightarrow> 'fs res"
  assumes wr_ok: "ok fs \<Longrightarrow> \<exists>fs'. wr fs p d = Inr fs' \<and> ok fs' \<and> key fs' = key fs \<and>
    (\<forall>q. rd fs' q = (if key fs q = key fs p then Inr d else rd fs q))"
begin

lemma wr_read:
  assumes "ok fs" and "wr fs p d = Inr fs'"
  shows "ok fs'" and "key fs' = key fs" and "rd fs' q = (if key fs q = key fs p then Inr d else rd fs q)"
  using wr_ok [OF assms(1), of p d] assms(2) by auto

text \<open>Writing several files with different keys: all of them read back, the others are untouched.\<close>

lemma wr_all:
  assumes "ok fs" and "distinct (map (\<lambda>(p, d). key fs p) files)"
  shows "\<exists>fs'. foldR (\<lambda>(p, d) f. wr f p d) files fs = Inr fs' \<and> ok fs' \<and> key fs' = key fs \<and>
    (\<forall>(p, d) \<in> set files. rd fs' p = Inr d) \<and>
    (\<forall>q. key fs q \<notin> (\<lambda>(p, d). key fs p) ` set files \<longrightarrow> rd fs' q = rd fs q)"
  using assms
proof (induction files arbitrary: fs)
  case Nil
  then show ?case by simp
next
  case (Cons f files)
  obtain p d where f: "f = (p, d)" by (cases f)
  from wr_ok [OF Cons.prems(1), of p d] obtain fs1 where
    1: "wr fs p d = Inr fs1" "ok fs1" "key fs1 = key fs"
    "\<And>q. rd fs1 q = (if key fs q = key fs p then Inr d else rd fs q)" by auto
  from Cons.IH [OF 1(2)] Cons.prems(2) 1(3) obtain fs2 where
    2: "foldR (\<lambda>(p, d) f. wr f p d) files fs1 = Inr fs2" "ok fs2" "key fs2 = key fs"
    "\<forall>(p, d) \<in> set files. rd fs2 p = Inr d"
    "\<And>q. key fs q \<notin> (\<lambda>(p, d). key fs p) ` set files \<Longrightarrow> rd fs2 q = rd fs1 q"
    by (auto simp: f)
  have "key fs p \<notin> (\<lambda>(p, d). key fs p) ` set files"
    using Cons.prems(2) by (simp add: f)
  then have "rd fs2 p = Inr d" using 2(5) 1(4) by simp
  moreover have "rd fs2 q = rd fs q" if "key fs q \<notin> (\<lambda>(p, d). key fs p) ` set (f # files)" for q
    using that 2(5) [of q] 1(4) [of q] by (auto simp: f)
  ultimately show ?case using 1 2 by (auto simp: f)
qed

end

section \<open>MemFS keeps the contract\<close>

lemma path_Clean_rooted: "path_IsAbs p \<Longrightarrow> path_IsAbs (path_Clean p)"
  by (auto simp: path_Clean_def Let_def path_IsAbs_def)

lemma toAbsPath_abs:
  assumes "path_IsAbs wd"
  obtains q where "toAbsPath wd p = Inr q" "path_IsAbs q"
proof (cases "path_IsAbs p")
  case True
  then show ?thesis using assms that by (simp add: toAbsPath_def)
next
  case False
  have "path_IsAbs (wd @ slash # p)" using assms by (auto simp: path_IsAbs_def)
  moreover have "wd \<noteq> []" using assms by (auto simp: path_IsAbs_def)
  ultimately have "path_IsAbs (filepath_Join wd p)"
    by (simp add: filepath_Join_def path_Clean_rooted)
  then show ?thesis using assms False that by (simp add: toAbsPath_def)
qed

text \<open>The key of a path in the file map, and the file map as a function.\<close>

definition fs_key :: "MemFS \<Rightarrow> gostring \<Rightarrow> gostring" where
  "fs_key fs p = (case toAbsPath (fs_workingDir fs) p of Inr q \<Rightarrow> q | Inl e \<Rightarrow> [])"

definition fs_view :: "MemFS \<Rightarrow> gostring \<rightharpoonup> byte list" where
  "fs_view fs = map_of (fs_fileData fs)"

definition fs_ok :: "MemFS \<Rightarrow> bool" where
  "fs_ok fs \<longleftrightarrow> path_IsAbs (fs_workingDir fs) \<and> distinct (map fst (fs_fileData fs))"

lemma toAbsPath_key: "fs_ok fs \<Longrightarrow> toAbsPath (fs_workingDir fs) p = Inr (fs_key fs p)"
  by (rule toAbsPath_abs [of "fs_workingDir fs" p]) (auto simp: fs_ok_def fs_key_def)

lemma fs_key_abs: "fs_ok fs \<Longrightarrow> path_IsAbs (fs_key fs p)"
  by (rule toAbsPath_abs [of "fs_workingDir fs" p]) (auto simp: fs_ok_def fs_key_def)

lemma fs_key_idem: "fs_ok fs \<Longrightarrow> fs_key fs (fs_key fs p) = fs_key fs p"
  using fs_key_abs [of fs p] by (simp add: fs_key_def [of fs "fs_key fs p"] toAbsPath_def fs_ok_def)

lemma fs_key_data [simp]: "fs_key (fs\<lparr> fs_fileData := d \<rparr>) p = fs_key fs p"
  by (simp add: fs_key_def)

lemma ReadFile_view:
  "fs_ok fs \<Longrightarrow> ReadFile fs p = (case fs_view fs (fs_key fs p) of Some d \<Rightarrow> Inr d | None \<Rightarrow> Inl OsErrNotExist)"
  by (simp add: ReadFile_def toAbsPath_key fs_view_def)

lemma WriteFile_view:
  assumes "fs_ok fs"
  shows "\<exists>fs'. WriteFile fs p d = Inr fs' \<and> fs_ok fs' \<and> fs_key fs' = fs_key fs \<and>
    fs_view fs' = (fs_view fs)(fs_key fs p \<mapsto> d)"
proof -
  let ?fs' = "fs\<lparr> fs_fileData := AList.update (fs_key fs p) d (fs_fileData fs) \<rparr>"
  have "WriteFile fs p d = Inr ?fs'" using assms by (simp add: WriteFile_def toAbsPath_key)
  moreover have "fs_ok ?fs'" using assms by (simp add: fs_ok_def distinct_update)
  moreover have "fs_key ?fs' = fs_key fs" by (rule ext) simp
  moreover have "fs_view ?fs' = (fs_view fs)(fs_key fs p \<mapsto> d)" by (simp add: fs_view_def update_conv')
  ultimately show ?thesis by blast
qed

interpretation memfs: file_io fs_ok fs_key ReadFile WriteFile
proof unfold_locales
  fix fs p d
  assume ok: "fs_ok fs"
  from WriteFile_view [OF this, of p d] obtain fs' where
    w: "WriteFile fs p d = Inr fs'" "fs_ok fs'" "fs_key fs' = fs_key fs"
    "fs_view fs' = (fs_view fs)(fs_key fs p \<mapsto> d)" by blast
  then have "ReadFile fs' q = (if fs_key fs q = fs_key fs p then Inr d else ReadFile fs q)" for q
    by (simp add: ReadFile_view [OF w(2)] ReadFile_view [OF ok])
  with w show "\<exists>fs'. WriteFile fs p d = Inr fs' \<and> fs_ok fs' \<and> fs_key fs' = fs_key fs \<and>
    (\<forall>q. ReadFile fs' q = (if fs_key fs q = fs_key fs p then Inr d else ReadFile fs q))" by blast
qed

lemma RemoveFile_view:
  assumes ok: "fs_ok fs"
  shows "fs_view fs (fs_key fs p) = None \<Longrightarrow> RemoveFile fs p = Inl OsErrNotExist"
    and "fs_view fs (fs_key fs p) = Some d \<Longrightarrow> \<exists>fs'. RemoveFile fs p = Inr (d, fs') \<and> fs_ok fs' \<and>
      fs_key fs' = fs_key fs \<and> fs_view fs' = (fs_view fs)(fs_key fs p := None)"
proof -
  have r: "ReadFile fs (fs_key fs p) = (case fs_view fs (fs_key fs p) of Some d \<Rightarrow> Inr d | None \<Rightarrow> Inl OsErrNotExist)"
    using ok by (simp add: ReadFile_view fs_key_idem)
  show "fs_view fs (fs_key fs p) = None \<Longrightarrow> RemoveFile fs p = Inl OsErrNotExist"
    using ok r by (simp add: RemoveFile_def toAbsPath_key)
  assume v: "fs_view fs (fs_key fs p) = Some d"
  let ?fs' = "fs\<lparr> fs_fileData := AList.delete (fs_key fs p) (fs_fileData fs) \<rparr>"
  have "RemoveFile fs p = Inr (d, ?fs')" using ok r v by (simp add: RemoveFile_def toAbsPath_key)
  moreover have "fs_ok ?fs'" using ok by (simp add: fs_ok_def distinct_delete)
  moreover have "fs_key ?fs' = fs_key fs" by (rule ext) simp
  moreover have "fs_view ?fs' = (fs_view fs)(fs_key fs p := None)" by (simp add: fs_view_def delete_conv')
  ultimately show "\<exists>fs'. RemoveFile fs p = Inr (d, fs') \<and> fs_ok fs' \<and>
      fs_key fs' = fs_key fs \<and> fs_view fs' = (fs_view fs)(fs_key fs p := None)" by blast
qed

text \<open>
  C30: MemFS is a map from absolute paths to contents.  Reading looks the path's key up, writing
  updates it, removing deletes it and returns the contents, moving does one after the other; a path
  without a file gives \<open>os.ErrNotExist\<close> and changes nothing.  No operation panics when the working
  directory is absolute.
\<close>

theorem memfs_refines_map:
  assumes "path_IsAbs (fs_workingDir fs)" and "distinct (map fst (fs_fileData fs))"
  shows "ReadFile fs p = (case fs_view fs (fs_key fs p) of Some d \<Rightarrow> Inr d | None \<Rightarrow> Inl OsErrNotExist) \<and>
    (\<exists>fs'. WriteFile fs p d = Inr fs' \<and> fs_view fs' = (fs_view fs)(fs_key fs p \<mapsto> d)) \<and>
    (case fs_view fs (fs_key fs p) of
       None \<Rightarrow> RemoveFile fs p = Inl OsErrNotExist \<and> MoveFile fs p q = Inl OsErrNotExist
     | Some c \<Rightarrow>
         (\<exists>fs'. RemoveFile fs p = Inr (c, fs') \<and> fs_view fs' = (fs_view fs)(fs_key fs p := None)) \<and>
         (\<exists>fs'. MoveFile fs p q = Inr fs' \<and>
            fs_view fs' = (fs_view fs)(fs_key fs p := None, fs_key fs q := Some c)))"
proof -
  have ok: "fs_ok fs" using assms by (simp add: fs_ok_def)
  have "case fs_view fs (fs_key fs p) of
       None \<Rightarrow> RemoveFile fs p = Inl OsErrNotExist \<and> MoveFile fs p q = Inl OsErrNotExist
     | Some c \<Rightarrow>
         (\<exists>fs'. RemoveFile fs p = Inr (c, fs') \<and> fs_view fs' = (fs_view fs)(fs_key fs p := None)) \<and>
         (\<exists>fs'. MoveFile fs p q = Inr fs' \<and>
            fs_view fs' = (fs_view fs)(fs_key fs p := None, fs_key fs q := Some c))"
  proof (cases "fs_view fs (fs_key fs p)")
    case None
    then show ?thesis using RemoveFile_view(1) [OF ok] by (simp add: MoveFile_def)
  next
    case (Some c)
    from RemoveFile_view(2) [OF ok this] obtain fs1 where
      1: "RemoveFile fs p = Inr (c, fs1)" "fs_ok fs1" "fs_key fs1 = fs_key fs"
      "fs_view fs1 = (fs_view fs)(fs_key fs p := None)" by blast
    from WriteFile_view [OF 1(2), of q c] obtain fs2 where
      "WriteFile fs1 q c = Inr fs2" "fs_view fs2 = (fs_view fs1)(fs_key fs1 q \<mapsto> c)" by blast
    with 1 Some show ?thesis by (simp add: MoveFile_def)
  qed
  with ReadFile_view [OF ok] WriteFile_view [OF ok] show ?thesis by blast
qed

theorem memfs_refines_map_witness:
  "\<exists>fs'. MoveFile \<lparr> fs_workingDir = str ''/w'', fs_fileData = [(str ''/w/a'', [1, 2])] \<rparr> (str ''a'') (str ''b/../c'')
     = Inr fs' \<and> fs_view fs' = [str ''/w/c'' \<mapsto> [1, 2]]"
proof -
  let ?fs = "\<lparr> fs_workingDir = str ''/w'', fs_fileData = [(str ''/w/a'', [1, 2])] \<rparr>"
  have k: "toAbsPath (str ''/w'') (str ''a'') = Inr (str ''/w/a'')" "toAbsPath (str ''/w'') (str ''b/../c'') = Inr (str ''/w/c'')"
    "path_IsAbs (str ''/w'')" by code_simp+
  then show ?thesis
    using memfs_refines_map [of ?fs "str ''a''" "[]" "str ''b/../c''"]
    by (simp add: fs_key_def fs_view_def)
qed

section \<open>Writers\<close>

lemma int64_id: "- (2 ^ 63) \<le> x \<Longrightarrow> x < 2 ^ 63 \<Longrightarrow> int64 x = x"
  by (simp add: int64_def signed_of_int signed_take_bit_int_eq_self)

lemma WriteAt_ok:
  assumes "0 \<le> off" and "nat off + length bs \<le> length (mw_data w)" and "length (mw_data w) < 2 ^ 63"
  shows "memWriter_WriteAt w bs off = Inr (length bs, w\<lparr> mw_data := splice (mw_data w) (nat off) bs \<rparr>)"
proof -
  have l: "int (length (mw_data w)) < 2 ^ 63" using assms(3) by simp
  have b: "off + int (length bs) \<le> int (length (mw_data w))" using assms(1,2) by linarith
  have i: "int64 (off + int (length bs)) = off + int (length bs)"
  proof (rule int64_id)
    show "- (2 ^ 63) \<le> off + int (length bs)" by (rule order_trans [of _ 0]) (use assms(1) in simp_all)
    show "off + int (length bs) < 2 ^ 63" using b l by (rule order_le_less_trans)
  qed
  have "nat off \<le> length (mw_data w)" using assms(2) by simp
  then show ?thesis
    using assms(1,2) b by (simp add: memWriter_WriteAt_def i not_less)
qed

text \<open>A sequence of positional writes.\<close>

definition write_all_at :: "(int \<times> byte list) list \<Rightarrow> memWriter \<Rightarrow> memWriter res" where
  "write_all_at ws w = foldR (\<lambda>(off, bs) w. bindR (memWriter_WriteAt w bs off) (\<lambda>(_, w'). Inr w')) ws w"

lemma write_all_at_ok:
  assumes "\<forall>(off, bs) \<in> set ws. 0 \<le> off \<and> nat off + length bs \<le> length (mw_data w)"
    and "length (mw_data w) < 2 ^ 63"
  shows "write_all_at ws w = Inr (w\<lparr> mw_data := fold (\<lambda>(off, bs) d. splice d (nat off) bs) ws (mw_data w) \<rparr>)
    \<and> length (fold (\<lambda>(off, bs) d. splice d (nat off) bs) ws (mw_data w)) = length (mw_data w)"
  using assms
proof (induction ws arbitrary: w)
  case Nil
  then show ?case by (simp add: write_all_at_def)
next
  case (Cons x ws)
  obtain off bs where x: "x = (off, bs)" by (cases x)
  let ?w1 = "w\<lparr> mw_data := splice (mw_data w) (nat off) bs \<rparr>"
  have b: "0 \<le> off" "nat off + length bs \<le> length (mw_data w)" using Cons.prems(1) by (auto simp: x)
  have "write_all_at ws ?w1 = Inr (?w1\<lparr> mw_data := fold (\<lambda>(off, bs) d. splice d (nat off) bs) ws (mw_data ?w1) \<rparr>)
      \<and> length (fold (\<lambda>(off, bs) d. splice d (nat off) bs) ws (mw_data ?w1)) = length (mw_data ?w1)"
    by (rule Cons.IH) (use Cons.prems b in auto)
  then show ?case
    using WriteAt_ok [OF b Cons.prems(2)] b by (simp add: write_all_at_def x)
qed

text \<open>
  C29: Writes are private until they are committed.  After \<open>OpenWrite\<close> of a file of \<open>sz\<close> bytes and any
  sequence of writes inside it, \<open>close(true)\<close> makes the path read as the zero-filled buffer with the
  writes laid over it in order and leaves every other file alone; \<open>close(false)\<close> leaves the file
  system as it was.
\<close>

theorem memfs_write_commit:
  assumes "path_IsAbs (fs_workingDir fs)" and "distinct (map fst (fs_fileData fs))"
    and "OpenWrite fs p sz = Inr w" and "sz < 2 ^ 63"
    and "\<forall>(off, bs) \<in> set ws. 0 \<le> off \<and> nat off + length bs \<le> nat sz"
  shows "\<exists>w' fs'. write_all_at ws w = Inr w' \<and> memWriter_close True w' fs = Inr fs' \<and>
    ReadFile fs' p = Inr (fold (\<lambda>(off, bs) d. splice d (nat off) bs) ws (replicate (nat sz) 0)) \<and>
    (\<forall>q. fs_key fs q \<noteq> fs_key fs p \<longrightarrow> ReadFile fs' q = ReadFile fs q) \<and>
    memWriter_close False w' fs = Inr fs"
proof -
  have ok: "fs_ok fs" using assms(1,2) by (simp add: fs_ok_def)
  have w: "w = \<lparr> mw_path = p, mw_data = replicate (nat sz) 0 \<rparr>" and sz: "0 \<le> sz"
    using assms(3) by (auto simp: OpenWrite_def make_bytes_def split: if_splits)
  have l: "nat sz < 2 ^ 63" using assms(4) sz by (simp add: nat_less_iff)
  let ?d = "fold (\<lambda>(off, bs) d. splice d (nat off) bs) ws (replicate (nat sz) 0)"
  have wr: "write_all_at ws w = Inr (w\<lparr> mw_data := ?d \<rparr>)"
    using write_all_at_ok [of ws w] assms(5) l by (simp add: w)
  from memfs.wr_ok [OF ok, of p ?d] obtain fs' where
    "WriteFile fs p ?d = Inr fs'" "\<forall>q. ReadFile fs' q = (if fs_key fs q = fs_key fs p then Inr ?d else ReadFile fs q)"
    by blast
  with wr show ?thesis by (simp add: memWriter_close_def w)
qed

theorem memfs_write_commit_witness:
  "\<exists>w w' fs'. OpenWrite \<lparr> fs_workingDir = str ''/'', fs_fileData = [] \<rparr> (str ''f'') 4 = Inr w \<and>
    write_all_at [(1, [7, 8]), (2, [9])] w = Inr w' \<and>
    memWriter_close True w' \<lparr> fs_workingDir = str ''/'', fs_fileData = [] \<rparr> = Inr fs' \<and>
    ReadFile fs' (str ''f'') = Inr [0, 7, 9, 0]"
proof -
  let ?fs = "\<lparr> fs_workingDir = str ''/'', fs_fileData = [] \<rparr>"
  have a: "path_IsAbs (str ''/'')" by code_simp
  have o: "OpenWrite ?fs (str ''f'') 4 = Inr \<lparr> mw_path = str ''f'', mw_data = replicate 4 0 \<rparr>"
    by (simp add: OpenWrite_def make_bytes_def)
  have f: "fold (\<lambda>(off, bs) d. splice d (nat off) bs) [(1, [7, 8]), (2, [9])] (replicate (nat 4) 0)
      = [0, 7, 9, 0 :: byte]" by code_simp
  have "\<exists>w' fs'. write_all_at [(1, [7, 8]), (2, [9])] \<lparr> mw_path = str ''f'', mw_data = replicate 4 0 \<rparr> = Inr w' \<and>
    memWriter_close True w' ?fs = Inr fs' \<and>
    ReadFile fs' (str ''f'') = Inr (fold (\<lambda>(off, bs) d. splice d (nat off) bs) [(1, [7, 8]), (2, [9])] (replicate (nat 4) 0)) \<and>
    (\<forall>q. fs_key ?fs q \<noteq> fs_key ?fs (str ''f'') \<longrightarrow> ReadFile fs' q = ReadFile ?fs q) \<and>
    memWriter_close False w' ?fs = Inr ?fs"
    by (rule memfs_write_commit [OF _ _ o]) (simp_all add: a)
  with o f show ?thesis by (auto simp: numeral_eq_Suc)
qed

end
