(* ===== verification/FileIO.thy ===== *)
theory FileIO
  imports MemFS
begin

text \<open>
  What the encoder and the decoder use of the operating system: the functions of package
  \<open>path/filepath\<close> on a Unix-like system, and the interfaces \<open>fileIO\<close> and \<open>patchFileIO\<close> of
  \<open>par2/decoder.go\<close> as a record of functions on a file-system state.  The locale \<open>file_store\<close> is the
  contract of an implementation; \<open>memfs\<close> keeps it.
\<close>

section \<open>path.Ext, filepath.Dir, filepath.Rel and filepath.Abs\<close>

text \<open>The part after and including the last dot, when no slash follows it.\<close>

definition path_Ext :: "gostring \<Rightarrow> gostring" where
  "path_Ext p =
     (let back = takeWhile (\<lambda>c. c \<noteq> dot \<and> c \<noteq> slash) (rev p); rest = drop (length back) (rev p)
      in if rest \<noteq> [] \<and> hd rest = dot then dot # rev back else [])"

definition filepath_Dir :: "gostring \<Rightarrow> gostring" where
  "filepath_Dir p = path_Clean (rev (dropWhile (\<lambda>c. c \<noteq> slash) (rev p)))"

definition filepath_Abs :: "gostring \<Rightarrow> gostring \<Rightarrow> gostring" where
  "filepath_Abs workingDir p = (if path_IsAbs p then path_Clean p else filepath_Join workingDir p)"

text \<open>
  The loop of \<open>filepath.Rel\<close> over the common elements.  The arguments are \<open>base[b0:]\<close> and
  \<open>targ[t0:]\<close>; the result is \<open>base[b0:bi]\<close> and the two at the first element that differs.
\<close>

function rel_loop :: "gostring \<Rightarrow> gostring \<Rightarrow> gostring \<times> gostring \<times> gostring" where
  "rel_loop b t =
     (if b = [] \<or> t = [] then ([], b, t)
      else let be = takeWhile (\<lambda>c. c \<noteq> slash) b; te = takeWhile (\<lambda>c. c \<noteq> slash) t
        in if te \<noteq> be then (be, b, t)
           else rel_loop (drop (length be + 1) b) (drop (length te + 1) t))"
  by pat_completeness auto
termination by (relation "measure (\<lambda>(b, t). length b)") auto

declare rel_loop.simps [simp del]

definition rel_error :: "'a res" where
  "rel_error = Inl (ErrorNew ''Rel: can't make the path relative'')"

definition filepath_Rel :: "gostring \<Rightarrow> gostring \<Rightarrow> gostring res" where
  "filepath_Rel basepath targpath =
     (let base = path_Clean basepath; targ = path_Clean targpath in
      if targ = base then Inr [dot]
      else let base' = (if base = [dot] then [] else base) in
        if path_IsAbs base' \<noteq> path_IsAbs targ then rel_error
        else let (be, b, t) = rel_loop base' targ in
          if be = [dot, dot] then rel_error
          else if b \<noteq> [] then
            Inr ([dot, dot] @ concat (replicate (length (filter (\<lambda>c. c = slash) b)) [slash, dot, dot]) @
              (if t \<noteq> [] then slash # t else []))
          else Inr t)"

lemma rel_loop_tests:
  "filepath_Rel (str ''/a/b'') (str ''/a/b/c/d'') = Inr (str ''c/d'')"
  "filepath_Rel (str ''/a/b'') (str ''/a/c'') = Inr (str ''../c'')"
  "filepath_Rel (str ''/a'') (str ''/a'') = Inr (str ''.'')"
  "filepath_Rel (str ''/a/b'') (str ''/'') = Inr (str ''../..'')"
  "filepath_Dir (str ''/a/b.par2'') = str ''/a''"
  "filepath_Dir (str ''b.par2'') = str ''.''"
  "path_Ext (str ''/a/b.vol0.par2'') = str ''.par2''"
  "path_Ext (str ''/a.b/c'') = []"
  by code_simp+

section \<open>The interface\<close>

text \<open>
  \<open>'fs\<close> is the state of the file system, \<open>'w\<close> that of an open writer; \<open>io_close commit\<close> is the close
  function that \<open>OpenWrite\<close> returns.  \<open>io_OpenPatch\<close> is None when the implementation is not a
  \<open>patchFileIO\<close>.  The close functions of readers, whose errors the code drops, are left out.
\<close>

record ('fs, 'w) fileIO =
  io_ReadFile :: "'fs \<Rightarrow> gostring \<Rightarrow> byte list res"
  io_OpenRead :: "'fs \<Rightarrow> gostring \<Rightarrow> (reader \<times> int) res"
  io_OpenWrite :: "'fs \<Rightarrow> gostring \<Rightarrow> int \<Rightarrow> 'w res"
  io_OpenPatch :: "('fs \<Rightarrow> gostring \<Rightarrow> int \<Rightarrow> 'w res) option"
  io_WriteAt :: "'w \<Rightarrow> byte list \<Rightarrow> int \<Rightarrow> (nat \<times> 'w) res"
  io_close :: "bool \<Rightarrow> 'w \<Rightarrow> 'fs \<Rightarrow> 'fs res"
  io_FindWithPrefixAndSuffix :: "'fs \<Rightarrow> gostring \<Rightarrow> gostring \<Rightarrow> gostring list res"
  io_WriteFile :: "'fs \<Rightarrow> gostring \<Rightarrow> byte list \<Rightarrow> 'fs res"

definition memfs_io :: "(MemFS, memWriter) fileIO" where
  "memfs_io = \<lparr> io_ReadFile = ReadFile, io_OpenRead = OpenRead, io_OpenWrite = OpenWrite,
     io_OpenPatch = Some OpenPatch, io_WriteAt = memWriter_WriteAt, io_close = memWriter_close,
     io_FindWithPrefixAndSuffix = FindWithPrefixAndSuffix, io_WriteFile = WriteFile \<rparr>"

text \<open>
  The contract: writing whole files as in \<open>file_io\<close>; a reader over the contents of the file; and a
  search that finds existing files of the right form, among them all those without a further slash.
\<close>

locale file_store = file_io ok key "io_ReadFile io" "io_WriteFile io"
  for ok :: "'fs \<Rightarrow> bool" and key :: "'fs \<Rightarrow> gostring \<Rightarrow> gostring" and io :: "('fs, 'w) fileIO" +
  assumes open_ok: "ok fs \<Longrightarrow> io_ReadFile io fs p = Inr d \<Longrightarrow>
      \<exists>r. io_OpenRead io fs p = Inr (r, int (length d)) \<and> reader_over r d"
    and open_err: "ok fs \<Longrightarrow> io_ReadFile io fs p = Inl e \<Longrightarrow> io_OpenRead io fs p = Inl e"
    and key_abs: "ok fs \<Longrightarrow> path_IsAbs p \<Longrightarrow> key fs p = p"
    and find_ok: "ok fs \<Longrightarrow> path_IsAbs pre \<Longrightarrow> \<exists>l. io_FindWithPrefixAndSuffix io fs pre suf = Inr l \<and>
      distinct l \<and> (\<forall>p \<in> set l. (\<exists>mid. p = pre @ mid @ suf) \<and> (\<exists>d. io_ReadFile io fs p = Inr d)) \<and>
      (\<forall>mid d. slash \<notin> set mid \<longrightarrow> io_ReadFile io fs (pre @ mid @ suf) = Inr d \<longrightarrow> pre @ mid @ suf \<in> set l)"

lemma prefix_suffix_middle:
  "length p \<ge> length pre + length suf \<and> HasPrefix p pre \<and> HasSuffix p suf \<longleftrightarrow> (\<exists>mid. p = pre @ mid @ suf)"
proof
  assume a: "length p \<ge> length pre + length suf \<and> HasPrefix p pre \<and> HasSuffix p suf"
  then have t: "take (length pre) p = pre" and d: "drop (length p - length suf) p = suf"
    by (auto simp: HasPrefix_def HasSuffix_def)
  let ?r = "drop (length pre) p"
  have "p = pre @ ?r" using t by (metis append_take_drop_id)
  moreover have "drop (length ?r - length suf) ?r = suf"
  proof -
    have "length ?r - length suf + length pre = length p - length suf" using a by simp
    then show ?thesis using d by (simp add: drop_drop)
  qed
  moreover have "?r = take (length ?r - length suf) ?r @ drop (length ?r - length suf) ?r"
    by (rule append_take_drop_id [symmetric])
  ultimately show "\<exists>mid. p = pre @ mid @ suf" by metis
qed (auto simp: HasPrefix_def HasSuffix_def)

lemma memfs_key_abs: "fs_ok fs \<Longrightarrow> path_IsAbs p \<Longrightarrow> fs_key fs p = p"
  by (simp add: fs_key_def toAbsPath_def fs_ok_def)

interpretation memfs_store: file_store fs_ok fs_key memfs_io
proof unfold_locales
  fix fs p d
  assume ok: "fs_ok fs"
  show "\<exists>fs'. io_WriteFile memfs_io fs p d = Inr fs' \<and> fs_ok fs' \<and> fs_key fs' = fs_key fs \<and>
    (\<forall>q. io_ReadFile memfs_io fs' q = (if fs_key fs q = fs_key fs p then Inr d else io_ReadFile memfs_io fs q))"
    unfolding memfs_io_def fileIO.simps by (rule memfs.wr_ok [OF ok])
next
  fix fs p d
  assume "fs_ok fs" "io_ReadFile memfs_io fs p = Inr d"
  then show "\<exists>r. io_OpenRead memfs_io fs p = Inr (r, int (length d)) \<and> reader_over r d"
    using bytes_reader.reader_over_axioms by (auto simp: memfs_io_def OpenRead_def)
next
  fix fs p e
  assume "fs_ok fs" "io_ReadFile memfs_io fs p = Inl e"
  then show "io_OpenRead memfs_io fs p = Inl e" by (simp add: memfs_io_def OpenRead_def)
next
  fix fs p
  assume "fs_ok fs" "path_IsAbs p"
  then show "fs_key fs p = p" by (rule memfs_key_abs)
next
  fix fs pre suf
  assume ok: "fs_ok fs" and abs: "path_IsAbs pre"
  let ?l = "filter (\<lambda>p. \<exists>mid. p = pre @ mid @ suf) (Paths fs)"
  have "FindWithPrefixAndSuffix fs pre suf = Inr ?l"
    using toAbsPath_key [OF ok, of pre] memfs_key_abs [OF ok abs]
    by (simp add: FindWithPrefixAndSuffix_def prefix_suffix_middle)
  moreover have "distinct ?l" using ok by (simp add: fs_ok_def Paths_def)
  moreover have read: "ReadFile fs (pre @ mid @ suf) = (case map_of (fs_fileData fs) (pre @ mid @ suf) of
      Some d \<Rightarrow> Inr d | None \<Rightarrow> Inl OsErrNotExist)" for mid
  proof -
    have "path_IsAbs (pre @ mid @ suf)" using abs by (auto simp: path_IsAbs_def)
    then show ?thesis using ok by (simp add: ReadFile_def toAbsPath_def fs_ok_def)
  qed
  moreover have "q \<in> set (Paths fs) \<longleftrightarrow> map_of (fs_fileData fs) q \<noteq> None" for q
    by (simp add: Paths_def map_of_eq_None_iff)
  ultimately show "\<exists>l. io_FindWithPrefixAndSuffix memfs_io fs pre suf = Inr l \<and> distinct l \<and>
      (\<forall>p \<in> set l. (\<exists>mid. p = pre @ mid @ suf) \<and> (\<exists>d. io_ReadFile memfs_io fs p = Inr d)) \<and>
      (\<forall>mid d. slash \<notin> set mid \<longrightarrow> io_ReadFile memfs_io fs (pre @ mid @ suf) = Inr d \<longrightarrow> pre @ mid @ suf \<in> set l)"
    by (intro exI [of _ ?l]) (auto simp: memfs_io_def split: option.splits)
qed

end
