(* ===== verification/Decoder.thy ===== *)
theory Decoder
  imports WindowScan FileIO
begin

text \<open>
  The decoder up to repair (\<open>par2/decoder.go\<close>): \<open>newDecoder\<close>, which reads the index file, and
  \<open>LoadFileData\<close>, which scans the data files, with both of its scanners, and reports what it finds to
  the delegate.  The calls of the delegate are a list of events.
\<close>

section \<open>The decoder and its delegate\<close>

datatype decoder_event =
    OnPacket delegate_event
  | OnDataFileLoad nat nat gostring int nat nat "go_error option"
  | OnParityFileLoad nat gostring "go_error option"
  | OnDetectCorruptDataChunk fileID gostring int int
  | OnDetectDataFileHashMismatch fileID gostring
  | OnDetectDataFileWrongByteCount fileID gostring
  | OnDataFileWrite nat nat gostring int "go_error option"

record parityLocation =
  pl_path :: gostring
  pl_offset :: int
  pl_length :: int
  pl_vol :: nat

record decoder =
  d_indexPath :: gostring
  d_setID :: recoverySetID
  d_clientID :: gostring
  d_sliceByteCount :: nat
  d_recoverySet :: "decoderInputFileInfo list"
  d_nonRecoverySet :: "decoderInputFileInfo list"
  d_numGoroutines :: int
  d_scanPolicy :: scanPolicy
  d_memoryBudget :: int
  d_fileIDIndices :: "fileID \<rightharpoonup> nat"
  d_checksumToLocation :: checksumShardLocationMap
  d_fileIntegrityInfos :: "fileIntegrityInfo list"
  d_parityLocations :: "parityLocation list"
  d_parityPresent :: "bool list"

text \<open>
  \<open>newDecoder\<close>: the slice byte count read from a main packet is positive, so that \<open>nat\<close> keeps it.
\<close>

definition newDecoder ::
    "('fs, 'w) fileIO \<Rightarrow> 'fs \<Rightarrow> gostring \<Rightarrow> int \<Rightarrow> scanPolicy \<Rightarrow> int \<Rightarrow> delegate_event list \<times> decoder res" where
  "newDecoder io fs indexPath numGoroutines policy memoryBudget =
     (case io_ReadFile io fs indexPath of
        Inl e \<Rightarrow> ([], Inl e)
      | Inr indexBytes \<Rightarrow> (case readFile None indexBytes of (events, r) \<Rightarrow> (events,
          bindR r (\<lambda>(setID, indexFile). case f_mainPacket indexFile of
              None \<Rightarrow> Inl (ErrorNew ''no main packet found'')
            | Some main \<Rightarrow>
                if length (exponents_of (f_recoveryPackets indexFile)) > 0
                  then Inl (ErrorNew ''recovery packets found in index file'')
                else bindR (makeDecoderInputFileInfos (mp_recoverySet main)
                    (f_fileDescriptionPackets indexFile) (f_ifscPackets indexFile)) (\<lambda>recoverySet.
                  bindR (makeDecoderInputFileInfos (mp_nonRecoverySet main)
                    (f_fileDescriptionPackets indexFile) (f_ifscPackets indexFile)) (\<lambda>nonRecoverySet.
                  Inr \<lparr> d_indexPath = indexPath, d_setID = setID, d_clientID = f_clientID indexFile,
                    d_sliceByteCount = nat (mp_sliceByteCount main), d_recoverySet = recoverySet,
                    d_nonRecoverySet = nonRecoverySet, d_numGoroutines = numGoroutines,
                    d_scanPolicy = policy, d_memoryBudget = memoryBudget,
                    d_fileIDIndices = Map.empty, d_checksumToLocation = Map.empty,
                    d_fileIntegrityInfos = [], d_parityLocations = [], d_parityPresent = [] \<rparr>))))))"

definition getFilePath :: "decoder \<Rightarrow> decoderInputFileInfo \<Rightarrow> gostring" where
  "getFilePath d info = filepath_Join (filepath_Dir (d_indexPath d)) (di_filename info)"

text \<open>What the scanners read of the decoder.\<close>

definition decoder_config ::
    "decoder \<Rightarrow> checksumShardLocationMap \<Rightarrow> (fileID \<rightharpoonup> nat) \<Rightarrow> scan_config" where
  "decoder_config d m indices = \<lparr> cf_sliceByteCount = d_sliceByteCount d, cf_recoverySet = d_recoverySet d,
     cf_policy = d_scanPolicy d, cf_checksumToLocation = m, cf_fileIDIndices = indices \<rparr>"

record scanResult =
  sr_byteCount :: int
  sr_hits :: nat
  sr_misses :: nat
  sr_err :: "go_error option"

definition no_result :: scanResult where
  "no_result = \<lparr> sr_byteCount = 0, sr_hits = 0, sr_misses = 0, sr_err = None \<rparr>"

text \<open>What the workers of a scan share; the events are those of the mid-scan delegate calls.\<close>

record load_state =
  ls_infos :: "fileIntegrityInfo list"
  ls_windows :: "nat \<rightharpoonup> crc32Window"
  ls_results :: "scanResult list"
  ls_events :: "decoder_event list"

text \<open>
  The verdict on file \<open>i\<close>, which both scanners end with: its flags, from the 16k hash and the shards
  found, and the calls of the delegate.
\<close>

definition file_verdict ::
    "decoder \<Rightarrow> nat \<Rightarrow> int \<Rightarrow> 16 arr \<Rightarrow> load_state \<Rightarrow> load_state" where
  "file_verdict d i sz sixteenK st =
     (let info = d_recoverySet d ! i; path = getFilePath d info; fi = ls_infos st ! i;
          hasWrongByteCount = (sz \<noteq> di_byteCount info);
          hashMismatch = (sixteenK \<noteq> di_sixteenKHash info \<or> \<not> allShardsOK (d_sliceByteCount d) fi)
      in st\<lparr> ls_infos := (ls_infos st)[i := fi\<lparr> fi_hashMismatch := hashMismatch,
             fi_hasWrongByteCount := hasWrongByteCount \<rparr>],
           ls_events := ls_events st
             @ (if hashMismatch then [OnDetectDataFileHashMismatch (di_fileID info) path] else [])
             @ (if hasWrongByteCount then [OnDetectDataFileWrongByteCount (di_fileID info) path] else []) \<rparr>)"

definition mark_missing :: "nat \<Rightarrow> fileIntegrityInfo list \<Rightarrow> fileIntegrityInfo list" where
  "mark_missing i infos = infos[i := (infos ! i)\<lparr> fi_missing := True \<rparr>]"

section \<open>fillFileIntegrityInfos: the streaming scan of one file\<close>

text \<open>
  Its local variables: \<open>fs_carried\<close> is \<open>buf[:carry]\<close>.
\<close>

record fill_state =
  fl_carried :: "byte list"
  fl_readOffset :: int
  fl_windowStart :: nat
  fl_head :: "byte list"
  fl_hits :: nat
  fl_misses :: nat

text \<open>
  The function as a process of the worker pool: before the file is opened, at the top of the loop, in
  \<open>scanBuffer\<close> with the window and whether it is the last, and after the loop.  Between these points
  and after every slice the other workers may make steps.
\<close>

datatype fill_proc =
    FillOpen nat
  | FillRead nat reader int fill_state
  | FillScan nat reader int fill_state bool scan_env scan_state
  | FillEnd nat int fill_state

definition fill_env :: "scan_config \<Rightarrow> nat \<Rightarrow> fill_state \<Rightarrow> byte list \<Rightarrow> nat \<Rightarrow> scan_env" where
  "fill_env cf i fl window limit = \<lparr> e_sliceByteCount = cf_sliceByteCount cf, e_data = window, e_limit = limit,
     e_baseOffset = fl_windowStart fl, e_checksumToLocation = cf_checksumToLocation cf,
     e_fileID = di_fileID (cf_recoverySet cf ! i), e_fileIDIndices = cf_fileIDIndices cf,
     e_policy = cf_policy cf \<rparr>"

text \<open>The top of the loop: fill the buffer, keep the head, and set the limit of the scan.\<close>

definition fill_read ::
    "scan_config \<Rightarrow> nat \<Rightarrow> reader \<Rightarrow> int \<Rightarrow> fill_state \<Rightarrow> load_state \<Rightarrow> (fill_proc option \<times> load_state) res" where
  "fill_read cf i r sz fl st = bindR (scanWindowSize (cf_sliceByteCount cf)) (\<lambda>windowSize.
     let carry = length (fl_carried fl); remaining = sz - fl_readOffset fl;
         n = (if int (windowSize - carry) > remaining then nat remaining else windowSize - carry)
     in case (if n > 0 then r (fl_readOffset fl) n else Inr []) of
          Inl e \<Rightarrow> Inr (None, st\<lparr> ls_results := (ls_results st)[i := \<lparr> sr_byteCount = sz, sr_hits = fl_hits fl,
              sr_misses = fl_misses fl, sr_err = Some e \<rparr>] \<rparr>)
        | Inr bytes \<Rightarrow>
            let head = (if length (fl_head fl) < 16 * 1024
                  then fl_head fl @ take (min n (16 * 1024 - length (fl_head fl))) bytes else fl_head fl);
                window = fl_carried fl @ bytes;
                fl' = fl\<lparr> fl_head := head, fl_readOffset := fl_readOffset fl + int n \<rparr>;
                atEOF = (fl_readOffset fl + int n \<ge> sz);
                limit = (if atEOF then length window else length window - cf_sliceByteCount cf)
            in if length window = 0 then Inr (Some (FillEnd i sz fl'), st)
               else Inr (Some (FillScan i r sz fl' atEOF (fill_env cf i fl window limit) (scan_init [] Map.empty)), st))"

text \<open>After \<open>scanBuffer\<close>: the unscanned tail is carried to the front of the next window.\<close>

definition fill_carry ::
    "nat \<Rightarrow> reader \<Rightarrow> int \<Rightarrow> fill_state \<Rightarrow> bool \<Rightarrow> scan_env \<Rightarrow> scan_state \<Rightarrow> fill_proc res" where
  "fill_carry i r sz fl atEOF env sc =
     (let fl' = fl\<lparr> fl_hits := fl_hits fl + s_hits sc, fl_misses := fl_misses fl + s_misses sc \<rparr> in
      if atEOF then Inr (FillEnd i sz fl')
      else bindR (slice_at (e_data env) (s_j sc) (length (e_data env))) (\<lambda>tail.
        Inr (FillRead i r sz (fl'\<lparr> fl_carried := tail, fl_windowStart := fl_windowStart fl + s_j sc \<rparr>))))"

definition fill_step ::
    "('fs, 'w) fileIO \<Rightarrow> 'fs \<Rightarrow> decoder \<Rightarrow> scan_config \<Rightarrow> (fill_proc, load_state) process_step" where
  "fill_step io fs d cf p st =
     (case p of
        FillOpen i \<Rightarrow>
          (case io_OpenRead io fs (getFilePath d (d_recoverySet d ! i)) of
             Inl e \<Rightarrow>
               if e = OsErrNotExist then Inr (None, st\<lparr> ls_infos := mark_missing i (ls_infos st),
                 ls_results := (ls_results st)[i := no_result] \<rparr>)
               else Inr (None, st\<lparr> ls_results := (ls_results st)[i := no_result\<lparr> sr_err := Some e \<rparr>] \<rparr>)
           | Inr (r, sz) \<Rightarrow> Inr (Some (FillRead i r sz \<lparr> fl_carried = [], fl_readOffset = 0,
               fl_windowStart = 0, fl_head = [], fl_hits = 0, fl_misses = 0 \<rparr>), st))
      | FillRead i r sz fl \<Rightarrow> fill_read cf i r sz fl st
      | FillScan i r sz fl atEOF env sc \<Rightarrow>
          let sc' = sc\<lparr> s_infos := ls_infos st, s_windows := ls_windows st \<rparr> in
          if s_j sc < e_limit env
            then bindR (scan_step env sc') (\<lambda>sc''. Inr (Some (FillScan i r sz fl atEOF env sc''),
              st\<lparr> ls_infos := s_infos sc'', ls_windows := s_windows sc'' \<rparr>))
          else bindR (fill_carry i r sz fl atEOF env sc) (\<lambda>p'. Inr (Some p', st))
      | FillEnd i sz fl \<Rightarrow> Inr (None, (file_verdict d i sz (md5 (fl_head fl)) st)
          \<lparr> ls_results := (ls_results st)[i := \<lparr> sr_byteCount = sz, sr_hits = fl_hits fl,
              sr_misses = fl_misses fl, sr_err = None \<rparr>] \<rparr>))"

section \<open>loadFileDataWindowed\<close>

text \<open>The files are opened first; \<open>openErrs\<close> are the errors other than a missing file.\<close>

definition open_source :: "(reader \<times> int) res \<Rightarrow> windowSource option" where
  "open_source r = (case r of Inl e \<Rightarrow> None | Inr (rd, sz) \<Rightarrow> Some \<lparr> ws_r = rd, ws_size = sz \<rparr>)"

definition open_err :: "(reader \<times> int) res \<Rightarrow> go_error option" where
  "open_err r = (case r of Inl e \<Rightarrow> if e = OsErrNotExist then None else Some e | Inr _ \<Rightarrow> None)"

definition mark_absent :: "(reader \<times> int) res list \<Rightarrow> fileIntegrityInfo list \<Rightarrow> fileIntegrityInfo list" where
  "mark_absent opened infos = fold (\<lambda>i infos. case opened ! i of
       Inl e \<Rightarrow> if e = OsErrNotExist then mark_missing i infos else infos
     | Inr _ \<Rightarrow> infos) [0..<length opened] infos"

text \<open>The report on file \<open>i\<close> after the scan.\<close>

definition report_file ::
    "decoder \<Rightarrow> (reader \<times> int) res list \<Rightarrow> go_error option list \<Rightarrow> scanCounts list \<Rightarrow> nat \<Rightarrow> load_state \<Rightarrow> load_state" where
  "report_file d opened scanErrs counts i st =
     (let report = (\<lambda>st r. st\<lparr> ls_results := (ls_results st)[i := r] \<rparr>); c = counts ! i in
      case open_err (opened ! i) of
        Some e \<Rightarrow> report st (no_result\<lparr> sr_err := Some e \<rparr>)
      | None \<Rightarrow> (case open_source (opened ! i) of
          None \<Rightarrow> report st no_result
        | Some src \<Rightarrow> (case scanErrs ! i of
            Some e \<Rightarrow> report st \<lparr> sr_byteCount = ws_size src, sr_hits = sc_hits c, sr_misses = sc_misses c,
              sr_err = Some e \<rparr>
          | None \<Rightarrow> report (file_verdict d i (ws_size src) (sc_sixteenK c) st)
              \<lparr> sr_byteCount = ws_size src, sr_hits = sc_hits c, sr_misses = sc_misses c, sr_err = None \<rparr>)))"

definition loadFileDataWindowed ::
    "nat list \<Rightarrow> ('fs, 'w) fileIO \<Rightarrow> 'fs \<Rightarrow> decoder \<Rightarrow> scan_config \<Rightarrow> load_state \<Rightarrow> load_state res option" where
  "loadFileDataWindowed sched io fs d cf st =
     (let opened = map (\<lambda>info. io_OpenRead io fs (getFilePath d info)) (d_recoverySet d) in
      map_option (\<lambda>r. bindR r (\<lambda>(scanErrs, sh).
          Inr (fold (report_file d opened scanErrs (ss_counts sh)) [0..<length (d_recoverySet d)]
            (st\<lparr> ls_infos := ss_infos sh, ls_windows := ss_windows sh \<rparr>))))
        (scanFilesWindowed sched cf (d_numGoroutines d) (map open_source opened)
          (mark_absent opened (ls_infos st)) (ls_windows st)))"

section \<open>LoadFileData\<close>

text \<open>The streaming scanner, for the misaligned search: a pool of workers takes the files.\<close>

definition loadFileDataStreaming ::
    "nat list \<Rightarrow> ('fs, 'w) fileIO \<Rightarrow> 'fs \<Rightarrow> decoder \<Rightarrow> scan_config \<Rightarrow> load_state \<Rightarrow> load_state res option" where
  "loadFileDataStreaming sched io fs d cf st =
     (let n = length (d_recoverySet d); workers = min (nat (max (d_numGoroutines d) 1)) n in
      map_option (\<lambda>r. bindR r (\<lambda>c. Inr (pl_shared c)))
        (pool_run FillOpen (fill_step io fs d cf) sched (pool_init workers [0..<n] st)))"

text \<open>
  The per-file events, in file order; the first error ends them.
\<close>

fun report_loads :: "decoder \<Rightarrow> scanResult list \<Rightarrow> nat list \<Rightarrow> decoder_event list \<times> go_error option" where
  "report_loads d results [] = ([], None)"
| "report_loads d results (i # is) =
     (let info = d_recoverySet d ! i; path = getFilePath d info; res = results ! i;
          load = OnDataFileLoad (i + 1) (length (d_recoverySet d)) path (sr_byteCount res) (sr_hits res)
            (sr_misses res) (sr_err res)
      in case sr_err res of
           Some e \<Rightarrow> ([load], Some e)
         | None \<Rightarrow>
             let chunk = (if sr_byteCount res \<noteq> di_byteCount info
                   then [OnDetectCorruptDataChunk (di_fileID info) path
                     (if sr_byteCount res < di_byteCount info then sr_byteCount res else di_byteCount info)
                     (if sr_byteCount res < di_byteCount info then di_byteCount info else sr_byteCount res)]
                   else [])
             in case report_loads d results is of (events, e) \<Rightarrow> (load # chunk @ events, e))"

text \<open>
  The corrupt chunks of a file: the loop over its shards keeps the start and the end of the chunk it
  is in; a start of \<open>-1\<close>, here None, means none.  The last chunk ends at the end of the file.
\<close>

fun corrupt_chunks :: "nat \<Rightarrow> int \<Rightarrow> bool list \<Rightarrow> nat \<Rightarrow> (int \<times> int) option \<Rightarrow> (int \<times> int) list" where
  "corrupt_chunks n byteCount [] j chunk = (case chunk of None \<Rightarrow> [] | Some (a, b) \<Rightarrow> [(a, byteCount)])"
| "corrupt_chunks n byteCount (ok # oks) j chunk =
     (let startByteOffset = int (j * n);
          endByteOffset = (if startByteOffset + int n > byteCount then byteCount else startByteOffset + int n)
      in if ok then (case chunk of None \<Rightarrow> [] | Some ab \<Rightarrow> [ab]) @ corrupt_chunks n byteCount oks (Suc j) None
         else corrupt_chunks n byteCount oks (Suc j)
           (Some (case chunk of None \<Rightarrow> startByteOffset | Some (a, b) \<Rightarrow> a, endByteOffset)))"

definition shard_states :: "nat \<Rightarrow> fileIntegrityInfo \<Rightarrow> bool list" where
  "shard_states n fi = map (\<lambda>j. shard_ok (fi_shardInfos fi ! j) \<lparr> sl_fileID = fi_fileID fi, sl_start = j * n \<rparr>)
     [0..<length (fi_shardInfos fi)]"

definition report_chunks :: "decoder \<Rightarrow> fileIntegrityInfo list \<Rightarrow> nat \<Rightarrow> decoder_event list" where
  "report_chunks d infos i =
     (let info = d_recoverySet d ! i in
      map (\<lambda>(a, b). OnDetectCorruptDataChunk (di_fileID info) (getFilePath d info) a b)
        (corrupt_chunks (d_sliceByteCount d) (di_byteCount info) (shard_states (d_sliceByteCount d) (infos ! i)) 0 None))"

text \<open>The events, the cache of CRC windows, and the decoder or an error.\<close>

definition LoadFileData ::
    "nat list \<Rightarrow> ('fs, 'w) fileIO \<Rightarrow> 'fs \<Rightarrow> (nat \<rightharpoonup> crc32Window) \<Rightarrow> decoder \<Rightarrow>
     (decoder_event list \<times> (nat \<rightharpoonup> crc32Window) \<times> decoder res) res option" where
  "LoadFileData sched io fs windows d =
     (let m = makeChecksumShardLocationMap (d_sliceByteCount d) (d_recoverySet d);
          indices = file_id_indices (d_recoverySet d);
          cf = decoder_config d m indices;
          n = length (d_recoverySet d);
          st = \<lparr> ls_infos = new_integrity_infos (d_recoverySet d), ls_windows = windows,
                 ls_results = replicate n no_result, ls_events = [] \<rparr>
      in map_option (\<lambda>r. bindR r (\<lambda>st'.
           let (loads, e) = report_loads d (ls_results st') [0..<n] in
           Inr (case e of
               Some err \<Rightarrow> (ls_events st' @ loads, ls_windows st', Inl err)
             | None \<Rightarrow> (ls_events st' @ loads @ concat (map (report_chunks d (ls_infos st')) [0..<n]), ls_windows st',
                 Inr (d\<lparr> d_fileIDIndices := indices, d_checksumToLocation := m,
                         d_fileIntegrityInfos := ls_infos st' \<rparr>)))))
         (if findMisaligned (d_scanPolicy d) then loadFileDataStreaming sched io fs d cf st
          else loadFileDataWindowed sched io fs d cf st))"

section \<open>ShardCounts\<close>

record ShardCounts =
  UsableDataShardCount :: nat
  UnusableDataShardCount :: nat
  UsableParityShardCount :: nat
  UnusableParityShardCount :: nat

definition RepairNeeded :: "ShardCounts \<Rightarrow> bool" where
  "RepairNeeded fc \<longleftrightarrow> UnusableDataShardCount fc > 0"

definition RepairPossible :: "ShardCounts \<Rightarrow> bool" where
  "RepairPossible fc \<longleftrightarrow> UsableParityShardCount fc \<ge> UnusableDataShardCount fc"

definition shardCounts :: "decoder \<Rightarrow> ShardCounts" where
  "shardCounts d =
     (let (usable, unusable) = fold (\<lambda>info. fold (\<lambda>sh (u, v). if \<not> si_present sh then (u, v + 1) else (u + 1, v))
            (fi_shardInfos info)) (d_fileIntegrityInfos d) (0, 0);
          (usableP, unusableP) = fold (\<lambda>present (u, v). if present then (u + 1, v) else (u, v + 1))
            (d_parityPresent d) (0, 0)
      in \<lparr> UsableDataShardCount = usable, UnusableDataShardCount = unusable,
           UsableParityShardCount = usableP, UnusableParityShardCount = unusableP \<rparr>)"

end
