(* ===== verification/RegionPrograms.thy ===== *)
theory RegionPrograms
  imports Additive Gf16
begin

unbundle bit_operations_syntax

text \<open>
  The additive transforms as programs of region operations (src/rsec16/additive_regions.go and
  additive_pruned.go): passes of tasks, each a list of operations on whole rows, which the batch
  executor of package \<open>gf16\<close> runs.  Row numbers are below the transform's length, so that their
  conversion to 32 bits keeps them.
\<close>

type_synonym regionProgram = "Operation list list list"

section \<open>Operations\<close>

text \<open>The composite literal \<open>gf16.Operation{Dst, Src, Coeff, Kind}\<close>.\<close>

definition region_op :: "nat \<Rightarrow> nat \<Rightarrow> T \<Rightarrow> u16 \<Rightarrow> Operation" where
  "region_op dst src c kind = \<lparr> Dst = of_nat dst, Src = of_nat src, Coeff = raw c, Kind = kind \<rparr>"

definition addRegion :: "Operation list \<Rightarrow> nat \<Rightarrow> nat \<Rightarrow> T \<Rightarrow> Operation list" where
  "addRegion ops dst src c = (if c \<noteq> 0 then ops @ [region_op dst src c OpAdd] else ops)"

definition scaleRegion :: "Operation list \<Rightarrow> nat \<Rightarrow> T \<Rightarrow> Operation list" where
  "scaleRegion ops r c = (if c \<noteq> 1 then ops @ [region_op r r c OpScale] else ops)"

section \<open>fftProgram\<close>

text \<open>The butterflies of the rows \<open>start\<close> to \<open>fin\<close> of a block, as \<open>emit\<close> appends them and as the tasks of the upper levels hold them.\<close>

definition butterfly_ops :: "bool \<Rightarrow> nat \<Rightarrow> nat \<Rightarrow> T \<Rightarrow> nat \<Rightarrow> nat \<Rightarrow> Operation list" where
  "butterfly_ops backward base half c start fin =
     map (\<lambda>r. region_op (base + r) (base + half + r) c (if backward then OpInverseButterfly else OpButterfly)) [start..<fin]"

text \<open>The small levels of one cache tile: \<open>for base := tile; base < tile+(1<<local); base += 2*half\<close>.\<close>

definition fft_tile :: "additiveBasis \<Rightarrow> bool \<Rightarrow> nat \<Rightarrow> nat \<Rightarrow> Operation list" where
  "fft_tile b backward loc tile =
     fold (\<lambda>step ops. let i = (if backward then step else loc - 1 - step) in
         fold (\<lambda>off ops. let base = tile + off in ops @ butterfly_ops backward base (2 ^ i) (twiddle b i base) 0 (2 ^ i))
           (strided (2 ^ loc) (2 * 2 ^ i)) ops)
       [0..<loc] []"

definition fft_pass :: "additiveBasis \<Rightarrow> bool \<Rightarrow> nat \<Rightarrow> nat \<Rightarrow> Operation list list" where
  "fft_pass b backward n i =
     concat (map (\<lambda>base. let c = twiddle b i base in
         map (\<lambda>start. butterfly_ops backward base (2 ^ i) c start (min (start + 512) (2 ^ i))) (strided (2 ^ i) 512))
       (strided n (2 * 2 ^ i)))"

definition tileLog :: nat where
  "tileLog = 7"

definition fftProgram :: "additiveBasis \<Rightarrow> nat \<Rightarrow> bool \<Rightarrow> regionProgram res" where
  "fftProgram b n backward = bindR (additiveLog n) (\<lambda>levels.
     let loc = min levels tileLog;
         fused = filter (\<lambda>ops. length ops > 0) (map (fft_tile b backward loc) (strided n (2 ^ loc)));
         upper = map (\<lambda>step. fft_pass b backward n (if backward then loc + step else levels - 1 - step)) [0..<levels - loc]
     in Inr ((if backward \<and> length fused > 0 then [fused] else []) @ upper @
             (if \<not> backward \<and> length fused > 0 then [fused] else [])))"

section \<open>conversionProgram\<close>

definition conversion_row :: "additiveBasis \<Rightarrow> bool \<Rightarrow> nat \<Rightarrow> nat \<Rightarrow> nat \<Rightarrow> Operation list \<Rightarrow> Operation list" where
  "conversion_row b backward i base r ops =
     (let d = base + 2 ^ i + r;
          ops1 = (if backward then scaleRegion ops d (ab_inverse b ! i) else ops);
          ops2 = fold (\<lambda>j ops. addRegion ops (base + r + 2 ^ j) d (ab_linear b ! i ! j)) [0..<i] ops1
      in if \<not> backward then scaleRegion ops2 d (ab_denominator b ! i) else ops2)"

definition conversion_task :: "additiveBasis \<Rightarrow> bool \<Rightarrow> nat \<Rightarrow> nat \<Rightarrow> Operation list" where
  "conversion_task b backward i base =
     fold (\<lambda>stepR. conversion_row b backward i base (if backward then stepR else 2 ^ i - 1 - stepR)) [0..<2 ^ i] []"

text \<open>Short tasks are gathered until they have 512 operations.\<close>

definition coalesce_step :: "Operation list \<Rightarrow> Operation list list \<times> Operation list \<Rightarrow> Operation list list \<times> Operation list" where
  "coalesce_step ops = (\<lambda>(coalesced, small).
     if length ops \<ge> 512 then ((if length small > 0 then coalesced @ [small] else coalesced) @ [ops], [])
     else if length (small @ ops) \<ge> 512 then (coalesced @ [small @ ops], [])
     else (coalesced, small @ ops))"

definition coalesce :: "Operation list list \<Rightarrow> Operation list list" where
  "coalesce tasks = (let (coalesced, small) = fold coalesce_step tasks ([], [])
     in if length small > 0 then coalesced @ [small] else coalesced)"

definition conversionProgram :: "additiveBasis \<Rightarrow> nat \<Rightarrow> bool \<Rightarrow> regionProgram res" where
  "conversionProgram b n backward = bindR (additiveLog n) (\<lambda>levels.
     Inr (map (\<lambda>step. let i = (if backward then step else levels - 1 - step) in
         coalesce (filter (\<lambda>ops. length ops > 0) (map (conversion_task b backward i) (strided n (2 * 2 ^ i)))))
       [0..<levels]))"

section \<open>derivativeProgram\<close>

text \<open>\<open>bits.OnesCount\<close>, and the closure \<open>visit\<close>, whose second argument is counted from one.\<close>

fun OnesCount :: "nat \<Rightarrow> nat" where
  "OnesCount n = (if n = 0 then 0 else n mod 2 + OnesCount (n div 2))"

declare OnesCount.simps [simp del]

fun derivative_visit :: "additiveBasis \<Rightarrow> nat \<Rightarrow> nat \<Rightarrow> Operation list \<Rightarrow> Operation list" where
  "derivative_visit b start 0 ops = ops @ [\<lparr> Dst = of_nat start, Src = 0, Coeff = 0, Kind = OpClear \<rparr>]"
| "derivative_visit b start (Suc i) ops =
     derivative_visit b (start + 2 ^ i) i
       (fold (\<lambda>r ops. addRegion ops (start + r) (start + 2 ^ i + r) (ab_derivative b ! i)) [0..<2 ^ i]
         (derivative_visit b start i ops))"

definition derivative_tile :: "additiveBasis \<Rightarrow> nat \<Rightarrow> nat \<Rightarrow> nat \<Rightarrow> Operation list" where
  "derivative_tile b levels loc base =
     fold (\<lambda>i ops. if base AND 2 ^ i = 0
         then fold (\<lambda>r ops. addRegion ops (base + r) (base + 2 ^ i + r) (ab_derivative b ! i)) [0..<2 ^ loc] ops
         else ops)
       [loc..<levels] (derivative_visit b base loc [])"

definition derivativeProgram :: "additiveBasis \<Rightarrow> nat \<Rightarrow> regionProgram res" where
  "derivativeProgram b n = bindR (additiveLog n) (\<lambda>levels.
     let loc = min levels tileLog in
     foldR (\<lambda>tile passes. let weight = OnesCount tile in
         bindR (index_at passes weight) (\<lambda>p. Inr (passes[weight := p @ [derivative_tile b levels loc (tile * 2 ^ loc)]])))
       [0..<n div 2 ^ loc] (replicate (levels - loc + 1) []))"

section \<open>Running a program\<close>

text \<open>
  With one context the tasks run in order.  With several, worker \<open>w\<close> takes the tasks \<open>w\<close>, \<open>w + workers\<close>, \<dots>
  and stops at its first error; \<open>ord\<close> is the order in which the tasks of a pass come to run.
\<close>

definition run_task :: "bool \<Rightarrow> nat \<Rightarrow> Operation list \<Rightarrow> BufferSet \<times> Context list \<Rightarrow> (BufferSet \<times> Context list) res" where
  "run_task ple w ops = (\<lambda>(set, contexts). bindR (Apply ple set (Some (contexts ! w)) ops) (\<lambda>(set', ctx).
     Inr (set', case ctx of None \<Rightarrow> contexts | Some c \<Rightarrow> contexts[w := c])))"

definition parallel_task ::
    "bool \<Rightarrow> nat \<Rightarrow> Operation list list \<Rightarrow> nat \<Rightarrow> (BufferSet \<times> Context list) \<times> go_error option list \<Rightarrow>
     ((BufferSet \<times> Context list) \<times> go_error option list) res" where
  "parallel_task ple workers tasks j = (\<lambda>(st, errs). let w = j mod workers in
     if errs ! w \<noteq> None then Inr (st, errs)
     else case run_task ple w (tasks ! j) st of
         Inl (Panic m) \<Rightarrow> Inl (Panic m)
       | Inl e \<Rightarrow> Inr (st, errs[w := Some e])
       | Inr st' \<Rightarrow> Inr (st', errs))"

definition first_error :: "go_error option list \<Rightarrow> unit res" where
  "first_error errs = (case find (\<lambda>e. e \<noteq> None) errs of Some (Some e) \<Rightarrow> Inl e | _ \<Rightarrow> Inr ())"

definition run_pass ::
    "bool \<Rightarrow> (nat \<Rightarrow> nat list) \<Rightarrow> Operation list list \<Rightarrow> BufferSet \<times> Context list \<Rightarrow> (BufferSet \<times> Context list) res" where
  "run_pass ple ord tasks st =
     (if length (snd st) = 1 then foldR (run_task ple 0) tasks st
      else let workers = min (length (snd st)) (length tasks) in
        bindR (foldR (parallel_task ple workers tasks) (ord (length tasks)) (st, replicate workers None)) (\<lambda>(st', errs).
        bindR (first_error errs) (\<lambda>_. Inr st')))"

definition runRegionProgram ::
    "bool \<Rightarrow> (nat \<Rightarrow> nat list) \<Rightarrow> regionProgram \<Rightarrow> BufferSet \<times> Context list \<Rightarrow> (BufferSet \<times> Context list) res" where
  "runRegionProgram ple ord p st = foldR (run_pass ple ord) p st"

section \<open>Transposing and serialising\<close>

definition transpose_op :: "Operation \<Rightarrow> Operation" where
  "transpose_op op = (if Kind op = OpAdd then op\<lparr> Dst := Src op, Src := Dst op \<rparr> else op)"

definition transposeRegionProgram :: "regionProgram \<Rightarrow> regionProgram" where
  "transposeRegionProgram p = rev (map (map (\<lambda>task. rev (map transpose_op task))) p)"

definition serialRegionProgram :: "regionProgram \<Rightarrow> regionProgram" where
  "serialRegionProgram p = [[concat (map concat p)]]"

section \<open>Pruned transforms\<close>

text \<open>One butterfly with the activity of its rows: the operations it needs and what is active after it.\<close>

definition pruned_inverse ::
    "bool \<Rightarrow> T \<Rightarrow> nat \<Rightarrow> nat \<Rightarrow> Operation list \<times> bool list \<Rightarrow> Operation list \<times> bool list" where
  "pruned_inverse flip c l h = (\<lambda>(ops, active).
     let left = active ! l; right = active ! h;
         ops' = (if left \<or> right then ops @ [if flip then region_op h l c OpInverseButterfly
             else region_op l h c OpInverseButterfly] else ops);
         active' = (if flip then (active[l := (left \<or> right)])[h := (left \<and> c \<noteq> 0 \<or> right \<and> c \<noteq> 1)]
           else (active[l := (left \<and> c \<noteq> 1 \<or> right \<and> c \<noteq> 0)])[h := (left \<or> right)])
     in (ops', active'))"

definition pruned_forward ::
    "T \<Rightarrow> nat \<Rightarrow> nat \<Rightarrow> Operation list \<times> bool list \<Rightarrow> Operation list \<times> bool list" where
  "pruned_forward c l h = (\<lambda>(ops, active).
     let left = active ! l; right = active ! h;
         ops' = (if left \<and> right then ops @ [region_op l h c OpButterfly]
           else if left then (if c \<noteq> 0 then ops @ [region_op l h c OpAdd] else ops)
           else if right then
             (if c = 1 then ops @ [region_op h l 1 OpScale]
              else (if c \<noteq> 0 then ops @ [region_op h h (c + 1) OpScale] else ops) @ [region_op h l 1 OpAdd])
           else ops)
     in (ops', (active[l := (left \<or> right)])[h := (left \<and> c \<noteq> 0 \<or> right \<and> c \<noteq> 1)]))"

definition pruned_stage ::
    "additiveBasis \<Rightarrow> nat \<Rightarrow> bool \<Rightarrow> bool \<Rightarrow> nat \<Rightarrow> nat \<Rightarrow> bool list \<Rightarrow> Operation list \<times> bool list" where
  "pruned_stage b n backward flip offset i active =
     fold (\<lambda>base. let c = twiddle b i (base + offset) in
         fold (\<lambda>r. let l = base + r; h = base + 2 ^ i + r in
             if backward then pruned_inverse flip c l h else pruned_forward c l h) [0..<2 ^ i])
       (strided n (2 * 2 ^ i)) ([], active)"

definition pruned_stages ::
    "additiveBasis \<Rightarrow> nat \<Rightarrow> nat \<Rightarrow> bool \<Rightarrow> bool \<Rightarrow> bool list \<Rightarrow> nat \<Rightarrow> Operation list list" where
  "pruned_stages b n levels backward flip wanted offset =
     fst (fold (\<lambda>i (stages, active). case pruned_stage b n backward flip offset i active of
         (ops, active') \<Rightarrow> (stages @ [ops], active')) [0..<levels] ([], wanted))"

text \<open>A stage is split into tasks of at least 512 operations where the destination changes.\<close>

definition split_stage :: "Operation list \<Rightarrow> Operation list list" where
  "split_stage ops =
     (let (tasks, start) = fold (\<lambda>j (tasks, start).
            if j - start \<ge> 512 \<and> Dst (ops ! j) \<noteq> Dst (ops ! (j - 1)) then (tasks @ [slice ops start j], j)
            else (tasks, start)) [1..<length ops] ([], 0)
      in if start < length ops then tasks @ [drop start ops] else tasks)"

text \<open>The local stages of each tile; \<open>fused[tile]\<close> is out of range when a destination is not in a tile.\<close>

definition fuse_stages :: "nat \<Rightarrow> nat \<Rightarrow> bool \<Rightarrow> Operation list list \<Rightarrow> Operation list list res" where
  "fuse_stages n loc backward stages =
     foldR (\<lambda>step. foldR (\<lambda>op fused. let tile = drop_bit loc (op_dst op) in
           bindR (index_at fused tile) (\<lambda>ops. Inr (fused[tile := ops @ [op]])))
         (stages ! (if backward then step else loc - 1 - step)))
       [0..<loc] (replicate (n div 2 ^ loc) [])"

definition prunedFFTCoset ::
    "additiveBasis \<Rightarrow> nat \<Rightarrow> nat \<Rightarrow> bool \<Rightarrow> bool \<Rightarrow> bool list \<Rightarrow> nat \<Rightarrow> regionProgram res" where
  "prunedFFTCoset b n levels backward flip wanted offset =
     (let stages = pruned_stages b n levels backward flip wanted offset; loc = min levels tileLog in
      bindR (fuse_stages n loc backward stages) (\<lambda>fused.
      let compact = filter (\<lambda>ops. length ops > 0) fused;
          upper = map (\<lambda>step. split_stage (stages ! (if backward then loc + step else levels - 1 - step))) [0..<levels - loc]
      in Inr ((if backward then [compact] else []) @ upper @ (if \<not> backward then [compact] else []))))"

definition prunedFFTDepth ::
    "additiveBasis \<Rightarrow> nat \<Rightarrow> nat \<Rightarrow> bool \<Rightarrow> bool \<Rightarrow> bool list \<Rightarrow> regionProgram res" where
  "prunedFFTDepth b n levels backward flip wanted = prunedFFTCoset b n levels backward flip wanted 0"

definition prunedFFT :: "additiveBasis \<Rightarrow> nat \<Rightarrow> bool \<Rightarrow> bool list \<Rightarrow> regionProgram res" where
  "prunedFFT b n backward wanted = bindR (additiveLog n) (\<lambda>levels. prunedFFTDepth b n levels backward False wanted)"

end
