(* ===== verification/Par2Transform.thy ===== *)
theory Par2Transform
  imports RegionPrograms Lagrange
begin

text \<open>
  The reconstruction by additive transforms (src/rsec16/par2_transform.go): the programs a deep repair
  is compiled to, the workspace they run on, and the fold that feeds survivors and recovery blocks
  through them, a range of bytes at a time.  The region arithmetic is that of the pure-Go backend.
\<close>

definition par2FieldSize :: nat where
  "par2FieldSize = 65536"

definition transformStripeSize :: nat where
  "transformStripeSize = 256"

section \<open>Workspaces\<close>

text \<open>
  \<open>ctx\<close> is the first of the contexts, and \<open>rows\<close> the rows of \<open>set\<close>, which share their memory.
\<close>

record regionWorkspace =
  rw_contexts :: "Context list"
  rw_set :: BufferSet
  rw_raw :: "byte list"
  rw_finished :: "byte list"
  rw_size :: nat

definition newRegionWorkspace :: "nat \<Rightarrow> int \<Rightarrow> nat \<Rightarrow> regionWorkspace res" where
  "newRegionWorkspace sz workers cnt =
     bindR (NewContext (int sz)) (\<lambda>ctx.
     bindR (mapR (\<lambda>_. NewContext (int sz)) [1..<nat (max 1 workers)]) (\<lambda>others.
     bindR (NewBufferWorkspace (Some ctx) (int cnt)) (\<lambda>set.
     Inr \<lparr> rw_contexts = ctx # others, rw_set = set, rw_raw = replicate sz 0, rw_finished = NewBuffer ctx,
       rw_size = sz \<rparr>)))"

definition ws_ctx :: "regionWorkspace \<Rightarrow> Context" where
  "ws_ctx w = rw_contexts w ! 0"

definition ws_rows :: "regionWorkspace \<Rightarrow> byte list list" where
  "ws_rows w = bs_rows (rw_set w)"

definition set_rows :: "byte list list \<Rightarrow> regionWorkspace \<Rightarrow> regionWorkspace" where
  "set_rows rows w = w\<lparr> rw_set := (rw_set w)\<lparr> bs_rows := rows \<rparr> \<rparr>"

definition ws_run :: "bool \<Rightarrow> (nat \<Rightarrow> nat list) \<Rightarrow> regionProgram \<Rightarrow> regionWorkspace \<Rightarrow> regionWorkspace res" where
  "ws_run ple ord p w = bindR (runRegionProgram ple ord p (rw_set w, rw_contexts w)) (\<lambda>(set, contexts).
     Inr (w\<lparr> rw_set := set, rw_contexts := contexts \<rparr>))"

text \<open>\<open>w.set.Apply(w.ctx, ops)\<close>\<close>

definition ws_apply :: "bool \<Rightarrow> Operation list \<Rightarrow> regionWorkspace \<Rightarrow> regionWorkspace res" where
  "ws_apply ple ops w = bindR (run_task ple 0 ops (rw_set w, rw_contexts w)) (\<lambda>(set, contexts).
     Inr (w\<lparr> rw_set := set, rw_contexts := contexts \<rparr>))"

text \<open>Clearing the rows \<open>a\<close> to \<open>b\<close>; \<open>clear\<close> clears them all.\<close>

definition clear_rows :: "nat \<Rightarrow> nat \<Rightarrow> regionWorkspace \<Rightarrow> regionWorkspace" where
  "clear_rows a b w = set_rows (map (\<lambda>(i, row). if a \<le> i \<and> i < b then replicate (length row) 0 else row)
     (enumerate 0 (ws_rows w))) w"

definition ws_clear :: "regionWorkspace \<Rightarrow> regionWorkspace" where
  "ws_clear w = clear_rows 0 (length (ws_rows w)) w"

text \<open>\<open>w.ctx.Prepare(w.rows[i], src)\<close> and \<open>copy(w.rows[i], w.rows[j])\<close>\<close>

definition ws_prepare :: "nat \<Rightarrow> byte list \<Rightarrow> regionWorkspace \<Rightarrow> regionWorkspace res" where
  "ws_prepare i src w = bindR (index_at (ws_rows w) i) (\<lambda>row. bindR (Prepare (ws_ctx w) row src) (\<lambda>row'.
     Inr (set_rows ((ws_rows w)[i := row']) w)))"

definition copy_row :: "nat \<Rightarrow> nat \<Rightarrow> regionWorkspace \<Rightarrow> regionWorkspace res" where
  "copy_row i j w = bindR (index_at (ws_rows w) i) (\<lambda>d. bindR (index_at (ws_rows w) j) (\<lambda>s.
     Inr (set_rows ((ws_rows w)[i := go_copy d s]) w)))"

text \<open>\<open>w.ctx.Finish(w.rows[i], out[j])\<close>\<close>

definition ws_finish :: "nat \<Rightarrow> nat \<Rightarrow> regionWorkspace \<Rightarrow> byte list list \<Rightarrow> byte list list res" where
  "ws_finish i j w out = bindR (index_at (ws_rows w) i) (\<lambda>row. bindR (index_at out j) (\<lambda>d.
     bindR (Finish (ws_ctx w) row d) (\<lambda>d'. Inr (out[j := d']))))"

text \<open>\<open>clear(w.raw)\<close> and \<open>next(i, w.raw[:n])\<close>\<close>

definition read_raw :: "(nat \<Rightarrow> byte list \<Rightarrow> byte list res) \<Rightarrow> nat \<Rightarrow> nat \<Rightarrow> regionWorkspace \<Rightarrow> (byte list \<times> regionWorkspace) res" where
  "read_raw next_fn n i w = (let raw = replicate (length (rw_raw w)) 0 in
     bindR (slice_at raw 0 n) (\<lambda>buf. bindR (next_fn i buf) (\<lambda>bytes.
     Inr (bytes, w\<lparr> rw_raw := splice raw 0 bytes \<rparr>))))"

section \<open>The compiled transform\<close>

record cosetRow =
  cr_index :: nat
  cr_point :: nat

record transformCoset =
  tc_rows :: "cosetRow list"
  tc_program :: regionProgram
  tc_scales :: "Operation list"

text \<open>A child shares everything with its parent but its workspace, so that \<open>pt_children\<close> are the workspaces.\<close>

record par2Transform =
  pt_survivors :: "transformCoset list"
  pt_results :: "transformCoset list"
  pt_toMoments :: regionProgram
  pt_sumMoments :: "Operation list"
  pt_degree :: nat
  pt_available :: "nat list"
  pt_missing :: "nat list"
  pt_weights :: "T list"
  pt_scales :: "T list"
  pt_multiply :: "Operation list"
  pt_toProduct :: regionProgram
  pt_fromProduct :: regionProgram
  pt_forwardProduct :: regionProgram
  pt_inverseProduct :: regionProgram
  pt_toQuotient :: regionProgram
  pt_workers :: int
  pt_workspace :: "regionWorkspace option"
  pt_children :: "regionWorkspace option list"
  pt_inputBank :: "byte list list"

text \<open>The rows of \<open>rows\<close> whose points lie in the coset at \<open>base\<close>, with the scaling of each.\<close>

definition coset_rows :: "additiveBasis \<Rightarrow> nat \<Rightarrow> nat \<Rightarrow> nat list \<Rightarrow> T list \<Rightarrow> (bool list \<times> transformCoset) res" where
  "coset_rows b q base rows factors =
     foldR (\<lambda>(j, row) (known, coset). bindR (index_at generators row) (\<lambda>g.
         let point = unat (ab_indices b ! unat (raw g)) in
         Inr (if point \<ge> base \<and> point < base + q
           then (known[point - base := True], coset\<lparr> tc_rows := tc_rows coset @ [\<lparr> cr_index = j, cr_point = point - base \<rparr>],
             tc_scales := scaleRegion (tc_scales coset) (point - base) (factors ! j) \<rparr>)
           else (known, coset))))
       (enumerate 0 rows) (replicate q False, \<lparr> tc_rows = [], tc_program = [], tc_scales = [] \<rparr>)"

definition survivor_coset :: "additiveBasis \<Rightarrow> nat \<Rightarrow> nat list \<Rightarrow> T list \<Rightarrow> nat \<Rightarrow> transformCoset option res" where
  "survivor_coset b q available weights base =
     bindR (coset_rows b q base available weights) (\<lambda>(known, coset).
     if length (tc_rows coset) > 0
     then bindR (prunedFFTCoset b q (bits_Len q - 1) True True known base) (\<lambda>p.
       Inr (Some (coset\<lparr> tc_program := serialRegionProgram p \<rparr>)))
     else Inr None)"

text \<open>\<open>result.program[0][0]\<close> exists, as \<open>serialRegionProgram\<close> returns one task.\<close>

definition result_coset :: "additiveBasis \<Rightarrow> nat \<Rightarrow> nat list \<Rightarrow> T list \<Rightarrow> nat \<Rightarrow> transformCoset option res" where
  "result_coset b q lost scales base =
     bindR (coset_rows b q base lost scales) (\<lambda>(wanted, coset).
     if length (tc_rows coset) > 0
     then bindR (prunedFFTCoset b q (bits_Len q - 1) False False wanted base) (\<lambda>p.
       let serial = serialRegionProgram p in
       Inr (Some (coset\<lparr> tc_program := serial[0 := (serial ! 0)[0 := serial ! 0 ! 0 @ tc_scales coset]] \<rparr>)))
     else Inr None)"

definition some_list :: "'a option list \<Rightarrow> 'a list" where
  "some_list xs = map the (filter (\<lambda>x. x \<noteq> None) xs)"

text \<open>At least one row is missing: the caller refuses an empty repair.\<close>

definition newPAR2Transform :: "nat list \<Rightarrow> nat list \<Rightarrow> int list \<Rightarrow> int \<Rightarrow> par2Transform res" where
  "newPAR2Transform available lost exponents workers =
     bindR newAdditiveBasis (\<lambda>b.
     let start = of_int (fst (consecutiveStart exponents)) :: u32; k = length lost;
         m = 2 ^ bits_Len (2 * k - 1); q = 2 ^ bits_Len (k - 1) in
     bindR (locatorValues lost) (\<lambda>(_, vals, derivative).
     bindR (mapR (\<lambda>row. bindR (index_at generators row) (\<lambda>y. T_Pow y start)) available) (\<lambda>weights.
     bindR (mapR (\<lambda>row. bindR (index_at generators row) (\<lambda>x. bindR (T_Pow x start) (\<lambda>xs.
       T_Inverse (derivative ! unat (raw x) * xs)))) lost) (\<lambda>scales.
     bindR (conversionProgram b q False) (\<lambda>conv.
     bindR (mapR (survivor_coset b q available weights) (strided par2FieldSize q)) (\<lambda>survivors.
     bindR (mapR (result_coset b q lost scales) (strided par2FieldSize q)) (\<lambda>results.
     bindR (conversionProgram b m False) (\<lambda>toProduct.
     bindR (conversionProgram b m True) (\<lambda>fromProduct.
     bindR (fftProgram b m False) (\<lambda>forwardProduct.
     bindR (fftProgram b m True) (\<lambda>inverseProduct.
     Inr \<lparr> pt_survivors = some_list survivors, pt_results = some_list results,
       pt_toMoments = serialRegionProgram (transposeRegionProgram conv),
       pt_sumMoments = fold (\<lambda>i ops. addRegion ops (q + i) i 1) [0..<q] [],
       pt_degree = q, pt_available = available, pt_missing = lost, pt_weights = weights, pt_scales = scales,
       pt_multiply = fold (\<lambda>i ops. scaleRegion ops i (vals ! unat (raw (ab_points b ! i)))) [0..<m] [],
       pt_toProduct = toProduct, pt_fromProduct = fromProduct, pt_forwardProduct = forwardProduct,
       pt_inverseProduct = inverseProduct, pt_toQuotient = conv, pt_workers = max 1 workers,
       pt_workspace = None, pt_children = [], pt_inputBank = [] \<rparr>)))))))))))"

section \<open>foldRange\<close>

text \<open>One coset of survivors: their rows, weighted, through the transposed transform into the sums.\<close>

definition fold_survivors ::
    "bool \<Rightarrow> (nat \<Rightarrow> nat list) \<Rightarrow> par2Transform \<Rightarrow> nat \<Rightarrow> (nat \<Rightarrow> byte list \<Rightarrow> byte list res) \<Rightarrow> transformCoset \<Rightarrow>
     regionWorkspace \<Rightarrow> regionWorkspace res" where
  "fold_survivors ple ord p n next_fn coset w0 =
     bindR (foldR (\<lambda>entry w. bindR (read_raw next_fn n (cr_index entry) w) (\<lambda>(bytes, w').
         ws_prepare (cr_point entry) bytes w'))
       (tc_rows coset) (clear_rows 0 (pt_degree p) w0)) (\<lambda>w1.
     bindR (ws_apply ple (tc_scales coset) w1) (\<lambda>w2.
     bindR (ws_run ple ord (tc_program coset) w2) (\<lambda>w3.
     ws_apply ple (pt_sumMoments p) w3)))"

text \<open>The recovery rows less the power sums of the survivors, in reverse order.\<close>

definition fold_residual ::
    "par2Transform \<Rightarrow> nat \<Rightarrow> (nat \<Rightarrow> byte list \<Rightarrow> byte list res) \<Rightarrow> byte list list \<Rightarrow> nat \<Rightarrow> regionWorkspace \<Rightarrow> regionWorkspace res" where
  "fold_residual p n next_fn out j w =
     bindR (read_raw next_fn n (length (pt_available p) + j) w) (\<lambda>(bytes, w1).
     bindR (index_at out j) (\<lambda>moment.
     let mixed = map2 (XOR) bytes moment in
     ws_prepare (length (pt_missing p) - 1 - j) mixed (w1\<lparr> rw_raw := splice (rw_raw w1) 0 mixed \<rparr>)))"

definition fold_result ::
    "bool \<Rightarrow> (nat \<Rightarrow> nat list) \<Rightarrow> par2Transform \<Rightarrow> transformCoset \<Rightarrow> regionWorkspace \<times> byte list list \<Rightarrow>
     (regionWorkspace \<times> byte list list) res" where
  "fold_result ple ord p coset = (\<lambda>(w0, out).
     bindR (foldR (\<lambda>i. copy_row i (pt_degree p + i)) [0..<pt_degree p] w0) (\<lambda>w1.
     bindR (ws_run ple ord (tc_program coset) w1) (\<lambda>w2.
     bindR (foldR (\<lambda>entry. ws_finish (cr_point entry) (cr_index entry) w2) (tc_rows coset) out) (\<lambda>out'.
     Inr (w2, out')))))"

text \<open>The workspace is that of an earlier call when it is large enough.\<close>

definition foldRange ::
    "bool \<Rightarrow> (nat \<Rightarrow> nat list) \<Rightarrow> par2Transform \<Rightarrow> nat \<Rightarrow> (nat \<Rightarrow> byte list \<Rightarrow> byte list res) \<Rightarrow> byte list list \<Rightarrow>
     regionWorkspace option \<Rightarrow> (byte list list \<times> regionWorkspace) res" where
  "foldRange ple ord p n next_fn out ws =
     (let k = length (pt_missing p); q = pt_degree p in
      bindR (case ws of Some w \<Rightarrow> if rw_size w < n then newRegionWorkspace n 1 (2 * q) else Inr w
             | None \<Rightarrow> newRegionWorkspace n 1 (2 * q)) (\<lambda>w0.
      bindR (foldR (fold_survivors ple ord p n next_fn) (pt_survivors p) (ws_clear w0)) (\<lambda>w1.
      bindR (foldR (\<lambda>i. copy_row i (q + i)) [0..<q] w1) (\<lambda>w2.
      bindR (ws_run ple ord (pt_toMoments p) w2) (\<lambda>w3.
      bindR (foldR (\<lambda>j. ws_finish j j w3) [0..<k] out) (\<lambda>out1.
      bindR (foldR (fold_residual p n next_fn out1) [0..<k] (ws_clear w3)) (\<lambda>w4.
      bindR (ws_run ple ord (pt_toProduct p) w4) (\<lambda>w5.
      bindR (ws_run ple ord (pt_forwardProduct p) w5) (\<lambda>w6.
      bindR (ws_apply ple (pt_multiply p) w6) (\<lambda>w7.
      bindR (ws_run ple ord (pt_inverseProduct p) w7) (\<lambda>w8.
      bindR (ws_run ple ord (pt_fromProduct p) w8) (\<lambda>w9.
      bindR (foldR (\<lambda>i. copy_row i (k + i)) [0..<k] w9) (\<lambda>w10.
      bindR (ws_run ple ord (pt_toQuotient p) (clear_rows k (length (ws_rows w10)) w10)) (\<lambda>w11.
      bindR (foldR (\<lambda>i. copy_row (q + i) i) [0..<q] w11) (\<lambda>w12.
      bindR (foldR (fold_result ple ord p) (pt_results p) (w12, out1)) (\<lambda>(w13, out2).
      Inr (out2, w13)))))))))))))))))"

section \<open>fold\<close>

definition transform_close :: "par2Transform \<Rightarrow> par2Transform" where
  "transform_close p = p\<lparr> pt_children := [], pt_inputBank := [], pt_workspace := None \<rparr>"

text \<open>The children of a parallel fold, and its bank of inputs.\<close>

definition fold_children :: "par2Transform \<Rightarrow> par2Transform" where
  "fold_children p =
     (if int (length (pt_children p)) \<noteq> pt_workers p
      then (transform_close p)\<lparr> pt_children := replicate (nat (pt_workers p)) None \<rparr> else p)"

definition fold_bank :: "nat \<Rightarrow> par2Transform \<Rightarrow> byte list list" where
  "fold_bank n p =
     (if length (pt_inputBank p) = 0 \<or> length (pt_inputBank p ! 0) < n
      then replicate (length (pt_available p) + length (pt_missing p)) (replicate n 0)
      else pt_inputBank p)"

definition fill_bank :: "nat \<Rightarrow> (nat \<Rightarrow> byte list \<Rightarrow> byte list res) \<Rightarrow> byte list list \<Rightarrow> byte list list res" where
  "fill_bank n next_fn bank = mapR (\<lambda>(i, row). let zeros = replicate (length row) 0 in
     bindR (slice_at zeros 0 n) (\<lambda>buf. bindR (next_fn i buf) (\<lambda>bytes. Inr (splice zeros 0 bytes)))) (enumerate 0 bank)"

text \<open>
  One stripe.  The children take the stripes from an atomic counter: \<open>pick\<close> names the child that comes
  first, the next one that has not failed is meant; when all have failed the stripe is left out.
\<close>

definition fold_stripe ::
    "bool \<Rightarrow> (nat \<Rightarrow> nat list) \<Rightarrow> (nat \<Rightarrow> nat) \<Rightarrow> par2Transform \<Rightarrow> nat \<Rightarrow> nat \<Rightarrow>
     regionWorkspace option list \<times> go_error option list \<times> byte list list \<Rightarrow>
     (regionWorkspace option list \<times> go_error option list \<times> byte list list) res" where
  "fold_stripe ple ord pick p n off = (\<lambda>(children, errs, out).
     case find (\<lambda>c. c < length errs \<and> errs ! c = None) (pick off # [0..<length errs]) of
       None \<Rightarrow> Inr (children, errs, out)
     | Some c \<Rightarrow>
         let sz = min transformStripeSize (n - off) in
         bindR (mapR (\<lambda>row. slice_at row off (off + sz)) out) (\<lambda>rows.
         case foldRange ple ord p sz (\<lambda>i dst. bindR (index_at (pt_inputBank p) i) (\<lambda>row.
             bindR (slice_at row off (off + sz)) (\<lambda>s. Inr (go_copy dst s)))) rows (children ! c) of
           Inl (Panic m) \<Rightarrow> Inl (Panic m)
         | Inl e \<Rightarrow> Inr (children, errs[c := Some e], out)
         | Inr (rows', w) \<Rightarrow> Inr (children[c := Some w], errs, map2 (\<lambda>row r. splice row off r) out rows')))"

definition transform_fold ::
    "bool \<Rightarrow> (nat \<Rightarrow> nat list) \<Rightarrow> (nat \<Rightarrow> nat) \<Rightarrow> par2Transform \<Rightarrow> nat \<Rightarrow> (nat \<Rightarrow> byte list \<Rightarrow> byte list res) \<Rightarrow>
     byte list list \<Rightarrow> (byte list list \<times> par2Transform) res" where
  "transform_fold ple ord pick p n next_fn out =
     (if pt_workers p = 1 \<or> n \<le> transformStripeSize
      then let p' = (case pt_workspace p of Some w \<Rightarrow> if rw_size w < n then transform_close p else p
                     | None \<Rightarrow> transform_close p) in
        bindR (foldRange ple ord p n next_fn out (pt_workspace p)) (\<lambda>(out', w). Inr (out', p'\<lparr> pt_workspace := Some w \<rparr>))
      else let p1 = fold_children p in
        bindR (fill_bank n next_fn (fold_bank n p1)) (\<lambda>bank.
        let p2 = p1\<lparr> pt_inputBank := bank \<rparr> in
        bindR (foldR (fold_stripe ple ord pick p2 n) (strided n transformStripeSize)
          (pt_children p2, replicate (length (pt_children p2)) None, out)) (\<lambda>(children, errs, out').
        bindR (first_error errs) (\<lambda>_. Inr (out', p2\<lparr> pt_children := children \<rparr>)))))"

end
