(* ===== verification/Par2Plan.thy ===== *)
theory Par2Plan
  imports Par2Transform LagrangeCorrect
begin

unbundle bit_operations_syntax

text \<open>
  Reconstruction plans (src/rsec16/par2_plan.go): the choice between the transform, the closed form of
  the matrix and elimination, the size of the byte ranges, and the fold of a range.  A plan is not safe
  for concurrent calls; its state is passed along.
\<close>

record PAR2ReconstructionPlan =
  rp_matrix :: matrix
  rp_transform :: "par2Transform option"
  rp_inputs :: nat
  rp_outputs :: nat
  rp_workers :: int
  rp_budget :: int
  rp_closed :: bool

definition zero_matrix :: matrix where
  "zero_matrix = \<lparr> m_rows = 0, m_columns = 0, m_elements = [] \<rparr>"

section \<open>NewPAR2ReconstructionPlan\<close>

text \<open>The loop over both lists of rows with \<open>seen\<close>.\<close>

definition seen_rows :: "nat \<Rightarrow> int list \<Rightarrow> bool list res" where
  "seen_rows n rows =
     foldR (\<lambda>row seen. if row < 0 \<or> row \<ge> int n \<or> seen ! nat row
         then Inl (ErrorNew ''invalid PAR2 data row partition'') else Inr (seen[nat row := True]))
       rows (replicate n False)"

definition default_budget :: "int \<Rightarrow> int" where
  "default_budget budget = (if budget \<le> 0 then 2 ^ 29 else budget)"

definition NewPAR2ReconstructionPlan ::
    "env \<Rightarrow> int \<Rightarrow> int list \<Rightarrow> int list \<Rightarrow> int list \<Rightarrow> int \<Rightarrow> int \<Rightarrow> PAR2ReconstructionPlan res" where
  "NewPAR2ReconstructionPlan e n available lost exponents workers memoryBudget =
     (if n \<le> 0 \<or> n > int (length generators) \<or> int (length available + length lost) \<noteq> n \<or> length lost = 0 \<or>
         length exponents \<noteq> length lost
      then Inl (ErrorNew ''invalid PAR2 reconstruction dimensions'')
      else bindR (seen_rows (nat n) (available @ lost)) (\<lambda>_.
        if \<exists>x \<in> set exponents. x < 0 \<or> x > 65535 then Inl (ErrorNew ''parity exponent out of range'')
        else let budget = default_budget memoryBudget; av = map nat available; mi = map nat lost;
            p = \<lparr> rp_matrix = zero_matrix, rp_transform = None, rp_inputs = nat n, rp_outputs = length lost,
              rp_workers = max 1 workers, rp_budget = budget, rp_closed = False \<rparr>;
            consecutive = snd (consecutiveStart exponents)
          in if consecutive \<and> length lost \<ge> 1024 \<and> n * int (length lost) \<ge> 8 * 2 ^ 20 \<and> budget \<ge> 64 * 2 ^ 20
             then bindR (newPAR2Transform av mi exponents (rp_workers p)) (\<lambda>t. Inr (p\<lparr> rp_transform := Some t \<rparr>))
             else if consecutive \<and> length lost \<ge> 128
             then bindR (par2LagrangeMatrix (nat n) av mi exponents) (\<lambda>m.
               Inr (p\<lparr> rp_matrix := (case m of None \<Rightarrow> zero_matrix | Some m \<Rightarrow> m) \<rparr>))
             else bindR (NewCoderPAR2VandermondeRows n exponents (rp_workers p)) (\<lambda>c.
               bindR (ReconstructionMatrix e c av mi [0..<length exponents]) (\<lambda>m. Inr (p\<lparr> rp_matrix := m \<rparr>)))))"

section \<open>Sizes\<close>

text \<open>\<open>x &^ 1\<close>\<close>

definition clear_low :: "int \<Rightarrow> int" where
  "clear_low x = x - x mod 2"

definition FoldChunkSize :: "bool \<Rightarrow> int \<Rightarrow> int \<Rightarrow> int \<Rightarrow> int" where
  "FoldChunkSize accelerated budget0 sliceSz outputs =
     (if outputs \<le> 0 then sliceSz
      else let budget = default_budget budget0;
          buffers = (if accelerated then 2 * outputs + 49 else outputs + 2);
          per0 = budget div buffers;
          per = (if accelerated then per0 - min 4096 (per0 div 8) else per0)
      in min sliceSz (max 2 (per - per mod 2)))"

definition accelerated :: "env \<Rightarrow> bool" where
  "accelerated e \<longleftrightarrow> e_accel e \<noteq> None"

text \<open>The loop that makes the chunk fit the budget; a context has the stride of the pure-Go backend.\<close>

function shrink_chunk :: "int \<Rightarrow> int \<Rightarrow> int \<Rightarrow> int \<Rightarrow> int res" where
  "shrink_chunk rows outputs budget candidate =
     (case NewContext candidate of
        Inl e \<Rightarrow> Inl e
      | Inr ctx \<Rightarrow>
          let bytes = rows * int (bufSize ctx) + outputs * candidate in
          if bytes \<le> budget \<or> candidate \<le> 2 then Inr candidate
          else shrink_chunk rows outputs budget (max 2 (clear_low (candidate - int Stride))))"
  by pat_completeness auto
termination
proof (relation "measure (\<lambda>(rows, outputs, budget, candidate). nat candidate)")
  fix rows outputs budget candidate x :: int and ctx :: Context
  assume "\<not> (x \<le> budget \<or> candidate \<le> 2)"
  moreover have "clear_low (candidate - int Stride) < candidate" by (simp add: Stride_def clear_low_def)
  ultimately show "((rows, outputs, budget, max 2 (clear_low (candidate - int Stride))), rows, outputs, budget, candidate)
      \<in> measure (\<lambda>(rows, outputs, budget, candidate). nat candidate)" by simp
qed simp

declare shrink_chunk.simps [simp del]

definition transform_chunk :: "PAR2ReconstructionPlan \<Rightarrow> par2Transform \<Rightarrow> int \<Rightarrow> (PAR2ReconstructionPlan \<times> int) res" where
  "transform_chunk p t sliceSz =
     (let stripe = int transformStripeSize; rows = int (2 * pt_degree t + 3) in
      bindR (NewContext stripe) (\<lambda>ctx.
      let preparedStripe = int (bufSize ctx); inout = int (rp_inputs p + rp_outputs p);
          workers = min (rp_workers p) (min (1 + (sliceSz - 1) div stripe)
            (max 1 (rp_budget p div (rows * preparedStripe + inout * stripe))));
          p' = p\<lparr> rp_transform := Some (t\<lparr> pt_workers := workers \<rparr>) \<rparr>
      in if workers > 1 \<and> sliceSz > stripe
         then let candidate0 = (rp_budget p - workers * rows * preparedStripe) div inout;
                candidate = (if candidate0 < sliceSz \<and> candidate0 \<ge> 4096 then candidate0 div 4096 * 4096 else candidate0)
              in Inr (p', min sliceSz (max 2 (clear_low candidate)))
         else bindR (shrink_chunk rows (int (rp_outputs p)) (rp_budget p)
              (min sliceSz (max 2 (clear_low (rp_budget p div (rows + int (rp_outputs p)) - 128))))) (\<lambda>chunk.
            Inr (p', chunk))))"

definition ChunkSize :: "env \<Rightarrow> PAR2ReconstructionPlan \<Rightarrow> int \<Rightarrow> (PAR2ReconstructionPlan \<times> int) res" where
  "ChunkSize e p sliceSz =
     (if rp_closed p then Inl (ErrorNew ''closed PAR2 reconstruction plan'')
      else if sliceSz \<le> 0 \<or> sliceSz mod 2 \<noteq> 0 then Inl (ErrorNew ''invalid slice size'')
      else case rp_transform p of
        None \<Rightarrow> Inr (p, FoldChunkSize (accelerated e) (rp_budget p) sliceSz (int (rp_outputs p)))
      | Some t \<Rightarrow> transform_chunk p t sliceSz)"

section \<open>Fold and Close\<close>

text \<open>The orders of tasks and stripes are those of the scheduler.\<close>

record fold_schedule =
  fs_tasks :: "nat \<Rightarrow> nat list"
  fs_pick :: "nat \<Rightarrow> nat"

definition plan_Fold ::
    "env \<Rightarrow> fold_schedule \<Rightarrow> PAR2ReconstructionPlan \<Rightarrow> int \<Rightarrow> (nat \<Rightarrow> byte list \<Rightarrow> byte list res) \<Rightarrow> byte list list \<Rightarrow>
     (PAR2ReconstructionPlan \<times> byte list list) res" where
  "plan_Fold e sch p sz next_fn out =
     (if rp_closed p then Inl (ErrorNew ''closed PAR2 reconstruction plan'')
      else if sz \<le> 0 \<or> sz mod 2 \<noteq> 0 \<or> length out \<noteq> rp_outputs p
      then Inl (ErrorNew ''invalid reconstruction buffers'')
      else if \<exists>row \<in> set out. int (length row) \<noteq> sz then Inl (ErrorNew ''invalid reconstruction output size'')
      else case rp_transform p of
        Some t \<Rightarrow> bindR (transform_fold (e_ple e) (fs_tasks sch) (fs_pick sch) t (nat sz) next_fn out) (\<lambda>(out', t').
          Inr (p\<lparr> rp_transform := Some t' \<rparr>, out'))
      | None \<Rightarrow> bindR (FoldInputs e (rp_matrix p) (rp_inputs p) (nat sz) next_fn out (rp_workers p)) (\<lambda>out'. Inr (p, out')))"

definition plan_Close :: "PAR2ReconstructionPlan \<Rightarrow> PAR2ReconstructionPlan" where
  "plan_Close p = (if rp_closed p then p
     else p\<lparr> rp_transform := map_option transform_close (rp_transform p), rp_closed := True \<rparr>)"

end
