(* ===== verification/Reconstruction.thy ===== *)
theory Reconstruction
  imports Decoder Par2Plan
begin

text \<open>
  Rebuilding missing shards from the files on disk (\<open>par2/reconstruct.go\<close>, \<open>par2/memory.go\<close>): the cache
  of open readers, the reads of shards and recovery blocks, the choice of the blocks that stand in for
  what is missing, and the loop over byte ranges that folds them and hands the result to a sink.
\<close>

section \<open>The cache of readers\<close>

record readerCache =
  rc_readers :: "gostring \<rightharpoonup> reader \<times> int"

definition newReaderCache :: readerCache where
  "newReaderCache = \<lparr> rc_readers = Map.empty \<rparr>"

definition getPath ::
    "('fs, 'w) fileIO \<Rightarrow> 'fs \<Rightarrow> gostring \<Rightarrow> readerCache \<Rightarrow> (reader \<times> int) res \<times> readerCache" where
  "getPath io fs path c =
     (case rc_readers c path of
        Some rs \<Rightarrow> (Inr rs, c)
      | None \<Rightarrow> (case io_OpenRead io fs path of
          Inl e \<Rightarrow> (Inl e, c)
        | Inr rs \<Rightarrow> (Inr rs, c\<lparr> rc_readers := (rc_readers c)(path \<mapsto> rs) \<rparr>)))"

text \<open>
  While the cache is in use no file of the set changes, so that a cached reader is what opening the
  file again gives; the functions below therefore read from the file system.
\<close>

definition cache_of :: "('fs, 'w) fileIO \<Rightarrow> 'fs \<Rightarrow> readerCache \<Rightarrow> bool" where
  "cache_of io fs c \<longleftrightarrow> (\<forall>path rs. rc_readers c path = Some rs \<longrightarrow> io_OpenRead io fs path = Inr rs)"

lemma cache_of_new: "cache_of io fs newReaderCache"
  by (simp add: cache_of_def newReaderCache_def)

lemma getPath_snapshot:
  assumes "cache_of io fs c"
  shows "fst (getPath io fs path c) = io_OpenRead io fs path" and "cache_of io fs (snd (getPath io fs path c))"
  using assms by (auto simp: getPath_def cache_of_def split: option.splits sum.splits)

text \<open>Reading \<open>len\<close> bytes at an offset into a cleared buffer; what is past the end stays zero.\<close>

definition read_padded :: "(reader \<times> int) res \<Rightarrow> int \<Rightarrow> nat \<Rightarrow> byte list res" where
  "read_padded opened off len = bindR opened (\<lambda>(r, sz).
     if off \<ge> sz then Inr (replicate len 0)
     else let n = (if off + int len > sz then nat (sz - off) else len) in
       bindR (r off n) (\<lambda>bytes. Inr (bytes @ replicate (len - n) 0)))"

definition readAbs :: "('fs, 'w) fileIO \<Rightarrow> 'fs \<Rightarrow> gostring \<Rightarrow> int \<Rightarrow> nat \<Rightarrow> byte list res" where
  "readAbs io fs path off len = read_padded (io_OpenRead io fs path) off len"

definition cache_get :: "('fs, 'w) fileIO \<Rightarrow> 'fs \<Rightarrow> decoder \<Rightarrow> fileID \<Rightarrow> (reader \<times> int) res" where
  "cache_get io fs d i =
     (case d_fileIDIndices d i of
        None \<Rightarrow> Inl (ErrorNew ''unknown file for shard'')
      | Some k \<Rightarrow> bindR (index_at (d_recoverySet d) k) (\<lambda>info. io_OpenRead io fs (getFilePath d info)))"

definition readRange :: "('fs, 'w) fileIO \<Rightarrow> 'fs \<Rightarrow> decoder \<Rightarrow> shardIntegrityInfo \<Rightarrow> nat \<Rightarrow> nat \<Rightarrow> byte list res" where
  "readRange io fs d info off len =
     (if \<not> si_present info then Inl (ErrorNew ''shard not present'')
      else read_padded (cache_get io fs d (sl_fileID (si_foundAt info))) (int (sl_start (si_foundAt info) + off)) len)"

section \<open>Memory\<close>

text \<open>\<open>phys\<close> is the physical memory that the operating system reports, 0 when it is not known.\<close>

definition fallbackMemoryBudget :: int where
  "fallbackMemoryBudget = 2 ^ 30"

definition defaultMemoryBudget :: "int \<Rightarrow> int" where
  "defaultMemoryBudget phys =
     (if phys \<le> 0 then fallbackMemoryBudget else let half = phys div 2 in
      if half > 2 ^ 63 - 1 then 2 ^ 63 - 1 else half)"

definition defaultFoldMemoryBudget :: int where
  "defaultFoldMemoryBudget = 512 * 2 ^ 20"

definition fold_budget :: "int \<Rightarrow> int \<Rightarrow> int" where
  "fold_budget phys budget = (if budget \<le> 0 then min (defaultMemoryBudget phys) defaultFoldMemoryBudget else budget)"

definition chunkSizeFor :: "env \<Rightarrow> int \<Rightarrow> int \<Rightarrow> int \<Rightarrow> int \<Rightarrow> int" where
  "chunkSizeFor e phys budget sliceByteCount lost =
     (if lost \<le> 0 then sliceByteCount
      else FoldChunkSize (accelerated e) (fold_budget phys budget) sliceByteCount lost)"

section \<open>classifyReconstruction\<close>

record foldInput =
  in_isParity :: bool
  in_parityIdx :: nat
  in_shard :: shardIntegrityInfo

definition decoder_shards :: "decoder \<Rightarrow> shardIntegrityInfo list" where
  "decoder_shards d = concat (map fi_shardInfos (d_fileIntegrityInfos d))"

text \<open>The loop over the shards of all files, with their global row numbers.\<close>

fun classify_shards :: "nat \<Rightarrow> shardIntegrityInfo list \<Rightarrow> nat list \<times> nat list \<times> foldInput list" where
  "classify_shards k [] = ([], [], [])"
| "classify_shards k (si # sis) = (case classify_shards (Suc k) sis of (av, mi, inputs) \<Rightarrow>
     if si_present si then (k # av, mi, \<lparr> in_isParity = False, in_parityIdx = 0, in_shard = si \<rparr> # inputs)
     else (av, k # mi, inputs))"

text \<open>The loop over the recovery blocks: it stops when there are as many inputs as shards.\<close>

fun choose_parity :: "nat \<Rightarrow> nat \<Rightarrow> bool list \<Rightarrow> nat list \<Rightarrow> foldInput list \<Rightarrow> nat list \<times> foldInput list" where
  "choose_parity count_all i [] exps inputs = (exps, inputs)"
| "choose_parity count_all i (present # ps) exps inputs =
     (if length inputs < count_all
      then if present
        then choose_parity count_all (Suc i) ps (exps @ [i])
          (inputs @ [\<lparr> in_isParity = True, in_parityIdx = i, in_shard = shard_zero \<rparr>])
        else choose_parity count_all (Suc i) ps exps inputs
      else (exps, inputs))"

definition classifyReconstruction :: "decoder \<Rightarrow> (nat list \<times> nat list \<times> nat list \<times> foldInput list) res" where
  "classifyReconstruction d =
     (let totalShards = length (decoder_shards d) in
      if totalShards = 0 then Inl (ErrorNew ''no file integrity info'')
      else if length (d_parityPresent d) = 0 then Inl (ErrorNew ''no parity shards'')
      else case classify_shards 0 (decoder_shards d) of (availableRows, missingRows, inputs0) \<Rightarrow>
        case choose_parity totalShards 0 (d_parityPresent d) [] inputs0 of (parityExponents, inputs) \<Rightarrow>
        if length missingRows > 0 \<and> length inputs < totalShards then Inl NotEnoughParityShardsError
        else Inr (availableRows, missingRows, parityExponents, inputs))"

section \<open>reconstructTo\<close>

text \<open>The callback of the fold: input \<open>j\<close>, \<open>len\<close> bytes of it from \<open>off\<close> on.\<close>

definition load_input ::
    "('fs, 'w) fileIO \<Rightarrow> 'fs \<Rightarrow> decoder \<Rightarrow> (nat \<rightharpoonup> byte list) \<Rightarrow> nat list \<Rightarrow> foldInput list \<Rightarrow> nat \<Rightarrow> nat \<Rightarrow>
     nat \<Rightarrow> byte list \<Rightarrow> byte list res" where
  "load_input io fs d preserved availableRows inputs off n j buf =
     bindR (index_at inputs j) (\<lambda>inp.
     if in_isParity inp then
       bindR (index_at (d_parityLocations d) (in_parityIdx inp)) (\<lambda>loc.
       if int off \<ge> pl_length loc then Inr (replicate (length buf) 0)
       else let fin = (if int (off + n) > pl_length loc then nat (pl_length loc) else off + n) in
         bindR (slice_at buf 0 (fin - off)) (\<lambda>part.
         bindR (readAbs io fs (pl_path loc) (pl_offset loc + int off) (length part)) (\<lambda>bytes.
         Inr (splice (replicate (length buf) 0) 0 bytes))))
     else bindR (index_at availableRows j) (\<lambda>row.
       case preserved row of
         Some shard \<Rightarrow>
           let part = (if off < length shard then slice shard off (min (off + n) (length shard)) else [])
           in Inr (go_copy (replicate (length buf) 0) part)
       | None \<Rightarrow> readRange io fs d (in_shard inp) off (length buf)))"

text \<open>
  One range.  The sink takes the rows, the offset, the length of a row and the bank, and its own state.
\<close>

definition reconstruct_range ::
    "env \<Rightarrow> fold_schedule \<Rightarrow> ('fs, 'w) fileIO \<Rightarrow> 'fs \<Rightarrow> decoder \<Rightarrow> (nat \<rightharpoonup> byte list) \<Rightarrow> nat list \<Rightarrow> nat list \<Rightarrow> foldInput list \<Rightarrow>
     (nat list \<Rightarrow> nat \<Rightarrow> nat \<Rightarrow> byte list \<Rightarrow> 's \<Rightarrow> 's res) \<Rightarrow> nat \<Rightarrow> nat \<Rightarrow> PAR2ReconstructionPlan \<times> 's \<Rightarrow>
     (PAR2ReconstructionPlan \<times> 's) res" where
  "reconstruct_range e sch io fs d preserved availableRows missingRows inputs sink chunk off = (\<lambda>(plan, s).
     let n = (if off + chunk > d_sliceByteCount d then d_sliceByteCount d - off else chunk) in
     if n > (2 ^ 63 - 1) div length missingRows then Inl (ErrorNew ''reconstruction output size overflow'')
     else bindR (plan_Fold e sch plan (int n) (load_input io fs d preserved availableRows inputs off n)
       (replicate (length missingRows) (replicate n 0))) (\<lambda>(plan', out).
     bindR (sink missingRows off n (concat out) s) (\<lambda>s'. Inr (plan', s'))))"

definition reconstructTo ::
    "env \<Rightarrow> fold_schedule \<Rightarrow> int \<Rightarrow> ('fs, 'w) fileIO \<Rightarrow> 'fs \<Rightarrow> decoder \<Rightarrow> (nat \<rightharpoonup> byte list) \<Rightarrow>
     (nat list \<Rightarrow> nat \<Rightarrow> nat \<Rightarrow> byte list \<Rightarrow> 's \<Rightarrow> 's res) \<Rightarrow> 's \<Rightarrow> (nat list \<times> 's) res" where
  "reconstructTo e sch phys io fs d preserved sink s =
     bindR (classifyReconstruction d) (\<lambda>(availableRows, missingRows, parityExponents, inputs).
     if length missingRows = 0 then Inr ([], s)
     else bindR (NewPAR2ReconstructionPlan e (int (length inputs)) (map int availableRows) (map int missingRows)
         (map int parityExponents) (d_numGoroutines d) (fold_budget phys (d_memoryBudget d))) (\<lambda>plan0.
       bindR (ChunkSize e plan0 (int (d_sliceByteCount d))) (\<lambda>(plan, chunk).
       bindR (foldR (reconstruct_range e sch io fs d preserved availableRows missingRows inputs sink (nat chunk))
         (strided (d_sliceByteCount d) (nat chunk)) (plan, s)) (\<lambda>(_, s'). Inr (missingRows, s')))))"

end
