(* ===== verification/WrittenCheck.thy ===== *)
theory WrittenCheck
  imports Decoder Additive
begin

text \<open>
  The check of repaired files (\<open>checkWrittenFiles\<close> of \<open>par2/windowscan.go\<close>, \<open>checkWrittenFile\<close> of
  \<open>par2/decoder.go\<close>): files are read back, in windows by a pool of workers or only at the slices that
  were written, and compared with the hashes of the set.
\<close>

definition errWrittenByteCount :: go_error where
  "errWrittenByteCount = ErrorNew ''wrong byte count in reconstructed data''"

definition errWritten16k :: go_error where
  "errWritten16k = ErrorNew ''hash mismatch (16k) in reconstructed data''"

definition errWrittenSlice :: go_error where
  "errWrittenSlice = ErrorNew ''hash mismatch in reconstructed data''"

section \<open>Slices\<close>

text \<open>An error value is Some; a panic is on the left.\<close>

definition checkSlice :: "decoderInputFileInfo \<Rightarrow> nat \<Rightarrow> byte list \<Rightarrow> go_error option" where
  "checkSlice info k sl =
     (if k \<ge> length (di_checksumPairs info) \<or> md5 sl \<noteq> cp_MD5 (di_checksumPairs info ! k)
      then Some errWrittenSlice else None)"

text \<open>Slice \<open>k\<close>, or the 16k head for \<open>-1\<close>; the error of reading nothing is ignored.\<close>

definition checkSliceAt :: "nat \<Rightarrow> windowSource \<Rightarrow> decoderInputFileInfo \<Rightarrow> int \<Rightarrow> go_error option" where
  "checkSliceAt sliceByteCount src info k =
     (if k < 0
      then let n = nat (min (16 * 1024) (ws_size src)) in
        (case (if n > 0 then ws_r src 0 n else Inr []) of
           Inl e \<Rightarrow> Some e
         | Inr head \<Rightarrow> if md5 head \<noteq> di_sixteenKHash info then Some errWritten16k else None)
      else let start = k * int sliceByteCount in
        if start > ws_size src then Some errWrittenSlice
        else let n = nat (min (int sliceByteCount) (ws_size src - start)) in
          (case (if n > 0 then ws_r src start n else Inr []) of
             Inl e \<Rightarrow> Some e
           | Inr bytes \<Rightarrow> checkSlice info (nat k) (bytes @ replicate (sliceByteCount - n) 0)))"

section \<open>checkWrittenFiles\<close>

text \<open>The callback on a window, one atomic step as it shares nothing.\<close>

fun check_slices :: "nat \<Rightarrow> decoderInputFileInfo \<Rightarrow> nat \<Rightarrow> byte list \<Rightarrow> nat list \<Rightarrow> go_error option res" where
  "check_slices n info off buf [] = Inr None"
| "check_slices n info off buf (j # js) = bindR (sliceAndPadByteArray buf j (j + n)) (\<lambda>sl.
     case checkSlice info ((off + j) div n) sl of
       Some e \<Rightarrow> Inr (Some e)
     | None \<Rightarrow> check_slices n info off buf js)"

definition check_window :: "nat \<Rightarrow> decoderInputFileInfo \<Rightarrow> nat \<Rightarrow> byte list \<Rightarrow> go_error option res" where
  "check_window n info off buf =
     (if off = 0 \<and> sixteenKHash buf \<noteq> di_sixteenKHash info then Inr (Some errWritten16k)
      else check_slices n info off buf (strided (length buf) n))"

definition written_fn :: "decoder \<Rightarrow> (nat \<times> nat \<times> byte list, unit) window_fn" where
  "written_fn d = \<lparr> wf_begin = (\<lambda>i off buf. (i, off, buf)),
     wf_step = (\<lambda>(i, off, buf) s. bindR (check_window (d_sliceByteCount d) (d_recoverySet d ! i) off buf) (\<lambda>r. Inr (Inr r, s))) \<rparr>"

text \<open>Opening: an empty path is skipped; a file of the wrong size is not looked into.\<close>

definition open_written ::
    "('fs, 'w) fileIO \<Rightarrow> 'fs \<Rightarrow> decoder \<Rightarrow> nat \<Rightarrow> gostring \<Rightarrow> windowSource option \<times> go_error option" where
  "open_written io fs d i path =
     (if path = [] then (None, None)
      else case io_OpenRead io fs path of
        Inl e \<Rightarrow> (None, Some e)
      | Inr (r, sz) \<Rightarrow>
          if sz \<noteq> di_byteCount (d_recoverySet d ! i) then (None, Some errWrittenByteCount)
          else (Some \<lparr> ws_r = r, ws_size = sz \<rparr>, None))"

text \<open>A nil list of rows, which asks for a full check, is None.\<close>

definition full_check :: "decoder \<Rightarrow> nat \<Rightarrow> nat list option \<Rightarrow> windowSource option \<Rightarrow> bool" where
  "full_check d i rows src \<longleftrightarrow> src \<noteq> None \<and> (case rows of None \<Rightarrow> True
     | Some rs \<Rightarrow> length rs > 0 \<and> length rs * 2 \<ge> length (di_checksumPairs (d_recoverySet d ! i)))"

definition merge_errs :: "go_error option list \<Rightarrow> go_error option list \<Rightarrow> go_error option list" where
  "merge_errs errs winErrs = map2 (\<lambda>e w. if w \<noteq> None \<and> e = None then w else e) errs winErrs"

definition slice_tasks ::
    "windowSource option list \<Rightarrow> bool list \<Rightarrow> nat list option list \<Rightarrow> go_error option list \<Rightarrow> (nat \<times> int) list" where
  "slice_tasks sources fullCheck rows errs = concat (map (\<lambda>i.
     if sources ! i = None \<or> fullCheck ! i \<or> errs ! i \<noteq> None then []
     else (i, -1) # map (\<lambda>k. (i, int k)) (case rows ! i of None \<Rightarrow> [] | Some rs \<Rightarrow> rs)) [0..<length sources])"

definition slice_step :: "decoder \<Rightarrow> windowSource option list \<Rightarrow> (nat \<times> int, go_error option list) process_step" where
  "slice_step d sources t errs = (case t of (i, k) \<Rightarrow>
     case sources ! i of
       None \<Rightarrow> Inl (Panic ''nil pointer dereference'')
     | Some src \<Rightarrow> Inr (None, case checkSliceAt (d_sliceByteCount d) src (d_recoverySet d ! i) k of
         None \<Rightarrow> errs
       | Some e \<Rightarrow> set_err i e errs))"

text \<open>The hash of an empty file, which has no windows.\<close>

definition empty_errs :: "decoder \<Rightarrow> windowSource option list \<Rightarrow> go_error option list \<Rightarrow> go_error option list" where
  "empty_errs d sources errs = map (\<lambda>i. case sources ! i of
       None \<Rightarrow> errs ! i
     | Some src \<Rightarrow> if ws_size src = 0 \<and> errs ! i = None \<and> md5 [] \<noteq> di_sixteenKHash (d_recoverySet d ! i)
         then Some errWritten16k else errs ! i) [0..<length errs]"

text \<open>\<open>wsched\<close> schedules the workers of the windows, \<open>ssched\<close> those of the slices.\<close>

definition checkWrittenFiles ::
    "nat list \<Rightarrow> nat list \<Rightarrow> ('fs, 'w) fileIO \<Rightarrow> 'fs \<Rightarrow> decoder \<Rightarrow> gostring list \<Rightarrow> nat list option list \<Rightarrow>
     go_error option list res option" where
  "checkWrittenFiles wsched ssched io fs d paths rows =
     (let opened = map (\<lambda>(i, path). open_written io fs d i path) (enumerate 0 paths);
          sources = map fst opened;
          errs0 = map snd opened;
          fullCheck = map (\<lambda>i. full_check d i (rows ! i) (sources ! i)) [0..<length paths];
          full = map (\<lambda>i. if fullCheck ! i then sources ! i else None) [0..<length paths]
      in case scanWindowSize (d_sliceByteCount d) of
           Inl e \<Rightarrow> Some (Inl e)
         | Inr windowSize \<Rightarrow>
           (case forEachWindow wsched full windowSize (d_numGoroutines d) (written_fn d) () of
              None \<Rightarrow> None
            | Some (Inl e) \<Rightarrow> Some (Inl e)
            | Some (Inr (winErrs, _)) \<Rightarrow>
                let errs1 = merge_errs errs0 winErrs in
                map_option (\<lambda>r. bindR r (\<lambda>c. Inr (empty_errs d sources (pl_shared c))))
                  (pool_run id (slice_step d sources) ssched
                    (pool_init (nat (max (d_numGoroutines d) 1)) (slice_tasks sources fullCheck rows errs1) errs1))))"

section \<open>checkWrittenFile\<close>

text \<open>The whole file in pieces of a megabyte, with the hashes of its first 16k and of all of it.\<close>

definition checkWrittenFile :: "('fs, 'w) fileIO \<Rightarrow> 'fs \<Rightarrow> gostring \<Rightarrow> decoderInputFileInfo \<Rightarrow> go_error option res" where
  "checkWrittenFile io fs path info =
     (case io_OpenRead io fs path of
        Inl e \<Rightarrow> Inr (Some e)
      | Inr (r, sz) \<Rightarrow>
          if sz \<noteq> di_byteCount info then Inr (Some (ErrorNew ''wrong byte count in reconstructed data''))
          else case foldR (\<lambda>off (head, written).
                 let n = (if int (2 ^ 20) > sz - int off then nat (sz - int off) else 2 ^ 20) in
                 bindR (r (int off) n) (\<lambda>bytes.
                 Inr (if length head < 16 * 1024 then head @ take (min n (16 * 1024 - length head)) bytes else head,
                   written @ bytes)))
               (strided (nat sz) (2 ^ 20)) ([], []) of
             Inl e \<Rightarrow> Inr (Some e)
           | Inr (head, written) \<Rightarrow>
               if md5 head \<noteq> di_sixteenKHash info
                 then Inr (Some (ErrorNew ''hash mismatch (16k) in reconstructed data''))
               else if md5 written \<noteq> di_hash info
                 then Inr (Some (ErrorNew ''hash mismatch in reconstructed data''))
               else Inr None)"

end
