(* ===== verification/ParityLoad.thy ===== *)
theory ParityLoad
  imports Decoder "HOL-Library.Product_Lexorder"
begin

text \<open>
  \<open>loadParityData\<close> of \<open>par2/decoder.go\<close>: all packets of all volumes are read and checked by a pool of
  workers, and what they hold is recorded under one lock.  A worker's atomic steps are the read of a
  run of packets and the handling of one packet.
\<close>

section \<open>Volumes\<close>

record volume =
  vo_path :: gostring
  vo_r :: "reader option"
  vo_refs :: "packetRef list"

text \<open>Opening and indexing; None when the index loop does not end.\<close>

definition open_volume ::
    "('fs, 'w) fileIO \<Rightarrow> 'fs \<Rightarrow> gostring \<Rightarrow> (volume \<times> go_error option) option" where
  "open_volume io fs match =
     (case io_OpenRead io fs match of
        Inl e \<Rightarrow> Some (\<lparr> vo_path = match, vo_r = None, vo_refs = [] \<rparr>, Some e)
      | Inr (r, sz) \<Rightarrow> map_option (\<lambda>refs. case refs of
            Inl e \<Rightarrow> (\<lparr> vo_path = match, vo_r = Some r, vo_refs = [] \<rparr>, Some e)
          | Inr rs \<Rightarrow> (\<lparr> vo_path = match, vo_r = Some r, vo_refs = rs \<rparr>, None))
          (indexPackets r sz))"

fun open_volumes ::
    "('fs, 'w) fileIO \<Rightarrow> 'fs \<Rightarrow> gostring list \<Rightarrow> (volume \<times> go_error option) list option" where
  "open_volumes io fs [] = Some []"
| "open_volumes io fs (m # ms) = (case open_volume io fs m of None \<Rightarrow> None
     | Some v \<Rightarrow> map_option (\<lambda>vs. v # vs) (open_volumes io fs ms))"

section \<open>Bookkeeping\<close>

text \<open>
  What the workers share.  An event is the volume, the index of the packet and the call of the
  delegate; \<open>ps_errs\<close> are the \<open>err\<close> fields of the volumes.
\<close>

record parity_state =
  ps_errs :: "go_error option list"
  ps_events :: "(nat \<times> nat \<times> delegate_event) list"
  ps_present :: "bool list"
  ps_locations :: "parityLocation list"
  ps_found :: "bool list"
  ps_main :: "mainPacket option list"

definition zero_location :: parityLocation where
  "zero_location = \<lparr> pl_path = [], pl_offset = 0, pl_length = 0, pl_vol = 0 \<rparr>"

definition record_event :: "nat \<Rightarrow> nat \<Rightarrow> delegate_event \<Rightarrow> parity_state \<Rightarrow> parity_state" where
  "record_event vi pi e st = st\<lparr> ps_events := ps_events st @ [(vi, pi, e)] \<rparr>"

text \<open>The recovery packet case of \<open>handle\<close>, after the packet has been parsed.\<close>

definition handle_block ::
    "bool \<Rightarrow> nat \<Rightarrow> gostring \<Rightarrow> nat \<Rightarrow> int \<Rightarrow> int \<Rightarrow> parity_state \<Rightarrow> parity_state" where
  "handle_block retain vi path ex packetOffset dataLen st =
     (let grow = ex + 1 - length (ps_present st);
          present = ps_present st @ replicate grow False;
          locations = ps_locations st @ replicate grow zero_location;
          loc = \<lparr> pl_path = path, pl_offset = packetOffset + headerSize + 4, pl_length = dataLen, pl_vol = vi \<rparr>
      in st\<lparr> ps_present := present[ex := True],
             ps_locations := (if retain \<and> (pl_path (locations ! ex) = [] \<or> pl_vol (locations ! ex) > vi)
               then locations[ex := loc] else locations) \<rparr>)"

definition handle_packet ::
    "recoverySetID \<Rightarrow> bool \<Rightarrow> nat \<Rightarrow> nat \<Rightarrow> gostring \<Rightarrow> recoverySetID \<Rightarrow> packetType \<Rightarrow> byte list \<Rightarrow> int \<Rightarrow> int \<Rightarrow>
     parity_state \<Rightarrow> parity_state \<times> go_error option" where
  "handle_packet dSetID retain vi pi path setID typ body packetOffset dataLen st0 =
     (if setID \<noteq> dSetID
        then (record_event vi pi (OnOtherPacketSkip setID typ (length body)) st0, None)
      else let st = st0\<lparr> ps_found := (ps_found st0)[vi := True] \<rparr> in
       if typ = mainPacketType then
         (case readMainPacket body of
            Inl e \<Rightarrow> (st, Some e)
          | Inr mp \<Rightarrow> (record_event vi pi (OnMainPacketLoad (mp_sliceByteCount mp) (length (mp_recoverySet mp))
                (length (mp_nonRecoverySet mp))) (st\<lparr> ps_main := (ps_main st)[vi := Some mp] \<rparr>), None))
       else if typ = recoveryPacketType then
         (case readRecoveryPacket body of
            Inl e \<Rightarrow> (st, Some e)
          | Inr (ex, _) \<Rightarrow>
              (handle_block retain vi path (unat ex) packetOffset dataLen
                (record_event vi pi (OnRecoveryPacketLoad ex (nat dataLen)) st), None))
       else if typ = creatorPacketType then
         (record_event vi pi (OnCreatorPacketLoad (readCreatorPacket body)) st, None)
       else if typ = fileDescriptionPacketType then
         (case readFileDescriptionPacket body of
            Inl e \<Rightarrow> (st, Some e)
          | Inr (i, fdp) \<Rightarrow> (record_event vi pi (OnFileDescriptionPacketLoad i (fd_filename fdp) (fd_byteCount fdp)) st, None))
       else if typ = ifscPacketType then
         (case readIFSCPacket body of
            Inl e \<Rightarrow> (st, Some e)
          | Inr (i, _) \<Rightarrow> (record_event vi pi (OnIFSCPacketLoad i) st, None))
       else (record_event vi pi (OnUnknownPacketLoad typ (length body)) st, None))"

section \<open>Tasks and workers\<close>

record parity_task =
  pt_vi :: nat
  pt_pi :: nat
  pt_end :: nat

text \<open>Runs of packets of at most a megabyte, at least one packet each.\<close>

function task_end :: "packetRef list \<Rightarrow> nat \<Rightarrow> nat \<Rightarrow> nat" where
  "task_end refs pi fin =
     (if fin < length refs \<and> pr_offset (refs ! fin) + pr_length (refs ! fin) - pr_offset (refs ! pi) \<le> 2 ^ 20
      then task_end refs pi (fin + 1) else fin)"
  by pat_completeness auto
termination by (relation "measure (\<lambda>(refs, pi, fin). length refs - fin)") auto

declare task_end.simps [simp del]

lemma task_end_ge: "fin \<le> task_end refs pi fin"
proof (induction refs pi fin rule: task_end.induct)
  case (1 refs pi fin)
  then show ?case by (subst task_end.simps) (auto intro: le_trans [of fin "fin + 1"])
qed

function volume_tasks :: "packetRef list \<Rightarrow> nat \<Rightarrow> nat \<Rightarrow> parity_task list" where
  "volume_tasks refs vi pi =
     (if pi < length refs
      then let fin = task_end refs pi (pi + 1)
        in \<lparr> pt_vi = vi, pt_pi = pi, pt_end = fin \<rparr> # volume_tasks refs vi fin
      else [])"
  by pat_completeness auto
termination
proof (relation "measure (\<lambda>(refs, vi, pi). length refs - pi)")
  fix refs :: "packetRef list" and vi pi fin :: nat
  assume "pi < length refs" "fin = task_end refs pi (pi + 1)"
  with task_end_ge [of "pi + 1" refs pi] show "((refs, vi, fin), refs, vi, pi) \<in> measure (\<lambda>(refs, vi, pi). length refs - pi)"
    by simp
qed simp

declare volume_tasks.simps [simp del]

definition parity_tasks :: "(volume \<times> go_error option) list \<Rightarrow> parity_task list" where
  "parity_tasks vols = concat (map (\<lambda>vi. case vols ! vi of (v, err) \<Rightarrow>
     if err \<noteq> None then [] else volume_tasks (vo_refs v) vi 0) [0..<length vols])"

text \<open>
  A worker that has received a task, and one that is at packet \<open>pi\<close> of it, with the bytes it has read;
  \<open>buf\<close> starts at the file offset \<open>first\<close>.
\<close>

datatype parity_proc =
    ParityTask parity_task
  | ParityPackets nat nat nat "byte list" int

definition set_vol_err :: "nat \<Rightarrow> go_error \<Rightarrow> parity_state \<Rightarrow> parity_state" where
  "set_vol_err vi e st = (if ps_errs st ! vi = None then st\<lparr> ps_errs := (ps_errs st)[vi := Some e] \<rparr> else st)"

text \<open>Reading one packet: its exponent only, from the buffer, or from the volume.\<close>

definition read_ref ::
    "recoverySetID \<Rightarrow> bool \<Rightarrow> reader \<Rightarrow> packetRef \<Rightarrow> byte list \<Rightarrow> int \<Rightarrow>
     (recoverySetID \<times> packetType \<times> byte list \<times> int) res" where
  "read_ref dSetID retain r ref buf first =
     (if \<not> retain \<and> Type (pr_header ref) = recoveryPacketType \<and> RecoverySetID (pr_header ref) = dSetID
        then bindR (readRecoveryExponent r ref) (\<lambda>(body, dataLen).
          Inr (RecoverySetID (pr_header ref), recoveryPacketType, body, dataLen))
      else let with_len = (\<lambda>(setID, typ, body).
            (setID, typ, body, if typ = recoveryPacketType then int (length body) - 4 else 0)) in
        if retain then
          (let start = pr_offset ref - first
           in if start < 0 \<or> pr_length ref < 0 then Inl slice_panic
              else bindR (slice_at buf (nat start) (nat (start + pr_length ref))) (\<lambda>bytes.
                bindR (readNextPacketBorrowed bytes) (\<lambda>(packet, _). Inr (with_len packet))))
        else bindR (readPacketAt r ref) (\<lambda>packet. Inr (with_len packet)))"

definition parity_step ::
    "recoverySetID \<Rightarrow> bool \<Rightarrow> volume list \<Rightarrow> (parity_proc, parity_state) process_step" where
  "parity_step dSetID retain vols p st =
     (case p of
        ParityTask t \<Rightarrow>
          let v = vols ! pt_vi t; first = vo_refs v ! pt_pi t; last = vo_refs v ! (pt_end t - 1);
              len = pr_offset last + pr_length last - pr_offset first;
              go = (\<lambda>buf. Inr (Some (ParityPackets (pt_vi t) (pt_pi t) (pt_end t) buf (pr_offset first)), st))
          in if \<not> retain then go []
             else if len < 0 then Inl slice_panic
             else (case the (vo_r v) (pr_offset first) (nat len) of
                 Inl e \<Rightarrow> Inr (None, set_vol_err (pt_vi t) e st)
               | Inr buf \<Rightarrow> go buf)
      | ParityPackets vi pi fin buf first \<Rightarrow>
          if pi < fin then
            (let v = vols ! vi; ref = vo_refs v ! pi; next = ParityPackets vi (pi + 1) fin buf first
             in case read_ref dSetID retain (the (vo_r v)) ref buf first of
                 Inl (Panic m) \<Rightarrow> Inl (Panic m)
               | Inl e \<Rightarrow> Inr (Some next, set_vol_err vi e st)
               | Inr (setID, typ, body, dataLen) \<Rightarrow>
                   if ps_errs st ! vi \<noteq> None then Inr (Some next, st)
                   else (case handle_packet dSetID retain vi pi (vo_path v) setID typ body (pr_offset ref) dataLen st of
                       (st', None) \<Rightarrow> Inr (Some next, st')
                     | (st', Some e) \<Rightarrow> Inr (Some next, set_vol_err vi e st')))
          else Inr (None, st))"

section \<open>loadParityData\<close>

text \<open>\<open>recoveryDelegate\<close> forwards two of the calls.\<close>

definition recoveryDelegate :: "delegate_event \<Rightarrow> decoder_event list" where
  "recoveryDelegate e = (case e of
       OnRecoveryPacketLoad _ _ \<Rightarrow> [OnPacket e]
     | OnUnknownPacketLoad _ _ \<Rightarrow> [OnPacket e]
     | _ \<Rightarrow> [])"

definition main_mismatch :: "decoder \<Rightarrow> mainPacket \<Rightarrow> go_error option" where
  "main_mismatch d mp =
     (if int (d_sliceByteCount d) \<noteq> mp_sliceByteCount mp then Some (ErrorNew ''slice byte count mismatch'')
      else if decoderInputFileInfoIDs (d_recoverySet d) \<noteq> mp_recoverySet mp then Some (ErrorNew ''recovery set mismatch'')
      else if decoderInputFileInfoIDs (d_nonRecoverySet d) \<noteq> mp_nonRecoverySet mp
        then Some (ErrorNew ''non-recovery set mismatch'')
      else None)"

definition volume_err :: "decoder \<Rightarrow> parity_state \<Rightarrow> nat \<Rightarrow> go_error option" where
  "volume_err d st i = (case ps_errs st ! i of
       Some e \<Rightarrow> Some e
     | None \<Rightarrow> if ps_found st ! i then (case ps_main st ! i of None \<Rightarrow> None | Some mp \<Rightarrow> main_mismatch d mp) else None)"

fun report_volumes :: "decoder \<Rightarrow> parity_state \<Rightarrow> volume list \<Rightarrow> nat \<Rightarrow> decoder_event list \<times> go_error option" where
  "report_volumes d st [] i = ([], None)"
| "report_volumes d st (v # vs) i =
     (let err = volume_err d st i; e = OnParityFileLoad (i + 1) (vo_path v) err
      in if err \<noteq> None then ([e], err)
         else case report_volumes d st vs (Suc i) of (es, r) \<Rightarrow> (e # es, r))"

definition loadParityData ::
    "nat list \<Rightarrow> ('fs, 'w) fileIO \<Rightarrow> 'fs \<Rightarrow> bool \<Rightarrow> decoder \<Rightarrow> (decoder_event list \<times> decoder res) res option" where
  "loadParityData sched io fs retain d =
     (let ext = path_Ext (d_indexPath d);
          base = take (length (d_indexPath d) - length ext) (d_indexPath d)
      in case io_FindWithPrefixAndSuffix io fs (base @ [dot]) ext of
           Inl e \<Rightarrow> Some (Inr ([], Inl e))
         | Inr matches \<Rightarrow> (case open_volumes io fs matches of
             None \<Rightarrow> None
           | Some vols \<Rightarrow>
               let n = length vols;
                   st = \<lparr> ps_errs = map snd vols, ps_events = [], ps_present = [], ps_locations = [],
                     ps_found = replicate n False, ps_main = replicate n None \<rparr>
               in map_option (\<lambda>r. bindR r (\<lambda>c.
                    let st' = pl_shared c;
                        events = concat (map (\<lambda>(vi, pi, e). recoveryDelegate e) (sort_key (\<lambda>(vi, pi, e). (vi, pi)) (ps_events st')));
                        (reports, err) = report_volumes d st' (map fst vols) 0
                    in Inr (events @ reports, case err of
                         Some e \<Rightarrow> Inl e
                       | None \<Rightarrow> Inr (d\<lparr> d_parityPresent := ps_present st', d_parityLocations := ps_locations st' \<rparr>))))
                  (pool_run ParityTask (parity_step (d_setID d) retain (map fst vols)) sched
                    (pool_init (nat (max (d_numGoroutines d) 1)) (parity_tasks vols) st))))"

definition LoadParityData ::
    "nat list \<Rightarrow> ('fs, 'w) fileIO \<Rightarrow> 'fs \<Rightarrow> decoder \<Rightarrow> (decoder_event list \<times> decoder res) res option" where
  "LoadParityData sched io fs d = loadParityData sched io fs True d"

definition LoadParityPresence ::
    "nat list \<Rightarrow> ('fs, 'w) fileIO \<Rightarrow> 'fs \<Rightarrow> decoder \<Rightarrow> (decoder_event list \<times> decoder res) res option" where
  "LoadParityPresence sched io fs d = loadParityData sched io fs False d"

end
