(* ===== verification/FileRoundtrip.thy ===== *)
theory FileRoundtrip
  imports PacketFile
begin

text \<open>
  What \<open>writeFile\<close> writes is what \<open>readFile\<close> reads: one lemma per stage of the writer, each saying
  that the bytes of the stage are a stream of well-formed packets and what reading that stream does
  to the reader's state.
\<close>

section \<open>What one write appends\<close>

lemma writeNextPacket_InrD:
  assumes "writeNextPacket buf s t body = Inr out" and "length out < 2 ^ 63"
  shows "out = buf @ packet_bytes s t body" and "body_ok body"
proof -
  from assms(1) have ok: "header_ok (packet_header s t body)" and out: "out = buf @ packet_bytes s t body"
    by (auto simp: writeNextPacket_eq bindR_Inr_iff)
  show "out = buf @ packet_bytes s t body" by (rule out)
  have len: "64 + length body < 2 ^ 63" using assms(2) out by simp
  have "unat (64 + of_nat (length body) :: u64) = unat (of_nat (64 + length body) :: u64)" by simp
  also have "\<dots> = 64 + length body"
    unfolding unat_of_nat by (rule mod_less) (use len in simp)
  finally have u: "unat (64 + of_nat (length body) :: u64) = 64 + length body" .
  have "(64 + of_nat (length body) :: u64) mod 4 = 0"
    using ok by (simp add: header_ok_iff)
  then have "unat ((64 + of_nat (length body) :: u64) mod 4) = 0" by simp
  then have "(64 + length body) mod 4 = 0"
    unfolding unat_mod u by simp
  then show "body_ok body" using len by presburger
qed

text \<open>
  \<open>appends buf out st st'\<close>: \<open>out\<close> is \<open>buf\<close> followed by well-formed packets, and reading these packets
  in state \<open>st\<close> succeeds and leads to \<open>st'\<close>.
\<close>

definition appends :: "byte list \<Rightarrow> byte list \<Rightarrow> rstate \<Rightarrow> rstate \<Rightarrow> bool" where
  "appends buf out st st' \<longleftrightarrow> (\<exists>ps. out = buf @ stream ps \<and> (\<forall>p \<in> set ps. packet_ok p) \<and>
     run_packets ps st = (st', None))"

lemma appends_refl [simp]: "appends buf buf st st"
  unfolding appends_def by (rule exI [of _ "[]"]) simp

lemma appends_trans:
  assumes "appends a b st st'" and "appends b c st' st''"
  shows "appends a c st st''"
proof -
  from assms obtain ps qs where "b = a @ stream ps" "\<forall>p \<in> set ps. packet_ok p"
    "run_packets ps st = (st', None)" "c = b @ stream qs" "\<forall>p \<in> set qs. packet_ok p"
    "run_packets qs st' = (st'', None)"
    by (auto simp: appends_def)
  then show ?thesis
    unfolding appends_def by (intro exI [of _ "ps @ qs"]) (auto simp: run_packets_append)
qed

lemma appends_length: "appends a b st st' \<Longrightarrow> length a \<le> length b"
  by (auto simp: appends_def)

lemma appends_packet:
  assumes "writeNextPacket buf s t body = Inr out" and "length out < 2 ^ 63"
    and "readFile_packet (s, t, body) st = (st', None)"
  shows "appends buf out st st'"
  unfolding appends_def
  using writeNextPacket_InrD [OF assms(1,2)] assms(3)
  by (intro exI [of _ "[(s, t, body)]"]) simp

text \<open>A loop of writes: the invariant relates the reader's state to the elements written so far.\<close>

lemma appends_foldR:
  assumes "foldR f xs buf = Inr out" and "length out < 2 ^ 63" and "I [] st"
    and "\<And>done x rest b b' st. xs = done @ x # rest \<Longrightarrow> I done st \<Longrightarrow> f x b = Inr b' \<Longrightarrow>
      length b' < 2 ^ 63 \<Longrightarrow> \<exists>st'. appends b b' st st' \<and> I (done @ [x]) st'"
    and "\<And>x b b'. f x b = Inr b' \<Longrightarrow> length b \<le> length b'"
  shows "\<exists>st'. appends buf out st st' \<and> I xs st'"
  using assms
proof (induction xs arbitrary: out rule: rev_induct)
  case Nil
  then have "appends buf out st st \<and> I [] st" by simp
  then show ?case by (rule exI)
next
  case (snoc x xs)
  from snoc.prems(1) obtain mid where mid: "foldR f xs buf = Inr mid" "f x mid = Inr out"
    by (auto simp: foldR_append bindR_Inr_iff)
  have "length mid < 2 ^ 63" using snoc.prems(2) snoc.prems(5) [OF mid(2)] by simp
  from snoc.IH [OF mid(1) this snoc.prems(3)]
  obtain st' where st': "appends buf mid st st'" "I xs st'"
  proof (rule exE)
    fix dn y rst b b' s
    assume "xs = dn @ y # rst" and a: "I dn s" "f y b = Inr b'" "length b' < 2 ^ 63"
    then have "xs @ [x] = dn @ y # (rst @ [x])" by simp
    then show "\<exists>s'. appends b b' s s' \<and> I (dn @ [y]) s'"
      using a by (rule snoc.prems(4))
  next
    fix y b b' assume "f y b = Inr b'"
    then show "length b \<le> length b'" by (rule snoc.prems(5))
  qed blast
  from snoc.prems(4) [OF _ st'(2) mid(2) snoc.prems(2)] obtain st''
    where "appends mid out st' st''" "I (xs @ [x]) st''" by auto
  then show ?case using appends_trans [OF st'(1)] by blast
qed

section \<open>Reading the packets of the current set\<close>

lemma packet_types_distinct [simp]:
  "mainPacketType \<noteq> creatorPacketType" "fileDescriptionPacketType \<noteq> creatorPacketType"
  "fileDescriptionPacketType \<noteq> mainPacketType" "ifscPacketType \<noteq> creatorPacketType"
  "ifscPacketType \<noteq> mainPacketType" "ifscPacketType \<noteq> fileDescriptionPacketType"
  "recoveryPacketType \<noteq> creatorPacketType" "recoveryPacketType \<noteq> mainPacketType"
  "recoveryPacketType \<noteq> fileDescriptionPacketType" "recoveryPacketType \<noteq> ifscPacketType"
  unfolding arr_eq_iff by code_simp+

definition known_types :: "packetType list" where
  "known_types = [creatorPacketType, mainPacketType, fileDescriptionPacketType, ifscPacketType,
     recoveryPacketType]"

definition current :: "recoverySetID \<Rightarrow> rstate \<Rightarrow> bool" where
  "current s st \<longleftrightarrow> r_setID st = Some s \<and> r_foundPacket st"

lemma readFile_packet_current:
  "current s st \<Longrightarrow> readFile_packet (s, t, b) st = load_packet t b st"
  by (cases st) (simp add: current_def readFile_packet_def)

lemma writeNextPacket_length:
  "writeNextPacket buf s t b = Inr out \<Longrightarrow> length buf \<le> length out"
  by (auto simp: writeNextPacket_eq bindR_Inr_iff)

lemma write_file_packets_length:
  "write_file_packets f s i b = Inr b' \<Longrightarrow> length b \<le> length b'"
  by (auto simp: write_file_packets_def bindR_Inr_iff split: option.splits
      dest!: writeNextPacket_length)

lemma write_recovery_packet_length:
  "write_recovery_packet f s i b = Inr b' \<Longrightarrow> length b \<le> length b'"
  by (auto simp: write_recovery_packet_def bindR_Inr_iff dest!: writeNextPacket_length)

lemma write_unknown_packets_length:
  assumes "write_unknown_packets f s t b = Inr b'"
  shows "length b \<le> length b'"
  by (rule foldR_invariant [OF assms [unfolded write_unknown_packets_def], of "\<lambda>x. length b \<le> length x"])
    (auto dest!: writeNextPacket_length)

section \<open>The stages of the writer\<close>

text \<open>File description and checksum packets, one pair per identifier.\<close>

definition files_loaded :: "par2file \<Rightarrow> fileID set \<Rightarrow> delegate_event list \<Rightarrow> rstate \<Rightarrow> rstate" where
  "files_loaded f I evs st = st\<lparr>
     r_fileDescriptionPackets := (\<lambda>i. if i \<in> I then f_fileDescriptionPackets f i else r_fileDescriptionPackets st i),
     r_ifscPackets := (\<lambda>i. if i \<in> I then f_ifscPackets f i else r_ifscPackets st i), r_events := evs \<rparr>"

lemma current_files_loaded [simp]: "current s (files_loaded f I evs st) = current s st"
  by (simp add: current_def files_loaded_def)

lemma write_file_packets_appends:
  assumes "write_file_packets f s i buf = Inr out" and len: "length out < 2 ^ 63" and cur: "current s st"
    and ok: "\<And>p. f_fileDescriptionPackets f i = Some p \<Longrightarrow> fd_ok p"
  shows "\<exists>evs'. appends buf out (files_loaded f I evs st) (files_loaded f (insert i I) evs' st)"
proof -
  from assms(1) obtain fd b1 mid ic b2 where fd: "f_fileDescriptionPackets f i = Some fd"
    and b1: "writeFileDescriptionPacket i fd = Inr b1"
    and mid: "writeNextPacket buf s fileDescriptionPacketType (padPacketBytes b1) = Inr mid"
    and ic: "f_ifscPackets f i = Some ic" and b2: "writeIFSCPacket i ic = Inr b2"
    and out: "writeNextPacket mid s ifscPacketType (padPacketBytes b2) = Inr out"
    by (auto simp: write_file_packets_def bindR_Inr_iff split: option.splits)
  have mlen: "length mid < 2 ^ 63" using writeNextPacket_length [OF out] len by simp
  have r1: "readFileDescriptionPacket (padPacketBytes b1) = Inr (i, fd)"
    using fd_codec.rd_wr [of "(i, fd)" b1] b1 ok [OF fd] by simp
  have r2: "readIFSCPacket (padPacketBytes b2) = Inr (i, ic)"
    using ifsc_codec.rd_wr [of "(i, ic)" b2] b2 by simp
  let ?st0 = "files_loaded f I evs st"
  let ?e1 = "OnFileDescriptionPacketLoad i (fd_filename fd) (fd_byteCount fd)"
  let ?st1 = "(emit ?e1 ?st0)\<lparr> r_fileDescriptionPackets := (r_fileDescriptionPackets ?st0)(i \<mapsto> fd) \<rparr>"
  let ?st2 = "(emit (OnIFSCPacketLoad i) ?st1)\<lparr> r_ifscPackets := (r_ifscPackets ?st1)(i \<mapsto> ic) \<rparr>"
  have cur0: "current s ?st0" using cur by simp
  then have cur1: "current s ?st1" by (simp add: current_def emit_def)
  have "appends buf mid ?st0 ?st1"
    by (rule appends_packet [OF mid mlen]) (simp add: readFile_packet_current [OF cur0] load_packet_def r1)
  moreover have "appends mid out ?st1 ?st2"
    by (rule appends_packet [OF out len]) (simp add: readFile_packet_current [OF cur1] load_packet_def r2)
  ultimately have "appends buf out ?st0 ?st2" by (rule appends_trans)
  moreover have "?st2 = files_loaded f (insert i I) (evs @ [?e1, OnIFSCPacketLoad i]) st"
    by (simp add: files_loaded_def emit_def) (auto simp: fd ic fun_eq_iff)
  ultimately show ?thesis by auto
qed

lemma files_stage:
  assumes "foldR (write_file_packets f s) ids buf = Inr out" and "length out < 2 ^ 63" and "current s st"
    and "\<forall>i \<in> set ids. \<forall>p. f_fileDescriptionPackets f i = Some p \<longrightarrow> fd_ok p"
  shows "\<exists>evs. appends buf out st (files_loaded f (set ids) evs st)"
proof -
  let ?I = "\<lambda>done st'. \<exists>evs. st' = files_loaded f (set done) evs st"
  have "\<exists>st'. appends buf out st st' \<and> ?I ids st'"
  proof (rule appends_foldR [OF assms(1,2)])
    have "st = files_loaded f (set []) (r_events st) st" by (simp add: files_loaded_def)
    then show "?I [] st" by blast
  next
    fix dn x rst b b' st'
    assume "ids = dn @ x # rst" "?I dn st'" and w: "write_file_packets f s x b = Inr b'" "length b' < 2 ^ 63"
    then obtain evs where "st' = files_loaded f (set dn) evs st" "x \<in> set ids" by auto
    moreover from this(2) obtain evs' where
      "appends b b' (files_loaded f (set dn) evs st) (files_loaded f (insert x (set dn)) evs' st)"
      using write_file_packets_appends [OF w assms(3)] assms(4) by blast
    ultimately show "\<exists>st''. appends b b' st' st'' \<and> ?I (dn @ [x]) st''" by auto
  qed (rule write_file_packets_length)
  then show ?thesis by blast
qed

text \<open>Recovery packets.\<close>

definition recovery_loaded :: "par2file \<Rightarrow> exponent set \<Rightarrow> delegate_event list \<Rightarrow> rstate \<Rightarrow> rstate" where
  "recovery_loaded f E evs st = st\<lparr>
     r_recoveryPackets := (\<lambda>e. if e \<in> E then f_recoveryPackets f e else r_recoveryPackets st e),
     r_events := evs \<rparr>"

lemma current_recovery_loaded [simp]: "current s (recovery_loaded f E evs st) = current s st"
  by (simp add: current_def recovery_loaded_def)

lemma recovery_stage:
  assumes "foldR (write_recovery_packet f s) es buf = Inr out" and "length out < 2 ^ 63"
    and cur: "current s st" and es: "\<forall>e \<in> set es. f_recoveryPackets f e \<noteq> None"
    and none: "r_recoveryPackets st = Map.empty"
  shows "\<exists>evs. appends buf out st (recovery_loaded f (set es) evs st)"
proof -
  let ?I = "\<lambda>done st'. \<exists>evs. st' = recovery_loaded f (set done) evs st"
  have "\<exists>st'. appends buf out st st' \<and> ?I es st'"
  proof (rule appends_foldR [OF assms(1,2)])
    have "st = recovery_loaded f (set []) (r_events st) st" by (simp add: recovery_loaded_def)
    then show "?I [] st" by blast
  next
    fix dn x rst b b' st'
    assume "es = dn @ x # rst" "?I dn st'" and w: "write_recovery_packet f s x b = Inr b'" "length b' < 2 ^ 63"
    then obtain evs where st': "st' = recovery_loaded f (set dn) evs st" and "x \<in> set es" by auto
    then obtain p where p: "f_recoveryPackets f x = Some p" using es by blast
    from w(1) obtain c where c: "writeRecoveryPacket x p = Inr c"
      and b': "writeNextPacket b s recoveryPacketType (padPacketBytes c) = Inr b'"
      by (auto simp: write_recovery_packet_def bindR_Inr_iff p)
    have r: "readRecoveryPacket (padPacketBytes c) = Inr (x, p)"
      using recovery_codec.rd_wr [of "(x, p)" c] c by simp
    have cur': "current s st'" using cur by (simp add: st')
    let ?e = "OnRecoveryPacketLoad x (length (rp_data p))"
    have "\<not> (case r_recoveryPackets (emit ?e st') x of Some q \<Rightarrow> q \<noteq> p | None \<Rightarrow> False)"
      by (simp add: st' recovery_loaded_def emit_def none p)
    then have "load_packet recoveryPacketType (padPacketBytes c) st' =
      ((emit ?e st')\<lparr> r_recoveryPackets := (r_recoveryPackets (emit ?e st'))(x \<mapsto> p) \<rparr>, None)"
      by (simp add: load_packet_def r Let_def)
    moreover have "(emit ?e st')\<lparr> r_recoveryPackets := (r_recoveryPackets (emit ?e st'))(x \<mapsto> p) \<rparr>
      = recovery_loaded f (set (dn @ [x])) (evs @ [?e]) st"
      by (simp add: st' recovery_loaded_def emit_def) (auto simp: p fun_eq_iff)
    ultimately have "appends b b' st' (recovery_loaded f (set (dn @ [x])) (evs @ [?e]) st)"
      by (intro appends_packet [OF b' w(2)]) (simp add: readFile_packet_current [OF cur'])
    then show "\<exists>st''. appends b b' st' st'' \<and> ?I (dn @ [x]) st''" by blast
  qed (rule write_recovery_packet_length)
  then show ?thesis by blast
qed

text \<open>Unknown packets, type by type.\<close>

definition unknown_loaded ::
    "par2file \<Rightarrow> packetType set \<Rightarrow> delegate_event list \<Rightarrow> rstate \<Rightarrow> rstate" where
  "unknown_loaded f T evs st = st\<lparr>
     r_unknownPackets := (\<lambda>t. if t \<in> T then f_unknownPackets f t else r_unknownPackets st t),
     r_events := evs \<rparr>"

lemma unknown_type_appends:
  assumes "write_unknown_packets f s t buf = Inr out" and "length out < 2 ^ 63" and cur: "current s st"
    and bs: "f_unknownPackets f t = Some bs" "bs \<noteq> []" and t: "t \<notin> set known_types"
    and none: "r_unknownPackets st t = None"
  shows "\<exists>evs. appends buf out st
    (st\<lparr> r_unknownPackets := (r_unknownPackets st)(t \<mapsto> bs), r_events := evs \<rparr>)"
proof -
  let ?um = "\<lambda>dn. if dn = [] then r_unknownPackets st else (r_unknownPackets st)(t \<mapsto> dn)"
  let ?I = "\<lambda>dn st'. \<exists>evs. st' = st\<lparr> r_unknownPackets := ?um dn, r_events := evs \<rparr>"
  have w: "foldR (\<lambda>b buf1. writeNextPacket buf1 s t b) bs buf = Inr out"
    using assms(1) bs(1) by (simp add: write_unknown_packets_def)
  have "\<exists>st'. appends buf out st st' \<and> ?I bs st'"
  proof (rule appends_foldR [OF w assms(2)])
    have "st = st\<lparr> r_unknownPackets := ?um [], r_events := r_events st \<rparr>" by simp
    then show "?I [] st" by blast
  next
    fix dn x rst b b' st'
    assume "?I dn st'" and w: "writeNextPacket b s t x = Inr b'" "length b' < 2 ^ 63"
    then obtain evs where st': "st' = st\<lparr> r_unknownPackets := ?um dn, r_events := evs \<rparr>" by blast
    have cur': "current s st'" using cur by (simp add: st' current_def)
    let ?e = "OnUnknownPacketLoad t (length x)"
    have "load_packet t x st' = (st\<lparr> r_unknownPackets := ?um (dn @ [x]), r_events := evs @ [?e] \<rparr>, None)"
      using t none by (simp add: load_packet_def known_types_def st' emit_def)
    then have "appends b b' st' (st\<lparr> r_unknownPackets := ?um (dn @ [x]), r_events := evs @ [?e] \<rparr>)"
      by (intro appends_packet [OF w]) (simp add: readFile_packet_current [OF cur'])
    then show "\<exists>st''. appends b b' st' st'' \<and> ?I (dn @ [x]) st''" by blast
  qed (rule writeNextPacket_length)
  then show ?thesis using bs(2) by auto
qed

lemma unknown_stage:
  assumes "foldR (write_unknown_packets f s) order buf = Inr out" and "length out < 2 ^ 63"
    and cur: "current s st" and dist: "distinct order"
    and ok: "\<forall>t \<in> set order. t \<notin> set known_types \<and> (\<exists>bs. f_unknownPackets f t = Some bs \<and> bs \<noteq> [])"
    and none: "r_unknownPackets st = Map.empty"
  shows "\<exists>evs. appends buf out st (unknown_loaded f (set order) evs st)"
proof -
  let ?I = "\<lambda>done st'. \<exists>evs. st' = unknown_loaded f (set done) evs st"
  have "\<exists>st'. appends buf out st st' \<and> ?I order st'"
  proof (rule appends_foldR [OF assms(1,2)])
    have "st = unknown_loaded f (set []) (r_events st) st" by (simp add: unknown_loaded_def)
    then show "?I [] st" by blast
  next
    fix dn x rst b b' st'
    assume o: "order = dn @ x # rst" and "?I dn st'"
      and w: "write_unknown_packets f s x b = Inr b'" "length b' < 2 ^ 63"
    then obtain evs where st': "st' = unknown_loaded f (set dn) evs st" by blast
    from o dist have x: "x \<notin> set dn" "x \<in> set order" by auto
    with ok obtain bs where bs: "f_unknownPackets f x = Some bs" "bs \<noteq> []" and t: "x \<notin> set known_types"
      by blast
    have "current s st'" using cur by (simp add: st' unknown_loaded_def current_def)
    from unknown_type_appends [OF w this bs t]
    obtain evs' where a: "appends b b' st'
        (st'\<lparr> r_unknownPackets := (r_unknownPackets st')(x \<mapsto> bs), r_events := evs' \<rparr>)"
      using x none by (auto simp: st' unknown_loaded_def)
    have "st'\<lparr> r_unknownPackets := (r_unknownPackets st')(x \<mapsto> bs), r_events := evs' \<rparr>
        = unknown_loaded f (set (dn @ [x])) evs' st"
      by (simp add: st' unknown_loaded_def) (auto simp: bs fun_eq_iff)
    with a show "\<exists>st''. appends b b' st' st'' \<and> ?I (dn @ [x]) st''" by metis
  qed (rule write_unknown_packets_length)
  then show ?thesis by blast
qed

section \<open>The round trip\<close>

text \<open>
  A file as the code builds it: the client identifier has no NUL byte, the main packet names exactly
  the files with description and checksum packets, and the unknown packets are of unknown types.
\<close>

definition file_ok :: "par2file \<Rightarrow> bool" where
  "file_ok f \<longleftrightarrow> 0 \<notin> set (f_clientID f) \<and>
     (case f_mainPacket f of None \<Rightarrow> False | Some m \<Rightarrow> main_ok m \<and>
       dom (f_fileDescriptionPackets f) = set (mp_recoverySet m @ mp_nonRecoverySet m) \<and>
       dom (f_ifscPackets f) = set (mp_recoverySet m @ mp_nonRecoverySet m)) \<and>
     (\<forall>i p. f_fileDescriptionPackets f i = Some p \<longrightarrow> fd_ok p) \<and>
     (\<forall>t bs. f_unknownPackets f t = Some bs \<longrightarrow> t \<notin> set known_types \<and> bs \<noteq> [])"

lemma set_exponents_of: "set (exponents_of m) = dom m"
proof -
  have "e \<in> of_nat ` {0..<65536}" for e :: exponent
  proof (rule image_eqI [of _ _ "unat e"])
    have "unat e < 2 ^ LENGTH(16)" by (rule unsigned_less)
    then show "unat e \<in> {0..<65536}" by simp
  qed simp
  then show ?thesis by (auto simp: exponents_of_def)
qed

text \<open>The fields of the final state.\<close>

lemma empty_loaded: "dom g \<subseteq> D \<Longrightarrow> h = Map.empty \<Longrightarrow> (\<lambda>i. if i \<in> D then g i else h i) = g"
  by (rule ext) (metis domIff subsetD)

lemma loaded_fields:
  "r_fileDescriptionPackets st = Map.empty \<Longrightarrow> dom (f_fileDescriptionPackets f) \<subseteq> I \<Longrightarrow>
   r_fileDescriptionPackets (files_loaded f I evs st) = f_fileDescriptionPackets f"
  "r_ifscPackets st = Map.empty \<Longrightarrow> dom (f_ifscPackets f) \<subseteq> I \<Longrightarrow>
   r_ifscPackets (files_loaded f I evs st) = f_ifscPackets f"
  "r_recoveryPackets st = Map.empty \<Longrightarrow> dom (f_recoveryPackets f) \<subseteq> E \<Longrightarrow>
   r_recoveryPackets (recovery_loaded f E evs st) = f_recoveryPackets f"
  "r_unknownPackets st = Map.empty \<Longrightarrow> dom (f_unknownPackets f) \<subseteq> T \<Longrightarrow>
   r_unknownPackets (unknown_loaded f T evs st) = f_unknownPackets f"
  by (simp_all add: files_loaded_def recovery_loaded_def unknown_loaded_def empty_loaded)

lemma kept_fields [simp]:
  "r_setID (files_loaded f I evs st) = r_setID st" "r_setID (recovery_loaded f E evs st) = r_setID st"
  "r_setID (unknown_loaded f T evs st) = r_setID st"
  "r_foundPacket (files_loaded f I evs st) = r_foundPacket st"
  "r_foundPacket (recovery_loaded f E evs st) = r_foundPacket st"
  "r_foundPacket (unknown_loaded f T evs st) = r_foundPacket st"
  "r_clientID (files_loaded f I evs st) = r_clientID st"
  "r_clientID (recovery_loaded f E evs st) = r_clientID st"
  "r_clientID (unknown_loaded f T evs st) = r_clientID st"
  "r_mainPacket (files_loaded f I evs st) = r_mainPacket st"
  "r_mainPacket (recovery_loaded f E evs st) = r_mainPacket st"
  "r_mainPacket (unknown_loaded f T evs st) = r_mainPacket st"
  "r_recoveryPackets (files_loaded f I evs st) = r_recoveryPackets st"
  "r_unknownPackets (files_loaded f I evs st) = r_unknownPackets st"
  "r_unknownPackets (recovery_loaded f E evs st) = r_unknownPackets st"
  "r_fileDescriptionPackets (recovery_loaded f E evs st) = r_fileDescriptionPackets st"
  "r_fileDescriptionPackets (unknown_loaded f T evs st) = r_fileDescriptionPackets st"
  "r_ifscPackets (recovery_loaded f E evs st) = r_ifscPackets st"
  "r_ifscPackets (unknown_loaded f T evs st) = r_ifscPackets st"
  "r_recoveryPackets (unknown_loaded f T evs st) = r_recoveryPackets st"
  by (simp_all add: files_loaded_def recovery_loaded_def unknown_loaded_def)

lemma readFile_writeFile:
  assumes "writeFile order f = Inr (setID, bytes)" and "length bytes < 2 ^ 63" and "file_ok f"
    and "distinct order" and "set order = dom (f_unknownPackets f)"
    and "expected = None \<or> expected = Some setID"
  shows "snd (readFile expected bytes) = Inr (setID, f)"
proof -
  from assms(1) obtain m mb cb b1 b2 b3 b4 where m: "f_mainPacket f = Some m"
    and mb: "writeMainPacket m = Inr mb" and s: "setID = md5 (padPacketBytes mb)"
    and cb: "writeCreatorPacket (f_clientID f) = Inr cb"
    and b1: "writeNextPacket [] setID creatorPacketType (padPacketBytes cb) = Inr b1"
    and b2: "writeNextPacket b1 setID mainPacketType (padPacketBytes mb) = Inr b2"
    and b3: "foldR (write_file_packets f setID) (mp_recoverySet m @ mp_nonRecoverySet m) b2 = Inr b3"
    and b4: "foldR (write_recovery_packet f setID) (exponents_of (f_recoveryPackets f)) b3 = Inr b4"
    and b5: "foldR (write_unknown_packets f setID) order b4 = Inr bytes"
    by (auto simp: writeFile_def bindR_Inr_iff Let_def split: if_splits option.splits)
  let ?ids = "mp_recoverySet m @ mp_nonRecoverySet m"
  from assms(3) m have ok: "0 \<notin> set (f_clientID f)" "main_ok m"
    "dom (f_fileDescriptionPackets f) = set ?ids" "dom (f_ifscPackets f) = set ?ids"
    "\<forall>i p. f_fileDescriptionPackets f i = Some p \<longrightarrow> fd_ok p"
    "\<forall>t \<in> set order. t \<notin> set known_types \<and> (\<exists>bs. f_unknownPackets f t = Some bs \<and> bs \<noteq> [])"
    by (auto simp: file_ok_def assms(5))
  have mono: "length b2 \<le> length b3" "length b3 \<le> length b4" "length b4 \<le> length bytes"
    using foldR_invariant [OF b3, of "\<lambda>x. length b2 \<le> length x"]
      foldR_invariant [OF b4, of "\<lambda>x. length b3 \<le> length x"]
      foldR_invariant [OF b5, of "\<lambda>x. length b4 \<le> length x"]
      write_file_packets_length write_recovery_packet_length write_unknown_packets_length
    by (meson order_refl order_trans)+
  have len: "length b1 < 2 ^ 63" "length b2 < 2 ^ 63" "length b3 < 2 ^ 63" "length b4 < 2 ^ 63"
    using mono writeNextPacket_length [OF b2] assms(2) by simp_all
  let ?st0 = "rstate_init expected"
  define st1 where "st1 = rstate_init (Some setID)\<lparr> r_foundPacket := True, r_clientID := Some (f_clientID f),
    r_events := [OnCreatorPacketLoad (f_clientID f)] \<rparr>"
  define st2 where "st2 = emit (OnMainPacketLoad (mp_sliceByteCount m) (length (mp_recoverySet m))
    (length (mp_nonRecoverySet m))) (st1\<lparr> r_mainPacket := Some m \<rparr>)"
  have "readCreatorPacket (padPacketBytes cb) = f_clientID f"
    using creator_codec.rd_wr [OF ok(1) cb] by simp
  then have "readFile_packet (setID, creatorPacketType, padPacketBytes cb) ?st0 = (st1, None)"
    using assms(6) by (auto simp: readFile_packet_def load_packet_def st1_def rstate_init_def emit_def Let_def)
  then have a1: "appends [] b1 ?st0 st1" by (rule appends_packet [OF b1 len(1)])
  have c1: "current setID st1" by (simp add: st1_def current_def rstate_init_def)
  have "readFile_packet (setID, mainPacketType, padPacketBytes mb) st1 = (st2, None)"
    using main_codec.rd_wr [OF ok(2) mb]
    by (simp add: readFile_packet_current [OF c1] load_packet_def st2_def)
  then have a2: "appends b1 b2 st1 st2" by (rule appends_packet [OF b2 len(2)])
  have c2: "current setID st2" using c1 by (simp add: st2_def current_def emit_def)
  from files_stage [OF b3 len(3) c2] ok(5) obtain e3 where
    a3: "appends b2 b3 st2 (files_loaded f (set ?ids) e3 st2)" (is "appends _ _ _ ?st3") by blast
  have c3: "current setID ?st3" using c2 by simp
  have "r_recoveryPackets ?st3 = Map.empty" and u3: "r_unknownPackets ?st3 = Map.empty"
    by (simp_all add: files_loaded_def st2_def st1_def emit_def rstate_init_def)
  from recovery_stage [OF b4 len(4) c3 _ this(1)] obtain e4 where
    a4: "appends b3 b4 ?st3 (recovery_loaded f (set (exponents_of (f_recoveryPackets f))) e4 ?st3)"
      (is "appends _ _ _ ?st4") by (auto simp: set_exponents_of)
  have c4: "current setID ?st4" using c3 by simp
  have "r_unknownPackets ?st4 = Map.empty" using u3 by (simp add: recovery_loaded_def)
  from unknown_stage [OF b5 assms(2) c4 assms(4) ok(6) this] obtain e5 where
    a5: "appends b4 bytes ?st4 (unknown_loaded f (set order) e5 ?st4)" (is "appends _ _ _ ?st5") by blast
  have "appends [] bytes ?st0 ?st5"
    using appends_trans [OF appends_trans [OF appends_trans [OF appends_trans [OF a1 a2] a3] a4] a5] .
  then have run: "readFile_loop bytes ?st0 = (?st5, None)"
    by (auto simp: appends_def readFile_loop_stream)
  have st2: "r_setID st2 = Some setID" "r_foundPacket st2" "r_clientID st2 = Some (f_clientID f)"
    "r_mainPacket st2 = Some m" "r_fileDescriptionPackets st2 = Map.empty"
    "r_ifscPackets st2 = Map.empty" "r_recoveryPackets st2 = Map.empty" "r_unknownPackets st2 = Map.empty"
    by (simp_all add: st2_def st1_def emit_def rstate_init_def)
  have "readFile_result ?st5 = Inr (setID, f)"
    using ok(3,4) assms(5) by (simp add: readFile_result_def loaded_fields st2 set_exponents_of m)
  with run show ?thesis by (simp add: readFile_def)
qed

text \<open>
  C4: A written file reads back.  If \<open>writeFile\<close> succeeds on such a file, in whatever order it
  enumerates the unknown packets, then \<open>readFile\<close> on the bytes, with no expected set identifier or
  with the one returned, succeeds with that identifier and exactly that file: client, main packet,
  descriptions, checksums, recovery blocks and unknown packets.
\<close>

theorem file_roundtrip:
  assumes "writeFile order f = Inr (setID, bytes)" and "length bytes < 2 ^ 63" and "file_ok f"
    and "distinct order" and "set order = dom (f_unknownPackets f)"
    and "expected = None \<or> expected = Some setID"
  shows "snd (readFile expected bytes) = Inr (setID, f)"
  using assms by (rule readFile_writeFile)

text \<open>A small file: one input file, no recovery packets and one packet of an unknown type.\<close>

definition example_id :: fileID where
  "example_id = computeFileID zero_arr 3 (str ''ab'')"

definition example_file :: par2file where
  "example_file = \<lparr> f_clientID = str ''gopar'',
     f_mainPacket = Some \<lparr> mp_sliceByteCount = 4, mp_recoverySet = [example_id], mp_nonRecoverySet = [] \<rparr>,
     f_fileDescriptionPackets = [example_id \<mapsto> \<lparr> fd_hash = zero_arr, fd_sixteenKHash = zero_arr,
        fd_byteCount = 3, fd_filename = str ''ab'' \<rparr>],
     f_ifscPackets = [example_id \<mapsto> \<lparr> ip_checksumPairs = [\<lparr> cp_MD5 = zero_arr, cp_CRC32 = zero_arr \<rparr>] \<rparr>],
     f_recoveryPackets = Map.empty, f_unknownPackets = [zero_arr \<mapsto> [[1, 2, 3, 4]]] \<rparr>"

lemma zero_unknown: "zero_arr \<notin> set known_types"
  unfolding known_types_def by (simp add: arr_eq_iff) code_simp

lemma example_file_ok: "file_ok example_file"
proof -
  have "0 \<notin> set (str ''gopar'')" "0 \<notin> set (str ''ab'')" by code_simp+
  then show ?thesis
    using zero_unknown by (auto simp: file_ok_def example_file_def main_ok_def fd_ok_def)
qed

lemma example_file_written:
  "\<exists>setID bytes. writeFile [zero_arr] example_file = Inr (setID, bytes) \<and> length bytes < 2 ^ 63"
proof -
  have a: "checkFilename (str ''ab'') = Inr ()" by code_simp
  have e: "encodeASCIIString (str ''ab'') = Inr (str ''ab'')" "encodeASCIIString (str ''gopar'') = Inr (str ''gopar'')"
    by code_simp+
  have c: "checkFileIDSetsSorted [example_id] [] = Inr ()"
    by (subst checkFileIDSetsSorted_Inr) simp
  have x: "exponents_of Map.empty = []" by (simp add: exponents_of_def)
  show ?thesis
    by (simp add: writeFile_def example_file_def writeMainPacket_def c writeCreatorPacket_def e x Let_def
        write_file_packets_def writeFileDescriptionPacket_def a example_id_def [symmetric] writeIFSCPacket_def
        write_unknown_packets_def writeNextPacket_ok padPacketBytes_def
        del: encodeASCIIString_Inr_iff checkFileIDSetsSorted_Inr)
qed

theorem file_roundtrip_witness:
  "\<exists>setID bytes. writeFile [zero_arr] example_file = Inr (setID, bytes) \<and>
     snd (readFile None bytes) = Inr (setID, example_file)"
proof -
  obtain setID bytes where w: "writeFile [zero_arr] example_file = Inr (setID, bytes)" "length bytes < 2 ^ 63"
    using example_file_written by blast
  have "snd (readFile None bytes) = Inr (setID, example_file)"
    by (rule file_roundtrip [OF w example_file_ok]) (simp_all add: example_file_def)
  with w(1) show ?thesis by blast
qed

end
