(* ===== verification/Encoder.thy ===== *)
theory Encoder
  imports FileIO FileRoundtrip Scan Coder
begin

text \<open>
  Creation of a recovery set: the \<open>Encoder\<close> of \<open>par2/encoder.go\<close> and \<open>create\<close> of \<open>par2/create.go\<close>.
\<close>

section \<open>The encoder\<close>

record encoderInputFileInfo =
  ei_fileDescriptionPacket :: fileDescriptionPacket
  ei_ifscPacket :: ifscPacket
  ei_dataShards :: "byte list list"

record encoder =
  en_basePath :: gostring
  en_relFilePaths :: "gostring list"
  en_sliceByteCount :: int
  en_parityShardCount :: int
  en_numGoroutines :: int
  en_recoverySet :: "fileID list"
  en_recoverySetInfos :: "fileID \<rightharpoonup> encoderInputFileInfo"
  en_parityShards :: "byte list list"

text \<open>The calls of the \<open>EncoderDelegate\<close>, with the number of bytes and the error.\<close>

datatype encoder_event =
    OnInputFileLoad nat nat gostring nat "go_error option"
  | OnIndexFileWrite gostring nat "go_error option"
  | OnRecoveryFileWrite nat nat int gostring int nat "go_error option"

text \<open>One element of \<open>filePaths\<close>.\<close>

definition rel_file_path :: "gostring \<Rightarrow> gostring \<Rightarrow> gostring res" where
  "rel_file_path basePath p =
     (if \<not> path_IsAbs p then Inl (ErrorNew ''all elements of filePaths must be absolute'')
      else bindR (filepath_Rel basePath p) (\<lambda>relPath.
        bindR (index_at relPath 0) (\<lambda>c.
          if c = Filenames.dot then Inl (ErrorNew ''data files must lie in basePath'') else Inr relPath)))"

definition newEncoder :: "gostring \<Rightarrow> gostring list \<Rightarrow> int \<Rightarrow> int \<Rightarrow> int \<Rightarrow> encoder res" where
  "newEncoder basePath filePaths sliceByteCount parityShardCount numGoroutines =
     (if \<not> path_IsAbs basePath then Inl (ErrorNew ''basePath must be absolute'')
      else bindR (mapR (rel_file_path basePath) filePaths) (\<lambda>relFilePaths.
        if sliceByteCount = 0 \<or> sliceByteCount mod 4 \<noteq> 0 then Inl (ErrorNew ''invalid slice byte count'')
        else Inr \<lparr> en_basePath = basePath, en_relFilePaths = relFilePaths, en_sliceByteCount = sliceByteCount,
          en_parityShardCount = parityShardCount, en_numGoroutines = numGoroutines, en_recoverySet = [],
          en_recoverySetInfos = Map.empty, en_parityShards = [] \<rparr>))"

section \<open>LoadFileData and ComputeParityData\<close>

text \<open>
  \<open>computeDataFileInfo\<close> for the slice size of an encoder, which may be negative: then the first slice
  expression panics, and a file without data has no slices.
\<close>

definition data_file_info ::
    "int \<Rightarrow> gostring \<Rightarrow> byte list \<Rightarrow> (fileID \<times> fileDescriptionPacket \<times> ifscPacket \<times> byte list list) res option" where
  "data_file_info n filename data =
     (if n < 0 \<and> data \<noteq> [] then Some (Inl slice_panic)
      else computeDataFileInfo (if n < 0 then 1 else nat n) filename data)"

text \<open>The loop over the files, with the loop index.\<close>

fun load_data_files ::
    "('fs, 'w) fileIO \<Rightarrow> 'fs \<Rightarrow> encoder \<Rightarrow> nat \<Rightarrow> gostring list \<Rightarrow> fileID list \<Rightarrow> (fileID \<rightharpoonup> encoderInputFileInfo) \<Rightarrow>
     (encoder_event list \<times> (fileID list \<times> (fileID \<rightharpoonup> encoderInputFileInfo)) res) option" where
  "load_data_files io fs en i [] recoverySet infos = Some ([], Inr (recoverySet, infos))"
| "load_data_files io fs en i (relPath # relPaths) recoverySet infos =
     (let p = filepath_Join (en_basePath en) relPath; n = length (en_relFilePaths en) in
      case io_ReadFile io fs p of
        Inl e \<Rightarrow> Some ([OnInputFileLoad (i + 1) n p 0 (Some e)], Inl e)
      | Inr data \<Rightarrow> (case data_file_info (en_sliceByteCount en) relPath data of
          None \<Rightarrow> None
        | Some (Inl e) \<Rightarrow> Some ([OnInputFileLoad (i + 1) n p (length data) None], Inl e)
        | Some (Inr (fid, fd, ifsc, shards)) \<Rightarrow>
            map_option (\<lambda>(events, r). (OnInputFileLoad (i + 1) n p (length data) None # events, r))
              (load_data_files io fs en (Suc i) relPaths (recoverySet @ [fid])
                (infos(fid \<mapsto> \<lparr> ei_fileDescriptionPacket = fd, ei_ifscPacket = ifsc, ei_dataShards = shards \<rparr>)))))"

text \<open>\<open>sort.Slice\<close> by \<open>fileIDLess\<close>, the order of the type.\<close>

definition Encoder_LoadFileData ::
    "('fs, 'w) fileIO \<Rightarrow> 'fs \<Rightarrow> encoder \<Rightarrow> (encoder_event list \<times> encoder res) option" where
  "Encoder_LoadFileData io fs en =
     map_option (\<lambda>(events, r). (events, bindR r (\<lambda>(recoverySet, infos).
         Inr (en\<lparr> en_recoverySet := sort recoverySet, en_recoverySetInfos := infos \<rparr>))))
       (load_data_files io fs en 0 (en_relFilePaths en) [] Map.empty)"

text \<open>A file identifier without a record has the zero record, without shards.\<close>

definition encoder_data_shards :: "encoder \<Rightarrow> byte list list" where
  "encoder_data_shards en = concat (map (\<lambda>i. case en_recoverySetInfos en i of
     None \<Rightarrow> [] | Some info \<Rightarrow> ei_dataShards info) (en_recoverySet en))"

definition ComputeParityData :: "env \<Rightarrow> encoder \<Rightarrow> encoder res" where
  "ComputeParityData e en = (let dataShards = encoder_data_shards en in
     bindR (NewCoderPAR2Vandermonde (int (length dataShards)) (en_parityShardCount en) (en_numGoroutines en)) (\<lambda>coder.
     bindR (GenerateParity e coder dataShards) (\<lambda>parityShards.
       Inr (en\<lparr> en_parityShards := parityShards \<rparr>))))"

section \<open>Write\<close>

definition clientID :: gostring where
  "clientID = str ''gopar''"

text \<open>The decimal digits of a number, and \<open>%02d\<close>.\<close>

fun decimal :: "nat \<Rightarrow> gostring" where
  "decimal n = (if n < 10 then [of_nat (48 + n)] else decimal (n div 10) @ [of_nat (48 + n mod 10)])"

declare decimal.simps [simp del]

definition decimal2 :: "nat \<Rightarrow> gostring" where
  "decimal2 n = (let ds = decimal n in replicate (2 - length ds) 48 @ ds)"

definition volume_name :: "gostring \<Rightarrow> nat \<Rightarrow> nat \<Rightarrow> gostring" where
  "volume_name base i volumeCount =
     base @ str ''.vol'' @ decimal2 i @ str ''+'' @ decimal2 volumeCount @ str ''.par2''"

definition parity_file :: "encoder \<Rightarrow> par2file" where
  "parity_file en = \<lparr> f_clientID = clientID,
     f_mainPacket = Some \<lparr> mp_sliceByteCount = en_sliceByteCount en, mp_recoverySet = en_recoverySet en,
       mp_nonRecoverySet = [] \<rparr>,
     f_fileDescriptionPackets = (\<lambda>i. map_option ei_fileDescriptionPacket (en_recoverySetInfos en i)),
     f_ifscPackets = (\<lambda>i. map_option ei_ifscPacket (en_recoverySetInfos en i)),
     f_recoveryPackets = Map.empty, f_unknownPackets = Map.empty \<rparr>"

text \<open>The recovery packets of the volume with the exponents from \<open>i\<close> to \<open>i + cnt - 1\<close>.\<close>

definition recovery_packets_from :: "encoder \<Rightarrow> nat \<Rightarrow> nat \<Rightarrow> (exponent \<rightharpoonup> recoveryPacket) res" where
  "recovery_packets_from en i cnt =
     foldR (\<lambda>j m. bindR (index_at (en_parityShards en) (i + j)) (\<lambda>s.
       Inr (m(of_nat (i + j) \<mapsto> \<lparr> rp_data = s \<rparr>)))) [0..<cnt] Map.empty"

text \<open>
  The loop that writes the volumes: the file system, the calls of the delegate, and the error that
  ends it.  It would not end for a volume count of 0, with which it is not entered.
\<close>

partial_function (option) write_volumes ::
    "('fs, 'w) fileIO \<Rightarrow> encoder \<Rightarrow> gostring \<Rightarrow> int \<Rightarrow> nat \<Rightarrow> nat \<Rightarrow> 'fs \<Rightarrow> encoder_event list \<Rightarrow>
     ('fs \<times> encoder_event list \<times> go_error option) option" where
  "write_volumes io en base parityFileLen i volumeCount fs events =
     (if int i < en_parityShardCount en then
        let cnt = (if int (i + volumeCount) > en_parityShardCount en
              then nat (en_parityShardCount en - int i) else volumeCount)
        in case bindR (recovery_packets_from en i cnt) (\<lambda>m. writeFile [] (parity_file en\<lparr> f_recoveryPackets := m \<rparr>)) of
            Inl e \<Rightarrow> Some (fs, events, Some e)
          | Inr (_, bytes) \<Rightarrow>
              let filename = volume_name base i cnt;
                  event = OnRecoveryFileWrite i cnt (en_parityShardCount en) filename (int (length bytes) - parityFileLen) (length bytes)
              in (case io_WriteFile io fs filename bytes of
                  Inl e \<Rightarrow> Some (fs, events @ [event (Some e)], Some e)
                | Inr fs' \<Rightarrow> write_volumes io en base parityFileLen (i + cnt) (cnt * 2) fs' (events @ [event None]))
      else Some (fs, events, None))"

definition Write ::
    "('fs, 'w) fileIO \<Rightarrow> 'fs \<Rightarrow> encoder \<Rightarrow> gostring \<Rightarrow> ('fs \<times> encoder_event list \<times> go_error option) option" where
  "Write io fs en indexPath =
     (case writeFile [] (parity_file en) of
        Inl e \<Rightarrow> Some (fs, [], Some e)
      | Inr (_, parityFileBytes) \<Rightarrow>
          let base = take (length indexPath - length (path_Ext indexPath)) indexPath;
              filename = base @ str ''.par2'';
              event = OnIndexFileWrite filename (length parityFileBytes)
          in (case io_WriteFile io fs filename parityFileBytes of
              Inl e \<Rightarrow> Some (fs, [event (Some e)], Some e)
            | Inr fs' \<Rightarrow> write_volumes io en base (int (length parityFileBytes)) 0 1 fs' [event None]))"

section \<open>create\<close>

definition checkExtension :: "gostring \<Rightarrow> unit res" where
  "checkExtension parPath =
     (if path_Ext parPath \<noteq> str ''.par2'' then Inl (ErrorNew ''parPath must have a .par2 extension'') else Inr ())"

record CreateOptions =
  SliceByteCount :: int
  NumParityShards :: int
  NumGoroutines :: int

definition SliceByteCountDefault :: int where
  "SliceByteCountDefault = 2000"

definition NumParityShardsDefault :: int where
  "NumParityShardsDefault = 3"

text \<open>
  \<open>create\<close>: the arguments that are not in the source are the environment of the coder, the number of
  goroutines the runtime suggests, and the working directory that \<open>filepath.Abs\<close> asks the system for.
\<close>

definition create ::
    "env \<Rightarrow> int \<Rightarrow> gostring \<Rightarrow> ('fs, 'w) fileIO \<Rightarrow> 'fs \<Rightarrow> gostring \<Rightarrow> gostring list \<Rightarrow> CreateOptions \<Rightarrow>
     ('fs \<times> encoder_event list \<times> go_error option) option" where
  "create e ncpu workingDir io fs parPath filePaths options =
     (case checkExtension parPath of
        Inl err \<Rightarrow> Some (fs, [], Some err)
      | Inr _ \<Rightarrow>
        if length filePaths = 0 then Some (fs, [], Some (ErrorNew ''filePaths must not be empty''))
        else
          let sliceByteCount = (if SliceByteCount options \<le> 0 then SliceByteCountDefault else SliceByteCount options);
              numParityShards = (if NumParityShards options \<le> 0 then NumParityShardsDefault else NumParityShards options);
              numGoroutines = (if NumGoroutines options \<le> 0 then ncpu else NumGoroutines options);
              basePath = filepath_Dir (filepath_Abs workingDir parPath)
          in (case newEncoder basePath (map (filepath_Abs workingDir) filePaths) sliceByteCount numParityShards numGoroutines of
              Inl err \<Rightarrow> Some (fs, [], Some err)
            | Inr en \<Rightarrow> (case Encoder_LoadFileData io fs en of
                None \<Rightarrow> None
              | Some (events, Inl err) \<Rightarrow> Some (fs, events, Some err)
              | Some (events, Inr en1) \<Rightarrow> (case ComputeParityData e en1 of
                  Inl err \<Rightarrow> Some (fs, events, Some err)
                | Inr en2 \<Rightarrow> map_option (\<lambda>(fs', events', err). (fs', events @ events', err)) (Write io fs en2 parPath)))))"

end
