(* ===== verification/Repair.thy ===== *)
theory Repair
  imports Reconstruction WrittenCheck ParityLoad Encoder
begin

text \<open>
  Repair (\<open>Repair\<close> and what it calls of \<open>par2/decoder.go\<close>, and \<open>par2/repair.go\<close>): files that are not as they
  should be are rewritten through positional writers, survivors copied and reconstructed ranges streamed
  in; they are committed, checked, and the recovery blocks compared on demand.  A panic ends the program.
\<close>

section \<open>Writers\<close>

record 'w openFile =
  of_w :: 'w
  of_written :: "nat list"
  of_cloned :: bool

text \<open>
  The close function without commit, whose error the code drops.  What a writer leaves behind when it is
  discarded does not depend on what was written to it, so that it is passed as it was opened.
\<close>

definition discard :: "('fs, 'w) fileIO \<Rightarrow> 'w \<Rightarrow> 'fs \<Rightarrow> 'fs" where
  "discard io w fs = (case io_close io False w fs of Inl e \<Rightarrow> fs | Inr fs' \<Rightarrow> fs')"

definition closeAll :: "('fs, 'w) fileIO \<Rightarrow> 'w openFile option list \<Rightarrow> 'fs \<Rightarrow> 'fs" where
  "closeAll io writers fs = fold (\<lambda>f fs. case f of None \<Rightarrow> fs | Some f \<Rightarrow> discard io (of_w f) fs) writers fs"

definition writeShardRange :: "('fs, 'w) fileIO \<Rightarrow> 'w \<Rightarrow> nat \<Rightarrow> byte list \<Rightarrow> int \<Rightarrow> 'w res" where
  "writeShardRange io w fileOff data byteCount =
     (if int fileOff \<ge> byteCount then Inr w
      else let n = (if int (fileOff + length data) > byteCount then nat (byteCount - int fileOff) else length data) in
        if n = 0 then Inr w
        else bindR (io_WriteAt io w (take n data) (int fileOff)) (\<lambda>(_, w'). Inr w'))"

section \<open>Survivors\<close>

definition was_ok :: "decoder \<Rightarrow> nat \<Rightarrow> bool" where
  "was_ok d i = file_integrity_ok (d_sliceByteCount d) (d_fileIntegrityInfos d ! i)"

text \<open>\<open>shardBase[i]\<close>: the global row of the first shard of file \<open>i\<close>.\<close>

definition shard_base :: "decoder \<Rightarrow> nat \<Rightarrow> nat" where
  "shard_base d i = sum_list (map (\<lambda>info. length (fi_shardInfos info)) (take i (d_fileIntegrityInfos d)))"

definition will_rewrite :: "decoder \<Rightarrow> fileID list" where
  "will_rewrite d = map (\<lambda>i. fi_fileID (d_fileIntegrityInfos d ! i))
     (filter (\<lambda>i. \<not> was_ok d i) [0..<length (d_fileIntegrityInfos d)])"

definition preserve_shard ::
    "('fs, 'w) fileIO \<Rightarrow> 'fs \<Rightarrow> decoder \<Rightarrow> nat \<Rightarrow> nat \<Rightarrow> (nat \<rightharpoonup> byte list) \<Rightarrow> (nat \<rightharpoonup> byte list) res" where
  "preserve_shard io fs d i j preserved =
     (let info = d_fileIntegrityInfos d ! i; si = fi_shardInfos info ! j; k = shard_base d i + j in
      if preserved k \<noteq> None \<or> \<not> si_present si \<or> sl_fileID (si_foundAt si) = fi_fileID info \<or>
        sl_fileID (si_foundAt si) \<notin> set (will_rewrite d) then Inr preserved
      else bindR (readRange io fs d si 0 (d_sliceByteCount d)) (\<lambda>buf. Inr (preserved(k \<mapsto> buf))))"

definition preserveShardsBeforeOverwrite ::
    "('fs, 'w) fileIO \<Rightarrow> 'fs \<Rightarrow> decoder \<Rightarrow> (nat \<rightharpoonup> byte list) res" where
  "preserveShardsBeforeOverwrite io fs d =
     foldR (\<lambda>i. if was_ok d i then Inr
         else foldR (preserve_shard io fs d i) [0..<length (fi_shardInfos (d_fileIntegrityInfos d ! i))])
       [0..<length (d_fileIntegrityInfos d)] Map.empty"

text \<open>Opening file \<open>i\<close>: a clone of the damaged file where that can be had.\<close>

definition open_rewrite :: "('fs, 'w) fileIO \<Rightarrow> 'fs \<Rightarrow> decoder \<Rightarrow> nat \<Rightarrow> ('w \<times> bool) res" where
  "open_rewrite io fs d i =
     (let info = d_recoverySet d ! i; path = getFilePath d info; sz = di_byteCount info;
          create = bindR (io_OpenWrite io fs path sz) (\<lambda>w. Inr (w, False))
      in case (if fi_missing (d_fileIntegrityInfos d ! i) then None else io_OpenPatch io) of
           None \<Rightarrow> create
         | Some patch \<Rightarrow> (case patch fs path sz of
             Inr w \<Rightarrow> Inr (w, True)
           | Inl (Panic m) \<Rightarrow> Inl (Panic m)
           | Inl e \<Rightarrow> create))"

definition copy_shard ::
    "('fs, 'w) fileIO \<Rightarrow> 'fs \<Rightarrow> decoder \<Rightarrow> (nat \<rightharpoonup> byte list) \<Rightarrow> nat \<Rightarrow> bool \<Rightarrow> nat \<Rightarrow> 'w \<times> nat list \<Rightarrow> ('w \<times> nat list) res" where
  "copy_shard io fs d preserved i cloned j = (\<lambda>(w, written).
     let info = d_fileIntegrityInfos d ! i; si = fi_shardInfos info ! j; n = d_sliceByteCount d;
         canonical = \<lparr> sl_fileID = fi_fileID info, sl_start = j * n \<rparr>; kept = preserved (shard_base d i + j)
     in if \<not> si_present si then Inr (w, written)
        else if cloned \<and> kept = None \<and> si_foundAt si = canonical then Inr (w, written)
        else bindR (case kept of Some shard \<Rightarrow> Inr (go_copy (replicate n 0) shard)
                    | None \<Rightarrow> readRange io fs d si 0 n) (\<lambda>buf.
          bindR (writeShardRange io w (j * n) buf (di_byteCount (d_recoverySet d ! i))) (\<lambda>w'.
          Inr (w', if cloned then written @ [j] else written))))"

text \<open>The registered writer or the error, and the file system after a discard.\<close>

definition copySurvivingShards ::
    "('fs, 'w) fileIO \<Rightarrow> 'fs \<Rightarrow> decoder \<Rightarrow> (nat \<rightharpoonup> byte list) \<Rightarrow> nat \<Rightarrow> 'fs \<Rightarrow> 'w openFile res \<times> 'fs" where
  "copySurvivingShards io fs0 d preserved i fs =
     (case open_rewrite io fs0 d i of
        Inl e \<Rightarrow> (Inl e, fs)
      | Inr (w, cloned) \<Rightarrow>
          (case foldR (copy_shard io fs0 d preserved i cloned)
              [0..<length (fi_shardInfos (d_fileIntegrityInfos d ! i))] (w, []) of
             Inl e \<Rightarrow> (Inl e, discard io w fs)
           | Inr (w', written) \<Rightarrow> (Inr \<lparr> of_w = w', of_written = written, of_cloned = cloned \<rparr>, fs)))"

text \<open>All files that need it, in an order the scheduler chooses.\<close>

definition copy_files ::
    "('fs, 'w) fileIO \<Rightarrow> 'fs \<Rightarrow> decoder \<Rightarrow> (nat \<rightharpoonup> byte list) \<Rightarrow> nat list \<Rightarrow>
     ('w openFile option list \<times> go_error option list \<times> 'fs) res" where
  "copy_files io fs0 d preserved ord =
     foldR (\<lambda>i (writers, errs, fs). if was_ok d i then Inr (writers, errs, fs)
         else case copySurvivingShards io fs0 d preserved i fs of
           (Inl (Panic m), _) \<Rightarrow> Inl (Panic m)
         | (Inl e, fs') \<Rightarrow> Inr (writers, errs[i := Some e], fs')
         | (Inr f, fs') \<Rightarrow> Inr (writers[i := Some f], errs, fs'))
       ord (replicate (length (d_recoverySet d)) None, replicate (length (d_recoverySet d)) None, fs0)"

section \<open>The sink of the reconstruction\<close>

definition rowToFile :: "decoder \<Rightarrow> nat \<rightharpoonup> nat" where
  "rowToFile d = fold (\<lambda>i m. if was_ok d i then m
       else fold (\<lambda>j m. if si_present (fi_shardInfos (d_fileIntegrityInfos d ! i) ! j) then m
           else m(shard_base d i + j \<mapsto> i)) [0..<length (fi_shardInfos (d_fileIntegrityInfos d ! i))] m)
     [0..<length (d_fileIntegrityInfos d)] Map.empty"

definition output_groups :: "decoder \<Rightarrow> nat list \<Rightarrow> nat list list res" where
  "output_groups d rows = foldR (\<lambda>(j, row) groups. case rowToFile d row of
       None \<Rightarrow> Inl (ErrorNew ''reconstructed a shard no file was waiting for'')
     | Some i \<Rightarrow> Inr (groups[i := groups ! i @ [j]])) (enumerate 0 rows) (replicate (length (d_recoverySet d)) [])"

text \<open>Complete slices that are consecutive in the file and in the bank share a write of at most a megabyte.\<close>

function group_end :: "nat list \<Rightarrow> nat list \<Rightarrow> nat \<Rightarrow> nat \<Rightarrow> nat \<Rightarrow> nat" where
  "group_end rows outs pos limit fin =
     (if fin < length outs \<and> fin - pos < limit \<and> outs ! fin = outs ! pos + fin - pos \<and>
         rows ! (outs ! fin) = rows ! (outs ! pos) + fin - pos
      then group_end rows outs pos limit (fin + 1) else fin)"
  by pat_completeness auto
termination by (relation "measure (\<lambda>(rows, outs, pos, limit, fin). length outs - fin)") auto

declare group_end.simps [simp del]

lemma group_end_ge: "fin \<le> group_end rows outs pos limit fin"
proof (induction rows outs pos limit fin rule: group_end.induct)
  case (1 rows outs pos limit fin)
  then show ?case by (subst group_end.simps) (auto intro: le_trans [of fin "fin + 1"])
qed

record write_job =
  wj_rows :: "nat list"
  wj_off :: nat
  wj_rangeSize :: nat
  wj_data :: "byte list"

definition write_end :: "decoder \<Rightarrow> write_job \<Rightarrow> nat list \<Rightarrow> nat \<Rightarrow> nat" where
  "write_end d job outs pos =
     (if wj_off job = 0 \<and> wj_rangeSize job = d_sliceByteCount d
      then group_end (wj_rows job) outs pos (max 1 (2 ^ 20 div wj_rangeSize job)) (pos + 1) else pos + 1)"

lemma write_end_gt: "pos < write_end d job outs pos"
  using group_end_ge [of "pos + 1"] by (auto simp: write_end_def Suc_le_eq)

function write_group ::
    "('fs, 'w) fileIO \<Rightarrow> decoder \<Rightarrow> write_job \<Rightarrow> nat \<Rightarrow> nat list \<Rightarrow> nat \<Rightarrow> 'w openFile \<Rightarrow> 'w openFile res" where
  "write_group io d job i outs pos f =
     (if pos < length outs
      then let j = outs ! pos; row = wj_rows job ! j; fin = write_end d job outs pos;
          base = shard_base d i; fileOff = (row - base) * d_sliceByteCount d + wj_off job;
          f1 = (if wj_off job = 0 \<and> of_cloned f
            then f\<lparr> of_written := of_written f @ map (\<lambda>q. wj_rows job ! (outs ! q) - base) [pos..<fin] \<rparr> else f)
        in bindR (slice_at (wj_data job) (j * wj_rangeSize job) ((j + fin - pos) * wj_rangeSize job)) (\<lambda>batch.
           bindR (writeShardRange io (of_w f1) fileOff batch (di_byteCount (d_recoverySet d ! i))) (\<lambda>w.
           write_group io d job i outs fin (f1\<lparr> of_w := w \<rparr>)))
      else Inr f)"
  by pat_completeness auto
termination
  by (relation "measure (\<lambda>(io, d, job, i, outs, pos, f). length outs - pos)")
    (auto intro!: diff_less_mono2 write_end_gt)

declare write_group.simps [simp del]

text \<open>The jobs of one range: every file with a outs tries; the first error in file order is returned.\<close>

definition write_jobs ::
    "('fs, 'w) fileIO \<Rightarrow> decoder \<Rightarrow> write_job \<Rightarrow> nat list list \<Rightarrow> 'w openFile option list \<Rightarrow> 'w openFile option list res" where
  "write_jobs io d job groups writers =
     bindR (foldR (\<lambda>i (writers, errs). if length (groups ! i) = 0 then Inr (writers, errs)
         else case writers ! i of
           None \<Rightarrow> Inl (Panic ''nil pointer dereference'')
         | Some f \<Rightarrow> (case write_group io d job i (groups ! i) 0 f of
             Inl (Panic m) \<Rightarrow> Inl (Panic m)
           | Inl e \<Rightarrow> Inr (writers, errs[i := Some e])
           | Inr f' \<Rightarrow> Inr (writers[i := Some f'], errs)))
       [0..<length groups] (writers, replicate (length writers) None)) (\<lambda>(writers', errs).
     bindR (first_error errs) (\<lambda>_. Inr writers'))"

type_synonym 'w sink_state = "'w openFile option list \<times> nat list list option"

definition repair_sink ::
    "('fs, 'w) fileIO \<Rightarrow> decoder \<Rightarrow> nat list \<Rightarrow> nat \<Rightarrow> nat \<Rightarrow> byte list \<Rightarrow> 'w sink_state \<Rightarrow> 'w sink_state res" where
  "repair_sink io d rows off rangeSize data = (\<lambda>(writers, outputGroups).
     bindR (case outputGroups of Some groups \<Rightarrow> Inr groups | None \<Rightarrow> output_groups d rows) (\<lambda>groups.
     bindR (write_jobs io d \<lparr> wj_rows = rows, wj_off = off, wj_rangeSize = rangeSize, wj_data = data \<rparr> groups writers) (\<lambda>writers'.
     Inr (writers', Some groups))))"

section \<open>verifyParity\<close>

definition compare_blocks ::
    "('fs, 'w) fileIO \<Rightarrow> 'fs \<Rightarrow> decoder \<Rightarrow> nat \<Rightarrow> nat \<Rightarrow> byte list list \<Rightarrow> nat list \<Rightarrow> unit res" where
  "compare_blocks io fs d off n out parityRows = foldR (\<lambda>(i, row) _.
     bindR (index_at (d_parityLocations d) row) (\<lambda>loc.
     if pl_path loc = [] \<or> int off \<ge> pl_length loc then Inr ()
     else let fin = (if int (off + n) > pl_length loc then nat (pl_length loc) else off + n) in
       bindR (readAbs io fs (pl_path loc) (pl_offset loc + int off) (fin - off)) (\<lambda>stored.
       bindR (index_at out i) (\<lambda>o_i. bindR (slice_at o_i 0 (fin - off)) (\<lambda>part.
       check (part = stored) (ErrorNew ''repair failed'')))))) (enumerate 0 parityRows) ()"

definition verify_range ::
    "env \<Rightarrow> ('fs, 'w) fileIO \<Rightarrow> 'fs \<Rightarrow> decoder \<Rightarrow> matrix \<Rightarrow> nat list \<Rightarrow> nat \<Rightarrow> nat \<Rightarrow> unit res" where
  "verify_range e io fs d P parityRows chunk off =
     (let n = (if off + chunk > d_sliceByteCount d then d_sliceByteCount d - off else chunk); shards = decoder_shards d in
      bindR (FoldInputs e P (length shards) n (\<lambda>j dst. bindR (index_at shards j) (\<lambda>si. readRange io fs d si off (length dst)))
        (replicate (length parityRows) (replicate n 0)) (d_numGoroutines d)) (\<lambda>out.
      compare_blocks io fs d off n out parityRows))"

definition verifyParity :: "env \<Rightarrow> int \<Rightarrow> ('fs, 'w) fileIO \<Rightarrow> 'fs \<Rightarrow> decoder \<Rightarrow> unit res" where
  "verifyParity e phys io fs d =
     (let parityRows = filter (\<lambda>i. d_parityPresent d ! i) [0..<length (d_parityPresent d)] in
      if length parityRows = 0 then Inr ()
      else bindR (NewCoderPAR2VandermondeRows (int (length (decoder_shards d))) (map int parityRows) (d_numGoroutines d)) (\<lambda>coder.
        let chunk = nat (chunkSizeFor e phys (d_memoryBudget d) (int (d_sliceByteCount d)) (int (length parityRows))) in
        foldR (\<lambda>off _. verify_range e io fs d (parityMatrix coder) parityRows chunk off)
          (strided (d_sliceByteCount d) chunk) ()))"

section \<open>Repair\<close>

text \<open>
  What a call leaves behind: the calls of the delegate, the repaired paths, the error, the file system and
  the decoder.
\<close>

record 'fs repair_outcome =
  ro_events :: "decoder_event list"
  ro_paths :: "gostring list"
  ro_err :: "go_error option"
  ro_fs :: 'fs
  ro_decoder :: decoder

definition failed_repair :: "go_error \<Rightarrow> 'fs \<Rightarrow> decoder \<Rightarrow> 'fs repair_outcome res" where
  "failed_repair e fs d = (case e of Panic m \<Rightarrow> Inl (Panic m)
     | _ \<Rightarrow> Inr \<lparr> ro_events = [], ro_paths = [], ro_err = Some e, ro_fs = fs, ro_decoder = d \<rparr>)"

text \<open>The commits, in an order the scheduler chooses.\<close>

definition commit_files ::
    "('fs, 'w) fileIO \<Rightarrow> 'w openFile option list \<Rightarrow> nat list \<Rightarrow> 'fs \<Rightarrow> ('fs \<times> go_error option list) res" where
  "commit_files io writers ord fs = foldR (\<lambda>i (fs, errs). case writers ! i of
       None \<Rightarrow> Inr (fs, errs)
     | Some f \<Rightarrow> (case io_close io True (of_w f) fs of
         Inl (Panic m) \<Rightarrow> Inl (Panic m)
       | Inl e \<Rightarrow> Inr (fs, errs[i := Some e])
       | Inr fs' \<Rightarrow> Inr (fs', errs))) ord (fs, replicate (length writers) None)"

text \<open>The record of a file that is whole again: every shard sits at its canonical offset.\<close>

definition whole_file :: "nat \<Rightarrow> fileIntegrityInfo \<Rightarrow> fileIntegrityInfo" where
  "whole_file n info = info\<lparr> fi_missing := False, fi_hashMismatch := False, fi_hasWrongByteCount := False,
     fi_shardInfos := map (\<lambda>j. let loc = \<lparr> sl_fileID = fi_fileID info, sl_start = j * n \<rparr> in
         \<lparr> si_present = True, si_foundAt = loc, si_locations = [loc] \<rparr>) [0..<length (fi_shardInfos info)] \<rparr>"

text \<open>The results in file order; the first error ends them.\<close>

fun report_written ::
    "'w openFile option list \<Rightarrow> go_error option list \<Rightarrow> nat list \<Rightarrow> decoder \<Rightarrow>
     decoder_event list \<times> gostring list \<times> go_error option \<times> decoder" where
  "report_written writers errs [] d = ([], [], None, d)"
| "report_written writers errs (i # is) d =
     (if writers ! i = None then report_written writers errs is d
      else let info = d_recoverySet d ! i; path = getFilePath d info;
          event = OnDataFileWrite (i + 1) (length (d_recoverySet d)) path (di_byteCount info) (errs ! i)
        in case errs ! i of
             Some e \<Rightarrow> ([event], [], Some e, d)
           | None \<Rightarrow>
               (case report_written writers errs is (d\<lparr> d_fileIntegrityInfos := (d_fileIntegrityInfos d)
                   [i := whole_file (d_sliceByteCount d) (d_fileIntegrityInfos d ! i)] \<rparr>) of
                  (events, paths, e, d') \<Rightarrow> (event # events, path # paths, e, d')))"

text \<open>What is checked of a committed file: the slices that were written, or everything.\<close>

definition check_rows :: "bool \<Rightarrow> 'w openFile option \<Rightarrow> nat list option" where
  "check_rows checkParity f = (case f of None \<Rightarrow> None
     | Some f \<Rightarrow> if of_cloned f \<and> \<not> checkParity \<and> of_written f \<noteq> [] then Some (of_written f) else None)"

definition check_paths :: "decoder \<Rightarrow> 'w openFile option list \<Rightarrow> gostring list" where
  "check_paths d writers = map (\<lambda>i. if writers ! i = None then [] else getFilePath d (d_recoverySet d ! i))
     [0..<length (d_recoverySet d)]"

definition after_commit ::
    "env \<Rightarrow> int \<Rightarrow> nat list \<Rightarrow> nat list \<Rightarrow> ('fs, 'w) fileIO \<Rightarrow> 'fs \<Rightarrow> bool \<Rightarrow> 'w openFile option list \<Rightarrow> decoder \<Rightarrow>
     'fs repair_outcome res option" where
  "after_commit e phys wsched ssched io fs checkParity writers d =
     map_option (\<lambda>r. bindR r (\<lambda>errs.
       let (events, paths, err, d') = report_written writers errs [0..<length (d_recoverySet d)] d;
           result = \<lparr> ro_events = events, ro_paths = paths, ro_err = err, ro_fs = fs, ro_decoder = d' \<rparr>
       in if err \<noteq> None \<or> \<not> checkParity then Inr result
          else case verifyParity e phys io fs d' of
            Inl (Panic m) \<Rightarrow> Inl (Panic m)
          | Inl er \<Rightarrow> Inr (result\<lparr> ro_err := Some er \<rparr>)
          | Inr _ \<Rightarrow> Inr result))
     (checkWrittenFiles wsched ssched io fs d (check_paths d writers) (map (check_rows checkParity) writers))"

text \<open>The schedulers of the phases.\<close>

record repair_schedule =
  rs_fold :: fold_schedule
  rs_copy :: "nat list \<Rightarrow> nat list"
  rs_commit :: "nat list \<Rightarrow> nat list"
  rs_windows :: "nat list"
  rs_slices :: "nat list"

definition Repair ::
    "env \<Rightarrow> repair_schedule \<Rightarrow> int \<Rightarrow> ('fs, 'w) fileIO \<Rightarrow> 'fs \<Rightarrow> decoder \<Rightarrow> bool \<Rightarrow> 'fs repair_outcome res option" where
  "Repair e sch phys io fs d checkParity =
     (let files = [0..<length (d_recoverySet d)] in
      case preserveShardsBeforeOverwrite io fs d of
        Inl er \<Rightarrow> Some (failed_repair er fs d)
      | Inr preserved \<Rightarrow>
     (case copy_files io fs d preserved (rs_copy sch files) of
        Inl er \<Rightarrow> Some (failed_repair er fs d)
      | Inr (writers0, copyErrs, fs1) \<Rightarrow>
     (case first_error copyErrs of
        Inl er \<Rightarrow> Some (failed_repair er (closeAll io writers0 fs1) d)
      | Inr _ \<Rightarrow>
     (case reconstructTo e (rs_fold sch) phys io fs d preserved (repair_sink io d) (writers0, None) of
        Inl er \<Rightarrow> Some (failed_repair er (closeAll io writers0 fs1) d)
      | Inr (_, writers, _) \<Rightarrow>
     (case commit_files io writers (rs_commit sch files) fs1 of
        Inl er \<Rightarrow> Some (failed_repair er fs1 d)
      | Inr (fs2, commitErrs) \<Rightarrow>
     (case first_error commitErrs of
        Inl er \<Rightarrow> Some (failed_repair er fs2 d)
      | Inr _ \<Rightarrow> after_commit e phys (rs_windows sch) (rs_slices sch) io fs2 checkParity writers d))))))"

section \<open>repair\<close>

record RepairOptions =
  rpo_DoubleCheck :: bool
  rpo_NumGoroutines :: int
  rpo_FindMisalignedData :: bool
  rpo_MisalignedSearchLimit :: int
  rpo_MemoryBudget :: int

record 'fs repair_run =
  rr_opened :: "delegate_event list"
  rr_scanned :: "decoder_event list"
  rr_loaded :: "decoder_event list"
  rr_written :: "decoder_event list"
  rr_paths :: "gostring list"
  rr_err :: "go_error option"
  rr_fs :: 'fs

text \<open>
  \<open>repair\<close>: as in \<open>verify\<close> the scan and the load of the recovery volumes, which only read, run one after the
  other; a panic is on the left, None is an index loop that does not end.
\<close>

definition stop_run :: "delegate_event list \<Rightarrow> decoder_event list \<Rightarrow> decoder_event list \<Rightarrow> 'fs \<Rightarrow> go_error \<Rightarrow> 'fs repair_run res" where
  "stop_run opened scanned loaded fs e = (case e of Panic m \<Rightarrow> Inl (Panic m)
     | _ \<Rightarrow> Inr \<lparr> rr_opened = opened, rr_scanned = scanned, rr_loaded = loaded, rr_written = [], rr_paths = [],
         rr_err = Some e, rr_fs = fs \<rparr>)"

definition repair ::
    "env \<Rightarrow> int \<Rightarrow> int \<Rightarrow> nat list \<Rightarrow> nat list \<Rightarrow> repair_schedule \<Rightarrow> (nat \<rightharpoonup> crc32Window) \<Rightarrow> ('fs, 'w) fileIO \<Rightarrow> 'fs \<Rightarrow>
     gostring \<Rightarrow> RepairOptions \<Rightarrow> 'fs repair_run res option" where
  "repair e phys ncpu sched psched rsched windows io fs parPath options =
     (case checkExtension parPath of
        Inl er \<Rightarrow> Some (stop_run [] [] [] fs er)
      | Inr _ \<Rightarrow>
        let numGoroutines = (if rpo_NumGoroutines options \<le> 0 then ncpu else rpo_NumGoroutines options);
            policy = \<lparr> findMisaligned = rpo_FindMisalignedData options, searchLimit = rpo_MisalignedSearchLimit options \<rparr>
        in case newDecoder io fs parPath numGoroutines policy (rpo_MemoryBudget options) of
            (opened, Inl er) \<Rightarrow> Some (stop_run opened [] [] fs er)
          | (opened, Inr d) \<Rightarrow>
              (case LoadFileData sched io fs windows d of
                 None \<Rightarrow> None
               | Some (Inl er) \<Rightarrow> Some (stop_run opened [] [] fs er)
               | Some (Inr (scanned, windows', scan)) \<Rightarrow>
                   (case LoadParityData psched io fs d of
                      None \<Rightarrow> None
                    | Some (Inl er) \<Rightarrow> Some (stop_run opened scanned [] fs er)
                    | Some (Inr (loaded, parity)) \<Rightarrow>
                        (case bindR scan (\<lambda>d1. bindR parity (\<lambda>d2. Inr (d1\<lparr> d_parityPresent := d_parityPresent d2,
                            d_parityLocations := d_parityLocations d2 \<rparr>))) of
                           Inl er \<Rightarrow> Some (stop_run opened scanned loaded fs er)
                         | Inr d' \<Rightarrow> map_option (\<lambda>r. bindR r (\<lambda>out.
                             Inr \<lparr> rr_opened = opened, rr_scanned = scanned, rr_loaded = loaded, rr_written = ro_events out,
                               rr_paths = ro_paths out, rr_err = ro_err out, rr_fs = ro_fs out \<rparr>))
                             (Repair e rsched phys io fs d' (rpo_DoubleCheck options))))))"

definition RepairErrorMeansRepairNecessaryButNotPossible :: "go_error \<Rightarrow> bool" where
  "RepairErrorMeansRepairNecessaryButNotPossible err \<longleftrightarrow> err = NotEnoughParityShardsError"

end
