(* ===== verification/WindowScanCorrect.thy ===== *)
theory WindowScanCorrect
  imports WindowScan
begin

text \<open>
  What the windowed scan finds, under every schedule: all slices at slice boundaries of all files, no
  matter which worker gets which window and how their steps interleave.  The pool's locale
  \<open>pool_work\<close> is interpreted on the scan, with the matches at slice boundaries as the work.
\<close>

section \<open>What a scan does not touch\<close>

definition fi_flags :: "fileIntegrityInfo \<Rightarrow> bool \<times> bool \<times> bool" where
  "fi_flags fi = (fi_missing fi, fi_hashMismatch fi, fi_hasWrongByteCount fi)"

lemma record_match_flags:
  assumes "record_match env loc f infos = Inr infos'"
  shows "map fi_flags infos' = map fi_flags infos"
proof -
  from assms obtain k x where "infos' = infos[k := (infos ! k)\<lparr> fi_shardInfos := x \<rparr>]"
    by (auto simp: record_match_def Let_def bindR_Inr_iff index_at_def split: if_splits)
  moreover have "fi_flags ((infos ! k)\<lparr> fi_shardInfos := x \<rparr>) = fi_flags (infos ! k)"
    by (simp add: fi_flags_def)
  ultimately show ?thesis
    by (cases "k < length infos") (simp_all add: map_update list_update_beyond list_update_same_conv)
qed

lemma scan_crc_keeps:
  assumes "scan_crc env sl st = Inr st1"
  shows "s_infos st1 = s_infos st \<and> s_j st1 = s_j st \<and> s_slideStart st1 = s_slideStart st \<and> s_justMissed st1 = s_justMissed st"
  using assms by (auto simp: scan_crc_def bindR_Inr_iff split: if_splits)

lemma scan_step_flags:
  assumes "scan_step env st = Inr st'"
  shows "map fi_flags (s_infos st') = map fi_flags (s_infos st)"
proof -
  from assms obtain sl st1 where crc: "scan_crc env sl st = Inr st1"
    and st': "(let found = map_get (e_checksumToLocation env) (s_crcSlice st1) sl
       in if found = [] then Inr (scan_miss env st1) else scan_hit env found st1) = Inr st'"
    by (auto simp: scan_step_def bindR_Inr_iff)
  have k: "s_infos st1 = s_infos st" using scan_crc_keeps [OF crc] by simp
  show ?thesis
  proof (cases "map_get (e_checksumToLocation env) (s_crcSlice st1) sl = []")
    case True
    then have "s_infos st' = s_infos st1" using st' by (auto simp: scan_miss_def Let_def)
    then show ?thesis by (simp add: k)
  next
    case False
    then obtain loc infos' where r: "foldR (record_match env loc) (map_get (e_checksumToLocation env) (s_crcSlice st1) sl) (s_infos st1) = Inr infos'"
      and i: "s_infos st' = infos'" using st' by (auto simp: scan_hit_def Let_def bindR_Inr_iff)
    have "map fi_flags infos' = map fi_flags (s_infos st1)"
      by (rule foldR_invariant [OF r, where P = "\<lambda>x. map fi_flags x = map fi_flags (s_infos st1)"])
        (simp_all add: record_match_flags)
    then show ?thesis by (simp add: i k)
  qed
qed

section \<open>The work of a scan\<close>

datatype scan_fact = FoundAt nat nat shardLocation | Head nat

text \<open>The scan, what it reads, and what the sources hold.\<close>

record scan_setup =
  su_config :: scan_config
  su_sources :: "windowSource option list"
  su_files :: "byte list option list"
  su_flags :: "(bool \<times> bool \<times> bool) list"

definition source_holds :: "windowSource option \<Rightarrow> byte list option \<Rightarrow> bool" where
  "source_holds src f = (case (src, f) of
       (None, None) \<Rightarrow> True
     | (Some s, Some d) \<Rightarrow> ws_size s = int (length d) \<and> reader_over (ws_r s) d
     | _ \<Rightarrow> False)"

definition setup_ok :: "scan_setup \<Rightarrow> bool" where
  "setup_ok su \<longleftrightarrow> (let d = su_config su in
     distinct (map di_fileID (cf_recoverySet d)) \<and> 4 \<le> cf_sliceByteCount d \<and>
     \<not> findMisaligned (cf_policy d) \<and>
     cf_checksumToLocation d = makeChecksumShardLocationMap (cf_sliceByteCount d) (cf_recoverySet d) \<and>
     cf_fileIDIndices d = file_id_indices (cf_recoverySet d)) \<and>
   list_all2 source_holds (su_sources su) (su_files su)"

abbreviation su_slice :: "scan_setup \<Rightarrow> nat" where
  "su_slice su \<equiv> cf_sliceByteCount (su_config su)"

abbreviation su_set :: "scan_setup \<Rightarrow> decoderInputFileInfo list" where
  "su_set su \<equiv> cf_recoverySet (su_config su)"

definition window_data :: "scan_setup \<Rightarrow> window_task \<Rightarrow> byte list" where
  "window_data su t = (case su_files su ! wt_i t of None \<Rightarrow> [] | Some f \<Rightarrow> take (wt_n t) (drop (wt_off t) f))"

text \<open>A window lies in its file, starts at a slice boundary, and ends at one or at the end of the file.\<close>

definition task_ok :: "scan_setup \<Rightarrow> window_task \<Rightarrow> bool" where
  "task_ok su t \<longleftrightarrow> wt_i t < length (su_sources su) \<and> 0 < wt_n t \<and> su_slice su dvd wt_off t \<and>
     (\<exists>f. su_files su ! wt_i t = Some f \<and> wt_off t + wt_n t \<le> length f \<and>
       (su_slice su dvd wt_n t \<or> wt_off t + wt_n t = length f) \<and>
       (16 * 1024 \<le> wt_n t \<or> wt_off t + wt_n t = length f))"

definition found_in :: "scan_setup \<Rightarrow> scan_env \<Rightarrow> nat \<Rightarrow> scan_fact set" where
  "found_in su env j = {FoundAt k i (loc_at env (j + q * e_sliceByteCount env)) | k i q.
     k < length (su_set su) \<and> i < length (di_checksumPairs (su_set su ! k)) \<and>
     j + q * e_sliceByteCount env < e_limit env \<and> matches_at (su_set su) env k i (j + q * e_sliceByteCount env)}"

definition task_work :: "scan_setup \<Rightarrow> window_task \<Rightarrow> scan_fact set" where
  "task_work su t = found_in su (window_env (su_config su) (wt_i t) (wt_off t) (window_data su t)) 0 \<union>
     (if wt_off t = 0 then {Head (wt_i t)} else {})"

definition scan_todo :: "scan_setup \<Rightarrow> window_scan window_proc \<Rightarrow> scan_fact set" where
  "scan_todo su p = (case p of
       Fetch t \<Rightarrow> task_work su t
     | Body i (ScanBegin _ off buf) \<Rightarrow> task_work su \<lparr> wt_i = i, wt_off = off, wt_n = length buf \<rparr>
     | Body i (ScanLoop _ env st) \<Rightarrow> found_in su env (s_j st))"

definition heads_ok :: "scan_setup \<Rightarrow> scanCounts list \<Rightarrow> nat set" where
  "heads_ok su counts = {i. i < length (su_sources su) \<and>
     (\<exists>f. su_files su ! i = Some f \<and> sc_sixteenK (counts ! i) = sixteenKHash f)}"

definition scan_got :: "scan_setup \<Rightarrow> go_error option list \<times> scan_shared \<Rightarrow> scan_fact set" where
  "scan_got su s = {FoundAt k i l | k i l. k < length (su_set su) \<and> i < length (di_checksumPairs (su_set su ! k)) \<and>
       l \<in> recorded (ss_infos (snd s)) k i} \<union> Head ` heads_ok su (ss_counts (snd s))"

definition scan_J :: "scan_setup \<Rightarrow> go_error option list \<times> scan_shared \<Rightarrow> bool" where
  "scan_J su s \<longleftrightarrow> setup_ok su \<and> fst s = replicate (length (su_sources su)) None \<and>
     infos_ok (su_set su) (ss_infos (snd s)) \<and> windows_ok (ss_windows (snd s)) \<and>
     map fi_flags (ss_infos (snd s)) = su_flags su \<and> length (ss_counts (snd s)) = length (su_sources su)"

definition scan_P :: "scan_setup \<Rightarrow> window_scan window_proc \<Rightarrow> bool" where
  "scan_P su p = (case p of
       Fetch t \<Rightarrow> task_ok su t
     | Body i (ScanBegin i' off buf) \<Rightarrow> i' = i \<and> (let t = \<lparr> wt_i = i, wt_off = off, wt_n = length buf \<rparr> in
         task_ok su t \<and> buf = window_data su t)
     | Body i (ScanLoop i' env st) \<Rightarrow> i' = i \<and> i < length (su_sources su) \<and> (\<exists>off buf. env = window_env (su_config su) i off buf) \<and>
         roll_ok env st)"

fun scan_size :: "window_scan window_proc \<Rightarrow> nat" where
  "scan_size (Fetch t) = wt_n t + 3"
| "scan_size (Body i (ScanBegin i' off buf)) = length buf + 2"
| "scan_size (Body i (ScanLoop i' env st)) = e_limit env - s_j st + 1"

lemma window_env_sel [simp]:
  "e_sliceByteCount (window_env d i off buf) = cf_sliceByteCount d"
  "e_data (window_env d i off buf) = buf"
  "e_limit (window_env d i off buf) = length buf"
  "e_baseOffset (window_env d i off buf) = off"
  "e_fileID (window_env d i off buf) = di_fileID (cf_recoverySet d ! i)"
  "e_policy (window_env d i off buf) = cf_policy d"
  by (simp_all add: window_env_def)

lemma window_env_ok: "setup_ok su \<Longrightarrow> env_ok_scan (su_set su) (window_env (su_config su) i off buf)"
  by (simp add: setup_ok_def env_ok_scan_def window_env_def Let_def)

lemma roll_ok_shared:
  "roll_ok env st \<Longrightarrow> windows_ok w \<Longrightarrow> roll_ok env (st\<lparr> s_infos := x, s_windows := w \<rparr>)"
  by (simp add: roll_ok_def)

lemma length_window_data: "task_ok su t \<Longrightarrow> length (window_data su t) = wt_n t"
  by (auto simp: task_ok_def window_data_def)

text \<open>The first window of a file has the file's 16k hash.\<close>

lemma window_head:
  assumes "task_ok su t" and "wt_off t = 0" and "su_files su ! wt_i t = Some f"
  shows "sixteenKHash (window_data su t) = sixteenKHash f"
proof -
  have t: "wt_n t \<le> length f" "16 * 1024 \<le> wt_n t \<or> wt_n t = length f" using assms by (auto simp: task_ok_def)
  then have "length (take (wt_n t) f) < 16 * 1024 \<longleftrightarrow> length f < 16 * 1024"
    "length f < 16 * 1024 \<Longrightarrow> take (wt_n t) f = f"
    "take (16 * 1024) (take (wt_n t) f) = take (16 * 1024) f" by (auto simp: min_def)
  then show ?thesis using assms(2,3) by (simp add: window_data_def sixteenKHash_def)
qed

lemma heads_ok_set:
  assumes "i < length (su_sources su)" and "length counts = length (su_sources su)"
    and "su_files su ! i = Some f" and "sc_sixteenK c = sixteenKHash f"
  shows "heads_ok su (counts[i := c]) = insert i (heads_ok su counts)"
proof (rule set_eqI)
  fix j show "j \<in> heads_ok su (counts[i := c]) \<longleftrightarrow> j \<in> insert i (heads_ok su counts)"
    using assms by (cases "j = i") (simp_all add: heads_ok_def)
qed

lemma heads_ok_same:
  assumes "sc_sixteenK c = sc_sixteenK (counts ! i)"
  shows "heads_ok su (counts[i := c]) = heads_ok su counts"
proof -
  have "sc_sixteenK (counts[i := c] ! j) = sc_sixteenK (counts ! j)" for j
  proof (cases "j = i \<and> i < length counts")
    case False
    then have "counts[i := c] ! j = counts ! j" by (cases "i < length counts") (auto simp: list_update_beyond)
    then show ?thesis by simp
  qed (simp add: assms)
  then show ?thesis by (simp add: heads_ok_def)
qed

section \<open>The steps of a worker\<close>

lemma fetch_ok:
  assumes P: "scan_P su (Fetch t)" and J: "scan_J su s"
  shows "window_step (su_sources su) (scan_fn (su_config su)) (Fetch t) s
    = Inr (Some (Body (wt_i t) (ScanBegin (wt_i t) (wt_off t) (window_data su t))), s)"
proof -
  obtain errs sh where s: "s = (errs, sh)" by (cases s)
  from P obtain f where t: "wt_i t < length (su_sources su)" "0 < wt_n t" "su_files su ! wt_i t = Some f"
    "wt_off t + wt_n t \<le> length f" by (auto simp: scan_P_def task_ok_def)
  have "source_holds (su_sources su ! wt_i t) (Some f)"
    using J t(1,3) by (auto simp: scan_J_def setup_ok_def list_all2_conv_all_nth Let_def)
  then obtain src where src: "su_sources su ! wt_i t = Some src" "reader_over (ws_r src) f"
    by (auto simp: source_holds_def split: option.splits)
  have "ws_r src (int (wt_off t)) (wt_n t) = Inr (take (wt_n t) (drop (wt_off t) f))"
    using reader_over.reads [OF src(2), of "int (wt_off t)" "wt_n t"] t by simp
  then show ?thesis
    using J t(1,3) src(1) by (simp add: s window_step_def scan_J_def window_data_def scan_fn_def)
qed

lemma begin_ok:
  assumes P: "scan_P su (Body i (ScanBegin i' off buf))" and J: "scan_J su s"
  shows "\<exists>s' env. window_step (su_sources su) (scan_fn (su_config su)) (Body i (ScanBegin i' off buf)) s
      = Inr (Some (Body i (ScanLoop i env (scan_init [] Map.empty))), s') \<and> scan_J su s' \<and>
    scan_P su (Body i (ScanLoop i env (scan_init [] Map.empty))) \<and> e_limit env = length buf \<and>
    scan_got su s' \<union> found_in su env 0 = scan_got su s \<union> task_work su \<lparr> wt_i = i, wt_off = off, wt_n = length buf \<rparr>"
proof -
  obtain errs sh where s: "s = (errs, sh)" by (cases s)
  define t where "t = \<lparr> wt_i = i, wt_off = off, wt_n = length buf \<rparr>"
  have i: "i' = i" and t: "task_ok su t" and buf: "buf = window_data su t"
    using P by (auto simp: scan_P_def Let_def t_def)
  have ti: "wt_i t = i" "wt_off t = off" by (simp_all add: t_def)
  have il: "i < length (su_sources su)" using t by (simp add: task_ok_def ti)
  obtain f where f: "su_files su ! i = Some f" using t by (auto simp: task_ok_def ti)
  let ?env = "window_env (su_config su) i off buf"
  let ?sh = "if off = 0 then sh\<lparr> ss_counts := (ss_counts sh)
      [i := (ss_counts sh ! i)\<lparr> sc_sixteenK := sixteenKHash buf \<rparr>] \<rparr> else sh"
  have step: "window_step (su_sources su) (scan_fn (su_config su)) (Body i (ScanBegin i' off buf)) s
      = Inr (Some (Body i (ScanLoop i ?env (scan_init [] Map.empty))), (errs, ?sh))"
    by (simp add: window_step_def scan_fn_def window_scan_step_def Let_def s i)
  have J': "scan_J su (errs, ?sh)" using J by (simp add: scan_J_def s)
  have P': "scan_P su (Body i (ScanLoop i ?env (scan_init [] Map.empty)))"
    using il by (auto simp: scan_P_def roll_ok_def scan_init_def windows_ok_def)
  have counts: "length (ss_counts sh) = length (su_sources su)" using J by (simp add: scan_J_def s)
  have "scan_got su (errs, ?sh) = scan_got su (errs, sh) \<union> (if off = 0 then {Head i} else {})"
  proof (cases "off = 0")
    case True
    have "sixteenKHash (window_data su t) = sixteenKHash f"
      by (rule window_head [OF t]) (simp_all add: ti f True)
    then have h: "sixteenKHash buf = sixteenKHash f" by (simp flip: buf)
    have "heads_ok su ((ss_counts sh)[i := (ss_counts sh ! i)\<lparr> sc_sixteenK := sixteenKHash buf \<rparr>])
        = insert i (heads_ok su (ss_counts sh))"
      using heads_ok_set [OF il counts f] h by simp
    then show ?thesis using True by (simp add: scan_got_def)
  qed simp
  moreover have "task_work su t = found_in su ?env 0 \<union> (if off = 0 then {Head i} else {})"
    by (simp add: task_work_def ti flip: buf)
  ultimately have "scan_got su (errs, ?sh) \<union> found_in su ?env 0 = scan_got su s \<union> task_work su t"
    unfolding s by blast
  then have "window_step (su_sources su) (scan_fn (su_config su)) (Body i (ScanBegin i' off buf)) s
      = Inr (Some (Body i (ScanLoop i ?env (scan_init [] Map.empty))), (errs, ?sh)) \<and> scan_J su (errs, ?sh) \<and>
    scan_P su (Body i (ScanLoop i ?env (scan_init [] Map.empty))) \<and> e_limit ?env = length buf \<and>
    scan_got su (errs, ?sh) \<union> found_in su ?env 0 = scan_got su s \<union> task_work su \<lparr> wt_i = i, wt_off = off, wt_n = length buf \<rparr>"
    unfolding t_def [symmetric] using step J' P' by simp
  then show ?thesis by blast
qed

lemma found_in_step:
  assumes "j < e_limit env"
  shows "found_in su env j = found_in su env (j + e_sliceByteCount env) \<union>
    {FoundAt k i (loc_at env j) | k i. k < length (su_set su) \<and> i < length (di_checksumPairs (su_set su ! k)) \<and>
       matches_at (su_set su) env k i j}"
proof -
  let ?n = "e_sliceByteCount env"
  define P where "P k i off \<longleftrightarrow> k < length (su_set su) \<and> i < length (di_checksumPairs (su_set su ! k)) \<and>
     off < e_limit env \<and> matches_at (su_set su) env k i off" for k i off
  have f: "found_in su env j = {x. \<exists>k i q. P k i (j + q * ?n) \<and> x = FoundAt k i (loc_at env (j + q * ?n))}" for j
    by (auto simp: found_in_def P_def)
  show ?thesis
  proof (rule set_eqI)
    fix x
    have "x \<in> found_in su env j \<longleftrightarrow> (\<exists>k i q. P k i (j + q * ?n) \<and> x = FoundAt k i (loc_at env (j + q * ?n)))"
      by (simp add: f)
    also have "\<dots> \<longleftrightarrow> (\<exists>k i. P k i j \<and> x = FoundAt k i (loc_at env j)) \<or>
        (\<exists>k i q. P k i (j + ?n + q * ?n) \<and> x = FoundAt k i (loc_at env (j + ?n + q * ?n)))"
      by (subst (2) ex_nat_cases) (simp add: ex_disj_distrib add.assoc)
    finally show "x \<in> found_in su env j \<longleftrightarrow> x \<in> found_in su env (j + ?n) \<union>
      {FoundAt k i (loc_at env j) | k i. k < length (su_set su) \<and> i < length (di_checksumPairs (su_set su ! k)) \<and>
       matches_at (su_set su) env k i j}"
      using assms by (auto simp: f P_def)
  qed
qed

lemma loop_ok:
  assumes P: "scan_P su (Body i (ScanLoop i' env st))" and J: "scan_J su s"
  shows "\<exists>p' s'. window_step (su_sources su) (scan_fn (su_config su)) (Body i (ScanLoop i' env st)) s = Inr (p', s') \<and>
    scan_J su s' \<and> (case p' of None \<Rightarrow> scan_got su s' = scan_got su s \<union> found_in su env (s_j st)
      | Some q \<Rightarrow> scan_P su q \<and> scan_size q < scan_size (Body i (ScanLoop i' env st)) \<and>
          scan_got su s' \<union> scan_todo su q = scan_got su s \<union> found_in su env (s_j st))"
proof -
  obtain errs sh where s: "s = (errs, sh)" by (cases s)
  from P obtain off buf where i: "i' = i" "i < length (su_sources su)"
    and env: "env = window_env (su_config su) i off buf" and roll: "roll_ok env st"
    by (auto simp: scan_P_def)
  have su: "setup_ok su" and io: "infos_ok (su_set su) (ss_infos sh)" and wo: "windows_ok (ss_windows sh)"
    and counts: "length (ss_counts sh) = length (su_sources su)"
    using J by (auto simp: scan_J_def s)
  show ?thesis
  proof (cases "s_j st < e_limit env")
    case False
    let ?c = "ss_counts sh ! i"
    let ?sh = "sh\<lparr> ss_counts := (ss_counts sh)
      [i := ?c\<lparr> sc_hits := sc_hits ?c + s_hits st, sc_misses := sc_misses ?c + s_misses st \<rparr>] \<rparr>"
    have "window_step (su_sources su) (scan_fn (su_config su)) (Body i (ScanLoop i' env st)) s = Inr (None, (errs, ?sh))"
      using False by (simp add: window_step_def scan_fn_def window_scan_step_def Let_def s i)
    moreover have "scan_J su (errs, ?sh)" using J by (simp add: scan_J_def s)
    moreover have "scan_got su (errs, ?sh) = scan_got su s"
      by (simp add: scan_got_def s heads_ok_same)
    moreover have "found_in su env (s_j st) = {}" using False by (auto simp: found_in_def)
    ultimately show ?thesis by (intro exI [of _ None] exI [of _ "(errs, ?sh)"]) auto
  next
    case True
    let ?st = "st\<lparr> s_infos := ss_infos sh, s_windows := ss_windows sh \<rparr>"
    have eok: "env_ok_scan (su_set su) env" using window_env_ok [OF su] env by simp
    from scan_step_ok [OF eok roll_ok_shared [OF roll wo, of "ss_infos sh"]] True io obtain st1 where
      step: "scan_step env ?st = Inr st1" "roll_ok env st1" "infos_ok (su_set su) (s_infos st1)"
      and rec1: "adds_at (su_set su) env (s_j st) (ss_infos sh) (s_infos st1)"
      and j1: "s_j st1 = s_j st + e_sliceByteCount env"
      using su env unfolding adds_at_def by (force simp: setup_ok_def Let_def)
    have rec1': "l \<in> recorded (s_infos st1) k i \<longleftrightarrow>
        l \<in> recorded (ss_infos sh) k i \<or> matches_at (su_set su) env k i (s_j st) \<and> l = loc_at env (s_j st)"
      if "k < length (su_set su)" "i < length (di_checksumPairs (su_set su ! k))" for k i l
      using rec1 that by (simp add: adds_at_def)
    let ?sh = "sh\<lparr> ss_infos := s_infos st1, ss_windows := s_windows st1 \<rparr>"
    have n: "0 < e_sliceByteCount env" using su env by (auto simp: setup_ok_def Let_def)
    have w: "window_step (su_sources su) (scan_fn (su_config su)) (Body i (ScanLoop i' env st)) s
        = Inr (Some (Body i (ScanLoop i env st1)), (errs, ?sh))"
      using True step(1) by (simp add: window_step_def scan_fn_def window_scan_step_def Let_def s i)
    have wo1: "windows_ok (s_windows st1)" using step(2) by (simp add: roll_ok_def)
    then have "scan_J su (errs, ?sh)" using J step(3) scan_step_flags [OF step(1)] by (simp add: scan_J_def s)
    moreover have "scan_P su (Body i (ScanLoop i env st1))"
      using P step(2) by (simp add: scan_P_def)
    moreover have "scan_size (Body i (ScanLoop i env st1)) < scan_size (Body i (ScanLoop i' env st))"
      using True n j1 by simp
    moreover have "scan_got su (errs, ?sh) = scan_got su s \<union>
      {FoundAt k i (loc_at env (s_j st)) | k i. k < length (su_set su) \<and> i < length (di_checksumPairs (su_set su ! k)) \<and>
       matches_at (su_set su) env k i (s_j st)}"
      by (auto simp: scan_got_def s rec1')
    then have "scan_got su (errs, ?sh) \<union> found_in su env (s_j st1) = scan_got su s \<union> found_in su env (s_j st)"
      using found_in_step [OF True, of su] j1 by auto
    ultimately show ?thesis
      using w by (intro exI [of _ "Some (Body i (ScanLoop i env st1))"] exI [of _ "(errs, ?sh)"])
        (simp add: scan_todo_def)
  qed
qed

text \<open>One step of a worker, whatever it is doing: no work is lost and none is made up.\<close>

lemma scan_step_work:
  assumes P: "scan_P su p" and J: "scan_J su s"
  shows "\<exists>p' s'. window_step (su_sources su) (scan_fn (su_config su)) p s = Inr (p', s') \<and> scan_J su s' \<and>
      (case p' of None \<Rightarrow> scan_got su s' = scan_got su s \<union> scan_todo su p
       | Some q \<Rightarrow> scan_P su q \<and> scan_size q < scan_size p \<and> scan_got su s' \<union> scan_todo su q = scan_got su s \<union> scan_todo su p)"
proof (cases p)
    case (Fetch t)
    have t: "task_ok su t" using P Fetch by (simp add: scan_P_def)
    have e: "\<lparr> wt_i = wt_i t, wt_off = wt_off t, wt_n = wt_n t \<rparr> = t" by simp
    show ?thesis
      using fetch_ok [of su t s] P J t Fetch length_window_data [OF t]
      by (simp add: scan_todo_def scan_P_def e Let_def)
  next
    case (Body i q)
    show ?thesis
    proof (cases q)
      case (ScanBegin i' off buf)
      from begin_ok [of su i i' off buf s] P J Body ScanBegin obtain s' env where
        "window_step (su_sources su) (scan_fn (su_config su)) p s
          = Inr (Some (Body i (ScanLoop i env (scan_init [] Map.empty))), s')" "scan_J su s'"
        "scan_P su (Body i (ScanLoop i env (scan_init [] Map.empty)))" "e_limit env = length buf"
        "scan_got su s' \<union> found_in su env 0 = scan_got su s \<union> task_work su \<lparr> wt_i = i, wt_off = off, wt_n = length buf \<rparr>"
        by blast
      then show ?thesis
        by (intro exI [of _ "Some (Body i (ScanLoop i env (scan_init [] Map.empty)))"] exI [of _ s'])
          (simp add: Body ScanBegin scan_todo_def scan_init_def)
    next
      case (ScanLoop i' env st)
      have todo: "found_in su env (s_j st) = scan_todo su p" by (simp add: scan_todo_def Body ScanLoop)
      have "scan_P su (Body i (ScanLoop i' env st))" using P Body ScanLoop by simp
      from loop_ok [OF this J] show ?thesis unfolding todo Body ScanLoop .
    qed
qed

interpretation scan_pool: pool_exact Fetch "window_step (su_sources su) (scan_fn (su_config su))"
  "task_ok su" "\<lambda>p s. scan_P su p" "scan_J su" "scan_todo su" "scan_got su" scan_size for su
proof unfold_locales
  fix t assume "task_ok su t"
  then show "scan_P su (Fetch t)" by (simp add: scan_P_def)
next
  fix p s assume PJ: "scan_P su p" "scan_J su s"
  from scan_step_work [OF PJ] obtain p' s' where
    s: "window_step (su_sources su) (scan_fn (su_config su)) p s = Inr (p', s')" "scan_J su s'"
    and c: "case p' of None \<Rightarrow> scan_got su s' = scan_got su s \<union> scan_todo su p
       | Some q \<Rightarrow> scan_P su q \<and> scan_size q < scan_size p \<and> scan_got su s' \<union> scan_todo su q = scan_got su s \<union> scan_todo su p"
    by blast
  have "case p' of None \<Rightarrow> scan_got su s \<union> scan_todo su p \<subseteq> scan_got su s'
      | Some q \<Rightarrow> scan_P su q \<and> scan_size q < scan_size p \<and> scan_got su s \<union> scan_todo su p \<subseteq> scan_got su s' \<union> scan_todo su q"
    using c by (cases p') auto
  with s show "\<exists>p' s'. window_step (su_sources su) (scan_fn (su_config su)) p s = Inr (p', s') \<and> scan_J su s' \<and>
      (case p' of None \<Rightarrow> scan_got su s \<union> scan_todo su p \<subseteq> scan_got su s'
       | Some q \<Rightarrow> scan_P su q \<and> scan_size q < scan_size p \<and> scan_got su s \<union> scan_todo su p \<subseteq> scan_got su s' \<union> scan_todo su q)"
    by blast
  fix p1 s1 assume "window_step (su_sources su) (scan_fn (su_config su)) p s = Inr (p1, s1)"
  with s c show "scan_got su s1 \<union> (case p1 of None \<Rightarrow> {} | Some q \<Rightarrow> scan_todo su q) \<subseteq> scan_got su s \<union> scan_todo su p"
    by (cases p') auto
qed

section \<open>All windows together\<close>

lemma scanWindowSize_ok:
  assumes "scanWindowSize n = Inr w"
  shows "\<exists>m. w = m * n \<and> 0 < m \<and> 0 < n \<and> 2 ^ 20 \<le> w"
proof -
  from assms have n: "0 < n" by (auto simp: scanWindowSize_def split: if_splits)
  define m where "m = max (2 ^ 20 div n + 1) (2 :: nat)"
  have w: "w = m * n" using assms n by (auto simp: scanWindowSize_def m_def Let_def max_def split: if_splits)
  have "N \<le> (N div n + 1) * n" for N :: nat
  proof -
    have "N = N div n * n + N mod n" by (rule div_mult_mod_eq [symmetric])
    also have "\<dots> \<le> N div n * n + n" using mod_less_divisor [OF n, of N] by linarith
    also have "\<dots> = (N div n + 1) * n" by (simp add: algebra_simps)
    finally show ?thesis .
  qed
  then have "(2 :: nat) ^ 20 \<le> (2 ^ 20 div n + 1) * n" .
  also have "\<dots> \<le> m * n" by (rule mult_le_mono1) (simp add: m_def)
  finally show ?thesis using w n by (auto simp: m_def intro!: exI [of _ m])
qed

lemma pad_slice_window:
  assumes "off + m \<le> length f" and "n dvd m \<or> off + m = length f" and "n dvd j" and "j < m"
  shows "pad_slice n (take m (drop off f)) j = pad_slice n f (off + j)"
proof (rule nth_equalityI)
  fix x assume "x < length (pad_slice n (take m (drop off f)) j)"
  then have x: "x < n" by simp
  have "j + x < m" if "n dvd m"
  proof -
    obtain a b where "m = n * a" "j = n * b" using \<open>n dvd m\<close> \<open>n dvd j\<close> by (auto elim!: dvdE)
    moreover from this assms(4) have "b + 1 \<le> a" by simp
    then have "n * (b + 1) \<le> n * a" by (rule mult_le_mono2)
    ultimately show ?thesis using x by simp
  qed
  then show "pad_slice n (take m (drop off f)) j ! x = pad_slice n f (off + j) ! x"
    using assms x by (auto simp: nth_pad_slice add.assoc)
qed simp

text \<open>A match in a window is a match in the file.\<close>

definition file_fact :: "scan_setup \<Rightarrow> nat \<Rightarrow> byte list \<Rightarrow> nat \<Rightarrow> nat \<Rightarrow> nat \<Rightarrow> bool" where
  "file_fact su s f k i p \<longleftrightarrow> k < length (su_set su) \<and> i < length (di_checksumPairs (su_set su ! k)) \<and>
     pair_matches (di_checksumPairs (su_set su ! k) ! i) (pad_slice (su_slice su) f p)"

lemma task_work_eq:
  assumes t: "task_ok su t" and f: "su_files su ! wt_i t = Some f"
  shows "task_work su t = {FoundAt k i \<lparr> sl_fileID = di_fileID (su_set su ! wt_i t), sl_start = wt_off t + q * su_slice su \<rparr> | k i q.
      q * su_slice su < wt_n t \<and> file_fact su (wt_i t) f k i (wt_off t + q * su_slice su)} \<union>
    (if wt_off t = 0 then {Head (wt_i t)} else {})"
proof -
  let ?env = "window_env (su_config su) (wt_i t) (wt_off t) (window_data su t)"
  have "pad_slice (su_slice su) (window_data su t) (q * su_slice su) = pad_slice (su_slice su) f (wt_off t + q * su_slice su)"
    if "q * su_slice su < wt_n t" for q
    using pad_slice_window [of "wt_off t" "wt_n t" f "su_slice su" "q * su_slice su"] that t f
    by (auto simp: task_ok_def window_data_def)
  then have m: "q * su_slice su < wt_n t \<and> matches_at (su_set su) ?env k i (q * su_slice su) \<longleftrightarrow>
      q * su_slice su < wt_n t \<and>
      pair_matches (di_checksumPairs (su_set su ! k) ! i) (pad_slice (su_slice su) f (wt_off t + q * su_slice su))"
    for k i q by (auto simp: matches_at_def)
  have l: "loc_at ?env j = \<lparr> sl_fileID = di_fileID (su_set su ! wt_i t), sl_start = wt_off t + j \<rparr>" for j
    by (simp add: loc_at_def)
  have "found_in su ?env 0 = {FoundAt k i \<lparr> sl_fileID = di_fileID (su_set su ! wt_i t), sl_start = wt_off t + q * su_slice su \<rparr> | k i q.
      q * su_slice su < wt_n t \<and> file_fact su (wt_i t) f k i (wt_off t + q * su_slice su)}"
    by (simp add: found_in_def length_window_data [OF t] file_fact_def m l) blast
  then show ?thesis by (simp add: task_work_def)
qed

lemma windows_task_ok:
  assumes su: "setup_ok su" and w: "w = m * su_slice su" "2 ^ 20 \<le> w"
    and i: "i < length (su_sources su)" and t: "t \<in> source_windows w i (su_sources su ! i)"
  shows "task_ok su t" and "wt_i t = i"
proof -
  from t obtain src q where src: "su_sources su ! i = Some src" and tq: "t = \<lparr> wt_i = i, wt_off = q * w, wt_n = min w (nat (ws_size src) - q * w) \<rparr>"
    and q: "int (q * w) < ws_size src"
    by (auto simp: source_windows_def windows_of_def split: option.splits)
  have "source_holds (Some src) (su_files su ! i)"
    using su i src by (metis list_all2_conv_all_nth setup_ok_def)
  then obtain f where f: "su_files su ! i = Some f" "ws_size src = int (length f)"
    by (auto simp: source_holds_def split: option.splits)
  have q': "q * w < length f" using q f(2) by linarith
  show "wt_i t = i" by (simp add: tq)
  have "0 < w" "16 * 1024 \<le> w" using w(2) by simp_all
  then show "task_ok su t"
    using q' i w(1) by (auto simp: task_ok_def tq f min_def)
qed

text \<open>The slice boundaries in a file.\<close>

definition boundary :: "nat \<Rightarrow> nat \<Rightarrow> nat \<Rightarrow> bool" where
  "boundary n l p \<longleftrightarrow> (\<exists>q. p = q * n \<and> p < l)"

lemma windows_of_file:
  assumes n: "0 < n" and w: "w = m * n" and m: "0 < m"
  shows "(\<exists>r q. r * w < l \<and> q * n < min w (l - r * w) \<and> p = r * w + q * n) \<longleftrightarrow> boundary n l p"
  unfolding boundary_def
proof
  assume "\<exists>r q. r * w < l \<and> q * n < min w (l - r * w) \<and> p = r * w + q * n"
  then obtain r q where "r * w < l" "q * n < l - r * w" "p = r * w + q * n" by auto
  then have "p = (r * m + q) * n" "p < l" by (simp_all add: w algebra_simps)
  then show "\<exists>q. p = q * n \<and> p < l" by blast
next
  assume "\<exists>q. p = q * n \<and> p < l"
  then obtain q where q: "p = q * n" "p < l" by blast
  have "q = q div m * m + q mod m" by (rule div_mult_mod_eq [symmetric])
  then have e: "p = q div m * w + q mod m * n"
    unfolding w q(1) by (metis add_mult_distrib mult.assoc)
  have "q mod m * n < w" unfolding w using n m by (intro mult_less_mono1) simp_all
  moreover have "q mod m * n < l - q div m * w" "q div m * w < l" using q(2) e by linarith+
  ultimately show "\<exists>r q. r * w < l \<and> q * n < min w (l - r * w) \<and> p = r * w + q * n"
    using e by (intro exI [of _ "q div m"] exI [of _ "q mod m"]) simp
qed

text \<open>The work of all tasks is the work of all files.\<close>

lemma all_work:
  assumes su: "setup_ok su" and w: "w = m * su_slice su" "0 < m" "2 ^ 20 \<le> w"
  shows "(\<Union>i < length (su_sources su). \<Union>t \<in> source_windows w i (su_sources su ! i). task_work su t)
    = {FoundAt k i \<lparr> sl_fileID = di_fileID (su_set su ! s), sl_start = p \<rparr> | k i s p f. s < length (su_sources su) \<and>
        su_files su ! s = Some f \<and> boundary (su_slice su) (length f) p \<and> file_fact su s f k i p} \<union>
      {Head s | s f. s < length (su_sources su) \<and> su_files su ! s = Some f \<and> f \<noteq> []}"
proof -
  let ?n = "su_slice su"
  have n: "0 < ?n" using su by (auto simp: setup_ok_def Let_def)
  have one: "x \<in> (\<Union>t \<in> source_windows w s (su_sources su ! s). task_work su t) \<longleftrightarrow>
      (\<exists>f. su_files su ! s = Some f \<and>
        ((\<exists>k i p. boundary ?n (length f) p \<and> file_fact su s f k i p \<and>
           x = FoundAt k i \<lparr> sl_fileID = di_fileID (su_set su ! s), sl_start = p \<rparr>) \<or> f \<noteq> [] \<and> x = Head s))"
    if s: "s < length (su_sources su)" for s x
  proof -
    have h: "source_holds (su_sources su ! s) (su_files su ! s)"
      using su s by (metis list_all2_conv_all_nth setup_ok_def)
    show ?thesis
    proof (cases "su_files su ! s")
      case None
      with h have "su_sources su ! s = None" by (auto simp: source_holds_def split: option.splits)
      with None show ?thesis by (simp add: source_windows_def)
    next
      case (Some f)
      with h obtain src where src: "su_sources su ! s = Some src" "ws_size src = int (length f)"
        by (auto simp: source_holds_def split: option.splits)
      define T where "T r = \<lparr> wt_i = s, wt_off = r * w, wt_n = min w (length f - r * w) \<rparr>" for r
      have ws: "source_windows w s (su_sources su ! s) = {T r | r. r * w < length f}"
        unfolding source_windows_def windows_of_def src option.case T_def by (simp flip: of_nat_mult)
      have "task_work su (T r) = {FoundAt k i \<lparr> sl_fileID = di_fileID (su_set su ! s), sl_start = r * w + q * ?n \<rparr> | k i q.
          q * ?n < min w (length f - r * w) \<and> file_fact su s f k i (r * w + q * ?n)} \<union>
          (if r * w = 0 then {Head s} else {})" if "r * w < length f" for r
      proof -
        have "T r \<in> source_windows w s (su_sources su ! s)" using that ws by blast
        from task_work_eq [OF windows_task_ok(1) [OF su w(1,3) s this], of f] Some show ?thesis
          by (simp add: T_def)
      qed
      then have tw: "x \<in> task_work su (T r) \<longleftrightarrow>
          (\<exists>k i q. q * ?n < min w (length f - r * w) \<and> file_fact su s f k i (r * w + q * ?n) \<and>
            x = FoundAt k i \<lparr> sl_fileID = di_fileID (su_set su ! s), sl_start = r * w + q * ?n \<rparr>) \<or>
          r * w = 0 \<and> x = Head s" if "r * w < length f" for r x
        using that by auto
      have "x \<in> (\<Union>t \<in> source_windows w s (su_sources su ! s). task_work su t) \<longleftrightarrow>
          (\<exists>r. r * w < length f \<and> x \<in> task_work su (T r))" unfolding ws by blast
      also have "\<dots> \<longleftrightarrow> (\<exists>r. r * w < length f \<and> (\<exists>k i q. q * ?n < min w (length f - r * w) \<and> file_fact su s f k i (r * w + q * ?n) \<and>
            x = FoundAt k i \<lparr> sl_fileID = di_fileID (su_set su ! s), sl_start = r * w + q * ?n \<rparr>)) \<or>
          (\<exists>r. r * w < length f \<and> r * w = 0 \<and> x = Head s)"
        using tw by blast
      also have "(\<exists>r. r * w < length f \<and> r * w = 0 \<and> x = Head s) \<longleftrightarrow> f \<noteq> [] \<and> x = Head s"
          by (auto intro: exI [of _ 0])
      also have "(\<exists>r. r * w < length f \<and> (\<exists>k i q. q * ?n < min w (length f - r * w) \<and> file_fact su s f k i (r * w + q * ?n) \<and>
            x = FoundAt k i \<lparr> sl_fileID = di_fileID (su_set su ! s), sl_start = r * w + q * ?n \<rparr>)) \<longleftrightarrow>
          (\<exists>k i p. (\<exists>r q. r * w < length f \<and> q * ?n < min w (length f - r * w) \<and> p = r * w + q * ?n) \<and>
            file_fact su s f k i p \<and> x = FoundAt k i \<lparr> sl_fileID = di_fileID (su_set su ! s), sl_start = p \<rparr>)"
        by blast
      finally show ?thesis unfolding windows_of_file [OF n w(1,2)] using Some by simp
    qed
  qed
  show ?thesis
  proof (rule set_eqI)
    fix x
    have "x \<in> (\<Union>i < length (su_sources su). \<Union>t \<in> source_windows w i (su_sources su ! i). task_work su t) \<longleftrightarrow>
      (\<exists>s < length (su_sources su). x \<in> (\<Union>t \<in> source_windows w s (su_sources su ! s). task_work su t))" by blast
    also have "\<dots> \<longleftrightarrow> (\<exists>s f. s < length (su_sources su) \<and> su_files su ! s = Some f \<and>
        ((\<exists>k i p. boundary ?n (length f) p \<and> file_fact su s f k i p \<and>
           x = FoundAt k i \<lparr> sl_fileID = di_fileID (su_set su ! s), sl_start = p \<rparr>) \<or> f \<noteq> [] \<and> x = Head s))"
      using one by (metis (no_types, lifting))
    finally show "x \<in> (\<Union>i < length (su_sources su). \<Union>t \<in> source_windows w i (su_sources su ! i). task_work su t) \<longleftrightarrow>
      x \<in> {FoundAt k i \<lparr> sl_fileID = di_fileID (su_set su ! s), sl_start = p \<rparr> | k i s p f. s < length (su_sources su) \<and>
        su_files su ! s = Some f \<and> boundary (su_slice su) (length f) p \<and> file_fact su s f k i p} \<union>
      {Head s | s f. s < length (su_sources su) \<and> su_files su ! s = Some f \<and> f \<noteq> []}"
      by blast
  qed
qed


lemma forEachWindow_ok:
  assumes su: "setup_ok su" and w: "w = m * su_slice su" "0 < m" "2 ^ 20 \<le> w"
    and J: "scan_J su (replicate (length (su_sources su)) None, sh)"
  shows "\<exists>sh'. forEachWindow sched (su_sources su) w workers (scan_fn (su_config su)) sh
      = Some (Inr (replicate (length (su_sources su)) None, sh')) \<and>
    scan_J su (replicate (length (su_sources su)) None, sh') \<and>
    scan_got su (replicate (length (su_sources su)) None, sh') =
      scan_got su (replicate (length (su_sources su)) None, sh) \<union>
      (\<Union>i < length (su_sources su). \<Union>t \<in> source_windows w i (su_sources su ! i). task_work su t)"
proof -
  let ?e = "replicate (length (su_sources su)) None :: go_error option list"
  have "0 < w" using w(3) by simp
  from window_tasks_set [OF this, of 0 "su_sources su"] obtain ts where
    ts: "window_tasks w 0 (su_sources su) = Some ts"
    "set ts = (\<Union>k < length (su_sources su). source_windows w k (su_sources su ! k))" by auto
  have "\<forall>t \<in> set ts. task_ok su t"
    unfolding ts(2) using windows_task_ok(1) [OF su w(1,3)] by blast
  moreover have "0 < nat (max workers 1) \<or> ts = []" by (simp add: max_def)
  ultimately obtain c where c: "pool_run Fetch (window_step (su_sources su) (scan_fn (su_config su))) sched
      (pool_init (nat (max workers 1)) ts (?e, sh)) = Some (Inr c)" "scan_J su (pl_shared c)"
    "scan_got su (pl_shared c) = scan_got su (?e, sh) \<union> (\<Union>t \<in> set ts. scan_todo su (Fetch t))"
    using scan_pool.run_exact [of "nat (max workers 1)" ts su "(?e, sh)" sched] J by blast
  obtain sh' where sh': "pl_shared c = (?e, sh')"
    using c(2) by (cases "pl_shared c") (simp add: scan_J_def)
  have "forEachWindow sched (su_sources su) w workers (scan_fn (su_config su)) sh = Some (Inr (?e, sh'))"
    using c(1) by (simp add: forEachWindow_def ts(1) sh')
  moreover have "(\<Union>t \<in> set ts. scan_todo su (Fetch t))
      = (\<Union>i < length (su_sources su). \<Union>t \<in> source_windows w i (su_sources su ! i). task_work su t)"
    unfolding ts(2) by (auto simp: scan_todo_def)
  ultimately show ?thesis using c(2,3) by (simp add: sh')
qed

text \<open>The scan of a set of files, as the decoder's verdict uses it.\<close>

definition scan_complete :: "scan_config \<Rightarrow> byte list option list \<Rightarrow> fileIntegrityInfo list \<Rightarrow> scan_shared \<Rightarrow> bool" where
  "scan_complete d files infos sh \<longleftrightarrow> infos_ok (cf_recoverySet d) (ss_infos sh) \<and>
     map fi_flags (ss_infos sh) = map fi_flags infos \<and>
     length (ss_counts sh) = length files \<and> windows_ok (ss_windows sh) \<and>
     (\<forall>k < length (cf_recoverySet d). \<forall>i < length (di_checksumPairs (cf_recoverySet d ! k)).
       recorded (ss_infos sh) k i = recorded infos k i \<union>
         {\<lparr> sl_fileID = di_fileID (cf_recoverySet d ! s), sl_start = q * cf_sliceByteCount d \<rparr> | s f q.
           s < length files \<and> files ! s = Some f \<and> q * cf_sliceByteCount d < length f \<and>
           pair_matches (di_checksumPairs (cf_recoverySet d ! k) ! i) (pad_slice (cf_sliceByteCount d) f (q * cf_sliceByteCount d))}) \<and>
     (\<forall>s f. s < length files \<longrightarrow> files ! s = Some f \<longrightarrow> sc_sixteenK (ss_counts sh ! s) = sixteenKHash f)"

lemma scanFilesWindowed_ok:
  assumes su: "setup_ok su" and infos: "infos_ok (su_set su) infos" and windows: "windows_ok windows"
    and flags: "su_flags su = map fi_flags infos"
  shows "\<exists>sh. scanFilesWindowed sched (su_config su) workers (su_sources su) infos windows
      = Some (Inr (replicate (length (su_sources su)) None, sh)) \<and>
    scan_complete (su_config su) (su_files su) infos sh"
proof -
  let ?n = "su_slice su" and ?e = "replicate (length (su_sources su)) None :: go_error option list"
  have len: "length (su_files su) = length (su_sources su)"
    using su by (auto simp: setup_ok_def dest: list_all2_lengthD)
  have n: "?n \<noteq> 0" using su by (auto simp: setup_ok_def Let_def)
  then obtain w where sw: "scanWindowSize ?n = Inr w" by (auto simp: scanWindowSize_def Let_def)
  from scanWindowSize_ok [OF this] obtain m where m: "w = m * ?n" "0 < m" "2 ^ 20 \<le> w" by blast
  define sh0 where "sh0 = \<lparr> ss_infos = infos, ss_counts = replicate (length (su_sources su)) zero_counts, ss_windows = windows \<rparr>"
  have J: "scan_J su (?e, sh0)" using su infos windows flags by (simp add: scan_J_def sh0_def)
  from forEachWindow_ok [OF su m J, of sched workers] obtain sh1 where
    1: "forEachWindow sched (su_sources su) w workers (scan_fn (su_config su)) sh0 = Some (Inr (?e, sh1))"
    "scan_J su (?e, sh1)"
    and got: "scan_got su (?e, sh1) = scan_got su (?e, sh0) \<union>
      {FoundAt k i \<lparr> sl_fileID = di_fileID (su_set su ! s), sl_start = p \<rparr> | k i s p f. s < length (su_sources su) \<and>
        su_files su ! s = Some f \<and> boundary ?n (length f) p \<and> file_fact su s f k i p} \<union>
      {Head s | s f. s < length (su_sources su) \<and> su_files su ! s = Some f \<and> f \<noteq> []}"
    unfolding all_work [OF su m] by (auto simp: Un_assoc)
  define sh where "sh = sh1\<lparr> ss_counts := empty_file_hash (su_sources su) (ss_counts sh1) \<rparr>"
  have counts: "length (ss_counts sh1) = length (su_sources su)" using 1(2) by (simp add: scan_J_def)
  have rec: "recorded (ss_infos sh) k i = recorded infos k i \<union>
         {\<lparr> sl_fileID = di_fileID (su_set su ! s), sl_start = q * ?n \<rparr> | s f q.
           s < length (su_files su) \<and> su_files su ! s = Some f \<and> q * ?n < length f \<and>
           pair_matches (di_checksumPairs (su_set su ! k) ! i) (pad_slice ?n f (q * ?n))}"
    if ki: "k < length (su_set su)" "i < length (di_checksumPairs (su_set su ! k))" for k i
  proof (rule set_eqI)
    fix l
    have "l \<in> recorded (ss_infos sh) k i \<longleftrightarrow> FoundAt k i l \<in> scan_got su (?e, sh1)"
      using ki by (auto simp: scan_got_def sh_def)
    also have "\<dots> \<longleftrightarrow> l \<in> recorded infos k i \<or> (\<exists>s f q. s < length (su_sources su) \<and> su_files su ! s = Some f \<and>
        q * ?n < length f \<and> file_fact su s f k i (q * ?n) \<and> l = \<lparr> sl_fileID = di_fileID (su_set su ! s), sl_start = q * ?n \<rparr>)"
      unfolding got using ki by (auto simp: scan_got_def sh0_def boundary_def)
    finally show "l \<in> recorded (ss_infos sh) k i \<longleftrightarrow> l \<in> recorded infos k i \<union>
         {\<lparr> sl_fileID = di_fileID (su_set su ! s), sl_start = q * ?n \<rparr> | s f q.
           s < length (su_files su) \<and> su_files su ! s = Some f \<and> q * ?n < length f \<and>
           pair_matches (di_checksumPairs (su_set su ! k) ! i) (pad_slice ?n f (q * ?n))}"
      using ki by (auto simp: file_fact_def len)
  qed
  have head: "sc_sixteenK (ss_counts sh ! s) = sixteenKHash f" if s: "s < length (su_files su)" "su_files su ! s = Some f" for s f
  proof -
    have "source_holds (su_sources su ! s) (Some f)"
      using su s len by (metis list_all2_conv_all_nth setup_ok_def)
    then obtain src where src: "su_sources su ! s = Some src" "ws_size src = int (length f)"
      by (auto simp: source_holds_def split: option.splits)
    have nth: "ss_counts sh ! s = (if f = [] then (ss_counts sh1 ! s)\<lparr> sc_sixteenK := md5 [] \<rparr> else ss_counts sh1 ! s)"
      using s(1) counts src len by (simp add: sh_def empty_file_hash_def)
    show ?thesis
    proof (cases "f = []")
      case True
      then show ?thesis by (simp add: nth sixteenKHash_def)
    next
      case False
      then have "Head s \<in> scan_got su (?e, sh1)" unfolding got using s len by auto
      then show ?thesis using s False by (auto simp: scan_got_def heads_ok_def nth)
    qed
  qed
  have "scanFilesWindowed sched (su_config su) workers (su_sources su) infos windows = Some (Inr (?e, sh))"
    using 1(1) by (simp add: scanFilesWindowed_def sw sh0_def sh_def)
  moreover have "scan_complete (su_config su) (su_files su) infos sh"
    using 1(2) rec head counts
    by (auto simp: scan_complete_def scan_J_def sh_def empty_file_hash_def len flags)
  ultimately show ?thesis by blast
qed

text \<open>
  C7: The windowed scan misses nothing, in any interleaving.  The files are cut into windows, the
  windows are handed to any number of workers, and the scheduler picks the worker that makes the next
  step (the read of a window or the match of one slice under the mutex).  For every schedule the scan
  ends without an error, and it has recorded, for every slice of every file of the set, exactly the
  slice-aligned places of all files whose zero-padded bytes have both checksums of the slice; and the
  16k hash of every file is the hash of its contents.
\<close>

theorem scanFilesWindowed_complete:
  assumes "distinct (map di_fileID (cf_recoverySet d))" and "4 \<le> cf_sliceByteCount d"
    and "\<not> findMisaligned (cf_policy d)"
    and "cf_checksumToLocation d = makeChecksumShardLocationMap (cf_sliceByteCount d) (cf_recoverySet d)"
    and "cf_fileIDIndices d = file_id_indices (cf_recoverySet d)"
    and "list_all2 source_holds sources files"
    and "infos_ok (cf_recoverySet d) infos" and "windows_ok windows"
  shows "\<exists>sh. scanFilesWindowed sched d workers sources infos windows
      = Some (Inr (replicate (length sources) None, sh)) \<and>
    (\<forall>k < length (cf_recoverySet d). \<forall>i < length (di_checksumPairs (cf_recoverySet d ! k)).
       recorded (ss_infos sh) k i = recorded infos k i \<union>
         {\<lparr> sl_fileID = di_fileID (cf_recoverySet d ! s), sl_start = q * cf_sliceByteCount d \<rparr> | s f q.
           s < length files \<and> files ! s = Some f \<and> q * cf_sliceByteCount d < length f \<and>
           pair_matches (di_checksumPairs (cf_recoverySet d ! k) ! i) (pad_slice (cf_sliceByteCount d) f (q * cf_sliceByteCount d))}) \<and>
     (\<forall>s f. s < length files \<longrightarrow> files ! s = Some f \<longrightarrow> sc_sixteenK (ss_counts sh ! s) = sixteenKHash f)"
proof -
  let ?su = "\<lparr> su_config = d, su_sources = sources, su_files = files, su_flags = map fi_flags infos \<rparr>"
  have "setup_ok ?su" using assms by (simp add: setup_ok_def Let_def)
  from scanFilesWindowed_ok [OF this, of infos windows sched workers] assms(7,8)
  obtain sh where "scanFilesWindowed sched d workers sources infos windows
      = Some (Inr (replicate (length sources) None, sh))" "scan_complete d files infos sh" by auto
  then show ?thesis unfolding scan_complete_def by blast
qed

definition example_config :: scan_config where
  "example_config = \<lparr> cf_sliceByteCount = 4, cf_recoverySet = [example_info], cf_policy = defaultScanPolicy,
     cf_checksumToLocation = makeChecksumShardLocationMap 4 [example_info],
     cf_fileIDIndices = file_id_indices [example_info] \<rparr>"

theorem scanFilesWindowed_complete_witness:
  "\<exists>sh. scanFilesWindowed [1, 0, 1] example_config 2
      [Some \<lparr> ws_r = bytes_reader [9, 9, 9, 9, 1, 2, 3, 4], ws_size = 8 \<rparr>] (new_integrity_infos [example_info]) Map.empty
      = Some (Inr ([None], sh)) \<and> \<lparr> sl_fileID = arr_of [1], sl_start = 4 \<rparr> \<in> recorded (ss_infos sh) 0 0"
proof -
  let ?f = "[9, 9, 9, 9, 1, 2, 3, 4] :: byte list"
  have p: "pad_slice 4 ?f (1 * 4) = [1, 2, 3, 4]" by (simp add: pad_slice_def upt_rec numeral_eq_Suc)
  have m: "pair_matches (di_checksumPairs example_info ! 0) (pad_slice 4 ?f (1 * 4))"
    unfolding p by (simp add: example_info_def pair_matches_own)
  have "source_holds (Some \<lparr> ws_r = bytes_reader ?f, ws_size = 8 \<rparr>) (Some ?f)"
    by (simp add: source_holds_def bytes_reader.reader_over_axioms)
  then have "\<exists>sh. scanFilesWindowed [1, 0, 1] example_config 2 [Some \<lparr> ws_r = bytes_reader ?f, ws_size = 8 \<rparr>]
      (new_integrity_infos [example_info]) Map.empty = Some (Inr (replicate (length [Some \<lparr> ws_r = bytes_reader ?f, ws_size = 8 \<rparr>]) None, sh)) \<and>
    (\<forall>k < length (cf_recoverySet example_config). \<forall>i < length (di_checksumPairs (cf_recoverySet example_config ! k)).
       recorded (ss_infos sh) k i = recorded (new_integrity_infos [example_info]) k i \<union>
         {\<lparr> sl_fileID = di_fileID (cf_recoverySet example_config ! s), sl_start = q * cf_sliceByteCount example_config \<rparr> | s f q.
           s < length [Some ?f] \<and> [Some ?f] ! s = Some f \<and> q * cf_sliceByteCount example_config < length f \<and>
           pair_matches (di_checksumPairs (cf_recoverySet example_config ! k) ! i)
             (pad_slice (cf_sliceByteCount example_config) f (q * cf_sliceByteCount example_config))}) \<and>
     (\<forall>s f. s < length [Some ?f] \<longrightarrow> [Some ?f] ! s = Some f \<longrightarrow> sc_sixteenK (ss_counts sh ! s) = sixteenKHash f)"
    by (intro scanFilesWindowed_complete)
      (simp_all add: example_config_def defaultScanPolicy_def infos_ok_new windows_ok_def)
  then obtain sh where sh: "scanFilesWindowed [1, 0, 1] example_config 2 [Some \<lparr> ws_r = bytes_reader ?f, ws_size = 8 \<rparr>]
      (new_integrity_infos [example_info]) Map.empty = Some (Inr (replicate (length [Some \<lparr> ws_r = bytes_reader ?f, ws_size = 8 \<rparr>]) None, sh))"
    and r: "\<forall>k < length (cf_recoverySet example_config). \<forall>i < length (di_checksumPairs (cf_recoverySet example_config ! k)).
       recorded (ss_infos sh) k i = recorded (new_integrity_infos [example_info]) k i \<union>
         {\<lparr> sl_fileID = di_fileID (cf_recoverySet example_config ! s), sl_start = q * cf_sliceByteCount example_config \<rparr> | s f q.
           s < length [Some ?f] \<and> [Some ?f] ! s = Some f \<and> q * cf_sliceByteCount example_config < length f \<and>
           pair_matches (di_checksumPairs (cf_recoverySet example_config ! k) ! i)
             (pad_slice (cf_sliceByteCount example_config) f (q * cf_sliceByteCount example_config))}"
    by blast
  have e: "cf_recoverySet example_config ! 0 = example_info" "cf_sliceByteCount example_config = 4"
    "0 < length (cf_recoverySet example_config)" "0 < length (di_checksumPairs example_info)"
    by (simp_all add: example_config_def example_info_def)
  have "\<lparr> sl_fileID = arr_of [1], sl_start = 4 \<rparr> \<in> recorded (ss_infos sh) 0 0"
    using r [rule_format, of 0 0] e m
    by (auto simp: example_info_def intro!: exI [of _ 0] exI [of _ ?f] exI [of _ 1])
  with sh show ?thesis by simp
qed

end
