(* ===== verification/DecoderScan.thy ===== *)
theory DecoderScan
  imports Decoder WindowScanCorrect
begin

text \<open>
  The verdict of \<open>LoadFileData\<close>, with either scanner, under every schedule of its workers.  The pool of
  the streaming scanner interprets \<open>pool_work\<close>: its work are the verdicts on the files.
\<close>

section \<open>What is on disk\<close>

text \<open>Every slice of the file is at its place, with the checksums of the set.\<close>

definition slices_in_place :: "nat \<Rightarrow> decoderInputFileInfo \<Rightarrow> byte list \<Rightarrow> bool" where
  "slices_in_place n info f \<longleftrightarrow> (\<forall>q < length (di_checksumPairs info). q * n < length f \<and>
     pair_matches (di_checksumPairs info ! q) (pad_slice n f (q * n)))"

text \<open>A location where the checksums of a slice are really found.\<close>

definition real_location ::
    "nat \<Rightarrow> decoderInputFileInfo list \<Rightarrow> byte list option list \<Rightarrow> checksumPair \<Rightarrow> shardLocation \<Rightarrow> bool" where
  "real_location n ds files c loc \<longleftrightarrow> (\<exists>s f p. s < length files \<and> files ! s = Some f \<and> p < length f \<and>
     pair_matches c (pad_slice n f p) \<and> loc = \<lparr> sl_fileID = di_fileID (ds ! s), sl_start = p \<rparr>)"

definition opens_as :: "(reader \<times> int) res \<Rightarrow> byte list option \<Rightarrow> bool" where
  "opens_as r f = (case f of None \<Rightarrow> r = Inl OsErrNotExist
     | Some c \<Rightarrow> (\<exists>rd. r = Inr (rd, int (length c)) \<and> reader_over rd c))"

record ('fs, 'w) fill_setup =
  fu_io :: "('fs, 'w) fileIO"
  fu_fs :: 'fs
  fu_decoder :: decoder
  fu_files :: "byte list option list"

abbreviation fu_set :: "('fs, 'w) fill_setup \<Rightarrow> decoderInputFileInfo list" where
  "fu_set fu \<equiv> d_recoverySet (fu_decoder fu)"

abbreviation fu_slice :: "('fs, 'w) fill_setup \<Rightarrow> nat" where
  "fu_slice fu \<equiv> d_sliceByteCount (fu_decoder fu)"

definition load_config :: "decoder \<Rightarrow> scan_config" where
  "load_config d = decoder_config d (makeChecksumShardLocationMap (d_sliceByteCount d) (d_recoverySet d))
     (file_id_indices (d_recoverySet d))"

definition fill_setup_ok :: "('fs, 'w) fill_setup \<Rightarrow> bool" where
  "fill_setup_ok fu \<longleftrightarrow> distinct (map di_fileID (fu_set fu)) \<and> 4 \<le> fu_slice fu \<and>
     length (fu_files fu) = length (fu_set fu) \<and>
     (\<forall>i < length (fu_set fu). opens_as (io_OpenRead (fu_io fu) (fu_fs fu)
        (getFilePath (fu_decoder fu) (fu_set fu ! i))) (fu_files fu ! i))"

text \<open>Where slice \<open>q\<close> of file \<open>i\<close> belongs.\<close>

definition own_place :: "('fs, 'w) fill_setup \<Rightarrow> nat \<Rightarrow> nat \<Rightarrow> shardLocation" where
  "own_place fu i q = \<lparr> sl_fileID = di_fileID (fu_set fu ! i), sl_start = q * fu_slice fu \<rparr>"

definition found_below :: "('fs, 'w) fill_setup \<Rightarrow> fileIntegrityInfo list \<Rightarrow> nat \<Rightarrow> nat \<Rightarrow> bool" where
  "found_below fu infos i pos \<longleftrightarrow> (\<forall>q < length (di_checksumPairs (fu_set fu ! i)).
     q * fu_slice fu < pos \<longrightarrow> own_place fu i q \<in> recorded infos i q)"

text \<open>
  How far the scan of an intact file is: everything below \<open>pos\<close> has been found, and \<open>pos\<close> is a slice
  boundary, and the cursor, or past the last slice.
\<close>

definition scan_progress ::
    "('fs, 'w) fill_setup \<Rightarrow> fileIntegrityInfo list \<Rightarrow> nat \<Rightarrow> byte list \<Rightarrow> bool \<Rightarrow> nat \<Rightarrow> bool" where
  "scan_progress fu infos i f at_cursor pos \<longleftrightarrow> (slices_in_place (fu_slice fu) (fu_set fu ! i) f \<longrightarrow>
     found_below fu infos i pos \<and>
     (fu_slice fu dvd pos \<and> at_cursor \<or> length (di_checksumPairs (fu_set fu ! i)) * fu_slice fu \<le> pos))"

definition fill_window :: "('fs, 'w) fill_setup \<Rightarrow> nat" where
  "fill_window fu = (case scanWindowSize (fu_slice fu) of Inl e \<Rightarrow> 0 | Inr w \<Rightarrow> w)"

text \<open>The buffer and the head of a stream that has read \<open>ro\<close> bytes.\<close>

definition stream_ok :: "byte list \<Rightarrow> fill_state \<Rightarrow> byte list \<Rightarrow> bool" where
  "stream_ok f fl buf \<longleftrightarrow> (let ro = nat (fl_readOffset fl) in 0 \<le> fl_readOffset fl \<and>
     fl_windowStart fl \<le> ro \<and> ro \<le> length f \<and> buf = drop (fl_windowStart fl) (take ro f) \<and>
     fl_head fl = take (min (16 * 1024) ro) f)"

definition fill_P :: "('fs, 'w) fill_setup \<Rightarrow> fill_proc \<Rightarrow> load_state \<Rightarrow> bool" where
  "fill_P fu p s = (case p of
       FillOpen i \<Rightarrow> i < length (fu_set fu)
     | FillRead i r sz fl \<Rightarrow> i < length (fu_set fu) \<and> (\<exists>f. fu_files fu ! i = Some f \<and> sz = int (length f) \<and>
         reader_over r f \<and> stream_ok f fl (fl_carried fl) \<and> (fl_readOffset fl < sz \<or> f = []) \<and>
         length (fl_carried fl) \<le> fu_slice fu \<and> scan_progress fu (ls_infos s) i f True (fl_windowStart fl))
     | FillScan i r sz fl atEOF env sc \<Rightarrow> i < length (fu_set fu) \<and> (\<exists>f. fu_files fu ! i = Some f \<and> sz = int (length f) \<and>
         reader_over r f \<and> stream_ok f fl (e_data env) \<and> 0 < length (e_data env) \<and>
         length (e_data env) \<le> fill_window fu \<and>
         env = fill_env (load_config (fu_decoder fu)) i fl (e_data env) (e_limit env) \<and>
         (if atEOF then fl_readOffset fl = sz \<and> e_limit env = length (e_data env)
          else fl_readOffset fl < sz \<and> e_limit env + fu_slice fu = length (e_data env) \<and> fu_slice fu \<le> e_limit env \<and>
            s_j sc \<le> length (e_data env)) \<and>
         roll_ok env sc \<and>
         scan_progress fu (ls_infos s) i f (\<not> s_justMissed sc) (fl_windowStart fl + search_base sc))
     | FillEnd i sz fl \<Rightarrow> i < length (fu_set fu) \<and> (\<exists>f. fu_files fu ! i = Some f \<and> sz = int (length f) \<and>
         fl_head fl = take (16 * 1024) f \<and>
         (slices_in_place (fu_slice fu) (fu_set fu ! i) f \<longrightarrow>
           (\<forall>q < length (di_checksumPairs (fu_set fu ! i)). own_place fu i q \<in> recorded (ls_infos s) i q))))"

definition infos_real :: "('fs, 'w) fill_setup \<Rightarrow> fileIntegrityInfo list \<Rightarrow> bool" where
  "infos_real fu infos \<longleftrightarrow> (\<forall>k < length (fu_set fu). \<forall>i < length (di_checksumPairs (fu_set fu ! k)).
     \<forall>l \<in> recorded infos k i. real_location (fu_slice fu) (fu_set fu) (fu_files fu) (di_checksumPairs (fu_set fu ! k) ! i) l)"

text \<open>The corrupt chunks that the events report of a file.\<close>

fun chunk_ranges :: "fileID \<Rightarrow> gostring \<Rightarrow> decoder_event list \<Rightarrow> (int \<times> int) list" where
  "chunk_ranges fid path [] = []"
| "chunk_ranges fid path (e # es) = (case e of
     OnDetectCorruptDataChunk f p a b \<Rightarrow> if f = fid \<and> p = path then [(a, b)] else [] | _ \<Rightarrow> []) @ chunk_ranges fid path es"

lemma chunk_ranges_append [simp]: "chunk_ranges fid path (xs @ ys) = chunk_ranges fid path xs @ chunk_ranges fid path ys"
  by (induction xs) simp_all

text \<open>No chunk is reported while the files are scanned.\<close>

definition fill_J :: "('fs, 'w) fill_setup \<Rightarrow> load_state \<Rightarrow> bool" where
  "fill_J fu s \<longleftrightarrow> fill_setup_ok fu \<and> infos_ok (fu_set fu) (ls_infos s) \<and> windows_ok (ls_windows s) \<and>
     length (ls_results s) = length (fu_set fu) \<and> infos_real fu (ls_infos s) \<and>
     (\<forall>i < length (fu_set fu). fi_missing (ls_infos s ! i) \<longrightarrow> fu_files fu ! i = None) \<and>
     (\<forall>fid path. chunk_ranges fid path (ls_events s) = [])"

text \<open>The verdict on file \<open>i\<close> has been given, and it is right.\<close>

definition verdict_ok :: "('fs, 'w) fill_setup \<Rightarrow> load_state \<Rightarrow> nat \<Rightarrow> bool" where
  "verdict_ok fu s i \<longleftrightarrow> i < length (fu_set fu) \<and> sr_err (ls_results s ! i) = None \<and>
     (case fu_files fu ! i of
        None \<Rightarrow> fi_missing (ls_infos s ! i) \<and> sr_byteCount (ls_results s ! i) = 0
      | Some f \<Rightarrow> sr_byteCount (ls_results s ! i) = int (length f) \<and>
          (fi_hashMismatch (ls_infos s ! i) \<longleftrightarrow> sixteenKHash f \<noteq> di_sixteenKHash (fu_set fu ! i) \<or>
            \<not> slices_in_place (fu_slice fu) (fu_set fu ! i) f) \<and>
          (fi_hasWrongByteCount (ls_infos s ! i) \<longleftrightarrow> int (length f) \<noteq> di_byteCount (fu_set fu ! i)) \<and>
          (slices_in_place (fu_slice fu) (fu_set fu ! i) f \<longrightarrow>
            (\<forall>q < length (di_checksumPairs (fu_set fu ! i)). own_place fu i q \<in> recorded (ls_infos s) i q)))"

fun fill_file :: "fill_proc \<Rightarrow> nat" where
  "fill_file (FillOpen i) = i"
| "fill_file (FillRead i r sz fl) = i"
| "fill_file (FillScan i r sz fl atEOF env sc) = i"
| "fill_file (FillEnd i sz fl) = i"

definition scan_rank :: "scan_env \<Rightarrow> scan_state \<Rightarrow> nat" where
  "scan_rank env sc = (e_limit env - search_base sc) * (e_limit env + 2) + (e_limit env - s_j sc)"

definition rank_bound :: "nat \<Rightarrow> nat" where
  "rank_bound w = w * (w + 2) + w + 2"

definition fill_size :: "('fs, 'w) fill_setup \<Rightarrow> fill_proc \<Rightarrow> nat" where
  "fill_size fu p = (let B = rank_bound (fill_window fu) in case p of
       FillOpen i \<Rightarrow> (case fu_files fu ! i of None \<Rightarrow> 0 | Some f \<Rightarrow> length f * B + B + 1)
     | FillRead i r sz fl \<Rightarrow> (nat sz - fl_windowStart fl) * B + B
     | FillScan i r sz fl atEOF env sc \<Rightarrow> (nat sz - fl_windowStart fl) * B + scan_rank env sc + 1
     | FillEnd i sz fl \<Rightarrow> 0)"

section \<open>Facts about the scan of a window\<close>

lemma pad_slice_within:
  assumes "off + m \<le> length f" and "j + n \<le> m \<or> off + m = length f"
  shows "pad_slice n (take m (drop off f)) j = pad_slice n f (off + j)"
  using assms by (intro nth_equalityI) (auto simp: nth_pad_slice add.assoc)

lemma scan_rank_bound: "e_limit env \<le> w \<Longrightarrow> scan_rank env sc + 1 < rank_bound w"
proof -
  assume w: "e_limit env \<le> w"
  have "(e_limit env - search_base sc) * (e_limit env + 2) \<le> w * (w + 2)"
    using w by (intro mult_le_mono) simp_all
  then show ?thesis using w by (simp add: scan_rank_def rank_bound_def)
qed

lemma scan_rank_less:
  assumes "search_base sc < search_base sc' \<or> search_base sc' = search_base sc \<and> s_j sc < s_j sc'"
    and "s_j sc < e_limit env" and "search_base sc \<le> s_j sc"
  shows "scan_rank env sc' < scan_rank env sc"
proof (cases "search_base sc < search_base sc'")
  case True
  let ?l = "e_limit env"
  define C where "C = ?l + 2"
  have "Suc (?l - search_base sc') \<le> ?l - search_base sc" using True assms(2,3) by simp
  then have "Suc (?l - search_base sc') * C \<le> (?l - search_base sc) * C" by (rule mult_le_mono1)
  then have "C + (?l - search_base sc') * C \<le> (?l - search_base sc) * C" by (simp only: mult_Suc)
  moreover have "?l - s_j sc' < C" by (simp add: C_def)
  ultimately show ?thesis unfolding scan_rank_def C_def [symmetric] by linarith
next
  case False
  then show ?thesis using assms by (auto simp: scan_rank_def)
qed

text \<open>The cursor moves by at most a slice, and a match moves it by exactly one.\<close>

lemma scan_step_cursor:
  assumes env: "env_ok_scan ds env" and roll: "roll_ok env st" and j: "s_j st < e_limit env"
    and step: "scan_step env st = Inr st'"
  shows "s_j st' \<le> s_j st + e_sliceByteCount env"
    and "k < length ds \<Longrightarrow> i < length (di_checksumPairs (ds ! k)) \<Longrightarrow> matches_at ds env k i (s_j st) \<Longrightarrow>
      s_j st' = s_j st + e_sliceByteCount env \<and> \<not> s_justMissed st'"
proof -
  let ?n = "e_sliceByteCount env"
  define sl where "sl = pad_slice ?n (e_data env) (s_j st)"
  have n: "4 \<le> ?n" and jd: "s_j st \<le> length (e_data env)" using env j by (auto simp: env_ok_scan_def)
  from scan_crc_ok [OF env roll j] obtain x y where
    crc: "scan_crc env sl st = Inr (st\<lparr> s_crcSlice := ChecksumIEEE sl, s_window := x, s_windows := y \<rparr>)"
    by (auto simp: sl_def)
  define st1 where "st1 = st\<lparr> s_crcSlice := ChecksumIEEE sl, s_window := x, s_windows := y \<rparr>"
  have same: "s_j st1 = s_j st" "s_justMissed st1 = s_justMissed st" "s_slideStart st1 = s_slideStart st"
    "s_crcSlice st1 = ChecksumIEEE sl" by (simp_all add: st1_def)
  define found where "found = map_get (e_checksumToLocation env) (ChecksumIEEE sl) sl"
  have "scan_step env st = (if found = [] then Inr (scan_miss env st1) else scan_hit env found st1)"
    using crc by (simp add: scan_step_def sliceAndPad_eq [OF jd] found_def same(4) flip: sl_def st1_def)
  with step have st': "(if found = [] then Inr (scan_miss env st1) else scan_hit env found st1) = Inr st'" by simp
  have slide: "s_justMissed st \<Longrightarrow> s_slideStart st \<le> s_j st" using roll by (simp add: roll_ok_def)
  have hit: "s_j st' = s_j st + ?n \<and> \<not> s_justMissed st'" if "found \<noteq> []"
    using st' that by (auto simp: scan_hit_def Let_def bindR_Inr_iff same)
  show "s_j st' \<le> s_j st + ?n"
  proof (cases "found = []")
    case True
    then have "st' = scan_miss env st1" using st' by simp
    then show ?thesis using n slide by (auto simp: scan_miss_def Let_def same)
  qed (simp add: hit)
  assume "k < length ds" "i < length (di_checksumPairs (ds ! k))" "matches_at ds env k i (s_j st)"
  then have "\<lparr> sl_fileID = di_fileID (ds ! k), sl_start = i * ?n \<rparr> \<in> set found"
    using env by (auto simp: found_def env_ok_scan_def map_get_make matches_at_def sl_def)
  then have "found \<noteq> []" by auto
  then show "s_j st' = s_j st + ?n \<and> \<not> s_justMissed st'" by (rule hit)
qed


section \<open>The steps of a worker\<close>

definition grows :: "('fs, 'w) fill_setup \<Rightarrow> load_state \<Rightarrow> load_state \<Rightarrow> bool" where
  "grows fu s s' \<longleftrightarrow> (\<forall>k < length (fu_set fu). \<forall>i < length (di_checksumPairs (fu_set fu ! k)).
     recorded (ls_infos s) k i \<subseteq> recorded (ls_infos s') k i)"

text \<open>A step of the process for file \<open>i\<close> changes no other file's verdict and loses no match.\<close>

definition keeps :: "('fs, 'w) fill_setup \<Rightarrow> nat \<Rightarrow> load_state \<Rightarrow> load_state \<Rightarrow> bool" where
  "keeps fu i s s' \<longleftrightarrow> grows fu s s' \<and> (\<forall>j < length (fu_set fu). j \<noteq> i \<longrightarrow>
     fi_flags (ls_infos s' ! j) = fi_flags (ls_infos s ! j) \<and> ls_results s' ! j = ls_results s ! j)"

lemma keeps_verdict:
  assumes k: "keeps fu i s s'" and v: "verdict_ok fu s j" and "j \<noteq> i"
  shows "verdict_ok fu s' j"
proof -
  have j: "j < length (fu_set fu)" using v by (simp add: verdict_ok_def)
  then have same: "fi_missing (ls_infos s' ! j) = fi_missing (ls_infos s ! j)"
    "fi_hashMismatch (ls_infos s' ! j) = fi_hashMismatch (ls_infos s ! j)"
    "fi_hasWrongByteCount (ls_infos s' ! j) = fi_hasWrongByteCount (ls_infos s ! j)"
    "ls_results s' ! j = ls_results s ! j"
    using k assms(3) by (simp_all add: keeps_def fi_flags_def)
  have g: "q < length (di_checksumPairs (fu_set fu ! j)) \<Longrightarrow>
      l \<in> recorded (ls_infos s) j q \<Longrightarrow> l \<in> recorded (ls_infos s') j q" for q l
    using k j unfolding keeps_def grows_def by blast
  show ?thesis
  proof (cases "fu_files fu ! j")
    case None
    then show ?thesis using v by (simp add: verdict_ok_def same)
  next
    case (Some f)
    then show ?thesis using v g by (simp add: verdict_ok_def same)
  qed
qed

lemma found_below_grows: "grows fu s s' \<Longrightarrow> i < length (fu_set fu) \<Longrightarrow>
    found_below fu (ls_infos s) i pos \<Longrightarrow> found_below fu (ls_infos s') i pos"
  unfolding grows_def found_below_def by blast

lemma scan_progress_grows: "grows fu s s' \<Longrightarrow> i < length (fu_set fu) \<Longrightarrow>
    scan_progress fu (ls_infos s) i f c pos \<Longrightarrow> scan_progress fu (ls_infos s') i f c pos"
  unfolding scan_progress_def using found_below_grows by blast

lemma fill_P_grows: "grows fu s s' \<Longrightarrow> fill_P fu p s \<Longrightarrow> fill_P fu p s'"
proof (cases p)
  case (FillEnd i sz fl)
  assume "grows fu s s'" "fill_P fu p s"
  then show ?thesis unfolding fill_P_def grows_def FillEnd by auto blast
qed (auto simp: fill_P_def intro: scan_progress_grows)

lemma infos_ok_flags:
  assumes "infos_ok ds infos" and "fi_fileID x = fi_fileID (infos ! i)" and "fi_shardInfos x = fi_shardInfos (infos ! i)"
  shows "infos_ok ds (infos[i := x])" and "recorded (infos[i := x]) = recorded infos"
proof -
  have same: "fi_fileID (infos[i := x] ! k) = fi_fileID (infos ! k)" "fi_shardInfos (infos[i := x] ! k) = fi_shardInfos (infos ! k)" for k
    using assms(2,3) by (cases "i < length infos"; cases "k = i"; simp add: list_update_beyond)+
  show "infos_ok ds (infos[i := x])" using assms(1) by (simp add: infos_ok_def same)
  show "recorded (infos[i := x]) = recorded infos" by (intro ext) (simp add: recorded_def same)
qed

lemma step_open:
  assumes P: "fill_P fu (FillOpen i) s" and J: "fill_J fu s"
  defines "cf \<equiv> load_config (fu_decoder fu)"
  shows "\<exists>p' s'. fill_step (fu_io fu) (fu_fs fu) (fu_decoder fu) cf (FillOpen i) s = Inr (p', s') \<and> fill_J fu s' \<and>
    keeps fu i s s' \<and> (case p' of None \<Rightarrow> verdict_ok fu s' i
      | Some q \<Rightarrow> fill_P fu q s' \<and> fill_file q = i \<and> fill_size fu q < fill_size fu (FillOpen i))"
proof -
  have i: "i < length (fu_set fu)" using P by (simp add: fill_P_def)
  have io: "infos_ok (fu_set fu) (ls_infos s)" and su: "fill_setup_ok fu"
    and rl: "length (ls_results s) = length (fu_set fu)" using J by (auto simp: fill_J_def)
  have li: "length (ls_infos s) = length (fu_set fu)" using infos_okD(1) [OF io] .
  have op: "opens_as (io_OpenRead (fu_io fu) (fu_fs fu) (getFilePath (fu_decoder fu) (fu_set fu ! i))) (fu_files fu ! i)"
    using su i by (simp add: fill_setup_ok_def)
  show ?thesis
  proof (cases "fu_files fu ! i")
    case None
    let ?x = "(ls_infos s ! i)\<lparr> fi_missing := True \<rparr>"
    let ?s = "s\<lparr> ls_infos := mark_missing i (ls_infos s), ls_results := (ls_results s)[i := no_result] \<rparr>"
    have io': "infos_ok (fu_set fu) (mark_missing i (ls_infos s))" "recorded (mark_missing i (ls_infos s)) = recorded (ls_infos s)"
      using infos_ok_flags [OF io, of ?x i] by (simp_all add: mark_missing_def)
    have "fill_step (fu_io fu) (fu_fs fu) (fu_decoder fu) cf (FillOpen i) s = Inr (None, ?s)"
      using op None by (simp add: fill_step_def opens_as_def)
    moreover have "fill_J fu ?s"
      using J None io' i li by (auto simp: fill_J_def infos_real_def mark_missing_def nth_list_update)
    moreover have "keeps fu i s ?s"
      using io'(2) by (auto simp: keeps_def grows_def mark_missing_def nth_list_update)
    moreover have "verdict_ok fu ?s i"
      using i None rl li by (simp add: verdict_ok_def mark_missing_def no_result_def)
    ultimately show ?thesis by (intro exI [of _ None] exI [of _ ?s]) simp
  next
    case (Some f)
    with op obtain rd where rd: "io_OpenRead (fu_io fu) (fu_fs fu) (getFilePath (fu_decoder fu) (fu_set fu ! i)) = Inr (rd, int (length f))"
      "reader_over rd f" by (auto simp: opens_as_def)
    let ?fl = "\<lparr> fl_carried = [], fl_readOffset = 0, fl_windowStart = 0, fl_head = [], fl_hits = 0, fl_misses = 0 \<rparr>"
    let ?q = "FillRead i rd (int (length f)) ?fl"
    have "fill_step (fu_io fu) (fu_fs fu) (fu_decoder fu) cf (FillOpen i) s = Inr (Some ?q, s)"
      using rd(1) by (simp add: fill_step_def)
    moreover have "fill_P fu ?q s"
      using i Some rd(2) by (simp add: fill_P_def stream_ok_def Let_def scan_progress_def found_below_def)
    moreover have "keeps fu i s s" by (simp add: keeps_def grows_def)
    moreover have "fill_size fu ?q < fill_size fu (FillOpen i)" using Some by (simp add: fill_size_def Let_def)
    ultimately show ?thesis using J by (intro exI [of _ "Some ?q"] exI [of _ s]) simp
  qed
qed

lemma step_end:
  assumes P: "fill_P fu (FillEnd i sz fl) s" and J: "fill_J fu s"
  defines "cf \<equiv> load_config (fu_decoder fu)"
  shows "\<exists>s'. fill_step (fu_io fu) (fu_fs fu) (fu_decoder fu) cf (FillEnd i sz fl) s = Inr (None, s') \<and> fill_J fu s' \<and>
    keeps fu i s s' \<and> verdict_ok fu s' i"
proof -
  from P obtain f where i: "i < length (fu_set fu)" and f: "fu_files fu ! i = Some f" "sz = int (length f)"
    and head: "fl_head fl = take (16 * 1024) f"
    and found: "slices_in_place (fu_slice fu) (fu_set fu ! i) f \<Longrightarrow>
      \<forall>q < length (di_checksumPairs (fu_set fu ! i)). own_place fu i q \<in> recorded (ls_infos s) i q"
    by (auto simp: fill_P_def)
  have io: "infos_ok (fu_set fu) (ls_infos s)" and rl: "length (ls_results s) = length (fu_set fu)"
    and real: "infos_real fu (ls_infos s)" and su: "fill_setup_ok fu"
    using J by (auto simp: fill_J_def)
  have li: "length (ls_infos s) = length (fu_set fu)" using infos_okD(1) [OF io] .
  have md: "md5 (take (16 * 1024) f) = sixteenKHash f" by (simp add: sixteenKHash_def)
  let ?fi = "ls_infos s ! i" and ?info = "fu_set fu ! i"
  have ok: "allShardsOK (fu_slice fu) ?fi \<longleftrightarrow> slices_in_place (fu_slice fu) ?info f"
  proof
    assume a: "allShardsOK (fu_slice fu) ?fi"
    show "slices_in_place (fu_slice fu) ?info f"
      unfolding slices_in_place_def
    proof (intro allI impI)
      fix q assume q: "q < length (di_checksumPairs ?info)"
      then have "own_place fu i q \<in> recorded (ls_infos s) i q"
        using a infos_okD(2,3) [OF io i] by (simp add: allShardsOK_def list_all_iff shard_ok_def recorded_def own_place_def)
      then have "real_location (fu_slice fu) (fu_set fu) (fu_files fu) (di_checksumPairs ?info ! q) (own_place fu i q)"
        using real i q by (simp add: infos_real_def)
      then obtain s0 f0 p where r: "s0 < length (fu_files fu)" "fu_files fu ! s0 = Some f0" "p < length f0"
        "pair_matches (di_checksumPairs ?info ! q) (pad_slice (fu_slice fu) f0 p)"
        "own_place fu i q = \<lparr> sl_fileID = di_fileID (fu_set fu ! s0), sl_start = p \<rparr>"
        by (auto simp: real_location_def)
      have "s0 < length (fu_set fu)" "distinct (map di_fileID (fu_set fu))"
        using r(1) su by (auto simp: fill_setup_ok_def)
      then have "s0 = i" using r(5) i nth_eq_iff_index_eq [of "map di_fileID (fu_set fu)" s0 i]
        by (simp add: own_place_def)
      with r f show "q * fu_slice fu < length f \<and> pair_matches (di_checksumPairs ?info ! q) (pad_slice (fu_slice fu) f (q * fu_slice fu))"
        by (simp add: own_place_def)
    qed
  next
    assume "slices_in_place (fu_slice fu) ?info f"
    from found [OF this] show "allShardsOK (fu_slice fu) ?fi"
      using infos_okD(2,3,4) [OF io i] by (auto simp: allShardsOK_def list_all_iff shard_ok_def recorded_def own_place_def)
  qed
  let ?x = "?fi\<lparr> fi_hashMismatch := (md5 (fl_head fl) \<noteq> di_sixteenKHash ?info \<or> \<not> allShardsOK (fu_slice fu) ?fi),
    fi_hasWrongByteCount := (sz \<noteq> di_byteCount ?info) \<rparr>"
  define s' where "s' = (file_verdict (fu_decoder fu) i sz (md5 (fl_head fl)) s)
          \<lparr> ls_results := (ls_results s)[i := \<lparr> sr_byteCount = sz, sr_hits = fl_hits fl,
              sr_misses = fl_misses fl, sr_err = None \<rparr>] \<rparr>"
  have s': "ls_infos s' = (ls_infos s)[i := ?x]" "ls_windows s' = ls_windows s"
    "ls_results s' = (ls_results s)[i := \<lparr> sr_byteCount = sz, sr_hits = fl_hits fl, sr_misses = fl_misses fl, sr_err = None \<rparr>]"
    by (simp_all add: s'_def file_verdict_def Let_def)
  have "chunk_ranges fid path (ls_events s') = chunk_ranges fid path (ls_events s)" for fid path
    by (simp add: s'_def file_verdict_def Let_def)
  note ev = this
  have io': "infos_ok (fu_set fu) (ls_infos s')" "recorded (ls_infos s') = recorded (ls_infos s)"
    using infos_ok_flags [OF io, of ?x i] by (simp_all add: s')
  have "fill_J fu s'"
    using J io' i li f(1) by (auto simp: fill_J_def infos_real_def ev s'(2,3) s'(1) nth_list_update)
  moreover have "keeps fu i s s'"
    using io'(2) by (simp add: keeps_def grows_def s'(1,3))
  moreover have "verdict_ok fu s' i"
    unfolding verdict_ok_def io'(2)
    using i f rl li head md ok found by (simp add: s'(1,3))
  ultimately show ?thesis by (intro exI [of _ s']) (simp add: fill_step_def s'_def)
qed


lemma fill_env_sel [simp]:
  "e_data (fill_env cf i fl window limit) = window"
  "e_limit (fill_env cf i fl window limit) = limit"
  "e_sliceByteCount (fill_env cf i fl window limit) = cf_sliceByteCount cf"
  "e_baseOffset (fill_env cf i fl window limit) = fl_windowStart fl"
  "e_fileID (fill_env cf i fl window limit) = di_fileID (cf_recoverySet cf ! i)"
  by (simp_all add: fill_env_def)

lemma load_config_sel [simp]:
  "cf_sliceByteCount (load_config d) = d_sliceByteCount d"
  "cf_recoverySet (load_config d) = d_recoverySet d"
  by (simp_all add: load_config_def decoder_config_def)

lemma scanWindowSize_two: "scanWindowSize n = Inr w \<Longrightarrow> 2 * n \<le> w"
  by (auto simp: scanWindowSize_def Let_def split: if_splits)

lemma fill_window_ok:
  assumes "fill_setup_ok fu"
  shows "scanWindowSize (fu_slice fu) = Inr (fill_window fu)" and "2 * fu_slice fu \<le> fill_window fu"
proof -
  have "fu_slice fu \<noteq> 0" using assms by (auto simp: fill_setup_ok_def)
  then obtain w where "scanWindowSize (fu_slice fu) = Inr w" by (auto simp: scanWindowSize_def Let_def)
  then show "scanWindowSize (fu_slice fu) = Inr (fill_window fu)" "2 * fu_slice fu \<le> fill_window fu"
    using scanWindowSize_two by (auto simp: fill_window_def)
qed

text \<open>Reading \<open>n\<close> more bytes.\<close>

lemma stream_read:
  assumes "stream_ok f fl buf" and n: "n = min m (length f - nat (fl_readOffset fl))"
    and bytes: "bytes = take n (drop (nat (fl_readOffset fl)) f)"
  shows "stream_ok f (fl\<lparr> fl_head := (if length (fl_head fl) < 16 * 1024
      then fl_head fl @ take (min n (16 * 1024 - length (fl_head fl))) bytes else fl_head fl),
    fl_readOffset := fl_readOffset fl + int n \<rparr>) (buf @ bytes)"
proof -
  define ro where "ro = nat (fl_readOffset fl)"
  have ro: "fl_readOffset fl = int ro" "fl_windowStart fl \<le> ro" "ro \<le> length f"
    and buf: "buf = drop (fl_windowStart fl) (take ro f)" and head: "fl_head fl = take (min (16 * 1024) ro) f"
    using assms(1) by (auto simp: stream_ok_def Let_def ro_def)
  have b: "bytes = take n (drop ro f)" and nl: "ro + n \<le> length f" using bytes n ro(1,3) by auto
  have "buf @ bytes = drop (fl_windowStart fl) (take (ro + n) f)"
    using ro by (simp add: buf b take_add)
  moreover have "(if length (fl_head fl) < 16 * 1024
      then fl_head fl @ take (min n (16 * 1024 - length (fl_head fl))) bytes else fl_head fl)
    = take (min (16 * 1024) (ro + n)) f"
  proof (cases "ro < 16 * 1024")
    case True
    have l: "length (fl_head fl) = ro" using True ro(3) by (simp add: head)
    have "take (min n (16 * 1024 - ro)) bytes = take (min n (16 * 1024 - ro)) (drop ro f)"
      by (simp add: b min_def)
    moreover have "ro + min n (16 * 1024 - ro) = min (16 * 1024) (ro + n)" using True by auto
    ultimately show ?thesis using True head l by (simp add: take_add [symmetric])
  next
    case False
    then show ?thesis using ro(3) by (simp add: head)
  qed
  moreover have "nat (fl_readOffset fl + int n) = ro + n" by (simp add: ro(1))
  ultimately show ?thesis using ro(1,2) nl by (simp add: stream_ok_def Let_def)
qed

lemma step_read:
  assumes P: "fill_P fu (FillRead i r sz fl) s" and J: "fill_J fu s"
  defines "cf \<equiv> load_config (fu_decoder fu)"
  shows "\<exists>q. fill_step (fu_io fu) (fu_fs fu) (fu_decoder fu) cf (FillRead i r sz fl) s = Inr (Some q, s) \<and>
    fill_P fu q s \<and> fill_file q = i \<and> fill_size fu q < fill_size fu (FillRead i r sz fl)"
proof -
  define W where "W = fill_window fu"
  define ro where "ro = nat (fl_readOffset fl)"
  from P obtain f where i: "i < length (fu_set fu)" and f: "fu_files fu ! i = Some f" "sz = int (length f)"
    and rd: "reader_over r f" and st: "stream_ok f fl (fl_carried fl)"
    and more: "fl_readOffset fl < sz \<or> f = []" and carry: "length (fl_carried fl) \<le> fu_slice fu"
    and prog: "scan_progress fu (ls_infos s) i f True (fl_windowStart fl)"
    by (auto simp: fill_P_def)
  have su: "fill_setup_ok fu" using J by (simp add: fill_J_def)
  note W = fill_window_ok [OF su, folded W_def]
  have n4: "4 \<le> fu_slice fu" using su by (simp add: fill_setup_ok_def)
  have cfs: "cf_sliceByteCount cf = fu_slice fu" by (simp add: cf_def load_config_def decoder_config_def)
  have ro: "fl_readOffset fl = int ro" "ro \<le> length f" using st by (auto simp: stream_ok_def Let_def ro_def)
  define n where "n = min (W - length (fl_carried fl)) (length f - ro)"
  have n_eq: "(if int (W - length (fl_carried fl)) > sz - fl_readOffset fl then nat (sz - fl_readOffset fl)
      else W - length (fl_carried fl)) = n"
    using ro by (auto simp: n_def f(2))
  define bytes where "bytes = take n (drop ro f)"
  have read: "(if n > 0 then r (fl_readOffset fl) n else Inr []) = Inr bytes"
    using reader_over.reads [OF rd, of "int ro" n] ro by (auto simp: bytes_def n_def)
  define fl' where "fl' = fl\<lparr> fl_head := (if length (fl_head fl) < 16 * 1024
      then fl_head fl @ take (min n (16 * 1024 - length (fl_head fl))) bytes else fl_head fl),
    fl_readOffset := fl_readOffset fl + int n \<rparr>"
  define window where "window = fl_carried fl @ bytes"
  have st': "stream_ok f fl' window"
    using stream_read [OF st, of n "W - length (fl_carried fl)" bytes] by (simp add: fl'_def window_def n_def bytes_def ro_def)
  define atEOF where "atEOF \<longleftrightarrow> fl_readOffset fl + int n \<ge> sz"
  define limit where "limit = (if atEOF then length window else length window - fu_slice fu)"
  have step: "fill_step (fu_io fu) (fu_fs fu) (fu_decoder fu) cf (FillRead i r sz fl) s =
      Inr (Some (if length window = 0 then FillEnd i sz fl'
        else FillScan i r sz fl' atEOF (fill_env cf i fl' window limit) (scan_init [] Map.empty)), s)"
  proof -
    have e: "fill_env cf i fl window limit = fill_env cf i fl' window limit" by (simp add: fill_env_def fl'_def)
    have "fill_read cf i r sz fl s = (if length window = 0 then Inr (Some (FillEnd i sz fl'), s)
        else Inr (Some (FillScan i r sz fl' atEOF (fill_env cf i fl window limit) (scan_init [] Map.empty)), s))"
      unfolding fill_read_def cfs W(1) bindR_simps Let_def n_eq read sum.case
      unfolding fl'_def [symmetric] window_def [symmetric] atEOF_def [symmetric] limit_def [symmetric] by (rule refl)
    then show ?thesis by (simp add: fill_step_def e)
  qed
  show ?thesis
  proof (cases "f = []")
    case True
    then have w: "window = []" and h: "fl_head fl' = []"
      using st' by (auto simp: stream_ok_def Let_def)
    have "fill_P fu (FillEnd i sz fl') s"
      using i f True h by (auto simp: fill_P_def slices_in_place_def)
    moreover have "fill_size fu (FillEnd i sz fl') < fill_size fu (FillRead i r sz fl)"
      by (simp add: fill_size_def Let_def rank_bound_def)
    ultimately show ?thesis using step w by (intro exI [of _ "FillEnd i sz fl'"]) simp
  next
    case False
    then have "ro < length f" using more f(2) ro(1) by simp
    then have npos: "0 < n" using carry W(2) n4 by (simp add: n_def)
    have lb: "length bytes = n" using ro by (simp add: bytes_def n_def)
    then have wl: "length window = length (fl_carried fl) + n" by (simp add: window_def)
    have wW: "length window \<le> W" using carry W(2) by (simp add: wl n_def)
    have full: "length window = W" if "\<not> atEOF"
    proof -
      have "n \<noteq> length f - ro" using that ro \<open>ro < length f\<close> by (auto simp: atEOF_def f(2))
      then have "n = W - length (fl_carried fl)" by (simp add: n_def min_def split: if_splits)
      then show ?thesis using carry W(2) by (simp add: wl)
    qed
    let ?env = "fill_env cf i fl' window limit"
    let ?q = "FillScan i r sz fl' atEOF ?env (scan_init [] Map.empty)"
    have eof: "fl_readOffset fl' = sz" if atEOF
      using that ro n_def by (auto simp: fl'_def atEOF_def f(2))
    have noteof: "fl_readOffset fl' < sz" if "\<not> atEOF" using that by (simp add: fl'_def atEOF_def)
    have "scan_progress fu (ls_infos s) i f (\<not> s_justMissed (scan_init [] Map.empty))
        (fl_windowStart fl' + search_base (scan_init [] Map.empty))"
      using prog by (simp add: scan_init_def search_base_def fl'_def)
    moreover have "roll_ok ?env (scan_init [] Map.empty)"
      by (simp add: roll_ok_def scan_init_def windows_ok_def)
    ultimately have "fill_P fu ?q s"
      using i f rd st' npos wl wW eof noteof full W(2) unfolding fill_P_def
      by (auto simp: cf_def W_def limit_def scan_init_def)
    moreover have "fill_size fu ?q < fill_size fu (FillRead i r sz fl)"
    proof -
      have "limit \<le> W" using wW by (auto simp: limit_def)
      then have "scan_rank ?env (scan_init [] Map.empty) + 1 < rank_bound W"
        by (intro scan_rank_bound) simp
      moreover have "fl_windowStart fl' = fl_windowStart fl" by (simp add: fl'_def)
      ultimately show ?thesis by (simp add: fill_size_def Let_def W_def)
    qed
    ultimately show ?thesis using step npos wl by (intro exI [of _ ?q]) simp
  qed
qed


lemma fill_env_ok:
  "fill_setup_ok fu \<Longrightarrow> limit \<le> length window \<Longrightarrow>
    env_ok_scan (fu_set fu) (fill_env (load_config (fu_decoder fu)) i fl window limit)"
  by (simp add: env_ok_scan_def fill_env_def load_config_def decoder_config_def fill_setup_ok_def)

lemma found_below_all:
  assumes "found_below fu infos i pos" and "length (di_checksumPairs (fu_set fu ! i)) * fu_slice fu \<le> pos"
    and "4 \<le> fu_slice fu" and "q < length (di_checksumPairs (fu_set fu ! i))"
  shows "own_place fu i q \<in> recorded infos i q"
proof -
  have "q * fu_slice fu < length (di_checksumPairs (fu_set fu ! i)) * fu_slice fu" using assms(3,4) by simp
  also note assms(2)
  finally show ?thesis using assms(1,4) by (simp add: found_below_def)
qed

text \<open>One turn of \<open>scanBuffer\<close> keeps the progress of an intact file.\<close>

lemma progress_step:
  assumes su: "fill_setup_ok fu" and i: "i < length (fu_set fu)" and f: "fu_files fu ! i = Some f"
    and env: "env_ok_scan (fu_set fu) env" "e_sliceByteCount env = fu_slice fu" "e_fileID env = di_fileID (fu_set fu ! i)"
    and win: "\<And>j. j < e_limit env \<Longrightarrow> pad_slice (fu_slice fu) (e_data env) j = pad_slice (fu_slice fu) f (e_baseOffset env + j)"
    and roll: "roll_ok env sc" and j: "s_j sc < e_limit env" and step: "scan_step env sc = Inr sc1"
    and adds: "adds_at (fu_set fu) env (s_j sc) infos infos1"
    and base: "search_base sc \<le> search_base sc1"
    and prog: "scan_progress fu infos i f (\<not> s_justMissed sc) (e_baseOffset env + search_base sc)"
  shows "scan_progress fu infos1 i f (\<not> s_justMissed sc1) (e_baseOffset env + search_base sc1)"
  unfolding scan_progress_def
proof
  assume ip: "slices_in_place (fu_slice fu) (fu_set fu ! i) f"
  let ?n = "fu_slice fu" and ?L = "length (di_checksumPairs (fu_set fu ! i))"
  define pos where "pos = e_baseOffset env + search_base sc"
  have n4: "4 \<le> ?n" using su by (simp add: fill_setup_ok_def)
  have fb: "found_below fu infos i pos" and at: "?n dvd pos \<and> \<not> s_justMissed sc \<or> ?L * ?n \<le> pos"
    using prog ip by (auto simp: scan_progress_def pos_def)
  have mono: "q < ?L \<Longrightarrow> l \<in> recorded infos i q \<Longrightarrow> l \<in> recorded infos1 i q" for q l
    using adds i by (auto simp: adds_at_def)
  show "found_below fu infos1 i (e_baseOffset env + search_base sc1) \<and>
    (?n dvd e_baseOffset env + search_base sc1 \<and> \<not> s_justMissed sc1 \<or> ?L * ?n \<le> e_baseOffset env + search_base sc1)"
  proof (cases "?L * ?n \<le> pos")
    case True
    have "found_below fu infos1 i x" for x
      unfolding found_below_def using mono found_below_all [OF fb True n4] by blast
    moreover have "?L * ?n \<le> e_baseOffset env + search_base sc1"
      by (rule order_trans [OF True]) (simp add: pos_def base)
    ultimately show ?thesis by blast
  next
    case False
    then have d: "?n dvd pos" and jm: "\<not> s_justMissed sc" using at by auto
    then have sb: "search_base sc = s_j sc" by (simp add: search_base_def)
    obtain q where q: "pos = q * ?n" using d by (metis dvdE mult.commute)
    have qL: "q < ?L" using False n4 by (simp add: q)
    have p: "e_baseOffset env + s_j sc = q * ?n" using q sb by (simp add: pos_def)
    have "pair_matches (di_checksumPairs (fu_set fu ! i) ! q) (pad_slice ?n f (q * ?n))"
      using ip qL by (simp add: slices_in_place_def)
    then have m: "matches_at (fu_set fu) env i q (s_j sc)"
      using win [OF j] by (simp add: matches_at_def env(2) p)
    note scan_step_cursor(2) [OF env(1) roll j step i, of q]
    with m have j1: "s_j sc1 = s_j sc + ?n" "\<not> s_justMissed sc1" using qL env(2) by auto
    then have p1: "e_baseOffset env + search_base sc1 = pos + ?n" using sb by (simp add: search_base_def pos_def)
    have own: "own_place fu i q \<in> recorded infos1 i q"
    proof -
      have "own_place fu i q = loc_at env (s_j sc)"
        using q sb by (simp add: own_place_def loc_at_def env(3) pos_def)
      then show ?thesis
        using adds i qL m by (simp add: adds_at_def)
    qed
    have "found_below fu infos1 i (pos + ?n)"
      unfolding found_below_def
    proof (intro allI impI)
      fix q' assume q': "q' < ?L" "q' * ?n < pos + ?n"
      have "q' * ?n < Suc q * ?n" using q'(2) q by simp
      then have "q' < Suc q" using n4 by (metis mult_less_cancel2)
      then consider "q' = q" | "q' < q" by linarith
      then show "own_place fu i q' \<in> recorded infos1 i q'"
      proof cases
        case 2
        then have "q' * ?n < pos" using q n4 by simp
        then show ?thesis using fb q'(1) mono by (simp add: found_below_def)
      qed (simp add: own)
    qed
    moreover have "?n dvd pos + ?n" using d by simp
    ultimately show ?thesis using j1(2) p1 by simp
  qed
qed

lemma step_scan:
  assumes P: "fill_P fu (FillScan i r sz fl atEOF env sc) s" and J: "fill_J fu s" and j: "s_j sc < e_limit env"
  defines "cf \<equiv> load_config (fu_decoder fu)"
  shows "\<exists>q s'. fill_step (fu_io fu) (fu_fs fu) (fu_decoder fu) cf (FillScan i r sz fl atEOF env sc) s = Inr (Some q, s') \<and>
    fill_J fu s' \<and> keeps fu i s s' \<and> fill_P fu q s' \<and> fill_file q = i \<and>
    fill_size fu q < fill_size fu (FillScan i r sz fl atEOF env sc)"
proof -
  let ?n = "fu_slice fu"
  from P obtain f where i: "i < length (fu_set fu)" and f: "fu_files fu ! i = Some f" "sz = int (length f)"
    and rd: "reader_over r f" and st: "stream_ok f fl (e_data env)" and ne: "0 < length (e_data env)"
    and wW: "length (e_data env) \<le> fill_window fu"
    and env: "env = fill_env cf i fl (e_data env) (e_limit env)"
    and lim: "if atEOF then fl_readOffset fl = sz \<and> e_limit env = length (e_data env)
          else fl_readOffset fl < sz \<and> e_limit env + ?n = length (e_data env) \<and> ?n \<le> e_limit env \<and>
            s_j sc \<le> length (e_data env)"
    and roll: "roll_ok env sc"
    and prog: "scan_progress fu (ls_infos s) i f (\<not> s_justMissed sc) (fl_windowStart fl + search_base sc)"
    by (auto simp: fill_P_def cf_def)
  have su: "fill_setup_ok fu" and io: "infos_ok (fu_set fu) (ls_infos s)" and wo: "windows_ok (ls_windows s)"
    and real: "infos_real fu (ls_infos s)" using J by (auto simp: fill_J_def)
  have le: "e_limit env \<le> length (e_data env)" using lim by (auto split: if_splits)
  have eok: "env_ok_scan (fu_set fu) env"
    using fill_env_ok [OF su le, of i fl] env by (simp add: cf_def)
  have esel: "e_sliceByteCount env = ?n" "e_fileID env = di_fileID (fu_set fu ! i)" "e_baseOffset env = fl_windowStart fl"
    using arg_cong [OF env, of e_sliceByteCount] arg_cong [OF env, of e_fileID] arg_cong [OF env, of e_baseOffset]
    by (simp_all add: cf_def)
  define ro where "ro = nat (fl_readOffset fl)"
  have ro: "fl_readOffset fl = int ro" "fl_windowStart fl \<le> ro" "ro \<le> length f"
    and data: "e_data env = take (ro - fl_windowStart fl) (drop (fl_windowStart fl) f)"
    using st by (auto simp: stream_ok_def Let_def ro_def drop_take)
  have dl: "length (e_data env) = ro - fl_windowStart fl" using ro by (simp add: data)
  have win: "pad_slice ?n (e_data env) k = pad_slice ?n f (e_baseOffset env + k)" if "k < e_limit env" for k
    unfolding data esel(3)
  proof (rule pad_slice_within)
    show "fl_windowStart fl + (ro - fl_windowStart fl) \<le> length f" using ro by simp
    show "k + ?n \<le> ro - fl_windowStart fl \<or> fl_windowStart fl + (ro - fl_windowStart fl) = length f"
      using lim that dl ro f(2) by (cases atEOF) auto
  qed
  define sc' where "sc' = sc\<lparr> s_infos := ls_infos s, s_windows := ls_windows s \<rparr>"
  have roll': "roll_ok env sc'" unfolding sc'_def by (rule roll_ok_shared [OF roll wo])
  have same: "s_j sc' = s_j sc" "search_base sc' = search_base sc" "s_justMissed sc' = s_justMissed sc" "s_infos sc' = ls_infos s"
    by (simp_all add: sc'_def search_base_def)
  have j': "s_j sc' < e_limit env" using j same by simp
  from scan_step_ok [OF eok roll' j'] io obtain sc1 where
    step: "scan_step env sc' = Inr sc1" "roll_ok env sc1" "infos_ok (fu_set fu) (s_infos sc1)"
    and adds: "adds_at (fu_set fu) env (s_j sc) (ls_infos s) (s_infos sc1)"
    and dec: "search_base sc < search_base sc1 \<or> search_base sc1 = search_base sc \<and> s_j sc < s_j sc1"
    unfolding same adds_at_def by auto
  let ?q = "FillScan i r sz fl atEOF env sc1"
  let ?s = "s\<lparr> ls_infos := s_infos sc1, ls_windows := s_windows sc1 \<rparr>"
  have fstep: "fill_step (fu_io fu) (fu_fs fu) (fu_decoder fu) cf (FillScan i r sz fl atEOF env sc) s = Inr (Some ?q, ?s)"
    using j step(1) by (simp add: fill_step_def Let_def flip: sc'_def)
  have grow: "grows fu s ?s" using adds by (auto simp: grows_def adds_at_def)
  have flags: "map fi_flags (s_infos sc1) = map fi_flags (ls_infos s)"
    using scan_step_flags [OF step(1)] same by simp
  then have fl: "fi_flags (s_infos sc1 ! k) = fi_flags (ls_infos s ! k)" if "k < length (fu_set fu)" for k
    using that infos_okD(1) [OF io] infos_okD(1) [OF step(3)] by (metis nth_map)
  have "infos_real fu (s_infos sc1)"
    unfolding infos_real_def
  proof (intro allI impI ballI)
    fix k q l assume k: "k < length (fu_set fu)" and q: "q < length (di_checksumPairs (fu_set fu ! k))"
      and l: "l \<in> recorded (s_infos sc1) k q"
    let ?R = "real_location ?n (fu_set fu) (fu_files fu) (di_checksumPairs (fu_set fu ! k) ! q)"
    show "?R l"
    proof (cases "l \<in> recorded (ls_infos s) k q")
      case True
      then show ?thesis using real k q by (simp add: infos_real_def)
    next
      case False
      then have l': "l = loc_at env (s_j sc)" and m: "matches_at (fu_set fu) env k q (s_j sc)"
        using adds k q l by (auto simp: adds_at_def split: if_splits)
      have "pair_matches (di_checksumPairs (fu_set fu ! k) ! q) (pad_slice ?n f (fl_windowStart fl + s_j sc))"
        using m win [OF j] by (simp add: matches_at_def esel)
      moreover have "fl_windowStart fl + s_j sc < length f" using j le dl ro by linarith
      moreover have "i < length (fu_files fu)" using su i by (simp add: fill_setup_ok_def)
      ultimately show ?thesis
        unfolding real_location_def l' loc_at_def esel using f(1) by blast
    qed
  qed
  moreover have "windows_ok (s_windows sc1)" using step(2) by (simp add: roll_ok_def)
  moreover have "fi_missing (s_infos sc1 ! k) = fi_missing (ls_infos s ! k)" if "k < length (fu_set fu)" for k
    using fl [OF that] by (simp add: fi_flags_def)
  ultimately have J': "fill_J fu ?s" using J step(3) by (simp add: fill_J_def)
  have keep: "keeps fu i s ?s" using grow fl by (simp add: keeps_def)
  have base: "search_base sc' \<le> search_base sc1" using dec same by auto
  have "scan_progress fu (s_infos sc1) i f (\<not> s_justMissed sc1) (e_baseOffset env + search_base sc1)"
    by (rule progress_step [OF su i f(1) eok esel(1,2) win roll' j' step(1) _ base, where infos = "ls_infos s"])
      (use adds prog esel same in simp_all)
  then have prog': "scan_progress fu (ls_infos ?s) i f (\<not> s_justMissed sc1) (fl_windowStart fl + search_base sc1)"
    by (simp add: esel)
  have "s_j sc1 \<le> length (e_data env)" if "\<not> atEOF"
    using scan_step_cursor(1) [OF eok roll' j' step(1)] lim j that by (simp add: esel same)
  then have P': "fill_P fu ?q ?s"
    using i f rd st ne wW env lim step(2) prog' unfolding fill_P_def cf_def by auto
  have "search_base sc \<le> s_j sc" using roll by (auto simp: search_base_def roll_ok_def)
  then have "scan_rank env sc1 < scan_rank env sc" using scan_rank_less [OF dec j] by simp
  then have "fill_size fu ?q < fill_size fu (FillScan i r sz fl atEOF env sc)" by (simp add: fill_size_def Let_def)
  with fstep J' keep P' show ?thesis by (intro exI [of _ ?q] exI [of _ ?s]) simp
qed


lemma step_carry:
  assumes P: "fill_P fu (FillScan i r sz fl atEOF env sc) s" and J: "fill_J fu s" and j: "\<not> s_j sc < e_limit env"
  defines "cf \<equiv> load_config (fu_decoder fu)"
  shows "\<exists>q. fill_step (fu_io fu) (fu_fs fu) (fu_decoder fu) cf (FillScan i r sz fl atEOF env sc) s = Inr (Some q, s) \<and>
    fill_P fu q s \<and> fill_file q = i \<and> fill_size fu q < fill_size fu (FillScan i r sz fl atEOF env sc)"
proof -
  let ?n = "fu_slice fu"
  from P obtain f where i: "i < length (fu_set fu)" and f: "fu_files fu ! i = Some f" "sz = int (length f)"
    and rd: "reader_over r f" and st: "stream_ok f fl (e_data env)" and ne: "0 < length (e_data env)"
    and lim: "if atEOF then fl_readOffset fl = sz \<and> e_limit env = length (e_data env)
          else fl_readOffset fl < sz \<and> e_limit env + ?n = length (e_data env) \<and> ?n \<le> e_limit env \<and>
            s_j sc \<le> length (e_data env)"
    and roll: "roll_ok env sc"
    and prog: "scan_progress fu (ls_infos s) i f (\<not> s_justMissed sc) (fl_windowStart fl + search_base sc)"
    by (auto simp: fill_P_def cf_def)
  have n4: "4 \<le> ?n" using J by (simp add: fill_J_def fill_setup_ok_def)
  define ro where "ro = nat (fl_readOffset fl)"
  have ro: "fl_readOffset fl = int ro" "fl_windowStart fl \<le> ro" "ro \<le> length f"
    and data: "e_data env = drop (fl_windowStart fl) (take ro f)" and head: "fl_head fl = take (min (16 * 1024) ro) f"
    using st by (auto simp: stream_ok_def Let_def ro_def)
  have dl: "length (e_data env) = ro - fl_windowStart fl" using ro by (simp add: data)
  have sb: "search_base sc \<le> s_j sc" using roll by (auto simp: search_base_def roll_ok_def)
  define fl1 where "fl1 = fl\<lparr> fl_hits := fl_hits fl + s_hits sc, fl_misses := fl_misses fl + s_misses sc \<rparr>"
  show ?thesis
  proof (cases atEOF)
    case True
    then have r: "ro = length f" "e_limit env = length (e_data env)" using lim f(2) ro by auto
    have found: "own_place fu i q \<in> recorded (ls_infos s) i q"
      if ip: "slices_in_place ?n (fu_set fu ! i) f" and q: "q < length (di_checksumPairs (fu_set fu ! i))" for q
    proof -
      have fb: "found_below fu (ls_infos s) i (fl_windowStart fl + search_base sc)"
        using prog ip by (simp add: scan_progress_def)
      consider "\<not> s_justMissed sc" | "length (di_checksumPairs (fu_set fu ! i)) * ?n \<le> fl_windowStart fl + search_base sc"
        using prog ip by (auto simp: scan_progress_def)
      then show ?thesis
      proof cases
        case 1
        then have "length f \<le> fl_windowStart fl + search_base sc"
          using j r dl ro(2) by (simp add: search_base_def)
        moreover have "q * ?n < length f" using ip q by (simp add: slices_in_place_def)
        ultimately show ?thesis using fb q by (simp add: found_below_def)
      next
        case 2
        then show ?thesis by (rule found_below_all [OF fb _ n4 q])
      qed
    qed
    let ?q = "FillEnd i sz fl1"
    have "fill_step (fu_io fu) (fu_fs fu) (fu_decoder fu) cf (FillScan i r sz fl atEOF env sc) s = Inr (Some ?q, s)"
      using j True by (simp add: fill_step_def fill_carry_def Let_def fl1_def)
    moreover have "take (min (16 * 1024) (length f)) f = take (16 * 1024) f" by (simp add: min_def)
    then have "fill_P fu ?q s"
      using i f found head r by (simp add: fill_P_def fl1_def)
    ultimately show ?thesis by (intro exI [of _ ?q]) (simp add: fill_size_def Let_def)
  next
    case False
    then have lm: "fl_readOffset fl < sz" "e_limit env + ?n = length (e_data env)" "?n \<le> e_limit env" "s_j sc \<le> length (e_data env)"
      using lim by auto
    define tail where "tail = drop (s_j sc) (e_data env)"
    let ?q = "FillRead i r sz (fl1\<lparr> fl_carried := tail, fl_windowStart := fl_windowStart fl + s_j sc \<rparr>)"
    have "fill_step (fu_io fu) (fu_fs fu) (fu_decoder fu) cf (FillScan i r sz fl atEOF env sc) s = Inr (Some ?q, s)"
      using j False lm(4) by (simp add: fill_step_def fill_carry_def Let_def fl1_def tail_def slice_def)
    moreover have "scan_progress fu (ls_infos s) i f True (fl_windowStart fl + s_j sc)"
      unfolding scan_progress_def
    proof
      assume ip: "slices_in_place ?n (fu_set fu ! i) f"
      then have fb: "found_below fu (ls_infos s) i (fl_windowStart fl + search_base sc)"
        using prog by (simp add: scan_progress_def)
      consider "\<not> s_justMissed sc" "?n dvd fl_windowStart fl + search_base sc"
        | "length (di_checksumPairs (fu_set fu ! i)) * ?n \<le> fl_windowStart fl + search_base sc"
        using prog ip by (auto simp: scan_progress_def)
      then show "found_below fu (ls_infos s) i (fl_windowStart fl + s_j sc) \<and>
          (?n dvd fl_windowStart fl + s_j sc \<and> True \<or>
           length (di_checksumPairs (fu_set fu ! i)) * ?n \<le> fl_windowStart fl + s_j sc)"
      proof cases
        case 1
        then show ?thesis using fb by (simp add: search_base_def)
      next
        case 2
        then show ?thesis using found_below_all [OF fb 2 n4] sb by (auto simp: found_below_def)
      qed
    qed
    moreover have "stream_ok f (fl1\<lparr> fl_carried := tail, fl_windowStart := fl_windowStart fl + s_j sc \<rparr>) tail"
      using ro head lm(4) dl by (simp add: stream_ok_def Let_def fl1_def tail_def data add.commute)
    moreover have "length tail \<le> ?n" using j lm by (simp add: tail_def)
    ultimately have "fill_P fu ?q s"
      using i f rd lm(1) by (simp add: fill_P_def fl1_def)
    moreover have "fill_size fu ?q < fill_size fu (FillScan i r sz fl atEOF env sc)"
    proof -
      define B where "B = rank_bound (fill_window fu)"
      have "1 \<le> s_j sc" using j lm n4 by linarith
      moreover have "fl_windowStart fl < length f" using ne dl ro by linarith
      ultimately have "Suc (length f - (fl_windowStart fl + s_j sc)) \<le> length f - fl_windowStart fl" by simp
      then have "Suc (length f - (fl_windowStart fl + s_j sc)) * B \<le> (length f - fl_windowStart fl) * B" by (rule mult_le_mono1)
      then have "B + (length f - (fl_windowStart fl + s_j sc)) * B \<le> (length f - fl_windowStart fl) * B" by (simp only: mult_Suc)
      then show ?thesis by (simp add: fill_size_def Let_def f(2) fl1_def flip: B_def)
    qed
    ultimately show ?thesis
      using j False lm(4) by (intro exI [of _ ?q]) (simp add: fill_step_def fill_carry_def Let_def fl1_def tail_def slice_def)
  qed
qed

lemma fill_step_ok:
  assumes P: "fill_P fu p s" and J: "fill_J fu s"
  shows "\<exists>p' s'. fill_step (fu_io fu) (fu_fs fu) (fu_decoder fu) (load_config (fu_decoder fu)) p s = Inr (p', s') \<and>
    fill_J fu s' \<and> keeps fu (fill_file p) s s' \<and>
    (case p' of None \<Rightarrow> verdict_ok fu s' (fill_file p)
     | Some q \<Rightarrow> fill_P fu q s' \<and> fill_file q = fill_file p \<and> fill_size fu q < fill_size fu p)"
proof -
  have k: "keeps fu i s s" for i by (simp add: keeps_def grows_def)
  show ?thesis
  proof (cases p)
    case (FillOpen i)
    show ?thesis using step_open [of fu i s] P J unfolding FillOpen fill_file.simps by blast
  next
    case (FillRead i r sz fl)
    with P J step_read [of fu i r sz fl s] obtain q where
      "fill_step (fu_io fu) (fu_fs fu) (fu_decoder fu) (load_config (fu_decoder fu)) p s = Inr (Some q, s)"
      "fill_P fu q s" "fill_file q = i" "fill_size fu q < fill_size fu p" by auto
    then show ?thesis using J k FillRead by (intro exI [of _ "Some q"] exI [of _ s]) simp
  next
    case (FillScan i r sz fl atEOF env sc)
    show ?thesis
    proof (cases "s_j sc < e_limit env")
      case True
      with P J step_scan [of fu i r sz fl atEOF env sc s] FillScan obtain q s' where
        "fill_step (fu_io fu) (fu_fs fu) (fu_decoder fu) (load_config (fu_decoder fu)) p s = Inr (Some q, s')"
        "fill_J fu s'" "keeps fu i s s'" "fill_P fu q s'" "fill_file q = i" "fill_size fu q < fill_size fu p" by auto
      then show ?thesis using FillScan by (intro exI [of _ "Some q"] exI [of _ s']) simp
    next
      case False
      with P J step_carry [of fu i r sz fl atEOF env sc s] FillScan obtain q where
        "fill_step (fu_io fu) (fu_fs fu) (fu_decoder fu) (load_config (fu_decoder fu)) p s = Inr (Some q, s)"
        "fill_P fu q s" "fill_file q = i" "fill_size fu q < fill_size fu p" by auto
      then show ?thesis using J k FillScan by (intro exI [of _ "Some q"] exI [of _ s]) simp
    qed
  next
    case (FillEnd i sz fl)
    with P J step_end [of fu i sz fl s] obtain s' where
      "fill_step (fu_io fu) (fu_fs fu) (fu_decoder fu) (load_config (fu_decoder fu)) p s = Inr (None, s')"
      "fill_J fu s'" "keeps fu i s s'" "verdict_ok fu s' i" by auto
    then show ?thesis using FillEnd by (intro exI [of _ None] exI [of _ s']) simp
  qed
qed

interpretation fill_pool: pool_work FillOpen
  "fill_step (fu_io fu) (fu_fs fu) (fu_decoder fu) (load_config (fu_decoder fu))"
  "\<lambda>i. i < length (fu_set fu)" "fill_P fu" "fill_J fu" "\<lambda>p. {fill_file p}" "\<lambda>s. {i. verdict_ok fu s i}"
  "fill_size fu" for fu
proof unfold_locales
  fix i s assume "i < length (fu_set fu)"
  then show "fill_P fu (FillOpen i) s" by (simp add: fill_P_def)
next
  fix p s assume PJ: "fill_P fu p s" "fill_J fu s"
  from fill_step_ok [OF this] obtain p' s' where
    s: "fill_step (fu_io fu) (fu_fs fu) (fu_decoder fu) (load_config (fu_decoder fu)) p s = Inr (p', s')"
    "fill_J fu s'" "keeps fu (fill_file p) s s'"
    and c: "case p' of None \<Rightarrow> verdict_ok fu s' (fill_file p)
     | Some q \<Rightarrow> fill_P fu q s' \<and> fill_file q = fill_file p \<and> fill_size fu q < fill_size fu p" by blast
  have "case p' of None \<Rightarrow> {i. verdict_ok fu s i} \<union> {fill_file p} \<subseteq> {i. verdict_ok fu s' i}
      | Some q \<Rightarrow> fill_P fu q s' \<and> fill_size fu q < fill_size fu p \<and>
         {i. verdict_ok fu s i} \<union> {fill_file p} \<subseteq> {i. verdict_ok fu s' i} \<union> {fill_file q}"
    using c keeps_verdict [OF s(3)] by (cases p') auto
  with s show "\<exists>p' s'. fill_step (fu_io fu) (fu_fs fu) (fu_decoder fu) (load_config (fu_decoder fu)) p s = Inr (p', s') \<and>
      fill_J fu s' \<and> (case p' of None \<Rightarrow> {i. verdict_ok fu s i} \<union> {fill_file p} \<subseteq> {i. verdict_ok fu s' i}
      | Some q \<Rightarrow> fill_P fu q s' \<and> fill_size fu q < fill_size fu p \<and>
         {i. verdict_ok fu s i} \<union> {fill_file p} \<subseteq> {i. verdict_ok fu s' i} \<union> {fill_file q})" by blast
  fix p1 s1 r
  assume "fill_step (fu_io fu) (fu_fs fu) (fu_decoder fu) (load_config (fu_decoder fu)) p s = Inr (p1, s1)" "fill_P fu r s"
  with s show "fill_P fu r s1" using fill_P_grows by (auto simp: keeps_def)
qed

end
