(* ===== verification/DecoderVerdict.thy ===== *)
theory DecoderVerdict
  imports DecoderScan
begin

text \<open>
  \<open>LoadFileData\<close> as a whole: what its verdict on every file says about the file on disk, and what the
  corrupt chunks it reports cover.
\<close>

section \<open>Both scanners\<close>

definition start_state :: "decoder \<Rightarrow> (nat \<rightharpoonup> crc32Window) \<Rightarrow> load_state" where
  "start_state d windows = \<lparr> ls_infos = new_integrity_infos (d_recoverySet d), ls_windows = windows,
     ls_results = replicate (length (d_recoverySet d)) no_result, ls_events = [] \<rparr>"

lemma start_J:
  assumes "fill_setup_ok fu" and "windows_ok windows"
  shows "fill_J fu (start_state (fu_decoder fu) windows)"
proof -
  have "\<not> fi_missing (new_integrity_infos (fu_set fu) ! i)" if "i < length (fu_set fu)" for i
    using that by (simp add: new_integrity_infos_def)
  then show ?thesis
    using assms by (simp add: fill_J_def start_state_def infos_ok_new infos_real_def recorded_new)
qed

lemma streaming_ok:
  assumes su: "fill_setup_ok fu" and "windows_ok windows"
  shows "\<exists>st. loadFileDataStreaming sched (fu_io fu) (fu_fs fu) (fu_decoder fu) (load_config (fu_decoder fu))
      (start_state (fu_decoder fu) windows) = Some (Inr st) \<and> fill_J fu st \<and>
    (\<forall>i < length (fu_set fu). verdict_ok fu st i)"
proof -
  let ?n = "length (fu_set fu)" and ?w = "min (nat (max (d_numGoroutines (fu_decoder fu)) 1)) (length (fu_set fu))"
  have "0 < ?w \<or> [0..<?n] = []" by (auto simp: max_def)
  from fill_pool.run_ok [OF this, of fu "start_state (fu_decoder fu) windows" sched] start_J [OF assms]
  obtain c where c: "pool_run FillOpen (fill_step (fu_io fu) (fu_fs fu) (fu_decoder fu) (load_config (fu_decoder fu))) sched
      (pool_init ?w [0..<?n] (start_state (fu_decoder fu) windows)) = Some (Inr c)"
    "fill_J fu (pl_shared c)" "(\<Union>t \<in> set [0..<?n]. {fill_file (FillOpen t)}) \<subseteq> {i. verdict_ok fu (pl_shared c) i}"
    by auto
  then have "\<forall>i < ?n. verdict_ok fu (pl_shared c) i" by auto
  with c(1,2) show ?thesis
    by (intro exI [of _ "pl_shared c"]) (simp add: loadFileDataStreaming_def Let_def)
qed

section \<open>The windowed scanner\<close>

lemma mark_absent_ok:
  assumes io: "infos_ok ds infos" and len: "length opened = length ds"
  shows "infos_ok ds (mark_absent opened infos) \<and> recorded (mark_absent opened infos) = recorded infos \<and>
    (\<forall>i < length ds. fi_missing (mark_absent opened infos ! i) \<longleftrightarrow> fi_missing (infos ! i) \<or> opened ! i = Inl OsErrNotExist)"
proof -
  define f where "f i infos = (case opened ! i of
       Inl e \<Rightarrow> if e = OsErrNotExist then mark_missing i infos else infos | Inr _ \<Rightarrow> infos)" for i infos
  have f: "f i infos = (if opened ! i = Inl OsErrNotExist then mark_missing i infos else infos)" for i infos
    by (auto simp: f_def split: sum.splits)
  have "infos_ok ds (fold f [0..<m] infos) \<and> recorded (fold f [0..<m] infos) = recorded infos \<and>
    (\<forall>i < length ds. fi_missing (fold f [0..<m] infos ! i) \<longleftrightarrow> fi_missing (infos ! i) \<or> i < m \<and> opened ! i = Inl OsErrNotExist)"
    if "m \<le> length ds" for m
    using that
  proof (induction m)
    case (Suc m)
    let ?g = "fold f [0..<m] infos"
    have IH: "infos_ok ds ?g" "recorded ?g = recorded infos"
      "\<forall>i < length ds. fi_missing (?g ! i) \<longleftrightarrow> fi_missing (infos ! i) \<or> i < m \<and> opened ! i = Inl OsErrNotExist"
      using Suc by simp_all
    note m = infos_ok_flags [OF IH(1), of "(?g ! m)\<lparr> fi_missing := True \<rparr>" m]
    show ?case
    proof (cases "opened ! m = Inl OsErrNotExist")
      case True
      then have e: "fold f [0..<Suc m] infos = ?g[m := (?g ! m)\<lparr> fi_missing := True \<rparr>]"
        by (simp add: f mark_missing_def)
      show ?thesis
        unfolding e using m IH True infos_okD(1) [OF IH(1)] Suc.prems
        by (auto simp: nth_list_update less_Suc_eq)
    next
      case False
      then have "f m ?g = ?g" by (simp add: f)
      then have e: "fold f [0..<Suc m] infos = ?g" by simp
      show ?thesis unfolding e using IH False by (auto simp: less_Suc_eq)
    qed
  qed (use io in simp)
  from this [of "length ds"] show ?thesis
    by (simp add: mark_absent_def len flip: f_def [abs_def])
qed

lemma file_verdict_sel [simp]:
  "ls_windows (file_verdict d i sz h st) = ls_windows st"
  "ls_results (file_verdict d i sz h st) = ls_results st"
  by (simp_all add: file_verdict_def Let_def)

text \<open>
  The verdicts after the scan, file by file: \<open>found\<close> are the records that the scan left, which the
  reports do not change.
\<close>

lemma reports_ok:
  assumes su: "fill_setup_ok fu" and J: "fill_J fu st"
    and opened: "opened = map (\<lambda>info. io_OpenRead (fu_io fu) (fu_fs fu) (getFilePath (fu_decoder fu) info)) (fu_set fu)"
    and missing: "\<forall>i < length (fu_set fu). fu_files fu ! i = None \<longrightarrow> fi_missing (ls_infos st ! i)"
    and errs: "errs = replicate (length (fu_set fu)) None"
    and heads: "\<forall>i < length (fu_set fu). \<forall>f. fu_files fu ! i = Some f \<longrightarrow> sc_sixteenK (counts ! i) = sixteenKHash f"
    and found: "\<forall>i < length (fu_set fu). \<forall>f. fu_files fu ! i = Some f \<longrightarrow> slices_in_place (fu_slice fu) (fu_set fu ! i) f \<longrightarrow>
      (\<forall>q < length (di_checksumPairs (fu_set fu ! i)). own_place fu i q \<in> recorded (ls_infos st) i q)"
    and m: "m \<le> length (fu_set fu)"
  shows "fill_J fu (fold (report_file (fu_decoder fu) opened errs counts) [0..<m] st) \<and>
    recorded (ls_infos (fold (report_file (fu_decoder fu) opened errs counts) [0..<m] st)) = recorded (ls_infos st) \<and>
    (\<forall>i < length (fu_set fu). fi_missing (ls_infos (fold (report_file (fu_decoder fu) opened errs counts) [0..<m] st) ! i)
      \<longleftrightarrow> fi_missing (ls_infos st ! i)) \<and>
    (\<forall>i < m. verdict_ok fu (fold (report_file (fu_decoder fu) opened errs counts) [0..<m] st) i)"
  using m
proof (induction m)
  case 0
  then show ?case using J by simp
next
  case (Suc m)
  define g where "g = fold (report_file (fu_decoder fu) opened errs counts) [0..<m] st"
  let ?g' = "report_file (fu_decoder fu) opened errs counts m g"
  have mi: "m < length (fu_set fu)" using Suc.prems by simp
  have IH: "fill_J fu g" "recorded (ls_infos g) = recorded (ls_infos st)"
    "\<And>i. i < length (fu_set fu) \<Longrightarrow> fi_missing (ls_infos g ! i) \<longleftrightarrow> fi_missing (ls_infos st ! i)"
    "\<And>i. i < m \<Longrightarrow> verdict_ok fu g i"
    using Suc by (simp_all add: g_def)
  have io: "infos_ok (fu_set fu) (ls_infos g)" and rl: "length (ls_results g) = length (fu_set fu)"
    using IH(1) by (auto simp: fill_J_def)
  have li: "length (ls_infos g) = length (fu_set fu)" using infos_okD(1) [OF io] .
  have op: "opens_as (opened ! m) (fu_files fu ! m)"
    using su mi by (simp add: fill_setup_ok_def opened)
  have "fill_J fu ?g' \<and> recorded (ls_infos ?g') = recorded (ls_infos g) \<and> keeps fu m g ?g' \<and> verdict_ok fu ?g' m \<and>
    (\<forall>i < length (fu_set fu). fi_missing (ls_infos ?g' ! i) \<longleftrightarrow> fi_missing (ls_infos g ! i))"
  proof (cases "fu_files fu ! m")
    case None
    then have o: "opened ! m = Inl OsErrNotExist" using op by (simp add: opens_as_def)
    have e: "?g' = g\<lparr> ls_results := (ls_results g)[m := no_result] \<rparr>"
      by (simp add: report_file_def o open_err_def open_source_def Let_def)
    have "fi_missing (ls_infos g ! m)" using missing IH(3) mi None by simp
    then have "verdict_ok fu ?g' m" using mi None rl by (simp add: verdict_ok_def e no_result_def)
    then show ?thesis using IH(1) by (simp add: e fill_J_def keeps_def grows_def)
  next
    case (Some f)
    then obtain rd where o: "opened ! m = Inr (rd, int (length f))" using op by (auto simp: opens_as_def)
    define r where "r = \<lparr> sr_byteCount = int (length f), sr_hits = sc_hits (counts ! m), sr_misses = sc_misses (counts ! m), sr_err = None \<rparr>"
    have h: "sc_sixteenK (counts ! m) = sixteenKHash f" using heads mi Some by simp
    let ?fl = "FillEnd m (int (length f)) \<lparr> fl_carried = [], fl_readOffset = 0, fl_windowStart = 0,
      fl_head = take (16 * 1024) f, fl_hits = sc_hits (counts ! m), fl_misses = sc_misses (counts ! m) \<rparr>"
    have md: "md5 (take 16384 f) = sixteenKHash f" by (simp add: sixteenKHash_def)
    have e: "?g' = (file_verdict (fu_decoder fu) m (int (length f)) (sixteenKHash f) g)
        \<lparr> ls_results := (ls_results g)[m := r] \<rparr>"
      using mi by (simp add: report_file_def o open_err_def open_source_def Let_def errs h r_def)
    have "fill_P fu ?fl g"
      using mi Some found IH(2) by (simp add: fill_P_def)
    from step_end [OF this IH(1)] have "fill_J fu ?g' \<and> keeps fu m g ?g' \<and> verdict_ok fu ?g' m"
      by (simp add: fill_step_def e md r_def)
    moreover have "recorded (ls_infos ?g') = recorded (ls_infos g)"
      unfolding e by (simp add: file_verdict_def Let_def infos_ok_flags(2) [OF io])
    moreover have "fi_missing (ls_infos ?g' ! i) \<longleftrightarrow> fi_missing (ls_infos g ! i)" if "i < length (fu_set fu)" for i
      using that li unfolding e by (cases "i = m") (simp_all add: file_verdict_def Let_def)
    ultimately show ?thesis by blast
  qed
  then have g': "fill_J fu ?g'" "recorded (ls_infos ?g') = recorded (ls_infos g)" "keeps fu m g ?g'" "verdict_ok fu ?g' m"
    "\<forall>i < length (fu_set fu). fi_missing (ls_infos ?g' ! i) \<longleftrightarrow> fi_missing (ls_infos g ! i)" by blast+
  have "verdict_ok fu ?g' i" if "i < Suc m" for i
    using that g'(4) keeps_verdict [OF g'(3) IH(4), of i] by (cases "i = m") auto
  moreover have "fold (report_file (fu_decoder fu) opened errs counts) [0..<Suc m] st = ?g'" by (simp add: g_def)
  ultimately show ?case using IH g'(1,2,5) by simp
qed

lemma windowed_ok:
  assumes su: "fill_setup_ok fu" and wo: "windows_ok windows"
    and policy: "\<not> findMisaligned (d_scanPolicy (fu_decoder fu))"
  shows "\<exists>st. loadFileDataWindowed sched (fu_io fu) (fu_fs fu) (fu_decoder fu) (load_config (fu_decoder fu))
      (start_state (fu_decoder fu) windows) = Some (Inr st) \<and> fill_J fu st \<and>
    (\<forall>i < length (fu_set fu). verdict_ok fu st i) \<and>
    (\<forall>k < length (fu_set fu). \<forall>i < length (di_checksumPairs (fu_set fu ! k)).
       recorded (ls_infos st) k i =
         {\<lparr> sl_fileID = di_fileID (fu_set fu ! s), sl_start = q * fu_slice fu \<rparr> | s f q.
           s < length (fu_files fu) \<and> fu_files fu ! s = Some f \<and> q * fu_slice fu < length f \<and>
           pair_matches (di_checksumPairs (fu_set fu ! k) ! i) (pad_slice (fu_slice fu) f (q * fu_slice fu))})"
proof -
  let ?d = "fu_decoder fu" and ?n = "fu_slice fu"
  let ?cf = "load_config ?d" and ?st0 = "start_state ?d windows"
  define opened where "opened = map (\<lambda>info. io_OpenRead (fu_io fu) (fu_fs fu) (getFilePath ?d info)) (fu_set fu)"
  define sources where "sources = map open_source opened"
  define infos where "infos = mark_absent opened (ls_infos ?st0)"
  have len: "length opened = length (fu_set fu)" "length sources = length (fu_set fu)"
    "length (fu_files fu) = length (fu_set fu)"
    using su by (simp_all add: opened_def sources_def fill_setup_ok_def)
  have op: "opens_as (opened ! i) (fu_files fu ! i)" if "i < length (fu_set fu)" for i
    using su that by (simp add: fill_setup_ok_def opened_def)
  have "source_holds (sources ! i) (fu_files fu ! i)" if "i < length (fu_set fu)" for i
    using op [OF that] that len by (auto simp: sources_def opens_as_def source_holds_def open_source_def split: option.splits)
  then have holds: "list_all2 source_holds sources (fu_files fu)" by (simp add: list_all2_conv_all_nth len)
  let ?su = "\<lparr> su_config = ?cf, su_sources = sources, su_files = fu_files fu,
    su_flags = map fi_flags infos \<rparr>"
  have suok: "setup_ok ?su"
    using su policy holds by (simp add: setup_ok_def Let_def fill_setup_ok_def load_config_def decoder_config_def)
  have io0: "infos_ok (fu_set fu) (ls_infos ?st0)" by (simp add: start_state_def infos_ok_new)
  note mark = mark_absent_ok [OF io0 len(1), folded infos_def]
  from scanFilesWindowed_ok [OF suok, of infos windows sched "d_numGoroutines ?d"] mark wo obtain sh where
    scan: "scanFilesWindowed sched ?cf (d_numGoroutines ?d) sources infos windows
      = Some (Inr (replicate (length (fu_set fu)) None, sh))" and comp: "scan_complete ?cf (fu_files fu) infos sh"
    by (auto simp: len)
  have rec: "recorded (ss_infos sh) k i = {\<lparr> sl_fileID = di_fileID (fu_set fu ! s), sl_start = q * ?n \<rparr> | s f q.
           s < length (fu_files fu) \<and> fu_files fu ! s = Some f \<and> q * ?n < length f \<and>
           pair_matches (di_checksumPairs (fu_set fu ! k) ! i) (pad_slice ?n f (q * ?n))}"
    if "k < length (fu_set fu)" "i < length (di_checksumPairs (fu_set fu ! k))" for k i
    using comp mark that by (simp add: scan_complete_def start_state_def recorded_new)
  define st1 where "st1 = ?st0\<lparr> ls_infos := ss_infos sh, ls_windows := ss_windows sh \<rparr>"
  have io1: "infos_ok (fu_set fu) (ss_infos sh)" and wo1: "windows_ok (ss_windows sh)"
    and heads: "\<forall>s f. s < length (fu_files fu) \<longrightarrow> fu_files fu ! s = Some f \<longrightarrow> sc_sixteenK (ss_counts sh ! s) = sixteenKHash f"
    using comp by (auto simp: scan_complete_def)
  have flags: "map fi_flags (ss_infos sh) = map fi_flags infos" using comp by (simp add: scan_complete_def)
  have miss: "fi_missing (ss_infos sh ! i) \<longleftrightarrow> fu_files fu ! i = None" if i: "i < length (fu_set fu)" for i
  proof -
    have "fi_flags (ss_infos sh ! i) = fi_flags (infos ! i)"
      using flags i infos_okD(1) [OF io1] by (metis length_map nth_map)
    then have "fi_missing (ss_infos sh ! i) \<longleftrightarrow> opened ! i = Inl OsErrNotExist"
      using mark i by (simp add: fi_flags_def start_state_def new_integrity_infos_def)
    then show ?thesis using op [OF i] by (auto simp: opens_as_def split: option.splits)
  qed
  have real: "infos_real fu (ss_infos sh)"
    unfolding infos_real_def real_location_def using rec by fastforce
  have J1: "fill_J fu st1"
    using su io1 wo1 real miss by (simp add: fill_J_def st1_def start_state_def)
  have found: "own_place fu i q \<in> recorded (ls_infos st1) i q"
    if "i < length (fu_set fu)" "fu_files fu ! i = Some f" "slices_in_place ?n (fu_set fu ! i) f"
      "q < length (di_checksumPairs (fu_set fu ! i))" for i f q
    using that len rec [of i q] by (auto simp: st1_def own_place_def slices_in_place_def)
  define st2 where "st2 = fold (report_file ?d opened (replicate (length (fu_set fu)) None) (ss_counts sh)) [0..<length (fu_set fu)] st1"
  have "fill_J fu st2 \<and> recorded (ls_infos st2) = recorded (ls_infos st1) \<and>
    (\<forall>i < length (fu_set fu). fi_missing (ls_infos st2 ! i) \<longleftrightarrow> fi_missing (ls_infos st1 ! i)) \<and>
    (\<forall>i < length (fu_set fu). verdict_ok fu st2 i)"
    unfolding st2_def
    by (rule reports_ok [OF su J1 opened_def]) (use miss heads found len in \<open>auto simp: st1_def\<close>)
  then have "fill_J fu st2" "\<forall>i < length (fu_set fu). verdict_ok fu st2 i"
    "recorded (ls_infos st2) = recorded (ss_infos sh)" by (simp_all add: st1_def)
  moreover have "loadFileDataWindowed sched (fu_io fu) (fu_fs fu) ?d ?cf ?st0 = Some (Inr st2)"
    using scan by (simp add: loadFileDataWindowed_def Let_def st2_def st1_def infos_def sources_def start_state_def
        flip: opened_def)
  ultimately show ?thesis using rec by (intro exI [of _ st2]) simp
qed


section \<open>The verdict\<close>

definition file_intact :: "nat \<Rightarrow> decoderInputFileInfo \<Rightarrow> byte list option \<Rightarrow> bool" where
  "file_intact n info f \<longleftrightarrow> (case f of None \<Rightarrow> False | Some c \<Rightarrow> int (length c) = di_byteCount info \<and>
     sixteenKHash c = di_sixteenKHash info \<and> slices_in_place n info c)"

lemma verdict_integrity:
  assumes J: "fill_J fu st" and v: "verdict_ok fu st i"
  shows "file_integrity_ok (fu_slice fu) (ls_infos st ! i) \<longleftrightarrow> file_intact (fu_slice fu) (fu_set fu ! i) (fu_files fu ! i)"
proof -
  have i: "i < length (fu_set fu)" using v by (simp add: verdict_ok_def)
  have io: "infos_ok (fu_set fu) (ls_infos st)" using J by (simp add: fill_J_def)
  show ?thesis
  proof (cases "fu_files fu ! i")
    case None
    then show ?thesis using v by (simp add: verdict_ok_def file_integrity_ok_def file_intact_def)
  next
    case (Some f)
    have m: "\<not> fi_missing (ls_infos st ! i)" using J i Some by (auto simp: fill_J_def)
    have "allShardsOK (fu_slice fu) (ls_infos st ! i)" if "slices_in_place (fu_slice fu) (fu_set fu ! i) f"
      using v Some that infos_okD(2,3,4) [OF io i]
      by (auto simp: verdict_ok_def allShardsOK_def list_all_iff shard_ok_def recorded_def own_place_def)
    then show ?thesis using v m Some by (auto simp: verdict_ok_def file_integrity_ok_def file_intact_def)
  qed
qed

lemma report_loads_ok:
  "(\<forall>i \<in> set is. sr_err (results ! i) = None) \<Longrightarrow> snd (report_loads d results is) = None"
  by (induction "is") (auto simp: Let_def split: prod.splits)

lemma LoadFileData_ok:
  assumes su: "fill_setup_ok fu" and wo: "windows_ok windows"
  shows "\<exists>events st. LoadFileData sched (fu_io fu) (fu_fs fu) windows (fu_decoder fu)
      = Some (Inr (events, ls_windows st, Inr ((fu_decoder fu)
          \<lparr> d_fileIDIndices := file_id_indices (fu_set fu),
            d_checksumToLocation := makeChecksumShardLocationMap (fu_slice fu) (fu_set fu),
            d_fileIntegrityInfos := ls_infos st \<rparr>))) \<and>
    fill_J fu st \<and> (\<forall>i < length (fu_set fu). verdict_ok fu st i) \<and>
    (\<not> findMisaligned (d_scanPolicy (fu_decoder fu)) \<longrightarrow>
      (\<forall>k < length (fu_set fu). \<forall>i < length (di_checksumPairs (fu_set fu ! k)).
       recorded (ls_infos st) k i =
         {\<lparr> sl_fileID = di_fileID (fu_set fu ! s), sl_start = q * fu_slice fu \<rparr> | s f q.
           s < length (fu_files fu) \<and> fu_files fu ! s = Some f \<and> q * fu_slice fu < length f \<and>
           pair_matches (di_checksumPairs (fu_set fu ! k) ! i) (pad_slice (fu_slice fu) f (q * fu_slice fu))})) \<and>
    events = ls_events st @ fst (report_loads (fu_decoder fu) (ls_results st) [0..<length (fu_set fu)])
      @ concat (map (report_chunks (fu_decoder fu) (ls_infos st)) [0..<length (fu_set fu)])"
proof -
  let ?d = "fu_decoder fu"
  obtain st where st: "(if findMisaligned (d_scanPolicy ?d)
      then loadFileDataStreaming sched (fu_io fu) (fu_fs fu) ?d (load_config ?d) (start_state ?d windows)
      else loadFileDataWindowed sched (fu_io fu) (fu_fs fu) ?d (load_config ?d) (start_state ?d windows)) = Some (Inr st)"
    "fill_J fu st" "\<forall>i < length (fu_set fu). verdict_ok fu st i"
    and exact: "\<not> findMisaligned (d_scanPolicy ?d) \<longrightarrow> (\<forall>k < length (fu_set fu). \<forall>i < length (di_checksumPairs (fu_set fu ! k)).
       recorded (ls_infos st) k i =
         {\<lparr> sl_fileID = di_fileID (fu_set fu ! s), sl_start = q * fu_slice fu \<rparr> | s f q.
           s < length (fu_files fu) \<and> fu_files fu ! s = Some f \<and> q * fu_slice fu < length f \<and>
           pair_matches (di_checksumPairs (fu_set fu ! k) ! i) (pad_slice (fu_slice fu) f (q * fu_slice fu))})"
  proof (cases "findMisaligned (d_scanPolicy ?d)")
    case True
    with streaming_ok [OF su wo, of sched] that show ?thesis by auto
  next
    case False
    with windowed_ok [OF su wo False, of sched] that show ?thesis by auto
  qed
  have "\<forall>i \<in> set [0..<length (fu_set fu)]. sr_err (ls_results st ! i) = None"
    using st(3) by (simp add: verdict_ok_def)
  from report_loads_ok [OF this, of ?d] obtain loads where
    loads: "report_loads ?d (ls_results st) [0..<length (fu_set fu)] = (loads, None)" by (metis prod.collapse)
  have "LoadFileData sched (fu_io fu) (fu_fs fu) windows ?d
      = Some (Inr (ls_events st @ loads @ concat (map (report_chunks ?d (ls_infos st)) [0..<length (fu_set fu)]), ls_windows st, Inr (?d
          \<lparr> d_fileIDIndices := file_id_indices (fu_set fu),
            d_checksumToLocation := makeChecksumShardLocationMap (fu_slice fu) (fu_set fu),
            d_fileIntegrityInfos := ls_infos st \<rparr>)))"
    unfolding LoadFileData_def Let_def load_config_def [symmetric] start_state_def [symmetric] st(1)
    by (simp add: loads)
  with st(2,3) exact loads show ?thesis by (intro exI conjI) (assumption | simp)+
qed

text \<open>
  C5: \<open>LoadFileData\<close> judges every file right, with either scanner and in every interleaving.  Let each
  data file either be missing or be read by a reader over its contents.  For every scan policy
  (slice-aligned windows, or the misaligned search with any limit), number of workers and schedule,
  \<open>LoadFileData\<close> ends without an error, and the integrity record of a file is \<open>ok\<close> exactly when the file
  exists, has its byte count and its 16k hash, and every slice at its place has the checksums of the
  set.  Every location recorded for a slice, in whichever file, is a place where the zero-padded bytes
  have both checksums of that slice.
\<close>

theorem LoadFileData_verdict:
  assumes "distinct (map di_fileID (d_recoverySet d))" and "4 \<le> d_sliceByteCount d"
    and "length files = length (d_recoverySet d)"
    and "\<forall>i < length files. opens_as (io_OpenRead io fs (getFilePath d (d_recoverySet d ! i))) (files ! i)"
    and "windows_ok windows"
  shows "\<exists>events windows' d'. LoadFileData sched io fs windows d = Some (Inr (events, windows', Inr d')) \<and>
    (\<forall>i < length files. file_integrity_ok (d_sliceByteCount d) (d_fileIntegrityInfos d' ! i) \<longleftrightarrow>
       file_intact (d_sliceByteCount d) (d_recoverySet d ! i) (files ! i)) \<and>
    (\<forall>k < length files. \<forall>i < length (di_checksumPairs (d_recoverySet d ! k)). \<forall>l \<in> recorded (d_fileIntegrityInfos d') k i.
       real_location (d_sliceByteCount d) (d_recoverySet d) files (di_checksumPairs (d_recoverySet d ! k) ! i) l)"
proof -
  let ?fu = "\<lparr> fu_io = io, fu_fs = fs, fu_decoder = d, fu_files = files \<rparr>"
  have su: "fill_setup_ok ?fu" using assms by (simp add: fill_setup_ok_def)
  from LoadFileData_ok [OF this assms(5), of sched] obtain events st where
    l: "LoadFileData sched io fs windows d = Some (Inr (events, ls_windows st, Inr (d
          \<lparr> d_fileIDIndices := file_id_indices (d_recoverySet d),
            d_checksumToLocation := makeChecksumShardLocationMap (d_sliceByteCount d) (d_recoverySet d),
            d_fileIntegrityInfos := ls_infos st \<rparr>)))"
    and J: "fill_J ?fu st" and v: "\<forall>i < length (d_recoverySet d). verdict_ok ?fu st i" by auto
  have "file_integrity_ok (d_sliceByteCount d) (ls_infos st ! i) \<longleftrightarrow>
       file_intact (d_sliceByteCount d) (d_recoverySet d ! i) (files ! i)" if "i < length files" for i
    using verdict_integrity [OF J, of i] v that assms(3) by simp
  moreover have "infos_real ?fu (ls_infos st)" using J by (simp add: fill_J_def)
  then have "\<forall>k < length files. \<forall>i < length (di_checksumPairs (d_recoverySet d ! k)). \<forall>l \<in> recorded (ls_infos st) k i.
       real_location (d_sliceByteCount d) (d_recoverySet d) files (di_checksumPairs (d_recoverySet d ! k) ! i) l"
    by (simp add: infos_real_def assms(3))
  ultimately show ?thesis using l by (intro exI conjI) (assumption | simp)+
qed

text \<open>A file with its one slice, for either policy; the misaligned search here stops after two bytes.\<close>

definition example_decoder :: "scanPolicy \<Rightarrow> decoder" where
  "example_decoder policy = \<lparr> d_indexPath = str ''/s.par2'', d_setID = zero_arr, d_clientID = str ''c'',
     d_sliceByteCount = 4, d_recoverySet = [example_info\<lparr> di_sixteenKHash := md5 [1, 2, 3, 4] \<rparr>],
     d_nonRecoverySet = [], d_numGoroutines = 2, d_scanPolicy = policy, d_memoryBudget = 0,
     d_fileIDIndices = Map.empty, d_checksumToLocation = Map.empty, d_fileIntegrityInfos = [],
     d_parityLocations = [], d_parityPresent = [] \<rparr>"

theorem LoadFileData_verdict_witness:
  "\<exists>events windows' d'. LoadFileData [1, 0] memfs_io \<lparr> fs_workingDir = str ''/'', fs_fileData = [(str ''/a'', [1, 2, 3, 4])] \<rparr>
      Map.empty (example_decoder \<lparr> findMisaligned = True, searchLimit = 2 \<rparr>) = Some (Inr (events, windows', Inr d')) \<and>
    file_integrity_ok 4 (d_fileIntegrityInfos d' ! 0)"
proof -
  let ?fs = "\<lparr> fs_workingDir = str ''/'', fs_fileData = [(str ''/a'', [1, 2, 3, 4])] \<rparr>"
  let ?d = "example_decoder \<lparr> findMisaligned = True, searchLimit = 2 \<rparr>"
  let ?f = "[1, 2, 3, 4] :: byte list"
  have set: "d_recoverySet ?d = [example_info\<lparr> di_sixteenKHash := md5 [1, 2, 3, 4] \<rparr>]" "d_sliceByteCount ?d = 4"
    "d_indexPath ?d = str ''/s.par2''"
    by (simp_all add: example_decoder_def)
  have p: "filepath_Join (filepath_Dir (str ''/s.par2'')) (str ''a'') = str ''/a''" by code_simp
  have rd: "ReadFile ?fs (str ''/a'') = Inr ?f" by code_simp
  have "opens_as (io_OpenRead memfs_io ?fs (getFilePath ?d (d_recoverySet ?d ! 0))) (Some ?f)"
    using bytes_reader.reader_over_axioms
    by (simp add: opens_as_def getFilePath_def set example_info_def p memfs_io_def OpenRead_def rd)
  then have "\<exists>events windows' d'. LoadFileData [1, 0] memfs_io ?fs Map.empty ?d = Some (Inr (events, windows', Inr d')) \<and>
    (\<forall>i < length [Some ?f]. file_integrity_ok (d_sliceByteCount ?d) (d_fileIntegrityInfos d' ! i) \<longleftrightarrow>
       file_intact (d_sliceByteCount ?d) (d_recoverySet ?d ! i) ([Some ?f] ! i)) \<and>
    (\<forall>k < length [Some ?f]. \<forall>i < length (di_checksumPairs (d_recoverySet ?d ! k)). \<forall>l \<in> recorded (d_fileIntegrityInfos d') k i.
       real_location (d_sliceByteCount ?d) (d_recoverySet ?d) [Some ?f] (di_checksumPairs (d_recoverySet ?d ! k) ! i) l)"
    by (intro LoadFileData_verdict) (simp_all add: set windows_ok_def)
  moreover have "pad_slice 4 ?f 0 = ?f" by (simp add: pad_slice_def upt_rec numeral_eq_Suc)
  then have "file_intact 4 (example_info\<lparr> di_sixteenKHash := md5 [1, 2, 3, 4] \<rparr>) (Some ?f)"
    by (simp add: file_intact_def example_info_def sixteenKHash_def slices_in_place_def pair_matches_own)
  ultimately show ?thesis by (auto simp: set)
qed

section \<open>The corrupt chunks\<close>

text \<open>
  The loop at shard \<open>j\<close>, with a chunk that reaches up to it: what is reported covers the chunk and the
  bad shards from \<open>j\<close> on.
\<close>

lemma corrupt_chunks_from:
  assumes "0 < n" and "byteCount \<le> int ((j + length oks) * n)"
    and "oks \<noteq> [] \<longrightarrow> int ((j + length oks - 1) * n) < byteCount"
    and "\<forall>a b. chunk = Some (a, b) \<longrightarrow> lo \<le> a \<and> a < b \<and> b = min (int (j * n)) byteCount"
    and "lo \<le> int (j * n)"
  shows "(\<forall>(a, b) \<in> set (corrupt_chunks n byteCount oks j chunk). lo \<le> a \<and> a < b \<and> b \<le> byteCount) \<and>
    sorted_wrt (\<lambda>(a, b) (c, e). b < c) (corrupt_chunks n byteCount oks j chunk) \<and>
    (\<forall>x < byteCount. lo \<le> x \<longrightarrow> (\<exists>(a, b) \<in> set (corrupt_chunks n byteCount oks j chunk). a \<le> x \<and> x < b) \<longleftrightarrow>
      (if x < int (j * n) then \<exists>a b. chunk = Some (a, b) \<and> a \<le> x else \<not> oks ! (nat (x div int n) - j)))"
  using assms(2-)
proof (induction oks arbitrary: j chunk lo)
  case Nil
  then show ?case by (auto split: option.splits)
next
  case (Cons ok oks)
  let ?jn = "int (j * n)" and ?jn1 = "int (Suc j * n)"
  have jb: "?jn < byteCount"
  proof -
    have "j * n \<le> (j + length (ok # oks) - 1) * n" by (rule mult_le_mono1) simp
    then have "?jn \<le> int ((j + length (ok # oks) - 1) * n)" by (simp only: of_nat_le_iff)
    also have "\<dots> < byteCount" using Cons.prems(2) by simp
    finally show ?thesis .
  qed
  have step: "?jn1 = ?jn + int n" by simp
  have len: "byteCount \<le> int ((Suc j + length oks) * n)" "oks \<noteq> [] \<longrightarrow> int ((Suc j + length oks - 1) * n) < byteCount"
    using Cons.prems(1,2) by simp_all
  have ch: "lo \<le> a" "a < b" "b = ?jn" if "chunk = Some (a, b)" for a b
    using Cons.prems(3) that jb by auto
  have divn: "nat (x div int n) = j" if "?jn \<le> x" "x < ?jn1" for x
  proof -
    have "x div int n = int j"
      using that assms(1) by (intro int_div_pos_eq [where r = "x - ?jn"]) (auto simp: algebra_simps)
    then show ?thesis by simp
  qed
  have divn1: "nat (x div int n) - j = Suc (nat (x div int n) - Suc j)" if "?jn1 \<le> x" for x
  proof -
    have "?jn1 div int n \<le> x div int n" using that assms(1) by (intro zdiv_mono1) simp_all
    moreover have "?jn1 div int n = int (Suc j)"
      unfolding of_nat_mult using assms(1) by (intro nonzero_mult_div_cancel_right) simp
    ultimately have "int (Suc j) \<le> x div int n" by simp
    then show ?thesis by linarith
  qed
  show ?case
  proof (cases ok)
    case True
    let ?cs = "corrupt_chunks n byteCount oks (Suc j) None"
    have IH: "\<forall>(a, b) \<in> set ?cs. ?jn1 \<le> a \<and> a < b \<and> b \<le> byteCount" "sorted_wrt (\<lambda>(a, b) (c, e). b < c) ?cs"
      "\<forall>x < byteCount. ?jn1 \<le> x \<longrightarrow> (\<exists>(a, b) \<in> set ?cs. a \<le> x \<and> x < b) \<longleftrightarrow> \<not> oks ! (nat (x div int n) - Suc j)"
      using Cons.IH [OF len, of None ?jn1] by auto
    have e: "corrupt_chunks n byteCount (ok # oks) j chunk = (case chunk of None \<Rightarrow> [] | Some ab \<Rightarrow> [ab]) @ ?cs"
      using True by (simp add: Let_def)
    have lo1: "lo \<le> ?jn1" using Cons.prems(4) step by simp
    have cover: "(\<exists>(a, b) \<in> set (corrupt_chunks n byteCount (ok # oks) j chunk). a \<le> x \<and> x < b) \<longleftrightarrow>
      (if x < ?jn then \<exists>a b. chunk = Some (a, b) \<and> a \<le> x else \<not> (ok # oks) ! (nat (x div int n) - j))"
      if x: "x < byteCount" "lo \<le> x" for x
    proof -
      have "(\<exists>(a, b) \<in> set (corrupt_chunks n byteCount (ok # oks) j chunk). a \<le> x \<and> x < b) \<longleftrightarrow>
          (\<exists>a b. chunk = Some (a, b) \<and> a \<le> x \<and> x < ?jn) \<or> (\<exists>(a, b) \<in> set ?cs. a \<le> x \<and> x < b)"
        unfolding e using ch by (cases chunk) auto
      moreover consider "x < ?jn" | "?jn \<le> x" "x < ?jn1" | "?jn1 \<le> x" by linarith
      then show ?thesis
      proof cases
        case 1
        then have "\<not> (\<exists>(a, b) \<in> set ?cs. a \<le> x \<and> x < b)" using IH(1) step by fastforce
        then show ?thesis using calculation 1 by auto
      next
        case 2
        then have "\<not> (\<exists>(a, b) \<in> set ?cs. a \<le> x \<and> x < b)" using IH(1) by fastforce
        then show ?thesis using calculation 2 divn [OF 2] True by auto
      next
        case 3
        then show ?thesis using calculation IH(3) x step divn1 [OF 3] by auto
      qed
    qed
    have "\<forall>(a, b) \<in> set (corrupt_chunks n byteCount (ok # oks) j chunk). lo \<le> a \<and> a < b \<and> b \<le> byteCount"
      unfolding e using IH(1) ch lo1 jb by (cases chunk) fastforce+
    moreover have "sorted_wrt (\<lambda>(a, b) (c, e). b < c) (corrupt_chunks n byteCount (ok # oks) j chunk)"
      unfolding e using IH(1,2) ch step assms(1) by (cases chunk) fastforce+
    ultimately show ?thesis using cover by blast
  next
    case False
    define a' where "a' = (case chunk of None \<Rightarrow> ?jn | Some (a, b) \<Rightarrow> a)"
    define b' where "b' = (if ?jn + int n > byteCount then byteCount else ?jn + int n)"
    have a': "lo \<le> a'" "a' \<le> ?jn" using ch Cons.prems(4) by (auto simp: a'_def less_imp_le split: option.splits)
    have b': "b' = min ?jn1 byteCount" using step by (simp add: b'_def min_def)
    have e: "corrupt_chunks n byteCount (ok # oks) j chunk = corrupt_chunks n byteCount oks (Suc j) (Some (a', b'))"
      using False by (simp add: Let_def a'_def b'_def del: of_nat_mult)
    have "a' < b'" using a'(2) b' jb assms(1) step by simp
    then have IH: "(\<forall>(a, b) \<in> set (corrupt_chunks n byteCount (ok # oks) j chunk). lo \<le> a \<and> a < b \<and> b \<le> byteCount) \<and>
      sorted_wrt (\<lambda>(a, b) (c, e). b < c) (corrupt_chunks n byteCount (ok # oks) j chunk) \<and>
      (\<forall>x < byteCount. lo \<le> x \<longrightarrow> (\<exists>(a, b) \<in> set (corrupt_chunks n byteCount (ok # oks) j chunk). a \<le> x \<and> x < b) \<longleftrightarrow>
        (if x < ?jn1 then \<exists>a b. Some (a', b') = Some (a, b) \<and> a \<le> x else \<not> oks ! (nat (x div int n) - Suc j)))"
      unfolding e using Cons.IH [OF len, of "Some (a', b')" lo] a' b' Cons.prems(4) step by auto
    have "(if x < ?jn1 then \<exists>a b. Some (a', b') = Some (a, b) \<and> a \<le> x else \<not> oks ! (nat (x div int n) - Suc j)) \<longleftrightarrow>
        (if x < ?jn then \<exists>a b. chunk = Some (a, b) \<and> a \<le> x else \<not> (ok # oks) ! (nat (x div int n) - j))"
      if "lo \<le> x" for x
    proof -
      consider "x < ?jn" | "?jn \<le> x" "x < ?jn1" | "?jn1 \<le> x" by linarith
      then show ?thesis
      proof cases
        case 1
        then show ?thesis using step by (auto simp: a'_def split: option.splits)
      next
        case 2
        then show ?thesis using divn [OF 2] False a'(2) by auto
      next
        case 3
        then show ?thesis using divn1 [OF 3] step by auto
      qed
    qed
    with IH show ?thesis by auto
  qed
qed

lemma corrupt_chunks_cover:
  assumes "0 < n" and "byteCount \<le> int (length oks * n)" and "oks \<noteq> [] \<longrightarrow> int ((length oks - 1) * n) < byteCount"
  shows "\<forall>(a, b) \<in> set (corrupt_chunks n byteCount oks 0 None). 0 \<le> a \<and> a < b \<and> b \<le> byteCount"
    and "sorted_wrt (\<lambda>(a, b) (c, e). b < c) (corrupt_chunks n byteCount oks 0 None)"
    and "0 \<le> x \<Longrightarrow> x < byteCount \<Longrightarrow>
      (\<exists>(a, b) \<in> set (corrupt_chunks n byteCount oks 0 None). a \<le> x \<and> x < b) \<longleftrightarrow> \<not> oks ! nat (x div int n)"
  using corrupt_chunks_from [OF assms(1), of byteCount 0 oks None 0] assms(2,3) by auto

section \<open>The chunks among the events\<close>

definition size_on_disk :: "byte list option \<Rightarrow> int" where
  "size_on_disk f = (case f of None \<Rightarrow> 0 | Some c \<Rightarrow> int (length c))"

text \<open>The chunk between the two ends of a file of the wrong length.\<close>

definition length_chunk :: "int \<Rightarrow> int \<Rightarrow> (int \<times> int) list" where
  "length_chunk sz byteCount = (if sz = byteCount then [] else [(min sz byteCount, max sz byteCount)])"

lemma chunks_of_loads:
  assumes "\<forall>i \<in> set is. sr_err (results ! i) = None"
  shows "chunk_ranges fid path (fst (report_loads d results is)) = concat (map (\<lambda>i.
    if di_fileID (d_recoverySet d ! i) = fid \<and> getFilePath d (d_recoverySet d ! i) = path
    then length_chunk (sr_byteCount (results ! i)) (di_byteCount (d_recoverySet d ! i)) else []) is)"
  using assms
proof (induction "is")
  case (Cons i "is")
  then show ?case
    by (auto simp: Let_def length_chunk_def min_def max_def split: prod.splits)
qed simp

lemma chunks_of_pairs:
  "chunk_ranges fid path (map (\<lambda>(a, b). OnDetectCorruptDataChunk f p a b) cs) = (if f = fid \<and> p = path then cs else [])"
  by (induction cs) auto

lemma chunks_of_files:
  "chunk_ranges fid path (concat (map (report_chunks d infos) is)) = concat (map (\<lambda>i.
    if di_fileID (d_recoverySet d ! i) = fid \<and> getFilePath d (d_recoverySet d ! i) = path
    then corrupt_chunks (d_sliceByteCount d) (di_byteCount (d_recoverySet d ! i)) (shard_states (d_sliceByteCount d) (infos ! i)) 0 None
    else []) is)"
  by (induction "is") (simp_all add: report_chunks_def Let_def chunks_of_pairs)

lemma concat_single:
  assumes "distinct xs" and "i \<in> set xs" and "\<And>j. j \<in> set xs \<Longrightarrow> P j \<longleftrightarrow> j = i"
  shows "concat (map (\<lambda>j. if P j then f j else []) xs) = f i"
proof -
  from split_list [OF assms(2)] obtain ys zs where xs: "xs = ys @ i # zs" by blast
  with assms(1) have "i \<notin> set ys" "i \<notin> set zs" by auto
  with assms(3) xs have P: "P i" "\<forall>j \<in> set ys. \<not> P j" "\<forall>j \<in> set zs. \<not> P j" by auto
  have "concat (map (\<lambda>j. if P j then f j else []) us) = []" if "\<forall>j \<in> set us. \<not> P j" for us
    using that by simp
  from this [OF P(2)] this [OF P(3)] P(1) show ?thesis by (simp add: xs del: concat_eq_Nil_conv)
qed

text \<open>Slice \<open>q\<close> of the set stands at its place in the file that is on disk.\<close>

definition slice_stands :: "nat \<Rightarrow> decoderInputFileInfo \<Rightarrow> byte list option \<Rightarrow> nat \<Rightarrow> bool" where
  "slice_stands n info f q \<longleftrightarrow> (\<exists>c. f = Some c \<and> q * n < length c \<and>
     pair_matches (di_checksumPairs info ! q) (pad_slice n c (q * n)))"

text \<open>The set has a checksum for every slice of the file, and no more.\<close>

definition slices_cut :: "nat \<Rightarrow> decoderInputFileInfo \<Rightarrow> bool" where
  "slices_cut n info \<longleftrightarrow> di_byteCount info \<le> int (length (di_checksumPairs info) * n) \<and>
     (di_checksumPairs info \<noteq> [] \<longrightarrow> int ((length (di_checksumPairs info) - 1) * n) < di_byteCount info)"

definition in_chunk :: "(int \<times> int) list \<Rightarrow> int \<Rightarrow> bool" where
  "in_chunk cs x \<longleftrightarrow> (\<exists>(a, b) \<in> set cs. a \<le> x \<and> x < b)"

lemma place_recorded:
  assumes J: "fill_J fu st" and i: "i < length (fu_set fu)" and q: "q < length (di_checksumPairs (fu_set fu ! i))"
  shows "shard_states (fu_slice fu) (ls_infos st ! i) ! q \<longleftrightarrow> own_place fu i q \<in> recorded (ls_infos st) i q"
    and "own_place fu i q \<in> recorded (ls_infos st) i q \<Longrightarrow> slice_stands (fu_slice fu) (fu_set fu ! i) (fu_files fu ! i) q"
proof -
  have io: "infos_ok (fu_set fu) (ls_infos st)" and su: "fill_setup_ok fu" and real: "infos_real fu (ls_infos st)"
    using J by (simp_all add: fill_J_def)
  show "shard_states (fu_slice fu) (ls_infos st ! i) ! q \<longleftrightarrow> own_place fu i q \<in> recorded (ls_infos st) i q"
    using infos_okD(2-4) [OF io i] q by (auto simp: shard_states_def shard_ok_def recorded_def own_place_def)
  assume "own_place fu i q \<in> recorded (ls_infos st) i q"
  with real i q have "real_location (fu_slice fu) (fu_set fu) (fu_files fu) (di_checksumPairs (fu_set fu ! i) ! q) (own_place fu i q)"
    by (simp add: infos_real_def)
  then obtain s f where s: "s < length (fu_files fu)" "fu_files fu ! s = Some f" "q * fu_slice fu < length f"
    "pair_matches (di_checksumPairs (fu_set fu ! i) ! q) (pad_slice (fu_slice fu) f (q * fu_slice fu))"
    "di_fileID (fu_set fu ! i) = di_fileID (fu_set fu ! s)"
    by (auto simp: real_location_def own_place_def)
  then have "s = i" using su i nth_eq_iff_index_eq [of "map di_fileID (fu_set fu)" s i] by (simp add: fill_setup_ok_def)
  with s show "slice_stands (fu_slice fu) (fu_set fu ! i) (fu_files fu ! i) q" by (auto simp: slice_stands_def)
qed

lemma LoadFileData_chunks:
  assumes su: "fill_setup_ok fu" and wo: "windows_ok windows"
  obtains events windows' st where "LoadFileData sched (fu_io fu) (fu_fs fu) windows (fu_decoder fu)
      = Some (Inr (events, windows', Inr ((fu_decoder fu)
          \<lparr> d_fileIDIndices := file_id_indices (fu_set fu),
            d_checksumToLocation := makeChecksumShardLocationMap (fu_slice fu) (fu_set fu),
            d_fileIntegrityInfos := ls_infos st \<rparr>)))"
    "fill_J fu st" "\<forall>i < length (fu_set fu). verdict_ok fu st i"
    "\<forall>i q. \<not> findMisaligned (d_scanPolicy (fu_decoder fu)) \<longrightarrow> i < length (fu_set fu) \<longrightarrow> q < length (di_checksumPairs (fu_set fu ! i)) \<longrightarrow>
      slice_stands (fu_slice fu) (fu_set fu ! i) (fu_files fu ! i) q \<longrightarrow> own_place fu i q \<in> recorded (ls_infos st) i q"
    "\<forall>i < length (fu_set fu). chunk_ranges (di_fileID (fu_set fu ! i)) (getFilePath (fu_decoder fu) (fu_set fu ! i)) events
      = length_chunk (size_on_disk (fu_files fu ! i)) (di_byteCount (fu_set fu ! i)) @
        corrupt_chunks (fu_slice fu) (di_byteCount (fu_set fu ! i)) (shard_states (fu_slice fu) (ls_infos st ! i)) 0 None"
    "\<forall>fid path. (\<forall>i < length (fu_set fu). fid \<noteq> di_fileID (fu_set fu ! i) \<or> path \<noteq> getFilePath (fu_decoder fu) (fu_set fu ! i)) \<longrightarrow>
      chunk_ranges fid path events = []"
proof -
  let ?d = "fu_decoder fu" and ?n = "length (fu_set fu)"
  from LoadFileData_ok [OF su wo, of sched] obtain events st where
    run: "LoadFileData sched (fu_io fu) (fu_fs fu) windows ?d = Some (Inr (events, ls_windows st, Inr (?d
          \<lparr> d_fileIDIndices := file_id_indices (fu_set fu),
            d_checksumToLocation := makeChecksumShardLocationMap (fu_slice fu) (fu_set fu),
            d_fileIntegrityInfos := ls_infos st \<rparr>)))"
    and J: "fill_J fu st" and v: "\<forall>i < ?n. verdict_ok fu st i"
    and exact: "\<not> findMisaligned (d_scanPolicy ?d) \<longrightarrow> (\<forall>k < ?n. \<forall>i < length (di_checksumPairs (fu_set fu ! k)).
       recorded (ls_infos st) k i =
         {\<lparr> sl_fileID = di_fileID (fu_set fu ! s), sl_start = q * fu_slice fu \<rparr> | s f q.
           s < length (fu_files fu) \<and> fu_files fu ! s = Some f \<and> q * fu_slice fu < length f \<and>
           pair_matches (di_checksumPairs (fu_set fu ! k) ! i) (pad_slice (fu_slice fu) f (q * fu_slice fu))})"
    and events: "events = ls_events st @ fst (report_loads ?d (ls_results st) [0..<?n]) @ concat (map (report_chunks ?d (ls_infos st)) [0..<?n])"
    by blast
  have len: "length (fu_files fu) = ?n" and ids: "distinct (map di_fileID (fu_set fu))" using su by (simp_all add: fill_setup_ok_def)
  have errs: "\<forall>i \<in> set [0..<?n]. sr_err (ls_results st ! i) = None" using v by (simp add: verdict_ok_def)
  have size: "sr_byteCount (ls_results st ! i) = size_on_disk (fu_files fu ! i)" if "i < ?n" for i
    using v that by (auto simp: verdict_ok_def size_on_disk_def split: option.splits)
  have quiet: "chunk_ranges fid path (ls_events st) = []" for fid path using J by (simp add: fill_J_def)
  note cr = chunks_of_loads [OF errs, of _ _ ?d] chunks_of_files [of _ _ ?d "ls_infos st" "[0..<?n]"]
  have mine: "chunk_ranges (di_fileID (fu_set fu ! i)) (getFilePath ?d (fu_set fu ! i)) events
      = length_chunk (size_on_disk (fu_files fu ! i)) (di_byteCount (fu_set fu ! i)) @
        corrupt_chunks (fu_slice fu) (di_byteCount (fu_set fu ! i)) (shard_states (fu_slice fu) (ls_infos st ! i)) 0 None"
    if i: "i < ?n" for i
  proof -
    let ?P = "\<lambda>j. di_fileID (fu_set fu ! j) = di_fileID (fu_set fu ! i) \<and> getFilePath ?d (fu_set fu ! j) = getFilePath ?d (fu_set fu ! i)"
    have one: "?P j \<longleftrightarrow> j = i" if "j \<in> set [0..<?n]" for j
      using that i ids nth_eq_iff_index_eq [of "map di_fileID (fu_set fu)" j i] by auto
    have "concat (map (\<lambda>j. if ?P j then f j else []) [0..<?n]) = f i" for f :: "nat \<Rightarrow> (int \<times> int) list"
      by (rule concat_single [OF _ _ one]) (simp_all add: i)
    then show ?thesis by (simp only: events chunk_ranges_append quiet cr append_Nil size [OF i])
  qed
  have others: "chunk_ranges fid path events = []"
    if "\<forall>i < ?n. fid \<noteq> di_fileID (fu_set fu ! i) \<or> path \<noteq> getFilePath ?d (fu_set fu ! i)" for fid path
    unfolding events chunk_ranges_append quiet cr using that by auto
  have stands: "own_place fu i q \<in> recorded (ls_infos st) i q"
    if "\<not> findMisaligned (d_scanPolicy ?d)" "i < ?n" "q < length (di_checksumPairs (fu_set fu ! i))"
      "slice_stands (fu_slice fu) (fu_set fu ! i) (fu_files fu ! i) q" for i q
    using that exact len by (auto simp: slice_stands_def own_place_def)
  show thesis by (rule that [OF run J v]) (use stands mine others in blast)+
qed

lemma chunks_right:
  assumes J: "fill_J fu st" and i: "i < length (fu_set fu)" and v: "verdict_ok fu st i" and cut: "slices_cut (fu_slice fu) (fu_set fu ! i)"
    and aligned: "\<forall>q. \<not> misaligned \<longrightarrow> q < length (di_checksumPairs (fu_set fu ! i)) \<longrightarrow>
      slice_stands (fu_slice fu) (fu_set fu ! i) (fu_files fu ! i) q \<longrightarrow> own_place fu i q \<in> recorded (ls_infos st) i q"
    and cs: "cs = corrupt_chunks (fu_slice fu) (di_byteCount (fu_set fu ! i)) (shard_states (fu_slice fu) (ls_infos st ! i)) 0 None"
  shows "\<forall>(a, b) \<in> set cs. 0 \<le> a \<and> a < b \<and> b \<le> di_byteCount (fu_set fu ! i)" and "sorted_wrt (\<lambda>(a, b) (c, e). b < c) cs"
    and "0 \<le> x \<Longrightarrow> x < di_byteCount (fu_set fu ! i) \<Longrightarrow> q = nat (x div int (fu_slice fu)) \<Longrightarrow>
      in_chunk cs x \<longleftrightarrow> own_place fu i q \<notin> recorded (ls_infos st) i q"
    and "0 \<le> x \<Longrightarrow> x < di_byteCount (fu_set fu ! i) \<Longrightarrow> q = nat (x div int (fu_slice fu)) \<Longrightarrow>
      \<not> slice_stands (fu_slice fu) (fu_set fu ! i) (fu_files fu ! i) q \<Longrightarrow> in_chunk cs x"
    and "0 \<le> x \<Longrightarrow> x < di_byteCount (fu_set fu ! i) \<Longrightarrow> q = nat (x div int (fu_slice fu)) \<Longrightarrow>
      \<not> misaligned \<or> (\<forall>r < length (di_checksumPairs (fu_set fu ! i)). slice_stands (fu_slice fu) (fu_set fu ! i) (fu_files fu ! i) r) \<Longrightarrow>
      in_chunk cs x \<Longrightarrow> \<not> slice_stands (fu_slice fu) (fu_set fu ! i) (fu_files fu ! i) q"
proof -
  let ?n = "fu_slice fu" and ?info = "fu_set fu ! i" and ?f = "fu_files fu ! i"
  let ?L = "length (di_checksumPairs ?info)"
  have io: "infos_ok (fu_set fu) (ls_infos st)" and n: "0 < ?n" using J by (simp_all add: fill_J_def fill_setup_ok_def)
  have L: "length (shard_states ?n (ls_infos st ! i)) = ?L" using infos_okD(3) [OF io i] by (simp add: shard_states_def)
  then have e: "shard_states ?n (ls_infos st ! i) = [] \<longleftrightarrow> di_checksumPairs ?info = []" by (metis length_0_conv)
  have c: "di_byteCount ?info \<le> int (length (shard_states ?n (ls_infos st ! i)) * ?n)"
    "shard_states ?n (ls_infos st ! i) \<noteq> [] \<longrightarrow> int ((length (shard_states ?n (ls_infos st ! i)) - 1) * ?n) < di_byteCount ?info"
    using cut unfolding slices_cut_def L e by blast+
  note cover = corrupt_chunks_cover [OF n c, folded cs]
  show "\<forall>(a, b) \<in> set cs. 0 \<le> a \<and> a < b \<and> b \<le> di_byteCount ?info" "sorted_wrt (\<lambda>(a, b) (c, e). b < c) cs"
    by (rule cover)+
  have q: "q < ?L" if "0 \<le> x" "x < di_byteCount ?info" "q = nat (x div int ?n)" for x q
  proof -
    have "x < int (?L * ?n)" using that(2) cut by (simp add: slices_cut_def)
    moreover have "x div int ?n * int ?n \<le> x"
      using pos_mod_sign [of "int ?n" x] div_mult_mod_eq [of x "int ?n"] n by linarith
    ultimately have "x div int ?n * int ?n < int ?L * int ?n" by simp
    then have "x div int ?n < int ?L" using n by (simp add: mult_less_cancel_right)
    then show ?thesis using that(1,3) n by (simp add: nat_less_iff pos_imp_zdiv_nonneg_iff)
  qed
  show chunk: "in_chunk cs x \<longleftrightarrow> own_place fu i q \<notin> recorded (ls_infos st) i q"
    if "0 \<le> x" "x < di_byteCount ?info" "q = nat (x div int ?n)" for x q
    using cover(3) [OF that(1,2)] place_recorded(1) [OF J i q [OF that]] by (simp add: in_chunk_def that(3))
  show "in_chunk cs x"
    if "0 \<le> x" "x < di_byteCount ?info" "q = nat (x div int ?n)" "\<not> slice_stands ?n ?info ?f q" for x q
    using chunk [OF that(1-3)] place_recorded(2) [OF J i q [OF that(1-3)]] that(4) by blast
  show "\<not> slice_stands ?n ?info ?f q"
    if x: "0 \<le> x" "x < di_byteCount ?info" "q = nat (x div int ?n)" and all: "\<not> misaligned \<or> (\<forall>r < ?L. slice_stands ?n ?info ?f r)" and "in_chunk cs x" for x q
  proof
    assume stands: "slice_stands ?n ?info ?f q"
    have "own_place fu i q \<in> recorded (ls_infos st) i q"
    proof (cases misaligned)
      case True
      then have "\<forall>r < ?L. slice_stands ?n ?info ?f r" using all by blast
      then have "slices_in_place ?n ?info f" if "?f = Some f" for f using that by (auto simp: slices_in_place_def slice_stands_def)
      moreover obtain f where "?f = Some f" using stands by (auto simp: slice_stands_def)
      ultimately show ?thesis using v q [OF x] by (simp add: verdict_ok_def)
    next
      case False
      then show ?thesis using aligned q [OF x] stands by blast
    qed
    with chunk [OF x] \<open>in_chunk cs x\<close> show False by blast
  qed
qed

text \<open>
  C20: The corrupt chunks that \<open>LoadFileData\<close> reports.  Under the hypotheses of the verdict, and when the set has
  one checksum pair for every slice of a file, \<open>LoadFileData\<close> ends without an error for every policy and
  schedule, and reports of each file, under its identifier and path, first the range between its size and
  the size of the set where these differ (a missing file has size 0), then chunks that are not empty, lie
  inside the file, ascend and do not touch.  A byte lies in one of these chunks exactly when its slice
  has not been recorded at its place.  The chunks contain every slice whose place in the file does not hold
  its checksums; without the misaligned search, or when every slice of the file stands at its place,
  they contain nothing else.  No other chunk is reported.  (The first range can overlap the chunks.  It
  is also reported of a file that is only short of trailing zeros, as its slices stand when padded.)
\<close>

theorem LoadFileData_corrupt_chunks:
  assumes "distinct (map di_fileID (d_recoverySet d))" and "4 \<le> d_sliceByteCount d"
    and "length files = length (d_recoverySet d)"
    and "\<forall>i < length files. opens_as (io_OpenRead io fs (getFilePath d (d_recoverySet d ! i))) (files ! i)"
    and "windows_ok windows"
    and "\<forall>i < length files. slices_cut (d_sliceByteCount d) (d_recoverySet d ! i)"
  shows "\<exists>events windows' d'. LoadFileData sched io fs windows d = Some (Inr (events, windows', Inr d')) \<and>
    (\<forall>i < length files. let info = d_recoverySet d ! i; n = d_sliceByteCount d; f = files ! i in
       \<exists>cs. chunk_ranges (di_fileID info) (getFilePath d info) events = length_chunk (size_on_disk f) (di_byteCount info) @ cs \<and>
         (\<forall>(a, b) \<in> set cs. 0 \<le> a \<and> a < b \<and> b \<le> di_byteCount info) \<and> sorted_wrt (\<lambda>(a, b) (c, e). b < c) cs \<and>
         (\<forall>x. 0 \<le> x \<and> x < di_byteCount info \<longrightarrow> (let q = nat (x div int n) in
            (in_chunk cs x \<longleftrightarrow> \<lparr> sl_fileID = di_fileID info, sl_start = q * n \<rparr> \<notin> recorded (d_fileIntegrityInfos d') i q) \<and>
            (\<not> slice_stands n info f q \<longrightarrow> in_chunk cs x) \<and>
            (\<not> findMisaligned (d_scanPolicy d) \<or> (\<forall>r < length (di_checksumPairs info). slice_stands n info f r) \<longrightarrow>
               in_chunk cs x \<longrightarrow> \<not> slice_stands n info f q)))) \<and>
    (\<forall>fid path. (\<forall>i < length files. fid \<noteq> di_fileID (d_recoverySet d ! i) \<or> path \<noteq> getFilePath d (d_recoverySet d ! i)) \<longrightarrow>
       chunk_ranges fid path events = [])"
proof -
  let ?n = "d_sliceByteCount d" and ?ds = "d_recoverySet d"
  let ?fu = "\<lparr> fu_io = io, fu_fs = fs, fu_decoder = d, fu_files = files \<rparr>"
  have su: "fill_setup_ok ?fu" using assms by (simp add: fill_setup_ok_def)
  have n: "0 < ?n" using assms(2) by simp
  obtain events windows' st where
    run: "LoadFileData sched (fu_io ?fu) (fu_fs ?fu) windows (fu_decoder ?fu) = Some (Inr (events, windows', Inr ((fu_decoder ?fu)
          \<lparr> d_fileIDIndices := file_id_indices (fu_set ?fu), d_checksumToLocation := makeChecksumShardLocationMap (fu_slice ?fu) (fu_set ?fu),
            d_fileIntegrityInfos := ls_infos st \<rparr>)))"
    and J: "fill_J ?fu st" and v: "\<forall>i < length (fu_set ?fu). verdict_ok ?fu st i"
    and aligned: "\<forall>i q. \<not> findMisaligned (d_scanPolicy (fu_decoder ?fu)) \<longrightarrow> i < length (fu_set ?fu) \<longrightarrow> q < length (di_checksumPairs (fu_set ?fu ! i)) \<longrightarrow>
      slice_stands (fu_slice ?fu) (fu_set ?fu ! i) (fu_files ?fu ! i) q \<longrightarrow> own_place ?fu i q \<in> recorded (ls_infos st) i q"
    and mine: "\<forall>i < length (fu_set ?fu). chunk_ranges (di_fileID (fu_set ?fu ! i)) (getFilePath (fu_decoder ?fu) (fu_set ?fu ! i)) events
      = length_chunk (size_on_disk (fu_files ?fu ! i)) (di_byteCount (fu_set ?fu ! i)) @
        corrupt_chunks (fu_slice ?fu) (di_byteCount (fu_set ?fu ! i)) (shard_states (fu_slice ?fu) (ls_infos st ! i)) 0 None"
    and others: "\<forall>fid path. (\<forall>i < length (fu_set ?fu). fid \<noteq> di_fileID (fu_set ?fu ! i) \<or> path \<noteq> getFilePath (fu_decoder ?fu) (fu_set ?fu ! i)) \<longrightarrow>
      chunk_ranges fid path events = []"
    by (rule LoadFileData_chunks [OF su assms(5), of sched])
  note run = run [unfolded fill_setup.simps] and v = v [unfolded fill_setup.simps] and aligned = aligned [unfolded fill_setup.simps]
    and mine = mine [unfolded fill_setup.simps] and others = others [unfolded fill_setup.simps]
  have right: "\<exists>cs. chunk_ranges (di_fileID (?ds ! i)) (getFilePath d (?ds ! i)) events = length_chunk (size_on_disk (files ! i)) (di_byteCount (?ds ! i)) @ cs \<and>
         (\<forall>(a, b) \<in> set cs. 0 \<le> a \<and> a < b \<and> b \<le> di_byteCount (?ds ! i)) \<and> sorted_wrt (\<lambda>(a, b) (c, e). b < c) cs \<and>
         (\<forall>x. 0 \<le> x \<and> x < di_byteCount (?ds ! i) \<longrightarrow> (let q = nat (x div int ?n) in
            (in_chunk cs x \<longleftrightarrow> \<lparr> sl_fileID = di_fileID (?ds ! i), sl_start = q * ?n \<rparr> \<notin> recorded (ls_infos st) i q) \<and>
            (\<not> slice_stands ?n (?ds ! i) (files ! i) q \<longrightarrow> in_chunk cs x) \<and>
            (\<not> findMisaligned (d_scanPolicy d) \<or> (\<forall>r < length (di_checksumPairs (?ds ! i)). slice_stands ?n (?ds ! i) (files ! i) r) \<longrightarrow>
               in_chunk cs x \<longrightarrow> \<not> slice_stands ?n (?ds ! i) (files ! i) q)))" if i: "i < length ?ds" for i
  proof -
    let ?cs = "corrupt_chunks ?n (di_byteCount (?ds ! i)) (shard_states ?n (ls_infos st ! i)) 0 None"
    have cut: "slices_cut ?n (?ds ! i)" using assms(3,6) i by simp
    have "\<forall>q. \<not> findMisaligned (d_scanPolicy d) \<longrightarrow> q < length (di_checksumPairs (?ds ! i)) \<longrightarrow>
        slice_stands ?n (?ds ! i) (files ! i) q \<longrightarrow> own_place ?fu i q \<in> recorded (ls_infos st) i q" using aligned i by blast
    note R = chunks_right [OF J, unfolded fill_setup.simps, OF i v [rule_format, OF i] cut this refl]
    show ?thesis
      unfolding Let_def using mine [rule_format, OF i] R(1,2) R(3-5) [OF _ _ refl, unfolded own_place_def fill_setup.simps]
      by (intro exI [of _ ?cs] conjI allI impI) (blast | assumption)+
  qed
  show ?thesis
    unfolding Let_def
    by (rule exI, rule exI, rule exI, intro conjI, rule run) (use right others assms(3) in \<open>simp_all add: Let_def\<close>)
qed

text \<open>The file of the example is missing: its four bytes are reported twice.\<close>

theorem LoadFileData_corrupt_chunks_witness:
  "\<exists>events windows' d' cs. LoadFileData [1, 0] memfs_io \<lparr> fs_workingDir = str ''/'', fs_fileData = [] \<rparr> Map.empty
      (example_decoder \<lparr> findMisaligned = False, searchLimit = 0 \<rparr>) = Some (Inr (events, windows', Inr d')) \<and>
    chunk_ranges (di_fileID example_info) (str ''/a'') events = (0, 4) # cs \<and> in_chunk cs 0 \<and> in_chunk cs 3"
proof -
  let ?fs = "\<lparr> fs_workingDir = str ''/'', fs_fileData = [] \<rparr>"
  let ?d = "example_decoder \<lparr> findMisaligned = False, searchLimit = 0 \<rparr>"
  let ?info = "example_info\<lparr> di_sixteenKHash := md5 [1, 2, 3, 4] \<rparr>"
  have set: "d_recoverySet ?d = [?info]" "d_sliceByteCount ?d = 4" "d_indexPath ?d = str ''/s.par2''"
    by (simp_all add: example_decoder_def)
  have p: "filepath_Join (filepath_Dir (str ''/s.par2'')) (str ''a'') = str ''/a''" by code_simp
  then have path: "getFilePath ?d ?info = str ''/a''" by (simp add: getFilePath_def set example_info_def)
  have rd: "ReadFile ?fs (str ''/a'') = Inl OsErrNotExist" by code_simp
  then have "opens_as (io_OpenRead memfs_io ?fs (getFilePath ?d (d_recoverySet ?d ! 0))) None"
    by (simp add: opens_as_def set path memfs_io_def OpenRead_def)
  then have "\<exists>events windows' d'. LoadFileData [1, 0] memfs_io ?fs Map.empty ?d = Some (Inr (events, windows', Inr d')) \<and>
    (\<forall>i < length [None :: byte list option]. let info = d_recoverySet ?d ! i; n = d_sliceByteCount ?d; f = [None] ! i in
       \<exists>cs. chunk_ranges (di_fileID info) (getFilePath ?d info) events = length_chunk (size_on_disk f) (di_byteCount info) @ cs \<and>
         (\<forall>(a, b) \<in> set cs. 0 \<le> a \<and> a < b \<and> b \<le> di_byteCount info) \<and> sorted_wrt (\<lambda>(a, b) (c, e). b < c) cs \<and>
         (\<forall>x. 0 \<le> x \<and> x < di_byteCount info \<longrightarrow> (let q = nat (x div int n) in
            (in_chunk cs x \<longleftrightarrow> \<lparr> sl_fileID = di_fileID info, sl_start = q * n \<rparr> \<notin> recorded (d_fileIntegrityInfos d') i q) \<and>
            (\<not> slice_stands n info f q \<longrightarrow> in_chunk cs x) \<and>
            (\<not> findMisaligned (d_scanPolicy ?d) \<or> (\<forall>r < length (di_checksumPairs info). slice_stands n info f r) \<longrightarrow>
               in_chunk cs x \<longrightarrow> \<not> slice_stands n info f q)))) \<and>
    (\<forall>fid path. (\<forall>i < length [None :: byte list option]. fid \<noteq> di_fileID (d_recoverySet ?d ! i) \<or> path \<noteq> getFilePath ?d (d_recoverySet ?d ! i)) \<longrightarrow>
       chunk_ranges fid path events = [])"
    by (intro LoadFileData_corrupt_chunks) (simp_all add: set windows_ok_def slices_cut_def example_info_def)
  then obtain events windows' d' where run: "LoadFileData [1, 0] memfs_io ?fs Map.empty ?d = Some (Inr (events, windows', Inr d'))"
    and all: "\<forall>i < length [None :: byte list option]. let info = d_recoverySet ?d ! i; n = d_sliceByteCount ?d; f = [None] ! i in
       \<exists>cs. chunk_ranges (di_fileID info) (getFilePath ?d info) events = length_chunk (size_on_disk f) (di_byteCount info) @ cs \<and>
         (\<forall>(a, b) \<in> set cs. 0 \<le> a \<and> a < b \<and> b \<le> di_byteCount info) \<and> sorted_wrt (\<lambda>(a, b) (c, e). b < c) cs \<and>
         (\<forall>x. 0 \<le> x \<and> x < di_byteCount info \<longrightarrow> (let q = nat (x div int n) in
            (in_chunk cs x \<longleftrightarrow> \<lparr> sl_fileID = di_fileID info, sl_start = q * n \<rparr> \<notin> recorded (d_fileIntegrityInfos d') i q) \<and>
            (\<not> slice_stands n info f q \<longrightarrow> in_chunk cs x) \<and>
            (\<not> findMisaligned (d_scanPolicy ?d) \<or> (\<forall>r < length (di_checksumPairs info). slice_stands n info f r) \<longrightarrow>
               in_chunk cs x \<longrightarrow> \<not> slice_stands n info f q)))"
    by (elim exE conjE)
  have size: "di_byteCount example_info = 4" by (simp add: example_info_def)
  have none: "\<not> slice_stands 4 info None q" for info q by (simp add: slice_stands_def)
  from all obtain cs where "chunk_ranges (di_fileID example_info) (str ''/a'') events = length_chunk (size_on_disk None) 4 @ cs"
    and "\<forall>x. 0 \<le> x \<and> x < 4 \<longrightarrow> in_chunk cs x"
    by (auto simp: set path Let_def size none)
  then have "chunk_ranges (di_fileID example_info) (str ''/a'') events = (0, 4) # cs" "in_chunk cs 0" "in_chunk cs 3"
    by (simp_all add: length_chunk_def size_on_disk_def)
  with run show ?thesis by blast
qed

end
