(* ===== verification/WrittenChecked.thy ===== *)
theory WrittenChecked
  imports WrittenCheck DecoderVerdict
begin

text \<open>
  What \<open>checkWrittenFiles\<close> accepts: for every schedule a file gets no error exactly when it has the byte
  count, the 16k hash and the slice hashes that were to be checked.
\<close>

section \<open>Slices\<close>

definition slice_good :: "nat \<Rightarrow> decoderInputFileInfo \<Rightarrow> byte list \<Rightarrow> nat \<Rightarrow> bool" where
  "slice_good n info f k \<longleftrightarrow> k < length (di_checksumPairs info) \<and> md5 (pad_slice n f (k * n)) = cp_MD5 (di_checksumPairs info ! k)"

lemma checkSlice_None: "checkSlice info k (pad_slice n f (k * n)) = None \<longleftrightarrow> slice_good n info f k"
  by (auto simp: checkSlice_def slice_good_def not_le)

lemma set_strided:
  assumes "0 < n"
  shows "set (strided l n) = {q * n | q. q * n < l}"
  using slice_index [OF assms, of _ l] by (auto simp: strided_def)

lemma check_slices_eq:
  assumes "\<forall>j \<in> set js. j \<le> length buf"
  shows "check_slices n info off buf js = Inr (if \<forall>j \<in> set js. checkSlice info ((off + j) div n) (pad_slice n buf j) = None
     then None else Some errWrittenSlice)"
  using assms
proof (induction js)
  case (Cons j js)
  have e: "checkSlice info k sl = Some x \<Longrightarrow> x = errWrittenSlice" for k sl x by (simp add: checkSlice_def split: if_splits)
  show ?case
  proof (cases "checkSlice info ((off + j) div n) (pad_slice n buf j)")
    case None
    then show ?thesis using Cons by (simp add: sliceAndPad_eq)
  next
    case (Some x)
    then show ?thesis using Cons.prems e [OF Some] by (simp add: sliceAndPad_eq)
  qed
qed simp

section \<open>The pool of windows\<close>

record written_setup =
  wu_decoder :: decoder
  wu_sources :: "windowSource option list"
  wu_files :: "byte list option list"

abbreviation wu_slice :: "written_setup \<Rightarrow> nat" where
  "wu_slice wu \<equiv> d_sliceByteCount (wu_decoder wu)"

abbreviation wu_info :: "written_setup \<Rightarrow> nat \<Rightarrow> decoderInputFileInfo" where
  "wu_info wu i \<equiv> d_recoverySet (wu_decoder wu) ! i"

definition written_setup_ok :: "written_setup \<Rightarrow> bool" where
  "written_setup_ok wu \<longleftrightarrow> 0 < wu_slice wu \<and> list_all2 source_holds (wu_sources wu) (wu_files wu)"

lemma written_setup_okD:
  assumes "written_setup_ok wu" and "i < length (wu_sources wu)" and "wu_files wu ! i = Some f"
  obtains src where "wu_sources wu ! i = Some src" "ws_size src = int (length f)" "reader_over (ws_r src) f"
proof -
  have "source_holds (wu_sources wu ! i) (Some f)"
    using assms by (metis list_all2_conv_all_nth written_setup_ok_def)
  with that show thesis by (auto simp: source_holds_def split: option.splits)
qed

definition read_window :: "written_setup \<Rightarrow> window_task \<Rightarrow> byte list" where
  "read_window wu t = (case wu_files wu ! wt_i t of None \<Rightarrow> [] | Some f \<Rightarrow> take (wt_n t) (drop (wt_off t) f))"

definition wtask_ok :: "written_setup \<Rightarrow> window_task \<Rightarrow> bool" where
  "wtask_ok wu t \<longleftrightarrow> wt_i t < length (wu_sources wu) \<and> 0 < wt_n t \<and> wu_slice wu dvd wt_off t \<and>
     (\<exists>f. wu_files wu ! wt_i t = Some f \<and> wt_off t + wt_n t \<le> length f \<and>
       (wu_slice wu dvd wt_n t \<or> wt_off t + wt_n t = length f) \<and>
       (16 * 1024 \<le> wt_n t \<or> wt_off t + wt_n t = length f))"

definition window_verdict :: "written_setup \<Rightarrow> nat \<Rightarrow> nat \<Rightarrow> byte list \<Rightarrow> go_error option" where
  "window_verdict wu i off buf = (case check_window (wu_slice wu) (wu_info wu i) off buf of Inl e \<Rightarrow> Some e | Inr r \<Rightarrow> r)"

definition window_todo :: "written_setup \<Rightarrow> (nat \<times> nat \<times> byte list) window_proc \<Rightarrow> nat set" where
  "window_todo wu p = (case p of
       Fetch t \<Rightarrow> if window_verdict wu (wt_i t) (wt_off t) (read_window wu t) = None then {} else {wt_i t}
     | Body i (i', off, buf) \<Rightarrow> if window_verdict wu i' off buf = None then {} else {i})"

definition failed_files :: "go_error option list \<Rightarrow> nat set" where
  "failed_files errs = {i. i < length errs \<and> errs ! i \<noteq> None}"

definition window_P :: "written_setup \<Rightarrow> (nat \<times> nat \<times> byte list) window_proc \<Rightarrow> bool" where
  "window_P wu p = (case p of Fetch t \<Rightarrow> wtask_ok wu t
     | Body i (i', off, buf) \<Rightarrow> i' = i \<and> (\<exists>t. wtask_ok wu t \<and> wt_i t = i \<and> wt_off t = off \<and> buf = read_window wu t))"

fun window_rank :: "(nat \<times> nat \<times> byte list) window_proc \<Rightarrow> nat" where
  "window_rank (Fetch t) = 1"
| "window_rank (Body i x) = 0"

lemma failed_set_err:
  "i < length errs \<Longrightarrow> failed_files (set_err i e errs) = insert i (failed_files errs)"
  "length (set_err i e errs) = length errs"
  by (auto simp: failed_files_def set_err_def nth_list_update)

lemma length_read_window: "wtask_ok wu t \<Longrightarrow> length (read_window wu t) = wt_n t"
  by (auto simp: read_window_def wtask_ok_def)

lemma check_window_eq:
  assumes "0 < wu_slice wu"
  shows "check_window (wu_slice wu) (wu_info wu i) off buf = Inr (window_verdict wu i off buf)"
proof -
  have "\<forall>j \<in> set (strided (length buf) (wu_slice wu)). j \<le> length buf" using set_strided [OF assms, of "length buf"] by auto
  from check_slices_eq [OF this, of "wu_slice wu" "wu_info wu i" off]
  obtain r where "check_slices (wu_slice wu) (wu_info wu i) off buf (strided (length buf) (wu_slice wu)) = Inr r" by blast
  then have "\<exists>r. check_window (wu_slice wu) (wu_info wu i) off buf = Inr r" by (simp add: check_window_def)
  then show ?thesis by (auto simp: window_verdict_def)
qed

lemma window_step_written:
  assumes su: "written_setup_ok wu" and P: "window_P wu p" and J: "length (fst s) = length (wu_sources wu)"
  shows "\<exists>p' s'. window_step (wu_sources wu) (written_fn (wu_decoder wu)) p s = Inr (p', s') \<and>
    length (fst s') = length (wu_sources wu) \<and>
    (case p' of None \<Rightarrow> failed_files (fst s') = failed_files (fst s) \<union> window_todo wu p
     | Some q \<Rightarrow> window_P wu q \<and> (\<exists>t i x. p = Fetch t \<and> q = Body i x) \<and>
         failed_files (fst s') \<union> window_todo wu q = failed_files (fst s) \<union> window_todo wu p)"
proof (cases p)
  case (Fetch t)
  then have t: "wtask_ok wu t" using P by (simp add: window_P_def)
  then obtain f where f: "wt_i t < length (wu_sources wu)" "0 < wt_n t" "wu_files wu ! wt_i t = Some f" "wt_off t + wt_n t \<le> length f"
    by (auto simp: wtask_ok_def)
  obtain src where src: "wu_sources wu ! wt_i t = Some src" "reader_over (ws_r src) f"
    using written_setup_okD [OF su f(1,3)] by blast
  have rd: "ws_r src (int (wt_off t)) (wt_n t) = Inr (read_window wu t)"
    using reader_over.reads [OF src(2), of "int (wt_off t)" "wt_n t"] f by (simp add: read_window_def)
  show ?thesis
  proof (cases "fst s ! wt_i t = None")
    case False
    then have "wt_i t \<in> failed_files (fst s)" using f(1) J by (simp add: failed_files_def)
    with False show ?thesis using J
      by (intro exI [of _ None] exI [of _ s]) (auto simp: window_step_def Fetch window_todo_def split: prod.splits)
  next
    case True
    let ?q = "Body (wt_i t) (wt_i t, wt_off t, read_window wu t)"
    have "window_P wu ?q" using t by (auto simp: window_P_def)
    moreover have "window_step (wu_sources wu) (written_fn (wu_decoder wu)) p s = Inr (Some ?q, s)"
      using True src(1) rd by (auto simp: window_step_def Fetch written_fn_def split: prod.splits)
    ultimately show ?thesis using J
      by (intro exI [of _ "Some ?q"] exI [of _ s]) (auto simp: Fetch window_todo_def)
  qed
next
  case (Body i x)
  obtain i' off buf where x: "x = (i', off, buf)" by (cases x)
  from P obtain t where i: "i' = i" and t: "wtask_ok wu t" "wt_i t = i" by (auto simp: window_P_def Body x)
  have il: "i < length (fst s)" using t J by (auto simp: wtask_ok_def)
  have n: "0 < wu_slice wu" using su by (simp add: written_setup_ok_def)
  obtain errs u where s: "s = (errs, u)" by (cases s)
  show ?thesis
  proof (cases "window_verdict wu i off buf")
    case None
    then show ?thesis using J
      by (intro exI [of _ None] exI [of _ s]) (simp add: window_step_def Body x i written_fn_def check_window_eq [OF n] s window_todo_def)
  next
    case (Some e)
    then show ?thesis using J il failed_set_err(1) [of i errs e] failed_set_err(2) [of i e errs]
      by (intro exI [of _ None] exI [of _ "(set_err i e errs, u)"])
        (simp add: window_step_def Body x i written_fn_def check_window_eq [OF n] s window_todo_def)
  qed
qed

interpretation written_windows: pool_exact Fetch "window_step (wu_sources wu) (written_fn (wu_decoder wu))"
  "\<lambda>t. written_setup_ok wu \<and> wtask_ok wu t" "\<lambda>p s. written_setup_ok wu \<and> window_P wu p" "\<lambda>s. length (fst s) = length (wu_sources wu)"
  "window_todo wu" "\<lambda>s. failed_files (fst s)" window_rank for wu
proof unfold_locales
  fix t assume "written_setup_ok wu \<and> wtask_ok wu t"
  then show "written_setup_ok wu \<and> window_P wu (Fetch t)" by (simp add: window_P_def)
next
  fix p :: "(nat \<times> nat \<times> byte list) window_proc" and s :: "go_error option list \<times> unit"
  assume PJ: "written_setup_ok wu \<and> window_P wu p" "length (fst s) = length (wu_sources wu)"
  from window_step_written [OF PJ(1) [THEN conjunct1] PJ(1) [THEN conjunct2] PJ(2)] obtain p' s' where
    s: "window_step (wu_sources wu) (written_fn (wu_decoder wu)) p s = Inr (p', s')" "length (fst s') = length (wu_sources wu)"
    and c: "case p' of None \<Rightarrow> failed_files (fst s') = failed_files (fst s) \<union> window_todo wu p
     | Some q \<Rightarrow> window_P wu q \<and> (\<exists>t i x. p = Fetch t \<and> q = Body i x) \<and>
         failed_files (fst s') \<union> window_todo wu q = failed_files (fst s) \<union> window_todo wu p" by blast
  have "case p' of None \<Rightarrow> failed_files (fst s) \<union> window_todo wu p \<subseteq> failed_files (fst s')
      | Some q \<Rightarrow> (written_setup_ok wu \<and> window_P wu q) \<and>
          window_rank q < window_rank p \<and>
          failed_files (fst s) \<union> window_todo wu p \<subseteq> failed_files (fst s') \<union> window_todo wu q"
    using c PJ(1) by (cases p') auto
  with s show "\<exists>p' s'. window_step (wu_sources wu) (written_fn (wu_decoder wu)) p s = Inr (p', s') \<and> length (fst s') = length (wu_sources wu) \<and>
      (case p' of None \<Rightarrow> failed_files (fst s) \<union> window_todo wu p \<subseteq> failed_files (fst s')
      | Some q \<Rightarrow> (written_setup_ok wu \<and> window_P wu q) \<and>
          window_rank q < window_rank p \<and>
          failed_files (fst s) \<union> window_todo wu p \<subseteq> failed_files (fst s') \<union> window_todo wu q)" by blast
  fix p1 s1 assume "window_step (wu_sources wu) (written_fn (wu_decoder wu)) p s = Inr (p1, s1)"
  with s c show "failed_files (fst s1) \<union> (case p1 of None \<Rightarrow> {} | Some q \<Rightarrow> window_todo wu q) \<subseteq> failed_files (fst s) \<union> window_todo wu p"
    by (cases p') auto
qed

section \<open>The windows of a file\<close>

lemma sixteenKHash_take: "sixteenKHash f = md5 (take (16 * 1024) f)"
  by (simp add: sixteenKHash_def)

lemma window_verdict_None:
  assumes su: "written_setup_ok wu" and t: "wtask_ok wu t" and f: "wu_files wu ! wt_i t = Some f"
  shows "window_verdict wu (wt_i t) (wt_off t) (read_window wu t) = None \<longleftrightarrow>
    (wt_off t = 0 \<longrightarrow> sixteenKHash f = di_sixteenKHash (wu_info wu (wt_i t))) \<and>
    (\<forall>q. q * wu_slice wu < wt_n t \<longrightarrow> slice_good (wu_slice wu) (wu_info wu (wt_i t)) f (wt_off t div wu_slice wu + q))"
proof -
  let ?n = "wu_slice wu" and ?info = "wu_info wu (wt_i t)" and ?buf = "read_window wu t"
  have n: "0 < ?n" using su by (simp add: written_setup_ok_def)
  from t f have tw: "wt_off t + wt_n t \<le> length f" "?n dvd wt_off t" "?n dvd wt_n t \<or> wt_off t + wt_n t = length f"
    "16 * 1024 \<le> wt_n t \<or> wt_off t + wt_n t = length f" by (auto simp: wtask_ok_def)
  have buf: "?buf = take (wt_n t) (drop (wt_off t) f)" by (simp add: read_window_def f)
  have head: "sixteenKHash ?buf = sixteenKHash f" if "wt_off t = 0"
    using tw(4) that by (auto simp: buf sixteenKHash_take min_def)
  obtain c where c: "wt_off t = ?n * c" using tw(2) by (rule dvdE)
  have slice: "checkSlice ?info ((wt_off t + q * ?n) div ?n) (pad_slice ?n ?buf (q * ?n)) = None \<longleftrightarrow>
      slice_good ?n ?info f (wt_off t div ?n + q)" if "q * ?n < wt_n t" for q
  proof -
    have "pad_slice ?n ?buf (q * ?n) = pad_slice ?n f (wt_off t + q * ?n)"
      unfolding buf by (rule pad_slice_window [OF tw(1,3) _ that]) simp
    moreover have "wt_off t + q * ?n = (c + q) * ?n" by (simp add: c algebra_simps)
    ultimately show ?thesis using checkSlice_None [of ?info "c + q" ?n f] n by (simp add: c)
  qed
  have le: "\<forall>j \<in> set (strided (length ?buf) ?n). j \<le> length ?buf" using set_strided [OF n, of "length ?buf"] by auto
  have multiples: "(\<forall>j \<in> {q * ?n | q. q * ?n < l}. F j) \<longleftrightarrow> (\<forall>q. q * ?n < l \<longrightarrow> F (q * ?n))" for F l by blast
  have "(\<forall>j \<in> set (strided (length ?buf) ?n). checkSlice ?info ((wt_off t + j) div ?n) (pad_slice ?n ?buf j) = None) \<longleftrightarrow>
      (\<forall>q. q * ?n < wt_n t \<longrightarrow> slice_good ?n ?info f (wt_off t div ?n + q))"
    unfolding set_strided [OF n] length_read_window [OF t] multiples using slice by simp
  then have "check_slices ?n ?info (wt_off t) ?buf (strided (length ?buf) ?n)
      = Inr (if \<forall>q. q * ?n < wt_n t \<longrightarrow> slice_good ?n ?info f (wt_off t div ?n + q) then None else Some errWrittenSlice)"
    unfolding check_slices_eq [OF le] by simp
  then show ?thesis using head by (auto simp: window_verdict_def check_window_def)
qed

definition all_good :: "nat \<Rightarrow> decoderInputFileInfo \<Rightarrow> byte list \<Rightarrow> bool" where
  "all_good n info f \<longleftrightarrow> sixteenKHash f = di_sixteenKHash info \<and> (\<forall>k. k * n < length f \<longrightarrow> slice_good n info f k)"

lemma windows_verdict:
  assumes su: "written_setup_ok wu" and w: "w = m * wu_slice wu" "0 < m" "2 ^ 20 \<le> w"
    and i: "i < length (wu_sources wu)"
  shows "t \<in> source_windows w i (wu_sources wu ! i) \<Longrightarrow> wtask_ok wu t \<and> wt_i t = i"
    and "(\<exists>t \<in> source_windows w i (wu_sources wu ! i). window_verdict wu i (wt_off t) (read_window wu t) \<noteq> None) \<longleftrightarrow>
      (\<exists>f. wu_files wu ! i = Some f \<and> f \<noteq> [] \<and> \<not> all_good (wu_slice wu) (wu_info wu i) f)"
proof -
  let ?n = "wu_slice wu"
  have n: "0 < ?n" using su by (simp add: written_setup_ok_def)
  have h: "source_holds (wu_sources wu ! i) (wu_files wu ! i)"
    using su i by (metis list_all2_conv_all_nth written_setup_ok_def)
  show ok: "t \<in> source_windows w i (wu_sources wu ! i) \<Longrightarrow> wtask_ok wu t \<and> wt_i t = i" for t
  proof -
    assume t: "t \<in> source_windows w i (wu_sources wu ! i)"
    then obtain src q where src: "wu_sources wu ! i = Some src"
      and tq: "t = \<lparr> wt_i = i, wt_off = q * w, wt_n = min w (nat (ws_size src) - q * w) \<rparr>" and q: "int (q * w) < ws_size src"
      by (auto simp: source_windows_def windows_of_def split: option.splits)
    from h src obtain f where f: "wu_files wu ! i = Some f" "ws_size src = int (length f)"
      by (auto simp: source_holds_def split: option.splits)
    have q': "q * w < length f" using q f(2) by linarith
    have "0 < w" "16 * 1024 \<le> w" using w(3) by simp_all
    then show ?thesis using q' i w(1) by (auto simp: wtask_ok_def tq f min_def)
  qed
  show "(\<exists>t \<in> source_windows w i (wu_sources wu ! i). window_verdict wu i (wt_off t) (read_window wu t) \<noteq> None) \<longleftrightarrow>
      (\<exists>f. wu_files wu ! i = Some f \<and> f \<noteq> [] \<and> \<not> all_good ?n (wu_info wu i) f)"
  proof (cases "wu_files wu ! i")
    case None
    with h have "wu_sources wu ! i = None" by (auto simp: source_holds_def split: option.splits)
    with None show ?thesis by (simp add: source_windows_def)
  next
    case (Some f)
    with h obtain src where src: "wu_sources wu ! i = Some src" "ws_size src = int (length f)"
      by (auto simp: source_holds_def split: option.splits)
    define T where "T r = \<lparr> wt_i = i, wt_off = r * w, wt_n = min w (length f - r * w) \<rparr>" for r
    have ws: "source_windows w i (wu_sources wu ! i) = {T r | r. r * w < length f}"
      unfolding source_windows_def windows_of_def src option.case T_def by (simp flip: of_nat_mult)
    have v: "window_verdict wu i (wt_off (T r)) (read_window wu (T r)) = None \<longleftrightarrow>
        (r * w = 0 \<longrightarrow> sixteenKHash f = di_sixteenKHash (wu_info wu i)) \<and>
        (\<forall>q. q * ?n < min w (length f - r * w) \<longrightarrow> slice_good ?n (wu_info wu i) f (r * m + q))" if r: "r * w < length f" for r
    proof -
      have "wtask_ok wu (T r)" using ok [of "T r"] r unfolding ws by blast
      from window_verdict_None [OF su this, of f] Some show ?thesis
        using n by (simp add: T_def w(1))
    qed
    have "(\<forall>r. r * w < length f \<longrightarrow> (r * w = 0 \<longrightarrow> sixteenKHash f = di_sixteenKHash (wu_info wu i)) \<and>
        (\<forall>q. q * ?n < min w (length f - r * w) \<longrightarrow> slice_good ?n (wu_info wu i) f (r * m + q))) \<longleftrightarrow>
      f = [] \<or> all_good ?n (wu_info wu i) f" (is "?L \<longleftrightarrow> ?R")
    proof
      assume L: ?L
      show ?R
      proof (cases "f = []")
        case False
        have "sixteenKHash f = di_sixteenKHash (wu_info wu i)" using L [rule_format, of 0] False by simp
        moreover have "slice_good ?n (wu_info wu i) f k" if k: "k * ?n < length f" for k
        proof -
          have "boundary ?n (length f) (k * ?n)" using k by (auto simp: boundary_def)
          then obtain r q where rq: "r * w < length f" "q * ?n < min w (length f - r * w)" "k * ?n = r * w + q * ?n"
            unfolding windows_of_file [OF n w(1,2), symmetric] by blast
          have "k * ?n = (r * m + q) * ?n" using rq(3) by (simp add: w(1) algebra_simps)
          then have "k = r * m + q" using n by (simp only: mult_cancel2) simp
          with L rq(1,2) show ?thesis by blast
        qed
        ultimately show ?thesis by (simp add: all_good_def)
      qed simp
    next
      assume R: ?R
      show ?L
      proof (intro allI impI conjI)
        fix r assume r: "r * w < length f"
        then have good: "all_good ?n (wu_info wu i) f" using R by auto
        show "sixteenKHash f = di_sixteenKHash (wu_info wu i)" using good by (simp add: all_good_def)
        fix q assume q: "q * ?n < min w (length f - r * w)"
        have "(r * m + q) * ?n = r * w + q * ?n" by (simp add: w(1) algebra_simps)
        moreover have "r * w + x < length f" if "x < length f - r * w" for x using that r by linarith
        ultimately have "(r * m + q) * ?n < length f" using q by simp
        then show "slice_good ?n (wu_info wu i) f (r * m + q)" using good by (simp add: all_good_def)
      qed
    qed
    then have all: "(\<forall>r. r * w < length f \<longrightarrow> window_verdict wu i (wt_off (T r)) (read_window wu (T r)) = None) \<longleftrightarrow>
        f = [] \<or> all_good ?n (wu_info wu i) f" using v by blast
    have images: "(\<exists>t \<in> {T r | r. Q r}. F t) \<longleftrightarrow> \<not> (\<forall>r. Q r \<longrightarrow> \<not> F (T r))" for F Q by blast
    have images: "(\<exists>t \<in> {T r | r. Q r}. F t \<noteq> None) \<longleftrightarrow> \<not> (\<forall>r. Q r \<longrightarrow> F (T r) = None)" for F :: "window_task \<Rightarrow> go_error option" and Q
      unfolding images by simp
    have "(\<exists>t \<in> source_windows w i (wu_sources wu ! i). window_verdict wu i (wt_off t) (read_window wu t) \<noteq> None) \<longleftrightarrow>
        \<not> (\<forall>r. r * w < length f \<longrightarrow> window_verdict wu i (wt_off (T r)) (read_window wu (T r)) = None)" unfolding ws by (rule images)
    then show ?thesis unfolding all using Some by simp
  qed
qed

lemma forEachWindow_written:
  assumes su: "written_setup_ok wu" and w: "w = m * wu_slice wu" "0 < m" "2 ^ 20 \<le> w"
  shows "\<exists>errs. forEachWindow sched (wu_sources wu) w workers (written_fn (wu_decoder wu)) () = Some (Inr (errs, ())) \<and>
    length errs = length (wu_sources wu) \<and>
    (\<forall>i < length errs. errs ! i = None \<longleftrightarrow> (case wu_files wu ! i of None \<Rightarrow> True
      | Some f \<Rightarrow> f = [] \<or> all_good (wu_slice wu) (wu_info wu i) f))"
proof -
  let ?e = "replicate (length (wu_sources wu)) None :: go_error option list"
  have "0 < w" using w(3) by simp
  from window_tasks_set [OF this, of 0 "wu_sources wu"] obtain ts where
    ts: "window_tasks w 0 (wu_sources wu) = Some ts"
    "set ts = (\<Union>k < length (wu_sources wu). source_windows w k (wu_sources wu ! k))" by auto
  have ok: "\<forall>t \<in> set ts. written_setup_ok wu \<and> wtask_ok wu t"
    unfolding ts(2) using windows_verdict(1) [OF su w] su by blast
  moreover have "0 < nat (max workers 1) \<or> ts = []" by (simp add: max_def)
  ultimately obtain c where c: "pool_run Fetch (window_step (wu_sources wu) (written_fn (wu_decoder wu))) sched
      (pool_init (nat (max workers 1)) ts (?e, ())) = Some (Inr c)" "length (fst (pl_shared c)) = length (wu_sources wu)"
    "failed_files (fst (pl_shared c)) = failed_files (fst (?e, ())) \<union> (\<Union>t \<in> set ts. window_todo wu (Fetch t))"
    using written_windows.run_exact [of "nat (max workers 1)" ts wu "(?e, ())" sched] by auto
  obtain errs where errs: "pl_shared c = (errs, ())" by (cases "pl_shared c") simp
  have len: "length errs = length (wu_sources wu)" using c(2) by (simp add: errs)
  have start: "failed_files ?e = {}" by (auto simp: failed_files_def)
  have failed: "i \<in> failed_files errs \<longleftrightarrow> (\<exists>f. wu_files wu ! i = Some f \<and> f \<noteq> [] \<and> \<not> all_good (wu_slice wu) (wu_info wu i) f)"
    if i: "i < length (wu_sources wu)" for i
  proof -
    have "i \<in> failed_files errs \<longleftrightarrow> (\<exists>t \<in> set ts. wt_i t = i \<and> window_verdict wu (wt_i t) (wt_off t) (read_window wu t) \<noteq> None)"
      using c(3) start by (auto simp: errs window_todo_def split: if_splits)
    also have "\<dots> \<longleftrightarrow> (\<exists>t \<in> source_windows w i (wu_sources wu ! i). window_verdict wu i (wt_off t) (read_window wu t) \<noteq> None)"
      unfolding ts(2) using windows_verdict(1) [OF su w] i by blast
    finally show ?thesis unfolding windows_verdict(2) [OF su w i] .
  qed
  have "errs ! i = None \<longleftrightarrow> (case wu_files wu ! i of None \<Rightarrow> True | Some f \<Rightarrow> f = [] \<or> all_good (wu_slice wu) (wu_info wu i) f)"
    if "i < length errs" for i
    using failed [of i] that len by (auto simp: failed_files_def split: option.splits)
  moreover have "forEachWindow sched (wu_sources wu) w workers (written_fn (wu_decoder wu)) () = Some (Inr (errs, ()))"
    using c(1) by (simp add: forEachWindow_def ts(1) errs)
  ultimately show ?thesis using len by blast
qed

section \<open>The pool of slices\<close>

definition slice_accepted :: "nat \<Rightarrow> decoderInputFileInfo \<Rightarrow> byte list \<Rightarrow> int \<Rightarrow> bool" where
  "slice_accepted n info f k \<longleftrightarrow> (if k < 0 then sixteenKHash f = di_sixteenKHash info
     else nat k * n \<le> length f \<and> slice_good n info f (nat k))"

lemma pad_slice_take:
  assumes p: "p \<le> length f" and m: "m = min n (length f - p)"
  shows "take m (drop p f) @ replicate (n - m) 0 = pad_slice n f p"
proof (rule nth_equalityI)
  have "m \<le> n" "m \<le> length f - p" by (simp_all add: m)
  then show "length (take m (drop p f) @ replicate (n - m) 0) = length (pad_slice n f p)" by simp
  fix i assume "i < length (take m (drop p f) @ replicate (n - m) 0)"
  then have i: "i < n" using \<open>m \<le> n\<close> \<open>m \<le> length f - p\<close> by simp
  show "(take m (drop p f) @ replicate (n - m) 0) ! i = pad_slice n f p ! i"
  proof (cases "i < m")
    case True
    then have "p + i < length f" "i < length f - p" using p \<open>m \<le> length f - p\<close> by linarith+
    then show ?thesis using i p True by (simp add: pad_slice_def nth_append)
  next
    case False
    then have "\<not> p + i < length f" using i p unfolding m by linarith
    then show ?thesis using i False \<open>m \<le> length f - p\<close> by (simp add: pad_slice_def nth_append)
  qed
qed

lemma checkSliceAt_None:
  assumes src: "ws_size src = int (length f)" "reader_over (ws_r src) f" and n: "0 < n"
  shows "checkSliceAt n src info k = None \<longleftrightarrow> slice_accepted n info f k"
proof (cases "k < 0")
  case True
  define h where "h = nat (min (16 * 1024) (ws_size src))"
  have "(if h > 0 then ws_r src 0 h else Inr []) = Inr (take (16 * 1024) f)"
  proof (cases "f = []")
    case False
    then have "0 < h" "h \<le> length f" "take h f = take (16 * 1024) f" by (auto simp: h_def src(1) min_def)
    then show ?thesis using reader_over.reads [OF src(2), of 0 h] by simp
  qed (simp add: h_def src(1))
  with True show ?thesis by (simp only: checkSliceAt_def slice_accepted_def Let_def if_True flip: h_def) (simp add: sixteenKHash_take)
next
  case False
  define q where "q = nat k"
  have k: "k = int q" using False by (simp add: q_def)
  show ?thesis
  proof (cases "q * n \<le> length f")
    case le: True
    define m where "m = min n (length f - q * n)"
    have m: "nat (min (int n) (int (length f) - int q * int n)) = m"
      using le unfolding m_def by (simp flip: of_nat_mult of_nat_diff of_nat_min)
    have pos: "\<not> int q * int n > int (length f)" using le by (simp flip: of_nat_mult)
    have "(if m > 0 then ws_r src (int q * int n) m else Inr []) = Inr (take m (drop (q * n) f))"
    proof (cases "0 < m")
      case True
      have "nat (int q * int n) = q * n" by (simp add: nat_mult_distrib)
      moreover have "q * n + m \<le> length f" using le unfolding m_def by linarith
      ultimately show ?thesis using reader_over.reads [OF src(2), of "int q * int n" m] True by simp
    qed simp
    moreover have "take m (drop (q * n) f) @ replicate (n - m) 0 = pad_slice n f (q * n)"
      using pad_slice_take [OF le m_def] .
    ultimately show ?thesis using pos le
      by (simp add: checkSliceAt_def slice_accepted_def src(1) k m Let_def checkSlice_None split del: if_split)
  next
    case False
    then have "int q * int n > int (length f)" by (simp flip: of_nat_mult)
    with False show ?thesis by (simp add: checkSliceAt_def slice_accepted_def src(1) k)
  qed
qed

definition slice_todo :: "written_setup \<Rightarrow> nat \<times> int \<Rightarrow> nat set" where
  "slice_todo wu t = (case wu_files wu ! fst t of None \<Rightarrow> {}
     | Some f \<Rightarrow> if slice_accepted (wu_slice wu) (wu_info wu (fst t)) f (snd t) then {} else {fst t})"

definition stask_ok :: "written_setup \<Rightarrow> nat \<times> int \<Rightarrow> bool" where
  "stask_ok wu t \<longleftrightarrow> written_setup_ok wu \<and> fst t < length (wu_sources wu) \<and> wu_files wu ! fst t \<noteq> None"

lemma slice_step_written:
  assumes t: "stask_ok wu t" and J: "length errs = length (wu_sources wu)"
  shows "\<exists>errs'. slice_step (wu_decoder wu) (wu_sources wu) t errs = Inr (None, errs') \<and> length errs' = length (wu_sources wu) \<and>
    failed_files errs' = failed_files errs \<union> slice_todo wu t"
proof -
  obtain i k where ik: "t = (i, k)" by (cases t)
  from t ik obtain f where f: "written_setup_ok wu" "i < length (wu_sources wu)" "wu_files wu ! i = Some f" by (auto simp: stask_ok_def)
  from written_setup_okD [OF f] obtain src where src: "wu_sources wu ! i = Some src" "ws_size src = int (length f)" "reader_over (ws_r src) f" .
  have "0 < wu_slice wu" using f(1) by (simp add: written_setup_ok_def)
  note c = checkSliceAt_None [OF src(2,3) this, of "wu_info wu i" k]
  show ?thesis
  proof (cases "checkSliceAt (wu_slice wu) src (wu_info wu i) k")
    case None
    then show ?thesis using c J by (simp add: slice_step_def ik src(1) slice_todo_def f(3))
  next
    case (Some e)
    then show ?thesis using c J f(2) by (simp add: slice_step_def ik src(1) slice_todo_def f(3) failed_set_err)
  qed
qed

interpretation written_slices: pool_exact id "slice_step (wu_decoder wu) (wu_sources wu)" "stask_ok wu" "\<lambda>t errs. stask_ok wu t"
  "\<lambda>errs. length errs = length (wu_sources wu)" "slice_todo wu" failed_files "\<lambda>t. 0" for wu
proof unfold_locales
  fix t and errs :: "go_error option list"
  assume PJ: "stask_ok wu t" "length errs = length (wu_sources wu)"
  from slice_step_written [OF this] obtain errs' where
    s: "slice_step (wu_decoder wu) (wu_sources wu) t errs = Inr (None, errs')" "length errs' = length (wu_sources wu)"
      "failed_files errs' = failed_files errs \<union> slice_todo wu t" by blast
  then show "\<exists>p' s'. slice_step (wu_decoder wu) (wu_sources wu) t errs = Inr (p', s') \<and> length s' = length (wu_sources wu) \<and>
      (case p' of None \<Rightarrow> failed_files errs \<union> slice_todo wu t \<subseteq> failed_files s'
      | Some q \<Rightarrow> stask_ok wu q \<and> 0 < (0 :: nat) \<and> failed_files errs \<union> slice_todo wu t \<subseteq> failed_files s' \<union> slice_todo wu q)"
    by (intro exI [of _ None] exI [of _ errs']) simp
  fix p' s' assume "slice_step (wu_decoder wu) (wu_sources wu) t errs = Inr (p', s')"
  with s show "failed_files s' \<union> (case p' of None \<Rightarrow> {} | Some q \<Rightarrow> slice_todo wu q) \<subseteq> failed_files errs \<union> slice_todo wu t" by simp
qed simp_all

section \<open>The verdict\<close>

text \<open>What is asked of file \<open>i\<close> when the rows \<open>rs\<close>, or all of them, are to be checked.\<close>

definition asks_all :: "decoderInputFileInfo \<Rightarrow> nat list option \<Rightarrow> bool" where
  "asks_all info rs \<longleftrightarrow> (case rs of None \<Rightarrow> True
     | Some ks \<Rightarrow> ks \<noteq> [] \<and> length (di_checksumPairs info) \<le> 2 * length ks)"

definition written_ok :: "nat \<Rightarrow> decoderInputFileInfo \<Rightarrow> nat list option \<Rightarrow> byte list \<Rightarrow> bool" where
  "written_ok n info rs f \<longleftrightarrow> int (length f) = di_byteCount info \<and> sixteenKHash f = di_sixteenKHash info \<and>
     (if asks_all info rs then \<forall>k. k * n < length f \<longrightarrow> slice_good n info f k
      else \<forall>k \<in> set (the rs). k * n \<le> length f \<and> slice_good n info f k)"

lemma merge_errs_nth:
  "length winErrs = length errs \<Longrightarrow> i < length errs \<Longrightarrow> merge_errs errs winErrs ! i = None \<longleftrightarrow> errs ! i = None \<and> winErrs ! i = None"
  "length winErrs = length errs \<Longrightarrow> length (merge_errs errs winErrs) = length errs"
  by (auto simp: merge_errs_def)

lemma slice_tasks_set:
  "(i, k) \<in> set (slice_tasks sources fullCheck rows errs) \<longleftrightarrow> i < length sources \<and> sources ! i \<noteq> None \<and> \<not> fullCheck ! i \<and> errs ! i = None \<and>
     (k = -1 \<or> (\<exists>rs q. rows ! i = Some rs \<and> q \<in> set rs \<and> k = int q))"
  by (auto simp: slice_tasks_def split: option.splits)

lemma empty_errs_nth:
  assumes "i < length errs"
  shows "empty_errs d sources errs ! i = None \<longleftrightarrow> errs ! i = None \<and>
    (\<forall>src. sources ! i = Some src \<longrightarrow> ws_size src = 0 \<longrightarrow> md5 [] = di_sixteenKHash (d_recoverySet d ! i))"
  using assms by (auto simp: empty_errs_def split: option.splits)

lemma checkWrittenFiles_ok:
  assumes n: "0 < d_sliceByteCount d" and rows: "length rows = length paths"
    and files: "length files = length paths" "\<forall>i < length paths. paths ! i \<noteq> [] \<longrightarrow> opens_as (io_OpenRead io fs (paths ! i)) (files ! i)"
  shows "\<exists>errs. checkWrittenFiles wsched ssched io fs d paths rows = Some (Inr errs) \<and> length errs = length paths \<and>
    (\<forall>i < length paths. errs ! i = None \<longleftrightarrow> paths ! i = [] \<or>
      (\<exists>f. files ! i = Some f \<and> written_ok (d_sliceByteCount d) (d_recoverySet d ! i) (rows ! i) f))"
proof -
  let ?n = "d_sliceByteCount d" and ?info = "\<lambda>i. d_recoverySet d ! i" and ?l = "length paths"
  define opened where "opened = map (\<lambda>(i, path). open_written io fs d i path) (enumerate 0 paths)"
  define sources where "sources = map fst opened"
  define errs0 where "errs0 = map snd opened"
  define fullCheck where "fullCheck = map (\<lambda>i. full_check d i (rows ! i) (sources ! i)) [0..<?l]"
  define full where "full = map (\<lambda>i. if fullCheck ! i then sources ! i else None) [0..<?l]"
  define sfiles where "sfiles = map (\<lambda>i. if paths ! i = [] then None else case files ! i of None \<Rightarrow> None
      | Some f \<Rightarrow> if int (length f) = di_byteCount (?info i) then Some f else None) [0..<?l]"
  define ffiles where "ffiles = map (\<lambda>i. if fullCheck ! i then sfiles ! i else None) [0..<?l]"
  have len: "length opened = ?l" "length sources = ?l" "length errs0 = ?l" "length fullCheck = ?l" "length full = ?l"
    "length sfiles = ?l" "length ffiles = ?l"
    by (simp_all add: opened_def sources_def errs0_def fullCheck_def full_def sfiles_def ffiles_def)
  have parts: "full ! i = (if fullCheck ! i then sources ! i else None)" "ffiles ! i = (if fullCheck ! i then sfiles ! i else None)"
    if "i < ?l" for i using that by (simp_all add: full_def ffiles_def)
  have op: "opened ! i = open_written io fs d i (paths ! i)" if "i < ?l" for i
    using that by (simp add: opened_def enumerate_eq_zip)
  have holds: "source_holds (sources ! i) (sfiles ! i)" and errs0: "errs0 ! i = None \<longleftrightarrow> paths ! i = [] \<or> sfiles ! i \<noteq> None"
    if i: "i < ?l" for i
  proof -
    have "source_holds (sources ! i) (sfiles ! i) \<and> (errs0 ! i = None \<longleftrightarrow> paths ! i = [] \<or> sfiles ! i \<noteq> None)"
    proof (cases "paths ! i = []")
      case True
      then show ?thesis using i len by (simp add: sources_def errs0_def sfiles_def op open_written_def source_holds_def)
    next
      case False
      with files(2) i have o: "opens_as (io_OpenRead io fs (paths ! i)) (files ! i)" by blast
      show ?thesis
      proof (cases "files ! i")
        case None
        then show ?thesis using o i len False
          by (simp add: sources_def errs0_def sfiles_def op open_written_def source_holds_def opens_as_def)
      next
        case (Some f)
        with o obtain rd where "io_OpenRead io fs (paths ! i) = Inr (rd, int (length f))" "reader_over rd f" by (auto simp: opens_as_def)
        then show ?thesis using i len False Some
          by (simp add: sources_def errs0_def sfiles_def op open_written_def source_holds_def)
      qed
    qed
    then show "source_holds (sources ! i) (sfiles ! i)" "errs0 ! i = None \<longleftrightarrow> paths ! i = [] \<or> sfiles ! i \<noteq> None" by blast+
  qed
  let ?wu = "\<lparr> wu_decoder = d, wu_sources = full, wu_files = ffiles \<rparr>" and ?su = "\<lparr> wu_decoder = d, wu_sources = sources, wu_files = sfiles \<rparr>"
  have ok: "written_setup_ok ?wu" "written_setup_ok ?su"
    using n holds by (auto simp: written_setup_ok_def list_all2_conv_all_nth len parts source_holds_def)
  have fc: "fullCheck ! i \<longleftrightarrow> sfiles ! i \<noteq> None \<and> asks_all (?info i) (rows ! i)" if "i < ?l" for i
    using holds [OF that] that
    by (auto simp: fullCheck_def full_check_def asks_all_def source_holds_def mult.commute split: option.splits)
  obtain w where w: "scanWindowSize ?n = Inr w" using n by (simp add: scanWindowSize_def Let_def)
  from scanWindowSize_ok [OF this] obtain m where m: "w = m * ?n" "0 < m" "2 ^ 20 \<le> w" by blast
  have "w = m * wu_slice ?wu" using m(1) by (simp only: written_setup.select_convs)
  note fw = forEachWindow_written [OF ok(1) this m(2,3), of wsched "d_numGoroutines d", unfolded written_setup.select_convs len(5)]
  from fw obtain winErrs where
    win: "forEachWindow wsched full w (d_numGoroutines d) (written_fn d) () = Some (Inr (winErrs, ()))" "length winErrs = ?l"
      "\<forall>i < length winErrs. winErrs ! i = None \<longleftrightarrow> (case ffiles ! i of None \<Rightarrow> True | Some f \<Rightarrow> f = [] \<or> all_good ?n (?info i) f)" by blast
  have win_at: "winErrs ! i = None \<longleftrightarrow> (case ffiles ! i of None \<Rightarrow> True | Some f \<Rightarrow> f = [] \<or> all_good ?n (?info i) f)" if "i < ?l" for i
    using win(2,3) that by simp
  define errs1 where "errs1 = merge_errs errs0 winErrs"
  have errs1: "length errs1 = ?l" "\<And>i. i < ?l \<Longrightarrow> errs1 ! i = None \<longleftrightarrow> errs0 ! i = None \<and> winErrs ! i = None"
    using merge_errs_nth [of winErrs errs0] win(2) len by (simp_all add: errs1_def)
  let ?tasks = "slice_tasks sources fullCheck rows errs1" and ?g = "nat (max (d_numGoroutines d) 1)"
  have tasks: "\<forall>t \<in> set ?tasks. stask_ok ?su t"
  proof
    fix t assume "t \<in> set ?tasks"
    moreover obtain i k where t: "t = (i, k)" by (cases t)
    ultimately have "i < ?l" "sources ! i \<noteq> None"
      using slice_tasks_set [of i k sources fullCheck rows errs1] by (simp_all add: len)
    then show "stask_ok ?su t" using holds [of i] ok(2) by (auto simp: stask_ok_def t len source_holds_def split: option.splits)
  qed
  have "0 < ?g \<or> ?tasks = []" by (simp add: max_def)
  from written_slices.run_exact [OF this tasks, of errs1 ssched] errs1(1) len obtain c where
    c: "pool_run id (slice_step d sources) ssched (pool_init ?g ?tasks errs1) = Some (Inr c)" "length (pl_shared c) = ?l"
      "failed_files (pl_shared c) = failed_files errs1 \<union> (\<Union>t \<in> set ?tasks. slice_todo ?su t)" by auto
  define errs where "errs = empty_errs d sources (pl_shared c)"
  have run: "checkWrittenFiles wsched ssched io fs d paths rows = Some (Inr errs)"
    by (simp only: checkWrittenFiles_def Let_def flip: opened_def sources_def errs0_def fullCheck_def full_def)
      (simp add: w win(1) c(1) errs_def flip: errs1_def)
  have el: "length errs = ?l" by (simp add: errs_def empty_errs_def c(2))
  have "errs ! i = None \<longleftrightarrow> paths ! i = [] \<or> (\<exists>f. files ! i = Some f \<and> written_ok ?n (?info i) (rows ! i) f)" if i: "i < ?l" for i
  proof -
    have todo: "i \<in> slice_todo ?su (i', k) \<longleftrightarrow> i' = i \<and> (\<exists>f. sfiles ! i = Some f \<and> \<not> slice_accepted ?n (?info i) f k)" for i' k
      by (auto simp: slice_todo_def split: option.splits)
    have "pl_shared c ! i = None \<longleftrightarrow> i \<notin> failed_files (pl_shared c)" using i c(2) by (simp add: failed_files_def)
    also have "\<dots> \<longleftrightarrow> errs1 ! i = None \<and> (\<forall>f k. sfiles ! i = Some f \<longrightarrow> (i, k) \<in> set ?tasks \<longrightarrow> slice_accepted ?n (?info i) f k)"
      unfolding c(3) using i errs1(1) todo by (force simp: failed_files_def)
    finally have "errs ! i = None \<longleftrightarrow> errs1 ! i = None \<and> (\<forall>f k. sfiles ! i = Some f \<longrightarrow> (i, k) \<in> set ?tasks \<longrightarrow> slice_accepted ?n (?info i) f k) \<and>
        (\<forall>f. sfiles ! i = Some f \<longrightarrow> f = [] \<longrightarrow> md5 [] = di_sixteenKHash (?info i))"
      using empty_errs_nth [of i "pl_shared c" d sources] i c(2) holds [OF i]
      by (auto simp: errs_def source_holds_def split: option.splits)
    note e = this [unfolded slice_tasks_set errs1(2) [OF i] win_at [OF i] errs0 [OF i] parts(2) [OF i] len(2)]
    show ?thesis
    proof (cases "sfiles ! i")
      case None
      then show ?thesis unfolding e using i by (auto simp: sfiles_def written_ok_def split: if_splits)
    next
      case (Some f)
      have sf: "paths ! i \<noteq> []" "files ! i = Some f" "int (length f) = di_byteCount (?info i)"
        using Some i by (auto simp: sfiles_def split: if_splits option.splits)
      have src: "sources ! i \<noteq> None" using holds [OF i] Some by (auto simp: source_holds_def split: option.splits)
      show ?thesis
      proof (cases "fullCheck ! i")
        case True
        with fc [OF i] have "asks_all (?info i) (rows ! i)" by simp
        with True show ?thesis unfolding e using Some sf by (auto simp: written_ok_def all_good_def sixteenKHash_take)
      next
        case False
        with fc [OF i] Some have na: "\<not> asks_all (?info i) (rows ! i)" by simp
        then obtain rs where rs: "rows ! i = Some rs" by (auto simp: asks_all_def split: option.splits)
        have cases_k: "(\<forall>k. (k = -1 \<or> (\<exists>q. q \<in> set rs \<and> k = int q)) \<longrightarrow> A k) \<longleftrightarrow> A (-1) \<and> (\<forall>q \<in> set rs. A (int q))" for A :: "int \<Rightarrow> bool"
          by blast
        have acc: "(\<forall>k. (k = -1 \<or> (\<exists>q. q \<in> set rs \<and> k = int q)) \<longrightarrow> slice_accepted ?n (?info i) f k) \<longleftrightarrow>
            sixteenKHash f = di_sixteenKHash (?info i) \<and> (\<forall>q \<in> set rs. q * ?n \<le> length f \<and> slice_good ?n (?info i) f q)"
          unfolding cases_k by (simp add: slice_accepted_def)
        have "errs ! i = None \<longleftrightarrow> (\<forall>k. (k = -1 \<or> (\<exists>q. q \<in> set rs \<and> k = int q)) \<longrightarrow> slice_accepted ?n (?info i) f k) \<and>
            (f = [] \<longrightarrow> md5 [] = di_sixteenKHash (?info i))"
          unfolding e using Some sf(1) rs src i False by simp
        also have "\<dots> \<longleftrightarrow> written_ok ?n (?info i) (rows ! i) f"
          unfolding acc using sf(3) na rs by (cases "f = []") (auto simp: written_ok_def sixteenKHash_take)
        finally show ?thesis using sf(1,2) by simp
      qed
    qed
  qed
  with run el show ?thesis by blast
qed

text \<open>
  C9: What the check of repaired files accepts.  Let every named file either be absent or be read by a reader
  over its contents.  For all schedules of both pools of workers and any number of them,
  \<open>checkWrittenFiles\<close> ends, and it reports no error for a file exactly when its path is empty (nothing was to
  be checked), or the file is there with the byte count and the 16k hash of the set and the slices that were
  asked for have their hashes: all of them when no rows are named or at least half of them are, otherwise
  those that are named.
\<close>

theorem checkWrittenFiles_verdict:
  assumes "0 < d_sliceByteCount d" and "length rows = length paths" and "length files = length paths"
    and "\<forall>i < length paths. paths ! i \<noteq> [] \<longrightarrow> opens_as (io_OpenRead io fs (paths ! i)) (files ! i)"
  shows "\<exists>errs. checkWrittenFiles wsched ssched io fs d paths rows = Some (Inr errs) \<and> length errs = length paths \<and>
    (\<forall>i < length paths. errs ! i = None \<longleftrightarrow> paths ! i = [] \<or>
      (\<exists>f. files ! i = Some f \<and> written_ok (d_sliceByteCount d) (d_recoverySet d ! i) (rows ! i) f))"
  by (rule checkWrittenFiles_ok [OF assms])

text \<open>One file, all of it checked, and an empty path.\<close>

theorem checkWrittenFiles_verdict_witness:
  "checkWrittenFiles [1, 0] [] memfs_io \<lparr> fs_workingDir = str ''/'', fs_fileData = [(str ''/a'', [1, 2, 3, 4])] \<rparr>
     (example_decoder defaultScanPolicy) [str ''/a'', []] [None, None] = Some (Inr [None, None])"
proof -
  let ?fs = "\<lparr> fs_workingDir = str ''/'', fs_fileData = [(str ''/a'', [1, 2, 3, 4])] \<rparr>"
  let ?d = "example_decoder defaultScanPolicy" and ?f = "[1, 2, 3, 4] :: byte list"
  have set: "d_recoverySet ?d = [example_info\<lparr> di_sixteenKHash := md5 [1, 2, 3, 4] \<rparr>]" "d_sliceByteCount ?d = 4"
    by (simp_all add: example_decoder_def)
  have rd: "ReadFile ?fs (str ''/a'') = Inr ?f" by code_simp
  have "str ''/a'' \<noteq> []" by code_simp
  have op: "opens_as (io_OpenRead memfs_io ?fs (str ''/a'')) (Some ?f)"
    using bytes_reader.reader_over_axioms by (simp add: opens_as_def memfs_io_def OpenRead_def rd)
  have pad: "pad_slice 4 ?f 0 = ?f" by (simp add: pad_slice_def upt_rec numeral_eq_Suc)
  have lt: "k * 4 < length ?f \<longleftrightarrow> k = 0" for k by auto
  have "slice_good 4 (example_info\<lparr> di_sixteenKHash := md5 ?f \<rparr>) ?f 0" using pad by (simp add: slice_good_def example_info_def)
  then have good: "written_ok 4 (example_info\<lparr> di_sixteenKHash := md5 ?f \<rparr>) None ?f"
    unfolding written_ok_def asks_all_def lt by (simp add: sixteenKHash_def) (simp add: example_info_def)
  have "\<exists>errs. checkWrittenFiles [1, 0] [] memfs_io ?fs ?d [str ''/a'', []] [None, None] = Some (Inr errs) \<and> length errs = length [str ''/a'', []] \<and>
    (\<forall>i < length [str ''/a'', []]. errs ! i = None \<longleftrightarrow> [str ''/a'', []] ! i = [] \<or>
      (\<exists>f. [Some ?f, None] ! i = Some f \<and> written_ok (d_sliceByteCount ?d) (d_recoverySet ?d ! i) ([None, None] ! i) f))"
    by (rule checkWrittenFiles_verdict) (use op in \<open>simp_all add: set less_Suc_eq all_conj_distrib\<close>)
  then obtain errs where "checkWrittenFiles [1, 0] [] memfs_io ?fs ?d [str ''/a'', []] [None, None] = Some (Inr errs)"
    "length errs = 2" "errs ! 0 = None" "errs ! 1 = None"
    using good by (auto simp: set less_Suc_eq)
  moreover from this have "errs = [None, None]" by (intro nth_equalityI) (auto simp: less_2_cases_iff)
  ultimately show ?thesis by simp
qed

end
