(* ===== verification/PatchStore.thy ===== *)
theory PatchStore
  imports Repair WrittenChecked
begin

text \<open>
  Files that are rewritten: the contract of the writers of a file system, and the one operation of the
  repair on them.  What has been written right so far is the set of the positions where a writer agrees
  with the contents it is to have; writing a part of those contents only adds to it.
\<close>

section \<open>Padded parts of a file\<close>

lemma pad_slice_part:
  assumes "off + len \<le> n"
  shows "pad_slice len f (p + off) = slice (pad_slice n f p) off (off + len)"
  using assms by (intro nth_equalityI) (simp_all add: nth_slice nth_pad_slice add.assoc)

lemma pad_slice_whole: "pad_slice (length f) f 0 = f"
  by (intro nth_equalityI) (simp_all add: nth_pad_slice)

lemma pad_slice_append: "pad_slice a f p @ pad_slice b f (p + a) = pad_slice (a + b) f p"
  by (intro nth_equalityI) (auto simp: nth_append nth_pad_slice)

text \<open>Where \<open>w\<close> has the bytes of \<open>c\<close>.\<close>

definition right_at :: "byte list \<Rightarrow> byte list \<Rightarrow> nat set" where
  "right_at c w = {x. x < length c \<longrightarrow> w ! x = c ! x}"

lemma right_at_all:
  assumes "length w = length c" and "{..<length c} \<subseteq> right_at c w"
  shows "w = c"
  using assms by (intro nth_equalityI) (auto simp: right_at_def)

lemma right_at_splice:
  assumes "length w = length c" and "off + m \<le> length c"
  shows "right_at c w \<union> {off..<off + m} \<subseteq> right_at c (splice w off (pad_slice m c off))"
proof
  fix x assume x: "x \<in> right_at c w \<union> {off..<off + m}"
  have "splice w off (pad_slice m c off) ! x = c ! x" if "x < length c"
    using x that assms by (subst nth_splice) (auto simp: right_at_def nth_pad_slice)
  then show "x \<in> right_at c (splice w off (pad_slice m c off))" by (simp add: right_at_def)
qed

section \<open>The contract of the writers\<close>

text \<open>
  \<open>wdata\<close> is what a writer would commit and \<open>wpath\<close> the path it was opened for.  A writer for a patch may
  be refused; if it is granted, it starts with the contents of the file, cut or filled up with zeros.
\<close>

locale patch_store = file_store ok key io
  for ok :: "'fs \<Rightarrow> bool" and key :: "'fs \<Rightarrow> gostring \<Rightarrow> gostring" and io :: "('fs, 'w) fileIO" +
  fixes wdata :: "'w \<Rightarrow> byte list" and wpath :: "'w \<Rightarrow> gostring"
  assumes open_write: "ok fs \<Longrightarrow> 0 \<le> sz \<Longrightarrow> \<exists>w. io_OpenWrite io fs p sz = Inr w \<and> wpath w = p \<and> length (wdata w) = nat sz"
    and open_patch: "ok fs \<Longrightarrow> 0 \<le> sz \<Longrightarrow> io_OpenPatch io = Some patch \<Longrightarrow>
      (\<exists>e. patch fs p sz = Inl e \<and> (\<forall>m. e \<noteq> Panic m)) \<or>
      (\<exists>w old. patch fs p sz = Inr w \<and> io_ReadFile io fs p = Inr old \<and> wpath w = p \<and> wdata w = pad_slice (nat sz) old 0)"
    and write_at: "0 \<le> off \<Longrightarrow> nat off + length bs \<le> length (wdata w) \<Longrightarrow> length (wdata w) < 2 ^ 63 \<Longrightarrow>
      \<exists>w'. io_WriteAt io w bs off = Inr (length bs, w') \<and> wpath w' = wpath w \<and> wdata w' = splice (wdata w) (nat off) bs"
    and commit: "ok fs \<Longrightarrow> \<exists>fs'. io_close io True w fs = Inr fs' \<and> ok fs' \<and> key fs' = key fs \<and>
      (\<forall>q. io_ReadFile io fs' q = (if key fs q = key fs (wpath w) then Inr (wdata w) else io_ReadFile io fs q))"
    and drop_ok: "ok fs \<Longrightarrow> \<exists>fs'. io_close io False w fs = Inr fs' \<and> ok fs' \<and> key fs' = key fs \<and> io_ReadFile io fs' = io_ReadFile io fs"
begin

text \<open>Reading a file that exists, or a missing one.\<close>

lemma opens_file:
  assumes "ok fs"
  shows "io_ReadFile io fs p = Inr f \<Longrightarrow> opens_as (io_OpenRead io fs p) (Some f)"
    and "io_ReadFile io fs p = Inl OsErrNotExist \<Longrightarrow> opens_as (io_OpenRead io fs p) None"
  using open_ok [OF assms] open_err [OF assms] by (auto simp: opens_as_def)

text \<open>Writing a range of what the file is to hold, cut at its end.\<close>

lemma writeShardRange_right:
  assumes w: "length (wdata w) = length c" and c: "length c < 2 ^ 63"
  shows "\<exists>w'. writeShardRange io w off (pad_slice m c off) (int (length c)) = Inr w' \<and> wpath w' = wpath w \<and>
    length (wdata w') = length c \<and> right_at c (wdata w) \<union> {off..<off + m} \<subseteq> right_at c (wdata w')"
proof (cases "off < length c \<and> 0 < m")
  case False
  have "{off..<off + m} \<subseteq> right_at c (wdata w)" using False by (auto simp: right_at_def)
  then have "right_at c (wdata w) \<union> {off..<off + m} \<subseteq> right_at c (wdata w)" by blast
  moreover have "writeShardRange io w off (pad_slice m c off) (int (length c)) = Inr w"
    using False by (auto simp: writeShardRange_def)
  ultimately show ?thesis using w by (intro exI [of _ w]) simp
next
  case True
  define k where "k = min m (length c - off)"
  have k: "0 < k" "off + k \<le> length c" "k \<le> m" using True by (auto simp: k_def)
  have n: "(if int (off + m) > int (length c) then nat (int (length c) - int off) else m) = k"
    using True by (auto simp: k_def min_def of_nat_diff [symmetric] simp del: of_nat_diff)
  have t: "take k (pad_slice m c off) = pad_slice k c off"
    using k(3) by (intro nth_equalityI) (simp_all add: nth_pad_slice)
  from write_at [of "int off" "pad_slice k c off" w] w c k(2) obtain w' where
    w': "io_WriteAt io w (pad_slice k c off) (int off) = Inr (k, w')" "wpath w' = wpath w"
      "wdata w' = splice (wdata w) off (pad_slice k c off)" by auto
  have "writeShardRange io w off (pad_slice m c off) (int (length c)) = Inr w'"
    unfolding writeShardRange_def length_pad_slice n Let_def using True k(1) by (simp add: t w'(1))
  moreover have "length (wdata w') = length c" using w k(2) by (simp add: w'(3))
  moreover have "right_at c (wdata w) \<union> {off..<off + m} \<subseteq> right_at c (wdata w')"
  proof -
    have "{off..<off + m} \<subseteq> {off..<off + k} \<union> {x. \<not> x < length c}" by (auto simp: k_def)
    moreover have "{x. \<not> x < length c} \<subseteq> right_at c (wdata w')" by (auto simp: right_at_def)
    ultimately show ?thesis using right_at_splice [OF w k(2)] unfolding w'(3) by blast
  qed
  ultimately show ?thesis using w'(2) by blast
qed

end

section \<open>MemFS keeps the contract\<close>

interpretation memfs_patch: patch_store fs_ok fs_key memfs_io mw_data mw_path
proof unfold_locales
  fix fs p and sz :: int
  assume "fs_ok fs" "0 \<le> sz"
  then show "\<exists>w. io_OpenWrite memfs_io fs p sz = Inr w \<and> mw_path w = p \<and> length (mw_data w) = nat sz"
    by (simp add: memfs_io_def OpenWrite_def make_bytes_def)
next
  fix fs p patch and sz :: int
  assume ok: "fs_ok fs" "0 \<le> sz" "io_OpenPatch memfs_io = Some patch"
  then have patch: "patch = OpenPatch" by (simp add: memfs_io_def)
  show "(\<exists>e. patch fs p sz = Inl e \<and> (\<forall>m. e \<noteq> Panic m)) \<or>
      (\<exists>w old. patch fs p sz = Inr w \<and> io_ReadFile memfs_io fs p = Inr old \<and> mw_path w = p \<and> mw_data w = pad_slice (nat sz) old 0)"
  proof (cases "ReadFile fs p")
    case (Inl e)
    then have "e = OsErrNotExist" using ReadFile_view [OF ok(1), of p] by (simp split: option.splits)
    with Inl show ?thesis by (simp add: patch OpenPatch_def)
  next
    case (Inr old)
    have "splice (replicate (nat sz) 0) 0 (take (nat sz) old) = pad_slice (nat sz) old 0"
      by (intro nth_equalityI) (auto simp: splice_def nth_append nth_pad_slice)
    with Inr ok(2) show ?thesis by (simp add: patch OpenPatch_def make_bytes_def memfs_io_def)
  qed
next
  fix off :: int and bs :: "byte list" and w :: memWriter
  assume "0 \<le> off" "nat off + length bs \<le> length (mw_data w)" "length (mw_data w) < 2 ^ 63"
  then show "\<exists>w'. io_WriteAt memfs_io w bs off = Inr (length bs, w') \<and> mw_path w' = mw_path w \<and> mw_data w' = splice (mw_data w) (nat off) bs"
    using WriteAt_ok by (simp add: memfs_io_def)
next
  fix fs and w :: memWriter
  assume "fs_ok fs"
  from memfs.wr_ok [OF this, of "mw_path w" "mw_data w"]
  show "\<exists>fs'. io_close memfs_io True w fs = Inr fs' \<and> fs_ok fs' \<and> fs_key fs' = fs_key fs \<and>
      (\<forall>q. io_ReadFile memfs_io fs' q = (if fs_key fs q = fs_key fs (mw_path w) then Inr (mw_data w) else io_ReadFile memfs_io fs q))"
    unfolding memfs_io_def fileIO.select_convs memWriter_close_def by (simp split del: if_split)
next
  fix fs and w :: memWriter
  assume "fs_ok fs"
  then show "\<exists>fs'. io_close memfs_io False w fs = Inr fs' \<and> fs_ok fs' \<and> fs_key fs' = fs_key fs \<and> io_ReadFile memfs_io fs' = io_ReadFile memfs_io fs"
    by (simp add: memfs_io_def memWriter_close_def)
qed

end
