(* ===== verification/PlanCorrect.thy ===== *)
theory PlanCorrect
  imports Par2Plan
begin

text \<open>
  A reconstruction plan that works with a matrix rebuilds the missing rows: the plan is made, with the
  matrix of the parity equations in either construction, and folding the survivors and as many recovery
  rows gives the rows that are missing, for every range of bytes.
\<close>

section \<open>The matrix\<close>

text \<open>Solving the system of the reconstruction, whatever matrix it comes from.\<close>

lemma matrix_rebuilds:
  assumes P: "rows_used P (avail data) (missing data) us"
    and ns: "nonsingular (mk_matrix (length (missing data)) (length (missing data)) (left_entry P us (missing data)))"
    and m: "makeReconstructionMatrix (m_columns P) (avail data) (missing data) us P = Inr m"
    and D: "length data = length D" "length D = m_columns P" "\<And>j. j < length D \<Longrightarrow> length (D ! j) = n" and n: "even n"
  shows "wf_matrix m" "m_rows m = length (missing data)" "m_columns m = m_columns P"
    and "apply_spec m (recon_input D P n (avail data) us) (length (missing data)) n = map (\<lambda>l. D ! l) (missing data)"
proof -
  let ?av = "avail data" and ?mi = "missing data" and ?d = "m_columns P"
  note r = rows_usedD [OF P]
  let ?M = "mk_matrix (length ?mi) (length ?mi) (left_entry P us ?mi)" and ?N = "mk_matrix (length ?mi) ?d (right_entry P us ?av)"
  have M: "wf_matrix ?M" "wf_matrix ?N" "m_rows ?M = m_columns ?M" "m_rows ?N = m_rows ?M"
    using r(2,8) by simp_all
  have RR: "RowReduceForInverse ?M ?N = Inr m" using m makeReconstructionMatrix_eq [OF P] by simp
  from RowReduceForInverse_cases [OF M] ns obtain m' where m': "RowReduceForInverse ?M ?N = Inr m'" "same_shape ?N m'"
    "\<And>x y. rel ?M ?N x y \<longleftrightarrow> (\<forall>i<length ?mi. x i = dot m' i y)" by auto
  have sol: "same_shape ?N m" "\<And>x y. rel ?M ?N x y \<longleftrightarrow> (\<forall>i<length ?mi. x i = dot m i y)" using m' RR by auto
  show shape: "wf_matrix m" "m_rows m = length ?mi" "m_columns m = ?d" using sol(1) M(2) by (auto simp: same_shape_def)
  show "apply_spec m (recon_input D P n ?av us) (length ?mi) n = map (\<lambda>l. D ! l) ?mi"
  proof (rule reconstruct_words [OF sol(1)])
    show "length (recon_input D P n ?av us) = ?d" using r(3,4) by (simp add: recon_input_def)
    show "even n" by (rule n)
    fix w i assume w: "w < n div 2" and i: "i < length ?mi"
    let ?yq = "\<lambda>j. mrow P D (us ! j) w"
    let ?y = "\<lambda>j. if j < length ?av then words (D ! (?av ! j)) ! w else ?yq (j - length ?av)"
    have "rel ?M ?N (\<lambda>j. words (D ! (?mi ! j)) ! w) ?y"
      by (rule parity_equations [OF P refl refl D(1,2)]) simp
    then have "\<forall>i<length ?mi. words (D ! (?mi ! i)) ! w = dot m i ?y" unfolding sol(2) .
    then have "words (D ! (?mi ! i)) ! w = dot m i ?y" using i by blast
    also have "\<dots> = dot m i (\<lambda>j. words (recon_input D P n ?av us ! j) ! w)"
      unfolding dot_def
    proof (intro sum.cong refl arg_cong2 [where f = "(*)"])
      fix j assume "j \<in> {..<m_columns m}"
      then have "j < ?d" using shape by simp
      then show "?y j = words (recon_input D P n ?av us ! j) ! w"
        using w r(3,4) by (auto simp: recon_input_def nth_append)
    qed
    finally show "words (map (\<lambda>l. D ! l) ?mi ! i) ! w = dot m i (\<lambda>j. words (recon_input D P n ?av us ! j) ! w)"
      using i by simp
  next
    fix i assume i: "i < length ?mi"
    then have "?mi ! i < length D" using nth_mem [OF i] D(1) by (simp add: avail_missing(2))
    then show "length (map (\<lambda>l. D ! l) ?mi ! i) = n" using D(3) i by simp
  qed simp
qed

section \<open>The plan\<close>

lemma seen_rows_ok:
  assumes "distinct rows" and "\<forall>r \<in> set rows. r < n"
  shows "\<exists>seen. seen_rows n (map int rows) = Inr seen"
proof -
  have "\<exists>seen. foldR (\<lambda>row seen. if row < 0 \<or> row \<ge> int n \<or> seen ! nat row
         then Inl (ErrorNew ''invalid PAR2 data row partition'') else Inr (seen[nat row := True])) (map int rows) seen0 = Inr seen"
    if "length seen0 = n" "\<forall>r \<in> set rows. \<not> seen0 ! r" for seen0
    using that assms
  proof (induction rows arbitrary: seen0)
    case (Cons r rows)
    have "\<forall>q \<in> set rows. \<not> (seen0[r := True]) ! q" using Cons.prems by (auto simp: nth_list_update)
    with Cons.IH [of "seen0[r := True]"] Cons.prems show ?case by auto
  qed simp
  from this [of "replicate n False"] assms show ?thesis by (auto simp: seen_rows_def)
qed

text \<open>The parity rows with the exponents \<open>es\<close>.\<close>

definition exponent_matrix :: "nat \<Rightarrow> nat list \<Rightarrow> matrix" where
  "exponent_matrix n es = mk_matrix (length es) n (\<lambda>i j. generators ! j ^ (es ! i))"

text \<open>Not large enough for the transform.\<close>

definition matrix_plan :: "nat \<Rightarrow> nat \<Rightarrow> int \<Rightarrow> bool" where
  "matrix_plan n k budget \<longleftrightarrow> k < 1024 \<or> int n * int k < 8 * 2 ^ 20 \<or> default_budget budget < 64 * 2 ^ 20"

definition plan_of :: "nat \<Rightarrow> nat \<Rightarrow> int \<Rightarrow> int \<Rightarrow> matrix \<Rightarrow> PAR2ReconstructionPlan" where
  "plan_of n k workers budget m = \<lparr> rp_matrix = m, rp_transform = None, rp_inputs = n, rp_outputs = k,
     rp_workers = max 1 workers, rp_budget = default_budget budget, rp_closed = False \<rparr>"

lemma consecutive_upt:
  assumes "0 < k" and "s + k \<le> 65536"
  shows "consecutiveStart (map int [s..<s + k]) = (int s, True)"
  using assms unfolding consecutiveStart_iff by (auto simp del: upt_Suc)

lemma plan_made:
  assumes e: "env_ok e" and k: "missing data \<noteq> []" "length (missing data) + s \<le> 65536" and n: "length data \<le> length generators"
    and small: "matrix_plan (length data) (length (missing data)) budget"
  defines "es \<equiv> [s..<s + length (missing data)]"
  shows "\<exists>m. NewPAR2ReconstructionPlan e (int (length data)) (map int (avail data)) (map int (missing data)) (map int es) workers budget
      = Inr (plan_of (length data) (length (missing data)) workers budget m) \<and>
    makeReconstructionMatrix (length data) (avail data) (missing data) [0..<length (missing data)] (exponent_matrix (length data) es) = Inr m"
proof -
  let ?n = "length data" and ?av = "avail data" and ?mi = "missing data" and ?k = "length (missing data)"
  have len: "length ?av + ?k = ?n" by (rule avail_missing(5))
  have part: "partition_rows ?n ?av ?mi" by (auto simp: partition_rows_def avail_missing)
  have k0: "0 < ?k" using k(1) by simp
  then have n0: "0 < ?n" using len by linarith
  have cs: "consecutiveStart (map int es) = (int s, True)"
    unfolding es_def by (rule consecutive_upt [OF k0]) (use k(2) in simp)
  have el: "length es = ?k" by (simp add: es_def)
  have "distinct (?av @ ?mi)" "\<forall>r \<in> set (?av @ ?mi). r < ?n" by (auto simp: avail_missing)
  from seen_rows_ok [OF this] obtain seen where seen: "seen_rows ?n (map int ?av @ map int ?mi) = Inr seen" by auto
  have exps: "\<not> (\<exists>x \<in> set (map int es). x < 0 \<or> x > 65535)" using k(2) by (auto simp: es_def)
  have P: "mk_matrix (length (map int es)) ?n (\<lambda>i j. generators ! j ^ nat (map int es ! i)) = exponent_matrix ?n es"
    unfolding exponent_matrix_def by (rule matrix_eqI) (use n0 k0 el in simp_all)
  obtain m where m: "makeReconstructionMatrix ?n ?av ?mi [0..<?k] (exponent_matrix ?n es) = Inr m"
    "par2LagrangeMatrix ?n ?av ?mi (map int es) = Inr (Some m)"
    using lagrange_eliminates [OF cs _ part n] el unfolding P by (metis length_map)
  have rows: "map nat (map int xs) = xs" for xs by (simp add: comp_def)
  have coder: "NewCoderPAR2VandermondeRows (int ?n) (map int es) (max 1 workers)
      = Inr (mk_coder ?n ?k (nat (max 1 workers)) (\<lambda>i j. generators ! j ^ nat (map int es ! i)))"
    using NewCoderPAR2VandermondeRows_eq [of "int ?n" "map int es" "max 1 workers"] n0 k0 n exps el by force
  let ?c = "mk_coder ?n ?k (nat (max 1 workers)) (\<lambda>i j. generators ! j ^ nat (map int es ! i))"
  have "coder_ok ?c" using coder_ok_mk [of ?n ?k "nat (max 1 workers)"] n0 k0 by simp
  then have c: "coder_ok ?c" "dataShards ?c = ?n" "parityMatrix ?c = exponent_matrix ?n es"
    using P el by (simp_all add: mk_coder_def)
  have exps': "nat (map int es ! i) = s + i" if "i < ?k" for i using that by (simp add: es_def)
  note sys = lagrange_system [OF part n k0 _ exps', unfolded P]
  have "rows_used (exponent_matrix ?n es) ?av ?mi [0..<?k]" by (rule sys(1)) (simp_all add: el)
  with ReconstructionMatrix_eq [OF e c(1)] c m(1) have R: "ReconstructionMatrix e ?c ?av ?mi [0..<?k] = Inr m" by simp
  have guard: "\<not> (int ?n \<le> 0 \<or> int ?n > int (length generators) \<or> int (length (map int ?av) + length (map int ?mi)) \<noteq> int ?n \<or>
      length (map int ?mi) = 0 \<or> length (map int es) \<noteq> length (map int ?mi))"
    using n0 n len k0 el by simp
  have small': "\<not> (snd (consecutiveStart (map int es)) \<and> length (map int ?mi) \<ge> 1024 \<and> int ?n * int (length (map int ?mi)) \<ge> 8 * 2 ^ 20 \<and>
      default_budget budget \<ge> 64 * 2 ^ 20)"
    using small by (auto simp: matrix_plan_def)
  show ?thesis
    unfolding NewPAR2ReconstructionPlan_def if_not_P [OF guard] nat_int seen bindR_simps if_not_P [OF exps] Let_def rows if_not_P [OF small']
    using m coder R by (simp add: plan_of_def el)
qed

section \<open>Folding a range\<close>

lemma recon_input_range:
  assumes X: "\<And>j. j < length X \<Longrightarrow> length (X ! j) = n" and av: "\<forall>j \<in> set av. j < length X"
    and rng: "even n" "even off" "even len" "off + len \<le> n"
  shows "recon_input (map (\<lambda>x. slice x off (off + len)) X) P len av us = map (\<lambda>x. slice x off (off + len)) (recon_input X P n av us)"
proof -
  have "unwords (map (mrow P (map (\<lambda>x. slice x off (off + len)) X) u) [0..<len div 2])
      = slice (unwords (map (mrow P X u) [0..<n div 2])) off (off + len)" for u
  proof (rule sym, rule words_list_eqI)
    let ?y = "unwords (map (mrow P X u) [0..<n div 2])"
    have ly: "length ?y = n" using rng(1) by simp
    show "length (slice ?y off (off + len)) = 2 * (len div 2)" using rng(3,4) ly by simp
    fix k assume k: "k < len div 2"
    then have k2: "2 * k < len" using rng(3) by (auto elim!: evenE)
    have "words (slice ?y off (off + len)) ! k = words ?y ! (off div 2 + k)"
      using k2 rng ly by (intro words_nth_slice) simp_all
    also have "\<dots> = mrow P X u (off div 2 + k)"
    proof -
      have "off div 2 + k < n div 2" using k2 rng by (auto elim!: evenE)
      then show ?thesis by simp
    qed
    also have "\<dots> = mrow P (map (\<lambda>x. slice x off (off + len)) X) u k"
      unfolding mrow_def using k2 rng X by (intro sum.cong) (simp_all add: words_nth_slice)
    finally show "words (slice ?y off (off + len)) ! k = mrow P (map (\<lambda>x. slice x off (off + len)) X) u k" .
  qed
  then show ?thesis using av by (simp add: recon_input_def)
qed

lemma plan_folds:
  assumes e: "env_ok e" and k: "missing data \<noteq> []" "length (missing data) + s \<le> 65536"
    and n: "length data \<le> length generators" "length data = length D"
    and small: "matrix_plan (length data) (length (missing data)) budget"
  defines "es \<equiv> [s..<s + length (missing data)]"
  obtains plan where "NewPAR2ReconstructionPlan e (int (length data)) (map int (avail data)) (map int (missing data)) (map int es) workers budget = Inr plan"
    and "rp_transform plan = None" "rp_closed plan = False" "rp_outputs plan = length (missing data)"
    and "\<And>D len next_fn sch. length D = length data \<Longrightarrow> \<forall>x \<in> set D. length x = len \<Longrightarrow> 0 < len \<Longrightarrow> even len \<Longrightarrow>
      delivers next_fn len (recon_input D (exponent_matrix (length data) es) len (avail data) [0..<length (missing data)]) \<Longrightarrow>
      plan_Fold e sch plan (int len) next_fn (replicate (length (missing data)) (replicate len 0))
        = Inr (plan, map (\<lambda>l. D ! l) (missing data))"
proof -
  let ?n = "length data" and ?k = "length (missing data)" and ?us = "[0..<length (missing data)]"
  let ?P = "exponent_matrix (length data) es"
  from plan_made [OF e k n(1) small, of workers, folded es_def] obtain m where
    made: "NewPAR2ReconstructionPlan e (int ?n) (map int (avail data)) (map int (missing data)) (map int es) workers budget
      = Inr (plan_of ?n ?k workers budget m)"
    and m: "makeReconstructionMatrix ?n (avail data) (missing data) ?us ?P = Inr m" by blast
  have k0: "0 < ?k" using k(1) by simp
  have part: "partition_rows ?n (avail data) (missing data)" by (auto simp: partition_rows_def avail_missing)
  have el: "length es = ?k" by (simp add: es_def)
  have n0: "0 < ?n" using avail_missing(5) [of data] k0 by linarith
  have P: "mk_matrix (length (map int es)) ?n (\<lambda>i j. generators ! j ^ nat (map int es ! i)) = ?P"
    unfolding exponent_matrix_def by (rule matrix_eqI) (use n0 k0 el in simp_all)
  have exps: "nat (map int es ! i) = s + i" if "i < ?k" for i using that by (simp add: es_def)
  note sys = lagrange_system [OF part n(1) k0 _ exps, unfolded P]
  have ru: "rows_used ?P (avail data) (missing data) ?us" by (rule sys(1)) (simp_all add: el)
  have ns: "nonsingular (mk_matrix ?k ?k (left_entry ?P ?us (missing data)))" by (rule sys(2)) (simp_all add: el)
  have cols: "m_columns ?P = ?n" by (simp add: exponent_matrix_def)
  have fold: "plan_Fold e sch (plan_of ?n ?k workers budget m) (int len) next_fn (replicate ?k (replicate len 0))
        = Inr (plan_of ?n ?k workers budget m, map (\<lambda>l. D ! l) (missing data))"
    if D: "length D = ?n" "\<forall>x \<in> set D. length x = len" and len: "0 < len" "even len"
      and del: "delivers next_fn len (recon_input D ?P len (avail data) ?us)" for D len next_fn sch
  proof -
    have D': "length data = length D" "length D = m_columns ?P" "\<And>j. j < length D \<Longrightarrow> length (D ! j) = len"
      using D cols by simp_all
    have m': "makeReconstructionMatrix (m_columns ?P) (avail data) (missing data) ?us ?P = Inr m" using m cols by simp
    note reb = matrix_rebuilds [OF ru ns m' D' len(2)]
    have inp: "length (recon_input D ?P len (avail data) ?us) = ?n" using avail_missing(5) [of data] by (simp add: recon_input_def)
    have "FoldInputs e m (length (recon_input D ?P len (avail data) ?us)) len next_fn (replicate ?k (replicate len 0)) (max 1 workers)
        = Inr (apply_spec m (recon_input D ?P len (avail data) ?us) (length (replicate ?k (replicate len (0 :: byte)))) len)"
    proof (rule FoldInputs_eq [OF e _ _ _ del len(1)])
      show "fold_ok m (length (recon_input D ?P len (avail data) ?us)) len (replicate ?k (replicate len 0))"
        using reb(1-3) inp cols len by (auto simp: fold_ok_def)
      show "recon_input D ?P len (avail data) ?us \<noteq> []" using inp n0 by auto
    qed (use k(1) in simp)
    then have "FoldInputs e m ?n len next_fn (replicate ?k (replicate len 0)) (max 1 workers) = Inr (map (\<lambda>l. D ! l) (missing data))"
      using reb(4) inp by simp
    moreover have "int len mod 2 = 0" using len(2) by presburger
    ultimately show ?thesis using len(1) by (simp add: plan_Fold_def plan_of_def)
  qed
  show thesis
    by (rule that [OF made _ _ _ fold]) (simp_all add: plan_of_def)
qed

section \<open>Sizes of the ranges\<close>

lemma even_chunk:
  fixes s per :: int
  assumes "2 \<le> s" "s mod 2 = 0"
  shows "2 \<le> min s (max 2 (per - per mod 2))" "min s (max 2 (per - per mod 2)) \<le> s" "min s (max 2 (per - per mod 2)) mod 2 = 0"
proof -
  have "(per - per mod 2) mod 2 = 0" by presburger
  then show "min s (max 2 (per - per mod 2)) mod 2 = 0" using assms by (simp add: min_def max_def)
qed (use assms in simp_all)

lemma FoldChunkSize_range:
  assumes "2 \<le> sliceSz" "sliceSz mod 2 = 0"
  shows "2 \<le> FoldChunkSize acc budget sliceSz outputs \<and> FoldChunkSize acc budget sliceSz outputs \<le> sliceSz \<and>
    FoldChunkSize acc budget sliceSz outputs mod 2 = 0"
proof (cases "outputs \<le> 0")
  case True
  then have "FoldChunkSize acc budget sliceSz outputs = sliceSz" unfolding FoldChunkSize_def by (rule if_P)
  then show ?thesis using assms by (simp only: order_refl simp_thms)
next
  case False
  define buffers where "buffers = (if acc then 2 * outputs + 49 else outputs + 2)"
  define per0 where "per0 = default_budget budget div buffers"
  define per where "per = (if acc then per0 - min 4096 (per0 div 8) else per0)"
  have "FoldChunkSize acc budget sliceSz outputs = min sliceSz (max 2 (per - per mod 2))"
    unfolding FoldChunkSize_def if_not_P [OF False] Let_def per_def per0_def buffers_def by (rule refl)
  then show ?thesis using even_chunk [OF assms] by (simp only: simp_thms)
qed

end
