(* ===== verification/DamagedSet.thy ===== *)
theory DamagedSet
  imports PatchStore PlanCorrect
begin

text \<open>
  A damaged set as the decoder knows it, and what is read from it: shards that survived and recovery blocks
  come out as the slices of the original files, wherever they were found.  The rows of the reconstruction
  are the surviving and the missing slices, and its inputs are delivered range by range.
\<close>

section \<open>Loops that succeed\<close>

lemma foldR_total:
  assumes "\<And>x s. x \<in> set xs \<Longrightarrow> P s \<Longrightarrow> \<exists>s'. f x s = Inr s' \<and> P s'" and "P s"
  shows "\<exists>s'. foldR f xs s = Inr s' \<and> P s'"
  using assms
proof (induction xs arbitrary: s)
  case (Cons x xs)
  from Cons.prems obtain t where "f x s = Inr t" "P t" by (metis list.set_intros(1))
  with Cons.IH [OF _ \<open>P t\<close>] Cons.prems(1) show ?case by simp
qed simp

text \<open>Every pass reaches its goal \<open>Q x\<close>, which later passes keep.\<close>

lemma foldR_reaches:
  assumes "\<And>x s. x \<in> set xs \<Longrightarrow> P s \<Longrightarrow> \<exists>s'. f x s = Inr s' \<and> P s' \<and> Q x s' \<and> (\<forall>y. Q y s \<longrightarrow> Q y s')" and "P s"
  shows "\<exists>s'. foldR f xs s = Inr s' \<and> P s' \<and> (\<forall>x \<in> set xs. Q x s') \<and> (\<forall>y. Q y s \<longrightarrow> Q y s')"
  using assms
proof (induction xs arbitrary: s)
  case (Cons x xs)
  from Cons.prems obtain t where t: "f x s = Inr t" "P t" "Q x t" "\<forall>y. Q y s \<longrightarrow> Q y t" by (metis list.set_intros(1))
  from Cons.IH [OF _ t(2)] Cons.prems(1) obtain u where
    "foldR f xs t = Inr u" "P u" "\<forall>x \<in> set xs. Q x u" "\<forall>y. Q y t \<longrightarrow> Q y u" by auto
  with t show ?case by auto
qed simp

section \<open>Rows\<close>

lemma concat_index:
  "i < length xss \<Longrightarrow> j < length (xss ! i) \<Longrightarrow>
    (\<Sum>xs\<leftarrow>take i xss. length xs) + j < length (concat xss) \<and> concat xss ! ((\<Sum>xs\<leftarrow>take i xss. length xs) + j) = xss ! i ! j"
proof (induction xss arbitrary: i)
  case (Cons xs xss)
  then show ?case by (cases i) (auto simp: nth_append)
qed simp

lemma concat_split:
  "k < length (concat xss) \<Longrightarrow> \<exists>i j. i < length xss \<and> j < length (xss ! i) \<and> k = (\<Sum>xs\<leftarrow>take i xss. length xs) + j"
proof (induction xss arbitrary: k)
  case (Cons xs xss)
  show ?case
  proof (cases "k < length xs")
    case True
    then show ?thesis by (intro exI [of _ 0] exI [of _ k]) simp
  next
    case False
    then have "k - length xs < length (concat xss)" using Cons.prems by simp
    from Cons.IH [OF this] obtain i j where
      "i < length xss" "j < length (xss ! i)" "k - length xs = (\<Sum>xs\<leftarrow>take i xss. length xs) + j" by blast
    with False show ?thesis by (intro exI [of _ "Suc i"] exI [of _ j]) simp
  qed
qed simp

lemma concat_inject:
  assumes "i < length xss" "j < length (xss ! i)" "i' < length xss" "j' < length (xss ! i')"
    and "(\<Sum>xs\<leftarrow>take i xss. length xs) + j = (\<Sum>xs\<leftarrow>take i' xss. length xs) + j'"
  shows "i = i' \<and> j = j'"
  using assms
proof (induction xss arbitrary: i i')
  case (Cons xs xss)
  then show ?case by (cases i; cases i') auto
qed simp

section \<open>The set\<close>

definition nslices :: "nat \<Rightarrow> byte list \<Rightarrow> nat" where
  "nslices n c = (length c + n - 1) div n"

lemma less_nslices: "0 < n \<Longrightarrow> j < nslices n c \<longleftrightarrow> j * n < length c"
  using slice_index [of n j "length c"] by (simp add: nslices_def)

definition slices_list :: "nat \<Rightarrow> byte list \<Rightarrow> byte list list" where
  "slices_list n c = map (\<lambda>j. pad_slice n c (j * n)) [0..<nslices n c]"

lemma length_slices_list [simp]: "length (slices_list n c) = nslices n c"
  by (simp add: slices_list_def)

text \<open>All slices of the original files, row by row, and the row of slice \<open>j\<close> of file \<open>i\<close>.\<close>

definition true_shards :: "nat \<Rightarrow> byte list list \<Rightarrow> byte list list" where
  "true_shards n orig = concat (map (slices_list n) orig)"

definition row_of :: "nat \<Rightarrow> byte list list \<Rightarrow> nat \<Rightarrow> nat \<Rightarrow> nat" where
  "row_of n orig i j = (\<Sum>c\<leftarrow>take i orig. nslices n c) + j"

lemma row_of_nth:
  assumes "i < length orig" and "j < nslices n (orig ! i)"
  shows "row_of n orig i j < length (true_shards n orig)" and "true_shards n orig ! row_of n orig i j = pad_slice n (orig ! i) (j * n)"
  using concat_index [of i "map (slices_list n) orig" j] assms
  by (simp_all add: row_of_def true_shards_def take_map comp_def slices_list_def)

lemma row_of_ex:
  assumes "k < length (true_shards n orig)"
  obtains i j where "i < length orig" "j < nslices n (orig ! i)" "k = row_of n orig i j"
  using concat_split [OF assms [unfolded true_shards_def]] that
  by (auto simp: row_of_def take_map comp_def)

lemma row_of_inject:
  assumes "i < length orig" "j < nslices n (orig ! i)" "i' < length orig" "j' < nslices n (orig ! i')"
  shows "row_of n orig i j = row_of n orig i' j' \<longleftrightarrow> i = i' \<and> j = j'"
  using concat_inject [of i "map (slices_list n) orig" j i' j'] assms
  by (auto simp: row_of_def take_map comp_def)

lemma row_of_mono: "j \<le> j' \<Longrightarrow> row_of n orig i j' = row_of n orig i j + (j' - j)"
  by (simp add: row_of_def)

lemma length_true_shard: "k < length (true_shards n orig) \<Longrightarrow> length (true_shards n orig ! k) = n"
  by (erule row_of_ex) (simp add: row_of_nth)

text \<open>What the set says of a file with the contents \<open>c\<close>.\<close>

definition info_right :: "nat \<Rightarrow> decoderInputFileInfo \<Rightarrow> byte list \<Rightarrow> bool" where
  "info_right n info c \<longleftrightarrow> c \<noteq> [] \<and> length c < 2 ^ 63 \<and> di_byteCount info = int (length c) \<and>
     di_sixteenKHash info = sixteenKHash c \<and> length (di_checksumPairs info) = nslices n c \<and>
     (\<forall>j < nslices n c. cp_MD5 (di_checksumPairs info ! j) = md5 (pad_slice n c (j * n)))"

abbreviation set_path :: "decoder \<Rightarrow> nat \<Rightarrow> gostring" where
  "set_path d i \<equiv> getFilePath d (d_recoverySet d ! i)"

abbreviation shard_at :: "decoder \<Rightarrow> nat \<Rightarrow> nat \<Rightarrow> shardIntegrityInfo" where
  "shard_at d i j \<equiv> fi_shardInfos (d_fileIntegrityInfos d ! i) ! j"

text \<open>
  The decoder \<open>d\<close> has scanned the files \<open>disk\<close> of a set whose original contents are \<open>orig\<close>: what it takes
  for intact is intact, and where it has found a slice there is that slice.
\<close>

definition damaged :: "('fs, 'w) fileIO \<Rightarrow> 'fs \<Rightarrow> decoder \<Rightarrow> byte list list \<Rightarrow> byte list option list \<Rightarrow> bool" where
  "damaged io fs d orig disk \<longleftrightarrow> (let n = d_sliceByteCount d; ds = d_recoverySet d in
     0 < n \<and> even n \<and> length orig = length ds \<and> length disk = length ds \<and> distinct (map di_fileID ds) \<and>
     d_fileIDIndices d = file_id_indices ds \<and> infos_ok ds (d_fileIntegrityInfos d) \<and>
     (\<forall>i < length ds. info_right n (ds ! i) (orig ! i)) \<and>
     (\<forall>i < length ds. io_ReadFile io fs (set_path d i) = (case disk ! i of None \<Rightarrow> Inl OsErrNotExist | Some f \<Rightarrow> Inr f)) \<and>
     (\<forall>i < length ds. was_ok d i \<longrightarrow> disk ! i = Some (orig ! i)) \<and>
     (\<forall>i < length ds. \<forall>j < nslices n (orig ! i). si_present (shard_at d i j) \<longrightarrow>
        (\<exists>s p f. s < length ds \<and> disk ! s = Some f \<and> p < length f \<and> pad_slice n f p = pad_slice n (orig ! i) (j * n) \<and>
           si_foundAt (shard_at d i j) = \<lparr> sl_fileID = di_fileID (ds ! s), sl_start = p \<rparr>)))"

lemma damagedD:
  assumes "damaged io fs d orig disk"
  shows "0 < d_sliceByteCount d" "even (d_sliceByteCount d)" "length orig = length (d_recoverySet d)" "length disk = length (d_recoverySet d)"
    "distinct (map di_fileID (d_recoverySet d))" "d_fileIDIndices d = file_id_indices (d_recoverySet d)"
    "infos_ok (d_recoverySet d) (d_fileIntegrityInfos d)"
    "i < length (d_recoverySet d) \<Longrightarrow> info_right (d_sliceByteCount d) (d_recoverySet d ! i) (orig ! i)"
    "i < length (d_recoverySet d) \<Longrightarrow> io_ReadFile io fs (set_path d i) = (case disk ! i of None \<Rightarrow> Inl OsErrNotExist | Some f \<Rightarrow> Inr f)"
    "i < length (d_recoverySet d) \<Longrightarrow> was_ok d i \<Longrightarrow> disk ! i = Some (orig ! i)"
  using assms by (simp_all add: damaged_def Let_def)

lemma damaged_found:
  assumes "damaged io fs d orig disk" and "i < length (d_recoverySet d)" and "j < nslices (d_sliceByteCount d) (orig ! i)"
    and "si_present (shard_at d i j)"
  obtains s p f where "s < length (d_recoverySet d)" "disk ! s = Some f" "p < length f"
    "pad_slice (d_sliceByteCount d) f p = pad_slice (d_sliceByteCount d) (orig ! i) (j * d_sliceByteCount d)"
    "si_foundAt (shard_at d i j) = \<lparr> sl_fileID = di_fileID (d_recoverySet d ! s), sl_start = p \<rparr>"
  using assms unfolding damaged_def Let_def by blast

lemma damaged_shape:
  assumes "damaged io fs d orig disk"
  shows "length (d_fileIntegrityInfos d) = length (d_recoverySet d)"
    and "i < length (d_recoverySet d) \<Longrightarrow> fi_fileID (d_fileIntegrityInfos d ! i) = di_fileID (d_recoverySet d ! i)"
    and "i < length (d_recoverySet d) \<Longrightarrow> length (fi_shardInfos (d_fileIntegrityInfos d ! i)) = nslices (d_sliceByteCount d) (orig ! i)"
    and "i \<le> length (d_recoverySet d) \<Longrightarrow> shard_base d i + j = row_of (d_sliceByteCount d) orig i j"
    and "length (decoder_shards d) = length (true_shards (d_sliceByteCount d) orig)"
    and "i < length (d_recoverySet d) \<Longrightarrow> j < nslices (d_sliceByteCount d) (orig ! i) \<Longrightarrow>
      decoder_shards d ! row_of (d_sliceByteCount d) orig i j = shard_at d i j"
proof -
  let ?n = "d_sliceByteCount d" and ?ds = "d_recoverySet d" and ?infos = "d_fileIntegrityInfos d"
  note D = damagedD [OF assms]
  note O = infos_okD [OF D(7)]
  show li: "length ?infos = length ?ds" by (rule O(1))
  show "i < length ?ds \<Longrightarrow> fi_fileID (?infos ! i) = di_fileID (?ds ! i)" for i by (rule O(2))
  show ls: "i < length ?ds \<Longrightarrow> length (fi_shardInfos (?infos ! i)) = nslices ?n (orig ! i)" for i
    using O(3) D(8) by (simp add: info_right_def)
  have lens: "map (\<lambda>info. length (fi_shardInfos info)) ?infos = map (nslices ?n) orig"
    using li ls D(3) by (intro nth_equalityI) simp_all
  then have base: "(\<Sum>info\<leftarrow>take i ?infos. length (fi_shardInfos info)) = (\<Sum>c\<leftarrow>take i orig. nslices ?n c)" for i
    by (metis take_map)
  then show "i \<le> length ?ds \<Longrightarrow> shard_base d i + j = row_of ?n orig i j" for i j by (simp add: shard_base_def row_of_def)
  show "length (decoder_shards d) = length (true_shards ?n orig)"
    using lens by (simp add: decoder_shards_def true_shards_def length_concat comp_def)
  show "i < length ?ds \<Longrightarrow> j < nslices ?n (orig ! i) \<Longrightarrow> decoder_shards d ! row_of ?n orig i j = shard_at d i j" for i j
    using concat_index [of i "map fi_shardInfos ?infos" j] li ls base [of i]
    by (simp add: decoder_shards_def row_of_def take_map comp_def)
qed

section \<open>Reading\<close>

lemma read_padded_right:
  assumes "reader_over rd f" and "0 < len"
  shows "read_padded (Inr (rd, int (length f))) (int off) len = Inr (pad_slice len f off)"
proof (cases "off < length f")
  case False
  then have "pad_slice len f off = replicate len 0" by (intro nth_equalityI) (simp_all add: nth_pad_slice)
  with False show ?thesis by (simp add: read_padded_def)
next
  case True
  define k where "k = min len (length f - off)"
  have k: "0 < k" "off + k \<le> length f" using True assms(2) by (auto simp: k_def)
  have n: "(if int off + int len > int (length f) then nat (int (length f) - int off) else len) = k"
    using True by (auto simp: k_def min_def of_nat_diff [symmetric] simp del: of_nat_diff)
  have "rd (int off) k = Inr (take k (drop off f))"
    using reader_over.reads [OF assms(1), of "int off" k] k by simp
  moreover have "take k (drop off f) @ replicate (len - k) 0 = pad_slice len f off"
    using pad_slice_take [of off f k len] True by (simp add: k_def)
  ultimately show ?thesis using True unfolding read_padded_def bindR_simps prod.case n Let_def by simp
qed

context patch_store
begin

lemma readAbs_right:
  assumes "ok fs" and "io_ReadFile io fs p = Inr f" and "0 < len"
  shows "readAbs io fs p (int off) len = Inr (pad_slice len f off)"
  using opens_file(1) [OF assms(1,2)] read_padded_right [OF _ assms(3)] by (auto simp: readAbs_def opens_as_def)

text \<open>A shard that was found is the slice of the original.\<close>

lemma readRange_right:
  assumes ok: "ok fs" and D: "damaged io fs d orig disk" and i: "i < length (d_recoverySet d)"
    and j: "j < nslices (d_sliceByteCount d) (orig ! i)" and p: "si_present (shard_at d i j)"
    and len: "0 < len" "off + len \<le> d_sliceByteCount d"
  shows "readRange io fs d (shard_at d i j) off len
    = Inr (slice (pad_slice (d_sliceByteCount d) (orig ! i) (j * d_sliceByteCount d)) off (off + len))"
proof -
  let ?n = "d_sliceByteCount d" and ?ds = "d_recoverySet d"
  from damaged_found [OF D i j p] obtain s q f where f: "s < length ?ds" "disk ! s = Some f" "q < length f"
    "pad_slice ?n f q = pad_slice ?n (orig ! i) (j * ?n)"
    "si_foundAt (shard_at d i j) = \<lparr> sl_fileID = di_fileID (?ds ! s), sl_start = q \<rparr>" .
  have "io_ReadFile io fs (set_path d s) = Inr f" using damagedD(9) [OF D f(1)] f(2) by simp
  from opens_file(1) [OF ok this] obtain rd where rd: "io_OpenRead io fs (set_path d s) = Inr (rd, int (length f))" "reader_over rd f"
    by (auto simp: opens_as_def)
  have "d_fileIDIndices d (di_fileID (?ds ! s)) = Some s"
    unfolding damagedD(6) [OF D] by (rule file_id_indices_nth [OF damagedD(5) [OF D] f(1)])
  then have "cache_get io fs d (di_fileID (?ds ! s)) = Inr (rd, int (length f))" using f(1) rd(1) by (simp add: cache_get_def)
  then have "readRange io fs d (shard_at d i j) off len = Inr (pad_slice len f (q + off))"
    using p read_padded_right [OF rd(2) len(1), of "q + off"] by (simp add: readRange_def f(5))
  then show ?thesis by (simp add: pad_slice_part [OF len(2)] f(4))
qed

end

end
