(* ===== verification/RepairInputs.thy ===== *)
theory RepairInputs
  imports DamagedSet
begin

text \<open>
  The inputs of the reconstruction of a damaged set: the slices kept in memory, the classification of the
  rows, and the callback of the fold, which delivers slices and recovery blocks range by range.
\<close>

section \<open>Slices kept in memory\<close>

definition preserved_right :: "nat \<Rightarrow> byte list list \<Rightarrow> (nat \<rightharpoonup> byte list) \<Rightarrow> bool" where
  "preserved_right n orig preserved \<longleftrightarrow> (\<forall>k b. preserved k = Some b \<longrightarrow> k < length (true_shards n orig) \<and> b = true_shards n orig ! k)"

context patch_store
begin

lemma preserve_shard_right:
  assumes ok: "ok fs" and D: "damaged io fs d orig disk" and i: "i < length (d_recoverySet d)"
    and j: "j < nslices (d_sliceByteCount d) (orig ! i)" and P: "preserved_right (d_sliceByteCount d) orig preserved"
  shows "\<exists>preserved'. preserve_shard io fs d i j preserved = Inr preserved' \<and> preserved_right (d_sliceByteCount d) orig preserved'"
proof (cases "preserved (shard_base d i + j) \<noteq> None \<or> \<not> si_present (shard_at d i j) \<or>
    sl_fileID (si_foundAt (shard_at d i j)) = fi_fileID (d_fileIntegrityInfos d ! i) \<or>
    sl_fileID (si_foundAt (shard_at d i j)) \<notin> set (will_rewrite d)")
  case True
  then show ?thesis using P unfolding preserve_shard_def Let_def by (simp only: if_True) blast
next
  case False
  let ?n = "d_sliceByteCount d"
  note n = damagedD(1) [OF D]
  have base: "shard_base d i + j = row_of ?n orig i j" using damaged_shape(4) [OF D] i by simp
  have "readRange io fs d (shard_at d i j) 0 ?n = Inr (pad_slice ?n (orig ! i) (j * ?n))"
    using readRange_right [OF ok D i j _ n, of 0] False slice_full [of "pad_slice ?n (orig ! i) (j * ?n)"] by simp
  moreover have "preserved_right ?n orig (preserved(row_of ?n orig i j \<mapsto> pad_slice ?n (orig ! i) (j * ?n)))"
    using P row_of_nth [of i orig j ?n] i j damagedD(3) [OF D] by (auto simp: preserved_right_def)
  ultimately show ?thesis using False by (simp add: preserve_shard_def Let_def base)
qed

lemma preserve_right:
  assumes ok: "ok fs" and D: "damaged io fs d orig disk"
  shows "\<exists>preserved. preserveShardsBeforeOverwrite io fs d = Inr preserved \<and> preserved_right (d_sliceByteCount d) orig preserved"
  unfolding preserveShardsBeforeOverwrite_def
proof (rule foldR_total [where P = "preserved_right (d_sliceByteCount d) orig"])
  show "preserved_right (d_sliceByteCount d) orig Map.empty" by (simp add: preserved_right_def)
  fix i preserved
  assume i: "i \<in> set [0..<length (d_fileIntegrityInfos d)]" and P: "preserved_right (d_sliceByteCount d) orig preserved"
  then have i: "i < length (d_recoverySet d)" by (simp add: damaged_shape(1) [OF D])
  show "\<exists>preserved'. (if was_ok d i then Inr
      else foldR (preserve_shard io fs d i) [0..<length (fi_shardInfos (d_fileIntegrityInfos d ! i))]) preserved = Inr preserved' \<and>
    preserved_right (d_sliceByteCount d) orig preserved'"
  proof (cases "was_ok d i")
    case False
    have "\<exists>preserved'. foldR (preserve_shard io fs d i) [0..<length (fi_shardInfos (d_fileIntegrityInfos d ! i))] preserved = Inr preserved' \<and>
        preserved_right (d_sliceByteCount d) orig preserved'"
      by (rule foldR_total [where P = "preserved_right (d_sliceByteCount d) orig"]) (use P preserve_shard_right [OF ok D i] damaged_shape(3) [OF D i] in auto)
    with False show ?thesis by simp
  qed (use P in simp)
qed

end

section \<open>Classification\<close>

definition presence :: "decoder \<Rightarrow> shardIntegrityInfo option list" where
  "presence d = map (\<lambda>si. if si_present si then Some si else None) (decoder_shards d)"

lemma length_presence [simp]: "length (presence d) = length (decoder_shards d)"
  by (simp add: presence_def)

lemma presence_nth: "k < length (decoder_shards d) \<Longrightarrow> presence d ! k \<noteq> None \<longleftrightarrow> si_present (decoder_shards d ! k)"
  by (simp add: presence_def)

lemma presence_None: "k < length (decoder_shards d) \<Longrightarrow> presence d ! k = None \<longleftrightarrow> \<not> si_present (decoder_shards d ! k)"
  by (simp add: presence_def)

definition data_input :: "shardIntegrityInfo \<Rightarrow> foldInput" where
  "data_input si = \<lparr> in_isParity = False, in_parityIdx = 0, in_shard = si \<rparr>"

definition parity_input :: "nat \<Rightarrow> foldInput" where
  "parity_input e = \<lparr> in_isParity = True, in_parityIdx = e, in_shard = shard_zero \<rparr>"

lemma classify_shards_eq:
  "classify_shards k sis = (map ((+) k) (filter (\<lambda>i. si_present (sis ! i)) [0..<length sis]),
     map ((+) k) (filter (\<lambda>i. \<not> si_present (sis ! i)) [0..<length sis]), map data_input (filter si_present sis))"
proof (induction sis arbitrary: k)
  case (Cons si sis)
  have up: "[0..<length (si # sis)] = 0 # map Suc [0..<length sis]" by (simp add: upt_conv_Cons map_Suc_upt del: upt_Suc)
  show ?case unfolding up using Cons.IH [of "Suc k"] by (simp add: filter_map comp_def data_input_def)
qed simp

lemma choose_parity_eq:
  assumes "length inputs \<le> n"
  shows "choose_parity n i ps exps inputs = (let es = take (n - length inputs) (map ((+) i) (filter (\<lambda>e. ps ! e) [0..<length ps]))
    in (exps @ es, inputs @ map parity_input es))"
  using assms
proof (induction ps arbitrary: i exps inputs)
  case (Cons p ps)
  have up: "[0..<length (p # ps)] = 0 # map Suc [0..<length ps]" by (simp add: upt_conv_Cons map_Suc_upt del: upt_Suc)
  show ?case
  proof (cases "length inputs < n")
    case False
    with Cons.prems show ?thesis by (simp add: Let_def)
  next
    case True
    then show ?thesis
      using Cons.IH [of "inputs @ [parity_input i]" "Suc i" "exps @ [i]"] Cons.IH [of inputs "Suc i" exps] Cons.prems
      unfolding up by (auto simp: Let_def filter_map comp_def parity_input_def take_Cons' Suc_diff_le)
  qed
qed (simp add: Let_def)

text \<open>The recovery blocks that stand in for what is missing.\<close>

definition chosen_blocks :: "decoder \<Rightarrow> nat list" where
  "chosen_blocks d = take (length (missing (presence d))) (filter (\<lambda>e. d_parityPresent d ! e) [0..<length (d_parityPresent d)])"

definition recon_inputs :: "decoder \<Rightarrow> foldInput list" where
  "recon_inputs d = map (\<lambda>k. data_input (decoder_shards d ! k)) (avail (presence d)) @ map parity_input (chosen_blocks d)"

lemma classification:
  assumes "decoder_shards d \<noteq> []" and "d_parityPresent d \<noteq> []" and "length (chosen_blocks d) = length (missing (presence d))"
  shows "classifyReconstruction d = Inr (avail (presence d), missing (presence d), chosen_blocks d, recon_inputs d)"
proof -
  let ?sis = "decoder_shards d"
  have av: "avail (presence d) = filter (\<lambda>i. si_present (?sis ! i)) [0..<length ?sis]"
    unfolding avail_def by (rule filter_cong) (simp_all add: presence_None)
  have mi: "missing (presence d) = filter (\<lambda>i. \<not> si_present (?sis ! i)) [0..<length ?sis]"
    unfolding missing_def by (rule filter_cong) (simp_all add: presence_None)
  have zero: "map ((+) 0) xs = xs" for xs :: "nat list" by (rule map_idI) simp
  have "filter si_present ?sis = map ((!) ?sis) (avail (presence d))"
    using filter_map [of si_present "(!) ?sis" "[0..<length ?sis]"] by (simp add: av map_nth comp_def)
  then have cl: "classify_shards 0 ?sis = (avail (presence d), missing (presence d), map (\<lambda>k. data_input (?sis ! k)) (avail (presence d)))"
    by (simp add: classify_shards_eq av mi comp_def zero)
  have len: "length (avail (presence d)) + length (missing (presence d)) = length ?sis"
    using avail_missing(5) [of "presence d"] by simp
  then have "choose_parity (length ?sis) 0 (d_parityPresent d) [] (map (\<lambda>k. data_input (?sis ! k)) (avail (presence d)))
      = (chosen_blocks d, recon_inputs d)"
    by (subst choose_parity_eq) (simp_all add: zero Let_def chosen_blocks_def recon_inputs_def flip: len)
  moreover have "length (recon_inputs d) = length ?sis" using len assms(3) by (simp add: recon_inputs_def)
  ultimately show ?thesis using assms(1,2) by (simp add: classifyReconstruction_def cl)
qed

section \<open>The inputs of a range\<close>

text \<open>The recovery block with exponent \<open>e\<close>.\<close>

definition parity_block :: "nat \<Rightarrow> byte list list \<Rightarrow> nat \<Rightarrow> byte list" where
  "parity_block n D e = unwords (map (\<lambda>w. \<Sum>j<length D. generators ! j ^ e * words (D ! j) ! w) [0..<n div 2])"

lemma length_parity_block: "even n \<Longrightarrow> length (parity_block n D e) = n"
  by (simp add: parity_block_def)

lemma mrow_exponents:
  assumes "i < length es"
  shows "unwords (map (mrow (exponent_matrix (length D) es) D i) [0..<n div 2]) = parity_block n D (es ! i)"
  unfolding parity_block_def by (intro arg_cong [where f = unwords] map_cong refl) (simp add: assms mrow_def exponent_matrix_def)

text \<open>Where a block is stored.\<close>

definition block_stored :: "('fs, 'w) fileIO \<Rightarrow> 'fs \<Rightarrow> parityLocation \<Rightarrow> byte list \<Rightarrow> bool" where
  "block_stored io fs loc b \<longleftrightarrow> pl_path loc \<noteq> [] \<and> pl_length loc = int (length b) \<and> 0 \<le> pl_offset loc \<and>
     (\<exists>c. io_ReadFile io fs (pl_path loc) = Inr c \<and> slice c (nat (pl_offset loc)) (nat (pl_offset loc) + length b) = b)"

lemma stored_part:
  assumes "slice c p (p + n) = b" and "length b = n" and "off + len \<le> n"
  shows "pad_slice len c (p + off) = slice b off (off + len)"
proof (rule nth_equalityI)
  have l: "p + n \<le> length c \<or> n = 0" using assms(1,2) by (cases "p + n \<le> length c") auto
  show "length (pad_slice len c (p + off)) = length (slice b off (off + len))" using assms(2,3) by simp
  fix i assume "i < length (pad_slice len c (p + off))"
  then have i: "i < len" by simp
  then have "b ! (off + i) = c ! (p + (off + i))" "p + off + i < length c" using assms l by (auto simp: nth_slice)
  then show "pad_slice len c (p + off) ! i = slice b off (off + len) ! i"
    using i assms(2,3) by (simp add: nth_pad_slice nth_slice add.assoc)
qed

context patch_store
begin

lemma read_block:
  assumes ok: "ok fs" and st: "block_stored io fs loc b" and len: "0 < len" "off + len \<le> length b"
  shows "readAbs io fs (pl_path loc) (pl_offset loc + int off) len = Inr (slice b off (off + len))"
proof -
  from st obtain c where c: "io_ReadFile io fs (pl_path loc) = Inr c"
    "slice c (nat (pl_offset loc)) (nat (pl_offset loc) + length b) = b" "0 \<le> pl_offset loc" by (auto simp: block_stored_def)
  have "pl_offset loc + int off = int (nat (pl_offset loc) + off)" using c(3) by simp
  then show ?thesis
    using readAbs_right [OF ok c(1) len(1), of "nat (pl_offset loc) + off"] by (simp only: stored_part [OF c(2) refl len(2)])
qed

lemma loads_range:
  assumes ok: "ok fs" and D: "damaged io fs d orig disk" and P: "preserved_right (d_sliceByteCount d) orig preserved"
    and len: "0 < len" "off + len \<le> d_sliceByteCount d"
    and blocks: "length (chosen_blocks d) = length (missing (presence d))"
      "\<forall>e \<in> set (chosen_blocks d). e < length (d_parityLocations d) \<and>
        block_stored io fs (d_parityLocations d ! e) (parity_block (d_sliceByteCount d) (true_shards (d_sliceByteCount d) orig) e)"
  shows "delivers (load_input io fs d preserved (avail (presence d)) (recon_inputs d) off len) len
    (map (\<lambda>x. slice x off (off + len)) (recon_input (true_shards (d_sliceByteCount d) orig)
      (exponent_matrix (length (true_shards (d_sliceByteCount d) orig)) (chosen_blocks d)) (d_sliceByteCount d)
      (avail (presence d)) [0..<length (missing (presence d))]))"
  unfolding delivers_def
proof (intro allI impI)
  let ?n = "d_sliceByteCount d" and ?av = "avail (presence d)" and ?es = "chosen_blocks d" and ?k = "length (missing (presence d))"
  let ?D = "true_shards ?n orig"
  let ?R = "recon_input ?D (exponent_matrix (length ?D) ?es) ?n ?av [0..<?k]"
  note shape = damaged_shape [OF D]
  fix j assume j: "j < length (map (\<lambda>x. slice x off (off + len)) ?R)"
  then have jR: "j < length ?R" by simp
  show "load_input io fs d preserved ?av (recon_inputs d) off len j (replicate len 0) = Inr (map (\<lambda>x. slice x off (off + len)) ?R ! j) \<and>
      length (map (\<lambda>x. slice x off (off + len)) ?R ! j) = len"
  proof (cases "j < length ?av")
    case True
    let ?r = "?av ! j"
    have r: "?r < length (decoder_shards d)" "si_present (decoder_shards d ! ?r)"
      using nth_mem [OF True] presence_nth [of ?r d] by (simp_all add: avail_missing(1))
    then have rD: "?r < length ?D" using shape(5) by simp
    then obtain a b where ab: "a < length orig" "b < nslices ?n (orig ! a)" "?r = row_of ?n orig a b" by (rule row_of_ex)
    have a: "a < length (d_recoverySet d)" using ab(1) damagedD(3) [OF D] by simp
    have inp: "recon_inputs d ! j = data_input (shard_at d a b)" "j < length (recon_inputs d)"
      using True shape(6) [OF a ab(2)] by (simp_all add: recon_inputs_def nth_append ab(3))
    have Rj: "?R ! j = ?D ! ?r" using True by (simp add: recon_input_def nth_append)
    have lD: "length (?D ! ?r) = ?n" by (rule length_true_shard [OF rD])
    have "load_input io fs d preserved ?av (recon_inputs d) off len j (replicate len 0) = Inr (slice (?D ! ?r) off (off + len))"
    proof (cases "preserved ?r")
      case None
      have "si_present (shard_at d a b)" using r(2) shape(6) [OF a ab(2)] ab(3) by simp
      then show ?thesis
        using readRange_right [OF ok D a ab(2) _ len] True inp None row_of_nth(2) [OF ab(1,2)]
        by (simp add: load_input_def data_input_def ab(3))
    next
      case (Some s)
      then have s: "s = ?D ! ?r" using P by (simp add: preserved_right_def)
      have "off < ?n" "min (off + len) ?n = off + len" using len by simp_all
      moreover have "go_copy (replicate len 0) (slice (?D ! ?r) off (off + len)) = slice (?D ! ?r) off (off + len)"
        using lD len by (simp add: go_copy_def)
      ultimately show ?thesis using True inp Some lD by (simp add: load_input_def data_input_def s)
    qed
    then show ?thesis using jR Rj lD len by simp
  next
    case False
    define e where "e = ?es ! (j - length ?av)"
    have jk: "j - length ?av < ?k" using False jR by (simp add: recon_input_def)
    then have e: "e \<in> set ?es" using blocks(1) by (simp add: e_def)
    let ?loc = "d_parityLocations d ! e" and ?b = "parity_block ?n ?D e"
    have st: "e < length (d_parityLocations d)" "block_stored io fs ?loc ?b" using blocks(2) e by blast+
    have lb: "length ?b = ?n" by (rule length_parity_block [OF damagedD(2) [OF D]])
    have inp: "recon_inputs d ! j = parity_input e" "j < length (recon_inputs d)"
      using False jk blocks(1) by (simp_all add: recon_inputs_def nth_append e_def)
    have Rj: "?R ! j = ?b" using False jk mrow_exponents [of "j - length ?av" ?es ?D ?n] blocks(1)
      by (simp add: recon_input_def nth_append e_def)
    have loc: "pl_length ?loc = int ?n" using st(2) lb by (simp add: block_stored_def)
    have "\<not> int off \<ge> int ?n" "\<not> int (off + len) > int ?n" using len by simp_all
    moreover have "readAbs io fs (pl_path ?loc) (pl_offset ?loc + int off) len = Inr (slice ?b off (off + len))"
      by (rule read_block [OF ok st(2) len(1)]) (use lb len in simp)
    moreover have "splice (replicate len 0) 0 (slice ?b off (off + len)) = slice ?b off (off + len)"
      using lb len by (simp add: splice_def)
    ultimately have "load_input io fs d preserved ?av (recon_inputs d) off len j (replicate len 0) = Inr (slice ?b off (off + len))"
      using inp st(1) by (simp add: load_input_def parity_input_def loc slice_def)
    then show ?thesis using jR Rj lb len by simp
  qed
qed

end

end
