(* ===== verification/RepairCopy.thy ===== *)
theory RepairCopy
  imports RepairInputs
begin

text \<open>
  Opening the files that are rewritten and copying the slices that survived: afterwards every writer holds
  them at their places, whether it was opened as a clone of the damaged file or from scratch, and whatever
  order the files are opened in.
\<close>

text \<open>The positions of slice \<open>j\<close>, and those of the slices of file \<open>i\<close> that were found.\<close>

definition slice_span :: "nat \<Rightarrow> nat \<Rightarrow> nat set" where
  "slice_span n j = {j * n..<j * n + n}"

definition survivor_spans :: "decoder \<Rightarrow> byte list list \<Rightarrow> nat \<Rightarrow> nat set" where
  "survivor_spans d orig i = \<Union> (slice_span (d_sliceByteCount d) ` {j. j < nslices (d_sliceByteCount d) (orig ! i) \<and> si_present (shard_at d i j)})"

context patch_store
begin

definition writer_ok :: "decoder \<Rightarrow> byte list list \<Rightarrow> nat \<Rightarrow> 'w openFile \<Rightarrow> bool" where
  "writer_ok d orig i f \<longleftrightarrow> length (wdata (of_w f)) = length (orig ! i) \<and> wpath (of_w f) = set_path d i \<and>
     (\<forall>k \<in> set (of_written f). k < nslices (d_sliceByteCount d) (orig ! i))"

definition survivors_right :: "decoder \<Rightarrow> byte list list \<Rightarrow> nat \<Rightarrow> 'w openFile \<Rightarrow> bool" where
  "survivors_right d orig i f \<longleftrightarrow> (\<forall>j < nslices (d_sliceByteCount d) (orig ! i). si_present (shard_at d i j) \<longrightarrow>
     slice_span (d_sliceByteCount d) j \<subseteq> right_at (orig ! i) (wdata (of_w f)))"

lemma open_rewrite_right:
  assumes ok: "ok fs" and D: "damaged io fs d orig disk" and i: "i < length (d_recoverySet d)"
  shows "\<exists>w cloned. open_rewrite io fs d i = Inr (w, cloned) \<and> length (wdata w) = length (orig ! i) \<and> wpath w = set_path d i \<and>
    (cloned \<longrightarrow> (\<forall>j < nslices (d_sliceByteCount d) (orig ! i). si_present (shard_at d i j) \<longrightarrow>
       si_foundAt (shard_at d i j) = \<lparr> sl_fileID = fi_fileID (d_fileIntegrityInfos d ! i), sl_start = j * d_sliceByteCount d \<rparr> \<longrightarrow>
       slice_span (d_sliceByteCount d) j \<subseteq> right_at (orig ! i) (wdata w)))"
proof -
  let ?n = "d_sliceByteCount d" and ?c = "orig ! i" and ?p = "set_path d i"
  have sz: "di_byteCount (d_recoverySet d ! i) = int (length ?c)" using damagedD(8) [OF D i] by (simp add: info_right_def)
  from open_write [OF ok, of "int (length ?c)" ?p] obtain w0 where
    w0: "io_OpenWrite io fs ?p (int (length ?c)) = Inr w0" "wpath w0 = ?p" "length (wdata w0) = length ?c" by auto
  have create: "\<exists>w cloned. Inr (w0, False) = (Inr (w, cloned) :: ('w \<times> bool) res) \<and> length (wdata w) = length ?c \<and> wpath w = ?p \<and> \<not> cloned"
    using w0 by (intro exI [of _ w0] exI [of _ False]) simp
  show ?thesis
  proof (cases "if fi_missing (d_fileIntegrityInfos d ! i) then None else io_OpenPatch io")
    case None
    then have "open_rewrite io fs d i = Inr (w0, False)" by (simp add: open_rewrite_def sz w0(1) split del: if_split)
    with create show ?thesis by auto
  next
    case (Some patch)
    then have patch: "io_OpenPatch io = Some patch" by (simp split: if_splits)
    from open_patch [OF ok _ patch, of "int (length ?c)" ?p]
    consider e where "patch fs ?p (int (length ?c)) = Inl e" "\<forall>m. e \<noteq> Panic m"
      | w old where "patch fs ?p (int (length ?c)) = Inr w" "io_ReadFile io fs ?p = Inr old" "wpath w = ?p" "wdata w = pad_slice (length ?c) old 0"
      by auto
    then show ?thesis
    proof cases
      case 1
      then have "open_rewrite io fs d i = Inr (w0, False)"
        using Some by (cases e) (simp_all add: open_rewrite_def sz w0(1) split del: if_split)
      with create show ?thesis by auto
    next
      case 2
      have disk: "disk ! i = Some old" using damagedD(9) [OF D i] 2(2) by (simp split: option.splits)
      have "slice_span ?n j \<subseteq> right_at ?c (wdata w)"
        if j: "j < nslices ?n ?c" and p: "si_present (shard_at d i j)"
          and at: "si_foundAt (shard_at d i j) = \<lparr> sl_fileID = fi_fileID (d_fileIntegrityInfos d ! i), sl_start = j * ?n \<rparr>" for j
      proof -
        from damaged_found [OF D i j p] obtain s q f where f: "s < length (d_recoverySet d)" "disk ! s = Some f"
          "pad_slice ?n f q = pad_slice ?n ?c (j * ?n)"
          "si_foundAt (shard_at d i j) = \<lparr> sl_fileID = di_fileID (d_recoverySet d ! s), sl_start = q \<rparr>" .
        have q: "q = j * ?n" "di_fileID (d_recoverySet d ! s) = di_fileID (d_recoverySet d ! i)"
          using f(4) at damaged_shape(2) [OF D i] by simp_all
        have "s = i" using q(2) nth_eq_iff_index_eq [OF damagedD(5) [OF D], of s i] f(1) i by simp
        then have f: "pad_slice ?n old (j * ?n) = pad_slice ?n ?c (j * ?n)" using f(2,3) q(1) disk by simp
        have "wdata w ! x = ?c ! x" if x: "x \<in> slice_span ?n j" "x < length ?c" for x
        proof -
          have y: "x - j * ?n < ?n" "j * ?n + (x - j * ?n) = x" using x(1) by (auto simp: slice_span_def)
          have "pad_slice ?n old (j * ?n) ! (x - j * ?n) = pad_slice ?n ?c (j * ?n) ! (x - j * ?n)" by (simp only: f)
          then have "(if x < length old then old ! x else 0) = ?c ! x" using x(2) unfolding nth_pad_slice [OF y(1)] y(2) by simp
          then show ?thesis using x(2) by (simp add: 2(4) nth_pad_slice split: if_splits)
        qed
        then show ?thesis by (auto simp: right_at_def)
      qed
      moreover have "open_rewrite io fs d i = Inr (w, True)"
        using Some 2(1) by (simp add: open_rewrite_def sz split del: if_split)
      ultimately show ?thesis using 2(3,4) by (intro exI [of _ w] exI [of _ True]) simp
    qed
  qed
qed

lemma copySurvivingShards_right:
  assumes ok: "ok fs" and D: "damaged io fs d orig disk" and i: "i < length (d_recoverySet d)"
    and P: "preserved_right (d_sliceByteCount d) orig preserved"
  shows "\<exists>f. copySurvivingShards io fs d preserved i fs' = (Inr f, fs') \<and> writer_ok d orig i f \<and> survivors_right d orig i f"
proof -
  let ?n = "d_sliceByteCount d" and ?c = "orig ! i"
  let ?ok = "\<lambda>j. si_present (shard_at d i j)"
  let ?canon = "\<lambda>j. si_foundAt (shard_at d i j) = \<lparr> sl_fileID = fi_fileID (d_fileIntegrityInfos d ! i), sl_start = j * ?n \<rparr>"
  note n = damagedD(1) [OF D]
  have info: "di_byteCount (d_recoverySet d ! i) = int (length ?c)" "length ?c < 2 ^ 63"
    using damagedD(8) [OF D i] by (simp_all add: info_right_def)
  have io': "i < length orig" using i damagedD(3) [OF D] by simp
  from open_rewrite_right [OF ok D i] obtain w0 cloned where
    op: "open_rewrite io fs d i = Inr (w0, cloned)" "length (wdata w0) = length ?c" "wpath w0 = set_path d i"
    and cl: "cloned \<Longrightarrow> j < nslices ?n ?c \<Longrightarrow> ?ok j \<Longrightarrow> ?canon j \<Longrightarrow> slice_span ?n j \<subseteq> right_at ?c (wdata w0)" for j by blast
  define Inv where "Inv = (\<lambda>(w, written). length (wdata w) = length ?c \<and> wpath w = set_path d i \<and>
    (\<forall>k \<in> set written. k < nslices ?n ?c) \<and>
    (cloned \<longrightarrow> (\<forall>j < nslices ?n ?c. ?ok j \<longrightarrow> ?canon j \<longrightarrow> slice_span ?n j \<subseteq> right_at ?c (wdata w))))"
  define Goal where "Goal = (\<lambda>j (w, written :: nat list). ?ok j \<longrightarrow> slice_span ?n j \<subseteq> right_at ?c (wdata w))"
  have "\<exists>s'. foldR (copy_shard io fs d preserved i cloned) [0..<nslices ?n ?c] (w0, []) = Inr s' \<and> Inv s' \<and>
      (\<forall>j \<in> set [0..<nslices ?n ?c]. Goal j s') \<and> (\<forall>j. Goal j (w0, []) \<longrightarrow> Goal j s')"
  proof (rule foldR_reaches)
    show "Inv (w0, [])" using op cl by (simp add: Inv_def)
    fix j and s :: "'w \<times> nat list"
    assume "j \<in> set [0..<nslices ?n ?c]" and "Inv s"
    then have j: "j < nslices ?n ?c" by simp
    obtain w written where s: "s = (w, written)" by (cases s)
    with \<open>Inv s\<close> have I: "length (wdata w) = length ?c" "wpath w = set_path d i" "\<forall>k \<in> set written. k < nslices ?n ?c"
      "cloned \<Longrightarrow> k < nslices ?n ?c \<Longrightarrow> ?ok k \<Longrightarrow> ?canon k \<Longrightarrow> slice_span ?n k \<subseteq> right_at ?c (wdata w)" for k
      by (auto simp: Inv_def)
    let ?kept = "preserved (shard_base d i + j)"
    show "\<exists>s'. copy_shard io fs d preserved i cloned j s = Inr s' \<and> Inv s' \<and> Goal j s' \<and> (\<forall>y. Goal y s \<longrightarrow> Goal y s')"
    proof (cases "\<not> ?ok j \<or> cloned \<and> ?kept = None \<and> ?canon j")
      case True
      then have "copy_shard io fs d preserved i cloned j s = Inr s" by (auto simp: copy_shard_def s Let_def)
      moreover have "Goal j s" using True I(4) [OF _ j] by (auto simp: Goal_def s)
      ultimately show ?thesis using \<open>Inv s\<close> by blast
    next
      case False
      have "(case ?kept of Some shard \<Rightarrow> Inr (go_copy (replicate ?n 0) shard)
          | None \<Rightarrow> readRange io fs d (shard_at d i j) 0 ?n) = Inr (pad_slice ?n ?c (j * ?n))"
      proof (cases ?kept)
        case None
        then show ?thesis
          using readRange_right [OF ok D i j _ n, of 0] False slice_full [of "pad_slice ?n ?c (j * ?n)"] by simp
      next
        case (Some shard)
        have "shard_base d i + j = row_of ?n orig i j" using damaged_shape(4) [OF D] i by simp
        then have "shard = pad_slice ?n ?c (j * ?n)" using P Some row_of_nth(2) [OF io' j] by (simp add: preserved_right_def)
        with Some show ?thesis by (simp add: go_copy_def)
      qed
      moreover from writeShardRange_right [OF I(1) info(2), of "j * ?n" ?n] obtain w' where
        w': "writeShardRange io w (j * ?n) (pad_slice ?n ?c (j * ?n)) (int (length ?c)) = Inr w'" "wpath w' = wpath w"
          "length (wdata w') = length ?c" "right_at ?c (wdata w) \<union> slice_span ?n j \<subseteq> right_at ?c (wdata w')"
        by (auto simp: slice_span_def)
      ultimately have "copy_shard io fs d preserved i cloned j s = Inr (w', if cloned then written @ [j] else written)"
        using False by (auto simp: copy_shard_def s Let_def info(1))
      moreover have "Inv (w', if cloned then written @ [j] else written)" using I w' j unfolding Inv_def by auto
      moreover have "Goal j (w', if cloned then written @ [j] else written)"
        "\<And>y. Goal y s \<Longrightarrow> Goal y (w', if cloned then written @ [j] else written)" using w'(4) by (auto simp: Goal_def s)
      ultimately show ?thesis by blast
    qed
  qed
  then obtain w written where
    f: "foldR (copy_shard io fs d preserved i cloned) [0..<nslices ?n ?c] (w0, []) = Inr (w, written)" "Inv (w, written)"
      "\<forall>j < nslices ?n ?c. Goal j (w, written)" by auto
  then have "copySurvivingShards io fs d preserved i fs' = (Inr \<lparr> of_w = w, of_written = written, of_cloned = cloned \<rparr>, fs')"
    by (simp add: copySurvivingShards_def op(1) damaged_shape(3) [OF D i])
  with f(2,3) show ?thesis by (simp add: writer_ok_def survivors_right_def Inv_def Goal_def)
qed

text \<open>All writers: those of the files that need it, each right on the positions \<open>S i\<close>.\<close>

definition writers_hold :: "decoder \<Rightarrow> byte list list \<Rightarrow> (nat \<Rightarrow> nat set) \<Rightarrow> 'w openFile option list \<Rightarrow> bool" where
  "writers_hold d orig S writers \<longleftrightarrow> length writers = length (d_recoverySet d) \<and>
     (\<forall>i < length writers. (writers ! i = None \<longleftrightarrow> was_ok d i) \<and>
       (\<forall>f. writers ! i = Some f \<longrightarrow> writer_ok d orig i f \<and> S i \<subseteq> right_at (orig ! i) (wdata (of_w f))))"

lemma survivors_span: "survivors_right d orig i f \<longleftrightarrow> survivor_spans d orig i \<subseteq> right_at (orig ! i) (wdata (of_w f))"
  by (auto simp: survivors_right_def survivor_spans_def)

lemma copy_files_right:
  assumes ok: "ok fs" and D: "damaged io fs d orig disk" and P: "preserved_right (d_sliceByteCount d) orig preserved"
    and ord: "set ord = {..<length (d_recoverySet d)}"
  shows "\<exists>writers. copy_files io fs d preserved ord = Inr (writers, replicate (length (d_recoverySet d)) None, fs) \<and> writers_hold d orig (survivor_spans d orig) writers"
proof -
  let ?N = "length (d_recoverySet d)"
  define Inv where "Inv = (\<lambda>(writers, errs, fs'). length writers = ?N \<and> errs = replicate ?N (None :: go_error option) \<and> fs' = fs \<and>
    (\<forall>i < ?N. \<forall>f. writers ! i = Some f \<longrightarrow> \<not> was_ok d i \<and> writer_ok d orig i f \<and> survivors_right d orig i f))"
  define Goal where "Goal = (\<lambda>i (writers :: 'w openFile option list, errs :: go_error option list, fs' :: 'fs). was_ok d i \<or> writers ! i \<noteq> None)"
  have "\<exists>s'. foldR (\<lambda>i (writers, errs, fs'). if was_ok d i then Inr (writers, errs, fs')
         else case copySurvivingShards io fs d preserved i fs' of
           (Inl (Panic m), _) \<Rightarrow> Inl (Panic m)
         | (Inl e, fs') \<Rightarrow> Inr (writers, errs[i := Some e], fs')
         | (Inr f, fs') \<Rightarrow> Inr (writers[i := Some f], errs, fs')) ord (replicate ?N None, replicate ?N None, fs) = Inr s' \<and> Inv s' \<and>
      (\<forall>i \<in> set ord. Goal i s') \<and> (\<forall>i. Goal i (replicate ?N None, replicate ?N None, fs) \<longrightarrow> Goal i s')"
  proof (rule foldR_reaches)
    show "Inv (replicate ?N None, replicate ?N None, fs)" by (simp add: Inv_def)
    fix i s assume "i \<in> set ord" and I: "Inv s"
    then have i: "i < ?N" using ord by simp
    obtain writers where s: "s = (writers, replicate ?N None, fs)" and len: "length writers = ?N" using I by (cases s) (auto simp: Inv_def)
    show "\<exists>s'. (\<lambda>(writers, errs, fs'). if was_ok d i then Inr (writers, errs, fs')
         else case copySurvivingShards io fs d preserved i fs' of
           (Inl (Panic m), _) \<Rightarrow> Inl (Panic m)
         | (Inl e, fs') \<Rightarrow> Inr (writers, errs[i := Some e], fs')
         | (Inr f, fs') \<Rightarrow> Inr (writers[i := Some f], errs, fs')) s = Inr s' \<and> Inv s' \<and> Goal i s' \<and> (\<forall>y. Goal y s \<longrightarrow> Goal y s')"
    proof (cases "was_ok d i")
      case True
      then show ?thesis using I by (simp add: s Goal_def)
    next
      case False
      from copySurvivingShards_right [OF ok D i P, of fs] obtain f where
        f: "copySurvivingShards io fs d preserved i fs = (Inr f, fs)" "writer_ok d orig i f" "survivors_right d orig i f" by blast
      then show ?thesis using I False i len
        by (auto simp: s Inv_def Goal_def nth_list_update)
    qed
  qed
  then obtain writers where
    w: "copy_files io fs d preserved ord = Inr (writers, replicate ?N None, fs)" "Inv (writers, replicate ?N None, fs)"
      "\<forall>i < ?N. Goal i (writers, replicate ?N None, fs)"
    unfolding copy_files_def using ord by (auto simp: Inv_def)
  have "writers_hold d orig (survivor_spans d orig) writers"
    unfolding writers_hold_def
  proof (intro conjI allI impI)
    show len: "length writers = ?N" using w(2) by (simp add: Inv_def)
    fix i assume "i < length writers"
    then have i: "i < ?N" using len by simp
    show "writers ! i = None \<longleftrightarrow> was_ok d i" using w(2,3) i by (cases "writers ! i") (auto simp: Inv_def Goal_def)
    fix f assume "writers ! i = Some f"
    then show "writer_ok d orig i f" "survivor_spans d orig i \<subseteq> right_at (orig ! i) (wdata (of_w f))"
      unfolding survivors_span [symmetric] using w(2) i by (auto simp: Inv_def)
  qed
  with w(1) show ?thesis by blast
qed

end

end
