(* ===== verification/RepairSink.thy ===== *)
theory RepairSink
  imports RepairCopy
begin

text \<open>
  The sink of the reconstruction: every range of bytes that is handed over is written to the files the rows
  belong to, with complete consecutive slices in one write, and no other byte that was right is lost.
\<close>

section \<open>The file of a row\<close>

lemma fold_upd_range:
  "fold (\<lambda>j m. if P j then m else m(b + j \<mapsto> i)) [0..<l] m k = (if \<exists>j<l. \<not> P j \<and> k = b + j then Some i else m k)"
  by (induction l) (auto simp: less_Suc_eq)

lemma rowToFile_row:
  assumes D: "damaged io fs d orig disk" and i: "i < length (d_recoverySet d)" and j: "j < nslices (d_sliceByteCount d) (orig ! i)"
  shows "rowToFile d (row_of (d_sliceByteCount d) orig i j) = (if was_ok d i \<or> si_present (shard_at d i j) then None else Some i)"
proof -
  let ?n = "d_sliceByteCount d" and ?N = "length (d_recoverySet d)"
  let ?k = "row_of ?n orig i j"
  let ?step = "\<lambda>i m. if was_ok d i then m
       else fold (\<lambda>j m. if si_present (shard_at d i j) then m
           else m(shard_base d i + j \<mapsto> i)) [0..<length (fi_shardInfos (d_fileIntegrityInfos d ! i))] m"
  note shape = damaged_shape [OF D]
  have lo: "length orig = ?N" by (rule damagedD(3) [OF D])
  have "fold ?step [0..<I] Map.empty ?k = (if i < I \<and> \<not> was_ok d i \<and> \<not> si_present (shard_at d i j) then Some i else None)"
    if "I \<le> ?N" for I
    using that
  proof (induction I)
    case (Suc I)
    then have I: "I < ?N" by simp
    have eq: "?k = row_of ?n orig I b \<longleftrightarrow> I = i \<and> b = j" if "b < nslices ?n (orig ! I)" for b
      using row_of_inject [of i orig j ?n I b] i j I lo that by auto
    have base: "shard_base d I + b = row_of ?n orig I b" for b using shape(4) [of I] I by simp
    have row: "(\<exists>b < nslices ?n (orig ! I). \<not> si_present (shard_at d I b) \<and> ?k = shard_base d I + b) \<longleftrightarrow>
        I = i \<and> \<not> si_present (shard_at d i j)"
      unfolding base using eq j by blast
    show ?case
      using Suc.IH I by (simp add: fold_upd_range shape(3) [OF I] row less_Suc_eq)
  qed simp
  from this [of ?N] show ?thesis using i by (simp add: rowToFile_def shape(1))
qed

definition file_rows :: "decoder \<Rightarrow> nat list \<Rightarrow> nat \<Rightarrow> nat list" where
  "file_rows d rows i = filter (\<lambda>p. rowToFile d (rows ! p) = Some i) [0..<length rows]"

lemma output_groups_eq:
  assumes "\<forall>r \<in> set rows. \<exists>i < length (d_recoverySet d). rowToFile d r = Some i"
  shows "output_groups d rows = Inr (map (file_rows d rows) [0..<length (d_recoverySet d)])"
proof -
  let ?N = "length (d_recoverySet d)"
  let ?f = "\<lambda>(j, row) groups. case rowToFile d row of
       None \<Rightarrow> Inl (ErrorNew ''reconstructed a shard no file was waiting for'')
     | Some i \<Rightarrow> Inr (groups[i := groups ! i @ [j]])"
  have "foldR ?f (map (\<lambda>p. (p, rows ! p)) [0..<m]) (replicate ?N [])
      = Inr (map (\<lambda>i. filter (\<lambda>p. rowToFile d (rows ! p) = Some i) [0..<m]) [0..<?N])" if "m \<le> length rows" for m
    using that
  proof (induction m)
    case 0
    show ?case by (simp add: map_replicate_trivial)
  next
    case (Suc m)
    then have "rows ! m \<in> set rows" by simp
    with assms obtain i where i: "i < ?N" "rowToFile d (rows ! m) = Some i" by blast
    have "(map (\<lambda>i. filter (\<lambda>p. rowToFile d (rows ! p) = Some i) [0..<m]) [0..<?N])
        [i := filter (\<lambda>p. rowToFile d (rows ! p) = Some i) [0..<m] @ [m]]
      = map (\<lambda>i. filter (\<lambda>p. rowToFile d (rows ! p) = Some i) [0..<Suc m]) [0..<?N]"
      using i by (intro nth_equalityI) (auto simp: nth_list_update)
    then show ?case using Suc i by (simp add: foldR_append)
  qed
  from this [of "length rows"] show ?thesis
    unfolding output_groups_def enumerate_upt file_rows_def by simp
qed

section \<open>Runs of consecutive slices\<close>

definition run_of :: "nat list \<Rightarrow> nat list \<Rightarrow> nat \<Rightarrow> nat \<Rightarrow> bool" where
  "run_of rows outs pos fin \<longleftrightarrow> fin \<le> length outs \<and>
     (\<forall>t < fin - pos. outs ! (pos + t) = outs ! pos + t \<and> rows ! (outs ! (pos + t)) = rows ! (outs ! pos) + t)"

lemma group_end_run:
  "pos < fin \<Longrightarrow> run_of rows outs pos fin \<Longrightarrow> run_of rows outs pos (group_end rows outs pos limit fin)"
proof (induction rows outs pos limit fin rule: group_end.induct)
  case (1 rows outs pos limit fin)
  show ?case
  proof (cases "fin < length outs \<and> fin - pos < limit \<and> outs ! fin = outs ! pos + fin - pos \<and>
      rows ! (outs ! fin) = rows ! (outs ! pos) + fin - pos")
    case True
    have "run_of rows outs pos (fin + 1)"
      unfolding run_of_def
    proof (intro conjI allI impI)
      fix t assume "t < fin + 1 - pos"
      then consider "t < fin - pos" | "t = fin - pos" by linarith
      then show "outs ! (pos + t) = outs ! pos + t" "rows ! (outs ! (pos + t)) = rows ! (outs ! pos) + t"
        using True 1(2,3) by (cases; simp add: run_of_def)+
    qed (use True in simp)
    with 1 True show ?thesis by (subst group_end.simps) simp
  next
    case False
    then show ?thesis using 1(3) by (subst group_end.simps) (simp only: if_False)
  qed
qed

lemma write_end_run:
  assumes "pos < length outs"
  shows "run_of (wj_rows job) outs pos (write_end d job outs pos)"
    and "write_end d job outs pos = pos + 1 \<or> wj_off job = 0 \<and> wj_rangeSize job = d_sliceByteCount d"
proof -
  have "run_of (wj_rows job) outs pos (pos + 1)" using assms by (simp add: run_of_def)
  then show "run_of (wj_rows job) outs pos (write_end d job outs pos)" by (simp add: write_end_def group_end_run)
qed (simp add: write_end_def)

lemma slice_concat:
  assumes "\<forall>x \<in> set xs. length x = l" and "a \<le> b" "b \<le> length xs"
  shows "slice (concat xs) (a * l) (b * l) = concat (slice xs a b)"
proof -
  have len: "length (concat ys) = length ys * l" if "\<forall>x \<in> set ys. length x = l" for ys :: "'a list list"
    using that by (induction ys) simp_all
  have parts: "concat xs = concat (take a xs) @ concat (slice xs a b) @ concat (drop b xs)"
  proof -
    have "xs = take a xs @ drop a xs" "drop a xs = take (b - a) (drop a xs) @ drop (b - a) (drop a xs)" by (simp_all only: append_take_drop_id)
    then have "xs = take a xs @ slice xs a b @ drop b xs" using assms(2) by (simp add: slice_def)
    then show ?thesis by (metis concat_append)
  qed
  have "length (concat (take a xs)) = a * l" "length (concat (slice xs a b)) = (b - a) * l"
    using assms by (subst len; auto dest: in_set_takeD in_set_dropD simp: slice_def)+
  then show ?thesis using assms(2) by (simp add: parts slice_def diff_mult_distrib)
qed

lemma pad_slices_concat: "concat (map (\<lambda>t. pad_slice n c ((j + t) * n)) [0..<k]) = pad_slice (k * n) c (j * n)"
proof (induction k)
  case (Suc k)
  then show ?case using pad_slice_append [of "k * n" c "j * n" n] by (simp add: algebra_simps)
qed (simp add: pad_slice_def)

section \<open>Writing a range\<close>

definition range_job :: "byte list list \<Rightarrow> nat list \<Rightarrow> nat \<Rightarrow> nat \<Rightarrow> write_job" where
  "range_job D rows off len = \<lparr> wj_rows = rows, wj_off = off, wj_rangeSize = len,
     wj_data = concat (map (\<lambda>r. slice (D ! r) off (off + len)) rows) \<rparr>"

lemma range_job_sel [simp]:
  "wj_rows (range_job D rows off len) = rows" "wj_off (range_job D rows off len) = off" "wj_rangeSize (range_job D rows off len) = len"
  by (simp_all add: range_job_def)

text \<open>The positions of a range of slice \<open>j\<close>.\<close>

definition range_span :: "nat \<Rightarrow> nat \<Rightarrow> nat \<Rightarrow> nat \<Rightarrow> nat set" where
  "range_span n off len j = {j * n + off..<j * n + off + len}"

lemma range_job_batch:
  assumes i: "i < length orig" and j: "rows ! p = row_of n orig i j" and rows: "\<forall>r \<in> set rows. r < length (true_shards n orig)"
    and len: "off + len \<le> n" and k: "p + k \<le> length rows" "\<And>t. t < k \<Longrightarrow> rows ! (p + t) = rows ! p + t \<and> j + t < nslices n (orig ! i)"
    and run: "k = 1 \<or> off = 0 \<and> len = n"
  shows "slice_at (wj_data (range_job (true_shards n orig) rows off len)) (p * len) ((p + k) * len)
    = Inr (pad_slice (k * len) (orig ! i) (j * n + off))"
proof -
  let ?D = "true_shards n orig" and ?c = "orig ! i"
  let ?xs = "map (\<lambda>r. slice (?D ! r) off (off + len)) rows"
  have lens: "\<forall>x \<in> set ?xs. length x = len" using rows len by (auto simp: length_true_shard)
  have total: "length (concat ?xs) = length rows * len" using rows len
    by (simp add: length_concat comp_def length_true_shard sum_list_triv cong: map_cong)
  have part: "?xs ! (p + t) = pad_slice len ?c ((j + t) * n + off)" if "t < k" for t
  proof -
    have "rows ! (p + t) = row_of n orig i (j + t)" using k(2) [OF that] j by (simp add: row_of_def)
    then have "?D ! (rows ! (p + t)) = pad_slice n ?c ((j + t) * n)" using row_of_nth(2) [OF i] k(2) [OF that] by simp
    then show ?thesis using that k(1) pad_slice_part [OF len, of ?c "(j + t) * n"] by simp
  qed
  have "slice ?xs p (p + k) = map (\<lambda>t. ?xs ! (p + t)) [0..<k]"
    using k(1) by (intro nth_equalityI) (simp_all add: nth_slice)
  also have "\<dots> = map (\<lambda>t. pad_slice len ?c ((j + t) * n + off)) [0..<k]" using part by (intro map_cong) simp_all
  finally have "slice (concat ?xs) (p * len) ((p + k) * len) = concat (map (\<lambda>t. pad_slice len ?c ((j + t) * n + off)) [0..<k])"
    using slice_concat [OF lens, of p "p + k"] k(1) by simp
  also have "\<dots> = pad_slice (k * len) ?c (j * n + off)" using run pad_slices_concat [of n ?c j k] by auto
  finally have "slice (concat ?xs) (p * len) ((p + k) * len) = pad_slice (k * len) ?c (j * n + off)" .
  moreover have "(p + k) * len \<le> length (concat ?xs)" using k(1) by (simp only: total mult_le_mono1)
  ultimately show ?thesis by (simp add: range_job_def add_mult_distrib)
qed

text \<open>Positions \<open>p\<close> of the bank that hold slices of file \<open>i\<close>.\<close>

definition outs_of :: "nat \<Rightarrow> byte list list \<Rightarrow> nat list \<Rightarrow> nat \<Rightarrow> nat list \<Rightarrow> bool" where
  "outs_of n orig rows i outs \<longleftrightarrow> (\<forall>p \<in> set outs. p < length rows \<and> (\<exists>j < nslices n (orig ! i). rows ! p = row_of n orig i j))"

context patch_store
begin

lemma write_group_right:
  assumes D: "damaged io fs d orig disk" and i: "i < length (d_recoverySet d)"
    and len: "0 < len" "off + len \<le> d_sliceByteCount d"
    and rows: "\<forall>r \<in> set rows. r < length (true_shards (d_sliceByteCount d) orig)"
    and outs: "outs_of (d_sliceByteCount d) orig rows i outs"
    and f: "writer_ok d orig i f"
  shows "\<exists>f'. write_group io d (range_job (true_shards (d_sliceByteCount d) orig) rows off len) i outs pos f = Inr f' \<and>
    writer_ok d orig i f' \<and> right_at (orig ! i) (wdata (of_w f)) \<subseteq> right_at (orig ! i) (wdata (of_w f')) \<and>
    (\<forall>q j. pos \<le> q \<longrightarrow> q < length outs \<longrightarrow> j < nslices (d_sliceByteCount d) (orig ! i) \<longrightarrow>
       rows ! (outs ! q) = row_of (d_sliceByteCount d) orig i j \<longrightarrow>
       range_span (d_sliceByteCount d) off len j \<subseteq> right_at (orig ! i) (wdata (of_w f')))"
  using f
proof (induction "length outs - pos" arbitrary: pos f rule: less_induct)
  case less
  let ?n = "d_sliceByteCount d" and ?c = "orig ! i"
  let ?D = "true_shards ?n orig"
  let ?job = "range_job ?D rows off len"
  have info: "di_byteCount (d_recoverySet d ! i) = int (length ?c)" "length ?c < 2 ^ 63"
    using damagedD(8) [OF D i] by (simp_all add: info_right_def)
  have io': "i < length orig" using i damagedD(3) [OF D] by simp
  have base: "shard_base d i + j = row_of ?n orig i j" for j using damaged_shape(4) [OF D] i by simp
  show ?case
  proof (cases "pos < length outs")
    case False
    then have "write_group io d ?job i outs pos f = Inr f" by (subst write_group.simps) simp
    with False less.prems show ?thesis by (intro exI [of _ f]) simp
  next
    case True
    define fin where "fin = write_end d ?job outs pos"
    define k where "k = fin - pos"
    define p where "p = outs ! pos"
    have fin: "pos < fin" "run_of rows outs pos fin" "fin = pos + 1 \<or> off = 0 \<and> len = ?n"
      using write_end_gt [of pos d ?job outs] write_end_run [OF True, where d = d and job = ?job] by (simp_all add: fin_def range_job_def)
    have k: "0 < k" "pos + k = fin" "fin \<le> length outs" "k = 1 \<or> off = 0 \<and> len = ?n"
      using fin by (auto simp: k_def run_of_def)
    have run: "outs ! (pos + t) = p + t" "rows ! (p + t) = rows ! p + t" if "t < k" for t
      using fin(2) that by (auto simp: run_of_def k_def p_def)
    have own: "p + t < length rows" "\<exists>j < nslices ?n ?c. rows ! (p + t) = row_of ?n orig i j" if "t < k" for t
    proof -
      have "pos + t < length outs" using that k(2,3) by linarith
      then have "p + t \<in> set outs" using run(1) [OF that] nth_mem [of "pos + t" outs] by simp
      then show "p + t < length rows" "\<exists>j < nslices ?n ?c. rows ! (p + t) = row_of ?n orig i j"
        using outs unfolding outs_of_def by blast+
    qed
    from own(2) [of 0] k(1) obtain j0 where j0: "j0 < nslices ?n ?c" "rows ! p = row_of ?n orig i j0" by auto
    have slices: "rows ! (p + t) = rows ! p + t \<and> j0 + t < nslices ?n ?c" if "t < k" for t
    proof -
      from own(2) [OF that] obtain j where j: "j < nslices ?n ?c" "rows ! (p + t) = row_of ?n orig i j" by blast
      have "row_of ?n orig i j = row_of ?n orig i j0 + t" using run(2) [OF that] j(2) j0(2) by simp
      then have "j = j0 + t" by (simp add: row_of_def)
      with j(1) run(2) [OF that] show ?thesis by simp
    qed
    have "p + k \<le> length rows" using own(1) [of "k - 1"] k(1) by simp
    from range_job_batch [OF io' j0(2) rows len(2) this slices k(4)]
    have batch: "slice_at (wj_data ?job) (p * len) ((p + fin - pos) * len) = Inr (pad_slice (k * len) ?c (j0 * ?n + off))"
      using k(2) by (simp add: algebra_simps flip: k(2))
    have row: "rows ! p - shard_base d i = j0" using base [of j0] j0(2) by simp
    define f1 where "f1 = (if off = 0 \<and> of_cloned f
            then f\<lparr> of_written := of_written f @ map (\<lambda>q. rows ! (outs ! q) - shard_base d i) [pos..<fin] \<rparr> else f)"
    have w1: "of_w f1 = of_w f" by (simp add: f1_def)
    have "rows ! (outs ! q) - shard_base d i < nslices ?n ?c" if "q \<in> {pos..<fin}" for q
    proof -
      have t: "q - pos < k" "pos + (q - pos) = q" using that k(2) by auto
      have "outs ! q = p + (q - pos)" using run(1) [OF t(1)] by (simp only: t(2))
      moreover have "rows ! (p + (q - pos)) - shard_base d i = j0 + (q - pos)"
        using slices [OF t(1)] j0(2) base [of j0] by simp
      ultimately show ?thesis using slices [OF t(1)] by simp
    qed
    then have ok1: "writer_ok d orig i f1" using less.prems by (auto simp: writer_ok_def f1_def)
    from writeShardRange_right [of "of_w f1" ?c "j0 * ?n + off" "k * len"] ok1 info(2) obtain w where
      w: "writeShardRange io (of_w f1) (j0 * ?n + off) (pad_slice (k * len) ?c (j0 * ?n + off)) (int (length ?c)) = Inr w"
        "wpath w = wpath (of_w f1)" "length (wdata w) = length ?c"
        "right_at ?c (wdata (of_w f1)) \<union> {j0 * ?n + off..<j0 * ?n + off + k * len} \<subseteq> right_at ?c (wdata w)"
      by (auto simp: writer_ok_def)
    let ?f2 = "f1\<lparr> of_w := w \<rparr>"
    have ok2: "writer_ok d orig i ?f2" using ok1 w(2,3) by (simp add: writer_ok_def)
    have "length outs - fin < length outs - pos" using fin(1) True by simp
    from less.hyps [OF this ok2] obtain f' where
      f': "write_group io d ?job i outs fin ?f2 = Inr f'" "writer_ok d orig i f'"
        "right_at ?c (wdata w) \<subseteq> right_at ?c (wdata (of_w f'))"
        "\<forall>q j. fin \<le> q \<longrightarrow> q < length outs \<longrightarrow> j < nslices ?n ?c \<longrightarrow> rows ! (outs ! q) = row_of ?n orig i j \<longrightarrow>
          range_span ?n off len j \<subseteq> right_at ?c (wdata (of_w f'))" by auto
    have "write_group io d ?job i outs pos f =
        bindR (slice_at (wj_data ?job) (p * len) ((p + fin - pos) * len)) (\<lambda>batch.
        bindR (writeShardRange io (of_w f1) ((rows ! p - shard_base d i) * ?n + off) batch (di_byteCount (d_recoverySet d ! i))) (\<lambda>w.
        write_group io d ?job i outs fin (f1\<lparr> of_w := w \<rparr>)))"
      by (subst write_group.simps) (simp only: True if_True Let_def range_job_sel f1_def fin_def p_def)
    then have "write_group io d ?job i outs pos f = write_group io d ?job i outs fin ?f2"
      by (simp only: batch row w(1) info(1) bindR_simps)
    moreover have "range_span ?n off len j \<subseteq> right_at ?c (wdata (of_w f'))"
      if q: "pos \<le> q" "q < length outs" "j < nslices ?n ?c" "rows ! (outs ! q) = row_of ?n orig i j" for q j
    proof (cases "fin \<le> q")
      case True
      with f'(4) q show ?thesis by blast
    next
      case False
      then have t: "q - pos < k" "pos + (q - pos) = q" using q(1) k(2) by auto
      have "outs ! q = p + (q - pos)" using run(1) [OF t(1)] by (simp only: t(2))
      then have "row_of ?n orig i j = row_of ?n orig i j0 + (q - pos)" using slices [OF t(1)] q(4) j0(2) by simp
      then have j: "j = j0 + (q - pos)" by (simp add: row_of_def)
      have "range_span ?n off len j \<subseteq> {j0 * ?n + off..<j0 * ?n + off + k * len}"
      proof (cases "k = 1")
        case True
        then show ?thesis using t(1) by (simp add: range_span_def j)
      next
        case False
        then have "off = 0" "len = ?n" using k(4) by auto
        moreover have "(q - pos) * ?n + ?n \<le> k * ?n" using t(1) by (metis Suc_leI add.commute mult_Suc mult_le_mono1)
        ultimately show ?thesis by (auto simp: range_span_def j algebra_simps)
      qed
      then show ?thesis using w(4) f'(3) by blast
    qed
    ultimately show ?thesis using f'(1,2,3) w(4) w1 by (intro exI [of _ f']) auto
  qed
qed

end

section \<open>The missing rows\<close>

definition missing_span :: "decoder \<Rightarrow> byte list list \<Rightarrow> nat \<Rightarrow> nat \<Rightarrow> nat \<Rightarrow> nat set" where
  "missing_span d orig off len i =
     \<Union> (range_span (d_sliceByteCount d) off len ` {j. j < nslices (d_sliceByteCount d) (orig ! i) \<and> \<not> si_present (shard_at d i j)})"

lemma was_ok_present:
  assumes "damaged io fs d orig disk" and "i < length (d_recoverySet d)" and "was_ok d i" and "j < nslices (d_sliceByteCount d) (orig ! i)"
  shows "si_present (shard_at d i j)"
  using assms(3,4) damaged_shape(3) [OF assms(1,2)]
  by (auto simp: was_ok_def file_integrity_ok_def allShardsOK_def shard_ok_def list_all_iff)

lemma missing_row:
  assumes D: "damaged io fs d orig disk" and i: "i < length (d_recoverySet d)" and j: "j < nslices (d_sliceByteCount d) (orig ! i)"
  shows "row_of (d_sliceByteCount d) orig i j \<in> set (missing (presence d)) \<longleftrightarrow> \<not> si_present (shard_at d i j)"
proof -
  have "i < length orig" using i damagedD(3) [OF D] by simp
  from row_of_nth(1) [OF this j] show ?thesis
    using damaged_shape(5) [OF D] damaged_shape(6) [OF D i j] by (simp add: avail_missing(2) presence_None)
qed

lemma missing_row_ex:
  assumes D: "damaged io fs d orig disk" and r: "r \<in> set (missing (presence d))"
  obtains i j where "i < length (d_recoverySet d)" "j < nslices (d_sliceByteCount d) (orig ! i)" "r = row_of (d_sliceByteCount d) orig i j"
    "\<not> si_present (shard_at d i j)" "\<not> was_ok d i" "rowToFile d r = Some i"
proof -
  have "r < length (true_shards (d_sliceByteCount d) orig)"
    using r damaged_shape(5) [OF D] by (simp add: avail_missing(2))
  then obtain i j where ij: "i < length orig" "j < nslices (d_sliceByteCount d) (orig ! i)" "r = row_of (d_sliceByteCount d) orig i j"
    by (rule row_of_ex)
  have i: "i < length (d_recoverySet d)" using ij(1) damagedD(3) [OF D] by simp
  have np: "\<not> si_present (shard_at d i j)" using r missing_row [OF D i ij(2)] ij(3) by simp
  then have "\<not> was_ok d i" using was_ok_present [OF D i _ ij(2)] by blast
  with np show thesis using that [OF i ij(2,3)] rowToFile_row [OF D i ij(2)] ij(3) by simp
qed

lemma file_rows_outs:
  assumes D: "damaged io fs d orig disk"
  shows "outs_of (d_sliceByteCount d) orig (missing (presence d)) i (file_rows d (missing (presence d)) i)"
  unfolding outs_of_def
proof
  fix p assume "p \<in> set (file_rows d (missing (presence d)) i)"
  then have p: "p < length (missing (presence d))" "rowToFile d (missing (presence d) ! p) = Some i" by (simp_all add: file_rows_def)
  from missing_row_ex [OF D nth_mem [OF p(1)]] obtain i' j where
    "j < nslices (d_sliceByteCount d) (orig ! i')" "missing (presence d) ! p = row_of (d_sliceByteCount d) orig i' j"
    "rowToFile d (missing (presence d) ! p) = Some i'" .
  with p show "p < length (missing (presence d)) \<and> (\<exists>j < nslices (d_sliceByteCount d) (orig ! i).
      missing (presence d) ! p = row_of (d_sliceByteCount d) orig i j)" by auto
qed

lemma file_rows_mem:
  assumes D: "damaged io fs d orig disk" and i: "i < length (d_recoverySet d)" and j: "j < nslices (d_sliceByteCount d) (orig ! i)"
    and np: "\<not> si_present (shard_at d i j)"
  obtains q where "q < length (file_rows d (missing (presence d)) i)"
    "missing (presence d) ! (file_rows d (missing (presence d)) i ! q) = row_of (d_sliceByteCount d) orig i j" and "\<not> was_ok d i"
proof -
  have "row_of (d_sliceByteCount d) orig i j \<in> set (missing (presence d))" using missing_row [OF D i j] np by blast
  then obtain p where p: "p < length (missing (presence d))" "missing (presence d) ! p = row_of (d_sliceByteCount d) orig i j"
    by (auto simp: in_set_conv_nth)
  have nok: "\<not> was_ok d i" using was_ok_present [OF D i _ j] np by blast
  then have "p \<in> set (file_rows d (missing (presence d)) i)"
    using p rowToFile_row [OF D i j] np by (simp add: file_rows_def)
  then obtain q where "q < length (file_rows d (missing (presence d)) i)" "file_rows d (missing (presence d)) i ! q = p"
    by (auto simp: in_set_conv_nth)
  with p nok that show thesis by blast
qed

context patch_store
begin

lemma write_jobs_right:
  assumes D: "damaged io fs d orig disk" and W: "writers_hold d orig S writers"
    and len: "0 < len" "off + len \<le> d_sliceByteCount d"
  shows "\<exists>writers'. write_jobs io d (range_job (true_shards (d_sliceByteCount d) orig) (missing (presence d)) off len)
      (map (file_rows d (missing (presence d))) [0..<length (d_recoverySet d)]) writers = Inr writers' \<and>
    writers_hold d orig (\<lambda>i. S i \<union> missing_span d orig off len i) writers'"
proof -
  let ?n = "d_sliceByteCount d" and ?N = "length (d_recoverySet d)" and ?rows = "missing (presence d)"
  let ?job = "range_job (true_shards ?n orig) ?rows off len" and ?groups = "map (file_rows d ?rows) [0..<?N]"
  define Inv where "Inv = (\<lambda>(writers, errs). writers_hold d orig S writers \<and> errs = replicate ?N (None :: go_error option))"
  define Goal where "Goal = (\<lambda>i (writers :: 'w openFile option list, errs :: go_error option list).
    i < ?N \<longrightarrow> (\<forall>f. writers ! i = Some f \<longrightarrow> missing_span d orig off len i \<subseteq> right_at (orig ! i) (wdata (of_w f))))"
  have lw: "length writers = ?N" using W by (simp add: writers_hold_def)
  have rows: "\<forall>r \<in> set ?rows. r < length (true_shards ?n orig)"
    using damaged_shape(5) [OF D] by (simp add: avail_missing(2))
  have "\<exists>s'. foldR (\<lambda>i (writers, errs). if length (?groups ! i) = 0 then Inr (writers, errs)
         else case writers ! i of
           None \<Rightarrow> Inl (Panic ''nil pointer dereference'')
         | Some f \<Rightarrow> (case write_group io d ?job i (?groups ! i) 0 f of
             Inl (Panic m) \<Rightarrow> Inl (Panic m)
           | Inl e \<Rightarrow> Inr (writers, errs[i := Some e])
           | Inr f' \<Rightarrow> Inr (writers[i := Some f'], errs))) [0..<?N] (writers, replicate ?N None) = Inr s' \<and> Inv s' \<and>
      (\<forall>i \<in> set [0..<?N]. Goal i s') \<and> (\<forall>i. Goal i (writers, replicate ?N None) \<longrightarrow> Goal i s')"
  proof (rule foldR_reaches)
    show "Inv (writers, replicate ?N None)" using W by (simp add: Inv_def)
    fix i s assume "i \<in> set [0..<?N]" and "Inv s"
    then have i: "i < ?N" by simp
    obtain ws where s: "s = (ws, replicate ?N None)" using \<open>Inv s\<close> by (cases s) (simp add: Inv_def)
    have H: "writers_hold d orig S ws" using \<open>Inv s\<close> by (simp add: Inv_def s)
    have lws: "length ws = ?N" using H by (simp add: writers_hold_def)
    have g: "?groups ! i = file_rows d ?rows i" using i by simp
    show "\<exists>s'. (\<lambda>(writers, errs). if length (?groups ! i) = 0 then Inr (writers, errs)
         else case writers ! i of
           None \<Rightarrow> Inl (Panic ''nil pointer dereference'')
         | Some f \<Rightarrow> (case write_group io d ?job i (?groups ! i) 0 f of
             Inl (Panic m) \<Rightarrow> Inl (Panic m)
           | Inl e \<Rightarrow> Inr (writers, errs[i := Some e])
           | Inr f' \<Rightarrow> Inr (writers[i := Some f'], errs))) s = Inr s' \<and> Inv s' \<and> Goal i s' \<and> (\<forall>y. Goal y s \<longrightarrow> Goal y s')"
    proof (cases "file_rows d ?rows i = []")
      case True
      have "missing_span d orig off len i = {}"
      proof -
        have "si_present (shard_at d i j)" if j: "j < nslices ?n (orig ! i)" for j
        proof (rule ccontr)
          assume "\<not> si_present (shard_at d i j)"
          from file_rows_mem [OF D i j this] True show False by (metis length_0_conv not_less_zero)
        qed
        then show ?thesis by (auto simp: missing_span_def)
      qed
      then have "Goal i s" by (simp add: Goal_def s)
      with \<open>Inv s\<close> True show ?thesis by (intro exI [of _ s]) (simp add: s g)
    next
      case False
      then obtain p where "p \<in> set (file_rows d ?rows i)" by (cases "file_rows d ?rows i") auto
      then have "\<exists>j < nslices ?n (orig ! i). \<not> si_present (shard_at d i j)"
        using file_rows_outs [OF D, of i] missing_row [OF D i] nth_mem [of p ?rows] unfolding outs_of_def by metis
      then have "\<not> was_ok d i" using was_ok_present [OF D i] by blast
      then obtain f where f: "ws ! i = Some f" using H i lws by (cases "ws ! i") (auto simp: writers_hold_def)
      then have fok: "writer_ok d orig i f" "S i \<subseteq> right_at (orig ! i) (wdata (of_w f))" using H i lws by (auto simp: writers_hold_def)
      from write_group_right [OF D i len rows file_rows_outs [OF D] fok(1), of 0] obtain f' where
        f': "write_group io d ?job i (file_rows d ?rows i) 0 f = Inr f'" "writer_ok d orig i f'"
          "right_at (orig ! i) (wdata (of_w f)) \<subseteq> right_at (orig ! i) (wdata (of_w f'))"
        and spans: "\<forall>q j. 0 \<le> q \<longrightarrow> q < length (file_rows d ?rows i) \<longrightarrow> j < nslices ?n (orig ! i) \<longrightarrow>
          ?rows ! (file_rows d ?rows i ! q) = row_of ?n orig i j \<longrightarrow> range_span ?n off len j \<subseteq> right_at (orig ! i) (wdata (of_w f'))"
        by (elim exE conjE)
      have span: "range_span ?n off len j \<subseteq> right_at (orig ! i) (wdata (of_w f'))" if "q < length (file_rows d ?rows i)"
        "j < nslices ?n (orig ! i)" "?rows ! (file_rows d ?rows i ! q) = row_of ?n orig i j" for q j
        using spans that by simp
      have "missing_span d orig off len i \<subseteq> right_at (orig ! i) (wdata (of_w f'))"
        unfolding missing_span_def
      proof (rule UN_least)
        fix j assume "j \<in> {j. j < nslices ?n (orig ! i) \<and> \<not> si_present (shard_at d i j)}"
        then have j: "j < nslices ?n (orig ! i)" "\<not> si_present (shard_at d i j)" by simp_all
        from file_rows_mem [OF D i j] obtain q where "q < length (file_rows d ?rows i)"
          "?rows ! (file_rows d ?rows i ! q) = row_of ?n orig i j" .
        with span j(1) show "range_span ?n off len j \<subseteq> right_at (orig ! i) (wdata (of_w f'))" by blast
      qed
      then have "Goal i (ws[i := Some f'], replicate ?N None)" using i lws by (simp add: Goal_def)
      moreover have "Goal y (ws[i := Some f'], replicate ?N None)" if "Goal y s" for y
        using that i lws f f'(3) by (auto simp: Goal_def s nth_list_update)
      moreover have "Inv (ws[i := Some f'], replicate ?N None)"
        using H i lws f f'(2,3) fok(2) by (auto simp: Inv_def writers_hold_def nth_list_update)
      ultimately show ?thesis using False f f'(1) by (intro exI [of _ "(ws[i := Some f'], replicate ?N None)"]) (simp add: s g)
    qed
  qed
  then obtain ws where
    ws: "foldR (\<lambda>i (writers, errs). if length (?groups ! i) = 0 then Inr (writers, errs)
         else case writers ! i of
           None \<Rightarrow> Inl (Panic ''nil pointer dereference'')
         | Some f \<Rightarrow> (case write_group io d ?job i (?groups ! i) 0 f of
             Inl (Panic m) \<Rightarrow> Inl (Panic m)
           | Inl e \<Rightarrow> Inr (writers, errs[i := Some e])
           | Inr f' \<Rightarrow> Inr (writers[i := Some f'], errs))) [0..<?N] (writers, replicate ?N None) = Inr (ws, replicate ?N None)"
    and hold: "writers_hold d orig S ws" and goal: "\<forall>i < ?N. Goal i (ws, replicate ?N None)" by (auto simp: Inv_def)
  have none: "first_error (replicate m None) = Inr ()" for m by (induction m) (simp_all add: first_error_def)
  have "write_jobs io d ?job ?groups writers = Inr ws"
    using ws by (simp add: write_jobs_def lw none)
  moreover have "writers_hold d orig (\<lambda>i. S i \<union> missing_span d orig off len i) ws"
    using hold goal by (auto simp: writers_hold_def Goal_def)
  ultimately show ?thesis by blast
qed

text \<open>The sink keeps the groups of rows after its first call.\<close>

definition sink_ready :: "decoder \<Rightarrow> nat list list option \<Rightarrow> bool" where
  "sink_ready d groups \<longleftrightarrow> (case groups of None \<Rightarrow> True
     | Some gs \<Rightarrow> gs = map (file_rows d (missing (presence d))) [0..<length (d_recoverySet d)])"

lemma repair_sink_right:
  assumes D: "damaged io fs d orig disk" and W: "writers_hold d orig S writers" and G: "sink_ready d groups"
    and len: "0 < len" "off + len \<le> d_sliceByteCount d"
    and data: "data = concat (map (\<lambda>r. slice (true_shards (d_sliceByteCount d) orig ! r) off (off + len)) (missing (presence d)))"
  shows "\<exists>writers' groups'. repair_sink io d (missing (presence d)) off len data (writers, groups) = Inr (writers', groups') \<and>
    writers_hold d orig (\<lambda>i. S i \<union> missing_span d orig off len i) writers' \<and> sink_ready d groups'"
proof -
  let ?rows = "missing (presence d)"
  let ?gs = "map (file_rows d ?rows) [0..<length (d_recoverySet d)]"
  have "\<forall>r \<in> set ?rows. \<exists>i < length (d_recoverySet d). rowToFile d r = Some i"
    using missing_row_ex [OF D] by metis
  from output_groups_eq [OF this] have "(case groups of Some groups \<Rightarrow> Inr groups | None \<Rightarrow> output_groups d ?rows) = Inr ?gs"
    using G by (simp add: sink_ready_def split: option.splits)
  moreover from write_jobs_right [OF D W len] obtain writers' where
    "write_jobs io d (range_job (true_shards (d_sliceByteCount d) orig) ?rows off len) ?gs writers = Inr writers'"
    "writers_hold d orig (\<lambda>i. S i \<union> missing_span d orig off len i) writers'" by blast
  ultimately show ?thesis
    by (intro exI [of _ writers'] exI [of _ "Some ?gs"]) (simp add: repair_sink_def data range_job_def [symmetric] sink_ready_def)
qed

end

end
