(* ===== verification/RepairRun.thy ===== *)
theory RepairRun
  imports RepairSink
begin

text \<open>
  The repair of a damaged set: the reconstruction hands every range of the missing slices to the sink, the
  writers then hold the original files, the commits put them in place, the check accepts them, and the
  recovery blocks agree with the files.
\<close>

section \<open>When a repair is possible\<close>

text \<open>
  There are as many recovery blocks as missing slices, the first of them with consecutive exponents, and they
  are stored where the decoder has found them; the reconstruction is not one for the transform.
\<close>

definition repairable :: "('fs, 'w) fileIO \<Rightarrow> 'fs \<Rightarrow> int \<Rightarrow> decoder \<Rightarrow> byte list list \<Rightarrow> bool" where
  "repairable io fs phys d orig \<longleftrightarrow> (let n = d_sliceByteCount d; D = true_shards n orig; k = length (missing (presence d)) in
     orig \<noteq> [] \<and> d_parityPresent d \<noteq> [] \<and> length D \<le> length generators \<and> length D * n < 2 ^ 63 \<and>
     (\<exists>s. chosen_blocks d = [s..<s + k] \<and> s + k \<le> 65536) \<and> matrix_plan (length D) k (fold_budget phys (d_memoryBudget d)) \<and>
     (\<forall>e \<in> set (chosen_blocks d). e < length (d_parityLocations d) \<and> block_stored io fs (d_parityLocations d ! e) (parity_block n D e)))"

lemma chunk_span:
  assumes "0 < c" and "x < n"
  shows "\<exists>off \<in> set (strided n c). off \<le> x \<and> x < off + min c (n - off)"
proof
  have le: "x div c * c \<le> x" by simp
  have "x < x div c * c + c" using dividend_less_div_times [OF assms(1), of x] by (simp add: add.commute)
  moreover have "x < a + min c (n - a)" if "a \<le> x" "x < a + c" for a using that assms(2) by linarith
  ultimately show "x div c * c \<le> x \<and> x < x div c * c + min c (n - x div c * c)" using le by blast
  show "x div c * c \<in> set (strided n c)"
    unfolding set_strided [OF assms(1)] using le assms(2) le_less_trans by blast
qed

lemma missing_spans_cover:
  assumes "0 < n" "0 < c" "j < nslices n (orig ! i)" "\<not> si_present (shard_at d i j)" "n = d_sliceByteCount d"
  shows "slice_span n j \<subseteq> (\<Union>off \<in> set (strided n c). missing_span d orig off (min c (n - off)) i)"
proof
  fix x assume "x \<in> slice_span n j"
  then have x: "x - j * n < n" "j * n \<le> x" by (auto simp: slice_span_def)
  from chunk_span [OF assms(2) x(1)] obtain off where
    off: "off \<in> set (strided n c)" "off \<le> x - j * n" "x - j * n < off + min c (n - off)" by blast
  then have "x \<in> range_span n off (min c (n - off)) j" using x(2) by (auto simp: range_span_def)
  then have "x \<in> missing_span d orig off (min c (n - off)) i" using assms(3-5) by (auto simp: missing_span_def)
  with off(1) show "x \<in> (\<Union>off \<in> set (strided n c). missing_span d orig off (min c (n - off)) i)" by blast
qed

context patch_store
begin

lemma reconstruct_ranges:
  assumes D: "damaged io fs d orig disk"
    and fold: "\<And>off len. 0 < len \<Longrightarrow> even off \<Longrightarrow> even len \<Longrightarrow> off + len \<le> d_sliceByteCount d \<Longrightarrow>
      plan_Fold e sch plan (int len) (load_input io fs d preserved (avail (presence d)) (recon_inputs d) off len)
        (replicate (length (missing (presence d))) (replicate len 0))
      = Inr (plan, map (\<lambda>r. slice (true_shards (d_sliceByteCount d) orig ! r) off (off + len)) (missing (presence d)))"
    and small: "length (true_shards (d_sliceByteCount d) orig) * d_sliceByteCount d < 2 ^ 63"
    and some: "missing (presence d) \<noteq> []" and c: "0 < c" "even c"
    and W: "writers_hold d orig S writers" "sink_ready d groups"
    and offs: "set offs \<subseteq> set (strided (d_sliceByteCount d) c)"
  shows "\<exists>writers' groups'. foldR (reconstruct_range e sch io fs d preserved (avail (presence d)) (missing (presence d)) (recon_inputs d)
      (repair_sink io d) c) offs (plan, writers, groups) = Inr (plan, writers', groups') \<and>
    writers_hold d orig (\<lambda>i. S i \<union> (\<Union>off \<in> set offs. missing_span d orig off (min c (d_sliceByteCount d - off)) i)) writers'"
  using W offs
proof (induction offs arbitrary: S writers groups)
  case Nil
  then show ?case by simp
next
  case (Cons off offs)
  let ?n = "d_sliceByteCount d" and ?k = "length (missing (presence d))"
  let ?D = "true_shards ?n orig"
  have n: "0 < ?n" "even ?n" using damagedD(1,2) [OF D] by simp_all
  have "off \<in> {q * c |q. q * c < ?n}" using Cons.prems(3) unfolding set_strided [OF c(1)] by simp
  then have off: "off < ?n" "even off" using c(2) by auto
  define len where "len = min c (?n - off)"
  have len: "(if off + c > ?n then ?n - off else c) = len" "0 < len" "even len" "off + len \<le> ?n" "len \<le> ?n"
    using off c n(2) by (auto simp: len_def min_def)
  have kD: "?k \<le> length ?D" using avail_missing(5) [of "presence d"] damaged_shape(5) [OF D] by simp
  have k: "0 < ?k" using some by simp
  have "\<not> len > (2 ^ 63 - 1) div ?k"
  proof -
    have "len * ?k \<le> ?n * length ?D" using len(5) kD by (rule mult_le_mono)
    then have "len * ?k \<le> 2 ^ 63 - 1" using small by (simp add: mult.commute)
    then show ?thesis using k by (simp add: less_eq_div_iff_mult_less_eq not_less)
  qed
  from repair_sink_right [OF D Cons.prems(1,2) len(2,4) refl] obtain writers1 groups1 where
    w1: "repair_sink io d (missing (presence d)) off len
        (concat (map (\<lambda>r. slice (?D ! r) off (off + len)) (missing (presence d)))) (writers, groups) = Inr (writers1, groups1)"
      "writers_hold d orig (\<lambda>i. S i \<union> missing_span d orig off len i) writers1" "sink_ready d groups1" by blast
  have step: "reconstruct_range e sch io fs d preserved (avail (presence d)) (missing (presence d)) (recon_inputs d)
      (repair_sink io d) c off (plan, writers, groups) = Inr (plan, writers1, groups1)"
    using \<open>\<not> len > (2 ^ 63 - 1) div ?k\<close> fold [OF len(2) off(2) len(3,4)] w1(1)
    unfolding reconstruct_range_def prod.case len(1) Let_def by simp
  from Cons.IH [OF w1(2,3)] Cons.prems(3) obtain writers' groups' where
    "foldR (reconstruct_range e sch io fs d preserved (avail (presence d)) (missing (presence d)) (recon_inputs d)
      (repair_sink io d) c) offs (plan, writers1, groups1) = Inr (plan, writers', groups')"
    "writers_hold d orig (\<lambda>i. (S i \<union> missing_span d orig off len i) \<union>
      (\<Union>off \<in> set offs. missing_span d orig off (min c (?n - off)) i)) writers'" by auto
  then show ?case using step by (simp add: len_def Un_assoc)
qed

lemma reconstructTo_right:
  assumes ok: "ok fs" and e: "env_ok e" and D: "damaged io fs d orig disk" and R: "repairable io fs phys d orig"
    and P: "preserved_right (d_sliceByteCount d) orig preserved" and W: "writers_hold d orig S writers"
  shows "\<exists>rows writers' groups. reconstructTo e sch phys io fs d preserved (repair_sink io d) (writers, None) = Inr (rows, writers', groups) \<and>
    writers_hold d orig (\<lambda>i. S i \<union> \<Union> (slice_span (d_sliceByteCount d) `
      {j. j < nslices (d_sliceByteCount d) (orig ! i) \<and> \<not> si_present (shard_at d i j)})) writers'"
proof -
  let ?n = "d_sliceByteCount d" and ?k = "length (missing (presence d))" and ?av = "avail (presence d)"
  let ?D = "true_shards ?n orig" and ?budget = "fold_budget phys (d_memoryBudget d)" and ?g = "d_numGoroutines d"
  note shape = damaged_shape [OF D]
  have n: "0 < ?n" "even ?n" using damagedD(1,2) [OF D] by simp_all
  from R obtain s where s: "chosen_blocks d = [s..<s + ?k]" "s + ?k \<le> 65536" by (auto simp: repairable_def Let_def)
  have R': "orig \<noteq> []" "d_parityPresent d \<noteq> []" "length ?D \<le> length generators" "length ?D * ?n < 2 ^ 63" "matrix_plan (length ?D) ?k ?budget"
    "\<forall>e \<in> set (chosen_blocks d). e < length (d_parityLocations d) \<and> block_stored io fs (d_parityLocations d ! e) (parity_block ?n ?D e)"
    using R by (simp_all add: repairable_def Let_def)
  have lc: "length (chosen_blocks d) = ?k" by (simp add: s(1))
  have lp: "length (presence d) = length ?D" using shape(5) by simp
  have "decoder_shards d \<noteq> []"
  proof -
    have "0 < length (d_recoverySet d)" using R'(1) damagedD(3) [OF D] by (metis length_greater_0_conv)
    moreover from this have "0 < nslices ?n (orig ! 0)" using damagedD(8) [OF D, of 0] n(1) by (simp add: info_right_def less_nslices)
    ultimately have "row_of ?n orig 0 0 < length ?D" using row_of_nth(1) [of 0 orig 0 ?n] damagedD(3) [OF D] by simp
    then show ?thesis using shape(5) by auto
  qed
  note cl = classification [OF this R'(2) lc]
  show ?thesis
  proof (cases "missing (presence d) = []")
    case True
    have "si_present (shard_at d i j)" if "i < length (d_recoverySet d)" "j < nslices ?n (orig ! i)" for i j
      using missing_row [OF D that] True by simp
    then have "writers_hold d orig (\<lambda>i. S i \<union> \<Union> (slice_span ?n ` {j. j < nslices ?n (orig ! i) \<and> \<not> si_present (shard_at d i j)})) writers"
      using W by (auto simp: writers_hold_def)
    then show ?thesis using cl True by (simp add: reconstructTo_def)
  next
    case False
    have li: "length (recon_inputs d) = length (presence d)"
      using avail_missing(5) [of "presence d"] lc by (simp add: recon_inputs_def)
    have fit: "?k + s \<le> 65536" "length (presence d) \<le> length generators" "matrix_plan (length (presence d)) ?k ?budget"
      using s(2) R'(3,5) lp by simp_all
    have es: "[s..<s + ?k] = chosen_blocks d" by (simp add: s(1))
    obtain plan where
      plan: "NewPAR2ReconstructionPlan e (int (length (presence d))) (map int ?av) (map int (missing (presence d))) (map int (chosen_blocks d)) ?g ?budget = Inr plan"
      "rp_transform plan = None" "rp_closed plan = False" "rp_outputs plan = ?k"
      and fold: "\<And>X len next_fn sch. length X = length (presence d) \<Longrightarrow> \<forall>x \<in> set X. length x = len \<Longrightarrow> 0 < len \<Longrightarrow> even len \<Longrightarrow>
        delivers next_fn len (recon_input X (exponent_matrix (length (presence d)) (chosen_blocks d)) len ?av [0..<?k]) \<Longrightarrow>
        plan_Fold e sch plan (int len) next_fn (replicate ?k (replicate len 0)) = Inr (plan, map (\<lambda>l. X ! l) (missing (presence d)))"
      using plan_folds [OF e False fit(1,2) lp fit(3), unfolded es, of ?g thesis] by blast
    define c where "c = FoldChunkSize (accelerated e) (rp_budget plan) (int ?n) (int ?k)"
    have "2 \<le> int ?n" "int ?n mod 2 = 0" using n by presburger+
    note cr = FoldChunkSize_range [OF this, of "accelerated e" "rp_budget plan" "int ?k", folded c_def]
    have c: "0 < nat c" "even (nat c)" using cr by (auto simp: even_nat_iff)
    have chunk: "ChunkSize e plan (int ?n) = Inr (plan, c)"
      using plan(2,3,4) \<open>2 \<le> int ?n\<close> \<open>int ?n mod 2 = 0\<close> by (simp add: ChunkSize_def c_def)
    have range: "plan_Fold e sch plan (int len) (load_input io fs d preserved ?av (recon_inputs d) off len) (replicate ?k (replicate len 0))
        = Inr (plan, map (\<lambda>r. slice (?D ! r) off (off + len)) (missing (presence d)))"
      if len: "0 < len" "even off" "even len" "off + len \<le> ?n" for off len
    proof -
      let ?X = "map (\<lambda>x. slice x off (off + len)) ?D"
      have lD: "\<And>j. j < length ?D \<Longrightarrow> length (?D ! j) = ?n" by (rule length_true_shard)
      have av: "\<forall>j \<in> set ?av. j < length ?D" using lp by (simp add: avail_missing(1))
      have eq: "recon_input ?X (exponent_matrix (length ?D) (chosen_blocks d)) len ?av [0..<?k]
          = map (\<lambda>x. slice x off (off + len)) (recon_input ?D (exponent_matrix (length ?D) (chosen_blocks d)) ?n ?av [0..<?k])"
        by (rule recon_input_range [OF lD av n(2) len(2,3,4)])
      have "delivers (load_input io fs d preserved ?av (recon_inputs d) off len) len
          (recon_input ?X (exponent_matrix (length (presence d)) (chosen_blocks d)) len ?av [0..<?k])"
        unfolding lp eq by (rule loads_range [OF ok D P len(1,4) lc R'(6)])
      moreover have "\<forall>x \<in> set ?X. length x = len" using lD len(4) by (auto simp: in_set_conv_nth)
      ultimately have "plan_Fold e sch plan (int len) (load_input io fs d preserved ?av (recon_inputs d) off len) (replicate ?k (replicate len 0))
          = Inr (plan, map (\<lambda>l. ?X ! l) (missing (presence d)))"
        using lp len(1,3) by (intro fold) simp_all
      moreover have "map (\<lambda>l. ?X ! l) (missing (presence d)) = map (\<lambda>r. slice (?D ! r) off (off + len)) (missing (presence d))"
        using lp by (intro map_cong) (simp_all add: avail_missing(2))
      ultimately show ?thesis by simp
    qed
    have "sink_ready d None" by (simp add: sink_ready_def)
    from reconstruct_ranges [OF D range R'(4) False c W this order_refl] obtain writers' groups where
      run: "foldR (reconstruct_range e sch io fs d preserved ?av (missing (presence d)) (recon_inputs d)
          (repair_sink io d) (nat c)) (strided ?n (nat c)) (plan, writers, None) = Inr (plan, writers', groups)"
      and hold: "writers_hold d orig (\<lambda>i. S i \<union> (\<Union>off \<in> set (strided ?n (nat c)). missing_span d orig off (min (nat c) (?n - off)) i)) writers'"
      by blast
    have "reconstructTo e sch phys io fs d preserved (repair_sink io d) (writers, None) = Inr (missing (presence d), writers', groups)"
      using False plan(1) li chunk run by (simp add: reconstructTo_def cl)
    moreover have "writers_hold d orig (\<lambda>i. S i \<union> \<Union> (slice_span ?n `
        {j. j < nslices ?n (orig ! i) \<and> \<not> si_present (shard_at d i j)})) writers'"
      unfolding writers_hold_def
    proof (intro conjI allI impI)
      show "length writers' = length (d_recoverySet d)" using hold by (simp add: writers_hold_def)
      fix i assume i: "i < length writers'"
      then show "writers' ! i = None \<longleftrightarrow> was_ok d i" using hold by (simp add: writers_hold_def)
      fix f assume f: "writers' ! i = Some f"
      with hold i have "writer_ok d orig i f" and sub: "S i \<union> (\<Union>off \<in> set (strided ?n (nat c)). missing_span d orig off (min (nat c) (?n - off)) i)
          \<subseteq> right_at (orig ! i) (wdata (of_w f))" by (simp_all add: writers_hold_def)
      then show "writer_ok d orig i f" by blast
      have "slice_span ?n j \<subseteq> right_at (orig ! i) (wdata (of_w f))" if "j < nslices ?n (orig ! i)" "\<not> si_present (shard_at d i j)" for j
        using missing_spans_cover [OF n(1) c(1) that refl] sub by blast
      with sub show "S i \<union> \<Union> (slice_span ?n ` {j. j < nslices ?n (orig ! i) \<and> \<not> si_present (shard_at d i j)})
          \<subseteq> right_at (orig ! i) (wdata (of_w f))" by blast
    qed
    ultimately show ?thesis by blast
  qed
qed

text \<open>All of a file is right when its survivors and its missing slices are.\<close>

definition writers_done :: "decoder \<Rightarrow> byte list list \<Rightarrow> 'w openFile option list \<Rightarrow> bool" where
  "writers_done d orig writers \<longleftrightarrow> length writers = length (d_recoverySet d) \<and>
     (\<forall>i < length writers. (writers ! i = None \<longleftrightarrow> was_ok d i) \<and>
       (\<forall>f. writers ! i = Some f \<longrightarrow> writer_ok d orig i f \<and> wdata (of_w f) = orig ! i))"

lemma writers_complete:
  assumes D: "damaged io fs d orig disk"
    and W: "writers_hold d orig (\<lambda>i. survivor_spans d orig i \<union> \<Union> (slice_span (d_sliceByteCount d) `
      {j. j < nslices (d_sliceByteCount d) (orig ! i) \<and> \<not> si_present (shard_at d i j)})) writers"
  shows "writers_done d orig writers"
  unfolding writers_done_def
proof (intro conjI allI impI)
  let ?n = "d_sliceByteCount d"
  have n: "0 < ?n" using damagedD(1) [OF D] .
  show "length writers = length (d_recoverySet d)" using W by (simp add: writers_hold_def)
  fix i assume i: "i < length writers"
  then show "writers ! i = None \<longleftrightarrow> was_ok d i" using W by (simp add: writers_hold_def)
  fix f assume f: "writers ! i = Some f"
  with W i have wok: "writer_ok d orig i f" and sub: "survivor_spans d orig i \<union> \<Union> (slice_span ?n `
      {j. j < nslices ?n (orig ! i) \<and> \<not> si_present (shard_at d i j)}) \<subseteq> right_at (orig ! i) (wdata (of_w f))"
    by (simp_all add: writers_hold_def)
  show "writer_ok d orig i f" by (rule wok)
  show "wdata (of_w f) = orig ! i"
  proof (rule right_at_all)
    show "length (wdata (of_w f)) = length (orig ! i)" using wok by (simp add: writer_ok_def)
    show "{..<length (orig ! i)} \<subseteq> right_at (orig ! i) (wdata (of_w f))"
    proof
      fix x assume "x \<in> {..<length (orig ! i)}"
      then have "x div ?n < nslices ?n (orig ! i)" using less_nslices [OF n] le_less_trans [of "x div ?n * ?n" x] by simp
      moreover have "x \<in> slice_span ?n (x div ?n)"
        using dividend_less_div_times [OF n, of x] by (simp add: slice_span_def add.commute)
      ultimately have "x \<in> survivor_spans d orig i \<union> \<Union> (slice_span ?n ` {j. j < nslices ?n (orig ! i) \<and> \<not> si_present (shard_at d i j)})"
        by (auto simp: survivor_spans_def)
      with sub show "x \<in> right_at (orig ! i) (wdata (of_w f))" by blast
    qed
  qed
qed

end

end
