(* ===== verification/RepairDone.thy ===== *)
theory RepairDone
  imports RepairRun
begin

text \<open>
  The end of a repair: the commits, the check of what was written, and the double check of the recovery
  blocks; and the repair as a whole, which brings the original files back.
\<close>

section \<open>Commits\<close>

text \<open>The paths of the set name different files.\<close>

definition paths_apart :: "(gostring \<Rightarrow> gostring) \<Rightarrow> decoder \<Rightarrow> bool" where
  "paths_apart k d \<longleftrightarrow> distinct (map (\<lambda>i. k (set_path d i)) [0..<length (d_recoverySet d)])"

lemma paths_apart_eq:
  "paths_apart k d \<Longrightarrow> i < length (d_recoverySet d) \<Longrightarrow> j < length (d_recoverySet d) \<Longrightarrow>
    k (set_path d i) = k (set_path d j) \<longleftrightarrow> i = j"
  by (auto simp: paths_apart_def distinct_map inj_on_def)

text \<open>Only the files that were not intact are written.\<close>

definition restored :: "('fs, 'w) fileIO \<Rightarrow> (gostring \<Rightarrow> gostring) \<Rightarrow> 'fs \<Rightarrow> 'fs \<Rightarrow> decoder \<Rightarrow> byte list list \<Rightarrow> bool" where
  "restored io k fs fs' d orig \<longleftrightarrow>
     (\<forall>i < length (d_recoverySet d). io_ReadFile io fs' (set_path d i) = Inr (orig ! i)) \<and>
     (\<forall>q. (\<forall>i < length (d_recoverySet d). \<not> was_ok d i \<longrightarrow> k q \<noteq> k (set_path d i)) \<longrightarrow> io_ReadFile io fs' q = io_ReadFile io fs q)"

context patch_store
begin

lemma commit_files_right:
  assumes ok: "ok fs" and D: "damaged io fs d orig disk" and W: "writers_done d orig writers"
    and ord: "set ord = {..<length (d_recoverySet d)}" and apart: "paths_apart (key fs) d"
  shows "\<exists>fs'. commit_files io writers ord fs = Inr (fs', replicate (length (d_recoverySet d)) None) \<and> ok fs' \<and> key fs' = key fs \<and>
    restored io (key fs) fs fs' d orig"
proof -
  let ?N = "length (d_recoverySet d)"
  have lw: "length writers = ?N" using W by (simp add: writers_done_def)
  define Inv where "Inv = (\<lambda>(fs', errs). ok fs' \<and> key fs' = key fs \<and> errs = replicate ?N (None :: go_error option) \<and>
    (\<forall>q. (\<forall>i < ?N. \<not> was_ok d i \<longrightarrow> key fs q \<noteq> key fs (set_path d i)) \<longrightarrow> io_ReadFile io fs' q = io_ReadFile io fs q))"
  define Goal where "Goal = (\<lambda>i (fs' :: 'fs, errs :: go_error option list). i < ?N \<longrightarrow> \<not> was_ok d i \<longrightarrow> io_ReadFile io fs' (set_path d i) = Inr (orig ! i))"
  have "\<exists>s'. foldR (\<lambda>i (fs, errs). case writers ! i of
       None \<Rightarrow> Inr (fs, errs)
     | Some f \<Rightarrow> (case io_close io True (of_w f) fs of
         Inl (Panic m) \<Rightarrow> Inl (Panic m)
       | Inl e \<Rightarrow> Inr (fs, errs[i := Some e])
       | Inr fs' \<Rightarrow> Inr (fs', errs))) ord (fs, replicate ?N None) = Inr s' \<and> Inv s' \<and>
      (\<forall>i \<in> set ord. Goal i s') \<and> (\<forall>i. Goal i (fs, replicate ?N None) \<longrightarrow> Goal i s')"
  proof (rule foldR_reaches)
    show "Inv (fs, replicate ?N None)" using ok by (simp add: Inv_def)
    fix i s assume "i \<in> set ord" and I: "Inv s"
    then have i: "i < ?N" using ord by simp
    obtain fs1 where s: "s = (fs1, replicate ?N None)" using I by (cases s) (simp add: Inv_def)
    have 1: "ok fs1" "key fs1 = key fs" using I by (simp_all add: Inv_def s)
    show "\<exists>s'. (\<lambda>(fs, errs). case writers ! i of
       None \<Rightarrow> Inr (fs, errs)
     | Some f \<Rightarrow> (case io_close io True (of_w f) fs of
         Inl (Panic m) \<Rightarrow> Inl (Panic m)
       | Inl e \<Rightarrow> Inr (fs, errs[i := Some e])
       | Inr fs' \<Rightarrow> Inr (fs', errs))) s = Inr s' \<and> Inv s' \<and> Goal i s' \<and> (\<forall>y. Goal y s \<longrightarrow> Goal y s')"
    proof (cases "writers ! i")
      case None
      then have "was_ok d i" using W i lw by (simp add: writers_done_def)
      with None I show ?thesis by (simp add: s Goal_def)
    next
      case (Some f)
      then have f: "wpath (of_w f) = set_path d i" "wdata (of_w f) = orig ! i" "\<not> was_ok d i"
        using W i lw by (auto simp: writers_done_def writer_ok_def)
      from commit [OF 1(1), of "of_w f"] obtain fs2 where
        2: "io_close io True (of_w f) fs1 = Inr fs2" "ok fs2" "key fs2 = key fs1"
        and rd: "io_ReadFile io fs2 q = (if key fs q = key fs (set_path d i) then Inr (orig ! i) else io_ReadFile io fs1 q)" for q
        by (auto simp: f 1(2))
      have "Inv (fs2, replicate ?N None)" using I 1 2 i f(3) by (auto simp: Inv_def s rd)
      moreover have "Goal i (fs2, replicate ?N None)" by (simp add: Goal_def rd)
      moreover have "Goal y (fs2, replicate ?N None)" if "Goal y s" for y
        using that paths_apart_eq [OF apart _ i, of y] by (auto simp: Goal_def s rd)
      ultimately show ?thesis using Some 2(1) by (intro exI [of _ "(fs2, replicate ?N None)"]) (simp add: s)
    qed
  qed
  then obtain fs' where
    f: "commit_files io writers ord fs = Inr (fs', replicate ?N None)" "Inv (fs', replicate ?N None)" "\<forall>i < ?N. Goal i (fs', replicate ?N None)"
    unfolding commit_files_def lw using ord by (auto simp: Inv_def)
  have "io_ReadFile io fs' (set_path d i) = Inr (orig ! i)" if i: "i < ?N" for i
  proof (cases "was_ok d i")
    case True
    have "\<forall>j < ?N. \<not> was_ok d j \<longrightarrow> key fs (set_path d i) \<noteq> key fs (set_path d j)"
      using True paths_apart_eq [OF apart i] by auto
    then have "io_ReadFile io fs' (set_path d i) = io_ReadFile io fs (set_path d i)" using f(2) by (simp add: Inv_def)
    then show ?thesis using damagedD(9) [OF D i] damagedD(10) [OF D i True] by simp
  qed (use f(3) i in \<open>simp add: Goal_def\<close>)
  with f(1,2) show ?thesis by (auto simp: restored_def Inv_def)
qed

section \<open>The check of the written files\<close>

lemma check_accepts:
  assumes ok': "ok fs'" and D: "damaged io fs d orig disk" and W: "writers_done d orig writers"
    and R: "restored io k fs fs' d orig"
  shows "checkWrittenFiles wsched ssched io fs' d (check_paths d writers) (map (check_rows cp) writers)
    = Some (Inr (replicate (length (d_recoverySet d)) None))"
proof -
  let ?n = "d_sliceByteCount d" and ?N = "length (d_recoverySet d)"
  let ?paths = "check_paths d writers" and ?rows = "map (check_rows cp) writers"
  have n: "0 < ?n" by (rule damagedD(1) [OF D])
  have len: "length ?paths = ?N" "length ?rows = length ?paths" "length (map Some orig) = length ?paths" "length writers = ?N" "length orig = ?N"
    using W damagedD(3) [OF D] by (simp_all add: check_paths_def writers_done_def)
  have path: "?paths ! i = set_path d i" if "i < ?N" "?paths ! i \<noteq> []" for i
    using that by (simp add: check_paths_def split: if_splits)
  have "opens_as (io_OpenRead io fs' (?paths ! i)) (map Some orig ! i)" if "i < length ?paths" "?paths ! i \<noteq> []" for i
  proof -
    have i: "i < ?N" using that(1) len(1) by simp
    have "io_ReadFile io fs' (set_path d i) = Inr (orig ! i)" using R i by (simp add: restored_def)
    from opens_file(1) [OF ok' this] show ?thesis using i len(5) path [OF i that(2)] by simp
  qed
  with checkWrittenFiles_ok [OF n len(2,3), of io fs' wsched ssched] obtain errs where
    errs: "checkWrittenFiles wsched ssched io fs' d ?paths ?rows = Some (Inr errs)" "length errs = ?N"
    and iff: "\<And>i. i < ?N \<Longrightarrow> errs ! i = None \<longleftrightarrow> ?paths ! i = [] \<or>
      (\<exists>f. map Some orig ! i = Some f \<and> written_ok ?n (d_recoverySet d ! i) (?rows ! i) f)"
    unfolding len(1) by blast
  have "errs ! i = None" if i: "i < ?N" for i
  proof (cases "writers ! i")
    case None
    then show ?thesis using iff [OF i] i by (simp add: check_paths_def)
  next
    case (Some f)
    have info: "info_right ?n (d_recoverySet d ! i) (orig ! i)" by (rule damagedD(8) [OF D i])
    have good: "slice_good ?n (d_recoverySet d ! i) (orig ! i) q" "q * ?n < length (orig ! i)" if "q < nslices ?n (orig ! i)" for q
      using info that less_nslices [OF n] by (simp_all add: info_right_def slice_good_def)
    have rows: "q < nslices ?n (orig ! i)" if "check_rows cp (Some f) = Some rs" "q \<in> set rs" for rs q
      using that W i Some len(4) by (auto simp: check_rows_def writers_done_def writer_ok_def split: if_splits)
    have "written_ok ?n (d_recoverySet d ! i) (check_rows cp (Some f)) (orig ! i)"
      unfolding written_ok_def
    proof (intro conjI)
      show "int (length (orig ! i)) = di_byteCount (d_recoverySet d ! i)" "sixteenKHash (orig ! i) = di_sixteenKHash (d_recoverySet d ! i)"
        using info by (simp_all add: info_right_def)
      show "if asks_all (d_recoverySet d ! i) (check_rows cp (Some f)) then \<forall>q. q * ?n < length (orig ! i) \<longrightarrow> slice_good ?n (d_recoverySet d ! i) (orig ! i) q
          else \<forall>q \<in> set (the (check_rows cp (Some f))). q * ?n \<le> length (orig ! i) \<and> slice_good ?n (d_recoverySet d ! i) (orig ! i) q"
      proof (cases "check_rows cp (Some f)")
        case None
        then show ?thesis using good less_nslices [OF n] by (simp add: asks_all_def)
      next
        case (Some rs)
        have "\<forall>q \<in> set rs. q * ?n \<le> length (orig ! i) \<and> slice_good ?n (d_recoverySet d ! i) (orig ! i) q"
          using good rows [OF Some] by (auto intro: less_imp_le)
        then show ?thesis using good less_nslices [OF n] by (simp add: Some)
      qed
    qed
    then show ?thesis using iff [OF i] i Some len(4,5) by simp
  qed
  then have "errs = replicate ?N None" using errs(2) by (intro nth_equalityI) simp_all
  with errs(1) show ?thesis by simp
qed

end

end
