(* ===== verification/RepairRestores.thy ===== *)
theory RepairRestores
  imports RepairDone
begin

text \<open>
  The double check of the recovery blocks after a repair, and the repair as a whole: it ends without an
  error, and every file of the set reads as the original.
\<close>

section \<open>The decoder after a repair\<close>

definition repaired_infos :: "decoder \<Rightarrow> fileIntegrityInfo list" where
  "repaired_infos d = map (\<lambda>i. if was_ok d i then d_fileIntegrityInfos d ! i
     else whole_file (d_sliceByteCount d) (d_fileIntegrityInfos d ! i)) [0..<length (d_fileIntegrityInfos d)]"

lemma report_written_none:
  assumes "\<forall>i \<in> set is. errs ! i = None"
  shows "\<exists>events. report_written writers errs is d = (events, map (set_path d) (filter (\<lambda>i. writers ! i \<noteq> None) is), None,
    d\<lparr> d_fileIntegrityInfos := fold (\<lambda>i infos. if writers ! i = None then infos
      else infos[i := whole_file (d_sliceByteCount d) (infos ! i)]) is (d_fileIntegrityInfos d) \<rparr>)"
  using assms
proof (induction "is" arbitrary: d)
  case (Cons i "is")
  show ?case
  proof (cases "writers ! i")
    case None
    with Cons show ?thesis by simp
  next
    case (Some f)
    let ?d1 = "d\<lparr> d_fileIntegrityInfos := (d_fileIntegrityInfos d)[i := whole_file (d_sliceByteCount d) (d_fileIntegrityInfos d ! i)] \<rparr>"
    have path: "set_path ?d1 = set_path d" by (simp add: getFilePath_def fun_eq_iff)
    have sel: "d_sliceByteCount ?d1 = d_sliceByteCount d" by simp
    from Cons.IH [of ?d1, unfolded sel path] Cons.prems show ?thesis using Some by (auto simp: Let_def)
  qed
qed simp

lemma fold_whole:
  "I \<le> length infos \<Longrightarrow> fold (\<lambda>i infos. if P i then infos else infos[i := whole_file n (infos ! i)]) [0..<I] infos
    = map (\<lambda>i. if i < I \<and> \<not> P i then whole_file n (infos ! i) else infos ! i) [0..<length infos]"
proof (induction I)
  case 0
  show ?case by (simp add: map_nth)
next
  case (Suc I)
  then show ?case by (auto simp: less_Suc_eq nth_list_update intro!: nth_equalityI)
qed

context patch_store
begin

lemma report_written_right:
  assumes D: "damaged io fs d orig disk" and W: "writers_done d orig writers"
  shows "\<exists>events. report_written writers (replicate (length (d_recoverySet d)) None) [0..<length (d_recoverySet d)] d
    = (events, map (set_path d) (filter (\<lambda>i. \<not> was_ok d i) [0..<length (d_recoverySet d)]), None,
       d\<lparr> d_fileIntegrityInfos := repaired_infos d \<rparr>)"
proof -
  let ?N = "length (d_recoverySet d)"
  have li: "length (d_fileIntegrityInfos d) = ?N" by (rule damaged_shape(1) [OF D])
  have w: "writers ! i = None \<longleftrightarrow> was_ok d i" if "i < ?N" for i using W that by (simp add: writers_done_def)
  have "\<forall>i \<in> set [0..<?N]. replicate ?N None ! i = (None :: go_error option)" by simp
  from report_written_none [OF this, of writers d] obtain events where
    r: "report_written writers (replicate ?N None) [0..<?N] d = (events, map (set_path d) (filter (\<lambda>i. writers ! i \<noteq> None) [0..<?N]), None,
      d\<lparr> d_fileIntegrityInfos := fold (\<lambda>i infos. if writers ! i = None then infos
        else infos[i := whole_file (d_sliceByteCount d) (infos ! i)]) [0..<?N] (d_fileIntegrityInfos d) \<rparr>)" by blast
  have "filter (\<lambda>i. writers ! i \<noteq> None) [0..<?N] = filter (\<lambda>i. \<not> was_ok d i) [0..<?N]"
    by (rule filter_cong) (use w in auto)
  moreover have "fold (\<lambda>i infos. if writers ! i = None then infos
      else infos[i := whole_file (d_sliceByteCount d) (infos ! i)]) [0..<?N] (d_fileIntegrityInfos d) = repaired_infos d"
  proof -
    have "(if i < ?N \<and> writers ! i \<noteq> None then whole_file (d_sliceByteCount d) (d_fileIntegrityInfos d ! i) else d_fileIntegrityInfos d ! i)
        = (if was_ok d i then d_fileIntegrityInfos d ! i else whole_file (d_sliceByteCount d) (d_fileIntegrityInfos d ! i))"
      if "i \<in> set [0..<length (d_fileIntegrityInfos d)]" for i
    proof -
      have "i < ?N" using that li by simp
      with w [OF this] show ?thesis by (cases "was_ok d i") (simp_all only: if_True if_False simp_thms)
    qed
    then show ?thesis
      unfolding repaired_infos_def fold_whole [OF li [symmetric, THEN eq_imp_le], of "\<lambda>i. writers ! i = None"] by (rule map_cong [OF refl])
  qed
  ultimately show ?thesis using r by simp
qed

end

text \<open>
  Every slice of an intact file was first found in an intact file.  Otherwise the double check reads it from
  where it is no longer.
\<close>

definition sources_intact :: "decoder \<Rightarrow> byte list list \<Rightarrow> bool" where
  "sources_intact d orig \<longleftrightarrow> (\<forall>i < length (d_recoverySet d). was_ok d i \<longrightarrow> (\<forall>j < nslices (d_sliceByteCount d) (orig ! i).
     \<exists>s < length (d_recoverySet d). was_ok d s \<and> sl_fileID (si_foundAt (shard_at d i j)) = di_fileID (d_recoverySet d ! s)))"

lemma repaired_damaged:
  assumes D: "damaged io fs d orig disk" and S: "sources_intact d orig" and R: "restored io k fs fs' d orig"
  shows "damaged io fs' (d\<lparr> d_fileIntegrityInfos := repaired_infos d \<rparr>) orig (map Some orig)"
    and "i < length (d_recoverySet d) \<Longrightarrow> j < nslices (d_sliceByteCount d) (orig ! i) \<Longrightarrow>
      si_present (shard_at (d\<lparr> d_fileIntegrityInfos := repaired_infos d \<rparr>) i j)"
proof -
  let ?n = "d_sliceByteCount d" and ?ds = "d_recoverySet d"
  let ?d' = "d\<lparr> d_fileIntegrityInfos := repaired_infos d \<rparr>"
  note shape = damaged_shape [OF D]
  have n: "0 < ?n" by (rule damagedD(1) [OF D])
  have lo: "length orig = length ?ds" by (rule damagedD(3) [OF D])
  have at: "repaired_infos d ! i = (if was_ok d i then d_fileIntegrityInfos d ! i else whole_file ?n (d_fileIntegrityInfos d ! i))"
    if "i < length ?ds" for i using that by (simp add: repaired_infos_def shape(1))
  have whole: "shard_at ?d' i j = \<lparr> si_present = True, si_foundAt = \<lparr> sl_fileID = di_fileID (?ds ! i), sl_start = j * ?n \<rparr>,
      si_locations = [\<lparr> sl_fileID = di_fileID (?ds ! i), sl_start = j * ?n \<rparr>] \<rparr>"
    if "i < length ?ds" "j < nslices ?n (orig ! i)" "\<not> was_ok d i" for i j
    using that by (simp add: at whole_file_def shape(2,3) Let_def)
  have kept: "shard_at ?d' i j = shard_at d i j" if "i < length ?ds" "was_ok d i" for i j using that by (simp add: at)
  show present: "si_present (shard_at ?d' i j)" if "i < length ?ds" "j < nslices ?n (orig ! i)" for i j
    using was_ok_present [OF D that(1) _ that(2)] whole [OF that] kept [OF that(1)] by (cases "was_ok d i") simp_all
  have path: "set_path ?d' i = set_path d i" for i by (simp add: getFilePath_def)
  have "infos_ok ?ds (repaired_infos d)"
    unfolding infos_ok_def
  proof (intro conjI allI impI)
    show "length (repaired_infos d) = length ?ds" by (simp add: repaired_infos_def shape(1))
    fix i assume i: "i < length ?ds"
    show "fi_fileID (repaired_infos d ! i) = di_fileID (?ds ! i)" using i by (simp add: at whole_file_def shape(2))
    show "length (fi_shardInfos (repaired_infos d ! i)) = length (di_checksumPairs (?ds ! i))"
      using i infos_okD(3) [OF damagedD(7) [OF D] i] by (simp add: at whole_file_def)
    fix j assume "j < length (di_checksumPairs (?ds ! i))"
    then have j: "j < nslices ?n (orig ! i)" and jc: "j < length (di_checksumPairs (?ds ! i))"
      using damagedD(8) [OF D i] by (simp_all add: info_right_def)
    show "let sh = fi_shardInfos (repaired_infos d ! i) ! j in (si_present sh \<longleftrightarrow> si_locations sh \<noteq> []) \<and>
        (si_present sh \<longrightarrow> si_foundAt sh \<in> set (si_locations sh))"
      using whole [OF i j] kept [OF i, of j] infos_okD(4,5) [OF damagedD(7) [OF D] i jc]
      by (cases "was_ok d i") (simp_all add: Let_def)
  qed
  moreover have "\<exists>s p f. s < length ?ds \<and> map Some orig ! s = Some f \<and> p < length f \<and> pad_slice ?n f p = pad_slice ?n (orig ! i) (j * ?n) \<and>
      si_foundAt (shard_at ?d' i j) = \<lparr> sl_fileID = di_fileID (?ds ! s), sl_start = p \<rparr>"
    if i: "i < length ?ds" and j: "j < nslices ?n (orig ! i)" for i j
  proof (cases "was_ok d i")
    case False
    have jn: "j * ?n < length (orig ! i)" using j less_nslices [OF n] by blast
    show ?thesis
      by (rule exI [of _ i], rule exI [of _ "j * ?n"], rule exI [of _ "orig ! i"])
        (use jn whole [OF i j False] i lo in simp)
  next
    case True
    from damaged_found [OF D i j was_ok_present [OF D i True j]] obtain s p f where
      f: "s < length ?ds" "disk ! s = Some f" "p < length f" "pad_slice ?n f p = pad_slice ?n (orig ! i) (j * ?n)"
        "si_foundAt (shard_at d i j) = \<lparr> sl_fileID = di_fileID (?ds ! s), sl_start = p \<rparr>" .
    from S i j True obtain s' where s': "s' < length ?ds" "was_ok d s'" "sl_fileID (si_foundAt (shard_at d i j)) = di_fileID (?ds ! s')"
      unfolding sources_intact_def by blast
    then have "s' = s" using f(1,5) nth_eq_iff_index_eq [OF damagedD(5) [OF D], of s' s] by simp
    then have "orig ! s = f" using damagedD(10) [OF D s'(1,2)] f(2) by simp
    then show ?thesis
      by - (rule exI [of _ s], rule exI [of _ p], rule exI [of _ f], use f lo kept [OF i True, of j] in simp)
  qed
  moreover have "io_ReadFile io fs' (set_path d i) = (case map Some orig ! i of None \<Rightarrow> Inl OsErrNotExist | Some f \<Rightarrow> Inr f)"
    if "i < length ?ds" for i using R that lo by (simp add: restored_def)
  ultimately show "damaged io fs' ?d' orig (map Some orig)"
    using damagedD(1-6,8) [OF D] unfolding damaged_def Let_def path by (simp add: lo)
qed

section \<open>The double check\<close>

text \<open>Every recovery block the decoder knows of is stored where it says.\<close>

definition blocks_stored :: "('fs, 'w) fileIO \<Rightarrow> 'fs \<Rightarrow> decoder \<Rightarrow> byte list list \<Rightarrow> bool" where
  "blocks_stored io fs d orig \<longleftrightarrow> length (d_parityPresent d) \<le> 65536 \<and>
     (\<forall>e < length (d_parityPresent d). d_parityPresent d ! e \<longrightarrow> e < length (d_parityLocations d) \<and>
        block_stored io fs (d_parityLocations d ! e) (parity_block (d_sliceByteCount d) (true_shards (d_sliceByteCount d) orig) e))"

lemma range_parity:
  assumes X: "\<And>j. j < length X \<Longrightarrow> length (X ! j) = n" and rng: "even n" "even off" "even len" "off + len \<le> n"
  shows "apply_spec (exponent_matrix (length X) rows) (map (\<lambda>x. slice x off (off + len)) X) (length rows) len
    = map (\<lambda>r. slice (parity_block n X r) off (off + len)) rows"
proof -
  let ?P = "exponent_matrix (length X) rows" and ?us = "[0..<length rows]"
  have "apply_spec ?P (map (\<lambda>x. slice x off (off + len)) X) (length rows) len
      = recon_input (map (\<lambda>x. slice x off (off + len)) X) ?P len [] ?us"
    by (simp add: apply_spec_def recon_input_def)
  also have "\<dots> = map (\<lambda>x. slice x off (off + len)) (recon_input X ?P n [] ?us)"
    by (rule recon_input_range [OF X _ rng]) simp_all
  also have "\<dots> = map (\<lambda>i. slice (parity_block n X (rows ! i)) off (off + len)) ?us"
    using mrow_exponents [of _ rows X n] by (simp add: recon_input_def)
  also have "\<dots> = map (\<lambda>r. slice (parity_block n X r) off (off + len)) (map ((!) rows) ?us)" by simp
  finally show ?thesis by (simp only: map_nth)
qed

context patch_store
begin

lemma compare_blocks_right:
  assumes ok: "ok fs" and rows: "\<forall>r \<in> set rows. r < length (d_parityLocations d) \<and> block_stored io fs (d_parityLocations d ! r) (b r)"
    and b: "\<And>r. length (b r) = n" and len: "0 < len" "off + len \<le> n"
  shows "compare_blocks io fs d off len (map (\<lambda>r. slice (b r) off (off + len)) rows) rows = Inr ()"
proof -
  have "\<exists>s'. foldR (\<lambda>(i, row) _. bindR (index_at (d_parityLocations d) row) (\<lambda>loc.
     if pl_path loc = [] \<or> int off \<ge> pl_length loc then Inr ()
     else let fin = (if int (off + len) > pl_length loc then nat (pl_length loc) else off + len) in
       bindR (readAbs io fs (pl_path loc) (pl_offset loc + int off) (fin - off)) (\<lambda>stored.
       bindR (index_at (map (\<lambda>r. slice (b r) off (off + len)) rows) i) (\<lambda>o_i. bindR (slice_at o_i 0 (fin - off)) (\<lambda>part.
       check (part = stored) (ErrorNew ''repair failed'')))))) (enumerate 0 rows) () = Inr s' \<and> True"
  proof (rule foldR_total [where P = "\<lambda>_. True"])
    fix x and u :: unit assume x: "x \<in> set (enumerate 0 rows)"
    then obtain i where i: "x = (i, rows ! i)" "i < length rows" by (auto simp: enumerate_upt)
    let ?r = "rows ! i"
    let ?loc = "d_parityLocations d ! ?r"
    have st: "?r < length (d_parityLocations d)" "block_stored io fs ?loc (b ?r)" using rows nth_mem [OF i(2)] by auto
    have loc: "pl_length ?loc = int n" "pl_path ?loc \<noteq> []" using st(2) b by (simp_all add: block_stored_def)
    have rd: "readAbs io fs (pl_path ?loc) (pl_offset ?loc + int off) len = Inr (slice (b ?r) off (off + len))"
      by (rule read_block [OF ok st(2) len(1)]) (use b len in simp)
    have lr: "length (slice (b ?r) off (off + len)) = len" using b len by simp
    have sl: "slice_at (slice (b ?r) off (off + len)) 0 len = Inr (slice (b ?r) off (off + len))"
      using lr slice_at_simps [of 0 len "slice (b ?r) off (off + len)"] slice_full [of "slice (b ?r) off (off + len)"] by simp
    have "\<not> int off \<ge> int n" "\<not> int (off + len) > int n" using len by simp_all
    then have "(\<lambda>(i, row) _. bindR (index_at (d_parityLocations d) row) (\<lambda>loc.
     if pl_path loc = [] \<or> int off \<ge> pl_length loc then Inr ()
     else let fin = (if int (off + len) > pl_length loc then nat (pl_length loc) else off + len) in
       bindR (readAbs io fs (pl_path loc) (pl_offset loc + int off) (fin - off)) (\<lambda>stored.
       bindR (index_at (map (\<lambda>r. slice (b r) off (off + len)) rows) i) (\<lambda>o_i. bindR (slice_at o_i 0 (fin - off)) (\<lambda>part.
       check (part = stored) (ErrorNew ''repair failed'')))))) x u = Inr ()"
      using st(1) loc i rd sl by (simp add: Let_def)
    then show "\<exists>s'. (\<lambda>(i, row) _. bindR (index_at (d_parityLocations d) row) (\<lambda>loc.
     if pl_path loc = [] \<or> int off \<ge> pl_length loc then Inr ()
     else let fin = (if int (off + len) > pl_length loc then nat (pl_length loc) else off + len) in
       bindR (readAbs io fs (pl_path loc) (pl_offset loc + int off) (fin - off)) (\<lambda>stored.
       bindR (index_at (map (\<lambda>r. slice (b r) off (off + len)) rows) i) (\<lambda>o_i. bindR (slice_at o_i 0 (fin - off)) (\<lambda>part.
       check (part = stored) (ErrorNew ''repair failed'')))))) x u = Inr s' \<and> True" by blast
  qed simp
  then show ?thesis unfolding compare_blocks_def by simp
qed

lemma verifyParity_right:
  assumes ok: "ok fs" and e: "env_ok e" and D: "damaged io fs d orig disk"
    and present: "\<And>i j. i < length (d_recoverySet d) \<Longrightarrow> j < nslices (d_sliceByteCount d) (orig ! i) \<Longrightarrow> si_present (shard_at d i j)"
    and g: "0 < d_numGoroutines d" and some: "orig \<noteq> []"
    and small: "length (true_shards (d_sliceByteCount d) orig) \<le> length generators" and B: "blocks_stored io fs d orig"
  shows "verifyParity e phys io fs d = Inr ()"
proof -
  let ?n = "d_sliceByteCount d"
  let ?D = "true_shards ?n orig"
  note shape = damaged_shape [OF D]
  have n: "0 < ?n" "even ?n" using damagedD(1,2) [OF D] by simp_all
  define rows where "rows = filter (\<lambda>i. d_parityPresent d ! i) [0..<length (d_parityPresent d)]"
  have lens: "\<And>j. j < length ?D \<Longrightarrow> length (?D ! j) = ?n" by (rule length_true_shard)
  have D0: "?D \<noteq> []"
  proof -
    have "0 < length (d_recoverySet d)" using some damagedD(3) [OF D] by (metis length_greater_0_conv)
    moreover from this have "0 < nslices ?n (orig ! 0)" using damagedD(8) [OF D, of 0] n(1) by (simp add: info_right_def less_nslices)
    ultimately have "row_of ?n orig 0 0 < length ?D" using row_of_nth(1) [of 0 orig 0 ?n] damagedD(3) [OF D] by simp
    then show ?thesis by auto
  qed
  show ?thesis
  proof (cases "rows = []")
    case True
    then show ?thesis by (simp add: verifyParity_def rows_def [symmetric])
  next
    case False
    let ?P = "exponent_matrix (length ?D) rows"
    have stored: "\<forall>r \<in> set rows. r < length (d_parityLocations d) \<and> block_stored io fs (d_parityLocations d ! r) (parity_block ?n ?D r)"
      using B by (auto simp: blocks_stored_def rows_def)
    have "\<forall>r \<in> set (map int rows). 0 \<le> r \<and> r \<le> 65535" using B by (auto simp: blocks_stored_def rows_def)
    moreover have "(0 :: int) < int (length ?D)" using D0 by simp
    ultimately have "NewCoderPAR2VandermondeRows (int (length ?D)) (map int rows) (d_numGoroutines d)
        = Inr (mk_coder (length ?D) (length rows) (nat (d_numGoroutines d)) (\<lambda>i j. generators ! j ^ nat (map int rows ! i)))"
      using NewCoderPAR2VandermondeRows_eq [of "int (length ?D)" "map int rows" "d_numGoroutines d"] False g small by simp
    moreover have P: "mk_matrix (length rows) (length ?D) (\<lambda>i j. generators ! j ^ nat (map int rows ! i)) = ?P"
      unfolding exponent_matrix_def by (rule matrix_eqI) (use D0 False in simp_all)
    ultimately obtain coder where coder: "NewCoderPAR2VandermondeRows (int (length ?D)) (map int rows) (d_numGoroutines d) = Inr coder"
      "parityMatrix coder = ?P" by (simp add: mk_coder_def)
    define c where "c = chunkSizeFor e phys (d_memoryBudget d) (int ?n) (int (length rows))"
    have "2 \<le> int ?n" "int ?n mod 2 = 0" using n by presburger+
    from FoldChunkSize_range [OF this, of "accelerated e" "fold_budget phys (d_memoryBudget d)" "int (length rows)"] \<open>2 \<le> int ?n\<close> \<open>int ?n mod 2 = 0\<close>
    have c: "2 \<le> c" "c \<le> int ?n" "c mod 2 = 0" by (simp_all add: c_def chunkSizeFor_def)
    then have c': "0 < nat c" "even (nat c)" by (auto simp: even_nat_iff)
    have range: "verify_range e io fs d ?P rows (nat c) off = Inr ()" if off: "off < ?n" "even off" for off
    proof -
      define len where "len = min (nat c) (?n - off)"
      have len: "(if off + nat c > ?n then ?n - off else nat c) = len" "0 < len" "even len" "off + len \<le> ?n"
        using off c' n(2) by (auto simp: len_def min_def)
      let ?X = "map (\<lambda>x. slice x off (off + len)) ?D" and ?out = "replicate (length rows) (replicate len (0 :: byte))"
      have del: "delivers (\<lambda>j dst. bindR (index_at (decoder_shards d) j) (\<lambda>si. readRange io fs d si off (length dst))) len ?X"
        unfolding delivers_def
      proof (intro allI impI)
        fix j assume "j < length ?X"
        then have j: "j < length ?D" by simp
        then obtain a b where ab: "a < length orig" "b < nslices ?n (orig ! a)" "j = row_of ?n orig a b" by (rule row_of_ex)
        have a: "a < length (d_recoverySet d)" using ab(1) damagedD(3) [OF D] by simp
        show "bindR (index_at (decoder_shards d) j) (\<lambda>si. readRange io fs d si off (length (replicate len 0))) = Inr (?X ! j) \<and> length (?X ! j) = len"
          using readRange_right [OF ok D a ab(2) present [OF a ab(2)] len(2,4)] row_of_nth [OF ab(1,2)] shape(5) shape(6) [OF a ab(2)] j lens [OF j] len(4)
          by (simp add: ab(3))
      qed
      have "FoldInputs e ?P (length ?X) len (\<lambda>j dst. bindR (index_at (decoder_shards d) j) (\<lambda>si. readRange io fs d si off (length dst))) ?out (d_numGoroutines d)
          = Inr (apply_spec ?P ?X (length ?out) len)"
      proof (rule FoldInputs_eq [OF e _ _ _ del len(2)])
        show "fold_ok ?P (length ?X) len ?out"
          using D0 False len(3) by (auto simp: fold_ok_def exponent_matrix_def)
        show "?out \<noteq> []" "?X \<noteq> []" using False D0 by simp_all
      qed
      then have "FoldInputs e ?P (length (decoder_shards d)) len (\<lambda>j dst. bindR (index_at (decoder_shards d) j) (\<lambda>si. readRange io fs d si off (length dst))) ?out (d_numGoroutines d)
          = Inr (map (\<lambda>r. slice (parity_block ?n ?D r) off (off + len)) rows)"
        using range_parity [OF lens n(2) off(2) len(3,4), of rows] shape(5) by simp
      moreover have "compare_blocks io fs d off len (map (\<lambda>r. slice (parity_block ?n ?D r) off (off + len)) rows) rows = Inr ()"
        by (rule compare_blocks_right [OF ok stored length_parity_block [OF n(2)] len(2,4)])
      ultimately show ?thesis by (simp only: verify_range_def Let_def len(1) bindR_simps)
    qed
    have "\<exists>s'. foldR (\<lambda>off _. verify_range e io fs d ?P rows (nat c) off) (strided ?n (nat c)) () = Inr s' \<and> True"
    proof (rule foldR_total [where P = "\<lambda>_. True"])
      fix off and u :: unit assume "off \<in> set (strided ?n (nat c))"
      then have "off < ?n" "even off" using c'(2) unfolding set_strided [OF c'(1)] by auto
      from range [OF this] show "\<exists>s'. verify_range e io fs d ?P rows (nat c) off = Inr s' \<and> True" by simp
    qed simp
    then show ?thesis
      using False coder shape(5) by (simp add: verifyParity_def rows_def [symmetric] c_def [symmetric] Let_def)
  qed
qed

end

section \<open>The repair\<close>

definition repair_schedule_ok :: "repair_schedule \<Rightarrow> bool" where
  "repair_schedule_ok sch \<longleftrightarrow> (\<forall>xs. mset (rs_copy sch xs) = mset xs \<and> mset (rs_commit sch xs) = mset xs)"

text \<open>What the double check needs beyond a repair.\<close>

definition double_checkable ::
    "('fs, 'w) fileIO \<Rightarrow> (gostring \<Rightarrow> gostring) \<Rightarrow> 'fs \<Rightarrow> decoder \<Rightarrow> byte list list \<Rightarrow> bool" where
  "double_checkable io k fs d orig \<longleftrightarrow> 0 < d_numGoroutines d \<and> sources_intact d orig \<and> blocks_stored io fs d orig \<and>
     (\<forall>e < length (d_parityPresent d). d_parityPresent d ! e \<longrightarrow>
        (\<forall>i < length (d_recoverySet d). k (pl_path (d_parityLocations d ! e)) \<noteq> k (set_path d i)))"

context patch_store
begin

lemma Repair_right:
  assumes ok: "ok fs" and e: "env_ok e" and sch: "repair_schedule_ok sch" and D: "damaged io fs d orig disk"
    and R: "repairable io fs phys d orig" and apart: "paths_apart (key fs) d"
    and dc: "checkParity \<longrightarrow> double_checkable io (key fs) fs d orig"
  shows "\<exists>out. Repair e sch phys io fs d checkParity = Some (Inr out) \<and> ro_err out = None \<and>
    ro_paths out = map (set_path d) (filter (\<lambda>i. \<not> was_ok d i) [0..<length (d_recoverySet d)]) \<and>
    ok (ro_fs out) \<and> key (ro_fs out) = key fs \<and> restored io (key fs) fs (ro_fs out) d orig"
proof -
  let ?N = "length (d_recoverySet d)"
  have sets: "set (rs_copy sch [0..<?N]) = {..<?N}" "set (rs_commit sch [0..<?N]) = {..<?N}"
    using sch unfolding repair_schedule_ok_def by (metis atLeast_upt set_mset_mset)+
  have none: "first_error (replicate m None) = Inr ()" for m by (induction m) (simp_all add: first_error_def)
  from preserve_right [OF ok D] obtain preserved where
    p: "preserveShardsBeforeOverwrite io fs d = Inr preserved" "preserved_right (d_sliceByteCount d) orig preserved" by blast
  from copy_files_right [OF ok D p(2) sets(1)] obtain writers0 where
    c: "copy_files io fs d preserved (rs_copy sch [0..<?N]) = Inr (writers0, replicate ?N None, fs)"
      "writers_hold d orig (survivor_spans d orig) writers0" by blast
  from reconstructTo_right [OF ok e D R p(2) c(2), of "rs_fold sch"] obtain rows writers groups where
    r: "reconstructTo e (rs_fold sch) phys io fs d preserved (repair_sink io d) (writers0, None) = Inr (rows, writers, groups)"
      "writers_hold d orig (\<lambda>i. survivor_spans d orig i \<union> \<Union> (slice_span (d_sliceByteCount d) `
        {j. j < nslices (d_sliceByteCount d) (orig ! i) \<and> \<not> si_present (shard_at d i j)})) writers" by blast
  have W: "writers_done d orig writers" by (rule writers_complete [OF D r(2)])
  from commit_files_right [OF ok D W sets(2) apart] obtain fs2 where
    m: "commit_files io writers (rs_commit sch [0..<?N]) fs = Inr (fs2, replicate ?N None)" "ok fs2" "key fs2 = key fs"
      "restored io (key fs) fs fs2 d orig" by blast
  from report_written_right [OF D W] obtain events where
    w: "report_written writers (replicate ?N None) [0..<?N] d = (events, map (set_path d) (filter (\<lambda>i. \<not> was_ok d i) [0..<?N]), None,
       d\<lparr> d_fileIntegrityInfos := repaired_infos d \<rparr>)" by blast
  let ?d' = "d\<lparr> d_fileIntegrityInfos := repaired_infos d \<rparr>"
  let ?out = "\<lparr> ro_events = events, ro_paths = map (set_path d) (filter (\<lambda>i. \<not> was_ok d i) [0..<?N]), ro_err = None,
    ro_fs = fs2, ro_decoder = ?d' \<rparr>"
  have v: "verifyParity e phys io fs2 ?d' = Inr ()" if checkParity
  proof -
    have q: "0 < d_numGoroutines d" "sources_intact d orig" "blocks_stored io fs d orig"
      and far: "\<And>x i. x < length (d_parityPresent d) \<Longrightarrow> d_parityPresent d ! x \<Longrightarrow> i < ?N \<Longrightarrow>
        key fs (pl_path (d_parityLocations d ! x)) \<noteq> key fs (set_path d i)"
      using dc that by (simp_all add: double_checkable_def)
    note D' = repaired_damaged [OF D q(2) m(4)]
    have "block_stored io fs2 loc b" if "block_stored io fs loc b" "\<And>i. i < ?N \<Longrightarrow> key fs (pl_path loc) \<noteq> key fs (set_path d i)" for loc b
      using that m(4) by (simp add: block_stored_def restored_def)
    then have "blocks_stored io fs2 ?d' orig" using q(3) far by (simp add: blocks_stored_def)
    moreover have "orig \<noteq> []" "length (true_shards (d_sliceByteCount d) orig) \<le> length generators"
      using R by (simp_all add: repairable_def Let_def)
    moreover have "\<And>i j. i < length (d_recoverySet ?d') \<Longrightarrow> j < nslices (d_sliceByteCount ?d') (orig ! i) \<Longrightarrow> si_present (shard_at ?d' i j)"
      using D'(2) by simp
    ultimately show ?thesis using verifyParity_right [OF m(2) e D'(1)] q(1) by simp
  qed
  have "after_commit e phys (rs_windows sch) (rs_slices sch) io fs2 checkParity writers d = Some (Inr ?out)"
    using v by (cases checkParity) (simp_all add: after_commit_def check_accepts [OF m(2) D W m(4)] w)
  then have "Repair e sch phys io fs d checkParity = Some (Inr ?out)"
    by (simp add: Repair_def Let_def p(1) c(1) r(1) m(1) none)
  with m(2-4) show ?thesis by (intro exI [of _ ?out]) simp
qed

end

end
