(* ===== verification/PoolTally.thy ===== *)
theory PoolTally
  imports Pool "HOL-Library.Multiset"
begin

text \<open>
  Worker pools whose shared state counts the work: what a process has left and what has been recorded
  are multisets, every step moves elements from the first to the second, and at the end every piece of
  work has been recorded exactly as often as the tasks ask for.
\<close>

lemma sum_mset_update:
  "w < length xs \<Longrightarrow> (\<Sum>x\<leftarrow>xs[w := y]. f x :: 'x multiset) + f (xs ! w) = (\<Sum>x\<leftarrow>xs. f x) + f y"
proof (induction xs arbitrary: w)
  case (Cons x xs)
  show ?case
  proof (cases w)
    case (Suc v)
    with Cons.prems have "(\<Sum>x\<leftarrow>xs[v := y]. f x) + f (xs ! v) = (\<Sum>x\<leftarrow>xs. f x) + f y"
      by (intro Cons.IH) simp
    with Suc show ?thesis by (simp add: add.assoc)
  qed simp
qed simp

lemma tally_moved:
  fixes A :: "'x multiset"
  assumes "A' + l = A + l'" and "g' + l' = g + l"
  shows "g' + A' + B = g + A + B"
proof -
  have "(g' + A') + (l + l') = (A' + l) + (g' + l')" by (simp only: ac_simps)
  also have "\<dots> = (g + A) + (l + l')" unfolding assms by (simp only: ac_simps)
  finally show ?thesis by simp
qed

text \<open>The multiset a process leaves behind, if it goes on.\<close>

definition left_by :: "('p \<Rightarrow> 'x multiset) \<Rightarrow> 'p option \<Rightarrow> 'x multiset" where
  "left_by todo p = (case p of None \<Rightarrow> {#} | Some q \<Rightarrow> todo q)"

lemma left_by_simps [simp]: "left_by todo None = {#}" "left_by todo (Some q) = todo q"
  by (simp_all add: left_by_def)

locale pool_tally =
  fixes start :: "'t \<Rightarrow> 'p" and step :: "('p, 's) process_step"
    and T :: "'t \<Rightarrow> bool" and P :: "'p \<Rightarrow> 's \<Rightarrow> bool" and J :: "'s \<Rightarrow> bool"
    and mtodo :: "'p \<Rightarrow> 'x multiset" and mgot :: "'s \<Rightarrow> 'x multiset" and psize :: "'p \<Rightarrow> nat"
  assumes tally_start: "T t \<Longrightarrow> J s \<Longrightarrow> P (start t) s"
    and tally_step: "P p s \<Longrightarrow> J s \<Longrightarrow> \<exists>p' s'. step p s = Inr (p', s') \<and> J s' \<and>
      mgot s' + left_by mtodo p' = mgot s + mtodo p \<and>
      (case p' of None \<Rightarrow> True | Some q \<Rightarrow> P q s' \<and> psize q < psize p)"
    and tally_stable: "P p s \<Longrightarrow> J s \<Longrightarrow> step p s = Inr (p', s') \<Longrightarrow> P r s \<Longrightarrow> P r s'"

text \<open>A pool that counts its work loses none of it.\<close>

sublocale pool_tally \<subseteq> pool_work start step T P J "\<lambda>p. set_mset (mtodo p)" "\<lambda>s. set_mset (mgot s)" psize
proof unfold_locales
  fix p s assume "P p s" "J s"
  from tally_step [OF this] obtain p' s' where s: "step p s = Inr (p', s')" "J s'"
    "mgot s' + left_by mtodo p' = mgot s + mtodo p"
    "case p' of None \<Rightarrow> True | Some q \<Rightarrow> P q s' \<and> psize q < psize p" by blast
  have "set_mset (mgot s) \<union> set_mset (mtodo p) = set_mset (mgot s') \<union> set_mset (left_by mtodo p')"
    using arg_cong [OF s(3), of set_mset] by simp
  with s show "\<exists>p' s'. step p s = Inr (p', s') \<and> J s' \<and>
      (case p' of None \<Rightarrow> set_mset (mgot s) \<union> set_mset (mtodo p) \<subseteq> set_mset (mgot s')
       | Some q \<Rightarrow> P q s' \<and> psize q < psize p \<and>
           set_mset (mgot s) \<union> set_mset (mtodo p) \<subseteq> set_mset (mgot s') \<union> set_mset (mtodo q))"
    by (intro exI [of _ p'] exI [of _ s']) (auto split: option.splits)
qed (fact tally_start, fact tally_stable)

context pool_tally
begin

definition tally :: "('t, 'p, 's) pool \<Rightarrow> 'x multiset" where
  "tally c = mgot (pl_shared c) + ((\<Sum>p\<leftarrow>pl_workers c. left_by mtodo p) + (\<Sum>t\<leftarrow>pl_queue c. mtodo (start t)))"

lemma act_tally:
  assumes ok: "pool_ok c" and act: "pool_act start step w c = Some (Inr c')"
  shows "tally c' = tally c"
  using act
proof (cases rule: pool_act_cases)
  case (take t q)
  then show ?thesis
    using sum_mset_update [OF take(1), of "left_by mtodo" "Some (start t)"] by (simp add: tally_def add_ac)
next
  case (work p)
  have Pp: "P p (pl_shared c)" "J (pl_shared c)"
    using ok work(1,2) nth_mem [OF work(1)] by (auto simp: pool_ok_def)
  from work(3) obtain p' s' where s: "step p (pl_shared c) = Inr (p', s')"
    and c': "c' = c\<lparr> pl_workers := (pl_workers c)[w := p'], pl_shared := s' \<rparr>"
    by (auto simp: bindR_def split: sum.splits)
  have gs: "mgot s' + left_by mtodo p' = mgot (pl_shared c) + mtodo p" using tally_step [OF Pp] s by auto
  have ws: "(\<Sum>x\<leftarrow>(pl_workers c)[w := p']. left_by mtodo x) + mtodo p
      = (\<Sum>x\<leftarrow>pl_workers c. left_by mtodo x) + left_by mtodo p'"
    using sum_mset_update [OF work(1), of "left_by mtodo" p'] work(2) by simp
  from tally_moved [OF ws gs, of "\<Sum>t\<leftarrow>pl_queue c. mtodo (start t)"] show ?thesis
    by (simp add: tally_def c' add.assoc)
qed

lemma reach_tally:
  assumes "pool_reach start step c0 c" and "pool_ok c0"
  shows "tally c = tally c0"
  using assms
proof (induction rule: pool_reach.induct)
  case (act c w c')
  then have "pool_ok c" using reach_ok by blast
  then show ?case using act act_tally by simp
qed simp

lemma tally_done: "pool_done c \<Longrightarrow> tally c = mgot (pl_shared c)"
proof -
  assume d: "pool_done c"
  have "(\<Sum>p\<leftarrow>ps. left_by mtodo p) = {#}"
    if "list_all (\<lambda>p. case p of None \<Rightarrow> True | Some _ \<Rightarrow> False) ps" for ps :: "'p option list"
    using that by (induction ps) (auto split: option.splits)
  with d show ?thesis by (simp add: tally_def pool_done_def)
qed

lemma tally_init: "tally (pool_init n tasks s) = mgot s + (\<Sum>t\<leftarrow>tasks. mtodo (start t))"
proof -
  have "(\<Sum>p\<leftarrow>replicate n None. left_by mtodo p) = {#}" by (induction n) auto
  then show ?thesis by (simp add: tally_def pool_init_def)
qed

lemma run_tally:
  assumes "0 < n \<or> tasks = []" and "\<forall>t \<in> set tasks. T t" and "J s"
  shows "\<exists>c. pool_run start step sched (pool_init n tasks s) = Some (Inr c) \<and> J (pl_shared c) \<and>
    mgot (pl_shared c) = mgot s + (\<Sum>t\<leftarrow>tasks. mtodo (start t))"
  using run_done [OF assms, of sched] reach_ok [OF _ pool_ok_init [OF assms(2,3)]]
    reach_tally [OF _ pool_ok_init [OF assms(2,3)]] tally_done tally_init [of n tasks s]
  by (metis pool_ok_def)

end

end
