(* ===== verification/ParityLoaded.thy ===== *)
theory ParityLoaded
  imports ParityLoad PoolTally FileRoundtrip
begin

text \<open>
  What \<open>loadParityData\<close> finds in volumes that are streams of valid packets: the same events and the
  same exponents for every schedule and in both modes, and, in the retaining one, for each exponent the
  place of a block in the first volume that has one.
\<close>

section \<open>The packets of a volume\<close>

definition offset_of :: "packet list \<Rightarrow> nat \<Rightarrow> nat" where
  "offset_of ps k = length (stream (take k ps))"

lemma offset_of_simps [simp]:
  "offset_of ps 0 = 0"
  "offset_of (p # ps) (Suc k) = 64 + length (snd (snd p)) + offset_of ps k"
  by (cases p; simp add: offset_of_def)+

lemma stream_Cons: "stream (p # ps) = packet_bytes (fst p) (fst (snd p)) (snd (snd p)) @ stream ps"
  by (cases p) simp

lemma stream_drop_take:
  assumes "a \<le> k" and "k < b" and "b \<le> length ps"
  shows "stream (drop a (take b ps)) = stream (drop a (take k ps)) @
    packet_bytes (fst (ps ! k)) (fst (snd (ps ! k))) (snd (snd (ps ! k))) @ stream (drop (Suc k) (take b ps))"
proof -
  have "drop a (take b ps) = drop a (take k ps) @ ps ! k # drop (Suc k) (take b ps)"
  proof -
    have "take b ps = take k ps @ ps ! k # drop (Suc k) (take b ps)"
      using assms id_take_nth_drop [of k "take b ps"] by simp
    moreover have "a - length (take k ps) = 0" using assms by simp
    ultimately show ?thesis by (metis drop_append drop0)
  qed
  then show ?thesis by (simp add: stream_Cons)
qed

lemma offset_of_drop:
  assumes "a \<le> b"
  shows "offset_of ps b = offset_of ps a + length (stream (drop a (take b ps)))"
proof -
  have "take b ps = take a ps @ drop a (take b ps)"
    using assms by (metis append_take_drop_id min.absorb1 take_take)
  then show ?thesis unfolding offset_of_def by (metis length_append stream_simps(3))
qed

lemma offset_of_Suc: "k < length ps \<Longrightarrow> offset_of ps (Suc k) = offset_of ps k + 64 + length (snd (snd (ps ! k)))"
  using offset_of_drop [of k "Suc k" ps] stream_drop_take [of k k "Suc k" ps] by simp

lemma length_refs_of [simp]: "length (refs_of off ps) = length ps"
proof -
  have "length (with_offsets off ps) = length ps" by (induction ps arbitrary: off) auto
  then show ?thesis by (simp add: refs_of_def)
qed

lemma refs_of_nth:
  "k < length ps \<Longrightarrow> refs_of off ps ! k = \<lparr> pr_offset = off + int (offset_of ps k),
     pr_length = 64 + int (length (snd (snd (ps ! k)))),
     pr_header = packet_header (fst (ps ! k)) (fst (snd (ps ! k))) (snd (snd (ps ! k))) \<rparr>"
proof (induction ps arbitrary: off k)
  case (Cons p ps)
  have e: "refs_of off (p # ps) = \<lparr> pr_offset = off, pr_length = 64 + int (length (snd (snd p))),
     pr_header = packet_header (fst p) (fst (snd p)) (snd (snd p)) \<rparr> # refs_of (off + 64 + int (length (snd (snd p)))) ps"
    by (cases p) (simp add: refs_of_def)
  show ?case
  proof (cases k)
    case 0
    then show ?thesis by (simp add: e)
  next
    case (Suc m)
    with Cons show ?thesis by (simp add: e algebra_simps)
  qed
qed simp

section \<open>Valid packets\<close>

text \<open>A packet of the set parses, and a main packet is that of the index file.\<close>

definition packet_good :: "decoder \<Rightarrow> packet \<Rightarrow> bool" where
  "packet_good d p = (case p of (setID, typ, body) \<Rightarrow> setID = d_setID d \<longrightarrow>
     (if typ = mainPacketType then (case readMainPacket body of Inl _ \<Rightarrow> False | Inr mp \<Rightarrow> main_mismatch d mp = None)
      else if typ = recoveryPacketType then (case readRecoveryPacket body of Inl _ \<Rightarrow> False | Inr _ \<Rightarrow> True)
      else if typ = fileDescriptionPacketType then
        (case readFileDescriptionPacket body of Inl _ \<Rightarrow> False | Inr _ \<Rightarrow> True)
      else if typ = ifscPacketType then (case readIFSCPacket body of Inl _ \<Rightarrow> False | Inr _ \<Rightarrow> True)
      else True))"

definition exponent_of :: "byte list \<Rightarrow> exponent" where
  "exponent_of body = ucast (le_word (take 4 body) :: u32)"

text \<open>The block a packet holds, if it is a recovery packet of the set.\<close>

definition is_block :: "recoverySetID \<Rightarrow> nat \<Rightarrow> packet \<Rightarrow> bool" where
  "is_block s e p = (case p of (setID, typ, body) \<Rightarrow>
     setID = s \<and> typ = recoveryPacketType \<and> e = unat (exponent_of body))"

text \<open>The calls of the user's delegate for a packet.\<close>

definition shown_events :: "recoverySetID \<Rightarrow> packet \<Rightarrow> decoder_event list" where
  "shown_events s p = (case p of (setID, typ, body) \<Rightarrow>
     if setID \<noteq> s then []
     else if typ = recoveryPacketType then [OnPacket (OnRecoveryPacketLoad (exponent_of body) (length body - 4))]
     else if typ \<in> set known_types then []
     else [OnPacket (OnUnknownPacketLoad typ (length body))])"

text \<open>The event that \<open>handle\<close> records.\<close>

definition packet_event :: "recoverySetID \<Rightarrow> packet \<Rightarrow> delegate_event" where
  "packet_event s p = (case p of (setID, typ, body) \<Rightarrow>
     if setID \<noteq> s then OnOtherPacketSkip setID typ (length body)
     else if typ = mainPacketType then (case readMainPacket body of
         Inr mp \<Rightarrow> OnMainPacketLoad (mp_sliceByteCount mp) (length (mp_recoverySet mp)) (length (mp_nonRecoverySet mp))
       | Inl _ \<Rightarrow> OnUnknownPacketLoad typ 0)
     else if typ = recoveryPacketType then OnRecoveryPacketLoad (exponent_of body) (length body - 4)
     else if typ = creatorPacketType then OnCreatorPacketLoad (readCreatorPacket body)
     else if typ = fileDescriptionPacketType then (case readFileDescriptionPacket body of
         Inr (i, fdp) \<Rightarrow> OnFileDescriptionPacketLoad i (fd_filename fdp) (fd_byteCount fdp)
       | Inl _ \<Rightarrow> OnUnknownPacketLoad typ 0)
     else if typ = ifscPacketType then (case readIFSCPacket body of
         Inr (i, _) \<Rightarrow> OnIFSCPacketLoad i
       | Inl _ \<Rightarrow> OnUnknownPacketLoad typ 0)
     else OnUnknownPacketLoad typ (length body))"

lemma packet_type_cases:
  obtains (main) "t = mainPacketType" | (rec) "t = recoveryPacketType" | (creator) "t = creatorPacketType"
    | (desc) "t = fileDescriptionPacketType" | (ifsc) "t = ifscPacketType"
    | (unknown) "t \<notin> set known_types" "t \<noteq> mainPacketType" "t \<noteq> recoveryPacketType"
        "t \<noteq> creatorPacketType" "t \<noteq> fileDescriptionPacketType" "t \<noteq> ifscPacketType"
  by (auto simp: known_types_def)

lemma packet_event_shown:
  assumes "packet_good d (i, t, body)"
  shows "recoveryDelegate (packet_event (d_setID d) (i, t, body)) = shown_events (d_setID d) (i, t, body)"
proof (cases "i = d_setID d")
  case True
  show ?thesis
    using assms True by (cases t rule: packet_type_cases)
      (simp_all add: packet_good_def packet_event_def shown_events_def recoveryDelegate_def
        known_types_def packet_types_distinct [symmetric] split: sum.splits prod.splits)
qed (simp add: packet_event_def shown_events_def recoveryDelegate_def)

lemma packet_event_block:
  assumes "packet_good d (i, t, body)"
  shows "packet_event (d_setID d) (i, t, body) = OnRecoveryPacketLoad ex n \<longleftrightarrow>
    is_block (d_setID d) (unat ex) (i, t, body) \<and> n = length body - 4"
proof (cases "i = d_setID d")
  case True
  have e: "unat ex = unat x \<longleftrightarrow> x = ex" for x by (auto simp: word_unat_eq_iff)
  show ?thesis
    using assms True by (cases t rule: packet_type_cases)
      (auto simp: e packet_good_def packet_event_def is_block_def
        known_types_def packet_types_distinct [symmetric] split: sum.splits prod.splits)
qed (simp add: packet_event_def is_block_def)

lemma readRecoveryPacket_exponent:
  assumes "readRecoveryPacket body = Inr (ex, rp)"
  shows "ex = exponent_of body" and "4 \<le> length body" and "length body mod 4 = 0"
    and "readRecoveryPacket (take 4 body) = Inr (ex, \<lparr> rp_data = [] \<rparr>)"
    and "body = le_bytes 4 (ucast ex :: u32) @ drop 4 body"
proof -
  let ?w = "le_word (take 4 body) :: u32"
  from assms have n: "length body \<noteq> 0" "length body mod 4 = 0" "\<not> ?w > 0xffff" and ex: "ex = ucast ?w"
    by (auto simp: readRecoveryPacket_def Let_def split: if_splits)
  show "ex = exponent_of body" by (simp add: ex exponent_of_def)
  show len: "4 \<le> length body" using n(1,2) by presburger
  show "length body mod 4 = 0" by fact
  show "readRecoveryPacket (take 4 body) = Inr (ex, \<lparr> rp_data = [] \<rparr>)"
    using len n(3) by (simp add: readRecoveryPacket_def Let_def ex min_def)
  have "unat ?w < 2 ^ 16" using n(3) by (simp add: word_less_nat_alt)
  then have "ucast ex = ?w"
    by (intro word_unat_eq_iff [THEN iffD2]) (simp add: ex unsigned_ucast_eq unsigned_take_bit_eq take_bit_nat_eq_self)
  moreover have "le_bytes 4 ?w = take 4 body"
    using le_bytes_le_word [of "take 4 body", where 'a = 32] len by simp
  ultimately show "body = le_bytes 4 (ucast ex :: u32) @ drop 4 body" by (metis append_take_drop_id)
qed

section \<open>One packet\<close>

lemma read_ref_ok:
  assumes r: "reader_over r (stream ps)" and k: "k < length ps" "ps ! k = (i, t, b)" and v: "volume_packet (i, t, b)"
    and good: "packet_good d (i, t, b)"
    and buf: "retain \<Longrightarrow> a \<le> k \<and> k < fin \<and> fin \<le> length ps \<and> first = int (offset_of ps a) \<and> buf = stream (drop a (take fin ps))"
  shows "\<exists>b' n. read_ref (d_setID d) retain r (refs_of 0 ps ! k) buf first = Inr (i, t, b', n) \<and>
    (b' = b \<or> i = d_setID d \<and> t = recoveryPacketType \<and> b' = take 4 b) \<and> (t = recoveryPacketType \<longrightarrow> n = int (length b) - 4)"
proof -
  note reads_at = reader_over.reads_at [OF r]
  have ok: "body_ok b" using volume_packet_ok [OF v] by simp
  let ?pb = "packet_bytes i t b"
  have n: "readNextPacketBorrowed ?pb = Inr ((i, t, b), [])"
    using readNextPacketBorrowed_ok [OF ok, of i t "[]"] by simp
  have split: "stream ps = stream (take k ps) @ ?pb @ stream (drop (Suc k) ps)"
    using stream_drop_take [of 0 k "length ps" ps] k by simp
  have ref: "refs_of 0 ps ! k = \<lparr> pr_offset = int (offset_of ps k), pr_length = 64 + int (length b),
      pr_header = packet_header i t b \<rparr>"
    using refs_of_nth [OF k(1), of 0] k(2) by simp
  show ?thesis
  proof (cases retain)
    case True
    with buf have ab: "a \<le> k" "k < fin" "fin \<le> length ps" "first = int (offset_of ps a)"
      "buf = stream (drop a (take fin ps))" by auto
    have b2: "buf = stream (drop a (take k ps)) @ ?pb @ stream (drop (Suc k) (take fin ps))"
      using stream_drop_take [OF ab(1-3)] k(2) ab(5) by simp
    have off: "int (offset_of ps k) - first = int (length (stream (drop a (take k ps))))"
      using offset_of_drop [OF ab(1), of ps] ab(4) by simp
    have e: "nat (int (length (stream (drop a (take k ps)))) + (64 + int (length b)))
        = length (stream (drop a (take k ps))) + (64 + length b)" by simp
    have "slice_at buf (nat (int (offset_of ps k) - first)) (nat (int (offset_of ps k) - first + (64 + int (length b)))) = Inr ?pb"
      unfolding off e by (simp add: b2)
    then show ?thesis
      using True by (simp add: read_ref_def ref Let_def off n)
  next
    case False
    have rd: "readPacketAt r (refs_of 0 ps ! k) = Inr (i, t, b)"
      using reads_at [OF split, of "64 + length b"] n
      by (simp add: readPacketAt_def ref nat_add_distrib offset_of_def)
    show ?thesis
    proof (cases "t = recoveryPacketType \<and> i = d_setID d")
      case True
      then obtain ex rp where "readRecoveryPacket b = Inr (ex, rp)"
        using good by (auto simp: packet_good_def packet_types_distinct [symmetric] split: sum.splits)
      then have b4: "4 \<le> length b" "length b mod 4 = 0" by (auto dest: readRecoveryPacket_exponent)
      have m: "int (length b) mod 4 = 0" using b4(2) by presburger
      have "stream ps = (stream (take k ps) @ header_bytes (packet_header i t b)) @ b @ stream (drop (Suc k) ps)"
        using split by (simp add: packet_bytes_def)
      from reads_at [OF this, of 4] b4(1)
      have "r (int (offset_of ps k) + 64) 4 = Inr (take 4 b)" by (simp add: offset_of_def)
      then have "readRecoveryExponent r (refs_of 0 ps ! k) = Inr (take 4 b, int (length b) - 4)"
        using b4(1) m by (simp add: readRecoveryExponent_def ref Let_def)
      with True False show ?thesis by (simp add: read_ref_def ref)
    next
      case no: False
      then show ?thesis using False rd by (auto simp: read_ref_def ref Let_def)
    qed
  qed
qed

lemma handle_block_sel [simp]:
  "ps_events (handle_block retain vi path e off n st) = ps_events st"
  "ps_errs (handle_block retain vi path e off n st) = ps_errs st"
  "ps_found (handle_block retain vi path e off n st) = ps_found st"
  "ps_main (handle_block retain vi path e off n st) = ps_main st"
  by (simp_all add: handle_block_def Let_def)

lemma handle_block_cong:
  assumes "ps_present st = ps_present st'" and "ps_locations st = ps_locations st'"
  shows "ps_present (handle_block retain vi path e off n st) = ps_present (handle_block retain vi path e off n st')"
    and "ps_locations (handle_block retain vi path e off n st) = ps_locations (handle_block retain vi path e off n st')"
  by (simp_all add: handle_block_def Let_def assms)

lemma handle_packet_ok:
  assumes good: "packet_good d (i, t, b)"
    and b': "b' = b \<or> i = d_setID d \<and> t = recoveryPacketType \<and> b' = take 4 b"
    and n: "t = recoveryPacketType \<longrightarrow> n = int (length b) - 4"
  shows "\<exists>st'. handle_packet (d_setID d) retain vi pi path i t b' off n st = (st', None) \<and>
    ps_events st' = ps_events st @ [(vi, pi, packet_event (d_setID d) (i, t, b))] \<and>
    ps_errs st' = ps_errs st \<and> length (ps_found st') = length (ps_found st) \<and>
    (ps_main st' = ps_main st \<or> (\<exists>mp. main_mismatch d mp = None \<and> ps_main st' = (ps_main st)[vi := Some mp])) \<and>
    (if i = d_setID d \<and> t = recoveryPacketType
     then let h = handle_block retain vi path (unat (exponent_of b)) off (int (length b) - 4) st
       in ps_present st' = ps_present h \<and> ps_locations st' = ps_locations h
     else ps_present st' = ps_present st \<and> ps_locations st' = ps_locations st)"
proof (cases "i = d_setID d")
  case True
  show ?thesis
  proof (cases "t = recoveryPacketType")
    case rec: True
    then obtain ex rp where r: "readRecoveryPacket b = Inr (ex, rp)"
      using good True by (auto simp: packet_good_def packet_types_distinct [symmetric] split: sum.splits)
    note e = readRecoveryPacket_exponent [OF r]
    have nn: "nat n = length b - 4" using n rec e(2) by simp
    from b' r e(4) obtain rp' where "readRecoveryPacket b' = Inr (ex, rp')" by auto
    then show ?thesis
      using True rec n nn e(1)
        handle_block_cong [of "record_event vi pi (OnRecoveryPacketLoad ex (length b - 4)) (st\<lparr> ps_found := (ps_found st)[vi := True] \<rparr>)" st
          retain vi path "unat ex" off n]
      by (simp add: handle_packet_def packet_event_def record_event_def Let_def packet_types_distinct [symmetric])
  next
    case False
    with b' have "b' = b" by simp
    with False True good show ?thesis
      by (cases t rule: packet_type_cases)
        (auto simp: handle_packet_def packet_event_def record_event_def packet_good_def Let_def
          packet_types_distinct [symmetric] split: sum.splits)
  qed
next
  case False
  with b' show ?thesis by (simp add: handle_packet_def packet_event_def record_event_def)
qed

section \<open>The set-up and its invariant\<close>

record parity_setup =
  pu_d :: decoder
  pu_retain :: bool
  pu_vols :: "volume list"
  pu_packets :: "packet list list"

definition setup_vols_ok :: "parity_setup \<Rightarrow> bool" where
  "setup_vols_ok pu \<longleftrightarrow> length (pu_vols pu) = length (pu_packets pu) \<and>
     (\<forall>i < length (pu_vols pu). let v = pu_vols pu ! i; ps = pu_packets pu ! i in
        vo_path v \<noteq> [] \<and> vo_refs v = refs_of 0 ps \<and> (\<exists>r. vo_r v = Some r \<and> reader_over r (stream ps)) \<and>
        (\<forall>p \<in> set ps. volume_packet p \<and> packet_good (pu_d pu) p))"

definition event_at :: "parity_setup \<Rightarrow> nat \<Rightarrow> nat \<Rightarrow> nat \<times> nat \<times> delegate_event" where
  "event_at pu vi pi = (vi, pi, packet_event (d_setID (pu_d pu)) (pu_packets pu ! vi ! pi))"

text \<open>Where the block in packet \<open>pi\<close> of volume \<open>vi\<close> lives.\<close>

definition loc_of :: "parity_setup \<Rightarrow> nat \<Rightarrow> nat \<Rightarrow> parityLocation" where
  "loc_of pu vi pi = \<lparr> pl_path = vo_path (pu_vols pu ! vi),
     pl_offset = int (offset_of (pu_packets pu ! vi) pi) + headerSize + 4,
     pl_length = int (length (snd (snd (pu_packets pu ! vi ! pi)))) - 4, pl_vol = vi \<rparr>"

definition blocks :: "(nat \<times> nat \<times> delegate_event) set \<Rightarrow> nat \<Rightarrow> (nat \<times> nat) set" where
  "blocks E e = {(vi, pi). \<exists>ex n. (vi, pi, OnRecoveryPacketLoad ex n) \<in> E \<and> unat ex = e}"

definition location_ok :: "parity_setup \<Rightarrow> (nat \<times> nat) set \<Rightarrow> parityLocation \<Rightarrow> bool" where
  "location_ok pu B loc \<longleftrightarrow> (if B = {} then pl_path loc = []
     else \<exists>(vi, pi) \<in> B. loc = loc_of pu vi pi \<and> vi < length (pu_vols pu) \<and> (\<forall>(vj, pj) \<in> B. vi \<le> vj))"

definition books_ok :: "parity_setup \<Rightarrow> (nat \<times> nat \<times> delegate_event) set \<Rightarrow> bool list \<Rightarrow> parityLocation list \<Rightarrow> bool" where
  "books_ok pu E present locs \<longleftrightarrow> length locs = length present \<and> (present \<noteq> [] \<longrightarrow> last present) \<and>
     (\<forall>e. e < length present \<and> present ! e \<longleftrightarrow> blocks E e \<noteq> {}) \<and>
     (if pu_retain pu then \<forall>e < length present. location_ok pu (blocks E e) (locs ! e)
      else locs = replicate (length present) zero_location)"

lemma blocks_insert:
  "blocks (insert (vi, pi, ev) E) e =
    (if \<exists>ex n. ev = OnRecoveryPacketLoad ex n \<and> unat ex = e then insert (vi, pi) (blocks E e) else blocks E e)"
  by (auto simp: blocks_def)

lemma location_ok_insert:
  assumes su: "setup_vols_ok pu" and vi: "vi < length (pu_vols pu)" and old: "location_ok pu B loc"
  shows "location_ok pu (insert (vi, pi) B)
    (if pl_path loc = [] \<or> pl_vol loc > vi then loc_of pu vi pi else loc)"
proof (cases "B = {}")
  case True
  with old have "pl_path loc = []" by (simp add: location_ok_def)
  with True vi show ?thesis by (simp add: location_ok_def)
next
  case False
  with old obtain vj pj where j: "(vj, pj) \<in> B" "loc = loc_of pu vj pj" "vj < length (pu_vols pu)"
    "\<forall>(vk, pk) \<in> B. vj \<le> vk" by (auto simp: location_ok_def)
  have ne: "pl_path loc \<noteq> []" "pl_vol loc = vj"
    using su j(2,3) by (auto simp: setup_vols_ok_def Let_def loc_of_def)
  show ?thesis
  proof (cases "vi < vj")
    case True
    then have "\<forall>(vk, pk) \<in> insert (vi, pi) B. vi \<le> vk" using j(4) by fastforce
    with True ne vi show ?thesis by (auto simp: location_ok_def)
  next
    case False
    then have "\<forall>(vk, pk) \<in> insert (vi, pi) B. vj \<le> vk" using j(4) by fastforce
    with False ne j(1-3) show ?thesis by (auto simp: location_ok_def)
  qed
qed

lemma books_ok_init: "books_ok pu {} [] []"
  by (simp add: books_ok_def blocks_def)

lemma grown_nth:
  "k < length (xs @ replicate g z) \<Longrightarrow> (xs @ replicate g z) ! k = (if k < length xs then xs ! k else z)"
  by (auto simp: nth_append)

lemma last_present:
  assumes "xs \<noteq> [] \<longrightarrow> last xs"
  shows "last ((xs @ replicate (e + 1 - length xs) False)[e := True])"
proof (cases "e < length xs")
  case True
  then have "xs \<noteq> []" by auto
  from last_list_update [OF this, of e True] assms this True show ?thesis by (cases "e = length xs - 1") simp_all
next
  case False
  let ?ys = "xs @ replicate (e + 1 - length xs) False"
  have "last (?ys[e := True]) = (if e = length ?ys - 1 then True else last ?ys)" by (rule last_list_update) (use False in simp)
  with False show ?thesis by simp
qed

lemma books_ok_block:
  assumes su: "setup_vols_ok pu" and vi: "vi < length (pu_vols pu)" and books: "books_ok pu E (ps_present st) (ps_locations st)"
    and h: "h = handle_block (pu_retain pu) vi (vo_path (pu_vols pu ! vi)) (unat ex) (int (offset_of (pu_packets pu ! vi) pi))
      (int (length (snd (snd (pu_packets pu ! vi ! pi)))) - 4) st"
  shows "books_ok pu (insert (vi, pi, OnRecoveryPacketLoad ex m) E) (ps_present h) (ps_locations h)"
proof -
  define e where "e = unat ex"
  define present where "present = ps_present st"
  define locs where "locs = ps_locations st"
  define g where "g = e + 1 - length present"
  define G where "G = present @ replicate g False"
  define L where "L = locs @ replicate g zero_location"
  have len: "length locs = length present" and last_p: "present \<noteq> [] \<longrightarrow> last present"
    and truth: "\<And>k. k < length present \<and> present ! k \<longleftrightarrow> blocks E k \<noteq> {}"
    using books by (simp_all add: books_ok_def present_def locs_def)
  have B: "blocks (insert (vi, pi, OnRecoveryPacketLoad ex m) E) k
      = (if k = e then insert (vi, pi) (blocks E e) else blocks E k)" for k
    by (auto simp: blocks_insert e_def)
  have lens: "length G = length present + g" "length L = length G" "e < length G"
    by (auto simp: G_def L_def len g_def)
  have present': "ps_present h = G[e := True]"
    by (simp add: h handle_block_def Let_def e_def [symmetric] present_def [symmetric] G_def g_def)
  have L_h: "ps_locations h = (if pu_retain pu \<and> (pl_path (L ! e) = [] \<or> pl_vol (L ! e) > vi)
      then L[e := loc_of pu vi pi] else L)"
    by (auto simp: h handle_block_def Let_def e_def [symmetric] present_def [symmetric] locs_def [symmetric]
        L_def g_def loc_of_def)
  have "last (G[e := True])" using last_present [OF last_p, of e] by (simp add: G_def g_def)
  moreover have "k < length G \<and> G[e := True] ! k \<longleftrightarrow> blocks (insert (vi, pi, OnRecoveryPacketLoad ex m) E) k \<noteq> {}" for k
  proof (cases "k = e")
    case False
    then have "k < length G \<and> G[e := True] ! k \<longleftrightarrow> k < length G \<and> G ! k" by simp
    also have "\<dots> \<longleftrightarrow> k < length present \<and> present ! k"
      using grown_nth [of k present g False] lens(1) by (auto simp: G_def [symmetric] split: if_splits)
    finally show ?thesis using truth [of k] False by (simp add: B)
  qed (use lens in \<open>simp add: B\<close>)
  moreover have "if pu_retain pu then \<forall>k < length G. location_ok pu (blocks (insert (vi, pi, OnRecoveryPacketLoad ex m) E) k) (ps_locations h ! k)
      else ps_locations h = replicate (length G) zero_location"
  proof (cases "pu_retain pu")
    case True
    have old: "location_ok pu (blocks E k) (L ! k)" if "k < length G" for k
    proof (cases "k < length present")
      case True
      then show ?thesis using books \<open>pu_retain pu\<close> grown_nth [of k locs g zero_location] that lens len
        by (simp add: books_ok_def L_def present_def [symmetric] locs_def [symmetric])
    next
      case False
      then have "blocks E k = {}" using truth by blast
      then show ?thesis using grown_nth [of k locs g zero_location] that lens len False
        by (simp add: location_ok_def L_def zero_location_def)
    qed
    have "ps_locations h ! e = (if pl_path (L ! e) = [] \<or> pl_vol (L ! e) > vi then loc_of pu vi pi else L ! e)"
      using True lens by (simp add: L_h)
    then have "location_ok pu (insert (vi, pi) (blocks E e)) (ps_locations h ! e)"
      using location_ok_insert [OF su vi old [OF lens(3)], of pi] by simp
    moreover have "location_ok pu (blocks E k) (ps_locations h ! k)" if "k < length G" "k \<noteq> e" for k
      using old [OF that(1)] that(2) by (simp add: L_h)
    ultimately show ?thesis using True by (simp add: B)
  next
    case False
    then have "locs = replicate (length present) zero_location"
      using books by (simp add: books_ok_def present_def locs_def)
    then show ?thesis using False by (simp add: L_h L_def lens replicate_add [symmetric])
  qed
  moreover have "length (ps_locations h) = length (ps_present h)" by (simp add: L_h present' lens)
  ultimately show ?thesis by (simp add: books_ok_def present')
qed

definition parity_inv :: "parity_setup \<Rightarrow> parity_state \<Rightarrow> bool" where
  "parity_inv pu st \<longleftrightarrow> length (ps_errs st) = length (pu_vols pu) \<and> (\<forall>i < length (pu_vols pu). ps_errs st ! i = None) \<and>
     length (ps_found st) = length (pu_vols pu) \<and> length (ps_main st) = length (pu_vols pu) \<and>
     (\<forall>i < length (pu_vols pu). \<forall>mp. ps_main st ! i = Some mp \<longrightarrow> main_mismatch (pu_d pu) mp = None) \<and>
     books_ok pu (set (ps_events st)) (ps_present st) (ps_locations st)"

definition ptask_ok :: "parity_setup \<Rightarrow> parity_task \<Rightarrow> bool" where
  "ptask_ok pu t \<longleftrightarrow> pt_vi t < length (pu_vols pu) \<and> pt_pi t < pt_end t \<and> pt_end t \<le> length (pu_packets pu ! pt_vi t)"

definition proc_ok :: "parity_setup \<Rightarrow> parity_proc \<Rightarrow> bool" where
  "proc_ok pu p = (case p of
       ParityTask t \<Rightarrow> ptask_ok pu t
     | ParityPackets vi pi fin buf first \<Rightarrow> let ps = pu_packets pu ! vi in
         vi < length (pu_vols pu) \<and> pi \<le> fin \<and> fin \<le> length ps \<and>
         (pu_retain pu \<longrightarrow> (\<exists>a \<le> pi. first = int (offset_of ps a) \<and> buf = stream (drop a (take fin ps)))))"

definition proc_todo :: "parity_setup \<Rightarrow> parity_proc \<Rightarrow> (nat \<times> nat \<times> delegate_event) multiset" where
  "proc_todo pu p = (case p of
       ParityTask t \<Rightarrow> mset (map (event_at pu (pt_vi t)) [pt_pi t..<pt_end t])
     | ParityPackets vi pi fin buf first \<Rightarrow> mset (map (event_at pu vi) [pi..<fin]))"

definition proc_size :: "parity_proc \<Rightarrow> nat" where
  "proc_size p = (case p of ParityTask t \<Rightarrow> Suc (Suc (pt_end t - pt_pi t)) | ParityPackets vi pi fin buf first \<Rightarrow> Suc (fin - pi))"

lemmas setup_volD = setup_vols_ok_def [THEN iffD1, THEN conjunct2, rule_format, unfolded Let_def]

lemma handle_inv:
  assumes su: "setup_vols_ok pu" and J: "parity_inv pu st" and vi: "vi < length (pu_vols pu)"
    and k: "k < length (pu_packets pu ! vi)" "pu_packets pu ! vi ! k = (i, t, b)"
    and b': "b' = b \<or> i = d_setID (pu_d pu) \<and> t = recoveryPacketType \<and> b' = take 4 b"
    and n: "t = recoveryPacketType \<longrightarrow> n = int (length b) - 4"
  shows "\<exists>st'. handle_packet (d_setID (pu_d pu)) (pu_retain pu) vi k (vo_path (pu_vols pu ! vi)) i t b'
      (int (offset_of (pu_packets pu ! vi) k)) n st = (st', None) \<and> parity_inv pu st' \<and>
    ps_events st' = ps_events st @ [event_at pu vi k]"
proof -
  have good: "packet_good (pu_d pu) (i, t, b)" using setup_volD [OF su vi] k by (metis nth_mem)
  from handle_packet_ok [OF this b' n, of "pu_retain pu" vi k "vo_path (pu_vols pu ! vi)"
      "int (offset_of (pu_packets pu ! vi) k)" st] obtain st' where
    st': "handle_packet (d_setID (pu_d pu)) (pu_retain pu) vi k (vo_path (pu_vols pu ! vi)) i t b'
      (int (offset_of (pu_packets pu ! vi) k)) n st = (st', None)"
    "ps_events st' = ps_events st @ [event_at pu vi k]" "ps_errs st' = ps_errs st" "length (ps_found st') = length (ps_found st)"
    and main: "ps_main st' = ps_main st \<or> (\<exists>mp. main_mismatch (pu_d pu) mp = None \<and> ps_main st' = (ps_main st)[vi := Some mp])"
    and books: "if i = d_setID (pu_d pu) \<and> t = recoveryPacketType
     then let h = handle_block (pu_retain pu) vi (vo_path (pu_vols pu ! vi)) (unat (exponent_of b))
         (int (offset_of (pu_packets pu ! vi) k)) (int (length b) - 4) st
       in ps_present st' = ps_present h \<and> ps_locations st' = ps_locations h
     else ps_present st' = ps_present st \<and> ps_locations st' = ps_locations st"
    unfolding event_at_def k(2) by blast
  have old: "books_ok pu (set (ps_events st)) (ps_present st) (ps_locations st)" using J by (simp add: parity_inv_def)
  have ev: "set (ps_events st') = insert (vi, k, packet_event (d_setID (pu_d pu)) (i, t, b)) (set (ps_events st))"
    by (simp add: st'(2) event_at_def k(2))
  have "books_ok pu (set (ps_events st')) (ps_present st') (ps_locations st')"
  proof (cases "i = d_setID (pu_d pu) \<and> t = recoveryPacketType")
    case True
    then have "packet_event (d_setID (pu_d pu)) (i, t, b) = OnRecoveryPacketLoad (exponent_of b) (length b - 4)"
      by (simp add: packet_event_def)
    moreover have "books_ok pu (insert (vi, k, OnRecoveryPacketLoad (exponent_of b) m) (set (ps_events st)))
      (ps_present st') (ps_locations st')" for m
      using books_ok_block [OF su vi old refl, of k "exponent_of b" m] books True by (simp add: k(2) Let_def)
    ultimately show ?thesis by (simp add: ev)
  next
    case False
    then have "packet_event (d_setID (pu_d pu)) (i, t, b) \<noteq> OnRecoveryPacketLoad ex m" for ex m
      using packet_event_block [OF good, of ex m] by (auto simp: is_block_def)
    then have "blocks (set (ps_events st')) e = blocks (set (ps_events st)) e" for e
      unfolding ev blocks_insert by simp
    moreover have "ps_present st' = ps_present st" "ps_locations st' = ps_locations st" using books False by auto
    ultimately show ?thesis using old by (simp add: books_ok_def)
  qed
  moreover have "ps_main st' ! j = Some mp \<longrightarrow> main_mismatch (pu_d pu) mp = None" if "j < length (pu_vols pu)" for j mp
    using main J that vi by (auto simp: parity_inv_def nth_list_update split: if_splits)
  moreover have "length (ps_main st') = length (pu_vols pu)" using main J by (auto simp: parity_inv_def)
  ultimately show ?thesis using st' J by (simp add: parity_inv_def)
qed

section \<open>The workers\<close>

lemma packets_step:
  assumes su: "setup_vols_ok pu" and J: "parity_inv pu st" and p: "proc_ok pu (ParityPackets vi pi fin buf first)"
    and pi: "pi < fin"
  shows "\<exists>st'. parity_step (d_setID (pu_d pu)) (pu_retain pu) (pu_vols pu) (ParityPackets vi pi fin buf first) st
      = Inr (Some (ParityPackets vi (pi + 1) fin buf first), st') \<and> parity_inv pu st' \<and>
    ps_events st' = ps_events st @ [event_at pu vi pi]"
proof -
  let ?ps = "pu_packets pu ! vi"
  have vi: "vi < length (pu_vols pu)" and k: "pi < length ?ps"
    using p pi by (auto simp: proc_ok_def Let_def)
  obtain i t b where b: "?ps ! pi = (i, t, b)" by (metis prod_cases3)
  have in_ps: "(i, t, b) \<in> set ?ps" using k b by (metis nth_mem)
  note v = setup_volD [OF su vi]
  then obtain r where r: "vo_r (pu_vols pu ! vi) = Some r" "reader_over r (stream ?ps)" by blast
  have vp: "volume_packet (i, t, b)" and good: "packet_good (pu_d pu) (i, t, b)" using v in_ps by blast+
  have buf: "pu_retain pu \<Longrightarrow> \<exists>a. a \<le> pi \<and> pi < fin \<and> fin \<le> length ?ps \<and> first = int (offset_of ?ps a) \<and>
      buf = stream (drop a (take fin ?ps))"
    using p pi by (auto simp: proc_ok_def Let_def)
  then obtain a where "pu_retain pu \<Longrightarrow> a \<le> pi \<and> pi < fin \<and> fin \<le> length ?ps \<and> first = int (offset_of ?ps a) \<and>
      buf = stream (drop a (take fin ?ps))" by blast
  from read_ref_ok [OF r(2) k b vp good this] obtain b' n where
    rd: "read_ref (d_setID (pu_d pu)) (pu_retain pu) r (refs_of 0 ?ps ! pi) buf first = Inr (i, t, b', n)"
    and b': "b' = b \<or> i = d_setID (pu_d pu) \<and> t = recoveryPacketType \<and> b' = take 4 b"
    and n: "t = recoveryPacketType \<longrightarrow> n = int (length b) - 4" by blast
  have ne: "ps_errs st ! vi = None" using J vi by (simp add: parity_inv_def)
  have off: "pr_offset (refs_of 0 ?ps ! pi) = int (offset_of ?ps pi)" using refs_of_nth [OF k, of 0] by simp
  from handle_inv [OF su J vi k b b' n] obtain st' where
    "handle_packet (d_setID (pu_d pu)) (pu_retain pu) vi pi (vo_path (pu_vols pu ! vi)) i t b'
      (int (offset_of ?ps pi)) n st = (st', None)" "parity_inv pu st'"
    "ps_events st' = ps_events st @ [event_at pu vi pi]" by blast
  then show ?thesis
    using pi rd v r(1) ne off by (intro exI [of _ st']) (simp add: parity_step_def Let_def)
qed

lemma task_step:
  assumes su: "setup_vols_ok pu" and t: "ptask_ok pu t"
  shows "\<exists>buf first. parity_step (d_setID (pu_d pu)) (pu_retain pu) (pu_vols pu) (ParityTask t) st
      = Inr (Some (ParityPackets (pt_vi t) (pt_pi t) (pt_end t) buf first), st) \<and>
    proc_ok pu (ParityPackets (pt_vi t) (pt_pi t) (pt_end t) buf first)"
proof -
  let ?ps = "pu_packets pu ! pt_vi t" and ?a = "pt_pi t" and ?b = "pt_end t"
  have vi: "pt_vi t < length (pu_vols pu)" and ab: "?a < ?b" "?b \<le> length ?ps" using t by (auto simp: ptask_ok_def)
  note v = setup_volD [OF su vi]
  then obtain r where r: "vo_r (pu_vols pu ! pt_vi t) = Some r" "reader_over r (stream ?ps)" by blast
  note reads_at = reader_over.reads_at [OF r(2)]
  have first: "pr_offset (refs_of 0 ?ps ! ?a) = int (offset_of ?ps ?a)" using refs_of_nth [of ?a ?ps 0] ab by simp
  have last: "pr_offset (refs_of 0 ?ps ! (?b - 1)) + pr_length (refs_of 0 ?ps ! (?b - 1)) = int (offset_of ?ps ?b)"
    using refs_of_nth [of "?b - 1" ?ps 0] ab offset_of_Suc [of "?b - 1" ?ps] by simp
  have le: "?a \<le> ?b" using ab by simp
  have data: "stream ?ps = stream (take ?a ?ps) @ stream (drop ?a (take ?b ?ps)) @ stream (drop ?b ?ps)"
  proof -
    have "take ?b ?ps = take ?a ?ps @ drop ?a (take ?b ?ps)"
      using le append_take_drop_id [of ?a "take ?b ?ps"] by (simp add: min_def)
    then have "stream (take ?b ?ps) = stream (take ?a ?ps) @ stream (drop ?a (take ?b ?ps))"
      by (metis stream_simps(3))
    moreover have "stream ?ps = stream (take ?b ?ps) @ stream (drop ?b ?ps)"
      unfolding stream_simps(3) [symmetric] by simp
    ultimately show ?thesis by simp
  qed
  have pos: "0 < length (stream (drop ?a (take ?b ?ps)))" using stream_drop_take [of ?a ?a ?b ?ps] ab by simp
  have len: "int (offset_of ?ps ?b) - int (offset_of ?ps ?a) = int (length (stream (drop ?a (take ?b ?ps))))"
    using offset_of_drop [OF le, of ?ps] by simp
  have "r (int (offset_of ?ps ?a)) (length (stream (drop ?a (take ?b ?ps)))) = Inr (stream (drop ?a (take ?b ?ps)))"
    using reads_at [OF data _ pos] by (simp add: offset_of_def)
  then have "parity_step (d_setID (pu_d pu)) (pu_retain pu) (pu_vols pu) (ParityTask t) st
      = Inr (Some (ParityPackets (pt_vi t) ?a ?b (if pu_retain pu then stream (drop ?a (take ?b ?ps)) else [])
          (int (offset_of ?ps ?a))), st)"
    using v r(1) first last len by (simp add: parity_step_def Let_def del: of_nat_less_iff)
  moreover have "proc_ok pu (ParityPackets (pt_vi t) ?a ?b (if pu_retain pu then stream (drop ?a (take ?b ?ps)) else [])
      (int (offset_of ?ps ?a)))"
    using vi ab by (auto simp: proc_ok_def Let_def)
  ultimately show ?thesis by blast
qed

interpretation parity_pool: pool_tally ParityTask "parity_step (d_setID (pu_d pu)) (pu_retain pu) (pu_vols pu)"
    "\<lambda>t. setup_vols_ok pu \<and> ptask_ok pu t" "\<lambda>p st. setup_vols_ok pu \<and> proc_ok pu p" "parity_inv pu" "proc_todo pu" "\<lambda>st. mset (ps_events st)" proc_size
  for pu
proof unfold_locales
  fix t st assume "setup_vols_ok pu \<and> ptask_ok pu t"
  then show "setup_vols_ok pu \<and> proc_ok pu (ParityTask t)" by (simp add: proc_ok_def)
next
  fix p st assume "setup_vols_ok pu \<and> proc_ok pu p" and J: "parity_inv pu st"
  then have su: "setup_vols_ok pu" and p: "proc_ok pu p" by auto
  show "\<exists>p' s'. parity_step (d_setID (pu_d pu)) (pu_retain pu) (pu_vols pu) p st = Inr (p', s') \<and> parity_inv pu s' \<and>
      mset (ps_events s') + left_by (proc_todo pu) p' = mset (ps_events st) + proc_todo pu p \<and>
      (case p' of None \<Rightarrow> True | Some q \<Rightarrow> (setup_vols_ok pu \<and> proc_ok pu q) \<and> proc_size q < proc_size p)"
  proof (cases p)
    case (ParityTask t)
    with p have "ptask_ok pu t" by (simp add: proc_ok_def)
    from task_step [OF su this] ParityTask J su show ?thesis by (fastforce simp: proc_todo_def proc_size_def)
  next
    case pk: (ParityPackets vi pi fin buf first)
    show ?thesis
    proof (cases "pi < fin")
      case True
      from packets_step [OF su J p [unfolded pk] True] obtain st' where
        st': "parity_step (d_setID (pu_d pu)) (pu_retain pu) (pu_vols pu) p st
          = Inr (Some (ParityPackets vi (pi + 1) fin buf first), st')" "parity_inv pu st'"
        "ps_events st' = ps_events st @ [event_at pu vi pi]" unfolding pk by blast
      have "proc_ok pu (ParityPackets vi (pi + 1) fin buf first)"
        using p True pk by (auto simp: proc_ok_def Let_def intro: le_SucI)
      moreover have "mset (map (event_at pu vi) [pi..<fin]) = add_mset (event_at pu vi pi) (mset (map (event_at pu vi) [Suc pi..<fin]))"
        by (simp add: upt_conv_Cons [OF True] del: mset_upt)
      ultimately show ?thesis
        using st' su True pk
        by (intro exI [of _ "Some (ParityPackets vi (pi + 1) fin buf first)"] exI [of _ st'])
          (simp add: proc_todo_def proc_size_def diff_less_mono2 del: mset_map mset_upt)
    next
      case False
      with p pk have "pi = fin" by (auto simp: proc_ok_def Let_def)
      with pk J show ?thesis by (simp add: parity_step_def proc_todo_def)
    qed
  qed
qed auto

end
