(* ===== verification/ParityResult.thy ===== *)
theory ParityResult
  imports ParityLoaded DecoderVerdict
begin

text \<open>
  The result of \<open>LoadParityData\<close> and \<open>LoadParityPresence\<close>: the tasks cut every volume into runs of packets
  that cover it once, so the pool's tally is the events of all packets, and sorting puts them in the
  order of a sequential walk.
\<close>

section \<open>The tasks of a volume\<close>

lemma task_end_le: "fin \<le> length refs \<Longrightarrow> task_end refs pi fin \<le> length refs"
proof (induction refs pi fin rule: task_end.induct)
  case (1 refs pi fin)
  then show ?case by (subst task_end.simps) auto
qed

lemma volume_tasks_cover:
  assumes "pi \<le> length refs"
  shows "concat (map (\<lambda>t. [pt_pi t..<pt_end t]) (volume_tasks refs vi pi)) = [pi..<length refs]"
    and "\<forall>t \<in> set (volume_tasks refs vi pi). pt_vi t = vi \<and> pt_pi t < pt_end t \<and> pt_end t \<le> length refs"
  using assms
proof (induction refs vi pi rule: volume_tasks.induct)
  case (1 refs vi pi)
  let ?fin = "task_end refs pi (pi + 1)"
  { case 1
    then show ?case
      using "1.IH"(1) [OF _ refl] task_end_ge [of "pi + 1" refs pi] task_end_le [of "pi + 1" refs pi]
        upt_add_eq_append [of pi ?fin "length refs - ?fin"]
      by (subst volume_tasks.simps) (auto simp: Let_def)
  next
    case 2
    then show ?case
      using "1.IH"(2) [OF _ refl] task_end_ge [of "pi + 1" refs pi] task_end_le [of "pi + 1" refs pi]
      by (subst volume_tasks.simps) (auto simp: Let_def)
  }
qed

section \<open>All events, in order\<close>

definition all_events :: "parity_setup \<Rightarrow> (nat \<times> nat \<times> delegate_event) list" where
  "all_events pu = concat (map (\<lambda>vi. map (event_at pu vi) [0..<length (pu_packets pu ! vi)]) [0..<length (pu_vols pu)])"

abbreviation event_key :: "nat \<times> nat \<times> delegate_event \<Rightarrow> nat \<times> nat" where
  "event_key \<equiv> \<lambda>(vi, pi, e). (vi, pi)"

lemma sorted_events: "sorted (map event_key (all_events pu))"
proof -
  have "sorted (concat (map (\<lambda>vi. map (\<lambda>pi. (vi, pi)) [0..<f vi]) [a..<n]))" for f :: "nat \<Rightarrow> nat" and a n
  proof (induction "n - a" arbitrary: a)
    case (Suc m)
    then have "a < n" by simp
    moreover have "sorted (map (\<lambda>pi. (a, pi)) [0..<k])" for k :: nat
      by (simp add: sorted_wrt_map sorted_map)
    moreover have "sorted (concat (map (\<lambda>vi. map (\<lambda>pi. (vi, pi)) [0..<f vi]) [Suc a..<n]))"
      using Suc.hyps(1) [of "Suc a"] Suc.hyps(2) by simp
    ultimately show ?case by (auto simp: upt_conv_Cons sorted_append)
  qed simp
  from this [where f = "\<lambda>vi. length (pu_packets pu ! vi)" and a = 0] show ?thesis
    by (simp add: all_events_def map_concat event_at_def comp_def)
qed

lemma events_inj: "inj_on event_key (set (all_events pu))"
  by (auto simp: all_events_def event_at_def inj_on_def)

lemma sort_events: "mset xs = mset (all_events pu) \<Longrightarrow> sort_key event_key xs = all_events pu"
  using sort_key_inj_key_eq [OF _ _ sorted_events [of pu], of xs] events_inj [of pu] mset_eq_setD by metis

lemma tasks_tally:
  assumes "setup_vols_ok pu"
  shows "(\<Sum>t\<leftarrow>parity_tasks (map (\<lambda>v. (v, None)) (pu_vols pu)). proc_todo pu (ParityTask t)) = mset (all_events pu)"
    and "\<forall>t \<in> set (parity_tasks (map (\<lambda>v. (v, None)) (pu_vols pu))). setup_vols_ok pu \<and> ptask_ok pu t"
proof -
  let ?ts = "\<lambda>vi. volume_tasks (vo_refs (pu_vols pu ! vi)) vi 0"
  have tasks: "parity_tasks (map (\<lambda>v. (v, None)) (pu_vols pu)) = concat (map ?ts [0..<length (pu_vols pu)])"
    unfolding parity_tasks_def by (rule arg_cong [where f = concat]) auto
  have len: "length (vo_refs (pu_vols pu ! vi)) = length (pu_packets pu ! vi)" if "vi < length (pu_vols pu)" for vi
    using setup_volD [OF assms that] by simp
  have "(\<Sum>t\<leftarrow>?ts vi. proc_todo pu (ParityTask t)) = mset (map (event_at pu vi) [0..<length (pu_packets pu ! vi)])"
    if vi: "vi < length (pu_vols pu)" for vi
  proof -
    have "(\<Sum>t\<leftarrow>ts. proc_todo pu (ParityTask t)) = mset (map (event_at pu vi) (concat (map (\<lambda>t. [pt_pi t..<pt_end t]) ts)))"
      if "\<forall>t \<in> set ts. pt_vi t = vi" for ts
      using that by (induction ts) (simp_all add: proc_todo_def del: mset_map mset_upt)
    then show ?thesis using volume_tasks_cover [of 0 "vo_refs (pu_vols pu ! vi)" vi] len [OF vi] by (simp del: mset_map mset_upt)
  qed
  then have "(\<Sum>vi\<leftarrow>is. \<Sum>t\<leftarrow>?ts vi. proc_todo pu (ParityTask t))
      = mset (concat (map (\<lambda>vi. map (event_at pu vi) [0..<length (pu_packets pu ! vi)]) is))"
    if "\<forall>vi \<in> set is. vi < length (pu_vols pu)" for "is"
    using that by (induction "is") (simp_all del: mset_map mset_upt)
  moreover have "(\<Sum>t\<leftarrow>concat tss. f t) = (\<Sum>ts\<leftarrow>tss. \<Sum>t\<leftarrow>ts. f t)"
    for tss :: "parity_task list list" and f :: "parity_task \<Rightarrow> (nat \<times> nat \<times> delegate_event) multiset"
    by (induction tss) simp_all
  ultimately
  show "(\<Sum>t\<leftarrow>parity_tasks (map (\<lambda>v. (v, None)) (pu_vols pu)). proc_todo pu (ParityTask t)) = mset (all_events pu)"
    unfolding tasks all_events_def by (simp add: comp_def del: mset_map mset_upt)
  show "\<forall>t \<in> set (parity_tasks (map (\<lambda>v. (v, None)) (pu_vols pu))). setup_vols_ok pu \<and> ptask_ok pu t"
    unfolding tasks using assms volume_tasks_cover(2) [of 0] len by (fastforce simp: ptask_ok_def)
qed

section \<open>Opening the volumes\<close>

text \<open>A volume file that is a stream of valid packets.\<close>

definition volume_file :: "('fs, 'w) fileIO \<Rightarrow> 'fs \<Rightarrow> decoder \<Rightarrow> gostring \<Rightarrow> packet list \<Rightarrow> bool" where
  "volume_file io fs d path ps \<longleftrightarrow> path \<noteq> [] \<and>
     (\<exists>r. io_OpenRead io fs path = Inr (r, int (length (stream ps))) \<and> reader_over r (stream ps)) \<and>
     (\<forall>p \<in> set ps. volume_packet p \<and> packet_good d p)"

lemma open_volume_file:
  assumes "volume_file io fs d path ps"
  shows "\<exists>r. open_volume io fs path = Some (\<lparr> vo_path = path, vo_r = Some r, vo_refs = refs_of 0 ps \<rparr>, None) \<and>
    reader_over r (stream ps)"
proof -
  from assms obtain r where r: "io_OpenRead io fs path = Inr (r, int (length (stream ps)))" "reader_over r (stream ps)"
    and ps: "\<forall>p \<in> set ps. volume_packet p" by (auto simp: volume_file_def)
  have "indexPackets r (int (length (stream ps))) = Some (Inr (refs_of 0 ps))"
    using reader_over.index_stream [OF r(2), of "[]" ps "[]"] ps by (simp add: indexPackets_def)
  with r show ?thesis by (auto simp: open_volume_def)
qed

lemma open_volumes_files:
  assumes "list_all2 (volume_file io fs d) matches pss"
  shows "\<exists>vols. open_volumes io fs matches = Some (map (\<lambda>v. (v, None)) vols) \<and> map vo_path vols = matches \<and>
    list_all2 (\<lambda>v ps. vo_path v \<noteq> [] \<and> vo_refs v = refs_of 0 ps \<and> (\<exists>r. vo_r v = Some r \<and> reader_over r (stream ps)) \<and>
      (\<forall>p \<in> set ps. volume_packet p \<and> packet_good d p)) vols pss"
  using assms
proof (induction rule: list_all2_induct)
  case (Cons m ms ps pss)
  then obtain vols where vols: "open_volumes io fs ms = Some (map (\<lambda>v. (v, None)) vols)" "map vo_path vols = ms"
    "list_all2 (\<lambda>v ps. vo_path v \<noteq> [] \<and> vo_refs v = refs_of 0 ps \<and> (\<exists>r. vo_r v = Some r \<and> reader_over r (stream ps)) \<and>
      (\<forall>p \<in> set ps. volume_packet p \<and> packet_good d p)) vols pss" by blast
  from open_volume_file [OF Cons.hyps(1)] obtain r where
    r: "open_volume io fs m = Some (\<lparr> vo_path = m, vo_r = Some r, vo_refs = refs_of 0 ps \<rparr>, None)" "reader_over r (stream ps)" by blast
  have "m \<noteq> [] \<and> (\<forall>p \<in> set ps. volume_packet p \<and> packet_good d p)" using Cons.hyps(1) by (simp add: volume_file_def)
  with vols r show ?case
    by (intro exI [of _ "\<lparr> vo_path = m, vo_r = Some r, vo_refs = refs_of 0 ps \<rparr> # vols"]) simp
qed simp

section \<open>The result\<close>

lemma report_volumes_ok:
  assumes "\<forall>k < i + length vs. volume_err d st k = None"
  shows "report_volumes d st vs i = (map (\<lambda>k. OnParityFileLoad (Suc (i + k)) (vo_path (vs ! k)) None) [0..<length vs], None)"
  using assms
proof (induction vs arbitrary: i)
  case (Cons v vs)
  have "report_volumes d st vs (Suc i) = (map (\<lambda>k. OnParityFileLoad (Suc (Suc i + k)) (vo_path (vs ! k)) None) [0..<length vs], None)"
    using Cons.prems by (intro Cons.IH) simp
  moreover have "volume_err d st i = None" using Cons.prems by simp
  moreover have "[0..<length (v # vs)] = 0 # map Suc [0..<length vs]" by (simp add: upt_conv_Cons map_Suc_upt del: upt_Suc)
  ultimately show ?case by (simp add: Let_def del: upt_Suc)
qed simp

definition parity_events :: "decoder \<Rightarrow> gostring list \<Rightarrow> packet list list \<Rightarrow> decoder_event list" where
  "parity_events d matches pss = concat (map (\<lambda>ps. concat (map (shown_events (d_setID d)) ps)) pss) @
     map (\<lambda>i. OnParityFileLoad (i + 1) (matches ! i) None) [0..<length matches]"

lemma concat_map_concat: "concat (concat (map f xs)) = concat (map (\<lambda>x. concat (f x)) xs)"
  by (induction xs) simp_all

lemma replay_events:
  assumes "setup_vols_ok pu"
  shows "concat (map (\<lambda>(vi, pi, e). recoveryDelegate e) (all_events pu))
    = concat (map (\<lambda>ps. concat (map (shown_events (d_setID (pu_d pu))) ps)) (pu_packets pu))"
proof -
  have vol: "concat (map (\<lambda>(vi, pi, e). recoveryDelegate e) (map (event_at pu vi) [0..<length (pu_packets pu ! vi)]))
      = concat (map (shown_events (d_setID (pu_d pu))) (pu_packets pu ! vi))" if "vi < length (pu_vols pu)" for vi
  proof -
    have "recoveryDelegate (packet_event (d_setID (pu_d pu)) p) = shown_events (d_setID (pu_d pu)) p"
      if "p \<in> set (pu_packets pu ! vi)" for p
      using setup_volD [OF assms \<open>vi < length (pu_vols pu)\<close>] that packet_event_shown by (metis prod_cases3)
    then have "map (\<lambda>k. recoveryDelegate (packet_event (d_setID (pu_d pu)) (pu_packets pu ! vi ! k))) [0..<length (pu_packets pu ! vi)]
        = map (shown_events (d_setID (pu_d pu))) (pu_packets pu ! vi)"
      by (intro nth_equalityI) simp_all
    then show ?thesis by (simp add: event_at_def comp_def)
  qed
  have "concat (map (\<lambda>(vi, pi, e). recoveryDelegate e) (all_events pu))
    = concat (map (\<lambda>vi. concat (map (\<lambda>(vi, pi, e). recoveryDelegate e) (map (event_at pu vi) [0..<length (pu_packets pu ! vi)])))
        [0..<length (pu_vols pu)])"
    unfolding all_events_def map_concat by (simp only: concat_map_concat map_map comp_def)
  also have "\<dots> = concat (map (\<lambda>vi. concat (map (shown_events (d_setID (pu_d pu))) (pu_packets pu ! vi))) [0..<length (pu_vols pu)])"
    using vol by (intro arg_cong [where f = concat]) simp
  also have "map (\<lambda>vi. concat (map (shown_events (d_setID (pu_d pu))) (pu_packets pu ! vi))) [0..<length (pu_vols pu)]
      = map (\<lambda>ps. concat (map (shown_events (d_setID (pu_d pu))) ps)) (pu_packets pu)"
    using assms by (intro nth_equalityI) (simp_all add: setup_vols_ok_def)
  finally show ?thesis .
qed

lemma loadParityData_ok:
  assumes find: "io_FindWithPrefixAndSuffix io fs
      (take (length (d_indexPath d) - length (path_Ext (d_indexPath d))) (d_indexPath d) @ [dot]) (path_Ext (d_indexPath d)) = Inr matches"
    and files: "list_all2 (volume_file io fs d) matches pss"
  shows "\<exists>pu present locs. setup_vols_ok pu \<and> pu_d pu = d \<and> pu_retain pu = retain \<and> pu_packets pu = pss \<and>
    map vo_path (pu_vols pu) = matches \<and> books_ok pu (set (all_events pu)) present locs \<and>
    loadParityData sched io fs retain d = Some (Inr (parity_events d matches pss,
      Inr (d\<lparr> d_parityPresent := present, d_parityLocations := locs \<rparr>)))"
proof -
  from open_volumes_files [OF files] obtain vols where
    opened: "open_volumes io fs matches = Some (map (\<lambda>v. (v, None)) vols)" and paths: "map vo_path vols = matches"
    and vols: "list_all2 (\<lambda>v ps. vo_path v \<noteq> [] \<and> vo_refs v = refs_of 0 ps \<and> (\<exists>r. vo_r v = Some r \<and> reader_over r (stream ps)) \<and>
      (\<forall>p \<in> set ps. volume_packet p \<and> packet_good d p)) vols pss" by blast
  define pu where "pu = \<lparr> pu_d = d, pu_retain = retain, pu_vols = vols, pu_packets = pss \<rparr>"
  have sel: "pu_d pu = d" "pu_retain pu = retain" "pu_vols pu = vols" "pu_packets pu = pss" by (simp_all add: pu_def)
  have su: "setup_vols_ok pu"
    using vols by (auto simp: setup_vols_ok_def sel Let_def list_all2_conv_all_nth)
  define st where "st = \<lparr> ps_errs = map snd (map (\<lambda>v. (v, None :: go_error option)) vols), ps_events = [], ps_present = [],
    ps_locations = [], ps_found = replicate (length vols) False, ps_main = replicate (length vols) None \<rparr>"
  have st: "\<lparr> ps_errs = map snd (map (\<lambda>v. (v, None :: go_error option)) vols), ps_events = [], ps_present = [],
    ps_locations = [], ps_found = replicate (length (map (\<lambda>v. (v, None :: go_error option)) vols)) False,
    ps_main = replicate (length (map (\<lambda>v. (v, None :: go_error option)) vols)) None \<rparr> = st" by (simp add: st_def)
  have J: "parity_inv pu st" by (simp add: parity_inv_def st_def sel books_ok_init)
  have n: "0 < nat (max (d_numGoroutines d) 1) \<or> parity_tasks (map (\<lambda>v. (v, None)) (pu_vols pu)) = []"
    by (simp add: less_max_iff_disj)
  from parity_pool.run_tally [OF n tasks_tally(2) [OF su] J, of sched] obtain c where
    c: "pool_run ParityTask (parity_step (d_setID (pu_d pu)) (pu_retain pu) (pu_vols pu)) sched
      (pool_init (nat (max (d_numGoroutines d) 1)) (parity_tasks (map (\<lambda>v. (v, None)) (pu_vols pu))) st) = Some (Inr c)"
    and inv: "parity_inv pu (pl_shared c)" and got: "mset (ps_events (pl_shared c)) = mset (all_events pu)"
    unfolding tasks_tally(1) [OF su] by (auto simp: st_def)
  have sorted: "sort_key event_key (ps_events (pl_shared c)) = all_events pu" by (rule sort_events [OF got])
  have "volume_err d (pl_shared c) k = None" if "k < length vols" for k
    using inv that by (auto simp: volume_err_def parity_inv_def sel split: option.splits)
  then have report: "report_volumes d (pl_shared c) vols 0
      = (map (\<lambda>k. OnParityFileLoad (k + 1) (matches ! k) None) [0..<length matches], None)"
    using report_volumes_ok [of 0 vols d "pl_shared c"] paths by auto
  have "loadParityData sched io fs retain d = Some (Inr (parity_events d matches pss,
      Inr (d\<lparr> d_parityPresent := ps_present (pl_shared c), d_parityLocations := ps_locations (pl_shared c) \<rparr>)))"
    unfolding loadParityData_def Let_def find opened sum.case option.case st
    using c [unfolded sel] sorted replay_events [OF su, unfolded sel] report
    by (simp add: comp_def parity_events_def)
  moreover have "books_ok pu (set (all_events pu)) (ps_present (pl_shared c)) (ps_locations (pl_shared c))"
    using inv mset_eq_setD [OF got] by (simp add: parity_inv_def)
  ultimately show ?thesis using su sel paths by blast
qed

text \<open>The entry for exponent \<open>e\<close>: the data of a block in the first volume that has one.\<close>

definition block_located :: "recoverySetID \<Rightarrow> gostring list \<Rightarrow> packet list list \<Rightarrow> nat \<Rightarrow> parityLocation \<Rightarrow> bool" where
  "block_located s matches pss e loc \<longleftrightarrow> (\<exists>i < length pss. pl_path loc = matches ! i \<and>
     (\<forall>j < i. \<forall>p \<in> set (pss ! j). \<not> is_block s e p) \<and>
     (\<exists>p \<in> set (pss ! i). is_block s e p \<and> 0 \<le> pl_offset loc \<and> pl_length loc = int (length (drop 4 (snd (snd p)))) \<and>
        take (nat (pl_length loc)) (drop (nat (pl_offset loc)) (stream (pss ! i))) = drop 4 (snd (snd p))))"

lemma blocks_all:
  assumes "setup_vols_ok pu"
  shows "(vi, pi) \<in> blocks (set (all_events pu)) e \<longleftrightarrow> vi < length (pu_packets pu) \<and> pi < length (pu_packets pu ! vi) \<and>
    is_block (d_setID (pu_d pu)) e (pu_packets pu ! vi ! pi)"
proof -
  have ev: "(vi, pi, x) \<in> set (all_events pu) \<longleftrightarrow> vi < length (pu_vols pu) \<and> pi < length (pu_packets pu ! vi) \<and>
      x = packet_event (d_setID (pu_d pu)) (pu_packets pu ! vi ! pi)" for x
    by (auto simp: all_events_def event_at_def image_iff)
  have len: "length (pu_vols pu) = length (pu_packets pu)" using assms by (simp add: setup_vols_ok_def)
  have "(\<exists>ex n. packet_event (d_setID (pu_d pu)) p = OnRecoveryPacketLoad ex n \<and> unat ex = e)
      \<longleftrightarrow> is_block (d_setID (pu_d pu)) e p" if "packet_good (pu_d pu) p" for p
  proof -
    obtain i t b where p: "p = (i, t, b)" by (cases p)
    have "is_block (d_setID (pu_d pu)) e (i, t, b) \<Longrightarrow> e = unat (exponent_of b)" by (simp add: is_block_def)
    then show ?thesis using packet_event_block [OF that [unfolded p]] unfolding p by blast
  qed
  moreover have "packet_good (pu_d pu) (pu_packets pu ! vi ! pi)"
    if "vi < length (pu_vols pu)" "pi < length (pu_packets pu ! vi)"
    using setup_volD [OF assms that(1)] nth_mem [OF that(2)] by blast
  ultimately have "vi < length (pu_vols pu) \<Longrightarrow> pi < length (pu_packets pu ! vi) \<Longrightarrow>
      (\<exists>ex n. OnRecoveryPacketLoad ex n = packet_event (d_setID (pu_d pu)) (pu_packets pu ! vi ! pi) \<and> unat ex = e)
      \<longleftrightarrow> is_block (d_setID (pu_d pu)) e (pu_packets pu ! vi ! pi)" by metis
  then show ?thesis unfolding blocks_def mem_Collect_eq case_prod_conv ev len [symmetric] by blast
qed

lemma loc_of_located:
  assumes su: "setup_vols_ok pu" and mem: "(vi, pi) \<in> blocks (set (all_events pu)) e"
    and least: "\<forall>(vj, pj) \<in> blocks (set (all_events pu)) e. vi \<le> vj"
  shows "block_located (d_setID (pu_d pu)) (map vo_path (pu_vols pu)) (pu_packets pu) e (loc_of pu vi pi)"
proof -
  let ?ps = "pu_packets pu ! vi"
  obtain i t b where p: "?ps ! pi = (i, t, b)" by (metis prod_cases3)
  have vi: "vi < length (pu_packets pu)" "pi < length ?ps" and blk: "is_block (d_setID (pu_d pu)) e (i, t, b)"
    using mem unfolding blocks_all [OF su] p by auto
  have len: "length (pu_vols pu) = length (pu_packets pu)" using su by (simp add: setup_vols_ok_def)
  have "packet_good (pu_d pu) (i, t, b)" using setup_volD [OF su, of vi] vi len nth_mem [OF vi(2)] p by simp
  then obtain ex rp where "readRecoveryPacket b = Inr (ex, rp)"
    using blk by (auto simp: is_block_def packet_good_def packet_types_distinct [symmetric] split: sum.splits)
  then have b4: "4 \<le> length b" by (rule readRecoveryPacket_exponent)
  have "stream ?ps = stream (take pi ?ps) @ packet_bytes i t b @ stream (drop (Suc pi) ?ps)"
    using stream_drop_take [of 0 pi "length ?ps" ?ps] vi(2) p by simp
  then have split: "stream ?ps = (stream (take pi ?ps) @ header_bytes (packet_header i t b) @ take 4 b) @ drop 4 b @ stream (drop (Suc pi) ?ps)"
    by (simp add: packet_bytes_def)
  have off: "nat (pl_offset (loc_of pu vi pi)) = length (stream (take pi ?ps) @ header_bytes (packet_header i t b) @ take 4 b)"
    using b4 by (simp add: loc_of_def offset_of_def nat_add_distrib)
  have "take (nat (pl_length (loc_of pu vi pi))) (drop (nat (pl_offset (loc_of pu vi pi))) (stream ?ps)) = drop 4 b"
    unfolding off by (subst split) (use b4 p in \<open>simp add: loc_of_def nat_diff_distrib\<close>)
  moreover have "pl_length (loc_of pu vi pi) = int (length (drop 4 b))" using b4 p by (simp add: loc_of_def of_nat_diff)
  moreover have "\<not> is_block (d_setID (pu_d pu)) e q" if "j < vi" "q \<in> set (pu_packets pu ! j)" for j q
  proof
    assume q: "is_block (d_setID (pu_d pu)) e q"
    from that(2) obtain k where "k < length (pu_packets pu ! j)" "pu_packets pu ! j ! k = q" by (auto simp: in_set_conv_nth)
    then have "(j, k) \<in> blocks (set (all_events pu)) e" using q that(1) vi(1) by (simp add: blocks_all [OF su])
    with least that(1) show False by auto
  qed
  moreover have "pl_path (loc_of pu vi pi) = map vo_path (pu_vols pu) ! vi" using vi len by (simp add: loc_of_def)
  moreover have "0 \<le> pl_offset (loc_of pu vi pi)" by (simp add: loc_of_def)
  moreover have "(i, t, b) \<in> set ?ps" using vi(2) p by (metis nth_mem)
  ultimately show ?thesis
    unfolding block_located_def using vi(1) blk by (intro exI [of _ vi] conjI bexI [of _ "(i, t, b)"]) simp_all
qed

lemma present_unique:
  assumes "\<And>e. e < length a \<and> a ! e \<longleftrightarrow> e < length b \<and> b ! e"
    and "a \<noteq> [] \<longrightarrow> last a" and "b \<noteq> [] \<longrightarrow> last b"
  shows "a = b"
proof -
  have le: "length x \<le> length y" if "\<And>e. e < length x \<and> x ! e \<longleftrightarrow> e < length y \<and> y ! e" "x \<noteq> [] \<longrightarrow> last x" for x y :: "bool list"
  proof (cases "x = []")
    case False
    then have "length x - 1 < length x \<and> x ! (length x - 1)" using that(2) by (simp add: last_conv_nth)
    then have "length x - 1 < length y" using that(1) by blast
    with False show ?thesis by (cases "length x") simp_all
  qed simp
  have "length a \<le> length b" using assms(1,2) by (rule le)
  moreover have "length b \<le> length a" using assms(1) [symmetric] assms(3) by (rule le)
  ultimately have len: "length a = length b" by simp
  have "a ! e = b ! e" if "e < length a" for e using assms(1) [of e] that len by simp
  with len show ?thesis by (rule nth_equalityI)
qed

text \<open>
  Two blocks with one exponent inside one volume: the packet that is handled first stays, so that when
  the two are in different tasks the scheduler decides.  Nothing checks that they hold the same data.
\<close>

lemma handle_block_same_volume:
  assumes "length (ps_locations st) = length (ps_present st)" and "length (ps_present st) \<le> e" and "path \<noteq> []"
  shows "pl_offset (ps_locations (handle_block True vi path e o2 n2 (handle_block True vi path e o1 n1 st)) ! e) = o1 + 68"
  using assms by (simp add: handle_block_def Let_def nth_append zero_location_def)

lemma LoadParity_table:
  assumes "io_FindWithPrefixAndSuffix io fs
      (take (length (d_indexPath d) - length (path_Ext (d_indexPath d))) (d_indexPath d) @ [dot]) (path_Ext (d_indexPath d)) = Inr matches"
    and "list_all2 (volume_file io fs d) matches pss"
  shows "\<exists>present. (\<forall>e. e < length present \<and> present ! e \<longleftrightarrow> (\<exists>ps \<in> set pss. \<exists>p \<in> set ps. is_block (d_setID d) e p)) \<and>
    (present \<noteq> [] \<longrightarrow> last present) \<and>
    (\<forall>sched. \<exists>locs. LoadParityPresence sched io fs d = Some (Inr (parity_events d matches pss,
       Inr (d\<lparr> d_parityPresent := present, d_parityLocations := locs \<rparr>)))) \<and>
    (\<forall>sched. \<exists>locs. LoadParityData sched io fs d = Some (Inr (parity_events d matches pss,
       Inr (d\<lparr> d_parityPresent := present, d_parityLocations := locs \<rparr>))) \<and> length locs = length present \<and>
       (\<forall>e < length present. present ! e \<longrightarrow> block_located (d_setID d) matches pss e (locs ! e)))"
proof -
  have truth: "(\<exists>ps \<in> set pss. \<exists>p \<in> set ps. is_block (d_setID d) e p) \<longleftrightarrow> blocks (set (all_events pu)) e \<noteq> {}"
    if "setup_vols_ok pu" "pu_d pu = d" "pu_packets pu = pss" for pu e
    using blocks_all [OF that(1)] that(2,3) by (fastforce simp: in_set_conv_nth)
  have load: "\<exists>present locs. loadParityData sched io fs retain d = Some (Inr (parity_events d matches pss,
      Inr (d\<lparr> d_parityPresent := present, d_parityLocations := locs \<rparr>))) \<and> length locs = length present \<and>
      (\<forall>e. e < length present \<and> present ! e \<longleftrightarrow> (\<exists>ps \<in> set pss. \<exists>p \<in> set ps. is_block (d_setID d) e p)) \<and>
      (present \<noteq> [] \<longrightarrow> last present) \<and>
      (retain \<longrightarrow> (\<forall>e < length present. present ! e \<longrightarrow> block_located (d_setID d) matches pss e (locs ! e)))" for sched retain
  proof -
    from loadParityData_ok [OF assms, of retain sched] obtain pu present locs where
      pu: "setup_vols_ok pu" "pu_d pu = d" "pu_retain pu = retain" "pu_packets pu = pss" "map vo_path (pu_vols pu) = matches"
      and books: "books_ok pu (set (all_events pu)) present locs"
      and run: "loadParityData sched io fs retain d = Some (Inr (parity_events d matches pss,
        Inr (d\<lparr> d_parityPresent := present, d_parityLocations := locs \<rparr>)))" by blast
    have "block_located (d_setID d) matches pss e (locs ! e)" if "retain" "e < length present" "present ! e" for e
    proof -
      have "location_ok pu (blocks (set (all_events pu)) e) (locs ! e)" "blocks (set (all_events pu)) e \<noteq> {}"
        using books pu(3) that by (auto simp: books_ok_def)
      then obtain vi pi where "(vi, pi) \<in> blocks (set (all_events pu)) e" "locs ! e = loc_of pu vi pi"
        "\<forall>(vj, pj) \<in> blocks (set (all_events pu)) e. vi \<le> vj" by (auto simp: location_ok_def)
      then show ?thesis using loc_of_located [OF pu(1), of vi pi e] pu by simp
    qed
    moreover have "\<forall>e. e < length present \<and> present ! e \<longleftrightarrow> (\<exists>ps \<in> set pss. \<exists>p \<in> set ps. is_block (d_setID d) e p)"
      unfolding truth [OF pu(1,2,4)] using books by (simp add: books_ok_def)
    moreover have "length locs = length present" "present \<noteq> [] \<longrightarrow> last present" using books by (simp_all add: books_ok_def)
    ultimately show ?thesis using run by blast
  qed
  from load [of "[]" True] obtain present where
    p: "\<And>e. e < length present \<and> present ! e \<longleftrightarrow> (\<exists>ps \<in> set pss. \<exists>p \<in> set ps. is_block (d_setID d) e p)"
    "present \<noteq> [] \<longrightarrow> last present" by blast
  have same: "\<exists>locs. loadParityData sched io fs retain d = Some (Inr (parity_events d matches pss,
      Inr (d\<lparr> d_parityPresent := present, d_parityLocations := locs \<rparr>))) \<and> length locs = length present \<and>
      (retain \<longrightarrow> (\<forall>e < length present. present ! e \<longrightarrow> block_located (d_setID d) matches pss e (locs ! e)))" for sched retain
  proof -
    from load [of sched retain] obtain q locs where
      q: "loadParityData sched io fs retain d = Some (Inr (parity_events d matches pss,
        Inr (d\<lparr> d_parityPresent := q, d_parityLocations := locs \<rparr>)))" "length locs = length q"
      "\<And>e. e < length q \<and> q ! e \<longleftrightarrow> (\<exists>ps \<in> set pss. \<exists>p \<in> set ps. is_block (d_setID d) e p)" "q \<noteq> [] \<longrightarrow> last q"
      "retain \<longrightarrow> (\<forall>e < length q. q ! e \<longrightarrow> block_located (d_setID d) matches pss e (locs ! e))" by blast
    have "q = present" by (rule present_unique) (use q(3,4) p in simp_all)
    with q show ?thesis by blast
  qed
  show ?thesis
    unfolding LoadParityPresence_def LoadParityData_def
    using p same [of _ False] same [of _ True] by (intro exI [of _ present]) blast
qed

text \<open>
  C8: Loading the recovery blocks is complete, and independent of the schedule and of the mode.  Let the
  volumes found be streams of valid packets.  Then there is one table of exponents, true exactly for those
  of the blocks of the set in any volume and ending with the largest of them, that \<open>LoadParityPresence\<close> and \<open>LoadParityData\<close> both return for
  every number of workers and every schedule, with the delegate calls in the order of a walk over all
  packets.  \<open>LoadParityData\<close> also returns, for every exponent, where the data of a block is: always in the
  first volume that has a block with the exponent, whichever worker came first.
\<close>

theorem LoadParity_complete:
  assumes "io_FindWithPrefixAndSuffix io fs
      (take (length (d_indexPath d) - length (path_Ext (d_indexPath d))) (d_indexPath d) @ [dot]) (path_Ext (d_indexPath d)) = Inr matches"
    and "list_all2 (volume_file io fs d) matches pss"
  shows "\<exists>present. (\<forall>e. e < length present \<and> present ! e \<longleftrightarrow> (\<exists>ps \<in> set pss. \<exists>p \<in> set ps. is_block (d_setID d) e p)) \<and>
    (present \<noteq> [] \<longrightarrow> last present) \<and>
    (\<forall>sched. \<exists>locs. LoadParityPresence sched io fs d = Some (Inr (parity_events d matches pss,
       Inr (d\<lparr> d_parityPresent := present, d_parityLocations := locs \<rparr>)))) \<and>
    (\<forall>sched. \<exists>locs. LoadParityData sched io fs d = Some (Inr (parity_events d matches pss,
       Inr (d\<lparr> d_parityPresent := present, d_parityLocations := locs \<rparr>))) \<and> length locs = length present \<and>
       (\<forall>e < length present. present ! e \<longrightarrow> block_located (d_setID d) matches pss e (locs ! e)))"
  using assms by (rule LoadParity_table)

text \<open>One volume with the block of exponent 3.\<close>

theorem LoadParity_complete_witness:
  "\<exists>present. 3 < length present \<and> present ! 3 \<and>
    (\<exists>events locs. LoadParityData [1, 0] memfs_io \<lparr> fs_workingDir = str ''/'', fs_fileData = [(str ''/s.v.par2'',
        stream [(zero_arr, recoveryPacketType, [3, 0, 0, 0, 9, 9, 9, 9])])] \<rparr> (example_decoder defaultScanPolicy)
      = Some (Inr (events, Inr ((example_decoder defaultScanPolicy)\<lparr> d_parityPresent := present, d_parityLocations := locs \<rparr>))))"
proof -
  let ?ps = "[(zero_arr, recoveryPacketType, [3, 0, 0, 0, 9, 9, 9, 9])] :: packet list"
  let ?fs = "\<lparr> fs_workingDir = str ''/'', fs_fileData = [(str ''/s.v.par2'', stream ?ps)] \<rparr>"
  let ?d = "example_decoder defaultScanPolicy"
  have d: "d_indexPath ?d = str ''/s.par2''" "d_setID ?d = zero_arr" by (simp_all add: example_decoder_def)
  have ext: "path_Ext (str ''/s.par2'') = str ''.par2''" by code_simp
  have base: "take (length (str ''/s.par2'') - length (str ''.par2'')) (str ''/s.par2'') @ [dot] = str ''/s.''" by code_simp
  have abs: "toAbsPath (str ''/'') (str ''/s.'') = Inr (str ''/s.'')"
    "toAbsPath (str ''/'') (str ''/s.v.par2'') = Inr (str ''/s.v.par2'')" by code_simp+
  have name: "HasPrefix (str ''/s.v.par2'') (str ''/s.'')" "HasSuffix (str ''/s.v.par2'') (str ''.par2'')" by code_simp+
  have find: "io_FindWithPrefixAndSuffix memfs_io ?fs
      (take (length (d_indexPath ?d) - length (path_Ext (d_indexPath ?d))) (d_indexPath ?d) @ [dot]) (path_Ext (d_indexPath ?d))
    = Inr [str ''/s.v.par2'']"
    unfolding d ext base by (simp add: memfs_io_def FindWithPrefixAndSuffix_def abs name Paths_def)
  have body: "readRecoveryPacket [3, 0, 0, 0, 9, 9, 9, 9] = Inr (3, \<lparr> rp_data = [9, 9, 9, 9] \<rparr>)"
    by (simp add: readRecoveryPacket_def Let_def)
  then have good: "packet_good ?d p" if "p \<in> set ?ps" for p
    using that by (simp add: packet_good_def packet_types_distinct [symmetric])
  have "str ''/s.v.par2'' \<noteq> []" by code_simp
  then have "volume_file memfs_io ?fs ?d (str ''/s.v.par2'') ?ps"
    using good bytes_reader.reader_over_axioms
    by (auto simp: volume_file_def memfs_io_def OpenRead_def ReadFile_def abs maxPacketLength_def)
  then have "list_all2 (volume_file memfs_io ?fs ?d) [str ''/s.v.par2''] [?ps]" by simp
  from LoadParity_complete [OF find this] show ?thesis
  proof (elim exE conjE)
    fix present
    assume p: "\<forall>e. (e < length present \<and> present ! e) = (\<exists>ps \<in> set [?ps]. \<exists>p \<in> set ps. is_block (d_setID ?d) e p)"
      and run: "\<forall>sched. \<exists>locs. LoadParityData sched memfs_io ?fs ?d = Some (Inr (parity_events ?d [str ''/s.v.par2''] [?ps],
       Inr (?d\<lparr> d_parityPresent := present, d_parityLocations := locs \<rparr>))) \<and> length locs = length present \<and>
       (\<forall>e < length present. present ! e \<longrightarrow> block_located (d_setID ?d) [str ''/s.v.par2''] [?ps] e (locs ! e))"
    have "is_block (d_setID ?d) 3 (zero_arr, recoveryPacketType, [3, 0, 0, 0, 9, 9, 9, 9])"
      using readRecoveryPacket_exponent(1) [OF body] by (simp add: is_block_def d)
    then have blk: "\<exists>ps \<in> set [?ps]. \<exists>p \<in> set ps. is_block (d_setID ?d) 3 p" by auto
    have "3 < length present \<and> present ! 3" by (rule iffD2 [OF spec [OF p, of 3] blk])
    moreover from run [rule_format, of "[1, 0]"] obtain locs where
      "LoadParityData [1, 0] memfs_io ?fs ?d = Some (Inr (parity_events ?d [str ''/s.v.par2''] [?ps],
        Inr (?d\<lparr> d_parityPresent := present, d_parityLocations := locs \<rparr>)))" by (elim exE conjE)
    ultimately show ?thesis by (intro exI [of _ present] conjI exI [of _ "parity_events ?d [str ''/s.v.par2''] [?ps]"] exI [of _ locs]) simp_all
  qed
qed

end
