(* ===== verification/Verify.thy ===== *)
theory Verify
  imports ParityLoad Encoder
begin

text \<open>
  \<open>verify\<close> of \<open>par2/verify.go\<close>.  The two goroutines, the scan of the data and the load of the
  recovery volumes, write different fields of the decoder and only read the file system, so their
  steps commute: the model runs one after the other, each under its own schedule of workers.
\<close>

record VerifyOptions =
  vo_NumGoroutines :: int
  vo_FindMisalignedData :: bool
  vo_MisalignedSearchLimit :: int
  vo_MemoryBudget :: int

text \<open>
  The schedules are those of the workers of \<open>LoadFileData\<close> and of \<open>LoadParityPresence\<close>.  The result
  has the calls of the delegate in the three phases, which of the last two come first is open.
\<close>

definition verify ::
    "int \<Rightarrow> nat list \<Rightarrow> nat list \<Rightarrow> (nat \<rightharpoonup> crc32Window) \<Rightarrow> ('fs, 'w) fileIO \<Rightarrow> 'fs \<Rightarrow> gostring \<Rightarrow> VerifyOptions \<Rightarrow>
     (delegate_event list \<times> decoder_event list \<times> decoder_event list \<times> ShardCounts res) option" where
  "verify ncpu sched psched windows io fs parPath options =
     (case checkExtension parPath of
        Inl e \<Rightarrow> Some ([], [], [], Inl e)
      | Inr _ \<Rightarrow>
        let numGoroutines = (if vo_NumGoroutines options \<le> 0 then ncpu else vo_NumGoroutines options);
            policy = \<lparr> findMisaligned = vo_FindMisalignedData options, searchLimit = vo_MisalignedSearchLimit options \<rparr>
        in case newDecoder io fs parPath numGoroutines policy (vo_MemoryBudget options) of
            (opened, Inl e) \<Rightarrow> Some (opened, [], [], Inl e)
          | (opened, Inr d) \<Rightarrow>
              (case LoadFileData sched io fs windows d of
                 None \<Rightarrow> None
               | Some (Inl e) \<Rightarrow> Some (opened, [], [], Inl e)
               | Some (Inr (scanned, windows', scan)) \<Rightarrow>
                   (case LoadParityPresence psched io fs d of
                      None \<Rightarrow> None
                    | Some (Inl e) \<Rightarrow> Some (opened, scanned, [], Inl e)
                    | Some (Inr (loaded, parity)) \<Rightarrow>
                        Some (opened, scanned, loaded, bindR scan (\<lambda>d1. bindR parity (\<lambda>d2.
                          Inr (shardCounts (d1\<lparr> d_parityPresent := d_parityPresent d2,
                            d_parityLocations := d_parityLocations d2 \<rparr>))))))))"

end
