(* ===== verification/EncoderWrite.thy ===== *)
theory EncoderWrite
  imports Encoder
begin

text \<open>
  What the encoder writes: each of its files is the stream of the packets of the set, with the recovery
  blocks of its range of exponents, and the ranges of the volumes partition the exponents.
\<close>

section \<open>The packets of a written file\<close>

abbreviation small_body :: "byte list \<Rightarrow> bool" where
  "small_body b \<equiv> 64 + int (length (padPacketBytes b)) \<le> maxPacketLength"

definition result_of :: "'a res \<Rightarrow> 'a" where
  "result_of r = (case r of Inr x \<Rightarrow> x | Inl _ \<Rightarrow> undefined)"

lemma result_of_Inr [simp]: "result_of (Inr x) = x"
  by (simp add: result_of_def)

definition file_packets :: "recoverySetID \<Rightarrow> par2file \<Rightarrow> fileID \<Rightarrow> packet list" where
  "file_packets s f i =
     [(s, fileDescriptionPacketType, padPacketBytes (result_of (writeFileDescriptionPacket i (the (f_fileDescriptionPackets f i))))),
      (s, ifscPacketType, padPacketBytes (result_of (writeIFSCPacket i (the (f_ifscPackets f i)))))]"

definition block_packet :: "recoverySetID \<Rightarrow> par2file \<Rightarrow> exponent \<Rightarrow> packet" where
  "block_packet s f e = (s, recoveryPacketType, padPacketBytes (result_of (writeRecoveryPacket e (the (f_recoveryPackets f e)))))"

definition written_packets :: "recoverySetID \<Rightarrow> par2file \<Rightarrow> mainPacket \<Rightarrow> packet list" where
  "written_packets s f m = [(s, creatorPacketType, padPacketBytes (result_of (writeCreatorPacket (f_clientID f)))),
      (s, mainPacketType, padPacketBytes (result_of (writeMainPacket m)))]
     @ concat (map (file_packets s f) (mp_recoverySet m @ mp_nonRecoverySet m))
     @ map (block_packet s f) (exponents_of (f_recoveryPackets f))"

text \<open>A file whose packets are all in order and not too long.\<close>

definition file_writable :: "par2file \<Rightarrow> mainPacket \<Rightarrow> bool" where
  "file_writable f m \<longleftrightarrow> f_clientID f \<noteq> [] \<and> f_mainPacket f = Some m \<and>
     (\<exists>b. writeCreatorPacket (f_clientID f) = Inr b \<and> small_body b) \<and>
     (\<exists>b. writeMainPacket m = Inr b \<and> small_body b) \<and>
     (\<forall>i \<in> set (mp_recoverySet m @ mp_nonRecoverySet m).
        (\<exists>fd b. f_fileDescriptionPackets f i = Some fd \<and> fd_ok fd \<and> writeFileDescriptionPacket i fd = Inr b \<and> small_body b) \<and>
        (\<exists>ifsc b. f_ifscPackets f i = Some ifsc \<and> writeIFSCPacket i ifsc = Inr b \<and> small_body b)) \<and>
     (\<forall>e p. f_recoveryPackets f e = Some p \<longrightarrow> (\<exists>b. writeRecoveryPacket e p = Inr b \<and> small_body b))"

lemma body_ok_small: "64 + int (length b) \<le> maxPacketLength \<Longrightarrow> length b mod 4 = 0 \<Longrightarrow> body_ok b"
  by (simp add: maxPacketLength_def)

lemma write_small:
  "small_body b \<Longrightarrow> writeNextPacket buf s t (padPacketBytes b) = Inr (buf @ packet_bytes s t (padPacketBytes b))"
  by (rule writeNextPacket_ok) (rule body_ok_small, simp_all add: length_padPacketBytes)

lemma foldR_stream:
  assumes "\<forall>x \<in> set xs. \<forall>buf. f x buf = Inr (buf @ stream (g x))"
  shows "foldR f xs buf = Inr (buf @ stream (concat (map g xs)))"
  using assms by (induction xs arbitrary: buf) auto

lemma writeFile_written:
  assumes "file_writable f m"
  shows "writeFile [] f = Inr (md5 (padPacketBytes (result_of (writeMainPacket m))),
    stream (written_packets (md5 (padPacketBytes (result_of (writeMainPacket m)))) f m))"
proof -
  let ?s = "md5 (padPacketBytes (result_of (writeMainPacket m)))"
  from assms obtain cb mb where c: "f_clientID f \<noteq> []" "f_mainPacket f = Some m" "writeCreatorPacket (f_clientID f) = Inr cb"
    "small_body cb" "writeMainPacket m = Inr mb" "small_body mb" by (auto simp: file_writable_def)
  have files: "foldR (write_file_packets f ?s) (mp_recoverySet m @ mp_nonRecoverySet m) buf
      = Inr (buf @ stream (concat (map (file_packets ?s f) (mp_recoverySet m @ mp_nonRecoverySet m))))" for buf
  proof (rule foldR_stream, intro ballI allI)
    fix i buf assume "i \<in> set (mp_recoverySet m @ mp_nonRecoverySet m)"
    then obtain fd b ifsc b' where i: "f_fileDescriptionPackets f i = Some fd" "writeFileDescriptionPacket i fd = Inr b"
      "small_body b" "f_ifscPackets f i = Some ifsc" "writeIFSCPacket i ifsc = Inr b'" "small_body b'"
      using assms unfolding file_writable_def by metis
    then show "write_file_packets f ?s i buf = Inr (buf @ stream (file_packets ?s f i))"
      using write_small [OF i(3)] write_small [OF i(6)] by (simp add: write_file_packets_def file_packets_def)
  qed
  have blocks: "foldR (write_recovery_packet f ?s) (exponents_of (f_recoveryPackets f)) buf
      = Inr (buf @ stream (concat (map (\<lambda>e. [block_packet ?s f e]) (exponents_of (f_recoveryPackets f)))))" for buf
  proof (rule foldR_stream, intro ballI allI)
    fix e buf assume "e \<in> set (exponents_of (f_recoveryPackets f))"
    then obtain p where p: "f_recoveryPackets f e = Some p" by (auto simp: set_exponents_of)
    then obtain b where "writeRecoveryPacket e p = Inr b" "small_body b" using assms unfolding file_writable_def by metis
    with p show "write_recovery_packet f ?s e buf = Inr (buf @ stream [block_packet ?s f e])"
      using write_small by (simp add: write_recovery_packet_def block_packet_def)
  qed
  show ?thesis
    using c write_small [OF c(4)] write_small [OF c(6)] files blocks
    by (simp add: writeFile_def Let_def written_packets_def concat_map_singleton comp_def)
qed

lemma written_packet_cases:
  assumes w: "file_writable f m" and p: "p \<in> set (written_packets s f m)"
  obtains (creator) b where "p = (s, creatorPacketType, padPacketBytes b)" "small_body b"
  | (main) b where "p = (s, mainPacketType, padPacketBytes b)" "small_body b" "writeMainPacket m = Inr b"
  | (desc) i fd b where "p = (s, fileDescriptionPacketType, padPacketBytes b)" "small_body b" "fd_ok fd"
      "writeFileDescriptionPacket i fd = Inr b"
  | (ifsc) i ifsc b where "p = (s, ifscPacketType, padPacketBytes b)" "small_body b" "writeIFSCPacket i ifsc = Inr b"
  | (block) e q b where "p = (s, recoveryPacketType, padPacketBytes b)" "small_body b" "f_recoveryPackets f e = Some q"
      "writeRecoveryPacket e q = Inr b"
proof -
  from p consider "p = (s, creatorPacketType, padPacketBytes (result_of (writeCreatorPacket (f_clientID f))))"
    | "p = (s, mainPacketType, padPacketBytes (result_of (writeMainPacket m)))"
    | i where "i \<in> set (mp_recoverySet m @ mp_nonRecoverySet m)" "p \<in> set (file_packets s f i)"
    | e where "e \<in> dom (f_recoveryPackets f)" "p = block_packet s f e"
    unfolding written_packets_def set_append set_exponents_of [symmetric] by auto
  then show thesis
  proof cases
    case 1
    then show thesis using w creator by (auto simp: file_writable_def)
  next
    case 2
    then show thesis using w main by (auto simp: file_writable_def)
  next
    case 3
    from w 3(1) obtain fd b ic b' where i: "f_fileDescriptionPackets f i = Some fd" "fd_ok fd" "writeFileDescriptionPacket i fd = Inr b"
      "small_body b" "f_ifscPackets f i = Some ic" "writeIFSCPacket i ic = Inr b'" "small_body b'"
      unfolding file_writable_def by metis
    then have "p = (s, fileDescriptionPacketType, padPacketBytes b) \<or> p = (s, ifscPacketType, padPacketBytes b')"
      using 3(2) by (simp add: file_packets_def)
    then show thesis using i desc ifsc by blast
  next
    case 4
    from 4(1) obtain q where q: "f_recoveryPackets f e = Some q" by auto
    then obtain b where "writeRecoveryPacket e q = Inr b" "small_body b" using w unfolding file_writable_def by metis
    with q 4(2) show thesis using block by (simp add: block_packet_def)
  qed
qed

lemma written_packet_small:
  assumes "file_writable f m" and "p \<in> set (written_packets s f m)"
  shows "volume_packet p \<and> fst p = s"
  using assms by (cases rule: written_packet_cases) (simp_all add: length_padPacketBytes)

text \<open>Such a file is read back.\<close>

lemma written_read_back:
  assumes w: "file_writable f m" and main: "main_ok m" and client: "0 \<notin> set (f_clientID f)"
    and doms: "dom (f_fileDescriptionPackets f) = set (mp_recoverySet m @ mp_nonRecoverySet m)"
      "dom (f_ifscPackets f) = set (mp_recoverySet m @ mp_nonRecoverySet m)"
    and unknown: "f_unknownPackets f = Map.empty"
    and len: "length bytes < 2 ^ 63" and bytes: "writeFile [] f = Inr (s, bytes)"
  shows "\<exists>events. readFile None bytes = (events, Inr (s, f))"
proof -
  have "file_ok f"
    unfolding file_ok_def
  proof (intro conjI)
    show "\<forall>i p. f_fileDescriptionPackets f i = Some p \<longrightarrow> fd_ok p"
    proof (intro allI impI)
      fix i p assume p: "f_fileDescriptionPackets f i = Some p"
      then have "i \<in> set (mp_recoverySet m @ mp_nonRecoverySet m)" using doms(1) by auto
      with w p show "fd_ok p" unfolding file_writable_def by (metis option.inject)
    qed
  qed (use w main client doms unknown in \<open>simp_all add: file_writable_def\<close>)
  from readFile_writeFile [OF bytes len this, of None] unknown show ?thesis
    by (cases "readFile None bytes") simp
qed

end
