(* ===== verification/EncoderRun.thy ===== *)
theory EncoderRun
  imports EncoderWrite ScanCorrect
begin

text \<open>
  One run of the encoder on given files: what \<open>LoadFileData\<close> gathers, the shape of the parity, and the
  volumes that \<open>Write\<close> writes.
\<close>

section \<open>The files of a set\<close>

type_synonym input_file = "gostring \<times> byte list"

definition in_id :: "input_file \<Rightarrow> fileID" where
  "in_id f = computeFileID (sixteenKHash (snd f)) (of_nat (length (snd f))) (fst f)"

definition in_desc :: "input_file \<Rightarrow> fileDescriptionPacket" where
  "in_desc f = \<lparr> fd_hash = md5 (snd f), fd_sixteenKHash = sixteenKHash (snd f),
     fd_byteCount = int (length (snd f)), fd_filename = fst f \<rparr>"

definition slice_count :: "nat \<Rightarrow> input_file \<Rightarrow> nat" where
  "slice_count n f = (length (snd f) + n - 1) div n"

definition in_shards :: "nat \<Rightarrow> input_file \<Rightarrow> byte list list" where
  "in_shards n f = map (\<lambda>q. pad_slice n (snd f) (q * n)) [0..<slice_count n f]"

definition pair_of :: "byte list \<Rightarrow> checksumPair" where
  "pair_of s = \<lparr> cp_MD5 = md5 s, cp_CRC32 = arr_of (le_bytes 4 (ChecksumIEEE s)) \<rparr>"

definition in_info :: "nat \<Rightarrow> input_file \<Rightarrow> encoderInputFileInfo" where
  "in_info n f = \<lparr> ei_fileDescriptionPacket = in_desc f, ei_ifscPacket = \<lparr> ip_checksumPairs = map pair_of (in_shards n f) \<rparr>,
     ei_dataShards = in_shards n f \<rparr>"

lemma data_file_info_ok:
  assumes "0 < n"
  shows "data_file_info (int n) (fst f) (snd f) = Some (Inr (in_id f, in_desc f, ei_ifscPacket (in_info n f), in_shards n f))"
  using data_slices_ok [OF assms, of 0 "snd f" "[]" "[]"]
  by (simp add: data_file_info_def computeDataFileInfo_def in_id_def in_desc_def in_info_def in_shards_def
      slice_count_def pair_of_def comp_def Let_def)

lemma ei_desc [simp]: "ei_fileDescriptionPacket (in_info n f) = in_desc f"
  by (simp add: in_info_def)

lemma length_in_shards [simp]: "length (in_shards n f) = slice_count n f"
  by (simp add: in_shards_def)

text \<open>The records by identifier.\<close>

definition infos_of :: "nat \<Rightarrow> input_file list \<Rightarrow> fileID \<rightharpoonup> encoderInputFileInfo" where
  "infos_of n files = map_of (map (\<lambda>f. (in_id f, in_info n f)) files)"

lemma infos_of_nth:
  "distinct (map in_id files) \<Longrightarrow> f \<in> set files \<Longrightarrow> infos_of n files (in_id f) = Some (in_info n f)"
  unfolding infos_of_def by (rule map_of_is_SomeI) (auto simp: comp_def)

lemma dom_infos_of: "dom (infos_of n files) = in_id ` set files"
  by (simp add: infos_of_def dom_map_of_conv_image_fst image_image)

section \<open>Loading\<close>

lemma load_data_files_ok:
  assumes "0 < n" and "en_sliceByteCount en = int n"
    and "\<forall>f \<in> set files. io_ReadFile io fs (filepath_Join (en_basePath en) (fst f)) = Inr (snd f)"
  shows "\<exists>events. load_data_files io fs en i (map fst files) ids infos
    = Some (events, Inr (ids @ map in_id files, infos ++ map_of (rev (map (\<lambda>f. (in_id f, in_info n f)) files))))"
  using assms(3)
proof (induction files arbitrary: i ids infos)
  case (Cons f files)
  let ?infos = "infos(in_id f \<mapsto> in_info n f)"
  have "\<forall>f \<in> set files. io_ReadFile io fs (filepath_Join (en_basePath en) (fst f)) = Inr (snd f)"
    and read: "io_ReadFile io fs (filepath_Join (en_basePath en) (fst f)) = Inr (snd f)" using Cons.prems by simp_all
  from Cons.IH [OF this(1), of "Suc i" "ids @ [in_id f]" ?infos] obtain events where
    ih: "load_data_files io fs en (Suc i) (map fst files) (ids @ [in_id f]) ?infos
      = Some (events, Inr ((ids @ [in_id f]) @ map in_id files, ?infos ++ map_of (rev (map (\<lambda>f. (in_id f, in_info n f)) files))))" ..
  have rec: "\<lparr> ei_fileDescriptionPacket = in_desc f, ei_ifscPacket = ei_ifscPacket (in_info n f), ei_dataShards = in_shards n f \<rparr>
      = in_info n f" by (simp add: in_info_def)
  have upd: "?infos ++ map_of (rev (map (\<lambda>f. (in_id f, in_info n f)) files))
      = infos ++ map_of (rev (map (\<lambda>f. (in_id f, in_info n f)) (f # files)))"
    by (rule ext) (auto simp: map_add_def split: option.splits)
  show ?case
    using ih [unfolded upd] by (simp add: Let_def assms(2) read data_file_info_ok [OF assms(1)] rec del: fun_upd_apply)
qed simp

lemma Encoder_LoadFileData_ok:
  assumes "0 < n" and "en_sliceByteCount en = int n" and "en_relFilePaths en = map fst files"
    and "\<forall>f \<in> set files. io_ReadFile io fs (filepath_Join (en_basePath en) (fst f)) = Inr (snd f)"
    and "distinct (map in_id files)"
  shows "\<exists>events. Encoder_LoadFileData io fs en = Some (events,
    Inr (en\<lparr> en_recoverySet := sort (map in_id files), en_recoverySetInfos := infos_of n files \<rparr>))"
proof -
  have "map_of (rev (map (\<lambda>f. (in_id f, in_info n f)) files)) = infos_of n files"
    unfolding infos_of_def by (rule map_of_inject_set [THEN iffD2]) (use assms(5) in \<open>simp_all add: comp_def rev_map [symmetric]\<close>)
  with load_data_files_ok [OF assms(1,2,4), of 0 "[]" Map.empty] show ?thesis
    by (auto simp: Encoder_LoadFileData_def assms(3))
qed

section \<open>Parity\<close>

text \<open>The files in the order of their identifiers.\<close>

definition set_files :: "input_file list \<Rightarrow> input_file list" where
  "set_files files = sort_key in_id files"

lemma map_id_set_files: "map in_id (set_files files) = sort (map in_id files)"
  unfolding set_files_def by (rule sym, rule properties_for_sort) simp_all

lemma set_set_files [simp]: "set (set_files files) = set files"
  by (simp add: set_files_def)

definition all_shards :: "nat \<Rightarrow> input_file list \<Rightarrow> byte list list" where
  "all_shards n files = concat (map (in_shards n) (set_files files))"

lemma encoder_data_shards_ok:
  assumes "distinct (map in_id files)"
  shows "encoder_data_shards (en\<lparr> en_recoverySet := sort (map in_id files), en_recoverySetInfos := infos_of n files \<rparr>)
    = all_shards n files"
proof -
  have "(case infos_of n files (in_id f) of None \<Rightarrow> [] | Some info \<Rightarrow> ei_dataShards info) = in_shards n f" if "f \<in> set files" for f
    using infos_of_nth [OF assms that] by (simp add: in_info_def)
  then show ?thesis
    unfolding encoder_data_shards_def all_shards_def map_id_set_files [symmetric]
    by (auto simp: comp_def intro!: arg_cong [where f = concat])
qed

lemma NewCoderPAR2Vandermonde_eq:
  assumes "0 < d" "0 < p" "0 < g" "d \<le> int (length generators)" "p \<le> 65535"
  shows "NewCoderPAR2Vandermonde d p g = Inr (mk_coder (nat d) (nat p) (nat g) (\<lambda>i j. generators ! j ^ i))"
proof -
  have "bindR (index_at generators j) (\<lambda>a. T_Pow a (of_nat i)) = Inr (generators ! j ^ i)" if "i < nat p" "j < nat d" for i j
  proof -
    have "unat (of_nat i :: u32) = i" using that(1) assms(5) by (simp add: unat_of_nat take_bit_nat_eq_self)
    with that(2) assms(4) show ?thesis by simp
  qed
  then have "NewMatrixFromFunction (nat p) (nat d) (\<lambda>i j. bindR (index_at generators j) (\<lambda>a. T_Pow a (of_nat i)))
      = Inr (mk_matrix (nat p) (nat d) (\<lambda>i j. generators ! j ^ i))"
    using assms by (intro NewMatrixFromFunction_eq) auto
  with assms show ?thesis
    by (simp add: NewCoderPAR2Vandermonde_def mk_coder_def newVandermondeParityMatrix_def newVandermondeMatrix_def)
qed

text \<open>
  The files of a set that can be created: names that \<open>checkFilename\<close> accepts, of ASCII characters, and
  data that \<open>n\<close>-byte slices cut into no more slices than there are generators.
\<close>

definition name_ok :: "gostring \<Rightarrow> bool" where
  "name_ok nm \<longleftrightarrow> checkFilename nm = Inr () \<and> (\<forall>c \<in> set nm. c \<le> MaxASCII) \<and> 0 \<notin> set nm \<and> length nm < 2 ^ 20"

definition slices_total :: "nat \<Rightarrow> input_file list \<Rightarrow> nat" where
  "slices_total n files = (\<Sum>f\<leftarrow>files. slice_count n f)"

definition set_ok :: "nat \<Rightarrow> input_file list \<Rightarrow> bool" where
  "set_ok n files \<longleftrightarrow> 0 < n \<and> 4 dvd n \<and> n \<le> 2 ^ 29 \<and> files \<noteq> [] \<and> distinct (map in_id files) \<and>
     (\<forall>f \<in> set files. snd f \<noteq> [] \<and> name_ok (fst f)) \<and> slices_total n files \<le> length generators"

lemma set_okD:
  assumes "set_ok n files"
  shows "0 < n" "n mod 4 = 0" "4 \<le> n" "n \<le> 2 ^ 29" "files \<noteq> []" "distinct (map in_id files)" "slices_total n files \<le> 32768"
  using assms length_generators by (auto simp: set_ok_def dvd_imp_le mod_eq_0_iff_dvd)

lemma length_all_shards [simp]: "length (all_shards n files) = slices_total n files"
proof -
  have "mset (map (slice_count n) (set_files files)) = mset (map (slice_count n) files)" by (simp add: set_files_def)
  then have "(\<Sum>f\<leftarrow>set_files files. slice_count n f) = (\<Sum>f\<leftarrow>files. slice_count n f)" by (metis sum_mset_sum_list)
  then show ?thesis by (simp add: all_shards_def slices_total_def length_concat comp_def)
qed

lemma shard_length: "s \<in> set (all_shards n files) \<Longrightarrow> length s = n"
  by (auto simp: all_shards_def in_shards_def)

lemma slice_count_pos: "0 < n \<Longrightarrow> snd f \<noteq> [] \<Longrightarrow> 0 < slice_count n f"
  by (simp add: slice_count_def slice_index [of n 0, simplified])

lemma slice_count_le: "f \<in> set files \<Longrightarrow> slice_count n f \<le> slices_total n files"
  unfolding slices_total_def by (rule member_le_sum_list) auto

lemma length_le_sum_list: "\<forall>x \<in> set xs. 0 < g x \<Longrightarrow> length xs \<le> (\<Sum>x\<leftarrow>xs. g x :: nat)"
proof (induction xs)
  case (Cons x xs)
  then have "length xs \<le> (\<Sum>x\<leftarrow>xs. g x)" "0 < g x" by simp_all
  then show ?case by simp
qed simp

lemma files_le_slices:
  assumes "set_ok n files"
  shows "length files \<le> slices_total n files"
proof -
  have "\<forall>f \<in> set files. 0 < slice_count n f" using assms slice_count_pos by (simp add: set_ok_def)
  then show ?thesis unfolding slices_total_def by (rule length_le_sum_list)
qed

lemma data_le_slices:
  assumes "0 < n"
  shows "length (snd f) \<le> slice_count n f * n"
  using slice_index [OF assms, of "slice_count n f" "length (snd f)"] by (simp add: slice_count_def not_less)

definition parity_of :: "nat \<Rightarrow> input_file list \<Rightarrow> nat \<Rightarrow> byte list list" where
  "parity_of n files p = apply_spec (mk_matrix p (slices_total n files) (\<lambda>i j. generators ! j ^ i)) (all_shards n files) p n"

lemma parity_of_shape: "length (parity_of n files p) = p" "even n \<Longrightarrow> s \<in> set (parity_of n files p) \<Longrightarrow> length s = n"
  by (auto simp: parity_of_def apply_spec_def)

lemma ComputeParityData_ok:
  assumes set: "set_ok n files" and e: "env_ok e" and p: "0 < p" "p \<le> 65535" and g: "0 < en_numGoroutines en"
    and en: "en_parityShardCount en = int p"
  shows "ComputeParityData e (en\<lparr> en_recoverySet := sort (map in_id files), en_recoverySetInfos := infos_of n files \<rparr>)
    = Inr (en\<lparr> en_recoverySet := sort (map in_id files), en_recoverySetInfos := infos_of n files,
        en_parityShards := parity_of n files p \<rparr>)"
proof -
  note ok = set_okD [OF set]
  have d: "0 < slices_total n files" using files_le_slices [OF set] ok(5) by (cases files) auto
  let ?c = "mk_coder (slices_total n files) p (nat (en_numGoroutines en)) (\<lambda>i j. generators ! j ^ i)"
  have "NewCoderPAR2Vandermonde (int (slices_total n files)) (int p) (en_numGoroutines en) = Inr ?c"
    using NewCoderPAR2Vandermonde_eq [of "int (slices_total n files)" "int p" "en_numGoroutines en"] d p g ok(7) length_generators
    by simp
  moreover have "GenerateParity e ?c (all_shards n files) = Inr (parity_of n files p)"
  proof -
    have "even n" using ok(2) by presburger
    then have "shards_ok (dataShards ?c) n (all_shards n files)"
      using ok(1) shard_length by (auto simp: shards_ok_def mk_coder_def)
    from GenerateParity_eq [OF e _ this] show ?thesis
      using d p g coder_ok_mk [of "slices_total n files" p "nat (en_numGoroutines en)"]
      by (simp add: parity_of_def mk_coder_def)
  qed
  ultimately show ?thesis
    by (simp add: ComputeParityData_def encoder_data_shards_ok [OF ok(6)] Let_def en)
qed

section \<open>The files that are written\<close>

definition set_main :: "nat \<Rightarrow> input_file list \<Rightarrow> mainPacket" where
  "set_main n files = \<lparr> mp_sliceByteCount = int n, mp_recoverySet = sort (map in_id files), mp_nonRecoverySet = [] \<rparr>"

definition set_file :: "nat \<Rightarrow> input_file list \<Rightarrow> (exponent \<rightharpoonup> recoveryPacket) \<Rightarrow> par2file" where
  "set_file n files m = \<lparr> f_clientID = clientID, f_mainPacket = Some (set_main n files),
     f_fileDescriptionPackets = (\<lambda>i. map_option ei_fileDescriptionPacket (infos_of n files i)),
     f_ifscPackets = (\<lambda>i. map_option ei_ifscPacket (infos_of n files i)),
     f_recoveryPackets = m, f_unknownPackets = Map.empty \<rparr>"

lemma writeMainPacket_set:
  assumes "set_ok n files"
  shows "\<exists>b. writeMainPacket (set_main n files) = Inr b \<and> small_body b" and "main_ok (set_main n files)"
proof -
  note ok = set_okD [OF assms]
  have l: "length files \<le> 32768" using files_le_slices [OF assms] ok(7) by simp
  have sorted: "checkFileIDSetsSorted (sort (map in_id files)) [] = Inr ()" by simp
  have "int n mod 4 = 0" using ok(2) by presburger
  then obtain b where b: "writeMainPacket (set_main n files) = Inr b" "length b = 12 + 16 * length files"
    using ok(1,5) l sorted by (simp add: writeMainPacket_def set_main_def)
  have "length (padPacketBytes b) \<le> length b + 3" by (rule length_padPacketBytes)
  with b l show "\<exists>b. writeMainPacket (set_main n files) = Inr b \<and> small_body b" by (auto simp: maxPacketLength_def)
  show "main_ok (set_main n files)" using ok by (simp add: main_ok_def set_main_def)
qed

lemma in_desc_written:
  assumes set: "set_ok n files" and f: "f \<in> set files"
  shows "fd_ok (in_desc f)" and "\<exists>b. writeFileDescriptionPacket (in_id f) (in_desc f) = Inr b \<and> small_body b"
proof -
  note ok = set_okD [OF set]
  have nm: "snd f \<noteq> []" "name_ok (fst f)" using set f by (auto simp: set_ok_def)
  have "length (snd f) \<le> slice_count n f * n" by (rule data_le_slices [OF ok(1)])
  also have "\<dots> \<le> 32768 * 2 ^ 29" using slice_count_le [OF f, of n] ok(4,7) by (intro mult_le_mono) simp_all
  finally have len: "length (snd f) \<le> 2 ^ 44" by simp
  then show "fd_ok (in_desc f)" using nm by (simp add: fd_ok_def in_desc_def name_ok_def)
  have ascii: "encodeASCIIString (fst f) = Inr (fst f)" using nm(2) by (simp add: name_ok_def)
  obtain b where b: "writeFileDescriptionPacket (in_id f) (in_desc f) = Inr b" "length b = 56 + length (fst f)"
    using nm ascii by (simp add: writeFileDescriptionPacket_def in_desc_def in_id_def name_ok_def Let_def)
  have "length (padPacketBytes b) \<le> length b + 3" by (rule length_padPacketBytes)
  with b nm(2) show "\<exists>b. writeFileDescriptionPacket (in_id f) (in_desc f) = Inr b \<and> small_body b"
    by (auto simp: maxPacketLength_def name_ok_def)
qed

lemma in_ifsc_written:
  assumes set: "set_ok n files" and f: "f \<in> set files"
  shows "\<exists>b. writeIFSCPacket (in_id f) (ei_ifscPacket (in_info n f)) = Inr b \<and> small_body b"
proof -
  note ok = set_okD [OF set]
  have pos: "0 < slice_count n f" using set f slice_count_pos [OF ok(1)] by (auto simp: set_ok_def)
  then obtain b where b: "writeIFSCPacket (in_id f) (ei_ifscPacket (in_info n f)) = Inr b" "length b = 16 + 20 * slice_count n f"
    using length_pairs [of "map pair_of (in_shards n f)"] by (simp add: writeIFSCPacket_def in_info_def)
  have "length (padPacketBytes b) \<le> length b + 3" by (rule length_padPacketBytes)
  with b slice_count_le [OF f, of n] ok(7) show ?thesis by (auto simp: maxPacketLength_def)
qed

lemma set_file_writable:
  assumes set: "set_ok n files" and m: "\<forall>e q. m e = Some q \<longrightarrow> length (rp_data q) = n"
  shows "file_writable (set_file n files m) (set_main n files)"
proof -
  note ok = set_okD [OF set]
  have id: "length clientID = 5" "list_all (\<lambda>c. c \<le> MaxASCII) clientID" by code_simp+
  then have client: "writeCreatorPacket clientID = Inr clientID" "clientID \<noteq> []" by (auto simp: writeCreatorPacket_def list_all_iff)
  have "length (padPacketBytes clientID) \<le> 5 + 3" using length_padPacketBytes(2) [of clientID] id(1) by simp
  then have small: "small_body clientID" by (simp add: maxPacketLength_def)
  have files: "(\<exists>fd b. f_fileDescriptionPackets (set_file n files m) i = Some fd \<and> fd_ok fd \<and> writeFileDescriptionPacket i fd = Inr b \<and> small_body b) \<and>
        (\<exists>ifsc b. f_ifscPackets (set_file n files m) i = Some ifsc \<and> writeIFSCPacket i ifsc = Inr b \<and> small_body b)"
    if "i \<in> set (mp_recoverySet (set_main n files) @ mp_nonRecoverySet (set_main n files))" for i
  proof -
    from that obtain f where f: "f \<in> set files" "i = in_id f" by (auto simp: set_main_def)
    with infos_of_nth [OF ok(6) f(1), of n] in_desc_written [OF set f(1)] in_ifsc_written [OF set f(1)]
    show ?thesis by (simp add: set_file_def ei_desc)
  qed
  have blocks: "\<exists>b. writeRecoveryPacket e q = Inr b \<and> small_body b" if "f_recoveryPackets (set_file n files m) e = Some q" for e q
  proof -
    have l: "length (rp_data q) = n" using that m by (simp add: set_file_def)
    then obtain b where b: "writeRecoveryPacket e q = Inr b" "length b = 4 + n"
      using ok(1,2) by (simp add: writeRecoveryPacket_def)
    have "length (padPacketBytes b) \<le> length b + 3" by (rule length_padPacketBytes)
    with b ok(4) show ?thesis by (auto simp: maxPacketLength_def)
  qed
  have "f_clientID (set_file n files m) \<noteq> []" "f_mainPacket (set_file n files m) = Some (set_main n files)"
    "\<exists>b. writeCreatorPacket (f_clientID (set_file n files m)) = Inr b \<and> small_body b"
    using client small by (simp_all add: set_file_def)
  then show ?thesis
    unfolding file_writable_def
    by (intro conjI ballI allI impI) (simp_all only: simp_thms not_False_eq_True files [THEN conjunct1] files [THEN conjunct2] blocks writeMainPacket_set(1) [OF set])
qed

end
