(* ===== verification/EncoderVolumes.thy ===== *)
theory EncoderVolumes
  imports EncoderRun
begin

text \<open>
  The files of \<open>Write\<close>: the index file and the volumes, whose ranges double in size and partition the
  exponents, under names that differ from each other.
\<close>

section \<open>Volume names\<close>

definition digits_value :: "gostring \<Rightarrow> nat" where
  "digits_value ds = foldl (\<lambda>a d. a * 10 + (unat d - 48)) 0 ds"

lemma digit_unat: "d < 10 \<Longrightarrow> unat (of_nat (48 + d) :: byte) = 48 + d"
  by (simp only: unat_of_nat) (simp add: take_bit_nat_eq_self)

lemma decimal_value: "digits_value (decimal n) = n"
proof (induction n rule: decimal.induct)
  case (1 n)
  show ?case
  proof (cases "n < 10")
    case True
    then show ?thesis using digit_unat [of n] by (subst decimal.simps) (simp add: digits_value_def)
  next
    case False
    have "unat (of_nat (48 + n mod 10) :: byte) = 48 + n mod 10" by (rule digit_unat) simp
    then show ?thesis using False 1 by (subst decimal.simps) (simp add: digits_value_def del: of_nat_add)
  qed
qed

lemma decimal_digits: "c \<in> set (decimal n) \<Longrightarrow> 48 \<le> unat c \<and> unat c < 58"
proof (induction n rule: decimal.induct)
  case (1 n)
  show ?case
  proof (cases "n < 10")
    case True
    then show ?thesis using 1(2) digit_unat [of n] by (subst (asm) decimal.simps) (simp del: of_nat_add)
  next
    case False
    have "unat (of_nat (48 + n mod 10) :: byte) = 48 + n mod 10" by (rule digit_unat) simp
    moreover have "decimal n = decimal (n div 10) @ [of_nat (48 + n mod 10)]" using False by (subst decimal.simps) simp
    ultimately show ?thesis using False 1 by (auto simp del: of_nat_add)
  qed
qed

lemma decimal2_value: "digits_value (decimal2 n) = n"
proof -
  have "digits_value (replicate k 48 @ ds) = digits_value ds" for k ds
    by (induction k) (simp_all add: digits_value_def)
  then show ?thesis by (simp add: decimal2_def Let_def decimal_value)
qed

lemma decimal2_digits: "c \<in> set (decimal2 n) \<Longrightarrow> 48 \<le> unat c \<and> unat c < 58"
  by (auto simp: decimal2_def Let_def dest: decimal_digits split: if_splits)

lemma decimal2_chars: "43 \<notin> set (decimal2 n)" "slash \<notin> set (decimal2 n)"
  using decimal2_digits [of 43 n] decimal2_digits [of slash n] by (auto simp: slash_def)

lemma append_sep_eq: "c \<notin> set xs \<Longrightarrow> c \<notin> set ys \<Longrightarrow> xs @ c # us = ys @ c # vs \<longleftrightarrow> xs = ys \<and> us = vs"
  by (induction xs arbitrary: ys) (case_tac ys; auto)+

lemma volume_name_start:
  assumes "volume_name base i c = volume_name base j d"
  shows "i = j"
proof -
  have plus: "str ''+'' = [43]" by code_simp
  have "decimal2 i @ 43 # decimal2 c @ str ''.par2'' = decimal2 j @ 43 # decimal2 d @ str ''.par2''"
    using assms by (simp add: volume_name_def plus)
  then have "decimal2 i = decimal2 j" using append_sep_eq decimal2_chars(1) by metis
  then show ?thesis by (metis decimal2_value)
qed

text \<open>The name as the search of the decoder sees it.\<close>

definition volume_mid :: "nat \<Rightarrow> nat \<Rightarrow> gostring" where
  "volume_mid i c = str ''vol'' @ decimal2 i @ str ''+'' @ decimal2 c"

lemma volume_name_mid: "volume_name base i c = (base @ [Filenames.dot]) @ volume_mid i c @ str ''.par2''"
proof -
  have "str ''.vol'' = Filenames.dot # str ''vol''" by code_simp
  then show ?thesis by (simp add: volume_name_def volume_mid_def)
qed

lemma volume_mid_slash: "slash \<notin> set (volume_mid i c)"
proof -
  have "slash \<notin> set (str ''vol'')" "slash \<notin> set (str ''+'')" by code_simp+
  then show ?thesis by (simp add: volume_mid_def decimal2_chars)
qed

section \<open>Ranges\<close>

function volume_ranges :: "nat \<Rightarrow> nat \<Rightarrow> nat \<Rightarrow> (nat \<times> nat) list" where
  "volume_ranges i c p = (if i < p \<and> 0 < c then let cnt = min c (p - i) in (i, cnt) # volume_ranges (i + cnt) (cnt * 2) p else [])"
  by pat_completeness auto
termination by (relation "measure (\<lambda>(i, c, p). p - i)") auto

declare volume_ranges.simps [simp del]

lemma volume_ranges_partition:
  assumes "0 < c" "i \<le> p"
  shows "concat (map (\<lambda>(i, c). [i..<i + c]) (volume_ranges i c p)) = [i..<p]"
    and "\<forall>(j, d) \<in> set (volume_ranges i c p). i \<le> j \<and> 0 < d \<and> j + d \<le> p"
  using assms
proof (induction i c p rule: volume_ranges.induct)
  case (1 i c p)
  let ?cnt = "min c (p - i)"
  { case 1
    show ?case
    proof (cases "i < p")
      case True
      then have IH: "concat (map (\<lambda>(i, c). [i..<i + c]) (volume_ranges (i + ?cnt) (?cnt * 2) p)) = [i + ?cnt..<p]"
        using "1.IH"(1) [OF _ refl] 1 by simp
      have "[i..<i + ?cnt] @ [i + ?cnt..<p] = [i..<p]" using upt_add_eq_append [of i "i + ?cnt" "p - (i + ?cnt)"] True by simp
      then show ?thesis using IH True 1 by (subst volume_ranges.simps) (simp add: Let_def del: upt_conv_Nil)
    qed (use 1 in \<open>simp add: volume_ranges.simps\<close>)
  next
    case 2
    show ?case
    proof (cases "i < p")
      case True
      then have "\<forall>(j, d) \<in> set (volume_ranges (i + ?cnt) (?cnt * 2) p). i + ?cnt \<le> j \<and> 0 < d \<and> j + d \<le> p"
        using "1.IH"(2) [OF _ refl] 2 by simp
      then show ?thesis using True 2 by (subst volume_ranges.simps) (auto simp: Let_def)
    qed (simp add: volume_ranges.simps)
  }
qed

lemma volume_ranges_distinct:
  assumes "0 < c" "i \<le> p"
  shows "distinct (map fst (volume_ranges i c p))"
  using assms
proof (induction i c p rule: volume_ranges.induct)
  case (1 i c p)
  let ?cnt = "min c (p - i)"
  show ?case
  proof (cases "i < p")
    case True
    have "i \<notin> fst ` set (volume_ranges (i + ?cnt) (?cnt * 2) p)"
      using volume_ranges_partition(2) [of "?cnt * 2" "i + ?cnt" p] True 1(2) by fastforce
    then show ?thesis using 1 True by (subst volume_ranges.simps) (simp add: Let_def)
  qed (simp add: volume_ranges.simps)
qed

section \<open>The loop\<close>

definition volume_blocks :: "byte list list \<Rightarrow> nat \<Rightarrow> nat \<Rightarrow> exponent \<rightharpoonup> recoveryPacket" where
  "volume_blocks parity i c = (\<lambda>e. if i \<le> unat e \<and> unat e < i + c then Some \<lparr> rp_data = parity ! unat e \<rparr> else None)"

lemma recovery_packets_from_eq:
  assumes "i + c \<le> length (en_parityShards en)" "length (en_parityShards en) \<le> 65536"
  shows "recovery_packets_from en i c = Inr (volume_blocks (en_parityShards en) i c)"
proof -
  let ?f = "\<lambda>j m. bindR (index_at (en_parityShards en) (i + j)) (\<lambda>s. Inr (m(of_nat (i + j) \<mapsto> \<lparr> rp_data = s \<rparr>)))"
  have "foldR ?f [0..<k] Map.empty = Inr (volume_blocks (en_parityShards en) i k)" if "k \<le> c" for k
    using that
  proof (induction k)
    case 0
    have "volume_blocks (en_parityShards en) i 0 = Map.empty" by (auto simp: volume_blocks_def)
    then show ?case by simp
  next
    case (Suc k)
    have u: "unat (of_nat (i + k) :: exponent) = i + k" using Suc.prems assms by (simp only: unat_of_nat) (simp add: take_bit_nat_eq_self)
    have "((volume_blocks (en_parityShards en) i k)(of_nat (i + k) \<mapsto> \<lparr> rp_data = en_parityShards en ! (i + k) \<rparr>)) e
        = volume_blocks (en_parityShards en) i (Suc k) e" for e
      using u by (cases "e = of_nat (i + k)") (auto simp: volume_blocks_def word_unat_eq_iff less_Suc_eq)
    then have "(volume_blocks (en_parityShards en) i k)(of_nat (i + k) \<mapsto> \<lparr> rp_data = en_parityShards en ! (i + k) \<rparr>)
        = volume_blocks (en_parityShards en) i (Suc k)" by blast
    with Suc assms show ?case by (simp add: foldR_append index_at_def del: of_nat_add fun_upd_apply)
  qed
  from this [of c] show ?thesis by (simp add: recovery_packets_from_def)
qed

section \<open>Write\<close>

definition set_id :: "nat \<Rightarrow> input_file list \<Rightarrow> recoverySetID" where
  "set_id n files = md5 (padPacketBytes (result_of (writeMainPacket (set_main n files))))"

definition set_packets :: "nat \<Rightarrow> input_file list \<Rightarrow> (exponent \<rightharpoonup> recoveryPacket) \<Rightarrow> packet list" where
  "set_packets n files m = written_packets (set_id n files) (set_file n files m) (set_main n files)"

definition volume_packets :: "nat \<Rightarrow> input_file list \<Rightarrow> nat \<Rightarrow> nat \<Rightarrow> nat \<Rightarrow> packet list" where
  "volume_packets n files p i c = set_packets n files (volume_blocks (parity_of n files p) i c)"

lemma writeFile_set:
  assumes "set_ok n files" and "\<forall>e q. m e = Some q \<longrightarrow> length (rp_data q) = n"
  shows "writeFile [] (set_file n files m) = Inr (set_id n files, stream (set_packets n files m))"
  using writeFile_written [OF set_file_writable [OF assms]] by (simp add: set_id_def set_packets_def)

lemma volume_blocks_length:
  assumes "even n" "i + c \<le> p" and "volume_blocks (parity_of n files p) i c e = Some q"
  shows "length (rp_data q) = n"
  using assms parity_of_shape(1) [of n files p] parity_of_shape(2) [of n "rp_data q" files p]
  by (auto simp: volume_blocks_def split: if_splits)

text \<open>The state of the encoder when \<open>Write\<close> is called.\<close>

definition computed :: "nat \<Rightarrow> input_file list \<Rightarrow> nat \<Rightarrow> encoder \<Rightarrow> encoder" where
  "computed n files p en = en\<lparr> en_recoverySet := sort (map in_id files), en_recoverySetInfos := infos_of n files,
     en_parityShards := parity_of n files p \<rparr>"

lemma parity_file_computed:
  assumes "en_sliceByteCount en = int n"
  shows "parity_file (computed n files p en)\<lparr> f_recoveryPackets := m \<rparr> = set_file n files m"
    and "parity_file (computed n files p en) = set_file n files Map.empty"
  using assms by (simp_all add: parity_file_def computed_def set_file_def set_main_def)

abbreviation volume_files :: "gostring \<Rightarrow> nat \<Rightarrow> input_file list \<Rightarrow> nat \<Rightarrow> (nat \<times> nat) list \<Rightarrow> (gostring \<times> byte list) list" where
  "volume_files base n files p \<equiv> map (\<lambda>(i, c). (volume_name base i c, stream (volume_packets n files p i c)))"

lemma write_volumes_ok:
  assumes set: "set_ok n files" and p: "p \<le> 65535" and en: "en_sliceByteCount en = int n" "en_parityShardCount en = int p"
    and c: "0 < c"
    and wr: "foldR (\<lambda>(q, d) f. io_WriteFile io f q d) (volume_files base n files p (volume_ranges i c p)) fs = Inr fs'"
  shows "\<exists>events'. write_volumes io (computed n files p en) base len i c fs events = Some (fs', events', None)"
  using c wr
proof (induction "p - i" arbitrary: i c fs events rule: less_induct)
  case less
  let ?en = "computed n files p en"
  have sel: "en_parityShardCount ?en = int p" "en_parityShards ?en = parity_of n files p" by (simp_all add: computed_def en)
  show ?case
  proof (cases "i < p")
    case False
    then show ?thesis using less.prems by (subst write_volumes.simps) (simp add: sel volume_ranges.simps)
  next
    case True
    define cnt where "cnt = min c (p - i)"
    have cnt: "0 < cnt" "i + cnt \<le> p" using True less.prems(1) by (auto simp: cnt_def)
    have cnt_eq: "(if p < i + c then nat (int p - int i) else c) = cnt"
      using True by (auto simp: cnt_def)
    have ranges: "volume_ranges i c p = (i, cnt) # volume_ranges (i + cnt) (cnt * 2) p"
      using True less.prems(1) by (subst volume_ranges.simps) (simp add: cnt_def Let_def)
    from less.prems(2) obtain fs1 where fs1: "io_WriteFile io fs (volume_name base i cnt) (stream (volume_packets n files p i cnt)) = Inr fs1"
      and rest: "foldR (\<lambda>(q, d) f. io_WriteFile io f q d) (volume_files base n files p (volume_ranges (i + cnt) (cnt * 2) p)) fs1 = Inr fs'"
      by (auto simp: ranges bindR_Inr_iff)
    have "recovery_packets_from ?en i cnt = Inr (volume_blocks (parity_of n files p) i cnt)"
      using recovery_packets_from_eq [of i cnt ?en] cnt(2) p parity_of_shape(1) [of n files p] by (simp add: sel)
    moreover have "writeFile [] (set_file n files (volume_blocks (parity_of n files p) i cnt))
        = Inr (set_id n files, stream (volume_packets n files p i cnt))"
      unfolding volume_packets_def using set_okD(2) [OF set] cnt(2)
      by (intro writeFile_set [OF set] allI impI volume_blocks_length [of n i cnt p]) (presburger, simp_all)
    ultimately have written: "bindR (recovery_packets_from ?en i cnt) (\<lambda>m. writeFile [] (parity_file ?en\<lparr> f_recoveryPackets := m \<rparr>))
        = Inr (set_id n files, stream (volume_packets n files p i cnt))"
      by (simp add: parity_file_computed(1) [OF en(1)])
    have "p - (i + cnt) < p - i" "0 < cnt * 2" using True cnt(1) by simp_all
    note step = less.hyps [OF this rest]
    show ?thesis
      using step True
      by (subst write_volumes.simps) (simp only: sel of_nat_less_iff if_True cnt_eq Let_def written sum.case prod.case fs1)
  qed
qed

lemma path_Ext_stem:
  assumes "path_Ext p = ext"
  shows "take (length p - length (path_Ext p)) p @ ext = p"
proof -
  define bk where "bk = takeWhile (\<lambda>c. c \<noteq> Filenames.dot \<and> c \<noteq> slash) (rev p)"
  define rest where "rest = drop (length bk) (rev p)"
  have "drop (length bk) (rev p) = dropWhile (\<lambda>c. c \<noteq> Filenames.dot \<and> c \<noteq> slash) (rev p)"
    unfolding bk_def by (rule dropWhile_eq_drop [symmetric])
  then have "bk @ rest = rev p" unfolding bk_def rest_def by (simp only: takeWhile_dropWhile_id)
  then have "rev (bk @ rest) = p" by simp
  then have p: "p = rev rest @ rev bk" by simp
  have ext: "path_Ext p = (if rest \<noteq> [] \<and> hd rest = Filenames.dot then Filenames.dot # rev bk else [])"
    by (simp add: path_Ext_def Let_def bk_def rest_def)
  have "\<exists>stem. p = stem @ path_Ext p"
  proof (cases "rest \<noteq> [] \<and> hd rest = Filenames.dot")
    case True
    then have "rest = Filenames.dot # tl rest" by (metis list.collapse)
    then have "rev rest = rev (tl rest) @ [Filenames.dot]" by (metis rev.simps(2))
    with p ext True show ?thesis by (intro exI [of _ "rev (tl rest)"]) simp
  qed (simp only: ext if_False append_Nil2, rule exI, rule refl)
  then obtain stem where "p = stem @ path_Ext p" ..
  then have "take (length p - length (path_Ext p)) p = stem" by (metis append_eq_conv_conj length_append add_diff_cancel_right')
  then show ?thesis using \<open>p = stem @ path_Ext p\<close> assms by simp
qed

lemma Write_ok:
  assumes set: "set_ok n files" and p: "p \<le> 65535" and en: "en_sliceByteCount en = int n" "en_parityShardCount en = int p"
    and ext: "path_Ext indexPath = str ''.par2''"
    and wr: "foldR (\<lambda>(q, d) f. io_WriteFile io f q d) ((indexPath, stream (set_packets n files Map.empty)) #
      volume_files (take (length indexPath - length (path_Ext indexPath)) indexPath) n files p (volume_ranges 0 1 p)) fs = Inr fs'"
  shows "\<exists>events. Write io fs (computed n files p en) indexPath = Some (fs', events, None)"
proof -
  let ?base = "take (length indexPath - length (path_Ext indexPath)) indexPath"
  have name: "?base @ str ''.par2'' = indexPath" by (rule path_Ext_stem [OF ext])
  have written: "writeFile [] (parity_file (computed n files p en)) = Inr (set_id n files, stream (set_packets n files Map.empty))"
    unfolding parity_file_computed(2) [OF en(1)] by (rule writeFile_set [OF set]) simp
  from wr obtain fs1 where fs1: "io_WriteFile io fs indexPath (stream (set_packets n files Map.empty)) = Inr fs1"
    and rest: "foldR (\<lambda>(q, d) f. io_WriteFile io f q d) (volume_files ?base n files p (volume_ranges 0 1 p)) fs1 = Inr fs'"
    by (auto simp: bindR_Inr_iff)
  from write_volumes_ok [OF set p en _ rest] show ?thesis
    by (simp add: Write_def written name Let_def fs1)
qed

end
