(* ===== verification/CreateVerify.thy ===== *)
theory CreateVerify
  imports ParityResult Verify EncoderVolumes
begin

text \<open>
  Creating a set and verifying it: \<open>verify\<close> on a file system that holds the files of a created set
  counts every slice as usable and every exponent as present.
\<close>

section \<open>The decoder of a created set\<close>

definition in_dinfo :: "nat \<Rightarrow> input_file \<Rightarrow> decoderInputFileInfo" where
  "in_dinfo n f = \<lparr> di_fileID = in_id f, di_filename = fst f, di_byteCount = int (length (snd f)),
     di_sixteenKHash = sixteenKHash (snd f), di_hash = md5 (snd f),
     di_checksumPairs = map pair_of (in_shards n f) \<rparr>"

definition set_decoder :: "nat \<Rightarrow> input_file list \<Rightarrow> gostring \<Rightarrow> int \<Rightarrow> scanPolicy \<Rightarrow> int \<Rightarrow> decoder" where
  "set_decoder n files indexPath g policy budget =
     \<lparr> d_indexPath = indexPath, d_setID = set_id n files, d_clientID = clientID, d_sliceByteCount = n,
       d_recoverySet = map (in_dinfo n) (set_files files), d_nonRecoverySet = [], d_numGoroutines = g,
       d_scanPolicy = policy, d_memoryBudget = budget, d_fileIDIndices = Map.empty, d_checksumToLocation = Map.empty,
       d_fileIntegrityInfos = [], d_parityLocations = [], d_parityPresent = [] \<rparr>"

lemma set_packets_volume:
  assumes "set_ok n files" and "\<forall>e q. m e = Some q \<longrightarrow> length (rp_data q) = n" and "q \<in> set (set_packets n files m)"
  shows "volume_packet q" and "fst q = set_id n files"
  using written_packet_small [OF set_file_writable [OF assms(1,2)], of q] assms(3) by (simp_all add: set_packets_def)

lemma length_stream_le: "\<forall>q \<in> set ps. volume_packet q \<Longrightarrow> length (stream ps) \<le> length ps * 2 ^ 30"
proof (induction ps)
  case (Cons q ps)
  then have "length (stream ps) \<le> length ps * 2 ^ 30" "volume_packet q" by simp_all
  then show ?case by (cases q) (simp add: maxPacketLength_def stream_Cons)
qed simp

lemma length_index_stream:
  assumes set: "set_ok n files"
  shows "length (stream (set_packets n files Map.empty)) < 2 ^ 63"
proof -
  have ex: "exponents_of Map.empty = []" by (simp add: exponents_of_def)
  have "length (set_packets n files Map.empty) = 2 + 2 * length files"
    by (simp add: set_packets_def written_packets_def file_packets_def set_main_def set_file_def ex length_concat comp_def sum_list_triv)
  moreover have "length files \<le> 32768" using files_le_slices [OF set] set_okD(7) [OF set] by simp
  moreover have "length (stream (set_packets n files Map.empty)) \<le> length (set_packets n files Map.empty) * 2 ^ 30"
    by (intro length_stream_le ballI set_packets_volume(1) [OF set, of Map.empty]) simp_all
  ultimately show ?thesis by simp
qed

lemma readFile_set:
  assumes set: "set_ok n files"
  shows "\<exists>events. readFile None (stream (set_packets n files Map.empty)) = (events, Inr (set_id n files, set_file n files Map.empty))"
proof (rule written_read_back)
  show "file_writable (set_file n files Map.empty) (set_main n files)" by (rule set_file_writable [OF set]) simp
  show "main_ok (set_main n files)" by (rule writeMainPacket_set(2) [OF set])
  have "list_all (\<lambda>c. c \<noteq> 0) clientID" by code_simp
  then show "0 \<notin> set (f_clientID (set_file n files Map.empty))" by (auto simp: set_file_def list_all_iff)
  have "dom (\<lambda>i. map_option h (infos_of n files i)) = in_id ` set files" for h :: "encoderInputFileInfo \<Rightarrow> 'a"
    using dom_infos_of [of n files] by (auto simp: dom_def)
  then show "dom (f_fileDescriptionPackets (set_file n files Map.empty)) = set (mp_recoverySet (set_main n files) @ mp_nonRecoverySet (set_main n files))"
    "dom (f_ifscPackets (set_file n files Map.empty)) = set (mp_recoverySet (set_main n files) @ mp_nonRecoverySet (set_main n files))"
    by (simp_all add: set_file_def set_main_def)
  show "f_unknownPackets (set_file n files Map.empty) = Map.empty" by (simp add: set_file_def)
  show "length (stream (set_packets n files Map.empty)) < 2 ^ 63" by (rule length_index_stream [OF set])
  show "writeFile [] (set_file n files Map.empty) = Inr (set_id n files, stream (set_packets n files Map.empty))"
    by (rule writeFile_set [OF set]) simp
qed

lemma newDecoder_set:
  assumes set: "set_ok n files" and rd: "io_ReadFile io fs indexPath = Inr (stream (set_packets n files Map.empty))"
  shows "\<exists>opened. newDecoder io fs indexPath g policy budget = (opened, Inr (set_decoder n files indexPath g policy budget))"
proof -
  from readFile_set [OF set] obtain opened where
    read: "readFile None (stream (set_packets n files Map.empty)) = (opened, Inr (set_id n files, set_file n files Map.empty))" ..
  have "makeDecoderInputFileInfos (map in_id (set_files files)) (f_fileDescriptionPackets (set_file n files Map.empty))
      (f_ifscPackets (set_file n files Map.empty)) = Inr (map (in_dinfo n) (set_files files))"
  proof -
    have "(case f_fileDescriptionPackets (set_file n files Map.empty) (in_id f) of
         None \<Rightarrow> Inl (ErrorNew ''file description packet not found'')
       | Some fd \<Rightarrow> (case f_ifscPackets (set_file n files Map.empty) (in_id f) of
           None \<Rightarrow> Inl (ErrorNew ''input file slice checksum packet not found'')
         | Some ifsc \<Rightarrow> Inr \<lparr> di_fileID = in_id f, di_filename = fd_filename fd,
             di_byteCount = fd_byteCount fd, di_sixteenKHash = fd_sixteenKHash fd,
             di_hash = fd_hash fd, di_checksumPairs = ip_checksumPairs ifsc \<rparr>)) = Inr (in_dinfo n f)" if "f \<in> set files" for f
      using infos_of_nth [OF set_okD(6) [OF set] that, of n]
      by (simp add: set_file_def in_dinfo_def in_info_def in_desc_def)
    then show ?thesis
      unfolding makeDecoderInputFileInfos_def mapR_Inr_iff list.rel_map
      by (intro list.rel_refl_strong) simp
  qed
  moreover have "exponents_of Map.empty = []" by (simp add: exponents_of_def)
  moreover have "makeDecoderInputFileInfos [] fds ifs = Inr []" for fds ifs by (simp add: makeDecoderInputFileInfos_def)
  ultimately show ?thesis
    by (simp add: newDecoder_def rd read set_decoder_def) (simp add: set_file_def set_main_def map_id_set_files)
qed

section \<open>The packets of a volume\<close>

lemma exponent_of_written:
  assumes "writeRecoveryPacket e q = Inr b"
  shows "exponent_of (padPacketBytes b) = e"
  using recovery_codec.rd_wr [of "(e, q)" b] assms readRecoveryPacket_exponent(1) by simp

lemma set_packet_good:
  assumes set: "set_ok n files" and m: "\<forall>e q. m e = Some q \<longrightarrow> length (rp_data q) = n"
    and q: "q \<in> set (set_packets n files m)"
  shows "packet_good (set_decoder n files indexPath g policy budget) q"
  using set_file_writable [OF set m] q [unfolded set_packets_def]
proof (cases rule: written_packet_cases)
  case (main b)
  have "readMainPacket (padPacketBytes b) = Inr (set_main n files)"
    by (rule main_codec.rd_wr [OF writeMainPacket_set(2) [OF set] main(3)])
  moreover have "main_mismatch (set_decoder n files indexPath g policy budget) (set_main n files) = None"
    by (simp add: main_mismatch_def set_decoder_def set_main_def decoderInputFileInfoIDs_def comp_def in_dinfo_def
        map_id_set_files [symmetric])
  ultimately show ?thesis by (simp add: packet_good_def main)
next
  case (desc i fd b)
  then show ?thesis using fd_codec.rd_wr [of "(i, fd)" b] by (simp add: packet_good_def packet_types_distinct [symmetric])
next
  case (ifsc i ic b)
  then show ?thesis using ifsc_codec.rd_wr [of "(i, ic)" b] by (simp add: packet_good_def packet_types_distinct [symmetric])
next
  case (block e r b)
  then show ?thesis using recovery_codec.rd_wr [of "(e, r)" b] by (simp add: packet_good_def packet_types_distinct [symmetric])
qed (simp add: packet_good_def packet_types_distinct [symmetric])

lemma volume_blocks_present:
  assumes set: "set_ok n files" and i: "i + c \<le> p" "p \<le> 65535"
  shows "(\<exists>q \<in> set (volume_packets n files p i c). is_block (set_id n files) e q) \<longleftrightarrow> i \<le> e \<and> e < i + c"
proof -
  let ?m = "volume_blocks (parity_of n files p) i c"
  have "even n" using set_okD(2) [OF set] by presburger
  then have m: "\<forall>e q. ?m e = Some q \<longrightarrow> length (rp_data q) = n" using volume_blocks_length i(1) by blast
  note w = set_file_writable [OF set m]
  show ?thesis
  proof
    assume "\<exists>q \<in> set (volume_packets n files p i c). is_block (set_id n files) e q"
    then obtain q where q: "q \<in> set (volume_packets n files p i c)" "is_block (set_id n files) e q" by blast
    from w q(1) [unfolded volume_packets_def set_packets_def] show "i \<le> e \<and> e < i + c"
    proof (cases rule: written_packet_cases)
      case (block x r b)
      then have "e = unat x" using q(2) exponent_of_written by (simp add: is_block_def)
      then show ?thesis using block(3) by (simp add: set_file_def volume_blocks_def split: if_splits)
    qed (use q(2) in \<open>simp_all add: is_block_def packet_types_distinct packet_types_distinct [symmetric]\<close>)
  next
    assume e: "i \<le> e \<and> e < i + c"
    define x :: exponent where "x = of_nat e"
    have x: "unat x = e" using e i unfolding x_def by (simp add: unat_of_nat take_bit_nat_eq_self)
    then have r: "?m x = Some \<lparr> rp_data = parity_of n files p ! e \<rparr>" using e by (simp add: volume_blocks_def)
    let ?q = "block_packet (set_id n files) (set_file n files ?m) x"
    have "?q \<in> set (volume_packets n files p i c)"
      unfolding volume_packets_def set_packets_def written_packets_def set_append set_map
      using r by (intro UnI2 imageI) (simp add: set_exponents_of set_file_def domI)
    moreover have "f_recoveryPackets (set_file n files ?m) x = Some \<lparr> rp_data = parity_of n files p ! e \<rparr>"
      using r by (simp add: set_file_def)
    with w obtain b where "writeRecoveryPacket x \<lparr> rp_data = parity_of n files p ! e \<rparr> = Inr b"
      unfolding file_writable_def by metis
    then have "is_block (set_id n files) e ?q"
      using r exponent_of_written x by (simp add: block_packet_def is_block_def set_file_def)
    ultimately show "\<exists>q \<in> set (volume_packets n files p i c). is_block (set_id n files) e q" by blast
  qed
qed

section \<open>The created files on disk\<close>

definition stem_of :: "gostring \<Rightarrow> gostring" where
  "stem_of indexPath = take (length indexPath - length (path_Ext indexPath)) indexPath"

text \<open>
  The index file and the volumes of a created set can be read, and what is found under the names of recovery
  volumes is these volumes.
\<close>

definition volumes_on_disk :: "('fs, 'w) fileIO \<Rightarrow> 'fs \<Rightarrow> gostring \<Rightarrow> nat \<Rightarrow> input_file list \<Rightarrow> nat \<Rightarrow> bool" where
  "volumes_on_disk io fs indexPath n files p \<longleftrightarrow>
     io_ReadFile io fs indexPath = Inr (stream (set_packets n files Map.empty)) \<and>
     (\<forall>(q, d) \<in> set (volume_files (stem_of indexPath) n files p (volume_ranges 0 1 p)). io_ReadFile io fs q = Inr d) \<and>
     (\<forall>mid d. io_ReadFile io fs ((stem_of indexPath @ [Filenames.dot]) @ mid @ str ''.par2'') = Inr d \<longrightarrow>
       (stem_of indexPath @ [Filenames.dot]) @ mid @ str ''.par2''
         \<in> fst ` set (volume_files (stem_of indexPath) n files p (volume_ranges 0 1 p)))"

text \<open>With the data files.\<close>

definition on_disk :: "('fs, 'w) fileIO \<Rightarrow> 'fs \<Rightarrow> gostring \<Rightarrow> nat \<Rightarrow> input_file list \<Rightarrow> nat \<Rightarrow> bool" where
  "on_disk io fs indexPath n files p \<longleftrightarrow>
     (\<forall>f \<in> set files. io_ReadFile io fs (filepath_Join (filepath_Dir indexPath) (fst f)) = Inr (snd f)) \<and>
     volumes_on_disk io fs indexPath n files p"

lemma list_all2_choice: "\<forall>x \<in> set xs. \<exists>y. P x y \<Longrightarrow> \<exists>ys. list_all2 P xs ys"
proof (induction xs)
  case (Cons x xs)
  then obtain ys y where "list_all2 P xs ys" "P x y" by auto
  then show ?case by (intro exI [of _ "y # ys"]) simp
qed (rule exI [of _ "[]"], simp)

definition set_volume :: "gostring \<Rightarrow> nat \<Rightarrow> input_file list \<Rightarrow> nat \<Rightarrow> gostring \<Rightarrow> packet list \<Rightarrow> bool" where
  "set_volume stem n files p q ps \<longleftrightarrow>
     (\<exists>i c. (i, c) \<in> set (volume_ranges 0 1 p) \<and> q = volume_name stem i c \<and> ps = volume_packets n files p i c)"

lemma parity_loaded:
  assumes store: "file_store ok key io" and ok: "ok fs" and abs: "path_IsAbs (stem_of indexPath)"
    and ext: "path_Ext indexPath = str ''.par2''"
    and set: "set_ok n files" and p: "p \<le> 65535" and disk: "volumes_on_disk io fs indexPath n files p"
  obtains matches pss where "list_all2 (set_volume (stem_of indexPath) n files p) matches pss"
    and "\<exists>loaded locs. LoadParityPresence sched io fs (set_decoder n files indexPath g policy budget)
      = Some (Inr (loaded, Inr ((set_decoder n files indexPath g policy budget)
          \<lparr> d_parityPresent := replicate p True, d_parityLocations := locs \<rparr>)))"
    and "\<exists>loaded locs. LoadParityData sched io fs (set_decoder n files indexPath g policy budget)
      = Some (Inr (loaded, Inr ((set_decoder n files indexPath g policy budget)
          \<lparr> d_parityPresent := replicate p True, d_parityLocations := locs \<rparr>))) \<and> length locs = p \<and>
      (\<forall>e < p. block_located (set_id n files) matches pss e (locs ! e))"
proof -
  let ?d = "set_decoder n files indexPath g policy budget" and ?pre = "stem_of indexPath @ [Filenames.dot]"
  let ?ranges = "volume_ranges 0 1 p"
  let ?names = "(\<lambda>(i, c). volume_name (stem_of indexPath) i c) ` set ?ranges"
  have names: "fst ` set (volume_files (stem_of indexPath) n files p ?ranges) = ?names" by force
  have d: "d_indexPath ?d = indexPath" "d_setID ?d = set_id n files" by (simp_all add: set_decoder_def)
  have "path_IsAbs ?pre" using abs by (simp add: path_IsAbs_def) 
  from file_store.find_ok [OF store ok this, of "str ''.par2''"] obtain l where
    find: "io_FindWithPrefixAndSuffix io fs ?pre (str ''.par2'') = Inr l"
    and sound: "\<forall>q \<in> set l. (\<exists>mid. q = ?pre @ mid @ str ''.par2'') \<and> (\<exists>d. io_ReadFile io fs q = Inr d)"
    and complete: "\<forall>mid d. slash \<notin> set mid \<longrightarrow> io_ReadFile io fs (?pre @ mid @ str ''.par2'') = Inr d \<longrightarrow> ?pre @ mid @ str ''.par2'' \<in> set l"
    by blast
  have sub: "set l \<subseteq> ?names"
  proof
    fix q assume "q \<in> set l"
    then obtain mid dd where "q = ?pre @ mid @ str ''.par2''" "io_ReadFile io fs q = Inr dd" using sound by blast
    then show "q \<in> ?names" using disk unfolding volumes_on_disk_def names by blast
  qed
  have sup: "volume_name (stem_of indexPath) i c \<in> set l" if "(i, c) \<in> set ?ranges" for i c
  proof -
    have "io_ReadFile io fs (volume_name (stem_of indexPath) i c) = Inr (stream (volume_packets n files p i c))"
      using disk that by (auto simp: volumes_on_disk_def)
    then show ?thesis unfolding volume_name_mid using complete volume_mid_slash by blast
  qed
  let ?P = "set_volume (stem_of indexPath) n files p"
  have "\<forall>q \<in> set l. \<exists>ps. ?P q ps"
  proof
    fix q assume "q \<in> set l"
    then have "q \<in> ?names" using sub by (rule rev_subsetD)
    then obtain i c where "(i, c) \<in> set ?ranges" "q = volume_name (stem_of indexPath) i c" by (elim imageE) auto
    then show "\<exists>ps. ?P q ps" unfolding set_volume_def by (intro exI conjI) (rule refl | assumption)+
  qed
  from list_all2_choice [OF this] obtain pss where pss: "list_all2 ?P l pss" ..
  have "volume_file io fs ?d q ps" if "?P q ps" for q ps
  proof -
    from that obtain i c where r: "(i, c) \<in> set ?ranges" "q = volume_name (stem_of indexPath) i c" "ps = volume_packets n files p i c"
      unfolding set_volume_def by blast
    have "io_ReadFile io fs q = Inr (stream ps)" using disk r by (auto simp: volumes_on_disk_def)
    note open1 = file_store.open_ok [OF store ok this]
    have "even n" using set_okD(2) [OF set] by presburger
    moreover have "i + c \<le> p" using volume_ranges_partition(2) [of 1 0 p] r(1) by auto
    ultimately have m: "\<forall>e q. volume_blocks (parity_of n files p) i c e = Some q \<longrightarrow> length (rp_data q) = n"
      using volume_blocks_length by blast
    have "q \<noteq> []" by (simp add: r(2) volume_name_mid)
    with open1 show ?thesis
      unfolding volume_file_def using set_packets_volume(1) [OF set m] set_packet_good [OF set m]
      by (simp add: r(3) volume_packets_def)
  qed
  with pss have vf: "list_all2 (volume_file io fs ?d) l pss" by (rule list_all2_mono)
  have "io_FindWithPrefixAndSuffix io fs (take (length (d_indexPath ?d) - length (path_Ext (d_indexPath ?d))) (d_indexPath ?d) @ [Filenames.dot])
      (path_Ext (d_indexPath ?d)) = Inr l" using find by (simp only: d ext stem_of_def)
  from LoadParity_table [OF this vf] obtain present where
    present: "\<And>e. e < length present \<and> present ! e \<longleftrightarrow> (\<exists>ps \<in> set pss. \<exists>p \<in> set ps. is_block (d_setID ?d) e p)"
      "present \<noteq> [] \<longrightarrow> last present"
    and runs: "\<And>sched. \<exists>locs. LoadParityPresence sched io fs ?d = Some (Inr (parity_events ?d l pss,
       Inr (?d\<lparr> d_parityPresent := present, d_parityLocations := locs \<rparr>)))"
      "\<And>sched. \<exists>locs. LoadParityData sched io fs ?d = Some (Inr (parity_events ?d l pss,
       Inr (?d\<lparr> d_parityPresent := present, d_parityLocations := locs \<rparr>))) \<and> length locs = length present \<and>
       (\<forall>e < length present. present ! e \<longrightarrow> block_located (d_setID ?d) l pss e (locs ! e))" by metis
  have blocks: "(\<exists>ps \<in> set pss. \<exists>p \<in> set ps. is_block (d_setID ?d) e p) \<longleftrightarrow> e < p" for e
  proof -
    have "(\<exists>ps \<in> set pss. \<exists>p \<in> set ps. is_block (d_setID ?d) e p) \<longleftrightarrow> (\<exists>(i, c) \<in> set ?ranges. i \<le> e \<and> e < i + c)"
    proof
      assume "\<exists>ps \<in> set pss. \<exists>p \<in> set ps. is_block (d_setID ?d) e p"
      then obtain ps where ps: "ps \<in> set pss" "\<exists>p \<in> set ps. is_block (set_id n files) e p" unfolding d by blast
      then obtain q where "?P q ps" using pss by (metis list_all2_conv_all_nth in_set_conv_nth)
      then obtain i c where r: "(i, c) \<in> set ?ranges" "ps = volume_packets n files p i c" unfolding set_volume_def by blast
      then have "i + c \<le> p" using volume_ranges_partition(2) [of 1 0 p] by auto
      from volume_blocks_present [OF set this p] ps(2) r show "\<exists>(i, c) \<in> set ?ranges. i \<le> e \<and> e < i + c" by blast
    next
      assume "\<exists>(i, c) \<in> set ?ranges. i \<le> e \<and> e < i + c"
      then obtain i c where r: "(i, c) \<in> set ?ranges" "i \<le> e \<and> e < i + c" by blast
      from sup [OF r(1)] obtain ps where ps: "ps \<in> set pss" "?P (volume_name (stem_of indexPath) i c) ps"
        using pss by (metis list_all2_conv_all_nth in_set_conv_nth)
      then obtain j k where jk: "(j, k) \<in> set ?ranges" "volume_name (stem_of indexPath) i c = volume_name (stem_of indexPath) j k"
        "ps = volume_packets n files p j k" unfolding set_volume_def by blast
      have "i = j" by (rule volume_name_start [OF jk(2)])
      with jk(1) r(1) volume_ranges_distinct [of 1 0 p] have "c = k" by (metis eq_key_imp_eq_value le0 zero_less_one)
      have "i + c \<le> p" using volume_ranges_partition(2) [of 1 0 p] r(1) by auto
      from volume_blocks_present [OF set this p] r(2) ps(1) jk(3) \<open>i = j\<close> \<open>c = k\<close>
      show "\<exists>ps \<in> set pss. \<exists>p \<in> set ps. is_block (d_setID ?d) e p" unfolding d by blast
    qed
    also have "\<dots> \<longleftrightarrow> e \<in> set (concat (map (\<lambda>(i, c). [i..<i + c]) ?ranges))" by auto
    also have "\<dots> \<longleftrightarrow> e < p" using volume_ranges_partition(1) [of 1 0 p] by simp
    finally show ?thesis .
  qed
  have rep: "present = replicate p True"
    by (rule present_unique) (use present blocks in auto)
  show thesis
  proof (rule that [OF pss])
    show "\<exists>loaded locs. LoadParityPresence sched io fs ?d = Some (Inr (loaded, Inr (?d\<lparr> d_parityPresent := replicate p True, d_parityLocations := locs \<rparr>)))"
      using runs(1) [of sched] unfolding rep by blast
    from runs(2) [of sched, unfolded rep d(2)]
    show "\<exists>loaded locs. LoadParityData sched io fs ?d = Some (Inr (loaded, Inr (?d\<lparr> d_parityPresent := replicate p True, d_parityLocations := locs \<rparr>))) \<and>
        length locs = p \<and> (\<forall>e < p. block_located (set_id n files) l pss e (locs ! e))"
      by auto
  qed
qed

section \<open>Verification of a set on disk\<close>

lemma length_set_files [simp]: "length (set_files files) = length files"
  by (simp add: set_files_def)

abbreviation data_path :: "gostring \<Rightarrow> input_file \<Rightarrow> gostring" where
  "data_path indexPath f \<equiv> filepath_Join (filepath_Dir indexPath) (fst f)"

text \<open>What is left of the data files, in the order of the set; None where there is no file.\<close>

definition data_left :: "('fs, 'w) fileIO \<Rightarrow> 'fs \<Rightarrow> gostring \<Rightarrow> input_file list \<Rightarrow> byte list option list \<Rightarrow> bool" where
  "data_left io fs indexPath files disk \<longleftrightarrow> length disk = length files \<and>
     (\<forall>i < length files. io_ReadFile io fs (data_path indexPath (set_files files ! i))
        = (case disk ! i of None \<Rightarrow> Inl OsErrNotExist | Some f \<Rightarrow> Inr f))"

lemma set_fill_ok:
  assumes store: "file_store ok key io" and ok: "ok fs" and set: "set_ok n files"
    and d: "d_indexPath d = indexPath" "d_sliceByteCount d = n" "d_recoverySet d = map (in_dinfo n) (set_files files)"
    and left: "data_left io fs indexPath files disk"
  shows "fill_setup_ok \<lparr> fu_io = io, fu_fs = fs, fu_decoder = d, fu_files = disk \<rparr>"
  unfolding fill_setup_ok_def fill_setup.simps d
proof (intro conjI allI impI)
  have "map di_fileID (map (in_dinfo n) (set_files files)) = sort (map in_id files)"
    by (simp add: comp_def in_dinfo_def map_id_set_files [symmetric])
  then show "distinct (map di_fileID (map (in_dinfo n) (set_files files)))" using set_okD(6) [OF set] by (simp only: distinct_sort)
  show "4 \<le> n" by (rule set_okD(3) [OF set])
  show "length disk = length (map (in_dinfo n) (set_files files))" using left by (simp add: data_left_def)
  fix i assume i: "i < length (map (in_dinfo n) (set_files files))"
  then have "io_ReadFile io fs (getFilePath d (map (in_dinfo n) (set_files files) ! i)) = (case disk ! i of None \<Rightarrow> Inl OsErrNotExist | Some f \<Rightarrow> Inr f)"
    using left by (simp add: data_left_def getFilePath_def d) (simp add: in_dinfo_def)
  with file_store.open_ok [OF store ok] file_store.open_err [OF store ok]
  show "opens_as (io_OpenRead io fs (getFilePath d (map (in_dinfo n) (set_files files) ! i))) (disk ! i)"
    by (auto simp: opens_as_def split: option.splits)
qed

lemma in_dinfo_intact:
  assumes "0 < n"
  shows "file_intact n (in_dinfo n f) (Some (snd f))"
proof -
  have "slices_in_place n (in_dinfo n f) (snd f)"
    using slice_index [OF assms] by (simp add: slices_in_place_def in_dinfo_def in_shards_def pair_of_def pair_matches_own slice_count_def)
  then show ?thesis by (simp add: file_intact_def) (simp add: in_dinfo_def)
qed

lemma count_shards:
  assumes "\<forall>info \<in> set infos. \<forall>sh \<in> set (fi_shardInfos info). si_present sh"
  shows "fold (\<lambda>info. fold (\<lambda>sh (u, v). if \<not> si_present sh then (u, v + 1) else (u + 1, v)) (fi_shardInfos info)) infos (u, v)
    = (u + (\<Sum>info\<leftarrow>infos. length (fi_shardInfos info)), v :: nat)"
  using assms
proof (induction infos arbitrary: u)
  case (Cons info infos)
  have shs: "fold (\<lambda>sh (u, v). if \<not> si_present sh then (u, v + 1) else (u + 1, v)) shs (u, v) = (u + length shs, v :: nat)"
    if "\<forall>sh \<in> set shs. si_present sh" for shs u
    using that by (induction shs arbitrary: u) simp_all
  have "\<forall>sh \<in> set (fi_shardInfos info). si_present sh" "\<forall>info \<in> set infos. \<forall>sh \<in> set (fi_shardInfos info). si_present sh"
    using Cons.prems by simp_all
  then show ?case
    by (simp only: fold_Cons comp_apply shs Cons.IH list.map sum_list.Cons add.assoc)
qed simp

lemma count_parity: "fold (\<lambda>present (u, v). if present then (u + 1, v) else (u, v + 1)) (replicate p True) (u, v) = (u + p, v :: nat)"
  by (induction p arbitrary: u) simp_all

lemma set_counts:
  assumes set: "set_ok n files" and J: "fill_J fu st" and fu: "fu_set fu = map (in_dinfo n) (set_files files)" "fu_slice fu = n"
    "fu_files fu = map (\<lambda>f. Some (snd f)) (set_files files)"
    and v: "\<forall>i < length (fu_set fu). verdict_ok fu st i"
  shows "shardCounts (d\<lparr> d_fileIntegrityInfos := ls_infos st, d_parityPresent := replicate p True, d_parityLocations := locs \<rparr>)
    = \<lparr> UsableDataShardCount = slices_total n files, UnusableDataShardCount = 0,
        UsableParityShardCount = p, UnusableParityShardCount = 0 \<rparr>"
proof -
  have io: "infos_ok (fu_set fu) (ls_infos st)" using J by (simp add: fill_J_def)
  have len: "length (ls_infos st) = length (set_files files)" using infos_okD(1) [OF io] fu(1) by simp
  have shards: "length (fi_shardInfos (ls_infos st ! i)) = slice_count n (set_files files ! i)" if "i < length (set_files files)" for i
    using infos_okD(3) [OF io, of i] that by (simp add: fu(1) in_dinfo_def)
  have "\<forall>sh \<in> set (fi_shardInfos info). si_present sh" if "info \<in> set (ls_infos st)" for info
  proof -
    from that obtain i where i: "i < length (set_files files)" "info = ls_infos st ! i" by (auto simp: in_set_conv_nth len)
    have "file_integrity_ok n info"
      using verdict_integrity [OF J v [rule_format], of i] i in_dinfo_intact [OF set_okD(1) [OF set]] by (simp add: fu)
    then show ?thesis
      by (auto simp: file_integrity_ok_def allShardsOK_def shard_ok_def list_all_iff in_set_conv_nth)
  qed
  then have all: "\<forall>info \<in> set (ls_infos st). \<forall>sh \<in> set (fi_shardInfos info). si_present sh" by blast
  have "map (\<lambda>info. length (fi_shardInfos info)) (ls_infos st) = map (slice_count n) (set_files files)"
    using len shards by (intro nth_equalityI) simp_all
  then have "(\<Sum>info\<leftarrow>ls_infos st. length (fi_shardInfos info)) = slices_total n files"
    using length_all_shards [of n files] by (simp add: all_shards_def length_concat comp_def)
  moreover have "d_fileIntegrityInfos (d\<lparr> d_fileIntegrityInfos := ls_infos st, d_parityPresent := replicate p True, d_parityLocations := locs \<rparr>)
      = ls_infos st"
    "d_parityPresent (d\<lparr> d_fileIntegrityInfos := ls_infos st, d_parityPresent := replicate p True, d_parityLocations := locs \<rparr>) = replicate p True"
    by simp_all
  ultimately show ?thesis
    by (simp only: shardCounts_def count_shards [OF all] count_parity prod.case Let_def add_0)
qed

lemma verify_set:
  assumes store: "file_store ok key io" and ok: "ok fs" and abs: "path_IsAbs (stem_of indexPath)"
    and ext: "path_Ext indexPath = str ''.par2''"
    and set: "set_ok n files" and p: "p \<le> 65535" and disk: "on_disk io fs indexPath n files p" and wo: "windows_ok windows"
  shows "\<exists>opened scanned loaded. verify ncpu sched psched windows io fs indexPath options
    = Some (opened, scanned, loaded, Inr \<lparr> UsableDataShardCount = slices_total n files, UnusableDataShardCount = 0,
        UsableParityShardCount = p, UnusableParityShardCount = 0 \<rparr>)"
proof -
  define g where "g = (if vo_NumGoroutines options \<le> 0 then ncpu else vo_NumGoroutines options)"
  define policy where "policy = \<lparr> findMisaligned = vo_FindMisalignedData options, searchLimit = vo_MisalignedSearchLimit options \<rparr>"
  define d where "d = set_decoder n files indexPath g policy (vo_MemoryBudget options)"
  define fu where "fu = \<lparr> fu_io = io, fu_fs = fs, fu_decoder = d, fu_files = map (\<lambda>f. Some (snd f)) (set_files files) \<rparr>"
  have d_sel: "d_recoverySet d = map (in_dinfo n) (set_files files)" "d_sliceByteCount d = n" "d_indexPath d = indexPath"
    by (simp_all add: d_def set_decoder_def)
  have fu_sel: "fu_io fu = io" "fu_fs fu = fs" "fu_decoder fu = d" "fu_files fu = map (\<lambda>f. Some (snd f)) (set_files files)"
    by (simp_all add: fu_def)
  have "io_ReadFile io fs indexPath = Inr (stream (set_packets n files Map.empty))" using disk by (simp add: on_disk_def volumes_on_disk_def)
  from newDecoder_set [OF set this, of g policy "vo_MemoryBudget options", folded d_def] obtain opened where
    opened: "newDecoder io fs indexPath g policy (vo_MemoryBudget options) = (opened, Inr d)" ..
  have left: "data_left io fs indexPath files (map (\<lambda>f. Some (snd f)) (set_files files))"
    using disk set_set_files [of files] nth_mem [of _ "set_files files"] by (auto simp: data_left_def on_disk_def)
  have su: "fill_setup_ok fu" unfolding fu_def by (rule set_fill_ok [OF store ok set d_sel(3,2,1) left])
  from LoadFileData_ok [OF su wo, of sched] obtain scanned st where
    scan: "LoadFileData sched io fs windows d = Some (Inr (scanned, ls_windows st, Inr (d
          \<lparr> d_fileIDIndices := file_id_indices (d_recoverySet d),
            d_checksumToLocation := makeChecksumShardLocationMap (d_sliceByteCount d) (d_recoverySet d),
            d_fileIntegrityInfos := ls_infos st \<rparr>)))"
    and J: "fill_J fu st" and v: "\<forall>i < length (fu_set fu). verdict_ok fu st i"
    unfolding fu_sel by blast
  have vols: "volumes_on_disk io fs indexPath n files p" using disk by (simp add: on_disk_def)
  obtain loaded locs where
    parity: "LoadParityPresence psched io fs d = Some (Inr (loaded, Inr (d\<lparr> d_parityPresent := replicate p True, d_parityLocations := locs \<rparr>)))"
    by (rule parity_loaded [OF store ok abs ext set p vols, of psched g policy "vo_MemoryBudget options", folded d_def]) blast
  note counts = set_counts [OF set J _ _ _ v, unfolded fu_sel d_sel, OF refl refl refl]
  have "checkExtension indexPath = Inr ()" using ext by (simp add: checkExtension_def)
  then show ?thesis
    unfolding verify_def Let_def g_def [symmetric] policy_def [symmetric]
    by (simp add: opened scan parity counts)
qed

section \<open>Creation\<close>

lemma filepath_Dir_abs:
  assumes "path_IsAbs p"
  shows "path_IsAbs (filepath_Dir p)"
proof -
  obtain t where p: "p = slash # t" using assms by (cases p) (auto simp: path_IsAbs_def)
  have "rev (dropWhile (\<lambda>c. c \<noteq> slash) (rev p)) = slash # rev (dropWhile (\<lambda>c. c \<noteq> slash) (rev t))"
    by (simp add: p dropWhile_append3)
  then have "path_IsAbs (rev (dropWhile (\<lambda>c. c \<noteq> slash) (rev p)))" by (simp add: path_IsAbs_def)
  then show ?thesis unfolding filepath_Dir_def by (rule path_Clean_rooted)
qed

definition chosen :: "int \<Rightarrow> int \<Rightarrow> int" where
  "chosen v dflt = (if v \<le> 0 then dflt else v)"

text \<open>
  Arguments from which a set can be created: a clean absolute path, files below its directory with the
  contents given by \<open>files\<close>, slices of \<open>n\<close> bytes and \<open>p\<close> exponents, and no recovery volumes of that name yet.
\<close>

definition create_ready ::
    "int \<Rightarrow> gostring \<Rightarrow> ('fs, 'w) fileIO \<Rightarrow> 'fs \<Rightarrow> gostring \<Rightarrow> gostring list \<Rightarrow> CreateOptions \<Rightarrow> nat \<Rightarrow> input_file list \<Rightarrow> nat \<Rightarrow> bool" where
  "create_ready ncpu workingDir io fs parPath filePaths options n files p \<longleftrightarrow>
     path_Ext parPath = str ''.par2'' \<and> path_IsAbs parPath \<and> path_Clean parPath = parPath \<and>
     chosen (SliceByteCount options) SliceByteCountDefault = int n \<and>
     chosen (NumParityShards options) NumParityShardsDefault = int p \<and> p \<le> 65535 \<and>
     0 < chosen (NumGoroutines options) ncpu \<and> set_ok n files \<and>
     mapR (rel_file_path (filepath_Dir parPath)) (map (filepath_Abs workingDir) filePaths) = Inr (map fst files) \<and>
     (\<forall>f \<in> set files. io_ReadFile io fs (filepath_Join (filepath_Dir parPath) (fst f)) = Inr (snd f) \<and>
        filepath_Join (filepath_Dir parPath) (fst f) \<noteq> parPath) \<and>
     (\<forall>mid d. io_ReadFile io fs ((stem_of parPath @ [Filenames.dot]) @ mid @ str ''.par2'') \<noteq> Inr d)"

lemma stem_of_abs:
  assumes "path_IsAbs p" and "path_Ext p = str ''.par2''"
  shows "path_IsAbs (stem_of p)"
proof -
  have e: "str ''.par2'' = Filenames.dot # str ''par2''" by code_simp
  define st where "st = stem_of p"
  have p: "st @ str ''.par2'' = p" unfolding st_def stem_of_def by (rule path_Ext_stem [OF assms(2)])
  obtain c st' where "st = c # st'"
  proof (cases st)
    case Nil
    moreover have "Filenames.dot \<noteq> slash" by code_simp
    ultimately show thesis using assms(1) p e by (auto simp: path_IsAbs_def)
  qed
  then show ?thesis unfolding st_def [symmetric] using assms(1) p by (auto simp: path_IsAbs_def)
qed

lemma create_on_disk:
  assumes store: "file_store ok key io" and ok: "ok fs" and e: "env_ok e"
    and ready: "create_ready ncpu workingDir io fs parPath filePaths options n files p"
  shows "\<exists>fs' events. create e ncpu workingDir io fs parPath filePaths options = Some (fs', events, None) \<and>
    ok fs' \<and> on_disk io fs' parPath n files p"
proof -
  let ?base = "filepath_Dir parPath" and ?stem = "stem_of parPath" and ?ranges = "volume_ranges 0 1 p"
  note r = ready [unfolded create_ready_def]
  from r have ext: "path_Ext parPath = str ''.par2''" and abs: "path_IsAbs parPath" and clean: "path_Clean parPath = parPath"
    and n: "chosen (SliceByteCount options) SliceByteCountDefault = int n"
    and p: "chosen (NumParityShards options) NumParityShardsDefault = int p" "p \<le> 65535"
    and g: "0 < chosen (NumGoroutines options) ncpu" and set: "set_ok n files"
    and rel: "mapR (rel_file_path ?base) (map (filepath_Abs workingDir) filePaths) = Inr (map fst files)"
    and data: "\<And>f. f \<in> set files \<Longrightarrow> io_ReadFile io fs (filepath_Join ?base (fst f)) = Inr (snd f)"
      "\<And>f. f \<in> set files \<Longrightarrow> filepath_Join ?base (fst f) \<noteq> parPath"
    and fresh: "\<And>mid d. io_ReadFile io fs ((?stem @ [Filenames.dot]) @ mid @ str ''.par2'') \<noteq> Inr d" by blast+
  have stem: "path_IsAbs ?stem" "?stem @ str ''.par2'' = parPath" using stem_of_abs [OF abs ext] path_Ext_stem [OF ext] by (simp_all add: stem_of_def)
  have base: "path_IsAbs ?base" by (rule filepath_Dir_abs [OF abs])
  define W where "W = (parPath, stream (set_packets n files Map.empty)) # volume_files ?stem n files p ?ranges"
  have vol_abs: "path_IsAbs (volume_name ?stem i c)" for i c
    using stem(1) by (cases ?stem) (simp_all add: volume_name_def path_IsAbs_def)
  have key: "key fs q = q" if "path_IsAbs q" for q using file_store.key_abs [OF store ok that] .
  have W_abs: "path_IsAbs q" if "(q, d) \<in> set W" for q d using that abs vol_abs by (auto simp: W_def)
  have W_key: "map (\<lambda>(q, d). key fs q) W = map fst W" using W_abs key by (intro map_cong) auto
  have mid: "parPath \<noteq> (?stem @ [Filenames.dot]) @ m @ str ''.par2''" for m
  proof
    assume "parPath = (?stem @ [Filenames.dot]) @ m @ str ''.par2''"
    then have "length (?stem @ str ''.par2'') = length ((?stem @ [Filenames.dot]) @ m @ str ''.par2'')" using stem(2) by simp
    then show False by simp
  qed
  have "distinct (map fst W)"
  proof -
    have "inj_on (\<lambda>(i, c). volume_name ?stem i c) (set ?ranges)"
    proof (rule inj_onI, clarify)
      fix i c j d assume r: "(i, c) \<in> set ?ranges" "(j, d) \<in> set ?ranges" "volume_name ?stem i c = volume_name ?stem j d"
      have ij: "i = j" by (rule volume_name_start [OF r(3)])
      have "distinct (map fst ?ranges)" by (rule volume_ranges_distinct) simp_all
      from eq_key_imp_eq_value [OF this] r(1,2) show "i = j \<and> c = d" by (simp add: ij)
    qed
    moreover have "distinct ?ranges" using volume_ranges_distinct [of 1 0 p] by (simp add: distinct_map)
    ultimately have "distinct (map (\<lambda>(i, c). volume_name ?stem i c) ?ranges)" by (simp only: distinct_map)
    moreover have "map fst W = parPath # map (\<lambda>(i, c). volume_name ?stem i c) ?ranges" by (auto simp: W_def)
    moreover have "parPath \<noteq> volume_name ?stem i c" for i c using mid by (simp add: volume_name_mid)
    ultimately show ?thesis by auto
  qed
  with file_io.wr_all [OF file_store.axioms(1) [OF store] ok, of W] W_key obtain fs' where
    fs': "foldR (\<lambda>(q, d) f. io_WriteFile io f q d) W fs = Inr fs'" "ok fs'"
    "\<forall>(q, d) \<in> set W. io_ReadFile io fs' q = Inr d"
    and untouched: "\<And>q. key fs q \<notin> (\<lambda>(q, d). key fs q) ` set W \<Longrightarrow> io_ReadFile io fs' q = io_ReadFile io fs q" by auto
  have keys: "(\<lambda>(q, d). key fs q) ` set W = fst ` set W" using W_key by (metis list.set_map)
  have vol: "fst ` set W = insert parPath (fst ` set (volume_files ?stem n files p ?ranges))" by (simp add: W_def)
  have vol_form: "\<exists>m. q = (?stem @ [Filenames.dot]) @ m @ str ''.par2''" if "q \<in> fst ` set (volume_files ?stem n files p ?ranges)" for q
    using that by (auto simp: volume_name_mid)
  have "on_disk io fs' parPath n files p"
    unfolding on_disk_def volumes_on_disk_def
  proof (intro conjI ballI allI impI)
    fix f assume f: "f \<in> set files"
    let ?q = "filepath_Join ?base (fst f)"
    have "path_IsAbs ?q" using base path_Clean_rooted by (auto simp: filepath_Join_def path_IsAbs_def)
    moreover have "?q \<notin> fst ` set W"
    proof
      assume "?q \<in> fst ` set W"
      then have "?q \<in> fst ` set (volume_files ?stem n files p ?ranges)" unfolding vol using data(2) [OF f] by (elim insertE) simp_all
      from vol_form [OF this] obtain m where "?q = (?stem @ [Filenames.dot]) @ m @ str ''.par2''" ..
      with data(1) [OF f] fresh [of m "snd f"] show False by simp
    qed
    ultimately show "io_ReadFile io fs' ?q = Inr (snd f)" using untouched [of ?q] key data(1) [OF f] keys by simp
  next
    show "io_ReadFile io fs' parPath = Inr (stream (set_packets n files Map.empty))" using fs'(3) by (simp add: W_def)
  next
    fix x assume "x \<in> set (volume_files ?stem n files p ?ranges)"
    then show "case x of (q, d) \<Rightarrow> io_ReadFile io fs' q = Inr d" using fs'(3) by (auto simp: W_def)
  next
    fix m d assume rd: "io_ReadFile io fs' ((?stem @ [Filenames.dot]) @ m @ str ''.par2'') = Inr d"
    let ?q = "(?stem @ [Filenames.dot]) @ m @ str ''.par2''"
    have "path_IsAbs ?q" using stem(1) by (cases ?stem) (simp_all add: path_IsAbs_def)
    have "?q \<in> fst ` set W"
    proof (rule ccontr)
      assume "?q \<notin> fst ` set W"
      then have "io_ReadFile io fs' ?q = io_ReadFile io fs ?q" using untouched [of ?q] key [OF \<open>path_IsAbs ?q\<close>] keys by simp
      with rd fresh [of m d] show False by simp
    qed
    then show "?q \<in> fst ` set (volume_files ?stem n files p ?ranges)" unfolding vol using mid [of m] by (elim insertE) simp_all
  qed
  moreover
  define en where "en = \<lparr> en_basePath = ?base, en_relFilePaths = map fst files, en_sliceByteCount = int n,
    en_parityShardCount = int p, en_numGoroutines = chosen (NumGoroutines options) ncpu, en_recoverySet = [],
    en_recoverySetInfos = Map.empty, en_parityShards = [] \<rparr>"
  have en: "en_sliceByteCount en = int n" "en_parityShardCount en = int p" "en_relFilePaths en = map fst files"
    "en_basePath en = ?base" "0 < en_numGoroutines en" using g by (simp_all add: en_def)
  have par: "filepath_Dir (filepath_Abs workingDir parPath) = ?base" using abs clean by (simp add: filepath_Abs_def)
  have "int n \<noteq> 0" "int n mod 4 = 0" using set_okD(1,2) [OF set] by presburger+
  then have new: "newEncoder ?base (map (filepath_Abs workingDir) filePaths) (int n) (int p) (chosen (NumGoroutines options) ncpu) = Inr en"
    using base rel by (simp add: newEncoder_def en_def)
  have "0 < p" using p(1) by (auto simp: chosen_def NumParityShardsDefault_def split: if_splits)
  with ComputeParityData_ok [OF set e _ p(2) en(5,2)]
  have parity: "ComputeParityData e (en\<lparr> en_recoverySet := sort (map in_id files), en_recoverySetInfos := infos_of n files \<rparr>)
      = Inr (computed n files p en)" by (simp add: computed_def)
  have "\<forall>f \<in> set files. io_ReadFile io fs (filepath_Join (en_basePath en) (fst f)) = Inr (snd f)" using data(1) en(4) by simp
  from Encoder_LoadFileData_ok [OF set_okD(1) [OF set] en(1,3) this set_okD(6) [OF set]] obtain loads where
    load: "Encoder_LoadFileData io fs en
      = Some (loads, Inr (en\<lparr> en_recoverySet := sort (map in_id files), en_recoverySetInfos := infos_of n files \<rparr>))" ..
  from Write_ok [OF set p(2) en(1,2) ext fs'(1) [unfolded W_def stem_of_def]] obtain writes where
    wrote: "Write io fs (computed n files p en) parPath = Some (fs', writes, None)" ..
  have "filePaths \<noteq> []" using rel set_okD(5) [OF set] by auto
  then have "create e ncpu workingDir io fs parPath filePaths options = Some (fs', loads @ writes, None)"
    using ext by (simp add: create_def checkExtension_def Let_def par chosen_def [symmetric] n p(1) new load parity wrote)
  ultimately show ?thesis using fs'(2) by blast
qed

text \<open>A file of five bytes in two slices, three exponents.\<close>

lemma create_ready_example:
  "fs_ok \<lparr> fs_workingDir = str ''/d'', fs_fileData = [(str ''/d/a'', [1, 2, 3, 4, 5])] \<rparr>"
  "create_ready 1 (str ''/d'') memfs_io \<lparr> fs_workingDir = str ''/d'', fs_fileData = [(str ''/d/a'', [1, 2, 3, 4, 5])] \<rparr>
    (str ''/d/s.par2'') [str ''a''] \<lparr> SliceByteCount = 4, NumParityShards = 0, NumGoroutines = 0 \<rparr> 4 [(str ''a'', [1, 2, 3, 4, 5])] 3"
proof -
  let ?f = "(str ''a'', [1, 2, 3, 4, 5]) :: input_file"
  let ?fs = "\<lparr> fs_workingDir = str ''/d'', fs_fileData = [(str ''/d/a'', [1, 2, 3, 4, 5])] \<rparr>"
  let ?o = "\<lparr> SliceByteCount = 4, NumParityShards = 0, NumGoroutines = 0 \<rparr>"
  show ok: "fs_ok ?fs" by (simp add: fs_ok_def) code_simp
  have nm: "checkFilename (str ''a'') = Inr ()" "list_all (\<lambda>c. c \<le> MaxASCII \<and> c \<noteq> 0) (str ''a'')" "length (str ''a'') = 1" by code_simp+
  have set: "set_ok 4 [?f]"
    using nm length_generators by (auto simp: set_ok_def name_ok_def list_all_iff slices_total_def slice_count_def)
  have paths: "path_Ext (str ''/d/s.par2'') = str ''.par2''" "path_IsAbs (str ''/d/s.par2'')"
    "path_Clean (str ''/d/s.par2'') = str ''/d/s.par2''" "filepath_Dir (str ''/d/s.par2'') = str ''/d''"
    "filepath_Join (str ''/d'') (str ''a'') = str ''/d/a''" "str ''/d/a'' \<noteq> str ''/d/s.par2''"
    "stem_of (str ''/d/s.par2'') = str ''/d/s''" "length (str ''/d/a'') = 4" "length (str ''/d/s'') = 4" by code_simp+
  have rel: "mapR (rel_file_path (str ''/d'')) (map (filepath_Abs (str ''/d'')) [str ''a'']) = Inr [str ''a'']" by code_simp
  have abs: "path_IsAbs (str ''/d/s'' @ q)" for q by (simp add: str_def path_IsAbs_def) code_simp
  have rd: "ReadFile ?fs (str ''/d/a'') = Inr [1, 2, 3, 4, 5]" by code_simp
  have fresh: "ReadFile ?fs ((str ''/d/s'' @ [Filenames.dot]) @ mid @ str ''.par2'') \<noteq> Inr d" for mid d
  proof -
    have "length ((str ''/d/s'' @ [Filenames.dot]) @ mid @ str ''.par2'') \<noteq> length (str ''/d/a'')" by (simp add: paths)
    then have "(str ''/d/s'' @ [Filenames.dot]) @ mid @ str ''.par2'' \<noteq> str ''/d/a''" by metis
    moreover have "toAbsPath (str ''/d'') ((str ''/d/s'' @ [Filenames.dot]) @ mid @ str ''.par2'')
        = Inr ((str ''/d/s'' @ [Filenames.dot]) @ mid @ str ''.par2'')"
      using abs [of "[Filenames.dot] @ mid @ str ''.par2''"] ok by (simp add: toAbsPath_def fs_ok_def)
    ultimately show ?thesis by (simp add: ReadFile_def)
  qed
  show "create_ready 1 (str ''/d'') memfs_io ?fs (str ''/d/s.par2'') [str ''a''] ?o 4 [?f] 3"
    unfolding create_ready_def paths
    using set rel paths(1,2,3,6) rd fresh
    by (simp add: chosen_def NumParityShardsDefault_def memfs_io_def paths)
qed

text \<open>
  C2: A created set verifies.  Let the file system be any that keeps the contract of \<open>file_store\<close>, and let
  the arguments of \<open>create\<close> describe a set: readable non-empty files of acceptable names below the directory of
  an absolute clean \<open>.par2\<close> path, distinct file identifiers, no more slices than generators, and no other
  recovery volumes of that name.  Then \<open>create\<close> ends without an error, and on the file system it leaves
  \<open>verify\<close> ends without an error for all schedules, options and scan policies, and counts all slices
  of the set as usable, all exponents as usable, and nothing as unusable: no repair is needed.
\<close>

theorem create_then_verify:
  assumes "file_store ok key io" and "ok fs" and "env_ok e"
    and "create_ready ncpu workingDir io fs parPath filePaths options n files p"
  shows "\<exists>fs' events. create e ncpu workingDir io fs parPath filePaths options = Some (fs', events, None) \<and>
    (\<forall>ncpu' sched psched windows voptions. windows_ok windows \<longrightarrow>
      (\<exists>opened scanned loaded. verify ncpu' sched psched windows io fs' parPath voptions
        = Some (opened, scanned, loaded, Inr \<lparr> UsableDataShardCount = slices_total n files, UnusableDataShardCount = 0,
            UsableParityShardCount = p, UnusableParityShardCount = 0 \<rparr>)))"
proof -
  from create_on_disk [OF assms] obtain fs' events where
    c: "create e ncpu workingDir io fs parPath filePaths options = Some (fs', events, None)"
    and ok: "ok fs'" and disk: "on_disk io fs' parPath n files p" by blast
  have ready: "path_Ext parPath = str ''.par2''" "path_IsAbs parPath" "set_ok n files" "p \<le> 65535"
    using assms(4) by (simp_all add: create_ready_def)
  have "\<exists>opened scanned loaded. verify ncpu' sched psched windows io fs' parPath voptions
        = Some (opened, scanned, loaded, Inr \<lparr> UsableDataShardCount = slices_total n files, UnusableDataShardCount = 0,
            UsableParityShardCount = p, UnusableParityShardCount = 0 \<rparr>)" if "windows_ok windows"
    for ncpu' sched psched windows voptions
    by (rule verify_set [OF assms(1) ok stem_of_abs [OF ready(2,1)] ready(1,3,4) disk that])
  with c show ?thesis by blast
qed

text \<open>The example, verified with the misaligned search.\<close>

theorem create_then_verify_witness:
  "\<exists>fs' events opened scanned loaded.
    create (pure_env True) 1 (str ''/d'') memfs_io \<lparr> fs_workingDir = str ''/d'', fs_fileData = [(str ''/d/a'', [1, 2, 3, 4, 5])] \<rparr>
      (str ''/d/s.par2'') [str ''a''] \<lparr> SliceByteCount = 4, NumParityShards = 0, NumGoroutines = 0 \<rparr> = Some (fs', events, None) \<and>
    verify 2 [1, 0, 1] [0] Map.empty memfs_io fs' (str ''/d/s.par2'')
      \<lparr> vo_NumGoroutines = 0, vo_FindMisalignedData = True, vo_MisalignedSearchLimit = 0, vo_MemoryBudget = 0 \<rparr>
      = Some (opened, scanned, loaded, Inr \<lparr> UsableDataShardCount = 2, UnusableDataShardCount = 0,
          UsableParityShardCount = 3, UnusableParityShardCount = 0 \<rparr>)"
proof -
  let ?f = "(str ''a'', [1, 2, 3, 4, 5]) :: input_file"
  let ?fs = "\<lparr> fs_workingDir = str ''/d'', fs_fileData = [(str ''/d/a'', [1, 2, 3, 4, 5])] \<rparr>"
  let ?o = "\<lparr> SliceByteCount = 4, NumParityShards = 0, NumGoroutines = 0 \<rparr>"
  from create_then_verify [OF memfs_store.file_store_axioms create_ready_example(1) env_ok_pure(1) create_ready_example(2)] obtain fs' events where
    c: "create (pure_env True) 1 (str ''/d'') memfs_io ?fs (str ''/d/s.par2'') [str ''a''] ?o = Some (fs', events, None)"
    and v: "\<forall>ncpu' sched psched windows voptions. windows_ok windows \<longrightarrow>
      (\<exists>opened scanned loaded. verify ncpu' sched psched windows memfs_io fs' (str ''/d/s.par2'') voptions
        = Some (opened, scanned, loaded, Inr \<lparr> UsableDataShardCount = slices_total 4 [?f], UnusableDataShardCount = 0,
            UsableParityShardCount = 3, UnusableParityShardCount = 0 \<rparr>))" by blast
  have "windows_ok Map.empty" "slices_total 4 [?f] = 2" by (simp_all add: windows_ok_def slices_total_def slice_count_def)
  with v c show ?thesis by metis
qed

end
