(* ===== verification/SetRepair.thy ===== *)
theory SetRepair
  imports RepairRestores CreateVerify
begin

text \<open>
  Repairing a created set: the decoder that opens the index file, scans what is left of the data files and
  finds the recovery volumes is one of a damaged set, and when no more slices are lost than there are
  recovery blocks the repair brings all files back.
\<close>

section \<open>The slices and the blocks of a created set\<close>

lemma slice_count_eq: "slice_count n f = nslices n (snd f)" and in_shards_eq: "in_shards n f = slices_list n (snd f)"
  by (simp_all add: slice_count_def nslices_def in_shards_def slices_list_def)

definition contents :: "input_file list \<Rightarrow> byte list list" where
  "contents files = map snd (set_files files)"

lemma length_contents [simp]: "length (contents files) = length files"
  by (simp add: contents_def set_files_def)

lemma all_shards_eq: "all_shards n files = true_shards n (contents files)"
  by (simp add: all_shards_def true_shards_def contents_def comp_def in_shards_eq [abs_def])

lemma parity_of_block:
  assumes "e < p"
  shows "parity_of n files p ! e = parity_block n (true_shards n (contents files)) e"
proof -
  let ?D = "all_shards n files"
  let ?P = "mk_matrix p (slices_total n files) (\<lambda>i j. generators ! j ^ i)"
  have "parity_of n files p ! e = unwords (map (mrow ?P ?D e) [0..<n div 2])"
    using assms by (simp add: parity_of_def apply_spec_def)
  also have "\<dots> = unwords (map (\<lambda>w. \<Sum>j<length ?D. generators ! j ^ e * words (?D ! j) ! w) [0..<n div 2])"
    by (intro arg_cong [where f = unwords] map_cong refl) (use assms in \<open>simp add: mrow_def\<close>)
  finally show ?thesis by (simp add: parity_block_def all_shards_eq [symmetric])
qed

lemma volume_block_data:
  assumes set: "set_ok n files" and i: "i + c \<le> p" "p \<le> 65535"
    and q: "q \<in> set (volume_packets n files p i c)" "is_block (set_id n files) e q"
  shows "drop 4 (snd (snd q)) = parity_of n files p ! e" and "e < p"
proof -
  let ?m = "volume_blocks (parity_of n files p) i c"
  have "even n" using set_okD(2) [OF set] by presburger
  then have m: "\<forall>e q. ?m e = Some q \<longrightarrow> length (rp_data q) = n" using volume_blocks_length i(1) by blast
  note w = set_file_writable [OF set m]
  have "drop 4 (snd (snd q)) = parity_of n files p ! e \<and> e < p"
    using w q(1) [unfolded volume_packets_def set_packets_def]
  proof (cases rule: written_packet_cases)
    case (block x r b)
    have x: "e = unat x" using q(2) block exponent_of_written by (simp add: is_block_def)
    have r: "rp_data r = parity_of n files p ! e" "e < i + c" using block(3) x by (auto simp: set_file_def volume_blocks_def split: if_splits)
    have "readRecoveryPacket (padPacketBytes b) = Inr (x, r)" using recovery_codec.rd_wr [of "(x, r)" b] block(4) by simp
    then have "rp_data r = drop 4 (padPacketBytes b)"
      by (auto simp: readRecoveryPacket_def Let_def split: if_splits)
    with r i(1) show ?thesis by (simp add: block(1))
  qed (use q(2) in \<open>simp_all add: is_block_def packet_types_distinct packet_types_distinct [symmetric]\<close>)
  then show "drop 4 (snd (snd q)) = parity_of n files p ! e" "e < p" by simp_all
qed

lemma located_stored:
  assumes set: "set_ok n files" and p: "p \<le> 65535" and disk: "volumes_on_disk io fs indexPath n files p"
    and vols: "list_all2 (set_volume (stem_of indexPath) n files p) matches pss"
    and loc: "block_located (set_id n files) matches pss e loc"
  shows "block_stored io fs loc (parity_block n (true_shards n (contents files)) e)"
    and "pl_path loc \<in> fst ` set (volume_files (stem_of indexPath) n files p (volume_ranges 0 1 p))"
proof -
  from loc obtain v q where v: "v < length pss" "pl_path loc = matches ! v" and q: "q \<in> set (pss ! v)" "is_block (set_id n files) e q"
    "0 \<le> pl_offset loc" "pl_length loc = int (length (drop 4 (snd (snd q))))"
    "take (nat (pl_length loc)) (drop (nat (pl_offset loc)) (stream (pss ! v))) = drop 4 (snd (snd q))"
    unfolding block_located_def by blast
  from vols v(1) have "set_volume (stem_of indexPath) n files p (matches ! v) (pss ! v)"
    by (simp add: list_all2_conv_all_nth)
  then obtain i c where ic: "(i, c) \<in> set (volume_ranges 0 1 p)" "matches ! v = volume_name (stem_of indexPath) i c"
    "pss ! v = volume_packets n files p i c" unfolding set_volume_def by blast
  have "i + c \<le> p" using volume_ranges_partition(2) [of 1 0 p] ic(1) by auto
  from volume_block_data [OF set this p] q(1,2) ic(3) have b: "drop 4 (snd (snd q)) = parity_of n files p ! e" "e < p" by simp_all
  have rd: "io_ReadFile io fs (pl_path loc) = Inr (stream (pss ! v))"
    using disk ic v(2) by (auto simp: volumes_on_disk_def)
  show "block_stored io fs loc (parity_block n (true_shards n (contents files)) e)"
    unfolding block_stored_def
    using rd q(3-5) b parity_of_block [OF b(2)] v(2) ic(2)
    by (auto simp: slice_def volume_name_mid)
  show "pl_path loc \<in> fst ` set (volume_files (stem_of indexPath) n files p (volume_ranges 0 1 p))"
    using ic v(2) by force
qed

section \<open>Damage\<close>

text \<open>No place in a file that is left has the checksums of a slice without being that slice.\<close>

definition no_collision :: "nat \<Rightarrow> input_file list \<Rightarrow> byte list option list \<Rightarrow> bool" where
  "no_collision n files disk \<longleftrightarrow> (\<forall>f. Some f \<in> set disk \<longrightarrow> (\<forall>p < length f. \<forall>s \<in> set (all_shards n files).
     pair_matches (pair_of s) (pad_slice n f p) \<longrightarrow> pad_slice n f p = s))"

text \<open>The slices of the damaged files, and those that are at no slice boundary of any file.\<close>

definition damaged_slices :: "nat \<Rightarrow> input_file list \<Rightarrow> byte list option list \<Rightarrow> nat" where
  "damaged_slices n files disk = (\<Sum>i<length files. if disk ! i = Some (contents files ! i) then 0 else nslices n (contents files ! i))"

definition found_aligned :: "nat \<Rightarrow> byte list option list \<Rightarrow> byte list \<Rightarrow> bool" where
  "found_aligned n disk x \<longleftrightarrow> (\<exists>f q. Some f \<in> set disk \<and> q * n < length f \<and> pad_slice n f (q * n) = x)"

definition unaligned_slices :: "nat \<Rightarrow> input_file list \<Rightarrow> byte list option list \<Rightarrow> nat" where
  "unaligned_slices n files disk = length (filter (\<lambda>x. \<not> found_aligned n disk x) (all_shards n files))"

text \<open>
  The most that a scan can miss: without the misaligned search what is at no slice boundary, with it (as
  it may give up) the slices of the damaged files.
\<close>

definition lost_slices :: "bool \<Rightarrow> nat \<Rightarrow> input_file list \<Rightarrow> byte list option list \<Rightarrow> nat" where
  "lost_slices misaligned n files disk = (if misaligned then damaged_slices n files disk else unaligned_slices n files disk)"

lemma matrix_plan_mono:
  assumes "matrix_plan n k b" and "j \<le> k"
  shows "matrix_plan n j b"
proof -
  have "int n * int j \<le> int n * int k" using assms(2) by (intro mult_left_mono) simp_all
  then show ?thesis using assms by (auto simp: matrix_plan_def)
qed

lemma intact_is_original:
  assumes n: "0 < n" and f: "f \<in> set files" and nc: "no_collision n files disk" and g: "Some g \<in> set disk"
    and i: "file_intact n (in_dinfo n f) (Some g)"
  shows "g = snd f"
proof (rule nth_equalityI)
  have info: "di_byteCount (in_dinfo n f) = int (length (snd f))" "di_checksumPairs (in_dinfo n f) = map pair_of (in_shards n f)"
    by (simp_all add: in_dinfo_def)
  show len: "length g = length (snd f)" using i info(1) by (simp add: file_intact_def)
  fix x assume x: "x < length g"
  define q where "q = x div n"
  have qn: "q * n \<le> x" "x < q * n + n"
    using dividend_less_div_times [OF n, of x] by (simp_all add: q_def add.commute)
  then have q: "q < nslices n (snd f)" "q * n < length g" using x len less_nslices [OF n, of q "snd f"] by simp_all
  let ?s = "pad_slice n (snd f) (q * n)"
  have s: "in_shards n f ! q = ?s" "q < length (in_shards n f)" using q(1) by (simp_all add: in_shards_eq slices_list_def)
  have "slices_in_place n (in_dinfo n f) g" using i by (simp add: file_intact_def)
  then have "pair_matches (map pair_of (in_shards n f) ! q) (pad_slice n g (q * n))"
    using s(2) unfolding slices_in_place_def info(2) by simp
  then have "pair_matches (pair_of ?s) (pad_slice n g (q * n))" unfolding nth_map [OF s(2)] s(1) .
  moreover have "?s \<in> set (all_shards n files)"
    using f s nth_mem [OF s(2)] by (auto simp: all_shards_def)
  ultimately have "pad_slice n g (q * n) = ?s" using nc g q(2) by (auto simp: no_collision_def)
  then have "pad_slice n g (q * n) ! (x - q * n) = ?s ! (x - q * n)" by simp
  moreover have "x - q * n < n" "q * n + (x - q * n) = x" using qn by linarith+
  ultimately show "g ! x = snd f ! x" using x len by (simp add: nth_pad_slice)
qed

section \<open>The scan of what is left\<close>

lemma contents_nth: "i < length files \<Longrightarrow> contents files ! i = snd (set_files files ! i)"
  by (simp add: contents_def)

lemma set_file_mem: "i < length files \<Longrightarrow> set_files files ! i \<in> set files"
  using nth_mem [of i "set_files files"] by simp

lemma set_lengths:
  assumes "set_ok n files"
  shows "f \<in> set files \<Longrightarrow> length (snd f) < 2 ^ 63" and "slices_total n files * n < 2 ^ 63"
proof -
  have "slices_total n files * n \<le> 32768 * 2 ^ 29" using set_okD(4,7) [OF assms] by (rule mult_le_mono [rotated])
  then show all: "slices_total n files * n < 2 ^ 63" by simp
  assume "f \<in> set files"
  then have "slice_count n f \<le> slices_total n files" unfolding slices_total_def by (intro member_le_sum_list) simp_all
  moreover have "length (snd f) \<le> slice_count n f * n"
  proof (rule ccontr)
    assume "\<not> length (snd f) \<le> slice_count n f * n"
    then have "slice_count n f < nslices n (snd f)" using less_nslices [OF set_okD(1) [OF assms]] by simp
    then show False by (simp add: slice_count_eq)
  qed
  ultimately have "length (snd f) \<le> slices_total n files * n" using mult_le_mono1 order_trans by blast
  with all show "length (snd f) < 2 ^ 63" by linarith
qed

lemma in_dinfo_right:
  assumes "set_ok n files" and "f \<in> set files"
  shows "info_right n (in_dinfo n f) (snd f)"
  using set_lengths(1) [OF assms] assms
  by (auto simp: info_right_def in_dinfo_def in_shards_eq slices_list_def pair_of_def set_ok_def)

lemma scanned_damaged:
  fixes d :: decoder
  assumes set: "set_ok n files" and J: "fill_J fu st" and v: "\<forall>i < length (fu_set fu). verdict_ok fu st i"
    and fu: "fu_set fu = map (in_dinfo n) (set_files files)" "fu_slice fu = n" "fu_files fu = disk"
    and left: "data_left io fs indexPath files disk" and nc: "no_collision n files disk"
    and d: "d_indexPath d = indexPath" "d_sliceByteCount d = n" "d_recoverySet d = map (in_dinfo n) (set_files files)"
      "d_fileIDIndices d = file_id_indices (d_recoverySet d)" "d_fileIntegrityInfos d = ls_infos st"
  shows "damaged io fs d (contents files) disk"
    and "\<And>i. i < length files \<Longrightarrow> was_ok d i \<longleftrightarrow> disk ! i = Some (contents files ! i)"
proof -
  have n: "0 < n" "even n" using set_okD(1,2) [OF set] by presburger+
  have ld: "length (d_recoverySet d) = length files" "length disk = length files"
    using left by (simp_all add: d data_left_def)
  have dist: "distinct (map di_fileID (d_recoverySet d))"
  proof -
    have "map di_fileID (map (in_dinfo n) (set_files files)) = sort (map in_id files)"
      by (simp add: comp_def in_dinfo_def map_id_set_files [symmetric])
    then show ?thesis using set_okD(6) [OF set] unfolding d by (simp only: distinct_sort)
  qed
  have ok: "was_ok d i \<longleftrightarrow> file_intact n (in_dinfo n (set_files files ! i)) (disk ! i)" if "i < length files" for i
    using verdict_integrity [OF J v [rule_format], of i] that by (simp add: was_ok_def d fu)
  show was: "was_ok d i \<longleftrightarrow> disk ! i = Some (contents files ! i)" if i: "i < length files" for i
  proof
    assume "was_ok d i"
    then have int: "file_intact n (in_dinfo n (set_files files ! i)) (disk ! i)" using ok [OF i] by simp
    then obtain g where g: "disk ! i = Some g" by (auto simp: file_intact_def split: option.splits)
    have "Some g \<in> set disk" using g nth_mem [of i disk] i ld by simp
    from intact_is_original [OF n(1) set_file_mem [OF i] nc this] int g show "disk ! i = Some (contents files ! i)"
      using contents_nth [OF i] by simp
  next
    assume "disk ! i = Some (contents files ! i)"
    then show "was_ok d i" using ok [OF i] in_dinfo_intact [OF n(1)] contents_nth [OF i] by simp
  qed
  have path: "set_path d i = data_path indexPath (set_files files ! i)" if "i < length files" for i
    using that by (simp add: getFilePath_def d in_dinfo_def)
  have found: "\<exists>s q f. s < length files \<and> disk ! s = Some f \<and> q < length f \<and> pad_slice n f q = pad_slice n (contents files ! i) (j * n) \<and>
      si_foundAt (shard_at d i j) = \<lparr> sl_fileID = di_fileID (d_recoverySet d ! s), sl_start = q \<rparr>"
    if i: "i < length files" and j: "j < nslices n (contents files ! i)" and p: "si_present (shard_at d i j)" for i j
  proof -
    let ?f = "set_files files ! i" and ?s = "pad_slice n (contents files ! i) (j * n)"
    have io: "infos_ok (fu_set fu) (ls_infos st)" using J by (simp add: fill_J_def)
    have j': "j < length (in_shards n ?f)" "in_shards n ?f ! j = ?s" using j i by (simp_all add: in_shards_eq contents_nth slices_list_def)
    have i': "i < length (fu_set fu)" "di_checksumPairs (fu_set fu ! i) = map pair_of (in_shards n ?f)" using i by (simp_all add: fu in_dinfo_def)
    have jl: "j < length (di_checksumPairs (fu_set fu ! i))" "di_checksumPairs (fu_set fu ! i) ! j = pair_of ?s"
      unfolding i'(2) using j' by simp_all
    have mem: "si_foundAt (shard_at d i j) \<in> recorded (ls_infos st) i j"
      using infos_okD(5) [OF io i'(1) jl(1)] p by (simp add: recorded_def d)
    have "infos_real fu (ls_infos st)" using J by (simp add: fill_J_def)
    from this [unfolded infos_real_def, rule_format, OF i'(1) jl(1) mem]
    have "real_location n (fu_set fu) disk (pair_of ?s) (si_foundAt (shard_at d i j))" by (simp only: jl(2) fu(2,3))
    then obtain s f q where l: "s < length disk" "disk ! s = Some f" "q < length f" "pair_matches (pair_of ?s) (pad_slice n f q)"
      "si_foundAt (shard_at d i j) = \<lparr> sl_fileID = di_fileID (fu_set fu ! s), sl_start = q \<rparr>" unfolding real_location_def by blast
    have "?s \<in> set (all_shards n files)" using set_file_mem [OF i] nth_mem [OF j'(1)] j'(2) by (auto simp: all_shards_def)
    moreover have "Some f \<in> set disk" using l(1,2) nth_mem by metis
    ultimately have "pad_slice n f q = ?s" using nc l(3,4) by (auto simp: no_collision_def)
    with l ld show ?thesis by (intro exI [of _ s] exI [of _ q] exI [of _ f]) (simp add: d fu)
  qed
  have infos: "infos_ok (d_recoverySet d) (d_fileIntegrityInfos d)" using J by (simp add: fill_J_def d fu)
  have right: "info_right n (d_recoverySet d ! i) (contents files ! i)" if "i < length files" for i
    using in_dinfo_right [OF set set_file_mem [OF that]] that by (simp add: d contents_nth)
  have rd: "io_ReadFile io fs (set_path d i) = (case disk ! i of None \<Rightarrow> Inl OsErrNotExist | Some f \<Rightarrow> Inr f)" if "i < length files" for i
    using left that path [OF that] by (simp add: data_left_def)
  show "damaged io fs d (contents files) disk"
    unfolding damaged_def Let_def d(2) ld
    using n dist d(4) infos right rd was found ld by simp
qed

text \<open>The slices that are missing after the scan.\<close>

lemma missing_shards:
  assumes D: "damaged io fs d orig disk"
  shows "length (missing (presence d)) = card {k. k < length (true_shards (d_sliceByteCount d) orig) \<and> \<not> si_present (decoder_shards d ! k)}"
proof -
  have "missing (presence d) = filter (\<lambda>k. \<not> si_present (decoder_shards d ! k)) [0..<length (decoder_shards d)]"
    unfolding missing_def length_presence by (rule filter_cong) (simp_all add: presence_None)
  moreover have "{k. k < length (decoder_shards d) \<and> \<not> si_present (decoder_shards d ! k)}
      = set (filter (\<lambda>k. \<not> si_present (decoder_shards d ! k)) [0..<length (decoder_shards d)])" by auto
  ultimately show ?thesis unfolding damaged_shape(5) [OF D, symmetric] by (simp add: distinct_card del: set_filter)
qed

lemma missing_damaged:
  assumes D: "damaged io fs d orig disk"
  shows "length (missing (presence d)) \<le> (\<Sum>i<length orig. if was_ok d i then 0 else nslices (d_sliceByteCount d) (orig ! i))"
proof -
  let ?n = "d_sliceByteCount d"
  let ?rows = "\<lambda>i. if was_ok d i then {} else row_of ?n orig i ` {..<nslices ?n (orig ! i)}"
  have lo: "length orig = length (d_recoverySet d)" by (rule damagedD(3) [OF D])
  have "{k. k < length (true_shards ?n orig) \<and> \<not> si_present (decoder_shards d ! k)} \<subseteq> (\<Union>i<length orig. ?rows i)"
  proof
    fix k assume k: "k \<in> {k. k < length (true_shards ?n orig) \<and> \<not> si_present (decoder_shards d ! k)}"
    then obtain i j where ij: "i < length orig" "j < nslices ?n (orig ! i)" "k = row_of ?n orig i j" using row_of_ex by blast
    have "\<not> si_present (shard_at d i j)" using k damaged_shape(6) [OF D, of i j] ij lo by simp
    then have "\<not> was_ok d i" using ij damaged_shape(3) [OF D, of i] lo
      by (auto simp: was_ok_def file_integrity_ok_def allShardsOK_def list_all_iff shard_ok_def)
    then show "k \<in> (\<Union>i<length orig. ?rows i)" using ij by auto
  qed
  then have "card {k. k < length (true_shards ?n orig) \<and> \<not> si_present (decoder_shards d ! k)} \<le> card (\<Union>i<length orig. ?rows i)"
    by (rule card_mono [rotated]) simp
  also have "\<dots> \<le> (\<Sum>i<length orig. card (?rows i))" by (rule card_UN_le) simp
  also have "\<dots> \<le> (\<Sum>i<length orig. if was_ok d i then 0 else nslices ?n (orig ! i))"
    by (intro sum_mono) (auto intro: order_trans [OF card_image_le])
  finally show ?thesis unfolding missing_shards [OF D] .
qed

lemma missing_aligned:
  assumes D: "damaged io fs d orig disk"
    and exact: "\<And>i j f s q. i < length orig \<Longrightarrow> j < nslices (d_sliceByteCount d) (orig ! i) \<Longrightarrow> s < length disk \<Longrightarrow> disk ! s = Some f \<Longrightarrow>
      q * d_sliceByteCount d < length f \<Longrightarrow> pad_slice (d_sliceByteCount d) f (q * d_sliceByteCount d) = pad_slice (d_sliceByteCount d) (orig ! i) (j * d_sliceByteCount d) \<Longrightarrow>
      si_present (shard_at d i j)"
  shows "length (missing (presence d)) \<le> length (filter (\<lambda>x. \<not> found_aligned (d_sliceByteCount d) disk x) (true_shards (d_sliceByteCount d) orig))"
proof -
  let ?n = "d_sliceByteCount d"
  let ?D = "true_shards ?n orig"
  have lo: "length orig = length (d_recoverySet d)" by (rule damagedD(3) [OF D])
  have "\<not> found_aligned ?n disk (?D ! k)" if k: "k < length ?D" "\<not> si_present (decoder_shards d ! k)" for k
  proof
    assume "found_aligned ?n disk (?D ! k)"
    then obtain f q where f: "Some f \<in> set disk" "q * ?n < length f" "pad_slice ?n f (q * ?n) = ?D ! k" unfolding found_aligned_def by blast
    from f(1) obtain s where s: "s < length disk" "disk ! s = Some f" by (metis in_set_conv_nth)
    from row_of_ex [OF k(1)] obtain i j where ij: "i < length orig" "j < nslices ?n (orig ! i)" "k = row_of ?n orig i j" by blast
    have "si_present (shard_at d i j)" using exact [OF ij(1,2) s f(2)] f(3) row_of_nth(2) [OF ij(1,2)] ij(3) by simp
    with k(2) show False using damaged_shape(6) [OF D, of i j] ij lo by simp
  qed
  then have "{k. k < length ?D \<and> \<not> si_present (decoder_shards d ! k)} \<subseteq> {k. k < length ?D \<and> \<not> found_aligned ?n disk (?D ! k)}" by blast
  then show ?thesis unfolding missing_shards [OF D] length_filter_conv_card by (rule card_mono [rotated]) simp
qed

section \<open>The repair of a set\<close>

text \<open>
  What is left suffices: no more slices may be lost than there are recovery blocks, and the plan for that
  many is the matrix.
\<close>

definition recoverable :: "int \<Rightarrow> RepairOptions \<Rightarrow> nat \<Rightarrow> input_file list \<Rightarrow> byte list option list \<Rightarrow> nat \<Rightarrow> bool" where
  "recoverable phys options n files disk p \<longleftrightarrow> no_collision n files disk \<and>
     lost_slices (rpo_FindMisalignedData options) n files disk \<le> p \<and>
     matrix_plan (slices_total n files) (lost_slices (rpo_FindMisalignedData options) n files disk)
       (fold_budget phys (rpo_MemoryBudget options))"

text \<open>The double check reads the slices of the intact files, none of which may be in a file that is replaced.\<close>

definition sources_apart :: "nat \<Rightarrow> input_file list \<Rightarrow> byte list option list \<Rightarrow> bool" where
  "sources_apart n files disk \<longleftrightarrow> (\<forall>i < length files. \<forall>s < length files. \<forall>f. disk ! i = Some (contents files ! i) \<longrightarrow>
     disk ! s = Some f \<longrightarrow> f \<noteq> contents files ! s \<longrightarrow>
     (\<forall>q < length f. \<forall>j < nslices n (contents files ! i). pad_slice n f q \<noteq> pad_slice n (contents files ! i) (j * n)))"

lemma sources_apart_intact:
  assumes D: "damaged io fs d (contents files) disk" and n: "d_sliceByteCount d = n"
    and was: "\<And>i. i < length files \<Longrightarrow> was_ok d i \<longleftrightarrow> disk ! i = Some (contents files ! i)" and apart: "sources_apart n files disk"
  shows "sources_intact d (contents files)"
  unfolding sources_intact_def n
proof (intro allI impI)
  fix i j assume i: "i < length (d_recoverySet d)" "was_ok d i" and j: "j < nslices n (contents files ! i)"
  have len: "length (d_recoverySet d) = length files" using damagedD(3) [OF D] by simp
  have p: "si_present (shard_at d i j)" using i j damaged_shape(3) [OF D i(1)] n
    by (auto simp: was_ok_def file_integrity_ok_def allShardsOK_def list_all_iff shard_ok_def)
  from damaged_found [OF D i(1) j [folded n] p] obtain s q f where f: "s < length files" "disk ! s = Some f" "q < length f"
    "pad_slice n f q = pad_slice n (contents files ! i) (j * n)"
    "si_foundAt (shard_at d i j) = \<lparr> sl_fileID = di_fileID (d_recoverySet d ! s), sl_start = q \<rparr>" unfolding len n by blast
  have i': "i < length files" "disk ! i = Some (contents files ! i)" using i len was by simp_all
  have "f = contents files ! s"
  proof (rule ccontr)
    assume "f \<noteq> contents files ! s"
    with apart i' f(1-3) j have "pad_slice n f q \<noteq> pad_slice n (contents files ! i) (j * n)" unfolding sources_apart_def by blast
    with f(4) show False by contradiction
  qed
  then have "was_ok d s" using was [OF f(1)] f(2) by simp
  then show "\<exists>s < length (d_recoverySet d). was_ok d s \<and> sl_fileID (si_foundAt (shard_at d i j)) = di_fileID (d_recoverySet d ! s)"
    using f(1,5) len by (intro exI [of _ s]) simp
qed

lemma lost_missing:
  assumes D: "damaged io fs d (contents files) disk" and n: "d_sliceByteCount d = n"
    and was: "\<And>i. i < length files \<Longrightarrow> was_ok d i \<longleftrightarrow> disk ! i = Some (contents files ! i)"
    and exact: "\<And>i j f s q. \<not> misaligned \<Longrightarrow> i < length files \<Longrightarrow> j < nslices n (contents files ! i) \<Longrightarrow> s < length disk \<Longrightarrow>
      disk ! s = Some f \<Longrightarrow> q * n < length f \<Longrightarrow> pad_slice n f (q * n) = pad_slice n (contents files ! i) (j * n) \<Longrightarrow> si_present (shard_at d i j)"
  shows "length (missing (presence d)) \<le> lost_slices misaligned n files disk"
proof (cases misaligned)
  case True
  have "(\<Sum>i<length (contents files). if was_ok d i then 0 else nslices n (contents files ! i)) = damaged_slices n files disk"
    unfolding damaged_slices_def length_contents by (rule sum.cong) (simp_all add: was)
  with missing_damaged [OF D, unfolded n] True show ?thesis by (simp add: lost_slices_def)
next
  case False
  then show ?thesis using missing_aligned [OF D, unfolded n length_contents, OF exact] by (simp add: lost_slices_def unaligned_slices_def all_shards_eq)
qed

lemma blocks_of_set:
  assumes set: "set_ok n files" and p: "p \<le> 65535" and disk: "volumes_on_disk io fs indexPath n files p"
    and vols: "list_all2 (set_volume (stem_of indexPath) n files p) matches pss"
    and locs: "length locs = p" "\<forall>e < p. block_located (set_id n files) matches pss e (locs ! e)"
    and d: "d_sliceByteCount d = n" "d_parityPresent d = replicate p True" "d_parityLocations d = locs"
  shows "blocks_stored io fs d (contents files)"
  using located_stored(1) [OF set p disk vols] locs p by (auto simp: blocks_stored_def d)

text \<open>The decoder of a set after the scan and the loading of the recovery blocks.\<close>

definition loaded_decoder :: "('fs, 'w) fileIO \<Rightarrow> 'fs \<Rightarrow> gostring \<Rightarrow> nat \<Rightarrow> input_file list \<Rightarrow> byte list option list \<Rightarrow> nat \<Rightarrow> bool \<Rightarrow> decoder \<Rightarrow> bool" where
  "loaded_decoder io fs indexPath n files disk p misaligned d \<longleftrightarrow>
     d_sliceByteCount d = n \<and> length (d_recoverySet d) = length files \<and> damaged io fs d (contents files) disk \<and>
     (\<forall>i < length files. set_path d i = data_path indexPath (set_files files ! i)) \<and>
     (\<forall>i < length files. was_ok d i \<longleftrightarrow> disk ! i = Some (contents files ! i)) \<and>
     length (missing (presence d)) \<le> lost_slices misaligned n files disk \<and>
     d_parityPresent d = replicate p True \<and> blocks_stored io fs d (contents files) \<and>
     (\<forall>e < p. pl_path (d_parityLocations d ! e) \<in> fst ` set (volume_files (stem_of indexPath) n files p (volume_ranges 0 1 p)))"

lemma set_loaded:
  assumes store: "patch_store ok key io wdata wpath" and ok: "ok fs"
    and abs: "path_IsAbs indexPath" and ext: "path_Ext indexPath = str ''.par2''"
    and set: "set_ok n files" and p: "p \<le> 65535" and disk: "volumes_on_disk io fs indexPath n files p"
    and wo: "windows_ok windows" and left: "data_left io fs indexPath files disk" and nc: "no_collision n files disk"
  obtains opened d scanned windows' d1 loaded d2 where
    "newDecoder io fs indexPath g policy budget = (opened, Inr d)"
    "LoadFileData sched io fs windows d = Some (Inr (scanned, windows', Inr d1))"
    "LoadParityData psched io fs d = Some (Inr (loaded, Inr d2))"
    "loaded_decoder io fs indexPath n files disk p (findMisaligned policy)
       (d1\<lparr> d_parityPresent := d_parityPresent d2, d_parityLocations := d_parityLocations d2 \<rparr>)"
    "d_numGoroutines d1 = g" "d_memoryBudget d1 = budget"
proof -
  have fstore: "file_store ok key io" using store by (rule patch_store.axioms)
  define d where "d = set_decoder n files indexPath g policy (budget)"
  define fu where "fu = \<lparr> fu_io = io, fu_fs = fs, fu_decoder = d, fu_files = disk \<rparr>"
  have d_sel: "d_recoverySet d = map (in_dinfo n) (set_files files)" "d_sliceByteCount d = n" "d_indexPath d = indexPath"
    "d_scanPolicy d = policy" "d_numGoroutines d = g" "d_memoryBudget d = budget" by (simp_all add: d_def set_decoder_def)
  have fu_sel: "fu_io fu = io" "fu_fs fu = fs" "fu_decoder fu = d" "fu_files fu = disk" by (simp_all add: fu_def)
  have "io_ReadFile io fs indexPath = Inr (stream (set_packets n files Map.empty))" using disk by (simp add: volumes_on_disk_def)
  from newDecoder_set [OF set this, of g policy "budget", folded d_def] obtain opened where
    opened: "newDecoder io fs indexPath g policy (budget) = (opened, Inr d)" ..
  have su: "fill_setup_ok fu" unfolding fu_def by (rule set_fill_ok [OF fstore ok set d_sel(3,2,1) left])
  from LoadFileData_ok [OF su wo, of sched] obtain scanned st where
    scan: "LoadFileData sched io fs windows d = Some (Inr (scanned, ls_windows st, Inr (d
          \<lparr> d_fileIDIndices := file_id_indices (d_recoverySet d),
            d_checksumToLocation := makeChecksumShardLocationMap (d_sliceByteCount d) (d_recoverySet d),
            d_fileIntegrityInfos := ls_infos st \<rparr>)))"
    and J: "fill_J fu st" and v: "\<forall>i < length (fu_set fu). verdict_ok fu st i"
    and exact: "\<not> findMisaligned policy \<longrightarrow> (\<forall>k < length (fu_set fu). \<forall>i < length (di_checksumPairs (fu_set fu ! k)).
       recorded (ls_infos st) k i = {\<lparr> sl_fileID = di_fileID (fu_set fu ! s), sl_start = q * n \<rparr> | s f q.
           s < length disk \<and> disk ! s = Some f \<and> q * n < length f \<and> pair_matches (di_checksumPairs (fu_set fu ! k) ! i) (pad_slice n f (q * n))})"
    unfolding fu_sel d_sel(2,4) by blast
  obtain matches pss loaded locs where
    vols: "list_all2 (set_volume (stem_of indexPath) n files p) matches pss"
    and parity: "LoadParityData psched io fs d = Some (Inr (loaded, Inr (d\<lparr> d_parityPresent := replicate p True, d_parityLocations := locs \<rparr>)))"
    and locs: "length locs = p" "\<forall>e < p. block_located (set_id n files) matches pss e (locs ! e)"
    by (rule parity_loaded [OF fstore ok stem_of_abs [OF abs ext] ext set p disk, of psched g policy "budget", folded d_def]) blast
  define d' where "d' = d\<lparr> d_fileIDIndices := file_id_indices (d_recoverySet d),
    d_checksumToLocation := makeChecksumShardLocationMap (d_sliceByteCount d) (d_recoverySet d),
    d_fileIntegrityInfos := ls_infos st, d_parityPresent := replicate p True, d_parityLocations := locs \<rparr>"
  have d'_sel: "d_indexPath d' = indexPath" "d_sliceByteCount d' = n" "d_recoverySet d' = map (in_dinfo n) (set_files files)"
    "d_fileIDIndices d' = file_id_indices (d_recoverySet d')" "d_fileIntegrityInfos d' = ls_infos st"
    "d_parityPresent d' = replicate p True" "d_parityLocations d' = locs" "d_numGoroutines d' = g" "d_memoryBudget d' = budget"
    by (simp_all add: d'_def d_sel)
  note D = scanned_damaged [OF set J v _ _ _ left nc d'_sel(1-5), unfolded fu_sel d_sel, OF refl refl refl]
  have path: "set_path d' i = data_path indexPath (set_files files ! i)" if "i < length files" for i
    using that by (simp add: getFilePath_def d'_sel) (simp add: in_dinfo_def)
  have len: "length (d_recoverySet d') = length files" by (simp add: d'_sel)
  have present: "si_present (shard_at d' i j)"
    if mis: "\<not> findMisaligned policy" and i: "i < length files" and j: "j < nslices n (contents files ! i)"
      and s: "s < length disk" "disk ! s = Some f" "q * n < length f" "pad_slice n f (q * n) = pad_slice n (contents files ! i) (j * n)" for i j f s q
  proof -
    have io: "infos_ok (fu_set fu) (ls_infos st)" using J by (simp add: fill_J_def)
    have i': "i < length (fu_set fu)" using i by (simp add: fu_sel d_sel)
    have jl: "j < length (di_checksumPairs (fu_set fu ! i))" "di_checksumPairs (fu_set fu ! i) ! j = pair_of (pad_slice n (contents files ! i) (j * n))"
      using i j by (simp_all add: fu_sel d_sel in_dinfo_def in_shards_eq contents_nth slices_list_def)
    have "pair_matches (di_checksumPairs (fu_set fu ! i) ! j) (pad_slice n f (q * n))"
      using s(4) by (simp add: jl(2) pair_of_def pair_matches_own)
    then have "recorded (ls_infos st) i j \<noteq> {}" using exact mis i' jl(1) s(1-3) by blast
    then show ?thesis using infos_okD(4) [OF io i' jl(1)] by (auto simp: recorded_def d'_sel)
  qed
  have lost: "length (missing (presence d')) \<le> lost_slices (findMisaligned policy) n files disk"
    by (rule lost_missing [OF D(1) d'_sel(2) D(2)]) (simp_all add: present)
  have far: "pl_path (d_parityLocations d' ! x) \<in> fst ` set (volume_files (stem_of indexPath) n files p (volume_ranges 0 1 p))" if "x < p" for x
    using located_stored(2) [OF set p disk vols locs(2) [rule_format, OF that]] by (simp only: d'_sel)
  have "loaded_decoder io fs indexPath n files disk p (findMisaligned policy) d'"
    unfolding loaded_decoder_def
    using d'_sel(2,6) len D path lost far blocks_of_set [OF set p disk vols locs d'_sel(2,6,7)] by blast
  then show thesis
    by (intro that [OF opened scan parity]) (simp_all add: d'_def d_sel)
qed

lemma loaded_decoderD:
  assumes "loaded_decoder io fs indexPath n files disk p misaligned d"
  shows "d_sliceByteCount d = n" "length (d_recoverySet d) = length files" "damaged io fs d (contents files) disk"
    "i < length files \<Longrightarrow> set_path d i = data_path indexPath (set_files files ! i)"
    "i < length files \<Longrightarrow> was_ok d i \<longleftrightarrow> disk ! i = Some (contents files ! i)"
    "length (missing (presence d)) \<le> lost_slices misaligned n files disk"
    "d_parityPresent d = replicate p True" "blocks_stored io fs d (contents files)"
    "e < p \<Longrightarrow> pl_path (d_parityLocations d ! e) \<in> fst ` set (volume_files (stem_of indexPath) n files p (volume_ranges 0 1 p))"
  using assms unfolding loaded_decoder_def by blast+

lemma loaded_repairable:
  assumes L: "loaded_decoder io fs indexPath n files disk p (rpo_FindMisalignedData options) d" and set: "set_ok n files" and p: "0 < p" "p \<le> 65535"
    and rec: "recoverable phys options n files disk p" and budget: "d_memoryBudget d = rpo_MemoryBudget options"
  shows "repairable io fs phys d (contents files)"
proof -
  note L = loaded_decoderD [OF L]
  let ?k = "length (missing (presence d))"
  have kp: "?k \<le> p" using rec L(6) by (simp add: recoverable_def)
  have plan: "matrix_plan (slices_total n files) ?k (fold_budget phys (rpo_MemoryBudget options))"
    using rec matrix_plan_mono [OF _ L(6)] by (simp add: recoverable_def)
  have chosen: "chosen_blocks d = [0..<?k]"
    using kp by (simp add: chosen_blocks_def L(7) filter_id_conv take_upt cong: filter_cong)
  have orig: "contents files \<noteq> []" using set_okD(5) [OF set] by (metis length_0_conv length_contents)
  have total: "length (true_shards n (contents files)) = slices_total n files" by (simp flip: all_shards_eq)
  show ?thesis
    unfolding repairable_def Let_def L(1) chosen total
  proof (intro conjI)
    show "\<exists>s. [0..<?k] = [s..<s + ?k] \<and> s + ?k \<le> 65536" using kp p(2) by (intro exI [of _ 0]) simp
    show "\<forall>x \<in> set [0..<?k]. x < length (d_parityLocations d) \<and> block_stored io fs (d_parityLocations d ! x) (parity_block n (true_shards n (contents files)) x)"
      using L(8) kp by (simp add: blocks_stored_def L(1,7))
  qed (use orig p set_lengths(2) [OF set] set plan in \<open>simp_all add: L(7) budget set_ok_def\<close>)
qed

lemma loaded_apart:
  assumes L: "loaded_decoder io fs indexPath n files disk p misaligned d"
    and apart: "distinct (map (\<lambda>f. k (data_path indexPath f)) files)"
  shows "paths_apart k d"
proof -
  note L = loaded_decoderD [OF L]
  have "map (\<lambda>i. k (set_path d i)) [0..<length (d_recoverySet d)] = map (\<lambda>f. k (data_path indexPath f)) (set_files files)"
    unfolding L(2) by (rule nth_equalityI) (simp_all add: L(4))
  moreover have "mset (map (\<lambda>f. k (data_path indexPath f)) (set_files files)) = mset (map (\<lambda>f. k (data_path indexPath f)) files)"
    by (simp add: set_files_def)
  ultimately show ?thesis using apart unfolding paths_apart_def by (metis mset_eq_imp_distinct_iff)
qed

lemma loaded_checkable:
  assumes L: "loaded_decoder io fs indexPath n files disk p misaligned d"
    and "0 < d_numGoroutines d" and "sources_apart n files disk"
    and far: "\<forall>f \<in> set files. \<forall>q \<in> fst ` set (volume_files (stem_of indexPath) n files p (volume_ranges 0 1 p)).
      k q \<noteq> k (data_path indexPath f)"
  shows "double_checkable io k fs d (contents files)"
proof -
  note L = loaded_decoderD [OF L]
  have "sources_intact d (contents files)" by (rule sources_apart_intact [OF L(3,1,5) assms(3)])
  moreover have "k (pl_path (d_parityLocations d ! e)) \<noteq> k (set_path d i)" if "e < p" "i < length files" for e i
    using far L(9) [OF that(1)] set_file_mem [OF that(2)] unfolding L(4) [OF that(2)] by blast
  ultimately show ?thesis using assms(2) L(8) unfolding double_checkable_def by (simp add: L(2,7))
qed

lemma loaded_restored:
  assumes L: "loaded_decoder io fs indexPath n files disk p misaligned d" and R: "restored io k fs fs' d (contents files)"
  shows "f \<in> set files \<Longrightarrow> io_ReadFile io fs' (data_path indexPath f) = Inr (snd f)"
    and "k q \<notin> (\<lambda>f. k (data_path indexPath f)) ` set files \<Longrightarrow> io_ReadFile io fs' q = io_ReadFile io fs q"
    and "map (set_path d) (filter (\<lambda>i. \<not> was_ok d i) [0..<length (d_recoverySet d)])
      = map (\<lambda>i. data_path indexPath (set_files files ! i)) (filter (\<lambda>i. disk ! i \<noteq> Some (contents files ! i)) [0..<length files])"
proof -
  note L = loaded_decoderD [OF L]
  show "io_ReadFile io fs' (data_path indexPath f) = Inr (snd f)" if "f \<in> set files"
  proof -
    from that obtain i where i: "i < length files" "set_files files ! i = f" by (metis in_set_conv_nth length_set_files set_set_files)
    then have "io_ReadFile io fs' (set_path d i) = Inr (contents files ! i)" using R by (simp add: restored_def L(2))
    then show ?thesis using i by (simp only: L(4) contents_nth)
  qed
  show "io_ReadFile io fs' q = io_ReadFile io fs q" if "k q \<notin> (\<lambda>f. k (data_path indexPath f)) ` set files"
  proof -
    have "k q \<noteq> k (set_path d i)" if "i < length files" for i
      using \<open>k q \<notin> _\<close> set_file_mem [OF that] by (auto simp: L(4) [OF that])
    then show ?thesis using R by (simp add: restored_def L(2))
  qed
  have "filter (\<lambda>i. \<not> was_ok d i) [0..<length files] = filter (\<lambda>i. disk ! i \<noteq> Some (contents files ! i)) [0..<length files]"
    by (rule filter_cong) (simp_all add: L(5))
  then show "map (set_path d) (filter (\<lambda>i. \<not> was_ok d i) [0..<length (d_recoverySet d)])
      = map (\<lambda>i. data_path indexPath (set_files files ! i)) (filter (\<lambda>i. disk ! i \<noteq> Some (contents files ! i)) [0..<length files])"
    unfolding L(2) by (intro map_cong) (auto simp: L(4))
qed

lemma repair_set:
  assumes store: "patch_store ok key io wdata wpath" and ok: "ok fs" and e: "env_ok e"
    and abs: "path_IsAbs indexPath" and ext: "path_Ext indexPath = str ''.par2''"
    and set: "set_ok n files" and p: "0 < p" "p \<le> 65535" and disk: "volumes_on_disk io fs indexPath n files p"
    and wo: "windows_ok windows" and sch: "repair_schedule_ok rsched"
    and left: "data_left io fs indexPath files disk"
    and apart: "distinct (map (\<lambda>f. key fs (data_path indexPath f)) files)"
    and rec: "recoverable phys options n files disk p"
    and dc: "rpo_DoubleCheck options \<longrightarrow> 0 < chosen (rpo_NumGoroutines options) ncpu \<and> sources_apart n files disk \<and>
      (\<forall>f \<in> set files. \<forall>q \<in> fst ` set (volume_files (stem_of indexPath) n files p (volume_ranges 0 1 p)).
        key fs q \<noteq> key fs (data_path indexPath f))"
  shows "\<exists>run. repair e phys ncpu sched psched rsched windows io fs indexPath options = Some (Inr run) \<and> rr_err run = None \<and>
    rr_paths run = map (\<lambda>i. data_path indexPath (set_files files ! i)) (filter (\<lambda>i. disk ! i \<noteq> Some (contents files ! i)) [0..<length files]) \<and>
    ok (rr_fs run) \<and> (\<forall>f \<in> set files. io_ReadFile io (rr_fs run) (data_path indexPath f) = Inr (snd f)) \<and>
    (\<forall>q. key fs q \<notin> (\<lambda>f. key fs (data_path indexPath f)) ` set files \<longrightarrow> io_ReadFile io (rr_fs run) q = io_ReadFile io fs q)"
proof -
  define g where "g = (if rpo_NumGoroutines options \<le> 0 then ncpu else rpo_NumGoroutines options)"
  define policy where "policy = \<lparr> findMisaligned = rpo_FindMisalignedData options, searchLimit = rpo_MisalignedSearchLimit options \<rparr>"
  have nc: "no_collision n files disk" using rec by (simp add: recoverable_def)
  obtain opened d scanned windows' d1 loaded d2 where
    opened: "newDecoder io fs indexPath g policy (rpo_MemoryBudget options) = (opened, Inr d)"
    and scan: "LoadFileData sched io fs windows d = Some (Inr (scanned, windows', Inr d1))"
    and parity: "LoadParityData psched io fs d = Some (Inr (loaded, Inr d2))"
    and L: "loaded_decoder io fs indexPath n files disk p (findMisaligned policy)
       (d1\<lparr> d_parityPresent := d_parityPresent d2, d_parityLocations := d_parityLocations d2 \<rparr>)"
    and d1: "d_numGoroutines d1 = g" "d_memoryBudget d1 = rpo_MemoryBudget options"
    by (rule set_loaded [OF store ok abs ext set p(2) disk wo left nc])
  define d' where "d' = d1\<lparr> d_parityPresent := d_parityPresent d2, d_parityLocations := d_parityLocations d2 \<rparr>"
  note L = L [folded d'_def, unfolded policy_def scanPolicy.simps]
  have d': "d_numGoroutines d' = g" "d_memoryBudget d' = rpo_MemoryBudget options" by (simp_all add: d'_def d1)
  have dc': "rpo_DoubleCheck options \<longrightarrow> double_checkable io (key fs) fs d' (contents files)"
  proof
    assume "rpo_DoubleCheck options"
    with dc have c: "0 < chosen (rpo_NumGoroutines options) ncpu" "sources_apart n files disk"
      "\<forall>f \<in> set files. \<forall>q \<in> fst ` set (volume_files (stem_of indexPath) n files p (volume_ranges 0 1 p)).
        key fs q \<noteq> key fs (data_path indexPath f)" by blast+
    show "double_checkable io (key fs) fs d' (contents files)"
      by (rule loaded_checkable [OF L _ c(2,3)]) (use c(1) in \<open>simp add: d' g_def chosen_def\<close>)
  qed
  from patch_store.Repair_right [OF store ok e sch loaded_decoderD(3) [OF L] loaded_repairable [OF L set p rec d'(2)] loaded_apart [OF L apart] dc']
  obtain out where
    out: "Repair e rsched phys io fs d' (rpo_DoubleCheck options) = Some (Inr out)" "ro_err out = None"
      "ro_paths out = map (set_path d') (filter (\<lambda>i. \<not> was_ok d' i) [0..<length (d_recoverySet d')])" "ok (ro_fs out)"
      "restored io (key fs) fs (ro_fs out) d' (contents files)" by blast
  note after = loaded_restored [OF L out(5)]
  have "checkExtension indexPath = Inr ()" using ext by (simp add: checkExtension_def)
  then have "repair e phys ncpu sched psched rsched windows io fs indexPath options = Some (Inr \<lparr> rr_opened = opened, rr_scanned = scanned,
      rr_loaded = loaded, rr_written = ro_events out, rr_paths = ro_paths out, rr_err = ro_err out, rr_fs = ro_fs out \<rparr>)"
    unfolding repair_def Let_def g_def [symmetric] policy_def [symmetric]
    using out(1) by (simp add: opened scan parity d'_def)
  with out(2-4) after show ?thesis by simp
qed

section \<open>From creation to repair\<close>

lemma data_path_abs: "path_IsAbs parPath \<Longrightarrow> path_IsAbs (data_path parPath f)"
  using filepath_Dir_abs [of parPath] path_Clean_rooted by (auto simp: filepath_Join_def path_IsAbs_def)

text \<open>No data file has the name of the index file or of a recovery volume.\<close>

lemma ready_names:
  assumes "create_ready ncpu workingDir io fs parPath filePaths options n files p" and "f \<in> set files"
  shows "data_path parPath f \<noteq> parPath" and "data_path parPath f \<noteq> (stem_of parPath @ [Filenames.dot]) @ mid @ str ''.par2''"
proof -
  note r = assms(1) [unfolded create_ready_def]
  from r assms(2) show "data_path parPath f \<noteq> parPath" by blast
  have "io_ReadFile io fs (data_path parPath f) = Inr (snd f)" using r assms(2) by blast
  moreover have "io_ReadFile io fs ((stem_of parPath @ [Filenames.dot]) @ mid @ str ''.par2'') \<noteq> Inr (snd f)" using r by blast
  ultimately show "data_path parPath f \<noteq> (stem_of parPath @ [Filenames.dot]) @ mid @ str ''.par2''" by metis
qed

lemma ready_outside:
  assumes "create_ready ncpu workingDir io fs parPath filePaths options n files p"
  shows "parPath \<notin> data_path parPath ` set files" and "(stem_of parPath @ [Filenames.dot]) @ mid @ str ''.par2'' \<notin> data_path parPath ` set files"
proof -
  have out: "x \<notin> data_path parPath ` set files" if "\<And>f. f \<in> set files \<Longrightarrow> data_path parPath f \<noteq> x" for x
    using that by blast
  show "parPath \<notin> data_path parPath ` set files" by (rule out) (rule ready_names(1) [OF assms])
  show "(stem_of parPath @ [Filenames.dot]) @ mid @ str ''.par2'' \<notin> data_path parPath ` set files"
    by (rule out) (rule ready_names(2) [OF assms])
qed

text \<open>The damage: any files may have changed that are data files of the set, and nothing else.\<close>

definition damage_to :: "('fs, 'w) fileIO \<Rightarrow> 'fs \<Rightarrow> 'fs \<Rightarrow> gostring \<Rightarrow> input_file list \<Rightarrow> byte list option list \<Rightarrow> bool" where
  "damage_to io fs fs' parPath files disk \<longleftrightarrow> data_left io fs' parPath files disk \<and>
     (\<forall>q. path_IsAbs q \<longrightarrow> q \<notin> data_path parPath ` set files \<longrightarrow> io_ReadFile io fs' q = io_ReadFile io fs q)"

lemma volumes_survive:
  assumes ready: "create_ready ncpu workingDir io fs parPath filePaths options n files p"
    and disk: "on_disk io fs1 parPath n files p" and dam: "damage_to io fs1 fs2 parPath files disk"
  shows "volumes_on_disk io fs2 parPath n files p"
proof -
  note V = disk [unfolded on_disk_def volumes_on_disk_def]
  have abs: "path_IsAbs parPath" "path_IsAbs (stem_of parPath)" using ready stem_of_abs by (simp_all add: create_ready_def)
  have pre: "path_IsAbs ((stem_of parPath @ [Filenames.dot]) @ mid @ str ''.par2'')" for mid
    using abs(2) by (cases "stem_of parPath") (simp_all add: path_IsAbs_def)
  have same: "io_ReadFile io fs2 ((stem_of parPath @ [Filenames.dot]) @ mid @ str ''.par2'')
      = io_ReadFile io fs1 ((stem_of parPath @ [Filenames.dot]) @ mid @ str ''.par2'')" for mid
    using dam pre [of mid] ready_outside(2) [OF ready, of mid] unfolding damage_to_def by blast
  have "io_ReadFile io fs2 parPath = io_ReadFile io fs1 parPath"
    using dam abs(1) ready_outside(1) [OF ready] unfolding damage_to_def by blast
  moreover
  have "io_ReadFile io fs2 q = Inr c" if vol: "(q, c) \<in> set (volume_files (stem_of parPath) n files p (volume_ranges 0 1 p))" for q c
  proof -
    have "io_ReadFile io fs1 q = Inr c" using V vol by blast
    moreover obtain i k where "q = volume_name (stem_of parPath) i k" using vol by auto
    ultimately show ?thesis using same by (simp add: volume_name_mid)
  qed
  then have "\<forall>(q, c) \<in> set (volume_files (stem_of parPath) n files p (volume_ranges 0 1 p)). io_ReadFile io fs2 q = Inr c" by blast
  ultimately show ?thesis using V unfolding volumes_on_disk_def same by simp
qed

text \<open>
  C1: What \<open>create\<close> protects, \<open>repair\<close> restores, where the losses stay within the following bounds.  Let the file
  system be any that keeps the contract of \<open>patch_store\<close>, and let the arguments of \<open>create\<close> describe a set
  (\<open>create_ready\<close>) whose data files have different paths.  \<open>create\<close> ends without an error, and leaves the data
  files as they are.  Afterwards let data files of the set, and nothing else, be changed, replaced, cut or
  removed (\<open>damage_to\<close>), such that
  \<^item> (\<open>no_collision\<close>) no place of a file that is left has both checksums of a slice without being that slice;
  \<^item> (\<open>lost_slices\<close>) no more slices are lost than there are recovery blocks, where without the misaligned
    search a slice is lost that is at no slice boundary of any file left, and with it every slice of a
    file that is not intact counts as lost, as the search may give up before it finds them;
  \<^item> (\<open>matrix_plan\<close>) the reconstruction of as many slices works with the matrix: fewer than 1024 are
    lost, or the number of all slices times the number of lost ones is below \<open>8 * 2 ^ 20\<close>, or the memory
    budget is below 64 MiB; repairs by the additive transform are not covered;
  \<^item> (\<open>sources_apart\<close>) if the double check is asked for, no file that is damaged contains a slice of an
    intact file at any offset; otherwise the double check can fail after a correct repair.

  Under these conditions, for all schedules, scan policies, memory budgets within the third condition and
  numbers of workers (at least one for the double check), \<open>repair\<close> ends without an error, every
  data file has the contents it was created from, and no other file has changed.
\<close>

theorem create_damage_repair:
  assumes "patch_store ok key io wdata wpath" and "ok fs" and "env_ok e"
    and "create_ready ncpu workingDir io fs parPath filePaths options n files p"
    and "distinct (map (data_path parPath) files)"
  shows "\<exists>fs1 events. create e ncpu workingDir io fs parPath filePaths options = Some (fs1, events, None) \<and> ok fs1 \<and>
    (\<forall>f \<in> set files. io_ReadFile io fs1 (filepath_Join (filepath_Dir parPath) (fst f)) = Inr (snd f)) \<and>
    (\<forall>fs2 disk phys ncpu' sched psched rsched windows roptions.
      ok fs2 \<and> damage_to io fs1 fs2 parPath files disk \<and> recoverable phys roptions n files disk p \<and>
      windows_ok windows \<and> repair_schedule_ok rsched \<and>
      (rpo_DoubleCheck roptions \<longrightarrow> 0 < chosen (rpo_NumGoroutines roptions) ncpu' \<and> sources_apart n files disk) \<longrightarrow>
      (\<exists>run. repair e phys ncpu' sched psched rsched windows io fs2 parPath roptions = Some (Inr run) \<and> rr_err run = None \<and>
        (\<forall>f \<in> set files. io_ReadFile io (rr_fs run) (filepath_Join (filepath_Dir parPath) (fst f)) = Inr (snd f)) \<and>
        (\<forall>q. path_IsAbs q \<longrightarrow> q \<notin> data_path parPath ` set files \<longrightarrow> io_ReadFile io (rr_fs run) q = io_ReadFile io fs1 q)))"
proof -
  have store: "file_store ok key io" using assms(1) by (rule patch_store.axioms)
  from create_on_disk [OF store assms(2-4)] obtain fs1 events where
    c: "create e ncpu workingDir io fs parPath filePaths options = Some (fs1, events, None)"
    and ok1: "ok fs1" and disk: "on_disk io fs1 parPath n files p" by blast
  from assms(4) have ready: "path_Ext parPath = str ''.par2''" "path_IsAbs parPath" "set_ok n files" "p \<le> 65535"
    "chosen (NumParityShards options) NumParityShardsDefault = int p" by (simp_all add: create_ready_def)
  have p: "0 < p" using ready(5) by (auto simp: chosen_def NumParityShardsDefault_def split: if_splits)
  have "\<exists>run. repair e phys ncpu' sched psched rsched windows io fs2 parPath roptions = Some (Inr run) \<and> rr_err run = None \<and>
        (\<forall>f \<in> set files. io_ReadFile io (rr_fs run) (filepath_Join (filepath_Dir parPath) (fst f)) = Inr (snd f)) \<and>
        (\<forall>q. path_IsAbs q \<longrightarrow> q \<notin> data_path parPath ` set files \<longrightarrow> io_ReadFile io (rr_fs run) q = io_ReadFile io fs1 q)"
    if ok: "ok fs2" and dam: "damage_to io fs1 fs2 parPath files disk" and rec: "recoverable phys roptions n files disk p"
      and sch: "windows_ok windows" "repair_schedule_ok rsched"
      and dc: "rpo_DoubleCheck roptions \<longrightarrow> 0 < chosen (rpo_NumGoroutines roptions) ncpu' \<and> sources_apart n files disk"
    for fs2 disk phys ncpu' sched psched rsched windows roptions
  proof -
    have key: "key fs2 q = q" if "path_IsAbs q" for q using file_store.key_abs [OF store ok that] .
    note abs = data_path_abs [OF ready(2)]
    have keys: "key fs2 (data_path parPath f) = data_path parPath f" for f by (rule key [OF abs])
    have "key fs2 q \<noteq> key fs2 (data_path parPath f)"
      if f: "f \<in> set files" and vol: "q \<in> fst ` set (volume_files (stem_of parPath) n files p (volume_ranges 0 1 p))" for f q
    proof -
      obtain mid where q: "q = (stem_of parPath @ [Filenames.dot]) @ mid @ str ''.par2''" using vol by (auto simp: volume_name_mid)
      have "path_IsAbs q" using stem_of_abs [OF ready(2,1)] unfolding q by (cases "stem_of parPath") (simp_all add: path_IsAbs_def)
      then show ?thesis using ready_names(2) [OF assms(4) f, of mid] by (simp add: key keys q)
    qed
    with dc have dc': "rpo_DoubleCheck roptions \<longrightarrow> 0 < chosen (rpo_NumGoroutines roptions) ncpu' \<and> sources_apart n files disk \<and>
      (\<forall>f \<in> set files. \<forall>q \<in> fst ` set (volume_files (stem_of parPath) n files p (volume_ranges 0 1 p)). key fs2 q \<noteq> key fs2 (data_path parPath f))"
      by blast
    have left: "data_left io fs2 parPath files disk" using dam by (simp add: damage_to_def)
    have dist: "distinct (map (\<lambda>f. key fs2 (data_path parPath f)) files)" using assms(5) by (simp only: keys)
    from repair_set [OF assms(1) ok assms(3) ready(2,1,3) p ready(4) volumes_survive [OF assms(4) \<open>on_disk io fs1 parPath n files p\<close> dam]
      sch left dist rec dc', of sched psched]
    obtain run where run: "repair e phys ncpu' sched psched rsched windows io fs2 parPath roptions = Some (Inr run)" "rr_err run = None"
      "\<forall>f \<in> set files. io_ReadFile io (rr_fs run) (data_path parPath f) = Inr (snd f)"
      "\<forall>q. key fs2 q \<notin> (\<lambda>f. key fs2 (data_path parPath f)) ` set files \<longrightarrow> io_ReadFile io (rr_fs run) q = io_ReadFile io fs2 q" by blast
    have "io_ReadFile io (rr_fs run) q = io_ReadFile io fs1 q" if "path_IsAbs q" "q \<notin> data_path parPath ` set files" for q
      using run(4) dam that by (simp add: damage_to_def key keys)
    with run(1-3) show ?thesis by blast
  qed
  with c ok1 disk show ?thesis unfolding on_disk_def by blast
qed

text \<open>The file of the example is removed and comes back, with the double check.\<close>

theorem create_damage_repair_witness:
  "\<exists>fs1 events fs2 run.
    create (pure_env True) 1 (str ''/d'') memfs_io \<lparr> fs_workingDir = str ''/d'', fs_fileData = [(str ''/d/a'', [1, 2, 3, 4, 5])] \<rparr>
      (str ''/d/s.par2'') [str ''a''] \<lparr> SliceByteCount = 4, NumParityShards = 0, NumGoroutines = 0 \<rparr> = Some (fs1, events, None) \<and>
    RemoveFile fs1 (str ''/d/a'') = Inr ([1, 2, 3, 4, 5], fs2) \<and> ReadFile fs2 (str ''/d/a'') = Inl OsErrNotExist \<and>
    repair (pure_env True) 0 2 [1, 0, 1] [0] \<lparr> rs_fold = \<lparr> fs_tasks = (\<lambda>n. [0..<n]), fs_pick = (\<lambda>i. 0) \<rparr>, rs_copy = rev, rs_commit = (\<lambda>xs. xs), rs_windows = [], rs_slices = [] \<rparr>
      Map.empty memfs_io fs2 (str ''/d/s.par2'') \<lparr> rpo_DoubleCheck = True, rpo_NumGoroutines = 0, rpo_FindMisalignedData = True,
        rpo_MisalignedSearchLimit = 0, rpo_MemoryBudget = 0 \<rparr> = Some (Inr run) \<and>
    rr_err run = None \<and> ReadFile (rr_fs run) (str ''/d/a'') = Inr [1, 2, 3, 4, 5]"
proof -
  let ?f = "(str ''a'', [1, 2, 3, 4, 5]) :: input_file"
  let ?fs = "\<lparr> fs_workingDir = str ''/d'', fs_fileData = [(str ''/d/a'', [1, 2, 3, 4, 5])] \<rparr>"
  let ?o = "\<lparr> SliceByteCount = 4, NumParityShards = 0, NumGoroutines = 0 \<rparr>"
  let ?ro = "\<lparr> rpo_DoubleCheck = True, rpo_NumGoroutines = 0, rpo_FindMisalignedData = True, rpo_MisalignedSearchLimit = 0, rpo_MemoryBudget = 0 \<rparr>"
  let ?sch = "\<lparr> rs_fold = \<lparr> fs_tasks = (\<lambda>n. [0..<n]), fs_pick = (\<lambda>i. 0) \<rparr>, rs_copy = rev, rs_commit = (\<lambda>xs. xs), rs_windows = [], rs_slices = [] \<rparr>"
  have path: "filepath_Join (filepath_Dir (str ''/d/s.par2'')) (str ''a'') = str ''/d/a''" "path_IsAbs (str ''/d/a'')" by code_simp+
  have rd [simp]: "io_ReadFile memfs_io = ReadFile" by (simp add: memfs_io_def)
  have "distinct (map (data_path (str ''/d/s.par2'')) [?f])" by simp
  from create_damage_repair [OF memfs_patch.patch_store_axioms create_ready_example(1) env_ok_pure(1) [of True] create_ready_example(2) this]
  obtain fs1 events where c: "create (pure_env True) 1 (str ''/d'') memfs_io ?fs (str ''/d/s.par2'') [str ''a''] ?o = Some (fs1, events, None)"
    and ok1: "fs_ok fs1" and data: "\<forall>f \<in> set [?f]. io_ReadFile memfs_io fs1 (filepath_Join (filepath_Dir (str ''/d/s.par2'')) (fst f)) = Inr (snd f)"
    and H: "\<forall>fs2 disk phys ncpu' sched psched rsched windows roptions.
      fs_ok fs2 \<and> damage_to memfs_io fs1 fs2 (str ''/d/s.par2'') [?f] disk \<and> recoverable phys roptions 4 [?f] disk 3 \<and>
      windows_ok windows \<and> repair_schedule_ok rsched \<and>
      (rpo_DoubleCheck roptions \<longrightarrow> 0 < chosen (rpo_NumGoroutines roptions) ncpu' \<and> sources_apart 4 [?f] disk) \<longrightarrow>
      (\<exists>run. repair (pure_env True) phys ncpu' sched psched rsched windows memfs_io fs2 (str ''/d/s.par2'') roptions = Some (Inr run) \<and> rr_err run = None \<and>
        (\<forall>f \<in> set [?f]. io_ReadFile memfs_io (rr_fs run) (filepath_Join (filepath_Dir (str ''/d/s.par2'')) (fst f)) = Inr (snd f)) \<and>
        (\<forall>q. path_IsAbs q \<longrightarrow> q \<notin> data_path (str ''/d/s.par2'') ` set [?f] \<longrightarrow> io_ReadFile memfs_io (rr_fs run) q = io_ReadFile memfs_io fs1 q))"
    by blast
  have a: "ReadFile fs1 (str ''/d/a'') = Inr [1, 2, 3, 4, 5]" using data by (simp add: path)
  have key: "fs_key fs q = q" if "fs_ok fs" "path_IsAbs q" for fs q using that by (simp add: fs_key_def toAbsPath_def fs_ok_def)
  have "fs_view fs1 (fs_key fs1 (str ''/d/a'')) = Some [1, 2, 3, 4, 5]" using a ReadFile_view [OF ok1, of "str ''/d/a''"] by (simp split: option.splits)
  from RemoveFile_view(2) [OF ok1 this] obtain fs2 where
    r: "RemoveFile fs1 (str ''/d/a'') = Inr ([1, 2, 3, 4, 5], fs2)" "fs_ok fs2" "fs_key fs2 = fs_key fs1"
      "fs_view fs2 = (fs_view fs1)(fs_key fs1 (str ''/d/a'') := None)" by blast
  have gone: "ReadFile fs2 (str ''/d/a'') = Inl OsErrNotExist" using ReadFile_view [OF r(2)] r(3,4) by simp
  have kept: "ReadFile fs2 q = ReadFile fs1 q" if "path_IsAbs q" "q \<noteq> str ''/d/a''" for q
    using ReadFile_view [OF r(2)] ReadFile_view [OF ok1] key [OF ok1] that path(2) r(3,4) by simp
  have one: "set_files [?f] = [?f]" by (simp add: set_files_def)
  have "damage_to memfs_io fs1 fs2 (str ''/d/s.par2'') [?f] [None]"
    using gone kept by (simp add: damage_to_def data_left_def one path)
  moreover have "recoverable 0 ?ro 4 [?f] [None] 3"
    by (simp add: recoverable_def no_collision_def lost_slices_def damaged_slices_def contents_def one nslices_def matrix_plan_def)
  moreover have "repair_schedule_ok ?sch" "windows_ok Map.empty" by (simp_all add: repair_schedule_ok_def windows_ok_def)
  moreover have "0 < chosen (rpo_NumGoroutines ?ro) 2" "sources_apart 4 [?f] [None]" by (simp_all add: chosen_def sources_apart_def)
  ultimately obtain run where
    "repair (pure_env True) 0 2 [1, 0, 1] [0] ?sch Map.empty memfs_io fs2 (str ''/d/s.par2'') ?ro = Some (Inr run)" "rr_err run = None"
    "ReadFile (rr_fs run) (str ''/d/a'') = Inr [1, 2, 3, 4, 5]"
    using H r(2) path by (metis (no_types, lifting) fst_conv list.set_intros(1) rd snd_conv)
  with c r(1) gone show ?thesis by blast
qed

end
