(* ===== verification/Spec2Isabelle.thy ===== *)
theory Spec2Isabelle
  imports LagrangeCorrect SetRepair
begin

text \<open>
  A model of gopar-turbo, a PAR2 (parity archive) implementation in Go, with the theorems that make
  its arithmetic, its Reed-Solomon coder, its file format, its search for intact slices and its repair correct.

  \<^bold>\<open>The program.\<close>  Package \<open>gf2\<close> multiplies and divides polynomials over GF(2).  Package \<open>gf2p16\<close>
  builds from it the tables of GF(2^16), its operations, operations on byte slices and matrices.
  Package \<open>gf16\<close> is the backend for region arithmetic (pure Go, or SIMD behind cgo).  Package
  \<open>rsec16\<close> applies matrices to shards, in memory or streaming, and contains the coder: parity
  generation and reconstruction.  Package \<open>par2\<close> reads and writes the packets and volumes of the
  PAR2 format, scans damaged files for intact slices and repairs them with the coder.  Package
  \<open>memfs\<close> is the in-memory file system the tests run \<open>par2\<close> on.

  \<^bold>\<open>Theories: arithmetic and coder.\<close>
  \<^item> \<open>Prelude\<close>: Go's machine integers, errors and panics as values, slices, little-endian integers.
  \<^item> \<open>Poly64\<close>: src/gf2/poly64.go.
  \<^item> \<open>GF2p16\<close>, \<open>GFField\<close>: the field the tables are about, as the type \<open>T\<close> with its field instance, and
    the fact that 2 and 3 generate its multiplicative group.
  \<^item> \<open>GFTables\<close>: src/gf2p16/t.go, \<open>init\<close> with its panics and the table-driven operations.
  \<^item> \<open>Slices\<close>: src/gf2p16/slice.go, slice_unsafe.go, slice_nonamd64.go, t_amd64.go; the locale
    \<open>region_arith\<close> is what the callers of the region functions rely on.
  \<^item> \<open>Matrix16\<close>: src/gf2p16/matrix.go; \<open>RowReduceForInverse\<close> row reduces both matrices or finds the
    left one singular.
  \<^item> \<open>Gf16\<close>: src/gf16, the pure-Go backend and the batch executor; the locale \<open>gf16_backend\<close> is the
    contract of a backend, which the pure-Go context interprets.
  \<^item> \<open>ApplyMatrix\<close>, \<open>Fold\<close>: src/rsec16/matrix.go, apply_gf16.go, fold.go; the routines compute the
    matrix product, in every order of their work units.
  \<^item> \<open>Coder\<close>, \<open>Mds\<close>, \<open>Reconstruct\<close>: src/rsec16/coder.go, cauchy.go, vandermonde.go; which losses
    \<open>ReconstructData\<close> repairs, and that what it returns is the lost data.

  \<^bold>\<open>Theories: additive transforms.\<close>
  \<^item> \<open>Additive\<close>: src/rsec16/additive.go.  \<open>AdditiveBasis\<close>: its basis, whose points are all field elements
    and whose linearised polynomials vanish on the spans of the first coordinates.
  \<^item> \<open>NovelBasis\<close>, \<open>NovelConvert\<close>, \<open>AdditiveFFT\<close>, \<open>AdditiveProduct\<close>: over any algebra of the field (the locale
    \<open>T_algebra\<close>, interpreted on the field and on the dual numbers) the conversions keep the polynomial,
    the transform evaluates it, products equal schoolbook products, \<open>differentiate\<close> is the derivative.
  \<^item> \<open>Lagrange\<close>, \<open>LagrangeCorrect\<close>: src/rsec16/par2_lagrange.go, the closed form of the reconstruction matrix.
  \<^item> \<open>RegionPrograms\<close>, \<open>Par2Transform\<close>, \<open>Par2Plan\<close>: src/rsec16/additive_regions.go, additive_pruned.go,
    par2_transform.go and par2_plan.go, the transforms as programs of region operations and the plans that
    choose between them and a matrix.

  \<^bold>\<open>Theories: packets, files and volumes.\<close>
  \<^item> \<open>ByteArray\<close>: Go's fixed-size byte arrays (\<open>[16]byte\<close> and the like) as a type, usable as map keys.
  \<^item> \<open>Md5\<close>: MD5, which the packets, slices and files are hashed with, executable.
  \<^item> \<open>Packets\<close>: src/par2/packet.go.  \<open>readNextPacketBorrowed\<close> and \<open>writeNextPacket\<close>: a packet that is
    accepted consists of the bytes that are written for its set, type and body.
  \<^item> \<open>Filenames\<close>: src/par2/string.go, the file names of file_description_packet.go and the cleaning
    of paths they rest on; the names that pass \<open>checkFilename\<close> stay inside the directory.
  \<^item> \<open>PacketBodies\<close>: main_packet.go, file_description_packet.go, ifsc_packet.go, recovery_packet.go
    and creator_packet.go; the locale \<open>packet_codec\<close> is the contract of a body's reader and writer,
    which each of the five kinds interprets.
  \<^item> \<open>PacketFile\<close>, \<open>FileRoundtrip\<close>: src/par2/file.go.  \<open>readFile\<close> with the calls to its delegate as
    events, \<open>writeFile\<close>; reading a written file gives it back.
  \<^item> \<open>Volume\<close>: src/par2/volume.go.  \<open>walkPackets\<close>, \<open>indexPackets\<close> and \<open>readPacketAt\<close> over any
    random-access reader; the locale \<open>reader_over\<close> is the contract of such a reader, the reader of a
    byte slice interprets it.

  \<^bold>\<open>Theories: the search for slices, and memfs.\<close>
  \<^item> \<open>Crc32\<close>: src/par2/crc32.go, the rolling CRC-32 equals the CRC-32 of the window.
  \<^item> \<open>Scan\<close>, \<open>ScanCorrect\<close>: data_file.go of src/par2, and the checksum map and the scan of
    decoder.go with the records it fills; the slices a scan reports
    lie in the file at the places reported, the scan ends, and a file as it was created is found whole.
  \<^item> \<open>MemFS\<close>: src/memfs/memfs.go.  The locale \<open>file_io\<close> is what the users of a file system rely on;
    \<open>memfs\<close> interprets it.

  \<^bold>\<open>Theories: the decoder.\<close>
  \<^item> \<open>FileIO\<close>: the functions of package \<open>path/filepath\<close> and the interface \<open>fileIO\<close> of decoder.go; the
    locale \<open>file_store\<close>, an extension of \<open>file_io\<close>, is its contract, which \<open>memfs\<close> interprets.
  \<^item> \<open>Pool\<close>, \<open>PoolTally\<close>: pools of goroutines that take tasks from a channel and share a state.  The
    locales \<open>pool_work\<close>, \<open>pool_exact\<close> and \<open>pool_tally\<close> give what holds for every schedule: the pool
    ends, and the work recorded is the work of all tasks.
  \<^item> \<open>WindowScan\<close>, \<open>WindowScanCorrect\<close>: \<open>forEachWindow\<close> and \<open>scanFilesWindowed\<close> of windowscan.go.
  \<^item> \<open>Decoder\<close>, \<open>DecoderScan\<close>, \<open>DecoderVerdict\<close>: decoder.go, from \<open>newDecoder\<close> to \<open>LoadFileData\<close> with the
    windowed and the streaming scan, and \<open>ShardCounts\<close>; \<open>LoadFileData\<close> judges every file right, and the
    corrupt chunks it reports are the slices it did not find at their places.
  \<^item> \<open>ParityLoad\<close>, \<open>ParityLoaded\<close>, \<open>ParityResult\<close>: \<open>LoadParityData\<close> and \<open>LoadParityPresence\<close> of decoder.go,
    which find the same blocks for every schedule.

  \<^bold>\<open>Theories: repair.\<close>
  \<^item> \<open>Reconstruction\<close>: src/par2/reconstruct.go and memory.go; \<open>WrittenCheck\<close>: the check of written files in
    windowscan.go; \<open>Repair\<close>: the repair of decoder.go and repair.go.
  \<^item> \<open>PlanCorrect\<close>: a plan that works with a matrix rebuilds the missing rows of every byte range.
  \<^item> \<open>WrittenChecked\<close>: what the check of written files accepts, for every schedule.
  \<^item> \<open>PatchStore\<close>: the locale \<open>patch_store\<close>, an extension of \<open>file_store\<close> by the writers of a repair,
    which \<open>memfs\<close> interprets.  \<open>DamagedSet\<close>: what the decoder knows of a damaged set, and reading from it.
  \<^item> \<open>RepairInputs\<close>, \<open>RepairCopy\<close>, \<open>RepairSink\<close>, \<open>RepairRun\<close>, \<open>RepairDone\<close>: the phases of \<open>Repair\<close> on a
    damaged set: the inputs of the reconstruction, the slices that survived, the rows as they are
    written, the ranges of the fold, and the commit with the check of what was written.
  \<^item> \<open>RepairRestores\<close>: the double check, and \<open>Repair\<close> as a whole.  \<open>SetRepair\<close>: a set that \<open>create\<close> wrote
    and that was damaged is restored by \<open>repair\<close>, under the conditions its claim lists.

  \<^bold>\<open>Theories: creating and verifying.\<close>
  \<^item> \<open>Encoder\<close>: src/par2/encoder.go and create.go, from \<open>newEncoder\<close> to the loop of \<open>Write\<close> that doubles
    the size of the volumes; \<open>Verify\<close>: src/par2/verify.go.
  \<^item> \<open>EncoderWrite\<close>, \<open>EncoderRun\<close>, \<open>EncoderVolumes\<close>: the packets of a written file, which are all accepted by
    the readers; what the encoder has in memory for given files; the volumes, whose ranges partition
    the exponents and whose names differ.
  \<^item> \<open>CreateVerify\<close>: on any file system with the contract of \<open>file_store\<close>, a set that \<open>create\<close> wrote verifies.

  \<^bold>\<open>Conventions.\<close>  A function that can fail or panic has a result in \<open>'a res\<close>, the error on the left.
  Non-negative Go integers are naturals, other integers words of their width.  A byte slice that a
  function writes is returned updated.  A buffer that is read is the list of the bytes not read yet.
  The calls of a delegate are a list of events that is part of the result.  Go maps are partial
  functions; where the code ranges over one, the order is an argument or the map is an association
  list, and the theorems hold for every order.  Goroutines are steps whose order is an argument; the
  theorems quantify over all orders.  Loops are recursive functions with their termination proofs;
  those that need not end (\<open>indexPackets\<close>, and the scan before its termination is proved) are
  \<open>partial_function (option)\<close>, where None means that the loop runs on.  No model has fuel.
  The repair of a set is shown for the losses whose plan is the matrix, as all below 1024 slices are (\<open>matrix_plan\<close>),
  and its double check for sets whose damaged files contain no slice of an intact one (\<open>sources_apart\<close>).

  \<^bold>\<open>Not modelled.\<close>  Assembly, the C++ kernels and their cgo glue, operating-system calls, logging and
  the benchmark command.  The region programs of a transform run on the pure-Go backend only.  Concurrency finer than a
  goroutine's or a work unit's step on its own rows is not modelled: the ranges that run in parallel
  do not overlap, which the partition theorem states.
\<close>

end
